(* ===== verification/Prelude.thy ===== *)
theory Prelude
  imports Main "HOL-Library.Word"
begin

text \<open>
  Shared vocabulary of the development: the C integer conversions the sources use, the
  contiguous segment of a circular array (both ring buffers of the program are circular
  arrays), error results, and the collections of rewrite rules the component theories fill.
\<close>

named_theorems ring_simps \<open>facts about segments of circular arrays\<close>
named_theorems fifo_simps \<open>facts about bounded FIFO operations\<close>
named_theorems heap_simps \<open>facts about the shared chunk store\<close>

type_synonym byte = "8 word"
type_synonym u32 = "32 word"
type_synonym u64 = "64 word"

subsection \<open>Error results\<close>

text \<open>
  The sources leave a computation in these ways that are not a return: a failed
  \<open>assert\<close>, the macro \<open>EXIT_TRACE\<close>, a division by zero trapped by the processor, and an
  access to memory that is not allocated (undefined in C, so no operation of a correct
  program reaches it).
\<close>

datatype err = AssertFailed | ExitTrace string | DivByZero | BadAccess

subsection \<open>C integer conversions\<close>

text \<open>
  A C \<open>int\<close> that meets a \<open>size_t\<close> in an arithmetic or comparison operator is converted to
  \<open>size_t\<close> first, that is modulo $2^{64}$.
\<close>

definition to_size_t :: "int \<Rightarrow> nat" where
  "to_size_t x = nat (x mod 2 ^ 64)"

lemma to_size_t_small: "0 \<le> x \<Longrightarrow> x < 2 ^ 64 \<Longrightarrow> to_size_t x = nat x"
  by (simp add: to_size_t_def)

lemma to_size_t_of_nat: "n < 2 ^ 64 \<Longrightarrow> to_size_t (int n) = n"
  by (simp add: to_size_t_def)

lemma to_size_t_minus_one: "to_size_t (- 1) = 2 ^ 64 - 1"
  by (simp add: to_size_t_def)

lemma word_inc_less:
  fixes x y :: u32
  assumes "x < y"
  shows "x < x + 1 \<and> (\<forall>t. x < t \<longleftrightarrow> x + 1 \<le> t)"
proof -
  have "unat x + 1 < 2 ^ 32"
    using assms unsigned_less [of y, where ?'a = nat] by (simp add: word_less_nat_alt)
  then have "unat (x + 1) = unat x + 1" by (simp add: unat_word_ariths)
  then show ?thesis by (auto simp: word_less_nat_alt word_le_nat_alt)
qed

text \<open>The signed difference of two numbers of which neither uses the sign bit.\<close>

lemma uint_small: "unat (x :: u64) < 2 ^ 63 \<Longrightarrow> uint x < 2 ^ 63"
proof -
  assume "unat x < 2 ^ 63"
  then have "int (unat x) < int (2 ^ 63)" unfolding of_nat_less_iff .
  then show ?thesis by simp
qed

lemma sint_small: "unat (x :: u64) < 2 ^ 63 \<Longrightarrow> sint x = uint x"
  unfolding sint_uint
  by (rule signed_take_bit_int_eq_self) (use uint_small [of x] uint_ge_0 [of x] in \<open>simp_all, linarith\<close>)

lemma sint_diff_small:
  fixes x y :: u64
  assumes "unat x < 2 ^ 63" and "unat y < 2 ^ 63"
  shows "sint (x - y) = uint x - uint y"
proof -
  have "sint (x - y) = signed_take_bit 63 (sint x - sint y)" by (simp add: sint_word_ariths)
  also have "\<dots> = signed_take_bit 63 (uint x - uint y)" using assms by (simp only: sint_small)
  also have "\<dots> = uint x - uint y"
  proof (rule signed_take_bit_int_eq_self)
    show "- (2 ^ 63) \<le> uint x - uint y" "uint x - uint y < 2 ^ 63"
      using uint_small [OF assms(1)] uint_small [OF assms(2)] uint_ge_0 [of x] uint_ge_0 [of y] by linarith+
  qed
  finally show ?thesis .
qed

subsection \<open>Segments of a circular array\<close>

text \<open>
  \<open>ring_seg d t k\<close> lists the \<open>k\<close> slots of \<open>d\<close> that start at index \<open>t\<close> and wrap
  around at the end of the array.
\<close>

definition ring_seg :: "'a list \<Rightarrow> nat \<Rightarrow> nat \<Rightarrow> 'a list" where
  "ring_seg d t k = map (\<lambda>i. d ! ((t + i) mod length d)) [0..<k]"

lemma length_ring_seg [ring_simps]: "length (ring_seg d t k) = k"
  by (simp add: ring_seg_def)

lemma ring_seg_0 [ring_simps]: "ring_seg d t 0 = []"
  by (simp add: ring_seg_def)

lemma ring_seg_Suc: "ring_seg d t (Suc k) = ring_seg d t k @ [d ! ((t + k) mod length d)]"
  by (simp add: ring_seg_def)

lemma nth_ring_seg: "i < k \<Longrightarrow> ring_seg d t k ! i = d ! ((t + i) mod length d)"
  by (simp add: ring_seg_def)

lemma ring_seg_Cons:
  "ring_seg d t (Suc k) = d ! (t mod length d) # ring_seg d (Suc t) k"
  by (rule nth_equalityI) (auto simp: ring_seg_def nth_Cons nth_append less_Suc_eq split: nat.splits)

lemma ring_seg_mod: "ring_seg d (t mod length d) k = ring_seg d t k"
  by (simp add: ring_seg_def mod_add_left_eq)

lemma mod_shift_inj:
  fixes t i j n :: nat
  assumes "(t + i) mod n = (t + j) mod n" and "i < n" and "j < n"
  shows "i = j"
proof -
  have "int i mod int n = int j mod int n"
  proof -
    have "(int t + int i) mod int n = (int t + int j) mod int n"
      using assms(1) by (metis of_nat_add of_nat_mod)
    then have "int n dvd (int t + int i) - (int t + int j)"
      by (simp add: mod_eq_dvd_iff)
    then show ?thesis by (simp add: mod_eq_dvd_iff)
  qed
  then show ?thesis using assms(2,3) by simp
qed

lemma ring_seg_update_outside:
  assumes "k \<le> j" and "j < length d"
  shows "ring_seg (d[(t + j) mod length d := x]) t k = ring_seg d t k"
proof (rule nth_equalityI)
  fix i assume "i < length (ring_seg (d[(t + j) mod length d := x]) t k)"
  then have i: "i < k" by (simp add: ring_seg_def)
  have "(t + i) mod length d \<noteq> (t + j) mod length d"
    using mod_shift_inj [of t i "length d" j] i assms by auto
  then show "ring_seg (d[(t + j) mod length d := x]) t k ! i = ring_seg d t k ! i"
    using i by (simp add: nth_ring_seg)
qed (simp add: ring_seg_def)

lemma ring_seg_push:
  assumes "k < length d"
  shows "ring_seg (d[(t + k) mod length d := x]) t (Suc k) = ring_seg d t k @ [x]"
proof -
  have "(t + k) mod length d < length d"
    using assms by (intro mod_less_divisor) linarith
  then show ?thesis
    using ring_seg_update_outside [of k k d t x] assms by (simp add: ring_seg_Suc)
qed

lemma mod_Suc_wrap:
  fixes i n :: nat
  assumes "i < n"
  shows "(if Suc i = n then 0 else Suc i) = Suc i mod n"
  using assms by (auto simp: mod_Suc)

subsection \<open>Lists\<close>

lemma concat_map_append_snoc: "concat (map f (xs @ [x])) = concat (map f xs) @ f x"
  by simp

lemma set_concat_nth: "x \<in> set (concat xss) \<longleftrightarrow> (\<exists>i<length xss. x \<in> set (xss ! i))"
  by auto (metis in_set_conv_nth)

lemma nth_append_snoc: "(xs @ [x]) ! length xs = x"
  by simp

end
