(* ===== verification/FFBarrier.thy ===== *)
theory FFBarrier
  imports Prelude
begin

text \<open>
  The spinning barrier \<open>spinBarrier\<close> (\<open>libs/fastflow/ff/barrier.hpp\<close>), which closes the rounds of the
  parallel loops when their threads spin: \<open>barrierSetup\<close> as a function, \<open>doBarrier\<close> as a step relation
  over the accesses to the two shared counters, the proof that a barrier set up once works for ever,
  and a run in which setting it up again too early blocks all threads.
\<close>

subsection \<open>The barrier\<close>

text \<open>
  \<open>barArray\<close> holds for every thread which of the two counters of \<open>B\<close> it used last (\<open>True\<close> for \<open>B[1]\<close>).
\<close>

record spin_barrier =
  maxNThreads :: nat
  barrier_n :: u64
  barArray :: "bool list"
  B :: "bool \<Rightarrow> u64"

text \<open>The constructor leaves the new array and the counters uninitialized: \<open>arr\<close> and \<open>b\<close> are what is found there.\<close>

definition spinBarrier :: "bool list \<Rightarrow> (bool \<Rightarrow> u64) \<Rightarrow> spin_barrier" where
  "spinBarrier arr b = \<lparr>maxNThreads = length arr, barrier_n = 0, barArray = arr, B = b\<rparr>"

definition barrierSetup :: "u64 \<Rightarrow> spin_barrier \<Rightarrow> err + int \<times> spin_barrier" where
  "barrierSetup n b =
    (if n = 0 then Inl AssertFailed
     else if n = barrier_n b then Inr (- 1, b)
     else if length (barArray b) < unat n then Inl BadAccess
     else Inr (0, b\<lparr>barArray := replicate (unat n) False @ drop (unat n) (barArray b), B := (\<lambda>_. 0), barrier_n := n\<rparr>))"

subsection \<open>The threads\<close>

text \<open>
  The control states of \<open>doBarrier\<close>. \<open>SbRun\<close>: outside; \<open>SbInc w\<close>: about to increment \<open>B[w]\<close>;
  \<open>SbReset w\<close>: the last one, about to reset \<open>B[w]\<close>; \<open>SbSpin w\<close>: about to read \<open>B[w]\<close> in the loop. The
  threads are the numbers below \<open>_barrier\<close>. \<open>sb_in\<close> and \<open>sb_out\<close> count how often each has entered
  and left the barrier.
\<close>

datatype sb_pc = SbRun | SbInc bool | SbReset bool | SbSpin bool

record sb_state =
  sb :: spin_barrier
  sb_pc :: "nat \<Rightarrow> sb_pc"
  sb_in :: "nat \<Rightarrow> nat"
  sb_out :: "nat \<Rightarrow> nat"

definition sb_to :: "nat \<Rightarrow> sb_pc \<Rightarrow> sb_state \<Rightarrow> sb_state" where
  "sb_to t c s = s\<lparr>sb_pc := (sb_pc s)(t := c), sb_out := (if c = SbRun then (sb_out s)(t := sb_out s t + 1) else sb_out s)\<rparr>"

definition sb_enter :: "nat \<Rightarrow> sb_state \<Rightarrow> sb_state" where
  "sb_enter t s = (let w = (\<not> barArray (sb s) ! t) in
     s\<lparr>sb := (sb s)\<lparr>barArray := (barArray (sb s))[t := w]\<rparr>, sb_pc := (sb_pc s)(t := SbInc w), sb_in := (sb_in s)(t := sb_in s t + 1)\<rparr>)"

definition set_B :: "bool \<Rightarrow> u64 \<Rightarrow> sb_state \<Rightarrow> sb_state" where
  "set_B w c s = s\<lparr>sb := (sb s)\<lparr>B := (B (sb s))(w := c)\<rparr>\<rparr>"

inductive sb_step :: "sb_state \<Rightarrow> sb_state \<Rightarrow> bool" where
  sb_enter: "sb_pc s t = SbRun \<Longrightarrow> t < unat (barrier_n (sb s)) \<Longrightarrow> t < maxNThreads (sb s) \<Longrightarrow> sb_step s (sb_enter t s)"
| sb_inc: "sb_pc s t = SbInc w \<Longrightarrow> c = B (sb s) w + 1 \<Longrightarrow>
    sb_step s (sb_to t (if c = barrier_n (sb s) then SbReset w else if c = 0 then SbRun else SbSpin w) (set_B w c s))"
| sb_reset: "sb_pc s t = SbReset w \<Longrightarrow> sb_step s (sb_to t SbRun (set_B w 0 s))"
| sb_spin: "sb_pc s t = SbSpin w \<Longrightarrow> sb_step s (if B (sb s) w = 0 then sb_to t SbRun s else s)"

definition sb_start :: "spin_barrier \<Rightarrow> sb_state" where
  "sb_start b = \<lparr>sb = b, sb_pc = (\<lambda>_. SbRun), sb_in = (\<lambda>_. 0), sb_out = (\<lambda>_. 0)\<rparr>"

subsection \<open>The invariant\<close>

text \<open>
  \<open>g\<close> rounds are complete. The threads in \<open>arrived n g s\<close> have incremented the counter of the next
  one. A thread may still wait for the end of round \<open>g\<close> to be seen.
\<close>

definition arrived :: "nat \<Rightarrow> nat \<Rightarrow> sb_state \<Rightarrow> nat set" where
  "arrived n g s = {t. t < n \<and> sb_in s t = Suc g \<and> (\<exists>w. sb_pc s t \<in> {SbReset w, SbSpin w})}"

definition sb_thread :: "nat \<Rightarrow> nat \<Rightarrow> nat \<Rightarrow> sb_pc \<Rightarrow> bool" where
  "sb_thread g i k c = (case c of SbRun \<Rightarrow> i = g \<and> k = g | SbInc w \<Rightarrow> i = Suc g \<and> k = g \<and> w = odd i | SbReset w \<Rightarrow> i = Suc g \<and> k = g \<and> w = odd i
    | SbSpin w \<Rightarrow> (i = Suc g \<and> k = g \<or> i = g \<and> g = Suc k) \<and> w = odd i)"

definition sb_inv :: "nat \<Rightarrow> nat \<Rightarrow> sb_state \<Rightarrow> bool" where
  "sb_inv n g s \<longleftrightarrow> 0 < n \<and> n < 2 ^ 63 \<and> barrier_n (sb s) = of_nat n \<and> n \<le> maxNThreads (sb s) \<and> length (barArray (sb s)) = maxNThreads (sb s) \<and>
     (\<forall>t<n. sb_thread g (sb_in s t) (sb_out s t) (sb_pc s t) \<and> barArray (sb s) ! t = odd (sb_in s t)) \<and> (\<forall>t\<ge>n. sb_pc s t = SbRun) \<and>
     B (sb s) (odd (Suc g)) = of_nat (card (arrived n g s)) \<and> B (sb s) (odd g) = 0 \<and>
     (card (arrived n g s) = n \<longleftrightarrow> (\<exists>t w. sb_pc s t = SbReset w)) \<and> (\<forall>t u w v. sb_pc s t = SbReset w \<longrightarrow> sb_pc s u = SbReset v \<longrightarrow> t = u)"

lemma sb_invD:
  assumes "sb_inv n g s"
  shows "0 < n" "n < 2 ^ 63" "barrier_n (sb s) = of_nat n" "n \<le> maxNThreads (sb s)" "length (barArray (sb s)) = maxNThreads (sb s)"
    "t < n \<Longrightarrow> sb_thread g (sb_in s t) (sb_out s t) (sb_pc s t)" "t < n \<Longrightarrow> barArray (sb s) ! t = odd (sb_in s t)"
    "n \<le> t \<Longrightarrow> sb_pc s t = SbRun" "B (sb s) (odd (Suc g)) = of_nat (card (arrived n g s))" "B (sb s) (odd g) = 0"
    "card (arrived n g s) = n \<longleftrightarrow> (\<exists>t w. sb_pc s t = SbReset w)" "sb_pc s t = SbReset w \<Longrightarrow> sb_pc s u = SbReset v \<Longrightarrow> t = u"
  using assms unfolding sb_inv_def by blast+

lemma arrived_finite: "finite (arrived n g s)" "card (arrived n g s) \<le> n"
proof -
  have "arrived n g s \<subseteq> {..<n}" by (auto simp: arrived_def)
  then show "finite (arrived n g s)" "card (arrived n g s) \<le> n"
    using finite_subset card_mono [of "{..<n}" "arrived n g s"] by auto
qed

lemma of_nat_u64: "m < 2 ^ 63 \<Longrightarrow> k < 2 ^ 63 \<Longrightarrow> (of_nat m :: u64) = of_nat k \<longleftrightarrow> m = k"
  by (auto simp: word_of_nat_eq_iff take_bit_nat_eq_self)

lemma arrived_all: "card (arrived n g s) = n \<Longrightarrow> t < n \<Longrightarrow> t \<in> arrived n g s"
proof -
  assume "card (arrived n g s) = n" and t: "t < n"
  then have "arrived n g s = {..<n}" by (intro card_subset_eq) (auto simp: arrived_def)
  with t show ?thesis by simp
qed

lemma sb_invI:
  assumes "sb_inv n h s" and "barrier_n (sb u) = barrier_n (sb s)" and "maxNThreads (sb u) = maxNThreads (sb s)" and "length (barArray (sb u)) = length (barArray (sb s))"
    and "t < n" and "sb_pc u = (sb_pc s)(t := c)"
    and "\<And>v. v < n \<Longrightarrow> sb_thread g (sb_in u v) (sb_out u v) (sb_pc u v) \<and> barArray (sb u) ! v = odd (sb_in u v)"
    and "B (sb u) (odd (Suc g)) = of_nat (card (arrived n g u))" and "B (sb u) (odd g) = 0"
    and "card (arrived n g u) = n \<longleftrightarrow> (\<exists>t w. sb_pc u t = SbReset w)" and "\<And>t v w w'. sb_pc u t = SbReset w \<Longrightarrow> sb_pc u v = SbReset w' \<Longrightarrow> t = v"
  shows "sb_inv n g u"
proof -
  note inv = sb_invD [OF assms(1)]
  have "sb_pc u v = SbRun" if "n \<le> v" for v using inv(8) [OF that] that assms(5) by (simp add: assms(6))
  then show ?thesis unfolding sb_inv_def using inv(1-5) assms(2-4,7-) by (intro conjI) auto
qed

lemma sb_step_enter:
  assumes "sb_inv n g s" and "sb_pc s t = SbRun" and "t < unat (barrier_n (sb s))"
  shows "sb_inv n g (sb_enter t s)" (is "sb_inv n g ?u")
proof -
  note inv = sb_invD [OF assms(1)]
  have t: "t < n" using assms(3) inv(2,3) by (simp add: unat_of_nat)
  have arr: "arrived n g ?u = arrived n g s"
    using assms(2) inv(6) [OF t] by (auto simp: arrived_def sb_enter_def Let_def sb_thread_def)
  have pc: "sb_pc ?u = (sb_pc s)(t := SbInc (\<not> barArray (sb s) ! t))" by (simp add: sb_enter_def Let_def)
  have new: "sb_pc ?u v = SbReset w \<longleftrightarrow> sb_pc s v = SbReset w" for v w using assms(2) by (simp add: pc)
  show ?thesis
  proof (rule sb_invI [OF assms(1) _ _ _ t pc])
    show "sb_thread g (sb_in ?u v) (sb_out ?u v) (sb_pc ?u v) \<and> barArray (sb ?u) ! v = odd (sb_in ?u v)" if "v < n" for v
      using inv(4,5) inv(6,7) [OF that] assms(2) that by (auto simp: sb_enter_def Let_def sb_thread_def)
    show "card (arrived n g ?u) = n \<longleftrightarrow> (\<exists>t w. sb_pc ?u t = SbReset w)" unfolding arr new by (rule inv(11))
    show "\<And>t v w w'. sb_pc ?u t = SbReset w \<Longrightarrow> sb_pc ?u v = SbReset w' \<Longrightarrow> t = v" unfolding new by (rule inv(12))
  qed (use inv(9,10) in \<open>simp_all add: arr, simp_all add: sb_enter_def Let_def\<close>)
qed

lemma sb_step_inc:
  assumes "sb_inv n g s" and "sb_pc s t = SbInc w" and "c = B (sb s) w + 1"
  shows "sb_inv n g (sb_to t (if c = barrier_n (sb s) then SbReset w else if c = 0 then SbRun else SbSpin w) (set_B w c s))" (is "sb_inv n g ?u")
proof -
  note inv = sb_invD [OF assms(1)]
  let ?k = "card (arrived n g s)"
  have t: "t < n" using inv(8) [of t] assms(2) by (cases "t < n") auto
  have me: "sb_in s t = Suc g" "sb_out s t = g" "w = odd (Suc g)" using inv(6) [OF t] assms(2) by (auto simp: sb_thread_def)
  have notin: "t \<notin> arrived n g s" using assms(2) by (auto simp: arrived_def)
  then have lt: "?k < n" using arrived_all [of n g s t] arrived_finite(2) [of n g s] t by force
  have c: "c = of_nat (Suc ?k)" using assms(3) inv(9) me(3) by simp
  have eq: "c = barrier_n (sb s) \<longleftrightarrow> Suc ?k = n" unfolding c inv(3) using lt inv(2) by (intro of_nat_u64) auto
  have nz: "c \<noteq> 0" using of_nat_u64 [of "Suc ?k" 0] lt inv(2) unfolding c by simp
  have u: "?u = sb_to t (if Suc ?k = n then SbReset w else SbSpin w) (set_B w c s)" unfolding eq using nz by simp
  have pc: "sb_pc ?u = (sb_pc s)(t := (if Suc ?k = n then SbReset w else SbSpin w))" unfolding u by (simp add: sb_to_def set_B_def)
  have rest: "sb_in ?u = sb_in s" "sb_out ?u = sb_out s" "barArray (sb ?u) = barArray (sb s)" "B (sb ?u) = (B (sb s))(w := c)"
    unfolding u by (simp_all add: sb_to_def set_B_def)
  have arr: "arrived n g ?u = insert t (arrived n g s)"
    unfolding arrived_def pc rest using t me(1) by auto
  have card: "card (arrived n g ?u) = Suc ?k" unfolding arr using notin arrived_finite(1) [of n g s] by simp
  have none: "sb_pc s v \<noteq> SbReset w'" for v w' using inv(11) lt by auto
  show ?thesis
  proof (rule sb_invI [OF assms(1) _ _ _ t pc])
    show "sb_thread g (sb_in ?u v) (sb_out ?u v) (sb_pc ?u v) \<and> barArray (sb ?u) ! v = odd (sb_in ?u v)" if "v < n" for v
      unfolding pc rest using inv(6,7) [OF that] me by (auto simp: sb_thread_def)
    show "B (sb ?u) (odd (Suc g)) = of_nat (card (arrived n g ?u))" unfolding card rest using me(3) c by simp
    show "B (sb ?u) (odd g) = 0" unfolding rest using me(3) inv(10) by simp
    show "card (arrived n g ?u) = n \<longleftrightarrow> (\<exists>t w. sb_pc ?u t = SbReset w)" unfolding card pc using none by auto
    show "\<And>t v w w'. sb_pc ?u t = SbReset w \<Longrightarrow> sb_pc ?u v = SbReset w' \<Longrightarrow> t = v" unfolding pc using none by (auto split: if_splits)
  qed (simp_all add: sb_to_def set_B_def)
qed

lemma sb_step_reset:
  assumes "sb_inv n g s" and "sb_pc s t = SbReset w"
  shows "sb_inv n (Suc g) (sb_to t SbRun (set_B w 0 s))" (is "sb_inv n (Suc g) ?u")
proof -
  note inv = sb_invD [OF assms(1)]
  have t: "t < n" using inv(8) [of t] assms(2) by (cases "t < n") auto
  have full: "card (arrived n g s) = n" using inv(11) assms(2) by blast
  have me: "sb_in s t = Suc g" "sb_out s t = g" "w = odd (Suc g)" using inv(6) [OF t] assms(2) by (auto simp: sb_thread_def)
  have others: "sb_in s v = Suc g \<and> sb_out s v = g \<and> sb_pc s v = SbSpin (odd (Suc g))" if "v < n" "v \<noteq> t" for v
  proof -
    from arrived_all [OF full that(1)] obtain w' where v: "sb_in s v = Suc g" "sb_pc s v \<in> {SbReset w', SbSpin w'}" by (auto simp: arrived_def)
    then have "sb_pc s v = SbSpin w'" using inv(12) [OF assms(2), of v] that(2) by auto
    then show ?thesis using v inv(6) [OF that(1)] by (auto simp: sb_thread_def)
  qed
  have pc: "sb_pc ?u = (sb_pc s)(t := SbRun)" by (simp add: sb_to_def set_B_def)
  have rest: "sb_in ?u = sb_in s" "sb_out ?u = (sb_out s)(t := sb_out s t + 1)" "barArray (sb ?u) = barArray (sb s)" "B (sb ?u) = (B (sb s))(w := 0)"
    by (simp_all add: sb_to_def set_B_def)
  have thread: "sb_in ?u v = Suc g \<and> sb_pc ?u v \<in> {SbRun, SbSpin (odd (Suc g))}" if "v < n" for v
    unfolding rest pc using others [OF that] me(1) by auto
  then have arr: "arrived n (Suc g) ?u = {}" by (auto simp: arrived_def)
  have no: "sb_pc ?u v \<noteq> SbReset w'" for v w' unfolding pc using inv(12) [OF assms(2), of v] by auto
  show ?thesis
  proof (rule sb_invI [OF assms(1) _ _ _ t pc])
    show "sb_thread (Suc g) (sb_in ?u v) (sb_out ?u v) (sb_pc ?u v) \<and> barArray (sb ?u) ! v = odd (sb_in ?u v)" if "v < n" for v
      unfolding pc rest using others [OF that] me inv(7) [OF that] by (auto simp: sb_thread_def)
    show "card (arrived n (Suc g) ?u) = n \<longleftrightarrow> (\<exists>t w. sb_pc ?u t = SbReset w)" unfolding arr using no inv(1) by simp
    show "\<And>t v w w'. sb_pc ?u t = SbReset w \<Longrightarrow> sb_pc ?u v = SbReset w' \<Longrightarrow> t = v" using no by blast
    show "B (sb ?u) (odd (Suc (Suc g))) = of_nat (card (arrived n (Suc g) ?u))" unfolding arr rest using inv(10) me(3) by simp
    show "B (sb ?u) (odd (Suc g)) = 0" unfolding rest using me(3) by simp
  qed (simp_all add: sb_to_def set_B_def)
qed

lemma sb_step_spin:
  assumes "sb_inv n g s" and "sb_pc s t = SbSpin w" and "B (sb s) w = 0"
  shows "sb_inv n g (sb_to t SbRun s)" (is "sb_inv n g ?u") and "sb_in s t = g"
proof -
  note inv = sb_invD [OF assms(1)]
  have t: "t < n" using inv(8) [of t] assms(2) by (cases "t < n") auto
  have ing: "sb_in s t \<noteq> Suc g"
  proof
    assume "sb_in s t = Suc g"
    then have "t \<in> arrived n g s" "w = odd (Suc g)" using inv(6) [OF t] assms(2) t by (auto simp: arrived_def sb_thread_def)
    then have "0 < card (arrived n g s)" "B (sb s) (odd (Suc g)) = 0" using arrived_finite(1) [of n g s] assms(3) by (auto simp: card_gt_0_iff)
    then show False using inv(2,9) of_nat_u64 [of "card (arrived n g s)" 0] arrived_finite(2) [of n g s] by simp
  qed
  then have me: "sb_in s t = g" "g = Suc (sb_out s t)" using inv(6) [OF t] assms(2) by (auto simp: sb_thread_def)
  then show "sb_in s t = g" by simp
  have pc: "sb_pc ?u = (sb_pc s)(t := SbRun)" by (simp add: sb_to_def)
  have rest: "sb_in ?u = sb_in s" "sb_out ?u = (sb_out s)(t := sb_out s t + 1)" "sb ?u = sb s" by (simp_all add: sb_to_def)
  have arr: "arrived n g ?u = arrived n g s" unfolding arrived_def pc rest using me by auto
  have new: "sb_pc ?u v = SbReset w' \<longleftrightarrow> sb_pc s v = SbReset w'" for v w' unfolding pc using assms(2) by simp
  show "sb_inv n g ?u"
  proof (rule sb_invI [OF assms(1) _ _ _ t pc])
    show "sb_thread g (sb_in ?u v) (sb_out ?u v) (sb_pc ?u v) \<and> barArray (sb ?u) ! v = odd (sb_in ?u v)" if "v < n" for v
      unfolding pc rest using inv(6,7) [OF that] me by (auto simp: sb_thread_def)
    show "card (arrived n g ?u) = n \<longleftrightarrow> (\<exists>t w. sb_pc ?u t = SbReset w)" unfolding arr new by (rule inv(11))
    show "\<And>t v w w'. sb_pc ?u t = SbReset w \<Longrightarrow> sb_pc ?u v = SbReset w' \<Longrightarrow> t = v" unfolding new by (rule inv(12))
    show "B (sb ?u) (odd (Suc g)) = of_nat (card (arrived n g ?u))" "B (sb ?u) (odd g) = 0" unfolding arr rest by (rule inv(9), rule inv(10))
  qed (simp_all add: rest)
qed

lemma sb_step_inv: "sb_step s u \<Longrightarrow> sb_inv n g s \<Longrightarrow> \<exists>g. sb_inv n g u"
proof (induction rule: sb_step.induct)
  case (sb_spin s t w)
  then show ?case using sb_step_spin(1) [of n g s t w] by (cases "B (sb s) w = 0") auto
qed (use sb_step_enter sb_step_inc sb_step_reset in blast)+

lemma sb_steps_inv: "sb_step\<^sup>*\<^sup>* s u \<Longrightarrow> sb_inv n g s \<Longrightarrow> \<exists>g. sb_inv n g u"
  by (induction rule: rtranclp_induct) (use sb_step_inv in blast)+

lemma barrierSetup_ok:
  "barrierSetup n (spinBarrier arr b0) = Inr (r, b) \<longleftrightarrow> n \<noteq> 0 \<and> unat n \<le> length arr \<and> r = 0 \<and>
     b = \<lparr>maxNThreads = length arr, barrier_n = n, barArray = replicate (unat n) False @ drop (unat n) arr, B = (\<lambda>_. 0)\<rparr>"
  by (auto simp: barrierSetup_def spinBarrier_def)

lemma sb_start_inv:
  assumes "barrierSetup n (spinBarrier arr b0) = Inr (r, b)" and "unat n < 2 ^ 63"
  shows "sb_inv (unat n) 0 (sb_start b)"
proof -
  have n: "0 < unat n" "unat n \<le> length arr"
    and b: "b = \<lparr>maxNThreads = length arr, barrier_n = n, barArray = replicate (unat n) False @ drop (unat n) arr, B = (\<lambda>_. 0)\<rparr>"
    using assms(1) by (auto simp: barrierSetup_ok unat_gt_0)
  have "arrived (unat n) 0 (sb_start b) = {}" by (auto simp: arrived_def sb_start_def)
  then show ?thesis unfolding sb_inv_def using n assms(2) by (auto simp: sb_start_def b sb_thread_def nth_append)
qed

subsection \<open>Everybody gets out\<close>

definition sb_rank :: "sb_pc \<Rightarrow> nat" where
  "sb_rank c = (case c of SbRun \<Rightarrow> 0 | SbInc w \<Rightarrow> 2 | SbReset w \<Rightarrow> 1 | SbSpin w \<Rightarrow> 1)"

lemma rank_less:
  assumes "t < (n :: nat)" and "sb_rank c < sb_rank (p t)"
  shows "(\<Sum>v<n. sb_rank ((p(t := c)) v)) < (\<Sum>v<n. sb_rank (p v))"
  using assms by (intro sum_strict_mono_ex1) (auto intro: bexI [of _ t])

lemma sb_advanceI:
  assumes "sb_step s (sb_to v c x)" and "v < n" and "sb_pc x = sb_pc s" and "sb_in x = sb_in s" and "sb_rank c < sb_rank (sb_pc s v)"
  shows "\<exists>u v c. sb_step s u \<and> v < n \<and> sb_pc u = (sb_pc s)(v := c) \<and> sb_rank c < sb_rank (sb_pc s v) \<and> sb_in u = sb_in s"
  using assms by (intro exI [of _ "sb_to v c x"] exI [of _ v] exI [of _ c]) (simp add: sb_to_def)

lemma sb_advance:
  assumes "sb_inv n g s" and "\<And>t. t < n \<Longrightarrow> sb_in s t = k" and "t < n" and "sb_pc s t \<noteq> SbRun"
  shows "\<exists>u v c. sb_step s u \<and> v < n \<and> sb_pc u = (sb_pc s)(v := c) \<and> sb_rank c < sb_rank (sb_pc s v) \<and> sb_in u = sb_in s"
proof -
  note inv = sb_invD [OF assms(1)]
  have low: "v < n" if "sb_pc s v \<noteq> SbRun" for v using inv(8) [of v] that by (cases "v < n") auto
  consider (inc) v w where "sb_pc s v = SbInc w" | (reset) v w where "sb_pc s v = SbReset w"
    | (spin) "\<And>v. v < n \<Longrightarrow> sb_pc s v = SbRun \<or> (\<exists>w. sb_pc s v = SbSpin w)" "\<And>v w. sb_pc s v \<noteq> SbReset w"
    by (metis sb_pc.exhaust)
  then show ?thesis
  proof cases
    case (inc v w)
    show ?thesis by (rule sb_advanceI [OF sb_inc [OF inc refl]]) (use inc low [of v] in \<open>auto simp: set_B_def sb_rank_def\<close>)
  next
    case (reset v w)
    show ?thesis by (rule sb_advanceI [OF sb_reset [OF reset]]) (use reset low [of v] in \<open>auto simp: set_B_def sb_rank_def\<close>)
  next
    case spin
    then obtain w where w: "sb_pc s t = SbSpin w" using assms(3,4) by blast
    have "sb_in s t \<noteq> Suc g"
    proof
      assume eq: "sb_in s t = Suc g"
      have "v \<in> arrived n g s" if "v < n" for v
        using spin(1) [OF that] inv(6) [OF that] assms(2) [OF that] assms(2) [OF assms(3)] eq that by (auto simp: arrived_def sb_thread_def)
      then have "arrived n g s = {..<n}" by (auto simp: arrived_def)
      then show False using inv(11) spin(2) by simp
    qed
    then have "B (sb s) w = 0" using inv(6) [OF assms(3)] inv(10) w by (auto simp: sb_thread_def)
    then have "sb_step s (sb_to t SbRun s)" using sb_spin [OF w] by simp
    then show ?thesis by (rule sb_advanceI) (use assms(3) w in \<open>auto simp: sb_rank_def\<close>)
  qed
qed

lemma sb_drain:
  assumes "sb_inv n g s" and "\<And>t. t < n \<Longrightarrow> sb_in s t = k"
  shows "\<exists>u. sb_step\<^sup>*\<^sup>* s u \<and> (\<forall>t<n. sb_pc u t = SbRun \<and> sb_out u t = k)"
  using assms
proof (induction "\<Sum>v<n. sb_rank (sb_pc s v)" arbitrary: s g rule: less_induct)
  case less
  show ?case
  proof (cases "\<exists>t<n. sb_pc s t \<noteq> SbRun")
    case True
    then obtain t where t: "t < n" "sb_pc s t \<noteq> SbRun" by blast
    obtain u v c where u: "sb_step s u" "v < n" "sb_pc u = (sb_pc s)(v := c)" "sb_rank c < sb_rank (sb_pc s v)" "sb_in u = sb_in s"
      using sb_advance [OF less.prems t] by blast
    obtain h where "sb_inv n h u" using sb_step_inv [OF u(1) less.prems(1)] by blast
    moreover have "(\<Sum>v<n. sb_rank (sb_pc u v)) < (\<Sum>v<n. sb_rank (sb_pc s v))" unfolding u(3) using u(2,4) by (rule rank_less)
    ultimately obtain x where "sb_step\<^sup>*\<^sup>* u x" "\<forall>t<n. sb_pc x t = SbRun \<and> sb_out x t = k"
      using less.hyps [of u h] less.prems(2) u(5) by auto
    then show ?thesis using u(1) by (blast intro: converse_rtranclp_into_rtranclp)
  next
    case False
    have "sb_pc s t = SbRun \<and> sb_out s t = k" if "t < n" for t
      using False that sb_invD(6) [OF less.prems(1) that] less.prems(2) [OF that] by (auto simp: sb_thread_def)
    then show ?thesis by blast
  qed
qed

text \<open>
  C11. The spinning barrier of the parallel loops, set up once for \<open>n\<close> threads. In every state that
  the threads reach, no thread has left a round that another one has not entered; and when all have
  entered the same round, they can all leave it.
\<close>

theorem spin_barrier_sync:
  assumes "barrierSetup n (spinBarrier arr b0) = Inr (r, b)" and "unat n < 2 ^ 63" and "sb_step\<^sup>*\<^sup>* (sb_start b) s"
  shows "(\<forall>t < unat n. \<forall>v < unat n. sb_out s t \<le> sb_in s v \<and> sb_in s v \<le> sb_out s v + 1) \<and>
    (\<forall>k. (\<forall>t < unat n. sb_in s t = k) \<longrightarrow> (\<exists>u. sb_step\<^sup>*\<^sup>* s u \<and> (\<forall>t < unat n. sb_pc u t = SbRun \<and> sb_out u t = k)))"
proof -
  obtain g where inv: "sb_inv (unat n) g s" using sb_steps_inv [OF assms(3) sb_start_inv [OF assms(1,2)]] by blast
  have "sb_out s t \<le> g \<and> g \<le> sb_in s t \<and> sb_in s t \<le> sb_out s t + 1" if "t < unat n" for t
    using sb_invD(6) [OF inv that] by (auto simp: sb_thread_def split: sb_pc.splits)
  then show ?thesis using sb_drain [OF inv] by (auto intro: le_trans)
qed

subsection \<open>Concrete runs\<close>

text \<open>The next step of thread \<open>t\<close>, as a function.\<close>

definition sb_next :: "nat \<Rightarrow> sb_state \<Rightarrow> sb_state" where
  "sb_next t s = (case sb_pc s t of
     SbRun \<Rightarrow> if t < unat (barrier_n (sb s)) \<and> t < maxNThreads (sb s) then sb_enter t s else s
   | SbInc w \<Rightarrow> (let c = B (sb s) w + 1 in
       sb_to t (if c = barrier_n (sb s) then SbReset w else if c = 0 then SbRun else SbSpin w) (set_B w c s))
   | SbReset w \<Rightarrow> sb_to t SbRun (set_B w 0 s)
   | SbSpin w \<Rightarrow> if B (sb s) w = 0 then sb_to t SbRun s else s)"

lemma sb_next_steps: "sb_step\<^sup>*\<^sup>* s (sb_next t s)"
proof (cases "sb_pc s t")
  case SbRun
  then show ?thesis using sb_enter [OF SbRun] by (auto simp: sb_next_def intro: r_into_rtranclp)
next
  case (SbInc w)
  then show ?thesis using sb_inc [OF SbInc refl] by (simp add: sb_next_def Let_def r_into_rtranclp)
next
  case (SbReset w)
  then show ?thesis using sb_reset [OF SbReset] by (simp add: sb_next_def r_into_rtranclp)
next
  case (SbSpin w)
  then show ?thesis using sb_spin [OF SbSpin] by (simp add: sb_next_def r_into_rtranclp)
qed

lemma sb_run: "sb_step\<^sup>*\<^sup>* s (fold sb_next ts s)"
  by (induction ts arbitrary: s) (auto intro: rtranclp_trans sb_next_steps)

definition sb_three :: sb_state where
  "sb_three = sb_start \<lparr>maxNThreads = 4, barrier_n = 3, barArray = [False, False, False, True], B = (\<lambda>_. 0)\<rparr>"

lemma sb_three_setup: "barrierSetup 3 (spinBarrier [True, True, True, True] (\<lambda>_. 7)) = Inr (0, sb (sb_three))"
  by (simp add: barrierSetup_ok sb_three_def sb_start_def) (simp add: numeral_3_eq_3)

lemmas sb_eval = sb_next_def sb_three_def sb_start_def sb_enter_def sb_to_def set_B_def Let_def

definition sb_first :: sb_state where
  "sb_first = \<lparr>sb = \<lparr>maxNThreads = 4, barrier_n = 3, barArray = [True, True, True, True], B = (\<lambda>_. 0)\<rparr>,
     sb_pc = (\<lambda>_. SbRun)(0 := SbSpin True, 1 := SbSpin True), sb_in = (\<lambda>_. 0)(0 := 1, 1 := 1, 2 := 1), sb_out = (\<lambda>_. 0)(2 := 1)\<rparr>"

lemma sb_first_round: "fold sb_next [0, 0, 1, 1, 2, 2, 2] sb_three = sb_first"
  by (simp add: sb_eval sb_first_def fun_eq_iff)

definition sb_four :: spin_barrier where
  "sb_four = \<lparr>maxNThreads = 4, barrier_n = 4, barArray = [False, False, False, False], B = (\<lambda>_. 0)\<rparr>"

definition sb_stuck :: sb_state where
  "sb_stuck = \<lparr>sb = \<lparr>maxNThreads = 4, barrier_n = 4, barArray = [True, False, True, True], B = (\<lambda>_. 0)(True := 3)\<rparr>,
      sb_pc = (\<lambda>t. if t < 4 then SbSpin True else SbRun), sb_in = (\<lambda>_. 0)(0 := 2, 1 := 1, 2 := 2, 3 := 1), sb_out = (\<lambda>_. 0)(0 := 1, 2 := 1)\<rparr>"

lemma sb_second_round: "fold sb_next [0, 0, 0, 2, 2, 3, 3] (sb_first\<lparr>sb := sb_four\<rparr>) = sb_stuck"
  by (simp add: sb_eval sb_four_def sb_first_def sb_stuck_def) (auto simp: fun_eq_iff)

lemma sb_to_first: "sb_step\<^sup>*\<^sup>* (sb_start (sb sb_three)) sb_first"
proof -
  have "sb_start (sb sb_three) = sb_three" by (simp add: sb_three_def sb_start_def)
  then show ?thesis using sb_run [of sb_three "[0, 0, 1, 1, 2, 2, 2]"] unfolding sb_first_round by simp
qed

lemma sb_to_stuck: "sb_step\<^sup>*\<^sup>* (sb_first\<lparr>sb := sb_four\<rparr>) sb_stuck"
  using sb_run [of "sb_first\<lparr>sb := sb_four\<rparr>" "[0, 0, 0, 2, 2, 3, 3]"] unfolding sb_second_round .

lemma sb_stuck_steps: "{v. sb_step sb_stuck v} = {sb_stuck}"
proof -
  have pc: "sb_pc sb_stuck t = (if t < 4 then SbSpin True else SbRun)" and b: "B (sb sb_stuck) True = 3" "barrier_n (sb sb_stuck) = 4" for t
    by (simp_all add: sb_stuck_def)
  have "v = sb_stuck" if "sb_step sb_stuck v" for v
    using that by cases (auto simp: pc b split: if_splits)
  moreover have "sb_step sb_stuck sb_stuck" using sb_spin [of sb_stuck 0 True] by (simp add: pc b)
  ultimately show ?thesis by blast
qed

text \<open>
  C36. The barrier must not be set up for another number of threads when the thread that does it
  has left the barrier, because others may still wait in it, and the counter that the next round
  uses may be the one they read. A run with three threads: the threads 0 and 1 wait, thread 2 leaves
  and sets the barrier up for four threads; thread 0 sees the counter reset and goes on, and when
  the threads 0, 2 and 3 have entered the next round, thread 1 still waits in the first one and no
  thread can ever move again.
\<close>

theorem spin_barrier_restart_deadlock:
  "barrierSetup 3 (spinBarrier [True, True, True, True] (\<lambda>_. 7)) = Inr (0, sb sb_three) \<and>
   (\<exists>s b u. sb_step\<^sup>*\<^sup>* (sb_start (sb sb_three)) s \<and> sb_pc s 2 = SbRun \<and> sb_out s 2 = 1 \<and>
     barrierSetup 4 (sb s) = Inr (0, b) \<and> sb_step\<^sup>*\<^sup>* (s\<lparr>sb := b\<rparr>) u \<and>
     sb_pc u = (\<lambda>t. if t < 4 then SbSpin True else SbRun) \<and> sb_out u 1 = 0 \<and> {v. sb_step u v} = {u})"
proof (intro conjI exI)
  show "barrierSetup 3 (spinBarrier [True, True, True, True] (\<lambda>_. 7)) = Inr (0, sb sb_three)" by (rule sb_three_setup)
  show "sb_step\<^sup>*\<^sup>* (sb_start (sb sb_three)) sb_first" by (rule sb_to_first)
  show "sb_pc sb_first 2 = SbRun" "sb_out sb_first 2 = 1" by (simp_all add: sb_first_def)
  show "barrierSetup 4 (sb sb_first) = Inr (0, sb_four)"
    by (simp add: barrierSetup_def sb_first_def sb_four_def) (simp add: numeral_eq_Suc)
  show "sb_step\<^sup>*\<^sup>* (sb_first\<lparr>sb := sb_four\<rparr>) sb_stuck" by (rule sb_to_stuck)
  show "sb_pc sb_stuck = (\<lambda>t. if t < 4 then SbSpin True else SbRun)" "sb_out sb_stuck 1 = 0" by (simp_all add: sb_stuck_def)
  show "{v. sb_step sb_stuck v} = {sb_stuck}" by (rule sb_stuck_steps)
qed

theorem spin_barrier_sync_witness:
  "\<exists>s u. sb_step\<^sup>*\<^sup>* (sb_start (sb sb_three)) s \<and> sb_in s 0 = 1 \<and> sb_pc s 0 = SbSpin True \<and>
     sb_step\<^sup>*\<^sup>* s u \<and> sb_pc u 0 = SbRun \<and> sb_pc u 1 = SbRun \<and> sb_pc u 2 = SbRun"
proof -
  have three: "unat (3 :: u64) < 2 ^ 63" by simp
  have "sb_in sb_first t = 1" if "t < 3" for t using that by (auto simp: sb_first_def)
  then have "\<forall>t < unat (3 :: u64). sb_in sb_first t = 1" by simp
  then obtain u where u: "sb_step\<^sup>*\<^sup>* sb_first u" "\<forall>t < unat (3 :: u64). sb_pc u t = SbRun \<and> sb_out u t = 1"
    using spin_barrier_sync [OF sb_three_setup three sb_to_first] by blast
  have "sb_in sb_first 0 = 1" "sb_pc sb_first 0 = SbSpin True" by (simp_all add: sb_first_def)
  moreover have "sb_pc u 0 = SbRun" "sb_pc u 1 = SbRun" "sb_pc u 2 = SbRun" using u(2) by simp_all
  ultimately show ?thesis using u(1) sb_to_first by blast
qed

end
