(* ===== verification/FFLock.thy ===== *)
theory FFLock
  imports Prelude
begin

text \<open>
  The queue lock \<open>CLHSpinLock\<close> (\<open>libs/fastflow/ff/spin-lock.hpp\<close>), which the multi-queues of
  \<open>mpmc/MPMCqueues.hpp\<close> use: its constructor and \<open>init\<close>, and \<open>spin_lock\<close> and \<open>spin_unlock\<close> as a
  step relation over the accesses to the shared nodes and the tail.
\<close>

subsection \<open>The lock\<close>

text \<open>
  Nodes are addresses; \<open>locked\<close> is the flag of the node at an address. The lock is for the
  threads below \<open>MAX_NUM_THREADS\<close>.
\<close>

record clh_lock =
  Tail :: "nat option"
  MyNode :: "nat \<Rightarrow> nat option"
  MyPred :: "nat \<Rightarrow> nat option"
  locked :: "nat \<Rightarrow> bool"

definition CLHSpinLock :: "(nat \<Rightarrow> bool) \<Rightarrow> clh_lock" where
  "CLHSpinLock m = \<lparr>Tail = None, MyNode = (\<lambda>_. None), MyPred = (\<lambda>_. None), locked = m\<rparr>"

text \<open>\<open>a\<close> and \<open>nodes\<close> are the addresses that \<open>getAlignedMemory\<close> returns, one for the tail and one for every thread.\<close>

definition clh_init :: "nat \<Rightarrow> nat list \<Rightarrow> clh_lock \<Rightarrow> int \<times> clh_lock" where
  "clh_init a nodes l =
    (if Tail l \<noteq> None then (- 1, l)
     else (0, l\<lparr>Tail := Some a, locked := (locked l)(a := False), MyNode := (\<lambda>j. if j < length nodes then Some (nodes ! j) else MyNode l j)\<rparr>))"

text \<open>The destructor: the nodes it frees, for a lock of \<open>n\<close> threads.\<close>

definition clh_delete :: "nat \<Rightarrow> clh_lock \<Rightarrow> nat list" where
  "clh_delete n l = (case Tail l of None \<Rightarrow> [] | Some a \<Rightarrow> [a]) @ map the (filter (\<lambda>p. p \<noteq> None) (map (MyNode l) [0..<n]))"

subsection \<open>The threads\<close>

text \<open>
  The control states. \<open>ClIdle\<close>: outside; \<open>ClSwap\<close>: the node is marked, the tail is exchanged next;
  \<open>ClSpin\<close>: in the waiting loop; \<open>ClHeld\<close>: the lock is held; \<open>ClRel\<close>: the node is unmarked, the node of the
  predecessor is taken over next; \<open>ClBad\<close>: a pointer was NULL. \<open>cl_asked\<close> and \<open>cl_granted\<close> record the threads in the order in which they
  exchanged the tail and in which they got the lock.
\<close>

datatype cl_pc = ClIdle | ClSwap | ClSpin | ClHeld | ClRel | ClBad

record clh_state =
  cl :: clh_lock
  cl_pc :: "nat \<Rightarrow> cl_pc"
  cl_asked :: "nat list"
  cl_granted :: "nat list"

definition cl_to :: "nat \<Rightarrow> cl_pc \<Rightarrow> clh_state \<Rightarrow> clh_state" where
  "cl_to t c s = s\<lparr>cl_pc := (cl_pc s)(t := c)\<rparr>"

definition set_locked :: "nat option \<Rightarrow> bool \<Rightarrow> nat \<Rightarrow> cl_pc \<Rightarrow> clh_state \<Rightarrow> clh_state" where
  "set_locked p b t c s = (case p of None \<Rightarrow> cl_to t ClBad s | Some a \<Rightarrow> cl_to t c (s\<lparr>cl := (cl s)\<lparr>locked := (locked (cl s))(a := b)\<rparr>\<rparr>))"

inductive cl_step :: "clh_state \<Rightarrow> clh_state \<Rightarrow> bool" where
  cl_lock: "cl_pc s t = ClIdle \<Longrightarrow> cl_step s (set_locked (MyNode (cl s) t) True t ClSwap s)"
| cl_swap: "cl_pc s t = ClSwap \<Longrightarrow> cl_step s (cl_to t ClSpin
    (s\<lparr>cl := (cl s)\<lparr>MyPred := (MyPred (cl s))(t := Tail (cl s)), Tail := MyNode (cl s) t\<rparr>, cl_asked := cl_asked s @ [t]\<rparr>))"
| cl_spin: "cl_pc s t = ClSpin \<Longrightarrow> cl_step s (case MyPred (cl s) t of None \<Rightarrow> cl_to t ClBad s
    | Some a \<Rightarrow> if locked (cl s) a then s else cl_to t ClHeld (s\<lparr>cl_granted := cl_granted s @ [t]\<rparr>))"
| cl_unlock: "cl_pc s t = ClHeld \<Longrightarrow> cl_step s (set_locked (MyNode (cl s) t) False t ClRel s)"
| cl_take: "cl_pc s t = ClRel \<Longrightarrow> cl_step s (cl_to t ClIdle (s\<lparr>cl := (cl s)\<lparr>MyNode := (MyNode (cl s))(t := MyPred (cl s) t)\<rparr>\<rparr>))"

definition cl_start :: "clh_lock \<Rightarrow> clh_state" where
  "cl_start l = \<lparr>cl = l, cl_pc = (\<lambda>_. ClIdle), cl_asked = [], cl_granted = []\<rparr>"

subsection \<open>The queue of nodes\<close>

text \<open>
  The waiting threads \<open>q\<close>, the holder first, are linked: each spins on the node of the one before it,
  the first on the free node \<open>p\<close>, and the tail is the node of the last one.
\<close>

fun links :: "clh_lock \<Rightarrow> nat option \<Rightarrow> nat list \<Rightarrow> bool" where
  "links l p [] \<longleftrightarrow> Tail l = p"
| "links l p (t # ts) \<longleftrightarrow> MyPred l t = p \<and> links l (MyNode l t) ts"

lemma links_cong:
  "links l p q \<Longrightarrow> Tail l' = Tail l \<Longrightarrow> (\<And>t. t \<in> set q \<Longrightarrow> MyPred l' t = MyPred l t \<and> MyNode l' t = MyNode l t) \<Longrightarrow> links l' p q"
  by (induction q arbitrary: p) auto

lemma links_snoc:
  "links l p q \<Longrightarrow> t \<notin> set q \<Longrightarrow> links (l\<lparr>MyPred := (MyPred l)(t := Tail l), Tail := MyNode l t\<rparr>) p (q @ [t])"
  by (induction q arbitrary: p) auto

lemma links_mem: "links l p q \<Longrightarrow> t \<in> set q \<Longrightarrow> MyPred l t = p \<and> t = hd q \<or> (\<exists>u \<in> set q. MyPred l t = MyNode l u)"
  by (induction q arbitrary: p) auto

text \<open>The node that is a thread's own: while it hands the lock over, already the one of its predecessor.\<close>

definition own_node :: "clh_state \<Rightarrow> nat \<Rightarrow> nat option" where
  "own_node s t = (if cl_pc s t = ClRel then MyPred (cl s) t else MyNode (cl s) t)"

definition cl_nodes :: "nat \<Rightarrow> nat \<Rightarrow> clh_state \<Rightarrow> bool" where
  "cl_nodes n f s \<longleftrightarrow> (\<forall>t<n. own_node s t \<noteq> None \<and> own_node s t \<noteq> Some f) \<and> inj_on (own_node s) {..<n}"

definition cl_pcs :: "nat \<Rightarrow> clh_state \<Rightarrow> bool" where
  "cl_pcs n s \<longleftrightarrow> (\<forall>t. if t < n then cl_pc s t \<noteq> ClBad else cl_pc s t \<in> {ClIdle, ClBad} \<and> MyNode (cl s) t = None)"

definition cl_queue :: "nat list \<Rightarrow> nat \<Rightarrow> clh_state \<Rightarrow> bool" where
  "cl_queue q f s \<longleftrightarrow> distinct q \<and> set q = {t. cl_pc s t \<in> {ClSpin, ClHeld}} \<and> links (cl s) (Some f) q \<and>
     \<not> locked (cl s) f \<and> (\<forall>t a. cl_pc s t \<in> {ClSwap, ClSpin, ClHeld} \<longrightarrow> MyNode (cl s) t = Some a \<longrightarrow> locked (cl s) a) \<and>
     (\<forall>t. cl_pc s t = ClHeld \<longrightarrow> t = hd q)"

definition cl_log :: "nat list \<Rightarrow> clh_state \<Rightarrow> bool" where
  "cl_log q s \<longleftrightarrow> (\<exists>ts. cl_asked s = ts @ q \<and> cl_granted s = ts @ filter (\<lambda>t. cl_pc s t = ClHeld) q)"

definition cl_inv :: "nat \<Rightarrow> nat list \<Rightarrow> nat \<Rightarrow> clh_state \<Rightarrow> bool" where
  "cl_inv n q f s \<longleftrightarrow> cl_nodes n f s \<and> cl_pcs n s \<and> cl_queue q f s \<and> cl_log q s"

lemma cl_invD:
  assumes "cl_inv n q f s"
  shows "t < n \<Longrightarrow> own_node s t \<noteq> None" "t < n \<Longrightarrow> own_node s t \<noteq> Some f" "inj_on (own_node s) {..<n}" "cl_pcs n s"
    "distinct q" "set q = {t. cl_pc s t \<in> {ClSpin, ClHeld}}" "links (cl s) (Some f) q" "\<not> locked (cl s) f"
    "cl_pc s t \<in> {ClSwap, ClSpin, ClHeld} \<Longrightarrow> MyNode (cl s) t = Some a \<Longrightarrow> locked (cl s) a" "cl_pc s t = ClHeld \<Longrightarrow> t = hd q" "cl_log q s"
  using assms unfolding cl_inv_def cl_nodes_def cl_queue_def by blast+

lemma cl_invI:
  assumes "\<And>t. t < n \<Longrightarrow> own_node s t \<noteq> None \<and> own_node s t \<noteq> Some f" and "inj_on (own_node s) {..<n}" and "cl_pcs n s"
    and "distinct q" and "set q = {t. cl_pc s t \<in> {ClSpin, ClHeld}}" and "links (cl s) (Some f) q" and "\<not> locked (cl s) f"
    and "\<And>t a. cl_pc s t \<in> {ClSwap, ClSpin, ClHeld} \<Longrightarrow> MyNode (cl s) t = Some a \<Longrightarrow> locked (cl s) a" and "\<And>t. cl_pc s t = ClHeld \<Longrightarrow> t = hd q" and "cl_log q s"
  shows "cl_inv n q f s"
  using assms unfolding cl_inv_def cl_nodes_def cl_queue_def by blast

lemma cl_other: "own_node s t = Some a \<Longrightarrow> inj_on (own_node s) {..<n} \<Longrightarrow> t < n \<Longrightarrow> v < n \<Longrightarrow> v \<noteq> t \<Longrightarrow> own_node s v \<noteq> Some a"
  by (metis inj_on_eq_iff lessThan_iff)

lemma cl_low: "cl_pcs n s \<Longrightarrow> cl_pc s t \<notin> {ClIdle, ClBad} \<Longrightarrow> t < n"
  unfolding cl_pcs_def by (metis (full_types))

lemma filter_held: "t \<notin> set q \<Longrightarrow> filter (\<lambda>v. ((p :: nat \<Rightarrow> cl_pc)(t := c)) v = ClHeld) q = filter (\<lambda>v. p v = ClHeld) q"
  by (rule filter_cong) auto

lemma cl_log_to: "cl_log q s \<Longrightarrow> t \<notin> set q \<Longrightarrow> cl_asked u = cl_asked s \<Longrightarrow> cl_granted u = cl_granted s \<Longrightarrow> cl_pc u = (cl_pc s)(t := c) \<Longrightarrow> cl_log q u"
  unfolding cl_log_def by (metis filter_held)

lemma cl_step_lock:
  assumes "cl_inv n q f s" and "cl_pc s t = ClIdle"
  shows "cl_inv n q f (set_locked (MyNode (cl s) t) True t ClSwap s)" (is "cl_inv n q f ?u")
proof -
  note inv = cl_invD [OF assms(1)]
  show ?thesis
  proof (cases "MyNode (cl s) t")
    case None
    with inv(1) [of t] assms(2) have t: "n \<le> t" by (cases "t < n") (auto simp: own_node_def)
    have u: "?u = cl_to t ClBad s" by (simp add: set_locked_def None)
    let ?w = "cl_to t ClBad s"
    have own: "own_node ?w = own_node s" using assms(2) by (auto simp: own_node_def cl_to_def)
    have nq: "t \<notin> set q" using inv(6) assms(2) by simp
    have log: "cl_log q ?w" by (rule cl_log_to [OF inv(11) nq]) (simp_all add: cl_to_def)
    have "cl_inv n q f ?w"
    proof (rule cl_invI)
      show "own_node ?w v \<noteq> None \<and> own_node ?w v \<noteq> Some f" if "v < n" for v using inv(1,2) that own by simp
      show "inj_on (own_node ?w) {..<n}" using inv(3) own by simp
    qed (use inv(4-10) assms(2) t None log in \<open>auto simp: cl_to_def cl_pcs_def split: if_splits\<close>)
    then show ?thesis unfolding u .
  next
    case (Some a)
    with inv(4) have t: "t < n" by (cases "t < n") (auto simp: cl_pcs_def)
    have a: "own_node s t = Some a" using Some assms(2) by (simp add: own_node_def)
    let ?w = "cl_to t ClSwap (s\<lparr>cl := (cl s)\<lparr>locked := (locked (cl s))(a := True)\<rparr>\<rparr>)"
    have u: "?u = ?w" by (simp add: set_locked_def Some)
    have own: "own_node ?w = own_node s" using assms(2) by (auto simp: own_node_def cl_to_def)
    have nq: "t \<notin> set q" using inv(6) assms(2) by simp
    have "cl_inv n q f ?w"
    proof (rule cl_invI)
      show "own_node ?w v \<noteq> None \<and> own_node ?w v \<noteq> Some f" if "v < n" for v using inv(1,2) that own by simp
      show "inj_on (own_node ?w) {..<n}" using inv(3) own by simp
      show "links (cl ?w) (Some f) q" by (rule links_cong [OF inv(7)]) (auto simp: cl_to_def)
      show "\<not> locked (cl ?w) f" using inv(2) [OF t] inv(8) a by (auto simp: cl_to_def)
      show "cl_log q ?w" by (rule cl_log_to [OF inv(11) nq]) (simp_all add: cl_to_def)
    qed (use inv(4-6,9,10) assms(2) t Some in \<open>auto simp: cl_to_def cl_pcs_def split: if_splits\<close>)
    then show ?thesis unfolding u .
  qed
qed

lemma cl_step_swap:
  assumes "cl_inv n q f s" and "cl_pc s t = ClSwap"
  shows "cl_inv n (q @ [t]) f (cl_to t ClSpin (s\<lparr>cl := (cl s)\<lparr>MyPred := (MyPred (cl s))(t := Tail (cl s)), Tail := MyNode (cl s) t\<rparr>, cl_asked := cl_asked s @ [t]\<rparr>))" (is "cl_inv n _ f ?u")
proof -
  note inv = cl_invD [OF assms(1)]
  have t: "t < n" using cl_low [OF inv(4), of t] assms(2) by simp
  have nq: "t \<notin> set q" using inv(6) assms(2) by simp
  have own: "own_node ?u = own_node s" using assms(2) by (auto simp: own_node_def cl_to_def)
  show ?thesis
  proof (rule cl_invI)
    show "own_node ?u v \<noteq> None \<and> own_node ?u v \<noteq> Some f" if "v < n" for v using inv(1,2) that own by simp
    show "inj_on (own_node ?u) {..<n}" using inv(3) own by simp
    show "links (cl ?u) (Some f) (q @ [t])" using links_snoc [OF inv(7) nq] by (simp add: cl_to_def)
    show "v = hd (q @ [t])" if "cl_pc ?u v = ClHeld" for v
    proof -
      from that have v: "cl_pc s v = ClHeld" by (auto simp: cl_to_def split: if_splits)
      then have "q \<noteq> []" using inv(6) by auto
      then show ?thesis using inv(10) [OF v] by simp
    qed
    show "cl_log (q @ [t]) ?u" using inv(11) filter_held [OF nq] by (auto simp: cl_log_def cl_to_def fun_upd_same simp del: fun_upd_apply)
  qed (use inv(4-6,8,9) assms(2) t nq in \<open>auto simp: cl_to_def cl_pcs_def split: if_splits\<close>)
qed

lemma cl_step_spin:
  assumes "cl_inv n q f s" and "cl_pc s t = ClSpin" and "MyPred (cl s) t = Some a" and "\<not> locked (cl s) a"
  shows "cl_inv n q f (cl_to t ClHeld (s\<lparr>cl_granted := cl_granted s @ [t]\<rparr>))" (is "cl_inv n q f ?u")
proof -
  note inv = cl_invD [OF assms(1)]
  have t: "t < n" using cl_low [OF inv(4), of t] assms(2) by simp
  have mem: "t \<in> set q" using inv(6) assms(2) by simp
  have own: "own_node ?u = own_node s" using assms(2) by (auto simp: own_node_def cl_to_def)
  have hd: "t = hd q"
  proof (rule ccontr)
    assume "t \<noteq> hd q"
    then obtain v where "v \<in> set q" "MyPred (cl s) t = MyNode (cl s) v" using links_mem [OF inv(7) mem] by blast
    then show False using inv(9) [of v a] inv(6) assms(3,4) by auto
  qed
  then obtain q' where q: "q = t # q'" using mem by (cases q) auto
  have nq: "t \<notin> set q'" "\<And>v. v \<in> set q' \<Longrightarrow> cl_pc s v \<noteq> ClHeld" using inv(5,10) unfolding q by auto
  then have none: "filter (\<lambda>v. cl_pc s v = ClHeld) q' = []" "filter (\<lambda>v. cl_pc ?u v = ClHeld) q' = []"
    by (auto simp: filter_empty_conv cl_to_def)
  have log: "cl_log q ?u" using inv(11) none assms(2) unfolding cl_log_def q by (auto simp: cl_to_def)
  show ?thesis
  proof (rule cl_invI)
    show "own_node ?u v \<noteq> None \<and> own_node ?u v \<noteq> Some f" if "v < n" for v using inv(1,2) that own by simp
    show "inj_on (own_node ?u) {..<n}" using inv(3) own by simp
    show "cl_log q ?u" by (rule log)
    show "v = hd q" if "cl_pc ?u v = ClHeld" for v using that hd inv(10) [of v] by (auto simp: cl_to_def split: if_splits)
  qed (use inv(4-9) assms(2) t in \<open>auto simp: cl_to_def cl_pcs_def split: if_splits\<close>)
qed

lemma cl_step_unlock:
  assumes "cl_inv n q f s" and "cl_pc s t = ClHeld"
  shows "\<exists>q f. cl_inv n q f (set_locked (MyNode (cl s) t) False t ClRel s)" (is "\<exists>q f. cl_inv n q f ?u")
proof -
  note inv = cl_invD [OF assms(1)]
  have t: "t < n" using cl_low [OF inv(4), of t] assms(2) by simp
  obtain a where a: "own_node s t = Some a" "MyNode (cl s) t = Some a" using inv(1) [OF t] assms(2) by (auto simp: own_node_def)
  have "t \<in> set q" using inv(6) assms(2) by simp
  then obtain q' where q: "q = t # q'" using inv(10) [OF assms(2)] by (cases q) auto
  have pred: "MyPred (cl s) t = Some f" and rest: "links (cl s) (Some a) q'" using inv(7) a(2) by (auto simp: q)
  have u: "?u = cl_to t ClRel (s\<lparr>cl := (cl s)\<lparr>locked := (locked (cl s))(a := False)\<rparr>\<rparr>)" by (simp add: set_locked_def a)
  have own: "own_node ?u = (own_node s)(t := Some f)" using pred by (auto simp: u own_node_def cl_to_def)
  have oth: "own_node s v \<noteq> Some a" if "v < n" "v \<noteq> t" for v using cl_other [OF a(1) inv(3) t that] .
  have low: "v < n" if "cl_pc s v \<in> {ClSwap, ClSpin, ClHeld}" for v using cl_low [OF inv(4), of v] that by auto
  have nd: "MyNode (cl s) v \<noteq> Some a" if "cl_pc s v \<in> {ClSwap, ClSpin, ClHeld}" "v \<noteq> t" for v
    using oth [OF low [OF that(1)] that(2)] that(1) by (auto simp: own_node_def split: if_splits)
  have one: "cl_pc s v \<noteq> ClHeld" if "v \<noteq> t" for v using inv(10) that by (auto simp: q)
  have later: "v \<noteq> t \<and> cl_pc s v \<noteq> ClHeld" if "v \<in> set q'" for v using one [of v] that inv(5) q by auto
  then have none: "filter (\<lambda>v. cl_pc ?u v = ClHeld) q' = []" "filter (\<lambda>v. cl_pc s v = ClHeld) q' = []"
    by (auto simp: filter_empty_conv u cl_to_def)
  have "cl_inv n q' a ?u"
  proof (rule cl_invI)
    show "own_node ?u v \<noteq> None \<and> own_node ?u v \<noteq> Some a" if "v < n" for v
      using inv(1) [OF that] inv(2) [OF t] oth [OF that] a(1) unfolding own by auto
    show "inj_on (own_node ?u) {..<n}" using inv(2,3) unfolding own by (auto simp: inj_on_def) metis+
    show "links (cl ?u) (Some a) q'" by (rule links_cong [OF rest]) (auto simp: u cl_to_def)
    show "locked (cl ?u) b" if "cl_pc ?u v \<in> {ClSwap, ClSpin, ClHeld}" "MyNode (cl ?u) v = Some b" for v b
      using that nd [of v] inv(9) [of v b] by (auto simp: u cl_to_def split: if_splits)
    show "v = hd q'" if "cl_pc ?u v = ClHeld" for v using that one [of v] by (auto simp: u cl_to_def split: if_splits)
    show "cl_log q' ?u" using inv(11) none assms(2) unfolding cl_log_def by (auto simp: none(1) u q cl_to_def)
    show "set q' = {v. cl_pc ?u v \<in> {ClSpin, ClHeld}}" using inv(5,6) by (auto simp: u q cl_to_def)
  qed (use inv(4,5) t in \<open>auto simp: u q cl_to_def cl_pcs_def split: if_splits\<close>)
  then show ?thesis by blast
qed

lemma cl_step_take:
  assumes "cl_inv n q f s" and "cl_pc s t = ClRel"
  shows "cl_inv n q f (cl_to t ClIdle (s\<lparr>cl := (cl s)\<lparr>MyNode := (MyNode (cl s))(t := MyPred (cl s) t)\<rparr>\<rparr>))" (is "cl_inv n q f ?u")
proof -
  note inv = cl_invD [OF assms(1)]
  have t: "t < n" using cl_low [OF inv(4), of t] assms(2) by simp
  have nq: "t \<notin> set q" using inv(6) assms(2) by simp
  have own: "own_node ?u = own_node s" using assms(2) by (auto simp: own_node_def cl_to_def)
  show ?thesis
  proof (rule cl_invI)
    show "own_node ?u v \<noteq> None \<and> own_node ?u v \<noteq> Some f" if "v < n" for v using inv(1,2) that own by simp
    show "inj_on (own_node ?u) {..<n}" using inv(3) own by simp
    show "links (cl ?u) (Some f) q" by (rule links_cong [OF inv(7)]) (use nq in \<open>auto simp: cl_to_def\<close>)
    show "cl_log q ?u" by (rule cl_log_to [OF inv(11) nq]) (simp_all add: cl_to_def)
  qed (use inv(4-6,8-10) assms(2) t in \<open>auto simp: cl_to_def cl_pcs_def split: if_splits\<close>)
qed

lemma cl_step_inv: "cl_step s u \<Longrightarrow> cl_inv n q f s \<Longrightarrow> \<exists>q f. cl_inv n q f u"
proof (induction rule: cl_step.induct)
  case (cl_spin s t)
  note inv = cl_invD [OF cl_spin(2)]
  have "t \<in> set q" using inv(6) cl_spin(1) by simp
  then have "MyPred (cl s) t = Some f \<or> (\<exists>v \<in> set q. MyPred (cl s) t = MyNode (cl s) v)" using links_mem [OF inv(7)] by blast
  moreover have "MyNode (cl s) v \<noteq> None" if "v \<in> set q" for v
    using inv(1) [of v] cl_low [OF inv(4), of v] that inv(6) by (auto simp: own_node_def split: if_splits)
  ultimately obtain a where a: "MyPred (cl s) t = Some a" by force
  then show ?case using cl_step_spin [OF cl_spin(2,1) a] cl_spin(2) by auto
next
  case (cl_lock s t)
  show ?case by (intro exI, rule cl_step_lock [OF cl_lock(2,1)])
next
  case (cl_swap s t)
  show ?case by (intro exI, rule cl_step_swap [OF cl_swap(2,1)])
next
  case (cl_unlock s t)
  show ?case by (rule cl_step_unlock [OF cl_unlock(2,1)])
next
  case (cl_take s t)
  show ?case by (intro exI, rule cl_step_take [OF cl_take(2,1)])
qed

lemma cl_steps_inv: "cl_step\<^sup>*\<^sup>* s u \<Longrightarrow> \<exists>q f. cl_inv n q f s \<Longrightarrow> \<exists>q f. cl_inv n q f u"
  by (induction rule: rtranclp_induct) (use cl_step_inv in blast)+

lemma cl_start_inv:
  assumes "distinct (a # nodes)" and "clh_init a nodes (CLHSpinLock m) = (r, l)"
  shows "cl_inv (length nodes) [] a (cl_start l)"
proof -
  have l: "l = \<lparr>Tail = Some a, MyNode = (\<lambda>j. if j < length nodes then Some (nodes ! j) else None), MyPred = (\<lambda>_. None), locked = m(a := False)\<rparr>"
    using assms(2) by (auto simp: clh_init_def CLHSpinLock_def)
  have own: "own_node (cl_start l) = MyNode l" by (auto simp: own_node_def cl_start_def)
  show ?thesis
  proof (rule cl_invI)
    show "own_node (cl_start l) t \<noteq> None \<and> own_node (cl_start l) t \<noteq> Some a" if "t < length nodes" for t
      unfolding own using that assms(1) by (auto simp: l)
    show "inj_on (own_node (cl_start l)) {..<length nodes}"
      unfolding own using assms(1) by (auto simp: l inj_on_def nth_eq_iff_index_eq)
  qed (auto simp: l cl_start_def cl_pcs_def cl_log_def)
qed

lemma cl_idle_delete:
  assumes "cl_inv n q f s" and "range (cl_pc s) \<subseteq> {ClIdle, ClBad}"
  shows "distinct (clh_delete n (cl s))"
proof -
  note inv = cl_invD [OF assms(1)]
  have pc: "cl_pc s t \<in> {ClIdle, ClBad}" for t using assms(2) by blast
  have no: "cl_pc s t \<noteq> ClRel" "cl_pc s t \<noteq> ClSpin" "cl_pc s t \<noteq> ClHeld" for t using pc [of t] by auto
  have own: "own_node s = MyNode (cl s)" using no(1) by (simp add: own_node_def fun_eq_iff)
  have "set q = {}" unfolding inv(6) using no(2,3) by simp
  then have "q = []" by simp
  then have tail: "Tail (cl s) = Some f" using inv(7) by simp
  have node: "MyNode (cl s) t \<noteq> None \<and> MyNode (cl s) t \<noteq> Some f" if "t < n" for t using inv(1,2) [OF that] by (simp add: own)
  then have all: "filter (\<lambda>p. p \<noteq> None) (map (MyNode (cl s)) [0..<n]) = map (MyNode (cl s)) [0..<n]" by (auto simp: filter_id_conv)
  have "inj_on (\<lambda>t. the (MyNode (cl s) t)) {..<n}"
    using inv(3) node unfolding own inj_on_def by (metis lessThan_iff option.expand)
  then have "distinct (map (\<lambda>t. the (MyNode (cl s) t)) [0..<n])" by (simp add: distinct_map atLeast0LessThan)
  moreover have "f \<notin> set (map (\<lambda>t. the (MyNode (cl s) t)) [0..<n])" using node by force
  ultimately show ?thesis unfolding clh_delete_def tail all by (simp add: comp_def)
qed

text \<open>
  C12. The queue lock \<open>CLHSpinLock\<close>, used by the threads below \<open>MAX_NUM_THREADS\<close> (the number of
  nodes), whatever memory the allocator returns as long as the nodes are distinct. At most one
  thread holds the lock, the lock is granted in the order in which the threads asked for it, no
  thread meets a null pointer, and when threads wait and none holds the lock, the next one in
  that order gets it by its next access. When the lock is not in use the destructor frees no
  node twice.
\<close>

theorem clh_lock_fifo:
  assumes "distinct (a # nodes)" and "clh_init a nodes (CLHSpinLock m) = (r, l)" and "cl_step\<^sup>*\<^sup>* (cl_start l) s"
  shows "(\<forall>t v. cl_pc s t = ClHeld \<longrightarrow> cl_pc s v = ClHeld \<longrightarrow> t = v) \<and>
    (\<forall>t < length nodes. cl_pc s t \<noteq> ClBad) \<and>
    (\<exists>w. cl_asked s = cl_granted s @ w \<and> set w = {t. cl_pc s t = ClSpin} \<and> distinct w \<and>
      (w \<noteq> [] \<and> (\<forall>t. cl_pc s t \<noteq> ClHeld) \<longrightarrow> cl_step s (cl_to (hd w) ClHeld (s\<lparr>cl_granted := cl_granted s @ [hd w]\<rparr>)))) \<and>
    (range (cl_pc s) \<subseteq> {ClIdle, ClBad} \<longrightarrow> distinct (clh_delete (length nodes) (cl s)))"
proof -
  obtain q f where i: "cl_inv (length nodes) q f s" using cl_steps_inv [OF assms(3)] cl_start_inv [OF assms(1,2)] by blast
  note inv = cl_invD [OF i]
  let ?held = "\<lambda>t. cl_pc s t = ClHeld"
  have split: "q = filter ?held q @ filter (\<lambda>t. \<not> ?held t) q"
  proof (cases q)
    case (Cons t ts)
    have "\<not> ?held v" if "v \<in> set ts" for v using inv(5) inv(10) [of v] that unfolding Cons by auto
    then have "filter ?held ts = []" "filter (\<lambda>t. \<not> ?held t) ts = ts" by (auto simp: filter_empty_conv filter_id_conv)
    then show ?thesis unfolding Cons by simp
  qed simp
  let ?w = "filter (\<lambda>t. \<not> ?held t) q"
  obtain ts where ts: "cl_asked s = ts @ q" "cl_granted s = ts @ filter ?held q" using inv(11) by (auto simp: cl_log_def)
  have "cl_asked s = cl_granted s @ ?w" unfolding ts append_assoc using split by simp
  moreover have "set ?w = {t. cl_pc s t = ClSpin}" using inv(6) by auto
  moreover have "distinct ?w" using inv(5) by simp
  moreover have "cl_step s (cl_to (hd ?w) ClHeld (s\<lparr>cl_granted := cl_granted s @ [hd ?w]\<rparr>))" if w: "?w \<noteq> []" "\<forall>t. \<not> ?held t"
  proof -
    have "?w = q" using w(2) by simp
    with w(1) obtain t q' where q: "q = t # q'" by (cases q) auto
    have "MyPred (cl s) t = Some f" "cl_pc s t = ClSpin" using inv(7,6) w(2) by (auto simp: q)
    then show ?thesis using cl_spin [of s t] inv(8) \<open>?w = q\<close> q by simp
  qed
  moreover have "distinct (clh_delete (length nodes) (cl s))" if idle: "range (cl_pc s) \<subseteq> {ClIdle, ClBad}" by (rule cl_idle_delete [OF i idle])
  moreover have "\<forall>t v. ?held t \<longrightarrow> ?held v \<longrightarrow> t = v" using inv(10) by metis
  moreover have "\<forall>t < length nodes. cl_pc s t \<noteq> ClBad" using inv(4) by (simp add: cl_pcs_def)
  ultimately show ?thesis by blast
qed

text \<open>The next step of thread \<open>t\<close>, as a function.\<close>

definition cl_next :: "nat \<Rightarrow> clh_state \<Rightarrow> clh_state" where
  "cl_next t s = (case cl_pc s t of
     ClIdle \<Rightarrow> set_locked (MyNode (cl s) t) True t ClSwap s
   | ClSwap \<Rightarrow> cl_to t ClSpin (s\<lparr>cl := (cl s)\<lparr>MyPred := (MyPred (cl s))(t := Tail (cl s)), Tail := MyNode (cl s) t\<rparr>, cl_asked := cl_asked s @ [t]\<rparr>)
   | ClSpin \<Rightarrow> (case MyPred (cl s) t of None \<Rightarrow> cl_to t ClBad s
       | Some a \<Rightarrow> if locked (cl s) a then s else cl_to t ClHeld (s\<lparr>cl_granted := cl_granted s @ [t]\<rparr>))
   | ClHeld \<Rightarrow> set_locked (MyNode (cl s) t) False t ClRel s
   | ClRel \<Rightarrow> cl_to t ClIdle (s\<lparr>cl := (cl s)\<lparr>MyNode := (MyNode (cl s))(t := MyPred (cl s) t)\<rparr>\<rparr>)
   | ClBad \<Rightarrow> s)"

lemma distinct_singleton_set: "distinct w \<Longrightarrow> set w = {x} \<Longrightarrow> w = [x]"
  by (cases w) (auto simp: subset_singleton_iff)

lemma cl_run: "cl_step\<^sup>*\<^sup>* s (fold cl_next ts s)"
proof (induction ts arbitrary: s)
  case (Cons t ts)
  have "cl_step\<^sup>*\<^sup>* s (cl_next t s)"
    using cl_lock [of s t] cl_swap [of s t] cl_spin [of s t] cl_unlock [of s t] cl_take [of s t]
    by (cases "cl_pc s t") (simp_all add: cl_next_def r_into_rtranclp)
  also have "cl_step\<^sup>*\<^sup>* (cl_next t s) (fold cl_next ts (cl_next t s))" by (rule Cons)
  finally show ?case by simp
qed simp

text \<open>Thread 1 waits for thread 0, which gives the lock back: thread 1 is next.\<close>

definition cl_two :: clh_lock where
  "cl_two = snd (clh_init 10 [11, 12] (CLHSpinLock (\<lambda>_. True)))"

lemma cl_two_run:
  "cl_granted (fold cl_next [0, 0, 0, 1, 1, 0] (cl_start cl_two)) = [0] \<and>
   cl_pc (fold cl_next [0, 0, 0, 1, 1, 0] (cl_start cl_two)) = (\<lambda>_. ClIdle)(0 := ClRel, 1 := ClSpin)"
  by (simp add: cl_two_def clh_init_def CLHSpinLock_def cl_start_def cl_next_def cl_to_def set_locked_def fun_eq_iff)

theorem clh_lock_fifo_witness:
  "\<exists>s. cl_step\<^sup>*\<^sup>* (cl_start cl_two) s \<and> cl_granted s = [0] \<and> cl_asked s = [0, 1] \<and>
     cl_step s (cl_to 1 ClHeld (s\<lparr>cl_granted := [0, 1]\<rparr>))"
proof -
  define s where "s = fold cl_next [0, 0, 0, 1, 1, 0] (cl_start cl_two)"
  have r: "cl_step\<^sup>*\<^sup>* (cl_start cl_two) s" unfolding s_def by (rule cl_run)
  have s: "cl_granted s = [0]" "cl_pc s = (\<lambda>_. ClIdle)(0 := ClRel, 1 := ClSpin)" using cl_two_run unfolding s_def by auto
  have i: "clh_init 10 [11, 12] (CLHSpinLock (\<lambda>_. True)) = (0, cl_two)" by (simp add: cl_two_def clh_init_def CLHSpinLock_def)
  have d: "distinct [10, 11, 12 :: nat]" by simp
  obtain w where w: "cl_asked s = cl_granted s @ w" "set w = {t. cl_pc s t = ClSpin}" "distinct w"
    "w \<noteq> [] \<and> (\<forall>t. cl_pc s t \<noteq> ClHeld) \<longrightarrow> cl_step s (cl_to (hd w) ClHeld (s\<lparr>cl_granted := cl_granted s @ [hd w]\<rparr>))"
    using clh_lock_fifo [OF d i r] by blast
  have "set w = {1}" using w(2) by (auto simp: s(2) split: if_splits)
  then have "w = [1]" by (rule distinct_singleton_set [OF w(3)])
  then show ?thesis using r w s by (intro exI [of _ s]) simp
qed

end
