(* ===== verification/FFMpmc.thy ===== *)
theory FFMpmc
  imports Prelude
begin

text \<open>
  The bounded queue for many producers and many consumers, \<open>MPMC_Ptr_Queue\<close>
  (\<open>libs/fastflow/ff/mpmc/MPMCqueues.hpp\<close>, the version with FastFlow's own atomic operations, which
  \<open>NO_STD_C0X\<close> selects): its array of sequence numbers, \<open>push\<close> and \<open>pop\<close> as a step relation over the
  accesses to the shared memory, and the invariant that the accesses keep. The delay after a failed
  exchange has no effect on the state and is left out.
\<close>

unbundle bit_operations_syntax

subsection \<open>The queue\<close>

text \<open>
  A cell holds a sequence number and an element; a position is a number that only grows, its cell
  the one at its lowest bits.
\<close>

record 'a mpmc =
  buf :: "(u64 \<times> 'a option) list"
  mask :: u64
  pwrite :: u64
  pread :: u64

text \<open>
  \<open>isPowerOf2\<close> takes a 32-bit number. The loop of \<open>nextPowerOf2\<close> doubles \<open>p\<close>; after 64 rounds \<open>p\<close> is 0
  and stays so, so the fuel 65 runs out exactly if it does not end. The assertion at its start is
  the negated condition of its only call.
\<close>

definition isPowerOf2 :: "u32 \<Rightarrow> bool" where
  "isPowerOf2 x \<longleftrightarrow> x \<noteq> 0 \<and> x AND (x - 1) = 0"

fun next_power :: "nat \<Rightarrow> u64 \<Rightarrow> u64 \<Rightarrow> u64 option" where
  "next_power 0 x p = None"
| "next_power (Suc k) x p = (if p < x then next_power k x (push_bit 1 p) else Some p)"

definition nextPowerOf2 :: "u64 \<Rightarrow> u64 option" where
  "nextPowerOf2 x = next_power 65 x 1"

definition mpmc_size :: "u64 \<Rightarrow> u64 option" where
  "mpmc_size sz = (let sz = (if sz < 2 then 2 else sz) in if isPowerOf2 (ucast sz) then Some sz else nextPowerOf2 sz)"

text \<open>
  \<open>init\<close>. \<open>alloc\<close> says whether \<open>getAlignedMemory\<close> returns memory. The result is \<open>None\<close> where it does
  not, and where the size has no next power of 2.
\<close>

definition mpmc_init :: "bool \<Rightarrow> u64 \<Rightarrow> 'a mpmc option" where
  "mpmc_init alloc sz = (if \<not> alloc then None else map_option (\<lambda>n. \<lparr>buf = map (\<lambda>i. (of_nat i, None)) [0..<unat n], mask = n - 1, pwrite = 0, pread = 0\<rparr>) (mpmc_size sz))"

definition cell :: "'a mpmc \<Rightarrow> u64 \<Rightarrow> nat" where
  "cell q p = unat (p AND mask q)"

definition seq_at :: "'a mpmc \<Rightarrow> u64 \<Rightarrow> u64" where
  "seq_at q p = fst (buf q ! cell q p)"

definition set_seq :: "u64 \<Rightarrow> u64 \<Rightarrow> 'a mpmc \<Rightarrow> 'a mpmc" where
  "set_seq p n q = q\<lparr>buf := (buf q)[cell q p := (n, snd (buf q ! cell q p))]\<rparr>"

definition set_node_data :: "u64 \<Rightarrow> 'a \<Rightarrow> 'a mpmc \<Rightarrow> 'a mpmc" where
  "set_node_data p x q = q\<lparr>buf := (buf q)[cell q p := (fst (buf q ! cell q p), Some x)]\<rparr>"

subsection \<open>The threads\<close>

text \<open>
  The control states. \<open>VPush\<close>: at the head of the loop of \<open>push\<close>; \<open>VPw\<close>: \<open>pwrite\<close> has been read; \<open>VCasW\<close>:
  the sequence number was right; \<open>VPut\<close>: the position is taken, the element is stored next; \<open>VPub\<close>: the
  sequence number is stored next. The same for \<open>pop\<close>.
\<close>

datatype 'a v_pc = VIdle | VPush 'a | VPw 'a u64 | VCasW 'a u64 | VPut 'a u64 | VPub u64
  | VPop | VPr u64 | VCasR u64 | VGet u64 | VRel u64

text \<open>\<open>v_in\<close> records the elements in the order of their positions, \<open>v_out\<close> what \<open>pop\<close> returned, with the thread and the position.\<close>

record 'a mpmcs =
  vq :: "'a mpmc"
  vpc :: "nat \<Rightarrow> 'a v_pc"
  v_in :: "'a list"
  v_out :: "(nat \<times> nat \<times> 'a option) list"

definition v_to :: "nat \<Rightarrow> 'a v_pc \<Rightarrow> 'a mpmcs \<Rightarrow> 'a mpmcs" where
  "v_to t c s = s\<lparr>vpc := (vpc s)(t := c)\<rparr>"

inductive v_step :: "'a mpmcs \<Rightarrow> 'a mpmcs \<Rightarrow> bool" where
  v_push: "vpc s t = VIdle \<Longrightarrow> v_step s (v_to t (VPush x) s)"
| v_loadw: "vpc s t = VPush x \<Longrightarrow> v_step s (v_to t (VPw x (pwrite (vq s))) s)"
| v_seqw: "vpc s t = VPw x pw \<Longrightarrow> v_step s (v_to t
    (if pw = seq_at (vq s) pw then VCasW x pw else if seq_at (vq s) pw < pw then VIdle else VPush x) s)"
| v_casw: "vpc s t = VCasW x pw \<Longrightarrow> v_step s
    (if pwrite (vq s) = pw then v_to t (VPut x pw) (s\<lparr>vq := (vq s)\<lparr>pwrite := pw + 1\<rparr>, v_in := v_in s @ [x]\<rparr>) else v_to t (VPush x) s)"
| v_put: "vpc s t = VPut x pw \<Longrightarrow> v_step s (v_to t (VPub pw) (s\<lparr>vq := set_node_data pw x (vq s)\<rparr>))"
| v_pub: "vpc s t = VPub pw \<Longrightarrow> v_step s (v_to t VIdle (s\<lparr>vq := set_seq pw (pw + 1) (vq s)\<rparr>))"
| v_pop: "vpc s t = VIdle \<Longrightarrow> v_step s (v_to t VPop s)"
| v_loadr: "vpc s t = VPop \<Longrightarrow> v_step s (v_to t (VPr (pread (vq s))) s)"
| v_seqr: "vpc s t = VPr pr \<Longrightarrow> diff = sint (seq_at (vq s) pr - (pr + 1)) \<Longrightarrow>
    v_step s (v_to t (if diff = 0 then VCasR pr else if diff < 0 then VIdle else VPop) s)"
| v_casr: "vpc s t = VCasR pr \<Longrightarrow> v_step s
    (if pread (vq s) = pr then v_to t (VGet pr) (s\<lparr>vq := (vq s)\<lparr>pread := pr + 1\<rparr>\<rparr>) else v_to t VPop s)"
| v_get: "vpc s t = VGet pr \<Longrightarrow> v_step s (v_to t (VRel pr) (s\<lparr>v_out := v_out s @ [(t, unat pr, snd (buf (vq s) ! cell (vq s) pr))]\<rparr>))"
| v_rel: "vpc s t = VRel pr \<Longrightarrow> v_step s (v_to t VIdle (s\<lparr>vq := set_seq pr (pr + mask (vq s) + 1) (vq s)\<rparr>))"

definition v_start :: "'a mpmc \<Rightarrow> 'a mpmcs" where
  "v_start q = \<lparr>vq = q, vpc = (\<lambda>_. VIdle), v_in = [], v_out = []\<rparr>"

subsection \<open>Tickets\<close>

text \<open>
  A position is a ticket. Cell \<open>i\<close> serves the tickets congruent to \<open>i\<close> one after the other: \<open>T i\<close> is
  the one it is serving, and \<open>F i\<close> says that its element has been published. \<open>wr\<close> and \<open>rd\<close> give the
  ticket a thread has taken to write or to read, \<open>cw\<close> and \<open>cr\<close> the one it is about to try for; the
  tickets below \<open>w\<close> and below \<open>r\<close> are taken.
\<close>

definition ticket_cell :: "nat \<Rightarrow> nat \<Rightarrow> nat \<Rightarrow> (nat \<Rightarrow> nat option) \<Rightarrow> (nat \<Rightarrow> nat option) \<Rightarrow> nat \<Rightarrow> nat \<Rightarrow> bool \<Rightarrow> bool" where
  "ticket_cell N w r wr rd i n f \<longleftrightarrow> n mod N = i \<and> w \<le> n + N \<and> n < r + N \<and>
     (if f then n < w \<and> (n < r \<longrightarrow> (\<exists>t. rd t = Some n)) else r \<le> n \<and> (n < w \<longrightarrow> (\<exists>t. wr t = Some n)))"

definition holders :: "nat \<Rightarrow> (nat \<Rightarrow> nat) \<Rightarrow> (nat \<Rightarrow> bool) \<Rightarrow> bool \<Rightarrow> nat \<Rightarrow> (nat \<Rightarrow> nat option) \<Rightarrow> bool" where
  "holders N T F b w h \<longleftrightarrow> (\<forall>t n. h t = Some n \<longrightarrow> n < w \<and> T (n mod N) = n \<and> F (n mod N) = b) \<and>
     (\<forall>t u n. h t = Some n \<longrightarrow> h u = Some n \<longrightarrow> t = u)"

definition triers :: "nat \<Rightarrow> (nat \<Rightarrow> nat) \<Rightarrow> (nat \<Rightarrow> bool) \<Rightarrow> bool \<Rightarrow> nat \<Rightarrow> (nat \<Rightarrow> nat option) \<Rightarrow> bool" where
  "triers N T F b w h \<longleftrightarrow> (\<forall>t n. h t = Some n \<longrightarrow> n \<le> w \<and> (n = w \<longrightarrow> T (n mod N) = n \<and> F (n mod N) = b))"

definition tickets where
  "tickets N T F w r wr rd cw cr \<longleftrightarrow> 2 \<le> N \<and> r \<le> w \<and> (\<forall>i<N. ticket_cell N w r wr rd i (T i) (F i)) \<and>
     holders N T F False w wr \<and> holders N T F True r rd \<and> triers N T F False w cw \<and> triers N T F True r cr"

lemma ticketsD:
  assumes "tickets N T F w r wr rd cw cr"
  shows "2 \<le> N" "r \<le> w" "i < N \<Longrightarrow> ticket_cell N w r wr rd i (T i) (F i)" "holders N T F False w wr" "holders N T F True r rd"
    "triers N T F False w cw" "triers N T F True r cr"
  using assms by (simp_all add: tickets_def)

lemma holdersD: "holders N T F b w h \<Longrightarrow> h t = Some n \<Longrightarrow> n < w \<and> T (n mod N) = n \<and> F (n mod N) = b"
  "holders N T F b w h \<Longrightarrow> h t = Some n \<Longrightarrow> h u = Some n \<Longrightarrow> t = u"
  by (auto simp: holders_def)

lemma triersD: "triers N T F b w h \<Longrightarrow> h t = Some n \<Longrightarrow> n \<le> w"
  "triers N T F b w h \<Longrightarrow> h t = Some w \<Longrightarrow> T (w mod N) = w \<and> F (w mod N) = b"
  by (auto simp: triers_def)

lemma holders_new:
  assumes "holders N T F b w h" and "h t = None" and "T (w mod N) = w" and "F (w mod N) = b"
  shows "holders N T F b (Suc w) (h(t \<mapsto> w))"
  using assms unfolding holders_def by (auto simp: less_Suc_eq split: if_splits) 

lemma holders_cell:
  assumes "holders N T F b w h" and "h t = Some n"
  shows "holders N (T(n mod N := m)) (F(n mod N := f)) b w (h(t := None))"
proof -
  have "k mod N \<noteq> n mod N" if "h u = Some k" "u \<noteq> t" for u k
    using holdersD(1) [OF assms(1) that(1)] holdersD(1) [OF assms] holdersD(2) [OF assms(1) that(1), of t] assms(2) that(2) by metis
  then show ?thesis using assms(1) unfolding holders_def by (auto split: if_splits)
qed

lemma holders_other: "holders N T F b w h \<Longrightarrow> F j \<noteq> b \<Longrightarrow> holders N (T(j := n)) (F(j := f)) b w h"
  unfolding holders_def by (metis fun_upd_other)

lemma triers_mono: "triers N T F b w h \<Longrightarrow> triers N T F b (Suc w) (h(t := None))"
  unfolding triers_def by (auto simp: le_Suc_eq split: if_splits) (metis Suc_n_not_le_n)+

lemma triers_cell: "triers N T F b w h \<Longrightarrow> (F j = b \<Longrightarrow> T j \<noteq> w) \<Longrightarrow> triers N (T(j := n)) (F(j := f)) b w h"
  unfolding triers_def by (metis fun_upd_other)

lemma triers_set: "triers N T F b w h \<Longrightarrow> (case c of None \<Rightarrow> True | Some n \<Rightarrow> n \<le> w \<and> (n = w \<longrightarrow> T (n mod N) = n \<and> F (n mod N) = b)) \<Longrightarrow>
    triers N T F b w (h(t := c))"
  unfolding triers_def by (auto split: if_splits)

text \<open>A thread takes the next ticket to write.\<close>

lemma tickets_take_w:
  assumes "tickets N T F w r wr rd cw cr" and "cw t = Some w" and "wr t = None"
  shows "tickets N T F (Suc w) r (wr(t \<mapsto> w)) rd (cw(t := None)) cr"
proof -
  note tk = ticketsD [OF assms(1)]
  have here: "T (w mod N) = w" "\<not> F (w mod N)" using triersD(2) [OF tk(6) assms(2)] by auto
  have "ticket_cell N (Suc w) r (wr(t \<mapsto> w)) rd i (T i) (F i)" if "i < N" for i
  proof -
    have c: "ticket_cell N w r wr rd i (T i) (F i)" using tk(3) [OF that] .
    have ne: "w \<noteq> T i + N"
    proof
      assume "w = T i + N"
      moreover from this c have "i = w mod N" by (simp add: ticket_cell_def)
      ultimately show False using here tk(1) by simp
    qed
    have wr: "\<exists>u. (wr(t \<mapsto> w)) u = Some n" if "n < Suc w" "n < w \<longrightarrow> (\<exists>u. wr u = Some n)" for n
    proof (cases "n = w")
      case True
      then show ?thesis by (auto intro: exI [of _ t])
    next
      case False
      with that obtain u where "wr u = Some n" by (auto simp: less_Suc_eq)
      then show ?thesis using assms(3) by (intro exI [of _ u]) auto
    qed
    show ?thesis using c ne wr [of "T i"] unfolding ticket_cell_def by (auto split: if_splits)
  qed
  then show ?thesis
    using tk here holders_new [OF tk(4) assms(3)] triers_mono [OF tk(6)] unfolding tickets_def by auto
qed

lemma tickets_take_r:
  assumes "tickets N T F w r wr rd cw cr" and "cr t = Some r" and "rd t = None"
  shows "tickets N T F w (Suc r) wr (rd(t \<mapsto> r)) cw (cr(t := None)) \<and> r < w"
proof -
  note tk = ticketsD [OF assms(1)]
  have here: "T (r mod N) = r" "F (r mod N)" using triersD(2) [OF tk(7) assms(2)] by auto
  have "r mod N < N" using tk(1) by simp
  from tk(3) [OF this] have lt: "r < w" using here by (simp add: ticket_cell_def)
  have "ticket_cell N w (Suc r) wr (rd(t \<mapsto> r)) i (T i) (F i)" if "i < N" for i
  proof -
    have c: "ticket_cell N w r wr rd i (T i) (F i)" using tk(3) [OF that] .
    have ne: "r \<noteq> T i" if "\<not> F i" using c here that by (auto simp: ticket_cell_def)
    have rd: "\<exists>u. (rd(t \<mapsto> r)) u = Some n" if "n < Suc r" "n < r \<longrightarrow> (\<exists>u. rd u = Some n)" for n
    proof (cases "n = r")
      case True
      then show ?thesis by (auto intro: exI [of _ t])
    next
      case False
      with that obtain u where "rd u = Some n" by (auto simp: less_Suc_eq)
      then show ?thesis using assms(3) by (intro exI [of _ u]) auto
    qed
    show ?thesis using c ne rd [of "T i"] unfolding ticket_cell_def by (auto split: if_splits)
  qed
  then show ?thesis
    using tk here lt holders_new [OF tk(5) assms(3)] triers_mono [OF tk(7)] unfolding tickets_def by auto
qed

lemma ex_other: "\<exists>u. h u = Some m \<Longrightarrow> h t = Some n \<Longrightarrow> m \<noteq> n \<Longrightarrow> \<exists>u. (h(t := None)) u = Some m"
  by (metis fun_upd_other option.inject)

lemma ticket_cell_cong:
  "ticket_cell N w r wr rd i n f \<Longrightarrow> (\<exists>u. wr u = Some n \<Longrightarrow> \<exists>u. wr' u = Some n) \<Longrightarrow> (\<exists>u. rd u = Some n \<Longrightarrow> \<exists>u. rd' u = Some n) \<Longrightarrow>
    ticket_cell N w r wr' rd' i n f"
  unfolding ticket_cell_def by (auto simp del: split_paired_Ex split: if_splits)

text \<open>The element of ticket \<open>n\<close> is published, and its cell is passed on to the ticket of the next lap.\<close>

lemma tickets_publish:
  assumes "tickets N T F w r wr rd cw cr" and "wr t = Some n"
  shows "tickets N T (F(n mod N := True)) w r (wr(t := None)) rd cw cr"
proof -
  note tk = ticketsD [OF assms(1)]
  have here: "n < w" "T (n mod N) = n" "\<not> F (n mod N)" using holdersD(1) [OF tk(4) assms(2)] by auto
  have "n mod N < N" using tk(1) by simp
  from tk(3) [OF this] have "r \<le> n" using here by (simp add: ticket_cell_def)
  have "ticket_cell N w r (wr(t := None)) rd i (T i) ((F(n mod N := True)) i)" if "i < N" for i
  proof (cases "i = n mod N")
    case True
    then show ?thesis using tk(3) [OF that] here \<open>r \<le> n\<close> by (simp add: ticket_cell_def)
  next
    case False
    have c: "ticket_cell N w r wr rd i (T i) (F i)" using tk(3) [OF that] .
    then have "T i \<noteq> n" using False by (auto simp: ticket_cell_def)
    then have "ticket_cell N w r (wr(t := None)) rd i (T i) (F i)" using ex_other [of wr "T i" t n, OF _ assms(2)] by (intro ticket_cell_cong [OF c]) auto
    with False show ?thesis by simp
  qed
  moreover have "holders N (T(n mod N := n)) (F(n mod N := True)) False w (wr(t := None))"
    by (rule holders_cell [OF tk(4) assms(2)])
  moreover have "holders N (T(n mod N := n)) (F(n mod N := True)) True r rd" using here by (intro holders_other [OF tk(5)]) auto
  moreover have "triers N (T(n mod N := n)) (F(n mod N := True)) False w cw" using here by (intro triers_cell [OF tk(6)]) auto
  moreover have "triers N (T(n mod N := n)) (F(n mod N := True)) True r cr" using here by (intro triers_cell [OF tk(7)]) auto
  moreover have "T(n mod N := n) = T" using here by auto
  ultimately show ?thesis using tk unfolding tickets_def by simp
qed

lemma tickets_release:
  assumes "tickets N T F w r wr rd cw cr" and "rd t = Some n"
  shows "tickets N (T(n mod N := n + N)) (F(n mod N := False)) w r wr (rd(t := None)) cw cr"
proof -
  note tk = ticketsD [OF assms(1)]
  have here: "n < r" "T (n mod N) = n" "F (n mod N)" using holdersD(1) [OF tk(5) assms(2)] by auto
  have "n mod N < N" using tk(1) by simp
  from tk(3) [OF this] have "w \<le> n + N" using here by (simp add: ticket_cell_def)
  have "ticket_cell N w r wr (rd(t := None)) i ((T(n mod N := n + N)) i) ((F(n mod N := False)) i)" if "i < N" for i
  proof (cases "i = n mod N")
    case True
    then show ?thesis using here \<open>w \<le> n + N\<close> tk(2) by (simp add: ticket_cell_def)
  next
    case False
    have c: "ticket_cell N w r wr rd i (T i) (F i)" using tk(3) [OF that] .
    then have "T i \<noteq> n" using False by (auto simp: ticket_cell_def)
    then have "ticket_cell N w r wr (rd(t := None)) i (T i) (F i)" using ex_other [of rd "T i" t n, OF _ assms(2)] by (intro ticket_cell_cong [OF c]) auto
    with False show ?thesis by simp
  qed
  moreover have "holders N (T(n mod N := n + N)) (F(n mod N := False)) True r (rd(t := None))"
    by (rule holders_cell [OF tk(5) assms(2)])
  moreover have "holders N (T(n mod N := n + N)) (F(n mod N := False)) False w wr" using here by (intro holders_other [OF tk(4)]) auto
  moreover have "triers N (T(n mod N := n + N)) (F(n mod N := False)) False w cw" using here by (intro triers_cell [OF tk(6)]) auto
  moreover have "triers N (T(n mod N := n + N)) (F(n mod N := False)) True r cr" using here by (intro triers_cell [OF tk(7)]) auto
  ultimately show ?thesis using tk unfolding tickets_def by simp
qed

lemma tickets_try:
  assumes "tickets N T F w r wr rd cw cr"
    and "case c of None \<Rightarrow> True | Some n \<Rightarrow> n \<le> w \<and> T (n mod N) = n \<and> \<not> F (n mod N)"
    and "case d of None \<Rightarrow> True | Some n \<Rightarrow> n \<le> r \<and> T (n mod N) = n \<and> F (n mod N)"
  shows "tickets N T F w r wr rd (cw(t := c)) (cr(t := d))"
  using ticketsD [OF assms(1)] assms(2,3) unfolding tickets_def by (auto intro!: triers_set split: option.splits)

text \<open>What a cell that is not ready means.\<close>

lemma mod_eq_less:
  fixes n p :: nat
  assumes "n mod N = p mod N" and "n < p"
  shows "n + N \<le> p"
proof -
  have "N dvd p - n" using assms mod_eq_dvd_iff_nat [of n p N] by simp
  then have "N \<le> p - n" using assms(2) by (intro dvd_imp_le) auto
  then show ?thesis using assms(2) by simp
qed

lemma tickets_room:
  assumes "tickets N T F w r wr rd cw cr"
  shows "w \<le> r + N"
proof -
  note tk = ticketsD [OF assms]
  have "r mod N < N" using tk(1) by simp
  then have c: "ticket_cell N w r wr rd (r mod N) (T (r mod N)) (F (r mod N))" by (rule tk(3))
  then have "\<not> r < T (r mod N)" using mod_eq_less [of r N "T (r mod N)"] by (auto simp: ticket_cell_def)
  with c show ?thesis by (auto simp: ticket_cell_def)
qed

lemma tickets_behind_w:
  assumes "tickets N T F w r wr rd cw cr" and "p \<le> w" and "T (p mod N) + (if F (p mod N) then 1 else 0) < p"
  shows "p = w \<and> T (p mod N) + N = w \<and> (w = r + N \<or> (\<exists>t. rd t = Some (T (p mod N))))"
proof -
  note tk = ticketsD [OF assms(1)]
  let ?n = "T (p mod N)"
  have "p mod N < N" using tk(1) by simp
  then have c: "ticket_cell N w r wr rd (p mod N) ?n (F (p mod N))" by (rule tk(3))
  moreover have "?n < p" using assms(3) by (simp split: if_splits)
  ultimately have "?n + N \<le> p" by (intro mod_eq_less) (auto simp: ticket_cell_def)
  with c assms(2) have "p = w" "?n + N = w" by (auto simp: ticket_cell_def)
  then show ?thesis using c tickets_room [OF assms(1)] by (auto simp: ticket_cell_def split: if_splits)
qed

lemma tickets_behind_r:
  assumes "tickets N T F w r wr rd cw cr" and "p \<le> r" and "T (p mod N) + (if F (p mod N) then 1 else 0) < Suc p"
  shows "p = r \<and> (w = r \<or> (\<exists>t. wr t = Some r))"
proof -
  note tk = ticketsD [OF assms(1)]
  let ?n = "T (p mod N)"
  have "p mod N < N" using tk(1) by simp
  then have c: "ticket_cell N w r wr rd (p mod N) ?n (F (p mod N))" by (rule tk(3))
  show ?thesis
  proof (cases "?n < p")
    case True
    with c have "?n + N \<le> p" by (intro mod_eq_less) (auto simp: ticket_cell_def)
    with c assms(2) tk(2) show ?thesis by (auto simp: ticket_cell_def)
  next
    case False
    with assms(3) have "?n = p" "\<not> F (p mod N)" by (auto split: if_splits)
    with c assms(2) tk(2) show ?thesis by (auto simp: ticket_cell_def)
  qed
qed

subsection \<open>The invariant\<close>

fun wr_of :: "'a v_pc \<Rightarrow> nat option" where
  "wr_of (VPut x p) = Some (unat p)" | "wr_of (VPub p) = Some (unat p)" | "wr_of c = None"

fun rd_of :: "'a v_pc \<Rightarrow> nat option" where
  "rd_of (VGet p) = Some (unat p)" | "rd_of (VRel p) = Some (unat p)" | "rd_of c = None"

fun cw_of :: "'a v_pc \<Rightarrow> nat option" where
  "cw_of (VCasW x p) = Some (unat p)" | "cw_of c = None"

fun cr_of :: "'a v_pc \<Rightarrow> nat option" where
  "cr_of (VCasR p) = Some (unat p)" | "cr_of c = None"

fun get_of :: "'a v_pc \<Rightarrow> nat option" where
  "get_of (VGet p) = Some (unat p)" | "get_of c = None"

definition mpmc_shape :: "nat \<Rightarrow> 'a mpmc \<Rightarrow> bool" where
  "mpmc_shape N q \<longleftrightarrow> length (buf q) = N \<and> (\<exists>k\<ge>1. N = 2 ^ k \<and> mask q = 2 ^ k - 1) \<and> N < 2 ^ 63"

text \<open>What a thread knows: the cells hold \<open>D\<close>, the elements are \<open>xs\<close>, and \<open>r\<close> tickets are taken to read.\<close>

fun thread_ok :: "nat \<Rightarrow> (nat \<Rightarrow> 'a option) \<Rightarrow> 'a list \<Rightarrow> nat \<Rightarrow> 'a v_pc \<Rightarrow> bool" where
  "thread_ok N D xs r (VPw x p) \<longleftrightarrow> unat p \<le> length xs"
| "thread_ok N D xs r (VPr p) \<longleftrightarrow> unat p \<le> r"
| "thread_ok N D xs r (VPut x p) \<longleftrightarrow> xs ! unat p = x"
| "thread_ok N D xs r (VPub p) \<longleftrightarrow> D (unat p mod N) = Some (xs ! unat p)"
| "thread_ok N D xs r _ \<longleftrightarrow> True"

text \<open>
  What has been delivered: \<open>g\<close> gives the ticket whose element a thread is about to fetch. Every taken
  ticket has been delivered or is being fetched, and a thread receives in the order of the tickets.
\<close>

definition received :: "nat \<Rightarrow> (nat \<times> nat \<times> 'd) list \<Rightarrow> nat list" where
  "received t out = map (fst \<circ> snd) (filter (\<lambda>e. fst e = t) out)"

definition out_ok :: "'a list \<Rightarrow> nat \<Rightarrow> (nat \<Rightarrow> nat option) \<Rightarrow> (nat \<times> nat \<times> 'a option) list \<Rightarrow> bool" where
  "out_ok xs r g out \<longleftrightarrow> distinct (map (fst \<circ> snd) out) \<and> (\<forall>(t, n, d) \<in> set out. d = Some (xs ! n)) \<and>
     {..<r} = (fst \<circ> snd) ` set out \<union> {n. \<exists>t. g t = Some n} \<and> (fst \<circ> snd) ` set out \<inter> {n. \<exists>t. g t = Some n} = {} \<and>
     (\<forall>t. sorted_wrt (<) (received t out)) \<and> (\<forall>t p n. g t = Some p \<longrightarrow> n \<in> set (received t out) \<longrightarrow> n < p)"

definition cells_ok :: "nat \<Rightarrow> (nat \<Rightarrow> nat) \<Rightarrow> (nat \<Rightarrow> bool) \<Rightarrow> 'a list \<Rightarrow> (u64 \<times> 'a option) list \<Rightarrow> bool" where
  "cells_ok N T F xs b \<longleftrightarrow> (\<forall>i<N. unat (fst (b ! i)) = T i + (if F i then 1 else 0) \<and> (F i \<longrightarrow> snd (b ! i) = Some (xs ! T i)))"

definition mpmc_inv :: "nat \<Rightarrow> (nat \<Rightarrow> nat) \<Rightarrow> (nat \<Rightarrow> bool) \<Rightarrow> 'a mpmcs \<Rightarrow> bool" where
  "mpmc_inv N T F s \<longleftrightarrow> mpmc_shape N (vq s) \<and> unat (pwrite (vq s)) = length (v_in s) \<and>
     tickets N T F (length (v_in s)) (unat (pread (vq s))) (\<lambda>t. wr_of (vpc s t)) (\<lambda>t. rd_of (vpc s t)) (\<lambda>t. cw_of (vpc s t)) (\<lambda>t. cr_of (vpc s t)) \<and>
     cells_ok N T F (v_in s) (buf (vq s)) \<and>
     (\<forall>t. thread_ok N (\<lambda>i. snd (buf (vq s) ! i)) (v_in s) (unat (pread (vq s))) (vpc s t)) \<and>
     out_ok (v_in s) (unat (pread (vq s))) (\<lambda>t. get_of (vpc s t)) (v_out s)"

lemma mpmc_invD:
  assumes "mpmc_inv N T F s"
  shows "mpmc_shape N (vq s)" "unat (pwrite (vq s)) = length (v_in s)"
    "tickets N T F (length (v_in s)) (unat (pread (vq s))) (\<lambda>t. wr_of (vpc s t)) (\<lambda>t. rd_of (vpc s t)) (\<lambda>t. cw_of (vpc s t)) (\<lambda>t. cr_of (vpc s t))"
    "cells_ok N T F (v_in s) (buf (vq s))"
    "thread_ok N (\<lambda>i. snd (buf (vq s) ! i)) (v_in s) (unat (pread (vq s))) (vpc s t)"
    "out_ok (v_in s) (unat (pread (vq s))) (\<lambda>t. get_of (vpc s t)) (v_out s)"
  using assms by (simp_all add: mpmc_inv_def)

lemma shape_cell: "mpmc_shape N q \<Longrightarrow> cell q p = unat p mod N"
proof -
  assume "mpmc_shape N q"
  then obtain k where k: "N = 2 ^ k" "mask q = 2 ^ k - 1" by (auto simp: mpmc_shape_def)
  have "p AND (2 ^ k - 1) = take_bit k p" by (simp add: take_bit_eq_mask mask_eq_exp_minus_1)
  moreover have "unat (take_bit k p) = unat p mod 2 ^ k" by (simp add: unsigned_take_bit_eq take_bit_eq_mod [symmetric])
  ultimately show ?thesis unfolding cell_def k by simp
qed

lemma shape_lap:
  assumes "mpmc_shape N q" and "unat p + N < 2 ^ 63"
  shows "unat (p + mask q + 1) = unat p + N"
proof -
  obtain k where k: "N = 2 ^ k" "mask q = 2 ^ k - 1" using assms(1) by (auto simp: mpmc_shape_def)
  have eq: "p + mask q + 1 = p + word_of_nat N" by (simp add: k)
  show ?thesis unfolding eq using assms by (simp add: unat_word_ariths unat_of_nat mpmc_shape_def)
qed

lemma shape_less: "mpmc_shape N q \<Longrightarrow> n mod N < length (buf q)"
  by (auto simp: mpmc_shape_def)

lemma shape_seq: "mpmc_shape N q \<Longrightarrow> mpmc_shape N (set_seq p n q)" "mpmc_shape N q \<Longrightarrow> mpmc_shape N (set_node_data p x q)"
  "mpmc_shape N q \<Longrightarrow> mpmc_shape N (q\<lparr>pwrite := m\<rparr>)" "mpmc_shape N q \<Longrightarrow> mpmc_shape N (q\<lparr>pread := m\<rparr>)"
  by (simp_all add: mpmc_shape_def set_seq_def set_node_data_def)

lemma of_upd: "(\<lambda>u. f ((p(t := c)) u)) = (\<lambda>u. f (p u))(t := f c)"
  by auto

lemma mpmc_invI:
  assumes "vpc u = (vpc s)(t := c)" and "mpmc_shape N (vq u)" and "unat (pwrite (vq u)) = length (v_in u)"
    and "tickets N T F (length (v_in u)) (unat (pread (vq u))) ((\<lambda>v. wr_of (vpc s v))(t := wr_of c)) ((\<lambda>v. rd_of (vpc s v))(t := rd_of c))
      ((\<lambda>v. cw_of (vpc s v))(t := cw_of c)) ((\<lambda>v. cr_of (vpc s v))(t := cr_of c))"
    and "cells_ok N T F (v_in u) (buf (vq u))"
    and "\<And>v. v \<noteq> t \<Longrightarrow> thread_ok N (\<lambda>i. snd (buf (vq u) ! i)) (v_in u) (unat (pread (vq u))) (vpc s v)"
    and "thread_ok N (\<lambda>i. snd (buf (vq u) ! i)) (v_in u) (unat (pread (vq u))) c"
    and "out_ok (v_in u) (unat (pread (vq u))) ((\<lambda>v. get_of (vpc s v))(t := get_of c)) (v_out u)"
  shows "mpmc_inv N T F u"
  unfolding mpmc_inv_def assms(1) of_upd using assms(2-) by auto

lemma same_upd: "f t = x \<Longrightarrow> f(t := x) = f"
  by auto

lemma out_less: "out_ok xs r g out \<Longrightarrow> (t, n, d) \<in> set out \<Longrightarrow> n < r \<and> d = Some (xs ! n)"
proof -
  assume o: "out_ok xs r g out" and m: "(t, n, d) \<in> set out"
  have "n \<in> (fst \<circ> snd) ` set out" using m by (rule image_eqI [rotated]) simp
  then have "n \<in> {..<r}" using o unfolding out_ok_def by blast
  with o m show ?thesis unfolding out_ok_def by auto
qed

lemma out_mono: "out_ok xs r g out \<Longrightarrow> (\<And>n. n < r \<Longrightarrow> ys ! n = xs ! n) \<Longrightarrow> out_ok ys r g out"
proof -
  assume o: "out_ok xs r g out" and e: "\<And>n. n < r \<Longrightarrow> ys ! n = xs ! n"
  have "\<forall>(t, n, d) \<in> set out. d = Some (ys ! n)" using out_less [OF o] e by auto
  with o show ?thesis unfolding out_ok_def by blast
qed

lemma received_less: "out_ok xs r g out \<Longrightarrow> n \<in> set (received t out) \<Longrightarrow> n < r"
  using out_less [of xs r g out t n] by (auto simp: received_def dest: out_less)

lemma ex_new: "g t = None \<Longrightarrow> {n. \<exists>u. (g(t \<mapsto> r)) u = Some n} = insert r {n. \<exists>u. g u = Some n}"
  by (auto simp: fun_upd_def) (metis option.distinct(1))+

lemma out_take:
  assumes "out_ok xs r g out" and "g t = None"
  shows "out_ok xs (Suc r) (g(t \<mapsto> r)) out"
proof -
  have "(fst \<circ> snd) ` set out \<subseteq> {..<r}" using assms(1) unfolding out_ok_def by blast
  then have "r \<notin> (fst \<circ> snd) ` set out" by blast
  then show ?thesis using assms received_less [OF assms(1)] unfolding out_ok_def ex_new [of g t r, OF assms(2)] lessThan_Suc
    by (auto simp del: image_comp comp_apply split: if_splits)
qed

lemma out_put:
  assumes "out_ok xs r g out" and "g t = Some n" and "\<And>v. g v = Some n \<Longrightarrow> v = t"
  shows "out_ok xs r (g(t := None)) (out @ [(t, n, Some (xs ! n))])"
proof -
  have rest: "{m. \<exists>v. (g(t := None)) v = Some m} = {m. \<exists>v. g v = Some m} - {n}"
  proof (intro set_eqI iffI)
    fix m
    assume "m \<in> {m. \<exists>v. (g(t := None)) v = Some m}"
    then obtain v where v: "(g(t := None)) v = Some m" by blast
    then have "v \<noteq> t" "g v = Some m" by (auto split: if_splits)
    then show "m \<in> {m. \<exists>v. g v = Some m} - {n}" using assms(3) [of v] by blast
  next
    fix m
    assume "m \<in> {m. \<exists>v. g v = Some m} - {n}"
    then show "m \<in> {m. \<exists>v. (g(t := None)) v = Some m}" using ex_other [of g m t n] assms(2) by blast
  qed
  have mem: "n \<in> {m. \<exists>v. g v = Some m}" using assms(2) by auto
  have rcv: "received v (out @ [(t, n, Some (xs ! n))]) = received v out @ (if v = t then [n] else [])" for v by (simp add: received_def)
  have old: "sorted_wrt (<) (received v out)" "g v = Some p \<Longrightarrow> m \<in> set (received v out) \<Longrightarrow> m < p" for v p m
    using assms(1) unfolding out_ok_def by blast+
  have "sorted_wrt (<) (received v (out @ [(t, n, Some (xs ! n))]))" for v
    using old(1) [of v] old(2) [of t n] assms(2) unfolding rcv by (auto simp: sorted_wrt_append)
  moreover have "m < p" if "(g(t := None)) v = Some p" "m \<in> set (received v (out @ [(t, n, Some (xs ! n))]))" for v p m
    using that old(2) [of v p m] unfolding rcv by (auto split: if_splits)
  moreover have "distinct (map (fst \<circ> snd) (out @ [(t, n, Some (xs ! n))]))" using assms(1) mem unfolding out_ok_def by auto
  moreover have "{..<r} = (fst \<circ> snd) ` set (out @ [(t, n, Some (xs ! n))]) \<union> ({m. \<exists>v. g v = Some m} - {n})"
    using assms(1) mem unfolding out_ok_def by auto
  moreover have "(fst \<circ> snd) ` set (out @ [(t, n, Some (xs ! n))]) \<inter> ({m. \<exists>v. g v = Some m} - {n}) = {}"
    using assms(1) unfolding out_ok_def by auto
  moreover have "\<forall>(v, m, d) \<in> set (out @ [(t, n, Some (xs ! n))]). d = Some (xs ! m)" using assms(1) unfolding out_ok_def by auto
  ultimately show ?thesis unfolding out_ok_def rest by blast
qed

text \<open>A thread moves on without taking or passing on a ticket.\<close>

lemma mpmc_goto:
  assumes "mpmc_inv N T F s" and "wr_of c = wr_of (vpc s t)" and "rd_of c = rd_of (vpc s t)" and "get_of c = get_of (vpc s t)"
    and "case cw_of c of None \<Rightarrow> True | Some n \<Rightarrow> n \<le> length (v_in s) \<and> T (n mod N) = n \<and> \<not> F (n mod N)"
    and "case cr_of c of None \<Rightarrow> True | Some n \<Rightarrow> n \<le> unat (pread (vq s)) \<and> T (n mod N) = n \<and> F (n mod N)"
    and "thread_ok N (\<lambda>i. snd (buf (vq s) ! i)) (v_in s) (unat (pread (vq s))) c"
  shows "mpmc_inv N T F (v_to t c s)"
proof -
  note inv = mpmc_invD [OF assms(1)]
  show ?thesis
    by (rule mpmc_invI [of _ s t c])
      (use inv tickets_try [OF inv(3) assms(5,6), of t] assms(2-4,7) in \<open>simp_all add: v_to_def same_upd\<close>)
qed

lemma mpmc_take_w:
  assumes "mpmc_inv N T F s" and "vpc s t = VCasW x p" and "pwrite (vq s) = p" and "length (v_in s) + 1 < 2 ^ 63"
  shows "mpmc_inv N T F (v_to t (VPut x p) (s\<lparr>vq := (vq s)\<lparr>pwrite := p + 1\<rparr>, v_in := v_in s @ [x]\<rparr>))" (is "mpmc_inv N T F ?u")
proof -
  note inv = mpmc_invD [OF assms(1)]
  note tk = ticketsD [OF inv(3)]
  let ?n = "length (v_in s)"
  have p: "unat p = ?n" using inv(2) assms(3) by simp
  then have inc: "unat (p + 1) = Suc ?n" using assms(4) by (simp add: unat_word_ariths)
  have old: "(v_in s @ [x]) ! m = v_in s ! m" if "m < ?n" for m using that by (simp add: nth_append)
  have cells: "cells_ok N T F (v_in s @ [x]) (buf (vq s))"
    using inv(4) tk(3) old unfolding cells_ok_def ticket_cell_def by auto
  have others: "thread_ok N D (v_in s @ [x]) r (vpc s v)" if "thread_ok N D (v_in s) r (vpc s v)" for D r v
    using that holdersD(1) [OF tk(4), of v] old by (cases "vpc s v") auto
  have "out_ok (v_in s @ [x]) (unat (pread (vq s))) (\<lambda>v. get_of (vpc s v)) (v_out s)"
    using tk(2) by (intro out_mono [OF inv(6)] old) simp
  then show ?thesis
    using inv(1,5) others inc cells p assms(2) tickets_take_w [OF inv(3), of t] mpmc_invD(5) [OF assms(1), of t]
    by (intro mpmc_invI [of _ s t "VPut x p"]) (simp_all add: v_to_def same_upd shape_seq)
qed

lemma mpmc_take_r:
  assumes "mpmc_inv N T F s" and "vpc s t = VCasR p" and "pread (vq s) = p" and "length (v_in s) < 2 ^ 63"
  shows "mpmc_inv N T F (v_to t (VGet p) (s\<lparr>vq := (vq s)\<lparr>pread := p + 1\<rparr>\<rparr>))"
proof -
  note inv = mpmc_invD [OF assms(1)]
  let ?r = "unat (pread (vq s))"
  have tk: "tickets N T F (length (v_in s)) (Suc ?r) (\<lambda>v. wr_of (vpc s v)) ((\<lambda>v. rd_of (vpc s v))(t \<mapsto> ?r)) (\<lambda>v. cw_of (vpc s v)) ((\<lambda>v. cr_of (vpc s v))(t := None))"
    and lt: "?r < length (v_in s)"
    using tickets_take_r [OF inv(3), of t] assms(2,3) by auto
  have inc: "unat (p + 1) = Suc ?r" using assms(3,4) lt by (simp add: unat_word_ariths)
  have others: "thread_ok N D xs (Suc r) c" if "thread_ok N D xs r c" for D xs r and c :: "'a v_pc"
    using that by (cases c) auto
  have "out_ok (v_in s) (Suc ?r) ((\<lambda>v. get_of (vpc s v))(t \<mapsto> ?r)) (v_out s)"
    using assms(2) by (intro out_take [OF inv(6)]) simp
  then show ?thesis
    using inv(1,2,4,5) others inc assms(2,3) tk mpmc_invD(5) [OF assms(1), of t]
    by (intro mpmc_invI [of _ s t "VGet p"]) (simp_all add: v_to_def same_upd shape_seq)
qed

text \<open>The four stores of a thread that holds a ticket.\<close>

lemma mpmc_put:
  assumes "mpmc_inv N T F s" and "vpc s t = VPut x p"
  shows "mpmc_inv N T F (v_to t (VPub p) (s\<lparr>vq := set_node_data p x (vq s)\<rparr>))"
proof -
  note inv = mpmc_invD [OF assms(1)]
  note tk = ticketsD [OF inv(3)]
  let ?j = "unat p mod N" and ?b = "buf (vq s)"
  let ?b' = "?b[?j := (fst (?b ! ?j), Some x)]"
  have here: "\<not> F ?j" "wr_of (vpc s t) = Some (unat p)" using holdersD(1) [OF tk(4), of t "unat p"] assms(2) by auto
  have b: "set_node_data p x (vq s) = (vq s)\<lparr>buf := ?b'\<rparr>" by (simp add: set_node_data_def shape_cell [OF inv(1)])
  have len: "?j < length ?b" by (rule shape_less [OF inv(1)])
  have cells: "cells_ok N T F (v_in s) ?b'"
    using inv(4) here len unfolding cells_ok_def by (auto simp: nth_list_update)
  have "thread_ok N (\<lambda>i. snd (?b' ! i)) (v_in s) r (vpc s v)" if "v \<noteq> t" "thread_ok N (\<lambda>i. snd (?b ! i)) (v_in s) r (vpc s v)" for r v
  proof (cases "vpc s v")
    case (VPub m)
    have "unat m mod N \<noteq> ?j"
    proof
      assume "unat m mod N = ?j"
      moreover have "T (unat m mod N) = unat m" "T ?j = unat p"
        using holdersD(1) [OF tk(4), of v "unat m"] holdersD(1) [OF tk(4) here(2)] VPub by auto
      ultimately have "unat m = unat p" by metis
      then have "wr_of (vpc s v) = Some (unat p)" using VPub by simp
      then have "t = v" by (rule holdersD(2) [OF tk(4) here(2)])
      then show False using that(1) by simp
    qed
    then show ?thesis using that VPub by simp
  qed (use that(2) in auto)
  then show ?thesis
    using inv(1-3,5,6) cells assms(2) len mpmc_invD(5) [OF assms(1), of t] shape_seq(2) [OF inv(1), of p x] unfolding b
    by (intro mpmc_invI [of _ s t "VPub p"]) (simp_all add: v_to_def same_upd)
qed

lemma mpmc_publish:
  assumes "mpmc_inv N T F s" and "vpc s t = VPub p" and "length (v_in s) < 2 ^ 63"
  shows "mpmc_inv N T (F(unat p mod N := True)) (v_to t VIdle (s\<lparr>vq := set_seq p (p + 1) (vq s)\<rparr>))"
proof -
  note inv = mpmc_invD [OF assms(1)]
  note tk = ticketsD [OF inv(3)]
  let ?j = "unat p mod N" and ?b = "buf (vq s)"
  let ?b' = "?b[?j := (p + 1, snd (?b ! ?j))]"
  have here: "unat p < length (v_in s)" "T ?j = unat p" "wr_of (vpc s t) = Some (unat p)"
    using holdersD(1) [OF tk(4), of t "unat p"] assms(2) by auto
  have b: "set_seq p (p + 1) (vq s) = (vq s)\<lparr>buf := ?b'\<rparr>" by (simp add: set_seq_def shape_cell [OF inv(1)])
  have len: "?j < length ?b" by (rule shape_less [OF inv(1)])
  have inc: "unat (p + 1) = Suc (unat p)" using here(1) assms(3) by (simp add: unat_word_ariths)
  have cells: "cells_ok N T (F(?j := True)) (v_in s) ?b'"
    using inv(4) here len inc inv(5) [of t] assms(2) unfolding cells_ok_def by (auto simp: nth_list_update)
  have "snd (?b' ! i) = snd (?b ! i)" for i using len by (cases "i = ?j") auto
  then show ?thesis
    using inv(1,2,5,6) cells assms(2) len tickets_publish [OF inv(3) here(3)] shape_seq(1) [OF inv(1), of p "p + 1"] unfolding b
    by (intro mpmc_invI [of _ s t VIdle]) (simp_all add: v_to_def same_upd)
qed

lemma mpmc_get:
  assumes "mpmc_inv N T F s" and "vpc s t = VGet p"
  shows "mpmc_inv N T F (v_to t (VRel p) (s\<lparr>v_out := v_out s @ [(t, unat p, snd (buf (vq s) ! cell (vq s) p))]\<rparr>))"
proof -
  note inv = mpmc_invD [OF assms(1)]
  note tk = ticketsD [OF inv(3)]
  let ?p = "unat p" and ?g = "\<lambda>v. get_of (vpc s v)"
  have here: "T (?p mod N) = ?p" "F (?p mod N)" "rd_of (vpc s t) = Some ?p" using holdersD(1) [OF tk(5), of t ?p] assms(2) by auto
  have "?p mod N < N" using tk(1) by simp
  then have data: "snd (buf (vq s) ! cell (vq s) p) = Some (v_in s ! ?p)"
    using inv(4) here shape_cell [OF inv(1)] by (simp add: cells_ok_def)
  have rd: "rd_of c = Some n" if "get_of c = Some n" for c :: "'a v_pc" and n using that by (cases c) auto
  have one: "v = t" if "?g v = Some ?p" for v using holdersD(2) [OF tk(5) here(3), of v] rd [OF that] by simp
  have "out_ok (v_in s) (unat (pread (vq s))) (?g(t := None)) (v_out s @ [(t, ?p, Some (v_in s ! ?p))])"
    using one assms(2) by (intro out_put [OF inv(6)]) auto
  then show ?thesis
    using inv(1-5) assms(2) data by (intro mpmc_invI [of _ s t "VRel p"]) (simp_all add: v_to_def same_upd)
qed

lemma mpmc_release:
  assumes "mpmc_inv N T F s" and "vpc s t = VRel p" and "length (v_in s) + N < 2 ^ 63"
  shows "mpmc_inv N (T(unat p mod N := unat p + N)) (F(unat p mod N := False)) (v_to t VIdle (s\<lparr>vq := set_seq p (p + mask (vq s) + 1) (vq s)\<rparr>))"
proof -
  note inv = mpmc_invD [OF assms(1)]
  note tk = ticketsD [OF inv(3)]
  let ?j = "unat p mod N" and ?b = "buf (vq s)" and ?n = "p + mask (vq s) + 1"
  let ?b' = "?b[?j := (?n, snd (?b ! ?j))]"
  have here: "unat p < unat (pread (vq s))" "rd_of (vpc s t) = Some (unat p)" using holdersD(1) [OF tk(5), of t "unat p"] assms(2) by auto
  have b: "set_seq p ?n (vq s) = (vq s)\<lparr>buf := ?b'\<rparr>" by (simp add: set_seq_def shape_cell [OF inv(1)])
  have len: "?j < length ?b" by (rule shape_less [OF inv(1)])
  have inc: "unat ?n = unat p + N" using here(1) tk(2) assms(3) by (intro shape_lap [OF inv(1)]) simp
  have cells: "cells_ok N (T(?j := unat p + N)) (F(?j := False)) (v_in s) ?b'"
    using inv(4) here len inc unfolding cells_ok_def by (auto simp: nth_list_update)
  have "snd (?b' ! i) = snd (?b ! i)" for i using len by (cases "i = ?j") auto
  then show ?thesis
    using inv(1,2,5,6) cells assms(2) len tickets_release [OF inv(3) here(2)] shape_seq(1) [OF inv(1), of p ?n] unfolding b
    by (intro mpmc_invI [of _ s t VIdle]) (simp_all add: v_to_def same_upd)
qed

end
