(* ===== verification/FFMpmcRun.thy ===== *)
theory FFMpmcRun
  imports FFMpmc
begin

text \<open>
  Runs of the queue of FFMpmc: every step keeps the invariant, so every element is delivered once
  and in order, and a refused call has a reason.
\<close>

subsection \<open>Every step keeps the invariant\<close>

lemma seq_value:
  assumes "mpmc_inv N T F s"
  shows "unat (seq_at (vq s) p) = T (unat p mod N) + (if F (unat p mod N) then 1 else 0)" "T (unat p mod N) mod N = unat p mod N"
proof -
  note inv = mpmc_invD [OF assms]
  note tk = ticketsD [OF inv(3)]
  have "unat p mod N < N" using tk(1) by simp
  then show "unat (seq_at (vq s) p) = T (unat p mod N) + (if F (unat p mod N) then 1 else 0)" "T (unat p mod N) mod N = unat p mod N"
    using inv(4) tk(1,3) shape_cell [OF inv(1)] by (auto simp: seq_at_def cells_ok_def ticket_cell_def)
qed

lemma seq_write:
  assumes "mpmc_inv N T F s" and "p = seq_at (vq s) p"
  shows "T (unat p mod N) = unat p \<and> \<not> F (unat p mod N)"
proof (cases "F (unat p mod N)")
  case True
  note v = seq_value [OF assms(1), of p]
  with True assms(2) have "unat p = T (unat p mod N) + 1" by simp
  with v(2) have "T (unat p mod N) + N \<le> unat p" by (intro mod_eq_less) auto
  with \<open>unat p = T (unat p mod N) + 1\<close> ticketsD(1) [OF mpmc_invD(3) [OF assms(1)]] show ?thesis by simp
next
  case False
  then show ?thesis using seq_value(1) [OF assms(1), of p] assms(2) by simp
qed

lemma seq_read:
  assumes "mpmc_inv N T F s" and "unat (seq_at (vq s) p) = unat p + 1"
  shows "T (unat p mod N) = unat p \<and> F (unat p mod N)"
proof (cases "F (unat p mod N)")
  case False
  note v = seq_value [OF assms(1), of p]
  with False assms(2) have e: "T (unat p mod N) = unat p + 1" by simp
  with v(2) have "unat p + N \<le> T (unat p mod N)" by (intro mod_eq_less) auto
  with e ticketsD(1) [OF mpmc_invD(3) [OF assms(1)]] show ?thesis by simp
next
  case True
  then show ?thesis using seq_value(1) [OF assms(1), of p] assms(2) by simp
qed

lemma pop_diff:
  assumes "mpmc_inv N T F s" and "vpc s t = VPr p" and "length (v_in s) + N < 2 ^ 63"
  shows "sint (seq_at (vq s) p - (p + 1)) = int (unat (seq_at (vq s) p)) - int (unat p + 1)"
proof -
  note inv = mpmc_invD [OF assms(1)]
  note tk = ticketsD [OF inv(3)]
  have p: "unat p \<le> length (v_in s)" using inv(5) [of t] assms(2) tk(2) by simp
  then have inc: "unat (p + 1) = unat p + 1" using assms(3) tk(1) by (simp add: unat_word_ariths)
  have "unat p mod N < N" using tk(1) by simp
  from tk(3) [OF this] have "T (unat p mod N) + (if F (unat p mod N) then 1 else 0) \<le> length (v_in s) + N"
    using tk(2) unfolding ticket_cell_def by (auto split: if_splits)
  then have "unat (seq_at (vq s) p) \<le> length (v_in s) + N" unfolding seq_value(1) [OF assms(1)] .
  then have "unat (seq_at (vq s) p) < 2 ^ 63" using assms(3) by (rule le_less_trans)
  moreover have "unat (p + 1) < 2 ^ 63" using inc p assms(3) tk(1) by simp
  ultimately have "sint (seq_at (vq s) p - (p + 1)) = uint (seq_at (vq s) p) - uint (p + 1)" by (rule sint_diff_small)
  then show ?thesis unfolding uint_nat inc .
qed

inductive_cases v_stepE: "v_step s u"

lemma v_step_inv:
  assumes "v_step s u" and "mpmc_inv N T F s" and "length (v_in u) + N < 2 ^ 63"
  shows "\<exists>T F. mpmc_inv N T F u"
proof -
  note inv = mpmc_invD [OF assms(2)]
  note tk = ticketsD [OF inv(3)]
  note bound = triersD(1) [OF tk(6)] triersD(1) [OF tk(7)]
  from assms(1) show ?thesis
  proof cases
    case (v_loadw t x)
    have "mpmc_inv N T F u" unfolding v_loadw(1) by (rule mpmc_goto [OF assms(2)]) (use inv(2) v_loadw(2) in auto)
    then show ?thesis by blast
  next
    case (v_seqw t x p)
    have "mpmc_inv N T F u" unfolding v_seqw(1)
      by (rule mpmc_goto [OF assms(2)]) (use v_seqw(2) inv(5) [of t] seq_write [OF assms(2), of p] in auto)
    then show ?thesis by blast
  next
    case (v_casw t x p)
    show ?thesis
    proof (cases "pwrite (vq s) = p")
      case True
      then have "length (v_in s) + 1 < 2 ^ 63" using assms(3) v_casw by (simp add: v_to_def)
      with v_casw True mpmc_take_w [OF assms(2) v_casw(2) True] show ?thesis by auto
    next
      case False
      have "mpmc_inv N T F u" unfolding v_casw(1) if_not_P [OF False] by (rule mpmc_goto [OF assms(2)]) (use v_casw(2) in auto)
      then show ?thesis by blast
    qed
  next
    case (v_put t x p)
    then show ?thesis using mpmc_put [OF assms(2)] by blast
  next
    case (v_pub t p)
    then have "length (v_in s) < 2 ^ 63" using assms(3) by (simp add: v_to_def)
    with v_pub show ?thesis using mpmc_publish [OF assms(2)] by blast
  next
    case (v_loadr t)
    have "mpmc_inv N T F u" unfolding v_loadr(1) by (rule mpmc_goto [OF assms(2)]) (use v_loadr(2) in auto)
    then show ?thesis by blast
  next
    case (v_seqr t p d)
    then have "length (v_in s) + N < 2 ^ 63" using assms(3) by (simp add: v_to_def)
    from pop_diff [OF assms(2) v_seqr(2) this] v_seqr(3)
    have eq: "unat (seq_at (vq s) p) = unat p + 1" if "d = 0" using that by linarith
    have "mpmc_inv N T F u" unfolding v_seqr(1)
      by (rule mpmc_goto [OF assms(2)]) (use v_seqr(2) inv(5) [of t] eq seq_read [OF assms(2), of p] in auto)
    then show ?thesis by blast
  next
    case (v_casr t p)
    show ?thesis
    proof (cases "pread (vq s) = p")
      case True
      then have "length (v_in s) < 2 ^ 63" using assms(3) v_casr by (simp add: v_to_def)
      with v_casr True mpmc_take_r [OF assms(2) v_casr(2) True] show ?thesis by auto
    next
      case False
      have "mpmc_inv N T F u" unfolding v_casr(1) if_not_P [OF False] by (rule mpmc_goto [OF assms(2)]) (use v_casr(2) in auto)
      then show ?thesis by blast
    qed
  next
    case (v_get t p)
    then show ?thesis using mpmc_get [OF assms(2)] by blast
  next
    case (v_rel t p)
    then have "length (v_in s) + N < 2 ^ 63" using assms(3) by (simp add: v_to_def)
    with v_rel show ?thesis using mpmc_release [OF assms(2)] by blast
  next
    case (v_push t x)
    have "mpmc_inv N T F u" unfolding v_push(1) by (rule mpmc_goto [OF assms(2)]) (use v_push(2) in auto)
    then show ?thesis by blast
  next
    case (v_pop t)
    have "mpmc_inv N T F u" unfolding v_pop(1) by (rule mpmc_goto [OF assms(2)]) (use v_pop(2) in auto)
    then show ?thesis by blast
  qed
qed

lemma v_step_grows: "v_step s u \<Longrightarrow> length (v_in s) \<le> length (v_in u)"
  by (auto elim!: v_stepE simp: v_to_def)

lemma v_steps_inv:
  assumes "v_step\<^sup>*\<^sup>* s u" and "mpmc_inv N T F s" and "length (v_in u) + N < 2 ^ 63"
  shows "\<exists>T F. mpmc_inv N T F u"
  using assms(1,3)
proof (induction rule: rtranclp_induct)
  case base
  then show ?case using assms(2) by blast
next
  case (step u w)
  then show ?case using v_step_grows [OF step(2)] v_step_inv [OF step(2)] by fastforce
qed

subsection \<open>The size of the array\<close>

lemma isPowerOf2_exp:
  assumes "isPowerOf2 x"
  shows "\<exists>k. unat x = 2 ^ k"
proof -
  have "0 < unat x" using assms by (simp add: isPowerOf2_def unat_gt_0)
  then obtain k where k: "2 ^ k \<le> unat x" "unat x < 2 ^ (k + 1)" using ex_power_ivl1 [of 2 "unat x"] by auto
  have "unat x = 2 ^ k"
  proof (rule ccontr)
    assume "unat x \<noteq> 2 ^ k"
    with k have le: "2 ^ k \<le> unat x - 1" by simp
    have one: "unat (x - 1) = unat x - 1" using assms by (simp add: isPowerOf2_def unat_minus_one)
    have top: "bit (n :: nat) k" if "2 ^ k \<le> n" "n < 2 ^ (k + 1)" for n
    proof -
      have "n div 2 ^ k = 1" using that by (intro div_nat_eqI) auto
      then show ?thesis by (simp add: bit_iff_odd)
    qed
    have "bit (unat x) k" "bit (unat (x - 1)) k" using top [of "unat x"] top [of "unat x - 1"] le k one by auto
    then have "bit (x AND (x - 1)) k" by (simp add: bit_and_iff bit_unsigned_iff)
    then show False using assms by (simp add: isPowerOf2_def)
  qed
  then show ?thesis by blast
qed

lemma unat_exp: "i < 64 \<Longrightarrow> unat (2 ^ i :: u64) = 2 ^ i"
proof -
  assume "i < 64"
  then have "(2 :: nat) ^ i < 2 ^ 64" by (intro power_strict_increasing) auto
  then have "unat (of_nat (2 ^ i) :: u64) = 2 ^ i" unfolding unat_of_nat by simp
  then show ?thesis by simp
qed

lemma next_power_exp:
  assumes "unat x \<le> 2 ^ j" and "i \<le> j" and "j < 64" and "j - i < fuel"
  shows "\<exists>m. i \<le> m \<and> m \<le> j \<and> next_power fuel x (2 ^ i) = Some (2 ^ m) \<and> unat x \<le> 2 ^ m \<and> (i < m \<longrightarrow> 2 ^ (m - 1) < unat x)"
  using assms(2,4)
proof (induction fuel arbitrary: i)
  case (Suc fuel)
  have v: "unat (2 ^ i :: u64) = 2 ^ i" using Suc(2) assms(3) by (intro unat_exp) simp
  show ?case
  proof (cases "(2 ^ i :: u64) < x")
    case True
    then have lt: "2 ^ i < unat x" unfolding word_less_nat_alt v .
    then have "i \<noteq> j" using assms(1) by auto
    then have ij: "i + 1 \<le> j" "j - (i + 1) < fuel" using Suc(2,3) by auto
    obtain m where m: "i + 1 \<le> m" "m \<le> j" "next_power fuel x (2 ^ (i + 1)) = Some (2 ^ m)" "unat x \<le> 2 ^ m" "i + 1 < m \<longrightarrow> 2 ^ (m - 1) < unat x"
      using Suc.IH [OF ij] by auto
    have "push_bit 1 (2 ^ i :: u64) = 2 ^ (i + 1)" by (simp add: push_bit_eq_mult)
    then have "next_power (Suc fuel) x (2 ^ i) = Some (2 ^ m)" using True m(3) by (simp add: mult.commute)
    moreover have "2 ^ (m - 1) < unat x"
      using m(1,5) lt by (cases "i + 1 = m") auto
    ultimately show ?thesis using m(1,2,4) by (intro exI [of _ m]) simp
  next
    case False
    then have "unat x \<le> 2 ^ i" unfolding word_less_nat_alt v by simp
    with False Suc(2) show ?thesis by (intro exI [of _ i]) simp
  qed
qed simp

text \<open>The array has the requested size, rounded up to a power of 2.\<close>

lemma mpmc_size_ok:
  assumes "unat sz < 2 ^ 32"
  shows "\<exists>k n. 1 \<le> k \<and> k \<le> 32 \<and> mpmc_size sz = Some n \<and> n = 2 ^ k \<and> unat sz \<le> 2 ^ k \<and> (1 < k \<longrightarrow> 2 ^ (k - 1) < unat sz)"
proof -
  define z where "z = (if sz < 2 then 2 else sz)"
  have z: "2 \<le> unat z" "unat z < 2 ^ 32" "unat sz \<le> unat z" "3 \<le> unat z \<Longrightarrow> z = sz"
    using assms by (auto simp: z_def word_less_nat_alt)
  have eq: "mpmc_size sz = (if isPowerOf2 (ucast z) then Some z else nextPowerOf2 z)"
    by (simp add: mpmc_size_def z_def)
  have u: "unat (ucast z :: u32) = unat z" using z(2) by (simp add: unsigned_ucast_eq take_bit_nat_eq_self)
  have "\<exists>k. 1 \<le> k \<and> k \<le> 32 \<and> mpmc_size sz = Some (2 ^ k) \<and> unat z \<le> 2 ^ k \<and> (1 < k \<longrightarrow> 2 ^ (k - 1) < unat z)"
  proof (cases "isPowerOf2 (ucast z :: u32)")
    case True
    from isPowerOf2_exp [OF this] obtain k where k: "unat z = 2 ^ k" unfolding u by blast
    have "k < 32" using z(2) unfolding k by (rule power_less_imp_less_exp [rotated]) simp
    moreover have "1 \<le> k" using z(1) unfolding k by (cases k) auto
    moreover have "z = 2 ^ k" using k \<open>k < 32\<close> unat_exp [of k] by (intro word_unat_eq_iff [THEN iffD2]) simp
    ultimately show ?thesis using True k by (intro exI [of _ k]) (simp add: eq)
  next
    case False
    obtain m where m: "m \<le> 32" "next_power 65 z (2 ^ 0) = Some (2 ^ m)" "unat z \<le> 2 ^ m" "0 < m \<longrightarrow> 2 ^ (m - 1) < unat z"
      using next_power_exp [of z 32 0 65] z(2) by auto
    moreover have "1 \<le> m" using m(3) z(1) by (cases m) auto
    ultimately show ?thesis using False by (intro exI [of _ m]) (simp add: eq nextPowerOf2_def)
  qed
  then obtain k where k: "1 \<le> k" "k \<le> 32" "mpmc_size sz = Some (2 ^ k)" "unat z \<le> 2 ^ k" "1 < k \<longrightarrow> 2 ^ (k - 1) < unat z" by blast
  have "2 ^ (k - 1) < unat sz" if "1 < k"
  proof -
    have "(2 :: nat) ^ 1 \<le> 2 ^ (k - 1)" using that by (intro power_increasing) auto
    then show ?thesis using k(5) that z(4) by auto
  qed
  then show ?thesis using k z(3) by auto
qed

subsection \<open>The queue delivers every element once\<close>

lemma mpmc_init_shape:
  assumes "mpmc_init alloc sz = Some q" and "unat sz < 2 ^ 32"
  shows "mpmc_shape (length (buf q)) q" "pwrite q = 0" "pread q = 0" "i < length (buf q) \<Longrightarrow> buf q ! i = (of_nat i, None)"
    "unat sz \<le> length (buf q)"
proof -
  obtain k where k: "1 \<le> k" "k \<le> 32" "mpmc_size sz = Some (2 ^ k)" "unat sz \<le> 2 ^ k"
    using mpmc_size_ok [OF assms(2)] by blast
  then have q: "q = \<lparr>buf = map (\<lambda>i. (of_nat i, None)) [0..<2 ^ k], mask = 2 ^ k - 1, pwrite = 0, pread = 0\<rparr>"
    using assms(1) unat_exp [of k] by (auto simp: mpmc_init_def split: if_splits)
  have "(2 :: nat) ^ k < 2 ^ 63" using k(2) by (intro power_strict_increasing) auto
  then show "mpmc_shape (length (buf q)) q" using k(1) by (auto simp: q mpmc_shape_def)
  show "pwrite q = 0" "pread q = 0" "i < length (buf q) \<Longrightarrow> buf q ! i = (of_nat i, None)" "unat sz \<le> length (buf q)"
    using k(4) by (simp_all add: q)
qed

lemma v_start_inv:
  assumes "mpmc_init alloc sz = Some q" and "unat sz < 2 ^ 32"
  shows "mpmc_inv (length (buf q)) (\<lambda>i. i) (\<lambda>_. False) (v_start q)"
proof -
  note sh = mpmc_init_shape [OF assms]
  obtain k where k: "1 \<le> k" "length (buf q) = 2 ^ k" "length (buf q) < 2 ^ 63" using sh(1) by (auto simp: mpmc_shape_def)
  have "(2 :: nat) ^ 1 \<le> 2 ^ k" using k(1) by (intro power_increasing) auto
  then have two: "2 \<le> length (buf q)" using k(2) by simp
  have "unat (of_nat i :: u64) = i" if "i < length (buf q)" for i
    using that k(3) by (simp add: unat_of_nat)
  then have "cells_ok (length (buf q)) (\<lambda>i. i) (\<lambda>_. False) [] (buf q)" using sh(4) by (simp add: cells_ok_def)
  moreover have "tickets (length (buf q)) (\<lambda>i. i) (\<lambda>_. False) 0 0 (\<lambda>_. None) (\<lambda>_. None) (\<lambda>_. None) (\<lambda>_. None)"
    using two by (simp add: tickets_def ticket_cell_def holders_def triers_def)
  ultimately show "mpmc_inv (length (buf q)) (\<lambda>i. i) (\<lambda>_. False) (v_start q)"
    using sh(1-3) by (simp add: mpmc_inv_def v_start_def out_ok_def received_def)
qed

lemma v_reach:
  assumes "mpmc_init alloc sz = Some q" and "unat sz < 2 ^ 32" and "v_step\<^sup>*\<^sup>* (v_start q) s" and "length (v_in s) + length (buf q) < 2 ^ 63"
  shows "\<exists>T F. mpmc_inv (length (buf q)) T F s"
  by (rule v_steps_inv [OF assms(3) v_start_inv [OF assms(1,2)] assms(4)])

definition mpmc_idle :: "'a mpmcs \<Rightarrow> bool" where
  "mpmc_idle s \<longleftrightarrow> range (vpc s) \<subseteq> {VIdle}"

text \<open>
  C8. The bounded queue with many producers and consumers, \<open>MPMC_Ptr_Queue\<close>, for a requested
  size below \<open>2 ^ 32\<close> and fewer than \<open>2 ^ 63\<close> operations. However the accesses of the threads are
  interleaved: no position is delivered twice, at every position the element that was put there is
  delivered, a consumer receives what it takes in the order in which it was put in, at most one
  array of elements waits, and when no call is under way every position below \<open>pread\<close> has been
  delivered.
\<close>

theorem mpmc_queue_exactly_once:
  assumes "mpmc_init alloc sz = Some q" and "unat sz < 2 ^ 32" and "v_step\<^sup>*\<^sup>* (v_start q) s" and "length (v_in s) + length (buf q) < 2 ^ 63"
  shows "distinct (map (fst \<circ> snd) (v_out s)) \<and>
    (\<forall>(t, n, d) \<in> set (v_out s). n < length (v_in s) \<and> d = Some (v_in s ! n)) \<and>
    (\<forall>t. sorted_wrt (<) (received t (v_out s))) \<and>
    length (v_in s) \<le> unat (pread (vq s)) + length (buf q) \<and>
    (mpmc_idle s \<longrightarrow> set (map (fst \<circ> snd) (v_out s)) = {..<unat (pread (vq s))})"
proof -
  obtain T F where inv: "mpmc_inv (length (buf q)) T F s" using v_reach [OF assms] by blast
  note o = mpmc_invD(6) [OF inv] and tk = mpmc_invD(3) [OF inv]
  have "distinct (map (fst \<circ> snd) (v_out s))" using o by (simp add: out_ok_def)
  moreover have "n < length (v_in s) \<and> d = Some (v_in s ! n)" if "(t, n, d) \<in> set (v_out s)" for t n d
    using out_less [OF o that] ticketsD(2) [OF tk] by simp
  moreover have "\<forall>t. sorted_wrt (<) (received t (v_out s))" using o by (simp add: out_ok_def)
  moreover have "set (map (fst \<circ> snd) (v_out s)) = {..<unat (pread (vq s))}" if "mpmc_idle s"
  proof -
    have "get_of (vpc s t) = None" for t using that by (simp add: mpmc_idle_def image_subset_iff)
    then show ?thesis using o by (simp add: out_ok_def)
  qed
  ultimately show ?thesis
    using tickets_room [OF tk] by blast
qed

text \<open>
  C21. When \<open>push\<close> returns false, \<open>pwrite\<close> has not moved since it was read, and either the queue is
  full or the consumer of the element one lap behind has taken it and not yet released its cell.
  When \<open>pop\<close> returns false, \<open>pread\<close> has not moved, and either the queue is empty or the producer of
  the next element has taken its position and not yet published it.
\<close>

theorem mpmc_queue_refusal:
  assumes "mpmc_init alloc sz = Some q" and "unat sz < 2 ^ 32" and "v_step\<^sup>*\<^sup>* (v_start q) s" and "length (v_in s) + length (buf q) < 2 ^ 63"
    and "v_step s u" and "vpc u t = VIdle"
  shows "(\<forall>x p. vpc s t = VPw x p \<longrightarrow> pwrite (vq s) = p \<and> length (buf q) \<le> unat p \<and>
      (unat p = unat (pread (vq s)) + length (buf q) \<or> (\<exists>v r. vpc s v \<in> {VGet r, VRel r} \<and> unat p = unat r + length (buf q)))) \<and>
    (\<forall>p. vpc s t = VPr p \<longrightarrow> pread (vq s) = p \<and>
      (pwrite (vq s) = p \<or> (\<exists>v x. vpc s v \<in> {VPut x p, VPub p})))"
proof -
  obtain T F where inv: "mpmc_inv (length (buf q)) T F s" using v_reach [OF assms(1-4)] by blast
  let ?N = "length (buf q)"
  note d = mpmc_invD [OF inv]
  have rd: "\<exists>r. c \<in> {VGet r, VRel r} \<and> n = unat r" if "rd_of c = Some n" for c :: "'a v_pc" and n using that by (cases c) auto
  have wr: "\<exists>x. c \<in> {VPut x p, VPub p}" if "wr_of c = Some (unat p)" for c :: "'a v_pc" and p
    using that by (cases c) (auto simp: word_unat_eq_iff)
  have push: "pwrite (vq s) = p \<and> ?N \<le> unat p \<and> (unat p = unat (pread (vq s)) + ?N \<or> (\<exists>v r. vpc s v \<in> {VGet r, VRel r} \<and> unat p = unat r + ?N))"
    if pc: "vpc s t = VPw x p" for x p
  proof -
    have "seq_at (vq s) p < p" using assms(5,6) pc by (auto elim!: v_stepE simp: v_to_def split: if_splits)
    then have "T (unat p mod ?N) + (if F (unat p mod ?N) then 1 else 0) < unat p"
      unfolding word_less_nat_alt seq_value(1) [OF inv] .
    moreover have "unat p \<le> length (v_in s)" using d(5) [of t] pc by simp
    ultimately have "unat p = length (v_in s) \<and> T (unat p mod ?N) + ?N = length (v_in s) \<and> (length (v_in s) = unat (pread (vq s)) + ?N \<or> (\<exists>v. rd_of (vpc s v) = Some (T (unat p mod ?N))))"
      by (intro tickets_behind_w [OF d(3)])
    then show ?thesis using d(2) rd by (metis le_add2 word_unat_eq_iff)
  qed
  have pop: "pread (vq s) = p \<and> (pwrite (vq s) = p \<or> (\<exists>v x. vpc s v \<in> {VPut x p, VPub p}))" if pc: "vpc s t = VPr p" for p
  proof -
    have "sint (seq_at (vq s) p - (p + 1)) < 0" using assms(5,6) pc by (auto elim!: v_stepE simp: v_to_def split: if_splits)
    then have "T (unat p mod ?N) + (if F (unat p mod ?N) then 1 else 0) < Suc (unat p)"
      unfolding pop_diff [OF inv pc assms(4)] seq_value(1) [OF inv, symmetric] by linarith
    moreover have "unat p \<le> unat (pread (vq s))" using d(5) [of t] pc by simp
    ultimately have "unat p = unat (pread (vq s)) \<and> (length (v_in s) = unat (pread (vq s)) \<or> (\<exists>v. wr_of (vpc s v) = Some (unat (pread (vq s)))))"
      by (intro tickets_behind_r [OF d(3)])
    then show ?thesis using d(2) wr by (metis word_unat_eq_iff)
  qed
  show ?thesis using push pop by blast
qed

subsection \<open>Runs of one operation\<close>

lemma v_to_simps: "v_to t c (v_to t d s) = v_to t c s" "vq (v_to t c s) = vq s" "v_in (v_to t c s) = v_in s" "v_out (v_to t c s) = v_out s"
  "vpc (v_to t c s) t = c" "(v_to t c s)\<lparr>vq := q\<rparr> = v_to t c (s\<lparr>vq := q\<rparr>)" "(v_to t c s)\<lparr>v_in := xs\<rparr> = v_to t c (s\<lparr>v_in := xs\<rparr>)"
  "(v_to t c s)\<lparr>v_out := ys\<rparr> = v_to t c (s\<lparr>v_out := ys\<rparr>)"
  "s\<lparr>v_in := xs, vq := q\<rparr> = s\<lparr>vq := q, v_in := xs\<rparr>" "s\<lparr>v_out := ys, vq := q\<rparr> = s\<lparr>vq := q, v_out := ys\<rparr>"
  by (simp_all add: v_to_def)

lemma seq_at_start: "seq_at (q\<lparr>pwrite := n\<rparr>) p = seq_at q p" "seq_at (q\<lparr>pread := n\<rparr>) p = seq_at q p"
  by (simp_all add: seq_at_def cell_def)

text \<open>An undisturbed \<open>push\<close> into a cell that is ready, and an undisturbed \<open>pop\<close> of a published element.\<close>

lemma six_steps: "r a b \<Longrightarrow> r b c \<Longrightarrow> r c d \<Longrightarrow> r d e \<Longrightarrow> r e f \<Longrightarrow> r f g \<Longrightarrow> r\<^sup>*\<^sup>* a g"
  by (blast intro: converse_rtranclp_into_rtranclp)

lemma v_push_run:
  assumes "vpc s t = VIdle" and "pwrite (vq s) = p" and "seq_at (vq s) p = p"
  shows "v_step\<^sup>*\<^sup>* s (v_to t VIdle (s\<lparr>vq := set_seq p (p + 1) (set_node_data p x ((vq s)\<lparr>pwrite := p + 1\<rparr>)), v_in := v_in s @ [x]\<rparr>))"
proof (rule six_steps)
  let ?a = "v_to t (VPut x p) (s\<lparr>vq := (vq s)\<lparr>pwrite := p + 1\<rparr>, v_in := v_in s @ [x]\<rparr>)"
  let ?b = "v_to t (VPub p) (s\<lparr>vq := set_node_data p x ((vq s)\<lparr>pwrite := p + 1\<rparr>), v_in := v_in s @ [x]\<rparr>)"
  show "v_step s (v_to t (VPush x) s)" using assms(1) by (rule v_push)
  show "v_step (v_to t (VPush x) s) (v_to t (VPw x p) s)"
    using v_loadw [of "v_to t (VPush x) s" t x] assms(2) by (simp add: v_to_simps)
  show "v_step (v_to t (VPw x p) s) (v_to t (VCasW x p) s)"
    using v_seqw [of "v_to t (VPw x p) s" t x p] assms(3) by (simp add: v_to_simps)
  show "v_step (v_to t (VCasW x p) s) ?a" using v_casw [of "v_to t (VCasW x p) s" t x p] assms(2) by (simp add: v_to_simps)
  show "v_step ?a ?b" using v_put [of ?a t x p] by (simp add: v_to_simps)
  show "v_step ?b (v_to t VIdle (s\<lparr>vq := set_seq p (p + 1) (set_node_data p x ((vq s)\<lparr>pwrite := p + 1\<rparr>)), v_in := v_in s @ [x]\<rparr>))"
    using v_pub [of ?b t p] by (simp add: v_to_simps)
qed

lemma v_pop_run:
  assumes "vpc s t = VIdle" and "pread (vq s) = p" and "seq_at (vq s) p = p + 1"
  shows "v_step\<^sup>*\<^sup>* s (v_to t VIdle (s\<lparr>vq := set_seq p (p + mask (vq s) + 1) ((vq s)\<lparr>pread := p + 1\<rparr>), v_out := v_out s @ [(t, unat p, snd (buf (vq s) ! cell (vq s) p))]\<rparr>))"
proof (rule six_steps)
  let ?a = "v_to t (VGet p) (s\<lparr>vq := (vq s)\<lparr>pread := p + 1\<rparr>\<rparr>)"
  let ?b = "v_to t (VRel p) (s\<lparr>vq := (vq s)\<lparr>pread := p + 1\<rparr>, v_out := v_out s @ [(t, unat p, snd (buf (vq s) ! cell (vq s) p))]\<rparr>)"
  show "v_step s (v_to t VPop s)" using assms(1) by (rule v_pop)
  show "v_step (v_to t VPop s) (v_to t (VPr p) s)" using v_loadr [of "v_to t VPop s" t] assms(2) by (simp add: v_to_simps)
  show "v_step (v_to t (VPr p) s) (v_to t (VCasR p) s)"
    using v_seqr [of "v_to t (VPr p) s" t p] assms(3) by (simp add: v_to_simps)
  show "v_step (v_to t (VCasR p) s) ?a" using v_casr [of "v_to t (VCasR p) s" t p] assms(2) by (simp add: v_to_simps)
  show "v_step ?a ?b" using v_get [of ?a t p] by (simp add: v_to_simps cell_def)
  show "v_step ?b (v_to t VIdle (s\<lparr>vq := set_seq p (p + mask (vq s) + 1) ((vq s)\<lparr>pread := p + 1\<rparr>), v_out := v_out s @ [(t, unat p, snd (buf (vq s) ! cell (vq s) p))]\<rparr>))"
    using v_rel [of ?b t p] by (simp add: v_to_simps)
qed

definition mpmc_2 :: "nat mpmc" where
  "mpmc_2 = \<lparr>buf = [(0, None), (1, None)], mask = 1, pwrite = 0, pread = 0\<rparr>"

lemma mpmc_init_2: "mpmc_init True 1 = Some mpmc_2"
  by (simp add: mpmc_init_def mpmc_2_def mpmc_size_def isPowerOf2_def upt_rec)

text \<open>Thread 0 pushes 7, thread 1 pops it.\<close>

lemma mpmc_2_run:
  "\<exists>s. v_step\<^sup>*\<^sup>* (v_start mpmc_2) s \<and> v_in s = [7] \<and> v_out s = [(1, 0, Some 7)] \<and> mpmc_idle s \<and> pread (vq s) = 1"
proof -
  let ?q = "\<lparr>buf = [(1, Some 7), (1, None)], mask = 1, pwrite = 1, pread = 0\<rparr> :: nat mpmc"
  let ?u = "v_to 0 VIdle (\<lparr>vq = ?q, vpc = (\<lambda>_. VIdle), v_in = [7], v_out = []\<rparr>)"
  have push: "v_step\<^sup>*\<^sup>* (v_start mpmc_2) ?u"
    using v_push_run [of "v_start mpmc_2" 0 0 7]
    by (simp add: v_start_def mpmc_2_def seq_at_def cell_def set_seq_def set_node_data_def)
  have "v_step\<^sup>*\<^sup>* ?u (v_to 1 VIdle (?u\<lparr>vq := set_seq 0 2 (?q\<lparr>pread := 1\<rparr>), v_out := [(1, 0, Some 7)]\<rparr>))"
    using v_pop_run [of ?u 1 0] by (simp add: v_to_def seq_at_def cell_def)
  with push have "v_step\<^sup>*\<^sup>* (v_start mpmc_2) (v_to 1 VIdle (?u\<lparr>vq := set_seq 0 2 (?q\<lparr>pread := 1\<rparr>), v_out := [(1, 0, Some 7)]\<rparr>))"
    by (rule rtranclp_trans)
  then show ?thesis by (rule exI [where x = "v_to 1 VIdle (?u\<lparr>vq := set_seq 0 2 (?q\<lparr>pread := 1\<rparr>), v_out := [(1, 0, Some 7)]\<rparr>)", OF conjI])
     (auto simp: mpmc_idle_def v_to_def set_seq_def)
qed

theorem mpmc_queue_exactly_once_witness:
  "\<exists>s. v_step\<^sup>*\<^sup>* (v_start mpmc_2) s \<and> v_in s = [7] \<and> v_out s = [(1, 0, Some 7)] \<and> distinct (map (fst \<circ> snd) (v_out s)) \<and>
     set (map (fst \<circ> snd) (v_out s)) = {..<1}"
proof -
  obtain s where s: "v_step\<^sup>*\<^sup>* (v_start mpmc_2) s" "v_in s = [7]" "v_out s = [(1, 0, Some 7)]" "mpmc_idle s" "pread (vq s) = 1"
    using mpmc_2_run by blast
  have "distinct (map (fst \<circ> snd) (v_out s)) \<and> set (map (fst \<circ> snd) (v_out s)) = {..<1}"
    using mpmc_queue_exactly_once [OF mpmc_init_2 _ s(1)] s(2-) by (simp add: mpmc_2_def)
  with s show ?thesis by blast
qed

theorem mpmc_queue_refusal_witness:
  "\<exists>s u. v_step\<^sup>*\<^sup>* (v_start mpmc_2) s \<and> v_step s u \<and> vpc s 3 = VPr 0 \<and> vpc u 3 = VIdle \<and> pwrite (vq s) = 0 \<and> pread (vq s) = 0"
proof -
  let ?s = "v_to 3 (VPr 0) (v_start mpmc_2)"
  let ?u = "v_to 3 VIdle ?s"
  have "v_step (v_start mpmc_2) (v_to 3 VPop (v_start mpmc_2))" by (rule v_pop) (simp add: v_start_def)
  moreover have "v_step (v_to 3 VPop (v_start mpmc_2)) ?s"
    using v_loadr [of "v_to 3 VPop (v_start mpmc_2)" 3] by (simp add: v_to_simps v_start_def mpmc_2_def)
  ultimately have r: "v_step\<^sup>*\<^sup>* (v_start mpmc_2) ?s" by (rule converse_rtranclp_into_rtranclp [OF _ r_into_rtranclp])
  have st: "v_step ?s ?u"
    using v_seqr [of ?s 3 0] by (simp add: v_to_simps v_start_def mpmc_2_def seq_at_def cell_def)
  have sz: "unat (1 :: u64) < 2 ^ 32" and len: "length (v_in ?s) + length (buf mpmc_2) < 2 ^ 63" and fin: "vpc ?u 3 = VIdle"
    by (simp_all add: v_to_simps v_start_def mpmc_2_def)
  have "pread (vq ?s) = 0" using mpmc_queue_refusal [OF mpmc_init_2 sz r len st fin] v_to_simps(5) by blast
  moreover have "pwrite (vq ?s) = 0" by (simp add: v_to_simps v_start_def mpmc_2_def)
  ultimately have "pread (vq ?s) = 0 \<and> pwrite (vq ?s) = 0" by blast
  with r st show ?thesis by (intro exI [of _ ?s] exI [of _ ?u]) (simp add: v_to_simps)
qed

text \<open>\<open>isPowerOf2\<close> loses the upper half of the size: \<open>2 ^ 32 + 1\<close> is taken for a power of 2, and the mask then selects only the cells 0 and \<open>2 ^ 32\<close>.\<close>

lemma mpmc_size_truncated: "mpmc_size (2 ^ 32 + 1) = Some (2 ^ 32 + 1)"
  by (simp add: mpmc_size_def isPowerOf2_def)

end
