(* ===== verification/FFUMpmc.thy ===== *)
theory FFUMpmc
  imports FFMpmcRun
begin

text \<open>
  The unbounded queue for many producers and many consumers, \<open>uMPMC_Ptr_Queue\<close>
  (\<open>libs/fastflow/ff/mpmc/MPMCqueues.hpp\<close>): an array of unbounded buffers with one sequence number
  for the producers and one for the consumers each, \<open>push\<close> and \<open>pop\<close> as a step relation over the
  accesses to the shared memory, and the invariant that the accesses keep. The delay after a failed
  exchange is left out.
\<close>

subsection \<open>The queue\<close>

text \<open>
  The queue is an array of unbounded buffers (\<open>uSWSR_Ptr_Buffer\<close>), which are lists here: FFUBufferConc
  shows that such a buffer is a queue as long as at most one thread pushes and at most one pops at a
  time, and that is part of what is proved below. \<open>nqueues\<close> is rounded up as in \<open>MPMC_Ptr_Queue\<close>.
\<close>

record 'a umpmc =
  ubuf :: "'a list list"
  seqP :: "u64 list"
  seqC :: "u64 list"
  umask :: u64
  preadP :: u64
  preadC :: u64

definition umpmc_init :: "u64 \<Rightarrow> 'a umpmc option" where
  "umpmc_init nqueues = map_option (\<lambda>n. \<lparr>ubuf = replicate (unat n) [], seqP = map of_nat [0..<unat n], seqC = map of_nat [0..<unat n],
     umask = n - 1, preadP = 0, preadC = 0\<rparr>) (mpmc_size nqueues)"

definition uidx :: "'a umpmc \<Rightarrow> u64 \<Rightarrow> nat" where
  "uidx q p = unat (p AND umask q)"

subsection \<open>The threads\<close>

text \<open>
  The control states. \<open>UmPush\<close>: at the head of the loop of \<open>push\<close>; \<open>UmPw\<close>: \<open>preadP\<close> has been read;
  \<open>UmCasP\<close>: the sequence number was right; \<open>UmPut\<close>: the position is taken and the push on the buffer comes
  next; \<open>UmPubP\<close>: the sequence number is stored next. The same for \<open>pop\<close>, which tests the sequence
  number of the producers (\<open>UmChk\<close>) before it tries to take the position.
\<close>

datatype 'a um_pc = UmIdle | UmPush 'a | UmPw 'a u64 | UmCasP 'a u64 | UmPut 'a u64 | UmPubP u64
  | UmPop | UmPr u64 | UmChk u64 | UmCasC u64 | UmGet u64 | UmPubC u64

record 'a umpmcs =
  umq :: "'a umpmc"
  umpc :: "nat \<Rightarrow> 'a um_pc"
  um_in :: "'a list"
  um_out :: "(nat \<times> nat \<times> 'a option) list"

definition um_to :: "nat \<Rightarrow> 'a um_pc \<Rightarrow> 'a umpmcs \<Rightarrow> 'a umpmcs" where
  "um_to t c s = s\<lparr>umpc := (umpc s)(t := c)\<rparr>"

definition ubuf_push :: "u64 \<Rightarrow> 'a \<Rightarrow> 'a umpmc \<Rightarrow> 'a umpmc" where
  "ubuf_push p x q = q\<lparr>ubuf := (ubuf q)[uidx q p := ubuf q ! uidx q p @ [x]]\<rparr>"

definition ubuf_pop :: "u64 \<Rightarrow> 'a umpmc \<Rightarrow> 'a option \<times> 'a umpmc" where
  "ubuf_pop p q = (case ubuf q ! uidx q p of [] \<Rightarrow> (None, q) | x # xs \<Rightarrow> (Some x, q\<lparr>ubuf := (ubuf q)[uidx q p := xs]\<rparr>))"

inductive um_step :: "'a umpmcs \<Rightarrow> 'a umpmcs \<Rightarrow> bool" where
  um_push: "umpc s t = UmIdle \<Longrightarrow> um_step s (um_to t (UmPush x) s)"
| um_loadp: "umpc s t = UmPush x \<Longrightarrow> um_step s (um_to t (UmPw x (preadP (umq s))) s)"
| um_seqp: "umpc s t = UmPw x p \<Longrightarrow> um_step s (um_to t (if p = seqP (umq s) ! uidx (umq s) p then UmCasP x p else UmPush x) s)"
| um_casp: "umpc s t = UmCasP x p \<Longrightarrow> um_step s
    (if preadP (umq s) = p then um_to t (UmPut x p) (s\<lparr>umq := (umq s)\<lparr>preadP := p + 1\<rparr>, um_in := um_in s @ [x]\<rparr>) else um_to t (UmPush x) s)"
| um_put: "umpc s t = UmPut x p \<Longrightarrow> um_step s (um_to t (UmPubP p) (s\<lparr>umq := ubuf_push p x (umq s)\<rparr>))"
| um_pubp: "umpc s t = UmPubP p \<Longrightarrow> um_step s (um_to t UmIdle
    (s\<lparr>umq := (umq s)\<lparr>seqP := (seqP (umq s))[uidx (umq s) p := p + umask (umq s) + 1]\<rparr>\<rparr>))"
| um_pop: "umpc s t = UmIdle \<Longrightarrow> um_step s (um_to t UmPop s)"
| um_loadc: "umpc s t = UmPop \<Longrightarrow> um_step s (um_to t (UmPr (preadC (umq s))) s)"
| um_seqc: "umpc s t = UmPr p \<Longrightarrow> um_step s (um_to t (if p = seqC (umq s) ! uidx (umq s) p then UmChk p else UmPop) s)"
| um_chk: "umpc s t = UmChk p \<Longrightarrow> um_step s (um_to t (if seqP (umq s) ! uidx (umq s) p \<le> p then UmIdle else UmCasC p) s)"
| um_casc: "umpc s t = UmCasC p \<Longrightarrow> um_step s
    (if preadC (umq s) = p then um_to t (UmGet p) (s\<lparr>umq := (umq s)\<lparr>preadC := p + 1\<rparr>\<rparr>) else um_to t UmPop s)"
| um_get: "umpc s t = UmGet p \<Longrightarrow> um_step s (um_to t (UmPubC p)
    (s\<lparr>umq := snd (ubuf_pop p (umq s)), um_out := um_out s @ [(t, unat p, fst (ubuf_pop p (umq s)))]\<rparr>))"
| um_pubc: "umpc s t = UmPubC p \<Longrightarrow> um_step s (um_to t UmIdle
    (s\<lparr>umq := (umq s)\<lparr>seqC := (seqC (umq s))[uidx (umq s) p := p + umask (umq s) + 1]\<rparr>\<rparr>))"

definition um_start :: "'a umpmc \<Rightarrow> 'a umpmcs" where
  "um_start q = \<lparr>umq = q, umpc = (\<lambda>_. UmIdle), um_in = [], um_out = []\<rparr>"

subsection \<open>Taking turns\<close>

text \<open>
  Producers and consumers each take turns in the same way: \<open>T i\<close> is the next ticket of cell \<open>i\<close>, the
  tickets below \<open>w\<close> are taken, \<open>h\<close> gives the ticket a thread holds and \<open>c\<close> the one it tries to take.
\<close>

definition turns :: "nat \<Rightarrow> (nat \<Rightarrow> nat) \<Rightarrow> nat \<Rightarrow> (nat \<Rightarrow> nat option) \<Rightarrow> (nat \<Rightarrow> nat option) \<Rightarrow> bool" where
  "turns N T w h c \<longleftrightarrow> 2 \<le> N \<and> (\<forall>i<N. T i mod N = i \<and> w \<le> T i + N \<and> T i < w + N \<and> (T i < w \<longrightarrow> (\<exists>t. h t = Some (T i)))) \<and>
     holders N T (\<lambda>_. False) False w h \<and> triers N T (\<lambda>_. False) False w c"

lemma turnsD:
  assumes "turns N T w h c"
  shows "2 \<le> N" "i < N \<Longrightarrow> T i mod N = i" "i < N \<Longrightarrow> w \<le> T i + N" "i < N \<Longrightarrow> T i < w + N" "i < N \<Longrightarrow> T i < w \<Longrightarrow> \<exists>t. h t = Some (T i)"
    "holders N T (\<lambda>_. False) False w h" "triers N T (\<lambda>_. False) False w c"
    "h t = Some n \<Longrightarrow> n < w" "h t = Some n \<Longrightarrow> T (n mod N) = n" "h t = Some n \<Longrightarrow> h u = Some n \<Longrightarrow> t = u"
    "c t = Some n \<Longrightarrow> n \<le> w" "c t = Some w \<Longrightarrow> T (w mod N) = w" "n mod N < N"
  using assms by (auto simp: turns_def holders_def triers_def)

lemma turns_take:
  assumes "turns N T w h c" and "c t = Some w" and "h t = None"
  shows "turns N T (Suc w) (h(t \<mapsto> w)) (c(t := None))"
proof -
  note tn = turnsD [OF assms(1)]
  have here: "T (w mod N) = w" by (rule tn(12) [OF assms(2)])
  have "w \<noteq> T i + N" if "i < N" for i
  proof
    assume "w = T i + N"
    moreover from this have "w mod N = i" using tn(2) [OF that] by simp
    ultimately show False using here tn(1) by simp
  qed
  then have "Suc w \<le> T i + N" if "i < N" for i using tn(3) [OF that] that by (fastforce simp: Suc_le_eq less_le)
  moreover have "\<exists>u. (h(t \<mapsto> w)) u = Some (T i)" if "i < N" "T i < Suc w" for i
  proof (cases "T i = w")
    case False
    with that(2) have "T i < w" by simp
    with that(1) have "\<exists>u. h u = Some (T i)" by (rule tn(5))
    then obtain u where "h u = Some (T i)" by blast
    then show ?thesis using assms(3) by (intro exI [of _ u]) auto
  qed (auto intro: exI [of _ t])
  ultimately show ?thesis
    using tn(1,2,4) holders_new [OF tn(6) assms(3) here] triers_mono [OF tn(7)] unfolding turns_def by (auto simp: less_SucI)
qed

lemma turns_pass:
  assumes "turns N T w h c" and "h t = Some n"
  shows "turns N (T(n mod N := n + N)) w (h(t := None)) c"
proof -
  note tn = turnsD [OF assms(1)]
  have here: "n < w" "T (n mod N) = n" using tn(8,9) assms(2) by blast+
  have wn: "w \<le> n + N" using tn(3) [of "n mod N"] tn(13) here by simp
  have "\<exists>u. (h(t := None)) u = Some (T i)" if "i < N" "i \<noteq> n mod N" "T i < w" for i
  proof -
    have "T i \<noteq> n" using tn(2) [OF that(1)] that(2) by auto
    then show ?thesis by (rule ex_other [of h "T i" t n, OF tn(5) [OF that(1,3)] assms(2)])
  qed
  moreover have ff: "(\<lambda>_. False)(n mod N := False) = (\<lambda>_. False)" by auto
  moreover have "holders N (T(n mod N := n + N)) (\<lambda>_. False) False w (h(t := None))"
    using holders_cell [OF tn(6) assms(2), of "n + N" False] unfolding ff .
  moreover have "triers N (T(n mod N := n + N)) (\<lambda>_. False) False w c"
    using triers_cell [OF tn(7), of "n mod N" "n + N" False] here unfolding ff by simp
  ultimately show ?thesis unfolding turns_def using tn(1-4) here wn by auto
qed

lemma turns_try:
  assumes "turns N T w h c" and "case d of None \<Rightarrow> True | Some n \<Rightarrow> n \<le> w \<and> (n = w \<longrightarrow> T (n mod N) = n)"
  shows "turns N T w h (c(t := d))"
  using turnsD(1-7) [OF assms(1)] assms(2) unfolding turns_def by (auto intro!: triers_set split: option.splits)

text \<open>How many tickets of cell \<open>i\<close> have been served: \<open>d\<close> gives the ticket that a thread has served and not yet passed on.\<close>

definition served :: "nat \<Rightarrow> (nat \<Rightarrow> nat) \<Rightarrow> (nat \<Rightarrow> nat option) \<Rightarrow> nat \<Rightarrow> nat" where
  "served N T d i = T i div N + (if \<exists>t. d t = Some (T i) then 1 else 0)"

lemma served_put:
  assumes "turns N T w h c" and "h t = Some n" and "d t = None" and "\<forall>u m. d u = Some m \<longrightarrow> h u = Some m" and "i < N"
  shows "served N T (d(t \<mapsto> n)) i = (if i = n mod N then Suc (n div N) else served N T d i)" "served N T d (n mod N) = n div N"
proof -
  note tn = turnsD [OF assms(1)]
  have here: "T (n mod N) = n" by (rule tn(9) [OF assms(2)])
  have no: "d u \<noteq> Some n" for u using tn(10) [OF assms(2), of u] assms(3,4) by auto
  show "served N T d (n mod N) = n div N" using no by (simp add: served_def here)
  show "served N T (d(t \<mapsto> n)) i = (if i = n mod N then Suc (n div N) else served N T d i)"
  proof (cases "i = n mod N")
    case True
    then show ?thesis by (auto simp: served_def here)
  next
    case False
    then have "T i \<noteq> n" using tn(2) [OF assms(5)] by auto
    then have "(\<exists>u. (d(t \<mapsto> n)) u = Some (T i)) \<longleftrightarrow> (\<exists>u. d u = Some (T i))"
      using assms(3) by (metis fun_upd_apply option.inject option.distinct(1))
    then show ?thesis using False by (simp add: served_def)
  qed
qed

lemma served_pass:
  assumes "turns N T w h c" and "d t = Some n" and "\<forall>u m. d u = Some m \<longrightarrow> h u = Some m" and "i < N"
  shows "served N (T(n mod N := n + N)) (d(t := None)) i = served N T d i"
proof -
  note tn = turnsD [OF assms(1)]
  have h: "h t = Some n" using assms(2,3) by blast
  have here: "T (n mod N) = n" by (rule tn(9) [OF h])
  have "w \<le> n + N" using tn(3) [of "n mod N"] tn(13) here by simp
  then have no: "d u \<noteq> Some (n + N)" for u using tn(8) [of u "n + N"] assms(3) by auto
  show ?thesis
  proof (cases "i = n mod N")
    case True
    have "\<exists>u. d u = Some n" using assms(2) by blast
    moreover have "(n + N) div N = Suc (n div N)" using tn(1) by (simp add: div_add_self2)
    ultimately show ?thesis using True no by (simp add: served_def here)
  next
    case False
    then have "T i \<noteq> n" using tn(2) [OF assms(4)] by auto
    then have "(\<exists>u. (d(t := None)) u = Some (T i)) \<longleftrightarrow> (\<exists>u. d u = Some (T i))"
      using assms(2) by (metis fun_upd_apply option.inject option.distinct(1))
    then show ?thesis using False by (simp add: served_def)
  qed
qed

lemma served_less:
  assumes "turns N T w h c" and "\<forall>u m. d u = Some m \<longrightarrow> h u = Some m" and "i < N" and "j < served N T d i"
  shows "i + N * j < w"
proof -
  note tn = turnsD [OF assms(1)]
  have eq: "i + N * (T i div N) = T i" using tn(2) [OF assms(3)] by (metis add.commute div_mult_mod_eq mult.commute)
  show ?thesis
  proof (cases "\<exists>t. d t = Some (T i)")
    case True
    then have "T i < w" using assms(2) tn(8) by blast
    moreover have "N * j \<le> N * (T i div N)" using assms(4) True by (simp add: served_def)
    ultimately show ?thesis using eq by linarith
  next
    case False
    then have "N * Suc j \<le> N * (T i div N)" using assms(4) by (intro mult_le_mono) (simp_all add: served_def)
    then show ?thesis using eq tn(4) [OF assms(3)] by simp
  qed
qed

subsection \<open>The invariant\<close>

fun hp_of :: "'a um_pc \<Rightarrow> nat option" where
  "hp_of (UmPut x p) = Some (unat p)" | "hp_of (UmPubP p) = Some (unat p)" | "hp_of c = None"

fun hc_of :: "'a um_pc \<Rightarrow> nat option" where
  "hc_of (UmGet p) = Some (unat p)" | "hc_of (UmPubC p) = Some (unat p)" | "hc_of c = None"

fun tp_of :: "'a um_pc \<Rightarrow> nat option" where
  "tp_of (UmCasP x p) = Some (unat p)" | "tp_of c = None"

fun tc_of :: "'a um_pc \<Rightarrow> nat option" where
  "tc_of (UmChk p) = Some (unat p)" | "tc_of (UmCasC p) = Some (unat p)" | "tc_of c = None"

fun dp_of :: "'a um_pc \<Rightarrow> nat option" where
  "dp_of (UmPubP p) = Some (unat p)" | "dp_of c = None"

fun dc_of :: "'a um_pc \<Rightarrow> nat option" where
  "dc_of (UmPubC p) = Some (unat p)" | "dc_of c = None"

fun ug_of :: "'a um_pc \<Rightarrow> nat option" where
  "ug_of (UmGet p) = Some (unat p)" | "ug_of c = None"

definition umpmc_shape :: "nat \<Rightarrow> 'a umpmc \<Rightarrow> bool" where
  "umpmc_shape N q \<longleftrightarrow> length (ubuf q) = N \<and> length (seqP q) = N \<and> length (seqC q) = N \<and> (\<exists>k\<ge>1. N = 2 ^ k \<and> umask q = 2 ^ k - 1) \<and> N < 2 ^ 63"

text \<open>What a thread knows: \<open>P\<close> gives the next tickets of the producers, and \<open>r\<close> tickets are taken to read.\<close>

fun uthread_ok :: "nat \<Rightarrow> (nat \<Rightarrow> nat) \<Rightarrow> 'a list \<Rightarrow> nat \<Rightarrow> 'a um_pc \<Rightarrow> bool" where
  "uthread_ok N P xs r (UmPw x p) \<longleftrightarrow> unat p \<le> length xs"
| "uthread_ok N P xs r (UmPr p) \<longleftrightarrow> unat p \<le> r"
| "uthread_ok N P xs r (UmPut x p) \<longleftrightarrow> xs ! unat p = x"
| "uthread_ok N P xs r (UmCasC p) \<longleftrightarrow> unat p < P (unat p mod N)"
| "uthread_ok N P xs r (UmGet p) \<longleftrightarrow> unat p < P (unat p mod N)"
| "uthread_ok N P xs r (UmPubC p) \<longleftrightarrow> unat p < P (unat p mod N)"
| "uthread_ok N P xs r _ \<longleftrightarrow> True"

definition ubufs_ok :: "nat \<Rightarrow> (nat \<Rightarrow> nat) \<Rightarrow> (nat \<Rightarrow> nat) \<Rightarrow> 'a list \<Rightarrow> 'a list list \<Rightarrow> bool" where
  "ubufs_ok N lo hi xs bs \<longleftrightarrow> (\<forall>i<N. bs ! i = map (\<lambda>j. xs ! (i + N * j)) [lo i..<hi i])"

definition umpmc_inv :: "nat \<Rightarrow> (nat \<Rightarrow> nat) \<Rightarrow> (nat \<Rightarrow> nat) \<Rightarrow> 'a umpmcs \<Rightarrow> bool" where
  "umpmc_inv N P C s \<longleftrightarrow> umpmc_shape N (umq s) \<and> unat (preadP (umq s)) = length (um_in s) \<and>
     turns N P (length (um_in s)) (\<lambda>t. hp_of (umpc s t)) (\<lambda>t. tp_of (umpc s t)) \<and>
     turns N C (unat (preadC (umq s))) (\<lambda>t. hc_of (umpc s t)) (\<lambda>t. tc_of (umpc s t)) \<and>
     (\<forall>i<N. unat (seqP (umq s) ! i) = P i \<and> unat (seqC (umq s) ! i) = C i \<and> C i \<le> P i) \<and>
     ubufs_ok N (served N C (\<lambda>t. dc_of (umpc s t))) (served N P (\<lambda>t. dp_of (umpc s t))) (um_in s) (ubuf (umq s)) \<and>
     (\<forall>t. uthread_ok N P (um_in s) (unat (preadC (umq s))) (umpc s t)) \<and>
     out_ok (um_in s) (unat (preadC (umq s))) (\<lambda>t. ug_of (umpc s t)) (um_out s) \<and> unat (preadC (umq s)) \<le> length (um_in s)"

lemma umpmc_invD:
  assumes "umpmc_inv N P C s"
  shows "umpmc_shape N (umq s)" "unat (preadP (umq s)) = length (um_in s)"
    "turns N P (length (um_in s)) (\<lambda>t. hp_of (umpc s t)) (\<lambda>t. tp_of (umpc s t))"
    "turns N C (unat (preadC (umq s))) (\<lambda>t. hc_of (umpc s t)) (\<lambda>t. tc_of (umpc s t))"
    "i < N \<Longrightarrow> unat (seqP (umq s) ! i) = P i" "i < N \<Longrightarrow> unat (seqC (umq s) ! i) = C i"
    "ubufs_ok N (served N C (\<lambda>t. dc_of (umpc s t))) (served N P (\<lambda>t. dp_of (umpc s t))) (um_in s) (ubuf (umq s))"
    "uthread_ok N P (um_in s) (unat (preadC (umq s))) (umpc s t)"
    "out_ok (um_in s) (unat (preadC (umq s))) (\<lambda>t. ug_of (umpc s t)) (um_out s)" "unat (preadC (umq s)) \<le> length (um_in s)" "i < N \<Longrightarrow> C i \<le> P i"
  using assms by (simp_all add: umpmc_inv_def)

lemma ushape_idx: "umpmc_shape N q \<Longrightarrow> uidx q p = unat p mod N"
  using shape_cell [of N "\<lparr>buf = replicate N (0, None), mask = umask q, pwrite = 0, pread = 0\<rparr>" p]
  by (auto simp: umpmc_shape_def mpmc_shape_def uidx_def cell_def)

lemma ushape_lap: "umpmc_shape N q \<Longrightarrow> unat p + N < 2 ^ 63 \<Longrightarrow> unat (p + umask q + 1) = unat p + N"
  using shape_lap [of N "\<lparr>buf = replicate N (0, None), mask = umask q, pwrite = 0, pread = 0\<rparr>" p]
  by (auto simp: umpmc_shape_def mpmc_shape_def)

lemma ushape_upd: "umpmc_shape N q \<Longrightarrow> umpmc_shape N (q\<lparr>preadP := m\<rparr>)" "umpmc_shape N q \<Longrightarrow> umpmc_shape N (q\<lparr>preadC := m\<rparr>)"
  "umpmc_shape N q \<Longrightarrow> umpmc_shape N (q\<lparr>seqP := (seqP q)[i := n]\<rparr>)" "umpmc_shape N q \<Longrightarrow> umpmc_shape N (q\<lparr>seqC := (seqC q)[i := n]\<rparr>)"
  "umpmc_shape N q \<Longrightarrow> umpmc_shape N (q\<lparr>ubuf := (ubuf q)[i := ys]\<rparr>)"
  by (simp_all add: umpmc_shape_def)

lemma um_held: "dp_of c = Some n \<Longrightarrow> hp_of c = Some n" "dc_of c = Some n \<Longrightarrow> hc_of c = Some n" "ug_of c = Some n \<Longrightarrow> hc_of c = Some n"
  by (cases c; simp)+

lemma umpmc_invI:
  assumes "umpc u = (umpc s)(t := c)" and "umpmc_shape N (umq u)" and "unat (preadP (umq u)) = length (um_in u)"
    and "turns N P (length (um_in u)) ((\<lambda>v. hp_of (umpc s v))(t := hp_of c)) ((\<lambda>v. tp_of (umpc s v))(t := tp_of c))"
    and "turns N C (unat (preadC (umq u))) ((\<lambda>v. hc_of (umpc s v))(t := hc_of c)) ((\<lambda>v. tc_of (umpc s v))(t := tc_of c))"
    and "\<And>i. i < N \<Longrightarrow> unat (seqP (umq u) ! i) = P i \<and> unat (seqC (umq u) ! i) = C i \<and> C i \<le> P i"
    and "ubufs_ok N (served N C ((\<lambda>v. dc_of (umpc s v))(t := dc_of c))) (served N P ((\<lambda>v. dp_of (umpc s v))(t := dp_of c))) (um_in u) (ubuf (umq u))"
    and "\<And>v. v \<noteq> t \<Longrightarrow> uthread_ok N P (um_in u) (unat (preadC (umq u))) (umpc s v)"
    and "uthread_ok N P (um_in u) (unat (preadC (umq u))) c"
    and "out_ok (um_in u) (unat (preadC (umq u))) ((\<lambda>v. ug_of (umpc s v))(t := ug_of c)) (um_out u)"
    and "unat (preadC (umq u)) \<le> length (um_in u)"
  shows "umpmc_inv N P C u"
  unfolding umpmc_inv_def assms(1) of_upd using assms(2-) by auto

lemma lo_hi:
  assumes "umpmc_inv N P C s" and "i < N"
  shows "served N C (\<lambda>v. dc_of (umpc s v)) i \<le> P i div N"
proof (cases "\<exists>t. dc_of (umpc s t) = Some (C i)")
  case True
  note inv = umpmc_invD [OF assms(1)]
  from True obtain t where d: "dc_of (umpc s t) = Some (C i)" by blast
  then obtain p where t: "umpc s t = UmPubC p" "unat p = C i" by (cases "umpc s t") auto
  have "C i < P i" using inv(8) [of t] t turnsD(2) [OF inv(4) assms(2)] by simp
  moreover have "C i mod N = P i mod N" using turnsD(2) [OF inv(3) assms(2)] turnsD(2) [OF inv(4) assms(2)] by simp
  ultimately have "C i + N \<le> P i" by (intro mod_eq_less)
  then have "(C i + N) div N \<le> P i div N" by (rule div_le_mono)
  moreover have "(C i + N) div N = C i div N + 1" using turnsD(1) [OF inv(3)] by (simp add: div_add_self2)
  ultimately show ?thesis by (simp add: served_def)
next
  case False
  then show ?thesis using umpmc_invD(11) [OF assms] div_le_mono by (simp add: served_def)
qed

lemma umpmc_goto:
  assumes "umpmc_inv N P C s" and "hp_of c = hp_of (umpc s t)" and "hc_of c = hc_of (umpc s t)" and "dp_of c = dp_of (umpc s t)"
    and "dc_of c = dc_of (umpc s t)" and "ug_of c = ug_of (umpc s t)"
    and "case tp_of c of None \<Rightarrow> True | Some n \<Rightarrow> n \<le> length (um_in s) \<and> (n = length (um_in s) \<longrightarrow> P (n mod N) = n)"
    and "case tc_of c of None \<Rightarrow> True | Some n \<Rightarrow> n \<le> unat (preadC (umq s)) \<and> (n = unat (preadC (umq s)) \<longrightarrow> C (n mod N) = n)"
    and "uthread_ok N P (um_in s) (unat (preadC (umq s))) c"
  shows "umpmc_inv N P C (um_to t c s)"
proof -
  note inv = umpmc_invD [OF assms(1)]
  show ?thesis
    by (rule umpmc_invI [of _ s t c])
      (use inv turns_try [OF inv(3) assms(7), of t] turns_try [OF inv(4) assms(8), of t] assms(2-6,9) in \<open>simp_all add: um_to_def same_upd\<close>)
qed

lemma umpmc_take_p:
  assumes "umpmc_inv N P C s" and "umpc s t = UmCasP x p" and "preadP (umq s) = p" and "length (um_in s) + 1 < 2 ^ 63"
  shows "umpmc_inv N P C (um_to t (UmPut x p) (s\<lparr>umq := (umq s)\<lparr>preadP := p + 1\<rparr>, um_in := um_in s @ [x]\<rparr>))"
proof -
  note inv = umpmc_invD [OF assms(1)]
  let ?n = "length (um_in s)"
  have p: "unat p = ?n" using inv(2) assms(3) by simp
  then have inc: "unat (p + 1) = Suc ?n" using assms(4) by (simp add: unat_word_ariths)
  have old: "(um_in s @ [x]) ! m = um_in s ! m" if "m < ?n" for m using that by (simp add: nth_append)
  have bufs: "ubufs_ok N lo (served N P (\<lambda>v. dp_of (umpc s v))) (um_in s @ [x]) b"
    if "ubufs_ok N lo (served N P (\<lambda>v. dp_of (umpc s v))) (um_in s) b" for lo b
    using that served_less [OF inv(3), of "\<lambda>v. dp_of (umpc s v)"] um_held(1) old unfolding ubufs_ok_def by fastforce
  have others: "uthread_ok N P (um_in s @ [x]) r (umpc s v)" if "uthread_ok N P (um_in s) r (umpc s v)" for r v
    using that turnsD(8) [OF inv(3), of v] old by (cases "umpc s v") auto
  have "out_ok (um_in s @ [x]) (unat (preadC (umq s))) (\<lambda>v. ug_of (umpc s v)) (um_out s)"
    using inv(10) by (intro out_mono [OF inv(9)] old) simp
  then show ?thesis
    using inv(1,4-6,8,10,11) bufs [OF inv(7)] others inc p assms(2) turns_take [OF inv(3), of t] umpmc_invD(8) [OF assms(1), of t]
    by (intro umpmc_invI [of _ s t "UmPut x p"]) (simp_all add: um_to_def same_upd ushape_upd)
qed

lemma umpmc_take_c:
  assumes "umpmc_inv N P C s" and "umpc s t = UmCasC p" and "preadC (umq s) = p" and "length (um_in s) < 2 ^ 63"
  shows "umpmc_inv N P C (um_to t (UmGet p) (s\<lparr>umq := (umq s)\<lparr>preadC := p + 1\<rparr>\<rparr>))"
proof -
  note inv = umpmc_invD [OF assms(1)]
  note tp = turnsD [OF inv(3)]
  let ?r = "unat (preadC (umq s))"
  have "?r < P (?r mod N)" using inv(8) [of t] assms(2,3) by simp
  moreover have "P (?r mod N) mod N = ?r mod N" using tp(2,13) by blast
  ultimately have "?r + N \<le> P (?r mod N)" by (intro mod_eq_less) auto
  moreover have "P (?r mod N) < length (um_in s) + N" using tp(4,13) by blast
  ultimately have lt: "?r < length (um_in s)" by simp
  have inc: "unat (p + 1) = Suc ?r" using assms(3,4) lt by (simp add: unat_word_ariths)
  have others: "uthread_ok N P xs (Suc r) c" if "uthread_ok N P xs r c" for xs r and c :: "'a um_pc"
    using that by (cases c) auto
  have "out_ok (um_in s) (Suc ?r) ((\<lambda>v. ug_of (umpc s v))(t \<mapsto> ?r)) (um_out s)"
    using assms(2) by (intro out_take [OF inv(9)]) simp
  then show ?thesis
    using inv(1-3,5-8,11) others inc assms(2,3) lt turns_take [OF inv(4), of t] umpmc_invD(8) [OF assms(1), of t]
    by (intro umpmc_invI [of _ s t "UmGet p"]) (simp_all add: um_to_def same_upd ushape_upd)
qed

text \<open>The push on a buffer and the pop from it, and the stores that pass a cell on.\<close>

lemma umpmc_put:
  assumes "umpmc_inv N P C s" and "umpc s t = UmPut x p"
  shows "umpmc_inv N P C (um_to t (UmPubP p) (s\<lparr>umq := ubuf_push p x (umq s)\<rparr>))"
proof -
  note inv = umpmc_invD [OF assms(1)]
  let ?j = "unat p mod N" and ?d = "\<lambda>v. dp_of (umpc s v)"
  have h: "hp_of (umpc s t) = Some (unat p)" using assms(2) by simp
  have here: "P ?j = unat p" by (rule turnsD(9) [OF inv(3) h])
  have j: "?j < N" by (rule turnsD(13) [OF inv(3)])
  note sv = served_put [OF inv(3) h, of ?d]
  have none: "?d t = None" and sub: "\<forall>u m. ?d u = Some m \<longrightarrow> hp_of (umpc s u) = Some m" using assms(2) um_held(1) by (simp, blast)
  have b: "ubuf_push p x (umq s) = (umq s)\<lparr>ubuf := (ubuf (umq s))[?j := ubuf (umq s) ! ?j @ [x]]\<rparr>"
    by (simp add: ubuf_push_def ushape_idx [OF inv(1)])
  have x: "um_in s ! (?j + N * (unat p div N)) = x" using inv(8) [of t] assms(2) by simp
  have lo: "served N C (\<lambda>v. dc_of (umpc s v)) ?j \<le> unat p div N"
    using lo_hi [OF assms(1) j] by (simp add: here)
  have len: "?j < length (ubuf (umq s))" using inv(1) j by (simp add: umpmc_shape_def)
  have bufs: "ubufs_ok N (served N C (\<lambda>v. dc_of (umpc s v))) (served N P (?d(t \<mapsto> unat p))) (um_in s) ((ubuf (umq s))[?j := ubuf (umq s) ! ?j @ [x]])"
    unfolding ubufs_ok_def
  proof (intro allI impI)
    fix i
    assume i: "i < N"
    show "(ubuf (umq s))[?j := ubuf (umq s) ! ?j @ [x]] ! i = map (\<lambda>j. um_in s ! (i + N * j)) [served N C (\<lambda>v. dc_of (umpc s v)) i..<served N P (?d(t \<mapsto> unat p)) i]"
      using inv(7) i len lo x sv [OF none sub i] unfolding ubufs_ok_def by (cases "i = ?j") auto
  qed
  then show ?thesis
    using inv(1-6,8-11) assms(2) unfolding b
    by (intro umpmc_invI [of _ s t "UmPubP p"]) (simp_all add: um_to_def same_upd ushape_upd)
qed

lemma umpmc_pass_p:
  assumes "umpmc_inv N P C s" and "umpc s t = UmPubP p" and "length (um_in s) + N < 2 ^ 63"
  shows "umpmc_inv N (P(unat p mod N := unat p + N)) C
    (um_to t UmIdle (s\<lparr>umq := (umq s)\<lparr>seqP := (seqP (umq s))[uidx (umq s) p := p + umask (umq s) + 1]\<rparr>\<rparr>))"
proof -
  note inv = umpmc_invD [OF assms(1)]
  let ?j = "unat p mod N" and ?d = "\<lambda>v. dp_of (umpc s v)"
  have h: "hp_of (umpc s t) = Some (unat p)" and d: "?d t = Some (unat p)" using assms(2) by simp_all
  have here: "P ?j = unat p" "unat p < length (um_in s)" by (rule turnsD(9) [OF inv(3) h], rule turnsD(8) [OF inv(3) h])
  have j: "?j < N" "?j < length (seqP (umq s))" using turnsD(13) [OF inv(3)] inv(1) by (auto simp: umpmc_shape_def)
  have inc: "unat (p + umask (umq s) + 1) = unat p + N" using here(2) assms(3) by (intro ushape_lap [OF inv(1)]) simp
  have le: "C ?j \<le> unat p" using inv(11) [OF j(1)] here(1) by simp
  have sv: "served N (P(?j := unat p + N)) (?d(t := None)) i = served N P ?d i" if "i < N" for i
    using served_pass [where d = ?d, OF inv(3) d _ that] um_held(1) by blast
  have bufs: "ubufs_ok N lo (served N (P(?j := unat p + N)) (?d(t := None))) xs b" if "ubufs_ok N lo (served N P ?d) xs b" for lo xs b
    using that sv by (simp add: ubufs_ok_def)
  have others: "uthread_ok N (P(?j := unat p + N)) xs r c" if "uthread_ok N P xs r c" for xs r and c :: "'a um_pc"
    using that here(1) by (cases c) auto
  show ?thesis
    using inv(1,2,4-6,8-11) bufs [OF inv(7)] others here j inc le assms(2) turns_pass [OF inv(3) h] unfolding ushape_idx [OF inv(1)]
    by (intro umpmc_invI [of _ s t UmIdle]) (auto simp: um_to_def same_upd ushape_upd nth_list_update)
qed

lemma umpmc_get:
  assumes "umpmc_inv N P C s" and "umpc s t = UmGet p"
  shows "umpmc_inv N P C (um_to t (UmPubC p) (s\<lparr>umq := snd (ubuf_pop p (umq s)), um_out := um_out s @ [(t, unat p, fst (ubuf_pop p (umq s)))]\<rparr>))"
proof -
  note inv = umpmc_invD [OF assms(1)]
  let ?p = "unat p" and ?j = "unat p mod N" and ?d = "\<lambda>v. dc_of (umpc s v)" and ?g = "\<lambda>v. ug_of (umpc s v)"
  let ?b = "ubuf (umq s)" and ?hi = "served N P (\<lambda>v. dp_of (umpc s v))"
  have h: "hc_of (umpc s t) = Some ?p" using assms(2) by simp
  have here: "C ?j = ?p" by (rule turnsD(9) [OF inv(4) h])
  have j: "?j < N" by (rule turnsD(13) [OF inv(4)])
  have none: "?d t = None" and sub: "\<forall>u m. ?d u = Some m \<longrightarrow> hc_of (umpc s u) = Some m" using assms(2) um_held(2) by (simp, blast)
  note sv = served_put [where d = ?d and h = "\<lambda>v. hc_of (umpc s v)", OF inv(4) h none sub]
  have lt: "?p < P ?j" using inv(8) [of t] assms(2) by simp
  have "?p mod N = P ?j mod N" using turnsD(2) [OF inv(3) j] by simp
  then have "?p + N \<le> P ?j" using lt by (rule mod_eq_less)
  then have "(?p + N) div N \<le> P ?j div N" by (rule div_le_mono)
  moreover have "(?p + N) div N = Suc (?p div N)" using turnsD(1) [OF inv(3)] by (simp add: div_add_self2)
  ultimately have up: "?p div N < ?hi ?j" by (simp add: served_def)
  have row: "?b ! ?j = map (\<lambda>k. um_in s ! (?j + N * k)) [?p div N..<?hi ?j]"
    using inv(7) j sv(2) unfolding ubufs_ok_def by simp
  define rest where "rest = map (\<lambda>k. um_in s ! (?j + N * k)) [Suc (?p div N)..<?hi ?j]"
  have b: "?b ! ?j = um_in s ! ?p # rest" unfolding row rest_def using up by (simp add: upt_conv_Cons)
  have pop: "ubuf_pop p (umq s) = (Some (um_in s ! ?p), (umq s)\<lparr>ubuf := ?b[?j := rest]\<rparr>)"
    by (simp add: ubuf_pop_def ushape_idx [OF inv(1)] b)
  have len: "?j < length ?b" using inv(1) j by (simp add: umpmc_shape_def)
  have bufs: "ubufs_ok N (served N C (?d(t \<mapsto> ?p))) ?hi (um_in s) (?b[?j := rest])"
    unfolding ubufs_ok_def
  proof (intro allI impI)
    fix i
    assume i: "i < N"
    show "?b[?j := rest] ! i = map (\<lambda>k. um_in s ! (i + N * k)) [served N C (?d(t \<mapsto> ?p)) i..<?hi i]"
      using inv(7) i len sv(1) [OF i] unfolding ubufs_ok_def rest_def by (cases "i = ?j") auto
  qed
  have one: "v = t" if "?g v = Some ?p" for v using turnsD(10) [OF inv(4) h, of v] um_held(3) [OF that] by simp
  have "out_ok (um_in s) (unat (preadC (umq s))) (?g(t := None)) (um_out s @ [(t, ?p, Some (um_in s ! ?p))])"
    using one assms(2) by (intro out_put [OF inv(9)]) auto
  then show ?thesis
    using inv(1-6,8,10,11) bufs lt assms(2) unfolding pop
    by (intro umpmc_invI [of _ s t "UmPubC p"]) (simp_all add: um_to_def same_upd ushape_upd)
qed

lemma umpmc_pass_c:
  assumes "umpmc_inv N P C s" and "umpc s t = UmPubC p" and "length (um_in s) + N < 2 ^ 63"
  shows "umpmc_inv N P (C(unat p mod N := unat p + N))
    (um_to t UmIdle (s\<lparr>umq := (umq s)\<lparr>seqC := (seqC (umq s))[uidx (umq s) p := p + umask (umq s) + 1]\<rparr>\<rparr>))"
proof -
  note inv = umpmc_invD [OF assms(1)]
  let ?j = "unat p mod N" and ?d = "\<lambda>v. dc_of (umpc s v)"
  have h: "hc_of (umpc s t) = Some (unat p)" and d: "?d t = Some (unat p)" using assms(2) by simp_all
  have here: "C ?j = unat p" "unat p < length (um_in s)" using turnsD(9) [OF inv(4) h] turnsD(8) [OF inv(4) h] inv(10) by auto
  have j: "?j < N" "?j < length (seqC (umq s))" using turnsD(13) [OF inv(4)] inv(1) by (auto simp: umpmc_shape_def)
  have inc: "unat (p + umask (umq s) + 1) = unat p + N" using here(2) assms(3) by (intro ushape_lap [OF inv(1)]) simp
  have "unat p < P ?j" using inv(8) [of t] assms(2) by simp
  moreover have "unat p mod N = P ?j mod N" using turnsD(2) [OF inv(3) j(1)] by simp
  ultimately have le: "unat p + N \<le> P ?j" by (intro mod_eq_less)
  have sv: "served N (C(?j := unat p + N)) (?d(t := None)) i = served N C ?d i" if "i < N" for i
    using served_pass [where d = ?d, OF inv(4) d _ that] um_held(2) by blast
  have bufs: "ubufs_ok N (served N (C(?j := unat p + N)) (?d(t := None))) hi xs b" if "ubufs_ok N (served N C ?d) hi xs b" for hi xs b
    using that sv by (simp add: ubufs_ok_def)
  show ?thesis
    using inv(1-3,5,6,8-11) bufs [OF inv(7)] here j inc le assms(2) turns_pass [OF inv(4) h] unfolding ushape_idx [OF inv(1)]
    by (intro umpmc_invI [of _ s t UmIdle]) (auto simp: um_to_def same_upd ushape_upd nth_list_update)
qed

end
