(* ===== verification/FFUMpmcRun.thy ===== *)
theory FFUMpmcRun
  imports FFUMpmc
begin

text \<open>
  Runs of the queue of FFUMpmc: every step keeps the invariant, so every internal buffer has one
  producer and one consumer at a time, and every element is delivered once and in order.
\<close>

subsection \<open>Every step keeps the invariant\<close>

inductive_cases um_stepE: "um_step s u"

lemma useq_eq:
  assumes "umpmc_inv N P C s"
  shows "p = seqP (umq s) ! uidx (umq s) p \<longleftrightarrow> P (unat p mod N) = unat p" "p = seqC (umq s) ! uidx (umq s) p \<longleftrightarrow> C (unat p mod N) = unat p"
    "seqP (umq s) ! uidx (umq s) p \<le> p \<longleftrightarrow> P (unat p mod N) \<le> unat p"
proof -
  note inv = umpmc_invD [OF assms]
  have "unat p mod N < N" by (rule turnsD(13) [OF inv(3)])
  then show "p = seqP (umq s) ! uidx (umq s) p \<longleftrightarrow> P (unat p mod N) = unat p" "p = seqC (umq s) ! uidx (umq s) p \<longleftrightarrow> C (unat p mod N) = unat p"
    "seqP (umq s) ! uidx (umq s) p \<le> p \<longleftrightarrow> P (unat p mod N) \<le> unat p"
    using inv(5,6) unfolding ushape_idx [OF inv(1)] by (auto simp: word_unat_eq_iff word_le_nat_alt)
qed

lemma um_step_inv:
  assumes "um_step s u" and "umpmc_inv N P C s" and "length (um_in u) + N < 2 ^ 63"
  shows "\<exists>P C. umpmc_inv N P C u"
proof -
  note inv = umpmc_invD [OF assms(2)] and goto = umpmc_goto [OF assms(2)]
  from assms(1) show ?thesis
  proof cases
    case (um_push t x)
    have "umpmc_inv N P C u" unfolding um_push(1) by (rule goto) (use um_push(2) in auto)
    then show ?thesis by blast
  next
    case (um_loadp t x)
    have "umpmc_inv N P C u" unfolding um_loadp(1) by (rule goto) (use um_loadp(2) inv(2) in auto)
    then show ?thesis by blast
  next
    case (um_seqp t x p)
    have "umpmc_inv N P C u" unfolding um_seqp(1)
      by (rule goto) (use um_seqp(2) inv(8) [of t] useq_eq(1) [OF assms(2), of p] in auto)
    then show ?thesis by blast
  next
    case (um_casp t x p)
    show ?thesis
    proof (cases "preadP (umq s) = p")
      case True
      then have "length (um_in s) + 1 < 2 ^ 63" using assms(3) um_casp by (simp add: um_to_def)
      with um_casp True umpmc_take_p [OF assms(2) um_casp(2) True] show ?thesis by auto
    next
      case False
      have "umpmc_inv N P C u" unfolding um_casp(1) if_not_P [OF False] by (rule goto) (use um_casp(2) in auto)
      then show ?thesis by blast
    qed
  next
    case (um_put t x p)
    then show ?thesis using umpmc_put [OF assms(2)] by blast
  next
    case (um_pubp t p)
    then have "length (um_in s) + N < 2 ^ 63" using assms(3) by (simp add: um_to_def)
    with um_pubp show ?thesis using umpmc_pass_p [OF assms(2)] by blast
  next
    case (um_pop t)
    have "umpmc_inv N P C u" unfolding um_pop(1) by (rule goto) (use um_pop(2) in auto)
    then show ?thesis by blast
  next
    case (um_loadc t)
    have "umpmc_inv N P C u" unfolding um_loadc(1) by (rule goto) (use um_loadc(2) in auto)
    then show ?thesis by blast
  next
    case (um_seqc t p)
    have "umpmc_inv N P C u" unfolding um_seqc(1)
      by (rule goto) (use um_seqc(2) inv(8) [of t] useq_eq(2) [OF assms(2), of p] in auto)
    then show ?thesis by blast
  next
    case (um_chk t p)
    have "umpmc_inv N P C u" unfolding um_chk(1) useq_eq(3) [OF assms(2)]
      by (rule goto) (use um_chk(2) turnsD(11,12) [OF inv(4), of t] in auto)
    then show ?thesis by blast
  next
    case (um_casc t p)
    show ?thesis
    proof (cases "preadC (umq s) = p")
      case True
      then have "length (um_in s) < 2 ^ 63" using assms(3) um_casc by (simp add: um_to_def)
      with um_casc True umpmc_take_c [OF assms(2) um_casc(2) True] show ?thesis by auto
    next
      case False
      have "umpmc_inv N P C u" unfolding um_casc(1) if_not_P [OF False] by (rule goto) (use um_casc(2) in auto)
      then show ?thesis by blast
    qed
  next
    case (um_get t p)
    then show ?thesis using umpmc_get [OF assms(2)] by blast
  next
    case (um_pubc t p)
    then have "length (um_in s) + N < 2 ^ 63" using assms(3) by (simp add: um_to_def)
    with um_pubc show ?thesis using umpmc_pass_c [OF assms(2)] by blast
  qed
qed

lemma um_step_grows: "um_step s u \<Longrightarrow> length (um_in s) \<le> length (um_in u)"
  by (auto elim!: um_stepE simp: um_to_def)

lemma um_steps_inv:
  assumes "um_step\<^sup>*\<^sup>* s u" and "umpmc_inv N P C s" and "length (um_in u) + N < 2 ^ 63"
  shows "\<exists>P C. umpmc_inv N P C u"
  using assms(1,3)
proof (induction rule: rtranclp_induct)
  case base
  then show ?case using assms(2) by blast
next
  case (step u w)
  then show ?case using um_step_grows [OF step(2)] um_step_inv [OF step(2)] by fastforce
qed

lemma um_start_inv:
  assumes "umpmc_init n = Some q" and "unat n < 2 ^ 32"
  shows "umpmc_inv (length (ubuf q)) (\<lambda>i. i) (\<lambda>i. i) (um_start q)"
proof -
  obtain k where k: "1 \<le> k" "k \<le> 32" "mpmc_size n = Some (2 ^ k)" using mpmc_size_ok [OF assms(2)] by blast
  then have q: "q = \<lparr>ubuf = replicate (2 ^ k) [], seqP = map of_nat [0..<2 ^ k], seqC = map of_nat [0..<2 ^ k], umask = 2 ^ k - 1, preadP = 0, preadC = 0\<rparr>"
    using assms(1) unat_exp [of k] by (auto simp: umpmc_init_def)
  have big: "(2 :: nat) ^ k < 2 ^ 63" using k(2) by (intro power_strict_increasing) auto
  have "(2 :: nat) ^ 1 \<le> 2 ^ k" using k(1) by (intro power_increasing) auto
  then have two: "2 \<le> (2 :: nat) ^ k" by simp
  have "unat (of_nat i :: u64) = i" if "i < 2 ^ k" for i using that big by (simp add: unat_of_nat)
  moreover have "turns (2 ^ k) (\<lambda>i. i) 0 (\<lambda>_. None) (\<lambda>_. None)" using two by (simp add: turns_def holders_def triers_def)
  moreover have "umpmc_shape (2 ^ k) q" using k(1) big by (auto simp: q umpmc_shape_def)
  ultimately show ?thesis
    by (simp add: umpmc_inv_def um_start_def q ubufs_ok_def served_def out_ok_def received_def)
qed

definition umpmc_idle :: "'a umpmcs \<Rightarrow> bool" where
  "umpmc_idle s \<longleftrightarrow> range (umpc s) \<subseteq> {UmIdle}"

lemma um_refused:
  assumes "umpmc_inv N P C s" and "um_step s u" and "umpc s t = UmChk p" and "umpc u t = UmIdle"
  shows "preadC (umq s) = p \<and> (preadP (umq s) = p \<or> (\<exists>v x. umpc s v \<in> {UmPut x p, UmPubP p}))"
proof -
  note inv = umpmc_invD [OF assms(1)]
  let ?j = "unat p mod N" and ?r = "unat (preadC (umq s))"
  have j: "?j < N" by (rule turnsD(13) [OF inv(3)])
  have "seqP (umq s) ! uidx (umq s) p \<le> p" using assms(2-4) by (auto elim!: um_stepE simp: um_to_def split: if_splits)
  then have le: "P ?j \<le> unat p" using useq_eq(3) [OF assms(1)] by simp
  have pr: "unat p \<le> ?r" "unat p = ?r \<longrightarrow> C ?j = ?r" using turnsD(11,12) [OF inv(4), of t] assms(3) by auto
  have modC: "C ?j mod N = ?j" and modP: "P ?j mod N = ?j" using turnsD(2) [OF inv(4) j] turnsD(2) [OF inv(3) j] by auto
  have eq: "unat p = ?r"
  proof (rule ccontr)
    assume "unat p \<noteq> ?r"
    then have lt: "unat p < ?r" using pr(1) by simp
    have "\<not> C ?j < unat p" using mod_eq_less [of "C ?j" N "unat p"] modC turnsD(3) [OF inv(4) j] lt by auto
    with inv(11) [OF j] le have c: "C ?j = unat p" "P ?j = unat p" by auto
    then obtain v where "hc_of (umpc s v) = Some (unat p)" using turnsD(5) [OF inv(4) j] lt by auto
    then show False using inv(8) [of v] c by (cases "umpc s v") auto
  qed
  then have "P ?j = unat p" using pr(2) inv(11) [OF j] le by auto
  have "unat (preadP (umq s)) = unat p \<or> (\<exists>v x. umpc s v \<in> {UmPut x p, UmPubP p})"
  proof (cases "P ?j < length (um_in s)")
    case True
    from turnsD(5) [OF inv(3) j True] obtain v where "hp_of (umpc s v) = Some (unat p)" using \<open>P ?j = unat p\<close> by auto
    then have "\<exists>x. umpc s v \<in> {UmPut x p, UmPubP p}" by (cases "umpc s v") (auto simp: word_unat_eq_iff)
    then show ?thesis by blast
  next
    case False
    then show ?thesis using \<open>P ?j = unat p\<close> inv(2,10) eq by simp
  qed
  then show ?thesis using eq by (simp add: word_unat_eq_iff)
qed

text \<open>
  C9. The unbounded queue with many producers and consumers, \<open>uMPMC_Ptr_Queue\<close>. However the accesses
  of the threads are interleaved: every internal buffer is used by at most one producer and at most
  one consumer at a time, as it must be; no position is delivered twice, what is delivered is the
  element put at the position, a consumer receives in the order of the positions; when no call is
  under way every position below \<open>preadC\<close> has been delivered; and when \<open>pop\<close> returns false, \<open>preadC\<close>
  has not moved and the queue is empty or the producer of the next element has not finished.
\<close>

theorem umpmc_queue_fifo:
  assumes "umpmc_init n = Some q" and "unat n < 2 ^ 32" and "um_step\<^sup>*\<^sup>* (um_start q) s" and "length (um_in s) + length (ubuf q) < 2 ^ 63"
  shows "(\<forall>t v x y p r. umpc s t = UmPut x p \<longrightarrow> umpc s v = UmPut y r \<longrightarrow> uidx (umq s) p = uidx (umq s) r \<longrightarrow> t = v) \<and>
    (\<forall>t v p r. umpc s t = UmGet p \<longrightarrow> umpc s v = UmGet r \<longrightarrow> uidx (umq s) p = uidx (umq s) r \<longrightarrow> t = v) \<and>
    distinct (map (fst \<circ> snd) (um_out s)) \<and>
    (\<forall>(t, k, d) \<in> set (um_out s). k < length (um_in s) \<and> d = Some (um_in s ! k)) \<and>
    (\<forall>t. sorted_wrt (<) (received t (um_out s))) \<and>
    (umpmc_idle s \<longrightarrow> set (map (fst \<circ> snd) (um_out s)) = {..<unat (preadC (umq s))}) \<and>
    (\<forall>t p u. umpc s t = UmChk p \<longrightarrow> um_step s u \<longrightarrow> umpc u t = UmIdle \<longrightarrow>
      preadC (umq s) = p \<and> (preadP (umq s) = p \<or> (\<exists>v x. umpc s v \<in> {UmPut x p, UmPubP p})))"
proof -
  obtain P C where i: "umpmc_inv (length (ubuf q)) P C s" using um_steps_inv [OF assms(3) um_start_inv [OF assms(1,2)] assms(4)] by blast
  note inv = umpmc_invD [OF i]
  note o = inv(9)
  have "t = v" if "umpc s t = UmPut x p" "umpc s v = UmPut y r" "uidx (umq s) p = uidx (umq s) r" for t v x y p r
  proof -
    have h: "hp_of (umpc s t) = Some (unat p)" "hp_of (umpc s v) = Some (unat r)" using that by simp_all
    have "unat p = unat r"
      using turnsD(9) [OF inv(3) h(1)] turnsD(9) [OF inv(3) h(2)] that(3) unfolding ushape_idx [OF inv(1)] by metis
    then show ?thesis using turnsD(10) [OF inv(3) h(1), of v] h(2) by metis
  qed
  moreover have "t = v" if "umpc s t = UmGet p" "umpc s v = UmGet r" "uidx (umq s) p = uidx (umq s) r" for t v p r
  proof -
    have h: "hc_of (umpc s t) = Some (unat p)" "hc_of (umpc s v) = Some (unat r)" using that by simp_all
    have "unat p = unat r"
      using turnsD(9) [OF inv(4) h(1)] turnsD(9) [OF inv(4) h(2)] that(3) unfolding ushape_idx [OF inv(1)] by metis
    then show ?thesis using turnsD(10) [OF inv(4) h(1), of v] h(2) by metis
  qed
  moreover have "distinct (map (fst \<circ> snd) (um_out s))" "\<forall>t. sorted_wrt (<) (received t (um_out s))" using o by (simp_all add: out_ok_def)
  moreover have "k < length (um_in s) \<and> d = Some (um_in s ! k)" if "(t, k, d) \<in> set (um_out s)" for t k d
    using out_less [OF o that] inv(10) by simp
  moreover have "set (map (fst \<circ> snd) (um_out s)) = {..<unat (preadC (umq s))}" if "umpmc_idle s"
  proof -
    have "ug_of (umpc s t) = None" for t using that by (simp add: umpmc_idle_def image_subset_iff)
    then show ?thesis using o by (simp add: out_ok_def)
  qed
  moreover note um_refused [OF i]
  ultimately show ?thesis by blast
qed

subsection \<open>A concrete run\<close>

text \<open>The next step of thread \<open>t\<close>, as a function; an idle thread begins a push of \<open>x\<close> or a pop.\<close>

definition um_next :: "nat \<times> 'a option \<Rightarrow> 'a umpmcs \<Rightarrow> 'a umpmcs" where
  "um_next a s = (let t = fst a; q = umq s in case umpc s t of
     UmIdle \<Rightarrow> um_to t (case snd a of Some x \<Rightarrow> UmPush x | None \<Rightarrow> UmPop) s
   | UmPush x \<Rightarrow> um_to t (UmPw x (preadP q)) s
   | UmPw x p \<Rightarrow> um_to t (if p = seqP q ! uidx q p then UmCasP x p else UmPush x) s
   | UmCasP x p \<Rightarrow> (if preadP q = p then um_to t (UmPut x p) (s\<lparr>umq := q\<lparr>preadP := p + 1\<rparr>, um_in := um_in s @ [x]\<rparr>) else um_to t (UmPush x) s)
   | UmPut x p \<Rightarrow> um_to t (UmPubP p) (s\<lparr>umq := ubuf_push p x q\<rparr>)
   | UmPubP p \<Rightarrow> um_to t UmIdle (s\<lparr>umq := q\<lparr>seqP := (seqP q)[uidx q p := p + umask q + 1]\<rparr>\<rparr>)
   | UmPop \<Rightarrow> um_to t (UmPr (preadC q)) s
   | UmPr p \<Rightarrow> um_to t (if p = seqC q ! uidx q p then UmChk p else UmPop) s
   | UmChk p \<Rightarrow> um_to t (if seqP q ! uidx q p \<le> p then UmIdle else UmCasC p) s
   | UmCasC p \<Rightarrow> (if preadC q = p then um_to t (UmGet p) (s\<lparr>umq := q\<lparr>preadC := p + 1\<rparr>\<rparr>) else um_to t UmPop s)
   | UmGet p \<Rightarrow> um_to t (UmPubC p) (s\<lparr>umq := snd (ubuf_pop p q), um_out := um_out s @ [(t, unat p, fst (ubuf_pop p q))]\<rparr>)
   | UmPubC p \<Rightarrow> um_to t UmIdle (s\<lparr>umq := q\<lparr>seqC := (seqC q)[uidx q p := p + umask q + 1]\<rparr>\<rparr>))"

lemma um_next_step: "um_step s (um_next a s)"
proof (cases "umpc s (fst a)")
  case UmIdle
  then show ?thesis using um_push [OF UmIdle] um_pop [OF UmIdle] by (simp add: um_next_def split: option.split)
qed (simp_all only: um_next_def Let_def um_pc.case, (rule um_step.intros, assumption)+)

lemma um_run: "um_step\<^sup>*\<^sup>* s (fold um_next ts s)"
proof (induction ts arbitrary: s)
  case (Cons a ts)
  have "um_step\<^sup>*\<^sup>* s (um_next a s)" using um_next_step by (rule r_into_rtranclp)
  also have "um_step\<^sup>*\<^sup>* (um_next a s) (fold um_next ts (um_next a s))" by (rule Cons)
  finally show ?case by simp
qed simp

definition umpmc_2 :: "nat umpmc" where
  "umpmc_2 = \<lparr>ubuf = [[], []], seqP = [0, 1], seqC = [0, 1], umask = 1, preadP = 0, preadC = 0\<rparr>"

lemma umpmc_init_2: "umpmc_init 0 = Some umpmc_2"
  by (simp add: umpmc_init_def umpmc_2_def mpmc_size_def isPowerOf2_def upt_rec) (simp add: numeral_2_eq_2)

lemmas um_eval = um_next_def um_to_def um_start_def umpmc_2_def uidx_def ubuf_push_def ubuf_pop_def Let_def

text \<open>Thread 0 pushes 7, thread 1 pops it.\<close>

definition umpmc_2_end :: "nat umpmcs" where
  "umpmc_2_end = \<lparr>umq = \<lparr>ubuf = [[], []], seqP = [2, 1], seqC = [2, 1], umask = 1, preadP = 1, preadC = 1\<rparr>,
     umpc = (\<lambda>_. UmIdle), um_in = [7], um_out = [(1, 0, Some 7)]\<rparr>"

lemma umpmc_2_run:
  "fold um_next [(0, Some 7), (0, None), (0, None), (0, None), (0, None), (0, None), (1, None), (1, None), (1, None), (1, None), (1, None), (1, None), (1, None)]
     (um_start umpmc_2) = umpmc_2_end"
  by (simp add: um_eval umpmc_2_end_def fun_eq_iff)

theorem umpmc_queue_fifo_witness:
  "um_step\<^sup>*\<^sup>* (um_start umpmc_2) umpmc_2_end \<and> distinct (map (fst \<circ> snd) (um_out umpmc_2_end)) \<and>
   set (map (fst \<circ> snd) (um_out umpmc_2_end)) = {..<unat (preadC (umq umpmc_2_end))} \<and> um_out umpmc_2_end = [(1, 0, Some 7)]"
proof -
  have r: "um_step\<^sup>*\<^sup>* (um_start umpmc_2) umpmc_2_end"
    using um_run [of "um_start umpmc_2"] unfolding umpmc_2_run [symmetric] by blast
  have sz: "unat (0 :: u64) < 2 ^ 32" and len: "length (um_in umpmc_2_end) + length (ubuf umpmc_2) < 2 ^ 63" and idle: "umpmc_idle umpmc_2_end"
    by (simp_all add: umpmc_2_end_def umpmc_2_def umpmc_idle_def)
  have "distinct (map (fst \<circ> snd) (um_out umpmc_2_end)) \<and> set (map (fst \<circ> snd) (um_out umpmc_2_end)) = {..<unat (preadC (umq umpmc_2_end))}"
    using umpmc_queue_fifo [OF umpmc_init_2 sz r len] idle by blast
  then show ?thesis using r by (simp add: umpmc_2_end_def)
qed

end
