(* ===== verification/Fifo.thy ===== *)
theory Fifo
  imports Prelude
begin

text \<open>
  The interface of a bounded first-in first-out channel. Two data structures of the program
  provide it: the ring buffer of the dedup kernel (\<open>queue.h\<close>) and the single-producer
  single-consumer buffer of FastFlow (\<open>buffer.hpp\<close>). The clients are the synchronized
  queue of the dedup kernel and the buffer pool of the unbounded FastFlow queue.
\<close>

locale bounded_fifo =
  fixes push :: "'q \<Rightarrow> 'a \<Rightarrow> bool \<times> 'q"
    and pop :: "'q \<Rightarrow> 'a option \<times> 'q"
    and items :: "'q \<Rightarrow> 'a list"
    and capacity :: "'q \<Rightarrow> nat"
    and invar :: "'q \<Rightarrow> bool"
  assumes push_room: "invar q \<Longrightarrow> length (items q) < capacity q \<Longrightarrow>
      fst (push q x) \<and> items (snd (push q x)) = items q @ [x]"
    and push_full: "invar q \<Longrightarrow> length (items q) = capacity q \<Longrightarrow> push q x = (False, q)"
    and items_bound: "invar q \<Longrightarrow> length (items q) \<le> capacity q"
    and pop_empty: "invar q \<Longrightarrow> items q = [] \<Longrightarrow> pop q = (None, q)"
    and pop_cons: "invar q \<Longrightarrow> items q = x # xs \<Longrightarrow>
      fst (pop q) = Some x \<and> items (snd (pop q)) = xs"
    and push_inv: "invar q \<Longrightarrow> invar (snd (push q x)) \<and> capacity (snd (push q x)) = capacity q"
    and pop_inv: "invar q \<Longrightarrow> invar (snd (pop q)) \<and> capacity (snd (pop q)) = capacity q"
begin

lemma push_iff: "invar q \<Longrightarrow> fst (push q x) \<longleftrightarrow> length (items q) < capacity q"
  using push_room [of q x] push_full [of q x] items_bound [of q] by (cases "length (items q) = capacity q") auto

lemma pop_iff: "invar q \<Longrightarrow> fst (pop q) = None \<longleftrightarrow> items q = []"
  using pop_empty [of q] pop_cons [of q] by (cases "items q") auto

text \<open>Pushing a whole list, element by element, stopping at the first failure.\<close>

fun push_all :: "'q \<Rightarrow> 'a list \<Rightarrow> 'a list \<times> 'q" where
  "push_all q [] = ([], q)"
| "push_all q (x # xs) =
     (case push q x of (True, q') \<Rightarrow> push_all q' xs | (False, q') \<Rightarrow> (x # xs, q'))"

lemma push_all_correct:
  "invar q \<Longrightarrow> push_all q xs = (rest, q') \<Longrightarrow>
    invar q' \<and> capacity q' = capacity q \<and> items q' @ rest = items q @ xs \<and>
    (rest = [] \<or> length (items q') = capacity q)"
proof (induction q xs rule: push_all.induct)
  case (1 q)
  then show ?case by simp
next
  case (2 q x xs)
  show ?case
  proof (cases "length (items q) < capacity q")
    case True
    obtain q1 where q1: "push q x = (True, q1)"
      using push_room [OF "2.prems"(1) True, of x] by (cases "push q x") auto
    have "items q1 = items q @ [x]" and inv1: "invar q1 \<and> capacity q1 = capacity q"
      using push_room [OF "2.prems"(1) True, of x] push_inv [OF "2.prems"(1), of x] q1 by auto
    moreover have "push_all q1 xs = (rest, q')"
      using "2.prems"(2) q1 by simp
    ultimately show ?thesis
      using "2.IH" q1 by fastforce
  next
    case False
    then have "length (items q) = capacity q"
      using items_bound [OF "2.prems"(1)] by simp
    then show ?thesis
      using push_full [OF "2.prems"(1), of x] "2.prems" by simp
  qed
qed

text \<open>Popping until the channel is empty; \<open>n\<close> bounds the number of rounds.\<close>

fun drain :: "nat \<Rightarrow> 'q \<Rightarrow> 'a list \<times> 'q" where
  "drain 0 q = ([], q)"
| "drain (Suc n) q =
     (case pop q of (None, q') \<Rightarrow> ([], q')
      | (Some x, q') \<Rightarrow> (let (xs, q'') = drain n q' in (x # xs, q'')))"

lemma drain_items:
  "invar q \<Longrightarrow> length (items q) \<le> n \<Longrightarrow>
    fst (drain n q) = items q \<and> items (snd (drain n q)) = [] \<and> invar (snd (drain n q))"
proof (induction n arbitrary: q)
  case 0
  then show ?case by simp
next
  case (Suc n)
  show ?case
  proof (cases "items q")
    case Nil
    then show ?thesis using pop_empty [OF Suc.prems(1)] Suc.prems by simp
  next
    case (Cons x xs)
    obtain q1 where q1: "pop q = (Some x, q1)"
      using pop_cons [OF Suc.prems(1) Cons] by (cases "pop q") auto
    then have "items q1 = xs" and "invar q1"
      using pop_cons [OF Suc.prems(1) Cons] pop_inv [OF Suc.prems(1)] by auto
    then show ?thesis
      using Suc.IH [of q1] Suc.prems Cons q1 by (auto simp: split_beta)
  qed
qed

text \<open>Moving up to \<open>n\<close> elements from one channel to another of the same kind.\<close>

fun transfer :: "nat \<Rightarrow> 'q \<Rightarrow> 'q \<Rightarrow> nat \<times> 'q \<times> 'q" where
  "transfer 0 a b = (0, a, b)"
| "transfer (Suc n) a b =
     (if length (items b) = capacity b then (0, a, b)
      else (case pop a of (None, a') \<Rightarrow> (0, a', b)
        | (Some x, a') \<Rightarrow> (case transfer n a' (snd (push b x)) of (k, a2, b2) \<Rightarrow> (Suc k, a2, b2))))"

lemma transfer_correct:
  "invar a \<Longrightarrow> invar b \<Longrightarrow> transfer n a b = (k, a', b') \<Longrightarrow>
    invar a' \<and> invar b' \<and> capacity a' = capacity a \<and> capacity b' = capacity b \<and>
    items b' = items b @ take k (items a) \<and> items a' = drop k (items a) \<and>
    k = min n (min (length (items a)) (capacity b - length (items b)))"
proof (induction n arbitrary: a b k a' b')
  case 0
  then show ?case by simp
next
  case (Suc n)
  show ?case
  proof (cases "length (items b) = capacity b")
    case True
    then show ?thesis using Suc.prems by simp
  next
    case False
    then have room: "length (items b) < capacity b"
      using items_bound [OF Suc.prems(2)] by simp
    show ?thesis
    proof (cases "items a")
      case Nil
      then show ?thesis
        using False pop_empty [OF Suc.prems(1)] Suc.prems by simp
    next
      case (Cons x xs)
      obtain a1 where a1: "pop a = (Some x, a1)"
        using pop_cons [OF Suc.prems(1) Cons] by (cases "pop a") auto
      have a1': "items a1 = xs" "invar a1" "capacity a1 = capacity a"
        using pop_cons [OF Suc.prems(1) Cons] pop_inv [OF Suc.prems(1)] a1 by auto
      let ?b1 = "snd (push b x)"
      have b1: "items ?b1 = items b @ [x]" "invar ?b1" "capacity ?b1 = capacity b"
        using push_room [OF Suc.prems(2) room, of x] push_inv [OF Suc.prems(2), of x] by auto
      obtain k1 where k1: "transfer n a1 ?b1 = (k1, a', b')" and "k = Suc k1"
        using Suc.prems(3) False a1 by (auto split: prod.splits)
      have m: "k1 = min n (min (length xs) (capacity b - Suc (length (items b))))"
        using Suc.IH [OF a1'(2) b1(2) k1] a1' b1 by simp
      have "k = min (Suc n) (min (Suc (length xs)) (capacity b - length (items b)))"
        using m room \<open>k = Suc k1\<close> by linarith
      then have kk: "k = min (Suc n) (min (length (items a)) (capacity b - length (items b)))"
        using Cons by simp
      have "take k (items a) = x # take k1 xs" and "drop k (items a) = drop k1 xs"
        using Cons \<open>k = Suc k1\<close> by simp_all
      then show ?thesis
        using Suc.IH [OF a1'(2) b1(2) k1] a1' b1 kk by (simp del: min_Suc1 min_Suc2)
    qed
  qed
qed

end

end
