(* ===== verification/RingBuffer.thy ===== *)
theory RingBuffer
  imports Fifo
begin

text \<open>
  The ring buffer of the dedup kernel (\<open>kernels/dedup/src/queue.h\<close>): a circular array with
  one slot kept free to tell full from empty. The stages of the encoder exchange their work
  in these buffers. The array elements are non-null pointers (\<open>Some\<close>); a slot that was
  never written holds whatever \<open>malloc\<close> returned, written \<open>None\<close>.
\<close>

record 'a ringbuffer =
  rb_head :: int
  rb_tail :: int
  rb_data :: "'a option list"
  rb_size :: nat
  rb_last :: bool
  rb_bypassCompress :: bool

definition ringbuffer_init :: "nat \<Rightarrow> 'a ringbuffer" where
  "ringbuffer_init n =
     \<lparr>rb_head = 0, rb_tail = 0, rb_data = replicate (n + 1) None, rb_size = n + 1,
      rb_last = False, rb_bypassCompress = False\<rparr>"

definition ringbuffer_isEmpty :: "'a ringbuffer \<Rightarrow> bool" where
  "ringbuffer_isEmpty buf \<longleftrightarrow> rb_tail buf = rb_head buf"

definition ringbuffer_isFull :: "'a ringbuffer \<Rightarrow> bool" where
  "ringbuffer_isFull buf \<longleftrightarrow>
     to_size_t (rb_head buf) =
       ((to_size_t (rb_tail buf - 1) + rb_size buf) mod 2 ^ 64) mod rb_size buf"

definition ringbuffer_remove :: "'a ringbuffer \<Rightarrow> 'a option \<times> 'a ringbuffer" where
  "ringbuffer_remove buf =
     (if ringbuffer_isEmpty buf then (None, buf)
      else let ptr = rb_data buf ! nat (rb_tail buf);
               t = rb_tail buf + 1;
               t = (if rb_size buf \<le> to_size_t t then 0 else t)
           in (ptr, buf\<lparr>rb_tail := t\<rparr>))"

definition ringbuffer_insert :: "'a ringbuffer \<Rightarrow> 'a \<Rightarrow> int \<times> 'a ringbuffer" where
  "ringbuffer_insert buf ptr =
     (if ringbuffer_isFull buf then (- 1, buf)
      else let d = (rb_data buf)[nat (rb_head buf) := Some ptr];
               h = rb_head buf + 1;
               h = (if to_size_t h = rb_size buf then 0 else h)
           in (0, buf\<lparr>rb_data := d, rb_head := h\<rparr>))"

definition ringbuffer_setLast :: "'a ringbuffer \<Rightarrow> 'a ringbuffer" where
  "ringbuffer_setLast buf = buf\<lparr>rb_last := True\<rparr>"

definition ringbuffer_resetLast :: "'a ringbuffer \<Rightarrow> 'a ringbuffer" where
  "ringbuffer_resetLast buf = buf\<lparr>rb_last := False\<rparr>"

definition ringbuffer_isLast :: "'a ringbuffer \<Rightarrow> bool" where
  "ringbuffer_isLast buf \<longleftrightarrow> rb_last buf"

definition ringbuffer_setBypassCompress :: "'a ringbuffer \<Rightarrow> 'a ringbuffer" where
  "ringbuffer_setBypassCompress buf = buf\<lparr>rb_bypassCompress := True\<rparr>"

definition ringbuffer_isBypassCompress :: "'a ringbuffer \<Rightarrow> bool" where
  "ringbuffer_isBypassCompress buf \<longleftrightarrow> rb_bypassCompress buf"

subsection \<open>Abstraction to a list, and the invariant\<close>

definition rb_count :: "'a ringbuffer \<Rightarrow> nat" where
  "rb_count buf = nat ((rb_head buf - rb_tail buf) mod int (rb_size buf))"

definition rb_items :: "'a ringbuffer \<Rightarrow> 'a list" where
  "rb_items buf = map the (ring_seg (rb_data buf) (nat (rb_tail buf)) (rb_count buf))"

definition rb_capacity :: "'a ringbuffer \<Rightarrow> nat" where
  "rb_capacity buf = rb_size buf - 1"

definition rb_inv :: "'a ringbuffer \<Rightarrow> bool" where
  "rb_inv buf \<longleftrightarrow>
     0 < rb_size buf \<and> rb_size buf < 2 ^ 31 \<and> length (rb_data buf) = rb_size buf \<and>
     0 \<le> rb_head buf \<and> rb_head buf < int (rb_size buf) \<and>
     0 \<le> rb_tail buf \<and> rb_tail buf < int (rb_size buf) \<and>
     None \<notin> set (ring_seg (rb_data buf) (nat (rb_tail buf)) (rb_count buf))"

lemma rb_inv_init: "n + 1 < 2 ^ 31 \<Longrightarrow> rb_inv (ringbuffer_init n)"
  by (simp add: rb_inv_def ringbuffer_init_def rb_count_def ring_simps)

lemma rb_items_init [fifo_simps]: "rb_items (ringbuffer_init n) = []"
  by (simp add: rb_items_def ringbuffer_init_def rb_count_def ring_simps)

lemma rb_capacity_init [fifo_simps]: "rb_capacity (ringbuffer_init n) = n"
  by (simp add: rb_capacity_def ringbuffer_init_def)

lemma rb_count_less: "rb_inv buf \<Longrightarrow> rb_count buf < rb_size buf"
  by (simp add: rb_count_def rb_inv_def nat_less_iff)

lemma length_rb_items: "length (rb_items buf) = rb_count buf"
  by (simp add: rb_items_def ring_simps)

lemma rb_head_eq:
  assumes "rb_inv buf"
  shows "rb_head buf = int ((nat (rb_tail buf) + rb_count buf) mod rb_size buf)"
proof -
  have "int ((nat (rb_tail buf) + rb_count buf) mod rb_size buf) =
      (rb_tail buf + (rb_head buf - rb_tail buf) mod int (rb_size buf)) mod int (rb_size buf)"
    using assms by (simp add: rb_count_def rb_inv_def zmod_int)
  also have "\<dots> = rb_head buf"
    using assms by (simp add: mod_add_right_eq rb_inv_def)
  finally show ?thesis by simp
qed

lemma rb_count_eqI:
  assumes "0 < n" and "n = rb_size buf" and "rb_head buf = int ((nat (rb_tail buf) + k) mod n)"
    and "0 \<le> rb_tail buf" and "k < n"
  shows "rb_count buf = k"
proof -
  have "rb_head buf - rb_tail buf = int ((nat (rb_tail buf) + k) mod n) - rb_tail buf"
    using assms(3) by simp
  then have "(rb_head buf - rb_tail buf) mod int n = (rb_tail buf + int k - rb_tail buf) mod int n"
    using assms(4) by (simp add: zmod_int mod_diff_left_eq)
  then show ?thesis using assms by (simp add: rb_count_def)
qed

lemma ringbuffer_isEmpty_iff: "rb_inv buf \<Longrightarrow> ringbuffer_isEmpty buf \<longleftrightarrow> rb_items buf = []"
proof -
  assume inv: "rb_inv buf"
  have "rb_items buf = [] \<longleftrightarrow> rb_count buf = 0"
    using length_rb_items [of buf] by auto
  moreover have "rb_count buf = 0 \<longleftrightarrow> rb_tail buf = rb_head buf"
  proof
    assume "rb_count buf = 0"
    moreover have "nat (rb_tail buf) < rb_size buf" and "0 \<le> rb_tail buf"
      using inv by (auto simp: rb_inv_def)
    ultimately show "rb_tail buf = rb_head buf"
      using rb_head_eq [OF inv] by simp
  qed (simp add: rb_count_def)
  ultimately show ?thesis by (simp add: ringbuffer_isEmpty_def)
qed

lemma pred_mod_size_t:
  assumes "0 \<le> t" and "t < int n" and "n < 2 ^ 31"
  shows "((to_size_t (t - 1) + n) mod 2 ^ 64) mod n = (nat t + n - 1) mod n"
proof (cases "t = 0")
  case True
  have n: "0 < n" using assms by simp
  have "2 ^ 64 - 1 + n = 2 ^ 64 + (n - 1)" using n by simp
  then have "(2 ^ 64 - 1 + n) mod 2 ^ 64 = (n - 1) mod 2 ^ 64"
    by (simp only: mod_add_self1)
  also have "\<dots> = n - 1" using assms by simp
  finally have "(2 ^ 64 - 1 + n) mod 2 ^ 64 = n - 1" .
  then show ?thesis using True by (simp add: to_size_t_minus_one)
next
  case False
  then have "to_size_t (t - 1) = nat t - 1"
    using assms by (simp add: to_size_t_small nat_diff_distrib)
  moreover have "nat t - 1 + n = nat t + n - 1" "nat t + n - 1 < 2 ^ 64"
    using assms False by auto
  ultimately show ?thesis by simp
qed

lemma wrap_index:
  assumes "i < n" and "n < 2 ^ 31"
  shows "(if to_size_t (int i + 1) = n then 0 else int i + 1) = int (Suc i mod n)"
    and "(if n \<le> to_size_t (int i + 1) then 0 else int i + 1) = int (Suc i mod n)"
proof -
  have "to_size_t (int i + 1) = Suc i"
    using assms to_size_t_of_nat [of "Suc i"] by (simp add: add.commute)
  then show "(if to_size_t (int i + 1) = n then 0 else int i + 1) = int (Suc i mod n)"
    and "(if n \<le> to_size_t (int i + 1) then 0 else int i + 1) = int (Suc i mod n)"
    using assms by (auto simp: mod_Suc)
qed

lemma ringbuffer_isFull_iff:
  assumes inv: "rb_inv buf"
  shows "ringbuffer_isFull buf \<longleftrightarrow> length (rb_items buf) = rb_capacity buf"
proof -
  let ?n = "rb_size buf" and ?t = "nat (rb_tail buf)"
  have b: "0 < ?n" "?n < 2 ^ 31" "0 \<le> rb_tail buf" "rb_tail buf < int ?n" "0 \<le> rb_head buf"
    "rb_head buf < int ?n"
    using inv by (auto simp: rb_inv_def)
  have "ringbuffer_isFull buf \<longleftrightarrow> nat (rb_head buf) = (?t + (?n - 1)) mod ?n"
    using b pred_mod_size_t [OF b(3,4,2)] by (simp add: ringbuffer_isFull_def to_size_t_small)
  also have "\<dots> \<longleftrightarrow> (?t + rb_count buf) mod ?n = (?t + (?n - 1)) mod ?n"
    using rb_head_eq [OF inv] by simp
  also have "\<dots> \<longleftrightarrow> rb_count buf = ?n - 1"
    using mod_shift_inj [of ?t "rb_count buf" ?n "?n - 1"] rb_count_less [OF inv] b(1) by auto
  finally show ?thesis by (simp add: length_rb_items rb_capacity_def)
qed

subsection \<open>The operations on the list they stand for\<close>

lemma ringbuffer_insert_full:
  "rb_inv buf \<Longrightarrow> length (rb_items buf) = rb_capacity buf \<Longrightarrow> ringbuffer_insert buf x = (- 1, buf)"
  by (simp add: ringbuffer_insert_def ringbuffer_isFull_iff)

lemma ringbuffer_insert_room:
  assumes inv: "rb_inv buf" and room: "length (rb_items buf) < rb_capacity buf"
  shows "\<exists>buf'. ringbuffer_insert buf x = (0, buf') \<and> rb_inv buf' \<and>
    rb_items buf' = rb_items buf @ [x] \<and> rb_size buf' = rb_size buf \<and>
    rb_last buf' = rb_last buf \<and> rb_bypassCompress buf' = rb_bypassCompress buf"
proof -
  let ?n = "rb_size buf" and ?t = "nat (rb_tail buf)" and ?k = "rb_count buf"
  define d where "d = (rb_data buf)[(?t + ?k) mod ?n := Some x]"
  define h where "h = int ((?t + Suc ?k) mod ?n)"
  define buf' where "buf' = buf\<lparr>rb_data := d, rb_head := h\<rparr>"
  have b: "0 < ?n" "?n < 2 ^ 31" "0 \<le> rb_tail buf" "rb_tail buf < int ?n" "0 \<le> rb_head buf"
    "rb_head buf < int ?n" "length (rb_data buf) = ?n"
    using inv by (auto simp: rb_inv_def)
  have k: "Suc ?k < ?n" using room by (simp add: length_rb_items rb_capacity_def)
  have "(if to_size_t (rb_head buf + 1) = ?n then 0 else rb_head buf + 1) = h"
    using b(1,2) wrap_index(1) [of "(?t + ?k) mod ?n" ?n]
    by (simp only: rb_head_eq [OF inv] h_def add_Suc_right mod_Suc_eq mod_less_divisor)
  then have ins: "ringbuffer_insert buf x = (0, buf')"
    using room ringbuffer_isFull_iff [OF inv] rb_head_eq [OF inv]
    by (auto simp: ringbuffer_insert_def buf'_def d_def Let_def)
  have cnt: "rb_count buf' = Suc ?k"
    using b k by (intro rb_count_eqI [of ?n]) (auto simp: buf'_def h_def)
  have seg: "ring_seg d ?t (Suc ?k) = ring_seg (rb_data buf) ?t ?k @ [Some x]"
    using ring_seg_push [of ?k "rb_data buf" ?t "Some x"] k b(7) by (simp add: d_def)
  have "rb_items buf' = rb_items buf @ [x]"
    using cnt seg by (simp add: rb_items_def buf'_def)
  moreover have "rb_inv buf'"
    using inv cnt seg by (auto simp: rb_inv_def buf'_def d_def h_def)
  ultimately show ?thesis using ins by (auto simp: buf'_def)
qed

lemma ringbuffer_remove_empty:
  "rb_inv buf \<Longrightarrow> rb_items buf = [] \<Longrightarrow> ringbuffer_remove buf = (None, buf)"
  by (simp add: ringbuffer_remove_def ringbuffer_isEmpty_iff)

lemma ringbuffer_remove_Cons:
  assumes inv: "rb_inv buf" and items: "rb_items buf = x # xs"
  shows "\<exists>buf'. ringbuffer_remove buf = (Some x, buf') \<and> rb_inv buf' \<and> rb_items buf' = xs \<and>
    rb_size buf' = rb_size buf \<and> rb_last buf' = rb_last buf \<and>
    rb_bypassCompress buf' = rb_bypassCompress buf"
proof -
  let ?n = "rb_size buf" and ?t = "nat (rb_tail buf)"
  obtain k where k: "rb_count buf = Suc k"
    using items length_rb_items [of buf] by (cases "rb_count buf") auto
  have b: "0 < ?n" "?n < 2 ^ 31" "0 \<le> rb_tail buf" "rb_tail buf < int ?n"
    "length (rb_data buf) = ?n" "?t < ?n"
    using inv by (auto simp: rb_inv_def)
  define t where "t = int (Suc ?t mod ?n)"
  define buf' where "buf' = buf\<lparr>rb_tail := t\<rparr>"
  have seg: "ring_seg (rb_data buf) ?t (Suc k) =
      rb_data buf ! ?t # ring_seg (rb_data buf) (nat t) k"
    using b ring_seg_mod [of "rb_data buf" "Suc ?t" k] by (simp add: ring_seg_Cons t_def)
  have "None \<noteq> rb_data buf ! ?t"
    using inv seg k by (auto simp: rb_inv_def)
  moreover have "the (rb_data buf ! ?t) = x" and xs: "map the (ring_seg (rb_data buf) (nat t) k) = xs"
    using items seg k by (auto simp: rb_items_def)
  ultimately have x: "rb_data buf ! ?t = Some x" by (metis option.collapse)
  have "(if ?n \<le> to_size_t (rb_tail buf + 1) then 0 else rb_tail buf + 1) = t"
    using wrap_index(2) [OF b(6,2)] b(3) by (simp only: t_def nat_0_le)
  then have rem: "ringbuffer_remove buf = (Some x, buf')"
    using x ringbuffer_isEmpty_iff [OF inv] items by (simp add: ringbuffer_remove_def buf'_def)
  have cnt: "rb_count buf' = k"
  proof (rule rb_count_eqI [of ?n])
    show "rb_head buf' = int ((nat (rb_tail buf') + k) mod ?n)"
      using rb_head_eq [OF inv] k by (simp add: buf'_def t_def mod_add_left_eq)
    show "k < ?n" using k rb_count_less [OF inv] by simp
  qed (use b in \<open>auto simp: buf'_def t_def\<close>)
  have "rb_inv buf'"
    using inv cnt seg k by (auto simp: rb_inv_def buf'_def t_def)
  then show ?thesis
    using rem xs cnt by (auto simp: rb_items_def buf'_def)
qed

definition rb_push :: "'a ringbuffer \<Rightarrow> 'a \<Rightarrow> bool \<times> 'a ringbuffer" where
  "rb_push buf x = (let (r, buf') = ringbuffer_insert buf x in (r = 0, buf'))"

interpretation rb: bounded_fifo rb_push ringbuffer_remove rb_items rb_capacity rb_inv
proof unfold_locales
  fix q :: "'a ringbuffer" and x
  assume inv: "rb_inv q"
  show "length (rb_items q) \<le> rb_capacity q"
    using rb_count_less [OF inv] by (simp add: length_rb_items rb_capacity_def)
  show "rb_inv (snd (rb_push q x)) \<and> rb_capacity (snd (rb_push q x)) = rb_capacity q"
  proof (cases "length (rb_items q) < rb_capacity q")
    case True
    then show ?thesis
      using ringbuffer_insert_room [OF inv True, of x] by (auto simp: rb_push_def rb_capacity_def)
  next
    case False
    then show ?thesis
      using ringbuffer_isFull_iff [OF inv] rb_count_less [OF inv] inv
      by (auto simp: rb_push_def ringbuffer_insert_def length_rb_items rb_capacity_def)
  qed
  show "rb_inv (snd (ringbuffer_remove q)) \<and> rb_capacity (snd (ringbuffer_remove q)) = rb_capacity q"
  proof (cases "rb_items q")
    case Nil
    then show ?thesis using ringbuffer_remove_empty [OF inv] inv by simp
  next
    case (Cons y ys)
    then show ?thesis using ringbuffer_remove_Cons [OF inv Cons] by (auto simp: rb_capacity_def)
  qed
next
  fix q :: "'a ringbuffer" and x
  assume inv: "rb_inv q" and "length (rb_items q) < rb_capacity q"
  then show "fst (rb_push q x) \<and> rb_items (snd (rb_push q x)) = rb_items q @ [x]"
    using ringbuffer_insert_room [OF inv, of x] by (auto simp: rb_push_def)
next
  fix q :: "'a ringbuffer" and x
  assume inv: "rb_inv q" and "length (rb_items q) = rb_capacity q"
  then show "rb_push q x = (False, q)"
    using ringbuffer_insert_full [OF inv, of x] by (simp add: rb_push_def)
next
  fix q :: "'a ringbuffer"
  assume "rb_inv q" and "rb_items q = []"
  then show "ringbuffer_remove q = (None, q)" by (rule ringbuffer_remove_empty)
next
  fix q :: "'a ringbuffer" and x xs
  assume inv: "rb_inv q" and "rb_items q = x # xs"
  then show "fst (ringbuffer_remove q) = Some x \<and> rb_items (snd (ringbuffer_remove q)) = xs"
    using ringbuffer_remove_Cons [OF inv] by fastforce
qed

end
