(* ===== verification/DedupQueue.thy ===== *)
theory DedupQueue
  imports RingBuffer
begin

text \<open>
  The synchronized queue between pipeline stages (\<open>kernels/dedup/src/queue.c\<close>). Every
  operation runs under the queue's mutex, so it is one atomic step; waiting on a condition
  variable is the result \<open>Wait\<close> (the caller retries once it is signalled), and the
  condition variable an operation signals is part of its result.
\<close>

record 'a queue_t =
  q_buf :: "'a ringbuffer"
  nProducers :: int
  nTerminated :: int

datatype cond_signal = NoSignal | SignalNotEmpty | SignalNotFull | BroadcastNotEmpty

datatype 'r waiting = Wait | Done 'r

definition queue_init :: "nat \<Rightarrow> int \<Rightarrow> 'a queue_t" where
  "queue_init n producers = \<lparr>q_buf = ringbuffer_init n, nProducers = producers, nTerminated = 0\<rparr>"

definition queue_isTerminated :: "'a queue_t \<Rightarrow> err + bool" where
  "queue_isTerminated que =
     (if nTerminated que \<le> nProducers que then Inr (nTerminated que = nProducers que)
      else Inl AssertFailed)"

definition queue_terminate :: "'a queue_t \<Rightarrow> err + (cond_signal \<times> 'a queue_t)" where
  "queue_terminate que =
     (let que = que\<lparr>nTerminated := nTerminated que + 1\<rparr> in
      if \<not> nTerminated que \<le> nProducers que then Inl AssertFailed
      else (case queue_isTerminated que of Inl e \<Rightarrow> Inl e
        | Inr t \<Rightarrow> Inr (if t then BroadcastNotEmpty else NoSignal, que)))"

text \<open>The copying loop both operations share: at most \<open>limit\<close> rounds.\<close>

fun queue_move :: "nat \<Rightarrow> 'a ringbuffer \<Rightarrow> 'a ringbuffer \<Rightarrow>
    err + (nat \<times> 'a ringbuffer \<times> 'a ringbuffer)" where
  "queue_move 0 src dst = Inr (0, src, dst)"
| "queue_move (Suc limit) src dst =
     (if ringbuffer_isEmpty src \<or> ringbuffer_isFull dst then Inr (0, src, dst)
      else (case ringbuffer_remove src of
          (None, _) \<Rightarrow> Inl AssertFailed
        | (Some temp, src') \<Rightarrow>
            (case ringbuffer_insert dst temp of (rv, dst') \<Rightarrow>
               if rv \<noteq> 0 then Inl AssertFailed
               else (case queue_move limit src' dst' of Inl e \<Rightarrow> Inl e
                 | Inr (i, s, d) \<Rightarrow> Inr (Suc i, s, d)))))"

text \<open>
  \<open>limit\<close> is a signed integer in the code and a number of rounds here: none for a negative one, as
  for 0.
\<close>

definition queue_dequeue :: "'a queue_t \<Rightarrow> 'a ringbuffer \<Rightarrow> nat \<Rightarrow>
    err + (int \<times> cond_signal \<times> 'a queue_t \<times> 'a ringbuffer) waiting" where
  "queue_dequeue que buf limit =
     (if ringbuffer_isEmpty (q_buf que) then
        (case queue_isTerminated que of Inl e \<Rightarrow> Inl e
         | Inr t \<Rightarrow> if \<not> t then Inr Wait else Inr (Done (- 1, NoSignal, que, buf)))
      else (case queue_move limit (q_buf que) buf of Inl e \<Rightarrow> Inl e
        | Inr (i, q', buf') \<Rightarrow>
            Inr (Done (int i, if 0 < i then SignalNotFull else NoSignal,
              que\<lparr>q_buf := q'\<rparr>, buf'))))"

definition queue_enqueue :: "'a queue_t \<Rightarrow> 'a ringbuffer \<Rightarrow> nat \<Rightarrow>
    err + (int \<times> cond_signal \<times> 'a queue_t \<times> 'a ringbuffer) waiting" where
  "queue_enqueue que buf limit =
     (case queue_isTerminated que of Inl e \<Rightarrow> Inl e
      | Inr t \<Rightarrow>
        if t then Inl AssertFailed
        else if ringbuffer_isFull (q_buf que) then Inr Wait
        else (case queue_move limit buf (q_buf que) of Inl e \<Rightarrow> Inl e
          | Inr (i, buf', q') \<Rightarrow>
              Inr (Done (int i, if 0 < i then SignalNotEmpty else NoSignal,
                que\<lparr>q_buf := q'\<rparr>, buf'))))"

subsection \<open>The copying loop is the FIFO transfer\<close>

lemma rb_push_eq:
  "rb_inv b \<Longrightarrow> length (rb_items b) < rb_capacity b \<Longrightarrow>
    ringbuffer_insert b x = (0, snd (rb_push b x))"
  using ringbuffer_insert_room [of b x] by (auto simp: rb_push_def)

lemma queue_move_transfer:
  "rb_inv a \<Longrightarrow> rb_inv b \<Longrightarrow> queue_move n a b = Inr (rb.transfer n a b)"
proof (induction n arbitrary: a b)
  case 0
  then show ?case by simp
next
  case (Suc n)
  show ?case
  proof (cases "length (rb_items b) = rb_capacity b")
    case True
    then show ?thesis using Suc.prems by (simp add: ringbuffer_isFull_iff)
  next
    case False
    then have room: "length (rb_items b) < rb_capacity b"
      using rb.items_bound [OF Suc.prems(2)] by simp
    show ?thesis
    proof (cases "rb_items a")
      case Nil
      then show ?thesis
        using Suc.prems False
        by (simp add: ringbuffer_isEmpty_iff ringbuffer_remove_empty)
    next
      case (Cons x xs)
      obtain a' where a': "ringbuffer_remove a = (Some x, a')" "rb_inv a'"
        using ringbuffer_remove_Cons [OF Suc.prems(1) Cons] by auto
      have "queue_move n a' (snd (rb_push b x)) = Inr (rb.transfer n a' (snd (rb_push b x)))"
        using Suc.IH a'(2) rb.push_inv [OF Suc.prems(2)] by blast
      then show ?thesis
        using a' Cons False Suc.prems rb_push_eq [OF Suc.prems(2) room]
        by (auto simp: ringbuffer_isEmpty_iff ringbuffer_isFull_iff split: prod.splits)
    qed
  qed
qed

definition queue_inv :: "'a queue_t \<Rightarrow> bool" where
  "queue_inv que \<longleftrightarrow> rb_inv (q_buf que) \<and> nTerminated que \<le> nProducers que"

text \<open>
  C23. Dequeueing moves a prefix of the queue, in order, to the end of the caller's buffer; it
  waits exactly when the queue is empty while producers are still active, and returns $-1$
  exactly when it is empty and every producer has terminated. No assertion can fail.
\<close>

theorem queue_dequeue_fifo:
  assumes "queue_inv que" and "rb_inv buf"
  shows "\<exists>r. queue_dequeue que buf limit = Inr r \<and>
    (r = Wait \<longleftrightarrow> rb_items (q_buf que) = [] \<and> nTerminated que \<noteq> nProducers que) \<and>
    (\<forall>i sig que' buf'. r = Done (i, sig, que', buf') \<longrightarrow>
       queue_inv que' \<and> rb_inv buf' \<and>
       (i = - 1 \<longleftrightarrow> rb_items (q_buf que) = []) \<and>
       (i = - 1 \<longrightarrow> nTerminated que = nProducers que) \<and>
       rb_items buf' = rb_items buf @ take (nat i) (rb_items (q_buf que)) \<and>
       rb_items (q_buf que') = drop (nat i) (rb_items (q_buf que)) \<and>
       (i \<noteq> - 1 \<longrightarrow> nat i = min limit (min (length (rb_items (q_buf que)))
                                       (rb_capacity buf - length (rb_items buf)))))"
proof (cases "rb_items (q_buf que)")
  case Nil
  then show ?thesis
    using assms by (auto simp: queue_dequeue_def queue_isTerminated_def queue_inv_def ringbuffer_isEmpty_iff)
next
  case (Cons x xs)
  have inv: "rb_inv (q_buf que)" "nTerminated que \<le> nProducers que"
    using assms(1) by (auto simp: queue_inv_def)
  obtain k q' b' where tr: "rb.transfer limit (q_buf que) buf = (k, q', b')"
    by (metis prod_cases3)
  have "queue_dequeue que buf limit =
      Inr (Done (int k, if 0 < k then SignalNotFull else NoSignal, que\<lparr>q_buf := q'\<rparr>, b'))"
    using inv Cons queue_move_transfer [OF inv(1) assms(2), of limit] tr
    by (simp add: queue_dequeue_def queue_isTerminated_def ringbuffer_isEmpty_iff)
  then show ?thesis
    using rb.transfer_correct [OF inv(1) assms(2) tr] inv Cons by (simp add: queue_inv_def)
qed

theorem queue_dequeue_fifo_witness:
  "\<exists>r. queue_dequeue (queue_init 4 1) (ringbuffer_init 2 :: nat ringbuffer) 3 = Inr r \<and>
    r = Wait"
proof -
  have i: "queue_inv (queue_init 4 1 :: nat queue_t)"
    by (simp add: queue_inv_def queue_init_def rb_inv_init)
  have b: "rb_inv (ringbuffer_init 2 :: nat ringbuffer)" by (rule rb_inv_init) simp
  show ?thesis
    using queue_dequeue_fifo [OF i b, of 3] by (auto simp: queue_init_def fifo_simps)
qed

text \<open>
  Enqueueing appends a prefix of the caller's buffer, in order, to the queue; it waits
  exactly when the queue is full, moves at least one element otherwise if there is one and
  the limit allows it, and fails its assertion exactly when all producers have terminated.
\<close>

theorem queue_enqueue_fifo:
  assumes "queue_inv que" and "rb_inv buf"
  shows "(queue_enqueue que buf limit = Inl AssertFailed \<longleftrightarrow> nTerminated que = nProducers que) \<and>
    (nTerminated que \<noteq> nProducers que \<longrightarrow> (\<exists>r. queue_enqueue que buf limit = Inr r \<and>
      (r = Wait \<longleftrightarrow> length (rb_items (q_buf que)) = rb_capacity (q_buf que)) \<and>
      (\<forall>i sig que' buf'. r = Done (i, sig, que', buf') \<longrightarrow>
         queue_inv que' \<and> rb_inv buf' \<and> 0 \<le> i \<and>
         rb_items (q_buf que') = rb_items (q_buf que) @ take (nat i) (rb_items buf) \<and>
         rb_items buf' = drop (nat i) (rb_items buf) \<and>
         nat i = min limit (min (length (rb_items buf))
                     (rb_capacity (q_buf que) - length (rb_items (q_buf que)))))))"
proof -
  have inv: "rb_inv (q_buf que)" "nTerminated que \<le> nProducers que"
    using assms(1) by (auto simp: queue_inv_def)
  obtain k b' q' where tr: "rb.transfer limit buf (q_buf que) = (k, b', q')"
    by (metis prod_cases3)
  note mv = queue_move_transfer [OF assms(2) inv(1), of limit]
  show ?thesis
    using rb.transfer_correct [OF assms(2) inv(1) tr] inv mv tr
    by (auto simp: queue_enqueue_def queue_isTerminated_def queue_inv_def ringbuffer_isFull_iff)
qed

theorem queue_enqueue_fifo_witness:
  "\<exists>r. queue_enqueue (queue_init 4 1) (snd (rb_push (ringbuffer_init 2) (7::nat))) 3 = Inr r \<and>
    r \<noteq> Wait"
proof -
  have i: "queue_inv (queue_init 4 1 :: nat queue_t)"
    by (simp add: queue_inv_def queue_init_def rb_inv_init)
  have b: "rb_inv (snd (rb_push (ringbuffer_init 2) (7::nat)))"
    using rb.push_inv [OF rb_inv_init [of 2], of "7::nat"] by simp
  show ?thesis
    using queue_enqueue_fifo [OF i b, of 3] by (auto simp: queue_init_def fifo_simps)
qed

end
