(* ===== verification/DedupTypes.thy ===== *)
theory DedupTypes
  imports Prelude
begin

text \<open>
  The data model of the dedup kernel (\<open>dedupdef.h\<close>): constants, two-level sequence numbers
  with 32-bit components, and chunks. Buffers inside a chunk are values: the bytes, absent
  once the buffer was released, and the length field, which survives the release. The theory
  MBuffer justifies the values: a split shows a prefix and a suffix, and no operation on one
  buffer changes what another holder reads.
\<close>

definition MAXBUF :: nat where "MAXBUF = 128 * 1024 * 1024"
definition ANCHOR_JUMP :: nat where "ANCHOR_JUMP = 2 * 1024 * 1024"
definition GRAIN :: nat where "GRAIN = 1"
definition ITEM_PER_INSERT :: nat where "ITEM_PER_INSERT = GRAIN"
definition CHUNK_ANCHOR_PER_INSERT :: nat where "CHUNK_ANCHOR_PER_INSERT = GRAIN"
definition ANCHOR_DATA_PER_INSERT :: nat where "ANCHOR_DATA_PER_INSERT = 1"
definition SSIZE_MAX :: nat where "SSIZE_MAX = 2 ^ 63 - 1"
definition SHA1_LEN :: nat where "SHA1_LEN = 20"

definition TYPE_FINGERPRINT :: byte where "TYPE_FINGERPRINT = 0"
definition TYPE_COMPRESS :: byte where "TYPE_COMPRESS = 1"
definition TYPE_ORIGINAL :: byte where "TYPE_ORIGINAL = 2"

definition COMPRESS_GZIP :: int where "COMPRESS_GZIP = 0"
definition COMPRESS_BZIP2 :: int where "COMPRESS_BZIP2 = 1"
definition COMPRESS_NONE :: int where "COMPRESS_NONE = 2"

lemma anchor_jump_pos: "0 < ANCHOR_JUMP" and maxbuf_pos: "0 < MAXBUF"
  by (simp_all add: ANCHOR_JUMP_def MAXBUF_def)

lemmas insert_size_defs = ITEM_PER_INSERT_def CHUNK_ANCHOR_PER_INSERT_def GRAIN_def
  ANCHOR_DATA_PER_INSERT_def

text \<open>The part of \<open>config_t\<close> the encoder reads, and the build flags it depends on.\<close>

record config_t =
  compress_type :: int
  preloading :: bool
  nthreads :: nat
  gzip_enabled :: bool
  bzip2_enabled :: bool

subsection \<open>Sequence numbers\<close>

datatype sequence_t = Seq (l1num: u32) (l2num: u32)

definition sequence_eq :: "sequence_t \<Rightarrow> sequence_t \<Rightarrow> bool" where
  "sequence_eq s1 s2 \<longleftrightarrow> l1num s1 = l1num s2 \<and> l2num s1 = l2num s2"

definition sequence_lt :: "sequence_t \<Rightarrow> sequence_t \<Rightarrow> bool" where
  "sequence_lt s1 s2 =
     (if l1num s1 < l1num s2 then True else l1num s1 = l1num s2 \<and> l2num s1 < l2num s2)"

definition sequence_gt :: "sequence_t \<Rightarrow> sequence_t \<Rightarrow> bool" where
  "sequence_gt s1 s2 =
     (if l1num s2 < l1num s1 then True else l1num s1 = l1num s2 \<and> l2num s2 < l2num s1)"

definition sequence_inc :: "sequence_t \<Rightarrow> u32 \<Rightarrow> sequence_t" where
  "sequence_inc s ubound =
     (let s = Seq (l1num s) (l2num s + 1) in
      if ubound \<le> l2num s then Seq (l1num s + 1) 0 else s)"

definition sequence_inc_l1 :: "sequence_t \<Rightarrow> sequence_t" where
  "sequence_inc_l1 s = Seq (l1num s + 1) 0"

definition sequence_inc_l2 :: "sequence_t \<Rightarrow> sequence_t" where
  "sequence_inc_l2 s = Seq (l1num s) (l2num s + 1)"

definition sequence_reset :: "sequence_t \<Rightarrow> sequence_t" where
  "sequence_reset s = Seq 0 0"

text \<open>The comparison of the source is a linear order of the library's class.\<close>

instantiation sequence_t :: linorder
begin

definition less_sequence_t_def: "s1 < s2 \<longleftrightarrow> sequence_lt s1 s2"
definition less_eq_sequence_t_def: "s1 \<le> s2 \<longleftrightarrow> sequence_lt s1 s2 \<or> sequence_eq s1 s2"

instance
proof
  fix x y z :: sequence_t
  show "(x < y) = (x \<le> y \<and> \<not> y \<le> x)"
    by (auto simp: less_sequence_t_def less_eq_sequence_t_def sequence_lt_def sequence_eq_def)
  show "x \<le> x"
    by (simp add: less_eq_sequence_t_def sequence_eq_def)
  show "x \<le> y \<Longrightarrow> y \<le> z \<Longrightarrow> x \<le> z"
    by (auto simp: less_eq_sequence_t_def sequence_lt_def sequence_eq_def split: if_splits)
  show "x \<le> y \<Longrightarrow> y \<le> x \<Longrightarrow> x = y"
    by (auto simp: less_eq_sequence_t_def sequence_lt_def sequence_eq_def intro: sequence_t.expand
        split: if_splits)
  show "x \<le> y \<or> y \<le> x"
    by (auto simp: less_eq_sequence_t_def sequence_lt_def sequence_eq_def)
qed

end

text \<open>
  C29. The three comparisons of sequence numbers are the equality and the strict order of one
  linear order: exactly one of them holds for any two numbers.
\<close>

theorem sequence_trichotomy:
  "(sequence_eq s t \<longleftrightarrow> s = t) \<and> (sequence_lt s t \<longleftrightarrow> s < t) \<and> (sequence_gt s t \<longleftrightarrow> t < s) \<and>
   (if sequence_lt s t then \<not> sequence_eq s t \<and> \<not> sequence_gt s t
    else sequence_eq s t \<noteq> sequence_gt s t)"
proof -
  have "sequence_eq s t \<longleftrightarrow> s = t" by (auto simp: sequence_eq_def intro: sequence_t.expand)
  moreover have "sequence_gt s t \<longleftrightarrow> t < s"
    by (auto simp: sequence_gt_def less_sequence_t_def sequence_lt_def)
  moreover have "sequence_lt s t \<longleftrightarrow> s < t" by (simp add: less_sequence_t_def)
  ultimately show ?thesis by auto
qed

text \<open>
  As long as a component does not reach the end of its 32-bit range, each increment yields
  the next number: larger than the old one with no number of the same bound in between.
\<close>

theorem sequence_inc_next:
  assumes "l2num s < ubound" and "l1num s < - 1"
  shows "s < sequence_inc s ubound \<and> l2num (sequence_inc s ubound) < ubound \<and>
    (\<forall>t. s < t \<longrightarrow> l2num t < ubound \<longrightarrow> sequence_inc s ubound \<le> t)"
proof -
  have l1: "l1num s < l1num s + 1" and up1: "\<And>t. l1num s < t \<longleftrightarrow> l1num s + 1 \<le> t"
    using word_inc_less [OF assms(2)] by auto
  have l2: "l2num s < l2num s + 1" and up: "\<And>t. l2num s < t \<longleftrightarrow> l2num s + 1 \<le> t"
    using word_inc_less [OF assms(1)] by auto
  have pos: "0 < ubound" using assms(1) by (metis word_coorder.not_eq_extremum word_not_simps(1))
  show ?thesis
  proof (cases "ubound \<le> l2num s + 1")
    case True
    have "Seq (l1num s + 1) 0 \<le> t" if "s < t" "l2num t < ubound" for t
    proof -
      have "\<not> l2num s < l2num t"
        using up [of "l2num t"] True that(2) by (meson leD order.trans)
      then have "l1num s < l1num t"
        using that(1) by (auto simp: less_sequence_t_def sequence_lt_def split: if_splits)
      then have "l1num s + 1 \<le> l1num t" using up1 by blast
      then show ?thesis
        by (auto simp: less_eq_sequence_t_def sequence_lt_def sequence_eq_def word_gt_0)
    qed
    then show ?thesis
      using True l1 pos by (simp add: sequence_inc_def Let_def less_sequence_t_def sequence_lt_def)
  next
    case False
    have "Seq (l1num s) (l2num s + 1) \<le> t" if "s < t" for t
      using that up [of "l2num t"]
      by (auto simp: less_sequence_t_def less_eq_sequence_t_def sequence_lt_def sequence_eq_def
          split: if_splits)
    then show ?thesis
      using False l2 by (auto simp: sequence_inc_def Let_def less_sequence_t_def sequence_lt_def not_le)
  qed
qed

theorem sequence_inc_next_witness:
  "Seq 3 9 < sequence_inc (Seq 3 9) 10 \<and> l2num (sequence_inc (Seq 3 9) 10) < 10 \<and>
    sequence_inc (Seq 3 9) 10 = Seq 4 0"
  using sequence_inc_next [of "Seq 3 9" 10] by (simp add: sequence_inc_def)

subsection \<open>Chunks\<close>

datatype chunk_state_t = CHUNK_STATE_UNCOMPRESSED | CHUNK_STATE_COMPRESSED | CHUNK_STATE_FLUSHED

record mbuf =
  mb_ptr :: "byte list option"
  mb_len :: nat

text \<open>
  \<open>compressed_data_ref\<close> is the address of the original chunk. Fields that \<open>malloc\<close> leaves
  uninitialized are \<open>None\<close>-like defaults that no operation reads before it writes them.
\<close>

record chunk_t =
  isDuplicate :: bool
  state :: chunk_state_t
  sha1 :: "u32 list"
  uncompressed_data :: mbuf
  compressed_data :: mbuf
  compressed_data_ref :: nat
  seqno :: sequence_t
  isLastL2Chunk :: bool

definition mbuf_of :: "byte list \<Rightarrow> mbuf" where
  "mbuf_of bs = \<lparr>mb_ptr = Some bs, mb_len = length bs\<rparr>"

definition mbuf_none :: mbuf where
  "mbuf_none = \<lparr>mb_ptr = None, mb_len = 0\<rparr>"

definition mbuf_free :: "mbuf \<Rightarrow> mbuf" where
  "mbuf_free m = m\<lparr>mb_ptr := None\<rparr>"

text \<open>A chunk fresh from \<open>malloc\<close>.\<close>

definition malloc_chunk :: chunk_t where
  "malloc_chunk = \<lparr>isDuplicate = False, state = CHUNK_STATE_UNCOMPRESSED, sha1 = [],
     uncompressed_data = mbuf_none, compressed_data = mbuf_none, compressed_data_ref = 0,
     seqno = Seq 0 0, isLastL2Chunk = False\<rparr>"

definition chunk_bytes :: "chunk_t \<Rightarrow> byte list" where
  "chunk_bytes c = (case mb_ptr (uncompressed_data c) of None \<Rightarrow> [] | Some bs \<Rightarrow> bs)"

definition set_data :: "byte list \<Rightarrow> chunk_t \<Rightarrow> chunk_t" where
  "set_data bs c = c\<lparr>uncompressed_data := mbuf_of bs\<rparr>"

text \<open>A chunk on its way to deduplication: it holds its bytes, and its length field is right.\<close>

definition chunk_ok :: "chunk_t \<Rightarrow> bool" where
  "chunk_ok c \<longleftrightarrow> state c = CHUNK_STATE_UNCOMPRESSED \<and> chunk_bytes c \<noteq> [] \<and>
     uncompressed_data c = mbuf_of (chunk_bytes c)"

lemma chunk_bytes_set_data [simp]: "chunk_bytes (set_data bs c) = bs"
  by (simp add: chunk_bytes_def set_data_def mbuf_of_def)

lemma chunk_bytes_sha1 [simp]: "chunk_bytes (c\<lparr>sha1 := k\<rparr>) = chunk_bytes c"
  by (simp add: chunk_bytes_def)

lemma mb_ptr_mbuf_of [simp]: "mb_ptr (mbuf_of bs) = Some bs" "mb_len (mbuf_of bs) = length bs"
  by (simp_all add: mbuf_of_def)

lemma chunk_okD: "chunk_ok c \<Longrightarrow> mb_ptr (uncompressed_data c) = Some (chunk_bytes c)"
  by (metis chunk_ok_def mb_ptr_mbuf_of(1))

end
