(* ===== verification/KeyTable.thy ===== *)
theory KeyTable
  imports Prelude
begin

text \<open>
  The interface of a table of keys: what the duplicate elimination of the dedup kernel relies
  on. Keys are compared by the table's own comparison function, an equivalence; the client
  looks a key up and, in the same critical section, adds it when it is absent.
\<close>

locale key_table =
  fixes search :: "'h \<Rightarrow> 'k \<Rightarrow> 'v option"
    and add :: "'h \<Rightarrow> 'k \<Rightarrow> 'v \<Rightarrow> 'h"
    and eqk :: "'h \<Rightarrow> 'k \<Rightarrow> 'k \<Rightarrow> bool"
    and invar :: "'h \<Rightarrow> bool"
  assumes eqk_refl: "invar h \<Longrightarrow> eqk h k k"
    and eqk_sym: "invar h \<Longrightarrow> eqk h k l \<Longrightarrow> eqk h l k"
    and eqk_trans: "invar h \<Longrightarrow> eqk h k l \<Longrightarrow> eqk h l m \<Longrightarrow> eqk h k m"
    and search_cong: "invar h \<Longrightarrow> eqk h k l \<Longrightarrow> search h k = search h l"
    and search_add: "invar h \<Longrightarrow> search (add h k v) l = (if eqk h l k then Some v else search h l)"
    and add_inv: "invar h \<Longrightarrow> invar (add h k v)"
    and eqk_add: "eqk (add h k v) = eqk h"
begin

definition find_or_add :: "'h \<Rightarrow> 'k \<Rightarrow> 'v \<Rightarrow> 'v option \<times> 'h" where
  "find_or_add h k v = (case search h k of Some w \<Rightarrow> (Some w, h) | None \<Rightarrow> (None, add h k v))"

lemma find_or_add_inv: "invar h \<Longrightarrow> invar (snd (find_or_add h k v))"
  by (auto simp: find_or_add_def add_inv split: option.splits)

lemma eqk_find_or_add: "eqk (snd (find_or_add h k v)) = eqk h"
  by (auto simp: find_or_add_def eqk_add split: option.splits)

text \<open>An entry, once made, keeps its value.\<close>

lemma find_or_add_mono:
  assumes inv: "invar h" and found: "search h l = Some w"
  shows "search (snd (find_or_add h k v)) l = Some w"
proof (cases "search h k")
  case None
  then have "\<not> eqk h l k"
    using found search_cong [OF inv, of l k] by auto
  then show ?thesis using None found inv by (simp add: find_or_add_def search_add)
qed (use found in \<open>simp add: find_or_add_def\<close>)

lemma find_or_add_found:
  assumes inv: "invar h"
  shows "search (snd (find_or_add h k v)) k =
    Some (case fst (find_or_add h k v) of Some w \<Rightarrow> w | None \<Rightarrow> v)"
  using eqk_refl [OF inv, of k] inv by (auto simp: find_or_add_def search_add split: option.splits)

lemma find_or_add_other:
  assumes inv: "invar h" and ne: "\<not> eqk h l k"
  shows "search (snd (find_or_add h k v)) l = search h l"
  using assms by (auto simp: find_or_add_def search_add split: option.splits)

text \<open>A run of the client: each key gets the value of the first equal key.\<close>

fun run :: "'h \<Rightarrow> ('k \<times> 'v) list \<Rightarrow> 'v option list \<times> 'h" where
  "run h [] = ([], h)"
| "run h ((k, v) # xs) =
     (case find_or_add h k v of (r, h1) \<Rightarrow> (case run h1 xs of (rs, h2) \<Rightarrow> (r # rs, h2)))"

lemma run_inv: "invar h \<Longrightarrow> invar (snd (run h xs)) \<and> eqk (snd (run h xs)) = eqk h"
proof (induction h xs rule: run.induct)
  case (2 h k v xs)
  obtain r h1 where "find_or_add h k v = (r, h1)" by fastforce
  then show ?case
    using "2.IH" [of r h1] find_or_add_inv [OF "2.prems", of k v] eqk_find_or_add [of h k v]
    by (auto simp: split_beta)
qed simp

lemma run_mono: "invar h \<Longrightarrow> search h l = Some w \<Longrightarrow> search (snd (run h xs)) l = Some w"
proof (induction h xs rule: run.induct)
  case (2 h k v xs)
  obtain r h1 where "find_or_add h k v = (r, h1)" by fastforce
  then show ?case
    using "2.IH" [of r h1] find_or_add_inv [OF "2.prems"(1), of k v]
      find_or_add_mono [OF "2.prems", of k v]
    by (auto simp: split_beta)
qed simp

lemma run_search:
  "invar h \<Longrightarrow> search h l = None \<Longrightarrow>
    search (snd (run h xs)) l = map_option snd (find (\<lambda>(k, v). eqk h l k) xs)"
proof (induction h xs rule: run.induct)
  case (1 h)
  then show ?case by simp
next
  case (2 h k v xs)
  obtain r h1 where h1: "find_or_add h k v = (r, h1)" by fastforce
  have inv1: "invar h1" and eq1: "eqk h1 = eqk h"
    using h1 find_or_add_inv [OF "2.prems"(1), of k v] eqk_find_or_add [of h k v] by auto
  show ?case
  proof (cases "eqk h l k")
    case True
    have "search h k = None"
      using search_cong [OF "2.prems"(1) True] "2.prems"(2) by simp
    then have "search h1 l = Some v"
      using h1 True "2.prems" by (auto simp: find_or_add_def search_add)
    then show ?thesis using h1 True run_mono [OF inv1, of l v xs] by (simp add: split_beta)
  next
    case False
    then have "search h1 l = None"
      using h1 find_or_add_other [OF "2.prems"(1), of l k v] "2.prems"(2) by simp
    then show ?thesis using "2.IH" [OF h1 [symmetric]] h1 inv1 eq1 False by (simp add: split_beta)
  qed
qed

end

text \<open>A table that can also remove the most recent entry of a key.\<close>

locale key_table_remove = key_table search add eqk invar
  for search :: "'h \<Rightarrow> 'k \<Rightarrow> 'v option"
    and add :: "'h \<Rightarrow> 'k \<Rightarrow> 'v \<Rightarrow> 'h"
    and eqk :: "'h \<Rightarrow> 'k \<Rightarrow> 'k \<Rightarrow> bool"
    and invar :: "'h \<Rightarrow> bool" +
  fixes remove :: "'h \<Rightarrow> 'k \<Rightarrow> 'v option \<times> 'h"
  assumes remove_result: "invar h \<Longrightarrow> fst (remove h k) = search h k"
    and remove_other: "invar h \<Longrightarrow> \<not> eqk h l k \<Longrightarrow> search (snd (remove h k)) l = search h l"
    and remove_inv: "invar h \<Longrightarrow> invar (snd (remove h k)) \<and> eqk (snd (remove h k)) = eqk h"
    and remove_add: "invar h \<Longrightarrow> eqk h l k \<Longrightarrow> search (snd (remove (add h k v) l)) m = search h m"
begin

lemma remove_find_or_add:
  assumes inv: "invar h" and new: "search h k = None"
  shows "search (snd (remove (snd (find_or_add h k v)) k)) l = search h l"
  using remove_add [OF inv eqk_refl [OF inv], of k v l] new by (simp add: find_or_add_def)

end

end
