(* ===== verification/Hashtable.thy ===== *)
theory Hashtable
  imports KeyTable "HOL-Library.Multiset"
begin

text \<open>
  The chained hash table of the dedup kernel (\<open>hashtable.c\<close>, \<open>hashtable_private.h\<close>). The
  bucket array is a list of buckets, a bucket the list of its entries from the head. The
  program holds the lock of the bucket (\<open>hashtable_getlock\<close>) around every search and insert,
  so each operation is atomic. \<open>hashtable_expand\<close> belongs to the configuration with
  \<open>ENABLE_DYNAMIC_EXPANSION\<close>.
\<close>

unbundle bit_operations_syntax

record ('k, 'v) hash_entry =
  e_k :: 'k
  e_v :: 'v
  e_h :: u32

record ('k, 'v) hashtable =
  tablelength :: u32
  table :: "('k, 'v) hash_entry list list"
  hashfn :: "'k \<Rightarrow> u32"
  eqfn :: "'k \<Rightarrow> 'k \<Rightarrow> bool"
  free_keys :: bool

definition primes :: "u32 list" where
  "primes = [53, 97, 193, 389, 769, 1543, 3079, 6151, 12289, 24593, 49157, 98317,
     196613, 393241, 786433, 1572869, 3145739, 6291469, 12582917, 25165843,
     50331653, 100663319, 201326611, 402653189, 805306457, 1610612741]"

text \<open>The search loop of \<open>hashtable_create\<close>: final index and size.\<close>

fun choose_prime :: "u32 list \<Rightarrow> u32 \<Rightarrow> nat \<Rightarrow> u32 \<Rightarrow> nat \<times> u32" where
  "choose_prime [] minsize pindex size0 = (pindex, size0)"
| "choose_prime (p # ps) minsize pindex size0 =
     (if minsize < p then (pindex, p) else choose_prime ps minsize (pindex + 1) size0)"

definition hashtable_create :: "bool \<Rightarrow> u32 \<Rightarrow> ('k \<Rightarrow> u32) \<Rightarrow> ('k \<Rightarrow> 'k \<Rightarrow> bool) \<Rightarrow> bool \<Rightarrow>
    ('k, 'v) hashtable option" where
  "hashtable_create alloc_ok minsize hashf eqf freek =
     (if push_bit 30 1 < minsize then None
      else (case choose_prime primes minsize 0 (hd primes) of (pindex, sz) \<Rightarrow>
        if \<not> alloc_ok then None
        else Some \<lparr>tablelength = sz, table = replicate (unat sz) [], hashfn = hashf,
               eqfn = eqf, free_keys = freek\<rparr>))"

definition hash :: "('k, 'v) hashtable \<Rightarrow> 'k \<Rightarrow> u32" where
  "hash h k =
     (let i = hashfn h k;
          i = i + NOT (push_bit 9 i);
          i = xor i (or (drop_bit 14 i) (push_bit 18 i));
          i = i + push_bit 4 i;
          i = xor i (or (drop_bit 10 i) (push_bit 22 i))
      in i)"

definition indexFor :: "u32 \<Rightarrow> u32 \<Rightarrow> nat" where
  "indexFor tlen hashvalue = unat (hashvalue mod tlen)"

definition hashtable_getlock :: "('k, 'v) hashtable \<Rightarrow> 'k \<Rightarrow> nat" where
  "hashtable_getlock h k = indexFor (tablelength h) (hash h k)"

definition hashtable_insert :: "bool \<Rightarrow> ('k, 'v) hashtable \<Rightarrow> 'k \<Rightarrow> 'v \<Rightarrow> int \<times> ('k, 'v) hashtable" where
  "hashtable_insert alloc_ok h k v =
     (if \<not> alloc_ok then (0, h)
      else let hv = hash h k; index = indexFor (tablelength h) hv;
               e = \<lparr>e_k = k, e_v = v, e_h = hv\<rparr>
           in (- 1, h\<lparr>table := (table h)[index := e # table h ! index]\<rparr>))"

text \<open>The loop over a bucket: the first entry whose stored hash and key match.\<close>

fun bucket_find :: "('k \<Rightarrow> 'k \<Rightarrow> bool) \<Rightarrow> u32 \<Rightarrow> 'k \<Rightarrow> ('k, 'v) hash_entry list \<Rightarrow>
    ('k, 'v) hash_entry option" where
  "bucket_find eqf hv k [] = None"
| "bucket_find eqf hv k (e # es) =
     (if hv = e_h e \<and> eqf k (e_k e) then Some e else bucket_find eqf hv k es)"

definition hashtable_search :: "('k, 'v) hashtable \<Rightarrow> 'k \<Rightarrow> 'v option" where
  "hashtable_search h k =
     (let hv = hash h k; index = indexFor (tablelength h) hv in
      map_option e_v (bucket_find (eqfn h) hv k (table h ! index)))"

definition hashtable_change :: "('k, 'v) hash_entry \<Rightarrow> 'v \<Rightarrow> ('k, 'v) hash_entry" where
  "hashtable_change e newv = e\<lparr>e_v := newv\<rparr>"

fun bucket_remove :: "('k \<Rightarrow> 'k \<Rightarrow> bool) \<Rightarrow> u32 \<Rightarrow> 'k \<Rightarrow> ('k, 'v) hash_entry list \<Rightarrow>
    ('k, 'v) hash_entry option \<times> ('k, 'v) hash_entry list" where
  "bucket_remove eqf hv k [] = (None, [])"
| "bucket_remove eqf hv k (e # es) =
     (if hv = e_h e \<and> eqf k (e_k e) then (Some e, es)
      else (case bucket_remove eqf hv k es of (r, es') \<Rightarrow> (r, e # es')))"

text \<open>The value, the key that is freed with its entry (if the table owns keys), and the table.\<close>

definition hashtable_remove :: "('k, 'v) hashtable \<Rightarrow> 'k \<Rightarrow>
    'v option \<times> 'k option \<times> ('k, 'v) hashtable" where
  "hashtable_remove h k =
     (let hv = hash h k; index = indexFor (tablelength h) (hash h k) in
      (case bucket_remove (eqfn h) hv k (table h ! index) of
         (None, _) \<Rightarrow> (None, None, h)
       | (Some e, es) \<Rightarrow>
           (Some (e_v e), if free_keys h then Some (e_k e) else None,
             h\<lparr>table := (table h)[index := es]\<rparr>)))"

text \<open>What \<open>hashtable_destroy\<close> releases, in order.\<close>

datatype ('k, 'v) h_free = FreeKey 'k | FreeValue 'v | FreeEntry "('k, 'v) hash_entry"
  | DestroyLock nat | FreeArrays

definition destroy_entry :: "('k, 'v) hashtable \<Rightarrow> bool \<Rightarrow> ('k, 'v) hash_entry \<Rightarrow> ('k, 'v) h_free list" where
  "destroy_entry h free_values f =
     (if free_keys h then [FreeKey (e_k f)] else []) @
     (if free_values then [FreeValue (e_v f)] else []) @ [FreeEntry f]"

definition hashtable_destroy :: "('k, 'v) hashtable \<Rightarrow> bool \<Rightarrow> ('k, 'v) h_free list" where
  "hashtable_destroy h free_values =
     concat (map (\<lambda>i. concat (map (destroy_entry h free_values) (table h ! i)))
       [0..<unat (tablelength h)]) @
     map DestroyLock [0..<unat (tablelength h)] @ [FreeArrays]"

subsection \<open>Invariant\<close>

text \<open>
  What the table relies on of its two function pointers: the comparison is an equivalence and
  the hash function respects it.
\<close>

definition keys_ok :: "('k \<Rightarrow> u32) \<Rightarrow> ('k \<Rightarrow> 'k \<Rightarrow> bool) \<Rightarrow> bool" where
  "keys_ok hf eqf \<longleftrightarrow> equivp eqf \<and> (\<forall>k l. eqf k l \<longrightarrow> hf k = hf l)"

definition ht_inv :: "('k, 'v) hashtable \<Rightarrow> bool" where
  "ht_inv h \<longleftrightarrow>
     keys_ok (hashfn h) (eqfn h) \<and> 0 < tablelength h \<and> length (table h) = unat (tablelength h) \<and>
     (\<forall>i<length (table h). \<forall>e\<in>set (table h ! i).
        e_h e = hash h (e_k e) \<and> indexFor (tablelength h) (e_h e) = i)"

lemma ht_inv_entry:
  "ht_inv h \<Longrightarrow> i < length (table h) \<Longrightarrow> e \<in> set (table h ! i) \<Longrightarrow>
    e_h e = hash h (e_k e) \<and> indexFor (tablelength h) (e_h e) = i"
  unfolding ht_inv_def by blast

lemma ht_inv_refl: "ht_inv h \<Longrightarrow> eqfn h k k"
  and ht_inv_sym: "ht_inv h \<Longrightarrow> eqfn h k l \<Longrightarrow> eqfn h l k"
  and ht_inv_trans: "ht_inv h \<Longrightarrow> eqfn h k l \<Longrightarrow> eqfn h l m \<Longrightarrow> eqfn h k m"
  unfolding ht_inv_def keys_ok_def by (blast dest: equivp_reflp equivp_symp equivp_transp)+

lemma hash_cong: "hashfn h k = hashfn h' l \<Longrightarrow> hash h k = hash h' l"
  by (simp add: hash_def)

lemma indexFor_less: "0 < n \<Longrightarrow> indexFor n hv < unat n"
  by (simp add: indexFor_def unat_mod_distrib word_less_nat_alt)

lemma ht_index_less: "ht_inv h \<Longrightarrow> indexFor (tablelength h) hv < length (table h)"
  by (simp add: ht_inv_def indexFor_less)

lemma ht_inv_hash: "ht_inv h \<Longrightarrow> eqfn h k l \<Longrightarrow> hash h k = hash h l"
  unfolding ht_inv_def keys_ok_def by (blast intro: hash_cong)

lemma bucket_find_cong:
  "(\<And>e. e \<in> set es \<Longrightarrow> eqf k (e_k e) = eqf l (e_k e)) \<Longrightarrow> bucket_find eqf hv k es = bucket_find eqf hv l es"
  by (induction es) auto

lemma bucket_remove_eq:
  "fst (bucket_remove eqf hv k es) = bucket_find eqf hv k es \<and>
   (bucket_find eqf hv k es = None \<longrightarrow> snd (bucket_remove eqf hv k es) = es)"
  by (induction es) (auto split: prod.splits)

lemma bucket_remove_set: "set (snd (bucket_remove eqf hv k es)) \<subseteq> set es"
  by (induction es) (auto split: prod.splits)

lemma bucket_remove_other:
  "(\<And>e. e \<in> set es \<Longrightarrow> eqf k (e_k e) \<Longrightarrow> \<not> eqf l (e_k e)) \<Longrightarrow>
    bucket_find eqf hv' l (snd (bucket_remove eqf hv k es)) = bucket_find eqf hv' l es"
  by (induction es) (auto split: prod.splits)

lemma bucket_remove_mset:
  "mset es = (case fst (bucket_remove eqf hv k es) of None \<Rightarrow> {#} | Some e \<Rightarrow> {#e#}) +
     mset (snd (bucket_remove eqf hv k es))"
  by (induction es) (auto split: prod.splits)

definition ht_add :: "('k, 'v) hashtable \<Rightarrow> 'k \<Rightarrow> 'v \<Rightarrow> ('k, 'v) hashtable" where
  "ht_add h k v = snd (hashtable_insert True h k v)"

definition ht_remove :: "('k, 'v) hashtable \<Rightarrow> 'k \<Rightarrow> 'v option \<times> ('k, 'v) hashtable" where
  "ht_remove h k = (case hashtable_remove h k of (v, _, h') \<Rightarrow> (v, h'))"

lemma ht_add_fields:
  "tablelength (ht_add h k v) = tablelength h" "hashfn (ht_add h k v) = hashfn h"
  "eqfn (ht_add h k v) = eqfn h" "free_keys (ht_add h k v) = free_keys h"
  "length (table (ht_add h k v)) = length (table h)" "hash (ht_add h k v) = hash h"
  by (simp_all add: ht_add_def hashtable_insert_def Let_def hash_def fun_eq_iff)

lemma ht_remove_fields:
  "tablelength (snd (ht_remove h k)) = tablelength h" "hashfn (snd (ht_remove h k)) = hashfn h"
  "eqfn (snd (ht_remove h k)) = eqfn h" "free_keys (snd (ht_remove h k)) = free_keys h"
  "length (table (snd (ht_remove h k))) = length (table h)" "hash (snd (ht_remove h k)) = hash h"
  by (auto simp: ht_remove_def hashtable_remove_def Let_def hash_def fun_eq_iff
      split: prod.splits option.splits)

lemma table_ht_add:
  "table (ht_add h k v) = (table h)[indexFor (tablelength h) (hash h k) :=
     \<lparr>e_k = k, e_v = v, e_h = hash h k\<rparr> # table h ! indexFor (tablelength h) (hash h k)]"
  by (simp add: ht_add_def hashtable_insert_def Let_def)

lemma table_ht_remove:
  "ht_inv h \<Longrightarrow> table (snd (ht_remove h k)) = (table h)[indexFor (tablelength h) (hash h k) :=
     snd (bucket_remove (eqfn h) (hash h k) k (table h ! indexFor (tablelength h) (hash h k)))]"
  using bucket_remove_eq [of "eqfn h" "hash h k" k "table h ! indexFor (tablelength h) (hash h k)"]
    ht_index_less [of h "hash h k"]
  by (auto simp: ht_remove_def hashtable_remove_def Let_def list_update_same_conv
      split: prod.splits option.splits)

lemma ht_inv_update:
  assumes inv: "ht_inv h" and fields: "tablelength h' = tablelength h" "hashfn h' = hashfn h" "eqfn h' = eqfn h"
    and tab: "table h' = (table h)[i := es]"
    and ok: "\<And>e. e \<in> set es \<Longrightarrow> e_h e = hash h (e_k e) \<and> indexFor (tablelength h) (e_h e) = i"
  shows "ht_inv h'"
proof -
  have hh: "hash h' = hash h" using fields by (simp add: hash_def fun_eq_iff)
  have entry: "e_h e = hash h (e_k e) \<and> indexFor (tablelength h) (e_h e) = j"
    if "j < length (table h)" "e \<in> set ((table h)[i := es] ! j)" for j e
    using that ht_inv_entry [OF inv, of j e] ok [of e] by (cases "j = i") auto
  have "keys_ok (hashfn h) (eqfn h) \<and> 0 < tablelength h \<and> length (table h) = unat (tablelength h)"
    using inv unfolding ht_inv_def by blast
  then show ?thesis
    unfolding ht_inv_def hh fields tab length_list_update using entry by blast
qed

lemma hashtable_search_alt:
  "hashtable_search h k =
    map_option e_v (bucket_find (eqfn h) (hash h k) k (table h ! indexFor (tablelength h) (hash h k)))"
  by (simp add: hashtable_search_def Let_def)

interpretation ht: key_table hashtable_search ht_add eqfn ht_inv
proof unfold_locales
  fix h :: "('k, 'v) hashtable" and k l :: 'k and v :: 'v
  assume inv: "ht_inv h"
  let ?i = "indexFor (tablelength h) (hash h k)" and ?j = "indexFor (tablelength h) (hash h l)"
  show "eqfn h k k" by (rule ht_inv_refl [OF inv])
  show "ht_inv (ht_add h k v)"
  proof (rule ht_inv_update [OF inv _ _ _ table_ht_add])
    show "e_h e = hash h (e_k e) \<and> indexFor (tablelength h) (e_h e) = ?i"
      if "e \<in> set (\<lparr>e_k = k, e_v = v, e_h = hash h k\<rparr> # table h ! ?i)" for e
      using that ht_inv_entry [OF inv ht_index_less [OF inv], of e] by auto
  qed (simp_all add: ht_add_fields)
  show "hashtable_search (ht_add h k v) l = (if eqfn h l k then Some v else hashtable_search h l)"
  proof (cases "eqfn h l k")
    case True
    then have "hash h l = hash h k" by (rule ht_inv_hash [OF inv])
    then show ?thesis
      using True ht_index_less [OF inv] by (simp add: hashtable_search_alt ht_add_fields table_ht_add)
  next
    case False
    then show ?thesis
      using ht_index_less [OF inv]
      by (cases "?i = ?j") (simp_all add: hashtable_search_alt ht_add_fields table_ht_add)
  qed
next
  fix h :: "('k, 'v) hashtable" and k l m :: 'k
  assume inv: "ht_inv h" and kl: "eqfn h k l"
  show "eqfn h l k" by (rule ht_inv_sym [OF inv kl])
  have "bucket_find (eqfn h) (hash h k) k es = bucket_find (eqfn h) (hash h k) l es"
    for es :: "('k, 'v) hash_entry list"
    by (intro bucket_find_cong) (metis inv kl ht_inv_sym ht_inv_trans)
  then show "hashtable_search h k = hashtable_search h l"
    using ht_inv_hash [OF inv kl] by (simp add: hashtable_search_alt)
  show "eqfn h k m" if "eqfn h l m"
    by (rule ht_inv_trans [OF inv kl that])
qed (simp add: ht_add_fields)

lemma ht_remove_result: "fst (ht_remove h k) = hashtable_search h k"
  using bucket_remove_eq [of "eqfn h" "hash h k" k "table h ! indexFor (tablelength h) (hash h k)"]
  by (cases "bucket_remove (eqfn h) (hash h k) k (table h ! indexFor (tablelength h) (hash h k))")
    (auto simp: ht_remove_def hashtable_remove_def hashtable_search_alt Let_def split: option.splits)

lemma bucket_remove_new:
  "hv = e_h e \<Longrightarrow> eqf l (e_k e) \<Longrightarrow> snd (bucket_remove eqf hv l (e # es)) = es"
  by simp

interpretation htr: key_table_remove hashtable_search ht_add eqfn ht_inv ht_remove
proof unfold_locales
  fix h :: "('k, 'v) hashtable" and k l m :: 'k and v :: 'v
  assume inv: "ht_inv h"
  let ?i = "indexFor (tablelength h) (hash h k)" and ?j = "indexFor (tablelength h) (hash h l)"
  show "fst (ht_remove h k) = hashtable_search h k" by (rule ht_remove_result)
  have "ht_inv (snd (ht_remove h k))"
  proof (rule ht_inv_update [OF inv _ _ _ table_ht_remove [OF inv]])
    show "e_h e = hash h (e_k e) \<and> indexFor (tablelength h) (e_h e) = ?i"
      if "e \<in> set (snd (bucket_remove (eqfn h) (hash h k) k (table h ! ?i)))" for e
      using that bucket_remove_set [of "eqfn h" "hash h k" k "table h ! ?i"]
        ht_inv_entry [OF inv ht_index_less [OF inv, of "hash h k"], of e] by blast
  qed (simp_all add: ht_remove_fields)
  then show "ht_inv (snd (ht_remove h k)) \<and> eqfn (snd (ht_remove h k)) = eqfn h"
    by (simp add: ht_remove_fields)
  show "hashtable_search (snd (ht_remove h k)) l = hashtable_search h l" if ne: "\<not> eqfn h l k"
  proof (cases "?i = ?j")
    case True
    have "bucket_find (eqfn h) (hash h l) l (snd (bucket_remove (eqfn h) (hash h k) k (table h ! ?i)))
        = bucket_find (eqfn h) (hash h l) l (table h ! ?i)"
      by (rule bucket_remove_other) (metis inv ne ht_inv_sym ht_inv_trans)
    then show ?thesis
      using True ht_index_less [OF inv]
      by (simp add: hashtable_search_alt ht_remove_fields table_ht_remove [OF inv])
  qed (simp add: hashtable_search_alt ht_remove_fields table_ht_remove [OF inv])
  show "hashtable_search (snd (ht_remove (ht_add h k v) l)) m = hashtable_search h m" if eq: "eqfn h l k"
  proof -
    have hl: "hash h l = hash h k" by (rule ht_inv_hash [OF inv eq])
    have inv': "ht_inv (ht_add h k v)" by (rule ht.add_inv [OF inv])
    have "table (snd (ht_remove (ht_add h k v) l)) = table h"
      using eq hl ht_index_less [OF inv, of "hash h k"]
      by (simp add: table_ht_remove [OF inv'] ht_add_fields table_ht_add)
    then show ?thesis by (simp add: hashtable_search_alt ht_remove_fields ht_add_fields)
  qed
qed

subsection \<open>Growing the table\<close>

text \<open>
  \<open>hashtable_expand\<close> (plan A) moves every entry, bucket by bucket from the head, to the head of
  its new bucket.
\<close>

fun expand_bucket :: "u32 \<Rightarrow> ('k, 'v) hash_entry list \<Rightarrow> ('k, 'v) hash_entry list list \<Rightarrow>
    ('k, 'v) hash_entry list list" where
  "expand_bucket newsize [] newtable = newtable"
| "expand_bucket newsize (e # es) newtable =
     (let index = indexFor newsize (e_h e) in
      expand_bucket newsize es (newtable[index := e # newtable ! index]))"

definition hashtable_expand :: "('k, 'v) hashtable \<Rightarrow> nat \<Rightarrow> int \<times> nat \<times> ('k, 'v) hashtable" where
  "hashtable_expand h primeindex =
     (if primeindex = length primes - 1 then (0, primeindex, h)
      else let newsize = primes ! (primeindex + 1) in
        (- 1, primeindex + 1,
         h\<lparr>table := foldl (\<lambda>t es. expand_bucket newsize es t) (replicate (unat newsize) []) (table h),
           tablelength := newsize\<rparr>))"

text \<open>
  Plan B, when the new array cannot be allocated but the old one can be enlarged: the code means to
  clear the new slots but passes \<open>memset\<close> the pointer stored in the first of them. That pointer is
  indeterminate, so the function does not reach its second loop.
\<close>

definition hashtable_expand_alloc :: "bool \<Rightarrow> bool \<Rightarrow> ('k, 'v) hashtable \<Rightarrow> nat \<Rightarrow> err + (int \<times> nat \<times> ('k, 'v) hashtable)" where
  "hashtable_expand_alloc malloc_ok realloc_ok h primeindex =
     (if primeindex = length primes - 1 \<or> malloc_ok then Inr (hashtable_expand h primeindex)
      else if \<not> realloc_ok then Inr (0, primeindex, h)
      else Inl BadAccess)"

definition same_bucket :: "u32 \<Rightarrow> nat \<Rightarrow> ('k, 'v) hash_entry \<Rightarrow> bool" where
  "same_bucket newsize i e \<longleftrightarrow> indexFor newsize (e_h e) = i"

lemma expand_bucket_nth:
  "0 < newsize \<Longrightarrow> length t = unat newsize \<Longrightarrow>
    length (expand_bucket newsize es t) = unat newsize \<and>
    (\<forall>i<unat newsize. expand_bucket newsize es t ! i = rev (filter (same_bucket newsize i) es) @ t ! i)"
proof (induction es arbitrary: t)
  case Nil
  then show ?case by simp
next
  case (Cons e es)
  let ?x = "indexFor newsize (e_h e)"
  have "?x < length t" using indexFor_less [OF Cons.prems(1)] Cons.prems(2) by simp
  then show ?case
    using Cons.IH [of "t[?x := e # t ! ?x]"] Cons.prems
    by (auto simp: Let_def same_bucket_def nth_list_update)
qed

lemma expand_fold_nth:
  "0 < newsize \<Longrightarrow> length t = unat newsize \<Longrightarrow>
    length (foldl (\<lambda>t es. expand_bucket newsize es t) t bs) = unat newsize \<and>
    (\<forall>i<unat newsize. foldl (\<lambda>t es. expand_bucket newsize es t) t bs ! i =
       rev (filter (same_bucket newsize i) (concat bs)) @ t ! i)"
proof (induction bs arbitrary: t)
  case Nil
  then show ?case by simp
next
  case (Cons b bs)
  then show ?case
    using expand_bucket_nth [OF Cons.prems, of b] by auto
qed

text \<open>Tables in which no two entries have equal keys.\<close>

definition unique_keys :: "('k, 'v) hashtable \<Rightarrow> bool" where
  "unique_keys h \<longleftrightarrow> (\<forall>x\<in>set (concat (table h)). \<forall>y\<in>set (concat (table h)).
     eqfn h (e_k x) (e_k y) \<longrightarrow> x = y)"

lemma bucket_find_Some: "bucket_find eqf hv k es = Some e \<Longrightarrow> e \<in> set es \<and> hv = e_h e \<and> eqf k (e_k e)"
  by (induction es) (auto split: if_splits)

lemma bucket_find_None: "bucket_find eqf hv k es = None \<Longrightarrow> e \<in> set es \<Longrightarrow> hv = e_h e \<Longrightarrow> \<not> eqf k (e_k e)"
  by (induction es) (auto split: if_splits)

lemma search_entries:
  assumes inv: "ht_inv h" and uniq: "unique_keys h"
  shows "hashtable_search h k = Some v \<longleftrightarrow> (\<exists>e\<in>set (concat (table h)). eqfn h k (e_k e) \<and> e_v e = v)"
proof -
  let ?i = "indexFor (tablelength h) (hash h k)"
  have i: "?i < length (table h)" by (rule ht_index_less [OF inv])
  have place: "e \<in> set (table h ! ?i) \<and> e_h e = hash h k"
    if e: "e \<in> set (concat (table h))" and eq: "eqfn h k (e_k e)" for e
  proof -
    obtain j where "j < length (table h)" "e \<in> set (table h ! j)"
      using e by (auto simp only: set_concat_nth)
    then show ?thesis
      using ht_inv_entry [OF inv, of j e] ht_inv_hash [OF inv eq] by metis
  qed
  have sub: "set (table h ! ?i) \<subseteq> set (concat (table h))" using i by fastforce
  show ?thesis
  proof
    assume "hashtable_search h k = Some v"
    then obtain e where "bucket_find (eqfn h) (hash h k) k (table h ! ?i) = Some e" "v = e_v e"
      by (auto simp: hashtable_search_alt)
    then show "\<exists>e\<in>set (concat (table h)). eqfn h k (e_k e) \<and> e_v e = v"
      using sub by (blast dest: bucket_find_Some)
  next
    assume "\<exists>e\<in>set (concat (table h)). eqfn h k (e_k e) \<and> e_v e = v"
    then obtain e where e: "e \<in> set (concat (table h))" "eqfn h k (e_k e)" "e_v e = v" by blast
    have "bucket_find (eqfn h) (hash h k) k (table h ! ?i) \<noteq> None"
      using bucket_find_None [of "eqfn h" "hash h k" k "table h ! ?i" e] place [OF e(1,2)] e(2) by metis
    then obtain f where f: "bucket_find (eqfn h) (hash h k) k (table h ! ?i) = Some f" by blast
    then have f2: "f \<in> set (concat (table h))" "eqfn h k (e_k f)"
      using bucket_find_Some [OF f] sub by auto
    have "eqfn h (e_k f) (e_k e)"
      by (rule ht_inv_trans [OF inv ht_inv_sym [OF inv f2(2)] e(2)])
    then have "f = e" using uniq e(1) f2(1) unfolding unique_keys_def by blast
    then show "hashtable_search h k = Some v" using f e(3) by (simp add: hashtable_search_alt)
  qed
qed

lemma hashtable_expand_table:
  assumes "ht_inv h" and "p < length primes - 1" and "hashtable_expand h p = (r, p', h')"
  shows "r = - 1 \<and> p' = p + 1 \<and> tablelength h' = primes ! (p + 1) \<and> hashfn h' = hashfn h \<and>
    eqfn h' = eqfn h \<and> length (table h') = unat (tablelength h') \<and> 0 < tablelength h' \<and>
    (\<forall>i<length (table h'). table h' ! i =
       rev (filter (same_bucket (tablelength h') i) (concat (table h))))"
proof -
  have pos: "\<forall>q\<in>set primes. 0 < q" by (simp add: primes_def)
  have n: "0 < primes ! (p + 1)"
    using assms(2) by (intro pos [rule_format] nth_mem) simp
  show ?thesis
    using assms expand_fold_nth [OF n, of "replicate (unat (primes ! (p + 1))) []" "table h"] n
    by (auto simp: hashtable_expand_def Let_def)
qed

lemma hashtable_expand_ok:
  assumes inv: "ht_inv h" and p: "p < length primes - 1" and ex: "hashtable_expand h p = (r, p', h')"
  shows "ht_inv h' \<and> set (concat (table h')) = set (concat (table h))"
proof -
  note t = hashtable_expand_table [OF assms]
  have hh: "hash h' = hash h" using t by (simp add: hash_def fun_eq_iff)
  have idx: "indexFor (tablelength h') hv < length (table h')" for hv
    using t indexFor_less [of "tablelength h'" hv] by metis
  have nth: "table h' ! i = rev (filter (same_bucket (tablelength h') i) (concat (table h)))"
    if "i < length (table h')" for i using t that by blast
  have eh: "e_h e = hash h (e_k e)" if e: "e \<in> set (concat (table h))" for e
  proof -
    obtain j where "j < length (table h)" "e \<in> set (table h ! j)"
      using e by (auto simp only: set_concat_nth)
    then show ?thesis using ht_inv_entry [OF inv, of j e] by simp
  qed
  have entry: "e_h e = hash h (e_k e) \<and> indexFor (tablelength h') (e_h e) = i"
    if "i < length (table h')" "e \<in> set (table h' ! i)" for i e
    using that(2) eh [of e] unfolding nth [OF that(1)] same_bucket_def by simp
  have "keys_ok (hashfn h') (eqfn h')" and "0 < tablelength h'"
    and "length (table h') = unat (tablelength h')"
    using inv t unfolding ht_inv_def by metis+
  then have "ht_inv h'"
    unfolding ht_inv_def hh using entry by blast
  moreover have "e \<in> set (concat (table h')) \<longleftrightarrow> e \<in> set (concat (table h))" for e
  proof
    assume "e \<in> set (concat (table h'))"
    then obtain i where "i < length (table h')" "e \<in> set (table h' ! i)"
      by (auto simp only: set_concat_nth)
    then show "e \<in> set (concat (table h))" using nth by simp
  next
    assume "e \<in> set (concat (table h))"
    then have "e \<in> set (table h' ! indexFor (tablelength h') (e_h e))"
      unfolding nth [OF idx] same_bucket_def by simp
    then show "e \<in> set (concat (table h'))"
      unfolding set_concat_nth using idx [of "e_h e"] by blast
  qed
  ultimately show ?thesis by blast
qed

text \<open>An example in which every key collides.\<close>

definition colliding :: "(u32, string) hashtable" where
  "colliding = \<lparr>tablelength = 53, table = replicate 53 [], hashfn = (\<lambda>_. 0), eqfn = (=), free_keys = False\<rparr>"

lemma colliding_inv: "ht_inv colliding"
  by (simp add: ht_inv_def colliding_def keys_ok_def identity_equivp)

lemma colliding_empty: "hashtable_search colliding k = None"
  using indexFor_less [of 53 "hash colliding k"] by (simp add: hashtable_search_alt colliding_def)

lemma concat_replicate_update: "i < n \<Longrightarrow> concat ((replicate n [])[i := xs]) = xs"
  by (induction n arbitrary: i) (auto split: nat.splits)

subsection \<open>Properties\<close>

lemma hashtable_create_spec:
  fixes hf :: "'k \<Rightarrow> u32"
  assumes "keys_ok hf eqf"
  shows "(minsize \<le> push_bit 30 1 \<longrightarrow>
      (\<exists>h :: ('k, 'v) hashtable. hashtable_create True minsize hf eqf fk = Some h \<and> ht_inv h \<and>
         minsize < tablelength h \<and> tablelength h \<in> set primes \<and>
         (\<forall>p\<in>set primes. minsize < p \<longrightarrow> tablelength h \<le> p) \<and>
         (\<forall>k. hashtable_search h k = None))) \<and>
    (push_bit 30 1 < minsize \<longrightarrow> hashtable_create True minsize hf eqf fk = (None :: ('k, 'v) hashtable option))"
proof -
  have choose: "snd (choose_prime ps m i d) = (case find (\<lambda>p. m < p) ps of None \<Rightarrow> d | Some p \<Rightarrow> p)"
    for ps m i d by (induction ps arbitrary: i) auto
  have least: "minsize < p \<longrightarrow> q \<le> p"
    if "sorted ps" "find (\<lambda>p. minsize < p) ps = Some q" "p \<in> set ps" for ps p q
    using that by (induction ps) (auto split: if_splits)
  have srt: "sorted primes" by (simp add: primes_def)
  obtain q where q: "find (\<lambda>p. minsize < p) primes = Some q" if "minsize \<le> push_bit 30 1"
  proof (cases "minsize \<le> push_bit 30 1")
    case True
    then have "minsize < 1610612741" by (rule order.strict_trans1) simp
    moreover have "1610612741 \<in> set primes" by (simp add: primes_def)
    ultimately have "find (\<lambda>p. minsize < p) primes \<noteq> None"
      by (auto simp: find_None_iff)
    then show ?thesis using that by blast
  qed auto
  show ?thesis
  proof (intro conjI impI)
    assume small: "minsize \<le> push_bit 30 1"
    note q = q [OF small]
    have m: "minsize < q" "q \<in> set primes"
      using q by (auto simp: find_Some_iff)
    define h :: "('k, 'v) hashtable" where "h = \<lparr>tablelength = q, table = replicate (unat q) [], hashfn = hf,
               eqfn = eqf, free_keys = fk\<rparr>"
    have cr: "hashtable_create True minsize hf eqf fk = Some h"
      using small q choose [of primes minsize 0 "hd primes"]
      by (auto simp: hashtable_create_def h_def split: prod.splits)
    have pos: "0 < q" using m(1) by (metis word_coorder.not_eq_extremum word_not_simps(1))
    have "indexFor q hv < unat q" for hv by (rule indexFor_less [OF pos])
    then have "hashtable_search h k = None" for k
      by (simp add: hashtable_search_alt h_def)
    moreover have "ht_inv h"
      using assms pos by (simp add: ht_inv_def h_def)
    ultimately show "\<exists>h :: ('k, 'v) hashtable. hashtable_create True minsize hf eqf fk = Some h \<and> ht_inv h \<and>
         minsize < tablelength h \<and> tablelength h \<in> set primes \<and>
         (\<forall>p\<in>set primes. minsize < p \<longrightarrow> tablelength h \<le> p) \<and>
         (\<forall>k. hashtable_search h k = None)"
      using cr m least [OF srt q] by (intro exI [of _ h]) (simp add: h_def)
  qed (simp add: hashtable_create_def)
qed

lemma hashtable_create_fresh:
  assumes "keys_ok hf eqf" and "minsize \<le> push_bit 30 1"
  obtains h :: "('k, 'v) hashtable" where "hashtable_create True minsize hf eqf fk = Some h"
    "ht_inv h" "eqfn h = eqf" "\<And>k. hashtable_search h k = None"
proof -
  obtain h :: "('k, 'v) hashtable" where h: "hashtable_create True minsize hf eqf fk = Some h" "ht_inv h"
    "\<forall>k. hashtable_search h k = None"
    using hashtable_create_spec [OF assms(1), of minsize fk] assms(2) by blast
  moreover have "eqfn h = eqf"
    using h(1) by (auto simp: hashtable_create_def split: if_splits prod.splits)
  ultimately show thesis using that by blast
qed

text \<open>
  C25. A table is created for every requested size up to $2^{30}$, with more buckets than
  requested, a length from the table of primes, and no entry; larger requests are refused.
\<close>

theorem hashtable_create_size:
  fixes hf :: "'k \<Rightarrow> u32"
  assumes "keys_ok hf eqf"
  shows "(minsize \<le> push_bit 30 1 \<longrightarrow>
      (\<exists>h :: ('k, 'v) hashtable. hashtable_create True minsize hf eqf fk = Some h \<and> ht_inv h \<and>
         minsize < tablelength h \<and> tablelength h \<in> set primes \<and>
         (\<forall>p\<in>set primes. minsize < p \<longrightarrow> tablelength h \<le> p) \<and>
         (\<forall>k. hashtable_search h k = None))) \<and>
    (push_bit 30 1 < minsize \<longrightarrow> hashtable_create True minsize hf eqf fk = (None :: ('k, 'v) hashtable option))"
  by (rule hashtable_create_spec [OF assms])

theorem hashtable_create_size_witness:
  "\<exists>h. hashtable_create True 65536 (\<lambda>k. k) (=) True = (Some h :: (u32, nat) hashtable option) \<and>
    65536 < tablelength h"
  using hashtable_create_size [of "\<lambda>k. k" "(=)" 65536 True]
  by (auto simp: keys_ok_def identity_equivp)

text \<open>
  C17. After any sequence of lookups that add missing keys, starting from a table where the key is
  absent, a search returns the value stored with the first equal key of the sequence, whatever
  the hash function and the collisions.
\<close>

theorem hashtable_first_value:
  assumes "ht_inv h" and "hashtable_search h l = None"
  shows "hashtable_search (snd (ht.run h xs)) l = map_option snd (find (\<lambda>(k, v). eqfn h l k) xs)"
  by (rule ht.run_search [OF assms])

theorem hashtable_first_value_witness:
  "hashtable_search (snd (ht.run colliding [(1::u32, ''a''), (2, ''b''), (1, ''c'')])) 1 = Some ''a''"
  using hashtable_first_value [OF colliding_inv colliding_empty, of "[(1, ''a''), (2, ''b''), (1, ''c'')]" 1]
  by (simp add: colliding_def)

text \<open>
  Removing a key returns the value a search would have returned and leaves every other key
  alone; removing a key right after adding it restores the answers of the table before.
\<close>

theorem hashtable_remove_key:
  assumes "ht_inv h"
  shows "fst (hashtable_remove h k) = hashtable_search h k \<and>
    (\<forall>l. \<not> eqfn h l k \<longrightarrow> hashtable_search (snd (snd (hashtable_remove h k))) l = hashtable_search h l) \<and>
    (\<forall>v m. hashtable_search (snd (snd (hashtable_remove (snd (hashtable_insert True h k v)) k))) m =
       hashtable_search h m) \<and>
    ht_inv (snd (snd (hashtable_remove h k)))"
proof -
  have eq: "ht_remove g k = (fst (hashtable_remove g k), snd (snd (hashtable_remove g k)))"
    for g :: "('a, 'b) hashtable"
    by (simp add: ht_remove_def split_beta)
  have add: "snd (hashtable_insert True h k v) = ht_add h k v" for v by (simp add: ht_add_def)
  show ?thesis
    unfolding add using htr.remove_result [OF assms, of k] htr.remove_inv [OF assms, of k]
      htr.remove_other [OF assms, of _ k] htr.remove_add [OF assms ht_inv_refl [OF assms], of k]
    unfolding eq by simp
qed

theorem hashtable_remove_key_witness:
  "hashtable_search (snd (snd (hashtable_remove (snd (hashtable_insert True colliding 7 ''x'')) 7))) 8 = None"
  using hashtable_remove_key [OF colliding_inv, of 7] colliding_empty [of 8] by simp

text \<open>
  C24. Growing the table to the next prime moves every entry to its new bucket, loses and invents
  none, and, when no two entries have equal keys, changes the answer of no search.
\<close>

theorem hashtable_expand_search:
  assumes "ht_inv h" and "unique_keys h" and "p < length primes - 1"
    and "hashtable_expand h p = (r, p', h')"
  shows "r = - 1 \<and> ht_inv h' \<and> tablelength h' = primes ! p' \<and>
    set (concat (table h')) = set (concat (table h)) \<and>
    (\<forall>k. hashtable_search h' k = hashtable_search h k)"
proof -
  note t = hashtable_expand_table [OF assms(1,3,4)]
  note ok = hashtable_expand_ok [OF assms(1,3,4)]
  have eqf: "eqfn h' = eqfn h" using t by blast
  have uniq: "unique_keys h'"
    using assms(2) ok eqf unfolding unique_keys_def by metis
  have "hashtable_search h' k = Some v \<longleftrightarrow> hashtable_search h k = Some v" for k v
    unfolding search_entries [OF conjunct1 [OF ok] uniq] search_entries [OF assms(1,2)]
    using ok eqf by metis
  then have "hashtable_search h' k = hashtable_search h k" for k
    by (metis not_None_eq)
  then show ?thesis using t ok by blast
qed

theorem hashtable_expand_search_witness:
  "\<exists>h'. snd (snd (hashtable_expand (snd (hashtable_insert True colliding 7 ''x'')) 0)) = h' \<and>
    tablelength h' = 97 \<and> hashtable_search h' 7 = Some ''x''"
proof -
  let ?h = "ht_add colliding 7 ''x''"
  obtain r p' h' where ex: "hashtable_expand ?h 0 = (r, p', h')" by (metis prod_cases3)
  have inv: "ht_inv ?h" by (rule ht.add_inv [OF colliding_inv])
  have i: "indexFor 53 (hash colliding 7) < 53" using indexFor_less [of 53] by simp
  have "concat (table ?h) = [\<lparr>e_k = 7, e_v = ''x'', e_h = hash colliding 7\<rparr>]"
    using i by (simp add: table_ht_add colliding_def concat_replicate_update)
  then have "unique_keys ?h" by (simp add: unique_keys_def ht_add_fields)
  then have "tablelength h' = primes ! p' \<and> hashtable_search h' 7 = hashtable_search ?h 7"
    using hashtable_expand_search [OF inv _ _ ex] by (simp add: primes_def)
  moreover have "hashtable_search ?h 7 = Some ''x''"
    using ht.search_add [OF colliding_inv, of 7 "''x''" 7] by (simp add: colliding_def)
  moreover have "p' = 1"
    using hashtable_expand_table [OF inv _ ex] by (simp add: primes_def)
  ultimately show ?thesis using ex by (simp add: ht_add_def primes_def)
qed

text \<open>
  Destroying the table releases every entry exactly once, and the keys (values) exactly when
  the table owns its keys (the caller asks for it); every bucket lock is destroyed.
\<close>

theorem hashtable_destroy_all:
  assumes "ht_inv h"
  shows "mset (hashtable_destroy h fv) =
    image_mset FreeEntry (mset (concat (table h))) +
    (if free_keys h then image_mset (\<lambda>e. FreeKey (e_k e)) (mset (concat (table h))) else {#}) +
    (if fv then image_mset (\<lambda>e. FreeValue (e_v e)) (mset (concat (table h))) else {#}) +
    image_mset DestroyLock (mset [0..<length (table h)]) + {#FreeArrays#}"
proof -
  have len: "unat (tablelength h) = length (table h)" using assms by (simp add: ht_inv_def)
  have "map (\<lambda>i. concat (map f (table h ! i))) [0..<length (table h)] = map (\<lambda>es. concat (map f es)) (table h)"
    for f :: "('a, 'b) hash_entry \<Rightarrow> ('a, 'b) h_free list"
    by (rule nth_equalityI) auto
  moreover have "mset (concat (map (\<lambda>es. concat (map (destroy_entry h fv) es)) tb)) =
    image_mset FreeEntry (mset (concat tb)) +
    (if free_keys h then image_mset (\<lambda>e. FreeKey (e_k e)) (mset (concat tb)) else {#}) +
    (if fv then image_mset (\<lambda>e. FreeValue (e_v e)) (mset (concat tb)) else {#})" for tb
  proof (induction tb)
    case (Cons es tb)
    have "mset (concat (map (destroy_entry h fv) es)) = image_mset FreeEntry (mset es) +
      (if free_keys h then image_mset (\<lambda>e. FreeKey (e_k e)) (mset es) else {#}) +
      (if fv then image_mset (\<lambda>e. FreeValue (e_v e)) (mset es) else {#})"
      by (induction es) (auto simp: destroy_entry_def)
    then show ?case using Cons by simp
  qed simp
  ultimately show ?thesis
    unfolding hashtable_destroy_def len by simp
qed

theorem hashtable_destroy_all_witness:
  "mset (hashtable_destroy colliding True) =
    image_mset DestroyLock (mset [0..<length (table colliding)]) + {#FreeArrays#}"
  using hashtable_destroy_all [OF colliding_inv, of True] by (simp add: colliding_def)

end
