(* ===== verification/Proc.thy ===== *)
theory Proc
  imports Prelude
begin

text \<open>
  Threads over a shared state. The sequential code of a stage is a value of type \<open>proc\<close>: it
  returns, fails (a failed assertion or \<open>EXIT_TRACE\<close>), or performs one atomic action (a
  critical section of the source) and continues with its result. The same value is run alone
  or interleaved with others. The locale is the interface the shared state offers to
  reasoning about one thread while others run: an invariant, and for every thread the changes
  its environment may make.
\<close>

datatype ('act, 'res, 'a) proc =
    Ret 'a
  | Fail err
  | Act 'act "'res \<Rightarrow> ('act, 'res, 'a) proc"

primrec bind :: "('act, 'res, 'a) proc \<Rightarrow> ('a \<Rightarrow> ('act, 'res, 'b) proc) \<Rightarrow> ('act, 'res, 'b) proc" where
  "bind (Ret v) f = f v"
| "bind (Fail e) f = Fail e"
| "bind (Act a k) f = Act a (\<lambda>r. bind (k r) f)"

lemma bind_Ret: "bind p Ret = p"
  by (induction p) auto

lemma bind_assoc: "bind (bind p f) g = bind p (\<lambda>v. bind (f v) g)"
  by (induction p) auto

text \<open>A pure computation that may fail, as a thread.\<close>

definition lift_sum :: "err + 'a \<Rightarrow> ('act, 'res, 'a) proc" where
  "lift_sum x = (case x of Inl e \<Rightarrow> Fail e | Inr v \<Rightarrow> Ret v)"

text \<open>What an atomic action does: it cannot proceed yet, ends the program, or succeeds.\<close>

datatype ('res, 's) outcome = Blocked | Crash err | Step 'res 's

text \<open>Running a thread alone; \<open>Inl None\<close> is a thread that waits for ever.\<close>

primrec run_alone :: "('act \<Rightarrow> 's \<Rightarrow> ('res, 's) outcome) \<Rightarrow> ('act, 'res, 'a) proc \<Rightarrow> 's \<Rightarrow>
    err option + ('a \<times> 's)" where
  "run_alone ex (Ret v) s = Inr (v, s)"
| "run_alone ex (Fail e) s = Inl (Some e)"
| "run_alone ex (Act a k) s =
     (case ex a s of Blocked \<Rightarrow> Inl None | Crash e \<Rightarrow> Inl (Some e) | Step r s' \<Rightarrow> run_alone ex (k r) s')"

lemma run_alone_bind:
  "run_alone ex (bind p f) s =
    (case run_alone ex p s of Inl e \<Rightarrow> Inl e | Inr (v, s') \<Rightarrow> run_alone ex (f v) s')"
  by (induction p arbitrary: s) (auto split: outcome.splits)

text \<open>
  \<open>ex i\<close> is the action handler as thread \<open>i\<close> uses it, \<open>inv\<close> the invariant of the shared
  state, \<open>env i\<close> the changes other threads may make while thread \<open>i\<close> is at rest, and \<open>may i\<close>
  the actions the protocol allows thread \<open>i\<close>: that thread \<open>i\<close> keeps to it is part of \<open>safe\<close>.
\<close>

locale shared_state =
  fixes ex :: "nat \<Rightarrow> 'act \<Rightarrow> 's \<Rightarrow> ('res, 's) outcome"
    and inv :: "'s \<Rightarrow> bool"
    and env :: "nat \<Rightarrow> 's \<Rightarrow> 's \<Rightarrow> bool"
    and may :: "nat \<Rightarrow> 'act \<Rightarrow> 's \<Rightarrow> bool"
  assumes env_refl: "inv s \<Longrightarrow> env i s s"
    and env_trans: "env i s t \<Longrightarrow> env i t u \<Longrightarrow> env i s u"
    and env_inv: "env i s t \<Longrightarrow> inv s \<Longrightarrow> inv t"
    and ex_env: "inv s \<Longrightarrow> ex j a s = Step r t \<Longrightarrow> may j a s \<Longrightarrow> i \<noteq> j \<Longrightarrow> inv t \<Longrightarrow> env i s t"
begin

text \<open>
  \<open>safe i n p Q s\<close>: from state \<open>s\<close>, whatever the other threads do, thread \<open>i\<close> running \<open>p\<close>
  never fails nor blocks, keeps the invariant, performs at most \<open>n\<close> actions, and returns with
  \<open>Q\<close>.
\<close>

primrec safe :: "('act, 'res, 'a) proc \<Rightarrow> nat \<Rightarrow> nat \<Rightarrow> ('a \<Rightarrow> 's \<Rightarrow> bool) \<Rightarrow> 's \<Rightarrow> bool" where
  "safe (Ret v) = (\<lambda>i n Q s. Q v s)"
| "safe (Fail e) = (\<lambda>i n Q s. False)"
| "safe (Act a k) = (\<lambda>i n Q s. 0 < n \<and> (\<forall>t. env i s t \<longrightarrow>
     (\<exists>r u. ex i a t = Step r u \<and> may i a t \<and> inv u \<and> safe (k r) i (n - 1) Q u)))"

definition stable :: "nat \<Rightarrow> ('a \<Rightarrow> 's \<Rightarrow> bool) \<Rightarrow> bool" where
  "stable i Q \<longleftrightarrow> (\<forall>v s t. Q v s \<longrightarrow> env i s t \<longrightarrow> Q v t)"

lemma stableD: "stable i Q \<Longrightarrow> Q v s \<Longrightarrow> env i s t \<Longrightarrow> Q v t"
  by (simp add: stable_def)

lemma safe_env: "stable i Q \<Longrightarrow> safe p i n Q s \<Longrightarrow> env i s t \<Longrightarrow> safe p i n Q t"
  by (cases p) (auto dest: stableD env_trans)

lemma safe_weaken:
  "safe p i n Q s \<Longrightarrow> n \<le> m \<Longrightarrow> (\<And>v t. Q v t \<Longrightarrow> Q' v t) \<Longrightarrow> safe p i m Q' s"
proof (induction p arbitrary: n m s)
  case (Act a k)
  have "\<exists>r u. ex i a t = Step r u \<and> may i a t \<and> inv u \<and> safe (k r) i (m - 1) Q' u" if t: "env i s t" for t
  proof -
    obtain r u where "ex i a t = Step r u" "may i a t" "inv u" "safe (k r) i (n - 1) Q u"
      using Act.prems(1) t by auto
    then show ?thesis using Act.IH [of "k r" "n - 1" u "m - 1"] Act.prems(2,3) by auto
  qed
  then show ?case using Act.prems(1,2) by auto
qed auto

lemma safe_bind:
  "safe p i n Q s \<Longrightarrow> (\<And>v t. Q v t \<Longrightarrow> safe (f v) i m Q' t) \<Longrightarrow> safe (bind p f) i (n + m) Q' s"
proof (induction p arbitrary: n s)
  case (Ret v)
  then have "safe (f v) i m Q' s" by simp
  then have "safe (f v) i (n + m) Q' s" by (rule safe_weaken) auto
  then show ?case by simp
next
  case (Act a k)
  have "\<exists>r u. ex i a t = Step r u \<and> may i a t \<and> inv u \<and> safe (bind (k r) f) i (n + m - 1) Q' u" if t: "env i s t" for t
  proof -
    obtain r u where "ex i a t = Step r u" "may i a t" "inv u" "safe (k r) i (n - 1) Q u" and "0 < n"
      using Act.prems(1) t by auto
    then show ?thesis using Act.IH [of "k r" "n - 1" u] Act.prems(2) by auto
  qed
  then show ?case using Act.prems(1) by auto
qed auto

lemma safe_action:
  assumes "inv s" and "safe (Act a k) i n Q s"
  shows "\<exists>r u m. n = Suc m \<and> ex i a s = Step r u \<and> may i a s \<and> inv u \<and> safe (k r) i m Q u"
  using assms env_refl [OF assms(1), of i] by (cases n) auto

lemma safe_ActI:
  assumes "\<And>t. env i s t \<Longrightarrow>
    \<exists>r u. ex i a t = Step r u \<and> may i a t \<and> inv u \<and> safe (k r) i n Q u"
  shows "safe (Act a k) i (Suc n) Q s"
  using assms by simp

text \<open>A single action whose effect is known in every state the environment can reach.\<close>

lemma safe_act:
  assumes "\<And>t. env i s t \<Longrightarrow> \<exists>r u. ex i a t = Step r u \<and> may i a t \<and> inv u \<and> Q r u"
  shows "safe (Act a Ret) i 1 Q s"
  using assms by simp

end

end
