(* ===== verification/DedupKernel.thy ===== *)
theory DedupKernel
  imports DedupTypes Hashtable Proc
begin

text \<open>
  The kernels of the encoder stages (\<open>encoder_ff_ofarm.cpp\<close>, first half; the other encoder
  variants repeat them): statistics, the record format of the output file, and the critical
  sections \<open>sub_Deduplicate\<close>, \<open>sub_Compress\<close> and \<open>write_chunk_to_file\<close> as atomic actions on the
  shared state. A chunk is owned by one thread until \<open>sub_Deduplicate\<close> publishes it in the
  hash table; that is where the model gives it an address in the shared store.
\<close>

subsection \<open>Code that is not part of the repository\<close>

text \<open>
  The Rabin fingerprint functions, SHA-1, the compression libraries, the write helpers and the
  allocator are parameters.
\<close>

type_synonym rabin_tabs = "u32 list \<times> u32 list"

record ext =
  rabininit :: "int \<Rightarrow> rabin_tabs"
  rabinseg :: "byte list \<Rightarrow> int \<Rightarrow> rabin_tabs \<Rightarrow> int"
  SHA1_Digest :: "byte list \<Rightarrow> u32 list"
  zcompress :: "byte list \<Rightarrow> nat \<Rightarrow> int \<times> byte list"
  bzcompress :: "byte list \<Rightarrow> nat \<Rightarrow> int \<times> byte list"
  xwrite :: "byte list \<Rightarrow> byte list \<Rightarrow> int \<times> byte list"
  write_header :: "byte list \<Rightarrow> int \<Rightarrow> int \<times> byte list"
  malloc_ok :: "nat \<Rightarrow> bool"

text \<open>
  \<open>malloc_ok\<close> tells for which sizes \<open>malloc\<close> returns a block; the sizes of the two structures and of
  a table of 256 fingerprints are those of 64-bit GNU/Linux.
\<close>

definition sizeof_chunk_t :: nat where "sizeof_chunk_t = 192"
definition sizeof_stats_t :: nat where "sizeof_stats_t = 1064"
definition sizeof_rabintab :: nat where "sizeof_rabintab = 256 * 4"

subsection \<open>Statistics\<close>

record stats_t =
  total_input :: u64
  total_dedup :: u64
  total_compressed :: u64
  total_output :: u64
  nChunks :: "u32 list"
  nDuplicates :: u32

definition CHUNK_GRANULARITY_POW :: nat where "CHUNK_GRANULARITY_POW = 7"
definition CHUNK_MAX_NUM :: nat where "CHUNK_MAX_NUM = 8 * 32"

definition CHUNK_SIZE_TO_SLOT :: "nat \<Rightarrow> nat" where
  "CHUNK_SIZE_TO_SLOT s =
     (if CHUNK_MAX_NUM \<le> s div 2 ^ CHUNK_GRANULARITY_POW then CHUNK_MAX_NUM - 1
      else s div 2 ^ CHUNK_GRANULARITY_POW)"

definition SLOT_TO_CHUNK_SIZE :: "nat \<Rightarrow> nat" where
  "SLOT_TO_CHUNK_SIZE s = s * 2 ^ CHUNK_GRANULARITY_POW + 2 ^ (CHUNK_GRANULARITY_POW - 1)"

definition init_stats :: stats_t where
  "init_stats = \<lparr>total_input = 0, total_dedup = 0, total_compressed = 0, total_output = 0,
     nChunks = replicate CHUNK_MAX_NUM 0, nDuplicates = 0\<rparr>"

definition merge_stats :: "stats_t \<Rightarrow> stats_t \<Rightarrow> stats_t" where
  "merge_stats s1 s2 =
     \<lparr>total_input = total_input s1 + total_input s2,
      total_dedup = total_dedup s1 + total_dedup s2,
      total_compressed = total_compressed s1 + total_compressed s2,
      total_output = total_output s1 + total_output s2,
      nChunks = map (\<lambda>i. nChunks s1 ! i + nChunks s2 ! i) [0..<CHUNK_MAX_NUM],
      nDuplicates = nDuplicates s1 + nDuplicates s2\<rparr>"

definition count_chunk :: "nat \<Rightarrow> stats_t \<Rightarrow> stats_t" where
  "count_chunk n s = s\<lparr>nChunks :=
     (nChunks s)[CHUNK_SIZE_TO_SLOT n := nChunks s ! CHUNK_SIZE_TO_SLOT n + 1]\<rparr>"

text \<open>
  The loop of \<open>print_stats\<close> that selects the unit: \<open>k\<close> rounds remain, \<open>unit_div_next\<close> is a
  32-bit variable, and a division by zero ends the program.
\<close>

fun select_unit :: "stats_t \<Rightarrow> nat \<Rightarrow> nat \<Rightarrow> u64 \<Rightarrow> err + (nat \<times> u64)" where
  "select_unit s 0 unit_idx unit_div = Inr (unit_idx, unit_div)"
| "select_unit s (Suc k) unit_idx unit_div =
     (let unit_div_next = (ucast (unit_div * 1024) :: u32) in
      if unit_div_next = 0 then Inl DivByZero
      else if total_input s div (ucast unit_div_next :: u64) = 0 then Inr (unit_idx, unit_div)
      else if total_dedup s div (ucast unit_div_next :: u64) = 0 then Inr (unit_idx, unit_div)
      else if total_compressed s div (ucast unit_div_next :: u64) = 0 then Inr (unit_idx, unit_div)
      else if total_output s div (ucast unit_div_next :: u64) = 0 then Inr (unit_idx, unit_div)
      else select_unit s k (unit_idx + 1) ((ucast unit_div_next :: u64)))"

definition print_stats_unit :: "stats_t \<Rightarrow> err + (nat \<times> u64)" where
  "print_stats_unit s = select_unit s 7 0 1"

subsection \<open>The output file\<close>

text \<open>Integers are stored in the byte order of the machine the code runs on, little endian.\<close>

primrec le_encode :: "nat \<Rightarrow> nat \<Rightarrow> byte list" where
  "le_encode 0 n = []"
| "le_encode (Suc k) n = of_nat (n mod 256) # le_encode k (n div 256)"

fun le_decode :: "byte list \<Rightarrow> nat" where
  "le_decode [] = 0"
| "le_decode (b # bs) = unat b + 256 * le_decode bs"

definition sha1_bytes :: "u32 list \<Rightarrow> byte list" where
  "sha1_bytes ws = concat (map (\<lambda>w. le_encode 4 (unat w)) ws)"

definition write_file :: "ext \<Rightarrow> byte list \<Rightarrow> byte \<Rightarrow> nat \<Rightarrow> byte list \<Rightarrow> err + byte list" where
  "write_file X f type n content =
     (case xwrite X f [type] of (r, f) \<Rightarrow>
        if r < 0 then Inl (ExitTrace ''xwrite type fails'')
        else (case xwrite X f (le_encode 8 n) of (r, f) \<Rightarrow>
          if r < 0 then Inl (ExitTrace ''xwrite content fails'')
          else (case xwrite X f (take n content) of (r, f) \<Rightarrow>
            if r < 0 then Inl (ExitTrace ''xwrite content fails'') else Inr f)))"

definition create_output_file :: "ext \<Rightarrow> bool \<Rightarrow> int \<Rightarrow> err + byte list" where
  "create_output_file X open_ok ctype =
     (if \<not> open_ok then Inl (ExitTrace ''Cannot open output file.'')
      else (case write_header X [] ctype of (r, f) \<Rightarrow>
        if r \<noteq> 0 then Inl (ExitTrace ''Cannot write output file header.'') else Inr f))"

subsection \<open>The shared state\<close>

text \<open>
  \<open>orig\<close>, \<open>owner\<close> and \<open>written\<close> are history variables: the bytes a chunk had when it was
  published, the thread that published it, and the chunks written so far. No operation reads
  them.
\<close>

record shared =
  chunks :: "nat \<Rightarrow> chunk_t option"
  next_chunk :: nat
  cache :: "(u32 list, nat) hashtable"
  outf :: "byte list"
  orig :: "nat \<Rightarrow> byte list"
  owner :: "nat \<Rightarrow> nat"
  written :: "nat list"

datatype act = ADedup chunk_t | ARead nat | ACompress nat | AWrite nat

datatype res = RUnit | RDedup bool nat | RChunk chunk_t

definition hash_from_key_fn :: "u32 list \<Rightarrow> u32" where
  "hash_from_key_fn k = k ! 0"

definition keys_equal_fn :: "u32 list \<Rightarrow> u32 list \<Rightarrow> bool" where
  "keys_equal_fn k1 k2 \<longleftrightarrow> k1 = k2"

definition put_chunk :: "nat \<Rightarrow> chunk_t \<Rightarrow> shared \<Rightarrow> shared" where
  "put_chunk a c sh = sh\<lparr>chunks := (chunks sh)(a \<mapsto> c)\<rparr>"

definition sub_Deduplicate :: "ext \<Rightarrow> nat \<Rightarrow> chunk_t \<Rightarrow> shared \<Rightarrow> (res, shared) outcome" where
  "sub_Deduplicate X i chunk sh =
     (if mb_ptr (uncompressed_data chunk) = None then Crash AssertFailed
      else let chunk = chunk\<lparr>sha1 := SHA1_Digest X (chunk_bytes chunk)\<rparr>;
               a = next_chunk sh;
               sh = sh\<lparr>next_chunk := a + 1, orig := (orig sh)(a := chunk_bytes chunk),
                       owner := (owner sh)(a := i)\<rparr> in
        (case hashtable_search (cache sh) (sha1 chunk) of
           None \<Rightarrow>
             (case hashtable_insert (malloc_ok X 24) (cache sh) (sha1 chunk) a of (r, h) \<Rightarrow>
                if r = 0 then Crash (ExitTrace ''hashtable_insert failed'')
                else Step (RDedup False a)
                  (put_chunk a (chunk\<lparr>isDuplicate := False\<rparr>) (sh\<lparr>cache := h\<rparr>)))
         | Some entry \<Rightarrow>
             Step (RDedup True a)
               (put_chunk a (chunk\<lparr>isDuplicate := True, compressed_data_ref := entry,
                  uncompressed_data := mbuf_free (uncompressed_data chunk)\<rparr>) sh)))"

text \<open>
  The three ways \<open>sub_Compress\<close> fills the compressed buffer. For BZIP2 the code converts \<open>n\<close> to an
  \<open>unsigned int\<close> and back; with the inputs below 2 GiB of the theorems about runs \<open>n\<close> keeps its value,
  and the conversion is left out.
\<close>

definition compress_data :: "ext \<Rightarrow> config_t \<Rightarrow> byte list \<Rightarrow> err + mbuf" where
  "compress_data X conf src =
     (let shrink = (\<lambda>cap out. if length out < cap then
            (if length out = 0 then Inl AssertFailed else Inr (mbuf_of out))
          else Inr \<lparr>mb_ptr = Some out, mb_len = cap\<rparr>) in
      if compress_type conf = COMPRESS_NONE then
        (let n = length src in
         if n = 0 then Inl AssertFailed
         else if \<not> malloc_ok X n then Inl (ExitTrace ''Creation of compression buffer failed.'')
         else Inr (mbuf_of src))
      else if compress_type conf = COMPRESS_GZIP \<and> gzip_enabled conf then
        (let n = length src + length src div 2 ^ 9 + 12 in
         if \<not> malloc_ok X n then Inl (ExitTrace ''Creation of compression buffer failed.'')
         else (case zcompress X src n of (r, out) \<Rightarrow>
           if r \<noteq> 0 then Inl (ExitTrace ''Compression failed'') else shrink n out))
      else if compress_type conf = COMPRESS_BZIP2 \<and> bzip2_enabled conf then
        (let n = length src + length src div 2 ^ 6 + 600 in
         if \<not> malloc_ok X n then Inl (ExitTrace ''Creation of compression buffer failed.'')
         else (case bzcompress X src n of (r, out) \<Rightarrow>
           if r \<noteq> 0 then Inl (ExitTrace ''Compression failed'') else shrink n out))
      else Inl (ExitTrace ''Compression type not implemented.''))"

definition sub_Compress :: "ext \<Rightarrow> config_t \<Rightarrow> nat \<Rightarrow> shared \<Rightarrow> (res, shared) outcome" where
  "sub_Compress X conf a sh =
     (case chunks sh a of None \<Rightarrow> Crash BadAccess
      | Some chunk \<Rightarrow>
        if state chunk \<noteq> CHUNK_STATE_UNCOMPRESSED then Crash AssertFailed
        else (case mb_ptr (uncompressed_data chunk) of None \<Rightarrow> Crash BadAccess
          | Some src \<Rightarrow>
            (case compress_data X conf src of Inl e \<Rightarrow> Crash e
              | Inr z \<Rightarrow> Step RUnit (put_chunk a (chunk\<lparr>compressed_data := z,
                   uncompressed_data := mbuf_free (uncompressed_data chunk),
                   state := CHUNK_STATE_COMPRESSED\<rparr>) sh))))"

definition write_chunk_to_file :: "ext \<Rightarrow> nat \<Rightarrow> shared \<Rightarrow> (res, shared) outcome" where
  "write_chunk_to_file X a sh =
     (case chunks sh a of None \<Rightarrow> Crash BadAccess
      | Some c \<Rightarrow>
        let b = (if isDuplicate c then compressed_data_ref c else a) in
        (case chunks sh b of None \<Rightarrow> Crash BadAccess
         | Some chunk \<Rightarrow>
           (case state chunk of
              CHUNK_STATE_UNCOMPRESSED \<Rightarrow> Blocked
            | CHUNK_STATE_COMPRESSED \<Rightarrow>
                (case mb_ptr (compressed_data chunk) of None \<Rightarrow> Crash BadAccess
                 | Some z \<Rightarrow>
                   (case write_file X (outf sh) TYPE_COMPRESS (mb_len (compressed_data chunk)) z of
                      Inl e \<Rightarrow> Crash e
                    | Inr f \<Rightarrow> Step RUnit (put_chunk b (chunk\<lparr>
                        compressed_data := mbuf_free (compressed_data chunk),
                        state := CHUNK_STATE_FLUSHED\<rparr>) (sh\<lparr>outf := f, written := written sh @ [a]\<rparr>))))
            | CHUNK_STATE_FLUSHED \<Rightarrow>
                (case write_file X (outf sh) TYPE_FINGERPRINT SHA1_LEN (sha1_bytes (sha1 chunk)) of
                   Inl e \<Rightarrow> Crash e
                 | Inr f \<Rightarrow> Step RUnit (sh\<lparr>outf := f, written := written sh @ [a]\<rparr>)))))"

definition read_chunk :: "nat \<Rightarrow> shared \<Rightarrow> (res, shared) outcome" where
  "read_chunk a sh = (case chunks sh a of None \<Rightarrow> Crash BadAccess | Some c \<Rightarrow> Step (RChunk c) sh)"

fun do_act :: "ext \<Rightarrow> config_t \<Rightarrow> nat \<Rightarrow> act \<Rightarrow> shared \<Rightarrow> (res, shared) outcome" where
  "do_act X conf i (ADedup c) sh = sub_Deduplicate X i c sh"
| "do_act X conf i (ARead a) sh = read_chunk a sh"
| "do_act X conf i (ACompress a) sh = sub_Compress X conf a sh"
| "do_act X conf i (AWrite a) sh = write_chunk_to_file X a sh"

end
