(* ===== verification/DedupFormat.thy ===== *)
theory DedupFormat
  imports DedupKernel
begin

text \<open>
  The abstract specification of the encoder's output. A file is a header followed by records;
  a record holds compressed data or the fingerprint of data that an earlier record holds. The
  decoder below is the contract of the format: it is what a reader of the file does, written
  independently of the encoder, and the theorems say that it recovers the input.
\<close>

datatype frec = FData "byte list" | FPrint "byte list"

definition enc_rec :: "frec \<Rightarrow> byte list" where
  "enc_rec r = (case r of
     FData z \<Rightarrow> TYPE_COMPRESS # le_encode 8 (length z) @ z
   | FPrint k \<Rightarrow> TYPE_FINGERPRINT # le_encode 8 (length k) @ k)"

function parse_recs :: "byte list \<Rightarrow> frec list option" where
  "parse_recs bs =
     (case bs of [] \<Rightarrow> Some []
      | t # rest \<Rightarrow>
        (let n = le_decode (take 8 rest); body = drop 8 rest in
         if length rest < 8 \<or> length body < n then None
         else (case parse_recs (drop n body) of None \<Rightarrow> None
           | Some rs \<Rightarrow>
             if t = TYPE_COMPRESS then Some (FData (take n body) # rs)
             else if t = TYPE_FINGERPRINT then Some (FPrint (take n body) # rs)
             else None)))"
  by auto
termination by (relation "measure length") auto

declare parse_recs.simps [simp del]

text \<open>
  Decoding a sequence of records: the output so far and the dictionary from fingerprints to
  data. \<open>D\<close> decompresses, \<open>H\<close> computes fingerprints.
\<close>

definition dec_step :: "(byte list \<Rightarrow> byte list) \<Rightarrow> (byte list \<Rightarrow> byte list) \<Rightarrow>
    (byte list \<times> (byte list \<Rightarrow> byte list option)) option \<Rightarrow> frec \<Rightarrow>
    (byte list \<times> (byte list \<Rightarrow> byte list option)) option" where
  "dec_step D H st r = (case st of None \<Rightarrow> None
     | Some (out, dict) \<Rightarrow>
       (case r of FData z \<Rightarrow> Some (out @ D z, dict(H (D z) \<mapsto> D z))
        | FPrint k \<Rightarrow> (case dict k of None \<Rightarrow> None | Some d \<Rightarrow> Some (out @ d, dict))))"

definition dec_recs :: "(byte list \<Rightarrow> byte list) \<Rightarrow> (byte list \<Rightarrow> byte list) \<Rightarrow> frec list \<Rightarrow>
    (byte list \<times> (byte list \<Rightarrow> byte list option)) option" where
  "dec_recs D H rs = foldl (dec_step D H) (Some ([], \<lambda>_. None)) rs"

definition decode_file :: "(byte list \<Rightarrow> byte list) \<Rightarrow> (byte list \<Rightarrow> byte list) \<Rightarrow> nat \<Rightarrow>
    byte list \<Rightarrow> byte list option" where
  "decode_file D H hdr f =
     (case parse_recs (drop hdr f) of None \<Rightarrow> None
      | Some rs \<Rightarrow> map_option fst (dec_recs D H rs))"

subsection \<open>Round trip of the format\<close>

lemma length_le_encode [simp]: "length (le_encode k n) = k"
  by (induction k arbitrary: n) auto

lemma le_decode_encode: "n < 256 ^ k \<Longrightarrow> le_decode (le_encode k n) = n"
proof (induction k arbitrary: n)
  case (Suc k)
  have "n div 256 < 256 ^ k" using Suc.prems by (simp add: div_less_iff_less_mult mult.commute)
  then have "le_decode (le_encode k (n div 256)) = n div 256" by (rule Suc.IH)
  moreover have "unat (of_nat (n mod 256) :: byte) = n mod 256"
    by (simp add: unat_of_nat)
  ultimately show ?case by simp
qed simp

definition rec_fits :: "frec \<Rightarrow> bool" where
  "rec_fits r \<longleftrightarrow> (case r of FData z \<Rightarrow> length z < 2 ^ 64 | FPrint k \<Rightarrow> length k < 2 ^ 64)"

lemma parse_enc_rec:
  assumes "rec_fits r"
  shows "parse_recs (enc_rec r @ bs) = map_option ((#) r) (parse_recs bs)"
proof -
  have le: "le_decode (le_encode 8 n) = n" if "n < 2 ^ 64" for n
    using that by (intro le_decode_encode) simp
  show ?thesis
  proof (cases r)
    case (FData z)
    then show ?thesis
      using le [of "length z"] assms parse_recs.simps [of "enc_rec r @ bs"]
      by (auto simp: enc_rec_def rec_fits_def Let_def split: option.splits)
  next
    case (FPrint z)
    then show ?thesis
      using le [of "length z"] assms parse_recs.simps [of "enc_rec r @ bs"]
      by (auto simp: enc_rec_def rec_fits_def Let_def TYPE_COMPRESS_def TYPE_FINGERPRINT_def
          split: option.splits)
  qed
qed

lemma parse_enc_recs: "(\<forall>r\<in>set rs. rec_fits r) \<Longrightarrow> parse_recs (concat (map enc_rec rs)) = Some rs"
proof (induction rs)
  case Nil
  show ?case by (simp add: parse_recs.simps [of "[]"])
next
  case (Cons r rs)
  then show ?case by (simp add: parse_enc_rec)
qed

lemma dec_recs_Nil: "dec_recs D H [] = Some ([], \<lambda>_. None)"
  by (simp add: dec_recs_def)

lemma dec_recs_snoc: "dec_recs D H (rs @ [r]) = dec_step D H (dec_recs D H rs) r"
  by (simp add: dec_recs_def)

lemma decode_file_enc:
  assumes "\<forall>r\<in>set rs. rec_fits r" and "dec_recs D H rs = Some (out, dict)" and "length hdr = n"
  shows "decode_file D H n (hdr @ concat (map enc_rec rs)) = Some out"
  using assms by (simp add: decode_file_def parse_enc_recs)

text \<open>The fingerprints of the file determine the digests.\<close>

lemma le_encode_inj: "n < 256 ^ k \<Longrightarrow> m < 256 ^ k \<Longrightarrow> le_encode k n = le_encode k m \<Longrightarrow> n = m"
  by (metis le_decode_encode)

lemma length_sha1_bytes: "length (sha1_bytes ws) = 4 * length ws"
  by (induction ws) (auto simp: sha1_bytes_def)

lemma sha1_bytes_inj:
  "length ws = length vs \<Longrightarrow> sha1_bytes ws = sha1_bytes vs \<Longrightarrow> ws = vs"
proof (induction ws vs rule: list_induct2)
  case (Cons w ws v vs)
  have "le_encode 4 (unat w) = le_encode 4 (unat v)" "sha1_bytes ws = sha1_bytes vs"
    using Cons.prems by (auto simp: sha1_bytes_def)
  moreover have "unat x < 256 ^ 4" for x :: u32
    using unsigned_less [of x, where ?'a = nat] by simp
  ultimately show ?case
    using le_encode_inj [of "unat w" 4 "unat v"] Cons.IH by (simp add: word_unat_eq_iff)
qed simp

end
