(* ===== verification/DedupStore.thy ===== *)
theory DedupStore
  imports DedupFormat
begin

text \<open>
  The shared state of the encoder under concurrent stages: the invariant of the chunk store,
  the hash table and the output file, and the protocol of the threads. Thread 0 is the
  collector, the only writer; thread \<open>Suc i\<close> processes task \<open>i\<close>, publishes the chunks of the
  task and is the only one to compress them.
\<close>

subsection \<open>What the encoder relies on\<close>

text \<open>
  The documented behaviour of the external functions: the allocator succeeds, a write appends
  all bytes, the header of the file has a fixed length, a digest has 160 bits, compression
  into a buffer of the size the code provides succeeds and can be undone, and the
  fingerprint search returns a position inside the (non-empty) buffer or its end. \<open>D\<close> is the
  decompression function, \<open>hdr\<close> the file header.
\<close>

definition codec_ok :: "ext \<Rightarrow> config_t \<Rightarrow> (byte list \<Rightarrow> byte list) \<Rightarrow> bool" where
  "codec_ok X conf D \<longleftrightarrow>
     (compress_type conf = COMPRESS_NONE \<and> (\<forall>z. D z = z)) \<or>
     (compress_type conf = COMPRESS_GZIP \<and> gzip_enabled conf \<and>
       (\<forall>src. src \<noteq> [] \<longrightarrow> (\<exists>z. zcompress X src (length src + length src div 2 ^ 9 + 12) = (0, z) \<and>
          0 < length z \<and> length z \<le> length src + length src div 2 ^ 9 + 12 \<and> D z = src))) \<or>
     (compress_type conf = COMPRESS_BZIP2 \<and> bzip2_enabled conf \<and>
       (\<forall>src. src \<noteq> [] \<longrightarrow> (\<exists>z. bzcompress X src (length src + length src div 2 ^ 6 + 600) = (0, z) \<and>
          0 < length z \<and> length z \<le> length src + length src div 2 ^ 6 + 600 \<and> D z = src)))"

definition ext_ok :: "ext \<Rightarrow> config_t \<Rightarrow> (byte list \<Rightarrow> byte list) \<Rightarrow> byte list \<Rightarrow> bool" where
  "ext_ok X conf D hdr \<longleftrightarrow>
     codec_ok X conf D \<and> (\<forall>n. malloc_ok X n) \<and>
     (\<forall>f bs. xwrite X f bs = (int (length bs), f @ bs)) \<and>
     write_header X [] (compress_type conf) = (0, hdr) \<and>
     (\<forall>bs. length (SHA1_Digest X bs) = 5) \<and>
     (\<forall>bs win tabs. bs \<noteq> [] \<longrightarrow> 0 < rabinseg X bs win tabs \<and> rabinseg X bs win tabs \<le> int (length bs))"

definition fingerprint :: "ext \<Rightarrow> byte list \<Rightarrow> byte list" where
  "fingerprint X bs = sha1_bytes (SHA1_Digest X bs)"

text \<open>
  A data block of the universe \<open>U\<close> (the chunks of one input): not empty, small enough for the
  64-bit length field. Fingerprints are assumed not to collide on the universe.
\<close>

definition univ_ok :: "ext \<Rightarrow> byte list set \<Rightarrow> bool" where
  "univ_ok X U \<longleftrightarrow> inj_on (SHA1_Digest X) U \<and> (\<forall>bs\<in>U. bs \<noteq> [] \<and> length bs < 2 ^ 60)"

lemma write_file_ok:
  assumes "ext_ok X conf D hdr" and "n = length content" and "n < 2 ^ 64"
  shows "write_file X f t n content = Inr (f @ t # le_encode 8 n @ content)"
  using assms by (simp add: write_file_def ext_ok_def)

lemma compress_data_ok:
  assumes "ext_ok X conf D hdr" and "src \<noteq> []" and "length src < 2 ^ 60"
  shows "\<exists>z. compress_data X conf src = Inr (mbuf_of z) \<and> D z = src \<and> length z < 2 ^ 64"
proof -
  have c: "codec_ok X conf D" and m: "\<forall>n. malloc_ok X n"
    using assms(1) by (auto simp: ext_ok_def)
  have small: "length src + length src div 2 ^ 9 + 12 < 2 ^ 64" "length src + length src div 2 ^ 6 + 600 < 2 ^ 64"
    using assms(3) by auto
  consider (none) "compress_type conf = COMPRESS_NONE" "\<forall>z. D z = z"
    | (gzip) z where "compress_type conf = COMPRESS_GZIP" "gzip_enabled conf"
        "zcompress X src (length src + length src div 2 ^ 9 + 12) = (0, z)" "0 < length z"
        "length z \<le> length src + length src div 2 ^ 9 + 12" "D z = src"
    | (bzip2) z where "compress_type conf = COMPRESS_BZIP2" "bzip2_enabled conf"
        "bzcompress X src (length src + length src div 2 ^ 6 + 600) = (0, z)" "0 < length z"
        "length z \<le> length src + length src div 2 ^ 6 + 600" "D z = src"
    using c assms(2) unfolding codec_ok_def by blast
  then show ?thesis
  proof cases
    case none
    then show ?thesis using assms m by (auto simp: compress_data_def)
  next
    case gzip
    then show ?thesis
      using m small by (intro exI [of _ z])
        (auto simp: compress_data_def COMPRESS_NONE_def COMPRESS_GZIP_def mbuf_of_def Let_def)
  next
    case bzip2
    then show ?thesis
      using m small by (intro exI [of _ z])
        (auto simp: compress_data_def COMPRESS_NONE_def COMPRESS_GZIP_def COMPRESS_BZIP2_def
          mbuf_of_def Let_def)
  qed
qed

subsection \<open>The invariant\<close>

definition chunk_inv :: "ext \<Rightarrow> (byte list \<Rightarrow> byte list) \<Rightarrow> shared \<Rightarrow> nat \<Rightarrow> chunk_t \<Rightarrow> bool" where
  "chunk_inv X D sh a c \<longleftrightarrow>
     sha1 c = SHA1_Digest X (orig sh a) \<and>
     (if isDuplicate c then \<exists>d. chunks sh (compressed_data_ref c) = Some d \<and> \<not> isDuplicate d \<and> sha1 d = sha1 c
      else hashtable_search (cache sh) (sha1 c) = Some a \<and>
        (case state c of
           CHUNK_STATE_UNCOMPRESSED \<Rightarrow> mb_ptr (uncompressed_data c) = Some (orig sh a)
         | CHUNK_STATE_COMPRESSED \<Rightarrow> \<exists>z. compressed_data c = mbuf_of z \<and> D z = orig sh a \<and> length z < 2 ^ 64
         | CHUNK_STATE_FLUSHED \<Rightarrow> True))"

definition table_inv :: "shared \<Rightarrow> bool" where
  "table_inv sh \<longleftrightarrow> ht_inv (cache sh) \<and> eqfn (cache sh) = keys_equal_fn \<and>
     (\<forall>k a. hashtable_search (cache sh) k = Some a \<longrightarrow>
        (\<exists>c. chunks sh a = Some c \<and> \<not> isDuplicate c \<and> sha1 c = k))"

text \<open>The dictionary a decoder has built holds exactly the chunks already flushed.\<close>

definition dict_inv :: "shared \<Rightarrow> (byte list \<Rightarrow> byte list option) \<Rightarrow> bool" where
  "dict_inv sh dict \<longleftrightarrow> (\<forall>k d. dict k = Some d \<longleftrightarrow>
     (\<exists>a c. chunks sh a = Some c \<and> \<not> isDuplicate c \<and> state c = CHUNK_STATE_FLUSHED \<and>
        k = sha1_bytes (sha1 c) \<and> d = orig sh a))"

definition out_inv :: "ext \<Rightarrow> (byte list \<Rightarrow> byte list) \<Rightarrow> byte list \<Rightarrow> shared \<Rightarrow> bool" where
  "out_inv X D hdr sh \<longleftrightarrow> (\<exists>rs dict. outf sh = hdr @ concat (map enc_rec rs) \<and>
     (\<forall>r\<in>set rs. rec_fits r) \<and>
     dec_recs D (fingerprint X) rs = Some (concat (map (orig sh) (written sh)), dict) \<and>
     dict_inv sh dict)"

definition dinv :: "ext \<Rightarrow> (byte list \<Rightarrow> byte list) \<Rightarrow> byte list \<Rightarrow> byte list set \<Rightarrow> shared \<Rightarrow> bool" where
  "dinv X D hdr U sh \<longleftrightarrow>
     (\<forall>a. next_chunk sh \<le> a \<longrightarrow> chunks sh a = None) \<and>
     (\<forall>a c. chunks sh a = Some c \<longrightarrow> chunk_inv X D sh a c \<and> orig sh a \<in> U) \<and>
     (\<forall>a\<in>set (written sh). chunks sh a \<noteq> None) \<and>
     table_inv sh \<and> out_inv X D hdr sh"

lemma dinv_fresh: "dinv X D hdr U sh \<Longrightarrow> next_chunk sh \<le> a \<Longrightarrow> chunks sh a = None"
  and dinv_chunk: "dinv X D hdr U sh \<Longrightarrow> chunks sh a = Some c \<Longrightarrow> chunk_inv X D sh a c \<and> orig sh a \<in> U"
  and dinv_written: "dinv X D hdr U sh \<Longrightarrow> a \<in> set (written sh) \<Longrightarrow> chunks sh a \<noteq> None"
  and dinv_table: "dinv X D hdr U sh \<Longrightarrow> table_inv sh"
  and dinv_out: "dinv X D hdr U sh \<Longrightarrow> out_inv X D hdr sh"
  unfolding dinv_def by blast+

lemma dinvI:
  assumes "\<And>a. next_chunk sh \<le> a \<Longrightarrow> chunks sh a = None"
    and "\<And>a c. chunks sh a = Some c \<Longrightarrow> chunk_inv X D sh a c \<and> orig sh a \<in> U"
    and "\<And>a. a \<in> set (written sh) \<Longrightarrow> chunks sh a \<noteq> None"
    and "table_inv sh" and "out_inv X D hdr sh"
  shows "dinv X D hdr U sh"
  unfolding dinv_def using assms by blast

text \<open>Two published chunks with the same digest have the same bytes.\<close>

lemma dinv_orig_eq:
  assumes "dinv X D hdr U sh" and "univ_ok X U" and "chunks sh a = Some c" and "chunks sh b = Some d"
    and "sha1 c = sha1 d"
  shows "orig sh a = orig sh b"
proof -
  have "SHA1_Digest X (orig sh a) = SHA1_Digest X (orig sh b)" "orig sh a \<in> U" "orig sh b \<in> U"
    using dinv_chunk [OF assms(1,3)] dinv_chunk [OF assms(1,4)] assms(5) by (auto simp: chunk_inv_def)
  then show ?thesis using assms(2) by (auto simp: univ_ok_def dest: inj_onD)
qed

lemma dinv_sha1_length:
  "dinv X D hdr U sh \<Longrightarrow> ext_ok X conf D hdr \<Longrightarrow> chunks sh a = Some c \<Longrightarrow> length (sha1 c) = 5"
  using dinv_chunk [of X D hdr U sh a c] by (auto simp: chunk_inv_def ext_ok_def)

subsection \<open>The protocol of the threads\<close>

definition may :: "byte list set \<Rightarrow> nat \<Rightarrow> act \<Rightarrow> shared \<Rightarrow> bool" where
  "may U i a sh = (case a of
     ADedup c \<Rightarrow> i \<noteq> 0 \<and> chunk_ok c \<and> chunk_bytes c \<in> U
   | ARead b \<Rightarrow> True
   | ACompress b \<Rightarrow> i \<noteq> 0 \<and> owner sh b = i
   | AWrite b \<Rightarrow> i = 0)"

definition same_chunk :: "chunk_t \<Rightarrow> chunk_t \<Rightarrow> bool" where
  "same_chunk c d \<longleftrightarrow> isDuplicate d = isDuplicate c \<and> sha1 d = sha1 c \<and>
     compressed_data_ref d = compressed_data_ref c \<and>
     (state c \<noteq> CHUNK_STATE_UNCOMPRESSED \<longrightarrow> state d \<noteq> CHUNK_STATE_UNCOMPRESSED)"

definition env :: "ext \<Rightarrow> (byte list \<Rightarrow> byte list) \<Rightarrow> byte list \<Rightarrow> byte list set \<Rightarrow>
    nat \<Rightarrow> shared \<Rightarrow> shared \<Rightarrow> bool" where
  "env X D hdr U i s t \<longleftrightarrow>
     dinv X D hdr U t \<and>
     (\<forall>a c. chunks s a = Some c \<longrightarrow> (\<exists>d. chunks t a = Some d \<and> same_chunk c d) \<and>
        orig t a = orig s a \<and> owner t a = owner s a \<and>
        (owner s a = i \<longrightarrow> state c = CHUNK_STATE_UNCOMPRESSED \<longrightarrow> chunks t a = Some c)) \<and>
     (\<forall>a. chunks s a = None \<longrightarrow> chunks t a \<noteq> None \<longrightarrow> owner t a \<noteq> i) \<and>
     (i = 0 \<longrightarrow> outf t = outf s \<and> written t = written s)"

lemma env_trans:
  assumes "env X D hdr U i s t" and "env X D hdr U i t u"
  shows "env X D hdr U i s u"
  unfolding env_def
proof (intro conjI allI impI)
  show "dinv X D hdr U u" using assms(2) by (simp add: env_def)
  show "outf u = outf s" "written u = written s" if "i = 0"
    using assms that by (auto simp: env_def)
  fix a
  show "owner u a \<noteq> i" if "chunks s a = None" "chunks u a \<noteq> None"
    using assms that unfolding env_def by (metis not_None_eq)
  fix c assume c: "chunks s a = Some c"
  then obtain d where d: "chunks t a = Some d" "same_chunk c d" "orig t a = orig s a" "owner t a = owner s a"
    "owner s a = i \<longrightarrow> state c = CHUNK_STATE_UNCOMPRESSED \<longrightarrow> chunks t a = Some c"
    using assms(1) unfolding env_def by blast
  then obtain e where e: "chunks u a = Some e" "same_chunk d e" "orig u a = orig t a" "owner u a = owner t a"
    "owner t a = i \<longrightarrow> state d = CHUNK_STATE_UNCOMPRESSED \<longrightarrow> chunks u a = Some d"
    using assms(2) unfolding env_def by blast
  show "\<exists>d. chunks u a = Some d \<and> same_chunk c d"
    using d e by (auto simp: same_chunk_def)
  show "orig u a = orig s a" "owner u a = owner s a" using d e by simp_all
  show "chunks u a = Some c" if "owner s a = i" "state c = CHUNK_STATE_UNCOMPRESSED"
    using d e that by auto
qed

subsection \<open>Every action keeps the invariant\<close>

definition flushed :: "shared \<Rightarrow> nat \<Rightarrow> u32 list \<Rightarrow> bool" where
  "flushed sh a k \<longleftrightarrow> (\<exists>c. chunks sh a = Some c \<and> \<not> isDuplicate c \<and>
     state c = CHUNK_STATE_FLUSHED \<and> sha1 c = k)"

lemma dict_inv_alt:
  "dict_inv sh dict \<longleftrightarrow> (\<forall>k d. dict k = Some d \<longleftrightarrow>
     (\<exists>a h. flushed sh a h \<and> k = sha1_bytes h \<and> d = orig sh a))"
  unfolding dict_inv_def flushed_def by blast

lemma out_inv_frame:
  assumes "out_inv X D hdr s" and "outf t = outf s" and "written t = written s"
    and "\<And>a. a \<in> set (written s) \<Longrightarrow> orig t a = orig s a"
    and "\<And>a k. flushed t a k \<longleftrightarrow> flushed s a k" and "\<And>a k. flushed s a k \<Longrightarrow> orig t a = orig s a"
  shows "out_inv X D hdr t"
proof -
  obtain rs dict where rs: "outf s = hdr @ concat (map enc_rec rs)" "\<forall>r\<in>set rs. rec_fits r"
    "dec_recs D (fingerprint X) rs = Some (concat (map (orig s) (written s)), dict)" "dict_inv s dict"
    using assms(1) unfolding out_inv_def by blast
  have "dict_inv t dict"
    using rs(4) assms(6) unfolding dict_inv_alt assms(5) by metis
  moreover have "map (orig t) (written t) = map (orig s) (written s)"
    using assms(3,4) by simp
  ultimately show ?thesis using rs assms(2) unfolding out_inv_def by auto
qed

text \<open>The abstract effect of publishing a chunk.\<close>

definition published :: "ext \<Rightarrow> nat \<Rightarrow> chunk_t \<Rightarrow> shared \<Rightarrow> bool \<Rightarrow> shared \<Rightarrow> bool" where
  "published X i c s dup t \<longleftrightarrow>
     (\<exists>d. chunks t = (chunks s)(next_chunk s \<mapsto> d) \<and> isDuplicate d = dup \<and> seqno d = seqno c \<and>
        state d = CHUNK_STATE_UNCOMPRESSED \<and>
        (if dup then \<exists>e. chunks s (compressed_data_ref d) = Some e \<and> \<not> isDuplicate e \<and> sha1 e = sha1 d
         else mb_ptr (uncompressed_data d) = Some (chunk_bytes c)) \<and>
        sha1 d = SHA1_Digest X (chunk_bytes c) \<and>
        cache t = (if dup then cache s else ht_add (cache s) (sha1 d) (next_chunk s))) \<and>
     orig t = (orig s)(next_chunk s := chunk_bytes c) \<and> owner t = (owner s)(next_chunk s := i) \<and>
     next_chunk t = next_chunk s + 1 \<and> outf t = outf s \<and> written t = written s \<and>
     (dup \<longleftrightarrow> hashtable_search (cache s) (SHA1_Digest X (chunk_bytes c)) \<noteq> None)"

lemma sub_Deduplicate_published:
  assumes inv: "dinv X D hdr U s" and ok: "ext_ok X conf D hdr" and c: "chunk_ok c"
  shows "\<exists>dup t. sub_Deduplicate X i c s = Step (RDedup dup (next_chunk s)) t \<and> published X i c s dup t"
proof -
  let ?k = "SHA1_Digest X (chunk_bytes c)"
  have m: "malloc_ok X 24" using ok by (simp add: ext_ok_def)
  have d: "mb_ptr (uncompressed_data c) = Some (chunk_bytes c)" and st: "state c = CHUNK_STATE_UNCOMPRESSED"
    using c chunk_okD [OF c] by (simp_all add: chunk_ok_def)
  show ?thesis
  proof (cases "hashtable_search (cache s) ?k")
    case None
    define d' where "d' = c\<lparr>sha1 := ?k, isDuplicate := False\<rparr>"
    define t where "t = put_chunk (next_chunk s) d' (s\<lparr>next_chunk := next_chunk s + 1,
      orig := (orig s)(next_chunk s := chunk_bytes c), owner := (owner s)(next_chunk s := i),
      cache := ht_add (cache s) ?k (next_chunk s)\<rparr>)"
    have ins: "hashtable_insert True (cache s) ?k (next_chunk s) = (- 1, ht_add (cache s) ?k (next_chunk s))"
      by (simp add: ht_add_def hashtable_insert_def Let_def)
    have "sub_Deduplicate X i c s = Step (RDedup False (next_chunk s)) t"
      using None ins d m
      by (simp add: sub_Deduplicate_def Let_def t_def d'_def)
    moreover have "published X i c s False t"
      unfolding published_def using None st d
      by (intro conjI exI [of _ d']) (simp_all add: t_def put_chunk_def d'_def)
    ultimately show ?thesis by blast
  next
    case (Some b)
    obtain e where e: "chunks s b = Some e" "\<not> isDuplicate e" "sha1 e = ?k"
      using dinv_table [OF inv] Some unfolding table_inv_def by blast
    define d' where "d' = c\<lparr>sha1 := ?k, isDuplicate := True, compressed_data_ref := b,
      uncompressed_data := mbuf_free (uncompressed_data c)\<rparr>"
    define t where "t = put_chunk (next_chunk s) d' (s\<lparr>next_chunk := next_chunk s + 1,
      orig := (orig s)(next_chunk s := chunk_bytes c), owner := (owner s)(next_chunk s := i)\<rparr>)"
    have "sub_Deduplicate X i c s = Step (RDedup True (next_chunk s)) t"
      using Some d
      by (simp add: sub_Deduplicate_def Let_def t_def d'_def)
    moreover have "published X i c s True t"
      unfolding published_def using Some st e
      by (intro conjI exI [of _ d']) (simp_all add: t_def put_chunk_def d'_def)
    ultimately show ?thesis by blast
  qed
qed

lemma published_inv:
  assumes inv: "dinv X D hdr U s" and pub: "published X i c s dup t" and U: "chunk_bytes c \<in> U"
  shows "dinv X D hdr U t"
proof -
  let ?a = "next_chunk s"
  obtain d where d: "chunks t = (chunks s)(?a \<mapsto> d)" "isDuplicate d = dup" "state d = CHUNK_STATE_UNCOMPRESSED"
    "sha1 d = SHA1_Digest X (chunk_bytes c)"
    "if dup then \<exists>e. chunks s (compressed_data_ref d) = Some e \<and> \<not> isDuplicate e \<and> sha1 e = sha1 d
     else mb_ptr (uncompressed_data d) = Some (chunk_bytes c)"
    "cache t = (if dup then cache s else ht_add (cache s) (sha1 d) ?a)"
    using pub unfolding published_def by blast
  have o: "orig t = (orig s)(?a := chunk_bytes c)" "next_chunk t = ?a + 1" "outf t = outf s" "written t = written s"
    and dup: "dup \<longleftrightarrow> hashtable_search (cache s) (sha1 d) \<noteq> None"
    using pub d(4) unfolding published_def by auto
  have tab: "ht_inv (cache s)" "eqfn (cache s) = keys_equal_fn"
    and ent: "\<And>k b. hashtable_search (cache s) k = Some b \<Longrightarrow> \<exists>e. chunks s b = Some e \<and> \<not> isDuplicate e \<and> sha1 e = k"
    using dinv_table [OF inv] unfolding table_inv_def by blast+
  have fresh: "chunks s ?a = None" using dinv_fresh [OF inv] by blast
  have old: "b \<noteq> ?a" if "chunks s b \<noteq> None" for b using that fresh by blast
  have srch: "hashtable_search (cache t) k =
      (if \<not> dup \<and> k = sha1 d then Some ?a else hashtable_search (cache s) k)" for k
    using d(6) ht.search_add [OF tab(1), of "sha1 d" ?a k] tab(2)
    by (cases "k = sha1 d") (simp_all add: keys_equal_fn_def)
  show ?thesis
  proof (rule dinvI)
    show "chunks t b = None" if "next_chunk t \<le> b" for b
      using that o(2) d(1) dinv_fresh [OF inv, of b] by simp
    show "chunks t b \<noteq> None" if "b \<in> set (written t)" for b
      using that o(4) d(1) dinv_written [OF inv, of b] by simp
    show "table_inv t"
      unfolding table_inv_def
    proof (intro conjI allI impI)
      show "ht_inv (cache t)" "eqfn (cache t) = keys_equal_fn"
        using d(6) tab ht.add_inv [OF tab(1)] by (auto simp: ht_add_fields)
      fix k b assume k: "hashtable_search (cache t) k = Some b"
      show "\<exists>c. chunks t b = Some c \<and> \<not> isDuplicate c \<and> sha1 c = k"
      proof (cases "\<not> dup \<and> k = sha1 d")
        case True
        then show ?thesis using k srch d(1,2) by auto
      next
        case False
        then have "hashtable_search (cache s) k = Some b" using k unfolding srch by (auto split: if_splits)
        then show ?thesis using ent [of k b] old [of b] d(1) by auto
      qed
    qed
    show "chunk_inv X D t b e \<and> orig t b \<in> U" if e: "chunks t b = Some e" for b e
    proof (cases "b = ?a")
      case True
      then have "e = d" using e d(1) by simp
      have "chunk_inv X D t ?a d"
        using d(2,3,4,5) o(1) srch [of "sha1 d"] old d(1) by (auto simp: chunk_inv_def split: if_splits)
      then show ?thesis using True \<open>e = d\<close> o(1) U by simp
    next
      case False
      then have s: "chunks s b = Some e" using e d(1) by simp
      have ob: "orig t b = orig s b" using False o(1) by simp
      have ci: "chunk_inv X D s b e" "orig s b \<in> U" using dinv_chunk [OF inv s] by auto
      have keep: "hashtable_search (cache t) k = Some x" if "hashtable_search (cache s) k = Some x" for k x
        using that dup unfolding srch by auto
      have "chunk_inv X D t b e"
        using ci(1) ob keep old d(1) unfolding chunk_inv_def by (auto split: if_splits) metis+
      then show ?thesis using ob ci(2) by simp
    qed
    have fl: "flushed t b k \<longleftrightarrow> flushed s b k" for b k
      using d(1,3) fresh by (auto simp: flushed_def)
    show "out_inv X D hdr t"
    proof (rule out_inv_frame [OF dinv_out [OF inv] o(3,4) _ fl])
      show "orig t b = orig s b" if "b \<in> set (written s)" for b
        using old [OF dinv_written [OF inv that]] o(1) by simp
      show "orig t b = orig s b" if "flushed s b k" for b k
        using old [of b] that o(1) by (auto simp: flushed_def)
    qed
  qed
qed

text \<open>
  Changing the state or the buffers of one published chunk: what all later critical sections do.
\<close>

lemma put_chunk_inv:
  assumes inv: "dinv X D hdr U s" and c: "chunks s a = Some c"
    and t: "chunks t = (chunks s)(a \<mapsto> d)" "next_chunk t = next_chunk s" "cache t = cache s"
      "orig t = orig s" "set (written t) \<subseteq> insert w (set (written s))" "chunks s w \<noteq> None"
    and d: "isDuplicate d = isDuplicate c" "sha1 d = sha1 c" "compressed_data_ref d = compressed_data_ref c"
    and ok: "chunk_inv X D t a d" and out: "out_inv X D hdr t"
  shows "dinv X D hdr U t"
proof (rule dinvI)
  show "chunks t b = None" if "next_chunk t \<le> b" for b
    using dinv_fresh [OF inv, of b] that t c by auto
  show "chunks t b \<noteq> None" if "b \<in> set (written t)" for b
    using dinv_written [OF inv, of b] that t by auto
  have sub: "\<exists>e'. chunks t b = Some e' \<and> isDuplicate e' = isDuplicate e \<and> sha1 e' = sha1 e"
    if "chunks s b = Some e" for b e
    using that c t(1) d by auto
  show "table_inv t"
    unfolding table_inv_def t(3)
  proof (intro conjI allI impI)
    show "ht_inv (cache s)" "eqfn (cache s) = keys_equal_fn"
      using dinv_table [OF inv] by (auto simp: table_inv_def)
    fix k b assume "hashtable_search (cache s) k = Some b"
    then obtain e where "chunks s b = Some e" "\<not> isDuplicate e" "sha1 e = k"
      using dinv_table [OF inv] unfolding table_inv_def by blast
    then show "\<exists>e. chunks t b = Some e \<and> \<not> isDuplicate e \<and> sha1 e = k"
      using sub [of b e] by auto
  qed
  show "chunk_inv X D t b e \<and> orig t b \<in> U" if e: "chunks t b = Some e" for b e
  proof (cases "b = a")
    case True
    then show ?thesis using e t(1,4) ok dinv_chunk [OF inv c] by auto
  next
    case False
    then have s: "chunks s b = Some e" using e t(1) by simp
    have ci: "chunk_inv X D s b e" "orig s b \<in> U" using dinv_chunk [OF inv s] by auto
    then show ?thesis
      using sub [of "compressed_data_ref e"] t(3,4)
      by (auto simp: chunk_inv_def split: if_splits chunk_state_t.splits)
  qed
qed (rule out)

lemma sub_Compress_ok:
  assumes inv: "dinv X D hdr U s" and ok: "ext_ok X conf D hdr" and U: "univ_ok X U"
    and c: "chunks s a = Some c" "\<not> isDuplicate c" "state c = CHUNK_STATE_UNCOMPRESSED"
  shows "\<exists>t d. sub_Compress X conf a s = Step RUnit t \<and> dinv X D hdr U t \<and>
    chunks t = (chunks s)(a \<mapsto> d) \<and> same_chunk c d \<and> state d = CHUNK_STATE_COMPRESSED \<and>
    orig t = orig s \<and> owner t = owner s \<and> outf t = outf s \<and> written t = written s"
proof -
  have ci: "chunk_inv X D s a c" "orig s a \<in> U" using dinv_chunk [OF inv c(1)] by auto
  have src: "mb_ptr (uncompressed_data c) = Some (orig s a)"
    using ci(1) c(2,3) by (simp add: chunk_inv_def)
  have "orig s a \<noteq> [] \<and> length (orig s a) < 2 ^ 60"
    using U ci(2) unfolding univ_ok_def by blast
  then obtain z where z: "compress_data X conf (orig s a) = Inr (mbuf_of z)" "D z = orig s a" "length z < 2 ^ 64"
    using compress_data_ok [OF ok, of "orig s a"] by auto
  define d where "d = c\<lparr>compressed_data := mbuf_of z,
     uncompressed_data := mbuf_free (uncompressed_data c), state := CHUNK_STATE_COMPRESSED\<rparr>"
  define t where "t = put_chunk a d s"
  have run: "sub_Compress X conf a s = Step RUnit t"
    using c src z by (simp add: sub_Compress_def d_def t_def)
  have "out_inv X D hdr t"
  proof (rule out_inv_frame [OF dinv_out [OF inv]])
    show "flushed t b k \<longleftrightarrow> flushed s b k" for b k
      using c by (auto simp: flushed_def t_def put_chunk_def d_def)
  qed (simp_all add: t_def put_chunk_def)
  moreover have "chunk_inv X D t a d"
    using ci(1) c(2) z by (auto simp: chunk_inv_def t_def put_chunk_def d_def)
  ultimately have "dinv X D hdr U t"
    using c(1) by (intro put_chunk_inv [OF inv c(1), of t d a]) (auto simp: t_def put_chunk_def d_def)
  then show ?thesis
    using run by (intro exI [of _ t] exI [of _ d]) (simp add: t_def put_chunk_def d_def same_chunk_def)
qed

text \<open>The chunk that holds the data of a chunk: itself or the one it duplicates.\<close>

definition original :: "shared \<Rightarrow> nat \<Rightarrow> nat" where
  "original s a = (case chunks s a of None \<Rightarrow> a
     | Some c \<Rightarrow> if isDuplicate c then compressed_data_ref c else a)"

lemma original_chunk:
  assumes inv: "dinv X D hdr U s" and U: "univ_ok X U" and c: "chunks s a = Some c"
  shows "\<exists>d. chunks s (original s a) = Some d \<and> \<not> isDuplicate d \<and> sha1 d = sha1 c \<and>
    orig s (original s a) = orig s a"
proof -
  obtain d where d: "chunks s (original s a) = Some d" "\<not> isDuplicate d" "sha1 d = sha1 c"
    using dinv_chunk [OF inv c] c by (cases "isDuplicate c") (auto simp: original_def chunk_inv_def)
  then show ?thesis using dinv_orig_eq [OF inv U d(1) c d(3)] by blast
qed

lemma write_waits_iff:
  assumes "dinv X D hdr U s" and "univ_ok X U" and "chunks s a = Some c"
    and "chunks s (original s a) = Some d" and "state d = CHUNK_STATE_UNCOMPRESSED"
  shows "write_chunk_to_file X a s = Blocked"
  using assms by (auto simp: write_chunk_to_file_def original_def split: if_splits)

lemma flushed_eq:
  assumes inv: "dinv X D hdr U s" and ok: "ext_ok X conf D hdr" and U: "univ_ok X U"
    and x: "flushed s x h" and b: "chunks s b = Some d" and eq: "sha1_bytes h = sha1_bytes (sha1 d)"
  shows "h = sha1 d \<and> orig s x = orig s b"
proof -
  obtain c where c: "chunks s x = Some c" "sha1 c = h" using x by (auto simp: flushed_def)
  have "length h = 5" "length (sha1 d) = 5"
    using dinv_sha1_length [OF inv ok c(1)] dinv_sha1_length [OF inv ok b] c(2) by auto
  then have "h = sha1 d" using eq by (intro sha1_bytes_inj) auto
  then show ?thesis using dinv_orig_eq [OF inv U c(1) b] c(2) by auto
qed

lemma write_data_out:
  assumes inv: "dinv X D hdr U s" and ok: "ext_ok X conf D hdr" and U: "univ_ok X U"
    and d: "chunks s b = Some d" "\<not> isDuplicate d" "D z = orig s b" "length z < 2 ^ 64" "orig s b = orig s a"
    and t: "outf t = outf s @ enc_rec (FData z)" "written t = written s @ [a]" "orig t = orig s"
      "chunks t = (chunks s)(b \<mapsto> e)" "\<not> isDuplicate e" "sha1 e = sha1 d" "state e = CHUNK_STATE_FLUSHED"
  shows "out_inv X D hdr t"
proof -
  obtain rs dict where rs: "outf s = hdr @ concat (map enc_rec rs)" "\<forall>r\<in>set rs. rec_fits r"
    "dec_recs D (fingerprint X) rs = Some (concat (map (orig s) (written s)), dict)" "dict_inv s dict"
    using dinv_out [OF inv] unfolding out_inv_def by blast
  have k: "fingerprint X (D z) = sha1_bytes (sha1 d)"
    using dinv_chunk [OF inv d(1)] d(3) by (simp add: chunk_inv_def fingerprint_def)
  let ?k = "sha1_bytes (sha1 d)"
  have step: "dec_recs D (fingerprint X) (rs @ [FData z]) =
      Some (concat (map (orig t) (written t)), dict(?k \<mapsto> D z))"
    using rs(3) k d(3,5) t(2,3) by (simp add: dec_recs_snoc dec_step_def)
  have fl: "flushed t x h \<longleftrightarrow> (flushed s x h \<and> x \<noteq> b) \<or> (x = b \<and> h = sha1 d)" for x h
    using t(4-7) by (auto simp: flushed_def)
  have "dict_inv t (dict(?k \<mapsto> D z))"
    unfolding dict_inv_alt
  proof (intro allI)
    fix k v
    show "(dict(?k \<mapsto> D z)) k = Some v \<longleftrightarrow> (\<exists>x h. flushed t x h \<and> k = sha1_bytes h \<and> v = orig t x)"
    proof (cases "k = ?k")
      case True
      have v: "v = orig s b" if x: "flushed t x h" "k = sha1_bytes h" "v = orig t x" for x h
      proof (cases "x = b")
        case False
        then have "flushed s x h" using x(1) unfolding fl by blast
        then show ?thesis using flushed_eq [OF inv ok U _ d(1)] x(2,3) True t(3) by metis
      qed (use x(3) t(3) in simp)
      have "flushed t b (sha1 d)" unfolding fl by blast
      then have "(\<exists>x h. flushed t x h \<and> k = sha1_bytes h \<and> v = orig t x) \<longleftrightarrow> v = orig s b"
        using v True t(3) by metis
      then show ?thesis using True d(3) by auto
    next
      case False
      have sh: "h = sha1 d" if "flushed s b h" for h using that d(1) by (auto simp: flushed_def)
      have "flushed t x h \<longleftrightarrow> flushed s x h" if "sha1_bytes h \<noteq> ?k" for x h
        using fl [of x h] sh [of h] that by metis
      then have "(\<exists>x h. flushed t x h \<and> k = sha1_bytes h \<and> v = orig t x) \<longleftrightarrow>
          (\<exists>x h. flushed s x h \<and> k = sha1_bytes h \<and> v = orig s x)"
        using False unfolding t(3) by metis
      then show ?thesis using False rs(4) unfolding dict_inv_alt by simp
    qed
  qed
  then show ?thesis
    using rs step t(1) d(4) unfolding out_inv_def
    by (intro exI [of _ "rs @ [FData z]"] exI [of _ "dict(?k \<mapsto> D z)"]) (auto simp: rec_fits_def)
qed

lemma write_print_out:
  assumes inv: "dinv X D hdr U s" and ok: "ext_ok X conf D hdr"
    and d: "flushed s b (sha1 d)" "length (sha1 d) = 5" "orig s b = orig s a"
    and t: "outf t = outf s @ enc_rec (FPrint (sha1_bytes (sha1 d)))" "written t = written s @ [a]"
      "orig t = orig s" "chunks t = chunks s"
  shows "out_inv X D hdr t"
proof -
  obtain rs dict where rs: "outf s = hdr @ concat (map enc_rec rs)" "\<forall>r\<in>set rs. rec_fits r"
    "dec_recs D (fingerprint X) rs = Some (concat (map (orig s) (written s)), dict)" "dict_inv s dict"
    using dinv_out [OF inv] unfolding out_inv_def by blast
  have "dict (sha1_bytes (sha1 d)) = Some (orig s b)"
    using rs(4) d(1) unfolding dict_inv_alt by blast
  then have "dec_recs D (fingerprint X) (rs @ [FPrint (sha1_bytes (sha1 d))]) =
      Some (concat (map (orig t) (written t)), dict)"
    using rs(3) d(3) t(2,3) by (simp add: dec_recs_snoc dec_step_def)
  moreover have "dict_inv t dict"
    using rs(4) t(3,4) unfolding dict_inv_def by simp
  moreover have "rec_fits (FPrint (sha1_bytes (sha1 d)))"
    using d(2) by (simp add: rec_fits_def length_sha1_bytes)
  ultimately show ?thesis
    using rs t(1) unfolding out_inv_def
    by (intro exI [of _ "rs @ [FPrint (sha1_bytes (sha1 d))]"] exI [of _ dict]) auto
qed

lemma write_chunk_ok:
  assumes inv: "dinv X D hdr U s" and ok: "ext_ok X conf D hdr" and U: "univ_ok X U"
    and c: "chunks s a = Some c"
    and d: "chunks s (original s a) = Some d" "state d \<noteq> CHUNK_STATE_UNCOMPRESSED"
  shows "\<exists>t e. write_chunk_to_file X a s = Step RUnit t \<and> dinv X D hdr U t \<and>
    written t = written s @ [a] \<and> orig t = orig s \<and> owner t = owner s \<and>
    chunks t = (chunks s)(original s a \<mapsto> e) \<and> same_chunk d e \<and> state e = CHUNK_STATE_FLUSHED"
proof -
  let ?b = "original s a"
  have dd: "\<not> isDuplicate d" "sha1 d = sha1 c" "orig s ?b = orig s a"
    using original_chunk [OF inv U c] d(1) by auto
  have b: "?b = (if isDuplicate c then compressed_data_ref c else a)"
    using c by (simp add: original_def)
  have len: "length (sha1 d) = 5" by (rule dinv_sha1_length [OF inv ok d(1)])
  have ci: "chunk_inv X D s ?b d" using dinv_chunk [OF inv d(1)] by simp
  show ?thesis
  proof (cases "state d")
    case CHUNK_STATE_UNCOMPRESSED
    then show ?thesis using d(2) by simp
  next
    case CHUNK_STATE_COMPRESSED
    then obtain z where z: "compressed_data d = mbuf_of z" "D z = orig s ?b" "length z < 2 ^ 64"
      using ci dd(1) by (auto simp: chunk_inv_def)
    define e where "e = d\<lparr>compressed_data := mbuf_free (compressed_data d), state := CHUNK_STATE_FLUSHED\<rparr>"
    define t where "t = put_chunk ?b e (s\<lparr>outf := outf s @ enc_rec (FData z), written := written s @ [a]\<rparr>)"
    have run: "write_chunk_to_file X a s = Step RUnit t"
      using c d(1) b CHUNK_STATE_COMPRESSED z write_file_ok [OF ok refl z(3)]
      by (simp add: write_chunk_to_file_def Let_def t_def e_def enc_rec_def)
    have out: "out_inv X D hdr t"
      by (rule write_data_out [OF inv ok U d(1) dd(1) z(2,3) dd(3), of t e])
        (use dd in \<open>simp_all add: t_def e_def put_chunk_def\<close>)
    have ci': "chunk_inv X D t ?b e"
      using ci dd(1) by (auto simp: chunk_inv_def t_def put_chunk_def e_def)
    have "dinv X D hdr U t"
      by (rule put_chunk_inv [OF inv d(1) _ _ _ _ _ _ _ _ _ ci' out, of a])
        (use c in \<open>auto simp: t_def put_chunk_def e_def\<close>)
    then show ?thesis
      using run by (intro exI [of _ t] exI [of _ e]) (simp add: t_def put_chunk_def e_def same_chunk_def)
  next
    case CHUNK_STATE_FLUSHED
    define t where "t = s\<lparr>outf := outf s @ enc_rec (FPrint (sha1_bytes (sha1 d))), written := written s @ [a]\<rparr>"
    have "length (sha1_bytes (sha1 d)) = 20" using len by (simp add: length_sha1_bytes)
    then have run: "write_chunk_to_file X a s = Step RUnit t"
      using c d(1) b CHUNK_STATE_FLUSHED
        write_file_ok [OF ok, of 20 "sha1_bytes (sha1 d)" "outf s" TYPE_FINGERPRINT]
      by (simp add: write_chunk_to_file_def Let_def t_def enc_rec_def SHA1_LEN_def)
    have "flushed s ?b (sha1 d)" using d(1) dd(1) CHUNK_STATE_FLUSHED by (auto simp: flushed_def)
    then have out: "out_inv X D hdr t"
      by (rule write_print_out [OF inv ok _ len dd(3), of t]) (simp_all add: t_def)
    have ci': "chunk_inv X D t ?b d"
      using ci dd(1) CHUNK_STATE_FLUSHED by (auto simp: chunk_inv_def t_def)
    have "dinv X D hdr U t"
      by (rule put_chunk_inv [OF inv d(1), of t d a])
        (use c d(1) ci' out in \<open>auto simp: t_def fun_upd_idem\<close>)
    then show ?thesis
      using run d(1) CHUNK_STATE_FLUSHED
      by (intro exI [of _ t] exI [of _ d]) (simp add: t_def same_chunk_def fun_upd_idem)
  qed
qed

subsection \<open>The shared state as an interface for threads\<close>

lemma env_refl: "dinv X D hdr U s \<Longrightarrow> env X D hdr U i s s"
  by (simp add: env_def same_chunk_def)

text \<open>A change of one chunk is allowed to every thread that does not own it.\<close>

lemma env_put:
  assumes "dinv X D hdr U t" and "chunks s a = Some c" and "chunks t = (chunks s)(a \<mapsto> d)"
    and "same_chunk c d" and "orig t = orig s" and "owner t = owner s"
    and "owner s a \<noteq> i \<or> state c \<noteq> CHUNK_STATE_UNCOMPRESSED"
    and "i = 0 \<longrightarrow> outf t = outf s \<and> written t = written s"
  shows "env X D hdr U i s t"
  using assms by (auto simp: env_def same_chunk_def)

lemma env_published:
  assumes "dinv X D hdr U s" and "published X j c s dup t" and "dinv X D hdr U t" and "i \<noteq> j"
  shows "env X D hdr U i s t"
proof -
  have fresh: "chunks s (next_chunk s) = None" using dinv_fresh [OF assms(1)] by blast
  obtain d where "chunks t = (chunks s)(next_chunk s \<mapsto> d)"
    using assms(2) unfolding published_def by blast
  moreover have "orig t = (orig s)(next_chunk s := chunk_bytes c)"
    "owner t = (owner s)(next_chunk s := j)" "outf t = outf s" "written t = written s"
    using assms(2) unfolding published_def by blast+
  ultimately show ?thesis
    using assms(3,4) fresh by (auto simp: env_def same_chunk_def)
qed

lemma do_act_env:
  assumes inv: "dinv X D hdr U s" and ok: "ext_ok X conf D hdr" and U: "univ_ok X U"
    and run: "do_act X conf j a s = Step r t" and may: "may U j a s" and ne: "i \<noteq> j"
    and inv': "dinv X D hdr U t"
  shows "env X D hdr U i s t"
proof (cases a)
  case (ADedup c)
  then obtain dup t' where t': "sub_Deduplicate X j c s = Step (RDedup dup (next_chunk s)) t'"
    "published X j c s dup t'"
    using sub_Deduplicate_published [OF inv ok, of c j] may by (auto simp: may_def)
  then show ?thesis
    using env_published [OF inv t'(2) _ ne] inv' run ADedup by simp
next
  case (ARead b)
  then show ?thesis using run env_refl [OF inv] by (auto simp: read_chunk_def split: option.splits)
next
  case (ACompress b)
  then obtain c where c: "chunks s b = Some c" "state c = CHUNK_STATE_UNCOMPRESSED"
    using run by (auto simp: sub_Compress_def split: option.splits if_splits)
  obtain z where t: "t = put_chunk b (c\<lparr>compressed_data := z,
      uncompressed_data := mbuf_free (uncompressed_data c), state := CHUNK_STATE_COMPRESSED\<rparr>) s"
    using run ACompress c by (auto simp: sub_Compress_def split: option.splits sum.splits)
  show ?thesis
    by (rule env_put [OF inv' c(1)])
      (use t may ACompress ne in \<open>auto simp: put_chunk_def same_chunk_def may_def\<close>)
next
  case (AWrite b)
  then have i: "i \<noteq> 0" using may ne by (simp add: may_def)
  obtain c where c: "chunks s b = Some c"
    using run AWrite by (auto simp: write_chunk_to_file_def split: option.splits)
  obtain d where d: "chunks s (original s b) = Some d"
    using original_chunk [OF inv U c] by blast
  have st: "state d \<noteq> CHUNK_STATE_UNCOMPRESSED"
    using write_waits_iff [OF inv U c d] run AWrite by auto
  obtain t' e where t': "write_chunk_to_file X b s = Step RUnit t'"
    "written t' = written s @ [b]" "orig t' = orig s" "owner t' = owner s"
    "chunks t' = (chunks s)(original s b \<mapsto> e)" "same_chunk d e"
    using write_chunk_ok [OF inv ok U c d st] by blast
  have "t' = t" using t'(1) run AWrite by simp
  then show ?thesis
    by (intro env_put [OF inv' d]) (use t' st i in auto)
qed

text \<open>The handler under the hypotheses on the external code and the input.\<close>

definition good_env :: "ext \<Rightarrow> config_t \<Rightarrow> (byte list \<Rightarrow> byte list) \<Rightarrow> byte list \<Rightarrow> byte list set \<Rightarrow> bool" where
  "good_env X conf D hdr U \<longleftrightarrow> ext_ok X conf D hdr \<and> univ_ok X U"

definition store_inv :: "ext \<Rightarrow> config_t \<Rightarrow> (byte list \<Rightarrow> byte list) \<Rightarrow> byte list \<Rightarrow> byte list set \<Rightarrow> shared \<Rightarrow> bool" where
  "store_inv X conf D hdr U s \<longleftrightarrow> good_env X conf D hdr U \<and> dinv X D hdr U s"

interpretation dd: shared_state "do_act X conf" "store_inv X conf D hdr U" "env X D hdr U" "may U"
  for X conf D hdr U
proof unfold_locales
  fix i j s t u a r
  show "env X D hdr U i s s" if "store_inv X conf D hdr U s"
    using that env_refl by (simp add: store_inv_def)
  show "env X D hdr U i s u" if "env X D hdr U i s t" "env X D hdr U i t u"
    using that by (rule env_trans)
  show "store_inv X conf D hdr U t" if "env X D hdr U i s t" "store_inv X conf D hdr U s"
    using that by (simp add: store_inv_def env_def)
  show "env X D hdr U i s t"
    if "store_inv X conf D hdr U s" "do_act X conf j a s = Step r t" "may U j a s" "i \<noteq> j"
      "store_inv X conf D hdr U t"
    using do_act_env that by (auto simp: store_inv_def good_env_def)
qed

end
