(* ===== verification/BufferChain.thy ===== *)
theory BufferChain
  imports RingBuffer Proc
begin

text \<open>
  The output idiom of every stage of the encoder: insert an item into the current send buffer
  and, when that is full, append the buffer to the outgoing vector and allocate a new one; and
  the input idiom, removing items until the received buffer is empty.
\<close>

type_synonym 'a chain = "'a ringbuffer \<times> 'a ringbuffer list"

definition emit :: "nat \<Rightarrow> 'a \<Rightarrow> 'a chain \<Rightarrow> err + 'a chain" where
  "emit n x ch = (case ch of (send_buf, dataOut) \<Rightarrow>
     (case ringbuffer_insert send_buf x of (r, send_buf) \<Rightarrow>
        if r \<noteq> 0 then Inl AssertFailed
        else if ringbuffer_isFull send_buf then Inr (ringbuffer_init n, dataOut @ [send_buf])
        else Inr (send_buf, dataOut)))"

text \<open>Closing a chain: the last buffer is marked and sent, whatever it holds.\<close>

definition close_chain :: "'a chain \<Rightarrow> 'a ringbuffer list" where
  "close_chain ch = snd ch @ [ringbuffer_setLast (fst ch)]"

text \<open>
  The loop \<open>while(!ringbuffer_isEmpty(buf)) { x = ringbuffer_remove(buf); assert(x!=NULL); ... }\<close>:
  \<open>buffer_fold\<close> for a body that works on private data, \<open>buffer_loop\<close> for a body that also acts
  on the shared state. The fuel \<open>k\<close> is the size of the buffer, which holds at most \<open>k - 1\<close>
  items; running out of it counts as a failure.
\<close>

fun buffer_fold :: "nat \<Rightarrow> ('a \<Rightarrow> 's \<Rightarrow> err + 's) \<Rightarrow> 'a ringbuffer \<Rightarrow> 's \<Rightarrow> err + 's" where
  "buffer_fold k body buf s =
     (if ringbuffer_isEmpty buf then Inr s
      else (case k of 0 \<Rightarrow> Inl AssertFailed
        | Suc k' \<Rightarrow>
          (case ringbuffer_remove buf of
             (None, _) \<Rightarrow> Inl AssertFailed
           | (Some x, buf') \<Rightarrow>
              (case body x s of Inl e \<Rightarrow> Inl e | Inr s' \<Rightarrow> buffer_fold k' body buf' s'))))"

fun buffer_loop :: "nat \<Rightarrow> ('a \<Rightarrow> 's \<Rightarrow> ('act, 'res, 's) proc) \<Rightarrow> 'a ringbuffer \<Rightarrow> 's \<Rightarrow>
    ('act, 'res, 's) proc" where
  "buffer_loop k body buf s =
     (if ringbuffer_isEmpty buf then Ret s
      else (case k of 0 \<Rightarrow> Fail AssertFailed
        | Suc k' \<Rightarrow>
          (case ringbuffer_remove buf of
             (None, _) \<Rightarrow> Fail AssertFailed
           | (Some x, buf') \<Rightarrow> bind (body x s) (\<lambda>s'. buffer_loop k' body buf' s'))))"

declare buffer_fold.simps [simp del]
declare buffer_loop.simps [simp del]

fun fold_err :: "('a \<Rightarrow> 's \<Rightarrow> err + 's) \<Rightarrow> 'a list \<Rightarrow> 's \<Rightarrow> err + 's" where
  "fold_err f [] s = Inr s"
| "fold_err f (x # xs) s = (case f x s of Inl e \<Rightarrow> Inl e | Inr s' \<Rightarrow> fold_err f xs s')"

fun fold_proc :: "('a \<Rightarrow> 's \<Rightarrow> ('act, 'res, 's) proc) \<Rightarrow> 'a list \<Rightarrow> 's \<Rightarrow> ('act, 'res, 's) proc" where
  "fold_proc f [] s = Ret s"
| "fold_proc f (x # xs) s = bind (f x s) (fold_proc f xs)"

lemma buffer_fold_items:
  "rb_inv buf \<Longrightarrow> length (rb_items buf) \<le> k \<Longrightarrow> buffer_fold k f buf s = fold_err f (rb_items buf) s"
proof (induction k arbitrary: buf s)
  case 0
  then show ?case by (simp add: ringbuffer_isEmpty_iff buffer_fold.simps [of 0])
next
  case (Suc k)
  show ?case
  proof (cases "rb_items buf")
    case Nil
    then show ?thesis using Suc.prems by (simp add: ringbuffer_isEmpty_iff buffer_fold.simps [of "Suc k"])
  next
    case (Cons x xs)
    obtain buf' where "ringbuffer_remove buf = (Some x, buf')" "rb_inv buf'" "rb_items buf' = xs"
      using ringbuffer_remove_Cons [OF Suc.prems(1) Cons] by blast
    then show ?thesis
      using Suc.IH [of buf'] Suc.prems Cons
      by (auto simp: ringbuffer_isEmpty_iff buffer_fold.simps [of "Suc k"] split: sum.splits)
  qed
qed

lemma buffer_loop_items:
  "rb_inv buf \<Longrightarrow> length (rb_items buf) \<le> k \<Longrightarrow> buffer_loop k f buf s = fold_proc f (rb_items buf) s"
proof (induction k arbitrary: buf s)
  case 0
  then show ?case by (simp add: ringbuffer_isEmpty_iff buffer_loop.simps [of 0])
next
  case (Suc k)
  show ?case
  proof (cases "rb_items buf")
    case Nil
    then show ?thesis using Suc.prems by (simp add: ringbuffer_isEmpty_iff buffer_loop.simps [of "Suc k"])
  next
    case (Cons x xs)
    obtain buf' where b: "ringbuffer_remove buf = (Some x, buf')" "rb_inv buf'" "rb_items buf' = xs"
      using ringbuffer_remove_Cons [OF Suc.prems(1) Cons] by blast
    then have "buffer_loop k f buf' = fold_proc f xs"
      using Suc.IH [of buf'] Suc.prems Cons by auto
    then show ?thesis
      using b Suc.prems Cons by (simp add: ringbuffer_isEmpty_iff buffer_loop.simps [of "Suc k"])
  qed
qed

lemma rb_items_size: "rb_inv buf \<Longrightarrow> length (rb_items buf) \<le> rb_size buf"
  using rb_count_less [of buf] by (simp add: length_rb_items)

definition chain_items :: "'a chain \<Rightarrow> 'a list" where
  "chain_items ch = concat (map rb_items (snd ch)) @ rb_items (fst ch)"

text \<open>
  Between two insertions the send buffer has room, and every buffer already sent is full and
  not marked as the last.
\<close>

definition chain_inv :: "nat \<Rightarrow> 'a chain \<Rightarrow> bool" where
  "chain_inv n ch \<longleftrightarrow>
     0 < n \<and> n + 1 < 2 ^ 31 \<and> rb_inv (fst ch) \<and> rb_capacity (fst ch) = n \<and> length (rb_items (fst ch)) < n \<and>
     \<not> ringbuffer_isLast (fst ch) \<and>
     (\<forall>b\<in>set (snd ch). rb_inv b \<and> rb_capacity b = n \<and> length (rb_items b) = n \<and> \<not> ringbuffer_isLast b)"

lemma chain_inv_init: "0 < n \<Longrightarrow> n + 1 < 2 ^ 31 \<Longrightarrow> chain_inv n (ringbuffer_init n, [])"
  by (simp add: chain_inv_def rb_inv_init fifo_simps)
    (simp add: ringbuffer_isLast_def ringbuffer_init_def)

lemma chain_items_init: "chain_items (ringbuffer_init n, []) = []"
  by (simp add: chain_items_def fifo_simps)

lemma emit_ok:
  assumes "chain_inv n ch"
  shows "\<exists>ch'. emit n x ch = Inr ch' \<and> chain_inv n ch' \<and> chain_items ch' = chain_items ch @ [x]"
proof -
  obtain sb out where ch: "ch = (sb, out)" by fastforce
  have inv: "0 < n" "n + 1 < 2 ^ 31" "rb_inv sb" "rb_capacity sb = n" "length (rb_items sb) < n"
    "\<not> ringbuffer_isLast sb"
    "\<forall>b\<in>set out. rb_inv b \<and> rb_capacity b = n \<and> length (rb_items b) = n \<and> \<not> ringbuffer_isLast b"
    using assms ch by (auto simp: chain_inv_def)
  obtain sb' where sb': "ringbuffer_insert sb x = (0, sb')" "rb_inv sb'" "rb_items sb' = rb_items sb @ [x]"
    "rb_size sb' = rb_size sb" "rb_last sb' = rb_last sb"
    using ringbuffer_insert_room [OF inv(3), of x] inv(4,5) by auto
  have cap: "rb_capacity sb' = n" and last: "\<not> ringbuffer_isLast sb'"
    using sb'(4,5) inv(4,6) by (simp_all add: rb_capacity_def ringbuffer_isLast_def)
  show ?thesis
  proof (cases "ringbuffer_isFull sb'")
    case True
    then have "length (rb_items sb') = n" using ringbuffer_isFull_iff [OF sb'(2)] cap by simp
    then show ?thesis
      using True sb' cap last inv chain_inv_init [OF inv(1,2)] ch
      by (auto simp: emit_def chain_inv_def chain_items_def fifo_simps)
  next
    case False
    then have "length (rb_items sb') \<noteq> n" using ringbuffer_isFull_iff [OF sb'(2)] cap by simp
    then have "length (rb_items sb') < n" using sb'(3) inv(5) by simp
    then show ?thesis
      using False sb' cap last inv ch by (auto simp: emit_def chain_inv_def chain_items_def)
  qed
qed

lemma close_chain_items: "concat (map rb_items (close_chain ch)) = chain_items ch"
  by (simp add: close_chain_def chain_items_def rb_items_def ringbuffer_setLast_def rb_count_def)

lemma setLast_simps [fifo_simps]:
  "rb_items (ringbuffer_setLast b) = rb_items b" "rb_inv (ringbuffer_setLast b) = rb_inv b"
  "rb_capacity (ringbuffer_setLast b) = rb_capacity b" "ringbuffer_isLast (ringbuffer_setLast b)"
  by (simp_all add: rb_items_def rb_inv_def rb_count_def rb_capacity_def ringbuffer_setLast_def
      ringbuffer_isLast_def)

text \<open>With buffers of one item the send buffer is empty between insertions.\<close>

lemma chain_inv_one: "chain_inv 1 ch \<Longrightarrow> rb_items (fst ch) = []"
  by (simp add: chain_inv_def)

end
