(* ===== verification/DedupRefine.thy ===== *)
theory DedupRefine
  imports DedupStore BufferChain
begin

text \<open>
  The refinement stage (class \<open>FragmentRefine\<close> of \<open>encoder_ff_ofarm.cpp\<close>): every coarse chunk
  is split at the anchors the Rabin fingerprint finds. The chunks are still private to the
  thread, so the stage is a function of its own state: the send buffer and the statistics.
\<close>

text \<open>The globals \<open>rf_win\<close> and \<open>rf_win_dataprocess\<close> are never set to anything but zero.\<close>

definition rf_win :: int where "rf_win = 0"
definition rf_win_dataprocess :: int where "rf_win_dataprocess = 0"

record 'a stage =
  send_buf :: "'a ringbuffer"
  thread_stats :: stats_t

definition new_stage :: "nat \<Rightarrow> 'a stage" where
  "new_stage n = \<lparr>send_buf = ringbuffer_init n, thread_stats = init_stats\<rparr>"

text \<open>Splitting the buffer of a chunk, as \<open>mbuffer_split\<close> does.\<close>

definition mbuf_split :: "mbuf \<Rightarrow> nat \<Rightarrow> err + (mbuf \<times> mbuf)" where
  "mbuf_split m split =
     (if \<not> 0 < split then Inl AssertFailed
      else if \<not> split < mb_len m then Inl AssertFailed
      else Inr (\<lparr>mb_ptr = map_option (take split) (mb_ptr m), mb_len = split\<rparr>,
                \<lparr>mb_ptr = map_option (drop split) (mb_ptr m), mb_len = mb_len m - split\<rparr>))"

text \<open>
  The \<open>do ... while(split)\<close> loop on one coarse chunk; \<open>chcount\<close> numbers the pieces. The state
  is the statistics, the send buffer and the buffers sent so far.
\<close>

function refine_chunk :: "ext \<Rightarrow> rabin_tabs \<Rightarrow> u32 \<Rightarrow> chunk_t \<Rightarrow> stats_t \<times> chunk_t chain \<Rightarrow>
    err + (stats_t \<times> chunk_t chain)" where
  "refine_chunk X tabs chcount chunk (st, ch) =
     (let offset = to_size_t (rabinseg X (chunk_bytes chunk) rf_win tabs) in
      if offset < mb_len (uncompressed_data chunk) then
        (if \<not> malloc_ok X sizeof_chunk_t then Inl (ExitTrace ''Memory allocation failed.'')
         else case mbuf_split (uncompressed_data chunk) offset of Inl e \<Rightarrow> Inl e
         | Inr (m1, m2) \<Rightarrow>
           (let temp = malloc_chunk\<lparr>state := state chunk, seqno := Seq (l1num (seqno chunk)) 0,
                  uncompressed_data := m2\<rparr>;
                chunk = chunk\<lparr>uncompressed_data := m1, seqno := Seq (l1num (seqno chunk)) chcount,
                  isLastL2Chunk := False\<rparr>;
                st = count_chunk (mb_len (uncompressed_data chunk)) st in
            (case emit CHUNK_ANCHOR_PER_INSERT chunk ch of Inl e \<Rightarrow> Inl e
             | Inr ch \<Rightarrow> refine_chunk X tabs (chcount + 1) temp (st, ch))))
      else
        (let chunk = chunk\<lparr>seqno := Seq (l1num (seqno chunk)) chcount, isLastL2Chunk := True\<rparr>;
             st = count_chunk (mb_len (uncompressed_data chunk)) st in
         (case emit CHUNK_ANCHOR_PER_INSERT chunk ch of Inl e \<Rightarrow> Inl e | Inr ch \<Rightarrow> Inr (st, ch))))"
  by pat_completeness auto
termination
  by (relation "measure (\<lambda>(X, tabs, k, chunk, s). mb_len (uncompressed_data chunk))")
    (auto simp: mbuf_split_def split: if_splits)

declare refine_chunk.simps [simp del]

definition refine_compute :: "ext \<Rightarrow> chunk_t ringbuffer \<Rightarrow> chunk_t stage \<Rightarrow>
    err + (chunk_t ringbuffer list \<times> chunk_t stage)" where
  "refine_compute X recv_buf fr =
     (let isLast = ringbuffer_isLast recv_buf in
      (case buffer_fold (rb_size recv_buf)
              (\<lambda>chunk s. refine_chunk X (rabininit X rf_win) 0 chunk s)
              recv_buf (thread_stats fr, (send_buf fr, [])) of Inl e \<Rightarrow> Inl e
       | Inr (st, (sb, dataOut)) \<Rightarrow>
           if isLast then Inr (dataOut @ [ringbuffer_setLast sb],
                               fr\<lparr>send_buf := ringbuffer_setLast sb, thread_stats := st\<rparr>)
           else Inr (dataOut, fr\<lparr>send_buf := sb, thread_stats := st\<rparr>)))"

subsection \<open>What the stage computes\<close>

text \<open>The pieces of a block: cut at every anchor until the search returns the end.\<close>

function pieces :: "ext \<Rightarrow> rabin_tabs \<Rightarrow> byte list \<Rightarrow> byte list list" where
  "pieces X tabs bs =
     (let k = nat (rabinseg X bs rf_win tabs) in
      if 0 < k \<and> k < length bs then take k bs # pieces X tabs (drop k bs) else [bs])"
  by auto
termination by (relation "measure (\<lambda>(X, tabs, bs). length bs)") auto

declare pieces.simps [simp del]

definition piece_chunks :: "sequence_t \<Rightarrow> nat \<Rightarrow> byte list list \<Rightarrow> (sequence_t \<times> bool \<times> byte list) list" where
  "piece_chunks s k ps = map (\<lambda>i. (Seq (l1num s) (of_nat (k + i)), i = length ps - 1, ps ! i)) [0..<length ps]"

definition chunk_info :: "chunk_t \<Rightarrow> sequence_t \<times> bool \<times> byte list" where
  "chunk_info c = (seqno c, isLastL2Chunk c, chunk_bytes c)"

lemma pieces_cut:
  "k = nat (rabinseg X bs rf_win tabs) \<Longrightarrow> 0 < k \<Longrightarrow> k < length bs \<Longrightarrow>
    pieces X tabs bs = take k bs # pieces X tabs (drop k bs)"
  by (subst pieces.simps) (simp add: Let_def)

lemma pieces_end:
  "k = nat (rabinseg X bs rf_win tabs) \<Longrightarrow> \<not> (0 < k \<and> k < length bs) \<Longrightarrow> pieces X tabs bs = [bs]"
  by (subst pieces.simps) (auto simp: Let_def)

lemma pieces_concat: "concat (pieces X tabs bs) = bs"
proof (induction X tabs bs rule: pieces.induct)
  case (1 X tabs bs)
  let ?k = "nat (rabinseg X bs rf_win tabs)"
  show ?case
  proof (cases "0 < ?k \<and> ?k < length bs")
    case True
    then show ?thesis
      using "1.IH" [OF refl True] by (simp only: pieces_cut [OF refl] concat.simps append_take_drop_id)
  next
    case False
    show ?thesis by (simp only: pieces_end [OF refl False] concat.simps append_Nil2)
  qed
qed

lemma pieces_nonempty: "pieces X tabs bs \<noteq> []"
  by (subst pieces.simps) (auto simp: Let_def)

lemma pieces_elems: "bs \<noteq> [] \<Longrightarrow> p \<in> set (pieces X tabs bs) \<Longrightarrow> p \<noteq> [] \<and> length p \<le> length bs"
proof (induction X tabs bs rule: pieces.induct)
  case (1 X tabs bs)
  let ?k = "nat (rabinseg X bs rf_win tabs)"
  show ?case
  proof (cases "0 < ?k \<and> ?k < length bs")
    case True
    have "p \<in> set (take ?k bs # pieces X tabs (drop ?k bs))"
      using "1.prems"(2) True by (simp only: pieces_cut [OF refl])
    then have "p = take ?k bs \<or> p \<in> set (pieces X tabs (drop ?k bs))" and "drop ?k bs \<noteq> []"
      using True by auto
    then show ?thesis using "1.IH" [OF refl True] True by fastforce
  next
    case False
    then show ?thesis using "1.prems" pieces_end [OF refl False] by simp
  qed
qed

lemma piece_chunks_Cons:
  "ps \<noteq> [] \<Longrightarrow> piece_chunks s k (p # ps) = (Seq (l1num s) (of_nat k), False, p) # piece_chunks s (Suc k) ps"
proof -
  assume ps: "ps \<noteq> []"
  then have "(Suc i = length ps) = (i = length ps - 1)" for i by (cases ps) auto
  then show ?thesis
    using ps by (simp add: piece_chunks_def map_upt_Suc del: upt_Suc)
qed

lemma piece_chunks_l1: "l1num s = l1num t \<Longrightarrow> piece_chunks s = piece_chunks t"
  by (simp add: piece_chunks_def fun_eq_iff)

definition rabin_ok :: "ext \<Rightarrow> bool" where
  "rabin_ok X \<longleftrightarrow> (\<forall>bs win tabs. bs \<noteq> [] \<longrightarrow>
     0 < rabinseg X bs win tabs \<and> rabinseg X bs win tabs \<le> int (length bs))"

lemma rabin_size:
  assumes "rabin_ok X" and "bs \<noteq> []" and "length bs < 2 ^ 64"
  shows "to_size_t (rabinseg X bs w tabs) = nat (rabinseg X bs w tabs) \<and> 0 < nat (rabinseg X bs w tabs)
    \<and> nat (rabinseg X bs w tabs) \<le> length bs"
proof -
  have "0 < rabinseg X bs w tabs" "rabinseg X bs w tabs \<le> int (length bs)"
    using assms(1,2) unfolding rabin_ok_def by blast+
  then show ?thesis using assms(3) by (simp add: to_size_t_small)
qed

definition chunk_like :: "chunk_t \<Rightarrow> bool" where
  "chunk_like c \<longleftrightarrow> chunk_ok c \<and> length (chunk_bytes c) < 2 ^ 60"

lemma chunk_okI:
  "state c = CHUNK_STATE_UNCOMPRESSED \<Longrightarrow> uncompressed_data c = mbuf_of bs \<Longrightarrow> bs \<noteq> [] \<Longrightarrow>
    chunk_ok c \<and> chunk_bytes c = bs"
  by (simp add: chunk_ok_def chunk_bytes_def)

lemma mbuf_split_of:
  "0 < k \<Longrightarrow> k < length bs \<Longrightarrow> mbuf_split (mbuf_of bs) k = Inr (mbuf_of (take k bs), mbuf_of (drop k bs))"
  by (simp add: mbuf_split_def mbuf_of_def)

text \<open>One coarse chunk becomes exactly its pieces, numbered from \<open>k\<close>, the last one marked.\<close>

lemma refine_chunk_ok:
  assumes rabin: "rabin_ok X" and mem: "\<And>n. malloc_ok X n"
  shows "chunk_like c \<Longrightarrow> chain_inv CHUNK_ANCHOR_PER_INSERT ch \<Longrightarrow>
    \<exists>ch' cs. refine_chunk X tabs (of_nat k) c (st, ch) =
        Inr (fold count_chunk (map length (pieces X tabs (chunk_bytes c))) st, ch') \<and>
      chain_inv CHUNK_ANCHOR_PER_INSERT ch' \<and> chain_items ch' = chain_items ch @ cs \<and>
      (\<forall>d\<in>set cs. chunk_like d) \<and>
      map chunk_info cs = piece_chunks (seqno c) k (pieces X tabs (chunk_bytes c))"
proof (induction "length (chunk_bytes c)" arbitrary: c st ch k rule: less_induct)
  case less
  let ?bs = "chunk_bytes c"
  let ?off = "to_size_t (rabinseg X ?bs rf_win tabs)"
  let ?k = "nat (rabinseg X ?bs rf_win tabs)"
  have c: "state c = CHUNK_STATE_UNCOMPRESSED" "?bs \<noteq> []" "uncompressed_data c = mbuf_of ?bs"
    "length ?bs < 2 ^ 60"
    using less.prems(1) by (auto simp: chunk_like_def chunk_ok_def)
  have off: "?off = ?k" "0 < ?k" "?k \<le> length ?bs"
    using rabin_size [OF rabin c(2), of rf_win tabs] c(4) by auto
  show ?case
  proof (cases "?k < length ?bs")
    case True
    define d where "d = c\<lparr>uncompressed_data := mbuf_of (take ?k ?bs), seqno := Seq (l1num (seqno c)) (of_nat k),
      isLastL2Chunk := False\<rparr>"
    define temp where "temp = malloc_chunk\<lparr>state := state c, seqno := Seq (l1num (seqno c)) 0,
      uncompressed_data := mbuf_of (drop ?k ?bs)\<rparr>"
    have dbs: "chunk_ok d \<and> chunk_bytes d = take ?k ?bs"
      using c off True by (intro chunk_okI) (auto simp: d_def)
    have tbs: "chunk_ok temp \<and> chunk_bytes temp = drop ?k ?bs"
      using c off True by (intro chunk_okI) (auto simp: temp_def)
    have like: "chunk_like d" "chunk_like temp"
      using dbs tbs c(4) by (auto simp: chunk_like_def)
    obtain ch1 where ch1: "emit CHUNK_ANCHOR_PER_INSERT d ch = Inr ch1" "chain_inv CHUNK_ANCHOR_PER_INSERT ch1"
      "chain_items ch1 = chain_items ch @ [d]"
      using emit_ok [OF less.prems(2), of d] by blast
    have "length (chunk_bytes temp) < length ?bs" using tbs off True by simp
    then obtain ch' cs where ch': "refine_chunk X tabs (of_nat (Suc k)) temp (count_chunk ?k st, ch1) =
        Inr (fold count_chunk (map length (pieces X tabs (chunk_bytes temp))) (count_chunk ?k st), ch')"
      "chain_inv CHUNK_ANCHOR_PER_INSERT ch'" "chain_items ch' = chain_items ch1 @ cs" "\<forall>d\<in>set cs. chunk_like d"
      "map chunk_info cs = piece_chunks (seqno temp) (Suc k) (pieces X tabs (chunk_bytes temp))"
      using less.hyps [OF _ like(2) ch1(2), of "Suc k" "count_chunk ?k st"] by blast
    have "refine_chunk X tabs (of_nat k) c (st, ch) =
        refine_chunk X tabs (of_nat (Suc k)) temp (count_chunk ?k st, ch1)"
      using True c(3) off(2) ch1(1) mbuf_split_of [OF off(2) True]
      by (subst refine_chunk.simps) (simp add: off(1) mem Let_def d_def temp_def add.commute min_def)
    moreover have "pieces X tabs ?bs = take ?k ?bs # pieces X tabs (chunk_bytes temp)"
      using tbs by (simp only: pieces_cut [OF refl off(2) True])
    moreover have "chunk_info d = (Seq (l1num (seqno c)) (of_nat k), False, take ?k ?bs)"
      using dbs by (simp add: chunk_info_def d_def)
    moreover have "piece_chunks (seqno temp) = piece_chunks (seqno c)"
      by (rule piece_chunks_l1) (simp add: temp_def)
    moreover have "length (take ?k ?bs) = ?k" using True by simp
    ultimately show ?thesis
      using ch' ch1(3) like(1) pieces_nonempty [of X tabs "chunk_bytes temp"]
      by (intro exI [of _ ch'] exI [of _ "d # cs"]) (simp add: piece_chunks_Cons)
  next
    case False
    define d where "d = c\<lparr>seqno := Seq (l1num (seqno c)) (of_nat k), isLastL2Chunk := True\<rparr>"
    have dbs: "chunk_ok d \<and> chunk_bytes d = ?bs"
      using c by (intro chunk_okI) (auto simp: d_def)
    then have like: "chunk_like d" using c(4) by (simp add: chunk_like_def)
    obtain ch1 where ch1: "emit CHUNK_ANCHOR_PER_INSERT d ch = Inr ch1" "chain_inv CHUNK_ANCHOR_PER_INSERT ch1"
      "chain_items ch1 = chain_items ch @ [d]"
      using emit_ok [OF less.prems(2), of d] by blast
    have "mb_len (uncompressed_data c) = length ?bs"
      using arg_cong [OF c(3), of mb_len] by simp
    then have "refine_chunk X tabs (of_nat k) c (st, ch) = Inr (count_chunk (length ?bs) st, ch1)"
      using False off(1) ch1(1)
      by (subst refine_chunk.simps) (simp add: Let_def d_def)
    moreover have "pieces X tabs ?bs = [?bs]"
      using False by (intro pieces_end [OF refl]) simp
    moreover have "map chunk_info [d] = piece_chunks (seqno c) k [?bs]"
      using dbs by (simp add: chunk_info_def piece_chunks_def d_def)
    ultimately show ?thesis
      using ch1 like by (intro exI [of _ ch1] exI [of _ "[d]"]) simp
  qed
qed

definition refine_spec :: "ext \<Rightarrow> (sequence_t \<times> byte list) list \<Rightarrow> (sequence_t \<times> bool \<times> byte list) list" where
  "refine_spec X cs = concat (map (\<lambda>(s, bs). piece_chunks s 0 (pieces X (rabininit X rf_win) bs)) cs)"

definition coarse_info :: "chunk_t \<Rightarrow> sequence_t \<times> byte list" where
  "coarse_info c = (seqno c, chunk_bytes c)"

lemma refine_fold_ok:
  assumes rabin: "rabin_ok X" and mem: "\<And>n. malloc_ok X n"
  shows "(\<forall>c\<in>set xs. chunk_like c) \<Longrightarrow> chain_inv CHUNK_ANCHOR_PER_INSERT ch \<Longrightarrow>
    \<exists>st' ch' cs. fold_err (\<lambda>c s. refine_chunk X (rabininit X rf_win) 0 c s) xs (st, ch) = Inr (st', ch') \<and>
      chain_inv CHUNK_ANCHOR_PER_INSERT ch' \<and> chain_items ch' = chain_items ch @ cs \<and>
      (\<forall>d\<in>set cs. chunk_like d) \<and> map chunk_info cs = refine_spec X (map coarse_info xs)"
proof (induction xs arbitrary: st ch)
  case Nil
  then show ?case by (auto simp: refine_spec_def)
next
  case (Cons x xs)
  have x: "chunk_like x" using Cons.prems(1) by simp
  obtain st1 ch1 cs1 where 1: "refine_chunk X (rabininit X rf_win) 0 x (st, ch) = Inr (st1, ch1)"
    "chain_inv CHUNK_ANCHOR_PER_INSERT ch1" "chain_items ch1 = chain_items ch @ cs1" "\<forall>d\<in>set cs1. chunk_like d"
    "map chunk_info cs1 = piece_chunks (seqno x) 0 (pieces X (rabininit X rf_win) (chunk_bytes x))"
    using refine_chunk_ok [OF rabin mem x Cons.prems(2), of "rabininit X rf_win" 0 st] by auto
  obtain st2 ch2 cs2 where 2: "fold_err (\<lambda>c s. refine_chunk X (rabininit X rf_win) 0 c s) xs (st1, ch1) = Inr (st2, ch2)"
    "chain_inv CHUNK_ANCHOR_PER_INSERT ch2" "chain_items ch2 = chain_items ch1 @ cs2" "\<forall>d\<in>set cs2. chunk_like d"
    "map chunk_info cs2 = refine_spec X (map coarse_info xs)"
    using Cons.IH [OF _ 1(2), of st1] Cons.prems(1) by auto
  show ?case
    using 1 2 by (intro exI [of _ st2] exI [of _ ch2] exI [of _ "cs1 @ cs2"])
      (auto simp: refine_spec_def coarse_info_def [of x])
qed

text \<open>A stage between two calls of \<open>compute\<close>: its send buffer is empty.\<close>

definition stage_ready :: "nat \<Rightarrow> 'a stage \<Rightarrow> bool" where
  "stage_ready n g \<longleftrightarrow> chain_inv n (send_buf g, []) \<and> rb_items (send_buf g) = []"

lemma stage_ready_new: "0 < n \<Longrightarrow> n + 1 < 2 ^ 31 \<Longrightarrow> stage_ready n (new_stage n)"
  using chain_inv_init [of n] by (simp add: stage_ready_def new_stage_def fifo_simps)

lemma chunk_anchor_one: "CHUNK_ANCHOR_PER_INSERT = 1" "ITEM_PER_INSERT = 1" "ANCHOR_DATA_PER_INSERT = 1"
  by (simp_all add: insert_size_defs)

text \<open>What a list of sent buffers looks like: one item each, the last one possibly the end mark.\<close>

definition sent_ok :: "'a ringbuffer list \<Rightarrow> bool \<Rightarrow> bool" where
  "sent_ok bs isLast \<longleftrightarrow>
     (\<forall>b\<in>set bs. rb_inv b \<and> rb_capacity b = 1) \<and>
     (if isLast then bs \<noteq> [] \<and> ringbuffer_isLast (last bs) \<and> rb_items (last bs) = [] \<and>
         (\<forall>b\<in>set (butlast bs). \<not> ringbuffer_isLast b \<and> length (rb_items b) = 1)
      else (\<forall>b\<in>set bs. \<not> ringbuffer_isLast b \<and> length (rb_items b) = 1))"

lemma sent_ok_chain:
  "chain_inv 1 ch \<Longrightarrow> sent_ok (snd ch) False \<and> sent_ok (close_chain ch) True \<and>
    concat (map rb_items (close_chain ch)) = chain_items ch \<and> concat (map rb_items (snd ch)) = chain_items ch"
  by (auto simp: chain_inv_def sent_ok_def close_chain_def fifo_simps chain_items_def)

lemma refine_compute_ok:
  assumes rabin: "rabin_ok X" and mem: "\<And>n. malloc_ok X n" and inv: "rb_inv recv" and like: "\<forall>c\<in>set (rb_items recv). chunk_like c"
    and ready: "stage_ready 1 fr"
  shows "\<exists>out fr'. refine_compute X recv fr = Inr (out, fr') \<and>
    sent_ok out (ringbuffer_isLast recv) \<and>
    (\<not> ringbuffer_isLast recv \<longrightarrow> stage_ready 1 fr') \<and>
    (\<forall>c\<in>set (concat (map rb_items out)). chunk_like c) \<and>
    map chunk_info (concat (map rb_items out)) = refine_spec X (map coarse_info (rb_items recv))"
proof -
  have ch0: "chain_inv 1 (send_buf fr, [])" "rb_items (send_buf fr) = []"
    using ready by (simp_all add: stage_ready_def)
  obtain st' ch' cs where f: "fold_err (\<lambda>c s. refine_chunk X (rabininit X rf_win) 0 c s) (rb_items recv)
      (thread_stats fr, (send_buf fr, [])) = Inr (st', ch')" "chain_inv 1 ch'"
    "chain_items ch' = chain_items (send_buf fr, []) @ cs" "\<forall>d\<in>set cs. chunk_like d"
    "map chunk_info cs = refine_spec X (map coarse_info (rb_items recv))"
    using refine_fold_ok [OF rabin mem like, of "(send_buf fr, [])" "thread_stats fr"] ch0(1)
    unfolding chunk_anchor_one by blast
  obtain sb out where ch': "ch' = (sb, out)" by fastforce
  have run: "buffer_fold (rb_size recv) (\<lambda>chunk s. refine_chunk X (rabininit X rf_win) 0 chunk s) recv
      (thread_stats fr, (send_buf fr, [])) = Inr (st', (sb, out))"
    using f(1) ch' by (simp add: buffer_fold_items [OF inv rb_items_size [OF inv]])
  have items: "chain_items ch' = cs" using f(3) ch0(2) by (simp add: chain_items_def)
  have sb: "stage_ready 1 (fr\<lparr>send_buf := sb, thread_stats := st'\<rparr>)"
    using f(2) ch' by (auto simp: stage_ready_def chain_inv_def)
  note sent = sent_ok_chain [OF f(2)]
  show ?thesis
  proof (cases "ringbuffer_isLast recv")
    case True
    then have "refine_compute X recv fr =
        Inr (close_chain ch', fr\<lparr>send_buf := ringbuffer_setLast sb, thread_stats := st'\<rparr>)"
      using run by (simp add: refine_compute_def Let_def ch' close_chain_def)
    moreover have "concat (map rb_items (close_chain ch')) = cs" using sent items by simp
    ultimately show ?thesis using True sent f(4,5) by metis
  next
    case False
    then have "refine_compute X recv fr = Inr (snd ch', fr\<lparr>send_buf := sb, thread_stats := st'\<rparr>)"
      using run by (simp add: refine_compute_def Let_def ch')
    moreover have "concat (map rb_items (snd ch')) = cs" using sent items by simp
    ultimately show ?thesis using False sent f(4,5) sb by metis
  qed
qed

end
