(* ===== verification/DedupFragment.thy ===== *)
theory DedupFragment
  imports DedupRefine
begin

text \<open>
  The fragmentation stage (class \<open>Fragment\<close> of \<open>encoder_ff_ofarm.cpp\<close>): read the input in
  blocks of \<open>MAXBUF\<close> bytes, split it into coarse chunks at least \<open>ANCHOR_JUMP\<close> bytes apart, carry
  the unsplit rest over to the next block, and send the chunks, one per buffer, followed by an
  end mark for every worker.
\<close>

text \<open>
  The input: the bytes of the file (with preloading, of the buffer that \<open>EncodeFF\<close> filled from
  it) and, for every call of \<open>read\<close>, the most it returns; a negative number is an error. A read
  returns 0 only at the end of the file.
\<close>

record input =
  in_file :: "byte list"
  in_read :: "nat \<Rightarrow> int"

definition sys_read :: "input \<Rightarrow> nat \<Rightarrow> nat \<Rightarrow> nat \<Rightarrow> int" where
  "sys_read io k pos req =
     (if in_read io k < 0 then - 1
      else int (min (max 1 (nat (in_read io k))) (min req (length (in_file io) - pos))))"

lemma sys_read_le: "nat (sys_read io k pos req) \<le> length (in_file io) - pos"
proof (cases "in_read io k < 0")
  case True
  then show ?thesis by (simp add: sys_read_def)
next
  case False
  then have "nat (sys_read io k pos req) =
      min (max 1 (nat (in_read io k))) (min req (length (in_file io) - pos))"
    by (simp only: sys_read_def if_False nat_int)
  also have "\<dots> \<le> length (in_file io) - pos"
    by (rule le_trans [OF min.cobounded2 min.cobounded2])
  finally show ?thesis .
qed

lemma length_read: "length (take (nat (sys_read io k pos req)) (drop pos (in_file io))) = nat (sys_read io k pos req)"
  using sys_read_le [of io k pos req] by (simp only: length_take length_drop min_absorb2)

text \<open>The loop \<open>while(bytes_read < MAXBUF)\<close>; \<open>acc\<close> holds the bytes read, \<open>k\<close> counts the calls.\<close>

function read_block :: "input \<Rightarrow> nat \<Rightarrow> nat \<Rightarrow> byte list \<Rightarrow> err + (byte list \<times> nat \<times> nat)" where
  "read_block io k pos acc =
     (if length acc < MAXBUF then
        (let r = sys_read io k pos (MAXBUF - length acc) in
         if r < 0 then Inl (ExitTrace ''I/O error'')
         else if r = 0 then Inr (acc, pos, k + 1)
         else read_block io (k + 1) (pos + nat r) (acc @ take (nat r) (drop pos (in_file io))))
      else Inr (acc, pos, k))"
  by auto
termination
proof (relation "measure (\<lambda>(io, k, pos, acc). MAXBUF - length acc)")
  fix io k pos x and acc :: "byte list"
  assume less: "length acc < MAXBUF" and x: "x = sys_read io k pos (MAXBUF - length acc)"
    and r: "\<not> x < 0" "x \<noteq> 0"
  have len: "length (take (nat x) (drop pos (in_file io))) = nat x"
    unfolding x by (rule length_read)
  have "0 < nat x" using r by simp
  then show "((io, k + 1, pos + nat x, acc @ take (nat x) (drop pos (in_file io))), io, k, pos, acc)
      \<in> measure (\<lambda>(io, k, pos, acc). MAXBUF - length acc)"
    unfolding in_measure prod.case length_append len using less by linarith
qed simp

declare read_block.simps [simp del]

definition fetch :: "config_t \<Rightarrow> input \<Rightarrow> nat \<Rightarrow> nat \<Rightarrow> err + (byte list \<times> nat \<times> nat)" where
  "fetch conf io k pos =
     (if preloading conf then
        (let max_read = min MAXBUF (length (in_file io) - pos) in
         Inr (take max_read (drop pos (in_file io)), pos + max_read, k))
      else read_block io k pos [])"

text \<open>
  The \<open>do ... while(split)\<close> loop on one block: the rest, the next anchor number, the chain. The sum
  \<open>offset + ANCHOR_JUMP\<close> is one of \<open>int\<close>s in the code; it does not overflow for blocks below 2 GiB.
\<close>

function coarse_split :: "ext \<Rightarrow> rabin_tabs \<Rightarrow> chunk_t \<Rightarrow> u32 \<Rightarrow> chunk_t chain \<Rightarrow>
    err + (chunk_t \<times> u32 \<times> chunk_t chain)" where
  "coarse_split X tabs chunk anchorcount ch =
     (if ANCHOR_JUMP < mb_len (uncompressed_data chunk) then
        (let offset = rabinseg X (drop ANCHOR_JUMP (chunk_bytes chunk)) rf_win_dataprocess tabs in
         if offset = 0 then Inl AssertFailed
         else if to_size_t (offset + int ANCHOR_JUMP) < mb_len (uncompressed_data chunk) then
           (if \<not> malloc_ok X sizeof_chunk_t then Inl (ExitTrace ''Memory allocation failed.'')
            else case mbuf_split (uncompressed_data chunk) (to_size_t (offset + int ANCHOR_JUMP)) of
              Inl e \<Rightarrow> Inl e
            | Inr (m1, m2) \<Rightarrow>
              (let temp = malloc_chunk\<lparr>uncompressed_data := m2, state := CHUNK_STATE_UNCOMPRESSED,
                     seqno := Seq anchorcount 0\<rparr>;
                   chunk = chunk\<lparr>uncompressed_data := m1\<rparr> in
               (case emit ANCHOR_DATA_PER_INSERT chunk ch of Inl e \<Rightarrow> Inl e
                | Inr ch \<Rightarrow> coarse_split X tabs temp (anchorcount + 1) ch)))
         else Inr (chunk, anchorcount, ch))
      else Inr (chunk, anchorcount, ch))"
  by pat_completeness auto
termination
  by (relation "measure (\<lambda>(X, tabs, chunk, s). mb_len (uncompressed_data chunk))")
    (auto simp: mbuf_split_def split: if_splits)

declare coarse_split.simps [simp del]

lemma read_block_pos:
  "read_block io k pos acc = Inr (bs, pos', k') \<Longrightarrow>
    \<exists>new. bs = acc @ new \<and> pos' = pos + length new \<and> new = take (length new) (drop pos (in_file io))"
proof (induction io k pos acc rule: read_block.induct)
  case (1 io k pos acc)
  let ?r = "sys_read io k pos (MAXBUF - length acc)"
  consider "MAXBUF \<le> length acc" | "length acc < MAXBUF" "?r = 0"
    | (more) "length acc < MAXBUF" "0 < ?r" | "length acc < MAXBUF" "?r < 0" by linarith
  then show ?case
  proof cases
    case more
    let ?new = "take (nat ?r) (drop pos (in_file io))"
    have len: "length ?new = nat ?r"
      by (rule length_read)
    have "read_block io (k + 1) (pos + nat ?r) (acc @ ?new) = Inr (bs, pos', k')"
      using "1.prems" more by (subst (asm) read_block.simps) (simp add: Let_def)
    then obtain n where n: "bs = (acc @ ?new) @ n" "pos' = pos + nat ?r + length n"
      "n = take (length n) (drop (pos + nat ?r) (in_file io))"
      using "1.IH" [OF more(1) refl] more(2) by auto
    have "?new @ n = take (nat ?r + length n) (drop pos (in_file io))"
      unfolding take_add using n(3) by (simp add: add.commute)
    moreover have "length (?new @ n) = nat ?r + length n"
      unfolding length_append len ..
    ultimately show ?thesis
      using n(1,2) by (intro exI [of _ "?new @ n"]) (metis append_assoc add.assoc)
  qed (use "1.prems" in \<open>auto simp: read_block.simps [of io k pos acc] Let_def\<close>)
qed

lemma fetch_pos:
  "fetch conf io k pos = Inr (bs, pos', k') \<Longrightarrow>
    pos' = pos + length bs \<and> bs = take (length bs) (drop pos (in_file io))"
  using read_block_pos [of io k pos "[]" bs pos' k']
  by (auto simp: fetch_def Let_def split: if_splits)

lemma fetch_less:
  assumes "fetch conf io k pos = Inr (bs, pos', k')" and "bs \<noteq> []"
  shows "length (in_file io) - pos' < length (in_file io) - pos"
proof -
  have "length bs \<le> length (in_file io) - pos"
    using fetch_pos [OF assms(1)] by (metis length_drop length_take min.cobounded1 min.absorb_iff2)
  then show ?thesis using fetch_pos [OF assms(1)] assms(2) by (cases bs) auto
qed

text \<open>The loop \<open>while(1)\<close> of the stage; \<open>temp\<close> is the rest of the previous block.\<close>

function fragment_loop :: "ext \<Rightarrow> config_t \<Rightarrow> input \<Rightarrow> rabin_tabs \<Rightarrow> chunk_t option \<Rightarrow> u32 \<Rightarrow>
    nat \<Rightarrow> nat \<Rightarrow> chunk_t chain \<Rightarrow> err + chunk_t chain" where
  "fragment_loop X conf io tabs temp anchorcount k pos ch =
     (let bytes_left = (case temp of None \<Rightarrow> 0 | Some t \<Rightarrow> mb_len (uncompressed_data t)) in
      if SSIZE_MAX < MAXBUF + bytes_left then Inl (ExitTrace ''Input buffer size exceeds system maximum.'')
      else if \<not> malloc_ok X sizeof_chunk_t then Inl (ExitTrace ''Memory allocation failed.'')
      else if \<not> malloc_ok X (MAXBUF + bytes_left) then Inl (ExitTrace ''Unable to initialize memory buffer.'')
      else
        (let left = (if 0 < bytes_left then chunk_bytes (the temp) else []);
             l1 = (if 0 < bytes_left then l1num (seqno (the temp)) else anchorcount);
             ac = (if 0 < bytes_left then anchorcount else anchorcount + 1) in
         (case fetch conf io k pos of
            Inl e \<Rightarrow> Inl e
          | Inr (bs, pos', k') \<Rightarrow>
            if bytes_left + length bs = 0 then Inr ch
            else if length bs < MAXBUF \<and> \<not> malloc_ok X (bytes_left + length bs) then Inl AssertFailed
            else
              (let chunk = malloc_chunk\<lparr>state := CHUNK_STATE_UNCOMPRESSED, seqno := Seq l1 0,
                     uncompressed_data := mbuf_of (left @ bs)\<rparr> in
               if bs = [] then
                 (case ringbuffer_insert (fst ch) chunk of (r, sb) \<Rightarrow>
                    if r \<noteq> 0 then Inl AssertFailed else Inr (sb, snd ch))
               else
                 (case coarse_split X tabs chunk ac ch of
                    Inl e \<Rightarrow> Inl e
                  | Inr (temp', ac', ch') \<Rightarrow>
                      fragment_loop X conf io tabs (Some temp') ac' k' pos' ch')))))"
  by pat_completeness auto
termination
  by (relation "measure (\<lambda>(X, conf, io, tabs, temp, ac, k, pos, ch). length (in_file io) - pos)")
    (auto dest: fetch_less)

declare fragment_loop.simps [simp del]

definition fragment_svc :: "ext \<Rightarrow> config_t \<Rightarrow> input \<Rightarrow> nat \<Rightarrow> err + chunk_t ringbuffer list" where
  "fragment_svc X conf io nw =
     (let tabs = rabininit X rf_win_dataprocess in
      if \<not> malloc_ok X sizeof_rabintab then Inl (ExitTrace ''Memory allocation failed.'')
      else (case fragment_loop X conf io tabs None 0 0 0 (ringbuffer_init ANCHOR_DATA_PER_INSERT, []) of
         Inl e \<Rightarrow> Inl e
       | Inr (sb, sent) \<Rightarrow>
           Inr (sent @ [ringbuffer_setLast sb] @
             replicate (nw - 1) (ringbuffer_setLast (ringbuffer_init ANCHOR_DATA_PER_INSERT)))))"

subsection \<open>What the stage computes\<close>

text \<open>
  \<open>numbered m cs\<close>: the chunks carry the first-level numbers \<open>m\<close>, \<open>m + 1\<close>, \dots (modulo $2^{32}$).
\<close>

definition numbered :: "nat \<Rightarrow> chunk_t list \<Rightarrow> bool" where
  "numbered m cs \<longleftrightarrow> map (\<lambda>c. l1num (seqno c)) cs = map of_nat [m..<m + length cs]"

lemma numbered_Nil: "numbered m []"
  by (simp add: numbered_def)

lemma numbered_Cons: "numbered m (c # cs) \<longleftrightarrow> l1num (seqno c) = of_nat m \<and> numbered (Suc m) cs"
  by (auto simp: numbered_def upt_conv_Cons simp del: upt_Suc)

lemma numbered_append: "numbered m (cs @ ds) \<longleftrightarrow> numbered m cs \<and> numbered (m + length cs) ds"
proof (induction cs arbitrary: m)
  case Nil
  then show ?case by (simp add: numbered_Nil)
next
  case (Cons c cs)
  then show ?case by (simp add: numbered_Cons)
qed

lemma coarse_split_ok:
  assumes rabin: "rabin_ok X" and mem: "\<And>n. malloc_ok X n"
  shows "chunk_like c \<Longrightarrow> chain_inv 1 ch \<Longrightarrow> l1num (seqno c) = of_nat m \<Longrightarrow>
    \<exists>temp ch' cs. coarse_split X tabs c (of_nat (Suc m)) ch = Inr (temp, of_nat (Suc (m + length cs)), ch') \<and>
      chain_inv 1 ch' \<and> chain_items ch' = chain_items ch @ cs \<and> (\<forall>d\<in>set cs. chunk_like d) \<and>
      chunk_like temp \<and> numbered m (cs @ [temp]) \<and>
      concat (map chunk_bytes cs) @ chunk_bytes temp = chunk_bytes c"
proof (induction "length (chunk_bytes c)" arbitrary: c ch m rule: less_induct)
  case less
  let ?bs = "chunk_bytes c" and ?J = ANCHOR_JUMP
  let ?off = "rabinseg X (drop ?J ?bs) rf_win_dataprocess tabs"
  have c: "state c = CHUNK_STATE_UNCOMPRESSED" "?bs \<noteq> []" "uncompressed_data c = mbuf_of ?bs"
    "length ?bs < 2 ^ 60" "mb_len (uncompressed_data c) = length ?bs"
    using less.prems(1) by (auto simp: chunk_like_def chunk_ok_def intro: arg_cong [where f = mb_len, THEN trans])
  show ?case
  proof (cases "?J < length ?bs \<and> to_size_t (?off + int ?J) < length ?bs")
    case True
    have "drop ?J ?bs \<noteq> []" using True by simp
    then have off: "0 < ?off" "?off \<le> int (length (drop ?J ?bs))"
      using rabin unfolding rabin_ok_def by blast+
    define p where "p = to_size_t (?off + int ?J)"
    have p: "p = nat (?off + int ?J)" "0 < p" "p < length ?bs"
      using off True c(4) by (auto simp: p_def to_size_t_small)
    define d where "d = c\<lparr>uncompressed_data := mbuf_of (take p ?bs)\<rparr>"
    define temp where "temp = malloc_chunk\<lparr>uncompressed_data := mbuf_of (drop p ?bs),
      state := CHUNK_STATE_UNCOMPRESSED, seqno := Seq (of_nat (Suc m)) 0\<rparr>"
    have dbs: "chunk_ok d \<and> chunk_bytes d = take p ?bs"
      using c p by (intro chunk_okI) (auto simp: d_def)
    have tbs: "chunk_ok temp \<and> chunk_bytes temp = drop p ?bs"
      using p by (intro chunk_okI) (auto simp: temp_def)
    have like: "chunk_like d" "chunk_like temp"
      using dbs tbs c(4) by (auto simp: chunk_like_def)
    obtain ch1 where ch1: "emit 1 d ch = Inr ch1" "chain_inv 1 ch1" "chain_items ch1 = chain_items ch @ [d]"
      using emit_ok [OF less.prems(2), of d] by blast
    have "length (chunk_bytes temp) < length ?bs" "l1num (seqno temp) = of_nat (Suc m)"
      using tbs p by (simp_all add: temp_def)
    then obtain t ch' cs where r: "coarse_split X tabs temp (of_nat (Suc (Suc m))) ch1 =
        Inr (t, of_nat (Suc (Suc m + length cs)), ch')"
      "chain_inv 1 ch'" "chain_items ch' = chain_items ch1 @ cs" "\<forall>d\<in>set cs. chunk_like d" "chunk_like t"
      "numbered (Suc m) (cs @ [t])" "concat (map chunk_bytes cs) @ chunk_bytes t = chunk_bytes temp"
      using less.hyps [OF _ like(2) ch1(2), of "Suc m"] by blast
    have e: "(of_nat (Suc m) :: u32) + 1 = of_nat (Suc (Suc m))" by simp
    have "coarse_split X tabs c (of_nat (Suc m)) ch = coarse_split X tabs temp (of_nat (Suc (Suc m))) ch1"
      using True c(5) off(1) ch1(1) mbuf_split_of [OF p(2,3)] c(3)
      by (subst coarse_split.simps)
        (simp add: mem Let_def p_def [symmetric] d_def temp_def chunk_anchor_one e del: of_nat_Suc)
    moreover have "numbered m ((d # cs) @ [t])"
      using r(6) less.prems(3) by (simp add: numbered_Cons d_def)
    moreover have "concat (map chunk_bytes (d # cs)) @ chunk_bytes t = ?bs"
      using r(7) dbs tbs by simp
    ultimately show ?thesis
      using r ch1(3) like(1)
      by (intro exI [of _ t] exI [of _ ch'] exI [of _ "d # cs"]) simp
  next
    case False
    have "drop ?J ?bs \<noteq> []" if "?J < length ?bs" using that by simp
    then have "?off \<noteq> 0" if "?J < length ?bs"
      using that rabin unfolding rabin_ok_def by (metis less_irrefl)
    then have "coarse_split X tabs c (of_nat (Suc m)) ch = Inr (c, of_nat (Suc m), ch)"
      using False c(5) by (subst coarse_split.simps) (auto simp: Let_def)
    then show ?thesis
      using less.prems by (intro exI [of _ c] exI [of _ ch] exI [of _ "[]"])
        (simp add: numbered_Cons numbered_Nil)
  qed
qed

definition reads_ok :: "input \<Rightarrow> bool" where
  "reads_ok io \<longleftrightarrow> (\<forall>k. 0 \<le> in_read io k)"

lemma sys_read_zero:
  assumes "reads_ok io" and "0 < req"
  shows "0 \<le> sys_read io k pos req \<and> (sys_read io k pos req = 0 \<longleftrightarrow> length (in_file io) \<le> pos)"
  using assms by (auto simp: sys_read_def reads_ok_def min_def not_less)

lemma read_block_ok:
  "reads_ok io \<Longrightarrow> \<exists>bs pos' k'. read_block io k pos acc = Inr (bs, pos', k') \<and>
    (bs = [] \<longrightarrow> length (in_file io) \<le> pos)"
proof (induction io k pos acc rule: read_block.induct)
  case (1 io k pos acc)
  let ?r = "sys_read io k pos (MAXBUF - length acc)"
  consider (full) "MAXBUF \<le> length acc" | (eof) "length acc < MAXBUF" "?r = 0"
    | (more) "length acc < MAXBUF" "0 < ?r"
    using sys_read_zero [OF "1.prems", of "MAXBUF - length acc" k pos] by linarith
  then show ?case
  proof cases
    case full
    then show ?thesis using maxbuf_pos by (subst read_block.simps) auto
  next
    case eof
    then show ?thesis
      using sys_read_zero [OF "1.prems", of "MAXBUF - length acc" k pos]
      by (subst read_block.simps) (simp add: Let_def)
  next
    case more
    let ?new = "take (nat ?r) (drop pos (in_file io))"
    obtain bs pos' k' where r: "read_block io (k + 1) (pos + nat ?r) (acc @ ?new) = Inr (bs, pos', k')"
      using "1.IH" [OF more(1) refl] more(2) "1.prems" by auto
    have "length ?new = nat ?r" by (rule length_read)
    then have "acc @ ?new \<noteq> []" using more(2) by (metis append_is_Nil_conv length_0_conv nat_0_iff not_le)
    then have "bs \<noteq> []" using read_block_pos [OF r] by auto
    then show ?thesis using more r by (subst read_block.simps) (simp add: Let_def)
  qed
qed

lemma fetch_ok:
  assumes "reads_ok io"
  shows "\<exists>bs pos' k'. fetch conf io k pos = Inr (bs, pos', k') \<and> (bs = [] \<longrightarrow> length (in_file io) \<le> pos)"
  using read_block_ok [OF assms, of k pos "[]"] maxbuf_pos by (auto simp: fetch_def Let_def min_def)

definition opt_list :: "'a option \<Rightarrow> 'a list" where
  "opt_list x = (case x of None \<Rightarrow> [] | Some y \<Rightarrow> [y])"

text \<open>The state at the head of the loop: every byte read so far is in a chunk sent or in the rest.\<close>

definition frag_inv :: "input \<Rightarrow> chunk_t option \<Rightarrow> nat \<Rightarrow> chunk_t chain \<Rightarrow> bool" where
  "frag_inv io temp pos ch \<longleftrightarrow>
     chain_inv 1 ch \<and> (\<forall>d\<in>set (chain_items ch @ opt_list temp). chunk_like d) \<and>
     numbered 0 (chain_items ch @ opt_list temp) \<and> (temp = None \<longrightarrow> chain_items ch = []) \<and>
     concat (map chunk_bytes (chain_items ch @ opt_list temp)) = take pos (in_file io)"

definition frag_done :: "input \<Rightarrow> chunk_t chain \<Rightarrow> bool" where
  "frag_done io ch \<longleftrightarrow>
     rb_inv (fst ch) \<and> rb_capacity (fst ch) = 1 \<and> sent_ok (snd ch) False \<and>
     (\<forall>d\<in>set (chain_items ch). chunk_like d) \<and> numbered 0 (chain_items ch) \<and>
     concat (map chunk_bytes (chain_items ch)) = in_file io"

lemma frag_inv_done: "frag_inv io None pos ch \<Longrightarrow> length (in_file io) \<le> pos \<Longrightarrow> frag_done io ch"
  using sent_ok_chain [of ch] by (auto simp: frag_inv_def frag_done_def opt_list_def chain_inv_def)

lemma frag_insert_done:
  assumes "frag_inv io (Some t) pos ch" and "length (in_file io) \<le> pos"
    and "chunk_like c" and "l1num (seqno c) = l1num (seqno t)" and "chunk_bytes c = chunk_bytes t"
  shows "\<exists>sb. ringbuffer_insert (fst ch) c = (0, sb) \<and> frag_done io (sb, snd ch)"
proof -
  have inv: "chain_inv 1 ch" using assms(1) by (simp add: frag_inv_def)
  obtain sb where sb: "ringbuffer_insert (fst ch) c = (0, sb)" "rb_inv sb"
    "rb_items sb = rb_items (fst ch) @ [c]" "rb_size sb = rb_size (fst ch)"
    using ringbuffer_insert_room [of "fst ch" c] inv by (auto simp: chain_inv_def)
  have items: "chain_items (sb, snd ch) = chain_items ch @ [c]" using sb(3) by (simp add: chain_items_def)
  have "numbered 0 (chain_items ch @ [c])"
    using assms(1,4) by (simp add: frag_inv_def opt_list_def numbered_append numbered_Cons numbered_Nil)
  then have "frag_done io (sb, snd ch)"
    using assms sb inv sent_ok_chain [OF inv] items
    by (auto simp: frag_done_def frag_inv_def opt_list_def rb_capacity_def chain_inv_def)
  then show ?thesis using sb(1) by blast
qed

text \<open>The chunk that the loop builds from the rest and a new block, and its number.\<close>

definition next_l1 :: "chunk_t option \<Rightarrow> chunk_t chain \<Rightarrow> nat" where
  "next_l1 temp ch = length (chain_items ch @ opt_list temp)"

lemma frag_inv_extend:
  assumes inv: "frag_inv io temp pos ch" and c: "chunk_like c"
    and c': "chunk_bytes c = concat (map chunk_bytes (opt_list temp)) @ bs" "l1num (seqno c) = of_nat (length (chain_items ch))"
    and bs: "bs = take (length bs) (drop pos (in_file io))" and pos: "pos \<le> length (in_file io)"
    and split: "chain_inv 1 ch'" "chain_items ch' = chain_items ch @ cs" "\<forall>d\<in>set cs. chunk_like d" "chunk_like t"
      "numbered (length (chain_items ch)) (cs @ [t])" "concat (map chunk_bytes cs) @ chunk_bytes t = chunk_bytes c"
  shows "frag_inv io (Some t) (pos + length bs) ch'"
proof -
  have num: "numbered 0 (chain_items ch)" and like: "\<forall>d\<in>set (chain_items ch). chunk_like d"
    using inv by (auto simp: frag_inv_def numbered_append)
  have "concat (map chunk_bytes (chain_items ch' @ opt_list (Some t))) =
      concat (map chunk_bytes (chain_items ch @ opt_list temp)) @ bs"
    using split(2,6) c'(1) by (simp add: opt_list_def)
  also have "\<dots> = take pos (in_file io) @ take (length bs) (drop pos (in_file io))"
    using inv bs by (simp add: frag_inv_def)
  also have "\<dots> = take (pos + length bs) (in_file io)" by (simp only: take_add)
  finally have bytes: "concat (map chunk_bytes (chain_items ch' @ opt_list (Some t))) = take (pos + length bs) (in_file io)" .
  have "numbered 0 (chain_items ch' @ opt_list (Some t))"
    using split(2,5) num by (simp add: opt_list_def numbered_append)
  moreover have "\<forall>d\<in>set (chain_items ch' @ opt_list (Some t)). chunk_like d"
    using split(2,3,4) like by (auto simp: opt_list_def)
  ultimately show ?thesis using bytes split(1) by (simp add: frag_inv_def)
qed

lemma frag_temp:
  assumes "frag_inv io (Some t) pos ch"
  shows "chunk_like t \<and> uncompressed_data t = mbuf_of (chunk_bytes t) \<and>
    mb_len (uncompressed_data t) = length (chunk_bytes t) \<and> 0 < length (chunk_bytes t) \<and>
    l1num (seqno t) = of_nat (length (chain_items ch)) \<and> length (chunk_bytes t) \<le> length (in_file io)"
proof -
  have t: "chunk_like t" "numbered (length (chain_items ch)) [t]"
    and cat: "concat (map chunk_bytes (chain_items ch)) @ chunk_bytes t = take pos (in_file io)"
    using assms by (auto simp: frag_inv_def opt_list_def numbered_append)
  have "length (chunk_bytes t) \<le> length (in_file io)"
    using arg_cong [OF cat, of length] by simp
  moreover have u: "uncompressed_data t = mbuf_of (chunk_bytes t)" and "chunk_bytes t \<noteq> []"
    using t(1) by (auto simp: chunk_like_def chunk_ok_def)
  moreover have "mb_len (uncompressed_data t) = length (chunk_bytes t)" using arg_cong [OF u, of mb_len] by simp
  ultimately show ?thesis using t by (simp add: numbered_Cons)
qed

lemma fragment_loop_ok:
  assumes rabin: "rabin_ok X" and mem: "\<And>n. malloc_ok X n" and reads: "reads_ok io"
    and small: "length (in_file io) < 2 ^ 60"
  shows "frag_inv io temp pos ch \<Longrightarrow> pos \<le> length (in_file io) \<Longrightarrow> (temp = None \<longrightarrow> pos = 0) \<Longrightarrow>
    \<exists>ch'. fragment_loop X conf io tabs temp (of_nat (next_l1 temp ch)) k pos ch = Inr ch' \<and> frag_done io ch'"
proof (induction "length (in_file io) - pos" arbitrary: temp k pos ch rule: less_induct)
  case less
  let ?left = "concat (map chunk_bytes (opt_list temp))"
  let ?bl = "case temp of None \<Rightarrow> 0 | Some t \<Rightarrow> mb_len (uncompressed_data t)"
  have bl: "?bl = length ?left" "length ?left \<le> length (in_file io)" "0 < ?bl \<longleftrightarrow> temp \<noteq> None"
    using frag_temp [of io "the temp" pos ch] less.prems(1) by (auto simp: opt_list_def split: option.splits)
  have ssize: "\<not> SSIZE_MAX < MAXBUF + ?bl"
    using bl small by (simp add: SSIZE_MAX_def MAXBUF_def)
  obtain bs pos' k' where f: "fetch conf io k pos = Inr (bs, pos', k')" "bs = [] \<longrightarrow> length (in_file io) \<le> pos"
    using fetch_ok [OF reads, of conf k pos] by blast
  have p: "pos' = pos + length bs" "bs = take (length bs) (drop pos (in_file io))"
    using fetch_pos [OF f(1)] by blast+
  define c where "c = malloc_chunk\<lparr>state := CHUNK_STATE_UNCOMPRESSED, seqno := Seq (of_nat (length (chain_items ch))) 0,
    uncompressed_data := mbuf_of (?left @ bs)\<rparr>"
  have head: "(if 0 < ?bl then chunk_bytes (the temp) else []) = ?left"
    "(if 0 < ?bl then l1num (seqno (the temp)) else of_nat (next_l1 temp ch)) = (of_nat (length (chain_items ch)) :: u32)"
    "(if 0 < ?bl then of_nat (next_l1 temp ch) else of_nat (next_l1 temp ch) + 1) = (of_nat (Suc (length (chain_items ch))) :: u32)"
    using bl(3) frag_temp [of io "the temp" pos ch] less.prems(1)
    by (auto simp: opt_list_def next_l1_def)
  have loop: "fragment_loop X conf io tabs temp (of_nat (next_l1 temp ch)) k pos ch =
      (if ?left @ bs = [] then Inr ch
       else if bs = [] then (case ringbuffer_insert (fst ch) c of (r, sb) \<Rightarrow>
                    if r \<noteq> 0 then Inl AssertFailed else Inr (sb, snd ch))
       else (case coarse_split X tabs c (of_nat (Suc (length (chain_items ch)))) ch of Inl e \<Rightarrow> Inl e
             | Inr (temp', ac', ch') \<Rightarrow> fragment_loop X conf io tabs (Some temp') ac' k' pos' ch'))"
    unfolding fragment_loop.simps [of X conf io tabs temp "of_nat (next_l1 temp ch)" k pos ch] Let_def head
    using ssize mem f(1) bl(1) by (simp add: c_def)
  consider (empty) "?left @ bs = []" | (last) t where "temp = Some t" "bs = []" | (more) "bs \<noteq> []"
    by (cases temp) (auto simp: opt_list_def)
  then show ?case
  proof cases
    case empty
    then have "temp = None" using bl(1,3) by auto
    then show ?thesis using loop empty f(2) frag_inv_done [of io pos ch] less.prems(1) by auto
  next
    case (last t)
    have t: "chunk_like t" "0 < length (chunk_bytes t)" "l1num (seqno t) = of_nat (length (chain_items ch))"
      using frag_temp [of io t pos ch] less.prems(1) last(1) by auto
    have cb: "chunk_ok c \<and> chunk_bytes c = chunk_bytes t"
      using t last by (intro chunk_okI) (auto simp: c_def opt_list_def)
    have like: "chunk_like c" using cb t(1) by (simp add: chunk_like_def)
    have "l1num (seqno c) = l1num (seqno t)" using t(3) by (simp add: c_def)
    then obtain sb where "ringbuffer_insert (fst ch) c = (0, sb)" "frag_done io (sb, snd ch)"
      using frag_insert_done [of io t pos ch c] less.prems(1) f(2) last cb like by blast
    moreover have "?left @ bs \<noteq> []" using last t(2) by (simp add: opt_list_def)
    ultimately show ?thesis using loop last(2) by (auto simp: bex_simps)
  next
    case more
    have ltot: "length (?left @ bs) \<le> length (in_file io)"
    proof -
      have "length ?left \<le> pos"
      proof -
        have "concat (map chunk_bytes (chain_items ch)) @ ?left = take pos (in_file io)"
          using less.prems(1) by (simp add: frag_inv_def)
        from arg_cong [OF this, of length] show ?thesis by simp
      qed
      moreover have "length bs \<le> length (in_file io) - pos"
        using arg_cong [OF p(2), of length] by simp
      ultimately show ?thesis using less.prems(2) by simp
    qed
    have cb: "chunk_ok c \<and> chunk_bytes c = ?left @ bs"
      using more by (intro chunk_okI) (auto simp: c_def)
    have like: "chunk_like c" using cb ltot small by (simp add: chunk_like_def)
    have l1: "l1num (seqno c) = of_nat (length (chain_items ch))" by (simp add: c_def)
    have inv1: "chain_inv 1 ch" using less.prems(1) by (simp add: frag_inv_def)
    obtain t ch' cs where r: "coarse_split X tabs c (of_nat (Suc (length (chain_items ch)))) ch =
        Inr (t, of_nat (Suc (length (chain_items ch) + length cs)), ch')"
      "chain_inv 1 ch'" "chain_items ch' = chain_items ch @ cs" "\<forall>d\<in>set cs. chunk_like d" "chunk_like t"
      "numbered (length (chain_items ch)) (cs @ [t])" "concat (map chunk_bytes cs) @ chunk_bytes t = chunk_bytes c"
      using coarse_split_ok [OF rabin mem like inv1 l1, of tabs] by blast
    have inv': "frag_inv io (Some t) pos' ch'"
      unfolding p(1) by (rule frag_inv_extend [OF less.prems(1) like _ l1 p(2) less.prems(2) r(2-7)])
        (use cb in simp)
    have "length bs \<le> length (in_file io) - pos"
      using arg_cong [OF p(2), of length] by simp
    then have pos': "pos' \<le> length (in_file io)" "length (in_file io) - pos' < length (in_file io) - pos"
      using p(1) more less.prems(2) fetch_less [OF f(1) more] by auto
    have n: "of_nat (Suc (length (chain_items ch) + length cs)) = (of_nat (next_l1 (Some t) ch') :: u32)"
      using r(3) by (simp add: next_l1_def opt_list_def)
    show ?thesis
      using less.hyps [OF pos'(2) inv' pos'(1), of k'] loop r(1) more n by simp
  qed
qed

text \<open>
  The stage as a whole: \<open>bs\<close> are the full buffers, \<open>lb\<close> is the last one, with at most one chunk,
  and every other worker gets an empty last buffer.
\<close>

lemma fragment_svc_ok:
  assumes "rabin_ok X" and "\<And>n. malloc_ok X n" and "reads_ok io" and "length (in_file io) < 2 ^ 60"
  shows "\<exists>bs lb. fragment_svc X conf io nw = Inr (bs @ [lb] @ replicate (nw - 1) (ringbuffer_setLast (ringbuffer_init 1))) \<and>
    sent_ok bs False \<and> rb_inv lb \<and> rb_capacity lb = 1 \<and> ringbuffer_isLast lb \<and>
    (\<forall>d\<in>set (concat (map rb_items (bs @ [lb]))). chunk_like d) \<and>
    numbered 0 (concat (map rb_items (bs @ [lb]))) \<and>
    concat (map chunk_bytes (concat (map rb_items (bs @ [lb])))) = in_file io"
proof -
  have "frag_inv io None 0 (ringbuffer_init 1, [])"
    using chain_inv_init [of 1] by (simp add: frag_inv_def opt_list_def chain_items_init numbered_Nil)
  moreover have "next_l1 None (ringbuffer_init 1 :: chunk_t ringbuffer, []) = 0"
    by (simp add: next_l1_def opt_list_def chain_items_init)
  ultimately obtain sb bs where l: "fragment_loop X conf io (rabininit X rf_win_dataprocess) None 0 0 0
      (ringbuffer_init 1, []) = Inr (sb, bs)" "frag_done io (sb, bs)"
    using fragment_loop_ok [OF assms, of None 0 "(ringbuffer_init 1, [])" conf "rabininit X rf_win_dataprocess" 0]
    by (auto simp del: One_nat_def)
  have items: "concat (map rb_items (bs @ [ringbuffer_setLast sb])) = chain_items (sb, bs)"
    using close_chain_items [of "(sb, bs)"] by (simp add: close_chain_def)
  have "fragment_svc X conf io nw = Inr (bs @ [ringbuffer_setLast sb] @
      replicate (nw - 1) (ringbuffer_setLast (ringbuffer_init 1)))"
    using l(1) assms(2) by (simp add: fragment_svc_def chunk_anchor_one Let_def)
  then show ?thesis
    using l(2) items
    by (intro exI [of _ bs] exI [of _ "ringbuffer_setLast sb"])
      (simp add: frag_done_def fifo_simps del: concat_append map_append set_concat)
qed

end
