(* ===== verification/DedupWorkers.thy ===== *)
theory DedupWorkers
  imports DedupFragment
begin

text \<open>
  The stages that work on published chunks (classes \<open>Deduplicate\<close>, \<open>Compress\<close>, \<open>Reorder\<close> and
  \<open>CollapsedPipeline\<close> of \<open>encoder_ff_ofarm.cpp\<close>) as threads over the shared state. From
  deduplication on, buffers hold the addresses of chunks.
\<close>

type_synonym 'a thread = "(act, res, 'a) proc"

text \<open>
  The loop \<open>for(ringbuffer_t* recv_buf : recv_buf_v)\<close> of a stage with the given body: drain each
  buffer, and on the last one mark and send the current send buffer.
\<close>

fun vec_loop :: "('a \<Rightarrow> stats_t \<times> 'b chain \<Rightarrow> (stats_t \<times> 'b chain) thread) \<Rightarrow> 'a ringbuffer list \<Rightarrow>
    stats_t \<times> 'b chain \<Rightarrow> (stats_t \<times> 'b chain) thread" where
  "vec_loop body [] s = Ret s"
| "vec_loop body (recv_buf # bufs) s =
     bind (buffer_loop (rb_size recv_buf) body recv_buf s)
       (\<lambda>(st, (sb, dataOut)).
          if ringbuffer_isLast recv_buf
          then vec_loop body bufs (st, (ringbuffer_setLast sb, dataOut @ [ringbuffer_setLast sb]))
          else vec_loop body bufs (st, (sb, dataOut)))"

definition dedup_body :: "chunk_t \<Rightarrow> stats_t \<times> nat chain \<Rightarrow> (stats_t \<times> nat chain) thread" where
  "dedup_body chunk = (\<lambda>(st, ch).
     Act (ADedup chunk) (\<lambda>r. case r of
         RDedup dup a \<Rightarrow>
           bind (if dup then Ret (st\<lparr>nDuplicates := nDuplicates st + 1\<rparr>)
                 else Act (ARead a) (\<lambda>r. case r of
                     RChunk c \<Rightarrow> Ret (st\<lparr>total_dedup := total_dedup st + of_nat (mb_len (uncompressed_data c))\<rparr>)
                   | _ \<Rightarrow> Fail BadAccess))
             (\<lambda>st. bind (lift_sum (emit ITEM_PER_INSERT a ch)) (\<lambda>ch. Ret (st, ch)))
       | _ \<Rightarrow> Fail BadAccess))"

definition compress_body :: "nat \<Rightarrow> stats_t \<times> nat chain \<Rightarrow> (stats_t \<times> nat chain) thread" where
  "compress_body a = (\<lambda>(st, ch).
     Act (ARead a) (\<lambda>r. case r of
         RChunk c \<Rightarrow>
           if isDuplicate c then bind (lift_sum (emit ITEM_PER_INSERT a ch)) (\<lambda>ch. Ret (st, ch))
           else Act (ACompress a) (\<lambda>_. Act (ARead a) (\<lambda>r. case r of
               RChunk c \<Rightarrow>
                 (let st = st\<lparr>total_compressed := total_compressed st + of_nat (mb_len (compressed_data c))\<rparr> in
                  bind (lift_sum (emit ITEM_PER_INSERT a ch)) (\<lambda>ch. Ret (st, ch)))
             | _ \<Rightarrow> Fail BadAccess))
       | _ \<Rightarrow> Fail BadAccess))"

definition stage_run :: "('a \<Rightarrow> stats_t \<times> 'b chain \<Rightarrow> (stats_t \<times> 'b chain) thread) \<Rightarrow>
    'a ringbuffer list \<Rightarrow> 'b stage \<Rightarrow> ('b ringbuffer list \<times> 'b stage) thread" where
  "stage_run body recv_buf_v g =
     bind (vec_loop body recv_buf_v (thread_stats g, (send_buf g, [])))
       (\<lambda>(st, (sb, dataOut)). Ret (dataOut, g\<lparr>send_buf := sb, thread_stats := st\<rparr>))"

definition dedup_compute :: "chunk_t ringbuffer list \<Rightarrow> nat stage \<Rightarrow> (nat ringbuffer list \<times> nat stage) thread" where
  "dedup_compute = stage_run dedup_body"

definition compress_compute :: "nat ringbuffer list \<Rightarrow> nat stage \<Rightarrow> (nat ringbuffer list \<times> nat stage) thread" where
  "compress_compute = stage_run compress_body"

text \<open>The final loop of \<open>CollapsedPipeline::svc\<close>, which gathers everything in one buffer.\<close>

fun gather_buf :: "nat \<Rightarrow> 'a ringbuffer \<Rightarrow> 'a ringbuffer \<Rightarrow> 'a ringbuffer" where
  "gather_buf 0 buf sb = sb"
| "gather_buf (Suc k) buf sb =
     (if ringbuffer_isEmpty buf then sb
      else (case ringbuffer_remove buf of (None, _) \<Rightarrow> sb
        | (Some x, buf') \<Rightarrow> gather_buf k buf' (snd (ringbuffer_insert sb x))))"

definition gather :: "'a ringbuffer list \<Rightarrow> 'a ringbuffer" where
  "gather toReorder =
     foldl (\<lambda>sb buf. gather_buf (rb_size buf) buf sb)
       (ringbuffer_init (length toReorder * CHUNK_ANCHOR_PER_INSERT)) toReorder"

record worker =
  w_fr :: "chunk_t stage"
  w_d :: "nat stage"
  w_c :: "nat stage"

definition new_worker :: worker where
  "new_worker = \<lparr>w_fr = new_stage CHUNK_ANCHOR_PER_INSERT, w_d = new_stage ITEM_PER_INSERT,
     w_c = new_stage ITEM_PER_INSERT\<rparr>"

definition pipeline_svc :: "ext \<Rightarrow> chunk_t ringbuffer \<Rightarrow> worker \<Rightarrow> (nat ringbuffer \<times> worker) thread" where
  "pipeline_svc X task w =
     bind (lift_sum (refine_compute X task (w_fr w))) (\<lambda>(v1, fr).
     bind (dedup_compute v1 (w_d w)) (\<lambda>(v2, d).
     bind (compress_compute v2 (w_c w)) (\<lambda>(v3, c).
       Ret (gather v3, \<lparr>w_fr = fr, w_d = d, w_c = c\<rparr>))))"

fun reorder_loop :: "nat \<Rightarrow> nat ringbuffer \<Rightarrow> unit thread" where
  "reorder_loop 0 buf = Ret ()"
| "reorder_loop (Suc k) buf =
     (if ringbuffer_isEmpty buf then Ret ()
      else (case ringbuffer_remove buf of (None, _) \<Rightarrow> Ret ()
        | (Some a, buf') \<Rightarrow> Act (AWrite a) (\<lambda>_. reorder_loop k buf')))"

definition reorder_svc :: "nat ringbuffer \<Rightarrow> unit thread" where
  "reorder_svc recv_buf = reorder_loop (rb_size recv_buf) recv_buf"

subsection \<open>The loops as folds over the items\<close>

fun write_all :: "nat list \<Rightarrow> unit thread" where
  "write_all [] = Ret ()"
| "write_all (a # as) = Act (AWrite a) (\<lambda>_. write_all as)"

lemma reorder_loop_items:
  "rb_inv buf \<Longrightarrow> length (rb_items buf) \<le> k \<Longrightarrow> reorder_loop k buf = write_all (rb_items buf)"
proof (induction k arbitrary: buf)
  case (Suc k)
  show ?case
  proof (cases "rb_items buf")
    case Nil
    then show ?thesis using Suc.prems by (simp add: ringbuffer_isEmpty_iff)
  next
    case (Cons x xs)
    obtain buf' where "ringbuffer_remove buf = (Some x, buf')" "rb_inv buf'" "rb_items buf' = xs"
      using ringbuffer_remove_Cons [OF Suc.prems(1) Cons] by blast
    then show ?thesis using Suc.IH [of buf'] Suc.prems Cons by (simp add: ringbuffer_isEmpty_iff)
  qed
qed simp

lemma reorder_svc_items: "rb_inv buf \<Longrightarrow> reorder_svc buf = write_all (rb_items buf)"
  unfolding reorder_svc_def by (rule reorder_loop_items) (auto intro: rb_items_size)

lemma gather_buf_items:
  "rb_inv buf \<Longrightarrow> length (rb_items buf) \<le> k \<Longrightarrow> rb_inv sb \<Longrightarrow>
    length (rb_items sb) + length (rb_items buf) \<le> rb_capacity sb \<Longrightarrow>
    rb_inv (gather_buf k buf sb) \<and> rb_items (gather_buf k buf sb) = rb_items sb @ rb_items buf \<and>
    rb_capacity (gather_buf k buf sb) = rb_capacity sb"
proof (induction k arbitrary: buf sb)
  case (Suc k)
  show ?case
  proof (cases "rb_items buf")
    case Nil
    then show ?thesis using Suc.prems by (simp add: ringbuffer_isEmpty_iff)
  next
    case (Cons x xs)
    obtain buf' where b: "ringbuffer_remove buf = (Some x, buf')" "rb_inv buf'" "rb_items buf' = xs"
      using ringbuffer_remove_Cons [OF Suc.prems(1) Cons] by blast
    obtain sb' where s: "ringbuffer_insert sb x = (0, sb')" "rb_inv sb'" "rb_items sb' = rb_items sb @ [x]"
      "rb_size sb' = rb_size sb"
      using ringbuffer_insert_room [OF Suc.prems(3), of x] Suc.prems(4) Cons by auto
    then show ?thesis
      using Suc.IH [of buf' sb'] Suc.prems Cons b by (simp add: ringbuffer_isEmpty_iff rb_capacity_def)
  qed
qed simp

lemma gather_fold_items:
  "(\<forall>b\<in>set bs. rb_inv b) \<Longrightarrow> rb_inv sb \<Longrightarrow>
    length (rb_items sb) + length (concat (map rb_items bs)) \<le> rb_capacity sb \<Longrightarrow>
    rb_inv (foldl (\<lambda>sb buf. gather_buf (rb_size buf) buf sb) sb bs) \<and>
    rb_items (foldl (\<lambda>sb buf. gather_buf (rb_size buf) buf sb) sb bs) = rb_items sb @ concat (map rb_items bs)"
proof (induction bs arbitrary: sb)
  case (Cons b bs)
  then show ?case
    using gather_buf_items [of b "rb_size b" sb] rb_items_size [of b]
    by (simp add: rb_items_size)
qed simp

lemma gather_items:
  assumes "sent_ok bs l" and "length bs + 1 < 2 ^ 31"
  shows "rb_inv (gather bs) \<and> rb_items (gather bs) = concat (map rb_items bs)"
proof -
  have one: "length (rb_items b) \<le> 1" if "b \<in> set bs" for b
    using assms(1) rb.items_bound [of b] that by (auto simp: sent_ok_def)
  have "length (concat (map rb_items bs)) \<le> length bs"
    using one by (induction bs) (auto, force)
  moreover have "\<forall>b\<in>set bs. rb_inv b" using assms(1) by (simp add: sent_ok_def)
  ultimately show ?thesis
    using gather_fold_items [of bs "ringbuffer_init (length bs)"] assms(2) rb_inv_init [of "length bs"]
    by (simp add: gather_def chunk_anchor_one fifo_simps)
qed

lemma fold_proc_append: "fold_proc f (xs @ ys) s = bind (fold_proc f xs s) (fold_proc f ys)"
proof (induction xs arbitrary: s)
  case (Cons x xs)
  then have "fold_proc f (xs @ ys) = (\<lambda>v. bind (fold_proc f xs v) (fold_proc f ys))" by (intro ext)
  then show ?case by (simp add: bind_assoc)
qed simp

lemma vec_loop_Nil: "vec_loop body [] = Ret"
  by (rule ext) simp

lemma vec_loop_inner:
  "(\<forall>b\<in>set bufs. rb_inv b \<and> \<not> ringbuffer_isLast b) \<Longrightarrow>
    vec_loop body (bufs @ rest) s = bind (fold_proc body (concat (map rb_items bufs)) s) (vec_loop body rest)"
proof (induction bufs arbitrary: s)
  case (Cons b bufs)
  have "vec_loop body ((b # bufs) @ rest) s = bind (fold_proc body (rb_items b) s) (vec_loop body (bufs @ rest))"
    using Cons.prems by (simp add: buffer_loop_items rb_items_size split_def)
  also have "vec_loop body (bufs @ rest) = (\<lambda>s. bind (fold_proc body (concat (map rb_items bufs)) s) (vec_loop body rest))"
    using Cons by auto
  finally show ?case by (simp add: fold_proc_append bind_assoc)
qed simp

lemma vec_loop_sent:
  assumes "sent_ok bufs l"
  shows "vec_loop body bufs s = bind (fold_proc body (concat (map rb_items bufs)) s)
    (\<lambda>(st, (sb, out)). Ret (if l then (st, (ringbuffer_setLast sb, out @ [ringbuffer_setLast sb])) else (st, (sb, out))))"
proof (cases l)
  case False
  then show ?thesis
    using vec_loop_inner [of bufs body "[]" s] assms by (simp add: sent_ok_def split_def vec_loop_Nil)
next
  case True
  then have ne: "bufs \<noteq> []" and last: "ringbuffer_isLast (last bufs)" "rb_items (last bufs) = []" "rb_inv (last bufs)"
    and inner: "\<forall>b\<in>set (butlast bufs). rb_inv b \<and> \<not> ringbuffer_isLast b"
    using assms by (auto simp: sent_ok_def dest: in_set_butlastD)
  have items: "concat (map rb_items bufs) = concat (map rb_items (butlast bufs))"
  proof -
    have "concat (map rb_items (butlast bufs @ [last bufs])) = concat (map rb_items (butlast bufs))"
      using last(2) by simp
    then show ?thesis by (simp only: append_butlast_last_id [OF ne])
  qed
  have "vec_loop body [last bufs] = (\<lambda>(st, (sb, out)). Ret (st, (ringbuffer_setLast sb, out @ [ringbuffer_setLast sb])))"
    using last by (auto simp: buffer_loop_items rb_items_size)
  then show ?thesis
    using vec_loop_inner [OF inner, of body "[last bufs]" s] ne items True
    by (simp add: append_butlast_last_id)
qed

end
