(* ===== verification/DedupSafety.thy ===== *)
theory DedupSafety
  imports DedupWorkers
begin

text \<open>
  What one worker guarantees while the other workers and the collector run: the chunks of its
  task are published in order, each non-duplicate is compressed exactly once, no assertion
  fails, and the buffer it hands to the collector lists exactly these chunks.
\<close>

text \<open>
  \<open>pub i bl dn td s\<close>: thread \<open>i\<close> has published the blocks \<open>bl\<close> as the chunks \<open>dn @ td\<close> and nothing
  else; those in \<open>dn\<close> are through compression, those in \<open>td\<close> are untouched.
\<close>

definition pub :: "nat \<Rightarrow> byte list list \<Rightarrow> nat list \<Rightarrow> nat list \<Rightarrow> shared \<Rightarrow> bool" where
  "pub i bl dn td s \<longleftrightarrow>
     map (orig s) (dn @ td) = bl \<and> distinct (dn @ td) \<and>
     (\<forall>a. chunks s a \<noteq> None \<and> owner s a = i \<longleftrightarrow> a \<in> set (dn @ td)) \<and>
     (\<forall>a\<in>set td. \<forall>c. chunks s a = Some c \<longrightarrow> state c = CHUNK_STATE_UNCOMPRESSED) \<and>
     (\<forall>a\<in>set dn. \<forall>c. chunks s a = Some c \<longrightarrow> \<not> isDuplicate c \<longrightarrow> state c \<noteq> CHUNK_STATE_UNCOMPRESSED)"

lemma pub_chunk: "pub i bl dn td s \<Longrightarrow> a \<in> set (dn @ td) \<Longrightarrow> \<exists>c. chunks s a = Some c \<and> owner s a = i"
  unfolding pub_def by blast

lemma pub_length: "pub i bl dn td s \<Longrightarrow> length bl = length dn + length td"
  unfolding pub_def by (metis length_append length_map)

lemma env_orig: "env X D hdr U i s t \<Longrightarrow> chunks s a = Some c \<Longrightarrow> orig t a = orig s a"
  unfolding env_def by blast

lemma env_keep:
  "env X D hdr U i s t \<Longrightarrow> chunks s a = Some c \<Longrightarrow>
    \<exists>d. chunks t a = Some d \<and> same_chunk c d \<and> owner t a = owner s a \<and>
      (owner s a = i \<longrightarrow> state c = CHUNK_STATE_UNCOMPRESSED \<longrightarrow> d = c)"
  unfolding env_def by fastforce

lemma env_new: "env X D hdr U i s t \<Longrightarrow> chunks s a = None \<Longrightarrow> chunks t a \<noteq> None \<Longrightarrow> owner t a \<noteq> i"
  unfolding env_def by blast

lemma pub_env:
  assumes "pub i bl dn td s" and e: "env X D hdr U i s t"
  shows "pub i bl dn td t"
  unfolding pub_def
proof (intro conjI ballI allI impI)
  have ex: "\<exists>c. chunks s a = Some c \<and> owner s a = i" if "a \<in> set (dn @ td)" for a
    using pub_chunk [OF assms(1) that] .
  have "map (orig t) (dn @ td) = map (orig s) (dn @ td)"
    using ex env_orig [OF e] by (intro map_cong refl) blast
  also have "\<dots> = bl" using assms(1) unfolding pub_def by blast
  finally show "map (orig t) (dn @ td) = bl" .
  show "distinct (dn @ td)" using assms(1) by (simp add: pub_def)
  fix a
  show "chunks t a \<noteq> None \<and> owner t a = i \<longleftrightarrow> a \<in> set (dn @ td)"
  proof
    assume t: "chunks t a \<noteq> None \<and> owner t a = i"
    then obtain c where "chunks s a = Some c" using env_new [OF e, of a] by blast
    then show "a \<in> set (dn @ td)"
      using t env_keep [OF e, of a c] assms(1) unfolding pub_def by (metis option.distinct(1))
  next
    assume "a \<in> set (dn @ td)"
    then show "chunks t a \<noteq> None \<and> owner t a = i"
      using ex [of a] env_keep [OF e, of a] by fastforce
  qed
next
  fix a c assume a: "a \<in> set td" and c: "chunks t a = Some c"
  obtain d where d: "chunks s a = Some d" "owner s a = i"
    using pub_chunk [OF assms(1), of a] a by auto
  have "state d = CHUNK_STATE_UNCOMPRESSED"
    using assms(1) a d(1) unfolding pub_def by blast
  then show "state c = CHUNK_STATE_UNCOMPRESSED"
    using env_keep [OF e d(1)] c d(2) by auto
next
  fix a c assume a: "a \<in> set dn" and c: "chunks t a = Some c" "\<not> isDuplicate c"
  obtain d where d: "chunks s a = Some d"
    using pub_chunk [OF assms(1), of a] a by auto
  have s: "same_chunk d c" using env_keep [OF e d] c(1) by auto
  then have "state d \<noteq> CHUNK_STATE_UNCOMPRESSED"
    using assms(1) a d c(2) unfolding pub_def same_chunk_def by metis
  then show "state c \<noteq> CHUNK_STATE_UNCOMPRESSED" using s by (simp add: same_chunk_def)
qed

lemma pub_published:
  assumes p: "pub i bl [] td s" and new: "published X i c s dup t" and inv: "dinv X D hdr U s"
  shows "pub i (bl @ [chunk_bytes c]) [] (td @ [next_chunk s]) t"
proof -
  let ?a = "next_chunk s"
  have fresh: "chunks s ?a = None" using dinv_fresh [OF inv] by blast
  obtain d where d: "chunks t = (chunks s)(?a \<mapsto> d)" "state d = CHUNK_STATE_UNCOMPRESSED"
    using new unfolding published_def by blast
  have o: "orig t = (orig s)(?a := chunk_bytes c)" "owner t = (owner s)(?a := i)"
    using new unfolding published_def by blast+
  have notin: "?a \<notin> set td"
    using pub_chunk [OF p, of ?a] fresh by auto
  have iff: "chunks s a \<noteq> None \<and> owner s a = i \<longleftrightarrow> a \<in> set td" for a
    using p unfolding pub_def by simp
  have unc: "state e = CHUNK_STATE_UNCOMPRESSED" if "a \<in> set td" "chunks s a = Some e" for a e
    using p that unfolding pub_def by blast
  have "map (orig s) td = bl" "distinct td" using p by (simp_all add: pub_def)
  moreover have "map (orig t) td = map (orig s) td" using notin o(1) by simp
  moreover have "chunks t a \<noteq> None \<and> owner t a = i \<longleftrightarrow> a \<in> set (td @ [?a])" for a
    using iff [of a] d(1) o(2) by auto
  moreover have "state e = CHUNK_STATE_UNCOMPRESSED" if "a \<in> set (td @ [?a])" "chunks t a = Some e" for a e
    using that unc [of a e] d by (auto split: if_splits)
  ultimately show ?thesis using notin o(1) by (simp add: pub_def)
qed

lemma pub_compressed:
  assumes p: "pub i bl dn (a # td) s" and a: "chunks t = (chunks s)(a \<mapsto> d)"
    and d: "state d \<noteq> CHUNK_STATE_UNCOMPRESSED" and o: "orig t = orig s" "owner t = owner s"
  shows "pub i bl (dn @ [a]) td t"
proof -
  obtain c where c: "chunks s a = Some c" using pub_chunk [OF p, of a] by auto
  have nota: "a \<notin> set dn" "a \<notin> set td" using p by (auto simp: pub_def)
  have iff: "chunks s x \<noteq> None \<and> owner s x = i \<longleftrightarrow> x \<in> set (dn @ a # td)" for x
    using p unfolding pub_def by blast
  have unc: "state e = CHUNK_STATE_UNCOMPRESSED" if "x \<in> set td" "chunks s x = Some e" for x e
    using p that unfolding pub_def by (meson list.set_intros(2))
  have dn: "state e \<noteq> CHUNK_STATE_UNCOMPRESSED" if "x \<in> set dn" "chunks s x = Some e" "\<not> isDuplicate e" for x e
    using p that unfolding pub_def by blast
  have "chunks t x \<noteq> None \<and> owner t x = i \<longleftrightarrow> x \<in> set ((dn @ [a]) @ td)" for x
    using iff [of x] a o(2) c by auto
  moreover have "state e = CHUNK_STATE_UNCOMPRESSED" if "x \<in> set td" "chunks t x = Some e" for x e
    using that unc [of x e] a nota by (auto split: if_splits)
  moreover have "state e \<noteq> CHUNK_STATE_UNCOMPRESSED" if "x \<in> set (dn @ [a])" "chunks t x = Some e" "\<not> isDuplicate e" for x e
    using that dn [of x e] a d by (auto split: if_splits)
  moreover have "map (orig t) ((dn @ [a]) @ td) = bl" "distinct ((dn @ [a]) @ td)"
    using p o(1) by (simp_all add: pub_def)
  ultimately show ?thesis unfolding pub_def by blast
qed

lemma pub_skip:
  assumes p: "pub i bl dn (a # td) s" and c: "chunks s a = Some c" "isDuplicate c"
  shows "pub i bl (dn @ [a]) td s"
  using assms unfolding pub_def by auto

subsection \<open>The bodies of the stages\<close>

definition post_dedup :: "nat \<Rightarrow> byte list list \<Rightarrow> nat list \<Rightarrow> nat list \<Rightarrow> chunk_t list \<Rightarrow>
    stats_t \<times> nat chain \<Rightarrow> shared \<Rightarrow> bool" where
  "post_dedup i bl td items cs r t \<longleftrightarrow> chain_inv 1 (snd r) \<and>
     (\<exists>as. chain_items (snd r) = items @ as \<and> pub i (bl @ map chunk_bytes cs) [] (td @ as) t)"

definition post_compress :: "nat \<Rightarrow> byte list list \<Rightarrow> nat list \<Rightarrow> nat list \<Rightarrow> nat list \<Rightarrow>
    stats_t \<times> nat chain \<Rightarrow> shared \<Rightarrow> bool" where
  "post_compress i bl dn td items r t \<longleftrightarrow> chain_inv 1 (snd r) \<and>
     chain_items (snd r) = items \<and> pub i bl dn td t"

lemma emit_thread:
  assumes "chain_inv 1 ch" and "\<And>ch'. chain_inv 1 ch' \<Longrightarrow> chain_items ch' = chain_items ch @ [a] \<Longrightarrow> Q (st, ch') s"
  shows "dd.safe X conf D hdr U (bind (lift_sum (emit ITEM_PER_INSERT a ch)) (\<lambda>ch. Ret (st, ch))) i n Q s"
proof -
  obtain ch' where "emit 1 a ch = Inr ch'" "chain_inv 1 ch'" "chain_items ch' = chain_items ch @ [a]"
    using emit_ok [OF assms(1), of a] by blast
  then show ?thesis using assms(2) by (simp add: lift_sum_def chunk_anchor_one)
qed

text \<open>Reading a chunk of the own task: it exists, whatever the others did in between.\<close>

lemma read_thread:
  assumes good: "good_env X conf D hdr U" and p: "pub i bl dn td s" and a: "a \<in> set (dn @ td)"
    and k: "\<And>v d. env X D hdr U i s v \<Longrightarrow> pub i bl dn td v \<Longrightarrow> chunks v a = Some d \<Longrightarrow>
      dd.safe X conf D hdr U (k (RChunk d)) i n Q v"
  shows "dd.safe X conf D hdr U (Act (ARead a) k) i (Suc n) Q s"
proof (rule dd.safe_ActI)
  fix v assume e: "env X D hdr U i s v"
  have pv: "pub i bl dn td v" by (rule pub_env [OF p e])
  obtain d where d: "chunks v a = Some d" using pub_chunk [OF pv a] by blast
  show "\<exists>r w. do_act X conf i (ARead a) v = Step r w \<and> may U i (ARead a) v \<and>
      store_inv X conf D hdr U w \<and> dd.safe X conf D hdr U (k r) i n Q w"
    using k [OF e pv d] d e good by (simp add: read_chunk_def may_def store_inv_def env_def)
qed

lemma dedup_body_safe:
  assumes good: "good_env X conf D hdr U" and i: "i \<noteq> 0" and c: "chunk_like c" "chunk_bytes c \<in> U"
    and ch: "chain_inv 1 ch" and p: "pub i bl [] td s"
  shows "dd.safe X conf D hdr U (dedup_body c (st, ch)) i 2 (post_dedup i bl td (chain_items ch) [c]) s"
proof -
  have cok: "chunk_ok c" using c by (simp add: chunk_like_def)
  have ok: "ext_ok X conf D hdr" using good by (simp add: good_env_def)
  have fin: "dd.safe X conf D hdr U (bind (lift_sum (emit ITEM_PER_INSERT a ch)) (\<lambda>ch. Ret (st', ch))) i n
      (post_dedup i bl td (chain_items ch) [c]) v"
    if "pub i (bl @ [chunk_bytes c]) [] (td @ [a]) v" for a st' v n
    using that by (intro emit_thread [OF ch]) (auto simp: post_dedup_def)
  have "dd.safe X conf D hdr U (dedup_body c (st, ch)) i (Suc 1) (post_dedup i bl td (chain_items ch) [c]) s"
    unfolding dedup_body_def prod.case
  proof (rule dd.safe_ActI)
    fix t assume e: "env X D hdr U i s t"
    then have inv: "dinv X D hdr U t" by (simp add: env_def)
    obtain dup u where u: "sub_Deduplicate X i c t = Step (RDedup dup (next_chunk t)) u" "published X i c t dup u"
      using sub_Deduplicate_published [OF inv ok cok, of i] by blast
    have inv': "dinv X D hdr U u" by (rule published_inv [OF inv u(2) c(2)])
    let ?a = "next_chunk t"
    have pu: "pub i (bl @ [chunk_bytes c]) [] (td @ [?a]) u"
      by (rule pub_published [OF pub_env [OF p e] u(2) inv])
    have "dd.safe X conf D hdr U (bind (if dup then Ret (st\<lparr>nDuplicates := nDuplicates st + 1\<rparr>)
                 else Act (ARead ?a) (\<lambda>r. case r of
                     RChunk c \<Rightarrow> Ret (st\<lparr>total_dedup := total_dedup st + of_nat (mb_len (uncompressed_data c))\<rparr>)
                   | _ \<Rightarrow> Fail BadAccess))
             (\<lambda>st. bind (lift_sum (emit ITEM_PER_INSERT ?a ch)) (\<lambda>ch. Ret (st, ch)))) i 1
       (post_dedup i bl td (chain_items ch) [c]) u"
    proof (cases dup)
      case True
      then show ?thesis using fin [OF pu] by simp
    next
      case False
      have "dd.safe X conf D hdr U (Act (ARead ?a) (\<lambda>r. bind (case r of
                     RChunk c \<Rightarrow> Ret (st\<lparr>total_dedup := total_dedup st + of_nat (mb_len (uncompressed_data c))\<rparr>)
                   | _ \<Rightarrow> Fail BadAccess) (\<lambda>st. bind (lift_sum (emit ITEM_PER_INSERT ?a ch)) (\<lambda>ch. Ret (st, ch)))))
            i (Suc 0) (post_dedup i bl td (chain_items ch) [c]) u"
        by (rule read_thread [OF good pu]) (simp_all add: fin)
      then show ?thesis using False by simp
    qed
    then show "\<exists>r u. do_act X conf i (ADedup c) t = Step r u \<and> may U i (ADedup c) t \<and> store_inv X conf D hdr U u \<and>
        dd.safe X conf D hdr U (case r of RDedup dup a \<Rightarrow>
             bind (if dup then Ret (st\<lparr>nDuplicates := nDuplicates st + 1\<rparr>)
                 else Act (ARead a) (\<lambda>r. case r of
                     RChunk c \<Rightarrow> Ret (st\<lparr>total_dedup := total_dedup st + of_nat (mb_len (uncompressed_data c))\<rparr>)
                   | _ \<Rightarrow> Fail BadAccess))
             (\<lambda>st. bind (lift_sum (emit ITEM_PER_INSERT a ch)) (\<lambda>ch. Ret (st, ch)))
           | _ \<Rightarrow> Fail BadAccess) i 1 (post_dedup i bl td (chain_items ch) [c]) u"
      using u(1) inv' i cok c(2) good by (simp add: may_def store_inv_def)
  qed
  then show ?thesis by (simp only: numeral_2_eq_2 One_nat_def)
qed

lemma compress_body_safe:
  assumes good: "good_env X conf D hdr U" and i: "i \<noteq> 0" and ch: "chain_inv 1 ch" and p: "pub i bl dn (a # td) s"
  shows "dd.safe X conf D hdr U (compress_body a (st, ch)) i 3
    (post_compress i bl (dn @ [a]) td (chain_items ch @ [a])) s"
proof -
  let ?Q = "post_compress i bl (dn @ [a]) td (chain_items ch @ [a])"
  have ok: "ext_ok X conf D hdr" and U: "univ_ok X U" using good by (simp_all add: good_env_def)
  have fin: "dd.safe X conf D hdr U (bind (lift_sum (emit ITEM_PER_INSERT a ch)) (\<lambda>ch. Ret (st', ch))) i n ?Q v"
    if "pub i bl (dn @ [a]) td v" for st' v n
    using that by (intro emit_thread [OF ch]) (auto simp: post_compress_def)
  have "dd.safe X conf D hdr U (compress_body a (st, ch)) i (Suc 2) ?Q s"
    unfolding compress_body_def prod.case
  proof (rule read_thread [OF good p])
    show "a \<in> set (dn @ a # td)" by simp
    fix v d assume pv: "pub i bl dn (a # td) v" and d: "chunks v a = Some d"
    have unc: "state d = CHUNK_STATE_UNCOMPRESSED" using pv d by (simp add: pub_def)
    have own: "owner v a = i" using pub_chunk [OF pv, of a] d by auto
    have "dd.safe X conf D hdr U (Act (ACompress a) (\<lambda>_. Act (ARead a) (\<lambda>r. case r of
               RChunk c \<Rightarrow>
                 (let st = st\<lparr>total_compressed := total_compressed st + of_nat (mb_len (compressed_data c))\<rparr> in
                  bind (lift_sum (emit ITEM_PER_INSERT a ch)) (\<lambda>ch. Ret (st, ch)))
             | _ \<Rightarrow> Fail BadAccess))) i (Suc 1) ?Q v" if nd: "\<not> isDuplicate d"
    proof (rule dd.safe_ActI)
      fix t assume e: "env X D hdr U i v t"
      have inv: "dinv X D hdr U t" using e by (simp add: env_def)
      have dt: "chunks t a = Some d" "owner t a = i"
        using env_keep [OF e d] own unc by auto
      obtain u d' where u: "sub_Compress X conf a t = Step RUnit u" "dinv X D hdr U u"
        "chunks u = (chunks t)(a \<mapsto> d')" "same_chunk d d'" "state d' = CHUNK_STATE_COMPRESSED"
        "orig u = orig t" "owner u = owner t"
        using sub_Compress_ok [OF inv ok U dt(1) nd unc] by blast
      have pu: "pub i bl (dn @ [a]) td u"
        using u(5) by (intro pub_compressed [OF pub_env [OF pv e] u(3) _ u(6,7)]) simp
      have "dd.safe X conf D hdr U (Act (ARead a) (\<lambda>r. case r of
               RChunk c \<Rightarrow>
                 (let st = st\<lparr>total_compressed := total_compressed st + of_nat (mb_len (compressed_data c))\<rparr> in
                  bind (lift_sum (emit ITEM_PER_INSERT a ch)) (\<lambda>ch. Ret (st, ch)))
             | _ \<Rightarrow> Fail BadAccess)) i (Suc 0) ?Q u"
        by (rule read_thread [OF good pu]) (simp_all add: fin Let_def)
      then show "\<exists>r w. do_act X conf i (ACompress a) t = Step r w \<and> may U i (ACompress a) t \<and>
          store_inv X conf D hdr U w \<and>
          dd.safe X conf D hdr U (Act (ARead a) (\<lambda>r. case r of
               RChunk c \<Rightarrow>
                 (let st = st\<lparr>total_compressed := total_compressed st + of_nat (mb_len (compressed_data c))\<rparr> in
                  bind (lift_sum (emit ITEM_PER_INSERT a ch)) (\<lambda>ch. Ret (st, ch)))
             | _ \<Rightarrow> Fail BadAccess)) i 1 ?Q w"
        using u(1,2) i dt(2) good by (simp add: may_def store_inv_def)
    qed
    then show "dd.safe X conf D hdr U (case RChunk d of RChunk c \<Rightarrow>
           if isDuplicate c then bind (lift_sum (emit ITEM_PER_INSERT a ch)) (\<lambda>ch. Ret (st, ch))
           else Act (ACompress a) (\<lambda>_. Act (ARead a) (\<lambda>r. case r of
               RChunk c \<Rightarrow>
                 (let st = st\<lparr>total_compressed := total_compressed st + of_nat (mb_len (compressed_data c))\<rparr> in
                  bind (lift_sum (emit ITEM_PER_INSERT a ch)) (\<lambda>ch. Ret (st, ch)))
             | _ \<Rightarrow> Fail BadAccess))
       | _ \<Rightarrow> Fail BadAccess) i 2 ?Q v"
      using fin [OF pub_skip [OF pv d]] by (simp add: numeral_2_eq_2)
  qed
  then show ?thesis by (simp only: numeral_3_eq_3 numeral_2_eq_2)
qed

subsection \<open>The stages and the whole worker\<close>

lemma dedup_fold_safe:
  assumes good: "good_env X conf D hdr U" and i: "i \<noteq> 0"
  shows "(\<forall>c\<in>set cs. chunk_like c \<and> chunk_bytes c \<in> U) \<Longrightarrow> chain_inv 1 ch \<Longrightarrow> pub i bl [] td s \<Longrightarrow>
    dd.safe X conf D hdr U (fold_proc dedup_body cs (st, ch)) i (2 * length cs)
      (post_dedup i bl td (chain_items ch) cs) s"
proof (induction cs arbitrary: st ch bl td s)
  case Nil
  then show ?case by (auto simp: post_dedup_def)
next
  case (Cons c cs)
  have "dd.safe X conf D hdr U (fold_proc dedup_body cs v) i (2 * length cs)
      (post_dedup i bl td (chain_items ch) (c # cs)) t"
    if post: "post_dedup i bl td (chain_items ch) [c] v t" for v t
  proof -
    obtain st' ch' where v: "v = (st', ch')" by (cases v)
    obtain as where as: "chain_inv 1 ch'" "chain_items ch' = chain_items ch @ as"
      "pub i (bl @ [chunk_bytes c]) [] (td @ as) t"
      using post v by (auto simp: post_dedup_def)
    have "dd.safe X conf D hdr U (fold_proc dedup_body cs (st', ch')) i (2 * length cs)
        (post_dedup i (bl @ [chunk_bytes c]) (td @ as) (chain_items ch') cs) t"
      using Cons.IH [OF _ as(1,3)] Cons.prems(1) by simp
    then show ?thesis unfolding v
      by (rule dd.safe_weaken) (auto simp: post_dedup_def as(2))
  qed
  moreover have "dd.safe X conf D hdr U (dedup_body c (st, ch)) i 2 (post_dedup i bl td (chain_items ch) [c]) s"
    using dedup_body_safe [OF good i _ _ Cons.prems(2,3)] Cons.prems(1) by simp
  ultimately have "dd.safe X conf D hdr U (fold_proc dedup_body (c # cs) (st, ch)) i (2 + 2 * length cs)
      (post_dedup i bl td (chain_items ch) (c # cs)) s"
    unfolding fold_proc.simps by (rule dd.safe_bind [rotated])
  then show ?case by simp
qed

lemma compress_fold_safe:
  assumes good: "good_env X conf D hdr U" and i: "i \<noteq> 0"
  shows "chain_inv 1 ch \<Longrightarrow> pub i bl dn as s \<Longrightarrow>
    dd.safe X conf D hdr U (fold_proc compress_body as (st, ch)) i (3 * length as)
      (post_compress i bl (dn @ as) [] (chain_items ch @ as)) s"
proof (induction as arbitrary: st ch dn s)
  case Nil
  then show ?case by (simp add: post_compress_def)
next
  case (Cons a as)
  have "dd.safe X conf D hdr U (fold_proc compress_body as v) i (3 * length as)
      (post_compress i bl (dn @ a # as) [] (chain_items ch @ a # as)) t"
    if post: "post_compress i bl (dn @ [a]) as (chain_items ch @ [a]) v t" for v t
  proof -
    obtain st' ch' where v: "v = (st', ch')" by (cases v)
    have r: "chain_inv 1 ch'" "chain_items ch' = chain_items ch @ [a]" "pub i bl (dn @ [a]) as t"
      using post v by (auto simp: post_compress_def)
    show ?thesis using Cons.IH [OF r(1,3), of st'] v r(2) by simp
  qed
  then have "dd.safe X conf D hdr U (fold_proc compress_body (a # as) (st, ch)) i (3 + 3 * length as)
      (post_compress i bl (dn @ a # as) [] (chain_items ch @ a # as)) s"
    unfolding fold_proc.simps
    by (rule dd.safe_bind [OF compress_body_safe [OF good i Cons.prems]])
  then show ?case by simp
qed

text \<open>The result of a stage, given what its fold leaves in the chain.\<close>

definition stage_result :: "bool \<Rightarrow> 'b stage \<Rightarrow> stats_t \<times> 'b chain \<Rightarrow> 'b ringbuffer list \<times> 'b stage" where
  "stage_result l g r = (let ch = snd r in
     if l then (close_chain ch, g\<lparr>send_buf := ringbuffer_setLast (fst ch), thread_stats := fst r\<rparr>)
     else (snd ch, g\<lparr>send_buf := fst ch, thread_stats := fst r\<rparr>))"

lemma stage_run_fold:
  "sent_ok bufs l \<Longrightarrow> stage_run body bufs g =
    bind (fold_proc body (concat (map rb_items bufs)) (thread_stats g, (send_buf g, [])))
      (\<lambda>r. Ret (stage_result l g r))"
  by (cases l) (simp_all add: stage_run_def vec_loop_sent bind_assoc stage_result_def close_chain_def
      split_def Let_def)

lemma stage_result_ok:
  assumes "chain_inv 1 (snd r)" and "stage_result l g r = (out, g')"
  shows "sent_ok out l \<and> concat (map rb_items out) = chain_items (snd r) \<and> (\<not> l \<longrightarrow> stage_ready 1 g')"
  using sent_ok_chain [OF assms(1)] assms chain_inv_one [OF assms(1)]
  by (auto simp: stage_result_def Let_def stage_ready_def chain_inv_def split: if_splits)

lemma stage_result_safe:
  assumes "chain_inv 1 (snd r)" and "\<And>v g'. sent_ok v l \<Longrightarrow> (\<not> l \<longrightarrow> stage_ready 1 g') \<Longrightarrow>
    concat (map rb_items v) = chain_items (snd r) \<Longrightarrow> Q (v, g') t"
  shows "dd.safe X conf D hdr U (Ret (stage_result l g r)) i n Q t"
proof -
  obtain v g' where "stage_result l g r = (v, g')" by (cases "stage_result l g r")
  then show ?thesis using stage_result_ok [OF assms(1)] assms(2) by simp
qed

definition worker_ready :: "worker \<Rightarrow> bool" where
  "worker_ready w \<longleftrightarrow> stage_ready 1 (w_fr w) \<and> stage_ready 1 (w_d w) \<and> stage_ready 1 (w_c w)"

lemma worker_ready_new: "worker_ready new_worker"
  by (simp add: worker_ready_def new_worker_def chunk_anchor_one stage_ready_new)

text \<open>The blocks of a task: the pieces of its coarse chunks.\<close>

definition task_blocks :: "ext \<Rightarrow> chunk_t ringbuffer \<Rightarrow> byte list list" where
  "task_blocks X task = map (\<lambda>(_, _, bs). bs) (refine_spec X (map coarse_info (rb_items task)))"

definition task_ok :: "ext \<Rightarrow> byte list set \<Rightarrow> chunk_t ringbuffer \<Rightarrow> bool" where
  "task_ok X U task \<longleftrightarrow> rb_inv task \<and> (\<forall>c\<in>set (rb_items task). chunk_like c) \<and>
     set (task_blocks X task) \<subseteq> U \<and> length (task_blocks X task) < 2 ^ 31 - 2"

definition post_worker :: "nat \<Rightarrow> byte list list \<Rightarrow> bool \<Rightarrow> nat ringbuffer \<times> worker \<Rightarrow> shared \<Rightarrow> bool" where
  "post_worker i bl l r t \<longleftrightarrow> rb_inv (fst r) \<and> pub i bl (rb_items (fst r)) [] t \<and>
     (\<not> l \<longrightarrow> worker_ready (snd r))"

lemma post_worker_stable: "dd.stable X D hdr U i (post_worker i bl l)"
  unfolding dd.stable_def post_worker_def using pub_env by blast

definition task_steps :: "ext \<Rightarrow> chunk_t ringbuffer \<Rightarrow> nat" where
  "task_steps X task = 5 * length (task_blocks X task)"

lemma dedup_compute_safe:
  assumes good: "good_env X conf D hdr U" and i: "i \<noteq> 0" and sent: "sent_ok bufs l" and g: "stage_ready 1 g"
    and cs: "\<forall>c\<in>set (concat (map rb_items bufs)). chunk_like c \<and> chunk_bytes c \<in> U" and p: "pub i [] [] [] s"
  shows "dd.safe X conf D hdr U (dedup_compute bufs g) i (2 * length (concat (map rb_items bufs)))
    (\<lambda>(v, g') t. sent_ok v l \<and> (\<not> l \<longrightarrow> stage_ready 1 g') \<and>
       pub i (map chunk_bytes (concat (map rb_items bufs))) [] (concat (map rb_items v)) t) s"
proof -
  let ?cs = "concat (map rb_items bufs)" and ?ch = "(send_buf g, [])"
  have ch: "chain_inv 1 ?ch" "chain_items ?ch = []" using g by (simp_all add: stage_ready_def chain_items_def)
  have "dd.safe X conf D hdr U (fold_proc dedup_body ?cs (thread_stats g, ?ch)) i (2 * length ?cs)
      (post_dedup i [] [] [] ?cs) s"
    using dedup_fold_safe [OF good i cs ch(1) p, of "thread_stats g"] ch(2) by simp
  then show ?thesis
    unfolding dedup_compute_def stage_run_fold [OF sent]
    by (rule dd.safe_bind [where m = 0, unfolded add_0_right])
      (rule stage_result_safe, auto simp: post_dedup_def)
qed

lemma compress_compute_safe:
  assumes good: "good_env X conf D hdr U" and i: "i \<noteq> 0" and sent: "sent_ok bufs l" and g: "stage_ready 1 g"
    and p: "pub i bl [] (concat (map rb_items bufs)) s"
  shows "dd.safe X conf D hdr U (compress_compute bufs g) i (3 * length (concat (map rb_items bufs)))
    (\<lambda>(v, g') t. sent_ok v l \<and> (\<not> l \<longrightarrow> stage_ready 1 g') \<and> pub i bl (concat (map rb_items v)) [] t) s"
proof -
  let ?as = "concat (map rb_items bufs)" and ?ch = "(send_buf g, [])"
  have ch: "chain_inv 1 ?ch" "chain_items ?ch = []" using g by (simp_all add: stage_ready_def chain_items_def)
  have "dd.safe X conf D hdr U (fold_proc compress_body ?as (thread_stats g, ?ch)) i (3 * length ?as)
      (post_compress i bl ?as [] ?as) s"
    using compress_fold_safe [OF good i ch(1) p, of "thread_stats g"] ch(2) by simp
  then show ?thesis
    unfolding compress_compute_def stage_run_fold [OF sent]
    by (rule dd.safe_bind [where m = 0, unfolded add_0_right])
      (rule stage_result_safe, auto simp: post_compress_def)
qed

lemma sent_ok_length:
  assumes "sent_ok bs l"
  shows "length bs \<le> Suc (length (concat (map rb_items bs)))"
proof -
  have one: "\<forall>b\<in>set cs. length (rb_items b) = 1 \<Longrightarrow> length cs = length (concat (map rb_items cs))"
    for cs :: "'a ringbuffer list" by (induction cs) auto
  show ?thesis
  proof (cases l)
    case False
    then show ?thesis using assms one [of bs] by (simp add: sent_ok_def)
  next
    case True
    then have ne: "bs \<noteq> []" and inner: "\<forall>b\<in>set (butlast bs). length (rb_items b) = 1"
      using assms by (auto simp: sent_ok_def)
    have "length bs = Suc (length (butlast bs))" using ne by simp
    moreover have "length (concat (map rb_items (butlast bs))) \<le> length (concat (map rb_items bs))"
      by (subst (2) append_butlast_last_id [OF ne, symmetric]) simp
    ultimately show ?thesis using one [OF inner] by simp
  qed
qed

lemma task_blocks_info:
  "map chunk_info cs = refine_spec X (map coarse_info (rb_items task)) \<Longrightarrow> map chunk_bytes cs = task_blocks X task"
proof -
  assume "map chunk_info cs = refine_spec X (map coarse_info (rb_items task))"
  moreover have "map chunk_bytes cs = map (\<lambda>(_, _, bs). bs) (map chunk_info cs)"
    by (simp add: chunk_info_def comp_def)
  ultimately show ?thesis by (simp only: task_blocks_def)
qed

lemma pipeline_svc_safe:
  assumes good: "good_env X conf D hdr U" and i: "i \<noteq> 0" and task: "task_ok X U task"
    and w: "worker_ready w" and p: "pub i [] [] [] s"
  shows "dd.safe X conf D hdr U (pipeline_svc X task w) i (task_steps X task)
    (post_worker i (task_blocks X task) (ringbuffer_isLast task)) s"
proof -
  let ?l = "ringbuffer_isLast task" and ?bl = "task_blocks X task"
  have rabin: "rabin_ok X" and mem: "malloc_ok X n" for n
    using good by (auto simp: good_env_def ext_ok_def rabin_ok_def)
  obtain v1 fr where r: "refine_compute X task (w_fr w) = Inr (v1, fr)" "sent_ok v1 ?l"
    "\<not> ?l \<longrightarrow> stage_ready 1 fr" "\<forall>c\<in>set (concat (map rb_items v1)). chunk_like c"
    "map chunk_info (concat (map rb_items v1)) = refine_spec X (map coarse_info (rb_items task))"
    using refine_compute_ok [OF rabin mem, of task "w_fr w"] task w by (auto simp: task_ok_def worker_ready_def)
  let ?cs = "concat (map rb_items v1)"
  have bl: "map chunk_bytes ?cs = ?bl" by (rule task_blocks_info [OF r(5)])
  have len: "length ?cs = length ?bl" using arg_cong [OF bl, of length] by simp
  have U: "\<forall>c\<in>set ?cs. chunk_like c \<and> chunk_bytes c \<in> U"
  proof
    fix c assume c: "c \<in> set ?cs"
    then have "chunk_bytes c \<in> set ?bl" unfolding bl [symmetric] by simp
    then show "chunk_like c \<and> chunk_bytes c \<in> U" using c r(4) task unfolding task_ok_def by blast
  qed
  have comp: "dd.safe X conf D hdr U (bind (compress_compute v2 (w_c w)) (\<lambda>(v3, c). Ret (gather v3, \<lparr>w_fr = fr, w_d = d, w_c = c\<rparr>)))
      i (3 * length ?bl) (post_worker i ?bl ?l) t"
    if v2: "sent_ok v2 ?l" "\<not> ?l \<longrightarrow> stage_ready 1 d" "pub i ?bl [] (concat (map rb_items v2)) t" for v2 d t
  proof -
    have len2: "length (concat (map rb_items v2)) = length ?bl"
      using pub_length [OF v2(3)] by simp
    have c: "dd.safe X conf D hdr U (compress_compute v2 (w_c w)) i (3 * length ?bl)
        (\<lambda>(v, g') t. sent_ok v ?l \<and> (\<not> ?l \<longrightarrow> stage_ready 1 g') \<and> pub i ?bl (concat (map rb_items v)) [] t) t"
      using compress_compute_safe [OF good i v2(1) _ v2(3), of "w_c w"] w len2 by (simp add: worker_ready_def)
    have fin: "post_worker i ?bl ?l (gather v3, \<lparr>w_fr = fr, w_d = d, w_c = g\<rparr>) u"
      if v3: "sent_ok v3 ?l" "\<not> ?l \<longrightarrow> stage_ready 1 g" "pub i ?bl (concat (map rb_items v3)) [] u" for v3 g u
    proof -
      have "length (concat (map rb_items v3)) = length ?bl"
        using pub_length [OF v3(3)] by simp
      then have "length v3 + 1 < 2 ^ 31"
        using sent_ok_length [OF v3(1)] task by (simp add: task_ok_def)
      then show ?thesis
        using gather_items [OF v3(1)] v3 v2(2) r(3) by (simp add: post_worker_def worker_ready_def)
    qed
    show ?thesis
    proof (rule dd.safe_bind [OF c, where m = 0, unfolded add_0_right])
      fix r :: "nat ringbuffer list \<times> nat stage" and u
      assume "(\<lambda>(v, g') t. sent_ok v ?l \<and> (\<not> ?l \<longrightarrow> stage_ready 1 g') \<and> pub i ?bl (concat (map rb_items v)) [] t) r u"
      then have "post_worker i ?bl ?l (gather (fst r), \<lparr>w_fr = fr, w_d = d, w_c = snd r\<rparr>) u"
        unfolding split_def by (intro fin) blast+
      then show "dd.safe X conf D hdr U (case r of (v3, c) \<Rightarrow> Ret (gather v3, \<lparr>w_fr = fr, w_d = d, w_c = c\<rparr>)) i 0
          (post_worker i ?bl ?l) u"
        by (cases r) simp
    qed
  qed
  have d: "dd.safe X conf D hdr U (dedup_compute v1 (w_d w)) i (2 * length ?bl)
      (\<lambda>(v, g') t. sent_ok v ?l \<and> (\<not> ?l \<longrightarrow> stage_ready 1 g') \<and> pub i ?bl [] (concat (map rb_items v)) t) s"
    using dedup_compute_safe [OF good i r(2) _ U p, of "w_d w"] w unfolding bl len worker_ready_def by blast
  have "dd.safe X conf D hdr U (bind (dedup_compute v1 (w_d w)) (\<lambda>(v2, d).
     bind (compress_compute v2 (w_c w)) (\<lambda>(v3, c). Ret (gather v3, \<lparr>w_fr = fr, w_d = d, w_c = c\<rparr>))))
     i (2 * length ?bl + 3 * length ?bl) (post_worker i ?bl ?l) s"
  proof (rule dd.safe_bind [OF d])
    fix r :: "nat ringbuffer list \<times> nat stage" and u
    assume "(\<lambda>(v, g') t. sent_ok v ?l \<and> (\<not> ?l \<longrightarrow> stage_ready 1 g') \<and> pub i ?bl [] (concat (map rb_items v)) t) r u"
    then show "dd.safe X conf D hdr U (case r of (v2, d) \<Rightarrow>
       bind (compress_compute v2 (w_c w)) (\<lambda>(v3, c). Ret (gather v3, \<lparr>w_fr = fr, w_d = d, w_c = c\<rparr>))) i
        (3 * length ?bl) (post_worker i ?bl ?l) u"
      using comp unfolding split_def by blast
  qed
  then show ?thesis
    by (simp add: pipeline_svc_def r(1) lift_sum_def task_steps_def)
qed

end
