(* ===== verification/DedupOFarm.thy ===== *)
theory DedupOFarm
  imports DedupSafety
begin

text \<open>
  The encoder as a program (\<open>runSingleFarm\<close> and \<open>EncodeFF\<close> of \<open>encoder_ff_ofarm.cpp\<close>): an
  ordered farm whose emitter is \<open>Fragment\<close>, whose workers run \<open>CollapsedPipeline\<close> and whose
  collector is \<open>Reorder\<close>. The emitter hands task \<open>i\<close> to worker \<open>i mod nw\<close>; a worker takes its
  tasks in order; the collector takes the results in the order of the tasks. An event is one
  atomic step of one thread, a schedule a list of events, so a property of every schedule is a
  property of every interleaving.
\<close>

datatype tstate =
    Pending
  | Running "(nat ringbuffer \<times> worker) thread"
  | Finished "nat ringbuffer"

record farm =
  f_sh :: shared
  f_tasks :: "tstate list"
  f_workers :: "worker list"
  f_emitted :: nat
  f_collected :: nat
  f_coll :: "unit thread option"
  f_crash :: "err option"

datatype event = Emit | Start nat | Work nat | Finish nat | Take | Collect | Release

definition is_finished :: "tstate \<Rightarrow> bool" where
  "is_finished t = (case t of Finished _ \<Rightarrow> True | _ \<Rightarrow> False)"

fun farm_event :: "ext \<Rightarrow> config_t \<Rightarrow> chunk_t ringbuffer list \<Rightarrow> nat \<Rightarrow> event \<Rightarrow> farm \<Rightarrow> farm option" where
  "farm_event X conf outs nw Emit s =
     (if f_emitted s < length outs then Some (s\<lparr>f_emitted := f_emitted s + 1\<rparr>) else None)"
| "farm_event X conf outs nw (Start i) s =
     (if f_emitted s \<le> i then None
      else if \<not> list_all (\<lambda>j. j mod nw = i mod nw \<longrightarrow> is_finished (f_tasks s ! j)) [0..<i] then None
      else (case f_tasks s ! i of
          Pending \<Rightarrow> Some (s\<lparr>f_tasks := (f_tasks s)[i := Running (pipeline_svc X (outs ! i) (f_workers s ! (i mod nw)))]\<rparr>)
        | _ \<Rightarrow> None))"
| "farm_event X conf outs nw (Work i) s =
     (if length (f_tasks s) \<le> i then None
      else (case f_tasks s ! i of
          Running (Act a k) \<Rightarrow>
            (case do_act X conf (Suc i) a (f_sh s) of
               Blocked \<Rightarrow> None
             | Crash e \<Rightarrow> Some (s\<lparr>f_crash := Some e\<rparr>)
             | Step r sh \<Rightarrow> Some (s\<lparr>f_sh := sh, f_tasks := (f_tasks s)[i := Running (k r)]\<rparr>))
        | Running (Fail e) \<Rightarrow> Some (s\<lparr>f_crash := Some e\<rparr>)
        | _ \<Rightarrow> None))"
| "farm_event X conf outs nw (Finish i) s =
     (if length (f_tasks s) \<le> i then None
      else (case f_tasks s ! i of
          Running (Ret (buf, w)) \<Rightarrow>
            Some (s\<lparr>f_tasks := (f_tasks s)[i := Finished buf], f_workers := (f_workers s)[i mod nw := w]\<rparr>)
        | _ \<Rightarrow> None))"
| "farm_event X conf outs nw Take s =
     (if length (f_tasks s) \<le> f_collected s \<or> f_coll s \<noteq> None then None
      else (case f_tasks s ! f_collected s of
          Finished buf \<Rightarrow> Some (s\<lparr>f_coll := Some (reorder_svc buf)\<rparr>)
        | _ \<Rightarrow> None))"
| "farm_event X conf outs nw Collect s =
     (case f_coll s of
        Some (Act a k) \<Rightarrow>
          (case do_act X conf 0 a (f_sh s) of
             Blocked \<Rightarrow> None
           | Crash e \<Rightarrow> Some (s\<lparr>f_crash := Some e\<rparr>)
           | Step r sh \<Rightarrow> Some (s\<lparr>f_sh := sh, f_coll := Some (k r)\<rparr>))
      | Some (Fail e) \<Rightarrow> Some (s\<lparr>f_crash := Some e\<rparr>)
      | _ \<Rightarrow> None)"
| "farm_event X conf outs nw Release s =
     (case f_coll s of
        Some (Ret u) \<Rightarrow> Some (s\<lparr>f_coll := None, f_collected := f_collected s + 1\<rparr>)
      | _ \<Rightarrow> None)"

definition farm_do :: "ext \<Rightarrow> config_t \<Rightarrow> chunk_t ringbuffer list \<Rightarrow> nat \<Rightarrow> event \<Rightarrow> farm \<Rightarrow> farm option" where
  "farm_do X conf outs nw e s = (if f_crash s \<noteq> None then None else farm_event X conf outs nw e s)"

fun farm_run :: "ext \<Rightarrow> config_t \<Rightarrow> chunk_t ringbuffer list \<Rightarrow> nat \<Rightarrow> event list \<Rightarrow> farm \<Rightarrow> farm option" where
  "farm_run X conf outs nw [] s = Some s"
| "farm_run X conf outs nw (e # es) s =
     (case farm_do X conf outs nw e s of None \<Rightarrow> None | Some s' \<Rightarrow> farm_run X conf outs nw es s')"

definition farm_init :: "shared \<Rightarrow> nat \<Rightarrow> nat \<Rightarrow> farm" where
  "farm_init sh nw n = \<lparr>f_sh = sh, f_tasks = replicate n Pending, f_workers = replicate nw new_worker,
     f_emitted = 0, f_collected = 0, f_coll = None, f_crash = None\<rparr>"

definition farm_final :: "farm \<Rightarrow> bool" where
  "farm_final s \<longleftrightarrow> f_collected s = length (f_tasks s) \<and> f_coll s = None \<and> f_crash s = None"

subsection \<open>The invariant of the farm\<close>

text \<open>What the emitter sends: well-formed tasks, and no worker gets a task after an end mark.\<close>

definition farm_setup :: "ext \<Rightarrow> config_t \<Rightarrow> (byte list \<Rightarrow> byte list) \<Rightarrow> byte list \<Rightarrow> byte list set \<Rightarrow>
    chunk_t ringbuffer list \<Rightarrow> nat \<Rightarrow> bool" where
  "farm_setup X conf D hdr U outs nw \<longleftrightarrow>
     good_env X conf D hdr U \<and> 0 < nw \<and> (\<forall>t\<in>set outs. task_ok X U t) \<and>
     (\<forall>i j. i < j \<longrightarrow> j < length outs \<longrightarrow> i mod nw = j mod nw \<longrightarrow> \<not> ringbuffer_isLast (outs ! i))"

definition task_inv :: "ext \<Rightarrow> config_t \<Rightarrow> (byte list \<Rightarrow> byte list) \<Rightarrow> byte list \<Rightarrow> byte list set \<Rightarrow>
    chunk_t ringbuffer list \<Rightarrow> nat \<Rightarrow> tstate \<Rightarrow> nat \<Rightarrow> shared \<Rightarrow> bool" where
  "task_inv X conf D hdr U outs i t n sh = (case t of
     Pending \<Rightarrow> pub (Suc i) [] [] [] sh \<and> n = task_steps X (outs ! i)
   | Running p \<Rightarrow> dd.safe X conf D hdr U p (Suc i) n
       (post_worker (Suc i) (task_blocks X (outs ! i)) (ringbuffer_isLast (outs ! i))) sh
   | Finished buf \<Rightarrow> rb_inv buf \<and> pub (Suc i) (task_blocks X (outs ! i)) (rb_items buf) [] sh)"

text \<open>The addresses the collector has written when it has collected \<open>k\<close> tasks.\<close>

definition task_items :: "tstate \<Rightarrow> nat list" where
  "task_items t = (case t of Finished buf \<Rightarrow> rb_items buf | _ \<Rightarrow> [])"

definition collected_items :: "tstate list \<Rightarrow> nat \<Rightarrow> nat list" where
  "collected_items ts k = concat (map task_items (take k ts))"

definition blocks_from :: "ext \<Rightarrow> chunk_t ringbuffer list \<Rightarrow> nat \<Rightarrow> nat" where
  "blocks_from X outs k = sum_list (map (\<lambda>t. length (task_blocks X t) + 2) (drop k outs))"

text \<open>\<open>c\<close> is the number of steps the collector still has to make.\<close>

definition coll_inv :: "ext \<Rightarrow> chunk_t ringbuffer list \<Rightarrow> nat \<Rightarrow> farm \<Rightarrow> bool" where
  "coll_inv X outs c s \<longleftrightarrow> f_collected s \<le> length (f_tasks s) \<and>
     (\<forall>i<f_collected s. is_finished (f_tasks s ! i)) \<and>
     (case f_coll s of
        None \<Rightarrow> written (f_sh s) = collected_items (f_tasks s) (f_collected s) \<and>
          c = blocks_from X outs (f_collected s)
      | Some p \<Rightarrow> f_collected s < length (f_tasks s) \<and>
          (\<exists>buf dn td. f_tasks s ! f_collected s = Finished buf \<and> rb_items buf = dn @ td \<and>
             p = write_all td \<and> written (f_sh s) = collected_items (f_tasks s) (f_collected s) @ dn \<and>
             c = blocks_from X outs (Suc (f_collected s)) + length td + 1))"

definition tcost :: "tstate \<Rightarrow> nat \<Rightarrow> nat" where
  "tcost t n = (case t of Pending \<Rightarrow> n + 2 | Running _ \<Rightarrow> n + 1 | Finished _ \<Rightarrow> 0)"

definition prev_done :: "nat \<Rightarrow> tstate list \<Rightarrow> nat \<Rightarrow> bool" where
  "prev_done nw ts i \<longleftrightarrow> (\<forall>j<i. j mod nw = i mod nw \<longrightarrow> is_finished (ts ! j))"

definition farm_inv :: "ext \<Rightarrow> config_t \<Rightarrow> (byte list \<Rightarrow> byte list) \<Rightarrow> byte list \<Rightarrow> byte list set \<Rightarrow>
    chunk_t ringbuffer list \<Rightarrow> nat \<Rightarrow> (nat \<Rightarrow> nat) \<Rightarrow> nat \<Rightarrow> farm \<Rightarrow> bool" where
  "farm_inv X conf D hdr U outs nw ns c s \<longleftrightarrow>
     f_crash s = None \<and> store_inv X conf D hdr U (f_sh s) \<and>
     length (f_tasks s) = length outs \<and> length (f_workers s) = nw \<and> f_emitted s \<le> length outs \<and>
     (\<forall>i<length outs. task_inv X conf D hdr U outs i (f_tasks s ! i) (ns i) (f_sh s)) \<and>
     (\<forall>i<length outs. f_tasks s ! i \<noteq> Pending \<longrightarrow> prev_done nw (f_tasks s) i) \<and>
     (\<forall>i<length outs. f_tasks s ! i = Pending \<longrightarrow> prev_done nw (f_tasks s) i \<longrightarrow>
        worker_ready (f_workers s ! (i mod nw))) \<and>
     (\<forall>a. chunks (f_sh s) a \<noteq> None \<longrightarrow> (\<exists>j<length outs. owner (f_sh s) a = Suc j)) \<and>
     coll_inv X outs c s"

definition farm_measure :: "chunk_t ringbuffer list \<Rightarrow> (nat \<Rightarrow> nat) \<Rightarrow> nat \<Rightarrow> farm \<Rightarrow> nat" where
  "farm_measure outs ns c s =
     (length outs - f_emitted s) + (\<Sum>i<length outs. tcost (f_tasks s ! i) (ns i)) + c"

lemma sum_drop:
  fixes f g :: "nat \<Rightarrow> nat"
  assumes "i < n" and "\<And>j. j \<noteq> i \<Longrightarrow> f j = g j" and "g i < f i"
  shows "(\<Sum>j<n. g j) < (\<Sum>j<n. f j)"
proof -
  have "(\<Sum>j<n. f j) = f i + (\<Sum>j\<in>{..<n} - {i}. f j)" "(\<Sum>j<n. g j) = g i + (\<Sum>j\<in>{..<n} - {i}. g j)"
    using assms(1) by (simp_all add: sum.remove)
  moreover have "(\<Sum>j\<in>{..<n} - {i}. f j) = (\<Sum>j\<in>{..<n} - {i}. g j)"
    using assms(2) by (intro sum.cong) auto
  ultimately show ?thesis using assms(3) by simp
qed

lemma task_inv_env:
  assumes "task_inv X conf D hdr U outs i t n s" and "env X D hdr U (Suc i) s u"
  shows "task_inv X conf D hdr U outs i t n u"
proof (cases t)
  case Pending
  then show ?thesis using assms pub_env by (auto simp: task_inv_def)
next
  case (Running p)
  then show ?thesis
    using assms dd.safe_env [OF post_worker_stable] by (auto simp: task_inv_def)
next
  case (Finished buf)
  then show ?thesis using assms pub_env by (auto simp: task_inv_def)
qed

text \<open>A successful action changes no owner but that of the chunk it publishes.\<close>

lemma do_act_owner:
  assumes "dinv X D hdr U s" and "ext_ok X conf D hdr" and "univ_ok X U"
    and "do_act X conf i a s = Step r t" and "may U i a s" and "chunks t x \<noteq> None"
  shows "(chunks s x \<noteq> None \<and> owner t x = owner s x) \<or> (owner t x = i \<and> i \<noteq> 0)"
proof (cases a)
  case (ADedup c)
  then obtain dup t' where t': "sub_Deduplicate X i c s = Step (RDedup dup (next_chunk s)) t'"
    "published X i c s dup t'"
    using sub_Deduplicate_published [OF assms(1,2), of c i] assms(5) by (auto simp: may_def)
  then have "t' = t" using assms(4) ADedup by simp
  then obtain d where "chunks t = (chunks s)(next_chunk s \<mapsto> d)" "owner t = (owner s)(next_chunk s := i)"
    using t'(2) unfolding published_def by blast
  then show ?thesis using assms(5,6) ADedup by (auto simp: may_def split: if_splits)
next
  case (ARead b)
  then show ?thesis using assms(4,6) by (auto simp: read_chunk_def split: option.splits)
next
  case (ACompress b)
  then show ?thesis using assms(4,6)
    by (auto simp: sub_Compress_def put_chunk_def split: option.splits if_splits sum.splits)
next
  case (AWrite b)
  obtain c where c: "chunks s b = Some c"
    using assms(4) AWrite by (auto simp: write_chunk_to_file_def split: option.splits)
  obtain d where d: "chunks s (original s b) = Some d"
    using original_chunk [OF assms(1,3) c] by blast
  have st: "state d \<noteq> CHUNK_STATE_UNCOMPRESSED"
    using write_waits_iff [OF assms(1,3) c d] assms(4) AWrite by auto
  obtain t' e where t': "write_chunk_to_file X b s = Step RUnit t'" "owner t' = owner s"
    "chunks t' = (chunks s)(original s b \<mapsto> e)"
    using write_chunk_ok [OF assms(1,2,3) c d st] by blast
  then show ?thesis using assms(4,6) AWrite d by (auto split: if_splits)
qed

subsection \<open>One event\<close>

text \<open>The parts of the invariant, by name.\<close>

lemma farm_inv_parts:
  assumes "farm_inv X conf D hdr U outs nw ns c s"
  shows "f_crash s = None" and "store_inv X conf D hdr U (f_sh s)"
    and "length (f_tasks s) = length outs" and "length (f_workers s) = nw"
    and "\<And>i. i < length outs \<Longrightarrow> task_inv X conf D hdr U outs i (f_tasks s ! i) (ns i) (f_sh s)"
    and "\<And>i. i < length outs \<Longrightarrow> f_tasks s ! i \<noteq> Pending \<Longrightarrow> prev_done nw (f_tasks s) i"
    and "\<And>i. i < length outs \<Longrightarrow> f_tasks s ! i = Pending \<Longrightarrow> prev_done nw (f_tasks s) i \<Longrightarrow>
      worker_ready (f_workers s ! (i mod nw))"
    and "\<And>a. chunks (f_sh s) a \<noteq> None \<Longrightarrow> \<exists>j<length outs. owner (f_sh s) a = Suc j"
    and "coll_inv X outs c s" and "f_emitted s \<le> length outs"
  using assms unfolding farm_inv_def by blast+

lemma prev_done_update:
  "is_finished t = is_finished (ts ! i) \<Longrightarrow> prev_done nw (ts[i := t]) j = prev_done nw ts j"
  unfolding prev_done_def by (metis list_update_beyond not_le nth_list_update_eq nth_list_update_neq)

lemma collected_items_update:
  "k \<le> i \<Longrightarrow> collected_items (ts[i := t]) k = collected_items ts k"
  by (simp add: collected_items_def)

lemma collected_items_Suc:
  "k < length ts \<Longrightarrow> collected_items ts (Suc k) = collected_items ts k @ task_items (ts ! k)"
  by (simp add: collected_items_def take_Suc_conv_app_nth)

lemma blocks_from_less:
  "k < length outs \<Longrightarrow> blocks_from X outs k = length (task_blocks X (outs ! k)) + 2 + blocks_from X outs (Suc k)"
  by (simp add: blocks_from_def Cons_nth_drop_Suc [symmetric])

text \<open>The collector does not look at tasks that are not finished.\<close>

lemma coll_inv_task:
  assumes "coll_inv X outs c s" and "i < length (f_tasks s)" and "\<not> is_finished (f_tasks s ! i)"
    and "f_tasks u = (f_tasks s)[i := t]" and "f_collected u = f_collected s" and "f_coll u = f_coll s"
    and "written (f_sh u) = written (f_sh s)"
  shows "coll_inv X outs c u"
proof -
  have le: "f_collected s \<le> i" using assms(1,3) unfolding coll_inv_def by (meson not_le)
  have "f_tasks u ! j = f_tasks s ! j" if "is_finished (f_tasks s ! j)" for j
    using that assms(3,4) by (metis nth_list_update_neq)
  moreover have "is_finished (f_tasks s ! f_collected s)" if "f_tasks s ! f_collected s = Finished buf" for buf
    using that by (simp add: is_finished_def)
  ultimately show ?thesis
    using assms le unfolding coll_inv_def
    by (cases "f_coll s") (auto simp: collected_items_update)
qed

text \<open>The effect of one event: the invariant holds again, with fewer steps left.\<close>

definition farm_next :: "ext \<Rightarrow> config_t \<Rightarrow> (byte list \<Rightarrow> byte list) \<Rightarrow> byte list \<Rightarrow> byte list set \<Rightarrow>
    chunk_t ringbuffer list \<Rightarrow> nat \<Rightarrow> (nat \<Rightarrow> nat) \<Rightarrow> nat \<Rightarrow> farm \<Rightarrow> farm \<Rightarrow> bool" where
  "farm_next X conf D hdr U outs nw ns c s u \<longleftrightarrow>
     (\<exists>ns' c'. farm_inv X conf D hdr U outs nw ns' c' u \<and> farm_measure outs ns' c' u < farm_measure outs ns c s)"

lemma farm_nextI:
  "farm_inv X conf D hdr U outs nw ns' c' u \<Longrightarrow> farm_measure outs ns' c' u < farm_measure outs ns c s \<Longrightarrow>
    farm_next X conf D hdr U outs nw ns c s u"
  unfolding farm_next_def by blast

lemma coll_inv_cong:
  "f_tasks u = f_tasks s \<Longrightarrow> f_collected u = f_collected s \<Longrightarrow> f_coll u = f_coll s \<Longrightarrow> f_sh u = f_sh s \<Longrightarrow>
    coll_inv X outs c u = coll_inv X outs c s"
  by (simp only: coll_inv_def)

lemma emit_step:
  assumes inv: "farm_inv X conf D hdr U outs nw ns c s"
    and ev: "farm_event X conf outs nw Emit s = Some u"
  shows "farm_next X conf D hdr U outs nw ns c s u"
proof (rule farm_nextI)
  have u: "u = s\<lparr>f_emitted := f_emitted s + 1\<rparr>" "f_emitted s < length outs"
    using ev by (auto split: if_splits)
  show "farm_inv X conf D hdr U outs nw ns c u"
    using inv u coll_inv_cong [of u s] by (simp add: farm_inv_def)
  show "farm_measure outs ns c u < farm_measure outs ns c s"
    using u by (simp add: farm_measure_def)
qed

text \<open>Replacing the state of one unfinished task.\<close>

lemma task_step:
  assumes inv: "farm_inv X conf D hdr U outs nw ns c s"
    and i: "i < length outs" "\<not> is_finished (f_tasks s ! i)" "t \<noteq> Pending"
    and u: "f_tasks u = (f_tasks s)[i := t]" "f_emitted u = f_emitted s" "f_collected u = f_collected s"
      "f_coll u = f_coll s" "f_crash u = None" "length (f_workers u) = nw"
    and sh: "store_inv X conf D hdr U (f_sh u)" "written (f_sh u) = written (f_sh s)"
      "\<And>j. j < length outs \<Longrightarrow> j \<noteq> i \<Longrightarrow> env X D hdr U (Suc j) (f_sh s) (f_sh u)"
      "\<And>a. chunks (f_sh u) a \<noteq> None \<Longrightarrow> \<exists>j<length outs. owner (f_sh u) a = Suc j"
    and t: "task_inv X conf D hdr U outs i t n (f_sh u)" "tcost t n < tcost (f_tasks s ! i) (ns i)"
    and prev: "prev_done nw (f_tasks s) i"
    and w: "\<And>j. j < length outs \<Longrightarrow> j \<noteq> i \<Longrightarrow> f_tasks s ! j = Pending \<Longrightarrow>
      prev_done nw ((f_tasks s)[i := t]) j \<Longrightarrow> worker_ready (f_workers u ! (j mod nw))"
  shows "farm_next X conf D hdr U outs nw ns c s u"
proof (rule farm_nextI)
  note P = farm_inv_parts [OF inv]
  let ?ns = "ns(i := n)"
  have len: "length (f_tasks s) = length outs" by (rule P(3))
  have at: "f_tasks u ! j = (if j = i then t else f_tasks s ! j)" if "j < length outs" for j
    using that u(1) len by simp
  have mono: "prev_done nw (f_tasks u) j" if "prev_done nw (f_tasks s) j" "j < length outs" for j
    using that i(2) unfolding prev_done_def u(1) by (metis nth_list_update_neq)
  show "farm_inv X conf D hdr U outs nw ?ns c u"
    unfolding farm_inv_def
  proof (intro conjI allI impI)
    show "coll_inv X outs c u"
      using i len by (intro coll_inv_task [OF P(9) _ _ u(1,3,4) sh(2)]) auto
    show "task_inv X conf D hdr U outs j (f_tasks u ! j) (?ns j) (f_sh u)" if j: "j < length outs" for j
      using t(1) at [OF j] task_inv_env [OF P(5) [OF j] sh(3) [OF j]] by (cases "j = i") auto
    show "prev_done nw (f_tasks u) j" if "j < length outs" "f_tasks u ! j \<noteq> Pending" for j
      using that at mono prev P(6) by (metis (full_types))
    show "worker_ready (f_workers u ! (j mod nw))"
      if "j < length outs" "f_tasks u ! j = Pending" "prev_done nw (f_tasks u) j" for j
      using that at w i(3) u(1) by (metis (full_types))
  qed (use u P sh len in auto)
  have "(\<Sum>j<length outs. tcost (f_tasks u ! j) (?ns j)) < (\<Sum>j<length outs. tcost (f_tasks s ! j) (ns j))"
    using i(1) t(2) at [OF i(1)] u(1) by (intro sum_drop [of i]) auto
  then show "farm_measure outs ?ns c u < farm_measure outs ns c s"
    using u(2) by (simp add: farm_measure_def)
qed

lemma task_inv_cases:
  assumes "task_inv X conf D hdr U outs i t n sh"
  obtains (pending) "t = Pending" "pub (Suc i) [] [] [] sh" "n = task_steps X (outs ! i)"
    | (running) p where "t = Running p" "dd.safe X conf D hdr U p (Suc i) n
       (post_worker (Suc i) (task_blocks X (outs ! i)) (ringbuffer_isLast (outs ! i))) sh"
    | (finished) buf where "t = Finished buf" "rb_inv buf" "pub (Suc i) (task_blocks X (outs ! i)) (rb_items buf) [] sh"
  using assms by (cases t) (auto simp: task_inv_def)

lemma store_env_refl: "store_inv X conf D hdr U s \<Longrightarrow> env X D hdr U i s s"
  by (rule dd.env_refl)

lemma start_step:
  assumes inv: "farm_inv X conf D hdr U outs nw ns c s" and su: "farm_setup X conf D hdr U outs nw"
    and ev: "farm_event X conf outs nw (Start i) s = Some u"
  shows "farm_next X conf D hdr U outs nw ns c s u"
proof -
  note P = farm_inv_parts [OF inv]
  let ?t = "Running (pipeline_svc X (outs ! i) (f_workers s ! (i mod nw)))"
  have em: "i < f_emitted s" and pd: "prev_done nw (f_tasks s) i" and pend: "f_tasks s ! i = Pending"
    and u: "u = s\<lparr>f_tasks := (f_tasks s)[i := ?t]\<rparr>"
    using ev by (auto simp: list_all_iff prev_done_def split: if_splits tstate.splits)
  have i: "i < length outs" using em P(10) by simp
  have ti: "pub (Suc i) [] [] [] (f_sh s)" "ns i = task_steps X (outs ! i)"
    using P(5) [OF i] pend by (auto simp: task_inv_def)
  have good: "good_env X conf D hdr U" "task_ok X U (outs ! i)" using su i by (auto simp: farm_setup_def)
  have safe: "dd.safe X conf D hdr U (pipeline_svc X (outs ! i) (f_workers s ! (i mod nw))) (Suc i) (task_steps X (outs ! i))
    (post_worker (Suc i) (task_blocks X (outs ! i)) (ringbuffer_isLast (outs ! i))) (f_sh s)"
    by (rule pipeline_svc_safe [OF good(1) _ good(2) P(7) [OF i pend pd] ti(1)]) simp
  show ?thesis
  proof (rule task_step [OF inv i, where t = ?t and n = "ns i"])
    show "task_inv X conf D hdr U outs i ?t (ns i) (f_sh u)" using safe ti(2) u by (simp add: task_inv_def)
    show "worker_ready (f_workers u ! (j mod nw))"
      if "j < length outs" "f_tasks s ! j = Pending" "prev_done nw ((f_tasks s)[i := ?t]) j" for j
    proof -
      have "prev_done nw (f_tasks s) j"
        using that(3) pend by (simp add: prev_done_update is_finished_def)
      then show ?thesis using P(7) [OF that(1,2)] u by simp
    qed
    show "\<exists>j<length outs. owner (f_sh u) a = Suc j" if "chunks (f_sh u) a \<noteq> None" for a
      using P(8) that u by simp
  qed (use u P pend pd store_env_refl [OF P(2)] in \<open>auto simp: is_finished_def tcost_def\<close>)
qed

lemma work_step:
  assumes inv: "farm_inv X conf D hdr U outs nw ns c s" and su: "farm_setup X conf D hdr U outs nw"
    and ev: "farm_event X conf outs nw (Work i) s = Some u"
  shows "farm_next X conf D hdr U outs nw ns c s u"
proof -
  note P = farm_inv_parts [OF inv]
  have i: "i < length outs" using ev P(3) by (auto split: if_splits)
  let ?Q = "post_worker (Suc i) (task_blocks X (outs ! i)) (ringbuffer_isLast (outs ! i))"
  obtain p where p: "f_tasks s ! i = Running p" using ev by (auto split: if_splits tstate.splits)
  have safe: "dd.safe X conf D hdr U p (Suc i) (ns i) ?Q (f_sh s)"
    using P(5) [OF i] p by (simp add: task_inv_def)
  obtain a k where ak: "p = Act a k"
    using ev p safe by (cases p) (auto split: if_splits)
  obtain r sh m where st: "ns i = Suc m" "do_act X conf (Suc i) a (f_sh s) = Step r sh" "may U (Suc i) a (f_sh s)"
    "store_inv X conf D hdr U sh" "dd.safe X conf D hdr U (k r) (Suc i) m ?Q sh"
    using dd.safe_action [OF P(2) safe [unfolded ak]] by blast
  have u: "u = s\<lparr>f_sh := sh, f_tasks := (f_tasks s)[i := Running (k r)]\<rparr>"
    using ev p ak st(2) by (auto split: if_splits)
  have env: "env X D hdr U j (f_sh s) sh" if "j \<noteq> Suc i" for j
    by (rule dd.ex_env [OF P(2) st(2,3) that st(4)])
  show ?thesis
  proof (rule task_step [OF inv i, where t = "Running (k r)" and n = m])
    show "task_inv X conf D hdr U outs i (Running (k r)) m (f_sh u)" using st(5) u by (simp add: task_inv_def)
    show "worker_ready (f_workers u ! (j mod nw))"
      if "j < length outs" "f_tasks s ! j = Pending" "prev_done nw ((f_tasks s)[i := Running (k r)]) j" for j
    proof -
      have "prev_done nw (f_tasks s) j"
        using that(3) p by (simp add: prev_done_update is_finished_def)
      then show ?thesis using P(7) [OF that(1,2)] u by simp
    qed
    show "\<exists>j<length outs. owner (f_sh u) x = Suc j" if "chunks (f_sh u) x \<noteq> None" for x
    proof -
      have "dinv X D hdr U (f_sh s)" "ext_ok X conf D hdr" "univ_ok X U"
        using P(2) by (simp_all add: store_inv_def good_env_def)
      then have "(chunks (f_sh s) x \<noteq> None \<and> owner sh x = owner (f_sh s) x) \<or> owner sh x = Suc i"
        using do_act_owner [OF _ _ _ st(2,3), where x = x] that u by auto
      then show ?thesis using P(8) [of x] i u by auto
    qed
    show "written (f_sh u) = written (f_sh s)" using env [of 0] u by (simp add: env_def)
    show "prev_done nw (f_tasks s) i" using P(6) [OF i] p by simp
    show "env X D hdr U (Suc j) (f_sh s) (f_sh u)" if "j \<noteq> i" for j using env [of "Suc j"] that u by simp
  qed (use u P p st(1,4) in \<open>auto simp: is_finished_def tcost_def\<close>)
qed

lemma finish_step:
  assumes inv: "farm_inv X conf D hdr U outs nw ns c s" and su: "farm_setup X conf D hdr U outs nw"
    and ev: "farm_event X conf outs nw (Finish i) s = Some u"
  shows "farm_next X conf D hdr U outs nw ns c s u"
proof -
  note P = farm_inv_parts [OF inv]
  have i: "i < length outs" using ev P(3) by (auto split: if_splits)
  obtain buf w where p: "f_tasks s ! i = Running (Ret (buf, w))"
    and u: "u = s\<lparr>f_tasks := (f_tasks s)[i := Finished buf], f_workers := (f_workers s)[i mod nw := w]\<rparr>"
    using ev by (auto split: if_splits tstate.splits proc.splits)
  have post: "rb_inv buf" "pub (Suc i) (task_blocks X (outs ! i)) (rb_items buf) [] (f_sh s)"
    "\<not> ringbuffer_isLast (outs ! i) \<Longrightarrow> worker_ready w"
    using P(5) [OF i] p by (auto simp: task_inv_def post_worker_def)
  have nw: "0 < nw" using su by (simp add: farm_setup_def)
  show ?thesis
  proof (rule task_step [OF inv i, where t = "Finished buf" and n = 0])
    show "task_inv X conf D hdr U outs i (Finished buf) 0 (f_sh u)" using post u by (simp add: task_inv_def)
    show "worker_ready (f_workers u ! (j mod nw))"
      if j: "j < length outs" "j \<noteq> i" "f_tasks s ! j = Pending" "prev_done nw ((f_tasks s)[i := Finished buf]) j" for j
    proof (cases "j mod nw = i mod nw")
      case True
      have "\<not> j < i"
        using P(6) [OF i] p j(3) True unfolding prev_done_def by (auto simp: is_finished_def)
      then have "\<not> ringbuffer_isLast (outs ! i)"
        using su j(1,2) True unfolding farm_setup_def by (metis linorder_neqE_nat)
      then show ?thesis using post(3) u True P(4) nw by simp
    next
      case False
      then have "prev_done nw (f_tasks s) j"
        using j(4) unfolding prev_done_def by (metis nth_list_update_neq)
      then show ?thesis using P(7) [OF j(1,3)] u False by simp
    qed
    show "\<exists>j<length outs. owner (f_sh u) a = Suc j" if "chunks (f_sh u) a \<noteq> None" for a
      using P(8) that u by simp
    show "prev_done nw (f_tasks s) i" using P(6) [OF i] p by simp
  qed (use u P p store_env_refl [OF P(2)] in \<open>auto simp: is_finished_def tcost_def\<close>)
qed

text \<open>A step of the collector changes no task.\<close>

lemma collector_step:
  assumes inv: "farm_inv X conf D hdr U outs nw ns c s"
    and u: "f_tasks u = f_tasks s" "f_emitted u = f_emitted s" "f_workers u = f_workers s" "f_crash u = None"
    and sh: "store_inv X conf D hdr U (f_sh u)" "\<And>j. env X D hdr U (Suc j) (f_sh s) (f_sh u)"
      "\<And>a. chunks (f_sh u) a \<noteq> None \<Longrightarrow> chunks (f_sh s) a \<noteq> None" "owner (f_sh u) = owner (f_sh s)"
    and c: "coll_inv X outs c' u" "c' < c"
  shows "farm_next X conf D hdr U outs nw ns c s u"
proof (rule farm_nextI)
  note P = farm_inv_parts [OF inv]
  show "farm_inv X conf D hdr U outs nw ns c' u"
    unfolding farm_inv_def u
    using P c(1) sh u(4) task_inv_env [OF _ sh(2)] by auto
  show "farm_measure outs ns c' u < farm_measure outs ns c s"
    using u c(2) by (simp add: farm_measure_def)
qed

lemma take_step:
  assumes inv: "farm_inv X conf D hdr U outs nw ns c s"
    and ev: "farm_event X conf outs nw Take s = Some u"
  shows "farm_next X conf D hdr U outs nw ns c s u"
proof -
  note P = farm_inv_parts [OF inv]
  let ?k = "f_collected s"
  have k: "?k < length outs" "f_coll s = None" using ev P(3) by (auto split: if_splits)
  obtain buf where buf: "f_tasks s ! ?k = Finished buf" and u: "u = s\<lparr>f_coll := Some (reorder_svc buf)\<rparr>"
    using ev k P(3) by (auto split: tstate.splits)
  have t: "rb_inv buf" "pub (Suc ?k) (task_blocks X (outs ! ?k)) (rb_items buf) [] (f_sh s)"
    using P(5) [OF k(1)] buf by (auto simp: task_inv_def)
  have len: "length (task_blocks X (outs ! ?k)) = length (rb_items buf)"
    using pub_length [OF t(2)] by simp
  have old: "written (f_sh s) = collected_items (f_tasks s) ?k" "c = blocks_from X outs ?k"
      "\<forall>i<?k. is_finished (f_tasks s ! i)"
    using P(9) k(2) by (auto simp: coll_inv_def)
  have "coll_inv X outs (blocks_from X outs (Suc ?k) + length (rb_items buf) + 1) u"
    using old k P(3) buf u reorder_svc_items [OF t(1)] by (auto simp: coll_inv_def)
  moreover have "blocks_from X outs (Suc ?k) + length (rb_items buf) + 1 < c"
    using old(2) blocks_from_less [OF k(1), of X] len by simp
  ultimately show ?thesis
    using P store_env_refl [OF P(2)] u by (intro collector_step [OF inv]) auto
qed

lemma release_step:
  assumes inv: "farm_inv X conf D hdr U outs nw ns c s"
    and ev: "farm_event X conf outs nw Release s = Some u"
  shows "farm_next X conf D hdr U outs nw ns c s u"
proof -
  note P = farm_inv_parts [OF inv]
  let ?k = "f_collected s"
  obtain v where v: "f_coll s = Some (Ret v)" and u: "u = s\<lparr>f_coll := None, f_collected := ?k + 1\<rparr>"
    using ev by (auto split: option.splits proc.splits)
  obtain buf dn td where b: "?k < length (f_tasks s)" "f_tasks s ! ?k = Finished buf" "rb_items buf = dn @ td"
    "Ret v = write_all td" "written (f_sh s) = collected_items (f_tasks s) ?k @ dn"
    "c = blocks_from X outs (Suc ?k) + length td + 1" "\<forall>i<?k. is_finished (f_tasks s ! i)"
    using P(9) v unfolding coll_inv_def by auto
  have td: "td = []" using b(4) by (cases td) auto
  have "is_finished (f_tasks s ! i)" if "i < Suc ?k" for i
    using that b(2,7) by (cases "i = ?k") (auto simp: is_finished_def)
  then have "coll_inv X outs (blocks_from X outs (Suc ?k)) u"
    using b td u collected_items_Suc [OF b(1)] by (simp add: coll_inv_def task_items_def)
  then show ?thesis
    using P store_env_refl [OF P(2)] u b(6) by (intro collector_step [OF inv]) auto
qed

text \<open>What the collector does next: the chunk exists, and it waits exactly for its compression.\<close>

lemma collect_ready:
  assumes inv: "farm_inv X conf D hdr U outs nw ns c s"
    and p: "f_coll s = Some (Act a k)"
  obtains buf dn b td x d where "f_collected s < length outs" "f_tasks s ! f_collected s = Finished buf"
    "rb_items buf = dn @ b # td" "a = AWrite b" "k = (\<lambda>_. write_all td)"
    "written (f_sh s) = collected_items (f_tasks s) (f_collected s) @ dn"
    "c = blocks_from X outs (Suc (f_collected s)) + length td + 2"
    "chunks (f_sh s) b = Some x" "chunks (f_sh s) (original (f_sh s) b) = Some d" "\<not> isDuplicate d"
proof -
  note P = farm_inv_parts [OF inv]
  let ?k = "f_collected s"
  obtain buf dn td where b: "?k < length (f_tasks s)" "f_tasks s ! ?k = Finished buf" "rb_items buf = dn @ td"
    "Act a k = write_all td" "written (f_sh s) = collected_items (f_tasks s) ?k @ dn"
    "c = blocks_from X outs (Suc ?k) + length td + 1"
    using P(9) p unfolding coll_inv_def by auto
  obtain x td' where td: "td = x # td'" "a = AWrite x" "k = (\<lambda>_. write_all td')"
    using b(4) by (cases td) auto
  have k: "?k < length outs" using b(1) P(3) by simp
  have G: "dinv X D hdr U (f_sh s)" "univ_ok X U"
    using P(2) by (simp_all add: store_inv_def good_env_def)
  have "pub (Suc ?k) (task_blocks X (outs ! ?k)) (rb_items buf) [] (f_sh s)"
    using P(5) [OF k] b(2) by (auto simp: task_inv_def)
  then obtain y where y: "chunks (f_sh s) x = Some y"
    using pub_chunk [of _ _ _ _ _ x] b(3) td(1) by (metis append_Nil2 in_set_conv_decomp)
  moreover obtain d where "chunks (f_sh s) (original (f_sh s) x) = Some d" "\<not> isDuplicate d"
    using original_chunk [OF G y] by blast
  ultimately show thesis using that [OF k b(2) _ td(2,3) b(5) _ y] b(3,6) td(1) by simp
qed

lemma write_all_no_fail: "Fail e \<noteq> write_all as"
  by (cases as) auto

lemma collect_step:
  assumes inv: "farm_inv X conf D hdr U outs nw ns c s"
    and ev: "farm_event X conf outs nw Collect s = Some u"
  shows "farm_next X conf D hdr U outs nw ns c s u"
proof -
  note P = farm_inv_parts [OF inv]
  let ?k = "f_collected s"
  have "\<exists>a k. f_coll s = Some (Act a k)"
  proof (cases "f_coll s")
    case (Some p)
    then show ?thesis
      using ev P(9) write_all_no_fail by (cases p) (auto simp: coll_inv_def)
  qed (use ev in simp)
  then obtain a k where p: "f_coll s = Some (Act a k)" by blast
  obtain buf dn b td x d where r: "?k < length outs" "f_tasks s ! ?k = Finished buf"
    "rb_items buf = dn @ b # td" "a = AWrite b" "k = (\<lambda>_. write_all td)"
    "written (f_sh s) = collected_items (f_tasks s) ?k @ dn"
    "c = blocks_from X outs (Suc ?k) + length td + 2"
    "chunks (f_sh s) b = Some x" "chunks (f_sh s) (original (f_sh s) b) = Some d"
    using collect_ready [OF inv p] by metis
  have G: "dinv X D hdr U (f_sh s)" "ext_ok X conf D hdr" "univ_ok X U"
    using P(2) by (simp_all add: store_inv_def good_env_def)
  have ne: "state d \<noteq> CHUNK_STATE_UNCOMPRESSED"
    using write_waits_iff [OF G(1,3) r(8,9)] ev p r(4) by auto
  obtain t e where t: "write_chunk_to_file X b (f_sh s) = Step RUnit t" "dinv X D hdr U t"
    "written t = written (f_sh s) @ [b]" "owner t = owner (f_sh s)"
    "chunks t = (chunks (f_sh s))(original (f_sh s) b \<mapsto> e)"
    using write_chunk_ok [OF G r(8,9) ne] by blast
  have u: "u = s\<lparr>f_sh := t, f_coll := Some (write_all td)\<rparr>"
    using ev p r(4,5) t(1) by simp
  have st: "store_inv X conf D hdr U t" using t(2) G by (simp add: store_inv_def good_env_def)
  show ?thesis
  proof (rule collector_step [OF inv])
    show "env X D hdr U (Suc j) (f_sh s) (f_sh u)" for j
      using dd.ex_env [OF P(2) _ _ _ st, of 0 a RUnit "Suc j"] t(1) r(4) u by (simp add: may_def)
    show "coll_inv X outs (blocks_from X outs (Suc ?k) + length td + 1) u"
      unfolding coll_inv_def
      using P(3,9) r u t(3) by (auto simp: coll_inv_def)
    show "chunks (f_sh s) y \<noteq> None" if "chunks (f_sh u) y \<noteq> None" for y
      using that t(5) u r(9) by (auto split: if_splits)
  qed (use u P st t(4) r(7) in auto)
qed

lemma farm_step:
  assumes "farm_inv X conf D hdr U outs nw ns c s" and "farm_setup X conf D hdr U outs nw"
    and "farm_do X conf outs nw e s = Some u"
  shows "farm_next X conf D hdr U outs nw ns c s u"
proof -
  have ev: "farm_event X conf outs nw e s = Some u"
    using assms(3) by (simp add: farm_do_def split: if_splits)
  show ?thesis
    using emit_step [OF assms(1)] start_step [OF assms(1,2)] work_step [OF assms(1,2)] finish_step [OF assms(1,2)]
      take_step [OF assms(1)] collect_step [OF assms(1)] release_step [OF assms(1)] ev
    by (cases e) blast+
qed

end
