(* ===== verification/MBuffer.thy ===== *)
theory MBuffer
  imports Prelude "HOL-Library.Multiset"
begin

text \<open>
  Reference-counted memory buffers (\<open>kernels/dedup/src/mbuffer.c\<close>). An \<open>mbuffer\<close> is a
  window (pointer and length) into a block obtained from \<open>malloc\<close>; a control block
  (\<open>mcb\<close>) counts the windows and remembers the block. Blocks and control blocks live in
  an explicit store. Each access to a reference count is under the spin lock selected by
  \<open>lock_hash\<close>, so each operation is one atomic step on the store.
\<close>

record mcb =
  mcb_i :: u32
  mcb_ptr :: nat

record mstore =
  blocks :: "nat \<Rightarrow> byte list option"
  mcbs :: "nat \<Rightarrow> mcb option"
  next_addr :: nat

record mbuffer =
  mb_block :: nat
  mb_off :: nat
  mb_n :: nat
  mb_mcb :: nat

text \<open>The bytes a buffer shows, and those of a whole block.\<close>

definition block_bytes :: "mstore \<Rightarrow> nat \<Rightarrow> byte list" where
  "block_bytes st b = (case blocks st b of None \<Rightarrow> [] | Some bs \<Rightarrow> bs)"

definition mb_view :: "mstore \<Rightarrow> mbuffer \<Rightarrow> byte list" where
  "mb_view st m = take (mb_n m) (drop (mb_off m) (block_bytes st (mb_block m)))"

definition lock_hash :: "nat \<Rightarrow> nat" where
  "lock_hash p = p mod 1021"

text \<open>
  The lock array of the subsystem: absent, or one lock per slot. The initializer and the
  finalizer return their result code, the new array and the calls made on the locks.
\<close>

datatype lock_call = LockInit nat | LockDestroy nat

definition NUMBER_OF_LOCKS :: nat where
  "NUMBER_OF_LOCKS = 1021"

fun init_locks :: "(nat \<Rightarrow> bool) \<Rightarrow> nat \<Rightarrow> nat \<Rightarrow> bool \<times> lock_call list" where
  "init_locks init_ok i 0 = (True, [])"
| "init_locks init_ok i (Suc k) =
     (if \<not> init_ok i then (False, LockInit i # map (\<lambda>j. LockDestroy i) [0..<i])
      else (case init_locks init_ok (Suc i) k of (r, cs) \<Rightarrow> (r, LockInit i # cs)))"

definition mbuffer_system_init :: "bool \<Rightarrow> (nat \<Rightarrow> bool) \<Rightarrow> nat option \<Rightarrow>
    err + (int \<times> nat option \<times> lock_call list)" where
  "mbuffer_system_init alloc_ok init_ok locks =
     (if locks \<noteq> None then Inl AssertFailed
      else if \<not> alloc_ok then Inr (- 1, None, [])
      else (case init_locks init_ok 0 NUMBER_OF_LOCKS of
          (False, cs) \<Rightarrow> Inr (- 1, None, cs)
        | (True, cs) \<Rightarrow> Inr (0, Some NUMBER_OF_LOCKS, cs)))"

definition mbuffer_system_destroy :: "(nat \<Rightarrow> int) \<Rightarrow> nat option \<Rightarrow>
    int \<times> nat option \<times> lock_call list" where
  "mbuffer_system_destroy destroy locks =
     (let rv = sum_list (map destroy [0..<NUMBER_OF_LOCKS]) in
      (if rv \<noteq> 0 then - 1 else 0, None, map LockDestroy [0..<NUMBER_OF_LOCKS]))"

text \<open>
  \<open>junk\<close> is what uninitialized memory holds, \<open>ok1\<close> and \<open>ok2\<close> the outcome of the two
  calls of \<open>malloc\<close>.
\<close>

definition mbuffer_create :: "(nat \<Rightarrow> byte) \<Rightarrow> bool \<Rightarrow> bool \<Rightarrow> nat \<Rightarrow> mstore \<Rightarrow>
    err + (mbuffer option \<times> mstore)" where
  "mbuffer_create junk ok1 ok2 n st =
     (if \<not> 0 < n then Inl AssertFailed
      else if \<not> ok1 then Inr (None, st)
      else if \<not> ok2 then Inr (None, st)
      else let p = next_addr st; c = next_addr st + 1 in
        Inr (Some \<lparr>mb_block = p, mb_off = 0, mb_n = n, mb_mcb = c\<rparr>,
          st\<lparr>blocks := (blocks st)(p \<mapsto> map junk [0..<n]),
             mcbs := (mcbs st)(c \<mapsto> \<lparr>mcb_i = 1, mcb_ptr = p\<rparr>),
             next_addr := next_addr st + 2\<rparr>))"

definition mbuffer_clone :: "bool \<Rightarrow> mbuffer \<Rightarrow> mstore \<Rightarrow> err + (mbuffer option \<times> mstore)" where
  "mbuffer_clone ok m st =
     (if \<not> ok then Inr (None, st)
      else case mcbs st (mb_mcb m) of None \<Rightarrow> Inl BadAccess
      | Some c \<Rightarrow>
        if \<not> 1 \<le> mcb_i c then Inl AssertFailed
        else Inr (Some m, st\<lparr>mcbs := (mcbs st)(mb_mcb m \<mapsto> c\<lparr>mcb_i := mcb_i c + 1\<rparr>)\<rparr>))"

definition mbuffer_copy :: "(nat \<Rightarrow> byte) \<Rightarrow> bool \<Rightarrow> bool \<Rightarrow> bool \<Rightarrow> mbuffer \<Rightarrow> mstore \<Rightarrow>
    err + (mbuffer option \<times> mstore)" where
  "mbuffer_copy junk ok ok1 ok2 m st =
     (if \<not> 1 \<le> mb_n m then Inl AssertFailed
      else if \<not> ok then Inr (None, st)
      else case mbuffer_create junk ok1 ok2 (mb_n m) st of Inl e \<Rightarrow> Inl e
      | Inr (None, st') \<Rightarrow> Inr (None, st')
      | Inr (Some t, st') \<Rightarrow>
          Inr (Some t, st'\<lparr>blocks := (blocks st')(mb_block t \<mapsto>
             mb_view st' m @ drop (mb_n m) (block_bytes st' (mb_block t)))\<rparr>))"

definition mbuffer_free :: "mbuffer \<Rightarrow> mstore \<Rightarrow> err + mstore" where
  "mbuffer_free m st =
     (case mcbs st (mb_mcb m) of None \<Rightarrow> Inl BadAccess
      | Some c \<Rightarrow>
        let ref = mcb_i c - 1 in
        if ref = 0 then
          Inr (st\<lparr>blocks := (blocks st)(mcb_ptr c := None), mcbs := (mcbs st)(mb_mcb m := None)\<rparr>)
        else Inr (st\<lparr>mcbs := (mcbs st)(mb_mcb m \<mapsto> c\<lparr>mcb_i := ref\<rparr>)\<rparr>))"

text \<open>
  \<open>realloc\<close> moves the block: the old one is released, a fresh one holds the old bytes up to
  the smaller of the two sizes.
\<close>

definition mbuffer_realloc :: "(nat \<Rightarrow> byte) \<Rightarrow> bool \<Rightarrow> mbuffer \<Rightarrow> nat \<Rightarrow> mstore \<Rightarrow>
    err + (int \<times> mbuffer \<times> mstore)" where
  "mbuffer_realloc junk ok m n st =
     (if \<not> 0 < n then Inl AssertFailed
      else case mcbs st (mb_mcb m) of None \<Rightarrow> Inl BadAccess
      | Some c \<Rightarrow>
        if 1 < mcb_i c then Inr (- 1, m, st)
        else if (mb_block m, mb_off m) \<noteq> (mcb_ptr c, 0) then Inr (- 1, m, st)
        else if \<not> ok then Inr (- 1, m, st)
        else let old = block_bytes st (mb_block m); r = next_addr st in
          Inr (0, m\<lparr>mb_block := r, mb_off := 0, mb_n := n\<rparr>,
            st\<lparr>blocks := (blocks st)(mb_block m := None, r \<mapsto>
                  take n old @ map junk [length old..<n]),
               mcbs := (mcbs st)(mb_mcb m \<mapsto> c\<lparr>mcb_ptr := r\<rparr>),
               next_addr := next_addr st + 1\<rparr>))"

definition mbuffer_split :: "mbuffer \<Rightarrow> nat \<Rightarrow> mstore \<Rightarrow> err + (mbuffer \<times> mbuffer \<times> mstore)" where
  "mbuffer_split m1 split st =
     (if \<not> 0 < split then Inl AssertFailed
      else if \<not> split < mb_n m1 then Inl AssertFailed
      else case mcbs st (mb_mcb m1) of None \<Rightarrow> Inl BadAccess
      | Some c \<Rightarrow>
        if \<not> 1 \<le> mcb_i c then Inl AssertFailed
        else Inr (m1\<lparr>mb_n := split\<rparr>,
          m1\<lparr>mb_off := mb_off m1 + split, mb_n := mb_n m1 - split\<rparr>,
          st\<lparr>mcbs := (mcbs st)(mb_mcb m1 \<mapsto> c\<lparr>mcb_i := mcb_i c + 1\<rparr>)\<rparr>))"

subsection \<open>The invariant\<close>

text \<open>
  \<open>L\<close> lists the buffers the program still holds, one entry per owner. Every control block
  counts exactly its buffers, every buffer lies inside its block, a block belongs to exactly
  one control block, and addresses not yet handed out are unused.
\<close>

definition refs :: "mbuffer list \<Rightarrow> nat \<Rightarrow> nat" where
  "refs L c = length (filter (\<lambda>m. mb_mcb m = c) L)"

definition mb_ok :: "mstore \<Rightarrow> mbuffer \<Rightarrow> bool" where
  "mb_ok st m \<longleftrightarrow> (\<exists>c bs. mcbs st (mb_mcb m) = Some c \<and> mcb_ptr c = mb_block m \<and>
     blocks st (mb_block m) = Some bs \<and> mb_off m + mb_n m \<le> length bs)"

definition mstore_inv :: "mbuffer list \<Rightarrow> mstore \<Rightarrow> bool" where
  "mstore_inv L st \<longleftrightarrow>
     (\<forall>m\<in>set L. mb_ok st m) \<and> length L < 2 ^ 32 \<and>
     (\<forall>a c. mcbs st a = Some c \<longrightarrow> unat (mcb_i c) = refs L a \<and> 0 < refs L a \<and>
        blocks st (mcb_ptr c) \<noteq> None) \<and>
     (\<forall>a b c d. mcbs st a = Some c \<longrightarrow> mcbs st b = Some d \<longrightarrow> mcb_ptr c = mcb_ptr d \<longrightarrow> a = b) \<and>
     (\<forall>p. blocks st p \<noteq> None \<longrightarrow> (\<exists>a c. mcbs st a = Some c \<and> mcb_ptr c = p)) \<and>
     (\<forall>a. next_addr st \<le> a \<longrightarrow> mcbs st a = None \<and> blocks st a = None)"

definition mstore_empty :: mstore where
  "mstore_empty = \<lparr>blocks = (\<lambda>_. None), mcbs = (\<lambda>_. None), next_addr = 0\<rparr>"

lemma mstore_inv_empty: "mstore_inv [] mstore_empty"
  by (simp add: mstore_inv_def mstore_empty_def)

lemma mstore_invI:
  assumes "\<And>m. m \<in> set L \<Longrightarrow> mb_ok st m" and "length L < 2 ^ 32"
    and "\<And>a c. mcbs st a = Some c \<Longrightarrow> unat (mcb_i c) = refs L a \<and> 0 < refs L a"
    and "\<And>a c. mcbs st a = Some c \<Longrightarrow> blocks st (mcb_ptr c) \<noteq> None"
    and "\<And>a b c d. mcbs st a = Some c \<Longrightarrow> mcbs st b = Some d \<Longrightarrow> mcb_ptr c = mcb_ptr d \<Longrightarrow> a = b"
    and "\<And>p. blocks st p \<noteq> None \<Longrightarrow> \<exists>a c. mcbs st a = Some c \<and> mcb_ptr c = p"
    and "\<And>a. next_addr st \<le> a \<Longrightarrow> mcbs st a = None \<and> blocks st a = None"
  shows "mstore_inv L st"
  unfolding mstore_inv_def using assms by blast

lemma mstore_inv_ok: "mstore_inv L st \<Longrightarrow> m \<in> set L \<Longrightarrow> mb_ok st m"
  and mstore_inv_count: "mstore_inv L st \<Longrightarrow> mcbs st a = Some c \<Longrightarrow> unat (mcb_i c) = refs L a \<and> 0 < refs L a"
  and mstore_inv_ptr: "mstore_inv L st \<Longrightarrow> mcbs st a = Some c \<Longrightarrow> blocks st (mcb_ptr c) \<noteq> None"
  and mstore_inv_inj: "mstore_inv L st \<Longrightarrow> mcbs st a = Some c \<Longrightarrow> mcbs st b = Some d \<Longrightarrow>
    mcb_ptr c = mcb_ptr d \<Longrightarrow> a = b"
  and mstore_inv_used: "mstore_inv L st \<Longrightarrow> blocks st p \<noteq> None \<Longrightarrow>
    \<exists>a c. mcbs st a = Some c \<and> mcb_ptr c = p"
  and mstore_inv_fresh: "mstore_inv L st \<Longrightarrow> next_addr st \<le> a \<Longrightarrow> mcbs st a = None \<and> blocks st a = None"
  and mstore_inv_len: "mstore_inv L st \<Longrightarrow> length L < 2 ^ 32"
  unfolding mstore_inv_def by blast+

lemma refs_Nil [heap_simps]: "refs [] c = 0"
  by (simp add: refs_def)

lemma refs_Cons [heap_simps]: "refs (m # L) c = (if mb_mcb m = c then 1 else 0) + refs L c"
  by (simp add: refs_def)

lemma refs_zero: "refs L c = 0 \<longleftrightarrow> (\<forall>m\<in>set L. mb_mcb m \<noteq> c)"
  by (induction L) (auto simp: heap_simps)

lemma refs_le: "refs L c \<le> length L"
  by (simp add: refs_def)

lemma refs_mset: "mset L = mset L' \<Longrightarrow> refs L c = refs L' c"
  by (metis mset_filter refs_def size_mset)

lemma mstore_inv_perm: "mset L = mset L' \<Longrightarrow> mstore_inv L st \<longleftrightarrow> mstore_inv L' st"
proof -
  assume m: "mset L = mset L'"
  have "set L = set L'" and "length L = length L'" and "refs L = refs L'"
    using mset_eq_setD [OF m] mset_eq_length [OF m] refs_mset [OF m] by auto
  then show ?thesis unfolding mstore_inv_def by (simp only:)
qed

lemma mb_view_cong:
  "blocks st' (mb_block x) = blocks st (mb_block x) \<Longrightarrow> mb_view st' x = mb_view st x"
  by (simp add: mb_view_def block_bytes_def)

lemma length_mb_view: "mb_ok st m \<Longrightarrow> length (mb_view st m) = mb_n m"
  by (auto simp: mb_ok_def mb_view_def block_bytes_def)

text \<open>What the invariant says of the control block of a held buffer.\<close>

lemma mstore_invD:
  assumes "mstore_inv L st" and "m \<in> set L"
  obtains c bs where "mcbs st (mb_mcb m) = Some c" and "mcb_ptr c = mb_block m"
    and "blocks st (mb_block m) = Some bs" and "mb_off m + mb_n m \<le> length bs"
    and "unat (mcb_i c) = refs L (mb_mcb m)" and "0 < refs L (mb_mcb m)"
  using assms by (force simp: mstore_inv_def mb_ok_def)

text \<open>Two buffers share a block exactly if they share a control block.\<close>

lemma mstore_inv_block_iff:
  assumes "mstore_inv L st" and "m \<in> set L" and "x \<in> set L"
  shows "mb_block x = mb_block m \<longleftrightarrow> mb_mcb x = mb_mcb m"
proof -
  obtain c bs where c: "mcbs st (mb_mcb m) = Some c" "mcb_ptr c = mb_block m"
    by (rule mstore_invD [OF assms(1,2)])
  obtain d ds where d: "mcbs st (mb_mcb x) = Some d" "mcb_ptr d = mb_block x"
    by (rule mstore_invD [OF assms(1,3)])
  show ?thesis
    using c d assms(1) by (auto simp: mstore_inv_def)
qed

lemma unat_inc_ref:
  "unat (w :: u32) = k \<Longrightarrow> k + 1 < 2 ^ 32 \<Longrightarrow> unat (w + 1) = k + 1"
  by (simp add: unat_word_ariths)

lemma unat_dec_ref: "unat (w :: u32) = Suc k \<Longrightarrow> unat (w - 1) = k"
  by (metis Suc_eq_plus1 diff_Suc_1 nat.simps(3) unat_eq_zero unat_minus_one)

subsection \<open>Every operation keeps the invariant\<close>

text \<open>The step \<open>clone\<close> and \<open>split\<close> share: one more buffer on an existing block.\<close>

definition add_ref :: "mbuffer \<Rightarrow> mcb \<Rightarrow> mstore \<Rightarrow> mstore" where
  "add_ref m c st = st\<lparr>mcbs := (mcbs st)(mb_mcb m \<mapsto> c\<lparr>mcb_i := mcb_i c + 1\<rparr>)\<rparr>"

lemma mb_view_add_ref [heap_simps]: "mb_view (add_ref m c st) x = mb_view st x"
  by (rule mb_view_cong) (simp add: add_ref_def)

lemma add_ref_inv:
  assumes inv: "mstore_inv (m # L) st" and len: "Suc (length L) + 1 < 2 ^ 32"
    and c: "mcbs st (mb_mcb m) = Some c"
    and m1: "mb_block m1 = mb_block m" "mb_mcb m1 = mb_mcb m" "mb_off m1 + mb_n m1 \<le> mb_off m + mb_n m"
    and m2: "mb_block m2 = mb_block m" "mb_mcb m2 = mb_mcb m" "mb_off m2 + mb_n m2 \<le> mb_off m + mb_n m"
  shows "mstore_inv (m1 # m2 # L) (add_ref m c st)"
proof (rule mstore_invI)
  let ?st = "add_ref m c st"
  have keep: "mb_ok ?st x" if "mb_ok st x" for x
    using that c by (auto simp: mb_ok_def add_ref_def)
  show "mb_ok ?st x" if "x \<in> set (m1 # m2 # L)" for x
    using keep [OF mstore_inv_ok [OF inv, of m]] keep [OF mstore_inv_ok [OF inv, of x]] m1 m2 that
    by (auto simp: mb_ok_def)
  have bump: "unat (mcb_i c + 1) = refs (m # L) (mb_mcb m) + 1"
  proof (rule unat_inc_ref)
    show "unat (mcb_i c) = refs (m # L) (mb_mcb m)"
      using mstore_inv_count [OF inv c] by simp
    show "refs (m # L) (mb_mcb m) + 1 < 2 ^ 32"
      using refs_le [of "m # L" "mb_mcb m"] len by simp
  qed
  have sub: "\<exists>d. mcbs st a = Some d \<and> mcb_ptr d = mcb_ptr e \<and> (a \<noteq> mb_mcb m \<longrightarrow> d = e) \<and>
      (a = mb_mcb m \<longrightarrow> mcb_i e = mcb_i c + 1)" if "mcbs ?st a = Some e" for a e
    using that c by (auto simp: add_ref_def split: if_splits)
  show "unat (mcb_i e) = refs (m1 # m2 # L) a \<and> 0 < refs (m1 # m2 # L) a" if "mcbs ?st a = Some e" for a e
    using sub [OF that] bump mstore_inv_count [OF inv, of a] m1(2) m2(2)
    by (cases "a = mb_mcb m") (auto simp: heap_simps)
  show "blocks ?st (mcb_ptr e) \<noteq> None" if "mcbs ?st a = Some e" for a e
    using sub [OF that] mstore_inv_ptr [OF inv, of a] by (auto simp: add_ref_def)
  show "a = b" if "mcbs ?st a = Some e" "mcbs ?st b = Some f" "mcb_ptr e = mcb_ptr f" for a b e f
    using sub [OF that(1)] sub [OF that(2)] that(3) mstore_inv_inj [OF inv, of a _ b] by metis
  show "\<exists>a e. mcbs ?st a = Some e \<and> mcb_ptr e = p" if blk: "blocks ?st p \<noteq> None" for p
  proof -
    obtain a d where "mcbs st a = Some d" "mcb_ptr d = p"
      using mstore_inv_used [OF inv, of p] blk by (auto simp: add_ref_def)
    then show ?thesis
      using c by (cases "a = mb_mcb m") (auto simp: add_ref_def)
  qed
  show "mcbs ?st a = None \<and> blocks ?st a = None" if "next_addr ?st \<le> a" for a
    using mstore_inv_fresh [OF inv, of a] that c by (auto simp: add_ref_def)
qed (use len in simp)

lemma mbuffer_split_ok:
  assumes inv: "mstore_inv (m # L) st" and len: "Suc (length L) + 1 < 2 ^ 32"
    and n: "0 < split" "split < mb_n m"
  shows "\<exists>c m1 m2. mcbs st (mb_mcb m) = Some c \<and>
    mbuffer_split m split st = Inr (m1, m2, add_ref m c st) \<and>
    mstore_inv (m1 # m2 # L) (add_ref m c st) \<and>
    mb_view (add_ref m c st) m1 = take split (mb_view st m) \<and>
    mb_view (add_ref m c st) m2 = drop split (mb_view st m)"
proof -
  obtain c where c: "mcbs st (mb_mcb m) = Some c" "unat (mcb_i c) = refs (m # L) (mb_mcb m)"
    "0 < refs (m # L) (mb_mcb m)"
    by (rule mstore_invD [OF inv, of m]) auto
  then have pos: "1 \<le> mcb_i c" by (simp add: word_le_nat_alt)
  let ?m1 = "m\<lparr>mb_n := split\<rparr>"
  let ?m2 = "m\<lparr>mb_off := mb_off m + split, mb_n := mb_n m - split\<rparr>"
  have "mbuffer_split m split st = Inr (?m1, ?m2, add_ref m c st)"
    using c pos n by (simp add: mbuffer_split_def add_ref_def)
  moreover have "mstore_inv (?m1 # ?m2 # L) (add_ref m c st)"
    using n by (intro add_ref_inv [OF inv len c(1)]) auto
  moreover have "mb_view st ?m1 = take split (mb_view st m)"
    using n by (simp add: mb_view_def block_bytes_def)
  moreover have "mb_view st ?m2 = drop split (mb_view st m)"
    by (simp add: mb_view_def block_bytes_def drop_take add.commute)
  ultimately show ?thesis using c(1) by (auto simp: heap_simps)
qed

lemma mbuffer_clone_ok:
  assumes inv: "mstore_inv (m # L) st" and len: "Suc (length L) + 1 < 2 ^ 32"
  shows "\<exists>c. mbuffer_clone True m st = Inr (Some m, add_ref m c st) \<and>
    mstore_inv (m # m # L) (add_ref m c st)"
proof -
  obtain c where c: "mcbs st (mb_mcb m) = Some c" "unat (mcb_i c) = refs (m # L) (mb_mcb m)"
    "0 < refs (m # L) (mb_mcb m)"
    by (rule mstore_invD [OF inv, of m]) auto
  then have "1 \<le> mcb_i c" by (simp add: word_le_nat_alt)
  then have "mbuffer_clone True m st = Inr (Some m, add_ref m c st)"
    using c by (simp add: mbuffer_clone_def add_ref_def)
  then show ?thesis using add_ref_inv [OF inv len c(1), of m m] by auto
qed

lemma mbuffer_free_last:
  assumes inv: "mstore_inv (m # L) st" and last: "refs L (mb_mcb m) = 0"
  shows "\<exists>st'. mbuffer_free m st = Inr st' \<and> mstore_inv L st' \<and>
    blocks st' = (blocks st)(mb_block m := None) \<and> mcbs st' = (mcbs st)(mb_mcb m := None)"
proof -
  obtain c where c: "mcbs st (mb_mcb m) = Some c" "mcb_ptr c = mb_block m"
    "unat (mcb_i c) = refs (m # L) (mb_mcb m)"
    by (rule mstore_invD [OF inv, of m]) auto
  define st' where "st' = st\<lparr>blocks := (blocks st)(mb_block m := None), mcbs := (mcbs st)(mb_mcb m := None)\<rparr>"
  have "mcb_i c - 1 = 0"
    using c(3) last unat_dec_ref [of "mcb_i c" 0] by (simp add: heap_simps unat_eq_zero)
  then have "mbuffer_free m st = Inr st'"
    using c by (simp add: mbuffer_free_def st'_def)
  moreover have "mstore_inv L st'"
  proof (rule mstore_invI)
    have ne: "mb_mcb x \<noteq> mb_mcb m" "mb_block x \<noteq> mb_block m" if "x \<in> set L" for x
      using last that mstore_inv_block_iff [OF inv, of m x] by (auto simp: refs_zero)
    show "mb_ok st' x" if "x \<in> set L" for x
      using mstore_inv_ok [OF inv, of x] ne [OF that] that by (auto simp: mb_ok_def st'_def)
    have sub: "a \<noteq> mb_mcb m \<and> mcbs st a = Some e" if "mcbs st' a = Some e" for a e
      using that by (auto simp: st'_def split: if_splits)
    show "unat (mcb_i e) = refs L a \<and> 0 < refs L a" if "mcbs st' a = Some e" for a e
      using sub [OF that] mstore_inv_count [OF inv, of a e] by (auto simp: heap_simps)
    have ptr: "mcb_ptr e \<noteq> mb_block m" if "mcbs st' a = Some e" for a e
      using sub [OF that] mstore_inv_inj [OF inv, of a e "mb_mcb m" c] c by auto
    show "blocks st' (mcb_ptr e) \<noteq> None" if "mcbs st' a = Some e" for a e
      using sub [OF that] ptr [OF that] mstore_inv_ptr [OF inv, of a e] by (auto simp: st'_def)
    show "a = b" if "mcbs st' a = Some e" "mcbs st' b = Some f" "mcb_ptr e = mcb_ptr f" for a b e f
      using sub [OF that(1)] sub [OF that(2)] that(3) mstore_inv_inj [OF inv, of a e b f] by simp
    show "\<exists>a e. mcbs st' a = Some e \<and> mcb_ptr e = p" if blk: "blocks st' p \<noteq> None" for p
    proof -
      have "p \<noteq> mb_block m" "blocks st p \<noteq> None"
        using blk by (auto simp: st'_def split: if_splits)
      then obtain a e where "mcbs st a = Some e" "mcb_ptr e = p" "a \<noteq> mb_mcb m"
        using mstore_inv_used [OF inv, of p] c by (metis option.inject)
      then show ?thesis by (auto simp: st'_def)
    qed
    show "mcbs st' a = None \<and> blocks st' a = None" if "next_addr st' \<le> a" for a
      using mstore_inv_fresh [OF inv, of a] that by (auto simp: st'_def)
  qed (use mstore_inv_len [OF inv] in simp)
  ultimately show ?thesis by (simp add: st'_def)
qed

lemma mbuffer_free_shared:
  assumes inv: "mstore_inv (m # L) st" and more: "refs L (mb_mcb m) \<noteq> 0"
  shows "\<exists>st'. mbuffer_free m st = Inr st' \<and> mstore_inv L st' \<and> blocks st' = blocks st \<and>
    dom (mcbs st') = dom (mcbs st)"
proof -
  obtain c where c: "mcbs st (mb_mcb m) = Some c" "unat (mcb_i c) = refs (m # L) (mb_mcb m)"
    by (rule mstore_invD [OF inv, of m]) auto
  have ref: "unat (mcb_i c - 1) = refs L (mb_mcb m)"
    using c(2) by (intro unat_dec_ref) (simp add: heap_simps)
  then have nz: "mcb_i c - 1 \<noteq> 0"
    using more by (metis unat_0)
  define st' where "st' = st\<lparr>mcbs := (mcbs st)(mb_mcb m \<mapsto> c\<lparr>mcb_i := mcb_i c - 1\<rparr>)\<rparr>"
  have "mbuffer_free m st = Inr st'"
    using c nz by (simp add: mbuffer_free_def st'_def)
  moreover have "mstore_inv L st'"
  proof (rule mstore_invI)
    show "mb_ok st' x" if "x \<in> set L" for x
      using mstore_inv_ok [OF inv, of x] that c by (auto simp: mb_ok_def st'_def)
    have sub: "\<exists>d. mcbs st a = Some d \<and> mcb_ptr d = mcb_ptr e \<and> (a \<noteq> mb_mcb m \<longrightarrow> d = e) \<and>
        (a = mb_mcb m \<longrightarrow> mcb_i e = mcb_i c - 1)" if "mcbs st' a = Some e" for a e
      using that c by (auto simp: st'_def split: if_splits)
    show "unat (mcb_i e) = refs L a \<and> 0 < refs L a" if "mcbs st' a = Some e" for a e
      using sub [OF that] ref more mstore_inv_count [OF inv, of a]
      by (cases "a = mb_mcb m") (auto simp: heap_simps)
    show "blocks st' (mcb_ptr e) \<noteq> None" if "mcbs st' a = Some e" for a e
      using sub [OF that] mstore_inv_ptr [OF inv, of a] by (auto simp: st'_def)
    show "a = b" if "mcbs st' a = Some e" "mcbs st' b = Some f" "mcb_ptr e = mcb_ptr f" for a b e f
      using sub [OF that(1)] sub [OF that(2)] that(3) mstore_inv_inj [OF inv, of a _ b] by metis
    show "\<exists>a e. mcbs st' a = Some e \<and> mcb_ptr e = p" if blk: "blocks st' p \<noteq> None" for p
    proof -
      obtain a d where "mcbs st a = Some d" "mcb_ptr d = p"
        using mstore_inv_used [OF inv, of p] blk by (auto simp: st'_def)
      then show ?thesis
        using c by (cases "a = mb_mcb m") (auto simp: st'_def)
    qed
    show "mcbs st' a = None \<and> blocks st' a = None" if "next_addr st' \<le> a" for a
      using mstore_inv_fresh [OF inv, of a] that c by (auto simp: st'_def)
  qed (use mstore_inv_len [OF inv] in simp)
  ultimately show ?thesis using c by (auto simp: st'_def)
qed

lemma mbuffer_create_ok:
  assumes inv: "mstore_inv L st" and len: "length L + 1 < 2 ^ 32" and n: "0 < n"
  shows "\<exists>m st'. mbuffer_create junk True True n st = Inr (Some m, st') \<and> mstore_inv (m # L) st' \<and>
    mb_off m = 0 \<and> mb_n m = n \<and> mb_mcb m = next_addr st + 1 \<and> mb_block m = next_addr st \<and>
    length (mb_view st' m) = n \<and> (\<forall>b. b \<noteq> next_addr st \<longrightarrow> blocks st' b = blocks st b) \<and>
    blocks st' (mb_block m) = Some (map junk [0..<n])"
proof -
  let ?p = "next_addr st" and ?c = "next_addr st + 1"
  define m where "m = \<lparr>mb_block = ?p, mb_off = 0, mb_n = n, mb_mcb = ?c\<rparr>"
  define st' where "st' = st\<lparr>blocks := (blocks st)(?p \<mapsto> map junk [0..<n]),
             mcbs := (mcbs st)(?c \<mapsto> \<lparr>mcb_i = 1, mcb_ptr = ?p\<rparr>), next_addr := ?p + 2\<rparr>"
  have fresh: "mcbs st ?c = None" "blocks st ?p = None"
    using mstore_inv_fresh [OF inv] by auto
  have old: "mcb_ptr e \<noteq> ?p" if "mcbs st a = Some e" for a e
    using mstore_inv_ptr [OF inv that] fresh by auto
  have noref: "mb_mcb x \<noteq> ?c \<and> mb_block x \<noteq> ?p" if "x \<in> set L" for x
    using mstore_inv_ok [OF inv that] fresh by (auto simp: mb_ok_def)
  have "mstore_inv (m # L) st'"
  proof (rule mstore_invI)
    show "mb_ok st' x" if "x \<in> set (m # L)" for x
      using that noref [of x] mstore_inv_ok [OF inv, of x]
      by (auto simp: mb_ok_def m_def st'_def)
    show "unat (mcb_i e) = refs (m # L) a \<and> 0 < refs (m # L) a" if "mcbs st' a = Some e" for a e
    proof (cases "a = ?c")
      case True
      moreover have "refs L ?c = 0" using noref by (auto simp: refs_zero)
      ultimately show ?thesis using that by (auto simp: st'_def m_def heap_simps)
    next
      case False
      then show ?thesis
        using that mstore_inv_count [OF inv, of a e] by (auto simp: st'_def m_def heap_simps)
    qed
    show "blocks st' (mcb_ptr e) \<noteq> None" if "mcbs st' a = Some e" for a e
      using that mstore_inv_ptr [OF inv, of a e] by (auto simp: st'_def split: if_splits)
    show "a = b" if "mcbs st' a = Some e" "mcbs st' b = Some f" "mcb_ptr e = mcb_ptr f" for a b e f
      using that old [of a] old [of b] mstore_inv_inj [OF inv, of a e b f]
      by (auto simp: st'_def split: if_splits)
    show "\<exists>a e. mcbs st' a = Some e \<and> mcb_ptr e = p" if blk: "blocks st' p \<noteq> None" for p
    proof (cases "p = ?p")
      case True
      then show ?thesis by (intro exI [of _ ?c]) (simp add: st'_def)
    next
      case False
      then obtain a e where "mcbs st a = Some e" "mcb_ptr e = p"
        using mstore_inv_used [OF inv, of p] blk by (auto simp: st'_def)
      then show ?thesis using fresh by (intro exI [of _ a]) (auto simp: st'_def)
    qed
    show "mcbs st' a = None \<and> blocks st' a = None" if "next_addr st' \<le> a" for a
      using mstore_inv_fresh [OF inv, of a] that by (auto simp: st'_def)
  qed (use len in simp)
  moreover have "mbuffer_create junk True True n st = Inr (Some m, st')"
    using n by (simp add: mbuffer_create_def m_def st'_def Let_def)
  ultimately show ?thesis
    by (intro exI [of _ m] exI [of _ st']) (simp add: m_def st'_def mb_view_def block_bytes_def)
qed

lemma mbuffer_copy_ok:
  assumes inv: "mstore_inv (m # L) st" and len: "Suc (length L) + 1 < 2 ^ 32" and n: "0 < mb_n m"
  shows "\<exists>t st'. mbuffer_copy junk True True True m st = Inr (Some t, st') \<and>
    mstore_inv (t # m # L) st' \<and> mb_view st' t = mb_view st m \<and>
    (\<forall>x\<in>set (m # L). mb_view st' x = mb_view st x \<and> mb_block x \<noteq> mb_block t)"
proof -
  obtain t st1 where t: "mbuffer_create junk True True (mb_n m) st = Inr (Some t, st1)"
    "mstore_inv (t # m # L) st1" "mb_block t = next_addr st" "mb_off t = 0" "mb_n t = mb_n m"
    "\<And>b. b \<noteq> next_addr st \<Longrightarrow> blocks st1 b = blocks st b"
    "blocks st1 (mb_block t) = Some (map junk [0..<mb_n m])"
    using mbuffer_create_ok [OF inv _ n, of junk] len by auto
  have ne: "mb_block x \<noteq> next_addr st" if "x \<in> set (m # L)" for x
    using mstore_inv_ok [OF inv that] mstore_inv_fresh [OF inv, of "next_addr st"]
    by (auto simp: mb_ok_def)
  then have vm: "mb_view st1 x = mb_view st x" if "x \<in> set (m # L)" for x
    using t(6) that by (intro mb_view_cong) blast
  have lenv: "length (mb_view st m) = mb_n m"
    using mstore_inv_ok [OF inv, of m] by (simp add: length_mb_view)
  define st' where "st' = st1\<lparr>blocks := (blocks st1)(mb_block t \<mapsto> mb_view st m)\<rparr>"
  have "mbuffer_copy junk True True True m st = Inr (Some t, st')"
    using n t(1,7) vm [of m] by (simp add: mbuffer_copy_def st'_def block_bytes_def)
  moreover have "mstore_inv (t # m # L) st'"
    unfolding st'_def
  proof (rule mstore_invI)
    fix x assume "x \<in> set (t # m # L)"
    then show "mb_ok (st1\<lparr>blocks := (blocks st1)(mb_block t \<mapsto> mb_view st m)\<rparr>) x"
      using mstore_inv_ok [OF t(2), of x] ne t(3,4,5) lenv by (auto simp: mb_ok_def)
  qed (use mstore_inv_count [OF t(2)] mstore_inv_ptr [OF t(2)] mstore_inv_inj [OF t(2)]
      mstore_inv_used [OF t(2)] mstore_inv_fresh [OF t(2)] mstore_inv_len [OF t(2)] t(7)
      in \<open>auto split: if_splits\<close>)
  moreover have "mb_view st' t = mb_view st m"
    using t(4,5) lenv by (simp add: mb_view_def block_bytes_def st'_def)
  moreover have "mb_view st' x = mb_view st x" if "x \<in> set (m # L)" for x
    using vm [OF that] ne [OF that] t(3) by (auto simp: mb_view_def block_bytes_def st'_def)
  ultimately show ?thesis using ne t(3) by auto
qed

lemma mbuffer_realloc_refused:
  assumes inv: "mstore_inv (m # L) st" and n: "0 < n"
    and no: "refs L (mb_mcb m) \<noteq> 0 \<or> mb_off m \<noteq> 0"
  shows "mbuffer_realloc junk ok m n st = Inr (- 1, m, st)"
proof -
  obtain c where c: "mcbs st (mb_mcb m) = Some c" "mcb_ptr c = mb_block m"
    "unat (mcb_i c) = refs (m # L) (mb_mcb m)"
    by (rule mstore_invD [OF inv, of m]) auto
  have "refs L (mb_mcb m) \<noteq> 0 \<longleftrightarrow> 1 < mcb_i c"
    using c(3) by (simp add: word_less_nat_alt heap_simps)
  then show ?thesis using c no n by (auto simp: mbuffer_realloc_def)
qed

lemma mbuffer_realloc_ok:
  assumes inv: "mstore_inv (m # L) st" and n: "0 < n" and sole: "refs L (mb_mcb m) = 0"
    and off: "mb_off m = 0"
  shows "\<exists>m' st'. mbuffer_realloc junk True m n st = Inr (0, m', st') \<and> mstore_inv (m' # L) st' \<and>
    mb_n m' = n \<and> mb_mcb m' = mb_mcb m \<and>
    take (mb_n m) (mb_view st' m') = take n (mb_view st m) \<and>
    (\<forall>x\<in>set L. mb_view st' x = mb_view st x)"
proof -
  let ?r = "next_addr st"
  obtain c bs where c: "mcbs st (mb_mcb m) = Some c" "mcb_ptr c = mb_block m"
    "blocks st (mb_block m) = Some bs" "mb_off m + mb_n m \<le> length bs"
    "unat (mcb_i c) = refs (m # L) (mb_mcb m)"
    by (rule mstore_invD [OF inv, of m]) auto
  have one: "\<not> 1 < mcb_i c"
    using c(5) sole by (simp add: word_less_nat_alt heap_simps)
  let ?new = "take n bs @ map junk [length bs..<n]"
  define m' where "m' = m\<lparr>mb_block := ?r, mb_off := 0, mb_n := n\<rparr>"
  define st' where "st' = st\<lparr>blocks := (blocks st)(mb_block m := None, ?r \<mapsto> ?new),
    mcbs := (mcbs st)(mb_mcb m \<mapsto> c\<lparr>mcb_ptr := ?r\<rparr>), next_addr := ?r + 1\<rparr>"
  have run: "mbuffer_realloc junk True m n st = Inr (0, m', st')"
    using n c one off by (simp add: mbuffer_realloc_def m'_def st'_def Let_def block_bytes_def)
  have fresh: "mcbs st ?r = None" "blocks st ?r = None"
    using mstore_inv_fresh [OF inv] by auto
  have ne: "mb_mcb x \<noteq> mb_mcb m \<and> mb_block x \<noteq> mb_block m \<and> mb_block x \<noteq> ?r" if "x \<in> set L" for x
    using sole that mstore_inv_block_iff [OF inv, of m x] mstore_inv_ok [OF inv, of x] fresh
    by (auto simp: refs_zero mb_ok_def)
  have other: "mcb_ptr e \<noteq> mb_block m \<and> mcb_ptr e \<noteq> ?r" if "mcbs st a = Some e" "a \<noteq> mb_mcb m" for a e
    using that mstore_inv_inj [OF inv that(1) c(1)] mstore_inv_ptr [OF inv that(1)] c(2) fresh by auto
  have "mstore_inv (m' # L) st'"
  proof (rule mstore_invI)
    show "mb_ok st' x" if "x \<in> set (m' # L)" for x
      using that ne [of x] mstore_inv_ok [OF inv, of x]
      by (auto simp: mb_ok_def m'_def st'_def)
    show "unat (mcb_i e) = refs (m' # L) a \<and> 0 < refs (m' # L) a" if "mcbs st' a = Some e" for a e
      using that mstore_inv_count [OF inv, of a] c(1)
      by (auto simp: st'_def m'_def heap_simps split: if_splits)
    have sub: "(a = mb_mcb m \<and> mcb_ptr e = ?r) \<or> (a \<noteq> mb_mcb m \<and> mcbs st a = Some e)"
      if "mcbs st' a = Some e" for a e
      using that by (auto simp: st'_def split: if_splits)
    show "blocks st' (mcb_ptr e) \<noteq> None" if "mcbs st' a = Some e" for a e
      using that other [of a e] mstore_inv_ptr [OF inv, of a e] by (auto simp: st'_def split: if_splits)
    show "a = b" if "mcbs st' a = Some e" "mcbs st' b = Some f" "mcb_ptr e = mcb_ptr f" for a b e f
      using sub [OF that(1)] sub [OF that(2)] that(3) other [of a e] other [of b f]
        mstore_inv_inj [OF inv, of a e b f] by metis
    show "\<exists>a e. mcbs st' a = Some e \<and> mcb_ptr e = p" if blk: "blocks st' p \<noteq> None" for p
    proof (cases "p = ?r")
      case True
      then show ?thesis by (intro exI [of _ "mb_mcb m"]) (simp add: st'_def)
    next
      case False
      then obtain a e where "mcbs st a = Some e" "mcb_ptr e = p" "p \<noteq> mb_block m"
        using mstore_inv_used [OF inv, of p] blk by (auto simp: st'_def split: if_splits)
      then show ?thesis using c by (intro exI [of _ a]) (auto simp: st'_def)
    qed
    show "mcbs st' a = None \<and> blocks st' a = None" if "next_addr st' \<le> a" for a
      using mstore_inv_fresh [OF inv, of a] that c by (auto simp: st'_def)
  qed (use mstore_inv_len [OF inv] in simp)
  moreover have "take (mb_n m) (mb_view st' m') = take n (mb_view st m)"
  proof -
    have "length (take n bs) = min n (length bs)" by simp
    moreover have "mb_n m \<le> length bs" using c(4) by simp
    ultimately show ?thesis
      using c(3) off
      by (cases "n \<le> length bs") (auto simp: mb_view_def block_bytes_def m'_def st'_def min_def)
  qed
  moreover have "mb_view st' x = mb_view st x" if "x \<in> set L" for x
    using ne [OF that] by (intro mb_view_cong) (simp add: st'_def)
  ultimately show ?thesis using run by (auto simp: m'_def)
qed

text \<open>A store with one buffer of \<open>n\<close> bytes, for the examples.\<close>

definition one_buffer :: "nat \<Rightarrow> mbuffer \<times> mstore" where
  "one_buffer n = (case mbuffer_create (\<lambda>i. of_nat i) True True n mstore_empty of
     Inr (Some m, st) \<Rightarrow> (m, st) | _ \<Rightarrow> (\<lparr>mb_block = 0, mb_off = 0, mb_n = 0, mb_mcb = 0\<rparr>, mstore_empty))"

lemma one_buffer_inv: "0 < n \<Longrightarrow> mstore_inv [fst (one_buffer n)] (snd (one_buffer n))"
  using mbuffer_create_ok [OF mstore_inv_empty, of n "\<lambda>i. of_nat i"] by (auto simp: one_buffer_def)

lemma one_buffer_n: "0 < n \<Longrightarrow> mb_n (fst (one_buffer n)) = n \<and> mb_off (fst (one_buffer n)) = 0"
  using mbuffer_create_ok [OF mstore_inv_empty, of n "\<lambda>i. of_nat i"] by (auto simp: one_buffer_def)

subsection \<open>Properties\<close>

text \<open>
  C26. Splitting a buffer succeeds at every inner position, yields two windows that together show
  exactly the bytes of the original, changes what no other holder sees, and keeps the
  reference counts exact.
\<close>

theorem mbuffer_split_views:
  assumes "mstore_inv (m # L) st" and "Suc (length L) + 1 < 2 ^ 32"
    and "0 < split" and "split < mb_n m"
  shows "\<exists>m1 m2 st'. mbuffer_split m split st = Inr (m1, m2, st') \<and>
    mstore_inv (m1 # m2 # L) st' \<and>
    mb_view st' m1 @ mb_view st' m2 = mb_view st m \<and> length (mb_view st' m1) = split \<and>
    (\<forall>x\<in>set L. mb_view st' x = mb_view st x)"
proof -
  have "length (mb_view st m) = mb_n m"
    using assms(1) by (intro length_mb_view mstore_inv_ok) auto
  then show ?thesis
    using mbuffer_split_ok [OF assms] assms(4) by (fastforce simp: heap_simps)
qed

theorem mbuffer_split_views_witness:
  "\<exists>m1 m2 st'. mbuffer_split (fst (one_buffer 8)) 3 (snd (one_buffer 8)) = Inr (m1, m2, st') \<and>
    length (mb_view st' m1) = 3"
  using mbuffer_split_views [OF one_buffer_inv [of 8], of 3] one_buffer_n [of 8] by fastforce

text \<open>
  C27. Releasing a buffer never touches freed memory, changes no byte another holder sees, and
  frees block and control block exactly when the last holder releases it.
\<close>

theorem mbuffer_free_releases:
  assumes "mstore_inv (m # L) st"
  shows "\<exists>st'. mbuffer_free m st = Inr st' \<and> mstore_inv L st' \<and>
    (\<forall>x\<in>set L. mb_view st' x = mb_view st x) \<and>
    (blocks st' (mb_block m) = None \<longleftrightarrow> (\<forall>x\<in>set L. mb_mcb x \<noteq> mb_mcb m)) \<and>
    (mcbs st' (mb_mcb m) = None \<longleftrightarrow> (\<forall>x\<in>set L. mb_mcb x \<noteq> mb_mcb m))"
proof (cases "refs L (mb_mcb m) = 0")
  case True
  obtain st' where st': "mbuffer_free m st = Inr st'" "mstore_inv L st'"
    "blocks st' = (blocks st)(mb_block m := None)" "mcbs st' = (mcbs st)(mb_mcb m := None)"
    using mbuffer_free_last [OF assms True] by blast
  have "mb_view st' x = mb_view st x" if "x \<in> set L" for x
    using st'(3) that True mstore_inv_block_iff [OF assms, of m x]
    by (intro mb_view_cong) (auto simp: refs_zero)
  then show ?thesis using st' True by (auto simp: refs_zero)
next
  case False
  obtain st' where st': "mbuffer_free m st = Inr st'" "mstore_inv L st'" "blocks st' = blocks st"
    "dom (mcbs st') = dom (mcbs st)"
    using mbuffer_free_shared [OF assms False] by blast
  obtain c bs where "mcbs st (mb_mcb m) = Some c" "blocks st (mb_block m) = Some bs"
    by (rule mstore_invD [OF assms, of m]) auto
  moreover have "mcbs st' (mb_mcb m) \<noteq> None"
    using calculation(1) st'(4) by (auto simp: dom_def)
  ultimately show ?thesis using st' False by (auto simp: refs_zero intro: mb_view_cong)
qed

theorem mbuffer_free_releases_witness:
  "\<exists>st'. mbuffer_free (fst (one_buffer 8)) (snd (one_buffer 8)) = Inr st' \<and>
    blocks st' (mb_block (fst (one_buffer 8))) = None"
  using mbuffer_free_releases [OF one_buffer_inv [of 8]] by auto

text \<open>
  Resizing is refused, with nothing changed, exactly when the buffer is shared or is not the
  original window; otherwise it keeps the common prefix of the bytes and touches no other
  buffer.
\<close>

theorem mbuffer_realloc_guard:
  assumes "mstore_inv (m # L) st" and "0 < n"
  shows "\<exists>rv m' st'. mbuffer_realloc junk True m n st = Inr (rv, m', st') \<and>
    mstore_inv (m' # L) st' \<and>
    (rv = 0 \<longleftrightarrow> (\<forall>x\<in>set L. mb_mcb x \<noteq> mb_mcb m) \<and> mb_off m = 0) \<and>
    (rv = 0 \<longrightarrow> mb_n m' = n \<and> take (mb_n m) (mb_view st' m') = take n (mb_view st m)) \<and>
    (rv \<noteq> 0 \<longrightarrow> rv = - 1 \<and> m' = m \<and> st' = st) \<and>
    (\<forall>x\<in>set L. mb_view st' x = mb_view st x)"
proof (cases "refs L (mb_mcb m) = 0 \<and> mb_off m = 0")
  case True
  then show ?thesis
    using mbuffer_realloc_ok [OF assms, of junk] by (auto simp: refs_zero)
next
  case False
  then have "mbuffer_realloc junk True m n st = Inr (- 1, m, st)"
    using mbuffer_realloc_refused [OF assms, of junk] by blast
  then show ?thesis using False assms(1) by (auto simp: refs_zero)
qed

theorem mbuffer_realloc_guard_witness:
  "\<exists>rv m' st'. mbuffer_realloc (\<lambda>_. 0) True (fst (one_buffer 8)) 3 (snd (one_buffer 8)) =
      Inr (rv, m', st') \<and> rv = 0"
  using mbuffer_realloc_guard [OF one_buffer_inv [of 8], of 3 "\<lambda>_. 0"] one_buffer_n [of 8] by auto

text \<open>Releasing every buffer of a list, in order.\<close>

fun free_all :: "mbuffer list \<Rightarrow> mstore \<Rightarrow> err + mstore" where
  "free_all [] st = Inr st"
| "free_all (m # L) st = (case mbuffer_free m st of Inl e \<Rightarrow> Inl e | Inr st' \<Rightarrow> free_all L st')"

text \<open>
  C28. Once every holder has released its buffer nothing is left allocated: no block and no
  control block leaks, whatever was split, cloned or copied before.
\<close>

theorem mbuffer_no_leak:
  assumes "mstore_inv L st"
  shows "\<exists>st'. free_all L st = Inr st' \<and> (\<forall>a. blocks st' a = None \<and> mcbs st' a = None)"
  using assms
proof (induction L arbitrary: st)
  case Nil
  then have "mcbs st a = None" for a
    using mstore_inv_count [of "[]" st a] by (cases "mcbs st a") (auto simp: heap_simps)
  then show ?case using mstore_inv_used [OF Nil.prems] by (auto simp del: not_None_eq)
next
  case (Cons m L)
  obtain st1 where "mbuffer_free m st = Inr st1" "mstore_inv L st1"
    using mbuffer_free_last [OF Cons.prems] mbuffer_free_shared [OF Cons.prems] by blast
  then show ?case using Cons.IH by simp
qed

theorem mbuffer_no_leak_witness:
  "\<exists>st'. free_all [fst (one_buffer 8)] (snd (one_buffer 8)) = Inr st' \<and> blocks st' 0 = None"
  using mbuffer_no_leak [OF one_buffer_inv [of 8]] by auto

text \<open>
  When the initialization of lock \<open>k\<close> fails, the cleanup loop destroys lock \<open>k\<close> itself \<open>k\<close>
  times and none of the \<open>k\<close> locks initialized before it.
\<close>

lemma init_locks_failure:
  "(\<forall>j<k. init_ok (i + j)) \<Longrightarrow> \<not> init_ok (i + k) \<Longrightarrow> k < n \<Longrightarrow>
    init_locks init_ok i n = (False, map LockInit [i..<i + k + 1] @ replicate (i + k) (LockDestroy (i + k)))"
proof (induction n arbitrary: i k)
  case 0
  then show ?case by simp
next
  case (Suc n)
  show ?case
  proof (cases k)
    case 0
    then show ?thesis using Suc.prems by (simp add: map_replicate_const)
  next
    case (Suc k')
    have ok: "init_ok i" using Suc.prems(1) Suc by force
    have "init_locks init_ok (Suc i) n =
        (False, map LockInit [Suc i..<Suc i + k' + 1] @ replicate (Suc i + k') (LockDestroy (Suc i + k')))"
    proof (rule Suc.IH)
      show "\<forall>j<k'. init_ok (Suc i + j)"
        using Suc.prems(1) Suc by (metis Suc_mono add_Suc_shift)
    qed (use Suc.prems Suc in auto)
    then show ?thesis using ok Suc by (simp add: upt_rec [of i])
  qed
qed

text \<open>
  If initializing lock \<open>k\<close> fails, the subsystem reports the failure, but the locks it
  destroys are \<open>k\<close> times lock \<open>k\<close>, which was never initialized, instead of locks 0 to \<open>k - 1\<close>.
\<close>

theorem mbuffer_system_init_failure:
  assumes "\<forall>j<k. init_ok j" and "\<not> init_ok k" and "k < NUMBER_OF_LOCKS"
  shows "mbuffer_system_init True init_ok None =
    Inr (- 1, None, map LockInit [0..<k + 1] @ replicate k (LockDestroy k))"
  using init_locks_failure [of k init_ok 0 NUMBER_OF_LOCKS] assms by (simp add: mbuffer_system_init_def)

theorem mbuffer_system_init_failure_witness:
  "mbuffer_system_init True (\<lambda>i. i < 2) None =
    Inr (- 1, None, map LockInit [0..<2 + 1] @ replicate 2 (LockDestroy 2))"
  by (rule mbuffer_system_init_failure) (simp_all add: NUMBER_OF_LOCKS_def)

end
