(* ===== verification/DedupEncode.thy ===== *)
theory DedupEncode
  imports DedupOFarm MBuffer
begin

text \<open>
  \<open>EncodeFF\<close> of \<open>encoder_ff_ofarm.cpp\<close>: everything before and after the farm (hash table, buffer
  subsystem, input file, preloading, output file, statistics), and what \<open>Fragment\<close> hands to the
  farm: all bytes of the input in order and one end mark per worker.
\<close>

subsection \<open>The function\<close>

text \<open>
  The environment of a run: what the system calls of \<open>EncodeFF\<close> answer. \<open>e_table\<close>: the allocations
  of \<open>hashtable_create\<close>; \<open>e_lock_array\<close> and \<open>e_locks\<close>: the allocation and the initialization of the
  locks in \<open>mbuffer_system_init\<close>.
\<close>

record encode_env =
  e_table :: bool
  e_lock_array :: bool
  e_locks :: "nat \<Rightarrow> bool"
  e_stat :: "nat option"
  e_isreg :: bool
  e_open :: bool
  e_open_out :: bool
  e_in :: input

text \<open>The preloading loop of \<open>EncodeFF\<close>; \<open>acc\<close> holds the bytes read so far.\<close>

function preload_loop :: "input \<Rightarrow> nat \<Rightarrow> nat \<Rightarrow> byte list \<Rightarrow> err + byte list" where
  "preload_loop io tot k acc =
     (if length acc < tot then
        (let r = sys_read io k (length acc) (tot - length acc) in
         if r < 0 then Inl (ExitTrace ''I/O error'')
         else if r = 0 then Inr acc
         else preload_loop io tot (k + 1) (acc @ take (nat r) (drop (length acc) (in_file io))))
      else Inr acc)"
  by auto
termination
proof (relation "measure (\<lambda>(io, tot, k, acc). tot - length acc)")
  fix io tot k x and acc :: "byte list"
  assume less: "length acc < tot" and x: "x = sys_read io k (length acc) (tot - length acc)"
    and r: "\<not> x < 0" "x \<noteq> 0"
  have len: "length (take (nat x) (drop (length acc) (in_file io))) = nat x"
    unfolding x by (rule length_read)
  have "0 < nat x" using r by simp
  then show "((io, tot, k + 1, acc @ take (nat x) (drop (length acc) (in_file io))), io, tot, k, acc)
      \<in> measure (\<lambda>(io, tot, k, acc). tot - length acc)"
    unfolding in_measure prod.case length_append len using less by linarith
qed simp

declare preload_loop.simps [simp del]

text \<open>
  What the constructors of the workers allocate: each of the \<open>n\<close> workers the tables of the
  fingerprints and the statistics of its three stages. (Their send buffers are allocated without a
  test and taken to be there.)
\<close>

definition workers_alloc :: "ext \<Rightarrow> nat \<Rightarrow> bool" where
  "workers_alloc X n \<longleftrightarrow> n = 0 \<or> malloc_ok X sizeof_rabintab \<and> malloc_ok X sizeof_stats_t"

text \<open>
  The initialization of \<open>EncodeFF\<close>: the hash table, the buffer subsystem, the input file and
  preloading, the workers, and the output file, which the constructor of the collector opens. The
  result is the table, the content of the output file and the bytes of the input.
\<close>

definition EncodeFF_init :: "ext \<Rightarrow> config_t \<Rightarrow> encode_env \<Rightarrow> err + ((u32 list, nat) hashtable \<times> byte list \<times> byte list)" where
  "EncodeFF_init X conf E =
     (case hashtable_create (e_table E) 65536 hash_from_key_fn keys_equal_fn False of
        None \<Rightarrow> Inl (ExitTrace ''ERROR: Out of memory'')
      | Some h \<Rightarrow>
       (case mbuffer_system_init (e_lock_array E) (e_locks E) None of
          Inl e \<Rightarrow> Inl e
        | Inr (r, locks, calls) \<Rightarrow>
          if r \<noteq> 0 then Inl AssertFailed
          else (case e_stat E of None \<Rightarrow> Inl (ExitTrace ''stat() failed'')
            | Some st_size \<Rightarrow>
              if \<not> e_isreg E then Inl (ExitTrace ''not a normal file'')
              else if \<not> e_open E then Inl (ExitTrace ''file open error'')
              else if preloading conf \<and> \<not> malloc_ok X st_size then Inl (ExitTrace ''Error allocating memory for input buffer.'')
              else (case (if preloading conf then preload_loop (e_in E) st_size 0 [] else Inr (in_file (e_in E))) of
                  Inl e \<Rightarrow> Inl e
                | Inr buf \<Rightarrow>
                  if \<not> workers_alloc X (nthreads conf) then Inl (ExitTrace ''Memory allocation failed.'')
                  else (case create_output_file X (e_open_out E) (compress_type conf) of
                     Inl e \<Rightarrow> Inl e
                   | Inr f \<Rightarrow> Inr (h, f, buf))))))"

text \<open>
  \<open>EncodeFF\<close> up to the start of the farm. \<open>Fragment\<close> runs beside the workers; as nothing it does
  depends on them, its output is computed here: the result is the sequence of tasks it emits (an
  error, if it stops the program) and the state in which the threads start. The size of a preloaded
  input is the one \<open>stat\<close> told: when the file has become shorter, \<open>Fragment\<close> copies bytes of the
  buffer that were never written.
\<close>

definition EncodeFF_start :: "ext \<Rightarrow> config_t \<Rightarrow> encode_env \<Rightarrow> err + (chunk_t ringbuffer list \<times> farm)" where
  "EncodeFF_start X conf E =
     (case EncodeFF_init X conf E of Inl e \<Rightarrow> Inl e
      | Inr (h, f, buf) \<Rightarrow>
        if preloading conf \<and> length buf < the (e_stat E) then Inl BadAccess
        else (case fragment_svc X conf ((e_in E)\<lparr>in_file := buf\<rparr>) (nthreads conf) of
            Inl e \<Rightarrow> Inl e
          | Inr outs \<Rightarrow> Inr (outs, farm_init
              \<lparr>chunks = (\<lambda>_. None), next_chunk = 0, cache = h, outf = f, orig = (\<lambda>_. []),
               owner = (\<lambda>_. 0), written = []\<rparr> (nthreads conf) (length outs))))"

text \<open>After the farm has ended: the statistics of all threads, merged, and the size of the output.\<close>

definition EncodeFF_stats :: "encode_env \<Rightarrow> farm \<Rightarrow> stats_t" where
  "EncodeFF_stats E s =
     (let stats = init_stats\<lparr>total_input := of_nat (length (in_file (e_in E)))\<rparr>;
          stats = foldl merge_stats stats (map (\<lambda>w. thread_stats (w_fr w)) (f_workers s));
          stats = foldl merge_stats stats (map (\<lambda>w. thread_stats (w_d w)) (f_workers s));
          stats = foldl merge_stats stats (map (\<lambda>w. thread_stats (w_c w)) (f_workers s))
      in stats\<lparr>total_output := of_nat (length (outf (f_sh s)))\<rparr>)"

text \<open>Everything the system does for a normal run: no call fails and \<open>stat\<close> tells the size.\<close>

definition env_ok :: "encode_env \<Rightarrow> bool" where
  "env_ok E \<longleftrightarrow> e_table E \<and> e_lock_array E \<and> (\<forall>i. e_locks E i) \<and> e_stat E = Some (length (in_file (e_in E))) \<and>
     e_isreg E \<and> e_open E \<and> e_open_out E \<and> reads_ok (e_in E)"

definition task_block_list :: "ext \<Rightarrow> chunk_t ringbuffer list \<Rightarrow> byte list list" where
  "task_block_list X outs = concat (map (task_blocks X) outs)"

definition collision_free :: "ext \<Rightarrow> chunk_t ringbuffer list \<Rightarrow> bool" where
  "collision_free X outs \<longleftrightarrow> inj_on (SHA1_Digest X) (set (task_block_list X outs))"

subsection \<open>The start\<close>

lemma preload_all:
  "reads_ok io \<Longrightarrow> tot = length (in_file io) \<Longrightarrow> acc = take (length acc) (in_file io) \<Longrightarrow>
    preload_loop io tot k acc = Inr (in_file io)"
proof (induction io tot k acc rule: preload_loop.induct)
  case (1 io tot k acc)
  let ?r = "sys_read io k (length acc) (tot - length acc)"
  show ?case
  proof (cases "length acc < tot")
    case True
    have r: "0 < ?r" using sys_read_zero [OF 1(2), of "tot - length acc" k "length acc"] True 1(3) by simp
    let ?new = "take (nat ?r) (drop (length acc) (in_file io))"
    have len: "length ?new = nat ?r" by (rule length_read)
    have nz: "\<not> ?r < 0" "?r \<noteq> 0" using r by simp_all
    have "acc @ ?new = take (length (acc @ ?new)) (in_file io)"
      using 1(4) unfolding length_append len take_add by simp
    then have "preload_loop io tot (k + 1) (acc @ ?new) = Inr (in_file io)"
      by (rule 1(1) [OF True refl nz 1(2,3)])
    then show ?thesis
      by (subst preload_loop.simps) (simp only: Let_def True nz if_True if_False)
  next
    case False
    then show ?thesis using 1(3,4) by (subst preload_loop.simps) simp
  qed
qed

lemma init_locks_iff: "fst (init_locks f i n) \<longleftrightarrow> list_all f [i..<i + n]"
proof (induction n arbitrary: i)
  case (Suc n)
  have "[i..<i + Suc n] = i # [Suc i..<Suc i + n]" by (simp add: upt_conv_Cons del: upt_Suc)
  then show ?case using Suc.IH [of "Suc i"] by (auto split: prod.splits simp del: upt_Suc)
qed simp

lemma mbuffer_system_init_result:
  "\<exists>l cs. mbuffer_system_init alloc f None =
    Inr (if alloc \<and> list_all f [0..<NUMBER_OF_LOCKS] then 0 else - 1, l, cs)"
  using init_locks_iff [of f 0 NUMBER_OF_LOCKS] by (auto simp: mbuffer_system_init_def split: prod.splits bool.splits)

text \<open>
  What the steps of the initialization are and how each one fails, in their order. The reads of the
  preloading loop: \<open>preload_pos\<close> is the position before the \<open>k\<close>-th one; one fails when it is asked
  for before the buffer is full and before the end of the file has been met.
\<close>

fun preload_pos :: "input \<Rightarrow> nat \<Rightarrow> nat \<Rightarrow> nat" where
  "preload_pos io tot 0 = 0"
| "preload_pos io tot (Suc k) =
     (let p = preload_pos io tot k in p + nat (sys_read io k p (tot - p)))"

definition preload_fails :: "input \<Rightarrow> nat \<Rightarrow> bool" where
  "preload_fails io tot \<longleftrightarrow> list_ex (\<lambda>k. in_read io k < 0 \<and> preload_pos io tot k < tot \<and>
     list_all (\<lambda>j. 0 \<le> in_read io j \<and> preload_pos io tot j < length (in_file io)) [0..<k]) [0..<tot]"

definition init_steps :: "ext \<Rightarrow> config_t \<Rightarrow> encode_env \<Rightarrow> (bool \<times> err) list" where
  "init_steps X conf E =
     [(e_table E, ExitTrace ''ERROR: Out of memory''),
      (e_lock_array E \<and> list_all (e_locks E) [0..<NUMBER_OF_LOCKS], AssertFailed),
      (e_stat E \<noteq> None, ExitTrace ''stat() failed''),
      (e_isreg E, ExitTrace ''not a normal file''),
      (e_open E, ExitTrace ''file open error''),
      (preloading conf \<longrightarrow> malloc_ok X (the (e_stat E)), ExitTrace ''Error allocating memory for input buffer.''),
      (preloading conf \<longrightarrow> \<not> preload_fails (e_in E) (the (e_stat E)), ExitTrace ''I/O error''),
      (workers_alloc X (nthreads conf), ExitTrace ''Memory allocation failed.''),
      (e_open_out E, ExitTrace ''Cannot open output file.''),
      (fst (write_header X [] (compress_type conf)) = 0, ExitTrace ''Cannot write output file header.'')]"

lemma preload_pos_le: "preload_pos io tot k \<le> tot"
proof (induction k)
  case (Suc k)
  have "nat (sys_read io k p (tot - p)) \<le> tot - p" for p
    by (auto simp: sys_read_def min_le_iff_disj)
  then show ?case using Suc by (simp add: Let_def) (metis Nat.le_diff_conv2 add.commute)
qed simp

lemma preload_pos_mono: "j \<le> k \<Longrightarrow> preload_pos io tot j \<le> preload_pos io tot k"
  by (induction k) (auto simp: le_Suc_eq Let_def intro: le_trans)

lemma preload_pos_ge:
  "(\<forall>j<k. 0 \<le> in_read io j \<and> preload_pos io tot j < length (in_file io)) \<Longrightarrow> preload_pos io tot k < tot \<Longrightarrow>
    k \<le> preload_pos io tot k"
proof (induction k)
  case (Suc k)
  let ?p = "preload_pos io tot k"
  have "?p < tot" using preload_pos_mono [of k "Suc k" io tot] Suc.prems(2) by simp
  moreover have "0 \<le> in_read io k" "?p < length (in_file io)" using Suc.prems(1) by auto
  ultimately have "0 < sys_read io k ?p (tot - ?p)" by (simp add: sys_read_def less_max_iff_disj)
  then show ?case using Suc.IH Suc.prems(1) \<open>?p < tot\<close> by (simp add: Let_def)
qed simp

text \<open>The loop fails exactly so; otherwise it has read as much as \<open>tot\<close> and the file allow.\<close>

lemma preload_loop_cases:
  "length acc = preload_pos io tot k \<Longrightarrow> acc = take (length acc) (in_file io) \<Longrightarrow>
    preload_loop io tot k acc =
      (if \<exists>m\<ge>k. in_read io m < 0 \<and> preload_pos io tot m < tot \<and>
          (\<forall>j. k \<le> j \<longrightarrow> j < m \<longrightarrow> 0 \<le> in_read io j \<and> preload_pos io tot j < length (in_file io))
       then Inl (ExitTrace ''I/O error'') else Inr (take tot (in_file io)))"
  (is "_ \<Longrightarrow> _ \<Longrightarrow> _ = (if ?E k then _ else _)")
proof (induction io tot k acc rule: preload_loop.induct)
  case (1 io tot k acc)
  let ?r = "sys_read io k (length acc) (tot - length acc)"
  let ?E = "\<lambda>k. \<exists>m\<ge>k. in_read io m < 0 \<and> preload_pos io tot m < tot \<and>
      (\<forall>j. k \<le> j \<longrightarrow> j < m \<longrightarrow> 0 \<le> in_read io j \<and> preload_pos io tot j < length (in_file io))"
  have pos: "length acc = preload_pos io tot k" and acc: "acc = take (length acc) (in_file io)" by fact+
  consider "\<not> length acc < tot" | (neg) "length acc < tot" "?r < 0" | (eof) "length acc < tot" "?r = 0"
    | (more) "length acc < tot" "0 < ?r" by linarith
  then show ?case
  proof cases
    case 1
    then have "length acc = tot" using preload_pos_le [of io tot k] pos by simp
    moreover have "\<not> ?E k"
    proof
      assume "?E k"
      then obtain m where "k \<le> m" "preload_pos io tot m < tot" by blast
      then show False using preload_pos_mono [of k m io tot] 1 pos by simp
    qed
    ultimately show ?thesis using 1 acc by (subst preload_loop.simps) simp
  next
    case neg
    then have "in_read io k < 0" by (simp add: sys_read_def split: if_splits)
    then have "?E k" using neg(1) pos by (intro exI [of _ k]) auto
    then show ?thesis using neg by (subst preload_loop.simps) (simp add: Let_def)
  next
    case eof
    have e1: "\<not> in_read io k < 0"
    proof
      assume "in_read io k < 0"
      then show False using eof(2) by (simp add: sys_read_def)
    qed
    then have "int (min (max 1 (nat (in_read io k))) (min (tot - length acc) (length (in_file io) - length acc))) = 0"
      using eof(2) by (simp add: sys_read_def)
    then have e: "0 \<le> in_read io k" "length (in_file io) \<le> length acc"
      using e1 eof(1) by (simp_all only: min_def max_def split: if_splits)
    then have "\<not> ?E k" using pos by (metis le_neq_implies_less not_less order_refl)
    moreover have "acc = take tot (in_file io)" using acc e(2) eof(1) by simp
    ultimately show ?thesis using eof by (subst preload_loop.simps) (simp add: Let_def)
  next
    case more
    then have r: "0 \<le> in_read io k" "length acc < length (in_file io)"
      by (auto simp: sys_read_def split: if_splits)
    let ?new = "take (nat ?r) (drop (length acc) (in_file io))"
    have len: "length ?new = nat ?r" by (rule length_read)
    have nz: "\<not> ?r < 0" "?r \<noteq> 0" using more by simp_all
    have l: "length (acc @ ?new) = preload_pos io tot (k + 1)" using pos len by (simp add: Let_def)
    have a: "acc @ ?new = take (length (acc @ ?new)) (in_file io)"
      using acc unfolding length_append len take_add by simp
    have E: "?E (k + 1) = ?E k"
      using r pos by (metis Suc_eq_plus1 Suc_leD Suc_leI le_neq_implies_less not_less)
    have "preload_loop io tot (k + 1) (acc @ ?new) =
        (if ?E (k + 1) then Inl (ExitTrace ''I/O error'') else Inr (take tot (in_file io)))"
      by (rule 1(1) [OF more(1) refl nz l a])
    then show ?thesis
      unfolding E by (subst preload_loop.simps) (simp only: Let_def more(1) nz if_True if_False)
  qed
qed

lemma preload_result:
  "preload_loop io tot 0 [] =
    (if preload_fails io tot then Inl (ExitTrace ''I/O error'') else Inr (take tot (in_file io)))"
proof -
  have "preload_fails io tot \<longleftrightarrow> (\<exists>m. in_read io m < 0 \<and> preload_pos io tot m < tot \<and>
      (\<forall>j. j < m \<longrightarrow> 0 \<le> in_read io j \<and> preload_pos io tot j < length (in_file io)))"
    (is "_ = (\<exists>m. ?P m)")
  proof
    assume "\<exists>m. ?P m"
    then obtain m where m: "?P m" by blast
    then have "m < tot" using preload_pos_ge [of m io tot] by (meson le_less_trans)
    then show "preload_fails io tot" using m by (auto simp: preload_fails_def list_ex_iff list_all_iff)
  qed (auto simp: preload_fails_def list_ex_iff list_all_iff)
  then show ?thesis using preload_loop_cases [of "[]" io tot 0] by simp
qed


lemma task_blocks_concat: "concat (task_blocks X t) = concat (map chunk_bytes (rb_items t))"
proof -
  have "concat (map (\<lambda>(_, _, bs). bs) (refine_spec X (map coarse_info cs))) = concat (map chunk_bytes cs)" for cs
    by (induction cs) (simp_all add: refine_spec_def coarse_info_def piece_chunks_def pieces_concat map_concat comp_def map_nth)
  then show ?thesis by (simp add: task_blocks_def)
qed

text \<open>The shared state before the first thread starts.\<close>

lemma start_store_inv:
  assumes h: "ht_inv h" "\<And>k. hashtable_search h k = None" "eqfn h = keys_equal_fn"
    and "good_env X conf D hdr U"
  shows "store_inv X conf D hdr U \<lparr>chunks = (\<lambda>_. None), next_chunk = 0, cache = h, outf = hdr, orig = (\<lambda>_. []),
    owner = (\<lambda>_. 0), written = []\<rparr>"
proof -
  let ?s = "\<lparr>chunks = (\<lambda>_. None), next_chunk = 0, cache = h, outf = hdr, orig = (\<lambda>_. []),
    owner = (\<lambda>_. 0), written = []\<rparr> :: shared"
  have "out_inv X D hdr ?s"
    unfolding out_inv_def by (intro exI [of _ "[]"] exI [of _ "\<lambda>_. None"]) (simp add: dec_recs_Nil dict_inv_def)
  moreover have "table_inv ?s" using h by (simp add: table_inv_def)
  ultimately have "dinv X D hdr U ?s" by (intro dinvI) auto
  then show ?thesis using assms(4) by (simp add: store_inv_def)
qed

subsection \<open>The tasks\<close>

text \<open>What \<open>Fragment\<close> sends: all bytes of the input in order, and the end marks.\<close>

definition emitted_ok :: "ext \<Rightarrow> byte list \<Rightarrow> nat \<Rightarrow> chunk_t ringbuffer list \<Rightarrow> bool" where
  "emitted_ok X file nw outs \<longleftrightarrow>
     (\<forall>t\<in>set outs. rb_inv t \<and> (\<forall>c\<in>set (rb_items t). chunk_like c)) \<and>
     concat (task_block_list X outs) = file \<and>
     (\<forall>i j. i < j \<longrightarrow> j < length outs \<longrightarrow> i mod nw = j mod nw \<longrightarrow> \<not> ringbuffer_isLast (outs ! i))"

lemma end_marks_apart:
  assumes "\<forall>b\<in>set bs. \<not> P b" and "length ls = (nw :: nat)" and "i < j" and "j < length (bs @ ls)"
    and "i mod nw = j mod nw"
  shows "\<not> P ((bs @ ls) ! i)"
proof -
  obtain q where q: "j - i = nw * q"
    using assms(3,5) by (metis dvdE less_imp_le mod_eq_dvd_iff_nat)
  have "i < length bs"
  proof (rule ccontr)
    assume "\<not> i < length bs"
    then have "j - i < nw" using assms(2,3,4) by auto
    then show False using q assms(3) by (cases q) auto
  qed
  then show ?thesis using assms(1) by (simp add: nth_append)
qed

lemma task_block_list_concat:
  "concat (task_block_list X outs) = concat (map chunk_bytes (concat (map rb_items outs)))"
  by (induction outs) (simp_all add: task_block_list_def task_blocks_concat)

lemma fragment_emitted:
  assumes "ext_ok X conf D hdr" and "reads_ok io" and "length (in_file io) < 2 ^ 60" and nw: "0 < nw"
  shows "\<exists>outs. fragment_svc X conf io nw = Inr outs \<and> emitted_ok X (in_file io) nw outs"
proof -
  have X: "rabin_ok X" "\<And>n. malloc_ok X n" using assms(1) by (auto simp: ext_ok_def rabin_ok_def)
  let ?e = "ringbuffer_setLast (ringbuffer_init 1) :: chunk_t ringbuffer"
  obtain bs lb where f: "fragment_svc X conf io nw = Inr (bs @ [lb] @ replicate (nw - 1) ?e)"
    "sent_ok bs False" "rb_inv lb" "\<forall>d\<in>set (concat (map rb_items (bs @ [lb]))). chunk_like d"
    "concat (map chunk_bytes (concat (map rb_items (bs @ [lb])))) = in_file io"
    using fragment_svc_ok [OF X assms(2,3), of conf nw] by blast
  let ?outs = "bs @ [lb] @ replicate (nw - 1) ?e"
  have e: "rb_inv ?e" "rb_items ?e = []" using rb_inv_init [of 1] by (simp_all add: fifo_simps del: One_nat_def)
  have "emitted_ok X (in_file io) nw ?outs"
    unfolding emitted_ok_def
  proof (intro conjI ballI allI impI)
    show "rb_inv t" if "t \<in> set ?outs" for t using that f(2,3) e by (auto simp: sent_ok_def)
    show "chunk_like c" if "t \<in> set ?outs" "c \<in> set (rb_items t)" for t c using that f(4) e by auto
    show "concat (task_block_list X ?outs) = in_file io"
      using f(5) e(2) unfolding task_block_list_concat by simp
    show "\<not> ringbuffer_isLast (?outs ! i)" if "i < j" "j < length ?outs" "i mod nw = j mod nw" for i j
      using f(2) nw by (intro end_marks_apart [OF _ _ that]) (auto simp: sent_ok_def)
  qed
  then show ?thesis using f(1) by blast
qed

lemma refine_spec_elems:
  assumes "(s, l, p) \<in> set (refine_spec X cs)" and "\<forall>(s, bs)\<in>set cs. bs \<noteq> [] \<and> length bs < 2 ^ 60"
  shows "p \<noteq> [] \<and> length p < 2 ^ 60"
proof -
  obtain s' bs where b: "(s', bs) \<in> set cs" "(s, l, p) \<in> set (piece_chunks s' 0 (pieces X (rabininit X rf_win) bs))"
    using assms(1) unfolding refine_spec_def by auto
  then have "p \<in> set (pieces X (rabininit X rf_win) bs)" by (auto simp: piece_chunks_def)
  then show ?thesis using pieces_elems [of bs p X "rabininit X rf_win"] b(1) assms(2) by force
qed

lemma task_blocks_elems:
  assumes "\<forall>c\<in>set (rb_items t). chunk_like c" and "p \<in> set (task_blocks X t)"
  shows "p \<noteq> [] \<and> length p < 2 ^ 60"
proof -
  obtain s l where "(s, l, p) \<in> set (refine_spec X (map coarse_info (rb_items t)))"
    using assms(2) by (auto simp: task_blocks_def)
  then show ?thesis
    by (rule refine_spec_elems) (use assms(1) in \<open>auto simp: coarse_info_def chunk_like_def chunk_ok_def\<close>)
qed

lemma length_concat_nonempty: "\<forall>x\<in>set xs. x \<noteq> [] \<Longrightarrow> length xs \<le> length (concat xs)"
proof (induction xs)
  case (Cons x xs)
  then show ?case by (cases x) auto
qed simp

lemma task_blocks_few:
  assumes "emitted_ok X file nw outs" and "t \<in> set outs"
  shows "length (task_blocks X t) \<le> length file"
proof -
  have "\<forall>p\<in>set (task_blocks X t). p \<noteq> []"
    using task_blocks_elems [of t _ X] assms by (auto simp: emitted_ok_def)
  then have "length (task_blocks X t) \<le> length (concat (task_blocks X t))" by (rule length_concat_nonempty)
  also obtain us vs where "outs = us @ t # vs" using assms(2) by (meson split_list)
  then have "length (concat (task_blocks X t)) \<le> length (concat (task_block_list X outs))"
    by (simp add: task_block_list_def)
  finally show ?thesis using assms(1) by (simp add: emitted_ok_def)
qed

lemma emitted_setup:
  assumes "ext_ok X conf D hdr" and e: "emitted_ok X file nw outs" and "length file < 2 ^ 31 - 2"
    and "0 < nw" and "collision_free X outs"
  shows "farm_setup X conf D hdr (set (task_block_list X outs)) outs nw"
proof -
  let ?U = "set (task_block_list X outs)"
  have "univ_ok X ?U"
    using assms(5) task_blocks_elems [of _ _ X] e
    unfolding univ_ok_def collision_free_def task_block_list_def emitted_ok_def by fastforce
  moreover have "task_ok X ?U t" if "t \<in> set outs" for t
    using task_blocks_few [OF e that] assms(3) e that by (auto simp: task_ok_def task_block_list_def emitted_ok_def)
  ultimately show ?thesis
    using assms(1,4) e unfolding farm_setup_def good_env_def emitted_ok_def by blast
qed

lemma farm_init_inv:
  assumes s: "farm_setup X conf D hdr U outs nw" and "store_inv X conf D hdr U sh"
    and "\<And>a. chunks sh a = None" and "written sh = []"
  shows "farm_inv X conf D hdr U outs nw (\<lambda>i. task_steps X (outs ! i)) (blocks_from X outs 0)
    (farm_init sh nw (length outs))"
proof -
  have nw: "0 < nw" using s by (simp add: farm_setup_def)
  have "coll_inv X outs (blocks_from X outs 0) (farm_init sh nw (length outs))"
    using assms(4) by (simp add: coll_inv_def farm_init_def collected_items_def)
  then show ?thesis
    using assms(2,3) nw unfolding farm_inv_def
    by (simp add: farm_init_def task_inv_def pub_def worker_ready_new)
qed

lemma encode_table:
  obtains h :: "(u32 list, nat) hashtable" where
    "hashtable_create True 65536 hash_from_key_fn keys_equal_fn False = Some h"
    "ht_inv h" "eqfn h = keys_equal_fn" "\<And>k. hashtable_search h k = None"
proof (rule hashtable_create_fresh [of hash_from_key_fn keys_equal_fn 65536 False])
  show "keys_ok hash_from_key_fn keys_equal_fn"
    by (simp add: keys_ok_def keys_equal_fn_def [abs_def] identity_equivp)
qed (simp, blast)

lemma locks_init_ok:
  "\<forall>i. f i \<Longrightarrow> mbuffer_system_init True f None = Inr (0, Some NUMBER_OF_LOCKS, snd (init_locks f 0 NUMBER_OF_LOCKS))"
  using init_locks_iff [of f 0 NUMBER_OF_LOCKS]
  by (auto simp: mbuffer_system_init_def list_all_iff split: prod.splits bool.splits)

lemma EncodeFF_start_ok:
  assumes ok: "ext_ok X conf D hdr" and E: "env_ok E" and nw: "0 < nthreads conf"
    and len: "length (in_file (e_in E)) < 2 ^ 31 - 2"
  obtains outs sh where "EncodeFF_start X conf E = Inr (outs, farm_init sh (nthreads conf) (length outs))"
    "emitted_ok X (in_file (e_in E)) (nthreads conf) outs"
    "\<And>a. chunks sh a = None" "written sh = []"
    "\<And>U. good_env X conf D hdr U \<Longrightarrow> store_inv X conf D hdr U sh"
proof -
  let ?io = "e_in E"
  have io: "reads_ok ?io" "length (in_file ?io) < 2 ^ 60" using E len by (auto simp: env_ok_def)
  obtain h :: "(u32 list, nat) hashtable" where
    h: "hashtable_create True 65536 hash_from_key_fn keys_equal_fn False = Some h"
    "ht_inv h" "eqfn h = keys_equal_fn" "\<And>k. hashtable_search h k = None"
    by (rule encode_table, blast)
  obtain outs where f: "fragment_svc X conf ?io (nthreads conf) = Inr outs"
    "emitted_ok X (in_file ?io) (nthreads conf) outs"
    using fragment_emitted [OF ok io nw] by blast
  define sh where "sh = \<lparr>chunks = (\<lambda>_. None), next_chunk = 0, cache = h, outf = hdr, orig = (\<lambda>_. []),
    owner = (\<lambda>_. 0), written = []\<rparr>"
  have pre: "preload_loop ?io (length (in_file ?io)) 0 [] = Inr (in_file ?io)"
    by (rule preload_all [OF io(1)]) simp_all
  have out: "create_output_file X True (compress_type conf) = Inr hdr"
    using ok by (simp add: create_output_file_def ext_ok_def)
  have buf: "(if preloading conf then preload_loop ?io (length (in_file ?io)) 0 [] else Inr (in_file ?io)) = Inr (in_file ?io)"
    using pre by simp
  have env: "e_table E" "e_lock_array E" "e_stat E = Some (length (in_file ?io))" "e_isreg E" "e_open E" "e_open_out E" "\<forall>i. e_locks E i"
    and mem: "malloc_ok X n" for n
    using E ok by (auto simp: env_ok_def ext_ok_def)
  have same: "?io\<lparr>in_file := in_file ?io\<rparr> = ?io" by simp
  have "EncodeFF_start X conf E = Inr (outs, farm_init sh (nthreads conf) (length outs))"
    by (simp add: EncodeFF_start_def EncodeFF_init_def workers_alloc_def env h(1) locks_init_ok buf mem out same f(1) sh_def)
  moreover have "store_inv X conf D hdr U sh" if "good_env X conf D hdr U" for U
    unfolding sh_def by (rule start_store_inv [OF h(2,4,3) that])
  ultimately show thesis using that [OF _ f(2)] by (simp add: sh_def)
qed

end
