(* ===== verification/DedupRuns.thy ===== *)
theory DedupRuns
  imports DedupEncode
begin

text \<open>
  Runs of the whole encoder: the invariant of the farm along a schedule, progress (in every
  reachable state some thread can move), the bound on the length of a run, what the output file
  decodes to at the end, and a concrete environment for witnesses.
\<close>

lemma farm_run_inv:
  assumes su: "farm_setup X conf D hdr U outs nw"
  shows "farm_inv X conf D hdr U outs nw ns c s \<Longrightarrow> farm_run X conf outs nw es s = Some u \<Longrightarrow>
    \<exists>ns' c'. farm_inv X conf D hdr U outs nw ns' c' u \<and> farm_measure outs ns' c' u + length es \<le> farm_measure outs ns c s"
proof (induction es arbitrary: ns c s)
  case Nil
  then show ?case by auto
next
  case (Cons e es)
  obtain v where v: "farm_do X conf outs nw e s = Some v" "farm_run X conf outs nw es v = Some u"
    using Cons.prems(2) by (auto split: option.splits)
  obtain ns1 c1 where 1: "farm_inv X conf D hdr U outs nw ns1 c1 v" "farm_measure outs ns1 c1 v < farm_measure outs ns c s"
    using farm_step [OF Cons.prems(1) su v(1)] unfolding farm_next_def by blast
  then show ?case using Cons.IH [OF 1(1) v(2)] 1(2) by fastforce
qed

lemma farm_run_append:
  "farm_run X conf outs nw (es @ fs) s =
    (case farm_run X conf outs nw es s of None \<Rightarrow> None | Some u \<Rightarrow> farm_run X conf outs nw fs u)"
  by (induction es arbitrary: s) (auto split: option.splits)

text \<open>In every state of a run that is not the end, some thread can take a step.\<close>

definition enabled :: "ext \<Rightarrow> config_t \<Rightarrow> chunk_t ringbuffer list \<Rightarrow> nat \<Rightarrow> farm \<Rightarrow> bool" where
  "enabled X conf outs nw s \<longleftrightarrow> (\<exists>e u. farm_do X conf outs nw e s = Some u)"

lemma enabledI: "f_crash s = None \<Longrightarrow> farm_event X conf outs nw e s = Some u \<Longrightarrow> enabled X conf outs nw s"
  unfolding enabled_def farm_do_def by auto

lemma running_enabled:
  assumes inv: "farm_inv X conf D hdr U outs nw ns c s" and i: "i < length outs" and p: "f_tasks s ! i = Running p"
  shows "enabled X conf outs nw s"
proof -
  note P = farm_inv_parts [OF inv]
  have safe: "dd.safe X conf D hdr U p (Suc i) (ns i)
      (post_worker (Suc i) (task_blocks X (outs ! i)) (ringbuffer_isLast (outs ! i))) (f_sh s)"
    using P(5) [OF i] p by (simp add: task_inv_def)
  show ?thesis
  proof (cases p)
    case (Ret r)
    obtain buf w where "r = (buf, w)" by (cases r)
    then show ?thesis using p i P(3) Ret by (intro enabledI [OF P(1), where e = "Finish i"]) simp
  next
    case (Fail e)
    then show ?thesis using safe by simp
  next
    case (Act a k)
    obtain r sh m where "do_act X conf (Suc i) a (f_sh s) = Step r sh"
      using dd.safe_action [OF P(2) safe [unfolded Act]] by blast
    then show ?thesis using p i P(3) Act by (intro enabledI [OF P(1), where e = "Work i"]) simp
  qed
qed

lemma pending_enabled:
  assumes inv: "farm_inv X conf D hdr U outs nw ns c s" and all: "f_emitted s = length outs"
    and i: "i < length outs" "f_tasks s ! i = Pending"
  shows "enabled X conf outs nw s"
proof -
  note P = farm_inv_parts [OF inv]
  define m where "m = (LEAST i. i < length outs \<and> f_tasks s ! i = Pending)"
  have m: "m < length outs" "f_tasks s ! m = Pending"
    using i LeastI [of "\<lambda>i. i < length outs \<and> f_tasks s ! i = Pending"] unfolding m_def by blast+
  have before: "f_tasks s ! j \<noteq> Pending" if "j < m" for j
    using not_less_Least [of j "\<lambda>i. i < length outs \<and> f_tasks s ! i = Pending"] that m(1) unfolding m_def by auto
  show ?thesis
  proof (cases "\<exists>j<m. \<not> is_finished (f_tasks s ! j)")
    case True
    then obtain j where j: "j < m" "\<not> is_finished (f_tasks s ! j)" by blast
    then obtain p where "f_tasks s ! j = Running p"
      using before [OF j(1)] by (cases "f_tasks s ! j") (auto simp: is_finished_def)
    then show ?thesis using running_enabled [OF inv, of j] j(1) m(1) by simp
  next
    case False
    then have "list_all (\<lambda>j. j mod nw = m mod nw \<longrightarrow> is_finished (f_tasks s ! j)) [0..<m]"
      by (simp add: list_all_iff)
    then show ?thesis
      using m all by (intro enabledI [OF P(1), where e = "Start m"]) simp
  qed
qed

lemma collector_enabled:
  assumes inv: "farm_inv X conf D hdr U outs nw ns c s" and p: "f_coll s = Some p"
    and fin: "\<forall>i<length outs. is_finished (f_tasks s ! i)"
  shows "enabled X conf outs nw s"
proof -
  note P = farm_inv_parts [OF inv]
  show ?thesis
  proof (cases p)
    case (Ret v)
    then show ?thesis using p by (intro enabledI [OF P(1), where e = Release]) simp
  next
    case (Fail e)
    then show ?thesis using p P(9) write_all_no_fail by (auto simp: coll_inv_def)
  next
    case (Act a k)
    let ?sh = "f_sh s"
    obtain b x d where r: "a = AWrite b" "chunks ?sh b = Some x" "chunks ?sh (original ?sh b) = Some d"
      "\<not> isDuplicate d"
      using collect_ready [OF inv p [unfolded Act]] by metis
    obtain j where j: "j < length outs" "owner ?sh (original ?sh b) = Suc j"
      using P(8) [of "original ?sh b"] r(3) by auto
    obtain buf where buf: "f_tasks s ! j = Finished buf"
      using fin j(1) by (cases "f_tasks s ! j") (auto simp: is_finished_def)
    have pub: "pub (Suc j) (task_blocks X (outs ! j)) (rb_items buf) [] ?sh"
      using P(5) [OF j(1)] buf by (simp add: task_inv_def)
    then have "original ?sh b \<in> set (rb_items buf)"
      using r(3) j(2) unfolding pub_def by (metis append_Nil2 option.distinct(1))
    then have ne: "state d \<noteq> CHUNK_STATE_UNCOMPRESSED"
      using pub r(3,4) unfolding pub_def by blast
    have G: "dinv X D hdr U ?sh" "ext_ok X conf D hdr" "univ_ok X U"
      using P(2) by (simp_all add: store_inv_def good_env_def)
    obtain t where "write_chunk_to_file X b ?sh = Step RUnit t"
      using write_chunk_ok [OF G r(2,3) ne] by blast
    then show ?thesis using p Act r(1) by (intro enabledI [OF P(1), where e = Collect]) simp
  qed
qed

lemma farm_progress:
  assumes inv: "farm_inv X conf D hdr U outs nw ns c s"
  shows "farm_final s \<or> enabled X conf outs nw s"
proof -
  note P = farm_inv_parts [OF inv]
  have cover: "t = Pending \<or> (\<exists>p. t = Running p) \<or> is_finished t" for t
    by (cases t) (auto simp: is_finished_def)
  consider (emit) "f_emitted s < length outs" | (run) i p where "i < length outs" "f_tasks s ! i = Running p"
    | (pend) i where "f_emitted s = length outs" "i < length outs" "f_tasks s ! i = Pending"
    | (fin) "\<forall>i<length outs. is_finished (f_tasks s ! i)"
    using P(10) cover by (metis le_neq_implies_less)
  then show ?thesis
  proof cases
    case emit
    then show ?thesis by (intro disjI2 enabledI [OF P(1), where e = Emit]) simp
  next
    case run
    then show ?thesis using running_enabled [OF inv] by blast
  next
    case pend
    then show ?thesis using pending_enabled [OF inv] by blast
  next
    case fin
    show ?thesis
    proof (cases "f_coll s")
      case None
      show ?thesis
      proof (cases "f_collected s = length outs")
        case True
        then show ?thesis using None P(1,3) by (simp add: farm_final_def)
      next
        case False
        then have k: "f_collected s < length outs" using P(3,9) by (simp add: coll_inv_def)
        then obtain buf where "f_tasks s ! f_collected s = Finished buf"
          using fin by (cases "f_tasks s ! f_collected s") (auto simp: is_finished_def)
        then show ?thesis
          using k None P(3) by (intro disjI2 enabledI [OF P(1), where e = Take]) simp
      qed
    next
      case (Some p)
      then show ?thesis using collector_enabled [OF inv Some fin] by blast
    qed
  qed
qed

text \<open>At the end the file decodes to the blocks of all tasks, in order.\<close>

lemma farm_final_output:
  assumes inv: "farm_inv X conf D hdr U outs nw ns c s" and fin: "farm_final s"
  shows "decode_file D (fingerprint X) (length hdr) (outf (f_sh s)) = Some (concat (task_block_list X outs))"
proof -
  note P = farm_inv_parts [OF inv]
  let ?ts = "f_tasks s"
  have dn: "\<forall>i<length outs. is_finished (?ts ! i)" and w: "written (f_sh s) = collected_items ?ts (length outs)"
    using P(3,9) fin by (auto simp: coll_inv_def farm_final_def)
  have t: "map (orig (f_sh s)) (task_items (?ts ! i)) = task_blocks X (outs ! i)" if i: "i < length outs" for i
  proof -
    obtain buf where "?ts ! i = Finished buf"
      using dn i by (cases "?ts ! i") (auto simp: is_finished_def)
    then show ?thesis using P(5) [OF i] by (simp add: task_inv_def task_items_def pub_def)
  qed
  have "map (orig (f_sh s)) (concat (map task_items ?ts)) = concat (map (\<lambda>t. map (orig (f_sh s)) (task_items t)) ?ts)"
    by (simp add: map_concat comp_def)
  also have "map (\<lambda>t. map (orig (f_sh s)) (task_items t)) ?ts = map (task_blocks X) outs"
    using t P(3) by (intro nth_equalityI) auto
  finally have items: "map (orig (f_sh s)) (written (f_sh s)) = task_block_list X outs"
    using w P(3) by (simp add: collected_items_def task_block_list_def)
  have "out_inv X D hdr (f_sh s)" using P(2) dinv_out by (auto simp: store_inv_def)
  then obtain rs dict where "outf (f_sh s) = hdr @ concat (map enc_rec rs)" "\<forall>r\<in>set rs. rec_fits r"
    "dec_recs D (fingerprint X) rs = Some (concat (map (orig (f_sh s)) (written (f_sh s))), dict)"
    unfolding out_inv_def by blast
  then show ?thesis using decode_file_enc items by metis
qed

lemma farm_measure_init:
  "farm_measure outs (\<lambda>i. task_steps X (outs ! i)) (blocks_from X outs 0) (farm_init sh nw (length outs)) =
    5 * length outs + 6 * length (task_block_list X outs)"
proof -
  have b: "(\<Sum>i<length outs. length (task_blocks X (outs ! i))) = length (task_block_list X outs)"
    by (simp add: task_block_list_def length_concat comp_def sum_list_sum_nth atLeast0LessThan)
  have "(\<Sum>i<length outs. tcost (replicate (length outs) Pending ! i) (task_steps X (outs ! i))) =
      (\<Sum>i<length outs. 5 * length (task_blocks X (outs ! i)) + 2)"
    by (intro sum.cong) (simp_all add: tcost_def task_steps_def)
  also have "\<dots> = 5 * length (task_block_list X outs) + 2 * length outs"
    unfolding sum.distrib b [symmetric] sum_distrib_left by simp
  finally have s: "(\<Sum>i<length outs. tcost (replicate (length outs) Pending ! i) (task_steps X (outs ! i))) =
      5 * length (task_block_list X outs) + 2 * length outs" .
  have "blocks_from X outs 0 = length (task_block_list X outs) + 2 * length outs"
    by (induction outs) (auto simp: blocks_from_def task_block_list_def)
  then show ?thesis using s by (simp add: farm_measure_def farm_init_def)
qed

text \<open>What holds in every state a run of the encoder can reach.\<close>

lemma encode_reaches:
  assumes ok: "ext_ok X conf D hdr" "env_ok E" "0 < nthreads conf" "length (in_file (e_in E)) < 2 ^ 31 - 2"
    and start: "EncodeFF_start X conf E = Inr (outs, s0)" and free: "collision_free X outs"
    and run: "farm_run X conf outs (nthreads conf) es s0 = Some s"
  obtains U ns c where "farm_inv X conf D hdr U outs (nthreads conf) ns c s"
    "farm_setup X conf D hdr U outs (nthreads conf)"
    "farm_measure outs ns c s + length es \<le> 5 * length outs + 6 * length (task_block_list X outs)"
    "emitted_ok X (in_file (e_in E)) (nthreads conf) outs"
proof -
  let ?U = "set (task_block_list X outs)"
  obtain sh where sh: "s0 = farm_init sh (nthreads conf) (length outs)"
    "emitted_ok X (in_file (e_in E)) (nthreads conf) outs" "\<And>a. chunks sh a = None" "written sh = []"
    "\<And>U. good_env X conf D hdr U \<Longrightarrow> store_inv X conf D hdr U sh"
    using EncodeFF_start_ok [OF ok] start by (metis Inr_inject prod.inject)
  have su: "farm_setup X conf D hdr ?U outs (nthreads conf)"
    by (rule emitted_setup [OF ok(1) sh(2) ok(4,3) free])
  then have "store_inv X conf D hdr ?U sh" using sh(5) by (simp add: farm_setup_def)
  then have "farm_inv X conf D hdr ?U outs (nthreads conf) (\<lambda>i. task_steps X (outs ! i)) (blocks_from X outs 0)
      (farm_init sh (nthreads conf) (length outs))"
    by (intro farm_init_inv [OF su _ sh(3,4)])
  then obtain ns c where "farm_inv X conf D hdr ?U outs (nthreads conf) ns c s"
    "farm_measure outs ns c s + length es \<le> 5 * length outs + 6 * length (task_block_list X outs)"
    using farm_run_inv [OF su _ run [unfolded sh(1)]] farm_measure_init by metis
  then show thesis using that [OF _ su _ sh(2)] by blast
qed

lemma encode_completes:
  assumes su: "farm_setup X conf D hdr U outs nw"
  shows "farm_inv X conf D hdr U outs nw ns c s \<Longrightarrow> \<exists>fs u. farm_run X conf outs nw fs s = Some u \<and> farm_final u"
proof (induction "farm_measure outs ns c s" arbitrary: ns c s rule: less_induct)
  case less
  show ?case
  proof (cases "farm_final s")
    case True
    then show ?thesis by (intro exI [of _ "[]"]) simp
  next
    case False
    then obtain e v where v: "farm_do X conf outs nw e s = Some v"
      using farm_progress [OF less.prems] by (auto simp: enabled_def)
    obtain ns1 c1 where 1: "farm_inv X conf D hdr U outs nw ns1 c1 v" "farm_measure outs ns1 c1 v < farm_measure outs ns c s"
      using farm_step [OF less.prems su v] unfolding farm_next_def by blast
    obtain fs u where "farm_run X conf outs nw fs v = Some u" "farm_final u"
      using less.hyps [OF 1(2,1)] by blast
    then show ?thesis using v by (intro exI [of _ "e # fs"]) auto
  qed
qed

subsection \<open>A concrete run\<close>

text \<open>
  An environment for the witnesses: every byte is a block of its own, digests list the first
  bytes, compression stores.
\<close>

definition demo_sha :: "byte list \<Rightarrow> u32 list" where
  "demo_sha bs = of_nat (length bs) # map (\<lambda>i. if i < length bs then ucast (bs ! i) else 0) [0..<4]"

definition demo_ext :: ext where
  "demo_ext = \<lparr>rabininit = (\<lambda>_. ([], [])), rabinseg = (\<lambda>bs win tabs. 1), SHA1_Digest = demo_sha,
     zcompress = (\<lambda>src n. (0, src)), bzcompress = (\<lambda>src n. (0, src)),
     xwrite = (\<lambda>f bs. (int (length bs), f @ bs)), write_header = (\<lambda>f t. (0, f @ [of_int t])),
     malloc_ok = (\<lambda>_. True)\<rparr>"

definition demo_conf :: config_t where
  "demo_conf = \<lparr>compress_type = COMPRESS_GZIP, preloading = True, nthreads = 2, gzip_enabled = True,
     bzip2_enabled = False\<rparr>"

definition demo_env :: encode_env where
  "demo_env = \<lparr>e_table = True, e_lock_array = True, e_locks = (\<lambda>_. True), e_stat = Some 3, e_isreg = True, e_open = True,
     e_open_out = True, e_in = \<lparr>in_file = [1, 2, 1], in_read = (\<lambda>_. 1)\<rparr>\<rparr>"

lemma demo_ext_ok: "ext_ok demo_ext demo_conf (\<lambda>z. z) [of_int COMPRESS_GZIP]"
  by (auto simp: ext_ok_def codec_ok_def demo_ext_def demo_conf_def demo_sha_def Suc_le_eq)

lemma demo_env_ok: "env_ok demo_env"
  by (simp add: env_ok_def demo_env_def reads_ok_def)

lemma demo_sha_inj: "inj_on demo_sha {bs. length bs \<le> 4}"
proof (rule inj_onI)
  fix bs cs :: "byte list" assume l: "bs \<in> {bs. length bs \<le> 4}" "cs \<in> {bs. length bs \<le> 4}" and eq: "demo_sha bs = demo_sha cs"
  have "(of_nat (length bs) :: u32) = of_nat (length cs)" using eq by (simp add: demo_sha_def)
  then have len: "length bs = length cs"
    using l by (simp add: of_nat_eq_iff word_of_nat_eq_iff take_bit_nat_eq_self)
  have "bs ! i = cs ! i" if i: "i < length bs" for i
  proof -
    have "demo_sha bs ! Suc i = demo_sha cs ! Suc i" using eq by simp
    then have "(ucast (bs ! i) :: u32) = ucast (cs ! i)" using i l len by (simp add: demo_sha_def)
    then have "(ucast (ucast (bs ! i) :: u32) :: byte) = ucast (ucast (cs ! i) :: u32)" by simp
    then show ?thesis by (simp add: ucast_up_ucast_id is_up)
  qed
  then show "bs = cs" using len by (intro nth_equalityI) auto
qed

lemma length_elem_concat: "x \<in> set xs \<Longrightarrow> length x \<le> length (concat xs)"
  by (induction xs) auto

lemma demo_small: "0 < nthreads demo_conf" "length (in_file (e_in demo_env)) < 2 ^ 31 - 2"
  by (simp_all add: demo_conf_def demo_env_def)

lemma demo_collision_free:
  assumes "EncodeFF_start demo_ext demo_conf demo_env = Inr (outs, s0)"
  shows "collision_free demo_ext outs"
proof -
  have n: "0 < nthreads demo_conf" "length (in_file (e_in demo_env)) < 2 ^ 31 - 2"
    by (simp_all add: demo_conf_def demo_env_def)
  obtain sh where "emitted_ok demo_ext (in_file (e_in demo_env)) (nthreads demo_conf) outs"
    using EncodeFF_start_ok [OF demo_ext_ok demo_env_ok n] assms by (metis Inr_inject prod.inject)
  then have "length (concat (task_block_list demo_ext outs)) = 3"
    by (simp add: emitted_ok_def demo_env_def)
  then have "set (task_block_list demo_ext outs) \<subseteq> {bs. length bs \<le> 4}"
    using length_elem_concat [of _ "task_block_list demo_ext outs"] by fastforce
  then show ?thesis
    using inj_on_subset [OF demo_sha_inj] by (simp add: collision_free_def demo_ext_def)
qed

lemma demo_start: "\<exists>outs s0. EncodeFF_start demo_ext demo_conf demo_env = Inr (outs, s0) \<and> \<not> farm_final s0"
proof -
  obtain outs sh where o: "EncodeFF_start demo_ext demo_conf demo_env = Inr (outs, farm_init sh (nthreads demo_conf) (length outs))"
    "emitted_ok demo_ext (in_file (e_in demo_env)) (nthreads demo_conf) outs"
    using EncodeFF_start_ok [OF demo_ext_ok demo_env_ok demo_small] by metis
  have "outs \<noteq> []" using o(2) by (auto simp: emitted_ok_def demo_env_def task_block_list_def)
  then show ?thesis using o(1) by (intro exI conjI) (auto simp: farm_final_def farm_init_def)
qed

lemma demo_run:
  "\<exists>outs s0 es s. EncodeFF_start demo_ext demo_conf demo_env = Inr (outs, s0) \<and> collision_free demo_ext outs \<and>
    farm_run demo_ext demo_conf outs (nthreads demo_conf) es s0 = Some s \<and> farm_final s"
proof -
  obtain outs s0 where s: "EncodeFF_start demo_ext demo_conf demo_env = Inr (outs, s0)"
    using demo_start by blast
  have "farm_run demo_ext demo_conf outs (nthreads demo_conf) [] s0 = Some s0" by simp
  from encode_reaches [OF demo_ext_ok demo_env_ok demo_small s demo_collision_free [OF s] this]
  obtain U ns c where "farm_inv demo_ext demo_conf (\<lambda>z. z) [of_int COMPRESS_GZIP] U outs (nthreads demo_conf) ns c s0"
    "farm_setup demo_ext demo_conf (\<lambda>z. z) [of_int COMPRESS_GZIP] U outs (nthreads demo_conf)" by metis
  then show ?thesis using encode_completes s demo_collision_free [OF s] by blast
qed

end
