(* ===== verification/FFBuffer.thy ===== *)
theory FFBuffer
  imports Fifo
begin

text \<open>
  The bounded channels of FastFlow (\<open>libs/fastflow/ff/buffer.hpp\<close>): the lock-free single-producer
  single-consumer buffer \<open>SWSR_Ptr_Buffer\<close> with its batch operations, and \<open>Lamport_Buffer\<close>. Every
  stage of the parallel programs communicates through them. An array slot is \<open>None\<close> for the
  null pointer; positions are 64-bit words. The first half models the calls as a whole, the
  second the interleaving of the memory accesses of two threads.
\<close>

text \<open>The number of longs in a cache line (\<open>config.hpp\<close>: 64-byte lines, 8-byte longs).\<close>

definition longxCacheLine :: u64 where "longxCacheLine = 8"

definition MULTIPUSH_BUFFER_SIZE :: nat where "MULTIPUSH_BUFFER_SIZE = 16"

record 'a swsr =
  pread :: u64
  pwrite :: u64
  bsize :: u64
  bbuf :: "'a option list"
  multipush_buf :: "'a list"

definition SWSR_Ptr_Buffer :: "u64 \<Rightarrow> 'a swsr" where
  "SWSR_Ptr_Buffer n = \<lparr>pread = 0, pwrite = 0, bsize = n, bbuf = [], multipush_buf = []\<rparr>"

definition swsr_reset :: "bool \<Rightarrow> 'a swsr \<Rightarrow> 'a swsr" where
  "swsr_reset startatlineend q =
     (let p = (if startatlineend then longxCacheLine - 1 else 0) in
      q\<lparr>pread := p, pwrite := p, multipush_buf := [], bbuf := replicate (unat (bsize q)) None\<rparr>)"

text \<open>\<open>mp\<close> is the macro \<open>SWSR_MULTIPUSH\<close>; an unallocated buffer is the empty list.\<close>

definition swsr_init :: "bool \<Rightarrow> bool \<Rightarrow> bool \<Rightarrow> 'a swsr \<Rightarrow> bool \<times> 'a swsr" where
  "swsr_init mp alloc_ok startatlineend q =
     (if bbuf q \<noteq> [] \<or> bsize q = 0 then (False, q)
      else if mp \<and> bsize q < of_nat MULTIPUSH_BUFFER_SIZE then (False, q)
      else if \<not> alloc_ok then (False, q)
      else (True, swsr_reset startatlineend q))"

definition slot :: "'a swsr \<Rightarrow> u64 \<Rightarrow> 'a option" where
  "slot q p = bbuf q ! unat p"

definition swsr_empty :: "'a swsr \<Rightarrow> bool" where
  "swsr_empty q \<longleftrightarrow> slot q (pread q) = None"

definition swsr_available :: "'a swsr \<Rightarrow> bool" where
  "swsr_available q \<longleftrightarrow> slot q (pwrite q) = None"

text \<open>The circular increment \<open>p += (p+1 >= size) ? (1-size) : 1\<close> on 64-bit words.\<close>

definition next_pos :: "u64 \<Rightarrow> u64 \<Rightarrow> u64" where
  "next_pos n p = p + (if n \<le> p + 1 then 1 - n else 1)"

definition swsr_push :: "'a swsr \<Rightarrow> 'a \<Rightarrow> bool \<times> 'a swsr" where
  "swsr_push q x =
     (if swsr_available q
      then (True, q\<lparr>bbuf := (bbuf q)[unat (pwrite q) := Some x], pwrite := next_pos (bsize q) (pwrite q)\<rparr>)
      else (False, q))"

definition swsr_inc :: "'a swsr \<Rightarrow> 'a swsr" where
  "swsr_inc q = q\<lparr>bbuf := (bbuf q)[unat (pread q) := None], pread := next_pos (bsize q) (pread q)\<rparr>"

definition swsr_top :: "'a swsr \<Rightarrow> 'a option" where
  "swsr_top q = slot q (pread q)"

definition swsr_pop :: "'a swsr \<Rightarrow> 'a option \<times> 'a swsr" where
  "swsr_pop q = (if swsr_empty q then (None, q) else (swsr_top q, swsr_inc q))"

text \<open>
  The batch push. The loops of the source run downwards with unsigned indices: the first part
  fills \<open>buf[0..last]\<close> with the end of the batch, the second the end of the array.
\<close>

fun fill_down :: "'a option list \<Rightarrow> 'a list \<Rightarrow> nat \<Rightarrow> nat \<Rightarrow> nat \<Rightarrow> 'a option list" where
  "fill_down b xs 0 l i = b[l := Some (xs ! i)]"
| "fill_down b xs (Suc k) l i = fill_down (b[l := Some (xs ! i)]) xs k (l - 1) (i - 1)"

definition swsr_multipush :: "'a swsr \<Rightarrow> 'a list \<Rightarrow> bool \<times> 'a swsr" where
  "swsr_multipush q xs =
     (if bsize q \<le> of_nat (length xs) then (False, q)
      else let len = of_nat (length xs) - 1;
               last = pwrite q + (if bsize q \<le> pwrite q + len then len - bsize q else len);
               r = len - (last + 1);
               done = (\<lambda>b. (True, q\<lparr>bbuf := b, multipush_buf := [],
                  pwrite := if bsize q \<le> last + 1 then 0 else last + 1\<rparr>)) in
        if slot q last = None then
          (if last < pwrite q then
             (let b = fill_down (bbuf q) xs (unat last) (unat last) (unat len) in
              done (fill_down b xs (unat (bsize q - 1 - pwrite q)) (unat (bsize q - 1)) (unat r)))
           else done (fill_down (bbuf q) xs (unat len) (unat (pwrite q + len)) (unat len)))
        else (False, q))"

definition swsr_mpush :: "'a swsr \<Rightarrow> 'a \<Rightarrow> bool \<times> 'a swsr" where
  "swsr_mpush q x =
     (if length (multipush_buf q) = MULTIPUSH_BUFFER_SIZE then swsr_multipush q (multipush_buf q)
      else let q = q\<lparr>multipush_buf := multipush_buf q @ [x]\<rparr> in
        if length (multipush_buf q) = MULTIPUSH_BUFFER_SIZE then swsr_multipush q (multipush_buf q)
        else (True, q))"

definition swsr_flush :: "'a swsr \<Rightarrow> bool \<times> 'a swsr" where
  "swsr_flush q = (if multipush_buf q \<noteq> [] then swsr_multipush q (multipush_buf q) else (True, q))"

text \<open>\<open>length\<close> computes with signed longs.\<close>

definition swsr_length :: "'a swsr \<Rightarrow> u64" where
  "swsr_length q =
     (let len = pwrite q - pread q in
      if 0 <s len then len
      else if len <s 0 then bsize q + len
      else if slot q (pwrite q) = None then 0 else bsize q)"

subsection \<open>The array as seen from the read position\<close>

definition view :: "'a list \<Rightarrow> nat \<Rightarrow> 'a list" where
  "view d t = ring_seg d t (length d)"

lemma length_view [simp]: "length (view d t) = length d"
  by (simp add: view_def ring_simps)

lemma nth_view: "i < length d \<Longrightarrow> view d t ! i = d ! ((t + i) mod length d)"
  by (simp add: view_def nth_ring_seg)

lemma view_update:
  assumes "j < length d"
  shows "view (d[(t + j) mod length d := x]) t = (view d t)[j := x]"
proof (rule nth_equalityI)
  fix i assume "i < length (view (d[(t + j) mod length d := x]) t)"
  then have i: "i < length d" by simp
  have "(t + i) mod length d = (t + j) mod length d \<longleftrightarrow> i = j"
    using mod_shift_inj [of t i "length d" j] i assms by auto
  moreover have "(t + i) mod length d < length d" using i by (intro mod_less_divisor) linarith
  ultimately show "view (d[(t + j) mod length d := x]) t ! i = (view d t)[j := x] ! i"
    using i assms by (auto simp: nth_view nth_list_update)
qed simp

lemma view_Suc: "view d (Suc t) = rotate1 (view d t)"
proof (rule nth_equalityI)
  fix i assume "i < length (view d (Suc t))"
  then have i: "i < length d" by simp
  have "view d t ! (Suc i mod length d) = d ! ((t + Suc i mod length d) mod length d)"
    using i by (intro nth_view mod_less_divisor) linarith
  then show "view d (Suc t) ! i = rotate1 (view d t) ! i"
    using i by (simp add: nth_view nth_rotate1 mod_add_right_eq)
qed simp

lemma view_mod: "view d (t mod length d) = view d t"
  by (simp add: view_def ring_seg_mod)

lemma view_replicate: "view (replicate n x) t = replicate n x"
  by (rule nth_equalityI) (simp_all add: nth_view)

lemma next_pos_unat:
  assumes "p < n"
  shows "unat (next_pos n p) = Suc (unat p) mod unat n"
proof -
  have l: "unat p < unat n" using assms by (simp add: word_less_nat_alt)
  have u: "unat (p + 1) = Suc (unat p)"
    using l unsigned_less [of n, where ?'a = nat] by (simp add: unat_word_ariths)
  show ?thesis
  proof (cases "n \<le> p + 1")
    case True
    then have "unat n = Suc (unat p)" using l u by (simp add: word_le_nat_alt)
    then have "n = p + 1" using u by (simp add: word_unat_eq_iff)
    then show ?thesis using u by (simp add: next_pos_def)
  next
    case False
    then have "Suc (unat p) < unat n" using u by (simp add: word_le_nat_alt)
    then show ?thesis using False u by (simp add: next_pos_def)
  qed
qed

subsection \<open>The invariant and the FIFO interface\<close>

definition sw_view :: "'a swsr \<Rightarrow> 'a option list" where
  "sw_view q = view (bbuf q) (unat (pread q))"

definition sw_items :: "'a swsr \<Rightarrow> 'a list" where
  "sw_items q = map the (takeWhile (\<lambda>s. s \<noteq> None) (sw_view q))"

definition sw_capacity :: "'a swsr \<Rightarrow> nat" where
  "sw_capacity q = unat (bsize q)"

definition sw_inv :: "'a swsr \<Rightarrow> bool" where
  "sw_inv q \<longleftrightarrow> length (bbuf q) = unat (bsize q) \<and> pread q < bsize q \<and> pwrite q < bsize q \<and>
     unat (pwrite q) = (unat (pread q) + length (sw_items q)) mod unat (bsize q) \<and>
     sw_view q = map Some (sw_items q) @ replicate (unat (bsize q) - length (sw_items q)) None"

lemma takeWhile_Some: "takeWhile (\<lambda>s. s \<noteq> None) (map Some xs @ replicate m None) = map Some xs"
  by (induction xs) (simp_all add: takeWhile_eq_Nil_iff)

lemma sw_invI:
  assumes "length (bbuf q) = unat (bsize q)" and "pread q < bsize q" and "pwrite q < bsize q"
    and "unat (pwrite q) = (unat (pread q) + length xs) mod unat (bsize q)"
    and "sw_view q = map Some xs @ replicate (unat (bsize q) - length xs) None"
  shows "sw_inv q \<and> sw_items q = xs"
proof -
  have "sw_items q = xs" unfolding sw_items_def assms(5) takeWhile_Some by simp
  then show ?thesis using assms by (simp add: sw_inv_def)
qed

lemma sw_items_bound: "sw_inv q \<Longrightarrow> length (sw_items q) \<le> unat (bsize q)"
proof -
  assume "sw_inv q"
  then have "length (bbuf q) = unat (bsize q)" by (simp add: sw_inv_def)
  then have "length (sw_view q) = unat (bsize q)" by (simp add: sw_view_def)
  then show ?thesis
    using length_takeWhile_le [of "\<lambda>s. s \<noteq> None" "sw_view q"] by (simp add: sw_items_def)
qed

lemma sw_pos: "sw_inv q \<Longrightarrow> 0 < unat (bsize q)"
  by (auto simp: sw_inv_def word_less_nat_alt)

text \<open>The slot at offset \<open>i\<close> from the read position.\<close>

lemma sw_slot:
  assumes "sw_inv q" and "i < unat (bsize q)"
  shows "bbuf q ! ((unat (pread q) + i) mod unat (bsize q)) =
    (if i < length (sw_items q) then Some (sw_items q ! i) else None)"
proof -
  have len: "length (bbuf q) = unat (bsize q)" using assms(1) by (simp add: sw_inv_def)
  then have "bbuf q ! ((unat (pread q) + i) mod unat (bsize q)) = sw_view q ! i"
    using assms(2) nth_view [of i "bbuf q" "unat (pread q)"] by (simp add: sw_view_def)
  also have "\<dots> = (map Some (sw_items q) @ replicate (unat (bsize q) - length (sw_items q)) None) ! i"
    using assms(1) by (simp add: sw_inv_def)
  finally show ?thesis using assms(2) by (simp add: nth_append)
qed

lemma swsr_available_iff: "sw_inv q \<Longrightarrow> swsr_available q \<longleftrightarrow> length (sw_items q) < unat (bsize q)"
proof (cases "length (sw_items q) < unat (bsize q)")
  case True
  assume inv: "sw_inv q"
  then show ?thesis
    using sw_slot [OF inv True] True by (simp add: swsr_available_def slot_def sw_inv_def)
next
  case False
  assume inv: "sw_inv q"
  then have full: "length (sw_items q) = unat (bsize q)" using False sw_items_bound by fastforce
  then have "unat (pwrite q) = (unat (pread q) + 0) mod unat (bsize q)"
    using inv by (simp add: sw_inv_def)
  then show ?thesis
    using sw_slot [OF inv sw_pos [OF inv]] full sw_pos [OF inv] by (simp add: swsr_available_def slot_def)
qed

lemma swsr_empty_iff: "sw_inv q \<Longrightarrow> swsr_empty q \<longleftrightarrow> sw_items q = []"
proof -
  assume inv: "sw_inv q"
  then have "unat (pread q) mod unat (bsize q) = unat (pread q)"
    by (simp add: sw_inv_def word_less_nat_alt)
  then show ?thesis
    using sw_slot [OF inv sw_pos [OF inv]] by (auto simp: swsr_empty_def slot_def)
qed

lemma next_pos_less: "p < n \<Longrightarrow> next_pos n p < n"
proof -
  assume p: "p < n"
  have "Suc (unat p) mod unat n < unat n"
    using p by (intro mod_less_divisor) (simp add: word_less_nat_alt)
  then show ?thesis using next_pos_unat [OF p] by (simp add: word_less_nat_alt)
qed

lemma swsr_push_room:
  assumes inv: "sw_inv q" and room: "length (sw_items q) < unat (bsize q)"
  shows "fst (swsr_push q x) \<and> sw_inv (snd (swsr_push q x)) \<and> sw_items (snd (swsr_push q x)) = sw_items q @ [x] \<and>
    bsize (snd (swsr_push q x)) = bsize q"
proof -
  let ?k = "length (sw_items q)" and ?n = "unat (bsize q)"
  let ?q = "q\<lparr>bbuf := (bbuf q)[unat (pwrite q) := Some x], pwrite := next_pos (bsize q) (pwrite q)\<rparr>"
  have I: "length (bbuf q) = ?n" "pread q < bsize q" "pwrite q < bsize q"
    "unat (pwrite q) = (unat (pread q) + ?k) mod ?n"
    "sw_view q = map Some (sw_items q) @ replicate (?n - ?k) None"
    using inv by (simp_all add: sw_inv_def)
  obtain m where m: "?n - ?k = Suc m" "m = ?n - Suc ?k" using room by (metis Suc_diff_Suc)
  have "sw_view ?q = (sw_view q)[?k := Some x]"
    using view_update [of ?k "bbuf q" "unat (pread q)" "Some x"] room I(1,4) by (simp add: sw_view_def)
  also have "\<dots> = map Some (sw_items q @ [x]) @ replicate (?n - length (sw_items q @ [x])) None"
    using I(5) m by (simp add: list_update_append)
  finally have "sw_inv ?q \<and> sw_items ?q = sw_items q @ [x]"
    using I next_pos_less [OF I(3)] next_pos_unat [OF I(3)]
    by (intro sw_invI) (simp_all add: mod_Suc_eq)
  then show ?thesis
    using swsr_available_iff [OF inv] room by (simp add: swsr_push_def)
qed

lemma swsr_pop_Cons:
  assumes inv: "sw_inv q" and xs: "sw_items q = x # xs"
  shows "fst (swsr_pop q) = Some x \<and> sw_inv (snd (swsr_pop q)) \<and> sw_items (snd (swsr_pop q)) = xs \<and>
    bsize (snd (swsr_pop q)) = bsize q"
proof -
  let ?n = "unat (bsize q)" and ?r = "unat (pread q)"
  have I: "length (bbuf q) = ?n" "pread q < bsize q" "pwrite q < bsize q"
    "unat (pwrite q) = (?r + Suc (length xs)) mod ?n"
    "sw_view q = Some x # map Some xs @ replicate (?n - Suc (length xs)) None"
    using inv xs by (simp_all add: sw_inv_def)
  have n: "0 < ?n" and r: "?r mod ?n = ?r" using I(2) by (simp_all add: word_less_nat_alt)
  have top: "swsr_top q = Some x"
    using sw_slot [OF inv n] xs r by (simp add: swsr_top_def slot_def)
  let ?q = "swsr_inc q"
  have "sw_view ?q = view ((bbuf q)[?r := None]) (Suc ?r)"
    using next_pos_unat [OF I(2)] I(1) view_mod [of "(bbuf q)[?r := None]" "Suc ?r"]
    by (simp add: sw_view_def swsr_inc_def)
  also have "\<dots> = rotate1 ((sw_view q)[0 := None])"
    using view_update [of 0 "bbuf q" ?r None] n r I(1) by (simp add: view_Suc sw_view_def)
  also have "\<dots> = map Some xs @ replicate (?n - length xs) None"
  proof -
    have "length xs < ?n" using sw_items_bound [OF inv] xs by simp
    then have "?n - length xs = Suc (?n - Suc (length xs))" by simp
    then show ?thesis using I(5) by (simp add: replicate_append_same)
  qed
  finally have "sw_inv ?q \<and> sw_items ?q = xs"
    using I next_pos_less [OF I(2)] next_pos_unat [OF I(2)]
    by (intro sw_invI) (simp_all add: swsr_inc_def mod_add_left_eq)
  moreover have "\<not> swsr_empty q" using swsr_empty_iff [OF inv] xs by simp
  ultimately show ?thesis using top by (simp add: swsr_pop_def swsr_inc_def)
qed

interpretation sw: bounded_fifo swsr_push swsr_pop sw_items sw_capacity sw_inv
proof unfold_locales
  fix q :: "'a swsr" and x
  assume inv: "sw_inv q"
  show "length (sw_items q) \<le> sw_capacity q"
    using sw_items_bound [OF inv] by (simp add: sw_capacity_def)
  show "sw_inv (snd (swsr_push q x)) \<and> sw_capacity (snd (swsr_push q x)) = sw_capacity q"
    using swsr_push_room [OF inv, of x] swsr_available_iff [OF inv] inv
    by (cases "swsr_available q") (auto simp: sw_capacity_def swsr_push_def)
  show "sw_inv (snd (swsr_pop q)) \<and> sw_capacity (snd (swsr_pop q)) = sw_capacity q"
    using swsr_pop_Cons [OF inv] swsr_empty_iff [OF inv] inv
    by (cases "sw_items q") (auto simp: sw_capacity_def swsr_pop_def)
next
  fix q :: "'a swsr" and x
  assume inv: "sw_inv q" and "length (sw_items q) < sw_capacity q"
  then show "fst (swsr_push q x) \<and> sw_items (snd (swsr_push q x)) = sw_items q @ [x]"
    using swsr_push_room [OF inv, of x] by (simp add: sw_capacity_def)
next
  fix q :: "'a swsr" and x
  assume inv: "sw_inv q" and "length (sw_items q) = sw_capacity q"
  then show "swsr_push q x = (False, q)"
    using swsr_available_iff [OF inv] by (simp add: swsr_push_def sw_capacity_def)
next
  fix q :: "'a swsr"
  assume inv: "sw_inv q" and "sw_items q = []"
  then show "swsr_pop q = (None, q)" using swsr_empty_iff [OF inv] by (simp add: swsr_pop_def)
next
  fix q :: "'a swsr" and x xs
  assume inv: "sw_inv q" and "sw_items q = x # xs"
  then show "fst (swsr_pop q) = Some x \<and> sw_items (snd (swsr_pop q)) = xs"
    using swsr_pop_Cons [OF inv] by blast
qed

lemma swsr_reset_inv:
  assumes "0 < bsize q" and "startatlineend \<longrightarrow> longxCacheLine - 1 < bsize q"
  shows "sw_inv (swsr_reset startatlineend q) \<and> sw_items (swsr_reset startatlineend q) = []"
proof (rule sw_invI)
  show "sw_view (swsr_reset startatlineend q) = map Some [] @
      replicate (unat (bsize (swsr_reset startatlineend q)) - length []) None"
    by (simp add: sw_view_def swsr_reset_def Let_def view_replicate)
qed (use assms in \<open>simp_all add: swsr_reset_def Let_def word_less_nat_alt\<close>)

subsection \<open>The batch push\<close>

lemma fill_down_length [simp]: "length (fill_down b xs k l i) = length b"
  by (induction b xs k l i rule: fill_down.induct) auto

lemma fill_down_nth:
  "k \<le> l \<Longrightarrow> k \<le> i \<Longrightarrow> l < length b \<Longrightarrow> p < length b \<Longrightarrow>
    fill_down b xs k l i ! p = (if l - k \<le> p \<and> p \<le> l then Some (xs ! (i + p - l)) else b ! p)"
proof (induction b xs k l i rule: fill_down.induct)
  case (2 b xs k l i)
  have "fill_down b xs (Suc k) l i ! p =
      (if l - 1 - k \<le> p \<and> p \<le> l - 1 then Some (xs ! (i - 1 + p - (l - 1))) else (b[l := Some (xs ! i)]) ! p)"
    using "2.IH" "2.prems" by simp
  moreover have "i - 1 + p - (l - 1) = i + p - l" if "l - 1 - k \<le> p" using that "2.prems" by linarith
  moreover have "i + l - l = i" by simp
  ultimately show ?case using "2.prems" by (auto simp: nth_list_update)
qed (auto simp: nth_list_update)

lemma ring_offset:
  assumes "k \<le> n" and "0 < (n :: nat)"
  shows "((r + i) mod n + n - (r + k) mod n) mod n = (i + n - k) mod n"
proof -
  have "(r + k) mod n \<le> n" using assms(2) by (simp add: less_imp_le)
  then have "int (((r + i) mod n + n - (r + k) mod n) mod n) =
      ((int r + int i) mod int n + int n - (int r + int k) mod int n) mod int n"
    by (simp add: zmod_int of_nat_diff)
  also have "\<dots> = (int i - int k) mod int n"
  proof -
    let ?A = "int r + int i" and ?B = "int r + int k" and ?N = "int n"
    have "?A mod ?N + ?N - ?B mod ?N = (?A - ?B) + (1 - ?A div ?N + ?B div ?N) * ?N"
      by (simp add: minus_div_mult_eq_mod [symmetric] algebra_simps)
    then show ?thesis by simp
  qed
  also have "\<dots> = ((int i - int k) + int n) mod int n" by simp
  also have "\<dots> = int ((i + n - k) mod n)" using assms(1) by (simp add: zmod_int of_nat_diff algebra_simps)
  finally show ?thesis by simp
qed

text \<open>Writing a batch to the slots from the write position on appends it.\<close>

lemma sw_batch:
  assumes inv: "sw_inv q" and room: "length (sw_items q) + length xs \<le> unat (bsize q)"
    and b: "length b = unat (bsize q)" "\<And>p. p < unat (bsize q) \<Longrightarrow>
      b ! p = (let j = (p + unat (bsize q) - unat (pwrite q)) mod unat (bsize q) in
        if j < length xs then Some (xs ! j) else bbuf q ! p)"
    and w: "w < bsize q" "unat w = (unat (pwrite q) + length xs) mod unat (bsize q)"
  shows "sw_inv (q\<lparr>bbuf := b, multipush_buf := ms, pwrite := w\<rparr>) \<and>
    sw_items (q\<lparr>bbuf := b, multipush_buf := ms, pwrite := w\<rparr>) = sw_items q @ xs"
proof (rule sw_invI)
  let ?q = "q\<lparr>bbuf := b, multipush_buf := ms, pwrite := w\<rparr>" and ?n = "unat (bsize q)" and ?k = "length (sw_items q)"
  have I: "length (bbuf q) = ?n" "unat (pwrite q) = (unat (pread q) + ?k) mod ?n"
    using inv by (simp_all add: sw_inv_def)
  have n: "0 < ?n" by (rule sw_pos [OF inv])
  show "sw_view ?q = map Some (sw_items q @ xs) @ replicate (unat (bsize ?q) - length (sw_items q @ xs)) None"
  proof (rule nth_equalityI)
    fix i assume "i < length (sw_view ?q)"
    then have i: "i < ?n" by (simp add: sw_view_def b(1))
    let ?p = "(unat (pread q) + i) mod ?n"
    have j: "(?p + ?n - unat (pwrite q)) mod ?n = (if i < ?k then i + ?n - ?k else i - ?k)"
    proof (cases "i < ?k")
      case True
      then show ?thesis using ring_offset [of ?k ?n "unat (pread q)" i] sw_items_bound [OF inv] n I(2) by simp
    next
      case False
      then have "i + ?n - ?k = (i - ?k) + ?n" by simp
      then have "(i + ?n - ?k) mod ?n = i - ?k" using i by (simp only: mod_add_self2) simp
      then show ?thesis using False ring_offset [of ?k ?n "unat (pread q)" i] sw_items_bound [OF inv] n I(2) by simp
    qed
    have "sw_view ?q ! i = b ! ?p" using i b(1) by (simp add: sw_view_def nth_view)
    also have "\<dots> = (if ?k \<le> i \<and> i < ?k + length xs then Some (xs ! (i - ?k)) else bbuf q ! ?p)"
      using b(2) [of ?p] n j room i by (auto simp: Let_def)
    finally show "sw_view ?q ! i = (map Some (sw_items q @ xs) @ replicate (unat (bsize ?q) - length (sw_items q @ xs)) None) ! i"
      using sw_slot [OF inv i] i room by (auto simp: nth_append)
  qed (use b(1) room in \<open>simp add: sw_view_def\<close>)
  show "unat (pwrite ?q) = (unat (pread ?q) + length (sw_items q @ xs)) mod unat (bsize ?q)"
    using w(2) I(2) by (simp add: mod_add_left_eq add.assoc)
qed (use inv w b(1) in \<open>simp_all add: sw_inv_def\<close>)

text \<open>The index arithmetic of \<open>multipush\<close>, read as natural numbers.\<close>

lemma multipush_last:
  fixes pw n :: u64
  assumes "pw < n" and "0 < m" and "m < unat n" and "unat n < 2 ^ 63"
  shows "unat (pw + (if n \<le> pw + (of_nat m - 1) then of_nat m - 1 - n else of_nat m - 1)) = (unat pw + m - 1) mod unat n"
    and "n \<le> pw + (of_nat m - 1) \<longleftrightarrow> unat n \<le> unat pw + m - 1"
    and "unat (of_nat m - 1 :: u64) = m - 1"
proof -
  have l: "unat pw < unat n" using assms(1) by (simp add: word_less_nat_alt)
  show len: "unat (of_nat m - 1 :: u64) = m - 1"
  proof -
    have "(of_nat m - 1 :: u64) = of_nat (m - 1)" using assms(2) by (simp add: of_nat_diff)
    then show ?thesis using assms(3,4) by (simp add: unat_of_nat)
  qed
  have s: "unat (pw + (of_nat m - 1)) = unat pw + m - 1"
    using len l assms(2,3,4) by (simp add: unat_word_ariths)
  then show c: "n \<le> pw + (of_nat m - 1) \<longleftrightarrow> unat n \<le> unat pw + m - 1"
    by (simp add: word_le_nat_alt)
  show "unat (pw + (if n \<le> pw + (of_nat m - 1) then of_nat m - 1 - n else of_nat m - 1)) = (unat pw + m - 1) mod unat n"
  proof (cases "n \<le> pw + (of_nat m - 1)")
    case True
    have "unat (pw + (of_nat m - 1) - n) = unat pw + m - 1 - unat n"
      using s True by (simp add: unat_sub)
    moreover have e: "pw + (if n \<le> pw + (of_nat m - 1) then of_nat m - 1 - n else of_nat m - 1) = pw + (of_nat m - 1) - n"
      using True by (simp only: if_True add_diff_eq)
    moreover have "(unat pw + m - 1) mod unat n = unat pw + m - 1 - unat n"
    proof -
      have "unat pw + m - 1 = (unat pw + m - 1 - unat n) + unat n" using True c by simp
      then have "(unat pw + m - 1) mod unat n = (unat pw + m - 1 - unat n) mod unat n" by (metis mod_add_self2)
      then show ?thesis using l assms(3) by simp
    qed
    ultimately show ?thesis by (simp only: e)
  next
    case False
    then show ?thesis using s c by simp
  qed
qed

lemma swsr_multipush_ok:
  assumes inv: "sw_inv q" and xs: "xs \<noteq> []" "length xs < unat (bsize q)" "unat (bsize q) < 2 ^ 63"
  shows "if length (sw_items q) + length xs \<le> unat (bsize q)
    then fst (swsr_multipush q xs) \<and> sw_inv (snd (swsr_multipush q xs)) \<and>
      sw_items (snd (swsr_multipush q xs)) = sw_items q @ xs \<and>
      bsize (snd (swsr_multipush q xs)) = bsize q \<and> multipush_buf (snd (swsr_multipush q xs)) = []
    else swsr_multipush q xs = (False, q)"
proof -
  let ?n = "unat (bsize q)" and ?w = "unat (pwrite q)" and ?m = "length xs" and ?k = "length (sw_items q)"
  have m: "0 < ?m" using xs(1) by simp
  have pw: "pwrite q < bsize q" "?w < ?n" and lb: "length (bbuf q) = ?n" and wk: "?w = (unat (pread q) + ?k) mod ?n"
    using inv by (simp_all add: sw_inv_def word_less_nat_alt)
  have small: "\<not> bsize q \<le> of_nat ?m" using xs by (simp add: word_le_nat_alt unat_of_nat)
  define len where "len = (of_nat ?m - 1 :: u64)"
  define last where "last = pwrite q + (if bsize q \<le> pwrite q + len then len - bsize q else len)"
  have L: "unat last = (?w + ?m - 1) mod ?n" "bsize q \<le> pwrite q + len \<longleftrightarrow> ?n \<le> ?w + ?m - 1" "unat len = ?m - 1"
    using multipush_last [OF pw(1) m xs(2,3)] unfolding last_def len_def by simp_all
  have idx: "unat last = (unat (pread q) + (?k + ?m - 1)) mod ?n"
  proof -
    have "?w + ?m - 1 = ?w + (?m - 1)" using m by linarith
    then have "unat last = (?w + (?m - 1)) mod ?n" using L(1) by (simp only:)
    also have "\<dots> = (unat (pread q) + ?k + (?m - 1)) mod ?n" unfolding wk by (simp add: mod_add_left_eq)
    also have "unat (pread q) + ?k + (?m - 1) = unat (pread q) + (?k + ?m - 1)" using m by linarith
    finally show ?thesis .
  qed
  have last_n: "last < bsize q" using L(1) pw(2) by (simp add: word_less_nat_alt)
  have free: "slot q last = None \<longleftrightarrow> ?k + ?m \<le> ?n"
  proof (cases "?k + ?m \<le> ?n")
    case True
    then have i: "?k + ?m - 1 < ?n" "\<not> ?k + ?m - 1 < ?k" using m by linarith+
    have "bbuf q ! unat last = None" using sw_slot [OF inv i(1)] i(2) unfolding idx by (simp only: if_False)
    then show ?thesis using True by (simp add: slot_def)
  next
    case False
    have k: "?k \<le> ?n" by (rule sw_items_bound [OF inv])
    have e: "?k + ?m - 1 = (?k + ?m - 1 - ?n) + ?n" using False by simp
    then have "unat last = (unat (pread q) + (?k + ?m - 1 - ?n)) mod ?n"
      unfolding idx by (metis add.assoc mod_add_self2)
    then show ?thesis using sw_slot [OF inv, of "?k + ?m - 1 - ?n"] False k xs(2) by (simp add: slot_def)
  qed
  show ?thesis
  proof (cases "?k + ?m \<le> ?n")
    case False
    then show ?thesis using free small
      by (simp add: swsr_multipush_def Let_def len_def [symmetric] last_def [symmetric])
  next
    case True
    define w' where "w' = (if bsize q \<le> last + 1 then 0 else last + 1)"
    have u1: "unat (last + 1) = Suc (unat last)"
      using last_n xs(3) by (simp add: word_less_nat_alt unat_word_ariths)
    have w': "unat w' = (?w + ?m) mod ?n"
    proof -
      have "(?w + ?m) mod ?n = Suc (unat last) mod ?n"
        unfolding L(1) using m by (simp add: mod_Suc_eq)
      then show ?thesis using u1 last_n unfolding w'_def
        by (auto simp: word_le_nat_alt word_less_nat_alt mod_Suc)
    qed
    have w'n: "w' < bsize q" using w' pw(2) by (simp add: word_less_nat_alt)
    define b where "b = (if last < pwrite q then fill_down (fill_down (bbuf q) xs (unat last) (unat last) (unat len))
        xs (unat (bsize q - 1 - pwrite q)) (unat (bsize q - 1)) (unat (len - (last + 1)))
      else fill_down (bbuf q) xs (unat len) (unat (pwrite q + len)) (unat len))"
    have res: "swsr_multipush q xs = (True, q\<lparr>bbuf := b, multipush_buf := [], pwrite := w'\<rparr>)"
      using small free True
      by (simp add: swsr_multipush_def Let_def len_def [symmetric] last_def [symmetric] w'_def b_def)
    have at: "b ! p = (let j = (p + ?n - ?w) mod ?n in if j < ?m then Some (xs ! j) else bbuf q ! p)" if p: "p < ?n" for p
    proof (cases "last < pwrite q")
      case wrap: True
      then have lt: "unat last < ?w" by (simp add: word_less_nat_alt)
      have ge: "?n \<le> ?w + ?m - 1"
      proof (rule ccontr)
        assume "\<not> ?thesis"
        then have "unat last = ?w + ?m - 1" using L(1) by simp
        then show False using lt m by linarith
      qed
      have ul: "unat last = ?w + ?m - 1 - ?n"
      proof -
        have "?w + ?m - 1 = (?w + ?m - 1 - ?n) + ?n" using ge by simp
        then have "(?w + ?m - 1) mod ?n = (?w + ?m - 1 - ?n) mod ?n" by (metis mod_add_self2)
        then show ?thesis using L(1) pw(2) xs(2) by simp
      qed
      have n1: "unat (bsize q - 1) = ?n - 1"
        using pw(2) by (simp add: unat_sub word_le_nat_alt)
      have r: "unat (len - (last + 1)) = ?n - 1 - ?w"
      proof -
        have "last + 1 \<le> len" unfolding word_le_nat_alt u1 L(3) ul using ge m pw(2) by linarith
        from unat_sub [OF this] show ?thesis unfolding u1 L(3) ul using ge m pw(2) by linarith
      qed
      have c: "unat (bsize q - 1 - pwrite q) = ?n - 1 - ?w"
        using n1 pw(2) by (simp add: unat_sub word_le_nat_alt)
      have pn: "p \<le> ?n - 1" using p by linarith
      have "b ! p = (if ?w \<le> p then Some (xs ! (p - ?w))
          else if p \<le> unat last then Some (xs ! (p + ?m - 1 - unat last)) else bbuf q ! p)"
        using wrap pn p pw(2) lb ul ge lt L(3) xs(2) m unfolding b_def n1 r c
        by (simp add: fill_down_nth)
      moreover have "(p + ?n - ?w) mod ?n = (if ?w \<le> p then p - ?w else p + ?n - ?w)"
      proof (cases "?w \<le> p")
        case True
        then have "p + ?n - ?w = (p - ?w) + ?n" by simp
        then show ?thesis using p True by (simp only: mod_add_self2) simp
      next
        case False
        then show ?thesis using pw(2) by simp
      qed
      moreover have "p + ?m - 1 - unat last = p + ?n - ?w" using ul ge m by linarith
      ultimately show ?thesis using p ul ge lt pw(2) xs(2) m by (auto simp: Let_def)
    next
      case flat: False
      have lt: "?w + ?m - 1 < ?n"
      proof (rule ccontr)
        assume ge: "\<not> ?thesis"
        from ge have "?w + ?m - 1 = (?w + ?m - 1 - ?n) + ?n" by linarith
        then have "unat last = (?w + ?m - 1 - ?n) mod ?n" using L(1) by (metis mod_add_self2)
        moreover have "?w + ?m - 1 - ?n < ?n" using pw(2) xs(2) by linarith
        ultimately have "unat last = ?w + ?m - 1 - ?n" by simp
        moreover have "?w \<le> unat last" using flat by (simp add: word_less_nat_alt)
        ultimately show False using ge pw(2) xs(2) by linarith
      qed
      have pl: "unat (pwrite q + len) = ?w + ?m - 1"
      proof -
        have "?w + (?m - 1) = ?w + ?m - 1" using m by linarith
        then show ?thesis using L(3) lt xs(3) by (simp only: unat_word_ariths) simp
      qed
      have "b ! p = (if ?w \<le> p \<and> p \<le> ?w + ?m - 1 then Some (xs ! (p - ?w)) else bbuf q ! p)"
      proof -
        have "?m - 1 + p - (?w + ?m - 1) = p - ?w" "?w + ?m - 1 - (?m - 1) = ?w" using m by linarith+
        then show ?thesis
          using flat p lb lt L(3) unfolding b_def pl L(3) by (simp add: fill_down_nth)
      qed
      moreover have "(p + ?n - ?w) mod ?n = (if ?w \<le> p then p - ?w else p + ?n - ?w)"
      proof (cases "?w \<le> p")
        case True
        then have "p + ?n - ?w = (p - ?w) + ?n" by simp
        then show ?thesis using p True by (simp only: mod_add_self2) simp
      next
        case False
        then show ?thesis using pw(2) by simp
      qed
      moreover have "?w \<le> p \<Longrightarrow> (p \<le> ?w + ?m - 1) = (p - ?w < ?m)" using m by linarith
      moreover have "\<not> ?w \<le> p \<Longrightarrow> \<not> p + ?n - ?w < ?m" using lt pw(2) m by linarith
      ultimately show ?thesis by (cases "?w \<le> p") (simp_all add: Let_def)
    qed
    have "length b = ?n" using lb by (simp add: b_def)
    from sw_batch [OF inv True this at w'n w', of "[]"] show ?thesis
      using True res by (simp add: add.commute)
  qed
qed

subsection \<open>One producer and one consumer, interleaved\<close>

text \<open>
  The memory accesses of \<open>push\<close> and \<open>pop\<close> as steps of their own, in program order: the producer
  tests the slot at \<open>pwrite\<close>, stores the element there and advances \<open>pwrite\<close>; the consumer tests
  the slot at \<open>pread\<close>, loads it, clears it and advances \<open>pread\<close>. Memory is sequentially
  consistent. \<open>pushed\<close> and \<open>popped\<close> record the completed calls.
\<close>

datatype 'a prod_pc = PIdle | PTested 'a | PStored
datatype 'a cons_pc = CIdle | CTested | CLoaded 'a | CCleared 'a

record 'a spsc =
  sq :: "'a swsr"
  ppc :: "'a prod_pc"
  cpc :: "'a cons_pc"
  pushed :: "'a list"
  popped :: "'a list"

inductive spsc_step :: "'a spsc \<Rightarrow> 'a spsc \<Rightarrow> bool" where
  p_full: "ppc s = PIdle \<Longrightarrow> \<not> swsr_available (sq s) \<Longrightarrow> spsc_step s s"
| p_test: "ppc s = PIdle \<Longrightarrow> swsr_available (sq s) \<Longrightarrow> spsc_step s (s\<lparr>ppc := PTested x\<rparr>)"
| p_store: "ppc s = PTested x \<Longrightarrow> spsc_step s (s\<lparr>ppc := PStored,
    sq := (sq s)\<lparr>bbuf := (bbuf (sq s))[unat (pwrite (sq s)) := Some x]\<rparr>, pushed := pushed s @ [x]\<rparr>)"
| p_advance: "ppc s = PStored \<Longrightarrow> spsc_step s (s\<lparr>ppc := PIdle,
    sq := (sq s)\<lparr>pwrite := next_pos (bsize (sq s)) (pwrite (sq s))\<rparr>\<rparr>)"
| c_empty: "cpc s = CIdle \<Longrightarrow> swsr_empty (sq s) \<Longrightarrow> spsc_step s s"
| c_test: "cpc s = CIdle \<Longrightarrow> \<not> swsr_empty (sq s) \<Longrightarrow> spsc_step s (s\<lparr>cpc := CTested\<rparr>)"
| c_load: "cpc s = CTested \<Longrightarrow> swsr_top (sq s) = Some x \<Longrightarrow> spsc_step s (s\<lparr>cpc := CLoaded x\<rparr>)"
| c_clear: "cpc s = CLoaded x \<Longrightarrow> spsc_step s (s\<lparr>cpc := CCleared x,
    sq := (sq s)\<lparr>bbuf := (bbuf (sq s))[unat (pread (sq s)) := None]\<rparr>, popped := popped s @ [x]\<rparr>)"
| c_advance: "cpc s = CCleared x \<Longrightarrow> spsc_step s (s\<lparr>cpc := CIdle,
    sq := (sq s)\<lparr>pread := next_pos (bsize (sq s)) (pread (sq s))\<rparr>\<rparr>)"

definition spsc_start :: "'a swsr \<Rightarrow> 'a spsc" where
  "spsc_start q = \<lparr>sq = q, ppc = PIdle, cpc = CIdle, pushed = [], popped = []\<rparr>"

text \<open>The buffer as it is once the calls under way have advanced their positions.\<close>

definition settle :: "'a spsc \<Rightarrow> 'a swsr" where
  "settle s = (sq s)
     \<lparr>pwrite := (if ppc s = PStored then next_pos (bsize (sq s)) (pwrite (sq s)) else pwrite (sq s)),
      pread := (case cpc s of CCleared x \<Rightarrow> next_pos (bsize (sq s)) (pread (sq s)) | _ \<Rightarrow> pread (sq s))\<rparr>"

definition spsc_inv :: "'a spsc \<Rightarrow> bool" where
  "spsc_inv s \<longleftrightarrow> sw_inv (settle s) \<and> pread (sq s) < bsize (sq s) \<and> pwrite (sq s) < bsize (sq s) \<and>
     pushed s = popped s @ sw_items (settle s) \<and>
     (\<forall>x. ppc s = PTested x \<longrightarrow> swsr_available (settle s)) \<and>
     (cpc s = CTested \<longrightarrow> \<not> swsr_empty (settle s)) \<and>
     (\<forall>x. cpc s = CLoaded x \<longrightarrow> \<not> swsr_empty (settle s) \<and> swsr_top (settle s) = Some x)"

lemma spsc_start_inv: "sw_inv q \<Longrightarrow> sw_items q = [] \<Longrightarrow> spsc_inv (spsc_start q)"
  by (simp add: spsc_inv_def spsc_start_def settle_def sw_inv_def)

text \<open>
  The store is the moment a push takes effect, the clearing the moment a pop does: on the
  settled buffer these two steps are exactly \<open>push\<close> and \<open>pop\<close>, all others change nothing.
\<close>

lemma swsr_push_top: "sw_inv q \<Longrightarrow> \<not> swsr_empty q \<Longrightarrow>
    \<not> swsr_empty (snd (swsr_push q x)) \<and> swsr_top (snd (swsr_push q x)) = swsr_top q"
  by (cases "unat (pwrite q) = unat (pread q)")
    (auto simp: swsr_push_def swsr_empty_def swsr_top_def swsr_available_def slot_def)

lemma swsr_pop_available: "sw_inv q \<Longrightarrow> swsr_available q \<Longrightarrow> swsr_available (snd (swsr_pop q))"
  by (cases "unat (pwrite q) = unat (pread q)")
    (auto simp: swsr_pop_def swsr_inc_def swsr_empty_def swsr_available_def slot_def)

lemma settle_store:
  "ppc s = PTested x \<Longrightarrow> swsr_available (settle s) \<Longrightarrow>
    settle (s\<lparr>ppc := PStored, sq := (sq s)\<lparr>bbuf := (bbuf (sq s))[unat (pwrite (sq s)) := Some x]\<rparr>, pushed := ps\<rparr>) =
      snd (swsr_push (settle s) x)"
  by (cases "cpc s") (simp_all add: settle_def swsr_push_def swsr_available_def slot_def)

lemma settle_clear:
  "cpc s = CLoaded x \<Longrightarrow> \<not> swsr_empty (settle s) \<Longrightarrow>
    settle (s\<lparr>cpc := CCleared x, sq := (sq s)\<lparr>bbuf := (bbuf (sq s))[unat (pread (sq s)) := None]\<rparr>, popped := ps\<rparr>) =
      snd (swsr_pop (settle s))"
  by (cases "ppc s") (auto simp: settle_def swsr_pop_def swsr_inc_def swsr_empty_def slot_def)

lemma settle_fields [simp]:
  "bbuf (settle s) = bbuf (sq s)" "bsize (settle s) = bsize (sq s)"
  by (simp_all add: settle_def)

lemma settle_test:
  "ppc s = PIdle \<Longrightarrow> settle (s\<lparr>ppc := PTested x\<rparr>) = settle s"
  "cpc s = CIdle \<Longrightarrow> settle (s\<lparr>cpc := CTested\<rparr>) = settle s"
  "cpc s = CTested \<Longrightarrow> settle (s\<lparr>cpc := CLoaded x\<rparr>) = settle s"
  by (cases "cpc s"; simp add: settle_def)+

lemma settle_slots:
  "ppc s = PIdle \<Longrightarrow> swsr_available (settle s) = swsr_available (sq s)"
  "cpc s = CIdle \<or> cpc s = CTested \<Longrightarrow> swsr_empty (settle s) = swsr_empty (sq s)"
  "cpc s = CIdle \<or> cpc s = CTested \<Longrightarrow> swsr_top (settle s) = swsr_top (sq s)"
  by (auto simp: settle_def swsr_available_def swsr_empty_def swsr_top_def slot_def)

lemma spsc_step_inv:
  assumes "spsc_step s t" and inv: "spsc_inv s"
  shows "spsc_inv t"
  using assms(1)
proof cases
  case p_full
  then show ?thesis using inv by simp
next
  case (p_test x)
  then show ?thesis using inv by (auto simp: spsc_inv_def settle_test settle_slots)
next
  case (p_store x)
  have av: "swsr_available (settle s)" and I: "sw_inv (settle s)" using inv p_store(2) by (auto simp: spsc_inv_def)
  have set: "settle t = snd (swsr_push (settle s) x)"
    unfolding p_store(1) by (rule settle_store [OF p_store(2) av])
  have push: "sw_inv (settle t)" "sw_items (settle t) = sw_items (settle s) @ [x]"
    using swsr_push_room [OF I, of x] swsr_available_iff [OF I] av by (auto simp: set)
  show ?thesis
    using inv push swsr_push_top [OF I, of x] unfolding spsc_inv_def set
    by (auto simp: p_store(1))
next
  case p_advance
  have "settle t = settle s" using p_advance by (cases "cpc s") (simp_all add: settle_def)
  then show ?thesis using inv p_advance(1) next_pos_less by (auto simp: spsc_inv_def)
next
  case c_empty
  then show ?thesis using inv by simp
next
  case c_test
  then show ?thesis using inv by (auto simp: spsc_inv_def settle_test settle_slots)
next
  case (c_load x)
  then show ?thesis using inv by (auto simp: spsc_inv_def settle_test settle_slots)
next
  case (c_clear x)
  have ne: "\<not> swsr_empty (settle s)" "swsr_top (settle s) = Some x" and I: "sw_inv (settle s)"
    using inv c_clear(2) by (auto simp: spsc_inv_def)
  have set: "settle t = snd (swsr_pop (settle s))"
    unfolding c_clear(1) by (rule settle_clear [OF c_clear(2) ne(1)])
  obtain y ys where y: "sw_items (settle s) = y # ys"
    using swsr_empty_iff [OF I] ne(1) by (cases "sw_items (settle s)") auto
  have pop: "fst (swsr_pop (settle s)) = Some y" "sw_inv (settle t)" "sw_items (settle t) = ys"
    using swsr_pop_Cons [OF I y] by (auto simp: set)
  then have "y = x" using ne by (simp add: swsr_pop_def)
  then show ?thesis
    using inv pop y swsr_pop_available [OF I] unfolding spsc_inv_def set
    by (auto simp: c_clear(1))
next
  case (c_advance x)
  have "settle t = settle s" using c_advance by (cases "ppc s") (simp_all add: settle_def)
  then show ?thesis using inv c_advance(1) next_pos_less by (auto simp: spsc_inv_def)
qed

lemma spsc_reach_inv: "spsc_step\<^sup>*\<^sup>* s t \<Longrightarrow> spsc_inv s \<Longrightarrow> spsc_inv t"
  by (induction rule: rtranclp_induct) (auto dest: spsc_step_inv)

subsection \<open>The length\<close>

lemma swsr_length_items:
  assumes inv: "sw_inv q" and n: "unat (bsize q) < 2 ^ 63"
  shows "unat (swsr_length q) = length (sw_items q)"
proof -
  let ?r = "unat (pread q)" and ?w = "unat (pwrite q)" and ?n = "unat (bsize q)" and ?k = "length (sw_items q)"
  have l: "?r < ?n" "?w < ?n" and w: "?w = (?r + ?k) mod ?n" and k: "?k \<le> ?n"
    using inv sw_items_bound [OF inv] by (simp_all add: sw_inv_def word_less_nat_alt)
  have s: "sint (pwrite q - pread q) = uint (pwrite q) - uint (pread q)" using l n by (intro sint_diff_small) auto
  have sg: "0 <s pwrite q - pread q \<longleftrightarrow> ?r < ?w" "pwrite q - pread q <s 0 \<longleftrightarrow> ?w < ?r"
    unfolding word_sless_alt s by (simp_all add: word_less_nat_alt [symmetric] word_less_def)
  have wk: "?w = (if ?r + ?k < ?n then ?r + ?k else ?r + ?k - ?n)"
  proof (cases "?r + ?k < ?n")
    case False
    then have "?r + ?k = (?r + ?k - ?n) + ?n" by linarith
    then have "(?r + ?k) mod ?n = (?r + ?k - ?n) mod ?n" by (metis mod_add_self2)
    moreover have "?r + ?k - ?n < ?n" using l(1) k by linarith
    ultimately show ?thesis using False w by simp
  qed (use w in simp)
  consider (pos) "?r < ?w" | (neg) "?w < ?r" | (zero) "?r = ?w" by linarith
  then show ?thesis
  proof cases
    case pos
    then have "?k = ?w - ?r" using wk l k by (auto split: if_splits)
    then show ?thesis using pos sg by (simp add: swsr_length_def unat_sub word_le_nat_alt Let_def)
  next
    case neg
    then have kk: "?k = ?n - ?r + ?w" using wk l k by (auto split: if_splits)
    have e: "bsize q + (pwrite q - pread q) = (bsize q - pread q) + pwrite q" by simp
    have u: "unat (bsize q - pread q) = ?n - ?r" using l by (simp add: unat_sub word_le_nat_alt)
    have "unat (bsize q + (pwrite q - pread q)) = (?n - ?r + ?w) mod 2 ^ LENGTH(64)"
      unfolding e unat_word_ariths u ..
    also have "\<dots> = ?n - ?r + ?w"
    proof -
      have "?n - ?r + ?w < ?n" using neg l by linarith
      then show ?thesis using n by simp
    qed
    finally have "unat (bsize q + (pwrite q - pread q)) = ?n - ?r + ?w" .
    then show ?thesis using neg sg kk by (simp add: swsr_length_def Let_def)
  next
    case zero
    then have "?k = 0 \<or> ?k = ?n" using wk l k by (auto split: if_splits)
    moreover have "slot q (pwrite q) = None \<longleftrightarrow> ?k < ?n"
      using swsr_available_iff [OF inv] by (simp add: swsr_available_def)
    ultimately show ?thesis using zero sg l(1) by (auto simp: swsr_length_def Let_def)
  qed
qed

subsection \<open>Lamport's buffer\<close>

record 'a lamport =
  lread :: u64
  lwrite :: u64
  lsize :: u64
  lbuf :: "'a option list"

definition Lamport_Buffer :: "u64 \<Rightarrow> 'a lamport" where
  "Lamport_Buffer n = \<lparr>lread = 0, lwrite = 0, lsize = n, lbuf = []\<rparr>"

definition lamport_reset :: "'a lamport \<Rightarrow> 'a lamport" where
  "lamport_reset q = q\<lparr>lread := 0, lwrite := 0, lbuf := replicate (unat (lsize q)) None\<rparr>"

definition lamport_init :: "bool \<Rightarrow> 'a lamport \<Rightarrow> err + (bool \<times> 'a lamport)" where
  "lamport_init alloc_ok q =
     (if lbuf q = [] then Inl AssertFailed
      else if \<not> alloc_ok then Inr (False, q\<lparr>lbuf := []\<rparr>)
      else Inr (True, lamport_reset q))"

definition lamport_empty :: "'a lamport \<Rightarrow> bool" where
  "lamport_empty q \<longleftrightarrow> lwrite q = lread q"

definition lamport_available :: "'a lamport \<Rightarrow> bool" where
  "lamport_available q \<longleftrightarrow> next_pos (lsize q) (lwrite q) \<noteq> lread q"

definition lamport_push :: "'a lamport \<Rightarrow> 'a \<Rightarrow> bool \<times> 'a lamport" where
  "lamport_push q x =
     (let next = next_pos (lsize q) (lwrite q) in
      if next \<noteq> lread q then (True, q\<lparr>lbuf := (lbuf q)[unat (lwrite q) := Some x], lwrite := next\<rparr>)
      else (False, q))"

definition lamport_pop :: "'a lamport \<Rightarrow> 'a option \<times> 'a lamport" where
  "lamport_pop q =
     (if lamport_empty q then (None, q)
      else (lbuf q ! unat (lread q), q\<lparr>lread := next_pos (lsize q) (lread q)\<rparr>))"

definition lamport_length :: "'a lamport \<Rightarrow> u64" where
  "lamport_length q =
     (let len = lwrite q - lread q in
      if 0 <s len then len
      else if len <s 0 then lsize q + len
      else if lbuf q ! unat (lwrite q) = None then 0 else lsize q)"

definition la_count :: "'a lamport \<Rightarrow> nat" where
  "la_count q = (unat (lwrite q) + unat (lsize q) - unat (lread q)) mod unat (lsize q)"

definition la_items :: "'a lamport \<Rightarrow> 'a list" where
  "la_items q = map the (ring_seg (lbuf q) (unat (lread q)) (la_count q))"

definition la_capacity :: "'a lamport \<Rightarrow> nat" where
  "la_capacity q = unat (lsize q) - 1"

definition la_inv :: "'a lamport \<Rightarrow> bool" where
  "la_inv q \<longleftrightarrow> length (lbuf q) = unat (lsize q) \<and> lread q < lsize q \<and> lwrite q < lsize q \<and>
     None \<notin> set (ring_seg (lbuf q) (unat (lread q)) (la_count q))"

lemma la_write:
  assumes "la_inv q"
  shows "unat (lwrite q) = (unat (lread q) + la_count q) mod unat (lsize q)" and "la_count q < unat (lsize q)"
proof -
  let ?r = "unat (lread q)" and ?w = "unat (lwrite q)" and ?n = "unat (lsize q)"
  have l: "?r < ?n" "?w < ?n" using assms by (simp_all add: la_inv_def word_less_nat_alt)
  have "(?r + la_count q) mod ?n = (?r + (?w + ?n - ?r)) mod ?n"
    unfolding la_count_def by (rule mod_add_right_eq)
  also have "?r + (?w + ?n - ?r) = ?w + ?n" using l(1) by linarith
  finally show "?w = (?r + la_count q) mod ?n" using l(2) by simp
  show "la_count q < ?n" using l by (simp add: la_count_def)
qed

lemma la_countI:
  assumes "w < n" and "r < n" and "w = (r + k) mod n" and "k < (n :: nat)"
  shows "(w + n - r) mod n = k"
  using ring_offset [of 0 n r k] assms by simp

lemma la_items_length [simp]: "length (la_items q) = la_count q"
  by (simp add: la_items_def ring_simps)

lemma lamport_empty_iff: "la_inv q \<Longrightarrow> lamport_empty q \<longleftrightarrow> la_items q = []"
proof -
  assume inv: "la_inv q"
  have l: "unat (lread q) < unat (lsize q)" using inv by (simp add: la_inv_def word_less_nat_alt)
  have "la_items q = [] \<longleftrightarrow> la_count q = 0" using la_items_length [of q] by (metis length_0_conv)
  also have "\<dots> \<longleftrightarrow> unat (lwrite q) = unat (lread q)"
    using la_write(1) [OF inv] l by (auto simp: la_count_def)
  finally show ?thesis by (auto simp: lamport_empty_def word_unat_eq_iff)
qed

lemma lamport_available_iff: "la_inv q \<Longrightarrow> lamport_available q \<longleftrightarrow> la_count q < la_capacity q"
proof -
  assume inv: "la_inv q"
  let ?r = "unat (lread q)" and ?n = "unat (lsize q)" and ?k = "la_count q"
  have l: "?r < ?n" "lwrite q < lsize q" using inv by (simp_all add: la_inv_def word_less_nat_alt)
  have "unat (next_pos (lsize q) (lwrite q)) = (?r + Suc ?k) mod ?n"
    using next_pos_unat [OF l(2)] la_write(1) [OF inv] by (simp add: mod_Suc_eq)
  moreover have "(?r + Suc ?k) mod ?n = ?r \<longleftrightarrow> Suc ?k = ?n"
  proof
    assume a: "(?r + Suc ?k) mod ?n = ?r"
    then have "(?r + Suc ?k) mod ?n = (?r + 0) mod ?n" using l(1) by simp
    then have "\<not> Suc ?k < ?n" using mod_shift_inj [of ?r "Suc ?k" ?n 0] l(1) by auto
    then show "Suc ?k = ?n" using la_write(2) [OF inv] by simp
  next
    assume "Suc ?k = ?n"
    then show "(?r + Suc ?k) mod ?n = ?r" using l(1) by simp
  qed
  ultimately show ?thesis
    using la_write(2) [OF inv] by (auto simp: lamport_available_def la_capacity_def word_unat_eq_iff)
qed

lemma lamport_push_room:
  assumes inv: "la_inv q" and room: "la_count q < la_capacity q"
  shows "fst (lamport_push q x) \<and> la_inv (snd (lamport_push q x)) \<and>
    la_items (snd (lamport_push q x)) = la_items q @ [x] \<and> lsize (snd (lamport_push q x)) = lsize q"
proof -
  let ?r = "unat (lread q)" and ?n = "unat (lsize q)" and ?k = "la_count q"
  let ?q = "q\<lparr>lbuf := (lbuf q)[unat (lwrite q) := Some x], lwrite := next_pos (lsize q) (lwrite q)\<rparr>"
  have I: "length (lbuf q) = ?n" "?r < ?n" "lwrite q < lsize q"
    "None \<notin> set (ring_seg (lbuf q) ?r ?k)"
    using inv by (simp_all add: la_inv_def word_less_nat_alt)
  note w = la_write [OF inv]
  have nx: "unat (next_pos (lsize q) (lwrite q)) = (?r + Suc ?k) mod ?n"
    using next_pos_unat [OF I(3)] w(1) by (simp add: mod_Suc_eq)
  have "unat (next_pos (lsize q) (lwrite q)) < ?n"
    using next_pos_less [OF I(3)] by (simp add: word_less_nat_alt)
  then have c: "la_count ?q = Suc ?k"
    using la_countI [OF _ I(2) nx] room by (simp add: la_count_def [of ?q] la_capacity_def)
  have "ring_seg (lbuf ?q) ?r (Suc ?k) = ring_seg (lbuf q) ?r ?k @ [Some x]"
    using ring_seg_push [of ?k "lbuf q" ?r "Some x"] w I(1) by simp
  then have "la_inv ?q \<and> la_items ?q = la_items q @ [x]"
    using I c inv next_pos_less [OF I(3)] by (simp add: la_inv_def la_items_def)
  then show ?thesis
    using lamport_available_iff [OF inv] room by (simp add: lamport_push_def lamport_available_def Let_def)
qed

lemma lamport_pop_Cons:
  assumes inv: "la_inv q" and xs: "la_items q = x # xs"
  shows "fst (lamport_pop q) = Some x \<and> la_inv (snd (lamport_pop q)) \<and> la_items (snd (lamport_pop q)) = xs \<and>
    lsize (snd (lamport_pop q)) = lsize q"
proof -
  let ?r = "unat (lread q)" and ?n = "unat (lsize q)"
  let ?q = "q\<lparr>lread := next_pos (lsize q) (lread q)\<rparr>"
  obtain k where k: "la_count q = Suc k" using xs la_items_length [of q] by (cases "la_count q") auto
  have I: "length (lbuf q) = ?n" "?r < ?n" "lread q < lsize q" "unat (lwrite q) < ?n"
    "None \<notin> set (ring_seg (lbuf q) ?r (Suc k))"
    using inv k by (simp_all add: la_inv_def word_less_nat_alt)
  note w = la_write [OF inv]
  have nx: "unat (next_pos (lsize q) (lread q)) = Suc ?r mod ?n" by (rule next_pos_unat [OF I(3)])
  have nl: "unat (next_pos (lsize q) (lread q)) < ?n"
    using next_pos_less [OF I(3)] by (simp add: word_less_nat_alt)
  have "unat (lwrite q) = (unat (next_pos (lsize q) (lread q)) + k) mod ?n"
    using w(1) k nx by (simp add: mod_add_left_eq)
  then have c: "la_count ?q = k"
    using la_countI [OF I(4) nl] w(2) k by (simp add: la_count_def [of ?q])
  have seg: "ring_seg (lbuf q) ?r (Suc k) = lbuf q ! ?r # ring_seg (lbuf q) (Suc ?r) k"
    using ring_seg_Cons [of "lbuf q" ?r k] I(1,2) by simp
  have seg': "ring_seg (lbuf ?q) (unat (lread ?q)) k = ring_seg (lbuf q) (Suc ?r) k"
    using ring_seg_mod [of "lbuf q" "Suc ?r" k] I(1) nx by simp
  obtain y where y: "lbuf q ! ?r = Some y" using I(5) seg by (cases "lbuf q ! ?r") auto
  then have "x = y" "xs = map the (ring_seg (lbuf q) (Suc ?r) k)"
    using xs seg k by (simp_all add: la_items_def)
  moreover have "la_inv ?q"
    using inv I(5) seg seg' c next_pos_less [OF I(3)] by (simp add: la_inv_def)
  moreover have "\<not> lamport_empty q" using lamport_empty_iff [OF inv] xs by simp
  ultimately show ?thesis using y seg' c by (simp add: lamport_pop_def la_items_def [of ?q])
qed

lemma lamport_push_full: "la_inv q \<Longrightarrow> \<not> la_count q < la_capacity q \<Longrightarrow> lamport_push q x = (False, q)"
  using lamport_available_iff [of q] by (simp add: lamport_push_def lamport_available_def Let_def)

interpretation la: bounded_fifo lamport_push lamport_pop la_items la_capacity la_inv
proof unfold_locales
  fix q :: "'a lamport" and x
  assume inv: "la_inv q"
  show "length (la_items q) \<le> la_capacity q"
    using la_write(2) [OF inv] by (simp add: la_capacity_def)
  show "la_inv (snd (lamport_push q x)) \<and> la_capacity (snd (lamport_push q x)) = la_capacity q"
    using lamport_push_room [OF inv, of x] lamport_push_full [OF inv, of x] inv
    by (cases "la_count q < la_capacity q") (simp_all add: la_capacity_def)
  show "la_inv (snd (lamport_pop q)) \<and> la_capacity (snd (lamport_pop q)) = la_capacity q"
  proof (cases "la_items q")
    case Nil
    then show ?thesis using lamport_empty_iff [OF inv] inv by (simp add: lamport_pop_def)
  next
    case (Cons y ys)
    then show ?thesis using lamport_pop_Cons [OF inv Cons] by (simp add: la_capacity_def)
  qed
next
  fix q :: "'a lamport" and x
  assume "la_inv q" and "length (la_items q) < la_capacity q"
  then show "fst (lamport_push q x) \<and> la_items (snd (lamport_push q x)) = la_items q @ [x]"
    using lamport_push_room [of q x] by simp
next
  fix q :: "'a lamport" and x
  assume inv: "la_inv q" and "length (la_items q) = la_capacity q"
  then show "lamport_push q x = (False, q)" using lamport_push_full [OF inv] by simp
next
  fix q :: "'a lamport"
  assume inv: "la_inv q" and "la_items q = []"
  then show "lamport_pop q = (None, q)" using lamport_empty_iff [OF inv] by (simp add: lamport_pop_def)
next
  fix q :: "'a lamport" and x xs
  assume "la_inv q" and "la_items q = x # xs"
  from lamport_pop_Cons [OF this] show "fst (lamport_pop q) = Some x \<and> la_items (snd (lamport_pop q)) = xs"
    by simp
qed


subsection \<open>Properties\<close>

text \<open>
  C15. One producer thread and one consumer thread, stepping in any order between their memory
  accesses: what has been taken out is always a prefix of what was put in, the consumer never
  loads an empty slot, at most the size of the buffer is in flight, and when both are idle the
  buffer holds exactly the rest.
\<close>

theorem swsr_spsc_fifo:
  assumes "sw_inv q" and "sw_items q = []" and "spsc_step\<^sup>*\<^sup>* (spsc_start q) t"
  shows "\<exists>rest. pushed t = popped t @ rest \<and> length rest \<le> unat (bsize (sq t)) \<and>
    (cpc t = CTested \<longrightarrow> swsr_top (sq t) \<noteq> None) \<and>
    (ppc t = PIdle \<longrightarrow> cpc t = CIdle \<longrightarrow> sw_inv (sq t) \<and> sw_items (sq t) = rest)"
proof -
  have inv: "spsc_inv t"
    using spsc_reach_inv [OF assms(3)] spsc_start_inv [OF assms(1,2)] by blast
  then have "length (sw_items (settle t)) \<le> unat (bsize (sq t))"
    using sw_items_bound [of "settle t"] by (simp add: spsc_inv_def)
  moreover have "swsr_top (sq t) \<noteq> None" if "cpc t = CTested"
    using inv that settle_slots(2,3) [of t] by (simp add: spsc_inv_def swsr_empty_def swsr_top_def)
  moreover have "settle t = sq t" if "ppc t = PIdle" "cpc t = CIdle"
    using that by (simp add: settle_def)
  ultimately show ?thesis using inv by (auto simp: spsc_inv_def)
qed

definition demo_swsr :: "nat swsr" where
  "demo_swsr = snd (swsr_init False True False (SWSR_Ptr_Buffer 4))"

lemma demo_swsr_inv: "sw_inv demo_swsr \<and> sw_items demo_swsr = []"
  using swsr_reset_inv [of "SWSR_Ptr_Buffer 4" False]
  by (simp add: demo_swsr_def swsr_init_def SWSR_Ptr_Buffer_def)

theorem swsr_spsc_fifo_witness:
  "\<exists>t. spsc_step\<^sup>*\<^sup>* (spsc_start demo_swsr) t \<and> pushed t = [7] \<and> ppc t = PIdle \<and> sw_items (sq t) = [7]"
proof -
  let ?s0 = "spsc_start demo_swsr"
  let ?s1 = "?s0\<lparr>ppc := PTested 7\<rparr>"
  let ?s2 = "?s1\<lparr>ppc := PStored, sq := (sq ?s1)\<lparr>bbuf := (bbuf (sq ?s1))[unat (pwrite (sq ?s1)) := Some 7]\<rparr>,
    pushed := pushed ?s1 @ [7]\<rparr>"
  let ?s3 = "?s2\<lparr>ppc := PIdle, sq := (sq ?s2)\<lparr>pwrite := next_pos (bsize (sq ?s2)) (pwrite (sq ?s2))\<rparr>\<rparr>"
  have "swsr_available (sq ?s0)"
    using swsr_available_iff [of demo_swsr] sw_pos [of demo_swsr] demo_swsr_inv by (simp add: spsc_start_def)
  then have "spsc_step ?s0 ?s1" by (intro p_test) (simp_all add: spsc_start_def)
  moreover have "spsc_step ?s1 ?s2" by (rule p_store) simp
  moreover have "spsc_step ?s2 ?s3" by (rule p_advance) simp
  ultimately have r: "spsc_step\<^sup>*\<^sup>* ?s0 ?s3" by (meson rtranclp.rtrancl_into_rtrancl rtranclp.rtrancl_refl)
  obtain rest where "pushed ?s3 = popped ?s3 @ rest" "sw_items (sq ?s3) = rest"
    using swsr_spsc_fifo [OF conjunct1 [OF demo_swsr_inv] conjunct2 [OF demo_swsr_inv] r]
    by (auto simp: spsc_start_def)
  then show ?thesis using r by (intro exI [of _ ?s3]) (simp add: spsc_start_def)
qed

text \<open>
  A batch push is all or nothing: it succeeds exactly when the whole batch fits, and then
  appends it in order, also when it wraps around the end of the array; otherwise, and for a
  batch as large as the buffer, nothing changes.
\<close>

theorem swsr_multipush_all_or_nothing:
  assumes "sw_inv q" and "xs \<noteq> []" and "length xs < 2 ^ 31" and "unat (bsize q) < 2 ^ 63"
  shows "if length xs < unat (bsize q) \<and> length (sw_items q) + length xs \<le> unat (bsize q)
    then fst (swsr_multipush q xs) \<and> sw_inv (snd (swsr_multipush q xs)) \<and>
      sw_items (snd (swsr_multipush q xs)) = sw_items q @ xs
    else swsr_multipush q xs = (False, q)"
proof (cases "length xs < unat (bsize q)")
  case True
  then show ?thesis using swsr_multipush_ok [OF assms(1,2) True assms(4)] by (auto split: if_splits)
next
  case False
  then have "bsize q \<le> of_nat (length xs)" using assms(3) by (simp add: word_le_nat_alt unat_of_nat)
  then show ?thesis using False by (simp add: swsr_multipush_def)
qed

theorem swsr_multipush_all_or_nothing_witness:
  "sw_items (snd (swsr_multipush demo_swsr [1, 2, 3])) = [1, 2, 3]"
  using swsr_multipush_all_or_nothing [of demo_swsr "[1, 2, 3]"] demo_swsr_inv
  by (simp add: demo_swsr_def swsr_init_def SWSR_Ptr_Buffer_def swsr_reset_def Let_def)

text \<open>
  The buffered push keeps the order: queue and batch together grow by the new element, and
  the call reports failure only when the batch is complete and does not fit. A call with a
  complete batch only tries to send it: its argument is not stored, so that retrying a failed
  call with the same element stores it once.
\<close>

theorem swsr_mpush_order:
  assumes inv: "sw_inv q" and n: "MULTIPUSH_BUFFER_SIZE < unat (bsize q)" "unat (bsize q) < 2 ^ 63"
    and mb: "length (multipush_buf q) \<le> MULTIPUSH_BUFFER_SIZE"
    and run: "swsr_mpush q x = (ok, q')"
  shows "sw_inv q' \<and> length (multipush_buf q') \<le> MULTIPUSH_BUFFER_SIZE \<and>
    sw_items q' @ multipush_buf q' = sw_items q @ multipush_buf q @
      (if length (multipush_buf q) = MULTIPUSH_BUFFER_SIZE then [] else [x]) \<and>
    (\<not> ok \<longrightarrow> length (multipush_buf q') = MULTIPUSH_BUFFER_SIZE)"
proof -
  have send: "sw_inv p' \<and> sw_items p' @ multipush_buf p' = sw_items p @ multipush_buf p \<and>
      length (multipush_buf p') \<le> MULTIPUSH_BUFFER_SIZE \<and> (\<not> b \<longrightarrow> length (multipush_buf p') = MULTIPUSH_BUFFER_SIZE)"
    if "sw_inv p" "bsize p = bsize q" "length (multipush_buf p) = MULTIPUSH_BUFFER_SIZE"
      "swsr_multipush p (multipush_buf p) = (b, p')" for p p' :: "'a swsr" and b
  proof -
    have "multipush_buf p \<noteq> []" using that(3) by (auto simp: MULTIPUSH_BUFFER_SIZE_def)
    then show ?thesis
      using swsr_multipush_ok [OF that(1), of "multipush_buf p"] that n
      by (auto simp: MULTIPUSH_BUFFER_SIZE_def split: if_splits)
  qed
  let ?p = "q\<lparr>multipush_buf := multipush_buf q @ [x]\<rparr>"
  have p: "sw_inv ?p" "sw_items ?p = sw_items q" using inv by (simp_all add: sw_inv_def sw_items_def sw_view_def)
  consider (full) "length (multipush_buf q) = MULTIPUSH_BUFFER_SIZE"
    | (last) "length (multipush_buf q) \<noteq> MULTIPUSH_BUFFER_SIZE" "length (multipush_buf ?p) = MULTIPUSH_BUFFER_SIZE"
    | (room) "length (multipush_buf q) \<noteq> MULTIPUSH_BUFFER_SIZE" "length (multipush_buf ?p) \<noteq> MULTIPUSH_BUFFER_SIZE"
    by blast
  then show ?thesis
  proof cases
    case full
    then show ?thesis using send [OF inv refl full, of ok q'] run by (simp add: swsr_mpush_def)
  next
    case last
    then show ?thesis using send [OF p(1) _ last(2), of ok q'] run p(2) by (simp add: swsr_mpush_def Let_def)
  next
    case room
    then have "ok" "q' = ?p" using run by (simp_all add: swsr_mpush_def Let_def)
    then show ?thesis using room p mb by simp
  qed
qed

theorem swsr_mpush_order_witness:
  "sw_items (snd (swsr_mpush (snd (swsr_init True True True (SWSR_Ptr_Buffer 32))) (5 :: nat))) @
    multipush_buf (snd (swsr_mpush (snd (swsr_init True True True (SWSR_Ptr_Buffer 32))) 5)) = [5]"
proof -
  let ?q = "snd (swsr_init True True True (SWSR_Ptr_Buffer 32)) :: nat swsr"
  have q: "?q = swsr_reset True (SWSR_Ptr_Buffer 32)"
    by (simp add: swsr_init_def SWSR_Ptr_Buffer_def MULTIPUSH_BUFFER_SIZE_def word_less_nat_alt)
  have "sw_inv ?q \<and> sw_items ?q = []"
    unfolding q by (rule swsr_reset_inv) (simp_all add: SWSR_Ptr_Buffer_def longxCacheLine_def word_less_nat_alt)
  moreover have "bsize ?q = 32" "multipush_buf ?q = []"
    unfolding q by (simp_all add: swsr_reset_def SWSR_Ptr_Buffer_def Let_def)
  ultimately show ?thesis
    using swsr_mpush_order [of ?q 5 "fst (swsr_mpush ?q 5)" "snd (swsr_mpush ?q 5)"]
    by (simp add: MULTIPUSH_BUFFER_SIZE_def)
qed

text \<open>
  C31. \<open>length\<close> of the single-producer single-consumer buffer is the number of elements; Lamport's
  variant computes it the same way but never clears a slot, so an empty buffer whose write
  position has been used before reports its full size. Its \<open>init\<close> fails on every fresh buffer,
  because it asserts that the array is already allocated.
\<close>

theorem lamport_length_wrong:
  fixes p :: "'a lamport"
  assumes "sw_inv q" and "unat (bsize q) < 2 ^ 63"
    and "la_inv p" and "la_items p = []" and "lbuf p ! unat (lwrite p) \<noteq> None"
  shows "unat (swsr_length q) = length (sw_items q) \<and> lamport_length p = lsize p \<and> lsize p \<noteq> 0 \<and>
    lamport_init alloc_ok (Lamport_Buffer n :: 'a lamport) = Inl AssertFailed"
proof -
  have "lwrite p = lread p" using lamport_empty_iff [OF assms(3)] assms(4) by (simp add: lamport_empty_def)
  then have "lamport_length p = lsize p" using assms(5) by (auto simp: lamport_length_def Let_def)
  moreover have "lsize p \<noteq> 0" using assms(3) by (auto simp: la_inv_def word_less_nat_alt)
  ultimately show ?thesis
    using swsr_length_items [OF assms(1,2)] by (simp add: lamport_init_def Lamport_Buffer_def)
qed

theorem lamport_length_wrong_witness:
  "let p = snd (lamport_pop (snd (lamport_push (snd (lamport_pop (snd (lamport_push
     (lamport_reset (Lamport_Buffer 2)) (1 :: nat))))) 2))) in la_items p = [] \<and> lamport_length p = 2"
proof -
  let ?p = "\<lparr>lread = 0, lwrite = 0, lsize = 2, lbuf = [Some 1, Some (2 :: nat)]\<rparr>"
  have e: "snd (lamport_pop (snd (lamport_push (snd (lamport_pop (snd (lamport_push
     (lamport_reset (Lamport_Buffer 2)) (1 :: nat))))) 2))) = ?p"
    by code_simp
  have "la_inv ?p" "la_items ?p = []"
    by (simp_all add: la_inv_def la_items_def la_count_def ring_simps)
  then have "lamport_length ?p = 2"
    using lamport_length_wrong [of demo_swsr ?p True 0] demo_swsr_inv
    by (simp add: demo_swsr_def swsr_init_def SWSR_Ptr_Buffer_def swsr_reset_def Let_def)
  then show ?thesis unfolding e Let_def by (simp add: la_items_def la_count_def ring_simps)
qed

end
