(* ===== verification/FFDynqueue.thy ===== *)
theory FFDynqueue
  imports FFBuffer
begin

text \<open>
  The list-based unbounded queue of FastFlow (\<open>libs/fastflow/ff/dynqueue.hpp\<close>, the variant that is
  compiled by default) on an explicit heap of nodes, with the cache of released nodes, and the
  interface of unbounded channels, which the queue of buffers in \<open>ubuffer.hpp\<close> also provides.
\<close>

subsection \<open>The interface\<close>

text \<open>
  An unbounded channel, as its users see it: enqueuing always succeeds and says so. The laws are
  stated for operations that may fail on a corrupt structure, and say that they do not.
\<close>

text \<open>
  A client is a sequence of calls of \<open>push\<close> and \<open>pop\<close>, in any order; it sees what they return.
\<close>

datatype 'a chan_op = Enq 'a | Deq

datatype 'a chan_res = Pushed bool | Popped "'a option"

fun run_ops :: "('q \<Rightarrow> 'a \<Rightarrow> err + (bool \<times> 'q)) \<Rightarrow> ('q \<Rightarrow> err + ('a option \<times> 'q)) \<Rightarrow>
    'q \<Rightarrow> 'a chan_op list \<Rightarrow> err + ('a chan_res list \<times> 'q)" where
  "run_ops enq deq q [] = Inr ([], q)"
| "run_ops enq deq q (Enq x # os) = (case enq q x of Inl e \<Rightarrow> Inl e
     | Inr (b, q') \<Rightarrow> (case run_ops enq deq q' os of Inl e \<Rightarrow> Inl e | Inr (rs, q'') \<Rightarrow> Inr (Pushed b # rs, q'')))"
| "run_ops enq deq q (Deq # os) = (case deq q of Inl e \<Rightarrow> Inl e
     | Inr (x, q') \<Rightarrow> (case run_ops enq deq q' os of Inl e \<Rightarrow> Inl e | Inr (rs, q'') \<Rightarrow> Inr (Popped x # rs, q'')))"

text \<open>The specification: what an unbounded queue held as a list returns, and what is left in it.\<close>

fun spec_ops :: "'a list \<Rightarrow> 'a chan_op list \<Rightarrow> 'a chan_res list \<times> 'a list" where
  "spec_ops xs [] = ([], xs)"
| "spec_ops xs (Enq x # os) = (case spec_ops (xs @ [x]) os of (rs, ys) \<Rightarrow> (Pushed True # rs, ys))"
| "spec_ops [] (Deq # os) = (case spec_ops [] os of (rs, ys) \<Rightarrow> (Popped None # rs, ys))"
| "spec_ops (x # xs) (Deq # os) = (case spec_ops xs os of (rs, ys) \<Rightarrow> (Popped (Some x) # rs, ys))"

locale unbounded_fifo =
  fixes enq :: "'q \<Rightarrow> 'a \<Rightarrow> err + (bool \<times> 'q)"
    and deq :: "'q \<Rightarrow> err + ('a option \<times> 'q)"
    and items :: "'q \<Rightarrow> 'a list"
    and invar :: "'q \<Rightarrow> bool"
  assumes enq_ok: "invar q \<Longrightarrow> \<exists>q'. enq q x = Inr (True, q') \<and> invar q' \<and> items q' = items q @ [x]"
    and deq_empty: "invar q \<Longrightarrow> items q = [] \<Longrightarrow> deq q = Inr (None, q)"
    and deq_cons: "invar q \<Longrightarrow> items q = x # xs \<Longrightarrow> \<exists>q'. deq q = Inr (Some x, q') \<and> invar q' \<and> items q' = xs"
begin

lemma run_ops_ok:
  "invar q \<Longrightarrow> \<exists>q'. run_ops enq deq q os = Inr (fst (spec_ops (items q) os), q') \<and> invar q' \<and> items q' = snd (spec_ops (items q) os)"
proof (induction os arbitrary: q)
  case (Cons a os)
  show ?case
  proof (cases a)
    case (Enq x)
    obtain q' where "enq q x = Inr (True, q')" "invar q'" "items q' = items q @ [x]"
      using enq_ok [OF Cons.prems] by blast
    then show ?thesis using Cons.IH [of q'] Enq by (auto split: prod.split)
  next
    case Deq
    show ?thesis
    proof (cases "items q")
      case Nil
      then show ?thesis
        using deq_empty [OF Cons.prems] Cons.IH [OF Cons.prems] Deq by (auto split: prod.split)
    next
      case it: (Cons x xs)
      obtain q' where "deq q = Inr (Some x, q')" "invar q'" "items q' = xs"
        using deq_cons [OF Cons.prems it] by blast
      then show ?thesis using Cons.IH [of q'] Deq it by (auto split: prod.split)
    qed
  qed
qed simp

end

subsection \<open>The list-based queue\<close>

text \<open>
  \<open>dynqueue\<close>: a linked list with a dummy node at its head; released nodes go to a bounded cache.
  \<open>dq_heap\<close> maps the addresses of allocated nodes to their fields \<open>data\<close> and \<open>next\<close>; \<open>malloc\<close>
  succeeds and returns \<open>dq_brk\<close>, an address never used before.
\<close>

record 'a dynqueue =
  dq_heap :: "nat \<Rightarrow> ('a option \<times> nat option) option"
  dq_brk :: nat
  dq_head :: nat
  dq_tail :: nat
  dq_cache :: "nat swsr"

definition dq_malloc :: "'a dynqueue \<Rightarrow> nat \<times> 'a dynqueue" where
  "dq_malloc q = (dq_brk q, q\<lparr>dq_brk := dq_brk q + 1, dq_heap := (dq_heap q)(dq_brk q \<mapsto> (None, None))\<rparr>)"

definition dq_remove :: "nat \<Rightarrow> 'a dynqueue \<Rightarrow> 'a dynqueue" where
  "dq_remove n q = q\<lparr>dq_heap := (dq_heap q)(n := None)\<rparr>"

text \<open>\<open>free\<close> of a node that is not allocated is an error.\<close>

definition dq_free :: "nat \<Rightarrow> 'a dynqueue \<Rightarrow> err + 'a dynqueue" where
  "dq_free n q = (if dq_heap q n = None then Inl BadAccess else Inr (dq_remove n q))"

fun dq_fill :: "nat \<Rightarrow> 'a dynqueue \<Rightarrow> 'a dynqueue" where
  "dq_fill 0 q = q"
| "dq_fill (Suc k) q = (case dq_malloc q of (n, q) \<Rightarrow> dq_fill k (q\<lparr>dq_cache := snd (swsr_push (dq_cache q) n)\<rparr>))"

definition dynqueue_new :: "u64 \<Rightarrow> bool \<Rightarrow> 'a dynqueue" where
  "dynqueue_new cachesize fillcache =
     (let q = \<lparr>dq_heap = (\<lambda>_. None)(0 \<mapsto> (None, None)), dq_brk = 1, dq_head = 0, dq_tail = 0,
           dq_cache = snd (swsr_init False True False (SWSR_Ptr_Buffer cachesize))\<rparr> in
      if fillcache then dq_fill (unat cachesize) q else q)"

definition allocnode :: "'a dynqueue \<Rightarrow> nat \<times> 'a dynqueue" where
  "allocnode q = (case swsr_pop (dq_cache q) of
       (Some n, c) \<Rightarrow> (n, q\<lparr>dq_cache := c\<rparr>)
     | (None, c) \<Rightarrow> dq_malloc (q\<lparr>dq_cache := c\<rparr>))"

definition dynqueue_push :: "'a dynqueue \<Rightarrow> 'a \<Rightarrow> err + (bool \<times> 'a dynqueue)" where
  "dynqueue_push q x =
     (case allocnode q of (n, q) \<Rightarrow>
       (case dq_heap q n of None \<Rightarrow> Inl BadAccess
        | Some _ \<Rightarrow>
          let q = q\<lparr>dq_heap := (dq_heap q)(n \<mapsto> (Some x, None))\<rparr> in
          (case dq_heap q (dq_tail q) of None \<Rightarrow> Inl BadAccess
           | Some (d, _) \<Rightarrow> Inr (True, q\<lparr>dq_heap := (dq_heap q)(dq_tail q \<mapsto> (d, Some n)), dq_tail := n\<rparr>))))"

definition dynqueue_pop :: "'a dynqueue \<Rightarrow> err + ('a option \<times> 'a dynqueue)" where
  "dynqueue_pop q =
     (case dq_heap q (dq_head q) of None \<Rightarrow> Inl BadAccess
      | Some (_, None) \<Rightarrow> Inr (None, q)
      | Some (_, Some m) \<Rightarrow>
        (case dq_heap q m of None \<Rightarrow> Inl BadAccess
         | Some (d, _) \<Rightarrow>
           let n = dq_head q; q = q\<lparr>dq_head := m\<rparr> in
           (case swsr_push (dq_cache q) n of
              (True, c) \<Rightarrow> Inr (d, q\<lparr>dq_cache := c\<rparr>)
            | (False, c) \<Rightarrow> (case dq_free n (q\<lparr>dq_cache := c\<rparr>) of Inl e \<Rightarrow> Inl e | Inr q \<Rightarrow> Inr (d, q)))))"

text \<open>The destructor frees the cached nodes, then the list from \<open>head\<close> to \<open>tail\<close>.\<close>

fun dq_free_list :: "nat \<Rightarrow> 'a dynqueue \<Rightarrow> err + 'a dynqueue" where
  "dq_free_list 0 q = Inr q"
| "dq_free_list (Suc k) q =
     (if dq_head q = dq_tail q then dq_free (dq_head q) q
      else (case dq_heap q (dq_head q) of
          Some (_, Some m) \<Rightarrow>
            (case dq_free (dq_head q) (q\<lparr>dq_head := m\<rparr>) of Inl e \<Rightarrow> Inl e | Inr q \<Rightarrow> dq_free_list k q)
        | _ \<Rightarrow> Inl BadAccess))"

fun dq_free_nodes :: "nat list \<Rightarrow> 'a dynqueue \<Rightarrow> err + 'a dynqueue" where
  "dq_free_nodes [] q = Inr q"
| "dq_free_nodes (n # ns) q = (case dq_free n q of Inl e \<Rightarrow> Inl e | Inr q \<Rightarrow> dq_free_nodes ns q)"

definition dynqueue_delete :: "nat \<Rightarrow> 'a dynqueue \<Rightarrow> err + 'a dynqueue" where
  "dynqueue_delete k q =
     (case sw.drain (unat (bsize (dq_cache q))) (dq_cache q) of
        (ns, c) \<Rightarrow> (case dq_free_nodes ns (q\<lparr>dq_cache := c\<rparr>) of Inl e \<Rightarrow> Inl e | Inr q \<Rightarrow> dq_free_list k q))"

subsection \<open>The invariant\<close>

fun chain :: "(nat \<Rightarrow> ('a option \<times> nat option) option) \<Rightarrow> nat \<Rightarrow> nat list \<Rightarrow> bool" where
  "chain h a [] = (\<exists>d. h a = Some (d, None))"
| "chain h a (b # bs) = ((\<exists>d. h a = Some (d, Some b)) \<and> chain h b bs)"

definition dq_rep :: "'a dynqueue \<Rightarrow> nat list \<Rightarrow> 'a list \<Rightarrow> bool" where
  "dq_rep q ps xs \<longleftrightarrow>
     chain (dq_heap q) (dq_head q) ps \<and> dq_tail q = last (dq_head q # ps) \<and>
     map (\<lambda>p. case dq_heap q p of Some (d, _) \<Rightarrow> d | None \<Rightarrow> None) ps = map Some xs \<and>
     sw_inv (dq_cache q) \<and> distinct (dq_head q # ps @ sw_items (dq_cache q)) \<and>
     dom (dq_heap q) = set (dq_head q # ps @ sw_items (dq_cache q)) \<and>
     (\<forall>a\<in>dom (dq_heap q). a < dq_brk q)"

text \<open>The elements, read off the list; \<open>dq_brk\<close> bounds the number of nodes.\<close>

fun walk :: "nat \<Rightarrow> (nat \<Rightarrow> ('a option \<times> nat option) option) \<Rightarrow> nat \<Rightarrow> nat list" where
  "walk 0 h a = []"
| "walk (Suc k) h a = (case h a of Some (_, Some b) \<Rightarrow> b # walk k h b | _ \<Rightarrow> [])"

definition dq_nodes :: "'a dynqueue \<Rightarrow> nat list" where
  "dq_nodes q = walk (dq_brk q) (dq_heap q) (dq_head q)"

definition dq_items :: "'a dynqueue \<Rightarrow> 'a list" where
  "dq_items q = map (\<lambda>p. case dq_heap q p of Some (Some d, _) \<Rightarrow> d) (dq_nodes q)"

definition dq_inv :: "'a dynqueue \<Rightarrow> bool" where
  "dq_inv q \<longleftrightarrow> (\<exists>ps xs. dq_rep q ps xs)"

lemma walk_chain: "chain h a ps \<Longrightarrow> length ps \<le> k \<Longrightarrow> walk k h a = ps"
proof (induction ps arbitrary: a k)
  case Nil
  then show ?case by (cases k) auto
next
  case (Cons b ps)
  then show ?case by (cases k) auto
qed

lemma dq_rep_items:
  assumes "dq_rep q ps xs"
  shows "dq_nodes q = ps \<and> dq_items q = xs"
proof -
  have "card (set ps) \<le> card {..<dq_brk q}"
    using assms unfolding dq_rep_def by (intro card_mono) auto
  then have len: "length ps \<le> dq_brk q"
    using assms by (simp add: dq_rep_def distinct_card)
  then have n: "dq_nodes q = ps" using assms walk_chain unfolding dq_nodes_def dq_rep_def by blast
  have l: "length ps = length xs" using assms unfolding dq_rep_def by (metis length_map)
  have "dq_items q = xs"
    unfolding dq_items_def n
  proof (rule nth_equalityI)
    fix i assume i: "i < length (map (\<lambda>p. case dq_heap q p of Some (Some d, _) \<Rightarrow> d) ps)"
    then have "(map (\<lambda>p. case dq_heap q p of Some (d, _) \<Rightarrow> d | None \<Rightarrow> None) ps) ! i = (map Some xs) ! i"
      using assms by (simp add: dq_rep_def)
    then show "map (\<lambda>p. case dq_heap q p of Some (Some d, _) \<Rightarrow> d) ps ! i = xs ! i"
      using i l by (auto split: option.splits)
  qed (simp add: l)
  then show ?thesis using n by simp
qed

lemma chain_upd: "c \<notin> set (a # ps) \<Longrightarrow> chain (h(c := v)) a ps = chain h a ps"
  by (induction ps arbitrary: a) auto

lemma chain_dom: "chain h a ps \<Longrightarrow> p \<in> set (a # ps) \<Longrightarrow> h p \<noteq> None"
  by (induction ps arbitrary: a) auto

lemma chain_snoc:
  "chain h a ps \<Longrightarrow> distinct (a # ps) \<Longrightarrow> c \<notin> set (a # ps) \<Longrightarrow> h (last (a # ps)) = Some (d, v) \<Longrightarrow>
    chain (h(c \<mapsto> (x, None), last (a # ps) \<mapsto> (d, Some c))) a (ps @ [c])"
proof (induction ps arbitrary: a)
  case (Cons b ps)
  have "last (b # ps) \<noteq> a" using Cons.prems(2) last_in_set [of "b # ps"] by auto
  then show ?case using Cons by auto
qed auto

lemma allocnode_ok:
  assumes "dq_rep q ps xs"
  shows "\<exists>n q'. allocnode q = (n, q') \<and> dq_head q' = dq_head q \<and> dq_tail q' = dq_tail q \<and>
    (\<forall>a\<in>set (dq_head q # ps). dq_heap q' a = dq_heap q a) \<and> chain (dq_heap q') (dq_head q) ps \<and>
    n \<notin> set (dq_head q # ps) \<and> n \<notin> set (sw_items (dq_cache q')) \<and> sw_inv (dq_cache q') \<and>
    distinct (dq_head q # ps @ sw_items (dq_cache q')) \<and>
    dom (dq_heap q') = insert n (set (dq_head q # ps @ sw_items (dq_cache q'))) \<and>
    (\<forall>a\<in>dom (dq_heap q'). a < dq_brk q')"
proof -
  have R: "sw_inv (dq_cache q)" "chain (dq_heap q) (dq_head q) ps" "\<forall>a\<in>dom (dq_heap q). a < dq_brk q"
    "dom (dq_heap q) = set (dq_head q # ps @ sw_items (dq_cache q))"
    "distinct (dq_head q # ps @ sw_items (dq_cache q))"
    using assms by (simp_all add: dq_rep_def)
  show ?thesis
  proof (cases "sw_items (dq_cache q)")
    case Nil
    have p: "swsr_pop (dq_cache q) = (None, dq_cache q)" by (rule sw.pop_empty [OF R(1) Nil])
    have "dq_brk q \<notin> dom (dq_heap q)" using R(3) by blast
    then have "dq_brk q \<notin> set (dq_head q # ps)" using R(4) by auto
    then show ?thesis
      using R Nil chain_upd [of "dq_brk q" "dq_head q" ps "dq_heap q"]
      by (simp add: allocnode_def p dq_malloc_def less_Suc_eq)
  next
    case (Cons n ns)
    obtain c where p: "swsr_pop (dq_cache q) = (Some n, c)" "sw_inv c" "sw_items c = ns"
      using sw.pop_cons [OF R(1) Cons] sw.pop_inv [OF R(1)] by (cases "swsr_pop (dq_cache q)") auto
    show ?thesis
      using R Cons by (intro exI [of _ n] exI [of _ "q\<lparr>dq_cache := c\<rparr>"]) (auto simp: allocnode_def p)
  qed
qed

lemma dynqueue_push_ok:
  assumes rep: "dq_rep q ps xs"
  shows "\<exists>n q'. dynqueue_push q x = Inr (True, q') \<and> dq_rep q' (ps @ [n]) (xs @ [x])"
proof -
  obtain n q1 where a: "allocnode q = (n, q1)" "dq_head q1 = dq_head q" "dq_tail q1 = dq_tail q"
    "\<forall>a\<in>set (dq_head q # ps). dq_heap q1 a = dq_heap q a" "chain (dq_heap q1) (dq_head q) ps"
    "n \<notin> set (dq_head q # ps)" "n \<notin> set (sw_items (dq_cache q1))" "sw_inv (dq_cache q1)"
    "distinct (dq_head q # ps @ sw_items (dq_cache q1))"
    "dom (dq_heap q1) = insert n (set (dq_head q # ps @ sw_items (dq_cache q1)))"
    "\<forall>a\<in>dom (dq_heap q1). a < dq_brk q1"
    using allocnode_ok [OF rep] by metis
  let ?t = "last (dq_head q # ps)"
  have tail: "dq_tail q = ?t" using rep by (simp add: dq_rep_def)
  have tin: "?t \<in> set (dq_head q # ps)" by (rule last_in_set) simp
  obtain d v where t: "dq_heap q1 ?t = Some (d, v)"
    using chain_dom [OF a(5) tin] by auto
  have nt: "n \<noteq> ?t" using a(6) tin by blast
  obtain e w where n: "dq_heap q1 n = Some (e, w)" using a(10) by fastforce
  let ?q = "q1\<lparr>dq_heap := (dq_heap q1)(n \<mapsto> (Some x, None), ?t \<mapsto> (d, Some n)), dq_tail := n\<rparr>"
  have push: "dynqueue_push q x = Inr (True, ?q)"
    using a(1,3) n t nt tail by (simp add: dynqueue_push_def Let_def)
  have same: "(case dq_heap ?q p of Some (d, _) \<Rightarrow> d | None \<Rightarrow> None) =
      (case dq_heap q p of Some (d, _) \<Rightarrow> d | None \<Rightarrow> None)" if "p \<in> set ps" for p
    using that a(4,6) t by auto
  have "chain (dq_heap ?q) (dq_head ?q) (ps @ [n])"
    using chain_snoc [OF a(5) _ a(6) t, of "Some x"] a(2,9) by simp
  moreover have "map (\<lambda>p. case dq_heap ?q p of Some (d, _) \<Rightarrow> d | None \<Rightarrow> None) (ps @ [n]) = map Some (xs @ [x])"
    using rep same nt unfolding dq_rep_def by (simp cong: map_cong)
  moreover have "distinct (dq_head ?q # (ps @ [n]) @ sw_items (dq_cache ?q))"
    using a(2,6,7,9) by auto
  moreover have "dom (dq_heap ?q) = set (dq_head ?q # (ps @ [n]) @ sw_items (dq_cache ?q))"
    using a(2,10) tin by auto
  moreover have "\<forall>a\<in>dom (dq_heap ?q). a < dq_brk ?q"
    using a(10,11) tin by auto
  ultimately have "dq_rep ?q (ps @ [n]) (xs @ [x])"
    using a(8) unfolding dq_rep_def by simp
  then show ?thesis using push by blast
qed

lemma dynqueue_pop_empty:
  assumes "dq_rep q [] xs"
  shows "dynqueue_pop q = Inr (None, q)"
  using assms by (auto simp: dq_rep_def dynqueue_pop_def)

lemma dynqueue_pop_ok:
  assumes rep: "dq_rep q (p # ps) (x # xs)"
  shows "\<exists>q'. dynqueue_pop q = Inr (Some x, q') \<and> dq_rep q' ps xs"
proof -
  let ?h = "dq_head q"
  have R: "chain (dq_heap q) p ps" "sw_inv (dq_cache q)" "dq_tail q = last (p # ps)"
    "distinct (?h # (p # ps) @ sw_items (dq_cache q))"
    "dom (dq_heap q) = set (?h # (p # ps) @ sw_items (dq_cache q))" "\<forall>a\<in>dom (dq_heap q). a < dq_brk q"
    "map (\<lambda>p. case dq_heap q p of Some (d, _) \<Rightarrow> d | None \<Rightarrow> None) ps = map Some xs"
    using rep by (simp_all add: dq_rep_def)
  obtain d0 where h: "dq_heap q ?h = Some (d0, Some p)" using rep by (auto simp: dq_rep_def)
  obtain v where px: "dq_heap q p = Some (Some x, v)"
    using rep chain_dom [OF R(1), of p] by (auto simp: dq_rep_def)
  show ?thesis
  proof (cases "length (sw_items (dq_cache q)) < sw_capacity (dq_cache q)")
    case True
    obtain c where c: "swsr_push (dq_cache q) ?h = (True, c)" "sw_items c = sw_items (dq_cache q) @ [?h]" "sw_inv c"
      using sw.push_room [OF R(2) True, of ?h] sw.push_inv [OF R(2), of ?h] by (cases "swsr_push (dq_cache q) ?h") auto
    let ?q = "q\<lparr>dq_head := p, dq_cache := c\<rparr>"
    have "dynqueue_pop q = Inr (Some x, ?q)" using h px c(1) by (simp add: dynqueue_pop_def Let_def)
    moreover have "dq_rep ?q ps xs" using R c unfolding dq_rep_def by auto
    ultimately show ?thesis by blast
  next
    case False
    then have "length (sw_items (dq_cache q)) = sw_capacity (dq_cache q)"
      using sw.items_bound [OF R(2)] by simp
    then have c: "swsr_push (dq_cache q) ?h = (False, dq_cache q)" by (rule sw.push_full [OF R(2)])
    let ?q = "dq_remove ?h (q\<lparr>dq_head := p\<rparr>)"
    have "dynqueue_pop q = Inr (Some x, ?q)" using h px c by (simp add: dynqueue_pop_def dq_free_def Let_def)
    moreover have "dq_rep ?q ps xs"
      unfolding dq_rep_def
    proof (intro conjI)
      show "chain (dq_heap ?q) (dq_head ?q) ps"
        using R(1,4) chain_upd [of ?h p ps "dq_heap q" None] by (simp add: dq_remove_def)
      have "map (\<lambda>p. case dq_heap ?q p of Some (d, _) \<Rightarrow> d | None \<Rightarrow> None) ps =
          map (\<lambda>p. case dq_heap q p of Some (d, _) \<Rightarrow> d | None \<Rightarrow> None) ps"
        using R(4) by (intro map_cong refl) (auto simp: dq_remove_def)
      then show "map (\<lambda>p. case dq_heap ?q p of Some (d, _) \<Rightarrow> d | None \<Rightarrow> None) ps = map Some xs"
        using R(7) by simp
    qed (use R in \<open>auto simp: dq_remove_def\<close>)
    ultimately show ?thesis by blast
  qed
qed

interpretation dq: unbounded_fifo dynqueue_push dynqueue_pop dq_items dq_inv
proof unfold_locales
  fix q :: "'a dynqueue" and x
  assume "dq_inv q"
  then obtain ps xs where r: "dq_rep q ps xs" by (auto simp: dq_inv_def)
  then show "\<exists>q'. dynqueue_push q x = Inr (True, q') \<and> dq_inv q' \<and> dq_items q' = dq_items q @ [x]"
    using dynqueue_push_ok [OF r, of x] dq_rep_items unfolding dq_inv_def by metis
next
  fix q :: "'a dynqueue"
  assume "dq_inv q" and "dq_items q = []"
  then obtain ps where "dq_rep q ps []" using dq_rep_items unfolding dq_inv_def by metis
  moreover from this have "ps = []" by (simp add: dq_rep_def)
  ultimately show "dynqueue_pop q = Inr (None, q)" by (auto intro: dynqueue_pop_empty)
next
  fix q :: "'a dynqueue" and x xs
  assume "dq_inv q" and "dq_items q = x # xs"
  then obtain ps where r: "dq_rep q ps (x # xs)" using dq_rep_items unfolding dq_inv_def by metis
  then obtain p ps' where "ps = p # ps'" by (cases ps) (auto simp: dq_rep_def)
  then show "\<exists>q'. dynqueue_pop q = Inr (Some x, q') \<and> dq_inv q' \<and> dq_items q' = xs"
    using dynqueue_pop_ok [of q p ps' x xs] r dq_rep_items unfolding dq_inv_def by metis
qed


subsection \<open>Construction and destruction\<close>

lemma swsr_new: "0 < n \<Longrightarrow> sw_inv (snd (swsr_init False True False (SWSR_Ptr_Buffer n :: 'a swsr))) \<and>
    sw_items (snd (swsr_init False True False (SWSR_Ptr_Buffer n :: 'a swsr))) = []"
  using swsr_reset_inv [of "SWSR_Ptr_Buffer n :: 'a swsr" False]
  by (auto simp: swsr_init_def SWSR_Ptr_Buffer_def word_gt_0)

lemma dq_fill_rep: "dq_rep q [] [] \<Longrightarrow> length (sw_items (dq_cache q)) + k \<le> sw_capacity (dq_cache q) \<Longrightarrow> dq_rep (dq_fill k q) [] []"
proof (induction k arbitrary: q)
  case (Suc k)
  let ?n = "dq_brk q"
  have inv: "sw_inv (dq_cache q)" using Suc.prems(1) by (simp add: dq_rep_def)
  have room: "length (sw_items (dq_cache q)) < sw_capacity (dq_cache q)" using Suc.prems(2) by simp
  let ?c = "snd (swsr_push (dq_cache q) ?n)"
  have c: "sw_items ?c = sw_items (dq_cache q) @ [?n]" "sw_inv ?c" "sw_capacity ?c = sw_capacity (dq_cache q)"
    using sw.push_room [OF inv room, of ?n] sw.push_inv [OF inv, of ?n] by auto
  have "?n \<notin> dom (dq_heap q)" using Suc.prems(1) by (auto simp: dq_rep_def)
  then have "dq_rep (q\<lparr>dq_brk := ?n + 1, dq_heap := (dq_heap q)(?n \<mapsto> (None, None)), dq_cache := ?c\<rparr>) [] []"
    using Suc.prems(1) c unfolding dq_rep_def by (auto simp: less_Suc_eq)
  then have "dq_rep (dq_fill k (q\<lparr>dq_brk := ?n + 1, dq_heap := (dq_heap q)(?n \<mapsto> (None, None)), dq_cache := ?c\<rparr>)) [] []"
    using Suc.prems(2) c by (intro Suc.IH) simp_all
  then show ?case by (simp add: dq_malloc_def)
qed simp

lemma dynqueue_new_rep: "0 < n \<Longrightarrow> dq_rep (dynqueue_new n fillcache :: 'a dynqueue) [] []"
proof -
  assume n: "0 < n"
  let ?c = "snd (swsr_init False True False (SWSR_Ptr_Buffer n)) :: nat swsr"
  let ?q = "\<lparr>dq_heap = (\<lambda>_. None)(0 \<mapsto> (None, None)), dq_brk = 1, dq_head = 0, dq_tail = 0, dq_cache = ?c\<rparr> :: 'a dynqueue"
  have q: "dq_rep ?q [] []" using swsr_new [OF n, where ?'a = nat] by (auto simp: dq_rep_def)
  have "bsize ?c = n" using n by (auto simp: swsr_init_def SWSR_Ptr_Buffer_def swsr_reset_def Let_def)
  then have "dq_rep (dq_fill (unat n) ?q) [] []"
    using swsr_new [OF n, where ?'a = nat] by (intro dq_fill_rep [OF q]) (simp add: sw_capacity_def)
  then show ?thesis using q by (simp add: dynqueue_new_def Let_def)
qed

lemma dq_free_list_ok:
  "chain (dq_heap q) (dq_head q) ps \<Longrightarrow> dq_tail q = last (dq_head q # ps) \<Longrightarrow> distinct (dq_head q # ps) \<Longrightarrow>
    dom (dq_heap q) = set (dq_head q # ps) \<Longrightarrow> length ps < k \<Longrightarrow>
    \<exists>q'. dq_free_list k q = Inr q' \<and> dq_heap q' = (\<lambda>_. None)"
proof (induction k arbitrary: q ps)
  case (Suc k)
  show ?case
  proof (cases ps)
    case Nil
    then have "dq_heap (dq_remove (dq_head q) q) = (\<lambda>_. None)"
      using Suc.prems(4) by (auto simp: dq_remove_def fun_eq_iff dom_def)
    then show ?thesis using Nil Suc.prems(1,2) by (auto simp: dq_free_def)
  next
    case (Cons p ps')
    let ?q = "dq_remove (dq_head q) (q\<lparr>dq_head := p\<rparr>)"
    have ne: "dq_head q \<noteq> dq_tail q" using Suc.prems(2,3) Cons last_in_set [of "p # ps'"] by auto
    obtain d where h: "dq_heap q (dq_head q) = Some (d, Some p)" using Suc.prems(1) Cons by auto
    have "\<exists>q'. dq_free_list k ?q = Inr q' \<and> dq_heap q' = (\<lambda>_. None)"
    proof (rule Suc.IH [of ?q ps'])
      show "chain (dq_heap ?q) (dq_head ?q) ps'"
        using Suc.prems(1,3) Cons chain_upd [of "dq_head q" p ps' "dq_heap q" None] by (simp add: dq_remove_def)
      have "dom (dq_heap ?q) = dom (dq_heap q) - {dq_head q}" by (auto simp: dq_remove_def split: if_splits)
      also have "\<dots> = set (p # ps')" using Suc.prems(3,4) Cons by auto
      finally show "dom (dq_heap ?q) = set (dq_head ?q # ps')" by (simp add: dq_remove_def)
    qed (use Suc.prems Cons in \<open>auto simp: dq_remove_def\<close>)
    then show ?thesis using ne h by (simp add: dq_free_def)
  qed
qed simp

lemma dq_free_nodes_ok:
  "distinct ns \<Longrightarrow> set ns \<subseteq> dom (dq_heap q) \<Longrightarrow>
    \<exists>q'. dq_free_nodes ns q = Inr q' \<and> dq_heap q' = (\<lambda>a. if a \<in> set ns then None else dq_heap q a) \<and>
      dq_head q' = dq_head q \<and> dq_tail q' = dq_tail q"
proof (induction ns arbitrary: q)
  case (Cons n ns)
  have "set ns \<subseteq> dom (dq_heap (dq_remove n q))" using Cons.prems by (auto simp: dq_remove_def)
  then obtain q' where q': "dq_free_nodes ns (dq_remove n q) = Inr q'"
    "dq_heap q' = (\<lambda>a. if a \<in> set ns then None else dq_heap (dq_remove n q) a)"
    "dq_head q' = dq_head (dq_remove n q)" "dq_tail q' = dq_tail (dq_remove n q)"
    using Cons.IH [of "dq_remove n q"] Cons.prems(1) by auto
  moreover have "dq_heap q n \<noteq> None" using Cons.prems(2) by auto
  ultimately show ?case by (auto simp: dq_free_def dq_remove_def fun_eq_iff)
qed auto

lemma chain_cong: "(\<And>p. p \<in> set (a # ps) \<Longrightarrow> h p = g p) \<Longrightarrow> chain h a ps = chain g a ps"
  by (induction ps arbitrary: a) auto

lemma dynqueue_delete_ok:
  assumes rep: "dq_rep q ps xs" and k: "length ps < k"
  shows "\<exists>q'. dynqueue_delete k q = Inr q' \<and> dq_heap q' = (\<lambda>_. None)"
proof -
  have R: "chain (dq_heap q) (dq_head q) ps" "sw_inv (dq_cache q)" "dq_tail q = last (dq_head q # ps)"
    "distinct (dq_head q # ps @ sw_items (dq_cache q))" "dom (dq_heap q) = set (dq_head q # ps @ sw_items (dq_cache q))"
    using rep by (simp_all add: dq_rep_def)
  obtain ns c where d: "sw.drain (unat (bsize (dq_cache q))) (dq_cache q) = (ns, c)" by force
  have ns: "ns = sw_items (dq_cache q)"
    using sw.drain_items [OF R(2) sw_items_bound [OF R(2)]] d by simp
  have "distinct ns" "set ns \<subseteq> dom (dq_heap (q\<lparr>dq_cache := c\<rparr>))" using R(4,5) ns by auto
  from dq_free_nodes_ok [OF this] obtain q1 where f0: "dq_free_nodes ns (q\<lparr>dq_cache := c\<rparr>) = Inr q1"
    and f: "dq_heap q1 = (\<lambda>a. if a \<in> set ns then None else dq_heap q a)" "dq_head q1 = dq_head q" "dq_tail q1 = dq_tail q"
    by (auto cong: if_cong)
  have "\<exists>q'. dq_free_list k q1 = Inr q' \<and> dq_heap q' = (\<lambda>_. None)"
  proof (rule dq_free_list_ok [OF _ _ _ _ k])
    have "chain (dq_heap q1) (dq_head q) ps = chain (dq_heap q) (dq_head q) ps"
      using R(4) ns f(1) by (intro chain_cong) auto
    then show "chain (dq_heap q1) (dq_head q1) ps" using R(1) f(2) by simp
    have "dom (dq_heap q1) = dom (dq_heap q) - set ns" unfolding f(1) by (auto split: if_splits)
    also have "\<dots> = set (dq_head q # ps)" using R(4) unfolding R(5) ns by auto
    finally show "dom (dq_heap q1) = set (dq_head q1 # ps)" using f(2) by simp
  qed (use R f in auto)
  then show ?thesis by (simp add: dynqueue_delete_def d f0)
qed

subsection \<open>Sequences of operations\<close>

text \<open>The capacity of the cache never changes.\<close>

lemma swsr_push_bsize: "swsr_push c x = (b, c') \<Longrightarrow> bsize c' = bsize c"
  by (auto simp: swsr_push_def split: if_splits)

lemma swsr_pop_bsize: "swsr_pop c = (x, c') \<Longrightarrow> bsize c' = bsize c"
  by (auto simp: swsr_pop_def swsr_inc_def Let_def split: if_splits option.splits)

lemma dynqueue_push_bsize:
  "dynqueue_push q x = Inr (b, q') \<Longrightarrow> bsize (dq_cache q') = bsize (dq_cache q)"
  by (auto simp: dynqueue_push_def allocnode_def dq_malloc_def Let_def dest: swsr_pop_bsize
      split: prod.splits option.splits)

lemma dynqueue_pop_bsize:
  "dynqueue_pop q = Inr (x, q') \<Longrightarrow> bsize (dq_cache q') = bsize (dq_cache q)"
  by (auto simp: dynqueue_pop_def dq_free_def dq_remove_def Let_def dest: swsr_push_bsize
      split: prod.splits option.splits bool.splits if_splits)

lemma run_ops_bsize:
  "run_ops dynqueue_push dynqueue_pop q os = Inr (rs, q') \<Longrightarrow> bsize (dq_cache q') = bsize (dq_cache q)"
proof (induction os arbitrary: q rs)
  case (Cons a os)
  then show ?case
    by (cases a) (auto split: sum.splits prod.splits dest: dynqueue_push_bsize dynqueue_pop_bsize)
qed simp

lemma dq_fill_bsize: "bsize (dq_cache (dq_fill k q)) = bsize (dq_cache q)"
  by (induction k arbitrary: q)
    (auto simp: dq_malloc_def intro: swsr_push_bsize [OF prod.collapse [symmetric]])

lemma dynqueue_new_bsize: "0 < n \<Longrightarrow> bsize (dq_cache (dynqueue_new n fillcache)) = n"
  by (auto simp: dynqueue_new_def Let_def dq_fill_bsize swsr_init_def SWSR_Ptr_Buffer_def swsr_reset_def)

text \<open>Every allocated node is in the list or in the cache.\<close>

lemma dq_inv_nodes:
  assumes "dq_inv q"
  shows "card (dom (dq_heap q)) = length (dq_items q) + 1 + length (sw_items (dq_cache q)) \<and>
    length (sw_items (dq_cache q)) \<le> unat (bsize (dq_cache q)) \<and>
    (\<exists>q'. dynqueue_delete (length (dq_items q) + 1) q = Inr q' \<and> dq_heap q' = (\<lambda>_. None))"
proof -
  obtain ps xs where rep: "dq_rep q ps xs" using assms by (auto simp: dq_inv_def)
  have len: "length ps = length xs" using rep unfolding dq_rep_def by (metis length_map)
  have "card (dom (dq_heap q)) = length (dq_head q # ps @ sw_items (dq_cache q))"
    using rep unfolding dq_rep_def by (metis distinct_card)
  moreover have "sw_inv (dq_cache q)" using rep by (simp add: dq_rep_def)
  ultimately show ?thesis
    using dynqueue_delete_ok [OF rep, of "length xs + 1"] len dq_rep_items [OF rep] sw_items_bound by auto
qed

subsection \<open>Properties\<close>

text \<open>
  C30. For every sequence of pushes and pops, in any order, the list-based queue returns exactly
  what a list-backed queue returns: every push answers \<open>true\<close>, a pop answers the oldest element or,
  on the empty queue, nothing. No node is used or freed that is not allocated. Afterwards the
  allocated nodes are the dummy, one node for each element and those in the cache, which are at
  most \<open>cachesize\<close>: nodes that were popped are recycled or freed, none is lost. Then the destructor
  frees every node, each exactly once.
\<close>

theorem dynqueue_fifo_no_leak:
  assumes "0 < cachesize"
  shows "\<exists>q. run_ops dynqueue_push dynqueue_pop (dynqueue_new cachesize fillcache) os = Inr (fst (spec_ops [] os), q) \<and>
    dq_items q = snd (spec_ops [] os) \<and>
    card (dom (dq_heap q)) = length (dq_items q) + 1 + length (sw_items (dq_cache q)) \<and>
    length (sw_items (dq_cache q)) \<le> unat cachesize \<and>
    (\<exists>q'. dynqueue_delete (length (dq_items q) + 1) q = Inr q' \<and> dq_heap q' = (\<lambda>_. None))"
proof -
  let ?q = "dynqueue_new cachesize fillcache :: 'a dynqueue"
  have "dq_rep ?q [] []" by (rule dynqueue_new_rep [OF assms])
  then have "dq_inv ?q" and e: "dq_items ?q = []" using dq_rep_items unfolding dq_inv_def by blast+
  then obtain q where q: "run_ops dynqueue_push dynqueue_pop ?q os = Inr (fst (spec_ops [] os), q)"
    "dq_inv q" "dq_items q = snd (spec_ops [] os)"
    using dq.run_ops_ok [of ?q os] by auto
  then show ?thesis
    using dq_inv_nodes [OF q(2)] run_ops_bsize [OF q(1)] dynqueue_new_bsize [OF assms, of fillcache, where ?'a = 'a] by simp
qed

text \<open>Three pushes, two pops, a push that reuses a node and three pops, the last on an empty queue.\<close>

definition demo_ops :: "nat chan_op list" where
  "demo_ops = [Enq 1, Enq 2, Enq 3, Deq, Deq, Enq 4, Deq, Deq, Deq]"

lemma demo_spec: "spec_ops [] demo_ops =
    ([Pushed True, Pushed True, Pushed True, Popped (Some 1), Popped (Some 2), Pushed True,
      Popped (Some 3), Popped (Some 4), Popped None], [])"
  by (simp add: demo_ops_def)

theorem dynqueue_fifo_no_leak_witness:
  "\<exists>q. run_ops dynqueue_push dynqueue_pop (dynqueue_new 1 False) demo_ops =
      Inr ([Pushed True, Pushed True, Pushed True, Popped (Some 1), Popped (Some 2), Pushed True,
        Popped (Some 3), Popped (Some 4), Popped None], q) \<and>
    card (dom (dq_heap q)) \<le> 2 \<and> (\<exists>q'. dynqueue_delete 1 q = Inr q' \<and> dq_heap q' = (\<lambda>_. None))"
  using dynqueue_fifo_no_leak [of 1 False demo_ops] unfolding demo_spec by (auto simp del: dq_free_list.simps)

end
