(* ===== verification/FFUBuffer.thy ===== *)
theory FFUBuffer
  imports FFDynqueue
begin

text \<open>
  The unbounded channel of FastFlow (\<open>libs/fastflow/ff/ubuffer.hpp\<close>): a chain of bounded buffers
  that grows when the producer fills the last one and shrinks when the consumer empties the
  first one; released buffers are recycled through the class \<open>BufferPool\<close>. The configuration is the
  default one (no batch operations, no statistics).
\<close>

definition CACHE_SIZE :: u64 where "CACHE_SIZE = 32"

text \<open>
  The buffers live in a store of their own; \<open>bp_inuse\<close> and \<open>bp_cache\<close> are the two bags of the
  class \<open>BufferPool\<close> and hold addresses.
\<close>

record 'a pool =
  bp_store :: "nat \<Rightarrow> 'a swsr option"
  bp_brk :: nat
  bp_inuse :: "nat dynqueue"
  bp_cache :: "nat swsr"

definition new_buffer :: "u64 \<Rightarrow> 'a pool \<Rightarrow> nat \<times> 'a pool" where
  "new_buffer n p = (bp_brk p, p\<lparr>bp_brk := bp_brk p + 1,
     bp_store := (bp_store p)(bp_brk p \<mapsto> snd (swsr_init False True False (SWSR_Ptr_Buffer n)))\<rparr>)"

definition delete_buffer :: "nat \<Rightarrow> 'a pool \<Rightarrow> 'a pool" where
  "delete_buffer b p = p\<lparr>bp_store := (bp_store p)(b := None)\<rparr>"

fun fill_cache :: "nat \<Rightarrow> u64 \<Rightarrow> 'a pool \<Rightarrow> 'a pool" where
  "fill_cache 0 n p = p"
| "fill_cache (Suc k) n p =
     (case new_buffer n p of (b, p) \<Rightarrow> fill_cache k n (p\<lparr>bp_cache := snd (swsr_push (bp_cache p) b)\<rparr>))"

definition BufferPool :: "u64 \<Rightarrow> bool \<Rightarrow> u64 \<Rightarrow> err + 'a pool" where
  "BufferPool cachesize fillcache n =
     (let p = \<lparr>bp_store = (\<lambda>_. None), bp_brk = 0, bp_inuse = dynqueue_new cachesize False,
           bp_cache = snd (swsr_init False True False (SWSR_Ptr_Buffer cachesize))\<rparr> in
      if fillcache then (if n = 0 then Inl AssertFailed else Inr (fill_cache (unat cachesize) n p))
      else Inr p)"

definition next_w :: "u64 \<Rightarrow> 'a pool \<Rightarrow> err + (nat \<times> 'a pool)" where
  "next_w n p =
     (case swsr_pop (bp_cache p) of
        (Some b, c) \<Rightarrow>
          (case dynqueue_push (bp_inuse p) b of Inl e \<Rightarrow> Inl e
           | Inr (_, d) \<Rightarrow> Inr (b, p\<lparr>bp_cache := c, bp_inuse := d\<rparr>))
      | (None, c) \<Rightarrow>
          (if n = 0 then Inl AssertFailed
           else (case new_buffer n (p\<lparr>bp_cache := c\<rparr>) of (b, p) \<Rightarrow>
             (case dynqueue_push (bp_inuse p) b of Inl e \<Rightarrow> Inl e | Inr (_, d) \<Rightarrow> Inr (b, p\<lparr>bp_inuse := d\<rparr>)))))"

definition next_r :: "'a pool \<Rightarrow> err + (nat option \<times> 'a pool)" where
  "next_r p = (case dynqueue_pop (bp_inuse p) of Inl e \<Rightarrow> Inl e | Inr (b, d) \<Rightarrow> Inr (b, p\<lparr>bp_inuse := d\<rparr>))"

definition release :: "nat \<Rightarrow> 'a pool \<Rightarrow> err + 'a pool" where
  "release b p =
     (case bp_store p b of None \<Rightarrow> Inl BadAccess
      | Some q \<Rightarrow>
        let p = p\<lparr>bp_store := (bp_store p)(b \<mapsto> swsr_reset False q)\<rparr> in
        (case swsr_push (bp_cache p) b of
           (True, c) \<Rightarrow> Inr (p\<lparr>bp_cache := c\<rparr>)
         | (False, c) \<Rightarrow> Inr (delete_buffer b (p\<lparr>bp_cache := c\<rparr>))))"

text \<open>\<open>reset\<close> empties the bag of buffers in use; \<open>k\<close> bounds the rounds.\<close>

fun pool_reset :: "nat \<Rightarrow> 'a pool \<Rightarrow> err + 'a pool" where
  "pool_reset 0 p = Inr p"
| "pool_reset (Suc k) p =
     (case next_r p of Inl e \<Rightarrow> Inl e
      | Inr (None, p) \<Rightarrow> Inr p
      | Inr (Some b, p) \<Rightarrow> (case release b p of Inl e \<Rightarrow> Inl e | Inr p \<Rightarrow> pool_reset k p))"

record 'a uswsr =
  buf_r :: nat
  buf_w :: nat
  in_use_buffers :: u64
  usize :: u64
  fixedsize :: bool
  pool :: "'a pool"

text \<open>
  Constructor and \<open>init\<close>: the first buffer is both read and written and is not in the pool.
  \<open>init\<close> fails for size 0.
\<close>

definition uswsr_new :: "u64 \<Rightarrow> bool \<Rightarrow> bool \<Rightarrow> err + (bool \<times> 'a uswsr)" where
  "uswsr_new n fixed fillcache =
     (case BufferPool CACHE_SIZE fillcache n of Inl e \<Rightarrow> Inl e
      | Inr p \<Rightarrow>
        (case new_buffer n p of (b, p) \<Rightarrow>
          Inr (n \<noteq> 0, \<lparr>buf_r = b, buf_w = b, in_use_buffers = 1, usize = n, fixedsize = fixed, pool = p\<rparr>)))"

definition buffer_at :: "'a uswsr \<Rightarrow> nat \<Rightarrow> 'a swsr option" where
  "buffer_at u b = bp_store (pool u) b"

definition set_buffer :: "nat \<Rightarrow> 'a swsr \<Rightarrow> 'a uswsr \<Rightarrow> 'a uswsr" where
  "set_buffer b q u = u\<lparr>pool := (pool u)\<lparr>bp_store := (bp_store (pool u))(b \<mapsto> q)\<rparr>\<rparr>"

definition uswsr_empty :: "'a uswsr \<Rightarrow> err + bool" where
  "uswsr_empty u = (case buffer_at u (buf_r u) of None \<Rightarrow> Inl BadAccess
     | Some q \<Rightarrow> Inr (swsr_empty q \<and> buf_r u = buf_w u))"

definition uswsr_available :: "'a uswsr \<Rightarrow> err + bool" where
  "uswsr_available u = (case buffer_at u (buf_w u) of None \<Rightarrow> Inl BadAccess
     | Some q \<Rightarrow> Inr (swsr_available q))"

text \<open>The store into the current write buffer; \<open>push\<close> ignores the result of the inner call.\<close>

definition put_w :: "'a \<Rightarrow> 'a uswsr \<Rightarrow> err + (bool \<times> 'a uswsr)" where
  "put_w x u = (case buffer_at u (buf_w u) of None \<Rightarrow> Inl BadAccess
     | Some q \<Rightarrow> Inr (True, set_buffer (buf_w u) (snd (swsr_push q x)) u))"

definition uswsr_push :: "'a \<Rightarrow> 'a uswsr \<Rightarrow> err + (bool \<times> 'a uswsr)" where
  "uswsr_push x u =
     (case uswsr_available u of Inl e \<Rightarrow> Inl e
      | Inr True \<Rightarrow> put_w x u
      | Inr False \<Rightarrow>
        if fixedsize u then Inr (False, u)
        else (case next_w (usize u) (pool u) of Inl e \<Rightarrow> Inl e
          | Inr (t, p) \<Rightarrow> put_w x (u\<lparr>pool := p, buf_w := t, in_use_buffers := in_use_buffers u + 1\<rparr>)))"

definition take_r :: "'a uswsr \<Rightarrow> err + ('a option \<times> 'a uswsr)" where
  "take_r u = (case buffer_at u (buf_r u) of None \<Rightarrow> Inl BadAccess
     | Some q \<Rightarrow> Inr (fst (swsr_pop q), set_buffer (buf_r u) (snd (swsr_pop q)) u))"

definition uswsr_pop :: "'a uswsr \<Rightarrow> err + ('a option \<times> 'a uswsr)" where
  "uswsr_pop u =
     (case buffer_at u (buf_r u) of None \<Rightarrow> Inl BadAccess
      | Some q \<Rightarrow>
        if swsr_empty q then
          (if buf_r u = buf_w u then Inr (None, u)
           else (case next_r (pool u) of Inl e \<Rightarrow> Inl e
             | Inr (None, p) \<Rightarrow> take_r (u\<lparr>pool := p\<rparr>)
             | Inr (Some t, p) \<Rightarrow>
               (case release (buf_r u) p of Inl e \<Rightarrow> Inl e
                | Inr p \<Rightarrow> take_r (u\<lparr>pool := p, in_use_buffers := in_use_buffers u - 1, buf_r := t\<rparr>))))
        else take_r u)"

definition uswsr_length :: "'a uswsr \<Rightarrow> err + u64" where
  "uswsr_length u =
     (case (buffer_at u (buf_r u), buffer_at u (buf_w u)) of
        (Some r, Some w) \<Rightarrow>
          if buf_r u = buf_w u then Inr (swsr_length r)
          else if \<not> 2 < in_use_buffers u then Inl AssertFailed
          else Inr (swsr_length r + (in_use_buffers u - 2) * usize u + swsr_length w)
      | _ \<Rightarrow> Inl BadAccess)"

definition uswsr_buffersize :: "'a uswsr \<Rightarrow> err + u64" where
  "uswsr_buffersize u = (if \<not> fixedsize u then Inr (- 1)
     else (case buffer_at u (buf_w u) of None \<Rightarrow> Inl BadAccess | Some q \<Rightarrow> Inr (bsize q)))"

definition uswsr_reset :: "nat \<Rightarrow> 'a uswsr \<Rightarrow> err + 'a uswsr" where
  "uswsr_reset k u =
     (case buffer_at u (buf_r u) of None \<Rightarrow> Inl BadAccess
      | Some r \<Rightarrow>
        let u = set_buffer (buf_r u) (swsr_reset False r) u in
        (case buffer_at u (buf_w u) of None \<Rightarrow> Inl BadAccess
         | Some w \<Rightarrow>
           let u = (set_buffer (buf_w u) (swsr_reset False w) u)\<lparr>buf_w := buf_r u\<rparr> in
           (case pool_reset k (pool u) of Inl e \<Rightarrow> Inl e | Inr p \<Rightarrow> Inr (u\<lparr>pool := p\<rparr>))))"

subsection \<open>Representation\<close>

text \<open>
  \<open>bs\<close> are the buffers after the read buffer; all but the first and the last are full. Buffers
  in the cache are empty; every allocated buffer is in one of these places.
\<close>

definition bitems :: "'a pool \<Rightarrow> nat \<Rightarrow> 'a list" where
  "bitems p b = (case bp_store p b of Some q \<Rightarrow> sw_items q | None \<Rightarrow> [])"

definition pool_rep :: "u64 \<Rightarrow> 'a pool \<Rightarrow> nat list \<Rightarrow> nat \<Rightarrow> bool" where
  "pool_rep n p bs r \<longleftrightarrow>
     dq_inv (bp_inuse p) \<and> dq_items (bp_inuse p) = bs \<and> sw_inv (bp_cache p) \<and>
     distinct (r # bs @ sw_items (bp_cache p)) \<and>
     dom (bp_store p) = set (r # bs @ sw_items (bp_cache p)) \<and>
     (\<forall>b\<in>dom (bp_store p). b < bp_brk p) \<and>
     (\<forall>b q. bp_store p b = Some q \<longrightarrow> sw_inv q \<and> bsize q = n) \<and>
     (\<forall>b\<in>set (sw_items (bp_cache p)). bitems p b = [])"

definition u_rep :: "'a uswsr \<Rightarrow> nat list \<Rightarrow> bool" where
  "u_rep u bs \<longleftrightarrow> 0 < usize u \<and> pool_rep (usize u) (pool u) bs (buf_r u) \<and>
     buf_w u = last (buf_r u # bs) \<and> in_use_buffers u = of_nat (length bs + 1) \<and>
     (\<forall>b\<in>set (butlast bs). length (bitems (pool u) b) = unat (usize u)) \<and>
     (bs \<noteq> [] \<longrightarrow> bitems (pool u) (last bs) \<noteq> [])"

definition u_items :: "'a uswsr \<Rightarrow> 'a list" where
  "u_items u = concat (map (bitems (pool u)) (buf_r u # dq_items (bp_inuse (pool u))))"

definition u_inv :: "'a uswsr \<Rightarrow> bool" where
  "u_inv u \<longleftrightarrow> (\<exists>bs. u_rep u bs)"

lemma pool_rep_parts:
  assumes "pool_rep n p bs r"
  shows "dq_inv (bp_inuse p)" "dq_items (bp_inuse p) = bs" "sw_inv (bp_cache p)"
    "distinct (r # bs @ sw_items (bp_cache p))" "dom (bp_store p) = set (r # bs @ sw_items (bp_cache p))"
    "\<And>b. b \<in> dom (bp_store p) \<Longrightarrow> b < bp_brk p"
    "\<And>b q. bp_store p b = Some q \<Longrightarrow> sw_inv q \<and> bsize q = n"
    "\<And>b. b \<in> set (sw_items (bp_cache p)) \<Longrightarrow> bitems p b = []"
  using assms unfolding pool_rep_def by blast+

lemma fresh_buffer:
  fixes q :: "'a swsr"
  assumes "0 < n" and "q = snd (swsr_init False True False (SWSR_Ptr_Buffer n))"
  shows "sw_inv q \<and> sw_items q = [] \<and> bsize q = n"
proof -
  have "bsize q = n" using assms by (auto simp: swsr_init_def SWSR_Ptr_Buffer_def swsr_reset_def Let_def word_gt_0)
  then show ?thesis using swsr_new [OF assms(1), where ?'a = 'a] assms(2) by simp
qed

lemma next_w_ok:
  fixes p :: "'a pool"
  assumes rep: "pool_rep n p bs r" and n: "0 < n"
  shows "\<exists>t p'. next_w n p = Inr (t, p') \<and> pool_rep n p' (bs @ [t]) r \<and> bitems p' t = [] \<and>
    (\<forall>b\<in>set (r # bs). bp_store p' b = bp_store p b)"
proof -
  note P = pool_rep_parts [OF rep]
  have push: "\<exists>d. dynqueue_push (bp_inuse p) t = Inr (True, d) \<and> dq_inv d \<and> dq_items d = bs @ [t]" for t
    using dq.enq_ok [OF P(1), of t] P(2) by simp
  show ?thesis
  proof (cases "sw_items (bp_cache p)")
    case Nil
    let ?t = "bp_brk p" and ?q = "snd (swsr_init False True False (SWSR_Ptr_Buffer n)) :: 'a swsr"
    obtain d where d: "dynqueue_push (bp_inuse p) ?t = Inr (True, d)" "dq_inv d" "dq_items d = bs @ [?t]"
      using push by blast
    let ?p = "p\<lparr>bp_brk := ?t + 1, bp_store := (bp_store p)(?t \<mapsto> ?q), bp_inuse := d\<rparr>"
    have t: "?t \<notin> set (r # bs)" using P(5,6) by fastforce
    have "next_w n p = Inr (?t, ?p)"
      using d(1) n by (simp add: next_w_def sw.pop_empty [OF P(3) Nil] new_buffer_def)
    moreover have "pool_rep n ?p (bs @ [?t]) r"
      unfolding pool_rep_def
    proof (intro conjI allI ballI impI)
      show "b < bp_brk ?p" if "b \<in> dom (bp_store ?p)" for b using that P(6) by (auto split: if_splits intro: less_SucI)
      show "sw_inv q" "bsize q = n" if "bp_store ?p b = Some q" for b q
        using that P(7) fresh_buffer [of n ?q, OF n refl] by (auto split: if_splits)
      show "bitems ?p b = []" if "b \<in> set (sw_items (bp_cache ?p))" for b using that Nil by simp
    qed (use P d t Nil in auto)
    moreover have "bitems ?p ?t = []" using fresh_buffer [of n ?q, OF n refl] by (simp add: bitems_def)
    ultimately show ?thesis using t by (intro exI [of _ ?t] exI [of _ ?p]) auto
  next
    case (Cons t ts)
    obtain c where c: "swsr_pop (bp_cache p) = (Some t, c)" "sw_inv c" "sw_items c = ts"
      using sw.pop_cons [OF P(3) Cons] sw.pop_inv [OF P(3)] by (cases "swsr_pop (bp_cache p)") auto
    obtain d where d: "dynqueue_push (bp_inuse p) t = Inr (True, d)" "dq_inv d" "dq_items d = bs @ [t]"
      using push by blast
    let ?p = "p\<lparr>bp_cache := c, bp_inuse := d\<rparr>"
    have "next_w n p = Inr (t, ?p)" using c d by (simp add: next_w_def)
    moreover have "pool_rep n ?p (bs @ [t]) r"
      unfolding pool_rep_def
    proof (intro conjI allI ballI impI)
      show "b < bp_brk ?p" if "b \<in> dom (bp_store ?p)" for b using that P(6) by simp
      show "sw_inv q" "bsize q = n" if "bp_store ?p b = Some q" for b q using that P(7) by auto
      show "bitems ?p b = []" if "b \<in> set (sw_items (bp_cache ?p))" for b
        using that P(8) [of b] c(3) Cons by (simp add: bitems_def)
    qed (use P c d Cons in auto)
    moreover have "bitems ?p t = []" using P(8) [of t] Cons by (simp add: bitems_def)
    ultimately show ?thesis by (intro exI [of _ t] exI [of _ ?p]) simp
  qed
qed

lemma next_r_ok:
  assumes rep: "pool_rep n p (t # bs) r" and n: "0 < n"
  shows "\<exists>p1 p2. next_r p = Inr (Some t, p1) \<and> release r p1 = Inr p2 \<and> pool_rep n p2 bs t \<and>
    (\<forall>b\<in>set (t # bs). bp_store p2 b = bp_store p b)"
proof -
  note P = pool_rep_parts [OF rep]
  obtain d where d: "dynqueue_pop (bp_inuse p) = Inr (Some t, d)" "dq_inv d" "dq_items d = bs"
    using dq.deq_cons [OF P(1,2)] by blast
  let ?p1 = "p\<lparr>bp_inuse := d\<rparr>"
  have nr: "next_r p = Inr (Some t, ?p1)" using d(1) by (simp add: next_r_def)
  obtain q where q: "bp_store p r = Some q" using P(5) by fastforce
  have qn: "bsize q = n" using P(7) [OF q] by simp
  have e: "sw_inv (swsr_reset False q)" "sw_items (swsr_reset False q) = []" "bsize (swsr_reset False q) = n"
    using swsr_reset_inv [of q False] n qn by (auto simp: swsr_reset_def Let_def)
  let ?s = "(bp_store p)(r \<mapsto> swsr_reset False q)"
  show ?thesis
  proof (cases "length (sw_items (bp_cache p)) < sw_capacity (bp_cache p)")
    case True
    obtain c where c: "swsr_push (bp_cache p) r = (True, c)" "sw_items c = sw_items (bp_cache p) @ [r]" "sw_inv c"
      using sw.push_room [OF P(3) True, of r] sw.push_inv [OF P(3), of r] by (cases "swsr_push (bp_cache p) r") auto
    let ?p2 = "?p1\<lparr>bp_store := ?s, bp_cache := c\<rparr>"
    have "release r ?p1 = Inr ?p2" using q c(1) by (simp add: release_def Let_def)
    moreover have "pool_rep n ?p2 bs t"
      unfolding pool_rep_def
    proof (intro conjI allI ballI impI)
      show "b < bp_brk ?p2" if "b \<in> dom (bp_store ?p2)" for b using that P(6) q by (auto split: if_splits)
      show "sw_inv x" "bsize x = n" if "bp_store ?p2 b = Some x" for b x
        using that P(7) e by (auto split: if_splits)
      show "bitems ?p2 b = []" if "b \<in> set (sw_items (bp_cache ?p2))" for b
        using that P(8) [of b] c(2) e(2) by (auto simp: bitems_def)
    qed (use P c d in auto)
    ultimately show ?thesis using nr P(4) by (intro exI [of _ ?p1] exI [of _ ?p2]) auto
  next
    case False
    then have "length (sw_items (bp_cache p)) = sw_capacity (bp_cache p)"
      using sw.items_bound [OF P(3)] by simp
    then have c: "swsr_push (bp_cache p) r = (False, bp_cache p)" by (rule sw.push_full [OF P(3)])
    let ?p2 = "delete_buffer r (?p1\<lparr>bp_store := ?s\<rparr>)"
    have "release r ?p1 = Inr ?p2" using q c by (simp add: release_def Let_def)
    moreover have "pool_rep n ?p2 bs t"
      unfolding pool_rep_def
    proof (intro conjI allI ballI impI)
      show "b < bp_brk ?p2" if "b \<in> dom (bp_store ?p2)" for b
        using that P(6) by (auto simp: delete_buffer_def split: if_splits)
      show "sw_inv x" "bsize x = n" if "bp_store ?p2 b = Some x" for b x
        using that P(7) by (auto simp: delete_buffer_def split: if_splits)
      show "bitems ?p2 b = []" if "b \<in> set (sw_items (bp_cache ?p2))" for b
        using that P(8) [of b] by (auto simp: bitems_def delete_buffer_def)
      have "dom (bp_store ?p2) = dom (bp_store p) - {r}"
        using q by (auto simp: delete_buffer_def split: if_splits)
      then show "dom (bp_store ?p2) = set (t # bs @ sw_items (bp_cache ?p2))"
        using P(4,5) by (auto simp: delete_buffer_def)
    qed (use P d in \<open>auto simp: delete_buffer_def\<close>)
    ultimately show ?thesis using nr P(4) by (intro exI [of _ ?p1] exI [of _ ?p2]) (auto simp: delete_buffer_def)
  qed
qed

lemma bitems_set: "bitems (pool (set_buffer b q u)) x = (if x = b then sw_items q else bitems (pool u) x)"
  by (simp add: bitems_def set_buffer_def)

lemma set_buffer_rep:
  assumes "pool_rep n (pool u) bs r" and "b \<in> set (r # bs)" and "sw_inv q" and "bsize q = n"
  shows "pool_rep n (pool (set_buffer b q u)) bs r"
proof -
  note P = pool_rep_parts [OF assms(1)]
  show ?thesis
    unfolding pool_rep_def
  proof (intro conjI allI ballI impI)
    let ?p = "pool (set_buffer b q u)"
    have b: "b \<in> dom (bp_store (pool u))" using P(5) assms(2) by auto
    show "x < bp_brk ?p" if "x \<in> dom (bp_store ?p)" for x
      using that P(6) b by (auto simp: set_buffer_def split: if_splits)
    show "sw_inv x" "bsize x = n" if "bp_store ?p c = Some x" for c x
      using that P(7) assms(3,4) by (auto simp: set_buffer_def split: if_splits)
    show "bitems ?p x = []" if "x \<in> set (sw_items (bp_cache ?p))" for x
      using that P(4) P(8) [of x] assms(2) by (auto simp: bitems_def set_buffer_def)
    show "dom (bp_store ?p) = set (r # bs @ sw_items (bp_cache ?p))"
      using P(5) b by (auto simp: set_buffer_def)
  qed (use P in \<open>auto simp: set_buffer_def\<close>)
qed

lemma u_rep_items: "u_rep u bs \<Longrightarrow> u_items u = concat (map (bitems (pool u)) (buf_r u # bs)) \<and> dq_items (bp_inuse (pool u)) = bs"
  by (simp add: u_rep_def u_items_def pool_rep_def)

text \<open>Storing into the write buffer when it has room.\<close>

lemma put_w_ok:
  assumes pr: "0 < usize u" "pool_rep (usize u) (pool u) bs (buf_r u)" and w: "buf_w u = last (buf_r u # bs)"
    and iu: "in_use_buffers u = of_nat (length bs + 1)"
    and full: "\<forall>b\<in>set (butlast bs). length (bitems (pool u) b) = unat (usize u)"
    and room: "length (bitems (pool u) (buf_w u)) < unat (usize u)"
  shows "\<exists>u'. put_w x u = Inr (True, u') \<and> u_rep u' bs \<and> fixedsize u' = fixedsize u \<and>
    u_items u' = concat (map (bitems (pool u)) (buf_r u # bs)) @ [x]"
proof -
  note P = pool_rep_parts [OF pr(2)]
  have win: "buf_w u \<in> set (buf_r u # bs)" unfolding w by (rule last_in_set) simp
  then obtain q where q: "bp_store (pool u) (buf_w u) = Some q" using P(5) by fastforce
  have qi: "sw_inv q" "bsize q = usize u" using P(7) [OF q] by auto
  have bq: "bitems (pool u) (buf_w u) = sw_items q" using q by (simp add: bitems_def)
  let ?q = "snd (swsr_push q x)"
  have q': "sw_inv ?q" "sw_items ?q = sw_items q @ [x]" "bsize ?q = usize u"
    using swsr_push_room [OF qi(1), of x] room qi(2) bq by simp_all
  let ?u = "set_buffer (buf_w u) ?q u"
  have f: "buf_r ?u = buf_r u" "buf_w ?u = buf_w u" "usize ?u = usize u" "in_use_buffers ?u = in_use_buffers u"
    "fixedsize ?u = fixedsize u"
    by (simp_all add: set_buffer_def)
  have rep: "pool_rep (usize u) (pool ?u) bs (buf_r u)"
    by (rule set_buffer_rep [OF pr(2) win q'(1,3)])
  obtain ys where ys: "buf_r u # bs = ys @ [buf_w u]" unfolding w by (metis append_butlast_last_id list.distinct(1))
  then have d: "buf_w u \<notin> set ys" using P(4) by (metis append.assoc append_Cons distinct_append not_distinct_conv_prefix)
  have e: "map (bitems (pool ?u)) ys = map (bitems (pool u)) ys"
    using d by (intro map_cong refl) (auto simp: bitems_set)
  then have items: "concat (map (bitems (pool ?u)) (buf_r u # bs)) = concat (map (bitems (pool u)) (buf_r u # bs)) @ [x]"
    unfolding ys map_append concat_append e by (simp add: bitems_set q'(2) bq)
  have "ys = butlast (buf_r u # bs)" unfolding ys by simp
  then have bl: "set (butlast bs) \<subseteq> set ys" by (cases bs) auto
  have "u_rep ?u bs"
    unfolding u_rep_def f
  proof (intro conjI ballI impI)
    show "length (bitems (pool ?u) b) = unat (usize u)" if "b \<in> set (butlast bs)" for b
      using that full bl d by (auto simp: bitems_set)
    show "bitems (pool ?u) (last bs) \<noteq> []" if "bs \<noteq> []"
      using that w by (simp add: bitems_set q'(2))
  qed (use pr w iu rep in auto)
  moreover have "put_w x u = Inr (True, ?u)" by (simp add: put_w_def buffer_at_def q)
  ultimately show ?thesis using items u_rep_items [of ?u bs] f by auto
qed

lemma uswsr_push_ok:
  assumes rep: "u_rep u bs"
  shows "if fixedsize u \<and> length (bitems (pool u) (buf_w u)) = unat (usize u) then uswsr_push x u = Inr (False, u)
    else \<exists>u' bs'. uswsr_push x u = Inr (True, u') \<and> u_rep u' bs' \<and> fixedsize u' = fixedsize u \<and> u_items u' = u_items u @ [x]"
proof -
  have R: "0 < usize u" "pool_rep (usize u) (pool u) bs (buf_r u)" "buf_w u = last (buf_r u # bs)"
    "in_use_buffers u = of_nat (length bs + 1)" "\<forall>b\<in>set (butlast bs). length (bitems (pool u) b) = unat (usize u)"
    using rep by (simp_all add: u_rep_def)
  note P = pool_rep_parts [OF R(2)]
  have win: "buf_w u \<in> set (buf_r u # bs)" unfolding R(3) by (rule last_in_set) simp
  then obtain q where q: "bp_store (pool u) (buf_w u) = Some q" using P(5) by fastforce
  have qi: "sw_inv q" "bsize q = usize u" using P(7) [OF q] by auto
  have bq: "bitems (pool u) (buf_w u) = sw_items q" using q by (simp add: bitems_def)
  have av: "uswsr_available u = Inr (length (sw_items q) < unat (usize u))"
    using swsr_available_iff [OF qi(1)] qi(2) by (simp add: uswsr_available_def buffer_at_def q)
  have le: "length (sw_items q) \<le> unat (usize u)" using sw_items_bound [OF qi(1)] qi(2) by simp
  show ?thesis
  proof (cases "length (sw_items q) < unat (usize u)")
    case True
    then have "uswsr_push x u = put_w x u" using av by (simp add: uswsr_push_def)
    then show ?thesis using put_w_ok [OF R, of x] True bq u_rep_items [OF rep] by fastforce
  next
    case False
    then have full: "length (bitems (pool u) (buf_w u)) = unat (usize u)" using le bq by simp
    show ?thesis
    proof (cases "fixedsize u")
      case True
      then show ?thesis using full False av by (simp add: uswsr_push_def)
    next
      case nf: False
      obtain t p where t: "next_w (usize u) (pool u) = Inr (t, p)" "pool_rep (usize u) p (bs @ [t]) (buf_r u)"
        "bitems p t = []" "\<forall>b\<in>set (buf_r u # bs). bp_store p b = bp_store (pool u) b"
        using next_w_ok [OF R(2,1)] by blast
      let ?u = "u\<lparr>pool := p, buf_w := t, in_use_buffers := in_use_buffers u + 1\<rparr>"
      have same: "bitems p b = bitems (pool u) b" if "b \<in> set (buf_r u # bs)" for b
      proof -
        have "bp_store p b = bp_store (pool u) b" using t(4) that by blast
        then show ?thesis by (simp add: bitems_def)
      qed
      have full': "length (bitems (pool u) b) = unat (usize u)" if "b \<in> set bs" for b
      proof -
        have "bs = butlast bs @ [last bs]" using that by (metis append_butlast_last_id list.set_cases list.distinct(1))
        then have "b \<in> set (butlast bs) \<or> b = last bs" using that by (metis Un_iff empty_iff insert_iff list.set set_append)
        moreover have "last bs = buf_w u" using that R(3) by auto
        ultimately show ?thesis using R(5) full by auto
      qed
      obtain u' where u': "put_w x ?u = Inr (True, u')" "u_rep u' (bs @ [t])" "fixedsize u' = fixedsize u"
        "u_items u' = concat (map (bitems p) (buf_r u # bs @ [t])) @ [x]"
      proof -
      have "\<exists>u'. put_w x ?u = Inr (True, u') \<and> u_rep u' (bs @ [t]) \<and> fixedsize u' = fixedsize ?u \<and>
          u_items u' = concat (map (bitems (pool ?u)) (buf_r ?u # bs @ [t])) @ [x]"
      proof (rule put_w_ok)
        show "\<forall>b\<in>set (butlast (bs @ [t])). length (bitems (pool ?u) b) = unat (usize ?u)"
          using same full' by simp
      qed (use R(1,4) t(2,3) in \<open>simp_all add: word_less_nat_alt\<close>)
      then show thesis using that by auto
      qed
      moreover have "u_items u' = u_items u @ [x]"
      proof -
        have e: "map (bitems p) bs = map (bitems (pool u)) bs"
          by (intro map_cong refl same) simp
        have r: "bitems p (buf_r u) = bitems (pool u) (buf_r u)" by (rule same) simp
        show ?thesis unfolding u'(4) by (simp add: e r t(3) u_rep_items [OF rep])
      qed
      moreover have "uswsr_push x u = put_w x ?u" using False nf av t(1) by (simp add: uswsr_push_def)
      ultimately show ?thesis using nf u'(1,2,3) by auto
    qed
  qed
qed

lemma take_r_ok:
  assumes rep: "u_rep u bs" and x: "bitems (pool u) (buf_r u) = x # xs"
  shows "\<exists>u'. take_r u = Inr (Some x, u') \<and> u_rep u' bs \<and> fixedsize u' = fixedsize u \<and>
    u_items u = x # u_items u'"
proof -
  have R: "0 < usize u" "pool_rep (usize u) (pool u) bs (buf_r u)" "buf_w u = last (buf_r u # bs)"
    "in_use_buffers u = of_nat (length bs + 1)" "\<forall>b\<in>set (butlast bs). length (bitems (pool u) b) = unat (usize u)"
    "bs \<noteq> [] \<Longrightarrow> bitems (pool u) (last bs) \<noteq> []"
    using rep by (simp_all add: u_rep_def)
  note P = pool_rep_parts [OF R(2)]
  obtain q where q: "bp_store (pool u) (buf_r u) = Some q" using P(5) by fastforce
  have qi: "sw_inv q" "bsize q = usize u" using P(7) [OF q] by auto
  have bq: "sw_items q = x # xs" using x q by (simp add: bitems_def)
  let ?q = "snd (swsr_pop q)"
  have q': "fst (swsr_pop q) = Some x" "sw_inv ?q" "sw_items ?q = xs" "bsize ?q = usize u"
    using swsr_pop_Cons [OF qi(1) bq] qi(2) by simp_all
  let ?u = "set_buffer (buf_r u) ?q u"
  have f: "buf_r ?u = buf_r u" "buf_w ?u = buf_w u" "usize ?u = usize u" "in_use_buffers ?u = in_use_buffers u"
    "fixedsize ?u = fixedsize u"
    by (simp_all add: set_buffer_def)
  have rep': "pool_rep (usize u) (pool ?u) bs (buf_r u)"
    by (rule set_buffer_rep [OF R(2) _ q'(2,4)]) simp
  have ne: "b \<noteq> buf_r u" if "b \<in> set bs" for b using P(4) that by auto
  have e: "map (bitems (pool ?u)) bs = map (bitems (pool u)) bs"
    using ne by (intro map_cong refl) (simp add: bitems_set)
  have "u_rep ?u bs"
    unfolding u_rep_def f
  proof (intro conjI ballI impI)
    show "length (bitems (pool ?u) b) = unat (usize u)" if "b \<in> set (butlast bs)" for b
      using that R(5) ne [OF in_set_butlastD [OF that]] by (simp add: bitems_set)
    show "bitems (pool ?u) (last bs) \<noteq> []" if "bs \<noteq> []"
      using R(6) [OF that] ne [OF last_in_set [OF that]] by (simp add: bitems_set)
  qed (use R rep' in auto)
  moreover have "u_items u = x # u_items ?u"
    using u_rep_items [OF rep] u_rep_items [OF calculation] x by (simp add: e f bitems_set q'(3))
  ultimately show ?thesis using q'(1) f by (simp add: take_r_def buffer_at_def q)
qed

lemma uswsr_pop_empty:
  assumes rep: "u_rep u bs" and e: "u_items u = []"
  shows "uswsr_pop u = Inr (None, u)"
proof -
  have R: "pool_rep (usize u) (pool u) bs (buf_r u)" "buf_w u = last (buf_r u # bs)"
    "bs \<noteq> [] \<Longrightarrow> bitems (pool u) (last bs) \<noteq> []"
    using rep by (simp_all add: u_rep_def)
  note P = pool_rep_parts [OF R(1)]
  obtain q where q: "bp_store (pool u) (buf_r u) = Some q" using P(5) by fastforce
  have all: "\<forall>b\<in>set (buf_r u # bs). bitems (pool u) b = []" using u_rep_items [OF rep] e by auto
  then have "bs = []" using R(3) last_in_set by fastforce
  moreover have "swsr_empty q" using swsr_empty_iff [of q] P(7) [OF q] all q by (auto simp: bitems_def)
  ultimately show ?thesis using R(2) by (simp add: uswsr_pop_def buffer_at_def q)
qed

lemma uswsr_pop_ok:
  assumes rep: "u_rep u bs" and x: "u_items u = x # xs"
  shows "\<exists>u' bs'. uswsr_pop u = Inr (Some x, u') \<and> u_rep u' bs' \<and> fixedsize u' = fixedsize u \<and> u_items u' = xs"
proof -
  have R: "0 < usize u" "pool_rep (usize u) (pool u) bs (buf_r u)" "buf_w u = last (buf_r u # bs)"
    "in_use_buffers u = of_nat (length bs + 1)" "\<forall>b\<in>set (butlast bs). length (bitems (pool u) b) = unat (usize u)"
    "bs \<noteq> [] \<Longrightarrow> bitems (pool u) (last bs) \<noteq> []"
    using rep by (simp_all add: u_rep_def)
  note P = pool_rep_parts [OF R(2)]
  obtain q where q: "bp_store (pool u) (buf_r u) = Some q" using P(5) by fastforce
  have qi: "sw_inv q" and bq: "bitems (pool u) (buf_r u) = sw_items q" using P(7) [OF q] q by (auto simp: bitems_def)
  show ?thesis
  proof (cases "sw_items q")
    case (Cons y ys)
    then have "\<not> swsr_empty q" using swsr_empty_iff [OF qi] by simp
    then have "uswsr_pop u = take_r u" by (simp add: uswsr_pop_def buffer_at_def q)
    then show ?thesis using take_r_ok [OF rep, of y ys] bq Cons x by fastforce
  next
    case Nil
    then have em: "swsr_empty q" using swsr_empty_iff [OF qi] by simp
    have "bs \<noteq> []" using u_rep_items [OF rep] x bq Nil by auto
    then obtain t bs' where bs: "bs = t # bs'" by (cases bs) auto
    have ne: "buf_r u \<noteq> buf_w u" using R(3) P(4) bs last_in_set [of "t # bs'"] by auto
    obtain p1 p2 where p: "next_r (pool u) = Inr (Some t, p1)" "release (buf_r u) p1 = Inr p2"
      "pool_rep (usize u) p2 bs' t" "\<forall>b\<in>set (t # bs'). bp_store p2 b = bp_store (pool u) b"
      using next_r_ok [OF R(2) [unfolded bs] R(1)] by blast
    have same: "bitems p2 b = bitems (pool u) b" if "b \<in> set (t # bs')" for b
    proof -
      have "bp_store p2 b = bp_store (pool u) b" using p(4) that by blast
      then show ?thesis by (simp add: bitems_def)
    qed
    let ?u = "u\<lparr>pool := p2, in_use_buffers := in_use_buffers u - 1, buf_r := t\<rparr>"
    have rep': "u_rep ?u bs'"
      unfolding u_rep_def
    proof (intro conjI ballI impI)
      show "length (bitems (pool ?u) b) = unat (usize ?u)" if "b \<in> set (butlast bs')" for b
      proof -
        have "b \<in> set bs'" "b \<in> set (butlast bs)" using that in_set_butlastD [OF that] bs by (cases bs'; simp)+
        then show ?thesis using R(5) same [of b] by simp
      qed
      show "bitems (pool ?u) (last bs') \<noteq> []" if "bs' \<noteq> []"
        using R(6) same [of "last bs'"] that bs by simp
    qed (use R(1,3,4) p(3) bs in auto)
    have items: "u_items ?u = u_items u"
      using u_rep_items [OF rep] u_rep_items [OF rep'] bq Nil bs by (simp add: same cong: map_cong)
    have "bitems (pool ?u) (buf_r ?u) \<noteq> []"
    proof (cases bs')
      case Nil
      then show ?thesis using R(6) bs same [of t] by simp
    next
      case (Cons b' bs'')
      then have "length (bitems (pool u) t) = unat (usize u)" using R(5) bs by simp
      then show ?thesis using same [of t] R(1) by (auto simp: word_gt_0 unat_eq_zero)
    qed
    then obtain y ys where y: "bitems (pool ?u) (buf_r ?u) = y # ys" by (cases "bitems (pool ?u) (buf_r ?u)") auto
    have "uswsr_pop u = take_r ?u" using em ne p(1,2) by (simp add: uswsr_pop_def buffer_at_def q)
    then show ?thesis using take_r_ok [OF rep' y] items x by fastforce
  qed
qed

subsection \<open>The interface\<close>

definition uf_inv :: "'a uswsr \<Rightarrow> bool" where
  "uf_inv u \<longleftrightarrow> u_inv u \<and> \<not> fixedsize u"

interpretation us: unbounded_fifo "\<lambda>u x. uswsr_push x u" uswsr_pop u_items uf_inv
proof unfold_locales
  fix u :: "'a uswsr" and x
  assume "uf_inv u"
  then obtain bs where "u_rep u bs" "\<not> fixedsize u" by (auto simp: uf_inv_def u_inv_def)
  then show "\<exists>u'. uswsr_push x u = Inr (True, u') \<and> uf_inv u' \<and> u_items u' = u_items u @ [x]"
    using uswsr_push_ok [of u bs x] by (fastforce simp: uf_inv_def u_inv_def)
next
  fix u :: "'a uswsr"
  assume "uf_inv u" and "u_items u = []"
  then show "uswsr_pop u = Inr (None, u)" using uswsr_pop_empty by (auto simp: uf_inv_def u_inv_def)
next
  fix u :: "'a uswsr" and x xs
  assume "uf_inv u" and x: "u_items u = x # xs"
  then obtain bs where "u_rep u bs" "\<not> fixedsize u" by (auto simp: uf_inv_def u_inv_def)
  then show "\<exists>u'. uswsr_pop u = Inr (Some x, u') \<and> uf_inv u' \<and> u_items u' = xs"
    using uswsr_pop_ok [of u bs x xs] x by (fastforce simp: uf_inv_def u_inv_def)
qed

subsection \<open>Construction and length\<close>

text \<open>The pool before the first buffer is taken.\<close>

definition pool_fresh :: "u64 \<Rightarrow> 'a pool \<Rightarrow> bool" where
  "pool_fresh n p \<longleftrightarrow>
     dq_inv (bp_inuse p) \<and> dq_items (bp_inuse p) = [] \<and> sw_inv (bp_cache p) \<and>
     distinct (sw_items (bp_cache p)) \<and> dom (bp_store p) = set (sw_items (bp_cache p)) \<and>
     (\<forall>b\<in>dom (bp_store p). b < bp_brk p) \<and>
     (\<forall>b q. bp_store p b = Some q \<longrightarrow> sw_inv q \<and> bsize q = n \<and> sw_items q = [])"

lemma fill_cache_fresh:
  assumes n: "0 < n"
  shows "pool_fresh n p \<Longrightarrow> length (sw_items (bp_cache p)) + k \<le> sw_capacity (bp_cache p) \<Longrightarrow>
    pool_fresh n (fill_cache k n p)"
proof (induction k arbitrary: p)
  case (Suc k)
  let ?b = "bp_brk p" and ?q = "snd (swsr_init False True False (SWSR_Ptr_Buffer n)) :: 'a swsr"
  have inv: "sw_inv (bp_cache p)" using Suc.prems(1) by (simp add: pool_fresh_def)
  have room: "length (sw_items (bp_cache p)) < sw_capacity (bp_cache p)" using Suc.prems(2) by simp
  let ?c = "snd (swsr_push (bp_cache p) ?b)"
  have c: "sw_items ?c = sw_items (bp_cache p) @ [?b]" "sw_inv ?c" "sw_capacity ?c = sw_capacity (bp_cache p)"
    using sw.push_room [OF inv room, of ?b] sw.push_inv [OF inv, of ?b] by auto
  let ?p = "p\<lparr>bp_brk := ?b + 1, bp_store := (bp_store p)(?b \<mapsto> ?q), bp_cache := ?c\<rparr>"
  have b: "?b \<notin> dom (bp_store p)" using Suc.prems(1) by (auto simp: pool_fresh_def)
  have "pool_fresh n ?p"
    using Suc.prems(1) c b fresh_buffer [of n ?q, OF n refl] unfolding pool_fresh_def
    by (auto simp: less_Suc_eq)
  then have "pool_fresh n (fill_cache k n ?p)"
    using Suc.prems(2) c by (intro Suc.IH) simp_all
  then show ?case by (simp add: new_buffer_def)
qed simp

lemma uswsr_new_ok:
  assumes n: "0 < n"
  shows "\<exists>u :: 'a uswsr. uswsr_new n fixed fill = Inr (True, u) \<and> u_rep u [] \<and> u_items u = [] \<and> fixedsize u = fixed \<and> usize u = n"
proof -
  let ?c = "snd (swsr_init False True False (SWSR_Ptr_Buffer CACHE_SIZE)) :: nat swsr"
  let ?p = "\<lparr>bp_store = (\<lambda>_. None), bp_brk = 0, bp_inuse = dynqueue_new CACHE_SIZE False, bp_cache = ?c\<rparr> :: 'a pool"
  have cs: "0 < CACHE_SIZE" by (simp add: CACHE_SIZE_def)
  have c: "sw_inv ?c" "sw_items ?c = []" "bsize ?c = CACHE_SIZE"
    using fresh_buffer [of CACHE_SIZE ?c, OF cs refl] by simp_all
  have d: "dq_inv (dynqueue_new CACHE_SIZE False :: nat dynqueue)" "dq_items (dynqueue_new CACHE_SIZE False :: nat dynqueue) = []"
    using dynqueue_new_rep [OF cs, of False, where ?'a = nat] dq_rep_items unfolding dq_inv_def by blast+
  have f: "pool_fresh n ?p" using c d by (simp add: pool_fresh_def)
  then have "pool_fresh n (fill_cache (unat CACHE_SIZE) n ?p)"
    using c by (intro fill_cache_fresh [OF n]) (simp_all add: sw_capacity_def)
  moreover have "n \<noteq> 0" using n by auto
  ultimately have "BufferPool CACHE_SIZE fill n = Inr (if fill then fill_cache (unat CACHE_SIZE) n ?p else ?p) \<and>
      pool_fresh n (if fill then fill_cache (unat CACHE_SIZE) n ?p else ?p)"
    using f by (simp add: BufferPool_def Let_def)
  then obtain p where p: "BufferPool CACHE_SIZE fill n = Inr p" "pool_fresh n (p :: 'a pool)" by blast
  let ?b = "bp_brk p" and ?q = "snd (swsr_init False True False (SWSR_Ptr_Buffer n)) :: 'a swsr"
  let ?p' = "p\<lparr>bp_brk := ?b + 1, bp_store := (bp_store p)(?b \<mapsto> ?q)\<rparr>"
  have fb: "sw_inv ?q" "sw_items ?q = []" "bsize ?q = n" using fresh_buffer [of n ?q, OF n refl] by simp_all
  have b: "?b \<notin> dom (bp_store p)" using p(2) by (auto simp: pool_fresh_def)
  have "pool_rep n ?p' [] ?b"
    using p(2) b fb unfolding pool_fresh_def pool_rep_def
    by (auto simp: bitems_def less_Suc_eq split: if_splits option.splits)
  then have rep: "u_rep \<lparr>buf_r = ?b, buf_w = ?b, in_use_buffers = 1, usize = n, fixedsize = fixed, pool = ?p'\<rparr> []"
    using n by (simp add: u_rep_def)
  then show ?thesis
    using u_rep_items [OF rep] p(1) fb n by (auto simp: uswsr_new_def new_buffer_def bitems_def)
qed

lemma length_concat_const: "\<forall>b\<in>set ms. length (f b) = k \<Longrightarrow> length (concat (map f ms)) = length ms * k"
  by (induction ms) simp_all

lemma unat_of_nat_small: "k < 2 ^ 64 \<Longrightarrow> unat (of_nat k :: u64) = k"
  by (simp only: unat_of_nat) simp

lemma uswsr_length_ok:
  assumes rep: "u_rep u bs" and n: "unat (usize u) < 2 ^ 63" and bs: "length bs + 1 < 2 ^ 64"
  shows "uswsr_length u = (if length bs = 1 then Inl AssertFailed else Inr (of_nat (length (u_items u))))"
proof -
  have R: "pool_rep (usize u) (pool u) bs (buf_r u)" "buf_w u = last (buf_r u # bs)"
    "in_use_buffers u = of_nat (length bs + 1)" "\<forall>b\<in>set (butlast bs). length (bitems (pool u) b) = unat (usize u)"
    using rep by (simp_all add: u_rep_def)
  note P = pool_rep_parts [OF R(1)]
  obtain r where r: "bp_store (pool u) (buf_r u) = Some r" using P(5) by fastforce
  have "buf_w u \<in> set (buf_r u # bs)" unfolding R(2) by (rule last_in_set) simp
  then obtain w where w: "bp_store (pool u) (buf_w u) = Some w" using P(5) by fastforce
  have l: "swsr_length q = of_nat (length (bitems (pool u) b))" if "bp_store (pool u) b = Some q" for b q
  proof -
    have "unat (swsr_length q) = length (bitems (pool u) b)"
      using swsr_length_items [of q] P(7) [OF that] n that by (simp add: bitems_def)
    moreover have "of_nat (unat (swsr_length q)) = swsr_length q" by simp
    ultimately show ?thesis by metis
  qed
  have iu: "unat (in_use_buffers u) = length bs + 1"
    using unat_of_nat_small [OF bs] R(3) by simp
  show ?thesis
  proof (cases bs rule: rev_cases)
    case Nil
    then show ?thesis using R(2) l [OF r] u_rep_items [OF rep] by (simp add: uswsr_length_def buffer_at_def r)
  next
    case (snoc ms b)
    then have ne: "buf_r u \<noteq> buf_w u" using R(2) P(4) by auto
    have "length (concat (map (bitems (pool u)) ms)) = length ms * unat (usize u)"
      using R(4) snoc by (intro length_concat_const) simp
    then have "length (u_items u) = length (bitems (pool u) (buf_r u)) + length ms * unat (usize u) + length (bitems (pool u) b)"
      using u_rep_items [OF rep] snoc by simp
    moreover have b: "buf_w u = b" using R(2) snoc by simp
    moreover have "bp_store (pool u) b = Some w" using w b by simp
    ultimately show ?thesis
      using ne l [OF r] l [OF w] R(3) iu snoc
      by (cases ms) (simp_all add: uswsr_length_def buffer_at_def r word_less_nat_alt distrib_right)
  qed
qed

subsection \<open>Properties\<close>

lemma u_rep_store:
  assumes "u_rep u bs"
  shows "dom (bp_store (pool u)) = set (buf_r u # dq_items (bp_inuse (pool u)) @ sw_items (bp_cache (pool u))) \<and>
    distinct (buf_r u # dq_items (bp_inuse (pool u)) @ sw_items (bp_cache (pool u)))"
  using assms by (auto simp: u_rep_def pool_rep_def)

text \<open>
  C20. For every sequence of pushes and pops, in any order, the unbounded channel returns exactly
  what an unbounded queue held as a list returns: every push answers \<open>true\<close>, a pop answers the oldest
  element or, on the empty channel, nothing; so it is, whatever the size of the internal buffers and
  however often they are recycled. No operation touches a released buffer, and afterwards the
  allocated internal buffers are exactly the one that is read, those waiting behind it and those in
  the cache, each once: none is lost.
\<close>

theorem uswsr_fifo:
  assumes "0 < n"
  shows "\<exists>u0 u. uswsr_new n False fillcache = Inr (True, u0) \<and>
    run_ops (\<lambda>u x. uswsr_push x u) uswsr_pop u0 os = Inr (fst (spec_ops [] os), u) \<and>
    u_items u = snd (spec_ops [] os) \<and>
    dom (bp_store (pool u)) = set (buf_r u # dq_items (bp_inuse (pool u)) @ sw_items (bp_cache (pool u))) \<and>
    distinct (buf_r u # dq_items (bp_inuse (pool u)) @ sw_items (bp_cache (pool u)))"
proof -
  obtain u0 :: "'a uswsr" where u0: "uswsr_new n False fillcache = Inr (True, u0)" "uf_inv u0" "u_items u0 = []"
    using uswsr_new_ok [OF assms, of False fillcache, where ?'a = 'a] by (auto simp: uf_inv_def u_inv_def)
  obtain u where u: "run_ops (\<lambda>u x. uswsr_push x u) uswsr_pop u0 os = Inr (fst (spec_ops [] os), u)"
    "uf_inv u" "u_items u = snd (spec_ops [] os)"
    using us.run_ops_ok [OF u0(2), of os] u0(3) by auto
  then obtain bs where "u_rep u bs" by (auto simp: uf_inv_def u_inv_def)
  then show ?thesis using u0(1) u(1,3) u_rep_store by blast
qed

theorem uswsr_fifo_witness:
  "\<exists>u0 u :: nat uswsr. uswsr_new 1 False True = Inr (True, u0) \<and>
    run_ops (\<lambda>u x. uswsr_push x u) uswsr_pop u0 demo_ops =
      Inr ([Pushed True, Pushed True, Pushed True, Popped (Some 1), Popped (Some 2), Pushed True,
        Popped (Some 3), Popped (Some 4), Popped None], u) \<and> u_items u = []"
  using uswsr_fifo [of 1 True demo_ops] unfolding demo_spec by auto

text \<open>
  \<open>length\<close> is exact, except that its assertion \<open>in_use_buffers > 2\<close> stops the program when
  exactly two internal buffers are in use, a state that pushing one element more than a buffer
  holds reaches.
\<close>

theorem uswsr_length_assertion:
  assumes "u_rep u bs" and "unat (usize u) < 2 ^ 63" and "length bs + 1 < 2 ^ 64"
  shows "uswsr_length u = (if in_use_buffers u = 2 then Inl AssertFailed else Inr (of_nat (length (u_items u))))"
proof -
  have iu: "in_use_buffers u = of_nat (length bs + 1)" using assms(1) by (simp add: u_rep_def)
  have "in_use_buffers u = 2 \<longleftrightarrow> unat (in_use_buffers u) = 2" by (simp add: word_unat_eq_iff)
  moreover have "unat (in_use_buffers u) = length bs + 1"
    unfolding iu by (rule unat_of_nat_small [OF assms(3)])
  ultimately have "in_use_buffers u = 2 \<longleftrightarrow> length bs = 1" by simp
  then show ?thesis using uswsr_length_ok [OF assms] by simp
qed

definition demo_uswsr :: "nat uswsr" where
  "demo_uswsr = (case uswsr_new 1 False False of Inr (_, u) \<Rightarrow>
     (case run_ops (\<lambda>u x. uswsr_push x u) uswsr_pop u [Enq 7, Enq 8] of Inr (_, u) \<Rightarrow> u))"

lemma demo_uswsr_fields: "in_use_buffers demo_uswsr = 2 \<and> usize demo_uswsr = 1 \<and> dq_items (bp_inuse (pool demo_uswsr)) = [1]"
  by code_simp

lemma demo_uswsr_rep: "u_rep demo_uswsr [1]"
proof -
  obtain u0 :: "nat uswsr" where u0: "uswsr_new 1 False False = Inr (True, u0)" "uf_inv u0"
    using uswsr_new_ok [of 1 False False, where ?'a = nat] by (auto simp: uf_inv_def u_inv_def)
  have "uf_inv demo_uswsr" using us.run_ops_ok [OF u0(2), of "[Enq 7, Enq 8]"] u0(1) by (auto simp: demo_uswsr_def)
  then obtain bs where "u_rep demo_uswsr bs" by (auto simp: uf_inv_def u_inv_def)
  then show ?thesis using u_rep_items demo_uswsr_fields by metis
qed

theorem uswsr_length_assertion_witness: "uswsr_length demo_uswsr = Inl AssertFailed"
  using uswsr_length_assertion [OF demo_uswsr_rep] demo_uswsr_fields by simp

end
