(* ===== verification/FFUBufferConc.thy ===== *)
theory FFUBufferConc
  imports FFUBuffer
begin

text \<open>
  The unbounded buffer (\<open>libs/fastflow/ff/ubuffer.hpp\<close>) under one producer and one consumer thread:
  \<open>push\<close> and \<open>pop\<close> as a step relation, interleaved between the calls they make on the buffers,
  on the cache of the pool and on the queue of buffers in use.
\<close>

subsection \<open>The two threads\<close>

text \<open>
  The control states of the producer in \<open>push\<close>: \<open>UNext\<close> asks the pool for a buffer, \<open>UAlloc\<close> allocates
  one because the cache was empty, \<open>UEnq\<close> appends it to the buffers in use, \<open>UGot\<close> moves the write
  pointer, \<open>UPut\<close> stores the element. Of the consumer in \<open>pop\<close>: \<open>UCmp\<close> compares the two pointers
  after it has found the read buffer empty, \<open>UAgain\<close> tests that buffer again, \<open>UMore\<close> asks for the
  next one, \<open>UReset\<close> and \<open>URecycle\<close> release the old one, \<open>USetR\<close> moves the read pointer, \<open>UTake\<close>
  pops from the buffer.
\<close>

datatype 'a up_pc = UPIdle | UNext 'a | UAlloc 'a | UEnq 'a nat | UGot 'a nat | UPut 'a
datatype uc_pc = UCIdle | UCmp | UAgain | UMore | UReset nat | URecycle nat | USetR nat | UTake

text \<open>
  Beside the buffer: the elements pushed and popped so far; \<open>u_none\<close>, whether the channel was empty
  when the consumer last found the read buffer empty; \<open>u_wrong\<close>, set by an access to a buffer
  that is not allocated, by a failed assertion, and by a \<open>pop\<close> that reports an empty channel
  although it was not empty at any moment of the call.
\<close>

record 'a uconc =
  uu :: "'a uswsr"
  upp :: "'a up_pc"
  ucp :: uc_pc
  u_in :: "'a list"
  u_out :: "'a list"
  u_none :: bool
  u_wrong :: bool

abbreviation u_pool :: "'a uconc \<Rightarrow> 'a pool" where
  "u_pool s \<equiv> pool (uu s)"

definition put_pool :: "'a pool \<Rightarrow> 'a uconc \<Rightarrow> 'a uconc" where
  "put_pool p s = s\<lparr>uu := (uu s)\<lparr>pool := p\<rparr>\<rparr>"

definition u_fail :: "'a uconc \<Rightarrow> 'a uconc" where
  "u_fail s = s\<lparr>u_wrong := True\<rparr>"

text \<open>
  Every call on one of the single-producer, single-consumer structures (the buffers, their cache,
  the queue of buffers in use) is one step. The counter \<open>in_use_buffers\<close>, which both threads change
  and only \<open>length\<close> reads, is left out.
\<close>

inductive u_step :: "'a uconc \<Rightarrow> 'a uconc \<Rightarrow> bool" where
  u_room: "upp s = UPIdle \<Longrightarrow>
    u_step s (case uswsr_available (uu s) of Inl e \<Rightarrow> u_fail s
      | Inr True \<Rightarrow> s\<lparr>upp := UPut x\<rparr>
      | Inr False \<Rightarrow> if fixedsize (uu s) then s else s\<lparr>upp := UNext x\<rparr>)"
| u_cached: "upp s = UNext x \<Longrightarrow>
    u_step s (case swsr_pop (bp_cache (u_pool s)) of
        (Some t, c) \<Rightarrow> put_pool ((u_pool s)\<lparr>bp_cache := c\<rparr>) (s\<lparr>upp := UEnq x t\<rparr>)
      | (None, c) \<Rightarrow> put_pool ((u_pool s)\<lparr>bp_cache := c\<rparr>) (s\<lparr>upp := UAlloc x\<rparr>))"
| u_alloc: "upp s = UAlloc x \<Longrightarrow> bp_store (u_pool s) t = None \<Longrightarrow>
    u_step s (if usize (uu s) = 0 then u_fail s
      else put_pool ((u_pool s)\<lparr>bp_store := (bp_store (u_pool s))(t \<mapsto> snd (swsr_init False True False (SWSR_Ptr_Buffer (usize (uu s))))),
        bp_brk := max (bp_brk (u_pool s)) (t + 1)\<rparr>) (s\<lparr>upp := UEnq x t\<rparr>))"
| u_enq: "upp s = UEnq x t \<Longrightarrow>
    u_step s (case dynqueue_push (bp_inuse (u_pool s)) t of Inl e \<Rightarrow> u_fail s
      | Inr (_, d) \<Rightarrow> put_pool ((u_pool s)\<lparr>bp_inuse := d\<rparr>) (s\<lparr>upp := UGot x t\<rparr>))"
| u_setw: "upp s = UGot x t \<Longrightarrow> u_step s (s\<lparr>upp := UPut x, uu := (uu s)\<lparr>buf_w := t\<rparr>\<rparr>)"
| u_put: "upp s = UPut x \<Longrightarrow>
    u_step s (case buffer_at (uu s) (buf_w (uu s)) of None \<Rightarrow> u_fail s
      | Some q \<Rightarrow> s\<lparr>upp := UPIdle, u_in := u_in s @ [x], uu := set_buffer (buf_w (uu s)) (snd (swsr_push q x)) (uu s)\<rparr>)"
| u_test: "ucp s = UCIdle \<Longrightarrow>
    u_step s (case buffer_at (uu s) (buf_r (uu s)) of None \<Rightarrow> u_fail s
      | Some q \<Rightarrow> if swsr_empty q then s\<lparr>ucp := UCmp, u_none := (u_in s = u_out s)\<rparr> else s\<lparr>ucp := UTake\<rparr>)"
| u_cmp: "ucp s = UCmp \<Longrightarrow>
    u_step s (if buf_r (uu s) = buf_w (uu s) then s\<lparr>ucp := UCIdle, u_wrong := (u_wrong s \<or> \<not> u_none s)\<rparr> else s\<lparr>ucp := UAgain\<rparr>)"
| u_again: "ucp s = UAgain \<Longrightarrow>
    u_step s (case buffer_at (uu s) (buf_r (uu s)) of None \<Rightarrow> u_fail s
      | Some q \<Rightarrow> s\<lparr>ucp := (if swsr_empty q then UMore else UTake)\<rparr>)"
| u_more: "ucp s = UMore \<Longrightarrow>
    u_step s (case next_r (u_pool s) of Inl e \<Rightarrow> u_fail s
      | Inr (None, p) \<Rightarrow> put_pool p (s\<lparr>ucp := UTake\<rparr>)
      | Inr (Some t, p) \<Rightarrow> put_pool p (s\<lparr>ucp := UReset t\<rparr>))"
| u_reset: "ucp s = UReset t \<Longrightarrow>
    u_step s (case buffer_at (uu s) (buf_r (uu s)) of None \<Rightarrow> u_fail s
      | Some q \<Rightarrow> s\<lparr>ucp := URecycle t, uu := set_buffer (buf_r (uu s)) (swsr_reset False q) (uu s)\<rparr>)"
| u_recycle: "ucp s = URecycle t \<Longrightarrow>
    u_step s (case swsr_push (bp_cache (u_pool s)) (buf_r (uu s)) of
        (True, c) \<Rightarrow> put_pool ((u_pool s)\<lparr>bp_cache := c\<rparr>) (s\<lparr>ucp := USetR t\<rparr>)
      | (False, c) \<Rightarrow> put_pool (delete_buffer (buf_r (uu s)) ((u_pool s)\<lparr>bp_cache := c\<rparr>)) (s\<lparr>ucp := USetR t\<rparr>))"
| u_setr: "ucp s = USetR t \<Longrightarrow> u_step s (s\<lparr>ucp := UTake, uu := (uu s)\<lparr>buf_r := t\<rparr>\<rparr>)"
| u_take: "ucp s = UTake \<Longrightarrow>
    u_step s (case take_r (uu s) of Inl e \<Rightarrow> u_fail s
      | Inr (Some x, u) \<Rightarrow> s\<lparr>ucp := UCIdle, uu := u, u_out := u_out s @ [x]\<rparr>
      | Inr (None, u) \<Rightarrow> s\<lparr>ucp := UCIdle, uu := u, u_wrong := (u_wrong s \<or> u_in s \<noteq> u_out s)\<rparr>)"

definition u_start :: "'a uswsr \<Rightarrow> 'a uconc" where
  "u_start u = \<lparr>uu = u, upp = UPIdle, ucp = UCIdle, u_in = [], u_out = [], u_none = False, u_wrong = False\<rparr>"

subsection \<open>The invariant\<close>

text \<open>
  The buffers in the order in which they are read, and those that one thread has to itself, on the
  way from the cache into that chain or back.
\<close>

definition u_chain :: "'a uconc \<Rightarrow> nat list" where
  "u_chain s = (case ucp s of UReset t \<Rightarrow> [buf_r (uu s), t] | URecycle t \<Rightarrow> [t] | USetR t \<Rightarrow> [t] | _ \<Rightarrow> [buf_r (uu s)]) @
     dq_items (bp_inuse (u_pool s))"

definition retired :: "'a uconc \<Rightarrow> nat list" where
  "retired s = (case ucp s of URecycle t \<Rightarrow> [buf_r (uu s)] | _ \<Rightarrow> [])"

definition u_apart :: "'a uconc \<Rightarrow> nat list" where
  "u_apart s = (case upp s of UEnq x t \<Rightarrow> [t] | _ \<Rightarrow> []) @ retired s"

definition pool_ok :: "u64 \<Rightarrow> 'a pool \<Rightarrow> nat list \<Rightarrow> nat list \<Rightarrow> bool" where
  "pool_ok n p L X \<longleftrightarrow> 0 < n \<and> dq_inv (bp_inuse p) \<and> sw_inv (bp_cache p) \<and> distinct (L @ X @ sw_items (bp_cache p)) \<and>
     dom (bp_store p) = set (L @ X @ sw_items (bp_cache p)) \<and> (\<forall>b\<in>dom (bp_store p). b < bp_brk p) \<and>
     (\<forall>b q. bp_store p b = Some q \<longrightarrow> sw_inv q \<and> bsize q = n) \<and> (\<forall>b\<in>set (X @ sw_items (bp_cache p)). bitems p b = [])"

text \<open>
  The consumer may still take from the first buffer of the chain unless it has decided to, or has
  found it empty for good; every other buffer but the last holds elements.
\<close>

definition undecided :: "uc_pc \<Rightarrow> bool" where
  "undecided c = (case c of UTake \<Rightarrow> False | URecycle t \<Rightarrow> False | USetR t \<Rightarrow> False | _ \<Rightarrow> True)"

definition filled_ok :: "'a pool \<Rightarrow> nat list \<Rightarrow> uc_pc \<Rightarrow> bool" where
  "filled_ok p L c \<longleftrightarrow> (\<forall>b\<in>set (butlast L). undecided c \<and> b = hd L \<or> bitems p b \<noteq> [])"

definition prod_ok :: "u64 \<Rightarrow> 'a pool \<Rightarrow> nat list \<Rightarrow> nat \<Rightarrow> uc_pc \<Rightarrow> 'a up_pc \<Rightarrow> bool" where
  "prod_ok n p L w c k = (case k of UPIdle \<Rightarrow> w = last L
     | UGot x t \<Rightarrow> (\<exists>M. L = M @ [w, t]) \<and> bitems p t = []
     | UPut x \<Rightarrow> w = last L \<and> length (bitems p w) < unat n
     | _ \<Rightarrow> w = last L \<and> (undecided c \<and> tl L = [] \<or> bitems p w \<noteq> []))"

definition cons_ok :: "'a pool \<Rightarrow> nat \<Rightarrow> nat \<Rightarrow> bool \<Rightarrow> uc_pc \<Rightarrow> bool" where
  "cons_ok p r w none c = (case c of UCmp \<Rightarrow> w = r \<longrightarrow> none | UAgain \<Rightarrow> w \<noteq> r
     | UMore \<Rightarrow> w \<noteq> r \<and> bitems p r = [] | UReset t \<Rightarrow> w \<noteq> r \<and> bitems p r = [] | _ \<Rightarrow> True)"

definition u_ok :: "'a uconc \<Rightarrow> bool" where
  "u_ok s \<longleftrightarrow> pool_ok (usize (uu s)) (u_pool s) (u_chain s) (u_apart s) \<and> filled_ok (u_pool s) (u_chain s) (ucp s) \<and>
     prod_ok (usize (uu s)) (u_pool s) (u_chain s) (buf_w (uu s)) (ucp s) (upp s) \<and>
     cons_ok (u_pool s) (buf_r (uu s)) (buf_w (uu s)) (u_none s) (ucp s) \<and>
     u_in s = u_out s @ concat (map (bitems (u_pool s)) (u_chain s)) \<and> \<not> u_wrong s"

subsection \<open>What the threads do to the pool\<close>

lemma pool_okD:
  assumes "pool_ok n p L X"
  shows "0 < n" "dq_inv (bp_inuse p)" "sw_inv (bp_cache p)" "distinct (L @ X @ sw_items (bp_cache p))"
    "dom (bp_store p) = set (L @ X @ sw_items (bp_cache p))" "\<And>b. b \<in> dom (bp_store p) \<Longrightarrow> b < bp_brk p"
    "\<And>b q. bp_store p b = Some q \<Longrightarrow> sw_inv q \<and> bsize q = n" "\<And>b. b \<in> set (X @ sw_items (bp_cache p)) \<Longrightarrow> bitems p b = []"
  using assms unfolding pool_ok_def by blast+

lemma pool_ok_at: "pool_ok n p L X \<Longrightarrow> b \<in> set (L @ X @ sw_items (bp_cache p)) \<Longrightarrow> \<exists>q. bp_store p b = Some q \<and> sw_inv q \<and> bsize q = n \<and> bitems p b = sw_items q"
  using pool_okD(5,7) [of n p L X] by (fastforce simp: bitems_def)

lemma bitems_upd: "bitems (p\<lparr>bp_store := (bp_store p)(b \<mapsto> q)\<rparr>) a = (if a = b then sw_items q else bitems p a)"
  by (simp add: bitems_def)

lemma bitems_cong: "bp_store p' = bp_store p \<Longrightarrow> bitems p' = bitems p"
  by (rule ext) (simp add: bitems_def)

text \<open>A new content for a buffer; one that is not in the chain must stay empty.\<close>

lemma pool_ok_store:
  assumes ok: "pool_ok n p L X" and b: "b \<in> set L" and q: "sw_inv q" "bsize q = n"
  shows "pool_ok n (p\<lparr>bp_store := (bp_store p)(b \<mapsto> q)\<rparr>) L X"
proof -
  note P = pool_okD [OF ok]
  have "b \<in> dom (bp_store p)" using b P(5) by auto
  moreover have "b \<notin> set (X @ sw_items (bp_cache p))" using b P(4) by auto
  ultimately show ?thesis using P q unfolding pool_ok_def by (auto simp: bitems_upd split: if_splits)
qed

lemma pool_ok_cached:
  assumes ok: "pool_ok n p L X" and c: "swsr_pop (bp_cache p) = (Some t, c)"
  shows "pool_ok n (p\<lparr>bp_cache := c\<rparr>) L (t # X)"
proof -
  note P = pool_okD [OF ok]
  obtain ts where ts: "sw_items (bp_cache p) = t # ts" "sw_items c = ts" "sw_inv c"
    using sw.pop_cons [OF P(3)] sw.pop_empty [OF P(3)] sw.pop_inv [OF P(3)] c by (cases "sw_items (bp_cache p)") fastforce+
  have "bitems (p\<lparr>bp_cache := c\<rparr>) = bitems p" by (rule bitems_cong) simp
  then show ?thesis using P ts unfolding pool_ok_def by auto
qed

lemma pool_ok_alloc:
  fixes p :: "'a pool"
  assumes ok: "pool_ok n p L X" and t: "bp_store p t = None"
  shows "pool_ok n (p\<lparr>bp_store := (bp_store p)(t \<mapsto> snd (swsr_init False True False (SWSR_Ptr_Buffer n))), bp_brk := max (bp_brk p) (t + 1)\<rparr>) L (t # X)"
    (is "pool_ok n ?p L _")
proof -
  note P = pool_okD [OF ok]
  note q = fresh_buffer [OF P(1) refl, where ?'a = 'a]
  have b: "bitems ?p a = (if a = t then [] else bitems p a)" for a using q by (simp add: bitems_def)
  have "t \<notin> set (L @ X @ sw_items (bp_cache p))" using t P(5) by auto
  moreover have "\<forall>a\<in>dom (bp_store ?p). a < bp_brk ?p" using P(6) by (auto simp: less_max_iff_disj split: if_splits)
  ultimately show ?thesis using P q unfolding pool_ok_def b by auto
qed

lemma pool_ok_enq:
  assumes ok: "pool_ok n p L (t # X)"
  shows "\<exists>d. dynqueue_push (bp_inuse p) t = Inr (True, d) \<and> dq_items d = dq_items (bp_inuse p) @ [t] \<and> pool_ok n (p\<lparr>bp_inuse := d\<rparr>) (L @ [t]) X \<and> bitems p t = []"
proof -
  note P = pool_okD [OF ok]
  obtain d where d: "dynqueue_push (bp_inuse p) t = Inr (True, d)" "dq_inv d" "dq_items d = dq_items (bp_inuse p) @ [t]"
    using dq.enq_ok [OF P(2)] by blast
  have "bitems (p\<lparr>bp_inuse := d\<rparr>) = bitems p" by (rule bitems_cong) simp
  then have "pool_ok n (p\<lparr>bp_inuse := d\<rparr>) (L @ [t]) X" using P d unfolding pool_ok_def by auto
  then show ?thesis using d P(8) [of t] by simp
qed

lemma pool_ok_deq:
  assumes ok: "pool_ok n p L X" and ts: "dq_items (bp_inuse p) = t # ts"
  shows "\<exists>d. next_r p = Inr (Some t, p\<lparr>bp_inuse := d\<rparr>) \<and> dq_items d = ts \<and> pool_ok n (p\<lparr>bp_inuse := d\<rparr>) L X"
proof -
  note P = pool_okD [OF ok]
  obtain d where d: "dynqueue_pop (bp_inuse p) = Inr (Some t, d)" "dq_inv d" "dq_items d = ts" using dq.deq_cons [OF P(2) ts] by blast
  have "bitems (p\<lparr>bp_inuse := d\<rparr>) = bitems p" by (rule bitems_cong) simp
  then have "pool_ok n (p\<lparr>bp_inuse := d\<rparr>) L X" using P d unfolding pool_ok_def by auto
  then show ?thesis using d by (intro exI [of _ d]) (simp add: next_r_def)
qed

lemma pool_ok_reset:
  assumes ok: "pool_ok n p (r # L) X" and q: "bp_store p r = Some q"
  shows "pool_ok n (p\<lparr>bp_store := (bp_store p)(r \<mapsto> swsr_reset False q)\<rparr>) L (X @ [r])" (is "pool_ok n ?p _ _")
proof -
  note P = pool_okD [OF ok]
  have "bsize q = n" using P(7) [OF q] by simp
  then have e: "sw_inv (swsr_reset False q)" "sw_items (swsr_reset False q) = []" "bsize (swsr_reset False q) = n"
    using swsr_reset_inv [of q False] P(1) by (auto simp: swsr_reset_def Let_def)
  have "dom (bp_store ?p) = dom (bp_store p)" using q by auto
  then show ?thesis using P e unfolding pool_ok_def by (auto simp: bitems_upd split: if_splits)
qed

lemma pool_ok_recycle:
  assumes ok: "pool_ok n p L (X @ [r])" and c: "swsr_push (bp_cache p) r = (f, c)"
  shows "pool_ok n (if f then p\<lparr>bp_cache := c\<rparr> else delete_buffer r (p\<lparr>bp_cache := c\<rparr>)) L X"
proof -
  note P = pool_okD [OF ok]
  have c': "sw_inv c" "sw_items c = (if f then sw_items (bp_cache p) @ [r] else sw_items (bp_cache p))"
  proof -
    show "sw_inv c" using sw.push_inv [OF P(3), of r] c by simp
    show "sw_items c = (if f then sw_items (bp_cache p) @ [r] else sw_items (bp_cache p))"
      using sw.push_room [OF P(3), of r] sw.push_full [OF P(3), of r] sw.items_bound [OF P(3)] c
      by (cases "length (sw_items (bp_cache p)) < sw_capacity (bp_cache p)") auto
  qed
  show ?thesis
  proof (cases f)
    case True
    have "bitems (p\<lparr>bp_cache := c\<rparr>) = bitems p" by (rule bitems_cong) simp
    then show ?thesis using True P c' unfolding pool_ok_def by auto
  next
    case False
    let ?p = "delete_buffer r (p\<lparr>bp_cache := c\<rparr>)"
    have s: "bp_store ?p = (bp_store p)(r := None)" "bp_cache ?p = c" "bp_inuse ?p = bp_inuse p" "bp_brk ?p = bp_brk p"
      by (simp_all add: delete_buffer_def)
    have "bitems ?p b = (if b = r then [] else bitems p b)" for b using s(1) by (simp add: bitems_def)
    moreover have "r \<notin> set (L @ X @ sw_items (bp_cache p))" using P(4) by auto
    ultimately show ?thesis using False P c' unfolding pool_ok_def by (auto simp: s split: if_splits)
  qed
qed

subsection \<open>The steps of the producer\<close>

lemma u_okD:
  assumes "u_ok s"
  shows "pool_ok (usize (uu s)) (u_pool s) (u_chain s) (u_apart s)" "filled_ok (u_pool s) (u_chain s) (ucp s)"
    "prod_ok (usize (uu s)) (u_pool s) (u_chain s) (buf_w (uu s)) (ucp s) (upp s)"
    "cons_ok (u_pool s) (buf_r (uu s)) (buf_w (uu s)) (u_none s) (ucp s)"
    "u_in s = u_out s @ concat (map (bitems (u_pool s)) (u_chain s))" "\<not> u_wrong s"
  using assms unfolding u_ok_def by blast+

lemma u_okI:
  assumes "u_chain s = L" and "u_apart s = X" and "pool_ok (usize (uu s)) (u_pool s) L X" and "filled_ok (u_pool s) L (ucp s)"
    and "prod_ok (usize (uu s)) (u_pool s) L (buf_w (uu s)) (ucp s) (upp s)"
    and "cons_ok (u_pool s) (buf_r (uu s)) (buf_w (uu s)) (u_none s) (ucp s)"
    and "u_in s = u_out s @ concat (map (bitems (u_pool s)) L)" and "\<not> u_wrong s"
  shows "u_ok s"
  using assms unfolding u_ok_def by blast

lemma chain_ne: "u_chain s \<noteq> []"
  by (simp add: u_chain_def split: uc_pc.split)

lemma u_chain_cong: "ucp s' = ucp s \<Longrightarrow> buf_r (uu s') = buf_r (uu s) \<Longrightarrow> bp_inuse (u_pool s') = bp_inuse (u_pool s) \<Longrightarrow> u_chain s' = u_chain s"
  by (simp add: u_chain_def split: uc_pc.split)

lemma retired_cong: "ucp s' = ucp s \<Longrightarrow> buf_r (uu s') = buf_r (uu s) \<Longrightarrow> retired s' = retired s"
  by (simp add: retired_def split: uc_pc.split)

lemma cons_ok_frame: "cons_ok p r w none c \<Longrightarrow> bitems p' r = bitems p r \<Longrightarrow> cons_ok p' r w none c"
  by (auto simp: cons_ok_def split: uc_pc.splits)

lemma apart_cong: "(\<nexists>x t. upp s' = UEnq x t) \<Longrightarrow> u_apart s' = retired s'"
  by (simp add: u_apart_def split: up_pc.split)

lemma apart_enq: "upp s' = UEnq x t \<Longrightarrow> u_apart s' = t # retired s'"
  by (simp add: u_apart_def)

lemma write_in: "prod_ok n p L w c k \<Longrightarrow> L \<noteq> [] \<Longrightarrow> w \<in> set L"
  by (auto simp: prod_ok_def split: up_pc.splits)

lemma prod_ok_frame:
  assumes "prod_ok n p L w c k" and "\<And>b. b \<in> set L \<Longrightarrow> bitems p' b = bitems p b" and "undecided c' = undecided c" and "L \<noteq> []"
  shows "prod_ok n p' L w c' k"
proof -
  have "bitems p' w = bitems p w" using assms(2) write_in [OF assms(1,4)] by blast
  moreover have "bitems p' t = bitems p t" if "k = UGot x t" for x t using assms(1,2) that by (auto simp: prod_ok_def)
  ultimately show ?thesis using assms(1,3) by (auto simp: prod_ok_def split: up_pc.splits)
qed

lemma filled_ok_frame: "filled_ok p L c \<Longrightarrow> (\<And>b. b \<in> set L \<Longrightarrow> bitems p' b = bitems p b) \<Longrightarrow> undecided c' = undecided c \<Longrightarrow> filled_ok p' L c'"
  using in_set_butlastD [of _ L] by (auto simp: filled_ok_def)

lemma chain_at: "u_ok s \<Longrightarrow> b \<in> set (u_chain s) \<Longrightarrow>
    \<exists>q. buffer_at (uu s) b = Some q \<and> sw_inv q \<and> bsize q = usize (uu s) \<and> bitems (u_pool s) b = sw_items q"
  using pool_ok_at [OF u_okD(1), of s b] by (simp add: buffer_at_def)

lemma put_pool_simps [simp]:
  "u_pool (put_pool p s) = p" "usize (uu (put_pool p s)) = usize (uu s)" "buf_r (uu (put_pool p s)) = buf_r (uu s)"
  "buf_w (uu (put_pool p s)) = buf_w (uu s)" "upp (put_pool p s) = upp s" "ucp (put_pool p s) = ucp s"
  "u_in (put_pool p s) = u_in s" "u_out (put_pool p s) = u_out s" "u_none (put_pool p s) = u_none s" "u_wrong (put_pool p s) = u_wrong s"
  by (simp_all add: put_pool_def)

lemma set_buffer_simps [simp]:
  "pool (set_buffer b q u) = (pool u)\<lparr>bp_store := (bp_store (pool u))(b \<mapsto> q)\<rparr>" "usize (set_buffer b q u) = usize u"
  "buf_r (set_buffer b q u) = buf_r u" "buf_w (set_buffer b q u) = buf_w u"
  by (simp_all add: set_buffer_def)

lemma u_pc_producer:
  assumes ok: "u_ok s" and k: "\<nexists>x t. upp s = UEnq x t" "\<nexists>x t. k = UEnq x t"
    and p: "prod_ok (usize (uu s)) (u_pool s) (u_chain s) (buf_w (uu s)) (ucp s) k"
  shows "u_ok (s\<lparr>upp := k\<rparr>)"
proof (rule u_okI)
  let ?u = "s\<lparr>upp := k\<rparr>"
  show "u_chain ?u = u_chain s" by (rule u_chain_cong) simp_all
  show "u_apart ?u = u_apart s" using k by (simp add: apart_cong retired_cong [of ?u s])
qed (use u_okD [OF ok] p in simp_all)

lemma u_room_ok:
  assumes ok: "u_ok s" and pc: "upp s = UPIdle"
  shows "u_ok (case uswsr_available (uu s) of Inl e \<Rightarrow> u_fail s | Inr True \<Rightarrow> s\<lparr>upp := UPut x\<rparr>
      | Inr False \<Rightarrow> if fixedsize (uu s) then s else s\<lparr>upp := UNext x\<rparr>)"
proof -
  note R = u_okD [OF ok]
  have w: "buf_w (uu s) = last (u_chain s)" using R(3) pc by (simp add: prod_ok_def)
  obtain q where q: "buffer_at (uu s) (buf_w (uu s)) = Some q" "sw_inv q" "bsize q = usize (uu s)" "bitems (u_pool s) (buf_w (uu s)) = sw_items q"
    using chain_at [OF ok write_in [OF R(3) chain_ne]] by blast
  have av: "uswsr_available (uu s) = Inr (length (sw_items q) < unat (usize (uu s)))"
    using swsr_available_iff [OF q(2)] q(1,3) by (simp add: uswsr_available_def)
  show ?thesis
  proof (cases "length (sw_items q) < unat (usize (uu s))")
    case True
    then show ?thesis using av u_pc_producer [OF ok, of "UPut x"] pc q(4) w by (simp add: prod_ok_def)
  next
    case False
    have "0 < usize (uu s)" by (rule pool_okD(1) [OF R(1)])
    then have "sw_items q \<noteq> []" using False by (auto simp: word_less_nat_alt)
    then have "u_ok (s\<lparr>upp := UNext x\<rparr>)" using u_pc_producer [OF ok, of "UNext x"] pc q(4) w by (simp add: prod_ok_def)
    then show ?thesis using av False ok by simp
  qed
qed

lemma u_cached_ok:
  assumes ok: "u_ok s" and pc: "upp s = UNext x"
  shows "u_ok (case swsr_pop (bp_cache (u_pool s)) of
      (Some t, c) \<Rightarrow> put_pool ((u_pool s)\<lparr>bp_cache := c\<rparr>) (s\<lparr>upp := UEnq x t\<rparr>)
    | (None, c) \<Rightarrow> put_pool ((u_pool s)\<lparr>bp_cache := c\<rparr>) (s\<lparr>upp := UAlloc x\<rparr>))"
proof -
  note R = u_okD [OF ok]
  have inv: "sw_inv (bp_cache (u_pool s))" by (rule pool_okD(3) [OF R(1)])
  have b: "bitems ((u_pool s)\<lparr>bp_cache := c\<rparr>) = bitems (u_pool s)" for c by (rule bitems_cong) simp
  show ?thesis
  proof (cases "swsr_pop (bp_cache (u_pool s))")
    case (Pair o' c)
    show ?thesis
    proof (cases o')
      case None
      then have "c = bp_cache (u_pool s)" using sw.pop_iff [OF inv] sw.pop_empty [OF inv] Pair by simp
      then have "put_pool ((u_pool s)\<lparr>bp_cache := c\<rparr>) (s\<lparr>upp := UAlloc x\<rparr>) = s\<lparr>upp := UAlloc x\<rparr>" by (simp add: put_pool_def)
      moreover have "u_ok (s\<lparr>upp := UAlloc x\<rparr>)" using R(3) pc by (intro u_pc_producer [OF ok]) (auto simp: prod_ok_def)
      ultimately show ?thesis using Pair None by simp
    next
      case (Some t)
      let ?u = "put_pool ((u_pool s)\<lparr>bp_cache := c\<rparr>) (s\<lparr>upp := UEnq x t\<rparr>)"
      have "u_ok ?u"
      proof (rule u_okI)
        show "u_chain ?u = u_chain s" by (rule u_chain_cong) simp_all
        show "u_apart ?u = t # u_apart s" using pc retired_cong [of ?u s] by (simp add: apart_cong apart_enq)
        show "pool_ok (usize (uu ?u)) (u_pool ?u) (u_chain s) (t # u_apart s)" using pool_ok_cached [OF R(1)] Pair Some by simp
        show "cons_ok (u_pool ?u) (buf_r (uu ?u)) (buf_w (uu ?u)) (u_none ?u) (ucp ?u)"
          using cons_ok_frame [OF R(4), of "u_pool ?u"] b by simp
        show "prod_ok (usize (uu ?u)) (u_pool ?u) (u_chain s) (buf_w (uu ?u)) (ucp ?u) (upp ?u)"
          using R(3) pc by (auto simp: prod_ok_def b)
      qed (use R(2,5,6) in \<open>simp_all add: b filled_ok_def\<close>)
      then show ?thesis using Pair Some by simp
    qed
  qed
qed

lemma u_alloc_ok:
  assumes ok: "u_ok s" and pc: "upp s = UAlloc x" and t: "bp_store (u_pool s) t = None"
  shows "u_ok (if usize (uu s) = 0 then u_fail s
      else put_pool ((u_pool s)\<lparr>bp_store := (bp_store (u_pool s))(t \<mapsto> snd (swsr_init False True False (SWSR_Ptr_Buffer (usize (uu s))))),
        bp_brk := max (bp_brk (u_pool s)) (t + 1)\<rparr>) (s\<lparr>upp := UEnq x t\<rparr>))" (is "u_ok (if _ then _ else ?u)")
proof -
  note R = u_okD [OF ok]
  have n: "0 < usize (uu s)" by (rule pool_okD(1) [OF R(1)])
  have b: "bitems (u_pool ?u) a = bitems (u_pool s) a" if "a \<in> set (u_chain s)" for a
    using chain_at [OF ok that] t by (auto simp: bitems_def buffer_at_def)
  have m: "map (bitems (u_pool ?u)) (u_chain s) = map (bitems (u_pool s)) (u_chain s)" by (intro map_cong refl b)
  have w: "buf_w (uu s) \<in> set (u_chain s)" by (rule write_in [OF R(3) chain_ne])
  have r: "buf_r (uu s) \<in> set (u_chain s)" if "ucp s = UMore \<or> (\<exists>t. ucp s = UReset t)" using that by (auto simp: u_chain_def)
  have "u_ok ?u"
  proof (rule u_okI)
    show "u_chain ?u = u_chain s" by (rule u_chain_cong) simp_all
    show "u_apart ?u = t # u_apart s" using pc retired_cong [of ?u s] by (simp add: apart_cong apart_enq)
    show "pool_ok (usize (uu ?u)) (u_pool ?u) (u_chain s) (t # u_apart s)" using pool_ok_alloc [OF R(1) t] by simp
    show "filled_ok (u_pool ?u) (u_chain s) (ucp ?u)" using R(2) b in_set_butlastD [of _ "u_chain s"] by (simp add: filled_ok_def)
    show "prod_ok (usize (uu ?u)) (u_pool ?u) (u_chain s) (buf_w (uu ?u)) (ucp ?u) (upp ?u)"
      using R(3) pc b [OF w] by (auto simp: prod_ok_def)
    show "cons_ok (u_pool ?u) (buf_r (uu ?u)) (buf_w (uu ?u)) (u_none ?u) (ucp ?u)"
      using R(4) b [OF r] by (auto simp: cons_ok_def split: uc_pc.splits)
  qed (use R(5,6) m in \<open>simp_all del: map_eq_conv\<close>)
  moreover have "usize (uu s) \<noteq> 0" using n by auto
  ultimately show ?thesis by (simp only: if_False)
qed

lemma u_enq_ok:
  assumes ok: "u_ok s" and pc: "upp s = UEnq x t"
  shows "u_ok (case dynqueue_push (bp_inuse (u_pool s)) t of Inl e \<Rightarrow> u_fail s
      | Inr (_, d) \<Rightarrow> put_pool ((u_pool s)\<lparr>bp_inuse := d\<rparr>) (s\<lparr>upp := UGot x t\<rparr>))"
proof -
  note R = u_okD [OF ok]
  define X where "X = retired s"
  have X: "u_apart s = t # X" using pc by (simp add: apart_enq X_def)
  obtain d where d: "dynqueue_push (bp_inuse (u_pool s)) t = Inr (True, d)" "dq_items d = dq_items (bp_inuse (u_pool s)) @ [t]"
      "pool_ok (usize (uu s)) ((u_pool s)\<lparr>bp_inuse := d\<rparr>) (u_chain s @ [t]) X" "bitems (u_pool s) t = []"
    using pool_ok_enq [OF R(1) [unfolded X]] by blast
  let ?u = "put_pool ((u_pool s)\<lparr>bp_inuse := d\<rparr>) (s\<lparr>upp := UGot x t\<rparr>)"
  have b: "bitems ((u_pool s)\<lparr>bp_inuse := d\<rparr>) = bitems (u_pool s)" by (rule bitems_cong) simp
  have "buf_w (uu s) = last (u_chain s)" using R(3) pc by (auto simp: prod_ok_def)
  then obtain M where M: "u_chain s = M @ [buf_w (uu s)]" using chain_ne [of s] by (metis append_butlast_last_id)
  have "u_ok ?u"
  proof (rule u_okI)
    show "u_chain ?u = u_chain s @ [t]" using d(2) by (simp add: u_chain_def split: uc_pc.split)
    show "u_apart ?u = X" by (simp add: X_def apart_cong retired_cong [of ?u s])
    show "pool_ok (usize (uu ?u)) (u_pool ?u) (u_chain s @ [t]) X" using d(3) by simp
    have "undecided (ucp s) \<and> b = hd (u_chain s) \<or> bitems (u_pool s) b \<noteq> []" if "b \<in> set (u_chain s)" for b
    proof (cases "b = buf_w (uu s)")
      case True
      then show ?thesis using R(3) pc M by (cases M) (auto simp: prod_ok_def)
    next
      case False
      then have "b \<in> set (butlast (u_chain s))" using that M by auto
      then show ?thesis using R(2) by (auto simp: filled_ok_def)
    qed
    then show "filled_ok (u_pool ?u) (u_chain s @ [t]) (ucp ?u)" using chain_ne [of s] by (simp add: filled_ok_def b)
    show "prod_ok (usize (uu ?u)) (u_pool ?u) (u_chain s @ [t]) (buf_w (uu ?u)) (ucp ?u) (upp ?u)"
      using M d(4) by (simp add: prod_ok_def b)
    show "cons_ok (u_pool ?u) (buf_r (uu ?u)) (buf_w (uu ?u)) (u_none ?u) (ucp ?u)"
      using cons_ok_frame [OF R(4), of "u_pool ?u"] b by simp
  qed (use R(5,6) d(4) in \<open>simp_all add: b\<close>)
  then show ?thesis using d(1) by simp
qed

lemma u_setw_ok:
  assumes ok: "u_ok s" and pc: "upp s = UGot x t"
  shows "u_ok (s\<lparr>upp := UPut x, uu := (uu s)\<lparr>buf_w := t\<rparr>\<rparr>)" (is "u_ok ?u")
proof -
  note R = u_okD [OF ok]
  obtain M where M: "u_chain s = M @ [buf_w (uu s), t]" "bitems (u_pool s) t = []" using R(3) pc by (auto simp: prod_ok_def)
  have d: "distinct (u_chain s)" using pool_okD(4) [OF R(1)] by simp
  have n: "0 < unat (usize (uu s))" using pool_okD(1) [OF R(1)] by (simp add: word_less_nat_alt)
  have ne: "t \<noteq> buf_r (uu s)" if "hd (u_chain s) = buf_r (uu s)" using that d M(1) by (cases M) auto
  show ?thesis
  proof (rule u_okI)
    show "u_chain ?u = u_chain s" by (rule u_chain_cong) simp_all
    show "u_apart ?u = u_apart s" using pc by (simp add: apart_cong retired_cong [of ?u s])
    show "prod_ok (usize (uu ?u)) (u_pool ?u) (u_chain s) (buf_w (uu ?u)) (ucp ?u) (upp ?u)"
      using M n by (simp add: prod_ok_def)
    show "cons_ok (u_pool ?u) (buf_r (uu ?u)) (buf_w (uu ?u)) (u_none ?u) (ucp ?u)"
      using R(4) ne by (auto simp: cons_ok_def u_chain_def split: uc_pc.splits)
  qed (use R in simp_all)
qed

lemma u_put_ok:
  assumes ok: "u_ok s" and pc: "upp s = UPut x"
  shows "u_ok (case buffer_at (uu s) (buf_w (uu s)) of None \<Rightarrow> u_fail s
      | Some q \<Rightarrow> s\<lparr>upp := UPIdle, u_in := u_in s @ [x], uu := set_buffer (buf_w (uu s)) (snd (swsr_push q x)) (uu s)\<rparr>)"
proof -
  note R = u_okD [OF ok]
  have w: "buf_w (uu s) = last (u_chain s)" "length (bitems (u_pool s) (buf_w (uu s))) < unat (usize (uu s))"
    using R(3) pc by (auto simp: prod_ok_def)
  have win: "buf_w (uu s) \<in> set (u_chain s)" by (rule write_in [OF R(3) chain_ne])
  obtain q where q: "buffer_at (uu s) (buf_w (uu s)) = Some q" "sw_inv q" "bsize q = usize (uu s)" "bitems (u_pool s) (buf_w (uu s)) = sw_items q"
    using chain_at [OF ok win] by blast
  let ?q = "snd (swsr_push q x)"
  have q': "sw_inv ?q" "sw_items ?q = sw_items q @ [x]" "bsize ?q = usize (uu s)"
    using swsr_push_room [OF q(2), of x] w(2) q(3,4) by simp_all
  let ?u = "s\<lparr>upp := UPIdle, u_in := u_in s @ [x], uu := set_buffer (buf_w (uu s)) ?q (uu s)\<rparr>"
  obtain M where M: "u_chain s = M @ [buf_w (uu s)]" using w(1) chain_ne [of s] by (metis append_butlast_last_id)
  have "buf_w (uu s) \<notin> set M" using pool_okD(4) [OF R(1)] M by simp
  then have m: "map (bitems (u_pool ?u)) M = map (bitems (u_pool s)) M" by (intro map_cong refl) (auto simp: bitems_upd)
  have "u_ok ?u"
  proof (rule u_okI)
    show "u_chain ?u = u_chain s" by (rule u_chain_cong) simp_all
    show "u_apart ?u = u_apart s" using pc by (simp add: apart_cong retired_cong [of ?u s])
    show "pool_ok (usize (uu ?u)) (u_pool ?u) (u_chain s) (u_apart s)" using pool_ok_store [OF R(1) win q'(1,3)] by simp
    show "filled_ok (u_pool ?u) (u_chain s) (ucp ?u)" using R(2) q'(2) by (auto simp: filled_ok_def bitems_upd)
    show "prod_ok (usize (uu ?u)) (u_pool ?u) (u_chain s) (buf_w (uu ?u)) (ucp ?u) (upp ?u)" using w(1) by (simp add: prod_ok_def)
    show "cons_ok (u_pool ?u) (buf_r (uu ?u)) (buf_w (uu ?u)) (u_none ?u) (ucp ?u)"
      using R(4) by (auto simp: cons_ok_def bitems_upd split: uc_pc.splits)
    have "concat (map (bitems (u_pool ?u)) (u_chain s)) = concat (map (bitems (u_pool s)) (u_chain s)) @ [x]"
      unfolding M map_append concat_append m using q'(2) q(4) by (simp add: bitems_upd)
    then show "u_in ?u = u_out ?u @ concat (map (bitems (u_pool ?u)) (u_chain s))" using R(5) by simp
  qed (use R(6) in simp)
  then show ?thesis using q(1) by simp
qed

subsection \<open>The steps of the consumer\<close>

lemma chain_read: "ucp s \<in> {UCIdle, UCmp, UAgain, UMore, UTake} \<Longrightarrow> u_chain s = buf_r (uu s) # dq_items (bp_inuse (u_pool s)) \<and> retired s = []"
  by (auto simp: u_chain_def retired_def)

lemma apart_retired: "upp s' = upp s \<Longrightarrow> retired s' = retired s \<Longrightarrow> u_apart s' = u_apart s"
  by (simp add: u_apart_def)

text \<open>A step that changes the control state of the consumer only.\<close>

lemma u_pc_consumer:
  assumes ok: "u_ok s" and u: "uu u = uu s" "upp u = upp s" "u_in u = u_in s" "u_out u = u_out s" "\<not> u_wrong u"
    and c: "ucp s \<in> {UCIdle, UCmp, UAgain, UMore}" "ucp u \<in> {UCIdle, UCmp, UAgain, UMore, UTake}"
    and k: "cons_ok (u_pool s) (buf_r (uu s)) (buf_w (uu s)) (u_none u) (ucp u)"
    and t: "ucp u = UTake \<Longrightarrow> bitems (u_pool s) (buf_r (uu s)) \<noteq> []"
  shows "u_ok u"
proof (rule u_okI)
  note R = u_okD [OF ok]
  have ch: "u_chain s = buf_r (uu s) # dq_items (bp_inuse (u_pool s))" "retired s = []" using chain_read [of s] c(1) by auto
  show ch': "u_chain u = u_chain s" using chain_read [of u] c(2) u(1) ch by auto
  have "retired u = []" using chain_read [of u] c(2) by auto
  then show "u_apart u = u_apart s" using apart_retired [of u s] u(2) ch(2) by simp
  have und: "undecided (ucp s)" using c(1) by (auto simp: undecided_def)
  have und': "ucp u \<noteq> UTake \<Longrightarrow> undecided (ucp u)" using c(2) by (auto simp: undecided_def)
  show "pool_ok (usize (uu u)) (u_pool u) (u_chain s) (u_apart s)" using R(1) u(1) by simp
  show "filled_ok (u_pool u) (u_chain s) (ucp u)"
    using R(2) und' t u(1) ch(1) by (cases "ucp u = UTake") (auto simp: filled_ok_def und)
  show "prod_ok (usize (uu u)) (u_pool u) (u_chain s) (buf_w (uu u)) (ucp u) (upp u)"
  proof (cases "ucp u = UTake")
    case True
    then have "buf_w (uu s) = last (u_chain s) \<Longrightarrow> tl (u_chain s) = [] \<Longrightarrow> bitems (u_pool s) (buf_w (uu s)) \<noteq> []"
      using t ch(1) by auto
    then show ?thesis using R(3) u(1,2) und by (auto simp: prod_ok_def split: up_pc.splits)
  next
    case False
    then show ?thesis using R(3) u(1,2) und und' by (auto simp: prod_ok_def split: up_pc.splits)
  qed
  show "cons_ok (u_pool u) (buf_r (uu u)) (buf_w (uu u)) (u_none u) (ucp u)" using k u(1) by simp
  show "u_in u = u_out u @ concat (map (bitems (u_pool u)) (u_chain s))" using R(5) u(1,3,4) by simp
  show "\<not> u_wrong u" by (rule u(5))
qed

lemma read_at: "u_ok s \<Longrightarrow> ucp s \<in> {UCIdle, UCmp, UAgain, UMore, UTake} \<Longrightarrow>
    \<exists>q. buffer_at (uu s) (buf_r (uu s)) = Some q \<and> sw_inv q \<and> bsize q = usize (uu s) \<and> bitems (u_pool s) (buf_r (uu s)) = sw_items q"
  using chain_at [of s "buf_r (uu s)"] chain_read [of s] by simp

lemma u_test_ok:
  assumes ok: "u_ok s" and pc: "ucp s = UCIdle"
  shows "u_ok (case buffer_at (uu s) (buf_r (uu s)) of None \<Rightarrow> u_fail s
      | Some q \<Rightarrow> if swsr_empty q then s\<lparr>ucp := UCmp, u_none := (u_in s = u_out s)\<rparr> else s\<lparr>ucp := UTake\<rparr>)"
proof -
  note R = u_okD [OF ok]
  obtain q where q: "buffer_at (uu s) (buf_r (uu s)) = Some q" "sw_inv q" "bitems (u_pool s) (buf_r (uu s)) = sw_items q"
    using read_at [OF ok] pc by auto
  show ?thesis
  proof (cases "swsr_empty q")
    case True
    then have e: "bitems (u_pool s) (buf_r (uu s)) = []" using swsr_empty_iff [OF q(2)] q(3) by simp
    have ch: "u_chain s = buf_r (uu s) # dq_items (bp_inuse (u_pool s))" using chain_read [of s] pc by simp
    have d: "distinct (u_chain s)" using pool_okD(4) [OF R(1)] by simp
    have "u_in s = u_out s" if w: "buf_w (uu s) = buf_r (uu s)"
    proof -
      have "concat (map (bitems (u_pool s)) (u_chain s)) = []"
      proof (cases "\<exists>x t. upp s = UGot x t")
        case True
        then obtain t M where M: "u_chain s = M @ [buf_w (uu s), t]" "bitems (u_pool s) t = []" using R(3) by (auto simp: prod_ok_def)
        then have "M = []" using ch d w by (cases M) auto
        then show ?thesis using M e w by simp
      next
        case False
        then have "buf_w (uu s) = last (u_chain s)" using R(3) by (auto simp: prod_ok_def split: up_pc.splits)
        then have "u_chain s = [buf_r (uu s)]" using ch d w by (cases "dq_items (bp_inuse (u_pool s))") (auto split: if_splits)
        then show ?thesis using e by simp
      qed
      then show ?thesis using R(5) by simp
    qed
    then have "u_ok (s\<lparr>ucp := UCmp, u_none := (u_in s = u_out s)\<rparr>)"
      using R(6) pc by (intro u_pc_consumer [OF ok]) (simp_all add: cons_ok_def)
    then show ?thesis using q(1) True by simp
  next
    case False
    then have "u_ok (s\<lparr>ucp := UTake\<rparr>)"
      using R(6) pc swsr_empty_iff [OF q(2)] q(3) by (intro u_pc_consumer [OF ok]) (simp_all add: cons_ok_def)
    then show ?thesis using q(1) False by simp
  qed
qed

lemma u_cmp_ok:
  assumes ok: "u_ok s" and pc: "ucp s = UCmp"
  shows "u_ok (if buf_r (uu s) = buf_w (uu s) then s\<lparr>ucp := UCIdle, u_wrong := (u_wrong s \<or> \<not> u_none s)\<rparr> else s\<lparr>ucp := UAgain\<rparr>)"
  using u_okD(4,6) [OF ok] pc
  by (cases "buf_r (uu s) = buf_w (uu s)") (auto intro!: u_pc_consumer [OF ok] simp: cons_ok_def)

lemma u_again_ok:
  assumes ok: "u_ok s" and pc: "ucp s = UAgain"
  shows "u_ok (case buffer_at (uu s) (buf_r (uu s)) of None \<Rightarrow> u_fail s | Some q \<Rightarrow> s\<lparr>ucp := (if swsr_empty q then UMore else UTake)\<rparr>)"
proof -
  obtain q where q: "buffer_at (uu s) (buf_r (uu s)) = Some q" "sw_inv q" "bitems (u_pool s) (buf_r (uu s)) = sw_items q"
    using read_at [OF ok] pc by auto
  have "u_ok (s\<lparr>ucp := (if swsr_empty q then UMore else UTake)\<rparr>)"
    using u_okD(4,6) [OF ok] pc swsr_empty_iff [OF q(2)] q(3) by (intro u_pc_consumer [OF ok]) (auto simp: cons_ok_def)
  then show ?thesis using q(1) by simp
qed

lemma u_more_ok:
  assumes ok: "u_ok s" and pc: "ucp s = UMore"
  shows "u_ok (case next_r (u_pool s) of Inl e \<Rightarrow> u_fail s | Inr (None, p) \<Rightarrow> put_pool p (s\<lparr>ucp := UTake\<rparr>)
      | Inr (Some t, p) \<Rightarrow> put_pool p (s\<lparr>ucp := UReset t\<rparr>))"
proof -
  note R = u_okD [OF ok]
  have ch: "u_chain s = buf_r (uu s) # dq_items (bp_inuse (u_pool s))" "retired s = []" using chain_read [of s] pc by auto
  have "buf_w (uu s) \<noteq> buf_r (uu s)" using R(4) pc by (simp add: cons_ok_def)
  then have "dq_items (bp_inuse (u_pool s)) \<noteq> []" using write_in [OF R(3) chain_ne] ch(1) by auto
  then obtain t ts where ts: "dq_items (bp_inuse (u_pool s)) = t # ts" by (auto simp: neq_Nil_conv)
  obtain d where d: "next_r (u_pool s) = Inr (Some t, (u_pool s)\<lparr>bp_inuse := d\<rparr>)" "dq_items d = ts"
      "pool_ok (usize (uu s)) ((u_pool s)\<lparr>bp_inuse := d\<rparr>) (u_chain s) (u_apart s)"
    using pool_ok_deq [OF R(1) ts] by blast
  let ?u = "put_pool ((u_pool s)\<lparr>bp_inuse := d\<rparr>) (s\<lparr>ucp := UReset t\<rparr>)"
  have b: "bitems ((u_pool s)\<lparr>bp_inuse := d\<rparr>) = bitems (u_pool s)" by (rule bitems_cong) simp
  have "u_ok ?u"
  proof (rule u_okI)
    show "u_chain ?u = u_chain s" using ch(1) ts d(2) by (simp add: u_chain_def)
    show "u_apart ?u = u_apart s" using ch(2) by (intro apart_retired) (simp_all add: retired_def)
    show "pool_ok (usize (uu ?u)) (u_pool ?u) (u_chain s) (u_apart s)" using d(3) by simp
    show "filled_ok (u_pool ?u) (u_chain s) (ucp ?u)" using R(2) pc by (simp add: filled_ok_def b undecided_def)
    show "prod_ok (usize (uu ?u)) (u_pool ?u) (u_chain s) (buf_w (uu ?u)) (ucp ?u) (upp ?u)"
      using prod_ok_frame [OF R(3) _ _ chain_ne, of "u_pool ?u" "UReset t"] pc by (simp add: b undecided_def)
    show "cons_ok (u_pool ?u) (buf_r (uu ?u)) (buf_w (uu ?u)) (u_none ?u) (ucp ?u)"
      using R(4) pc by (simp add: cons_ok_def b)
  qed (use R(5,6) in \<open>simp_all add: b\<close>)
  then show ?thesis using d(1) by simp
qed

lemma u_reset_ok:
  assumes ok: "u_ok s" and pc: "ucp s = UReset t"
  shows "u_ok (case buffer_at (uu s) (buf_r (uu s)) of None \<Rightarrow> u_fail s
      | Some q \<Rightarrow> s\<lparr>ucp := URecycle t, uu := set_buffer (buf_r (uu s)) (swsr_reset False q) (uu s)\<rparr>)"
proof -
  note R = u_okD [OF ok]
  let ?r = "buf_r (uu s)"
  define L where "L = t # dq_items (bp_inuse (u_pool s))"
  have ch: "u_chain s = ?r # L" "retired s = []" using pc by (simp_all add: u_chain_def retired_def L_def)
  obtain q where q: "buffer_at (uu s) ?r = Some q" using chain_at [OF ok, of ?r] ch(1) by auto
  have K: "buf_w (uu s) \<noteq> ?r" "bitems (u_pool s) ?r = []" using R(4) pc by (simp_all add: cons_ok_def)
  have d: "?r \<notin> set L" using pool_okD(4) [OF R(1)] ch(1) by simp
  let ?u = "s\<lparr>ucp := URecycle t, uu := set_buffer ?r (swsr_reset False q) (uu s)\<rparr>"
  have b: "bitems (u_pool ?u) a = bitems (u_pool s) a" if "a \<in> set L" for a using that d by (auto simp: bitems_upd)
  have ne: "L \<noteq> []" by (simp add: L_def)
  have win: "buf_w (uu s) \<in> set L" using write_in [OF R(3) chain_ne] ch(1) K(1) by auto
  have "u_ok ?u"
  proof (rule u_okI)
    show "u_chain ?u = L" by (simp add: u_chain_def L_def)
    have "retired ?u = [?r]" by (simp add: retired_def)
    then show "u_apart ?u = u_apart s @ [?r]" using ch(2) by (simp add: u_apart_def)
    show "pool_ok (usize (uu ?u)) (u_pool ?u) L (u_apart s @ [?r])"
      using pool_ok_reset [OF R(1) [unfolded ch(1)], of q] q by (simp add: buffer_at_def)
    have "\<forall>a\<in>set (butlast L). bitems (u_pool s) a \<noteq> []"
      using R(2) ne d in_set_butlastD [of _ L] unfolding filled_ok_def ch(1) by auto
    then show "filled_ok (u_pool ?u) L (ucp ?u)" using b in_set_butlastD [of _ L] by (simp add: filled_ok_def del: set_buffer_simps)
    show "prod_ok (usize (uu ?u)) (u_pool ?u) L (buf_w (uu ?u)) (ucp ?u) (upp ?u)"
    proof (cases "\<exists>x t. upp s = UGot x t")
      case True
      then obtain x t' M where M: "upp s = UGot x t'" "u_chain s = M @ [buf_w (uu s), t']" "bitems (u_pool s) t' = []"
        using R(3) by (auto simp: prod_ok_def)
      then obtain M' where "M = ?r # M'" using ch(1) K(1) by (cases M) auto
      then have "L = M' @ [buf_w (uu s), t']" using M(2) ch(1) by simp
      moreover have "bitems (u_pool ?u) t' = []" using b [of t'] M(3) calculation by (simp del: set_buffer_simps)
      ultimately show ?thesis using M(1) by (simp add: prod_ok_def del: set_buffer_simps(1))
    next
      case False
      then have w: "buf_w (uu s) = last L" using R(3) ch(1) ne by (auto simp: prod_ok_def split: up_pc.splits)
      have bw: "bitems (u_pool ?u) (buf_w (uu s)) = bitems (u_pool s) (buf_w (uu s))" by (rule b [OF win])
      have "bitems (u_pool s) (buf_w (uu s)) \<noteq> []" if "upp s = UNext x \<or> upp s = UAlloc x \<or> upp s = UEnq x t'" for x t'
        using R(3) that ne unfolding prod_ok_def ch(1) by auto
      moreover have "length (bitems (u_pool s) (buf_w (uu s))) < unat (usize (uu s))" if "upp s = UPut x" for x
        using R(3) that by (auto simp: prod_ok_def)
      ultimately have "prod_ok (usize (uu s)) (u_pool ?u) L (buf_w (uu s)) (URecycle t) (upp s)"
        using False w bw by (cases "upp s") (simp_all add: prod_ok_def del: set_buffer_simps(1))
      then show ?thesis by simp
    qed
    show "cons_ok (u_pool ?u) (buf_r (uu ?u)) (buf_w (uu ?u)) (u_none ?u) (ucp ?u)" by (simp add: cons_ok_def)
    have "map (bitems (u_pool ?u)) L = map (bitems (u_pool s)) L" by (intro map_cong refl b)
    then show "u_in ?u = u_out ?u @ concat (map (bitems (u_pool ?u)) L)" using R(5) ch(1) K(2) by (simp del: set_buffer_simps(1) map_eq_conv)
  qed (use R(6) in simp)
  then show ?thesis using q by simp
qed

lemma u_recycle_ok:
  assumes ok: "u_ok s" and pc: "ucp s = URecycle t"
  shows "u_ok (case swsr_push (bp_cache (u_pool s)) (buf_r (uu s)) of
        (True, c) \<Rightarrow> put_pool ((u_pool s)\<lparr>bp_cache := c\<rparr>) (s\<lparr>ucp := USetR t\<rparr>)
      | (False, c) \<Rightarrow> put_pool (delete_buffer (buf_r (uu s)) ((u_pool s)\<lparr>bp_cache := c\<rparr>)) (s\<lparr>ucp := USetR t\<rparr>))"
proof -
  note R = u_okD [OF ok]
  let ?r = "buf_r (uu s)"
  obtain f c where f: "swsr_push (bp_cache (u_pool s)) ?r = (f, c)" by (cases "swsr_push (bp_cache (u_pool s)) ?r")
  define X where "X = (case upp s of UEnq x t \<Rightarrow> [t] | _ \<Rightarrow> [])"
  have X: "u_apart s = X @ [?r]" using pc by (simp add: u_apart_def retired_def X_def)
  define p where "p = (if f then (u_pool s)\<lparr>bp_cache := c\<rparr> else delete_buffer ?r ((u_pool s)\<lparr>bp_cache := c\<rparr>))"
  have p: "pool_ok (usize (uu s)) p (u_chain s) X" using pool_ok_recycle [OF R(1) [unfolded X] f] by (simp add: p_def)
  have d: "?r \<notin> set (u_chain s)" using pool_okD(4) [OF R(1)] X by auto
  have b: "bitems p a = bitems (u_pool s) a" if "a \<in> set (u_chain s)" for a
    using that d by (auto simp: p_def bitems_def delete_buffer_def)
  have inuse: "bp_inuse p = bp_inuse (u_pool s)" by (simp add: p_def delete_buffer_def)
  let ?u = "put_pool p (s\<lparr>ucp := USetR t\<rparr>)"
  have win: "buf_w (uu s) \<in> set (u_chain s)" by (rule write_in [OF R(3) chain_ne])
  have "u_ok ?u"
  proof (rule u_okI)
    show "u_chain ?u = u_chain s" using pc inuse by (simp add: u_chain_def)
    show "u_apart ?u = X" by (simp add: u_apart_def retired_def X_def)
    show "pool_ok (usize (uu ?u)) (u_pool ?u) (u_chain s) X" using p by simp
    show "filled_ok (u_pool ?u) (u_chain s) (ucp ?u)"
      using filled_ok_frame [OF R(2), of p "USetR t"] b pc by (simp add: undecided_def)
    show "prod_ok (usize (uu ?u)) (u_pool ?u) (u_chain s) (buf_w (uu ?u)) (ucp ?u) (upp ?u)"
      using prod_ok_frame [OF R(3) _ _ chain_ne, of p "USetR t"] b pc by (simp add: undecided_def)
    have "map (bitems p) (u_chain s) = map (bitems (u_pool s)) (u_chain s)" by (intro map_cong refl b)
    then show "u_in ?u = u_out ?u @ concat (map (bitems (u_pool ?u)) (u_chain s))" using R(5) by (simp del: map_eq_conv)
  qed (use R(6) in \<open>simp_all add: cons_ok_def\<close>)
  then show ?thesis using f by (cases f) (simp_all add: p_def)
qed

lemma u_setr_ok:
  assumes ok: "u_ok s" and pc: "ucp s = USetR t"
  shows "u_ok (s\<lparr>ucp := UTake, uu := (uu s)\<lparr>buf_r := t\<rparr>\<rparr>)" (is "u_ok ?u")
proof (rule u_okI)
  note R = u_okD [OF ok]
  show "u_chain ?u = u_chain s" using pc by (simp add: u_chain_def)
  show "u_apart ?u = u_apart s" using pc by (intro apart_retired) (simp_all add: retired_def)
  show "filled_ok (u_pool ?u) (u_chain s) (ucp ?u)"
    using filled_ok_frame [OF R(2), of "u_pool s" "UTake"] pc by (simp add: undecided_def)
  show "prod_ok (usize (uu ?u)) (u_pool ?u) (u_chain s) (buf_w (uu ?u)) (ucp ?u) (upp ?u)"
    using prod_ok_frame [OF R(3) _ _ chain_ne, of "u_pool s" "UTake"] pc by (simp add: undecided_def)
qed (use u_okD [OF ok] in \<open>simp_all add: cons_ok_def\<close>)

lemma u_take_ok:
  assumes ok: "u_ok s" and pc: "ucp s = UTake"
  shows "u_ok (case take_r (uu s) of Inl e \<Rightarrow> u_fail s
      | Inr (Some x, u) \<Rightarrow> s\<lparr>ucp := UCIdle, uu := u, u_out := u_out s @ [x]\<rparr>
      | Inr (None, u) \<Rightarrow> s\<lparr>ucp := UCIdle, uu := u, u_wrong := (u_wrong s \<or> u_in s \<noteq> u_out s)\<rparr>)"
proof -
  note R = u_okD [OF ok]
  let ?r = "buf_r (uu s)"
  define L where "L = dq_items (bp_inuse (u_pool s))"
  have ch: "u_chain s = ?r # L" "retired s = []" using chain_read [of s] pc by (simp_all add: L_def)
  obtain q where q: "buffer_at (uu s) ?r = Some q" "sw_inv q" "bsize q = usize (uu s)" "bitems (u_pool s) ?r = sw_items q"
    using read_at [OF ok] pc by auto
  have d: "?r \<notin> set L" using pool_okD(4) [OF R(1)] ch(1) by simp
  have dl: "L \<noteq> [] \<Longrightarrow> last L \<noteq> ?r" using d last_in_set by metis
  have rin: "?r \<in> set (u_chain s)" using ch(1) by simp
  have keep: "u_ok u" if u: "uu u = set_buffer ?r q' (uu s)" "ucp u = UCIdle" "upp u = upp s" "u_in u = u_in s" "\<not> u_wrong u"
      and q': "sw_inv q'" "bsize q' = usize (uu s)" "length (sw_items q') \<le> length (sw_items q)"
      and out: "u_out u @ sw_items q' = u_out s @ sw_items q" for u q'
  proof (rule u_okI)
    have b: "bitems (u_pool u) a = (if a = ?r then sw_items q' else bitems (u_pool s) a)" for a by (simp add: u(1) bitems_upd)
    show "u_chain u = u_chain s" using ch(1) u(1,2) by (simp add: u_chain_def L_def)
    show "u_apart u = u_apart s" using ch(2) u(2,3) by (intro apart_retired) (simp_all add: retired_def)
    show "pool_ok (usize (uu u)) (u_pool u) (u_chain s) (u_apart s)" using pool_ok_store [OF R(1) rin q'(1,2)] u(1) by simp
    show "filled_ok (u_pool u) (u_chain s) (ucp u)"
      using R(2) pc u(2) ch(1) by (auto simp: filled_ok_def undecided_def b)
    show "prod_ok (usize (uu u)) (u_pool u) (u_chain s) (buf_w (uu u)) (ucp u) (upp u)"
    proof (cases "upp s")
      case (UGot x t)
      then obtain M where "u_chain s = M @ [buf_w (uu s), t]" "bitems (u_pool s) t = []" using R(3) by (auto simp: prod_ok_def)
      moreover have "t \<noteq> ?r" using calculation(1) pool_okD(4) [OF R(1)] ch(1) by (cases M) auto
      ultimately show ?thesis using UGot u(1,3) by (simp add: prod_ok_def bitems_upd)
    next
      case (UPut x)
      then show ?thesis using R(3) u(1,3) q' q(4) by (auto simp: prod_ok_def bitems_upd)
    qed (use R(3) u(1,2,3) pc ch(1) d dl in \<open>auto simp: prod_ok_def undecided_def bitems_upd split: if_splits\<close>)
    show "cons_ok (u_pool u) (buf_r (uu u)) (buf_w (uu u)) (u_none u) (ucp u)" using u(2) by (simp add: cons_ok_def)
    have "map (bitems (u_pool u)) L = map (bitems (u_pool s)) L" using d by (intro map_cong refl) (auto simp: b)
    moreover have "u_out u @ sw_items q' @ z = u_out s @ sw_items q @ z" for z using out by (metis append.assoc)
    ultimately show "u_in u = u_out u @ concat (map (bitems (u_pool u)) (u_chain s))"
      using R(5) u(4) ch(1) q(4) by (simp add: b del: map_eq_conv)
    show "\<not> u_wrong u" by (rule u(5))
  qed
  show ?thesis
  proof (cases "sw_items q")
    case Nil
    have "L = []"
    proof (rule ccontr)
      assume "L \<noteq> []"
      then have "?r \<in> set (butlast (u_chain s))" using ch(1) by simp
      then show False using R(2) pc q(4) Nil by (auto simp: filled_ok_def undecided_def)
    qed
    then have e: "u_in s = u_out s" using R(5) ch(1) q(4) Nil by simp
    have p: "swsr_pop q = (None, q)" by (rule sw.pop_empty [OF q(2) Nil])
    have "take_r (uu s) = Inr (None, set_buffer ?r q (uu s))" using q(1) p by (simp add: take_r_def)
    moreover have "u_ok (s\<lparr>ucp := UCIdle, uu := set_buffer ?r q (uu s), u_wrong := (u_wrong s \<or> u_in s \<noteq> u_out s)\<rparr>)"
      by (rule keep [of _ q]) (use q R(6) e in simp_all)
    ultimately show ?thesis by simp
  next
    case (Cons x xs)
    let ?q = "snd (swsr_pop q)"
    have q': "fst (swsr_pop q) = Some x" "sw_inv ?q" "sw_items ?q = xs" "bsize ?q = usize (uu s)"
      using swsr_pop_Cons [OF q(2) Cons] q(3) by simp_all
    have "take_r (uu s) = Inr (Some x, set_buffer ?r ?q (uu s))" using q(1) q'(1) by (simp add: take_r_def)
    moreover have "u_ok (s\<lparr>ucp := UCIdle, uu := set_buffer ?r ?q (uu s), u_out := u_out s @ [x]\<rparr>)"
      by (rule keep [of _ ?q]) (use q' R(6) Cons in simp_all)
    ultimately show ?thesis by simp
  qed
qed

subsection \<open>Every run\<close>

lemma u_step_ok:
  assumes "u_step s s'" and ok: "u_ok s"
  shows "u_ok s'"
  using assms(1)
proof cases
  case (u_room x)
  then show ?thesis using u_room_ok [OF ok] by simp
next
  case (u_cached x)
  then show ?thesis using u_cached_ok [OF ok] by simp
next
  case (u_alloc x t)
  then show ?thesis using u_alloc_ok [OF ok] by simp
next
  case (u_enq x t)
  then show ?thesis using u_enq_ok [OF ok] by simp
next
  case (u_setw x t)
  then show ?thesis using u_setw_ok [OF ok] by simp
next
  case (u_put x)
  then show ?thesis using u_put_ok [OF ok] by simp
next
  case u_test
  then show ?thesis using u_test_ok [OF ok] by simp
next
  case u_cmp
  then show ?thesis using u_cmp_ok [OF ok] by simp
next
  case u_again
  then show ?thesis using u_again_ok [OF ok] by simp
next
  case u_more
  then show ?thesis using u_more_ok [OF ok] by simp
next
  case (u_reset t)
  then show ?thesis using u_reset_ok [OF ok] by simp
next
  case (u_recycle t)
  then show ?thesis using u_recycle_ok [OF ok] by simp
next
  case (u_setr t)
  then show ?thesis using u_setr_ok [OF ok] by simp
next
  case u_take
  then show ?thesis using u_take_ok [OF ok] by simp
qed

lemma u_steps_ok: "u_step\<^sup>*\<^sup>* s s' \<Longrightarrow> u_ok s \<Longrightarrow> u_ok s'"
  by (induction rule: rtranclp_induct) (auto intro: u_step_ok)

lemma u_start_ok:
  assumes rep: "u_rep u []" and e: "u_items u = []"
  shows "u_ok (u_start u)"
proof (rule u_okI)
  let ?s = "u_start u"
  have P: "0 < usize u" "pool_rep (usize u) (pool u) [] (buf_r u)" "buf_w u = buf_r u" using rep by (simp_all add: u_rep_def)
  note Q = pool_rep_parts [OF P(2)]
  have b: "bitems (pool u) (buf_r u) = []" using e Q(2) by (simp add: u_items_def)
  show "u_chain ?s = [buf_r u]" using Q(2) by (simp add: u_chain_def u_start_def)
  show "u_apart ?s = []" by (simp add: u_apart_def retired_def u_start_def)
  show "pool_ok (usize (uu ?s)) (u_pool ?s) [buf_r u] []"
    using P(1) Q unfolding pool_ok_def by (simp add: u_start_def)
  show "u_in ?s = u_out ?s @ concat (map (bitems (u_pool ?s)) [buf_r u])" using b by (simp add: u_start_def)
qed (use rep in \<open>simp_all add: u_start_def filled_ok_def prod_ok_def cons_ok_def u_rep_def\<close>)

lemma u_ok_idle_items: "u_ok s \<Longrightarrow> ucp s = UCIdle \<Longrightarrow> u_in s = u_out s @ u_items (uu s)"
  using u_okD(5) [of s] by (simp add: u_chain_def u_items_def)

text \<open>
  C7. One producer and one consumer on an unbounded buffer, interleaved at every access to the
  structures they share, while the buffers between them come, go and are recycled: at every moment
  the elements pushed so far are those popped so far followed by the contents of the chain of
  buffers, so none is lost, duplicated or overtaken; no call touches a buffer that is not
  allocated; and \<open>pop\<close> reports an empty channel only when it was empty at some moment of the
  call. Whenever the consumer is between two calls, the channel holds what was pushed and not popped.
\<close>

theorem uswsr_spsc_fifo:
  assumes "0 < n" and "uswsr_new n fixed fillcache = Inr (True, u)" and "u_step\<^sup>*\<^sup>* (u_start u) s"
  shows "u_in s = u_out s @ concat (map (bitems (u_pool s)) (u_chain s)) \<and> \<not> u_wrong s \<and>
    (ucp s = UCIdle \<longrightarrow> u_in s = u_out s @ u_items (uu s))"
proof -
  have "u_rep u []" "u_items u = []" using uswsr_new_ok [OF assms(1), of fixed fillcache, where ?'a = 'a] assms(2) by auto
  then have ok: "u_ok s" using u_steps_ok [OF assms(3)] u_start_ok by blast
  then show ?thesis using u_okD(5,6) [OF ok] u_ok_idle_items [OF ok] by blast
qed

text \<open>A run: the producer pushes one element into a fresh buffer.\<close>

lemma u_push_run:
  assumes u: "u_rep u []" "u_items u = []"
  shows "\<exists>s. u_step\<^sup>*\<^sup>* (u_start u) s \<and> u_in s = [x] \<and> u_out s = [] \<and> ucp s = UCIdle"
proof -
  let ?s = "u_start u" let ?t = "?s\<lparr>upp := UPut x\<rparr>"
  have ok: "u_ok ?s" by (rule u_start_ok [OF u])
  have n: "0 < usize u" "buf_w u = buf_r u" using u(1) by (simp_all add: u_rep_def)
  have uu: "uu ?s = u" "upp ?s = UPIdle" "ucp ?s = UCIdle" "u_in ?s = []" "u_out ?s = []" by (simp_all add: u_start_def)
  obtain q where q: "buffer_at u (buf_r u) = Some q" "sw_inv q" "bsize q = usize u" "bitems (pool u) (buf_r u) = sw_items q"
    using read_at [OF ok] uu by auto
  have "sw_items q = []" using u(2) q(4) by (simp add: u_items_def)
  then have "swsr_available q" using swsr_available_iff [OF q(2)] q(3) n(1) by (simp add: word_less_nat_alt)
  then have "u_step ?s ?t" using u_room [of ?s x] uu q(1) n(2) by (simp add: uswsr_available_def)
  moreover have "u_step ?t (?t\<lparr>upp := UPIdle, u_in := [x], uu := set_buffer (buf_w u) (snd (swsr_push q x)) u\<rparr>)"
    using u_put [of ?t x] uu q(1) n(2) by simp
  ultimately have "u_step\<^sup>*\<^sup>* ?s (?t\<lparr>upp := UPIdle, u_in := [x], uu := set_buffer (buf_w u) (snd (swsr_push q x)) u\<rparr>)"
    by (meson rtranclp.intros)
  then show ?thesis using uu by (intro exI conjI) (assumption | simp)+
qed

theorem uswsr_spsc_fifo_witness:
  "\<exists>u s. uswsr_new 2 False False = Inr (True, u) \<and> u_step\<^sup>*\<^sup>* (u_start u) s \<and> u_items (uu s) = [7 :: nat] \<and> \<not> u_wrong s"
proof -
  obtain u :: "nat uswsr" where u: "uswsr_new 2 False False = Inr (True, u)" "u_rep u []" "u_items u = []"
    using uswsr_new_ok [of 2 False False, where ?'a = nat] by auto
  obtain s where s: "u_step\<^sup>*\<^sup>* (u_start u) s" "u_in s = [7]" "u_out s = []" "ucp s = UCIdle"
    using u_push_run [OF u(2,3), of 7] by blast
  have n: "(0 :: u64) < 2" by simp
  have "[7] = [] @ u_items (uu s) \<and> \<not> u_wrong s"
    using uswsr_spsc_fifo [OF n u(1) s(1)] unfolding s(2,3,4) by blast
  then have "u_items (uu s) = [7] \<and> \<not> u_wrong s" by simp
  then show ?thesis using u(1) s(1) by blast
qed

end
