(* ===== verification/FFDynqueueMP.thy ===== *)
theory FFDynqueueMP
  imports FFDynqueue
begin

text \<open>
  The operations \<open>mp_push\<close> and \<open>mp_pop\<close> of the list-based queue (\<open>libs/fastflow/ff/dynqueue.hpp\<close>),
  the queue of Michael and Scott with one lock for the producers and one for the consumers, as a
  step relation: the threads are interleaved at every access to the shared memory.
\<close>

subsection \<open>The threads\<close>

text \<open>
  The control states of a thread, by what it does next. A producer: \<open>PMalloc\<close> allocates a node
  because the cache was empty, \<open>PNode\<close> fills its node, \<open>PFilled\<close> takes the lock, \<open>PLocked\<close> links
  the node to the tail, \<open>PLinked\<close> moves the tail, \<open>PSwung\<close> releases the lock. A consumer: \<open>CLocked\<close>
  tests the link of the head, \<open>CFound\<close> reads the element behind it, \<open>CData\<close> moves the head, \<open>CMoved\<close>
  gives the old head to the cache, \<open>CCached\<close> and \<open>CEmpty\<close> release the lock, \<open>CFree\<close> frees the old
  head that the cache did not take. A thread is \<open>Bad\<close> after an access to a node that is not
  allocated, or when it finds no element where it expects one.
\<close>

datatype 'a mp_pc = MPIdle | PMalloc 'a | PNode 'a nat | PFilled 'a nat | PLocked 'a nat | PLinked nat | PSwung
  | CLocked | CEmpty | CFound | CData 'a | CMoved nat 'a | CCached nat bool 'a | CFree nat 'a | Bad

record 'a mp_queue =
  mq :: "'a dynqueue"
  p_lock :: "nat option"
  c_lock :: "nat option"
  mp_pcs :: "nat \<Rightarrow> 'a mp_pc"
  linked :: "'a list"
  taken :: "'a list"

abbreviation to_pc :: "nat \<Rightarrow> 'a mp_pc \<Rightarrow> 'a mp_queue \<Rightarrow> 'a mp_queue" where
  "to_pc t c s \<equiv> s\<lparr>mp_pcs := (mp_pcs s)(t := c)\<rparr>"

abbreviation set_node :: "nat \<Rightarrow> 'a option \<times> nat option \<Rightarrow> 'a mp_queue \<Rightarrow> 'a mp_queue" where
  "set_node n v s \<equiv> s\<lparr>mq := (mq s)\<lparr>dq_heap := (dq_heap (mq s))(n \<mapsto> v)\<rparr>\<rparr>"

text \<open>
  The accesses are interleaved in any order. \<open>malloc\<close> returns any address that is not allocated, so
  also one that has just been freed. A call on the cache is one step: its producers and its
  consumers are serialized by the two locks, and for one producer and one consumer its accesses
  may be interleaved at will. \<open>linked\<close> and \<open>taken\<close> record the elements in the order in which they
  enter and leave the list.
\<close>

inductive mp_step :: "'a mp_queue \<Rightarrow> 'a mp_queue \<Rightarrow> bool" where
  p_cached: "mp_pcs s t = MPIdle \<Longrightarrow> p_lock s = None \<Longrightarrow> swsr_pop (dq_cache (mq s)) = (Some n, c) \<Longrightarrow>
    mp_step s (to_pc t (PNode x n) (s\<lparr>mq := (mq s)\<lparr>dq_cache := c\<rparr>\<rparr>))"
| p_uncached: "mp_pcs s t = MPIdle \<Longrightarrow> p_lock s = None \<Longrightarrow> swsr_pop (dq_cache (mq s)) = (None, c) \<Longrightarrow>
    mp_step s (to_pc t (PMalloc x) (s\<lparr>mq := (mq s)\<lparr>dq_cache := c\<rparr>\<rparr>))"
| p_malloc: "mp_pcs s t = PMalloc x \<Longrightarrow> dq_heap (mq s) n = None \<Longrightarrow>
    mp_step s (to_pc t (PNode x n) (s\<lparr>mq := (mq s)\<lparr>dq_heap := (dq_heap (mq s))(n \<mapsto> (None, None)), dq_brk := max (dq_brk (mq s)) (n + 1)\<rparr>\<rparr>))"
| p_fill: "mp_pcs s t = PNode x n \<Longrightarrow>
    mp_step s (if dq_heap (mq s) n = None then to_pc t Bad s else to_pc t (PFilled x n) (set_node n (Some x, None) s))"
| p_acquire: "mp_pcs s t = PFilled x n \<Longrightarrow> p_lock s = None \<Longrightarrow> mp_step s (to_pc t (PLocked x n) (s\<lparr>p_lock := Some t\<rparr>))"
| p_link: "mp_pcs s t = PLocked x n \<Longrightarrow>
    mp_step s (case dq_heap (mq s) (dq_tail (mq s)) of None \<Rightarrow> to_pc t Bad s
      | Some (d, _) \<Rightarrow> to_pc t (PLinked n) (set_node (dq_tail (mq s)) (d, Some n) (s\<lparr>linked := linked s @ [x]\<rparr>)))"
| p_swing: "mp_pcs s t = PLinked n \<Longrightarrow> mp_step s (to_pc t PSwung (s\<lparr>mq := (mq s)\<lparr>dq_tail := n\<rparr>\<rparr>))"
| p_release: "mp_pcs s t = PSwung \<Longrightarrow> mp_step s (to_pc t MPIdle (s\<lparr>p_lock := None\<rparr>))"
| c_acquire: "mp_pcs s t = MPIdle \<Longrightarrow> c_lock s = None \<Longrightarrow> mp_step s (to_pc t CLocked (s\<lparr>c_lock := Some t\<rparr>))"
| c_test: "mp_pcs s t = CLocked \<Longrightarrow>
    mp_step s (case dq_heap (mq s) (dq_head (mq s)) of None \<Rightarrow> to_pc t Bad s
      | Some (_, None) \<Rightarrow> to_pc t CEmpty s
      | Some (_, Some _) \<Rightarrow> to_pc t CFound s)"
| c_none: "mp_pcs s t = CEmpty \<Longrightarrow> mp_step s (to_pc t MPIdle (s\<lparr>c_lock := None\<rparr>))"
| c_data: "mp_pcs s t = CFound \<Longrightarrow>
    mp_step s (case dq_heap (mq s) (dq_head (mq s)) of
        Some (_, Some m) \<Rightarrow> (case dq_heap (mq s) m of Some (Some d, _) \<Rightarrow> to_pc t (CData d) s | _ \<Rightarrow> to_pc t Bad s)
      | _ \<Rightarrow> to_pc t Bad s)"
| c_move: "mp_pcs s t = CData d \<Longrightarrow>
    mp_step s (case dq_heap (mq s) (dq_head (mq s)) of
        Some (_, Some m) \<Rightarrow> to_pc t (CMoved (dq_head (mq s)) d) (s\<lparr>mq := (mq s)\<lparr>dq_head := m\<rparr>, taken := taken s @ [d]\<rparr>)
      | _ \<Rightarrow> to_pc t Bad s)"
| c_cache: "mp_pcs s t = CMoved n d \<Longrightarrow> swsr_push (dq_cache (mq s)) n = (f, c) \<Longrightarrow>
    mp_step s (to_pc t (CCached n f d) (s\<lparr>mq := (mq s)\<lparr>dq_cache := c\<rparr>\<rparr>))"
| c_release: "mp_pcs s t = CCached n f d \<Longrightarrow> mp_step s (to_pc t (if f then MPIdle else CFree n d) (s\<lparr>c_lock := None\<rparr>))"
| c_free: "mp_pcs s t = CFree n d \<Longrightarrow>
    mp_step s (if dq_heap (mq s) n = None then to_pc t Bad s else to_pc t MPIdle (s\<lparr>mq := dq_remove n (mq s)\<rparr>))"

definition mp_start :: "'a dynqueue \<Rightarrow> 'a mp_queue" where
  "mp_start q = \<lparr>mq = q, p_lock = None, c_lock = None, mp_pcs = (\<lambda>_. MPIdle), linked = [], taken = []\<rparr>"

subsection \<open>The invariant\<close>

text \<open>The node a thread has to itself, and the threads inside the two critical sections.\<close>

definition holds_node :: "'a mp_pc \<Rightarrow> nat option" where
  "holds_node c = (case c of PNode x n \<Rightarrow> Some n | PFilled x n \<Rightarrow> Some n | PLocked x n \<Rightarrow> Some n | CMoved n d \<Rightarrow> Some n
     | CCached n f d \<Rightarrow> (if f then None else Some n) | CFree n d \<Rightarrow> Some n | _ \<Rightarrow> None)"

definition in_push :: "'a mp_pc \<Rightarrow> bool" where
  "in_push c = (case c of PLocked x n \<Rightarrow> True | PLinked n \<Rightarrow> True | PSwung \<Rightarrow> True | _ \<Rightarrow> False)"

definition in_pop :: "'a mp_pc \<Rightarrow> bool" where
  "in_pop c = (case c of CLocked \<Rightarrow> True | CEmpty \<Rightarrow> True | CFound \<Rightarrow> True | CData d \<Rightarrow> True | CMoved n d \<Rightarrow> True
     | CCached n f d \<Rightarrow> True | _ \<Rightarrow> False)"

abbreviation node_data :: "(nat \<Rightarrow> ('a option \<times> nat option) option) \<Rightarrow> nat \<Rightarrow> 'a option" where
  "node_data h p \<equiv> (case h p of Some (d, _) \<Rightarrow> d | None \<Rightarrow> None)"

definition pc_ok :: "(nat \<Rightarrow> ('a option \<times> nat option) option) \<Rightarrow> nat \<Rightarrow> nat list \<Rightarrow> 'a list \<Rightarrow> 'a mp_pc \<Rightarrow> bool" where
  "pc_ok h a ps xs c = (case c of PFilled x n \<Rightarrow> h n = Some (Some x, None) | PLocked x n \<Rightarrow> h n = Some (Some x, None)
     | PLinked n \<Rightarrow> n = last (a # ps) | CFound \<Rightarrow> ps \<noteq> [] | CData d \<Rightarrow> ps \<noteq> [] \<and> d = hd xs | Bad \<Rightarrow> False | _ \<Rightarrow> True)"

definition list_ok :: "'a dynqueue \<Rightarrow> nat list \<Rightarrow> 'a list \<Rightarrow> bool" where
  "list_ok q ps xs \<longleftrightarrow> chain (dq_heap q) (dq_head q) ps \<and> map (node_data (dq_heap q)) ps = map Some xs \<and>
     sw_inv (dq_cache q) \<and> distinct (dq_head q # ps @ sw_items (dq_cache q)) \<and>
     set (dq_head q # ps @ sw_items (dq_cache q)) \<subseteq> dom (dq_heap q) \<and> (\<forall>a\<in>dom (dq_heap q). a < dq_brk q)"

text \<open>Allocated nodes \<open>D\<close> are in the list or the cache, \<open>L\<close>, or belong to one thread.\<close>

definition own :: "nat set \<Rightarrow> nat set \<Rightarrow> (nat \<Rightarrow> nat option) \<Rightarrow> bool" where
  "own D L H \<longleftrightarrow> (\<forall>t n. H t = Some n \<longrightarrow> n \<in> D \<and> n \<notin> L) \<and> (\<forall>t u n. H t = Some n \<longrightarrow> H u = Some n \<longrightarrow> t = u) \<and>
     (\<forall>n\<in>D. n \<in> L \<or> (\<exists>t. H t = Some n))"

abbreviation listed :: "'a dynqueue \<Rightarrow> nat list \<Rightarrow> nat set" where
  "listed q ps \<equiv> set (dq_head q # ps @ sw_items (dq_cache q))"

definition locks_ok :: "'a mp_queue \<Rightarrow> bool" where
  "locks_ok s \<longleftrightarrow> (\<forall>t. p_lock s = Some t \<longleftrightarrow> in_push (mp_pcs s t)) \<and> (\<forall>t. c_lock s = Some t \<longleftrightarrow> in_pop (mp_pcs s t))"

definition mp_rep :: "'a mp_queue \<Rightarrow> nat list \<Rightarrow> 'a list \<Rightarrow> bool" where
  "mp_rep s ps xs \<longleftrightarrow> list_ok (mq s) ps xs \<and> own (dom (dq_heap (mq s))) (listed (mq s) ps) (\<lambda>t. holds_node (mp_pcs s t)) \<and> locks_ok s \<and> (\<forall>t. pc_ok (dq_heap (mq s)) (dq_head (mq s)) ps xs (mp_pcs s t)) \<and>
     linked s = taken s @ xs \<and> ((\<forall>t n. mp_pcs s t \<noteq> PLinked n) \<longrightarrow> dq_tail (mq s) = last (dq_head (mq s) # ps))"

lemmas pc_simps = holds_node_def in_push_def in_pop_def pc_ok_def

subsection \<open>Ownership\<close>

lemma ownD: "own D L H \<Longrightarrow> H t = Some n \<Longrightarrow> n \<in> D \<and> n \<notin> L" "own D L H \<Longrightarrow> H t = Some n \<Longrightarrow> H u = Some n \<Longrightarrow> t = u"
  "own D L H \<Longrightarrow> n \<in> D \<Longrightarrow> n \<notin> L \<Longrightarrow> \<exists>t. H t = Some n"
  unfolding own_def by blast+

lemma ownI:
  assumes "\<And>t n. H t = Some n \<Longrightarrow> n \<in> D \<and> n \<notin> L" and "\<And>t u n. H t = Some n \<Longrightarrow> H u = Some n \<Longrightarrow> t = u"
    and "\<And>n. n \<in> D \<Longrightarrow> n \<notin> L \<Longrightarrow> \<exists>t. H t = Some n"
  shows "own D L H"
  using assms unfolding own_def by blast

lemma own_take: "H t = None \<Longrightarrow> own D L H \<Longrightarrow> n \<in> L \<Longrightarrow> n \<in> D \<Longrightarrow> own D (L - {n}) (H(t := Some n))"
proof (rule ownI, goal_cases)
  case (3 m)
  show ?case
  proof (cases "m = n")
    case False
    then obtain u where u: "H u = Some m" using ownD(3) [of D L H m] 3 by auto
    then have "u \<noteq> t" using 3 by auto
    then show ?thesis using u by auto
  qed auto
qed (auto dest: ownD(1,2) split: if_splits)

lemma own_give: "own D L H \<Longrightarrow> H t = Some n \<Longrightarrow> own D (insert n L) (H(t := None))"
proof (rule ownI, goal_cases)
  case (3 m)
  then have "m \<noteq> n" "m \<in> D" "m \<notin> L" by auto
  then show ?case using ownD(3) [OF 3(1), of m] 3(2) by (metis fun_upd_other option.sel)
qed (auto dest: ownD(1,2) split: if_splits)

lemma own_new: "own D L H \<Longrightarrow> n \<notin> D \<Longrightarrow> L \<subseteq> D \<Longrightarrow> H t = None \<Longrightarrow> own (insert n D) L (H(t := Some n))"
proof (rule ownI, goal_cases)
  case (3 m)
  show ?case
  proof (cases "m = n")
    case False
    then obtain u where u: "H u = Some m" using ownD(3) [of D L H m] 3 by auto
    then have "u \<noteq> t" using 3 by auto
    then show ?thesis using u by auto
  qed auto
qed (auto dest: ownD(1,2) split: if_splits)

lemma own_free: "own D L H \<Longrightarrow> H t = Some n \<Longrightarrow> own (D - {n}) L (H(t := None))"
proof (rule ownI, goal_cases)
  case (3 m)
  then have "m \<noteq> n" "m \<in> D" "m \<notin> L" by auto
  then show ?case using ownD(3) [OF 3(1), of m] 3(2) by (metis fun_upd_other option.sel)
qed (auto dest: ownD(1,2) split: if_splits)

lemma holds_upd: "(\<lambda>v. holds_node ((p(t := c)) v)) = (\<lambda>v. holds_node (p v))(t := holds_node c)"
  by (rule ext) simp

lemma own_same: "own D L (\<lambda>v. holds_node (p v)) \<Longrightarrow> holds_node c = holds_node (p t) \<Longrightarrow> own D L (\<lambda>v. holds_node ((p(t := c)) v))"
  unfolding holds_upd by (simp add: fun_upd_idem)

subsection \<open>The list\<close>

lemma list_ok_cong: "list_ok q ps xs \<Longrightarrow> dq_heap q' = dq_heap q \<Longrightarrow> dq_head q' = dq_head q \<Longrightarrow> dq_cache q' = dq_cache q \<Longrightarrow>
    dq_brk q' = dq_brk q \<Longrightarrow> list_ok q' ps xs"
  by (simp add: list_ok_def)

lemma node_data_upd: "n \<notin> set ps \<Longrightarrow> map (node_data (h(n := v))) ps = map (node_data h) ps"
  by (intro map_cong) auto

text \<open>Changing, adding or removing a node outside the list.\<close>

lemma list_ok_heap:
  assumes "list_ok q ps xs" and "n \<notin> listed q ps" and "\<And>a. a \<in> dom ((dq_heap q)(n := v)) \<Longrightarrow> a < b"
  shows "list_ok (q\<lparr>dq_heap := (dq_heap q)(n := v), dq_brk := b\<rparr>) ps xs"
proof -
  have "n \<notin> set ps" using assms(2) by simp
  then have "map (node_data ((dq_heap q)(n := v))) ps = map Some xs"
    using assms(1) by (simp add: node_data_upd list_ok_def del: fun_upd_apply)
  moreover have "chain ((dq_heap q)(n := v)) (dq_head q) ps"
    using assms(1,2) chain_upd [of n "dq_head q" ps "dq_heap q" v] by (simp add: list_ok_def)
  moreover have "listed q ps \<subseteq> dom ((dq_heap q)(n := v))"
    using assms(1,2) by (auto simp: list_ok_def)
  ultimately show ?thesis using assms(1,3) by (simp add: list_ok_def del: fun_upd_apply)
qed

lemma list_ok_cache:
  assumes "list_ok q ps xs" and "sw_inv c" and "distinct (dq_head q # ps @ sw_items c)" and "set (sw_items c) \<subseteq> dom (dq_heap q)"
  shows "list_ok (q\<lparr>dq_cache := c\<rparr>) ps xs"
  using assms by (simp add: list_ok_def)

lemma list_ok_link:
  assumes l: "list_ok q ps xs" and n: "dq_heap q n = Some (Some x, None)" "n \<notin> listed q ps" and t: "tn = last (dq_head q # ps)"
    and d: "dq_heap q tn = Some (d, v)"
  shows "list_ok (q\<lparr>dq_heap := (dq_heap q)(tn \<mapsto> (d, Some n))\<rparr>) (ps @ [n]) (xs @ [x])"
proof -
  have "chain ((dq_heap q)(n \<mapsto> (Some x, None), last (dq_head q # ps) \<mapsto> (d, Some n))) (dq_head q) (ps @ [n])"
    using l n(2) d t by (intro chain_snoc [where v = v]) (auto simp: list_ok_def)
  then have "chain ((dq_heap q)(tn \<mapsto> (d, Some n))) (dq_head q) (ps @ [n])"
    using n(1) t by (simp add: fun_upd_idem)
  moreover have "n \<noteq> tn" using n(2) t last_in_set [of "dq_head q # ps"] by auto
  moreover have "node_data ((dq_heap q)(tn \<mapsto> (d, Some n))) p = node_data (dq_heap q) p" for p using d by simp
  ultimately show ?thesis using l n d by (auto simp: list_ok_def)
qed

lemma list_ok_next:
  assumes "list_ok q (p # ps) (x # xs)"
  shows "list_ok (q\<lparr>dq_head := p\<rparr>) ps xs"
  using assms by (auto simp: list_ok_def)

lemma list_ok_cons: "list_ok q (p # ps) xs \<Longrightarrow> \<exists>d v xs'. dq_heap q (dq_head q) = Some (d, Some p) \<and> dq_heap q p = Some (Some (hd xs), v) \<and> xs = hd xs # xs'"
proof -
  assume l: "list_ok q (p # ps) xs"
  then obtain x xs' where x: "xs = x # xs'" "node_data (dq_heap q) p = Some x" by (auto simp: list_ok_def Cons_eq_map_conv)
  then obtain v where "dq_heap q p = Some (Some x, v)" by (auto split: option.splits)
  then show ?thesis using l x by (auto simp: list_ok_def)
qed

lemma list_ok_nil: "list_ok q [] xs \<Longrightarrow> \<exists>d. dq_heap q (dq_head q) = Some (d, None)"
  by (simp add: list_ok_def)

subsection \<open>Every access keeps the invariant\<close>

lemma locks_stay: "locks_ok s \<Longrightarrow> p_lock u = p_lock s \<Longrightarrow> c_lock u = c_lock s \<Longrightarrow> mp_pcs u = (mp_pcs s)(t := c) \<Longrightarrow>
    in_push c = in_push (mp_pcs s t) \<Longrightarrow> in_pop c = in_pop (mp_pcs s t) \<Longrightarrow> locks_ok u"
  by (auto simp: locks_ok_def)

lemma locks_p: "locks_ok s \<Longrightarrow> (if in_push c then p_lock s = None \<and> p_lock u = Some t else p_lock s = Some t \<and> p_lock u = None) \<Longrightarrow> c_lock u = c_lock s \<Longrightarrow>
    mp_pcs u = (mp_pcs s)(t := c) \<Longrightarrow> in_pop c = in_pop (mp_pcs s t) \<Longrightarrow> locks_ok u"
  by (auto simp: locks_ok_def split: if_splits)

lemma locks_c: "locks_ok s \<Longrightarrow> (if in_pop c then c_lock s = None \<and> c_lock u = Some t else c_lock s = Some t \<and> c_lock u = None) \<Longrightarrow> p_lock u = p_lock s \<Longrightarrow>
    mp_pcs u = (mp_pcs s)(t := c) \<Longrightarrow> in_push c = in_push (mp_pcs s t) \<Longrightarrow> locks_ok u"
  by (auto simp: locks_ok_def split: if_splits)

lemma pc_ok_frame: "pc_ok h a ps xs c \<Longrightarrow> (\<And>n. holds_node c = Some n \<Longrightarrow> h' n = h n) \<Longrightarrow> pc_ok h' a ps xs c"
  by (auto simp: pc_simps split: mp_pc.splits)

lemma pc_ok_others:
  assumes "\<And>v. pc_ok h a ps xs (p v)" and "pc_ok h' a ps xs c"
    and "\<And>v n. v \<noteq> t \<Longrightarrow> holds_node (p v) = Some n \<Longrightarrow> h' n = h n"
  shows "pc_ok h' a ps xs ((p(t := c)) v)"
  using assms pc_ok_frame [of h a ps xs "p v" h'] by (cases "v = t") auto

lemma mp_repD:
  assumes "mp_rep s ps xs"
  shows "list_ok (mq s) ps xs" "own (dom (dq_heap (mq s))) (listed (mq s) ps) (\<lambda>t. holds_node (mp_pcs s t))" "locks_ok s"
    "\<And>t. pc_ok (dq_heap (mq s)) (dq_head (mq s)) ps xs (mp_pcs s t)" "linked s = taken s @ xs"
    "(\<And>t n. mp_pcs s t \<noteq> PLinked n) \<Longrightarrow> dq_tail (mq s) = last (dq_head (mq s) # ps)"
  using assms by (auto simp: mp_rep_def simp del: last.simps)

lemma mp_update:
  assumes "mp_pcs u = (mp_pcs s)(t := c)" and "list_ok (mq u) ps xs"
    and "own (dom (dq_heap (mq u))) (listed (mq u) ps) ((\<lambda>v. holds_node (mp_pcs s v))(t := holds_node c))"
    and "locks_ok u" and "\<And>v. pc_ok (dq_heap (mq u)) (dq_head (mq u)) ps xs (((mp_pcs s)(t := c)) v)"
    and "linked u = taken u @ xs"
    and "(\<And>n. c \<noteq> PLinked n) \<Longrightarrow> (\<And>v n. v \<noteq> t \<Longrightarrow> mp_pcs s v \<noteq> PLinked n) \<Longrightarrow> dq_tail (mq u) = last (dq_head (mq u) # ps)"
  shows "mp_rep u ps xs"
proof -
  have "dq_tail (mq u) = last (dq_head (mq u) # ps)" if n: "\<forall>v n. mp_pcs u v \<noteq> PLinked n"
  proof (rule assms(7))
    show "c \<noteq> PLinked n" for n using n [THEN spec, of t] assms(1) by simp
    show "mp_pcs s v \<noteq> PLinked n" if "v \<noteq> t" for v n using n [THEN spec, of v] assms(1) that by simp
  qed
  then show ?thesis
    using assms(2-6) unfolding mp_rep_def assms(1) holds_upd by blast
qed

lemma tail_same:
  assumes "mp_rep s ps xs" and "\<And>n. mp_pcs s t \<noteq> PLinked n" and "\<And>v n. v \<noteq> t \<Longrightarrow> mp_pcs s v \<noteq> PLinked n"
  shows "dq_tail (mq s) = last (dq_head (mq s) # ps)"
  using assms(2,3) by (intro mp_repD(6) [OF assms(1)]) metis

text \<open>A step that changes the control state and perhaps a lock.\<close>

lemma mp_goto:
  assumes r: "mp_rep s ps xs" and u: "mq u = mq s" "mp_pcs u = (mp_pcs s)(t := c)" "linked u = linked s" "taken u = taken s"
    and l: "locks_ok u" and h: "holds_node c = holds_node (mp_pcs s t)" and o: "pc_ok (dq_heap (mq s)) (dq_head (mq s)) ps xs c"
    and n: "\<And>n. mp_pcs s t \<noteq> PLinked n"
  shows "mp_rep u ps xs"
proof (rule mp_update [OF u(2)])
  note R = mp_repD [OF r]
  show "own (dom (dq_heap (mq u))) (listed (mq u) ps) ((\<lambda>v. holds_node (mp_pcs s v))(t := holds_node c))"
    using R(2) h u(1) by (simp add: fun_upd_idem)
  show "pc_ok (dq_heap (mq u)) (dq_head (mq u)) ps xs (((mp_pcs s)(t := c)) v)" for v using R(4) o u(1) by simp
  show "dq_tail (mq u) = last (dq_head (mq u) # ps)" if "\<And>v n. v \<noteq> t \<Longrightarrow> mp_pcs s v \<noteq> PLinked n"
    unfolding u(1) by (rule tail_same [OF r n that])
qed (use mp_repD [OF r] u l in auto)

lemma mp_p_cached:
  assumes r: "mp_rep s ps xs" and pc: "mp_pcs s t = MPIdle" and pop: "swsr_pop (dq_cache (mq s)) = (Some n, c)"
  shows "mp_rep (to_pc t (PNode x n) (s\<lparr>mq := (mq s)\<lparr>dq_cache := c\<rparr>\<rparr>)) ps xs"
proof -
  let ?q = "mq s" and ?u = "to_pc t (PNode x n) (s\<lparr>mq := (mq s)\<lparr>dq_cache := c\<rparr>\<rparr>)"
  note R = mp_repD [OF r]
  have inv: "sw_inv (dq_cache ?q)" using R(1) by (simp add: list_ok_def)
  obtain ns where ns: "sw_items (dq_cache ?q) = n # ns" "sw_items c = ns" "sw_inv c"
    using sw.pop_cons [OF inv] sw.pop_empty [OF inv] sw.pop_inv [OF inv] pop by (cases "sw_items (dq_cache ?q)") fastforce+
  have "own (dom (dq_heap ?q)) (listed ?q ps - {n}) ((\<lambda>v. holds_node (mp_pcs s v))(t := Some n))"
    using R(1) ns pc by (intro own_take [OF _ R(2)]) (auto simp: list_ok_def holds_node_def)
  moreover have "listed ?q ps - {n} = listed (?q\<lparr>dq_cache := c\<rparr>) ps" using R(1) ns by (auto simp: list_ok_def)
  ultimately have o: "own (dom (dq_heap (mq ?u))) (listed (mq ?u) ps) ((\<lambda>v. holds_node (mp_pcs s v))(t := holds_node (PNode x n)))"
    by (simp add: holds_node_def)
  show ?thesis
  proof (rule mp_update [OF _ _ o])
    show "list_ok (mq ?u) ps xs" using R(1) ns list_ok_cache [OF R(1) ns(3)] by (auto simp: list_ok_def)
    show "locks_ok ?u" by (rule locks_stay [OF R(3), where t = t and c = "PNode x n"]) (simp_all add: pc pc_simps)
    show "pc_ok (dq_heap (mq ?u)) (dq_head (mq ?u)) ps xs (((mp_pcs s)(t := PNode x n)) v)" for v
      using R(4) [of v] by (simp add: pc_ok_def)
    show "dq_tail (mq ?u) = last (dq_head (mq ?u) # ps)" if "\<And>v n. v \<noteq> t \<Longrightarrow> mp_pcs s v \<noteq> PLinked n"
      using tail_same [where t = t, OF r _ that] pc by simp
  qed (simp_all add: R(5))
qed

lemma mp_p_malloc:
  assumes r: "mp_rep s ps xs" and pc: "mp_pcs s t = PMalloc x" and new: "dq_heap (mq s) n = None"
  shows "mp_rep (to_pc t (PNode x n) (s\<lparr>mq := (mq s)\<lparr>dq_heap := (dq_heap (mq s))(n \<mapsto> (None, None)), dq_brk := max (dq_brk (mq s)) (n + 1)\<rparr>\<rparr>)) ps xs"
    (is "mp_rep ?u ps xs")
proof -
  let ?q = "mq s"
  note R = mp_repD [OF r]
  have sub: "listed ?q ps \<subseteq> dom (dq_heap ?q)" "\<forall>a\<in>dom (dq_heap ?q). a < dq_brk ?q" using R(1) by (auto simp: list_ok_def)
  have nl: "n \<notin> listed ?q ps" using sub new by auto
  have "own (insert n (dom (dq_heap ?q))) (listed ?q ps) ((\<lambda>v. holds_node (mp_pcs s v))(t := Some n))"
    using new pc by (intro own_new [OF R(2) _ sub(1)]) (auto simp: holds_node_def)
  then have o: "own (dom (dq_heap (mq ?u))) (listed (mq ?u) ps) ((\<lambda>v. holds_node (mp_pcs s v))(t := holds_node (PNode x n)))"
    by (simp add: holds_node_def)
  show ?thesis
  proof (rule mp_update [OF _ _ o])
    have "list_ok (?q\<lparr>dq_heap := (dq_heap ?q)(n \<mapsto> (None, None)), dq_brk := max (dq_brk ?q) (n + 1)\<rparr>) ps xs"
      using sub(2) by (intro list_ok_heap [OF R(1) nl]) (auto simp: less_max_iff_disj split: if_splits)
    then show "list_ok (mq ?u) ps xs" by simp
    show "locks_ok ?u" by (rule locks_stay [OF R(3), where t = t and c = "PNode x n"]) (simp_all add: pc pc_simps)
    have "pc_ok ((dq_heap ?q)(n \<mapsto> (None, None))) (dq_head ?q) ps xs (((mp_pcs s)(t := PNode x n)) v)" for v
    proof (rule pc_ok_others [OF R(4)])
      show "((dq_heap ?q)(n \<mapsto> (None, None))) m = dq_heap ?q m" if "holds_node (mp_pcs s v) = Some m" for v m
        using ownD(1) [OF R(2) that] new by auto
    qed (simp add: pc_ok_def)
    then show "pc_ok (dq_heap (mq ?u)) (dq_head (mq ?u)) ps xs (((mp_pcs s)(t := PNode x n)) v)" for v
      by (simp del: fun_upd_apply)
    show "dq_tail (mq ?u) = last (dq_head (mq ?u) # ps)" if "\<And>v n. v \<noteq> t \<Longrightarrow> mp_pcs s v \<noteq> PLinked n"
      using tail_same [where t = t, OF r _ that] pc by simp
  qed (simp_all add: R(5))
qed

lemma mp_p_fill:
  assumes r: "mp_rep s ps xs" and pc: "mp_pcs s t = PNode x n"
  shows "dq_heap (mq s) n \<noteq> None \<and> mp_rep (to_pc t (PFilled x n) (set_node n (Some x, None) s)) ps xs" (is "_ \<and> mp_rep ?u ps xs")
proof
  let ?q = "mq s"
  note R = mp_repD [OF r]
  have h: "holds_node (mp_pcs s t) = Some n" using pc by (simp add: holds_node_def)
  have n: "n \<in> dom (dq_heap ?q)" "n \<notin> listed ?q ps" using ownD(1) [OF R(2) h] by auto
  then show "dq_heap ?q n \<noteq> None" by auto
  have dom: "insert n (dom (dq_heap ?q)) = dom (dq_heap ?q)" using n(1) by auto
  have o: "own (dom (dq_heap (mq ?u))) (listed (mq ?u) ps) ((\<lambda>v. holds_node (mp_pcs s v))(t := holds_node (PFilled x n)))"
    using R(2) h dom by (simp add: fun_upd_idem) (simp add: holds_node_def fun_upd_idem)
  show "mp_rep ?u ps xs"
  proof (rule mp_update [OF _ _ o])
    have "list_ok (?q\<lparr>dq_heap := (dq_heap ?q)(n \<mapsto> (Some x, None)), dq_brk := dq_brk ?q\<rparr>) ps xs"
      using R(1) n(1) by (intro list_ok_heap [OF R(1) n(2)]) (auto simp: list_ok_def split: if_splits)
    then show "list_ok (mq ?u) ps xs" by simp
    show "locks_ok ?u" by (rule locks_stay [OF R(3), where t = t and c = "PFilled x n"]) (simp_all add: pc pc_simps)
    have "pc_ok ((dq_heap ?q)(n \<mapsto> (Some x, None))) (dq_head ?q) ps xs (((mp_pcs s)(t := PFilled x n)) v)" for v
    proof (rule pc_ok_others [OF R(4)])
      show "((dq_heap ?q)(n \<mapsto> (Some x, None))) m = dq_heap ?q m" if "v \<noteq> t" "holds_node (mp_pcs s v) = Some m" for v m
        using ownD(2) [OF R(2) h, of v] that by auto
    qed (simp add: pc_ok_def)
    then show "pc_ok (dq_heap (mq ?u)) (dq_head (mq ?u)) ps xs (((mp_pcs s)(t := PFilled x n)) v)" for v
      by (simp del: fun_upd_apply)
    show "dq_tail (mq ?u) = last (dq_head (mq ?u) # ps)" if "\<And>v n. v \<noteq> t \<Longrightarrow> mp_pcs s v \<noteq> PLinked n"
      using tail_same [where t = t, OF r _ that] pc by simp
  qed (simp_all add: R(5))
qed

lemma mp_p_link:
  assumes r: "mp_rep s ps xs" and pc: "mp_pcs s t = PLocked x n"
  shows "\<exists>d v. dq_heap (mq s) (dq_tail (mq s)) = Some (d, v) \<and>
    mp_rep (to_pc t (PLinked n) (set_node (dq_tail (mq s)) (d, Some n) (s\<lparr>linked := linked s @ [x]\<rparr>))) (ps @ [n]) (xs @ [x])"
proof -
  let ?q = "mq s"
  note R = mp_repD [OF r]
  have h: "holds_node (mp_pcs s t) = Some n" using pc by (simp add: holds_node_def)
  have nl: "n \<notin> listed ?q ps" using ownD(1) [OF R(2) h] by blast
  have hn: "dq_heap ?q n = Some (Some x, None)" using R(4) [of t] pc by (simp add: pc_ok_def)
  have hc: "holds_node (PLinked n) = None" by (simp add: holds_node_def)
  have lock: "p_lock s = Some t" using R(3) pc by (auto simp: locks_ok_def in_push_def)
  have alone: "mp_pcs s v \<noteq> PLinked m" for v m
  proof
    assume "mp_pcs s v = PLinked m"
    then have "p_lock s = Some v" using R(3) by (auto simp: locks_ok_def in_push_def)
    then show False using lock pc \<open>mp_pcs s v = PLinked m\<close> by simp
  qed
  have tail: "dq_tail ?q = last (dq_head ?q # ps)" by (rule R(6)) (rule alone)
  have tin: "dq_tail ?q \<in> listed ?q ps" using tail last_in_set [of "dq_head ?q # ps"] by auto
  have "listed ?q ps \<subseteq> dom (dq_heap ?q)" using R(1) by (simp add: list_ok_def)
  then have "dq_tail ?q \<in> dom (dq_heap ?q)" using tin by (rule subsetD)
  then obtain d v where tn: "dq_heap ?q (dq_tail ?q) = Some (d, v)" by fastforce
  let ?u = "to_pc t (PLinked n) (set_node (dq_tail ?q) (d, Some n) (s\<lparr>linked := linked s @ [x]\<rparr>))"
  have "own (dom (dq_heap ?q)) (insert n (listed ?q ps)) ((\<lambda>v. holds_node (mp_pcs s v))(t := None))"
    by (rule own_give [OF R(2) h])
  moreover have "dom (dq_heap ?q) = dom (dq_heap (mq ?u))" using tn by auto
  moreover have "insert n (listed ?q ps) = listed (mq ?u) (ps @ [n])" by auto
  ultimately have o: "own (dom (dq_heap (mq ?u))) (listed (mq ?u) (ps @ [n])) ((\<lambda>v. holds_node (mp_pcs s v))(t := holds_node (PLinked n)))"
    using hc by (simp only: hc)
  have xs: "ps \<noteq> [] \<Longrightarrow> xs \<noteq> []" using R(1) by (auto simp: list_ok_def)
  have "mp_rep ?u (ps @ [n]) (xs @ [x])"
  proof (rule mp_update [OF _ _ o])
    show "list_ok (mq ?u) (ps @ [n]) (xs @ [x])" using list_ok_link [OF R(1) hn nl tail tn] by simp
    show "locks_ok ?u" by (rule locks_stay [OF R(3), where t = t and c = "PLinked n"]) (simp_all add: pc pc_simps)
    have "pc_ok (dq_heap (mq ?u)) (dq_head ?q) (ps @ [n]) (xs @ [x]) (((mp_pcs s)(t := PLinked n)) v)" for v
    proof (rule pc_ok_others)
      show "pc_ok (dq_heap ?q) (dq_head ?q) (ps @ [n]) (xs @ [x]) (mp_pcs s v)" for v
        using R(4) [of v] alone [of v] xs by (auto simp: pc_ok_def split: mp_pc.splits)
      show "pc_ok (dq_heap (mq ?u)) (dq_head ?q) (ps @ [n]) (xs @ [x]) (PLinked n)" by (simp add: pc_ok_def)
      show "dq_heap (mq ?u) m = dq_heap ?q m" if "holds_node (mp_pcs s w) = Some m" for w m
        using ownD(1) [OF R(2), of w m] that tin by auto
    qed
    then show "pc_ok (dq_heap (mq ?u)) (dq_head (mq ?u)) (ps @ [n]) (xs @ [x]) (((mp_pcs s)(t := PLinked n)) v)" for v
      by (simp del: fun_upd_apply)
    show "dq_tail (mq ?u) = last (dq_head (mq ?u) # ps @ [n])" if "\<And>m. PLinked n \<noteq> (PLinked m :: 'a mp_pc)"
      using that [of n] by simp
  qed (simp_all add: R(5))
  then show ?thesis using tn by blast
qed

lemma mp_p_swing:
  assumes r: "mp_rep s ps xs" and pc: "mp_pcs s t = PLinked n"
  shows "mp_rep (to_pc t PSwung (s\<lparr>mq := (mq s)\<lparr>dq_tail := n\<rparr>\<rparr>)) ps xs" (is "mp_rep ?u ps xs")
proof -
  let ?q = "mq s"
  note R = mp_repD [OF r]
  have n: "n = last (dq_head ?q # ps)" using R(4) [of t] pc by (simp add: pc_ok_def)
  have o: "own (dom (dq_heap (mq ?u))) (listed (mq ?u) ps) ((\<lambda>v. holds_node (mp_pcs s v))(t := holds_node PSwung))"
    using R(2) pc by (simp add: holds_node_def fun_upd_idem)
  show ?thesis
  proof (rule mp_update [OF _ _ o])
    show "list_ok (mq ?u) ps xs" by (rule list_ok_cong [OF R(1)]) simp_all
    show "locks_ok ?u" by (rule locks_stay [OF R(3), where t = t and c = PSwung]) (simp_all add: pc pc_simps)
    show "pc_ok (dq_heap (mq ?u)) (dq_head (mq ?u)) ps xs (((mp_pcs s)(t := PSwung)) v)" for v
      using R(4) [of v] by (simp add: pc_ok_def)
  qed (simp_all add: R(5) n)
qed

lemma mp_c_test:
  assumes r: "mp_rep s ps xs" and pc: "mp_pcs s t = CLocked"
  shows "mp_rep (case dq_heap (mq s) (dq_head (mq s)) of None \<Rightarrow> to_pc t Bad s | Some (_, None) \<Rightarrow> to_pc t CEmpty s
      | Some (_, Some _) \<Rightarrow> to_pc t CFound s) ps xs"
proof (cases ps)
  case Nil
  note R = mp_repD [OF r]
  obtain d where "dq_heap (mq s) (dq_head (mq s)) = Some (d, None)" using list_ok_nil [OF R(1) [unfolded Nil]] by blast
  moreover have "mp_rep (to_pc t CEmpty s) ps xs"
    by (rule mp_goto [OF r, where t = t and c = CEmpty], simp_all add: pc pc_simps)
      (rule locks_stay [OF R(3), where t = t and c = CEmpty], simp_all add: pc pc_simps)
  ultimately show ?thesis by simp
next
  case (Cons p ps')
  note R = mp_repD [OF r]
  obtain d where "dq_heap (mq s) (dq_head (mq s)) = Some (d, Some p)" using list_ok_cons [OF R(1) [unfolded Cons]] by blast
  moreover have "mp_rep (to_pc t CFound s) ps xs"
    by (rule mp_goto [OF r, where t = t and c = CFound], simp_all add: pc pc_simps Cons)
      (rule locks_stay [OF R(3), where t = t and c = CFound], simp_all add: pc pc_simps)
  ultimately show ?thesis by simp
qed

lemma mp_c_data:
  assumes r: "mp_rep s ps xs" and pc: "mp_pcs s t = CFound"
  shows "mp_rep (case dq_heap (mq s) (dq_head (mq s)) of
        Some (_, Some m) \<Rightarrow> (case dq_heap (mq s) m of Some (Some d, _) \<Rightarrow> to_pc t (CData d) s | _ \<Rightarrow> to_pc t Bad s)
      | _ \<Rightarrow> to_pc t Bad s) ps xs"
proof -
  note R = mp_repD [OF r]
  obtain p ps' where ps: "ps = p # ps'" using R(4) [of t] pc by (auto simp: pc_ok_def neq_Nil_conv)
  obtain d v where "dq_heap (mq s) (dq_head (mq s)) = Some (d, Some p)" "dq_heap (mq s) p = Some (Some (hd xs), v)"
    using list_ok_cons [OF R(1) [unfolded ps]] by blast
  moreover have "mp_rep (to_pc t (CData (hd xs)) s) ps xs"
    by (rule mp_goto [OF r, where t = t and c = "CData (hd xs)"], simp_all add: pc pc_simps ps)
      (rule locks_stay [OF R(3), where t = t and c = "CData (hd xs)"], simp_all add: pc pc_simps)
  ultimately show ?thesis by simp
qed

lemma mp_c_move:
  assumes r: "mp_rep s ps xs" and pc: "mp_pcs s t = CData x"
  shows "\<exists>d p ps' xs'. dq_heap (mq s) (dq_head (mq s)) = Some (d, Some p) \<and>
    mp_rep (to_pc t (CMoved (dq_head (mq s)) x) (s\<lparr>mq := (mq s)\<lparr>dq_head := p\<rparr>, taken := taken s @ [x]\<rparr>)) ps' xs'"
proof -
  let ?q = "mq s" let ?c = "CMoved (dq_head ?q) x"
  note R = mp_repD [OF r]
  obtain p ps' where ps: "ps = p # ps'" using R(4) [of t] pc by (auto simp: pc_ok_def neq_Nil_conv)
  obtain d v xs' where p: "dq_heap ?q (dq_head ?q) = Some (d, Some p)" "dq_heap ?q p = Some (Some (hd xs), v)" "xs = hd xs # xs'"
    using list_ok_cons [OF R(1) [unfolded ps]] by blast
  have x: "xs = x # xs'" using R(4) [of t] pc p(3) by (simp add: pc_ok_def)
  have lock: "c_lock s = Some t" using R(3) pc by (auto simp: locks_ok_def in_pop_def)
  have alone: "v = t" if "in_pop (mp_pcs s v)" for v using that R(3) lock by (auto simp: locks_ok_def)
  let ?u = "to_pc t ?c (s\<lparr>mq := ?q\<lparr>dq_head := p\<rparr>, taken := taken s @ [x]\<rparr>)"
  have "own (dom (dq_heap ?q)) (listed ?q ps - {dq_head ?q}) ((\<lambda>v. holds_node (mp_pcs s v))(t := Some (dq_head ?q)))"
    using pc p(1) by (intro own_take [OF _ R(2)]) (auto simp: holds_node_def)
  moreover have "listed ?q ps - {dq_head ?q} = listed (mq ?u) ps'" using R(1) ps by (auto simp: list_ok_def)
  ultimately have o: "own (dom (dq_heap (mq ?u))) (listed (mq ?u) ps') ((\<lambda>v. holds_node (mp_pcs s v))(t := holds_node ?c))"
    by (simp add: holds_node_def)
  have "mp_rep ?u ps' xs'"
  proof (rule mp_update [OF _ _ o])
    show "list_ok (mq ?u) ps' xs'" using list_ok_next [OF R(1) [unfolded ps x]] by simp
    show "locks_ok ?u" by (rule locks_stay [OF R(3), where t = t and c = ?c]) (simp_all add: pc pc_simps)
    show "pc_ok (dq_heap (mq ?u)) (dq_head (mq ?u)) ps' xs' (((mp_pcs s)(t := ?c)) v)" for v
    proof (cases "v = t")
      case False
      then have "\<not> in_pop (mp_pcs s v)" using alone by blast
      then show ?thesis using R(4) [of v] False ps by (cases "mp_pcs s v") (simp_all add: pc_ok_def in_pop_def)
    qed (simp add: pc_ok_def)
    show "dq_tail (mq ?u) = last (dq_head (mq ?u) # ps')" if "\<And>v n. v \<noteq> t \<Longrightarrow> mp_pcs s v \<noteq> PLinked n"
      using tail_same [where t = t, OF r _ that] pc ps by simp
  qed (simp_all add: R(5) x)
  then show ?thesis using p(1) by blast
qed

lemma mp_c_cache:
  assumes r: "mp_rep s ps xs" and pc: "mp_pcs s t = CMoved n d" and push: "swsr_push (dq_cache (mq s)) n = (f, c)"
  shows "mp_rep (to_pc t (CCached n f d) (s\<lparr>mq := (mq s)\<lparr>dq_cache := c\<rparr>\<rparr>)) ps xs" (is "mp_rep ?u ps xs")
proof -
  let ?q = "mq s"
  note R = mp_repD [OF r]
  have h: "holds_node (mp_pcs s t) = Some n" using pc by (simp add: holds_node_def)
  have n: "n \<in> dom (dq_heap ?q)" "n \<notin> listed ?q ps" using ownD(1) [OF R(2) h] by auto
  have inv: "sw_inv (dq_cache ?q)" using R(1) by (simp add: list_ok_def)
  have c: "sw_inv c" "sw_items c = (if f then sw_items (dq_cache ?q) @ [n] else sw_items (dq_cache ?q))"
  proof -
    show "sw_inv c" using sw.push_inv [OF inv, of n] push by simp
    show "sw_items c = (if f then sw_items (dq_cache ?q) @ [n] else sw_items (dq_cache ?q))"
      using sw.push_room [OF inv, of n] sw.push_full [OF inv, of n] sw.items_bound [OF inv] push
      by (cases "length (sw_items (dq_cache ?q)) < sw_capacity (dq_cache ?q)") auto
  qed
  have "own (dom (dq_heap ?q)) (listed (mq ?u) ps) ((\<lambda>v. holds_node (mp_pcs s v))(t := holds_node (CCached n f d)))"
  proof (cases f)
    case True
    moreover have "listed (mq ?u) ps = insert n (listed ?q ps)" using c(2) True by auto
    ultimately show ?thesis using own_give [OF R(2) h] by (simp add: holds_node_def)
  next
    case False
    then show ?thesis using R(2) h c(2) by (simp add: fun_upd_idem) (simp add: holds_node_def fun_upd_idem)
  qed
  then have o: "own (dom (dq_heap (mq ?u))) (listed (mq ?u) ps) ((\<lambda>v. holds_node (mp_pcs s v))(t := holds_node (CCached n f d)))"
    by simp
  show ?thesis
  proof (rule mp_update [OF _ _ o])
    have "list_ok (?q\<lparr>dq_cache := c\<rparr>) ps xs" using R(1) n c by (intro list_ok_cache [OF R(1)]) (auto simp: list_ok_def)
    then show "list_ok (mq ?u) ps xs" by simp
    show "locks_ok ?u" by (rule locks_stay [OF R(3), where t = t and c = "CCached n f d"]) (simp_all add: pc pc_simps)
    show "pc_ok (dq_heap (mq ?u)) (dq_head (mq ?u)) ps xs (((mp_pcs s)(t := CCached n f d)) v)" for v
      using R(4) [of v] by (simp add: pc_ok_def)
    show "dq_tail (mq ?u) = last (dq_head (mq ?u) # ps)" if "\<And>v n. v \<noteq> t \<Longrightarrow> mp_pcs s v \<noteq> PLinked n"
      using tail_same [where t = t, OF r _ that] pc by simp
  qed (simp_all add: R(5))
qed

lemma mp_c_free:
  assumes r: "mp_rep s ps xs" and pc: "mp_pcs s t = CFree n d"
  shows "dq_heap (mq s) n \<noteq> None \<and> mp_rep (to_pc t MPIdle (s\<lparr>mq := dq_remove n (mq s)\<rparr>)) ps xs" (is "_ \<and> mp_rep ?u ps xs")
proof
  let ?q = "mq s"
  note R = mp_repD [OF r]
  have h: "holds_node (mp_pcs s t) = Some n" using pc by (simp add: holds_node_def)
  have n: "n \<in> dom (dq_heap ?q)" "n \<notin> listed ?q ps" using ownD(1) [OF R(2) h] by auto
  then show "dq_heap ?q n \<noteq> None" by auto
  have "dom (dq_heap (mq ?u)) = dom (dq_heap ?q) - {n}" by (auto simp: dq_remove_def)
  then have o: "own (dom (dq_heap (mq ?u))) (listed (mq ?u) ps) ((\<lambda>v. holds_node (mp_pcs s v))(t := holds_node MPIdle))"
    using own_free [OF R(2) h] by (simp add: holds_node_def dq_remove_def)
  show "mp_rep ?u ps xs"
  proof (rule mp_update [OF _ _ o])
    have "list_ok (?q\<lparr>dq_heap := (dq_heap ?q)(n := None), dq_brk := dq_brk ?q\<rparr>) ps xs"
      using R(1) by (intro list_ok_heap [OF R(1) n(2)]) (auto simp: list_ok_def split: if_splits)
    then show "list_ok (mq ?u) ps xs" by (simp add: dq_remove_def)
    show "locks_ok ?u" by (rule locks_stay [OF R(3), where t = t and c = MPIdle]) (simp_all add: pc pc_simps)
    have "pc_ok ((dq_heap ?q)(n := None)) (dq_head ?q) ps xs (((mp_pcs s)(t := MPIdle)) v)" for v
    proof (rule pc_ok_others [OF R(4)])
      show "((dq_heap ?q)(n := None)) m = dq_heap ?q m" if "v \<noteq> t" "holds_node (mp_pcs s v) = Some m" for v m
        using ownD(2) [OF R(2) h, of v] that by auto
    qed (simp add: pc_ok_def)
    then show "pc_ok (dq_heap (mq ?u)) (dq_head (mq ?u)) ps xs (((mp_pcs s)(t := MPIdle)) v)" for v
      by (simp add: dq_remove_def del: fun_upd_apply)
    show "dq_tail (mq ?u) = last (dq_head (mq ?u) # ps)" if "\<And>v n. v \<noteq> t \<Longrightarrow> mp_pcs s v \<noteq> PLinked n"
      using tail_same [where t = t, OF r _ that] pc by (simp add: dq_remove_def)
  qed (simp_all add: R(5))
qed

lemma mp_step_rep:
  assumes r: "\<exists>ps xs. mp_rep s ps xs" and step: "mp_step s u"
  shows "\<exists>ps xs. mp_rep u ps xs"
proof -
  obtain ps xs where I: "mp_rep s ps xs" using r by blast
  note R = mp_repD [OF I]
  show ?thesis using step
  proof cases
    case (p_cached t n c x)
    then show ?thesis using mp_p_cached [OF I] by blast
  next
    case (p_uncached t c x)
    have inv: "sw_inv (dq_cache (mq s))" using R(1) by (simp add: list_ok_def)
    have "sw_items (dq_cache (mq s)) = []" using sw.pop_iff [OF inv] p_uncached(4) by simp
    then have c: "c = dq_cache (mq s)" using sw.pop_empty [OF inv] p_uncached(4) by simp
    have "mp_rep u ps xs" unfolding p_uncached(1) c
      by (rule mp_goto [OF I, where t = t and c = "PMalloc x"], simp_all add: p_uncached(2) pc_simps)
        (rule locks_stay [OF R(3), where t = t and c = "PMalloc x"], simp_all add: p_uncached(2) pc_simps)
    then show ?thesis by blast
  next
    case (p_malloc t x n)
    then show ?thesis using mp_p_malloc [OF I] by blast
  next
    case (p_fill t x n)
    then show ?thesis using mp_p_fill [OF I p_fill(2)] by auto
  next
    case (p_acquire t x n)
    have "mp_rep u ps xs" unfolding p_acquire(1)
      by (rule mp_goto [OF I, where t = t and c = "PLocked x n"], simp_all add: p_acquire(2) pc_simps)
        (use R(4) [of t] p_acquire in \<open>auto intro: locks_p [OF R(3), where t = t and c = "PLocked x n"] simp: pc_simps\<close>)
    then show ?thesis by blast
  next
    case (p_link t x n)
    then show ?thesis using mp_p_link [OF I p_link(2)] by fastforce
  next
    case (p_swing t n)
    then show ?thesis using mp_p_swing [OF I] by blast
  next
    case (p_release t)
    have "p_lock s = Some t" using R(3) p_release(2) by (auto simp: locks_ok_def in_push_def)
    then have "mp_rep u ps xs" unfolding p_release(1)
      by (intro mp_goto [OF I, where t = t and c = MPIdle] locks_p [OF R(3), where t = t and c = MPIdle])
        (simp_all add: p_release(2) pc_simps)
    then show ?thesis by blast
  next
    case (c_acquire t)
    have "mp_rep u ps xs" unfolding c_acquire(1)
      by (intro mp_goto [OF I, where t = t and c = CLocked] locks_c [OF R(3), where t = t and c = CLocked])
        (simp_all add: c_acquire(2,3) pc_simps)
    then show ?thesis by blast
  next
    case (c_test t)
    then show ?thesis using mp_c_test [OF I c_test(2)] by auto
  next
    case (c_none t)
    have "c_lock s = Some t" using R(3) c_none(2) by (auto simp: locks_ok_def in_pop_def)
    then have "mp_rep u ps xs" unfolding c_none(1)
      by (intro mp_goto [OF I, where t = t and c = MPIdle] locks_c [OF R(3), where t = t and c = MPIdle])
        (simp_all add: c_none(2) pc_simps)
    then show ?thesis by blast
  next
    case (c_data t)
    then show ?thesis using mp_c_data [OF I c_data(2)] by auto
  next
    case (c_move t d)
    then show ?thesis using mp_c_move [OF I c_move(2)] by fastforce
  next
    case (c_cache t n d f c)
    then show ?thesis using mp_c_cache [OF I c_cache(2,3)] by blast
  next
    case (c_release t n f d)
    have "c_lock s = Some t" using R(3) c_release(2) by (auto simp: locks_ok_def in_pop_def)
    then have "mp_rep u ps xs" unfolding c_release(1)
      by (intro mp_goto [OF I, where t = t and c = "if f then MPIdle else CFree n d"] locks_c [OF R(3), where t = t and c = "if f then MPIdle else CFree n d"])
        (simp_all add: c_release(2) pc_simps)
    then show ?thesis by blast
  next
    case (c_free t n d)
    then show ?thesis using mp_c_free [OF I c_free(2)] by auto
  qed
qed

lemma mp_steps_rep: "mp_step\<^sup>*\<^sup>* s u \<Longrightarrow> \<exists>ps xs. mp_rep s ps xs \<Longrightarrow> \<exists>ps xs. mp_rep u ps xs"
  by (induction rule: rtranclp_induct) (auto intro: mp_step_rep)

lemma mp_start_rep: "dq_rep q [] [] \<Longrightarrow> mp_rep (mp_start q) [] []"
  by (auto simp: mp_rep_def mp_start_def list_ok_def dq_rep_def own_def locks_ok_def pc_simps)

text \<open>When no call is under way the queue is one that the sequential operations work on.\<close>

lemma mp_rep_idle:
  assumes "mp_rep s ps xs" and "\<And>t. mp_pcs s t = MPIdle"
  shows "dq_rep (mq s) ps xs"
proof -
  note R = mp_repD [OF assms(1)]
  have "dom (dq_heap (mq s)) \<subseteq> listed (mq s) ps"
    using ownD(3) [OF R(2)] assms(2) by (fastforce simp: holds_node_def)
  moreover have "dq_tail (mq s) = last (dq_head (mq s) # ps)" using assms(2) by (intro R(6)) simp
  ultimately show ?thesis using R(1) by (auto simp: dq_rep_def list_ok_def simp del: last.simps)
qed

text \<open>
  C10. The queue with many producers and consumers (\<open>mp_push\<close>, \<open>mp_pop\<close>). However the accesses of
  the threads are interleaved, and whatever addresses \<open>malloc\<close> reuses, the elements leave the
  queue in the order in which they entered it, none is lost or taken twice, no thread touches a
  node that has been freed, a consumer that finds the queue empty is right, and when no call is
  under way the queue holds what was put in and not taken out.
\<close>

theorem mp_queue_fifo:
  assumes "0 < cachesize" and "mp_step\<^sup>*\<^sup>* (mp_start (dynqueue_new cachesize fillcache)) s"
  shows "\<exists>xs. linked s = taken s @ xs \<and> (\<forall>t. mp_pcs s t \<noteq> Bad) \<and>
    (\<forall>d. dq_heap (mq s) (dq_head (mq s)) = Some (d, None) \<longrightarrow> xs = []) \<and>
    ((\<forall>t. mp_pcs s t = MPIdle) \<longrightarrow> dq_inv (mq s) \<and> dq_items (mq s) = xs)"
proof -
  have "\<exists>ps xs. mp_rep (mp_start (dynqueue_new cachesize fillcache)) ps xs"
    using mp_start_rep [OF dynqueue_new_rep [OF assms(1)]] by blast
  then obtain ps xs where r: "mp_rep s ps xs" using mp_steps_rep [OF assms(2)] by blast
  note R = mp_repD [OF r]
  have "xs = []" if "dq_heap (mq s) (dq_head (mq s)) = Some (d, None)" for d
    using R(1) that by (cases ps) (auto simp: list_ok_def)
  moreover have "mp_pcs s t \<noteq> Bad" for t using R(4) [of t] by (auto simp: pc_ok_def)
  moreover have "dq_inv (mq s) \<and> dq_items (mq s) = xs" if "\<forall>t. mp_pcs s t = MPIdle"
    using mp_rep_idle [OF r] that dq_rep_items by (auto simp: dq_inv_def)
  ultimately show ?thesis using R(5) by blast
qed

text \<open>A run: one thread pushes into the fresh queue.\<close>

lemma mp_push_run:
  "\<exists>s. mp_step\<^sup>*\<^sup>* (mp_start (dynqueue_new 4 False)) s \<and> linked s = [7 :: nat] \<and> taken s = [] \<and> (\<forall>t. mp_pcs s t = MPIdle)"
proof -
  define c where "c = dq_cache (dynqueue_new 4 False :: nat dynqueue)"
  define st where "st h b tn l pc xs = \<lparr>mq = \<lparr>dq_heap = h, dq_brk = b, dq_head = 0, dq_tail = tn, dq_cache = c\<rparr>, p_lock = l, c_lock = None,
    mp_pcs = (\<lambda>_. MPIdle)(0 := pc), linked = xs, taken = []\<rparr>"
    for h :: "nat \<Rightarrow> (nat option \<times> nat option) option" and b tn l pc xs
  have q: "mp_start (dynqueue_new 4 False) = st [0 \<mapsto> (None, None)] 1 0 None MPIdle []"
    by (simp add: fun_upd_idem st_def c_def mp_start_def dynqueue_new_def Let_def)
  have pop: "swsr_pop c = (None, c)"
  proof -
    have r: "dq_rep (dynqueue_new 4 False :: nat dynqueue) [] []" by (rule dynqueue_new_rep) simp
    then have "set (sw_items c) \<subseteq> {0}" "0 \<notin> set (sw_items c)"
      by (auto simp: dq_rep_def c_def dynqueue_new_def Let_def)
    then have "sw_items c = []" by (cases "sw_items c") auto
    moreover have "sw_inv c" using r by (simp add: dq_rep_def c_def)
    ultimately show ?thesis by (rule sw.pop_empty [rotated])
  qed
  let ?h0 = "[0 \<mapsto> (None, None)]" let ?h1 = "?h0(1 \<mapsto> (None, None))" let ?h2 = "?h1(1 \<mapsto> (Some 7, None))" let ?h3 = "?h2(0 \<mapsto> (None, Some 1))"
  have "mp_step (st ?h0 1 0 None MPIdle []) (st ?h0 1 0 None (PMalloc 7) [])"
    using p_uncached [of "st ?h0 1 0 None MPIdle []" 0 c 7] pop by (simp add: st_def)
  moreover have "mp_step (st ?h0 1 0 None (PMalloc 7) []) (st ?h1 2 0 None (PNode 7 1) [])"
    using p_malloc [of "st ?h0 1 0 None (PMalloc 7) []" 0 7 1] by (simp add: st_def numeral_2_eq_2)
  moreover have "mp_step (st ?h1 2 0 None (PNode 7 1) []) (st ?h2 2 0 None (PFilled 7 1) [])"
    using p_fill [of "st ?h1 2 0 None (PNode 7 1) []" 0 7 1] by (simp add: st_def)
  moreover have "mp_step (st ?h2 2 0 None (PFilled 7 1) []) (st ?h2 2 0 (Some 0) (PLocked 7 1) [])"
    using p_acquire [of "st ?h2 2 0 None (PFilled 7 1) []" 0 7 1] by (simp add: st_def)
  moreover have "mp_step (st ?h2 2 0 (Some 0) (PLocked 7 1) []) (st ?h3 2 0 (Some 0) (PLinked 1) [7])"
    using p_link [of "st ?h2 2 0 (Some 0) (PLocked 7 1) []" 0 7 1] by (simp add: st_def)
  moreover have "mp_step (st ?h3 2 0 (Some 0) (PLinked 1) [7]) (st ?h3 2 1 (Some 0) PSwung [7])"
    using p_swing [of "st ?h3 2 0 (Some 0) (PLinked 1) [7]" 0 1] by (simp add: st_def)
  moreover have "mp_step (st ?h3 2 1 (Some 0) PSwung [7]) (st ?h3 2 1 None MPIdle [7])"
    using p_release [of "st ?h3 2 1 (Some 0) PSwung [7]" 0] by (simp add: st_def)
  ultimately have "mp_step\<^sup>*\<^sup>* (st ?h0 1 0 None MPIdle []) (st ?h3 2 1 None MPIdle [7])"
    by (elim converse_rtranclp_into_rtranclp) simp
  then show ?thesis unfolding q by (intro exI [of _ "st ?h3 2 1 None MPIdle [7]"]) (simp add: st_def)
qed

theorem mp_queue_fifo_witness:
  "\<exists>s. mp_step\<^sup>*\<^sup>* (mp_start (dynqueue_new 4 False)) s \<and> (\<forall>t. mp_pcs s t \<noteq> Bad) \<and> dq_inv (mq s) \<and> dq_items (mq s) = [7 :: nat]"
proof -
  obtain s where s: "mp_step\<^sup>*\<^sup>* (mp_start (dynqueue_new 4 False)) s" "linked s = [7 :: nat]" "taken s = []" "\<forall>t. mp_pcs s t = MPIdle"
    using mp_push_run by blast
  then show ?thesis using mp_queue_fifo [OF _ s(1)] by auto
qed

end
