(* ===== verification/FFOFarm.thy ===== *)
theory FFOFarm
  imports Prelude
begin

text \<open>
  The ordered farm of FastFlow (\<open>ff_ofarm\<close> with \<open>ofarm_lb\<close>, \<open>ofarm_gt\<close>, \<open>ofarmE\<close> and \<open>ofarmC\<close> in
  \<open>libs/fastflow/ff/farm.hpp\<close>, running in the loops of \<open>lb.hpp\<close>, \<open>gt.hpp\<close> and \<open>node.hpp\<close>), the
  skeleton of the ordered encoder of dedup: the threads of the emitter, the workers and the collector,
  in nonblocking mode, which is the default. Of the reserved values, \<open>EOS_NOFREEZE\<close>, \<open>EOSW\<close>, \<open>GO_OUT\<close>,
  \<open>BLK\<close> and \<open>NBLK\<close>, with which a program stops or switches the mode of its threads, are left out.
  This theory holds the model, what it is to compute, and the steps of emitter and workers.
\<close>

subsection \<open>Messages and channels\<close>

text \<open>
  What a pointer on a channel can be: null, one of the reserved values \<open>GO_ON\<close> and \<open>EOS\<close>, or a
  task. A channel is an unbounded buffer between one producer and one consumer: everything put into
  it so far and how much of it has been taken.
\<close>

datatype 'v ptr = Null | GoOn | Eos | Obj 'v

type_synonym 'v chan = "'v ptr list \<times> nat"

definition put_chan :: "'v ptr \<Rightarrow> 'v chan \<Rightarrow> 'v chan" where
  "put_chan p c = (fst c @ [p], snd c)"

definition get_chan :: "'v chan \<Rightarrow> ('v ptr \<times> 'v chan) option" where
  "get_chan c = (if snd c < length (fst c) then Some (fst c ! snd c, (fst c, snd c + 1)) else None)"

text \<open>
  A \<open>svc\<close> method: from the state of its object and the task, the new state, the tasks it sends
  with \<open>ff_send_out\<close> while it runs, and the value it returns.
\<close>

type_synonym ('s, 'v) svc = "'s \<Rightarrow> 'v ptr \<Rightarrow> 's \<times> 'v list \<times> 'v ptr"

text \<open>The user's part of the farm; \<open>None\<close> is a filter that was not set.\<close>

record ('v, 'e, 'w, 'c) nodes =
  E_f :: "('e, 'v) svc option"
  W_svc :: "nat \<Rightarrow> ('w, 'v) svc"
  C_f :: "('c, 'v) svc option"
  nworkers :: nat
  inpresent :: bool
  outpresent :: bool

definition filter_svc :: "('s, 'v) svc option \<Rightarrow> ('s, 'v) svc" where
  "filter_svc f s p = (case f of None \<Rightarrow> (s, [], p) | Some g \<Rightarrow> g s p)"

text \<open>
  Where a thread is. The emitter and the workers: waiting for a task, sending what \<open>svc\<close> sent and
  returned, and (the emitter) sending the end mark to a list of workers. A thread stops in \<open>EFail\<close>
  or \<open>CFail\<close> at a failed assertion, the collector in \<open>CSpin\<close> in a loop without end.
\<close>

datatype 'v e_pc = EIdle | ESend "'v list" "'v ptr" | EEos "nat list" | EDone | EFail
datatype 'v w_pc = WIdle | WSend "'v list" "'v ptr" | WDone
datatype 'v c_pc = CIdle | CSend "'v list" "'v ptr" | CEnd | CDone | CFail | CSpin

text \<open>\<open>e_sent\<close> and \<open>c_got\<close> record the tasks given to the workers and the results collected.\<close>

record ('v, 'e, 'w, 'c) ofarm =
  e_in :: "'v ptr list"
  e_task :: "'v ptr"
  e_pc :: "'v e_pc"
  e_obj :: 'e
  e_nextone :: nat
  lb_victim :: nat
  chan_in :: "nat \<Rightarrow> 'v chan"
  w_pc :: "nat \<Rightarrow> 'v w_pc"
  w_obj :: "nat \<Rightarrow> 'w"
  chan_out :: "nat \<Rightarrow> 'v chan"
  c_pc :: "'v c_pc"
  c_obj :: 'c
  c_nextone :: nat
  gt_victim :: nat
  dead :: "bool list"
  neos :: nat
  c_out :: "'v ptr list"
  e_sent :: "'v list"
  c_got :: "'v ptr list"

subsection \<open>The emitter\<close>

definition updatenextone :: "nat \<Rightarrow> ('v, 'e, 'w, 'c) ofarm \<Rightarrow> ('v, 'e, 'w, 'c) ofarm" where
  "updatenextone n s = (let m = (e_nextone s + 1) mod n in s\<lparr>e_nextone := m, lb_victim := m\<rparr>)"

text \<open>\<open>schedule_task\<close>: \<open>selectworker\<close> returns the victim, whose unbounded channel never refuses.\<close>

definition schedule_task :: "'v \<Rightarrow> ('v, 'e, 'w, 'c) ofarm \<Rightarrow> ('v, 'e, 'w, 'c) ofarm" where
  "schedule_task x s = s\<lparr>chan_in := (chan_in s)(lb_victim s := put_chan (Obj x) (chan_in s (lb_victim s))), e_sent := e_sent s @ [x]\<rparr>"

text \<open>\<open>broadcast_task\<close> starts with the victim.\<close>

definition broadcast_order :: "nat \<Rightarrow> ('v, 'e, 'w, 'c) ofarm \<Rightarrow> nat list" where
  "broadcast_order n s = [lb_victim s..<n] @ [0..<lb_victim s]"

text \<open>
  The loop of the load balancer around \<open>ofarmE::svc\<close>. A null pointer returned by the filter is sent
  like a task, and the channel's \<open>push\<close> asserts that it is none.
\<close>

definition emitter_call :: "('v, 'e, 'w, 'c) nodes \<Rightarrow> 'v ptr \<Rightarrow> ('v, 'e, 'w, 'c) ofarm \<Rightarrow> ('v, 'e, 'w, 'c) ofarm" where
  "emitter_call N p s = (case filter_svc (E_f N) (e_obj s) p of (e, ys, r) \<Rightarrow> s\<lparr>e_obj := e, e_pc := ESend ys r\<rparr>)"

definition emitter_step :: "('v, 'e, 'w, 'c) nodes \<Rightarrow> ('v, 'e, 'w, 'c) ofarm \<Rightarrow> ('v, 'e, 'w, 'c) ofarm option" where
  "emitter_step N s = (case e_pc s of
     EIdle \<Rightarrow>
       if \<not> inpresent N then Some (emitter_call N (e_task s) s)
       else (case e_in s of [] \<Rightarrow> None
         | p # ps \<Rightarrow> if p = Eos then Some (s\<lparr>e_in := ps, e_pc := EEos (broadcast_order (nworkers N) s)\<rparr>)
                    else Some (emitter_call N p (s\<lparr>e_in := ps\<rparr>)))
   | ESend (x # xs) r \<Rightarrow> Some ((updatenextone (nworkers N) (schedule_task x s))\<lparr>e_pc := ESend xs r\<rparr>)
   | ESend [] (Obj x) \<Rightarrow> Some ((updatenextone (nworkers N) (schedule_task x s))\<lparr>e_pc := EIdle, e_task := GoOn\<rparr>)
   | ESend [] GoOn \<Rightarrow> Some (s\<lparr>e_pc := EIdle, e_task := GoOn\<rparr>)
   | ESend [] Eos \<Rightarrow> Some (s\<lparr>e_pc := EEos (broadcast_order (nworkers N) s)\<rparr>)
   | ESend [] Null \<Rightarrow> Some (s\<lparr>e_pc := EFail\<rparr>)
   | EEos (i # js) \<Rightarrow> Some (s\<lparr>e_pc := EEos js, chan_in := (chan_in s)(i := put_chan Eos (chan_in s i))\<rparr>)
   | EEos [] \<Rightarrow> Some (s\<lparr>e_pc := EDone\<rparr>)
   | _ \<Rightarrow> None)"

subsection \<open>The workers\<close>

text \<open>The loop of \<open>thWorker::svc\<close>. A worker that returns null or \<open>EOS\<close> sends an end mark and stops.\<close>

definition worker_send :: "nat \<Rightarrow> 'v ptr \<Rightarrow> 'v w_pc \<Rightarrow> ('v, 'e, 'w, 'c) ofarm \<Rightarrow> ('v, 'e, 'w, 'c) ofarm" where
  "worker_send i p c s = s\<lparr>chan_out := (chan_out s)(i := put_chan p (chan_out s i)), w_pc := (w_pc s)(i := c)\<rparr>"

definition worker_step :: "('v, 'e, 'w, 'c) nodes \<Rightarrow> nat \<Rightarrow> ('v, 'e, 'w, 'c) ofarm \<Rightarrow> ('v, 'e, 'w, 'c) ofarm option" where
  "worker_step N i s = (case w_pc s i of
     WIdle \<Rightarrow> (case get_chan (chan_in s i) of None \<Rightarrow> None
       | Some (p, c) \<Rightarrow>
         if p = Eos then Some (s\<lparr>chan_in := (chan_in s)(i := c), w_pc := (w_pc s)(i := WSend [] Eos)\<rparr>)
         else (case W_svc N i (w_obj s i) p of (w, ys, r) \<Rightarrow>
           Some (s\<lparr>chan_in := (chan_in s)(i := c), w_obj := (w_obj s)(i := w), w_pc := (w_pc s)(i := WSend ys r)\<rparr>)))
   | WSend (y # ys) r \<Rightarrow> Some (worker_send i (Obj y) (WSend ys r) s)
   | WSend [] GoOn \<Rightarrow> Some (s\<lparr>w_pc := (w_pc s)(i := WIdle)\<rparr>)
   | WSend [] (Obj y) \<Rightarrow> Some (worker_send i (Obj y) WIdle s)
   | WSend [] _ \<Rightarrow> Some (worker_send i Eos WDone s)
   | WDone \<Rightarrow> None)"

subsection \<open>The collector\<close>

definition set_victim :: "nat \<Rightarrow> ('v, 'e, 'w, 'c) ofarm \<Rightarrow> bool \<times> ('v, 'e, 'w, 'c) ofarm" where
  "set_victim v s = (if dead s ! v then (False, s) else (True, s\<lparr>gt_victim := v\<rparr>))"

text \<open>
  \<open>eosnotify\<close> moves on from the worker that has ended, but by one worker only: it ignores the
  result of \<open>set_victim\<close>.
\<close>

definition eosnotify :: "nat \<Rightarrow> nat \<Rightarrow> ('v, 'e, 'w, 'c) ofarm \<Rightarrow> ('v, 'e, 'w, 'c) ofarm" where
  "eosnotify n i s = (let s = s\<lparr>dead := (dead s)[i := True]\<rparr> in
     if c_nextone s = i then snd (set_victim ((c_nextone s + 1) mod n) (s\<lparr>c_nextone := (c_nextone s + 1) mod n\<rparr>)) else s)"

text \<open>
  The loop at the end of \<open>ofarmC::svc\<close>. After \<open>n\<close> rounds it has tried every worker, so the fuel \<open>n\<close>
  runs out exactly if it does not end.
\<close>

fun next_alive :: "nat \<Rightarrow> nat \<Rightarrow> ('v, 'e, 'w, 'c) ofarm \<Rightarrow> ('v, 'e, 'w, 'c) ofarm option" where
  "next_alive 0 n s = None"
| "next_alive (Suc k) n s = (let m = (c_nextone s + 1) mod n in
     case set_victim m (s\<lparr>c_nextone := m\<rparr>) of (True, s) \<Rightarrow> Some s | (False, s) \<Rightarrow> next_alive k n s)"

text \<open>
  The loop of the gatherer around \<open>ofarmC::svc\<close>. \<open>gather_task\<close> asks the victim only. Whatever the
  filter returns is sent on when the farm has an output channel; without one, a filter that sends
  dereferences null.
\<close>

definition collector_step :: "('v, 'e, 'w, 'c) nodes \<Rightarrow> ('v, 'e, 'w, 'c) ofarm \<Rightarrow> ('v, 'e, 'w, 'c) ofarm option" where
  "collector_step N s = (case c_pc s of
     CIdle \<Rightarrow> (case get_chan (chan_out s (gt_victim s)) of None \<Rightarrow> None
       | Some (p, c) \<Rightarrow>
         let v = gt_victim s; s = s\<lparr>chan_out := (chan_out s)(v := c)\<rparr> in
         if p = Eos then
           (let s = (eosnotify (nworkers N) v s)\<lparr>neos := neos s + 1\<rparr> in
            Some (if neos s < nworkers N then s else s\<lparr>c_pc := CEnd\<rparr>))
         else (case filter_svc (C_f N) (c_obj s) p of (c', ys, r) \<Rightarrow>
           Some (s\<lparr>c_obj := c', c_pc := CSend ys r, c_got := c_got s @ [p]\<rparr>)))
   | CSend (y # ys) r \<Rightarrow>
       Some (if outpresent N then s\<lparr>c_out := c_out s @ [Obj y], c_pc := CSend ys r\<rparr> else s\<lparr>c_pc := CFail\<rparr>)
   | CSend [] r \<Rightarrow>
       if outpresent N \<and> r = Null then Some (s\<lparr>c_pc := CFail\<rparr>)
       else (case next_alive (nworkers N) (nworkers N) (if outpresent N then s\<lparr>c_out := c_out s @ [r]\<rparr> else s) of
           None \<Rightarrow> Some (s\<lparr>c_pc := CSpin\<rparr>)
         | Some s \<Rightarrow> Some (s\<lparr>c_pc := CIdle\<rparr>))
   | CEnd \<Rightarrow> Some (if outpresent N then s\<lparr>c_out := c_out s @ [Eos], c_pc := CDone, neos := 0\<rparr> else s\<lparr>c_pc := CDone, neos := 0\<rparr>)
   | _ \<Rightarrow> None)"

subsection \<open>The farm\<close>

text \<open>The threads are interleaved in any order.\<close>

datatype of_thread = Emitter | Worker nat | Collector

fun ofarm_step :: "('v, 'e, 'w, 'c) nodes \<Rightarrow> of_thread \<Rightarrow> ('v, 'e, 'w, 'c) ofarm \<Rightarrow> ('v, 'e, 'w, 'c) ofarm option" where
  "ofarm_step N Emitter s = emitter_step N s"
| "ofarm_step N (Worker i) s = (if i < nworkers N then worker_step N i s else None)"
| "ofarm_step N Collector s = collector_step N s"

fun ofarm_run :: "('v, 'e, 'w, 'c) nodes \<Rightarrow> of_thread list \<Rightarrow> ('v, 'e, 'w, 'c) ofarm \<Rightarrow> ('v, 'e, 'w, 'c) ofarm option" where
  "ofarm_run N [] s = Some s"
| "ofarm_run N (t # ts) s = (case ofarm_step N t s of None \<Rightarrow> None | Some s' \<Rightarrow> ofarm_run N ts s')"

text \<open>The state after the \<open>svc_init\<close> methods of a first run.\<close>

definition ofarm_init :: "('v, 'e, 'w, 'c) nodes \<Rightarrow> 'v ptr list \<Rightarrow> 'e \<Rightarrow> (nat \<Rightarrow> 'w) \<Rightarrow> 'c \<Rightarrow> ('v, 'e, 'w, 'c) ofarm" where
  "ofarm_init N ps e ws c = \<lparr>e_in = ps, e_task = Null, e_pc = EIdle, e_obj = e, e_nextone = 0, lb_victim = 0,
     chan_in = (\<lambda>_. ([], 0)), w_pc = (\<lambda>_. WIdle), w_obj = ws, chan_out = (\<lambda>_. ([], 0)),
     c_pc = CIdle, c_obj = c, c_nextone = 0, gt_victim = 0, dead = replicate (nworkers N) False, neos = 0,
     c_out = [], e_sent = [], c_got = []\<rparr>"

subsection \<open>What the farm computes\<close>

text \<open>
  The sequential farm: the tasks are given to the workers in turn, each is finished before the next
  starts. And the collector's filter applied to a list of results one after the other.
\<close>

definition seq_task :: "('v, 'e, 'w, 'c) nodes \<Rightarrow> (nat \<Rightarrow> 'w) \<times> 'v ptr list \<Rightarrow> 'v \<Rightarrow> (nat \<Rightarrow> 'w) \<times> 'v ptr list" where
  "seq_task N st x = (case st of (ws, rs) \<Rightarrow> let i = length rs mod nworkers N in
     case W_svc N i (ws i) (Obj x) of (w, ys, r) \<Rightarrow> (ws(i := w), rs @ [r]))"

definition seq_farm :: "('v, 'e, 'w, 'c) nodes \<Rightarrow> (nat \<Rightarrow> 'w) \<Rightarrow> 'v list \<Rightarrow> 'v ptr list" where
  "seq_farm N ws xs = snd (foldl (seq_task N) (ws, []) xs)"

definition coll_task :: "('c, 'v) svc option \<Rightarrow> 'c \<times> 'v ptr list \<Rightarrow> 'v ptr \<Rightarrow> 'c \<times> 'v ptr list" where
  "coll_task f st p = (case st of (c, out) \<Rightarrow> case filter_svc f c p of (c', ys, r) \<Rightarrow> (c', out @ map Obj ys @ [r]))"

definition coll_run :: "('c, 'v) svc option \<Rightarrow> 'c \<Rightarrow> 'v ptr list \<Rightarrow> 'c \<times> 'v ptr list" where
  "coll_run f c ps = foldl (coll_task f) (c, []) ps"

text \<open>
  The contract of the user's part: every call of a worker returns one result and sends nothing else;
  the collector's filter sends nothing when there is no output channel, and returns no null pointer
  when there is one.
\<close>

definition one_result :: "('v, 'e, 'w, 'c) nodes \<Rightarrow> bool" where
  "one_result N \<longleftrightarrow> (\<forall>i w x. \<exists>w' y. W_svc N i w (Obj x) = (w', [], Obj y))"

definition coll_ok :: "('v, 'e, 'w, 'c) nodes \<Rightarrow> bool" where
  "coll_ok N \<longleftrightarrow> (\<forall>c x. case filter_svc (C_f N) c (Obj x) of (c', ys, r) \<Rightarrow> (if outpresent N then r \<noteq> Null else ys = []))"

subsection \<open>Lanes\<close>

text \<open>The tasks of worker \<open>i\<close>, and how many of the first \<open>k\<close> tasks are among them.\<close>

definition cnt :: "nat \<Rightarrow> nat \<Rightarrow> nat \<Rightarrow> nat" where
  "cnt n k i = length (filter (\<lambda>j. j mod n = i) [0..<k])"

definition lane :: "nat \<Rightarrow> 'v list \<Rightarrow> nat \<Rightarrow> 'v list" where
  "lane n xs i = map ((!) xs) (filter (\<lambda>j. j mod n = i) [0..<length xs])"

lemma cnt_0 [simp]: "cnt n 0 i = 0"
  by (simp add: cnt_def)

lemma cnt_Suc: "cnt n (Suc k) i = cnt n k i + (if k mod n = i then 1 else 0)"
  by (simp add: cnt_def)

lemma length_lane: "length (lane n xs i) = cnt n (length xs) i"
  by (simp add: lane_def cnt_def)

lemma lane_Nil [simp]: "lane n [] i = []"
  by (simp add: lane_def)

lemma lane_snoc: "lane n (xs @ [x]) i = lane n xs i @ (if length xs mod n = i then [x] else [])"
  by (auto simp: lane_def nth_append intro!: map_cong)

lemma cnt_mono: "j \<le> k \<Longrightarrow> cnt n j i \<le> cnt n k i"
  by (induction k) (auto simp: cnt_Suc le_Suc_eq)

lemma cnt_less: "cnt n j (j mod n) < cnt n k (j mod n) \<longleftrightarrow> j < k"
proof
  show "j < k" if "cnt n j (j mod n) < cnt n k (j mod n)"
    using that cnt_mono [of k j n "j mod n"] by (cases "j < k") auto
  show "cnt n j (j mod n) < cnt n k (j mod n)" if "j < k"
    using cnt_mono [of "Suc j" k n "j mod n"] that by (simp add: cnt_Suc)
qed

lemma lane_nth: "j < length xs \<Longrightarrow> lane n xs (j mod n) ! cnt n j (j mod n) = xs ! j"
proof (induction xs rule: rev_induct)
  case (snoc x xs)
  show ?case
  proof (cases "j < length xs")
    case True
    then have "cnt n j (j mod n) < length (lane n xs (j mod n))" by (simp add: length_lane cnt_less)
    then show ?thesis using True snoc.IH by (simp add: lane_snoc nth_append)
  next
    case False
    then have "j = length xs" using snoc.prems by simp
    then show ?thesis by (simp add: lane_snoc nth_append length_lane)
  qed
qed simp

text \<open>A worker on its own.\<close>

definition w_task :: "('w, 'v) svc \<Rightarrow> 'w \<times> 'v ptr list \<Rightarrow> 'v \<Rightarrow> 'w \<times> 'v ptr list" where
  "w_task f st x = (case st of (w, rs) \<Rightarrow> case f w (Obj x) of (w', ys, r) \<Rightarrow> (w', rs @ [r]))"

definition w_run :: "('w, 'v) svc \<Rightarrow> 'w \<Rightarrow> 'v list \<Rightarrow> 'w \<times> 'v ptr list" where
  "w_run f w xs = foldl (w_task f) (w, []) xs"

lemma w_run_Nil [simp]: "w_run f w [] = (w, [])"
  by (simp add: w_run_def)

lemma w_run_snoc: "w_run f w (xs @ [x]) = w_task f (w_run f w xs) x"
  by (simp add: w_run_def)

lemma w_run_next: "w_run f w xs = (u, rs) \<Longrightarrow> f u (Obj x) = (u', ys, r) \<Longrightarrow> w_run f w (xs @ [x]) = (u', rs @ [r])"
  by (simp add: w_run_snoc w_task_def)

lemma length_w_run: "length (snd (w_run f w xs)) = length xs"
  by (induction xs rule: rev_induct) (simp_all add: w_run_snoc w_task_def split_beta)

lemma w_run_take: "snd (w_run f w (take c xs)) = take c (snd (w_run f w xs))"
proof (induction xs rule: rev_induct)
  case (snoc x xs)
  have "take c (snd (w_run f w (xs @ [x]))) = take c (snd (w_run f w xs))" if "c \<le> length xs"
    using that length_w_run [of f w xs] by (simp add: w_run_snoc w_task_def split_beta)
  moreover have "take c (snd (w_run f w (xs @ [x]))) = snd (w_run f w (xs @ [x]))" if "length xs < c"
    using that length_w_run [of f w "xs @ [x]"] by simp
  ultimately show ?case using snoc by (cases "c \<le> length xs") auto
qed simp

lemma w_run_objs: "(\<And>w x. \<exists>w' y. f w (Obj x) = (w', [], Obj y)) \<Longrightarrow> p \<in> set (snd (w_run f w xs)) \<Longrightarrow> \<exists>y. p = Obj y"
proof (induction xs rule: rev_induct)
  case (snoc x xs)
  obtain u rs where u: "w_run f w xs = (u, rs)" by fastforce
  obtain u' y where y: "f u (Obj x) = (u', [], Obj y)" using snoc.prems(1) by blast
  show ?case using snoc.IH [OF snoc.prems(1)] snoc.prems(2) w_run_next [OF u y] u by auto
qed simp

text \<open>The sequential farm is the interleaving of its lanes.\<close>

lemma seq_lanes:
  fixes N :: "('v, 'e, 'w, 'c) nodes" and xs
  defines "n \<equiv> nworkers N"
  shows "length (snd (foldl (seq_task N) (ws, []) xs)) = length xs \<and>
    (\<forall>i. fst (foldl (seq_task N) (ws, []) xs) i = fst (w_run (W_svc N i) (ws i) (lane n xs i))) \<and>
    (\<forall>j<length xs. snd (foldl (seq_task N) (ws, []) xs) ! j = snd (w_run (W_svc N (j mod n)) (ws (j mod n)) (lane n xs (j mod n))) ! cnt n j (j mod n))"
proof (induction xs rule: rev_induct)
  case (snoc x xs)
  let ?m = "length xs" let ?i = "?m mod n"
  obtain us rs where us: "foldl (seq_task N) (ws, []) xs = (us, rs)" by fastforce
  have len: "length rs = ?m" and st: "\<And>i. us i = fst (w_run (W_svc N i) (ws i) (lane n xs i))"
    and rs: "\<And>j. j < ?m \<Longrightarrow> rs ! j = snd (w_run (W_svc N (j mod n)) (ws (j mod n)) (lane n xs (j mod n))) ! cnt n j (j mod n)"
    using snoc.IH us by auto
  obtain u ys r where u: "W_svc N ?i (us ?i) (Obj x) = (u, ys, r)" by (metis prod_cases3)
  have new: "foldl (seq_task N) (ws, []) (xs @ [x]) = (us(?i := u), rs @ [r])"
    using us u len by (simp add: seq_task_def Let_def n_def)
  let ?L = "\<lambda>i. w_run (W_svc N i) (ws i) (lane n xs i)"
  have L: "w_run (W_svc N ?i) (ws ?i) (lane n (xs @ [x]) ?i) = (u, snd (?L ?i) @ [r])"
    using w_run_next [of "W_svc N ?i" "ws ?i" "lane n xs ?i" "us ?i" "snd (?L ?i)" x u ys r] st [of ?i] u by (simp add: lane_snoc prod_eq_iff)
  have cl: "cnt n j (j mod n) < length (snd (?L (j mod n)))" if "j < ?m" for j
    using that by (simp add: length_w_run length_lane cnt_less)
  have other: "lane n (xs @ [x]) i = lane n xs i" if "i \<noteq> ?i" for i using that by (simp add: lane_snoc)
  have "(rs @ [r]) ! j = snd (w_run (W_svc N (j mod n)) (ws (j mod n)) (lane n (xs @ [x]) (j mod n))) ! cnt n j (j mod n)"
    if "j < Suc ?m" for j
  proof (cases "j < ?m")
    case True
    then have "(rs @ [r]) ! j = snd (?L (j mod n)) ! cnt n j (j mod n)" using rs len by (simp add: nth_append)
    moreover have "snd (w_run (W_svc N (j mod n)) (ws (j mod n)) (lane n (xs @ [x]) (j mod n))) ! cnt n j (j mod n) = snd (?L (j mod n)) ! cnt n j (j mod n)"
      using cl [OF True] L other by (cases "j mod n = ?i") (simp_all add: nth_append)
    ultimately show ?thesis by simp
  next
    case False
    then have "j = ?m" using that by simp
    then show ?thesis using L len length_w_run [of "W_svc N ?i" "ws ?i" "lane n xs ?i"] by (simp add: nth_append length_lane)
  qed
  moreover have "(us(?i := u)) i = fst (w_run (W_svc N i) (ws i) (lane n (xs @ [x]) i))" for i
    using L st other by (cases "i = ?i") simp_all
  ultimately show ?case unfolding new using len by simp
qed simp

lemma coll_run_Nil [simp]: "coll_run f c [] = (c, [])"
  by (simp add: coll_run_def)

lemma coll_run_snoc: "filter_svc f (fst (coll_run f c ps)) p = (c', ys, r) \<Longrightarrow>
    coll_run f c (ps @ [p]) = (c', snd (coll_run f c ps) @ map Obj ys @ [r])"
  by (simp add: coll_run_def coll_task_def split_beta)

subsection \<open>The invariant\<close>

definition eos_to :: "('v, 'e, 'w, 'c) ofarm \<Rightarrow> nat \<Rightarrow> bool" where
  "eos_to s i = (case e_pc s of EDone \<Rightarrow> True | EEos js \<Rightarrow> i \<notin> set js | _ \<Rightarrow> False)"

definition emitter_ok :: "nat \<Rightarrow> ('v, 'e, 'w, 'c) ofarm \<Rightarrow> bool" where
  "emitter_ok n s \<longleftrightarrow> e_nextone s = length (e_sent s) mod n \<and> lb_victim s = length (e_sent s) mod n \<and>
     (case e_pc s of EEos js \<Rightarrow> distinct js \<and> set js \<subseteq> {..<n} | _ \<Rightarrow> True) \<and>
     (\<forall>i<n. fst (chan_in s i) = map Obj (lane n (e_sent s) i) @ (if eos_to s i then [Eos] else []))"

text \<open>
  A worker with the tasks \<open>L\<close> sent to it so far, \<open>e\<close> if followed by the end mark, of which it has
  taken \<open>r\<close>, in state \<open>w\<close> and having sent \<open>out\<close>.
\<close>

definition worker_ok :: "('w, 'v) svc \<Rightarrow> 'w \<Rightarrow> 'v list \<Rightarrow> bool \<Rightarrow> nat \<Rightarrow> 'v w_pc \<Rightarrow> 'w \<Rightarrow> 'v ptr list \<Rightarrow> bool" where
  "worker_ok f w0 L e r c w out = (case c of
     WIdle \<Rightarrow> r \<le> length L \<and> w_run f w0 (take r L) = (w, out)
   | WSend ys p \<Rightarrow> ys = [] \<and> (\<exists>k. r = Suc k \<and> (r \<le> length L \<and> w_run f w0 (take r L) = (w, out @ [p]) \<or>
       p = Eos \<and> k = length L \<and> e \<and> out = snd (w_run f w0 L)))
   | WDone \<Rightarrow> e \<and> r = Suc (length L) \<and> out = snd (w_run f w0 L) @ [Eos])"

abbreviation workers_ok :: "('v, 'e, 'w, 'c) nodes \<Rightarrow> (nat \<Rightarrow> 'w) \<Rightarrow> ('v, 'e, 'w, 'c) ofarm \<Rightarrow> bool" where
  "workers_ok N ws s \<equiv> \<forall>i<nworkers N. worker_ok (W_svc N i) (ws i) (lane (nworkers N) (e_sent s) i) (eos_to s i)
     (snd (chan_in s i)) (w_pc s i) (w_obj s i) (fst (chan_out s i))"

text \<open>
  The collector has taken \<open>k\<close> results, in turn from the workers. When the first end mark arrives
  every result has been taken, and the end marks arrive in turn as well: \<open>e\<close> of them so far.
\<close>

definition c_pending :: "('v, 'e, 'w, 'c) ofarm \<Rightarrow> 'v ptr list" where
  "c_pending s = (case c_pc s of CSend ys r \<Rightarrow> map Obj ys @ [r] | _ \<Rightarrow> [])"

definition c_phase :: "('v, 'e, 'w, 'c) nodes \<Rightarrow> ('v, 'e, 'w, 'c) ofarm \<Rightarrow> nat \<Rightarrow> nat \<Rightarrow> bool" where
  "c_phase N s k e = (let n = nworkers N in case c_pc s of
     CIdle \<Rightarrow> e < n \<and> neos s = e \<and> c_nextone s = (k + e) mod n \<and> gt_victim s = (k + e) mod n
   | CSend ys r \<Rightarrow> e = 0 \<and> neos s = 0 \<and> 0 < k \<and> c_nextone s = (k - 1) mod n \<and> gt_victim s = (k - 1) mod n \<and>
       (if outpresent N then r \<noteq> Null else ys = [])
   | CEnd \<Rightarrow> e = n | CDone \<Rightarrow> e = n | _ \<Rightarrow> False)"

definition taken_ok :: "nat \<Rightarrow> (nat \<Rightarrow> 'v chan) \<Rightarrow> bool list \<Rightarrow> 'v ptr list \<Rightarrow> bool" where
  "taken_ok n ch dd got \<longleftrightarrow> length dd = n \<and> Eos \<notin> set got \<and>
     (\<forall>i<n. snd (ch i) = cnt n (length got) i + (if dd ! i then 1 else 0) \<and> snd (ch i) \<le> length (fst (ch i)) \<and>
       (dd ! i \<longrightarrow> fst (ch i) ! cnt n (length got) i = Eos)) \<and>
     (\<forall>j<length got. got ! j = fst (ch (j mod n)) ! cnt n j (j mod n))"

definition collector_ok :: "('v, 'e, 'w, 'c) nodes \<Rightarrow> 'c \<Rightarrow> ('v, 'e, 'w, 'c) ofarm \<Rightarrow> bool" where
  "collector_ok N c0 s \<longleftrightarrow> taken_ok (nworkers N) (chan_out s) (dead s) (c_got s) \<and>
     (\<exists>e\<le>nworkers N. (\<forall>i<nworkers N. dead s ! i \<longleftrightarrow> (\<exists>t<e. i = (length (c_got s) + t) mod nworkers N)) \<and> c_phase N s (length (c_got s)) e) \<and>
     c_obj s = fst (coll_run (C_f N) c0 (c_got s)) \<and>
     (outpresent N \<longrightarrow> c_out s @ c_pending s = snd (coll_run (C_f N) c0 (c_got s)) @ (if c_pc s = CDone then [Eos] else []))"

definition ofarm_ok :: "('v, 'e, 'w, 'c) nodes \<Rightarrow> (nat \<Rightarrow> 'w) \<Rightarrow> 'c \<Rightarrow> ('v, 'e, 'w, 'c) ofarm \<Rightarrow> bool" where
  "ofarm_ok N ws c0 s \<longleftrightarrow> 0 < nworkers N \<and> one_result N \<and> coll_ok N \<and> emitter_ok (nworkers N) s \<and> workers_ok N ws s \<and> collector_ok N c0 s"

lemma ofarm_okD:
  assumes "ofarm_ok N ws c0 s"
  shows "0 < nworkers N" "one_result N" "coll_ok N" "emitter_ok (nworkers N) s" "workers_ok N ws s" "collector_ok N c0 s"
  using assms unfolding ofarm_ok_def by blast+

subsection \<open>Steps of the emitter\<close>

text \<open>A step that leaves the workers and the collector alone.\<close>

lemma collector_ok_cong:
  assumes "collector_ok N c0 s" and "chan_out s' = chan_out s" "dead s' = dead s" "c_got s' = c_got s" "c_pc s' = c_pc s"
    "c_obj s' = c_obj s" "c_out s' = c_out s" "neos s' = neos s" "c_nextone s' = c_nextone s" "gt_victim s' = gt_victim s"
  shows "collector_ok N c0 s'"
  using assms(1) unfolding collector_ok_def c_phase_def c_pending_def assms(2-) .

lemma worker_ok_more:
  assumes "worker_ok f w0 L False r c w out"
  shows "worker_ok f w0 (L @ L') e r c w out"
  using assms by (cases c) (auto simp: worker_ok_def)

lemma worker_ok_eos: "worker_ok f w0 L e r c w out \<Longrightarrow> (e \<Longrightarrow> e') \<Longrightarrow> worker_ok f w0 L e' r c w out"
  by (cases c) (auto simp: worker_ok_def)

lemma schedule_ok:
  assumes n: "0 < n" and ok: "emitter_ok n s" and e: "\<And>i. \<not> eos_to s i" and pc: "\<And>i. \<not> eos_to (s\<lparr>e_pc := c\<rparr>) i" "\<nexists>js. c = EEos js"
  shows "emitter_ok n ((updatenextone n (schedule_task x s))\<lparr>e_pc := c, e_task := p\<rparr>)" (is "emitter_ok n ?u")
proof -
  let ?m = "length (e_sent s)"
  have v: "e_nextone s = ?m mod n" "lb_victim s = ?m mod n" and ch: "\<And>i. i < n \<Longrightarrow> fst (chan_in s i) = map Obj (lane n (e_sent s) i)"
    using ok e by (simp_all add: emitter_ok_def)
  have "\<not> eos_to ?u i" for i using pc(1) [of i] by (simp add: eos_to_def)
  moreover have "e_nextone ?u = Suc ?m mod n" "lb_victim ?u = Suc ?m mod n"
    using v by (simp_all add: updatenextone_def schedule_task_def Let_def mod_Suc_eq)
  moreover have "fst (chan_in ?u i) = map Obj (lane n (e_sent s @ [x]) i)" if "i < n" for i
    using ch [OF that] v by (auto simp: updatenextone_def schedule_task_def Let_def put_chan_def lane_snoc)
  moreover have "e_sent ?u = e_sent s @ [x]" by (simp add: updatenextone_def schedule_task_def Let_def)
  moreover have "e_pc ?u = c" by simp
  ultimately show ?thesis using pc(2) unfolding emitter_ok_def by (simp split: e_pc.split)
qed

lemma scheduled_fields:
  assumes "u = (updatenextone n (schedule_task x s))\<lparr>e_pc := c, e_task := p\<rparr>"
  shows "e_sent u = e_sent s @ [x]" "snd (chan_in u i) = snd (chan_in s i)" "w_pc u = w_pc s" "w_obj u = w_obj s"
    "chan_out u = chan_out s" "dead u = dead s" "c_got u = c_got s" "c_pc u = c_pc s" "c_obj u = c_obj s" "c_out u = c_out s"
    "neos u = neos s" "c_nextone u = c_nextone s" "gt_victim u = gt_victim s"
  using assms by (simp_all add: updatenextone_def schedule_task_def Let_def put_chan_def)

lemma schedule_step_ok:
  assumes ok: "ofarm_ok N ws c0 s" and e: "\<And>i. \<not> eos_to s i" and pc: "\<And>i. \<not> eos_to (s\<lparr>e_pc := c\<rparr>) i" "\<nexists>js. c = EEos js"
  shows "ofarm_ok N ws c0 ((updatenextone (nworkers N) (schedule_task x s))\<lparr>e_pc := c, e_task := p\<rparr>)" (is "ofarm_ok N ws c0 ?u")
proof -
  note I = ofarm_okD [OF ok]
  have "worker_ok (W_svc N i) (ws i) (lane (nworkers N) (e_sent ?u) i) (eos_to ?u i) (snd (chan_in ?u i)) (w_pc ?u i) (w_obj ?u i) (fst (chan_out ?u i))"
    if "i < nworkers N" for i
    using I(5) that e [of i] unfolding scheduled_fields [OF refl] by (auto simp: lane_snoc intro: worker_ok_more worker_ok_eos)
  moreover have "collector_ok N c0 ?u" by (rule collector_ok_cong [OF I(6)]) (simp_all add: scheduled_fields [OF refl])
  ultimately show ?thesis using I schedule_ok [OF I(1,4) e pc] unfolding ofarm_ok_def by blast
qed

text \<open>A step of the emitter that sends no task: what it has sent and the rest stay.\<close>

lemma emitter_goto:
  assumes ok: "ofarm_ok N ws c0 s"
    and u: "e_sent u = e_sent s" "\<And>i. snd (chan_in u i) = snd (chan_in s i)" "w_pc u = w_pc s" "w_obj u = w_obj s"
    "chan_out u = chan_out s" "dead u = dead s" "c_got u = c_got s" "c_pc u = c_pc s" "c_obj u = c_obj s" "c_out u = c_out s"
    "neos u = neos s" "c_nextone u = c_nextone s" "gt_victim u = gt_victim s"
    and e: "emitter_ok (nworkers N) u" "\<And>i. i < nworkers N \<Longrightarrow> eos_to s i \<Longrightarrow> eos_to u i"
  shows "ofarm_ok N ws c0 u"
proof -
  note I = ofarm_okD [OF ok]
  have "collector_ok N c0 u" by (rule collector_ok_cong [OF I(6)]) (simp_all add: u)
  moreover have "workers_ok N ws u" using I(5) e(2) unfolding u by (auto intro: worker_ok_eos)
  ultimately show ?thesis using I e(1) unfolding ofarm_ok_def by blast
qed

lemma broadcast_order_set: "v < n \<Longrightarrow> lb_victim s = v \<Longrightarrow> distinct (broadcast_order n s) \<and> set (broadcast_order n s) = {..<n}"
  by (auto simp: broadcast_order_def)

lemma emitter_call_ok:
  assumes ok: "ofarm_ok N ws c0 s" and pc: "e_pc s = EIdle"
  shows "ofarm_ok N ws c0 (emitter_call N p (s\<lparr>e_in := ps\<rparr>))"
proof -
  note E = ofarm_okD(4) [OF ok]
  obtain e ys r where f: "filter_svc (E_f N) (e_obj s) p = (e, ys, r)" by (metis prod_cases3)
  show ?thesis
    using E pc f by (intro emitter_goto [OF ok]) (simp_all add: emitter_call_def emitter_ok_def eos_to_def)
qed

lemma start_broadcast_ok:
  assumes ok: "ofarm_ok N ws c0 s" and e: "\<And>i. \<not> eos_to s i"
  shows "ofarm_ok N ws c0 (s\<lparr>e_in := ps, e_pc := EEos (broadcast_order (nworkers N) s)\<rparr>)" (is "ofarm_ok N ws c0 ?u")
proof -
  note I = ofarm_okD [OF ok]
  have v: "lb_victim s < nworkers N" using I(1,4) by (simp add: emitter_ok_def)
  note B = broadcast_order_set [OF v refl]
  have "eos_to ?u i \<longleftrightarrow> \<not> i < nworkers N" for i using B by (simp add: eos_to_def)
  then have "emitter_ok (nworkers N) ?u" using I(4) B e by (simp add: emitter_ok_def)
  then show ?thesis using e by (intro emitter_goto [OF ok]) simp_all
qed

lemma send_eos_ok:
  assumes ok: "ofarm_ok N ws c0 s" and pc: "e_pc s = EEos (i # js)"
  shows "ofarm_ok N ws c0 (s\<lparr>e_pc := EEos js, chan_in := (chan_in s)(i := put_chan Eos (chan_in s i))\<rparr>)" (is "ofarm_ok N ws c0 ?u")
proof (rule emitter_goto [OF ok])
  note E = ofarm_okD(4) [OF ok]
  have i: "i < nworkers N" "i \<notin> set js" "distinct js" "set js \<subseteq> {..<nworkers N}" using E pc by (auto simp: emitter_ok_def)
  have "eos_to s j \<longleftrightarrow> j \<noteq> i \<and> j \<notin> set js" "eos_to ?u j \<longleftrightarrow> j \<notin> set js" for j using pc by (auto simp: eos_to_def)
  then show "emitter_ok (nworkers N) ?u" and "\<And>j. eos_to s j \<Longrightarrow> eos_to ?u j"
    using E i by (auto simp: emitter_ok_def put_chan_def)
qed (simp_all add: put_chan_def)

lemma emitter_step_ok:
  assumes ok: "ofarm_ok N ws c0 s" and step: "emitter_step N s = Some u"
  shows "ofarm_ok N ws c0 u"
proof (cases "e_pc s")
  case EIdle
  have e: "\<not> eos_to s i" for i using EIdle by (simp add: eos_to_def)
  have "u = emitter_call N (e_task s) (s\<lparr>e_in := e_in s\<rparr>) \<or> (\<exists>p ps. u = emitter_call N p (s\<lparr>e_in := ps\<rparr>)) \<or>
      (\<exists>ps. u = s\<lparr>e_in := ps, e_pc := EEos (broadcast_order (nworkers N) s)\<rparr>)"
    using step EIdle by (auto simp: emitter_step_def split: if_splits list.splits)
  then show ?thesis using emitter_call_ok [OF ok EIdle] start_broadcast_ok [OF ok e] by blast
next
  case (ESend xs r)
  have e: "\<not> eos_to s i" for i using ESend by (simp add: eos_to_def)
  note S = schedule_step_ok [OF ok e]
  show ?thesis
  proof (cases xs)
    case (Cons y ys)
    then have "u = (updatenextone (nworkers N) (schedule_task y s))\<lparr>e_pc := ESend ys r, e_task := e_task s\<rparr>"
      using step ESend by (cases s) (auto simp: emitter_step_def updatenextone_def schedule_task_def Let_def)
    then show ?thesis using S [where c = "ESend ys r" and x = y and p = "e_task s"] by (simp add: eos_to_def)
  next
    case Nil
    show ?thesis
    proof (cases r)
      case (Obj y)
      then have "u = (updatenextone (nworkers N) (schedule_task y s))\<lparr>e_pc := EIdle, e_task := GoOn\<rparr>"
        using step ESend Nil by (simp add: emitter_step_def)
      then show ?thesis using S [where c = EIdle and x = y and p = GoOn] by (simp add: eos_to_def)
    next
      case Eos
      then have "u = s\<lparr>e_in := e_in s, e_pc := EEos (broadcast_order (nworkers N) s)\<rparr>" using step ESend Nil by (simp add: emitter_step_def)
      then show ?thesis using start_broadcast_ok [OF ok e, of "e_in s"] by simp
    qed (use step ESend Nil ofarm_okD(4) [OF ok] e in
      \<open>auto simp: emitter_step_def emitter_ok_def eos_to_def intro!: emitter_goto [OF ok]\<close>)
  qed
next
  case (EEos js)
  show ?thesis
  proof (cases js)
    case (Cons i ks)
    then show ?thesis using send_eos_ok [OF ok, of i ks] step EEos by (simp add: emitter_step_def)
  next
    case Nil
    then have "u = s\<lparr>e_pc := EDone\<rparr>" using step EEos by (simp add: emitter_step_def)
    then show ?thesis
      using EEos Nil ofarm_okD(4) [OF ok] by (intro emitter_goto [OF ok]) (simp_all add: emitter_ok_def eos_to_def)
  qed
qed (use step in \<open>simp_all add: emitter_step_def\<close>)

subsection \<open>Steps of the workers\<close>

lemma one_resultD: "one_result N \<Longrightarrow> \<exists>w' y. W_svc N i w (Obj x) = (w', [], Obj y)"
  by (simp add: one_result_def)

text \<open>What a worker finds when it reads its channel.\<close>

lemma read_in:
  assumes ok: "ofarm_ok N ws c0 s" and i: "i < nworkers N" and g: "get_chan (chan_in s i) = Some (p, c)"
  defines "L \<equiv> lane (nworkers N) (e_sent s) i" and "r \<equiv> snd (chan_in s i)"
  shows "fst c = fst (chan_in s i) \<and> snd c = Suc r \<and> (if p = Eos then eos_to s i \<and> r = length L else r < length L \<and> p = Obj (L ! r))"
proof -
  have h: "fst (chan_in s i) = map Obj L @ (if eos_to s i then [Eos] else [])"
    using ofarm_okD(4) [OF ok] i by (simp add: emitter_ok_def L_def)
  have r: "r < length (fst (chan_in s i))" "p = fst (chan_in s i) ! r" "c = (fst (chan_in s i), Suc r)"
    using g by (auto simp: get_chan_def r_def split: if_splits)
  show ?thesis
  proof (cases "r < length L")
    case True
    then show ?thesis using r h by (simp add: nth_append)
  next
    case False
    then have "r = length L \<and> eos_to s i" using r(1) h by (auto split: if_splits)
    then show ?thesis using r h by (simp add: nth_append)
  qed
qed

text \<open>A worker's step changes its own part and may add to its output channel.\<close>

lemma taken_ok_more:
  assumes ok: "taken_ok n ch dd got" and c: "\<And>j. j < n \<Longrightarrow> snd (ch' j) = snd (ch j) \<and> (\<exists>ps. fst (ch' j) = fst (ch j) @ ps)" and n: "0 < n"
  shows "taken_ok n ch' dd got"
proof -
  have T: "length dd = n" "Eos \<notin> set got"
    "\<And>i. i < n \<Longrightarrow> snd (ch i) = cnt n (length got) i + (if dd ! i then 1 else 0) \<and> snd (ch i) \<le> length (fst (ch i)) \<and> (dd ! i \<longrightarrow> fst (ch i) ! cnt n (length got) i = Eos)"
    "\<And>j. j < length got \<Longrightarrow> got ! j = fst (ch (j mod n)) ! cnt n j (j mod n)"
    using ok unfolding taken_ok_def by blast+
  have keep: "fst (ch' i) ! a = fst (ch i) ! a" if "i < n" "a < snd (ch i)" for i a
    using c [OF that(1)] T(3) [OF that(1)] that(2) by (auto simp: nth_append)
  have "snd (ch' i) = cnt n (length got) i + (if dd ! i then 1 else 0) \<and> snd (ch' i) \<le> length (fst (ch' i)) \<and> (dd ! i \<longrightarrow> fst (ch' i) ! cnt n (length got) i = Eos)"
    if "i < n" for i
    using c [OF that] T(3) [OF that] keep [OF that, of "cnt n (length got) i"] by auto
  moreover have "got ! j = fst (ch' (j mod n)) ! cnt n j (j mod n)" if j: "j < length got" for j
  proof -
    have "cnt n j (j mod n) < snd (ch (j mod n))" using T(3) [of "j mod n"] n j cnt_less [of n j "length got"] by simp
    then show ?thesis using keep [of "j mod n"] T(4) [OF j] n by simp
  qed
  ultimately show ?thesis using T(1,2) unfolding taken_ok_def by blast
qed

lemma worker_goto:
  assumes ok: "ofarm_ok N ws c0 s" and i: "i < nworkers N"
    and u: "e_sent u = e_sent s" "e_pc u = e_pc s" "e_nextone u = e_nextone s" "lb_victim u = lb_victim s"
    "chan_in u = (chan_in s)(i := a)" "w_pc u = (w_pc s)(i := c)" "w_obj u = (w_obj s)(i := w)"
    "chan_out u = (chan_out s)(i := b)" "dead u = dead s" "c_got u = c_got s" "c_pc u = c_pc s" "c_obj u = c_obj s" "c_out u = c_out s"
    "neos u = neos s" "c_nextone u = c_nextone s" "gt_victim u = gt_victim s"
    and a: "fst a = fst (chan_in s i)" and b: "snd b = snd (chan_out s i)" "\<exists>ps. fst b = fst (chan_out s i) @ ps"
    and new: "worker_ok (W_svc N i) (ws i) (lane (nworkers N) (e_sent s) i) (eos_to s i) (snd a) c w (fst b)"
  shows "ofarm_ok N ws c0 u"
proof -
  note I = ofarm_okD [OF ok]
  have e: "eos_to u j = eos_to s j" for j by (simp add: eos_to_def u(2))
  have "emitter_ok (nworkers N) u" using I(4) a e unfolding emitter_ok_def u(1-5) by auto
  moreover have "workers_ok N ws u" using I(5) new unfolding e u(1,5-8) by auto
  moreover have "collector_ok N c0 u"
  proof -
    have "taken_ok (nworkers N) (chan_out s) (dead s) (c_got s)" using I(6) by (simp add: collector_ok_def)
    then have "taken_ok (nworkers N) (chan_out u) (dead s) (c_got s)"
      by (rule taken_ok_more) (use I(1) b u(8) in auto)
    then show ?thesis using I(6) unfolding collector_ok_def c_phase_def c_pending_def u(9-) by blast
  qed
  ultimately show ?thesis using I(1,2,3) unfolding ofarm_ok_def by blast
qed

lemma worker_take_ok:
  assumes ok: "ofarm_ok N ws c0 s" and i: "i < nworkers N" and pc: "w_pc s i = WIdle" and step: "worker_step N i s = Some u"
  shows "ofarm_ok N ws c0 u"
proof -
  note I = ofarm_okD [OF ok]
  let ?L = "lane (nworkers N) (e_sent s) i" and ?r = "snd (chan_in s i)"
  have w: "?r \<le> length ?L" "w_run (W_svc N i) (ws i) (take ?r ?L) = (w_obj s i, fst (chan_out s i))"
    using I(5) i pc by (auto simp: worker_ok_def)
  obtain p c where g: "get_chan (chan_in s i) = Some (p, c)" using step pc by (auto simp: worker_step_def split: option.splits)
  note R = read_in [OF ok i g]
  show ?thesis
  proof (cases "p = Eos")
    case True
    then have u: "u = s\<lparr>chan_in := (chan_in s)(i := c), w_pc := (w_pc s)(i := WSend [] Eos)\<rparr>"
      using step pc g by (simp add: worker_step_def)
    show ?thesis
      by (rule worker_goto [OF ok i, where a = c and c = "WSend [] Eos" and w = "w_obj s i" and b = "chan_out s i"])
        (use u R True w in \<open>auto simp: worker_ok_def\<close>)
  next
    case False
    have lt: "?r < length ?L" and p: "p = Obj (?L ! ?r)" and c: "fst c = fst (chan_in s i)" "snd c = Suc ?r" using R False by auto
    obtain w' y where y: "W_svc N i (w_obj s i) (Obj (?L ! ?r)) = (w', [], Obj y)" using one_resultD [OF I(2)] by blast
    have u: "u = s\<lparr>chan_in := (chan_in s)(i := c), w_obj := (w_obj s)(i := w'), w_pc := (w_pc s)(i := WSend [] (Obj y))\<rparr>"
      using step pc g p y by (simp add: worker_step_def)
    have "w_run (W_svc N i) (ws i) (take (Suc ?r) ?L) = (w', fst (chan_out s i) @ [Obj y])"
      using w_run_next [OF w(2) y] lt by (simp add: take_Suc_conv_app_nth)
    then show ?thesis
      by (intro worker_goto [OF ok i, where a = c and c = "WSend [] (Obj y)" and w = w' and b = "chan_out s i"])
        (use u c lt in \<open>auto simp: worker_ok_def\<close>)
  qed
qed

lemma worker_send_ok:
  assumes ok: "ofarm_ok N ws c0 s" and i: "i < nworkers N"
    and new: "worker_ok (W_svc N i) (ws i) (lane (nworkers N) (e_sent s) i) (eos_to s i) (snd (chan_in s i)) c (w_obj s i) (fst (chan_out s i) @ [p])"
  shows "ofarm_ok N ws c0 (worker_send i p c s)"
  by (rule worker_goto [OF ok i, where a = "chan_in s i" and c = c and w = "w_obj s i" and b = "put_chan p (chan_out s i)"])
    (use new in \<open>simp_all add: worker_send_def put_chan_def fun_upd_idem\<close>)

lemma w_run_last_obj:
  assumes "one_result N" and "w_run (W_svc N i) w xs = (u, rs @ [p])"
  shows "\<exists>y. p = Obj y"
  using w_run_objs [of "W_svc N i" p w xs] one_resultD [OF assms(1), of i] assms(2) by simp

lemma worker_step_ok:
  assumes ok: "ofarm_ok N ws c0 s" and i: "i < nworkers N" and step: "worker_step N i s = Some u"
  shows "ofarm_ok N ws c0 u"
proof (cases "w_pc s i")
  case WIdle
  then show ?thesis by (rule worker_take_ok [OF ok i _ step])
next
  case (WSend ys p)
  note I = ofarm_okD [OF ok]
  let ?L = "lane (nworkers N) (e_sent s) i"
  have w: "worker_ok (W_svc N i) (ws i) ?L (eos_to s i) (snd (chan_in s i)) (WSend ys p) (w_obj s i) (fst (chan_out s i))"
    using I(5) i WSend by metis
  then obtain k where k: "ys = []" "snd (chan_in s i) = Suc k"
      "Suc k \<le> length ?L \<and> w_run (W_svc N i) (ws i) (take (Suc k) ?L) = (w_obj s i, fst (chan_out s i) @ [p]) \<or>
       p = Eos \<and> k = length ?L \<and> eos_to s i \<and> fst (chan_out s i) = snd (w_run (W_svc N i) (ws i) ?L)"
    by (auto simp: worker_ok_def)
  show ?thesis
  proof (cases "p = Eos")
    case True
    then have "\<not> w_run (W_svc N i) (ws i) (take (Suc k) ?L) = (w_obj s i, fst (chan_out s i) @ [p])"
      using w_run_last_obj [OF I(2)] by fastforce
    then have "ofarm_ok N ws c0 (worker_send i Eos WDone s)"
      using k by (intro worker_send_ok [OF ok i]) (auto simp: worker_ok_def)
    then show ?thesis using step WSend k(1) True by (simp add: worker_step_def)
  next
    case False
    then have r: "Suc k \<le> length ?L" "w_run (W_svc N i) (ws i) (take (Suc k) ?L) = (w_obj s i, fst (chan_out s i) @ [p])" using k(3) by auto
    then obtain y where y: "p = Obj y" using w_run_last_obj [OF I(2)] by blast
    have "ofarm_ok N ws c0 (worker_send i p WIdle s)" using k(2) r by (intro worker_send_ok [OF ok i]) (simp add: worker_ok_def)
    then show ?thesis using step WSend k(1) y by (simp add: worker_step_def)
  qed
qed (use step in \<open>simp add: worker_step_def\<close>)

end
