(* ===== verification/FFOFarmRun.thy ===== *)
theory FFOFarmRun
  imports FFOFarm
begin

text \<open>
  The ordered farm, continued: the steps of the collector, the properties of every run, and what
  happens when a worker has no result for a task.
\<close>

subsection \<open>Steps of the collector\<close>

lemma mod_shift_eq: "t < n \<Longrightarrow> e < n \<Longrightarrow> (k + t) mod n = (k + e) mod n \<longleftrightarrow> t = (e :: nat)"
proof
  assume n: "t < n" "e < n" and eq: "(k + t) mod n = (k + e) mod n"
  show "t = e"
  proof (cases t e rule: linorder_cases)
    case less
    then have "n dvd (k + e) - (k + t)" using eq mod_eq_dvd_iff_nat [of "k + t" "k + e" n] by simp
    then show ?thesis using less n by (simp add: nat_dvd_not_less)
  next
    case greater
    then have "n dvd (k + t) - (k + e)" using eq mod_eq_dvd_iff_nat [of "k + e" "k + t" n] by simp
    then show ?thesis using greater n by (simp add: nat_dvd_not_less)
  qed
qed simp

text \<open>What a worker has sent.\<close>

lemma sent_item:
  assumes ok: "ofarm_ok N ws c0 s" and i: "i < nworkers N" and a: "a < length (fst (chan_out s i))"
  defines "L \<equiv> lane (nworkers N) (e_sent s) i"
  shows "if fst (chan_out s i) ! a = Eos then a = length L \<and> eos_to s i
    else a < length L \<and> fst (chan_out s i) ! a = snd (w_run (W_svc N i) (ws i) L) ! a"
proof -
  note I = ofarm_okD [OF ok]
  let ?out = "fst (chan_out s i)" and ?R = "snd (w_run (W_svc N i) (ws i) L)"
  have w: "worker_ok (W_svc N i) (ws i) L (eos_to s i) (snd (chan_in s i)) (w_pc s i) (w_obj s i) ?out" using I(5) i by (simp add: L_def)
  have objs: "?R ! b \<noteq> Eos" if "b < length L" for b
  proof -
    have "?R ! b \<in> set ?R" by (rule nth_mem) (simp add: length_w_run that)
    then have "\<exists>y. ?R ! b = Obj y" using w_run_objs [of "W_svc N i"] one_resultD [OF I(2), of i] by blast
    then show ?thesis by auto
  qed
  have pre: "(\<exists>c\<le>length L. ?out = take c ?R) \<or> (eos_to s i \<and> ?out = ?R @ [Eos])"
  proof (cases "w_pc s i")
    case WIdle
    then have "?out = take (snd (chan_in s i)) ?R" "snd (chan_in s i) \<le> length L"
      using w w_run_take [of "W_svc N i" "ws i" "snd (chan_in s i)" L] by (auto simp: worker_ok_def)
    then show ?thesis by blast
  next
    case (WSend ys p)
    then have "\<exists>k. Suc k \<le> length L \<and> w_run (W_svc N i) (ws i) (take (Suc k) L) = (w_obj s i, ?out @ [p]) \<or> ?out = ?R"
      using w by (auto simp: worker_ok_def)
    then obtain k where k: "Suc k \<le> length L \<and> w_run (W_svc N i) (ws i) (take (Suc k) L) = (w_obj s i, ?out @ [p]) \<or> ?out = ?R"
      by blast
    show ?thesis
    proof (cases "?out = ?R")
      case True
      then show ?thesis using length_w_run [of "W_svc N i" "ws i" L] by (intro disjI1 exI [of _ "length L"]) simp
    next
      case False
      then have t: "Suc k \<le> length L" "?out @ [p] = take (Suc k) ?R" using k w_run_take [of "W_svc N i" "ws i" "Suc k" L] by auto
      then have "?out = take k ?R"
        using length_w_run [of "W_svc N i" "ws i" L] by (simp add: take_Suc_conv_app_nth)
      then show ?thesis using t(1) by (intro disjI1 exI [of _ k]) simp
    qed
  next
    case WDone
    then show ?thesis using w by (simp add: worker_ok_def)
  qed
  then show ?thesis
  proof
    assume "\<exists>c\<le>length L. ?out = take c ?R"
    then obtain c where c: "c \<le> length L" "?out = take c ?R" by blast
    then have "a < length L" "?out ! a = ?R ! a" using a by simp_all
    then show ?thesis using objs by simp
  next
    assume o: "eos_to s i \<and> ?out = ?R @ [Eos]"
    then show ?thesis using a objs length_w_run [of "W_svc N i" "ws i" L] by (cases "a = length L") (auto simp: nth_append)
  qed
qed

lemma sent_obj:
  assumes ok: "ofarm_ok N ws c0 s" and i: "i < nworkers N" and a: "a < length (fst (chan_out s i))" and p: "fst (chan_out s i) ! a \<noteq> Eos"
  shows "\<exists>y. fst (chan_out s i) ! a = Obj y"
proof -
  let ?R = "snd (w_run (W_svc N i) (ws i) (lane (nworkers N) (e_sent s) i))"
  have "fst (chan_out s i) ! a \<in> set ?R" using sent_item [OF ok i a] p by (auto simp: length_w_run)
  then show ?thesis using w_run_objs [of "W_svc N i"] one_resultD [OF ofarm_okD(2) [OF ok], of i] by blast
qed

lemma collector_okD:
  assumes "collector_ok N c0 s"
  shows "taken_ok (nworkers N) (chan_out s) (dead s) (c_got s)"
    "\<exists>e\<le>nworkers N. (\<forall>i<nworkers N. dead s ! i \<longleftrightarrow> (\<exists>t<e. i = (length (c_got s) + t) mod nworkers N)) \<and> c_phase N s (length (c_got s)) e"
    "c_obj s = fst (coll_run (C_f N) c0 (c_got s))"
    "outpresent N \<Longrightarrow> c_out s @ c_pending s = snd (coll_run (C_f N) c0 (c_got s)) @ (if c_pc s = CDone then [Eos] else [])"
  using assms unfolding collector_ok_def by blast+

lemma taken_okD:
  assumes "taken_ok n ch dd got"
  shows "length dd = n" "Eos \<notin> set got" "\<And>i. i < n \<Longrightarrow> snd (ch i) = cnt n (length got) i + (if dd ! i then 1 else 0)"
    "\<And>i. i < n \<Longrightarrow> snd (ch i) \<le> length (fst (ch i))" "\<And>i. i < n \<Longrightarrow> dd ! i \<Longrightarrow> fst (ch i) ! cnt n (length got) i = Eos"
    "\<And>j. j < length got \<Longrightarrow> got ! j = fst (ch (j mod n)) ! cnt n j (j mod n)"
  using assms unfolding taken_ok_def by blast+

text \<open>The collector has taken results of tasks that were sent, and all of them if a worker has ended.\<close>

lemma got_le_sent:
  assumes ok: "ofarm_ok N ws c0 s"
  shows "length (c_got s) \<le> length (e_sent s)"
proof (rule ccontr)
  assume "\<not> length (c_got s) \<le> length (e_sent s)"
  then have j: "length (e_sent s) < length (c_got s)" (is "?j < _") by simp
  note I = ofarm_okD [OF ok] and T = taken_okD [OF collector_okD(1) [OF ofarm_okD(6) [OF ok]]]
  let ?n = "nworkers N"
  have i: "?j mod ?n < ?n" using I(1) by simp
  have "cnt ?n ?j (?j mod ?n) < length (fst (chan_out s (?j mod ?n)))"
    using T(3,4) [OF i] j cnt_less [of ?n ?j "length (c_got s)"] by (simp split: if_splits)
  moreover have "fst (chan_out s (?j mod ?n)) ! cnt ?n ?j (?j mod ?n) \<noteq> Eos" using T(2,6) j nth_mem by metis
  ultimately have "cnt ?n ?j (?j mod ?n) < length (lane ?n (e_sent s) (?j mod ?n))" using sent_item [OF ok i] by simp
  then show False by (simp add: length_lane)
qed

lemma ended_all_got:
  assumes ok: "ofarm_ok N ws c0 s" and d: "dead s ! (length (c_got s) mod nworkers N)"
  shows "length (c_got s) = length (e_sent s)"
proof -
  note I = ofarm_okD [OF ok] and T = taken_okD [OF collector_okD(1) [OF ofarm_okD(6) [OF ok]]]
  let ?n = "nworkers N" and ?k = "length (c_got s)"
  have i: "?k mod ?n < ?n" using I(1) by simp
  have lt: "cnt ?n ?k (?k mod ?n) < length (fst (chan_out s (?k mod ?n)))" using T(3,4) [OF i] d by simp
  have "cnt ?n ?k (?k mod ?n) = cnt ?n (length (e_sent s)) (?k mod ?n)"
    using sent_item [OF ok i lt] T(5) [OF i d] by (simp add: length_lane)
  then have "\<not> ?k < length (e_sent s)" using cnt_less [of ?n ?k "length (e_sent s)"] by simp
  then show ?thesis using got_le_sent [OF ok] by simp
qed

text \<open>The head of the victim's channel.\<close>

lemma collector_head:
  assumes ok: "ofarm_ok N ws c0 s" and pc: "c_pc s = CIdle" and g: "get_chan (chan_out s (gt_victim s)) = Some (p, c)"
  defines "n \<equiv> nworkers N" and "k \<equiv> length (c_got s)"
  obtains e where "e < n" "neos s = e" "c_nextone s = (k + e) mod n" "gt_victim s = (k + e) mod n"
    "\<And>i. i < n \<Longrightarrow> dead s ! i \<longleftrightarrow> (\<exists>t<e. i = (k + t) mod n)" "\<not> dead s ! ((k + e) mod n)"
    "p = fst (chan_out s ((k + e) mod n)) ! cnt n k ((k + e) mod n)"
    "c = (fst (chan_out s ((k + e) mod n)), Suc (cnt n k ((k + e) mod n)))"
    "cnt n k ((k + e) mod n) < length (fst (chan_out s ((k + e) mod n)))"
    "p = Eos \<or> e = 0"
proof -
  note I = ofarm_okD [OF ok] and T = taken_okD [OF collector_okD(1) [OF ofarm_okD(6) [OF ok]]]
  obtain e where e: "e \<le> n" "\<And>i. i < n \<Longrightarrow> dead s ! i \<longleftrightarrow> (\<exists>t<e. i = (k + t) mod n)" "c_phase N s k e"
    using collector_okD(2) [OF I(6)] unfolding n_def k_def by blast
  then have f: "e < n" "neos s = e" "c_nextone s = (k + e) mod n" "gt_victim s = (k + e) mod n"
    using pc by (simp_all add: c_phase_def n_def Let_def)
  let ?v = "(k + e) mod n"
  have v: "?v < n" using I(1) by (simp add: n_def)
  have d: "\<not> dead s ! ?v"
  proof
    assume "dead s ! ?v"
    then obtain t where "t < e" "(k + e) mod n = (k + t) mod n" using e(2) [OF v] by blast
    then show False using mod_shift_eq [of t n e k] f(1) by simp
  qed
  have s: "snd (chan_out s ?v) = cnt n k ?v" using T(3) v d by (simp add: n_def k_def)
  have lt: "cnt n k ?v < length (fst (chan_out s ?v))" and p: "p = fst (chan_out s ?v) ! cnt n k ?v" "c = (fst (chan_out s ?v), Suc (cnt n k ?v))"
    using g unfolding f(4) get_chan_def s by (auto split: if_splits)
  have "p = Eos \<or> e = 0"
  proof (rule ccontr)
    assume "\<not> (p = Eos \<or> e = 0)"
    then have "e \<noteq> 0" and ne: "p \<noteq> Eos" by auto
    from \<open>e \<noteq> 0\<close> have "dead s ! (k mod n)" using e(2) [of "k mod n"] I(1) by (auto simp: n_def intro!: exI [of _ 0])
    then have k: "k = length (e_sent s)" using ended_all_got [OF ok] by (simp add: k_def n_def)
    have "cnt n k ?v < length (lane n (e_sent s) ?v)"
      using sent_item [OF ok, of ?v "cnt n k ?v"] v lt p(1) ne by (simp add: n_def)
    then show False by (simp add: length_lane k)
  qed
  then show thesis using that f e(2) d p lt by blast
qed

lemma coll_okD: "coll_ok N \<Longrightarrow> filter_svc (C_f N) c (Obj x) = (c', ys, r) \<Longrightarrow> if outpresent N then r \<noteq> Null else ys = []"
  unfolding coll_ok_def by (drule spec [of _ c], drule spec [of _ x]) simp

lemma dead_upd:
  fixes n e k :: nat
  assumes e: "e < n" and dd: "length dd = n" "\<And>i. i < n \<Longrightarrow> dd ! i \<longleftrightarrow> (\<exists>t<e. i = (k + t) mod n)" and i: "i < n"
  shows "dd[(k + e) mod n := True] ! i \<longleftrightarrow> (\<exists>t<Suc e. i = (k + t) mod n)"
  using assms by (cases "i = (k + e) mod n") (auto simp: nth_list_update less_Suc_eq)

lemma collector_eos_ok:
  assumes ok: "ofarm_ok N ws c0 s" and pc: "c_pc s = CIdle" and g: "get_chan (chan_out s (gt_victim s)) = Some (Eos, c)"
  defines "u \<equiv> (eosnotify (nworkers N) (gt_victim s) (s\<lparr>chan_out := (chan_out s)(gt_victim s := c)\<rparr>))\<lparr>neos := neos s + 1\<rparr>"
  shows "ofarm_ok N ws c0 (if neos u < nworkers N then u else u\<lparr>c_pc := CEnd\<rparr>)" (is "ofarm_ok N ws c0 ?u")
proof -
  note I = ofarm_okD [OF ok]
  note C = collector_okD [OF I(6)]
  note T = taken_okD [OF C(1)]
  define n k where "n = nworkers N" and "k = length (c_got s)"
  obtain e where e: "e < n" "neos s = e" "c_nextone s = (k + e) mod n" "gt_victim s = (k + e) mod n"
    "\<And>i. i < n \<Longrightarrow> dead s ! i \<longleftrightarrow> (\<exists>t<e. i = (k + t) mod n)" "\<not> dead s ! ((k + e) mod n)"
    "Eos = fst (chan_out s ((k + e) mod n)) ! cnt n k ((k + e) mod n)"
    "c = (fst (chan_out s ((k + e) mod n)), Suc (cnt n k ((k + e) mod n)))"
    "cnt n k ((k + e) mod n) < length (fst (chan_out s ((k + e) mod n)))"
  proof (rule collector_head [OF ok pc g, folded n_def k_def])
  qed (rule that)
  define v where "v = (k + e) mod n"
  define dd where "dd = (dead s)[v := True]"
  have v: "v < n" using I(1) by (simp add: v_def n_def)
  have len: "length (dead s) = n" using T(1) by (simp add: n_def)
  have dd: "\<And>i. i < n \<Longrightarrow> dd ! i \<longleftrightarrow> (\<exists>t<Suc e. i = (k + t) mod n)"
    unfolding dd_def v_def by (rule dead_upd [OF e(1) len e(5)])
  have nx: "dd ! ((k + Suc e) mod n) \<longleftrightarrow> Suc e = n"
  proof -
    have "(\<exists>t<Suc e. (k + Suc e) mod n = (k + t) mod n) \<longleftrightarrow> Suc e = n"
    proof (cases "Suc e < n")
      case True
      then have "(k + Suc e) mod n \<noteq> (k + t) mod n" if "t < Suc e" for t using mod_shift_eq [of "Suc e" n t k] that by simp
      then show ?thesis using True by blast
    next
      case False
      then have "Suc e = n" using e(1) by simp
      then show ?thesis by (auto intro!: exI [of _ 0])
    qed
    then show ?thesis using dd [of "(k + Suc e) mod n"] e(1) by simp
  qed
  have ev: "(v + 1) mod n = (k + Suc e) mod n" by (simp add: v_def mod_Suc_eq)
  define z where "z = (if neos u < nworkers N then u else u\<lparr>c_pc := CEnd\<rparr>)"
  have u: "dead z = dd" "chan_out z = (chan_out s)(v := c)" "c_got z = c_got s" "c_obj z = c_obj s" "c_out z = c_out s"
    "neos z = Suc e" "c_nextone z = (k + Suc e) mod n" "c_pc z = (if Suc e < n then CIdle else CEnd)"
    "gt_victim z = (if Suc e < n then (k + Suc e) mod n else v)"
    "e_sent z = e_sent s" "e_pc z = e_pc s" "e_nextone z = e_nextone s" "lb_victim z = lb_victim s" "chan_in z = chan_in s"
    "w_pc z = w_pc s" "w_obj z = w_obj s"
    using e(1-4) pc nx ev unfolding z_def u_def eosnotify_def set_victim_def Let_def
    by (auto simp: n_def [symmetric] v_def [symmetric] dd_def [symmetric])
  have "emitter_ok n z" using I(4) unfolding emitter_ok_def eos_to_def u n_def .
  moreover have "workers_ok N ws z"
    using I(5) e(8) unfolding eos_to_def u by (auto simp: v_def)
  moreover have "collector_ok N c0 z"
    unfolding collector_ok_def u unfolding n_def [symmetric] k_def [symmetric]
  proof (intro conjI)
    have "Eos = fst (chan_out s v) ! cnt n k v" "snd c = Suc (cnt n k v)" "fst c = fst (chan_out s v)" "cnt n k v < length (fst (chan_out s v))"
      using e(7,8,9) by (simp_all add: v_def)
    then show "taken_ok n ((chan_out s)(v := c)) dd (c_got s)"
      using T v len unfolding taken_ok_def k_def [symmetric] n_def [symmetric] dd_def by (auto simp: nth_list_update)
    show "\<exists>e'\<le>n. (\<forall>i<n. dd ! i \<longleftrightarrow> (\<exists>t<e'. i = (k + t) mod n)) \<and> c_phase N z k e'"
    proof (intro exI [of _ "Suc e"] conjI)
      show "\<forall>i<n. dd ! i \<longleftrightarrow> (\<exists>t<Suc e. i = (k + t) mod n)" using dd by blast
      show "c_phase N z k (Suc e)"
        using e(1) unfolding c_phase_def u Let_def n_def [symmetric] by simp
    qed (use e(1) in simp)
    show "outpresent N \<longrightarrow> c_out s @ c_pending z = snd (coll_run (C_f N) c0 (c_got s)) @ (if (if Suc e < n then CIdle else CEnd) = CDone then [Eos] else [])"
      using C(4) pc unfolding c_pending_def u by simp
  qed (rule C(3))
  ultimately show ?thesis using I(1,2,3) unfolding z_def ofarm_ok_def n_def by blast
qed

lemma collector_take_ok:
  assumes ok: "ofarm_ok N ws c0 s" and pc: "c_pc s = CIdle" and g: "get_chan (chan_out s (gt_victim s)) = Some (p, c)" and p: "p \<noteq> Eos"
    and f: "filter_svc (C_f N) (c_obj s) p = (c', ys, r)"
  shows "ofarm_ok N ws c0 (s\<lparr>chan_out := (chan_out s)(gt_victim s := c), c_obj := c', c_pc := CSend ys r, c_got := c_got s @ [p]\<rparr>)" (is "ofarm_ok N ws c0 ?u")
proof -
  note I = ofarm_okD [OF ok]
  note C = collector_okD [OF I(6)]
  note T = taken_okD [OF C(1)]
  define n k where "n = nworkers N" and "k = length (c_got s)"
  obtain e where e: "e < n" "neos s = e" "c_nextone s = (k + e) mod n" "gt_victim s = (k + e) mod n"
    "\<And>i. i < n \<Longrightarrow> dead s ! i \<longleftrightarrow> (\<exists>t<e. i = (k + t) mod n)" "\<not> dead s ! ((k + e) mod n)"
    "p = fst (chan_out s ((k + e) mod n)) ! cnt n k ((k + e) mod n)"
    "c = (fst (chan_out s ((k + e) mod n)), Suc (cnt n k ((k + e) mod n)))"
    "cnt n k ((k + e) mod n) < length (fst (chan_out s ((k + e) mod n)))"
    "p = Eos \<or> e = 0"
  proof (rule collector_head [OF ok pc g, folded n_def k_def])
  qed (rule that)
  have z: "e = 0" using e(10) p by simp
  let ?v = "k mod n"
  have alive: "\<not> dead s ! i" if "i < n" for i using e(5) [OF that] z by simp
  have c: "fst c = fst (chan_out s ?v)" "snd c = Suc (cnt n k ?v)" "p = fst (chan_out s ?v) ! cnt n k ?v" "gt_victim s = ?v" "c_nextone s = ?v"
    "cnt n k ?v < length (fst (chan_out s ?v))"
    using e z by simp_all
  have "emitter_ok n ?u" using I(4) unfolding emitter_ok_def eos_to_def n_def by simp
  moreover have "workers_ok N ws ?u" using I(5) c(1,4) unfolding eos_to_def by simp
  moreover have "collector_ok N c0 ?u"
    unfolding collector_ok_def
  proof (intro conjI)
    have "taken_ok n ((chan_out s)(?v := c)) (dead s) (c_got s @ [p])"
      unfolding taken_ok_def
    proof (intro conjI allI impI)
      show "length (dead s) = n" "Eos \<notin> set (c_got s @ [p])" using T(1,2) p by (auto simp: n_def)
      fix i
      assume i: "i < n"
      show "snd (((chan_out s)(?v := c)) i) = cnt n (length (c_got s @ [p])) i + (if dead s ! i then 1 else 0)"
        using T(3) i alive [OF i] c(2) by (auto simp: cnt_Suc n_def k_def)
      show "snd (((chan_out s)(?v := c)) i) \<le> length (fst (((chan_out s)(?v := c)) i))"
        using T(4) i c(1,2,6) by (auto simp: n_def)
      show "fst (((chan_out s)(?v := c)) i) ! cnt n (length (c_got s @ [p])) i = Eos" if "dead s ! i" using that alive [OF i] by simp
    next
      fix j
      assume "j < length (c_got s @ [p])"
      then show "(c_got s @ [p]) ! j = fst (((chan_out s)(?v := c)) (j mod n)) ! cnt n j (j mod n)"
        using T(6) c(1,3) by (cases "j < k") (auto simp: nth_append n_def k_def less_Suc_eq)
    qed
    then show "taken_ok (nworkers N) (chan_out ?u) (dead ?u) (c_got ?u)" using c(4) by (simp add: n_def)
    obtain x where x: "p = Obj x" using sent_obj [OF ok _ c(6)] c(3) p I(1) by (auto simp: n_def)
    have "if outpresent N then r \<noteq> Null else ys = []" by (rule coll_okD [OF I(3) f [unfolded x]])
    then have "c_phase N ?u (Suc k) 0" using c(4,5) e(2) z by (simp add: c_phase_def Let_def n_def)
    then show "\<exists>e\<le>nworkers N. (\<forall>i<nworkers N. dead ?u ! i \<longleftrightarrow> (\<exists>t<e. i = (length (c_got ?u) + t) mod nworkers N)) \<and> c_phase N ?u (length (c_got ?u)) e"
      using alive by (intro exI [of _ 0]) (simp add: n_def k_def)
    have f': "filter_svc (C_f N) (fst (coll_run (C_f N) c0 (c_got s))) p = (c', ys, r)" using f C(3) by simp
    note cr = coll_run_snoc [OF f']
    show "c_obj ?u = fst (coll_run (C_f N) c0 (c_got ?u))" by (simp add: cr)
    show "outpresent N \<longrightarrow> c_out ?u @ c_pending ?u = snd (coll_run (C_f N) c0 (c_got ?u)) @ (if c_pc ?u = CDone then [Eos] else [])"
      using C(4) pc by (simp add: cr c_pending_def)
  qed
  ultimately show ?thesis using I(1,2,3) unfolding ofarm_ok_def n_def by blast
qed

text \<open>The rest: sending, moving on to the next worker, and the end.\<close>

lemma collector_goto:
  assumes ok: "ofarm_ok N ws c0 s"
    and u: "e_sent u = e_sent s" "e_pc u = e_pc s" "e_nextone u = e_nextone s" "lb_victim u = lb_victim s" "chan_in u = chan_in s"
    "w_pc u = w_pc s" "w_obj u = w_obj s" "chan_out u = chan_out s" "dead u = dead s" "c_got u = c_got s" "c_obj u = c_obj s"
    and ph: "\<And>e. c_phase N s (length (c_got s)) e \<Longrightarrow> c_phase N u (length (c_got s)) e"
    and out: "outpresent N \<Longrightarrow> c_out u @ c_pending u = snd (coll_run (C_f N) c0 (c_got s)) @ (if c_pc u = CDone then [Eos] else [])"
  shows "ofarm_ok N ws c0 u"
proof -
  note I = ofarm_okD [OF ok]
  note C = collector_okD [OF I(6)]
  have "emitter_ok (nworkers N) u" using I(4) unfolding emitter_ok_def eos_to_def u .
  moreover have "workers_ok N ws u" using I(5) unfolding eos_to_def u .
  moreover have "collector_ok N c0 u" using C(1,2,3) ph out unfolding collector_ok_def u by blast
  ultimately show ?thesis using I(1,2,3) unfolding ofarm_ok_def by blast
qed

lemma next_alive_first:
  assumes "0 < n" and "\<not> dead s ! ((c_nextone s + 1) mod n)"
  shows "next_alive n n s = Some (s\<lparr>c_nextone := (c_nextone s + 1) mod n, gt_victim := (c_nextone s + 1) mod n\<rparr>)"
  using assms by (cases n) (simp_all add: set_victim_def Let_def)

lemma collector_send_ok:
  assumes ok: "ofarm_ok N ws c0 s" and pc: "c_pc s = CSend ys r" and step: "collector_step N s = Some u"
  shows "ofarm_ok N ws c0 u"
proof -
  note I = ofarm_okD [OF ok]
  note C = collector_okD [OF I(6)]
  let ?k = "length (c_got s)" and ?n = "nworkers N"
  obtain e where "e \<le> ?n" "\<And>i. i < ?n \<Longrightarrow> dead s ! i \<longleftrightarrow> (\<exists>t<e. i = (?k + t) mod ?n)" and ph: "c_phase N s ?k e" using C(2) by blast
  moreover then have p: "e = 0" "0 < ?k" "c_nextone s = (?k - 1) mod ?n" "if outpresent N then r \<noteq> Null else ys = []" using pc by (simp_all add: c_phase_def Let_def)
  ultimately have alive: "\<And>i. i < ?n \<Longrightarrow> \<not> dead s ! i" by simp
  have out: "outpresent N \<Longrightarrow> c_out s @ map Obj ys @ [r] = snd (coll_run (C_f N) c0 (c_got s))" using C(4) pc by (simp add: c_pending_def)
  show ?thesis
  proof (cases ys)
    case (Cons y zs)
    then have o: "outpresent N" using p(4) by (simp split: if_splits)
    then have u: "u = s\<lparr>c_out := c_out s @ [Obj y], c_pc := CSend zs r\<rparr>" using step pc Cons by (simp add: collector_step_def)
    show ?thesis
      by (rule collector_goto [OF ok]) (use u o out pc Cons in \<open>auto simp: c_phase_def c_pending_def Let_def\<close>)
  next
    case Nil
    let ?t = "if outpresent N then s\<lparr>c_out := c_out s @ [r]\<rparr> else s"
    have nx: "(c_nextone s + 1) mod ?n = ?k mod ?n" using p(2,3) by (simp add: mod_Suc_eq)
    have f: "c_nextone ?t = c_nextone s" "dead ?t = dead s" by simp_all
    have "next_alive ?n ?n ?t = Some (?t\<lparr>c_nextone := ?k mod ?n, gt_victim := ?k mod ?n\<rparr>)"
      using next_alive_first [of ?n ?t] I(1) alive [of "?k mod ?n"] unfolding f nx by simp
    then have u: "u = ?t\<lparr>c_nextone := ?k mod ?n, gt_victim := ?k mod ?n, c_pc := CIdle\<rparr>"
      using step pc Nil p(4) by (auto simp: collector_step_def split: if_splits)
    show ?thesis
    proof (rule collector_goto [OF ok])
      show "c_phase N u ?k e" if "c_phase N s ?k e" for e
        using that pc I(1) by (auto simp: u c_phase_def Let_def)
      show "c_out u @ c_pending u = snd (coll_run (C_f N) c0 (c_got s)) @ (if c_pc u = CDone then [Eos] else [])" if "outpresent N"
        using that out Nil by (simp add: u c_pending_def)
    qed (simp_all add: u)
  qed
qed

lemma collector_step_ok:
  assumes ok: "ofarm_ok N ws c0 s" and step: "collector_step N s = Some u"
  shows "ofarm_ok N ws c0 u"
proof (cases "c_pc s")
  case CIdle
  obtain p c where g: "get_chan (chan_out s (gt_victim s)) = Some (p, c)"
    using step CIdle by (auto simp: collector_step_def split: option.splits)
  show ?thesis
  proof (cases "p = Eos")
    case True
    then show ?thesis using collector_eos_ok [OF ok CIdle] g step CIdle by (simp add: collector_step_def Let_def split: if_splits)
  next
    case False
    obtain c' ys r where f: "filter_svc (C_f N) (c_obj s) p = (c', ys, r)" by (metis prod_cases3)
    have "u = s\<lparr>chan_out := (chan_out s)(gt_victim s := c), c_obj := c', c_pc := CSend ys r, c_got := c_got s @ [p]\<rparr>"
      using step CIdle g False f by (simp add: collector_step_def Let_def)
    then show ?thesis using collector_take_ok [OF ok CIdle g False f] by simp
  qed
next
  case (CSend ys r)
  then show ?thesis by (rule collector_send_ok [OF ok _ step])
next
  case CEnd
  have u: "u = (if outpresent N then s\<lparr>c_out := c_out s @ [Eos], c_pc := CDone, neos := 0\<rparr> else s\<lparr>c_pc := CDone, neos := 0\<rparr>)"
    using step CEnd by (simp add: collector_step_def)
  show ?thesis
  proof (rule collector_goto [OF ok])
    show "c_phase N u (length (c_got s)) e" if "c_phase N s (length (c_got s)) e" for e
      using that CEnd by (auto simp: u c_phase_def Let_def)
    show "c_out u @ c_pending u = snd (coll_run (C_f N) c0 (c_got s)) @ (if c_pc u = CDone then [Eos] else [])" if "outpresent N"
      using that collector_okD(4) [OF ofarm_okD(6) [OF ok]] CEnd by (simp add: u c_pending_def)
  qed (simp_all add: u)
qed (use step in \<open>simp_all add: collector_step_def\<close>)

subsection \<open>Every run\<close>

lemma ofarm_step_ok: "ofarm_ok N ws c0 s \<Longrightarrow> ofarm_step N t s = Some u \<Longrightarrow> ofarm_ok N ws c0 u"
  by (cases t) (auto intro: emitter_step_ok worker_step_ok collector_step_ok split: if_splits)

lemma ofarm_run_ok: "ofarm_run N ts s = Some u \<Longrightarrow> ofarm_ok N ws c0 s \<Longrightarrow> ofarm_ok N ws c0 u"
  by (induction N ts s rule: ofarm_run.induct) (auto intro: ofarm_step_ok split: option.splits)

lemma ofarm_init_ok:
  assumes "0 < nworkers N" and "one_result N" and "coll_ok N"
  shows "ofarm_ok N ws c (ofarm_init N ps e ws c)"
proof -
  let ?s = "ofarm_init N ps e ws c"
  have "emitter_ok (nworkers N) ?s" by (simp add: ofarm_init_def emitter_ok_def eos_to_def)
  moreover have "workers_ok N ws ?s" by (simp add: ofarm_init_def worker_ok_def)
  moreover have "c_phase N ?s 0 0" using assms(1) by (simp add: ofarm_init_def c_phase_def Let_def)
  then have "collector_ok N c ?s"
    by (simp add: collector_ok_def taken_ok_def c_pending_def ofarm_init_def cnt_def) (intro exI [of _ 0], simp)
  ultimately show ?thesis using assms unfolding ofarm_ok_def by blast
qed

lemma got_seq:
  assumes ok: "ofarm_ok N ws c0 s"
  shows "c_got s = take (length (c_got s)) (seq_farm N ws (e_sent s))"
proof -
  note I = ofarm_okD [OF ok] and T = taken_okD [OF collector_okD(1) [OF ofarm_okD(6) [OF ok]]]
  note S = seq_lanes [of N ws "e_sent s", folded seq_farm_def]
  have len: "length (seq_farm N ws (e_sent s)) = length (e_sent s)" using S by simp
  show ?thesis
  proof (rule nth_equalityI)
    show "length (c_got s) = length (take (length (c_got s)) (seq_farm N ws (e_sent s)))" using len got_le_sent [OF ok] by simp
    fix j
    assume j: "j < length (c_got s)"
    let ?i = "j mod nworkers N" let ?a = "cnt (nworkers N) j ?i"
    have i: "?i < nworkers N" using I(1) by simp
    have a: "?a < length (fst (chan_out s ?i))" using T(3,4) [OF i] j cnt_less [of "nworkers N" j "length (c_got s)"] by (simp split: if_splits)
    have ne: "fst (chan_out s ?i) ! ?a \<noteq> Eos" using T(2,6) j nth_mem by metis
    have "c_got s ! j = snd (w_run (W_svc N ?i) (ws ?i) (lane (nworkers N) (e_sent s) ?i)) ! ?a"
      using sent_item [OF ok i a] ne T(6) [OF j] by simp
    moreover have "seq_farm N ws (e_sent s) ! j = snd (w_run (W_svc N ?i) (ws ?i) (lane (nworkers N) (e_sent s) ?i)) ! ?a"
      using S j got_le_sent [OF ok] by simp
    ultimately show "c_got s ! j = take (length (c_got s)) (seq_farm N ws (e_sent s)) ! j" using j by simp
  qed
qed

text \<open>
  C4. Whatever the interleaving of emitter, workers and collector, when every call of a worker
  returns one result the collector gets the results in the order of the tasks, and they are those of
  the sequential farm: at every moment a prefix of them, passed to its filter in that order, and when
  it ends all of them, followed by one end mark on the output channel. It fails no assertion and
  its search for the next worker ends.
\<close>

theorem ofarm_in_order:
  assumes "0 < nworkers N" and "one_result N" and "coll_ok N" and "ofarm_run N ts (ofarm_init N ps e ws c) = Some s"
  shows "c_got s = take (length (c_got s)) (seq_farm N ws (e_sent s)) \<and> c_pc s \<noteq> CFail \<and> c_pc s \<noteq> CSpin \<and>
    c_obj s = fst (coll_run (C_f N) c (c_got s)) \<and>
    (outpresent N \<longrightarrow> (\<exists>ps. c_out s @ ps = snd (coll_run (C_f N) c (c_got s)) @ [Eos])) \<and>
    (c_pc s = CDone \<longrightarrow> c_got s = seq_farm N ws (e_sent s) \<and>
      (outpresent N \<longrightarrow> c_out s = snd (coll_run (C_f N) c (seq_farm N ws (e_sent s))) @ [Eos]))"
proof -
  have ok: "ofarm_ok N ws c s" using ofarm_run_ok [OF assms(4)] ofarm_init_ok [OF assms(1-3)] by blast
  note I = ofarm_okD [OF ok]
  note C = collector_okD [OF I(6)]
  obtain e' where e: "e' \<le> nworkers N" "\<And>i. i < nworkers N \<Longrightarrow> dead s ! i \<longleftrightarrow> (\<exists>t<e'. i = (length (c_got s) + t) mod nworkers N)" "c_phase N s (length (c_got s)) e'"
    using C(2) by blast
  have all: "c_got s = seq_farm N ws (e_sent s)" if "c_pc s = CDone"
  proof -
    have "e' = nworkers N" using e(3) that by (simp add: c_phase_def Let_def)
    then have "dead s ! (length (c_got s) mod nworkers N)" using e(2) [of "length (c_got s) mod nworkers N"] I(1) by (auto intro!: exI [of _ 0])
    then show ?thesis using ended_all_got [OF ok] got_seq [OF ok] seq_lanes [of N ws "e_sent s", folded seq_farm_def] by simp
  qed
  have "c_pc s \<noteq> CFail \<and> c_pc s \<noteq> CSpin" using e(3) by (auto simp: c_phase_def Let_def)
  moreover have "\<exists>ps. c_out s @ ps = snd (coll_run (C_f N) c (c_got s)) @ [Eos]" if "outpresent N"
    using C(4) [OF that] by (cases "c_pc s = CDone") (auto intro: exI [of _ "c_pending s @ [Eos]"] exI [of _ "c_pending s"] simp flip: append_assoc)
  moreover have "c_out s = snd (coll_run (C_f N) c (c_got s)) @ [Eos]" if "c_pc s = CDone" "outpresent N"
    using C(4) [OF that(2)] that(1) by (simp add: c_pending_def)
  ultimately show ?thesis using got_seq [OF ok] C(3) all by metis
qed

subsection \<open>The end\<close>

text \<open>When nothing can move after the emitter has ended, the collector is done.\<close>

lemma stuck_done:
  assumes ok: "ofarm_ok N ws c0 s" and e: "e_pc s = EDone" and stuck: "\<And>t. ofarm_step N t s = None"
  shows "c_pc s = CDone"
proof (rule ccontr)
  assume nd: "c_pc s \<noteq> CDone"
  note I = ofarm_okD [OF ok] and T = taken_okD [OF collector_okD(1) [OF ofarm_okD(6) [OF ok]]]
  let ?n = "nworkers N" and ?k = "length (c_got s)"
  obtain b where b: "b \<le> ?n" "\<And>i. i < ?n \<Longrightarrow> dead s ! i \<longleftrightarrow> (\<exists>t<b. i = (?k + t) mod ?n)" "c_phase N s ?k b"
    using collector_okD(2) [OF I(6)] by blast
  have st: "collector_step N s = None" "worker_step N i s = None" if "i < ?n" for i
    using stuck [of Collector] stuck [of "Worker i"] that by simp_all
  have "c_pc s = CIdle"
    using st(1) [OF I(1)] nd b(3) by (cases "c_pc s") (auto simp: collector_step_def c_phase_def Let_def split: list.splits if_splits option.splits)
  then have v: "b < ?n" "gt_victim s = (?k + b) mod ?n" "get_chan (chan_out s (gt_victim s)) = None"
    using b(3) st(1) [OF I(1)] by (auto simp: c_phase_def collector_step_def Let_def split: option.splits if_splits prod.splits)
  let ?v = "(?k + b) mod ?n" let ?L = "lane ?n (e_sent s) ?v"
  have vn: "?v < ?n" using I(1) by simp
  have "\<not> dead s ! ?v"
  proof
    assume "dead s ! ?v"
    then obtain t where "t < b" "(?k + b) mod ?n = (?k + t) mod ?n" using b(2) [OF vn] by blast
    then show False using mod_shift_eq [of t ?n b ?k] v(1) by simp
  qed
  then have len: "length (fst (chan_out s ?v)) \<le> cnt ?n ?k ?v"
    using T(3) [OF vn] v(2,3) by (simp add: get_chan_def split: if_splits)
  have w: "worker_ok (W_svc N ?v) (ws ?v) ?L (eos_to s ?v) (snd (chan_in s ?v)) (w_pc s ?v) (w_obj s ?v) (fst (chan_out s ?v))"
    using I(5) vn by blast
  have inp: "fst (chan_in s ?v) = map Obj ?L @ [Eos]" using I(4) vn e by (simp add: emitter_ok_def eos_to_def)
  have "w_pc s ?v = WDone"
  proof (cases "w_pc s ?v")
    case WIdle
    then have "snd (chan_in s ?v) < length (fst (chan_in s ?v))" using w inp by (simp add: worker_ok_def)
    then show ?thesis using st(2) [OF vn] WIdle by (auto simp: worker_step_def get_chan_def split: if_splits prod.splits)
  next
    case (WSend ys r)
    then show ?thesis using st(2) [OF vn] by (auto simp: worker_step_def split: list.splits ptr.splits)
  qed
  then have "length (fst (chan_out s ?v)) = Suc (cnt ?n (length (e_sent s)) ?v)" using w by (simp add: worker_ok_def length_w_run length_lane)
  then show False using len cnt_mono [OF got_le_sent [OF ok], of ?n ?v] by simp
qed

text \<open>What is left to do after the emitter has ended.\<close>

definition unread :: "'v chan \<Rightarrow> nat" where
  "unread c = length (fst c) - snd c"

definition w_left :: "'v w_pc \<Rightarrow> nat" where
  "w_left c = (case c of WSend ys r \<Rightarrow> 3 | _ \<Rightarrow> 0)"

definition lane_left :: "('v, 'e, 'w, 'c) ofarm \<Rightarrow> nat \<Rightarrow> nat" where
  "lane_left s i = 4 * unread (chan_in s i) + w_left (w_pc s i) + 2 * unread (chan_out s i)"

definition farm_left :: "('v, 'e, 'w, 'c) nodes \<Rightarrow> ('v, 'e, 'w, 'c) ofarm \<Rightarrow> nat \<times> nat" where
  "farm_left N s = ((\<Sum>i<nworkers N. lane_left s i) + (if c_pc s = CEnd then 1 else 0),
     case c_pc s of CSend ys r \<Rightarrow> Suc (length ys) | _ \<Rightarrow> 0)"

lemma sum_less_one:
  fixes f g :: "nat \<Rightarrow> nat"
  assumes "i < n" and "f i < g i" and "\<And>j. j \<noteq> i \<Longrightarrow> f j = g j"
  shows "(\<Sum>j<n. f j) < (\<Sum>j<n. g j)"
  using assms by (intro sum_strict_mono_ex1) (auto simp: le_less, metis less_irrefl order.strict_implies_order)

lemma get_chan_unread: "get_chan c = Some (p, c') \<Longrightarrow> Suc (unread c') = unread c"
  by (auto simp: get_chan_def unread_def split: if_splits)

lemma put_chan_unread: "snd c \<le> length (fst c) \<Longrightarrow> unread (put_chan p c) = Suc (unread c)"
  by (simp add: put_chan_def unread_def Suc_diff_le)

lemma worker_left:
  assumes ok: "ofarm_ok N ws c0 s" and i: "i < nworkers N" and step: "worker_step N i s = Some u"
  shows "lane_left u i < lane_left s i \<and> (\<forall>j. j \<noteq> i \<longrightarrow> lane_left u j = lane_left s j) \<and> c_pc u = c_pc s \<and> e_pc u = e_pc s"
proof (cases "w_pc s i")
  case WIdle
  then obtain p c where g: "get_chan (chan_in s i) = Some (p, c)" using step by (auto simp: worker_step_def split: option.splits)
  then show ?thesis using step WIdle get_chan_unread [OF g]
    by (auto simp: worker_step_def lane_left_def w_left_def split: if_splits prod.splits)
next
  case (WSend ys p)
  note I = ofarm_okD [OF ok]
  have "worker_ok (W_svc N i) (ws i) (lane (nworkers N) (e_sent s) i) (eos_to s i) (snd (chan_in s i)) (WSend ys p) (w_obj s i) (fst (chan_out s i))"
    using I(5) i WSend by metis
  then have ys: "ys = []" and p: "p = Eos \<or> (\<exists>y. p = Obj y)" using w_run_last_obj [OF I(2)] by (auto simp: worker_ok_def)
  have "snd (chan_out s i) \<le> length (fst (chan_out s i))" using taken_okD(4) [OF collector_okD(1) [OF I(6)] i] .
  note un = put_chan_unread [OF this]
  have "u = worker_send i Eos WDone s \<or> (\<exists>y. u = worker_send i (Obj y) WIdle s)" using step WSend ys p by (auto simp: worker_step_def)
  then show ?thesis using WSend un by (auto simp: worker_send_def lane_left_def w_left_def)
qed (use step in \<open>simp add: worker_step_def\<close>)

lemma lane_left_cong: "chan_in u = chan_in s \<Longrightarrow> w_pc u = w_pc s \<Longrightarrow> chan_out u = chan_out s \<Longrightarrow> lane_left u = lane_left s"
  by (rule ext) (simp add: lane_left_def)

lemma next_alive_fields: "next_alive k n s = Some t \<Longrightarrow> chan_in t = chan_in s \<and> w_pc t = w_pc s \<and> chan_out t = chan_out s \<and> e_pc t = e_pc s"
proof (induction k n s rule: next_alive.induct)
  case (2 k n s)
  then show ?case by (auto simp: Let_def set_victim_def split: if_splits)
qed simp

lemma collector_pc_step:
  assumes "collector_step N s = Some u" and "c_pc s \<noteq> CIdle" and "c_pc u \<noteq> CFail" and "c_pc u \<noteq> CSpin"
  shows "lane_left u = lane_left s \<and> e_pc u = e_pc s \<and>
    (case c_pc s of CSend ys r \<Rightarrow> c_pc u = CIdle \<or> (\<exists>y zs. ys = y # zs \<and> c_pc u = CSend zs r) | _ \<Rightarrow> c_pc s = CEnd \<and> c_pc u = CDone)"
  using assms
  by (auto simp: collector_step_def split: c_pc.splits list.splits if_splits option.splits intro!: lane_left_cong dest!: next_alive_fields)

lemma farm_left_less:
  assumes ok: "ofarm_ok N ws c0 s" and e: "e_pc s = EDone" and step: "ofarm_step N t s = Some u"
  shows "(farm_left N u, farm_left N s) \<in> less_than <*lex*> less_than \<and> e_pc u = EDone"
proof (cases t)
  case Emitter
  then show ?thesis using step e by (simp add: emitter_step_def)
next
  case (Worker i)
  then have i: "i < nworkers N" and w: "worker_step N i s = Some u" using step by (simp_all split: if_splits)
  then show ?thesis
    using worker_left [OF ok i w] sum_less_one [OF i, of "lane_left u" "lane_left s"] e by (simp add: farm_left_def)
next
  case Collector
  then have c: "collector_step N s = Some u" using step by simp
  have ok': "ofarm_ok N ws c0 u" by (rule collector_step_ok [OF ok c])
  then have pc: "c_pc u \<noteq> CFail" "c_pc u \<noteq> CSpin"
    using collector_okD(2) [OF ofarm_okD(6) [OF ok']] by (auto simp: c_phase_def Let_def)
  show ?thesis
  proof (cases "c_pc s = CIdle")
    case True
    let ?v = "gt_victim s"
    obtain p a where g: "get_chan (chan_out s ?v) = Some (p, a)" using c True by (auto simp: collector_step_def split: option.splits)
    obtain b where "b < nworkers N" "?v = (length (c_got s) + b) mod nworkers N" using collector_head [OF ok True g] by blast
    then have v: "?v < nworkers N" by simp
    have u: "lane_left u ?v + 2 = lane_left s ?v" "j \<noteq> ?v \<Longrightarrow> lane_left u j = lane_left s j" "e_pc u = e_pc s" for j
      using c True g get_chan_unread [OF g]
      by (auto simp: collector_step_def Let_def eosnotify_def set_victim_def lane_left_def split: if_splits prod.splits)
    define f where "f = (lane_left u)(?v := lane_left u ?v + 1)"
    have "(\<Sum>i<nworkers N. f i) < (\<Sum>i<nworkers N. lane_left s i)"
      using u by (intro sum_less_one [OF v]) (auto simp: f_def)
    moreover have "(\<Sum>i<nworkers N. f i) = (\<Sum>i<nworkers N. lane_left u i) + 1"
      using v by (simp add: f_def sum.remove [of "{..<nworkers N}" ?v])
    ultimately show ?thesis using u(3) e True by (simp add: farm_left_def)
  next
    case False
    then show ?thesis using collector_pc_step [OF c False pc] e by (cases "c_pc s") (auto simp: farm_left_def)
  qed
qed

text \<open>
  C5. Once the emitter has sent its last end mark the farm ends: no run goes on for ever, and when no
  thread can move the collector has received every result and all end marks.
\<close>

theorem ofarm_terminates:
  assumes "0 < nworkers N" and "one_result N" and "coll_ok N" and "ofarm_run N ts (ofarm_init N ps e ws c) = Some s" and "e_pc s = EDone"
  shows "(\<nexists>\<sigma>. \<sigma> 0 = s \<and> (\<forall>k. \<exists>t. ofarm_step N t (\<sigma> k) = Some (\<sigma> (Suc k)))) \<and>
    ((\<forall>t. ofarm_step N t s = None) \<longrightarrow> c_pc s = CDone \<and> c_got s = seq_farm N ws (e_sent s))"
proof -
  have ok: "ofarm_ok N ws c s" using ofarm_run_ok [OF assms(4)] ofarm_init_ok [OF assms(1-3)] by blast
  have "\<not> (\<sigma> 0 = s \<and> (\<forall>k. \<exists>t. ofarm_step N t (\<sigma> k) = Some (\<sigma> (Suc k))))" for \<sigma>
  proof
    assume s: "\<sigma> 0 = s \<and> (\<forall>k. \<exists>t. ofarm_step N t (\<sigma> k) = Some (\<sigma> (Suc k)))"
    have inv: "ofarm_ok N ws c (\<sigma> k) \<and> e_pc (\<sigma> k) = EDone" for k
    proof (induction k)
      case (Suc k)
      obtain t where t: "ofarm_step N t (\<sigma> k) = Some (\<sigma> (Suc k))" using s by blast
      then show ?case using Suc ofarm_step_ok [OF _ t] farm_left_less [OF _ _ t] by blast
    qed (use ok assms(5) s in simp)
    have "(farm_left N (\<sigma> (Suc k)), farm_left N (\<sigma> k)) \<in> less_than <*lex*> less_than" for k
    proof -
      obtain t where t: "ofarm_step N t (\<sigma> k) = Some (\<sigma> (Suc k))" using s by blast
      then show ?thesis using farm_left_less [OF _ _ t] inv [of k] by blast
    qed
    then have "\<exists>f. \<forall>i. (f (Suc i), f i) \<in> (less_than <*lex*> less_than :: ((nat \<times> nat) \<times> (nat \<times> nat)) set)"
      by (intro exI [of _ "\<lambda>k. farm_left N (\<sigma> k)"]) blast
    then show False using wf_iff_no_infinite_down_chain [of "less_than <*lex*> less_than"] by (simp add: wf_lex_prod)
  qed
  moreover have "c_pc s = CDone" if "\<forall>t. ofarm_step N t s = None" using stuck_done [OF ok assms(5)] that by blast
  moreover have "c_got s = seq_farm N ws (e_sent s)" if "c_pc s = CDone"
  proof -
    have "c_phase N s (length (c_got s)) (nworkers N) \<and> (\<forall>i<nworkers N. dead s ! i \<longleftrightarrow> (\<exists>t<nworkers N. i = (length (c_got s) + t) mod nworkers N))"
      using collector_okD(2) [OF ofarm_okD(6) [OF ok]] that by (auto simp: c_phase_def Let_def)
    then have "dead s ! (length (c_got s) mod nworkers N)" using assms(1) by (auto intro!: exI [of _ 0])
    then show ?thesis using ended_all_got [OF ok] got_seq [OF ok] seq_lanes [of N ws "e_sent s", folded seq_farm_def] by simp
  qed
  ultimately show ?thesis by blast
qed

subsection \<open>Examples, and tasks without a result\<close>

text \<open>
  A farm of \<open>n\<close> workers without an input channel whose emitter sends the tasks \<open>xs\<close> and whose workers
  return every task but \<open>d\<close>, for which they return \<open>GO_ON\<close>.
\<close>

definition example_farm :: "nat \<Rightarrow> nat option \<Rightarrow> nat list \<Rightarrow> (nat, unit, unit, unit) nodes" where
  "example_farm n d xs = \<lparr>E_f = Some (\<lambda>e p. (e, xs, Eos)),
     W_svc = (\<lambda>i w p. (w, [], if d \<noteq> None \<and> p = Obj (the d) then GoOn else p)), C_f = None,
     nworkers = n, inpresent = False, outpresent = True\<rparr>"

definition example_init :: "nat \<Rightarrow> nat option \<Rightarrow> nat list \<Rightarrow> (nat, unit, unit, unit) ofarm" where
  "example_init n d xs = ofarm_init (example_farm n d xs) [] () (\<lambda>_. ()) ()"

lemma example_ok:
  "0 < n \<Longrightarrow> 0 < nworkers (example_farm n None xs)" "one_result (example_farm n None xs)" "coll_ok (example_farm n d xs)"
  by (simp_all add: example_farm_def one_result_def coll_ok_def filter_svc_def)

lemma example_seq: "seq_farm (example_farm 2 None [1, 2, 3]) (\<lambda>_. ()) [1, 2, 3] = [Obj 1, Obj 2, Obj 3]"
  by (simp add: seq_farm_def seq_task_def example_farm_def)

text \<open>A run of two workers in which the second one is faster: done, and just before the collector starts.\<close>

lemma example_run:
  fixes ts
  defines "ts \<equiv> replicate 8 Emitter @ replicate 4 (Worker 1) @ replicate 6 (Worker 0)"
  shows "\<exists>s. ofarm_run (example_farm 2 None [1, 2, 3]) ts (example_init 2 None [1, 2, 3]) = Some s \<and> e_pc s = EDone \<and> c_pc s = CIdle \<and> e_sent s = [1, 2, 3]"
    "\<exists>s. ofarm_run (example_farm 2 None [1, 2, 3]) (ts @ replicate 9 Collector) (example_init 2 None [1, 2, 3]) = Some s \<and> c_pc s = CDone \<and> e_sent s = [1, 2, 3]"
proof -
  have "case ofarm_run (example_farm 2 None [1, 2, 3]) ts (example_init 2 None [1, 2, 3]) of None \<Rightarrow> False
    | Some s \<Rightarrow> e_pc s = EDone \<and> c_pc s = CIdle \<and> e_sent s = [1, 2, 3]"
    unfolding ts_def by code_simp
  then show "\<exists>s. ofarm_run (example_farm 2 None [1, 2, 3]) ts (example_init 2 None [1, 2, 3]) = Some s \<and> e_pc s = EDone \<and> c_pc s = CIdle \<and> e_sent s = [1, 2, 3]"
    by (auto split: option.splits)
  have "case ofarm_run (example_farm 2 None [1, 2, 3]) (ts @ replicate 9 Collector) (example_init 2 None [1, 2, 3]) of None \<Rightarrow> False
    | Some s \<Rightarrow> c_pc s = CDone \<and> e_sent s = [1, 2, 3]"
    unfolding ts_def by code_simp
  then show "\<exists>s. ofarm_run (example_farm 2 None [1, 2, 3]) (ts @ replicate 9 Collector) (example_init 2 None [1, 2, 3]) = Some s \<and> c_pc s = CDone \<and> e_sent s = [1, 2, 3]"
    by (auto split: option.splits)
qed

theorem ofarm_in_order_witness:
  "\<exists>ts s. ofarm_run (example_farm 2 None [1, 2, 3]) ts (example_init 2 None [1, 2, 3]) = Some s \<and> c_got s = [Obj 1, Obj 2, Obj 3]"
proof -
  obtain ts s where s: "ofarm_run (example_farm 2 None [1, 2, 3]) ts (example_init 2 None [1, 2, 3]) = Some s" "c_pc s = CDone" "e_sent s = [1, 2, 3]"
    using example_run(2) by blast
  have "c_got s = seq_farm (example_farm 2 None [1, 2, 3]) (\<lambda>_. ()) (e_sent s)"
    using ofarm_in_order [OF example_ok(1) example_ok(2,3) s(1) [unfolded example_init_def]] s(2) by simp
  then show ?thesis using s(1,3) example_seq by auto
qed

theorem ofarm_terminates_witness:
  "\<exists>ts s. ofarm_run (example_farm 2 None [1, 2, 3]) ts (example_init 2 None [1, 2, 3]) = Some s \<and>
    (\<nexists>\<sigma>. \<sigma> 0 = s \<and> (\<forall>k. \<exists>t. ofarm_step (example_farm 2 None [1, 2, 3]) t (\<sigma> k) = Some (\<sigma> (Suc k))))"
proof -
  obtain ts s where s: "ofarm_run (example_farm 2 None [1, 2, 3]) ts (example_init 2 None [1, 2, 3]) = Some s" "e_pc s = EDone"
    using example_run(1) by blast
  then show ?thesis using ofarm_terminates [OF example_ok(1) example_ok(2,3) s(1) [unfolded example_init_def] s(2)] by auto
qed

text \<open>
  C38. A worker may return \<open>GO_ON\<close> to send nothing, but an ordered farm then goes wrong. With two
  workers, if the first task has no result the collector waits for the next result of the same
  worker and the others are reordered: 3 before 2. With three workers, if the second task has no
  result the farm never ends: every end mark has been sent, no thread can move, and the collector
  waits for a worker that has ended, because \<open>eosnotify\<close> ignores that its successor has ended too.
\<close>

theorem ofarm_dropped_result:
  "\<exists>ts us s u. ofarm_run (example_farm 2 (Some 1) [1, 2, 3]) ts (example_init 2 (Some 1) [1, 2, 3]) = Some s \<and> c_pc s = CDone \<and> c_out s = [Obj 3, Obj 2, Eos] \<and>
    ofarm_run (example_farm 3 (Some 20) [10, 20, 30]) us (example_init 3 (Some 20) [10, 20, 30]) = Some u \<and>
    (\<forall>t. ofarm_step (example_farm 3 (Some 20) [10, 20, 30]) t u = None) \<and> e_pc u = EDone \<and> c_pc u = CIdle \<and> dead u = [True, True, False] \<and>
    chan_out u 2 = ([Obj 30, Eos], 1)"
proof -
  define ts where "ts = replicate 8 Emitter @ replicate 6 (Worker 0) @ replicate 4 (Worker 1) @ replicate 7 Collector"
  define us where "us = replicate 9 Emitter @ replicate 4 (Worker 0) @ replicate 4 (Worker 1) @ replicate 4 (Worker 2) @ replicate 6 Collector"
  have "case ofarm_run (example_farm 2 (Some 1) [1, 2, 3]) ts (example_init 2 (Some 1) [1, 2, 3]) of None \<Rightarrow> False
    | Some s \<Rightarrow> c_pc s = CDone \<and> c_out s = [Obj 3, Obj 2, Eos]"
    unfolding ts_def by code_simp
  then obtain s where s: "ofarm_run (example_farm 2 (Some 1) [1, 2, 3]) ts (example_init 2 (Some 1) [1, 2, 3]) = Some s"
    "c_pc s = CDone" "c_out s = [Obj 3, Obj 2, Eos]" by (auto split: option.splits)
  have "case ofarm_run (example_farm 3 (Some 20) [10, 20, 30]) us (example_init 3 (Some 20) [10, 20, 30]) of None \<Rightarrow> False
    | Some u \<Rightarrow> e_pc u = EDone \<and> c_pc u = CIdle \<and> dead u = [True, True, False] \<and> chan_out u 2 = ([Obj 30, Eos], 1) \<and>
        gt_victim u = 0 \<and> fst (chan_out u 0) = [Obj 10, Eos] \<and> snd (chan_out u 0) = 2 \<and> list_all (\<lambda>i. w_pc u i = WDone) [0, 1, 2]"
    unfolding us_def by code_simp
  then obtain u where u: "ofarm_run (example_farm 3 (Some 20) [10, 20, 30]) us (example_init 3 (Some 20) [10, 20, 30]) = Some u"
    "e_pc u = EDone" "c_pc u = CIdle" "dead u = [True, True, False]" "chan_out u 2 = ([Obj 30, Eos], 1)"
    "gt_victim u = 0" "fst (chan_out u 0) = [Obj 10, Eos]" "snd (chan_out u 0) = 2" "list_all (\<lambda>i. w_pc u i = WDone) [0, 1, 2]"
    by (auto split: option.splits)
  have "\<forall>t. ofarm_step (example_farm 3 (Some 20) [10, 20, 30]) t u = None"
  proof
    fix t
    have "w_pc u i = WDone" if "i < 3" for i
    proof -
      have "i = 0 \<or> i = 1 \<or> i = 2" using that by auto
      then show ?thesis using u(9) by auto
    qed
    then show "ofarm_step (example_farm 3 (Some 20) [10, 20, 30]) t u = None"
      using u by (cases t) (simp_all add: example_farm_def emitter_step_def worker_step_def collector_step_def get_chan_def)
  qed
  then show ?thesis using s u(1-5) by blast
qed

end
