(* ===== verification/FFSvector.thy ===== *)
theory FFSvector
  imports Prelude
begin

text \<open>
  The dynamic vector of FastFlow (\<open>libs/fastflow/ff/svector.hpp\<close>), on an explicit block of slots,
  and the interface of sequences that grow and shrink at the back, which \<open>squeue.hpp\<close> provides too.
\<close>

subsection \<open>The interface\<close>

text \<open>
  A sequence that grows and shrinks at its back. The operations can fail on a corrupt structure;
  the laws say that they do not, and what they do to the sequence.
\<close>

locale back_sequence =
  fixes push :: "'q \<Rightarrow> 'a \<Rightarrow> err + 'q"
    and pop :: "'q \<Rightarrow> err + 'q"
    and last_elem :: "'q \<Rightarrow> err + 'a"
    and items :: "'q \<Rightarrow> 'a list"
    and invar :: "'q \<Rightarrow> bool"
  assumes push_ok: "invar q \<Longrightarrow> \<exists>q'. push q x = Inr q' \<and> invar q' \<and> items q' = items q @ [x]"
    and pop_ok: "invar q \<Longrightarrow> items q \<noteq> [] \<Longrightarrow> \<exists>q'. pop q = Inr q' \<and> invar q' \<and> items q' = butlast (items q)"
    and last_ok: "invar q \<Longrightarrow> items q \<noteq> [] \<Longrightarrow> last_elem q = Inr (last (items q))"
begin

fun push_all :: "'q \<Rightarrow> 'a list \<Rightarrow> err + 'q" where
  "push_all q [] = Inr q"
| "push_all q (x # xs) = (case push q x of Inl e \<Rightarrow> Inl e | Inr q' \<Rightarrow> push_all q' xs)"

fun pop_all :: "nat \<Rightarrow> 'q \<Rightarrow> err + ('a list \<times> 'q)" where
  "pop_all 0 q = Inr ([], q)"
| "pop_all (Suc n) q = (case last_elem q of Inl e \<Rightarrow> Inl e
     | Inr x \<Rightarrow> (case pop q of Inl e \<Rightarrow> Inl e
       | Inr q' \<Rightarrow> (case pop_all n q' of Inl e \<Rightarrow> Inl e | Inr (xs, q'') \<Rightarrow> Inr (x # xs, q''))))"

lemma push_all_ok: "invar q \<Longrightarrow> \<exists>q'. push_all q xs = Inr q' \<and> invar q' \<and> items q' = items q @ xs"
proof (induction xs arbitrary: q)
  case (Cons x xs)
  obtain q' where "push q x = Inr q'" "invar q'" "items q' = items q @ [x]"
    using push_ok [OF Cons.prems] by blast
  then show ?case using Cons.IH [of q'] by auto
qed simp

lemma pop_all_ok:
  "invar q \<Longrightarrow> items q = ys @ rev xs \<Longrightarrow>
    \<exists>q'. pop_all (length xs) q = Inr (xs, q') \<and> invar q' \<and> items q' = ys"
proof (induction xs arbitrary: q)
  case (Cons x xs)
  obtain q' where "pop q = Inr q'" "invar q'" "items q' = butlast (items q)"
    using pop_ok [OF Cons.prems(1)] Cons.prems(2) by auto
  then show ?case using Cons.IH [of q'] Cons.prems last_ok [OF Cons.prems(1)] by (auto simp: butlast_append)
qed simp

text \<open>Pushing a list and popping as many elements gives the list reversed and the old sequence.\<close>

lemma push_pop_all:
  assumes "invar q" and "push_all q xs = Inr q'"
  shows "\<exists>q''. pop_all (length xs) q' = Inr (rev xs, q'') \<and> items q'' = items q \<and> invar q''"
  using push_all_ok [OF assms(1), of xs] assms(2) pop_all_ok [of q' "items q" "rev xs"] by auto

end

subsection \<open>The vector\<close>

text \<open>
  The block is the list of its slots, \<open>None\<close> for a slot that holds no object; \<open>sv_first\<close> is
  \<open>None\<close> when the pointer is null. Sizes are natural numbers: the one place where \<open>size_t\<close>
  would wrap, a \<open>pop_back\<close> or \<open>back\<close> of an empty vector, addresses a slot outside every block,
  and so do accesses behind the block or through the null pointer.
\<close>

record 'a svector =
  sv_first :: "'a option list option"
  sv_len :: nat
  sv_cap :: nat
  sv_chunk :: nat

definition reserve :: "nat \<Rightarrow> 'a svector \<Rightarrow> 'a svector" where
  "reserve newcapacity v =
     (if newcapacity \<le> sv_cap v then v
      else v\<lparr>sv_first := Some (case sv_first v of None \<Rightarrow> replicate newcapacity None
               | Some b \<Rightarrow> take newcapacity b @ replicate (newcapacity - length b) None),
             sv_cap := newcapacity\<rparr>)"

definition svector_new :: "nat \<Rightarrow> 'a svector" where
  "svector_new chunk = reserve chunk \<lparr>sv_first = None, sv_len = 0, sv_cap = 0, sv_chunk = chunk\<rparr>"

definition sv_read :: "'a svector \<Rightarrow> nat \<Rightarrow> err + 'a" where
  "sv_read v i = (case sv_first v of None \<Rightarrow> Inl BadAccess
     | Some b \<Rightarrow> if i < length b then (case b ! i of None \<Rightarrow> Inl BadAccess | Some x \<Rightarrow> Inr x) else Inl BadAccess)"

definition sv_write :: "nat \<Rightarrow> 'a option \<Rightarrow> 'a svector \<Rightarrow> err + 'a svector" where
  "sv_write i x v = (case sv_first v of None \<Rightarrow> Inl BadAccess
     | Some b \<Rightarrow> if i < length b then Inr (v\<lparr>sv_first := Some (b[i := x])\<rparr>) else Inl BadAccess)"

definition push_back :: "'a svector \<Rightarrow> 'a \<Rightarrow> err + 'a svector" where
  "push_back v elem =
     (let v = (if sv_len v = sv_cap v then reserve (sv_cap v + sv_chunk v) v else v) in
      case sv_write (sv_len v) (Some elem) v of Inl e \<Rightarrow> Inl e
      | Inr v \<Rightarrow> Inr (v\<lparr>sv_len := sv_len v + 1\<rparr>))"

definition pop_back :: "'a svector \<Rightarrow> err + 'a svector" where
  "pop_back v = (if sv_len v = 0 then Inl BadAccess
     else sv_write (sv_len v - 1) None (v\<lparr>sv_len := sv_len v - 1\<rparr>))"

definition sv_back :: "'a svector \<Rightarrow> err + 'a" where
  "sv_back v = (if sv_len v = 0 then Inl BadAccess else sv_read v (sv_len v - 1))"

definition sv_front :: "'a svector \<Rightarrow> err + 'a" where
  "sv_front v = sv_read v 0"

fun push_each :: "'a list \<Rightarrow> 'a svector \<Rightarrow> err + 'a svector" where
  "push_each [] v = Inr v"
| "push_each (x # xs) v = (case push_back v x of Inl e \<Rightarrow> Inl e | Inr v \<Rightarrow> push_each xs v)"

fun pop_to :: "nat \<Rightarrow> 'a svector \<Rightarrow> err + 'a svector" where
  "pop_to 0 v = Inr v"
| "pop_to (Suc k) v = (case pop_back v of Inl e \<Rightarrow> Inl e | Inr v \<Rightarrow> pop_to k v)"

text \<open>The elements of another vector, read through its iterators.\<close>

definition sv_range :: "'a svector \<Rightarrow> nat \<Rightarrow> nat \<Rightarrow> 'a list" where
  "sv_range v i j = (case sv_first v of None \<Rightarrow> [] | Some b \<Rightarrow> map the (take (j - i) (drop i b)))"

definition sv_items :: "'a svector \<Rightarrow> 'a list" where
  "sv_items v = sv_range v 0 (sv_len v)"

definition sv_clear :: "'a svector \<Rightarrow> err + 'a svector" where
  "sv_clear v = pop_to (sv_len v) v"

definition sv_copy :: "'a svector \<Rightarrow> err + 'a svector" where
  "sv_copy v = (let u = \<lparr>sv_first = None, sv_len = 0, sv_cap = 0, sv_chunk = sv_chunk v\<rparr> in
     if sv_len v = 0 then Inr u
     else push_each (sv_items v) (u\<lparr>sv_first := Some (replicate (sv_len v) None)\<rparr>))"

definition SVECTOR_CHUNK :: nat where "SVECTOR_CHUNK = 1024"

definition sv_of_range :: "'a list \<Rightarrow> err + 'a svector" where
  "sv_of_range xs = push_each xs
     \<lparr>sv_first = Some (replicate (length xs) None), sv_len = 0, sv_cap = 0, sv_chunk = SVECTOR_CHUNK\<rparr>"

text \<open>
  Assignment from another vector: the length is reset, the block replaced by one of the exact
  size, and the capacity stays what it was.
\<close>

definition sv_assign :: "'a svector \<Rightarrow> 'a svector \<Rightarrow> err + 'a svector" where
  "sv_assign u v = (let u = u\<lparr>sv_len := 0\<rparr> in
     if sv_len v = 0 then Inr (u\<lparr>sv_first := None\<rparr>)
     else case (if sv_first u = None then Inr u else sv_clear u) of Inl e \<Rightarrow> Inl e
       | Inr u \<Rightarrow> push_each (sv_items v) (u\<lparr>sv_first := Some (replicate (sv_len v) None)\<rparr>))"

definition sv_append :: "'a svector \<Rightarrow> 'a svector \<Rightarrow> err + 'a svector" where
  "sv_append u v = push_each (sv_items v) u"

fun fill_default :: "nat \<Rightarrow> 'a \<Rightarrow> 'a svector \<Rightarrow> err + 'a svector" where
  "fill_default 0 d v = Inr v"
| "fill_default (Suc k) d v = (case sv_write (sv_len v) (Some d) v of Inl e \<Rightarrow> Inl e
     | Inr v \<Rightarrow> fill_default k d (v\<lparr>sv_len := sv_len v + 1\<rparr>))"

text \<open>\<open>d\<close> is the value of the default constructor of the element type.\<close>

definition sv_resize :: "'a \<Rightarrow> nat \<Rightarrow> 'a svector \<Rightarrow> err + 'a svector" where
  "sv_resize d newsize v =
     (if newsize \<le> sv_len v then pop_to (sv_len v - newsize) v
      else let v = reserve newsize v in fill_default (newsize - sv_len v) d v)"

text \<open>
  \<open>erase\<close>: a search for the position among those of the elements, then a loop that moves the
  rest down. The loop ends when its leading iterator meets the old end; started one behind it, it
  runs out of the block.
\<close>

function shift_down :: "nat \<Rightarrow> nat \<Rightarrow> 'a option list \<Rightarrow> err + 'a option list" where
  "shift_down i3 i2 b =
     (if i3 + 1 = i2 then Inr b
      else if i3 + 1 < length b then shift_down (i3 + 1) i2 (b[i3 := b ! (i3 + 1)])
      else Inl BadAccess)"
  by auto
termination by (relation "measure (\<lambda>(i3, i2, b). length b - i3)") auto

declare shift_down.simps [simp del]

definition sv_erase :: "nat \<Rightarrow> 'a svector \<Rightarrow> err + 'a svector" where
  "sv_erase pos v =
     (case sv_first v of None \<Rightarrow> Inl BadAccess
      | Some b \<Rightarrow>
        let i2 = sv_len v; i1 = min pos i2 in
        (case shift_down i1 i2 b of Inl e \<Rightarrow> Inl e
         | Inr b \<Rightarrow> Inr (v\<lparr>sv_first := Some b, sv_len := (if pos < i2 then sv_len v - 1 else sv_len v)\<rparr>)))"

definition sv_ref :: "nat \<Rightarrow> 'a svector \<Rightarrow> (err + 'a) \<times> 'a svector" where
  "sv_ref n v = (let v = reserve (n + 1) v in (sv_read v n, v))"

definition sv_empty :: "'a svector \<Rightarrow> bool" where
  "sv_empty v \<longleftrightarrow> sv_len v = 0"


subsection \<open>Correctness\<close>

text \<open>
  In a vector the block has the size of the capacity and the first \<open>sv_len\<close> slots hold objects.
  While an assignment fills the new block, that one may be larger than the capacity.
\<close>

definition sv_block :: "'a svector \<Rightarrow> 'a option list" where
  "sv_block v = (case sv_first v of None \<Rightarrow> [] | Some b \<Rightarrow> b)"

definition holds :: "'a svector \<Rightarrow> 'a list \<Rightarrow> bool" where
  "holds v xs \<longleftrightarrow> length xs = sv_len v \<and> take (sv_len v) (sv_block v) = map Some xs"

definition sv_weak :: "'a svector \<Rightarrow> bool" where
  "sv_weak v \<longleftrightarrow> 0 < sv_chunk v \<and> sv_len v \<le> sv_cap v \<and> sv_cap v \<le> length (sv_block v) \<and> holds v (sv_items v)"

definition sv_inv :: "'a svector \<Rightarrow> bool" where
  "sv_inv v \<longleftrightarrow> sv_weak v \<and> length (sv_block v) = sv_cap v"

lemma holds_items: "holds v xs \<Longrightarrow> sv_items v = xs"
  by (auto simp: holds_def sv_block_def sv_items_def sv_range_def split: option.splits)

lemma sv_weakI:
  "holds v xs \<Longrightarrow> 0 < sv_chunk v \<Longrightarrow> sv_len v \<le> sv_cap v \<Longrightarrow> sv_cap v \<le> length (sv_block v) \<Longrightarrow> sv_weak v"
  using holds_items [of v xs] by (auto simp: sv_weak_def)

lemma length_sv_items: "sv_weak v \<Longrightarrow> length (sv_items v) = sv_len v"
  by (simp add: sv_weak_def holds_def)

lemma sv_write_ok: "i < length (sv_block v) \<Longrightarrow> sv_write i x v = Inr (v\<lparr>sv_first := Some ((sv_block v)[i := x])\<rparr>)"
  by (auto simp: sv_write_def sv_block_def split: option.splits)

lemma sv_write_bad: "length (sv_block v) \<le> i \<Longrightarrow> sv_write i x v = Inl BadAccess"
  by (auto simp: sv_write_def sv_block_def split: option.splits)

lemma holds_write:
  assumes "holds v xs" and "sv_len v < length (sv_block v)"
  shows "holds (v\<lparr>sv_first := Some ((sv_block v)[sv_len v := Some x]), sv_len := Suc (sv_len v)\<rparr>) (xs @ [x])"
  using assms by (simp add: holds_def sv_block_def take_Suc_conv_app_nth)

lemma reserve_block:
  assumes "sv_cap v < n"
  shows "sv_block (reserve n v) = take n (sv_block v) @ replicate (n - length (sv_block v)) None"
    and "sv_cap (reserve n v) = n" "sv_len (reserve n v) = sv_len v" "sv_chunk (reserve n v) = sv_chunk v"
  using assms by (auto simp: reserve_def sv_block_def split: option.splits)

lemma reserve_weak:
  assumes w: "sv_weak v" and n: "sv_cap v < n"
  shows "sv_inv (reserve n v) \<and> sv_items (reserve n v) = sv_items v"
proof -
  have h: "holds (reserve n v) (sv_items v)"
    using w n reserve_block [OF n] by (simp add: holds_def sv_weak_def min_def)
  then have "sv_weak (reserve n v)"
    by (rule sv_weakI) (use w n reserve_block [OF n] in \<open>simp_all add: sv_weak_def\<close>)
  then show ?thesis using holds_items [OF h] reserve_block [OF n] by (simp add: sv_inv_def)
qed

lemma reserve_ok:
  assumes "sv_inv v"
  shows "sv_inv (reserve n v) \<and> sv_items (reserve n v) = sv_items v \<and> n \<le> sv_cap (reserve n v) \<and>
    sv_len (reserve n v) = sv_len v"
proof (cases "n \<le> sv_cap v")
  case False
  then show ?thesis using reserve_weak [of v n] reserve_block [of v n] assms by (simp add: sv_inv_def)
qed (use assms in \<open>simp add: reserve_def\<close>)

text \<open>A store behind the last element, with room in the block.\<close>

lemma push_store:
  assumes "holds v xs" and "sv_len v < sv_cap v" and "sv_len v < length (sv_block v)"
  shows "\<exists>u. push_back v x = Inr u \<and> holds u (xs @ [x]) \<and> sv_len u = Suc (sv_len v) \<and> sv_cap u = sv_cap v \<and>
    sv_chunk u = sv_chunk v \<and> length (sv_block u) = length (sv_block v)"
  using assms holds_write [OF assms(1,3), of x] by (simp add: push_back_def sv_write_ok) (simp add: sv_block_def)

lemma push_back_weak:
  assumes w: "sv_weak v"
  shows "\<exists>u. push_back v x = Inr u \<and> sv_weak u \<and> sv_items u = sv_items v @ [x] \<and> sv_len u = Suc (sv_len v) \<and>
    (if sv_len v < sv_cap v then sv_cap u = sv_cap v \<and> length (sv_block u) = length (sv_block v) else sv_inv u)"
proof (cases "sv_len v < sv_cap v")
  case True
  then obtain u where "push_back v x = Inr u" "holds u (sv_items v @ [x])" "sv_len u = Suc (sv_len v)"
    "sv_cap u = sv_cap v" "sv_chunk u = sv_chunk v" "length (sv_block u) = length (sv_block v)"
    using push_store [of v "sv_items v" x] w by (auto simp: sv_weak_def)
  then show ?thesis using w True holds_items sv_weakI [of u "sv_items v @ [x]"] by (auto simp: sv_weak_def)
next
  case False
  define r where "r = reserve (sv_cap v + sv_chunk v) v"
  have n: "sv_cap v < sv_cap v + sv_chunk v" "sv_len v = sv_cap v" using w False by (simp_all add: sv_weak_def)
  have r: "sv_inv r" "sv_items r = sv_items v" "sv_len r < sv_cap r" "sv_len r = sv_len v"
    using reserve_weak [OF w n(1)] reserve_block [OF n(1)] n by (simp_all add: r_def)
  then obtain u where u: "push_back r x = Inr u" "holds u (sv_items v @ [x])" "sv_len u = Suc (sv_len v)"
    "sv_cap u = sv_cap r" "sv_chunk u = sv_chunk r" "length (sv_block u) = length (sv_block r)"
    using push_store [of r "sv_items v" x] by (auto simp: sv_inv_def sv_weak_def)
  moreover have "push_back v x = push_back r x"
    using r(3,4) n(2) by (simp add: push_back_def r_def [symmetric])
  moreover have "sv_inv u"
    using u r holds_items [OF u(2)] sv_weakI [OF u(2)] by (simp add: sv_inv_def sv_weak_def)
  ultimately show ?thesis using False holds_items [OF u(2)] by (simp add: sv_inv_def)
qed

lemma pop_back_ok:
  assumes inv: "sv_inv v" and ne: "sv_items v \<noteq> []"
  shows "\<exists>u. pop_back v = Inr u \<and> sv_inv u \<and> sv_items u = butlast (sv_items v) \<and> Suc (sv_len u) = sv_len v"
proof -
  have len: "0 < sv_len v" using length_sv_items [of v] inv ne by (cases "sv_items v") (auto simp: sv_inv_def)
  let ?u = "v\<lparr>sv_first := Some ((sv_block v)[sv_len v - 1 := None]), sv_len := sv_len v - 1\<rparr>"
  have "pop_back v = Inr ?u"
  proof -
    have "sv_len v - 1 < length (sv_block v)" using len inv by (simp add: sv_inv_def sv_weak_def less_diff_conv2 less_Suc_eq_le)
    then show ?thesis
      using len sv_write_ok [of "sv_len v - 1" "v\<lparr>sv_len := sv_len v - 1\<rparr>" None]
      by (simp add: pop_back_def sv_block_def)
  qed
  moreover have h: "holds ?u (butlast (sv_items v))"
  proof -
    have "take (sv_len v) (sv_block v) = map Some (sv_items v)" "sv_len v \<le> length (sv_block v)"
      "length (sv_items v) = sv_len v"
      using inv by (simp_all add: sv_inv_def sv_weak_def holds_def)
    then have "take (sv_len v - 1) (sv_block v) = map Some (butlast (sv_items v))"
      by (metis butlast_take map_butlast)
    moreover have "sv_block ?u = (sv_block v)[sv_len v - 1 := None]" by (simp add: sv_block_def)
    ultimately show ?thesis using \<open>length (sv_items v) = sv_len v\<close> by (simp add: holds_def)
  qed
  moreover have "sv_inv ?u"
  proof -
    have "sv_block ?u = (sv_block v)[sv_len v - 1 := None]" by (simp add: sv_block_def)
    moreover have "sv_len v - 1 \<le> sv_cap v" "length (sv_block v) = sv_cap v" "0 < sv_chunk v"
      using inv unfolding sv_inv_def sv_weak_def by linarith+
    ultimately show ?thesis using sv_weakI [OF h] by (simp add: sv_inv_def)
  qed
  ultimately show ?thesis using holds_items [OF h] len by auto
qed

lemma sv_read_ok:
  assumes inv: "sv_weak v" and i: "i < sv_len v"
  shows "sv_read v i = Inr (sv_items v ! i)"
proof -
  have "take (sv_len v) (sv_block v) ! i = Some (sv_items v ! i)" "i < length (sv_block v)"
    using inv i by (simp_all add: sv_weak_def holds_def)
  then show ?thesis using i by (auto simp: sv_read_def sv_block_def split: option.splits)
qed

interpretation sv: back_sequence push_back pop_back sv_back sv_items sv_inv
proof unfold_locales
  fix v :: "'a svector" and x
  assume inv: "sv_inv v"
  show "\<exists>u. push_back v x = Inr u \<and> sv_inv u \<and> sv_items u = sv_items v @ [x]"
    using push_back_weak [of v x] inv by (auto simp: sv_inv_def split: if_splits)
  assume ne: "sv_items v \<noteq> []"
  show "\<exists>u. pop_back v = Inr u \<and> sv_inv u \<and> sv_items u = butlast (sv_items v)"
    using pop_back_ok [OF inv ne] by blast
  have "length (sv_items v) = sv_len v" using inv length_sv_items by (auto simp: sv_inv_def)
  moreover from this ne have "0 < sv_len v" by (metis length_greater_0_conv)
  ultimately show "sv_back v = Inr (last (sv_items v))"
    using ne sv_read_ok [of v "sv_len v - 1"] inv by (simp add: sv_back_def last_conv_nth sv_inv_def)
qed


subsection \<open>The loops\<close>

lemma push_each_eq: "push_each xs v = sv.push_all v xs"
  by (induction xs arbitrary: v) (auto split: sum.splits)

lemma push_each_weak:
  "sv_weak v \<Longrightarrow> \<exists>u. push_each xs v = Inr u \<and> sv_weak u \<and> sv_items u = sv_items v @ xs \<and>
    (if sv_len v + length xs \<le> sv_cap v
     then sv_cap u = sv_cap v \<and> length (sv_block u) = length (sv_block v) else sv_inv u)"
proof (induction xs arbitrary: v)
  case (Cons x xs)
  obtain u where u: "push_back v x = Inr u" "sv_weak u" "sv_items u = sv_items v @ [x]" "sv_len u = Suc (sv_len v)"
    "if sv_len v < sv_cap v then sv_cap u = sv_cap v \<and> length (sv_block u) = length (sv_block v) else sv_inv u"
    using push_back_weak [OF Cons.prems, of x] by blast
  obtain w where w: "push_each xs u = Inr w" "sv_weak w" "sv_items w = sv_items u @ xs"
    "if sv_len u + length xs \<le> sv_cap u
     then sv_cap w = sv_cap u \<and> length (sv_block w) = length (sv_block u) else sv_inv w"
    using Cons.IH [OF u(2)] by blast
  have "sv_len v \<le> sv_cap v" using Cons.prems by (simp add: sv_weak_def)
  then show ?case using u w by (auto simp: sv_inv_def split: if_splits)
qed (simp add: sv_weak_def)

lemma push_each_room:
  "holds v ys \<Longrightarrow> sv_len v + length xs \<le> sv_cap v \<Longrightarrow> sv_len v + length xs \<le> length (sv_block v) \<Longrightarrow>
    \<exists>u. push_each xs v = Inr u \<and> holds u (ys @ xs) \<and> sv_len u = sv_len v + length xs \<and> sv_cap u = sv_cap v \<and>
      sv_chunk u = sv_chunk v \<and> length (sv_block u) = length (sv_block v)"
proof (induction xs arbitrary: v ys)
  case (Cons x xs)
  obtain u where "push_back v x = Inr u" "holds u (ys @ [x])" "sv_len u = Suc (sv_len v)" "sv_cap u = sv_cap v"
    "sv_chunk u = sv_chunk v" "length (sv_block u) = length (sv_block v)"
    using push_store [of v ys x] Cons.prems by auto
  then show ?case using Cons.IH [of u "ys @ [x]"] Cons.prems by auto
qed simp

lemma pop_to_ok:
  "sv_inv v \<Longrightarrow> k \<le> length (sv_items v) \<Longrightarrow>
    \<exists>u. pop_to k v = Inr u \<and> sv_inv u \<and> sv_items u = take (length (sv_items v) - k) (sv_items v)"
proof (induction k arbitrary: v)
  case (Suc k)
  then obtain u where "pop_back v = Inr u" "sv_inv u" "sv_items u = butlast (sv_items v)"
    using pop_back_ok [OF Suc.prems(1)] by fastforce
  moreover from this Suc.prems(2) have "k \<le> length (sv_items u)" by (simp add: le_diff_conv2)
  ultimately obtain w where "pop_back v = Inr u" "pop_to k u = Inr w" "sv_inv w"
    "sv_items w = take (length (sv_items u) - k) (sv_items u)" "sv_items u = butlast (sv_items v)" using Suc.IH [of u] by auto
  then show ?case using Suc.prems(2) by (simp add: butlast_conv_take take_take min_def)
qed simp

lemma pop_to_cap: "pop_to k v = Inr u \<Longrightarrow> sv_cap u = sv_cap v \<and> sv_chunk u = sv_chunk v"
proof (induction k arbitrary: v)
  case (Suc k)
  then show ?case
    by (fastforce simp: pop_back_def sv_write_def split: sum.splits if_splits option.splits)
qed simp

lemma sv_clear_ok:
  assumes "sv_inv v"
  shows "\<exists>u. sv_clear v = Inr u \<and> sv_inv u \<and> sv_items u = [] \<and> sv_cap u = sv_cap v \<and> sv_chunk u = sv_chunk v"
proof -
  have "length (sv_items v) = sv_len v" using assms length_sv_items by (auto simp: sv_inv_def)
  then show ?thesis using pop_to_ok [OF assms, of "sv_len v"] pop_to_cap by (auto simp: sv_clear_def)
qed

text \<open>A fresh block for \<open>n\<close> objects.\<close>

lemma holds_fresh: "holds (v\<lparr>sv_len := 0, sv_first := Some b\<rparr>) []"
  by (simp add: holds_def)

lemma sv_copy_ok:
  assumes inv: "sv_inv v"
  shows "\<exists>u. sv_copy v = Inr u \<and> sv_inv u \<and> sv_items u = sv_items v"
proof -
  let ?u = "\<lparr>sv_first = Some (replicate (sv_len v) None), sv_len = 0, sv_cap = 0, sv_chunk = sv_chunk v\<rparr> :: 'a svector"
  let ?e = "\<lparr>sv_first = None, sv_len = 0, sv_cap = 0, sv_chunk = sv_chunk v\<rparr> :: 'a svector"
  have c: "0 < sv_chunk v" "length (sv_items v) = sv_len v"
    using inv length_sv_items by (auto simp: sv_inv_def sv_weak_def)
  have u: "sv_weak ?u" "sv_items ?u = []"
    using c by (simp_all add: sv_weak_def holds_def sv_items_def sv_range_def)
  have e: "sv_inv ?e" "sv_items ?e = []"
    using c by (simp_all add: sv_inv_def sv_weak_def holds_def sv_items_def sv_range_def sv_block_def)
  show ?thesis
  proof (cases "sv_len v = 0")
    case True
    then show ?thesis using e c(2) by (auto simp: sv_copy_def Let_def)
  next
    case False
    then show ?thesis using push_each_weak [OF u(1), of "sv_items v"] u(2) c(2)
      by (auto simp: sv_copy_def Let_def)
  qed
qed

text \<open>
  Assignment: the elements are those of the source, but the result is a vector again only when
  the source is at least as long as the capacity of the target.
\<close>

lemma sv_assign_ok:
  assumes u: "sv_inv u" and v: "sv_inv v"
  shows "\<exists>w. sv_assign u v = Inr w \<and> sv_items w = sv_items v \<and>
    (if sv_len v < sv_cap u then push_back w x = Inl BadAccess else sv_inv w)"
proof (cases "sv_len v = 0")
  case True
  let ?w = "u\<lparr>sv_len := 0, sv_first := None\<rparr>"
  have "sv_items v = []" using length_sv_items [of v] v True by (simp add: sv_inv_def)
  moreover have "sv_items ?w = []" by (simp add: sv_items_def sv_range_def)
  moreover have "push_back ?w x = Inl BadAccess" if "0 < sv_cap u"
    using that by (simp add: push_back_def sv_write_def)
  moreover have "sv_inv ?w" if "sv_cap u = 0"
    using that u by (simp add: sv_inv_def sv_weak_def holds_def sv_items_def sv_range_def sv_block_def)
  ultimately show ?thesis using True by (simp add: sv_assign_def Let_def)
next
  case False
  have n: "length (sv_items v) = sv_len v" using v length_sv_items by (auto simp: sv_inv_def)
  let ?u0 = "u\<lparr>sv_len := 0\<rparr>"
  have c: "(if sv_first ?u0 = None then Inr ?u0 else sv_clear ?u0) = Inr ?u0" by (simp add: sv_clear_def)
  define t where "t = ?u0\<lparr>sv_first := Some (replicate (sv_len v) None)\<rparr>"
  have t: "sv_assign u v = push_each (sv_items v) t" using False c by (simp add: sv_assign_def t_def)
  have tf: "holds t []" "sv_len t = 0" "sv_cap t = sv_cap u" "sv_chunk t = sv_chunk u" "length (sv_block t) = sv_len v"
    by (simp_all add: t_def holds_def sv_block_def)
  have chunk: "0 < sv_chunk u" using u by (simp add: sv_inv_def sv_weak_def)
  show ?thesis
  proof (cases "sv_len v < sv_cap u")
    case True
    then obtain w where w: "push_each (sv_items v) t = Inr w" "holds w (sv_items v)" "sv_len w = sv_len v"
      "sv_cap w = sv_cap u" "length (sv_block w) = sv_len v"
      using push_each_room [OF tf(1), of "sv_items v"] tf n by auto
    then have "push_back w x = Inl BadAccess" using True by (simp add: push_back_def sv_write_bad)
    then show ?thesis using True t w holds_items [OF w(2)] by simp
  next
    case room: False
    have "sv_weak t" using sv_weakI [OF tf(1)] tf chunk room by simp
    then obtain w where w: "push_each (sv_items v) t = Inr w" "sv_weak w" "sv_items w = sv_items t @ sv_items v"
      "if sv_len v \<le> sv_cap u then sv_cap w = sv_cap u \<and> length (sv_block w) = sv_len v else sv_inv w"
      using push_each_weak [of t "sv_items v"] tf n by auto
    then have "sv_inv w" using room by (auto simp: sv_inv_def split: if_splits)
    then show ?thesis using room t w holds_items [OF tf(1)] by simp
  qed
qed


lemma shift_down_ok:
  "i3 < i2 \<Longrightarrow> i2 \<le> length b \<Longrightarrow>
    shift_down i3 i2 b = Inr (take i3 b @ drop (Suc i3) (take i2 b) @ drop (i2 - 1) b)"
proof (induction "i2 - i3" arbitrary: i3 b)
  case (Suc k)
  show ?case
  proof (cases "i3 + 1 = i2")
    case True
    then show ?thesis using Suc.prems by (subst shift_down.simps) auto
  next
    case False
    then have i: "i3 + 1 < length b" "Suc i3 < i2" using Suc.prems by simp_all
    let ?b = "b[i3 := b ! (i3 + 1)]"
    have "shift_down i3 i2 b = shift_down (Suc i3) i2 ?b"
      using False i by (subst shift_down.simps) simp
    also have "\<dots> = Inr (take (Suc i3) ?b @ drop (Suc (Suc i3)) (take i2 ?b) @ drop (i2 - 1) ?b)"
      using Suc.hyps(1) [of "Suc i3" ?b] Suc.hyps(2) Suc.prems i by simp
    also have "take (Suc i3) ?b = take i3 b @ [b ! Suc i3]"
      using i by (simp add: take_Suc_conv_app_nth)
    also have "drop (Suc (Suc i3)) (take i2 ?b) = drop (Suc (Suc i3)) (take i2 b)"
      using i by (simp add: drop_take drop_update_cancel)
    also have "drop (i2 - 1) ?b = drop (i2 - 1) b"
      using i by (simp add: drop_update_cancel)
    also have "(take i3 b @ [b ! Suc i3]) @ drop (Suc (Suc i3)) (take i2 b) @ drop (i2 - 1) b =
        take i3 b @ (take i2 b ! Suc i3 # drop (Suc (Suc i3)) (take i2 b)) @ drop (i2 - 1) b"
      using i by simp
    also have "take i2 b ! Suc i3 # drop (Suc (Suc i3)) (take i2 b) = drop (Suc i3) (take i2 b)"
      using i Suc.prems by (intro Cons_nth_drop_Suc) simp
    finally show ?thesis .
  qed
qed simp

text \<open>Past the old end the loop never stops before it leaves the block.\<close>

lemma shift_down_runs_out: "i2 \<le> i3 \<Longrightarrow> shift_down i3 i2 b = Inl BadAccess"
proof (induction "length b - i3" arbitrary: i3 b)
  case 0
  then show ?case by (subst shift_down.simps) simp
next
  case (Suc k)
  show ?case
  proof (cases "i3 + 1 < length b")
    case True
    have "shift_down (i3 + 1) i2 (b[i3 := b ! (i3 + 1)]) = Inl BadAccess"
      using Suc.hyps(1) [of "b[i3 := b ! (i3 + 1)]" "i3 + 1"] Suc.hyps(2) Suc.prems by simp
    then show ?thesis using True Suc.prems by (subst shift_down.simps) simp
  next
    case False
    then show ?thesis using Suc.prems by (subst shift_down.simps) simp
  qed
qed

lemma sv_erase_ok:
  assumes inv: "sv_inv v" and ne: "sv_first v \<noteq> None"
  shows "if pos < sv_len v
    then \<exists>u. sv_erase pos v = Inr u \<and> sv_inv u \<and> sv_items u = take pos (sv_items v) @ drop (Suc pos) (sv_items v)
    else sv_erase pos v = Inl BadAccess"
proof (cases "pos < sv_len v")
  case True
  obtain b where b: "sv_first v = Some b" using ne by blast
  have v: "length b = sv_cap v" "sv_len v \<le> sv_cap v" "0 < sv_chunk v" "take (sv_len v) b = map Some (sv_items v)"
    using inv b by (simp_all add: sv_inv_def sv_weak_def sv_block_def holds_def)
  define c where "c = take pos b @ drop (Suc pos) (take (sv_len v) b) @ drop (sv_len v - 1) b"
  let ?u = "v\<lparr>sv_first := Some c, sv_len := sv_len v - 1\<rparr>"
  have e: "sv_erase pos v = Inr ?u"
    using True b v shift_down_ok [of pos "sv_len v" b] by (simp add: sv_erase_def Let_def min_def c_def)
  have n: "length (sv_items v) = sv_len v" using inv length_sv_items by (auto simp: sv_inv_def)
  have "take pos b = map Some (take pos (sv_items v))"
    using True v(4) by (metis min.absorb1 less_imp_le take_map take_take)
  moreover have "drop (Suc pos) (take (sv_len v) b) = map Some (drop (Suc pos) (sv_items v))"
    by (simp add: v(4) drop_map)
  ultimately have c: "c = map Some (take pos (sv_items v) @ drop (Suc pos) (sv_items v)) @ drop (sv_len v - 1) b"
    by (simp add: c_def)
  have h: "holds ?u (take pos (sv_items v) @ drop (Suc pos) (sv_items v))"
    using True n by (simp add: holds_def sv_block_def c)
  have "length c = sv_cap v" using True n v by (simp add: c)
  moreover have "sv_len v - 1 \<le> sv_cap v" using v(2) by linarith
  ultimately have "sv_inv ?u" using sv_weakI [OF h] v(3) by (simp add: sv_inv_def sv_block_def)
  then show ?thesis using True e holds_items [OF h] by simp
next
  case False
  then show ?thesis using ne by (auto simp: sv_erase_def Let_def min_def shift_down_runs_out)
qed

lemma fill_default_ok:
  "sv_inv v \<Longrightarrow> sv_len v + k \<le> sv_cap v \<Longrightarrow>
    \<exists>u. fill_default k d v = Inr u \<and> sv_inv u \<and> sv_items u = sv_items v @ replicate k d"
proof (induction k arbitrary: v)
  case (Suc k)
  then have h: "holds v (sv_items v)" "sv_len v < length (sv_block v)" by (simp_all add: sv_inv_def sv_weak_def)
  let ?u = "v\<lparr>sv_first := Some ((sv_block v)[sv_len v := Some d]), sv_len := Suc (sv_len v)\<rparr>"
  have u: "holds ?u (sv_items v @ [d])" by (rule holds_write [OF h])
  have "sv_inv ?u"
    using sv_weakI [OF u] Suc.prems by (simp add: sv_inv_def sv_weak_def) (simp add: sv_block_def)
  then obtain w where "fill_default k d ?u = Inr w" "sv_inv w" "sv_items w = sv_items ?u @ replicate k d"
    using Suc.IH [of ?u] Suc.prems by auto
  then show ?case using holds_items [OF u] sv_write_ok [OF h(2), of "Some d"] by (simp add: replicate_app_Cons_same)
qed simp

lemma sv_resize_ok:
  assumes inv: "sv_inv v"
  shows "\<exists>u. sv_resize d n v = Inr u \<and> sv_inv u \<and>
    sv_items u = (if n \<le> length (sv_items v) then take n (sv_items v)
      else sv_items v @ replicate (n - length (sv_items v)) d)"
proof -
  have len: "length (sv_items v) = sv_len v" using inv length_sv_items by (auto simp: sv_inv_def)
  show ?thesis
  proof (cases "n \<le> sv_len v")
    case True
    then show ?thesis using pop_to_ok [OF inv, of "sv_len v - n"] len by (auto simp: sv_resize_def)
  next
    case False
    let ?v = "reserve n v"
    have r: "sv_inv ?v" "sv_items ?v = sv_items v" "n \<le> sv_cap ?v" "sv_len ?v = sv_len v"
      using reserve_ok [OF inv, of n] by auto
    then show ?thesis using fill_default_ok [OF r(1), of "n - sv_len v" d] False len
      by (auto simp: sv_resize_def Let_def)
  qed
qed


subsection \<open>Runs of operations\<close>

datatype 'a sv_op = OpPush 'a | OpPop | OpErase nat | OpResize nat | OpReserve nat | OpAppend "'a svector" | OpClear

fun sv_do :: "'a \<Rightarrow> 'a sv_op \<Rightarrow> 'a svector \<Rightarrow> err + 'a svector" where
  "sv_do d (OpPush x) v = push_back v x"
| "sv_do d OpPop v = pop_back v"
| "sv_do d (OpErase i) v = sv_erase i v"
| "sv_do d (OpResize n) v = sv_resize d n v"
| "sv_do d (OpReserve n) v = Inr (reserve n v)"
| "sv_do d (OpAppend u) v = sv_append v u"
| "sv_do d OpClear v = sv_clear v"

fun sv_run :: "'a \<Rightarrow> 'a sv_op list \<Rightarrow> 'a svector \<Rightarrow> err + 'a svector" where
  "sv_run d [] v = Inr v"
| "sv_run d (p # ps) v = (case sv_do d p v of Inl e \<Rightarrow> Inl e | Inr v \<Rightarrow> sv_run d ps v)"

text \<open>The same operations on lists; \<open>None\<close> for a call outside its precondition.\<close>

fun list_do :: "'a \<Rightarrow> 'a sv_op \<Rightarrow> 'a list \<Rightarrow> 'a list option" where
  "list_do d (OpPush x) xs = Some (xs @ [x])"
| "list_do d OpPop xs = (if xs = [] then None else Some (butlast xs))"
| "list_do d (OpErase i) xs = (if i < length xs then Some (take i xs @ drop (Suc i) xs) else None)"
| "list_do d (OpResize n) xs = Some (if n \<le> length xs then take n xs else xs @ replicate (n - length xs) d)"
| "list_do d (OpReserve n) xs = Some xs"
| "list_do d (OpAppend u) xs = Some (xs @ sv_items u)"
| "list_do d OpClear xs = Some []"

fun list_run :: "'a \<Rightarrow> 'a sv_op list \<Rightarrow> 'a list \<Rightarrow> 'a list option" where
  "list_run d [] xs = Some xs"
| "list_run d (p # ps) xs = (case list_do d p xs of None \<Rightarrow> None | Some xs \<Rightarrow> list_run d ps xs)"

definition sv_live :: "'a svector \<Rightarrow> bool" where
  "sv_live v \<longleftrightarrow> sv_inv v \<and> 0 < sv_cap v"

lemma sv_live_first: "sv_live v \<Longrightarrow> sv_first v \<noteq> None"
  by (auto simp: sv_live_def sv_inv_def sv_block_def split: option.splits)

lemma sv_write_cap: "sv_write i x v = Inr u \<Longrightarrow> sv_cap u = sv_cap v"
  by (auto simp: sv_write_def split: option.splits if_splits)

lemma reserve_cap: "sv_cap v \<le> sv_cap (reserve n v)"
  by (simp add: reserve_def)

lemma push_back_cap: "push_back v x = Inr u \<Longrightarrow> sv_cap v \<le> sv_cap u"
  using reserve_cap [of v "sv_cap v + sv_chunk v"]
  by (auto simp: push_back_def Let_def dest!: sv_write_cap split: sum.splits if_splits)

lemma push_each_cap: "push_each xs v = Inr u \<Longrightarrow> sv_cap v \<le> sv_cap u"
proof (induction xs arbitrary: v)
  case (Cons x xs)
  then obtain w where "push_back v x = Inr w" "push_each xs w = Inr u" by (auto split: sum.splits)
  then show ?case using Cons.IH [of w] push_back_cap [of v x w] by simp
qed simp

lemma fill_default_cap: "fill_default k d v = Inr u \<Longrightarrow> sv_cap u = sv_cap v"
proof (induction k arbitrary: v)
  case (Suc k)
  then obtain w where "sv_write (sv_len v) (Some d) v = Inr w" "fill_default k d (w\<lparr>sv_len := sv_len w + 1\<rparr>) = Inr u"
    by (auto split: sum.splits)
  then show ?case using Suc.IH sv_write_cap by fastforce
qed simp

lemma sv_do_cap: "sv_do d p v = Inr u \<Longrightarrow> sv_cap v \<le> sv_cap u"
proof (cases p)
  case OpPop
  assume "sv_do d p v = Inr u"
  then show ?thesis using OpPop sv_write_cap by (fastforce simp: pop_back_def split: if_splits)
next
  case (OpErase i)
  assume "sv_do d p v = Inr u"
  then show ?thesis using OpErase by (auto simp: sv_erase_def Let_def split: option.splits sum.splits)
next
  case (OpResize n)
  assume "sv_do d p v = Inr u"
  then show ?thesis using OpResize reserve_cap [of v n] pop_to_cap fill_default_cap
    by (fastforce simp: sv_resize_def Let_def split: if_splits)
qed (auto simp: push_back_cap reserve_cap sv_append_def sv_clear_def dest: push_each_cap pop_to_cap)

lemma sv_do_ok:
  assumes "sv_live v"
  shows "case list_do d p (sv_items v) of None \<Rightarrow> sv_do d p v = Inl BadAccess
    | Some xs \<Rightarrow> (\<exists>u. sv_do d p v = Inr u \<and> sv_live u \<and> sv_items u = xs)"
proof -
  have inv: "sv_inv v" and ne: "sv_first v \<noteq> None" and cap: "0 < sv_cap v"
    using assms sv_live_first [OF assms] by (auto simp: sv_live_def)
  have len: "length (sv_items v) = sv_len v" using inv length_sv_items by (auto simp: sv_inv_def)
  have live: "\<exists>u. sv_do d p v = Inr u \<and> sv_live u \<and> sv_items u = ys"
    if "\<exists>u. sv_do d p v = Inr u \<and> sv_inv u \<and> sv_items u = ys" for ys
    using that cap sv_do_cap [of d p v] by (fastforce simp: sv_live_def)
  show ?thesis
  proof (cases p)
    case (OpPush x)
    then show ?thesis using live sv.push_ok [OF inv, of x] by simp
  next
    case OpPop
    have "sv_items v = [] \<longleftrightarrow> sv_len v = 0" using len by (metis length_0_conv)
    then show ?thesis using OpPop live [of "butlast (sv_items v)"] sv.pop_ok [OF inv]
      by (cases "sv_items v = []") (simp_all add: pop_back_def)
  next
    case (OpErase i)
    then show ?thesis using live sv_erase_ok [OF inv ne, of i] len by (cases "i < sv_len v") simp_all
  next
    case (OpResize n)
    then show ?thesis using live sv_resize_ok [OF inv, of d n] by simp
  next
    case (OpReserve n)
    then show ?thesis using live reserve_ok [OF inv, of n] by simp
  next
    case (OpAppend w)
    then show ?thesis using live sv.push_all_ok [OF inv, of "sv_items w"] by (simp add: sv_append_def push_each_eq)
  next
    case OpClear
    then show ?thesis using live sv_clear_ok [OF inv] by auto
  qed
qed

lemma sv_run_ok:
  "sv_live v \<Longrightarrow> case list_run d ps (sv_items v) of None \<Rightarrow> sv_run d ps v = Inl BadAccess
    | Some xs \<Rightarrow> (\<exists>u. sv_run d ps v = Inr u \<and> sv_live u \<and> sv_items u = xs)"
proof (induction ps arbitrary: v)
  case (Cons p ps)
  show ?case
  proof (cases "list_do d p (sv_items v)")
    case None
    then show ?thesis using sv_do_ok [OF Cons.prems, of d p] by simp
  next
    case (Some xs)
    then obtain u where "sv_do d p v = Inr u" "sv_live u" "sv_items u = xs"
      using sv_do_ok [OF Cons.prems, of d p] by auto
    then show ?thesis using Some Cons.IH [of u] by (cases "list_run d ps xs") auto
  qed
qed simp

lemma svector_new_live:
  fixes chunk :: nat
  assumes "0 < chunk"
  shows "sv_live (svector_new chunk :: 'a svector) \<and> sv_items (svector_new chunk :: 'a svector) = []"
proof -
  let ?e = "\<lparr>sv_first = None, sv_len = 0, sv_cap = 0, sv_chunk = chunk\<rparr> :: 'a svector"
  have "sv_inv ?e \<and> sv_items ?e = []"
    using assms by (simp add: sv_inv_def sv_weak_def holds_def sv_items_def sv_range_def sv_block_def)
  then show ?thesis using reserve_ok [of ?e chunk] assms by (auto simp: svector_new_def sv_live_def)
qed

subsection \<open>Properties\<close>

text \<open>
  C19. The vector is a list: every sequence of calls on a fresh vector gives the elements that the
  same calls give on lists, and a call outside its precondition (\<open>pop_back\<close> of an empty vector,
  \<open>erase\<close> of a position that is not an element, such as \<open>end()\<close>) leaves the block.
\<close>

theorem svector_refines_list:
  fixes ps :: "'a sv_op list"
  assumes "0 < chunk"
  shows "case list_run d ps [] of None \<Rightarrow> sv_run d ps (svector_new chunk) = Inl BadAccess
    | Some xs \<Rightarrow> (\<exists>u. sv_run d ps (svector_new chunk) = Inr u \<and> sv_items u = xs \<and> sv_len u = length xs \<and>
        sv_len u \<le> sv_cap u \<and> (\<forall>i < length xs. sv_read u i = Inr (xs ! i)))"
proof (cases "list_run d ps []")
  case None
  then show ?thesis using sv_run_ok [of "svector_new chunk" d ps] svector_new_live [OF assms, where ?'a = 'a] by simp
next
  case (Some xs)
  then obtain u :: "'a svector" where u: "sv_run d ps (svector_new chunk) = Inr u" "sv_live u" "sv_items u = xs"
    using sv_run_ok [of "svector_new chunk" d ps] svector_new_live [OF assms, where ?'a = 'a] by auto
  then have w: "sv_weak u" "sv_len u = length xs"
    using length_sv_items [of u] by (simp_all add: sv_live_def sv_inv_def)
  moreover have "sv_len u \<le> sv_cap u" using w(1) by (simp add: sv_weak_def)
  ultimately show ?thesis using Some u sv_read_ok [of u] by simp
qed

theorem svector_refines_list_witness:
  "sv_run 0 [OpPush 1, OpPush 2, OpPush 3, OpErase 0, OpErase 2] (svector_new 2 :: nat svector) = Inl BadAccess \<and>
    (\<exists>u. sv_run 0 [OpPush 1, OpPush 2, OpPush 3, OpErase 1, OpResize 4] (svector_new 2 :: nat svector) = Inr u \<and>
      sv_items u = [1, 3, 0, 0])"
proof -
  let ?p = "[OpPush 1, OpPush 2, OpPush 3, OpErase 0, OpErase 2] :: nat sv_op list"
  let ?r = "[OpPush 1, OpPush 2, OpPush 3, OpErase 1, OpResize 4] :: nat sv_op list"
  have "list_run 0 ?p [] = None" "list_run 0 ?r [] = Some [1, 3, 0, 0]" by code_simp+
  then show ?thesis using svector_refines_list [of 2 0 ?p] svector_refines_list [of 2 0 ?r] by auto
qed

text \<open>
  C32. An assignment copies the elements, but it keeps the capacity of the target although the new
  block has exactly the size of the source: when the source is shorter than that capacity, the next
  \<open>push_back\<close> writes behind the block (or through the null pointer, when the source is empty).
\<close>

theorem svector_assign_overflow:
  assumes "sv_inv u" and "sv_inv v"
  shows "\<exists>w. sv_assign u v = Inr w \<and> sv_items w = sv_items v \<and>
    (push_back w x = Inl BadAccess \<longleftrightarrow> length (sv_items v) < sv_cap u)"
proof -
  obtain w where "sv_assign u v = Inr w" "sv_items w = sv_items v"
    "if sv_len v < sv_cap u then push_back w x = Inl BadAccess else sv_inv w"
    using sv_assign_ok [OF assms] by blast
  moreover have "push_back w x \<noteq> Inl BadAccess" if "sv_inv w" using sv.push_ok [OF that, of x] by auto
  moreover have "length (sv_items v) = sv_len v" using assms(2) length_sv_items by (auto simp: sv_inv_def)
  ultimately show ?thesis by (auto split: if_splits)
qed

theorem svector_assign_overflow_witness:
  "\<exists>w. sv_assign (svector_new 4) (svector_new 2 :: nat svector) = Inr w \<and> push_back w 7 = Inl BadAccess"
proof -
  have v: "sv_inv (svector_new 4 :: nat svector)" "sv_inv (svector_new 2 :: nat svector)"
    "sv_items (svector_new 2 :: nat svector) = []" "sv_cap (svector_new 4 :: nat svector) = 4"
    using svector_new_live [of 4, where ?'a = nat] svector_new_live [of 2, where ?'a = nat]
    by (simp_all add: sv_live_def) (simp add: svector_new_def reserve_def)
  show ?thesis using svector_assign_overflow [OF v(1,2), of 7] v(3,4) by auto
qed

end
