(* ===== verification/FFSqueue.thy ===== *)
theory FFSqueue
  imports FFSvector
begin

text \<open>
  The sequential queue of FastFlow (\<open>libs/fastflow/ff/squeue.hpp\<close>): a table of cells, each with a
  chunk of \<open>chunk\<close> slots, of which the ones between \<open>head\<close> and \<open>tail\<close> are in use.
\<close>

text \<open>
  A cell describes one chunk: the indices of its first and last element and the chunk itself,
  \<open>None\<close> when it has been freed. A cell that was never written is \<open>None\<close> in \<open>q_data\<close>.
\<close>

record 'a cell =
  c_h :: int
  c_t :: int
  c_entry :: "'a option list option"

record 'a squeue =
  q_data :: "'a cell option list"
  q_nelements :: nat
  q_head :: nat
  q_tail :: nat
  q_chunk :: nat

definition DATA_CHUNK :: nat where "DATA_CHUNK = 1024"

definition newchunk :: "nat \<Rightarrow> 'a option list" where
  "newchunk chunk = replicate chunk None"

definition squeue_new :: "nat \<Rightarrow> 'a squeue" where
  "squeue_new chunk =
     \<lparr>q_data = (replicate DATA_CHUNK None)[0 := Some \<lparr>c_h = 0, c_t = - 1, c_entry = Some (newchunk chunk)\<rparr>],
      q_nelements = 0, q_head = 0, q_tail = 0, q_chunk = chunk\<rparr>"

definition q_cell :: "'a squeue \<Rightarrow> nat \<Rightarrow> err + 'a cell" where
  "q_cell q i = (if i < length (q_data q) then (case q_data q ! i of None \<Rightarrow> Inl BadAccess | Some c \<Rightarrow> Inr c)
     else Inl BadAccess)"

definition put_cell :: "nat \<Rightarrow> 'a cell \<Rightarrow> 'a squeue \<Rightarrow> 'a squeue" where
  "put_cell i c q = q\<lparr>q_data := (q_data q)[i := Some c]\<rparr>"

text \<open>An element of a chunk, addressed by a signed index.\<close>

definition in_chunk :: "'a cell \<Rightarrow> int \<Rightarrow> bool" where
  "in_chunk c i \<longleftrightarrow> (case c_entry c of None \<Rightarrow> False | Some b \<Rightarrow> 0 \<le> i \<and> i < int (length b))"

definition set_elem :: "int \<Rightarrow> 'a option \<Rightarrow> 'a cell \<Rightarrow> 'a cell" where
  "set_elem i x c = c\<lparr>c_entry := map_option (\<lambda>b. b[nat i := x]) (c_entry c)\<rparr>"

definition get_elem :: "'a cell \<Rightarrow> int \<Rightarrow> err + 'a" where
  "get_elem c i = (if in_chunk c i then (case the (c_entry c) ! nat i of None \<Rightarrow> Inl BadAccess | Some x \<Rightarrow> Inr x)
     else Inl BadAccess)"

text \<open>The test for the last slot of a chunk: an \<open>int\<close> read as \<open>unsigned\<close> against a \<open>size_t\<close>.\<close>

definition last_slot :: "'a squeue \<Rightarrow> int \<Rightarrow> bool" where
  "last_slot q i \<longleftrightarrow> nat (i mod 2 ^ 32) = to_size_t (int (q_chunk q) - 1)"

definition q_push_back :: "'a squeue \<Rightarrow> 'a \<Rightarrow> err + 'a squeue" where
  "q_push_back q elem =
     (case q_cell q (q_tail q) of Inl e \<Rightarrow> Inl e
      | Inr c \<Rightarrow>
        let current_tail = c_t c;
            q = put_cell (q_tail q) (c\<lparr>c_t := c_t c + 1\<rparr>) q in
        if last_slot q current_tail then
          let q = (if q_tail q = length (q_data q) - 1
                   then q\<lparr>q_data := q_data q @ replicate DATA_CHUNK None\<rparr> else q);
              q = q\<lparr>q_tail := q_tail q + 1\<rparr>;
              d = \<lparr>c_h = 0, c_t = 0, c_entry = Some (newchunk (q_chunk q))\<rparr> in
          if in_chunk d 0 then Inr ((put_cell (q_tail q) (set_elem 0 (Some elem) d) q)\<lparr>q_nelements := q_nelements q + 1\<rparr>)
          else Inl BadAccess
        else
          let d = c\<lparr>c_t := c_t c + 1\<rparr> in
          if in_chunk d (current_tail + 1) then
            Inr ((put_cell (q_tail q) (set_elem (current_tail + 1) (Some elem) d) q)\<lparr>q_nelements := q_nelements q + 1\<rparr>)
          else Inl BadAccess)"

definition deletechunk :: "nat \<Rightarrow> 'a squeue \<Rightarrow> 'a squeue" where
  "deletechunk idx q = (case q_cell q idx of Inl e \<Rightarrow> q | Inr c \<Rightarrow> put_cell idx (c\<lparr>c_entry := None\<rparr>) q)"

definition q_pop_back :: "'a squeue \<Rightarrow> err + 'a squeue" where
  "q_pop_back q =
     (if q_nelements q = 0 then Inr q
      else case q_cell q (q_tail q) of Inl e \<Rightarrow> Inl e
      | Inr c \<Rightarrow>
        let current_tail = c_t c in
        if \<not> in_chunk c current_tail then Inl BadAccess
        else
          let q = (put_cell (q_tail q) (set_elem current_tail None (c\<lparr>c_t := current_tail - 1\<rparr>)) q)
                    \<lparr>q_nelements := q_nelements q - 1\<rparr> in
          if current_tail = 0 \<and> 0 < q_tail q then
            let q = (deletechunk (q_tail q) q)\<lparr>q_tail := q_tail q - 1\<rparr> in
            (case q_cell q (q_tail q) of Inl e \<Rightarrow> Inl e
             | Inr c \<Rightarrow> Inr (put_cell (q_tail q) (c\<lparr>c_t := int (q_chunk q) - 1\<rparr>) q))
          else Inr q)"

definition q_back :: "'a squeue \<Rightarrow> err + 'a" where
  "q_back q = (if q_nelements q = 0 then Inl BadAccess
     else case q_cell q (q_tail q) of Inl e \<Rightarrow> Inl e | Inr c \<Rightarrow> get_elem c (c_t c))"

definition q_pop_front :: "'a squeue \<Rightarrow> err + 'a squeue" where
  "q_pop_front q =
     (if q_nelements q = 0 then Inr q
      else case q_cell q (q_head q) of Inl e \<Rightarrow> Inl e
      | Inr c \<Rightarrow>
        let current_head = c_h c in
        if \<not> in_chunk c current_head then Inl BadAccess
        else
          let q = (put_cell (q_head q) (set_elem current_head None (c\<lparr>c_h := current_head + 1\<rparr>)) q)
                    \<lparr>q_nelements := q_nelements q - 1\<rparr> in
          if last_slot q current_head \<and> q_head q < q_tail q then
            Inr ((deletechunk (q_head q) q)\<lparr>q_head := q_head q + 1\<rparr>)
          else Inr q)"

definition q_front :: "'a squeue \<Rightarrow> err + 'a" where
  "q_front q = (if q_nelements q = 0 then Inl BadAccess
     else case q_cell q (q_head q) of Inl e \<Rightarrow> Inl e | Inr c \<Rightarrow> get_elem c (c_h c))"

definition q_at :: "'a squeue \<Rightarrow> nat \<Rightarrow> err + 'a" where
  "q_at q idx = (if q_nelements q = 0 \<or> q_nelements q < idx then Inl BadAccess
     else case q_cell q (q_head q) of Inl e \<Rightarrow> Inl e | Inr c \<Rightarrow> get_elem c (c_h c + int idx))"

text \<open>The destructor frees the chunks that are left.\<close>

definition squeue_delete :: "'a squeue \<Rightarrow> nat list" where
  "squeue_delete q = filter (\<lambda>i. case q_data q ! i of None \<Rightarrow> False | Some c \<Rightarrow> c_entry c \<noteq> None) [0..<Suc (q_tail q)]"

subsection \<open>Representation\<close>

text \<open>
  Position \<open>p\<close> is slot \<open>p mod chunk\<close> of chunk \<open>p div chunk\<close>. The elements are those between the
  position of the head and the one behind the tail.
\<close>

definition blk :: "'a squeue \<Rightarrow> nat \<Rightarrow> 'a option list option" where
  "blk q i = (case q_data q ! i of None \<Rightarrow> None | Some c \<Rightarrow> c_entry c)"

fun at_opt :: "'a option list option \<Rightarrow> nat \<Rightarrow> 'a option" where
  "at_opt None k = None"
| "at_opt (Some b) k = b ! k"

definition q_slot :: "'a squeue \<Rightarrow> nat \<Rightarrow> 'a option" where
  "q_slot q p = at_opt (blk q (p div q_chunk q)) (p mod q_chunk q)"

definition q_h :: "'a squeue \<Rightarrow> int" where
  "q_h q = (case q_data q ! q_head q of None \<Rightarrow> 0 | Some c \<Rightarrow> c_h c)"

definition q_t :: "'a squeue \<Rightarrow> int" where
  "q_t q = (case q_data q ! q_tail q of None \<Rightarrow> 0 | Some c \<Rightarrow> c_t c)"

definition q_first :: "'a squeue \<Rightarrow> nat" where
  "q_first q = q_head q * q_chunk q + nat (q_h q)"

definition q_items :: "'a squeue \<Rightarrow> 'a list" where
  "q_items q = map (\<lambda>p. the (q_slot q p)) [q_first q..<q_first q + q_nelements q]"


definition q_ok :: "'a squeue \<Rightarrow> bool" where
  "q_ok q \<longleftrightarrow> 0 < q_chunk q \<and> q_chunk q < 2 ^ 31 \<and> q_tail q < length (q_data q) \<and> q_head q < length (q_data q) \<and>
     q_head q \<le> Suc (q_tail q) \<and> (\<forall>i \<le> q_tail q. q_data q ! i \<noteq> None) \<and>
     (\<exists>c. q_data q ! q_head q = Some c \<and> 0 \<le> c_h c \<and> c_h c < int (q_chunk q)) \<and>
     (\<exists>c. q_data q ! q_tail q = Some c \<and> - 1 \<le> c_t c \<and> c_t c < int (q_chunk q) \<and> (c_t c = - 1 \<longrightarrow> q_tail q = 0) \<and>
        int (q_first q + q_nelements q) = int (q_tail q * q_chunk q) + c_t c + 1) \<and>
     (\<forall>i. q_head q < i \<and> i \<le> q_tail q \<longrightarrow> (\<exists>c. q_data q ! i = Some c \<and> c_h c = 0)) \<and>
     (\<forall>i. q_head q \<le> i \<and> i \<le> q_tail q \<longrightarrow> (\<exists>b. blk q i = Some b \<and> length b = q_chunk q)) \<and>
     (\<forall>p. q_first q \<le> p \<and> p < q_first q + q_nelements q \<longrightarrow> q_slot q p \<noteq> None)"

lemma last_slot_iff:
  assumes "0 < q_chunk q" "q_chunk q < 2 ^ 31" "- 1 \<le> i" "i < int (q_chunk q)"
  shows "last_slot q i \<longleftrightarrow> i = int (q_chunk q) - 1"
proof -
  have b: "to_size_t (int (q_chunk q) - 1) = q_chunk q - 1"
    using assms by (simp add: to_size_t_def nat_diff_distrib)
  show ?thesis
  proof (cases "i = - 1")
    case True
    have "(- 1 :: int) mod 2 ^ 32 = 2 ^ 32 - 1" by simp
    then have "nat (i mod 2 ^ 32) = 2 ^ 32 - 1" using True by simp
    then show ?thesis using True b assms by (simp add: last_slot_def)
  next
    case False
    then have "i mod 2 ^ 32 = i" using assms by (intro mod_pos_pos_trivial) simp_all
    then show ?thesis using False b assms by (simp add: last_slot_def) linarith
  qed
qed

lemma pos_split:
  fixes p i k n :: nat
  assumes "k < n"
  shows "p = i * n + k \<longleftrightarrow> p div n = i \<and> p mod n = k"
  using assms by auto

lemma put_cell_fields [simp]:
  "q_nelements (put_cell i c q) = q_nelements q" "q_head (put_cell i c q) = q_head q"
  "q_tail (put_cell i c q) = q_tail q" "q_chunk (put_cell i c q) = q_chunk q"
  "length (q_data (put_cell i c q)) = length (q_data q)"
  by (simp_all add: put_cell_def)

lemma put_cell_nth [simp]:
  "i < length (q_data q) \<Longrightarrow> q_data (put_cell i c q) ! j = (if j = i then Some c else q_data q ! j)"
  by (auto simp: put_cell_def)

lemma blk_put [simp]:
  "i < length (q_data q) \<Longrightarrow> blk (put_cell i c q) j = (if j = i then c_entry c else blk q j)"
  by (auto simp: blk_def)

lemma blk_upd [simp]:
  "blk (q\<lparr>q_nelements := n\<rparr>) i = blk q i" "blk (q\<lparr>q_tail := n\<rparr>) i = blk q i" "blk (q\<lparr>q_head := n\<rparr>) i = blk q i"
  by (simp_all add: blk_def)

lemma q_slot_upd [simp]:
  "q_slot (q\<lparr>q_nelements := n\<rparr>) i = q_slot q i" "q_slot (q\<lparr>q_tail := n\<rparr>) i = q_slot q i"
  "q_slot (q\<lparr>q_head := n\<rparr>) i = q_slot q i"
  by (simp_all add: q_slot_def)

lemma q_slot_put:
  assumes "i < length (q_data q)" and "blk q i = Some b" and "length b = q_chunk q" and "k < q_chunk q"
    and "c_entry c = Some (b[k := x])"
  shows "q_slot (put_cell i c q) p = (if p = i * q_chunk q + k then x else q_slot q p)"
  using assms pos_split [OF assms(4), of p i] by (auto simp: q_slot_def)

lemma q_slot_put_new:
  assumes "i < length (q_data q)" and "k < q_chunk q" and "c_entry c = Some ((newchunk (q_chunk q))[k := x])"
  shows "q_slot (put_cell i c q) p = (if p = i * q_chunk q + k then x
    else if p div q_chunk q = i then None else q_slot q p)"
  using assms pos_split [OF assms(2), of p i] by (auto simp: q_slot_def newchunk_def)

lemma in_chunk_blk:
  assumes "blk q i = Some b" "q_data q ! i = Some c"
  shows "in_chunk c k \<longleftrightarrow> 0 \<le> k \<and> k < int (length b)" and "c_entry c = Some b"
  using assms by (auto simp: blk_def in_chunk_def)

lemma deletechunk_fields [simp]:
  "q_nelements (deletechunk i q) = q_nelements q" "q_head (deletechunk i q) = q_head q"
  "q_tail (deletechunk i q) = q_tail q" "q_chunk (deletechunk i q) = q_chunk q"
  by (simp_all add: deletechunk_def split: sum.splits)

text \<open>The elements before and after a change at one position.\<close>

lemma q_items_eqI:
  assumes "q_first q' = q_first q" and "q_nelements q' = q_nelements q"
    and "\<And>p. q_first q \<le> p \<Longrightarrow> p < q_first q + q_nelements q \<Longrightarrow> q_slot q' p = q_slot q p"
  shows "q_items q' = q_items q"
  using assms by (simp add: q_items_def)

lemma q_items_push:
  assumes "q_first q' = q_first q" and "q_nelements q' = Suc (q_nelements q)"
    and "\<And>p. q_first q \<le> p \<Longrightarrow> p < q_first q + q_nelements q \<Longrightarrow> q_slot q' p = q_slot q p"
    and "q_slot q' (q_first q + q_nelements q) = Some x"
  shows "q_items q' = q_items q @ [x]"
  using assms by (simp add: q_items_def)

lemma q_items_pop_back:
  assumes "q_first q' = q_first q" and "Suc (q_nelements q') = q_nelements q"
    and "\<And>p. q_first q \<le> p \<Longrightarrow> p < q_first q + q_nelements q' \<Longrightarrow> q_slot q' p = q_slot q p"
  shows "q_items q' = butlast (q_items q)"
  using assms by (simp add: q_items_def assms(2) [symmetric])

lemma q_items_pop_front:
  assumes "q_first q' = Suc (q_first q)" and "Suc (q_nelements q') = q_nelements q"
    and "\<And>p. q_first q < p \<Longrightarrow> p < q_first q + q_nelements q \<Longrightarrow> q_slot q' p = q_slot q p"
  shows "q_items q' = tl (q_items q)"
  using assms by (simp add: q_items_def assms(2) [symmetric] upt_rec [of "q_first q"])


lemma blk_ext [simp]: "blk (q\<lparr>q_data := q_data q @ ds\<rparr>) i = (if i < length (q_data q) then blk q i
    else (case (q_data q @ ds) ! i of None \<Rightarrow> None | Some c \<Rightarrow> c_entry c))"
  by (simp add: blk_def nth_append)

lemma q_first_put [simp]:
  "i < length (q_data q) \<Longrightarrow> i \<noteq> q_head q \<Longrightarrow> q_first (put_cell i c q) = q_first q"
  "q_first (q\<lparr>q_nelements := n\<rparr>) = q_first q" "q_first (q\<lparr>q_tail := n\<rparr>) = q_first q"
  by (simp_all add: q_first_def q_h_def)

lemma q_first_put_h:
  "i < length (q_data q) \<Longrightarrow> q_data q ! q_head q = Some c \<Longrightarrow> c_h d = c_h c \<Longrightarrow> q_first (put_cell i d q) = q_first q"
  by (simp add: q_first_def q_h_def)

text \<open>\<open>push_back\<close> into the last chunk, and into a new one.\<close>

lemma push_back_same:
  assumes ok: "q_ok q" and c: "q_data q ! q_tail q = Some c" and t: "c_t c < int (q_chunk q) - 1"
  shows "\<exists>q'. q_push_back q x = Inr q' \<and> q_ok q' \<and> q_items q' = q_items q @ [x] \<and> q_first q' = q_first q"
proof -
  let ?n = "q_chunk q" and ?e = "q_first q + q_nelements q"
  have f: "0 < ?n" "?n < 2 ^ 31" "q_tail q < length (q_data q)" "q_head q \<le> Suc (q_tail q)"
    "- 1 \<le> c_t c" "int ?e = int (q_tail q * ?n) + c_t c + 1"
    using ok c by (auto simp: q_ok_def)
  have ht: "q_head q \<le> q_tail q"
  proof (rule ccontr)
    assume "\<not> q_head q \<le> q_tail q"
    then have "q_head q = Suc (q_tail q)" using f(4) by simp
    then have "q_tail q * ?n + ?n \<le> ?e" by (simp add: q_first_def)
    then show False using f(6) t by linarith
  qed
  then obtain b where b: "blk q (q_tail q) = Some b" "length b = ?n" using ok unfolding q_ok_def by blast
  note cb = in_chunk_blk [OF b(1) c]
  define k where "k = nat (c_t c + 1)"
  have k: "k < ?n" "int k = c_t c + 1" using t f by (auto simp: k_def)
  have "int ?e = int (q_tail q * ?n + k)" using f(6) k(2) by simp
  then have e: "?e = q_tail q * ?n + k" by (simp only: of_nat_eq_iff)
  define d where "d = set_elem (c_t c + 1) (Some x) (c\<lparr>c_t := c_t c + 1\<rparr>)"
  have d: "c_h d = c_h c" "c_t d = c_t c + 1" "c_entry d = Some (b[k := Some x])"
    using cb(2) by (simp_all add: d_def set_elem_def k_def)
  define q' where "q' = (put_cell (q_tail q) d q)\<lparr>q_nelements := q_nelements q + 1\<rparr>"
  have "q_push_back q x = Inr q'"
  proof -
    have "\<not> last_slot (put_cell (q_tail q) (c\<lparr>c_t := c_t c + 1\<rparr>) q) (c_t c)"
      using last_slot_iff [of "put_cell (q_tail q) (c\<lparr>c_t := c_t c + 1\<rparr>) q" "c_t c"] f t by simp
    moreover have "in_chunk (c\<lparr>c_t := c_t c + 1\<rparr>) (c_t c + 1)"
      using cb b t f by (simp add: in_chunk_def)
    ultimately show ?thesis
      using f(3) c by (simp add: q_push_back_def q_cell_def Let_def q'_def d_def put_cell_def)
  qed
  moreover have slot: "q_slot q' p = (if p = ?e then Some x else q_slot q p)" for p
    using q_slot_put [OF f(3) b k(1) d(3), of p] e by (simp add: q'_def)
  moreover have first: "q_first q' = q_first q"
    using f(3) c d(1) by (auto simp: q'_def q_first_def q_h_def)
  moreover have "q_items q' = q_items q @ [x]"
    by (rule q_items_push) (simp_all add: slot first, simp add: q'_def)
  moreover have "q_ok q'"
  proof -
    have "\<exists>c. q_data q' ! q_head q' = Some c \<and> 0 \<le> c_h c \<and> c_h c < int (q_chunk q')"
      using ok c f(3) d(1) by (auto simp: q_ok_def q'_def)
    moreover have "\<exists>c. q_data q' ! q_tail q' = Some c \<and> - 1 \<le> c_t c \<and> c_t c < int (q_chunk q') \<and>
        (c_t c = - 1 \<longrightarrow> q_tail q' = 0) \<and> int (q_first q' + q_nelements q') = int (q_tail q' * q_chunk q') + c_t c + 1"
      using f t d(2) first by (auto simp: q'_def)
    moreover have "\<forall>i. q_head q' < i \<and> i \<le> q_tail q' \<longrightarrow> (\<exists>c. q_data q' ! i = Some c \<and> c_h c = 0)"
      using ok c f(3) d(1) by (auto simp: q_ok_def q'_def)
    moreover have "\<forall>i. q_head q' \<le> i \<and> i \<le> q_tail q' \<longrightarrow> (\<exists>b. blk q' i = Some b \<and> length b = q_chunk q')"
      using ok f(3) d(3) b(2) by (auto simp: q_ok_def q'_def)
    moreover have "\<forall>p. q_first q' \<le> p \<and> p < q_first q' + q_nelements q' \<longrightarrow> q_slot q' p \<noteq> None"
      using ok by (auto simp: slot first q_ok_def) (auto simp: q'_def less_Suc_eq)
    ultimately show ?thesis using ok unfolding q_ok_def by (simp add: q'_def)
  qed
  ultimately show ?thesis by blast
qed


lemma q_ok_end:
  assumes ok: "q_ok q" and c: "q_data q ! q_tail q = Some c"
  shows "q_first q + q_nelements q = q_tail q * q_chunk q + nat (c_t c + 1)"
proof -
  have "int (q_first q + q_nelements q) = int (q_tail q * q_chunk q + nat (c_t c + 1))"
    using ok c by (auto simp: q_ok_def)
  then show ?thesis by (simp only: of_nat_eq_iff)
qed

lemma push_back_new:
  assumes ok: "q_ok q" and c: "q_data q ! q_tail q = Some c" and t: "c_t c = int (q_chunk q) - 1"
  shows "\<exists>q'. q_push_back q x = Inr q' \<and> q_ok q' \<and> q_items q' = q_items q @ [x] \<and> q_first q' = q_first q"
proof -
  let ?n = "q_chunk q" and ?e = "q_first q + q_nelements q"
  have f: "0 < ?n" "?n < 2 ^ 31" "q_tail q < length (q_data q)" "q_head q \<le> Suc (q_tail q)" "q_head q < length (q_data q)"
    using ok by (auto simp: q_ok_def)
  have e: "?e = Suc (q_tail q) * ?n" using q_ok_end [OF ok c] t f by simp
  define q1 where "q1 = put_cell (q_tail q) (c\<lparr>c_t := c_t c + 1\<rparr>) q"
  define q2 where "q2 = (if q_tail q1 = length (q_data q1) - 1
    then q1\<lparr>q_data := q_data q1 @ replicate DATA_CHUNK None\<rparr> else q1)"
  define d where "d = set_elem 0 (Some x) \<lparr>c_h = 0, c_t = 0, c_entry = Some (newchunk ?n)\<rparr>"
  have d: "c_h d = 0" "c_t d = 0" "c_entry d = Some ((newchunk ?n)[0 := Some x])"
    by (simp_all add: d_def set_elem_def)
  define q' where "q' = (put_cell (Suc (q_tail q)) d (q2\<lparr>q_tail := Suc (q_tail q)\<rparr>))\<lparr>q_nelements := q_nelements q + 1\<rparr>"
  have q2: "q_tail q2 = q_tail q" "q_head q2 = q_head q" "q_chunk q2 = ?n" "q_nelements q2 = q_nelements q"
    "Suc (q_tail q) < length (q_data q2)" "length (q_data q) \<le> length (q_data q2)"
    using f(3) by (auto simp: q2_def q1_def DATA_CHUNK_def)
  have data: "q_data q' ! i = (if i = Suc (q_tail q) then Some d else if i = q_tail q then Some (c\<lparr>c_t := c_t c + 1\<rparr>)
      else q_data q ! i)" if "i < length (q_data q) \<or> i = Suc (q_tail q)" for i
  proof -
    have "q_data q2 ! i = (if i = q_tail q then Some (c\<lparr>c_t := c_t c + 1\<rparr>) else q_data q ! i)" if "i < length (q_data q)"
      using that f(3) by (simp add: q2_def q1_def nth_append)
    then show ?thesis using that q2(5) by (auto simp: q'_def)
  qed
  have "q_push_back q x = Inr q'"
  proof -
    have "last_slot q1 (c_t c)" using last_slot_iff [of q1 "c_t c"] f t by (simp add: q1_def)
    moreover have "in_chunk \<lparr>c_h = 0, c_t = 0, c_entry = Some (newchunk ?n)\<rparr> 0" using f by (simp add: in_chunk_def newchunk_def)
    ultimately show ?thesis
      using f(3) c by (auto simp: q_push_back_def q_cell_def Let_def q1_def q2_def d_def q'_def)
  qed
  moreover have bl: "blk q' i = (if i = Suc (q_tail q) then Some ((newchunk ?n)[0 := Some x]) else blk q i)"
    if "i < length (q_data q) \<or> i = Suc (q_tail q)" for i
    using data [OF that] d(3) c by (auto simp: blk_def)
  have slot: "q_slot q' p = (if p = ?e then Some x else q_slot q p)" if "p \<le> ?e" for p
  proof (cases "p = ?e")
    case True
    have "?e div ?n = Suc (q_tail q)" "?e mod ?n = 0" using f(1) e by (simp_all del: mult_Suc)
    then show ?thesis using True bl [of "Suc (q_tail q)"] f(1) by (simp add: q_slot_def q'_def q2 newchunk_def)
  next
    case False
    then have "p div ?n < Suc (q_tail q)" using that e f(1) by (simp add: less_mult_imp_div_less del: mult_Suc)
    then show ?thesis using False bl [of "p div ?n"] f(3) by (simp add: q_slot_def q'_def q2)
  qed
  moreover have first: "q_first q' = q_first q"
  proof (cases "q_head q = Suc (q_tail q)")
    case True
    then have "q_first q = q_head q * ?n" using e by (simp add: q_first_def)
    then show ?thesis using True data [of "q_head q"] d(1) by (simp add: q_first_def q_h_def q'_def q2)
  next
    case False
    then show ?thesis using data [of "q_head q"] f c by (auto simp: q_first_def q_h_def q'_def q2)
  qed
  moreover have "q_items q' = q_items q @ [x]"
    by (rule q_items_push) (simp_all add: slot first, simp add: q'_def)
  moreover have "q_ok q'"
  proof -
    have g: "q_tail q' = Suc (q_tail q)" "q_head q' = q_head q" "q_chunk q' = ?n" "q_nelements q' = Suc (q_nelements q)"
      "length (q_data q') = length (q_data q2)"
      by (simp_all add: q'_def q2)
    have "\<exists>c. q_data q' ! q_head q' = Some c \<and> 0 \<le> c_h c \<and> c_h c < int (q_chunk q')"
      using ok c f data [of "q_head q"] d(1) unfolding g by (auto simp: q_ok_def)
    moreover have "\<exists>c. q_data q' ! q_tail q' = Some c \<and> - 1 \<le> c_t c \<and> c_t c < int (q_chunk q') \<and>
        (c_t c = - 1 \<longrightarrow> q_tail q' = 0) \<and> int (q_first q' + q_nelements q') = int (q_tail q' * q_chunk q') + c_t c + 1"
    proof -
      have "q_first q + Suc (q_nelements q) = Suc (q_tail q) * ?n + 1" using e by simp
      then show ?thesis using f(1) d(2) data [of "Suc (q_tail q)"] unfolding g first by simp
    qed
    moreover have "\<forall>i. q_head q' < i \<and> i \<le> q_tail q' \<longrightarrow> (\<exists>c. q_data q' ! i = Some c \<and> c_h c = 0)"
    proof (intro allI impI)
      fix i assume i: "q_head q' < i \<and> i \<le> q_tail q'"
      then have "i = Suc (q_tail q) \<or> (i \<le> q_tail q \<and> (\<exists>c. q_data q ! i = Some c \<and> c_h c = 0))"
        using ok unfolding g q_ok_def by (auto simp: le_Suc_eq)
      then show "\<exists>c. q_data q' ! i = Some c \<and> c_h c = 0" using data [of i] f(3) c d(1) by auto
    qed
    moreover have "\<forall>i. q_head q' \<le> i \<and> i \<le> q_tail q' \<longrightarrow> (\<exists>b. blk q' i = Some b \<and> length b = q_chunk q')"
      using ok f(3) bl unfolding g q_ok_def by (auto simp: le_Suc_eq newchunk_def)
    moreover have "\<forall>p. q_first q' \<le> p \<and> p < q_first q' + q_nelements q' \<longrightarrow> q_slot q' p \<noteq> None"
      using ok unfolding g first q_ok_def by (auto simp: slot less_Suc_eq)
    moreover have "\<forall>i \<le> q_tail q'. q_data q' ! i \<noteq> None"
      using ok f(3) data unfolding g q_ok_def by (auto simp: le_Suc_eq)
    ultimately show ?thesis using f q2 unfolding q_ok_def g by auto
  qed
  ultimately show ?thesis by blast
qed

lemma q_push_back_ok:
  assumes ok: "q_ok q"
  shows "\<exists>q'. q_push_back q x = Inr q' \<and> q_ok q' \<and> q_items q' = q_items q @ [x] \<and> q_first q' = q_first q"
proof -
  obtain c where c: "q_data q ! q_tail q = Some c" "c_t c < int (q_chunk q)" using ok by (auto simp: q_ok_def)
  then consider "c_t c < int (q_chunk q) - 1" | "c_t c = int (q_chunk q) - 1" by linarith
  then show ?thesis using push_back_same [OF ok c(1)] push_back_new [OF ok c(1)] by cases auto
qed


lemma q_pop_back_ok:
  assumes ok: "q_ok q" and ne: "q_items q \<noteq> []"
  shows "\<exists>q'. q_pop_back q = Inr q' \<and> q_ok q' \<and> q_items q' = butlast (q_items q) \<and> q_first q' = q_first q"
proof -
  let ?n = "q_chunk q"
  have n: "0 < q_nelements q" using ne by (auto simp: q_items_def)
  obtain c where c: "q_data q ! q_tail q = Some c" "c_t c < int ?n" "- 1 \<le> c_t c" "c_t c = - 1 \<longrightarrow> q_tail q = 0"
    using ok by (auto simp: q_ok_def)
  note e = q_ok_end [OF ok c(1)]
  have f: "0 < ?n" "?n < 2 ^ 31" "q_tail q < length (q_data q)" "q_head q \<le> Suc (q_tail q)" "q_head q < length (q_data q)"
    using ok by (auto simp: q_ok_def)
  have t: "0 \<le> c_t c"
  proof (rule ccontr)
    assume "\<not> 0 \<le> c_t c"
    then have "c_t c = - 1" "q_tail q = 0" using c(3,4) by auto
    then show False using e n by simp
  qed
  define k where "k = nat (c_t c)"
  have k: "c_t c = int k" "k < ?n" "q_first q + q_nelements q = Suc (q_tail q * ?n + k)"
    using t c(2) e by (simp_all add: k_def Suc_nat_eq_nat_zadd1 add.commute)
  have ht: "q_head q \<le> q_tail q"
  proof (rule ccontr)
    assume "\<not> q_head q \<le> q_tail q"
    then have "q_head q = Suc (q_tail q)" using f(4) by simp
    then have "q_tail q * ?n + ?n \<le> q_first q" by (simp add: q_first_def)
    then show False using k n by linarith
  qed
  then obtain b where b: "blk q (q_tail q) = Some b" "length b = ?n" using ok unfolding q_ok_def by blast
  note cb = in_chunk_blk [OF b(1) c(1)]
  define d where "d = set_elem (c_t c) None (c\<lparr>c_t := c_t c - 1\<rparr>)"
  have d: "c_h d = c_h c" "c_t d = int k - 1" "c_entry d = Some (b[k := None])"
    using cb(2) k by (simp_all add: d_def set_elem_def)
  define q1 where "q1 = (put_cell (q_tail q) d q)\<lparr>q_nelements := q_nelements q - 1\<rparr>"
  have first1: "q_first q1 = q_first q" using f(3) c(1) d(1) by (auto simp: q1_def q_first_def q_h_def)
  have slot1: "q_slot q1 p = (if p = q_tail q * ?n + k then None else q_slot q p)" for p
    using q_slot_put [OF f(3) b k(2) d(3), of p] by (simp add: q1_def)
  have slots: "q_slot q1 p = q_slot q p \<and> q_slot q p \<noteq> None" if "q_first q \<le> p" "p < q_first q + (q_nelements q - 1)" for p
    using that k(3) n ok unfolding q_ok_def slot1 by auto
  have heads: "\<exists>c. q_data q1 ! q_head q = Some c \<and> 0 \<le> c_h c \<and> c_h c < int ?n"
    using ok c f(3) d(1) by (auto simp: q_ok_def q1_def)
  have mids: "\<exists>c. q_data q1 ! i = Some c \<and> c_h c = 0" if "q_head q < i" "i \<le> q_tail q" for i
    using ok c f(3) d(1) that by (auto simp: q_ok_def q1_def)
  have blks: "\<exists>b. blk q1 i = Some b \<and> length b = ?n" if "q_head q \<le> i" "i \<le> q_tail q" for i
    using ok f(3) d(3) b(2) that by (auto simp: q_ok_def q1_def)
  have step: "q_pop_back q = (if k = 0 \<and> 0 < q_tail q then
      (case q_cell (deletechunk (q_tail q) q1) (q_tail q - 1) of Inl e \<Rightarrow> Inl e
       | Inr c \<Rightarrow> Inr (put_cell (q_tail q - 1) (c\<lparr>c_t := int ?n - 1\<rparr>) ((deletechunk (q_tail q) q1)\<lparr>q_tail := q_tail q - 1\<rparr>)))
      else Inr q1)"
    using n f(3) c(1) cb(1) b(2) k
    by (auto simp: q_pop_back_def q_cell_def Let_def q1_def d_def split: sum.splits option.splits)
  show ?thesis
  proof (cases "k = 0 \<and> 0 < q_tail q")
    case False
    have "\<exists>c. q_data q1 ! q_tail q = Some c \<and> - 1 \<le> c_t c \<and> c_t c < int ?n \<and> (c_t c = - 1 \<longrightarrow> q_tail q = 0) \<and>
        int (q_first q1 + q_nelements q1) = int (q_tail q * ?n) + c_t c + 1"
    proof -
      have "q_first q + (q_nelements q - 1) = q_tail q * ?n + k" using k(3) n by linarith
      then have "int (q_first q + (q_nelements q - 1)) = int (q_tail q * ?n) + int k" by simp
      then show ?thesis using f(3) d(2) k(2) False first1 by (auto simp: q1_def)
    qed
    moreover have "\<forall>i \<le> q_tail q. q_data q1 ! i \<noteq> None" using ok f(3) by (auto simp: q_ok_def q1_def)
    ultimately have "q_ok q1" using f heads mids blks slots first1 unfolding q_ok_def by (simp add: q1_def)
    moreover have "q_items q1 = butlast (q_items q)"
      by (rule q_items_pop_back) (use first1 n slots in \<open>auto simp: q1_def\<close>)
    ultimately show ?thesis using False step first1 by auto
  next
    case True
    let ?j = "q_tail q - 1"
    define q2 where "q2 = deletechunk (q_tail q) q1"
    have q2: "q2 = put_cell (q_tail q) (d\<lparr>c_entry := None\<rparr>) q1"
      using f(3) by (simp add: q2_def deletechunk_def q_cell_def q1_def)
    obtain c' where c': "q_data q2 ! ?j = Some c'" "q_data q ! ?j = Some c'"
    proof -
      have "q_data q ! ?j \<noteq> None" using ok True unfolding q_ok_def by auto
      moreover have "q_data q2 ! ?j = q_data q ! ?j" using True f(3) by (auto simp: q2 q1_def)
      ultimately show ?thesis using that by auto
    qed
    define q' where "q' = put_cell ?j (c'\<lparr>c_t := int ?n - 1\<rparr>) (q2\<lparr>q_tail := ?j\<rparr>)"
    have j: "?j < length (q_data q)" "?j < length (q_data q2)" "?j < q_tail q" "Suc ?j = q_tail q"
      using True f(3) by (auto simp: q2 q1_def)
    have g: "q_tail q' = ?j" "q_head q' = q_head q" "q_chunk q' = ?n" "q_nelements q' = q_nelements q - 1"
      "length (q_data q') = length (q_data q)"
      by (simp_all add: q'_def q2 q1_def)
    have data: "q_data q' ! i = (if i = ?j then Some (c'\<lparr>c_t := int ?n - 1\<rparr>)
        else if i = q_tail q then Some (d\<lparr>c_entry := None\<rparr>) else q_data q ! i)" for i
      using j f(3) by (simp add: q'_def q2 q1_def)
    have bl: "blk q' i = (if i = q_tail q then None else blk q i)" for i
      using c'(2) j by (auto simp: blk_def data)
    have first: "q_first q' = q_first q"
      using c'(2) c(1) d(1) by (auto simp: q_first_def q_h_def g data)
    have slot: "q_slot q' p = q_slot q p" if "p < q_tail q * ?n" for p
    proof -
      have "p div ?n < q_tail q" using that f(1) by (simp add: less_mult_imp_div_less)
      then show ?thesis by (simp add: q_slot_def g bl)
    qed
    have e': "q_first q + (q_nelements q - 1) = q_tail q * ?n" using k(3) n True by linarith
    have h0: "c_h c = 0" if "q_head q = q_tail q"
    proof -
      have "nat (c_h c) = 0" using e' that c(1) by (simp add: q_first_def q_h_def)
      then show ?thesis using ok that c(1) by (auto simp: q_ok_def)
    qed
    have "\<exists>c. q_data q' ! q_head q' = Some c \<and> 0 \<le> c_h c \<and> c_h c < int (q_chunk q')"
      using ok c(1) c'(2) d(1) unfolding g data q_ok_def by auto
    moreover have "\<exists>c. q_data q' ! q_tail q' = Some c \<and> - 1 \<le> c_t c \<and> c_t c < int (q_chunk q') \<and>
        (c_t c = - 1 \<longrightarrow> q_tail q' = 0) \<and> int (q_first q' + q_nelements q') = int (q_tail q' * q_chunk q') + c_t c + 1"
    proof -
      have "q_tail q * ?n = ?j * ?n + ?n" using j(4) by (metis add.commute mult_Suc)
      then have "int (q_first q + (q_nelements q - 1)) = int (?j * ?n) + int ?n" using e' by simp
      then show ?thesis using f(1) unfolding g first data by simp
    qed
    moreover have "\<forall>i. q_head q' < i \<and> i \<le> q_tail q' \<longrightarrow> (\<exists>c. q_data q' ! i = Some c \<and> c_h c = 0)"
    proof (intro allI impI)
      fix i assume i: "q_head q' < i \<and> i \<le> q_tail q'"
      then have "\<exists>c. q_data q ! i = Some c \<and> c_h c = 0" "i \<noteq> q_tail q"
        using ok j unfolding g q_ok_def by auto
      then show "\<exists>c. q_data q' ! i = Some c \<and> c_h c = 0" using c'(2) unfolding data by auto
    qed
    moreover have "\<forall>i. q_head q' \<le> i \<and> i \<le> q_tail q' \<longrightarrow> (\<exists>b. blk q' i = Some b \<and> length b = q_chunk q')"
      using ok j unfolding g bl q_ok_def by auto
    moreover have "\<forall>p. q_first q' \<le> p \<and> p < q_first q' + q_nelements q' \<longrightarrow> q_slot q' p \<noteq> None"
      using ok e' unfolding g first q_ok_def by (auto simp: slot)
    moreover have "\<forall>i \<le> q_tail q'. q_data q' ! i \<noteq> None" using ok j unfolding g data q_ok_def by auto
    ultimately have "q_ok q'" using f ht j unfolding q_ok_def g by auto
    moreover have "q_items q' = butlast (q_items q)"
      by (rule q_items_pop_back) (use first g n e' slot in auto)
    moreover have "q_pop_back q = Inr q'"
      using True step c'(1) j(2) by (simp add: q2_def [symmetric] q'_def q_cell_def)
    ultimately show ?thesis using first by blast
  qed
qed


lemma q_back_ok:
  assumes ok: "q_ok q" and ne: "q_items q \<noteq> []"
  shows "q_back q = Inr (last (q_items q))"
proof -
  let ?n = "q_chunk q"
  have n: "0 < q_nelements q" using ne by (auto simp: q_items_def)
  obtain c where c: "q_data q ! q_tail q = Some c" "c_t c < int ?n" "- 1 \<le> c_t c" "c_t c = - 1 \<longrightarrow> q_tail q = 0"
    using ok by (auto simp: q_ok_def)
  note e = q_ok_end [OF ok c(1)]
  have f: "0 < ?n" "q_tail q < length (q_data q)" "q_head q \<le> Suc (q_tail q)"
    using ok by (auto simp: q_ok_def)
  have t: "0 \<le> c_t c"
  proof (rule ccontr)
    assume "\<not> 0 \<le> c_t c"
    then have "c_t c = - 1" "q_tail q = 0" using c(3,4) by auto
    then show False using e n by simp
  qed
  define k where "k = nat (c_t c)"
  have k: "c_t c = int k" "k < ?n" "q_first q + q_nelements q = Suc (q_tail q * ?n + k)"
    using t c(2) e by (simp_all add: k_def Suc_nat_eq_nat_zadd1 add.commute)
  have p: "q_first q + (q_nelements q - 1) = q_tail q * ?n + k" using k(3) n by linarith
  have "q_slot q (q_first q + (q_nelements q - 1)) \<noteq> None" using ok n unfolding q_ok_def by simp
  then obtain x where x: "q_slot q (q_tail q * ?n + k) = Some x" using p by auto
  have "last (q_items q) = x"
    using n x p by (simp add: q_items_def last_map)
  moreover have "q_head q \<le> q_tail q"
  proof (rule ccontr)
    assume "\<not> q_head q \<le> q_tail q"
    then have "q_head q = Suc (q_tail q)" using f(3) by simp
    then have "q_tail q * ?n + ?n \<le> q_first q" by (simp add: q_first_def)
    then show False using k n by linarith
  qed
  then obtain b where b: "blk q (q_tail q) = Some b" "length b = ?n" using ok unfolding q_ok_def by blast
  have "b ! k = Some x" using x b k(2) by (simp add: q_slot_def)
  ultimately show ?thesis
    using n f(2) c(1) in_chunk_blk [OF b(1) c(1)] b k by (simp add: q_back_def q_cell_def get_elem_def)
qed

text \<open>The head: what \<open>front\<close> and \<open>pop_front\<close> find there.\<close>

lemma q_ok_head:
  assumes ok: "q_ok q" and n: "0 < q_nelements q"
  obtains c b k where "q_data q ! q_head q = Some c" "c_h c = int k" "k < q_chunk q"
    "q_first q = q_head q * q_chunk q + k" "q_head q \<le> q_tail q" "blk q (q_head q) = Some b" "length b = q_chunk q"
proof -
  obtain c where c: "q_data q ! q_head q = Some c" "0 \<le> c_h c" "c_h c < int (q_chunk q)"
    using ok by (auto simp: q_ok_def)
  obtain d where d: "q_data q ! q_tail q = Some d" "c_t d < int (q_chunk q)" "q_head q \<le> Suc (q_tail q)"
    using ok by (auto simp: q_ok_def)
  have fst: "q_first q = q_head q * q_chunk q + nat (c_h c)" using c(1) by (simp add: q_first_def q_h_def)
  have "q_head q \<le> q_tail q"
  proof (rule ccontr)
    assume "\<not> q_head q \<le> q_tail q"
    then have "q_head q = Suc (q_tail q)" using d(3) by simp
    then have "q_tail q * q_chunk q + q_chunk q \<le> q_first q" by (simp add: q_first_def)
    moreover have "nat (c_t d + 1) \<le> q_chunk q" using d(2) by simp
    ultimately show False using q_ok_end [OF ok d(1)] n by linarith
  qed
  moreover from this obtain b where "blk q (q_head q) = Some b" "length b = q_chunk q"
    using ok unfolding q_ok_def by blast
  ultimately show ?thesis using that [of c "nat (c_h c)" b] c fst by auto
qed

lemma q_front_ok:
  assumes ok: "q_ok q" and ne: "q_items q \<noteq> []"
  shows "q_front q = Inr (hd (q_items q))"
proof -
  have n: "0 < q_nelements q" using ne by (auto simp: q_items_def)
  obtain c b k where h: "q_data q ! q_head q = Some c" "c_h c = int k" "k < q_chunk q"
    "q_first q = q_head q * q_chunk q + k" "q_head q \<le> q_tail q" "blk q (q_head q) = Some b" "length b = q_chunk q"
    by (rule q_ok_head [OF ok n])
  have len: "q_head q < length (q_data q)" using ok by (simp add: q_ok_def)
  have "q_slot q (q_first q) \<noteq> None" using ok n unfolding q_ok_def by simp
  then obtain x where x: "q_slot q (q_first q) = Some x" by auto
  then have "b ! k = Some x" using h by (simp add: q_slot_def)
  moreover have "hd (q_items q) = x" using n x by (simp add: q_items_def hd_map)
  ultimately show ?thesis
    using n h len in_chunk_blk [OF h(6,1)] by (simp add: q_front_def q_cell_def get_elem_def)
qed

text \<open>
  The state that \<open>pop_front\<close> leaves when it takes the last element and that element was in the
  last slot of its chunk: there is no chunk to go on to, and the head is behind the chunk.
\<close>

definition drained :: "'a squeue \<Rightarrow> bool" where
  "drained q \<longleftrightarrow> 0 < q_chunk q \<and> q_chunk q < 2 ^ 31 \<and> q_nelements q = 0 \<and> q_head q = q_tail q \<and>
     q_tail q < length (q_data q) \<and>
     (\<exists>c b. q_data q ! q_tail q = Some c \<and> c_h c = int (q_chunk q) \<and> c_t c = int (q_chunk q) - 1 \<and>
       c_entry c = Some b \<and> length b = q_chunk q)"

lemma q_pop_front_ok:
  assumes ok: "q_ok q" and ne: "q_items q \<noteq> []"
  shows "\<exists>q'. q_pop_front q = Inr q' \<and> q_items q' = tl (q_items q) \<and> q_first q' = Suc (q_first q) \<and> q_chunk q' = q_chunk q \<and>
    (if length (q_items q) = 1 \<and> q_chunk q dvd Suc (q_first q) then drained q' else q_ok q')"
proof -
  let ?n = "q_chunk q"
  have n: "0 < q_nelements q" "length (q_items q) = q_nelements q" using ne by (auto simp: q_items_def)
  obtain c b k where h: "q_data q ! q_head q = Some c" "c_h c = int k" "k < ?n"
    "q_first q = q_head q * ?n + k" "q_head q \<le> q_tail q" "blk q (q_head q) = Some b" "length b = ?n"
    by (rule q_ok_head [OF ok n(1)])
  note cb = in_chunk_blk [OF h(6,1)]
  have f: "0 < ?n" "?n < 2 ^ 31" "q_tail q < length (q_data q)" "q_head q < length (q_data q)"
    using ok by (auto simp: q_ok_def)
  obtain ct where ct: "q_data q ! q_tail q = Some ct" "- 1 \<le> c_t ct" "c_t ct < int ?n" "c_t ct = - 1 \<longrightarrow> q_tail q = 0"
      "int (q_first q + q_nelements q) = int (q_tail q * ?n) + c_t ct + 1"
    using ok by (auto simp: q_ok_def)
  define d where "d = set_elem (c_h c) None (c\<lparr>c_h := c_h c + 1\<rparr>)"
  have d: "c_h d = int k + 1" "c_t d = c_t c" "c_entry d = Some (b[k := None])"
    using cb(2) h(2) by (simp_all add: d_def set_elem_def)
  define q1 where "q1 = (put_cell (q_head q) d q)\<lparr>q_nelements := q_nelements q - 1\<rparr>"
  have slot1: "q_slot q1 p = (if p = q_first q then None else q_slot q p)" for p
    using q_slot_put [OF f(4) h(6,7,3) d(3), of p] h(4) by (simp add: q1_def)
  have first1: "q_first q1 = Suc (q_first q)"
    using f(4) d(1) h(4) by (simp add: q1_def q_first_def q_h_def nat_add_distrib)
  have dv: "?n dvd Suc (q_first q) \<longleftrightarrow> Suc k = ?n"
  proof -
    have "?n dvd Suc (q_first q) \<longleftrightarrow> ?n dvd Suc k" using h(4) by (simp add: dvd_add_right_iff [of ?n "q_head q * ?n" "Suc k", simplified])
    then show ?thesis using h(3) by (auto dest: dvd_imp_le)
  qed
  have slots: "q_slot q1 p = q_slot q p \<and> q_slot q p \<noteq> None" if "q_first q < p" "p < q_first q + q_nelements q" for p
    using that ok unfolding q_ok_def slot1 by auto
  have mids: "\<exists>c. q_data q1 ! i = Some c \<and> c_h c = 0" if "q_head q < i" "i \<le> q_tail q" for i
    using ok f(4) that by (auto simp: q_ok_def q1_def)
  have tails: "\<exists>c. q_data q1 ! q_tail q = Some c \<and> - 1 \<le> c_t c \<and> c_t c < int ?n \<and> (c_t c = - 1 \<longrightarrow> q_tail q = 0) \<and>
      int (Suc (q_first q) + (q_nelements q - 1)) = int (q_tail q * ?n) + c_t c + 1"
    using ct h(1) d(2) f(4) n(1) by (cases "q_head q = q_tail q") (auto simp: q1_def)
  have some: "\<forall>i \<le> q_tail q. q_data q1 ! i \<noteq> None" using ok f(4) by (auto simp: q_ok_def q1_def)
  have ls: "last_slot q1 (c_h c) \<longleftrightarrow> Suc k = ?n"
    using last_slot_iff [of q1 "c_h c"] f h(2,3) by (auto simp: q1_def)
  have step: "q_pop_front q = (if Suc k = ?n \<and> q_head q < q_tail q
      then Inr ((deletechunk (q_head q) q1)\<lparr>q_head := q_head q + 1\<rparr>) else Inr q1)"
    using n(1) f(4) h(1,2,3,7) cb(1) ls
    by (simp add: q_pop_front_def q_cell_def Let_def q1_def [symmetric] d_def [symmetric]) (simp add: q1_def d_def)
  have items1: "q_items q1 = tl (q_items q)"
    by (rule q_items_pop_front) (use first1 n slots in \<open>auto simp: q1_def\<close>)
  show ?thesis
  proof (cases "Suc k = ?n \<and> q_head q < q_tail q")
    case True
    define q' where "q' = (put_cell (q_head q) (d\<lparr>c_entry := None\<rparr>) q1)\<lparr>q_head := Suc (q_head q)\<rparr>"
    have del: "(deletechunk (q_head q) q1)\<lparr>q_head := q_head q + 1\<rparr> = q'"
      using f(4) by (simp add: deletechunk_def q_cell_def q1_def q'_def)
    have g: "q_tail q' = q_tail q" "q_head q' = Suc (q_head q)" "q_chunk q' = ?n" "q_nelements q' = q_nelements q - 1"
      "length (q_data q') = length (q_data q)"
      by (simp_all add: q'_def q1_def)
    have data: "q_data q' ! i = (if i = q_head q then Some (d\<lparr>c_entry := None\<rparr>) else q_data q1 ! i)" for i
      using f(4) by (simp add: q'_def q1_def)
    obtain e where e: "q_data q1 ! Suc (q_head q) = Some e" "c_h e = 0" using mids True by (metis Suc_leI lessI)
    have first: "q_first q' = Suc (q_first q)"
      using e True h(4) by (simp add: q_first_def q_h_def g data)
    have bl: "blk q' i = (if i = q_head q then None else blk q i)" for i
      using f(4) by (simp add: q'_def q1_def)
    have slot: "q_slot q' p = q_slot q p" if "q_first q < p" for p
    proof -
      have "Suc (q_head q) * ?n \<le> p" using that h(4) True by (simp add: add.commute)
      then have "Suc (q_head q) \<le> p div ?n" using f(1) by (simp add: less_eq_div_iff_mult_less_eq)
      then show ?thesis by (simp add: q_slot_def g bl)
    qed
    have "q_ok q'"
    proof -
      have "\<exists>c. q_data q' ! q_head q' = Some c \<and> 0 \<le> c_h c \<and> c_h c < int (q_chunk q')"
        using e f(1) unfolding g data by auto
      moreover have "\<exists>c. q_data q' ! q_tail q' = Some c \<and> - 1 \<le> c_t c \<and> c_t c < int (q_chunk q') \<and>
          (c_t c = - 1 \<longrightarrow> q_tail q' = 0) \<and> int (q_first q' + q_nelements q') = int (q_tail q' * q_chunk q') + c_t c + 1"
        using tails True unfolding g data first by auto
      moreover have "\<forall>i. q_head q' < i \<and> i \<le> q_tail q' \<longrightarrow> (\<exists>c. q_data q' ! i = Some c \<and> c_h c = 0)"
        using mids unfolding g data by auto
      moreover have "\<forall>i. q_head q' \<le> i \<and> i \<le> q_tail q' \<longrightarrow> (\<exists>b. blk q' i = Some b \<and> length b = q_chunk q')"
        using ok unfolding g bl q_ok_def by auto
      moreover have "\<forall>p. q_first q' \<le> p \<and> p < q_first q' + q_nelements q' \<longrightarrow> q_slot q' p \<noteq> None"
        using slots unfolding g first by (auto simp: slot Suc_le_eq)
      moreover have "\<forall>i \<le> q_tail q'. q_data q' ! i \<noteq> None" using some unfolding g data by auto
      ultimately show ?thesis using f True unfolding q_ok_def g by auto
    qed
    moreover have "q_items q' = tl (q_items q)"
      by (rule q_items_pop_front) (use first g n slot in auto)
    moreover have "q_nelements q \<noteq> 1"
    proof
      assume "q_nelements q = 1"
      then have "int (Suc (q_head q) * ?n) = int (q_tail q * ?n) + c_t ct + 1"
        using ct(5) h(4) True by (simp add: algebra_simps)
      moreover have "Suc (q_head q) * ?n \<le> q_tail q * ?n" using True mult_le_mono1 [of "Suc (q_head q)" "q_tail q" ?n] by simp
      ultimately have "c_t ct = - 1" using ct(2) by linarith
      then show False using ct(4) True by simp
    qed
    ultimately show ?thesis using True step del first g n(2) by auto
  next
    case False
    have lst: "q_nelements q = 1 \<and> q_head q = q_tail q" if "Suc k = ?n"
    proof -
      have eq: "q_head q = q_tail q" using that False h(5) by simp
      then have "int (q_first q + q_nelements q) \<le> int (q_head q * ?n) + int ?n" using ct(3,5) by simp
      then show ?thesis using eq h(4) that n(1) by simp
    qed
    show ?thesis
    proof (cases "Suc k = ?n")
      case True
      have "ct = c" using ct(1) h(1) lst [OF True] by simp
      then have "c_t c = int ?n - 1" using ct(5) h(4) lst [OF True] True by (simp add: algebra_simps)
      then have "drained q1"
        using lst [OF True] f True d h(1,7) by (auto simp: drained_def q1_def)
      then show ?thesis using True step items1 first1 dv n lst by (auto simp: q1_def)
    next
      case k: False
      have "\<exists>c. q_data q1 ! q_head q = Some c \<and> 0 \<le> c_h c \<and> c_h c < int ?n"
        using f(4) d(1) h(3) k by (auto simp: q1_def)
      moreover have "\<exists>c. q_data q1 ! q_tail q = Some c \<and> - 1 \<le> c_t c \<and> c_t c < int ?n \<and>
          (c_t c = - 1 \<longrightarrow> q_tail q = 0) \<and> int (q_first q1 + (q_nelements q - 1)) = int (q_tail q * ?n) + c_t c + 1"
        using tails unfolding first1 .
      moreover have "\<forall>i. q_head q \<le> i \<and> i \<le> q_tail q \<longrightarrow> (\<exists>b. blk q1 i = Some b \<and> length b = ?n)"
        using ok f(4) d(3) h(7) by (auto simp: q_ok_def q1_def)
      moreover have "\<forall>p. q_first q1 \<le> p \<and> p < q_first q1 + (q_nelements q - 1) \<longrightarrow> q_slot q1 p \<noteq> None"
        using slots unfolding first1 by (auto simp: Suc_le_eq)
      ultimately have "q_ok q1" using f h(5) mids some unfolding q_ok_def by (simp add: q1_def)
      then show ?thesis using k step items1 first1 dv by (auto simp: q1_def)
    qed
  qed
qed


interpretation sq: back_sequence q_push_back q_pop_back q_back q_items q_ok
proof unfold_locales
  fix q :: "'a squeue" and x
  assume ok: "q_ok q"
  show "\<exists>q'. q_push_back q x = Inr q' \<and> q_ok q' \<and> q_items q' = q_items q @ [x]"
    using q_push_back_ok [OF ok] by blast
  assume ne: "q_items q \<noteq> []"
  show "\<exists>q'. q_pop_back q = Inr q' \<and> q_ok q' \<and> q_items q' = butlast (q_items q)"
    using q_pop_back_ok [OF ok ne] by blast
  show "q_back q = Inr (last (q_items q))" by (rule q_back_ok [OF ok ne])
qed

lemma squeue_new_ok:
  fixes chunk :: nat
  assumes "0 < chunk" and "chunk < 2 ^ 31"
  shows "q_ok (squeue_new chunk :: 'a squeue) \<and> q_items (squeue_new chunk :: 'a squeue) = [] \<and>
    q_first (squeue_new chunk :: 'a squeue) = 0 \<and> q_chunk (squeue_new chunk :: 'a squeue) = chunk"
  using assms by (auto simp: q_ok_def squeue_new_def q_items_def q_first_def q_h_def blk_def newchunk_def DATA_CHUNK_def)

lemma sq_push_all_first:
  "q_ok q \<Longrightarrow> sq.push_all q xs = Inr q' \<Longrightarrow> q_first q' = q_first q \<and> q_chunk q' = q_chunk q"
proof (induction xs arbitrary: q)
  case (Cons x xs)
  obtain r where r: "q_push_back q x = Inr r" "q_ok r" "q_first r = q_first q"
    using q_push_back_ok [OF Cons.prems(1), of x] by blast
  moreover have "q_chunk r = q_chunk q"
    using r(1) by (auto simp: q_push_back_def Let_def split: sum.splits if_splits)
  ultimately show ?case using Cons.IH [of r] Cons.prems(2) by simp
qed simp

text \<open>Taking elements from the front.\<close>

fun q_take :: "nat \<Rightarrow> 'a squeue \<Rightarrow> err + ('a list \<times> 'a squeue)" where
  "q_take 0 q = Inr ([], q)"
| "q_take (Suc k) q = (case q_front q of Inl e \<Rightarrow> Inl e
     | Inr x \<Rightarrow> (case q_pop_front q of Inl e \<Rightarrow> Inl e
       | Inr q' \<Rightarrow> (case q_take k q' of Inl e \<Rightarrow> Inl e | Inr (xs, q'') \<Rightarrow> Inr (x # xs, q''))))"

lemma q_take_ok:
  "q_ok q \<Longrightarrow> k \<le> length (q_items q) \<Longrightarrow>
    \<exists>q'. q_take k q = Inr (take k (q_items q), q') \<and> q_items q' = drop k (q_items q) \<and> q_chunk q' = q_chunk q \<and>
      (if 0 < k \<and> k = length (q_items q) \<and> q_chunk q dvd (q_first q + k) then drained q' else q_ok q')"
proof (induction k arbitrary: q)
  case (Suc k)
  have ne: "q_items q \<noteq> []" using Suc.prems(2) by auto
  obtain r where r: "q_pop_front q = Inr r" "q_items r = tl (q_items q)" "q_first r = Suc (q_first q)" "q_chunk r = q_chunk q"
    "if length (q_items q) = 1 \<and> q_chunk q dvd Suc (q_first q) then drained r else q_ok r"
    using q_pop_front_ok [OF Suc.prems(1) ne] by blast
  note fr = q_front_ok [OF Suc.prems(1) ne]
  show ?case
  proof (cases "length (q_items q) = 1 \<and> q_chunk q dvd Suc (q_first q)")
    case True
    then have "k = 0" using Suc.prems(2) by simp
    then show ?thesis using True r fr ne by (cases "q_items q") auto
  next
    case False
    then obtain q' where q': "q_take k r = Inr (take k (q_items r), q')" "q_items q' = drop k (q_items r)" "q_chunk q' = q_chunk r"
      "if 0 < k \<and> k = length (q_items r) \<and> q_chunk r dvd (q_first r + k) then drained q' else q_ok q'"
    proof -
      have "q_ok r" "k \<le> length (q_items r)" using r False Suc.prems(2) by (auto split: if_splits)
      from Suc.IH [OF this] that show ?thesis by blast
    qed
    have "if 0 < Suc k \<and> Suc k = length (q_items q) \<and> q_chunk q dvd (q_first q + Suc k) then drained q' else q_ok q'"
    proof (cases "k = 0")
      case True
      then show ?thesis using False q' r by (cases "q_items q") auto
    next
      case k: False
      have "Suc k = length (q_items q) \<longleftrightarrow> k = length (q_items r)" using ne r(2) by (cases "q_items q") auto
      then show ?thesis using k q'(4) r by simp
    qed
    moreover have "q_take (Suc k) q = Inr (take (Suc k) (q_items q), q')"
      using fr r q' ne by (cases "q_items q") auto
    moreover have "q_items q' = drop (Suc k) (q_items q)" using q'(2) r(2) by (simp add: drop_Suc)
    ultimately show ?thesis using q'(3) r(4) by auto
  qed
qed simp

lemma drained_push:
  assumes "drained q"
  shows "\<exists>q'. q_push_back q y = Inr q' \<and> q_nelements q' = 1 \<and> q_front q' = Inl BadAccess \<and>
    q_pop_front q' = Inl BadAccess \<and> q_back q' = Inr y"
proof -
  let ?n = "q_chunk q"
  obtain c b where c: "q_data q ! q_tail q = Some c" "c_h c = int ?n" "c_t c = int ?n - 1" "c_entry c = Some b" "length b = ?n"
    using assms by (auto simp: drained_def)
  have f: "0 < ?n" "?n < 2 ^ 31" "q_nelements q = 0" "q_head q = q_tail q" "q_tail q < length (q_data q)"
    using assms by (auto simp: drained_def)
  define q1 where "q1 = put_cell (q_tail q) (c\<lparr>c_t := c_t c + 1\<rparr>) q"
  define q2 where "q2 = (if q_tail q1 = length (q_data q1) - 1
    then q1\<lparr>q_data := q_data q1 @ replicate DATA_CHUNK None\<rparr> else q1)"
  define d where "d = set_elem 0 (Some y) \<lparr>c_h = 0, c_t = 0, c_entry = Some (newchunk ?n)\<rparr>"
  define q' where "q' = (put_cell (Suc (q_tail q)) d (q2\<lparr>q_tail := Suc (q_tail q)\<rparr>))\<lparr>q_nelements := q_nelements q + 1\<rparr>"
  have "last_slot q1 (c_t c)" using last_slot_iff [of q1 "c_t c"] f c by (simp add: q1_def)
  moreover have "in_chunk \<lparr>c_h = 0, c_t = 0, c_entry = Some (newchunk ?n)\<rparr> 0" using f by (simp add: in_chunk_def newchunk_def)
  ultimately have "q_push_back q y = Inr q'"
    using f(5) c(1) by (auto simp: q_push_back_def q_cell_def Let_def q1_def q2_def d_def q'_def)
  moreover have len: "Suc (q_tail q) < length (q_data q2)" using f(5) by (auto simp: q2_def q1_def DATA_CHUNK_def)
  have "q_data q2 ! q_tail q = Some (c\<lparr>c_t := c_t c + 1\<rparr>)" using f(5) by (simp add: q2_def q1_def nth_append)
  then have data: "q_data q' ! q_tail q = Some (c\<lparr>c_t := c_t c + 1\<rparr>)" "q_data q' ! Suc (q_tail q) = Some d"
    "length (q_data q') = length (q_data q2)" using len by (simp_all add: q'_def)
  have g: "q_head q' = q_tail q" "q_tail q' = Suc (q_tail q)" "q_nelements q' = 1"
    using f by (simp_all add: q'_def q2_def q1_def)
  have "in_chunk (c\<lparr>c_t := c_t c + 1\<rparr>) (c_h c) = False" using c by (simp add: in_chunk_def)
  then have "q_front q' = Inl BadAccess" "q_pop_front q' = Inl BadAccess"
    using g data len by (simp_all add: q_front_def q_pop_front_def q_cell_def get_elem_def)
  moreover have "q_back q' = Inr y"
    using g data len f(1) by (simp add: q_back_def q_cell_def get_elem_def d_def set_elem_def in_chunk_def newchunk_def)
  ultimately show ?thesis using g(3) by blast
qed

subsection \<open>Properties\<close>



text \<open>
  C34. When \<open>pop_front\<close> empties the queue at the end of a chunk the queue is lost: the next element
  is stored in a new chunk, but \<open>front\<close> and \<open>pop_front\<close> look for it behind the end of the old one.
\<close>

theorem squeue_drained_front:
  fixes xs :: "'a list"
  assumes "0 < chunk" and "chunk < 2 ^ 31" and "sq.push_all (squeue_new chunk) xs = Inr q"
    and "xs \<noteq> []" and "chunk dvd length xs"
  shows "\<exists>q' q''. q_take (length xs) q = Inr (xs, q') \<and> q_push_back q' y = Inr q'' \<and> q_nelements q'' = 1 \<and>
    q_back q'' = Inr y \<and> q_front q'' = Inl BadAccess \<and> q_pop_front q'' = Inl BadAccess"
proof -
  note new = squeue_new_ok [OF assms(1,2), where ?'a = 'a]
  have q: "q_ok q" "q_items q = xs" "q_first q = 0" "q_chunk q = chunk"
    using sq.push_all_ok [of "squeue_new chunk" xs] sq_push_all_first [of "squeue_new chunk" xs q] new assms(3) by auto
  obtain q' where "q_take (length xs) q = Inr (xs, q')" "drained q'"
    using q_take_ok [OF q(1), of "length xs"] q assms(4,5) by auto
  then show ?thesis using drained_push [of q' y] by blast
qed

theorem squeue_drained_front_witness:
  "\<exists>q q' q''. sq.push_all (squeue_new 2) [1, 2 :: nat] = Inr q \<and> q_take 2 q = Inr ([1, 2], q') \<and>
    q_push_back q' 3 = Inr q'' \<and> q_front q'' = Inl BadAccess"
proof -
  obtain q where q: "sq.push_all (squeue_new 2) [1, 2 :: nat] = Inr q"
    using sq.push_all_ok [of "squeue_new 2" "[1, 2 :: nat]"] squeue_new_ok [of 2, where ?'a = nat] by auto
  have len: "length [1, 2 :: nat] = 2" by simp
  have "\<exists>q' q''. q_take (length [1, 2 :: nat]) q = Inr ([1, 2], q') \<and> q_push_back q' 3 = Inr q'' \<and> q_nelements q'' = 1 \<and>
      q_back q'' = Inr 3 \<and> q_front q'' = Inl BadAccess \<and> q_pop_front q'' = Inl BadAccess"
    by (rule squeue_drained_front [OF _ _ q]) simp_all
  then show ?thesis using q unfolding len by blast
qed

text \<open>
  \<open>at\<close> finds the element at an index as long as it lies in the first chunk; behind that chunk it
  accesses memory outside it although the element exists.
\<close>

theorem squeue_at_first_chunk:
  assumes ok: "q_ok q" and i: "i < length (q_items q)"
  shows "q_at q i = (if q_first q mod q_chunk q + i < q_chunk q then Inr (q_items q ! i) else Inl BadAccess)"
proof -
  have n: "0 < q_nelements q" "i < q_nelements q" using i by (auto simp: q_items_def)
  obtain c b k where h: "q_data q ! q_head q = Some c" "c_h c = int k" "k < q_chunk q"
    "q_first q = q_head q * q_chunk q + k" "q_head q \<le> q_tail q" "blk q (q_head q) = Some b" "length b = q_chunk q"
    by (rule q_ok_head [OF ok n(1)])
  have len: "q_head q < length (q_data q)" using ok by (simp add: q_ok_def)
  note cb = in_chunk_blk [OF h(6,1)]
  have m: "q_first q mod q_chunk q = k" using h(3,4) by simp
  show ?thesis
  proof (cases "k + i < q_chunk q")
    case True
    have p: "q_first q + i = q_head q * q_chunk q + (k + i)" using h(4) by simp
    obtain x where x: "q_slot q (q_first q + i) = Some x" using ok n(2) unfolding q_ok_def by fastforce
    then have "b ! (k + i) = Some x" using True h(6) unfolding p by (simp add: q_slot_def)
    moreover have "q_items q ! i = x" using x n by (simp add: q_items_def)
    ultimately show ?thesis using True n len h cb m by (simp add: q_at_def q_cell_def get_elem_def nat_add_distrib)
  next
    case False
    then show ?thesis using n len h cb m by (simp add: q_at_def q_cell_def get_elem_def)
  qed
qed

theorem squeue_at_first_chunk_witness:
  "\<exists>q. sq.push_all (squeue_new 2) [5, 6, 7 :: nat] = Inr q \<and> q_at q 1 = Inr 6 \<and> q_at q 2 = Inl BadAccess"
proof -
  obtain q where q: "sq.push_all (squeue_new 2) [5, 6, 7 :: nat] = Inr q" "q_ok q" "q_items q = [5, 6, 7]"
    using sq.push_all_ok [of "squeue_new 2" "[5, 6, 7 :: nat]"] squeue_new_ok [of 2, where ?'a = nat] by auto
  have "q_first q = 0" "q_chunk q = 2"
    using sq_push_all_first [OF _ q(1)] squeue_new_ok [of 2, where ?'a = nat] by auto
  then show ?thesis using squeue_at_first_chunk [OF q(2), of 1] squeue_at_first_chunk [OF q(2), of 2] q by auto
qed

end
