(* ===== verification/FFHash.thy ===== *)
theory FFHash
  imports KeyTable
begin

text \<open>
  The hash table of FastFlow's task graphs (\<open>libs/fastflow/ff/icl_hash.h\<close>): buckets of chained
  entries, the default string functions, and the map from keys to data pointers it stands for.
\<close>

subsection \<open>The hash function\<close>

definition ONE_EIGHTH :: nat where "ONE_EIGHTH = 4"
definition THREE_QUARTERS :: nat where "THREE_QUARTERS = 24"
definition HIGH_BITS :: u32 where "HIGH_BITS = 0xF0000000"

unbundle bit_operations_syntax

text \<open>The characters are signed: a byte above 127 is subtracted.\<close>

fun pjw_loop :: "byte list \<Rightarrow> u32 \<Rightarrow> u32" where
  "pjw_loop [] hash_value = hash_value"
| "pjw_loop (c # cs) hash_value =
     (if c = 0 then hash_value
      else let hash_value = push_bit ONE_EIGHTH hash_value + scast c;
               i = hash_value AND HIGH_BITS in
           pjw_loop cs (if i \<noteq> 0 then (hash_value XOR drop_bit THREE_QUARTERS i) AND NOT HIGH_BITS else hash_value))"

definition hash_pjw :: "byte list option \<Rightarrow> u32" where
  "hash_pjw key = (case key of None \<Rightarrow> 0 | Some datum \<Rightarrow> pjw_loop datum 0)"

text \<open>Equality of C strings: up to the first zero byte.\<close>

definition string_compare :: "byte list \<Rightarrow> byte list \<Rightarrow> bool" where
  "string_compare a b \<longleftrightarrow> takeWhile (\<lambda>c. c \<noteq> 0) a = takeWhile (\<lambda>c. c \<noteq> 0) b"

subsection \<open>The table\<close>

text \<open>
  A bucket is the list of its entries, in the order of the chain; the data pointer of an entry may
  be null. Where the sources test a key for the null pointer the key is an option.
\<close>

record ('k, 'd) icl_hash =
  nbuckets :: int
  nentries :: u32
  buckets :: "('k \<times> 'd option) list list"
  hash_function :: "'k \<Rightarrow> u32"
  hash_key_compare :: "'k \<Rightarrow> 'k \<Rightarrow> bool"

definition icl_hash_create ::
  "bool \<Rightarrow> bool \<Rightarrow> int \<Rightarrow> (byte list \<Rightarrow> u32) option \<Rightarrow> (byte list \<Rightarrow> byte list \<Rightarrow> bool) option \<Rightarrow>
   err + (byte list, 'd) icl_hash" where
  "icl_hash_create alloc1 alloc2 n hash_fun key_compare =
     (if \<not> alloc1 \<or> \<not> alloc2 then Inl AssertFailed
      else Inr \<lparr>nbuckets = n, nentries = 0, buckets = replicate (nat n) [],
        hash_function = (case hash_fun of None \<Rightarrow> (\<lambda>k. hash_pjw (Some k)) | Some f \<Rightarrow> f),
        hash_key_compare = (case key_compare of None \<Rightarrow> string_compare | Some c \<Rightarrow> c)\<rparr>)"

text \<open>\<open>hash % nbuckets\<close>: the \<open>int\<close> is converted to \<open>unsigned\<close> first.\<close>

definition bucket_of :: "('k, 'd) icl_hash \<Rightarrow> 'k \<Rightarrow> err + nat" where
  "bucket_of ht key =
     (let n = nat (nbuckets ht mod 2 ^ 32) in
      if n = 0 then Inl DivByZero
      else let i = unat (hash_function ht key) mod n in
        if i < length (buckets ht) then Inr i else Inl BadAccess)"

definition icl_hash_find :: "('k, 'd) icl_hash \<Rightarrow> 'k option \<Rightarrow> err + 'd option" where
  "icl_hash_find ht key =
     (case key of None \<Rightarrow> Inr None
      | Some k \<Rightarrow> (case bucket_of ht k of Inl e \<Rightarrow> Inl e
        | Inr i \<Rightarrow> Inr (case find (\<lambda>(k', d). hash_key_compare ht k' k) (buckets ht ! i) of
            None \<Rightarrow> None | Some (_, d) \<Rightarrow> d)))"

definition add_entry :: "nat \<Rightarrow> 'k \<Rightarrow> 'd option \<Rightarrow> ('k, 'd) icl_hash \<Rightarrow> ('k, 'd) icl_hash" where
  "add_entry i k d ht = ht\<lparr>buckets := (buckets ht)[i := (k, d) # buckets ht ! i], nentries := nentries ht + 1\<rparr>"

definition icl_hash_insert ::
  "bool \<Rightarrow> ('k, 'd) icl_hash \<Rightarrow> 'k option \<Rightarrow> 'd option \<Rightarrow> err + (bool \<times> ('k, 'd) icl_hash)" where
  "icl_hash_insert alloc ht key d =
     (case key of None \<Rightarrow> Inr (False, ht)
      | Some k \<Rightarrow> (case bucket_of ht k of Inl e \<Rightarrow> Inl e
        | Inr i \<Rightarrow>
            if list_ex (\<lambda>(k', d). hash_key_compare ht k' k) (buckets ht ! i) then Inr (False, ht)
            else if \<not> alloc then Inl AssertFailed
            else Inr (True, add_entry i k d ht)))"

text \<open>
  The scan of \<open>icl_hash_update_insert\<close> goes on after it has unlinked an entry, with \<open>prev\<close> at the
  unlinked entry: a match right behind it is unlinked from that entry and stays in the bucket.
\<close>

fun unlink_scan :: "('k \<Rightarrow> bool) \<Rightarrow> bool \<Rightarrow> ('k \<times> 'd option) list \<Rightarrow> ('k \<times> 'd option) list" where
  "unlink_scan m linked [] = []"
| "unlink_scan m linked ((k, d) # es) =
     (if m k \<and> linked then unlink_scan m False es else (k, d) # unlink_scan m True es)"

definition icl_hash_update_insert ::
  "bool \<Rightarrow> ('k, 'd) icl_hash \<Rightarrow> 'k option \<Rightarrow> 'd option \<Rightarrow> err + (bool \<times> ('k, 'd) icl_hash)" where
  "icl_hash_update_insert alloc ht key d =
     (case key of None \<Rightarrow> Inr (False, ht)
      | Some k \<Rightarrow> (case bucket_of ht k of Inl e \<Rightarrow> Inl e
        | Inr i \<Rightarrow>
            let ht = ht\<lparr>buckets := (buckets ht)[i := unlink_scan (\<lambda>k'. hash_key_compare ht k' k) True (buckets ht ! i)]\<rparr> in
            if \<not> alloc then Inl AssertFailed else Inr (True, add_entry i k d ht)))"

text \<open>The entry that is released, and the rest of the chain.\<close>

fun unlink_first :: "('k \<Rightarrow> bool) \<Rightarrow> ('k \<times> 'd option) list \<Rightarrow> (('k \<times> 'd option) \<times> ('k \<times> 'd option) list) option" where
  "unlink_first m [] = None"
| "unlink_first m ((k, d) # es) =
     (if m k then Some ((k, d), es)
      else case unlink_first m es of None \<Rightarrow> None | Some (e, es') \<Rightarrow> Some (e, (k, d) # es'))"

text \<open>
  The result is the return value, the key and the data the callbacks are given (a null data pointer
  is not passed on, and neither is anything without a callback) and the table.
\<close>

definition icl_hash_delete ::
  "bool \<Rightarrow> bool \<Rightarrow> ('k, 'd) icl_hash \<Rightarrow> 'k option \<Rightarrow> err + (int \<times> 'k list \<times> 'd list \<times> ('k, 'd) icl_hash)" where
  "icl_hash_delete free_key free_data ht key =
     (case key of None \<Rightarrow> Inr (- 1, [], [], ht)
      | Some k \<Rightarrow> (case bucket_of ht k of Inl e \<Rightarrow> Inl e
        | Inr i \<Rightarrow> (case unlink_first (\<lambda>k'. hash_key_compare ht k' k) (buckets ht ! i) of
            None \<Rightarrow> Inr (- 1, [], [], ht)
          | Some ((k', d), es) \<Rightarrow>
              Inr (0, if free_key then [k'] else [], case d of None \<Rightarrow> [] | Some x \<Rightarrow> if free_data then [x] else [],
                ht\<lparr>buckets := (buckets ht)[i := es], nentries := nentries ht + 1\<rparr>))))"

text \<open>What the destructor releases: the keys, the data and the number of entries.\<close>

fun release_chain :: "bool \<Rightarrow> bool \<Rightarrow> ('k \<times> 'd option) list \<Rightarrow> 'k list \<times> 'd list \<times> nat" where
  "release_chain free_key free_data [] = ([], [], 0)"
| "release_chain free_key free_data ((k, d) # es) = (case release_chain free_key free_data es of (ks, ds, n) \<Rightarrow>
     ((if free_key then [k] else []) @ ks, (case d of None \<Rightarrow> [] | Some x \<Rightarrow> if free_data then [x] else []) @ ds, Suc n))"

definition icl_hash_destroy :: "bool \<Rightarrow> bool \<Rightarrow> ('k, 'd) icl_hash \<Rightarrow> int \<times> 'k list \<times> 'd list \<times> nat" where
  "icl_hash_destroy free_key free_data ht = (0, release_chain free_key free_data (concat (buckets ht)))"

text \<open>The entries the iteration macro visits: in a bucket it stops at the first null data pointer.\<close>

definition icl_hash_foreach :: "('k, 'd) icl_hash \<Rightarrow> ('k \<times> 'd) list" where
  "icl_hash_foreach ht =
     concat (map (\<lambda>es. map (\<lambda>(k, d). (k, the d)) (takeWhile (\<lambda>(k, d). d \<noteq> None) es)) (buckets ht))"

subsection \<open>Invariant\<close>

definition icl_keys_ok :: "('k, 'd) icl_hash \<Rightarrow> bool" where
  "icl_keys_ok ht \<longleftrightarrow> equivp (hash_key_compare ht) \<and>
     (\<forall>k l. hash_key_compare ht k l \<longrightarrow> hash_function ht k = hash_function ht l)"

text \<open>No two entries of a bucket have equal keys.\<close>

definition uniq :: "('k \<Rightarrow> 'k \<Rightarrow> bool) \<Rightarrow> ('k \<times> 'd) list \<Rightarrow> bool" where
  "uniq cmp es \<longleftrightarrow> sorted_wrt (\<lambda>x y. \<not> cmp (fst x) (fst y)) es"

definition icl_inv :: "('k, 'd) icl_hash \<Rightarrow> bool" where
  "icl_inv ht \<longleftrightarrow> icl_keys_ok ht \<and> 0 < nbuckets ht \<and> nbuckets ht < 2 ^ 31 \<and> length (buckets ht) = nat (nbuckets ht) \<and>
     (\<forall>es \<in> set (buckets ht). uniq (hash_key_compare ht) es)"


definition icl_index :: "('k, 'd) icl_hash \<Rightarrow> 'k \<Rightarrow> nat" where
  "icl_index ht k = unat (hash_function ht k) mod nat (nbuckets ht)"

lemma icl_index_upd [simp]:
  "icl_index (ht\<lparr>buckets := bs\<rparr>) k = icl_index ht k" "icl_index (ht\<lparr>nentries := n\<rparr>) k = icl_index ht k"
  by (simp_all add: icl_index_def)

text \<open>The entry of a key: \<open>Some\<close> its data pointer, or \<open>None\<close>.\<close>

definition icl_entry :: "('k, 'd) icl_hash \<Rightarrow> 'k \<Rightarrow> 'd option option" where
  "icl_entry ht k = map_option snd (find (\<lambda>(k', d). hash_key_compare ht k' k) (buckets ht ! icl_index ht k))"

lemma cmp_equiv:
  assumes "icl_inv ht"
  shows "hash_key_compare ht k k"
    and "hash_key_compare ht k l \<Longrightarrow> hash_key_compare ht l k"
    and "hash_key_compare ht k l \<Longrightarrow> hash_key_compare ht l m \<Longrightarrow> hash_key_compare ht k m"
    and "hash_key_compare ht k l \<Longrightarrow> icl_index ht k = icl_index ht l"
proof -
  have e: "equivp (hash_key_compare ht)" and h: "\<And>k l. hash_key_compare ht k l \<Longrightarrow> hash_function ht k = hash_function ht l"
    using assms by (simp_all add: icl_inv_def icl_keys_ok_def)
  show "hash_key_compare ht k k" by (rule equivp_reflp [OF e])
  show "hash_key_compare ht k l \<Longrightarrow> hash_key_compare ht l k" by (rule equivp_symp [OF e])
  show "hash_key_compare ht k l \<Longrightarrow> hash_key_compare ht l m \<Longrightarrow> hash_key_compare ht k m" by (rule equivp_transp [OF e])
  show "hash_key_compare ht k l \<Longrightarrow> icl_index ht k = icl_index ht l" using h [of k l] by (simp add: icl_index_def)
qed

lemma cmp_same:
  assumes "icl_inv ht"
  shows "hash_key_compare ht k l \<Longrightarrow> hash_key_compare ht k' l = hash_key_compare ht k' k"
    and "\<not> hash_key_compare ht k l \<Longrightarrow> hash_key_compare ht k' l \<Longrightarrow> \<not> hash_key_compare ht k' k"
  using cmp_equiv(2,3) [OF assms] by blast+

lemma bucket_of_ok: "icl_inv ht \<Longrightarrow> bucket_of ht k = Inr (icl_index ht k) \<and> icl_index ht k < length (buckets ht)"
proof -
  assume inv: "icl_inv ht"
  then have n: "nbuckets ht mod 2 ^ 32 = nbuckets ht" "0 < nat (nbuckets ht)" "length (buckets ht) = nat (nbuckets ht)"
    by (simp_all add: icl_inv_def)
  then show ?thesis by (simp add: bucket_of_def icl_index_def)
qed

lemma icl_find_entry:
  "icl_inv ht \<Longrightarrow> icl_hash_find ht (Some k) = Inr (case icl_entry ht k of None \<Rightarrow> None | Some d \<Rightarrow> d)"
  by (auto simp: icl_hash_find_def bucket_of_ok icl_entry_def split: option.splits)

lemma find_none_iff: "find P xs = None \<longleftrightarrow> (\<forall>x \<in> set xs. \<not> P x)"
  by (induction xs) auto

lemma uniq_filter: "uniq c es \<Longrightarrow> uniq c (filter P es)"
  by (simp add: uniq_def sorted_wrt_filter)

lemma uniq_bucket: "icl_inv ht \<Longrightarrow> uniq (hash_key_compare ht) (buckets ht ! icl_index ht k)"
  using bucket_of_ok [of ht k] by (simp add: icl_inv_def)

text \<open>Under the invariant both scans remove the entry with an equal key, and nothing else.\<close>

lemma unlink_scan_none: "(\<And>k d. (k, d) \<in> set es \<Longrightarrow> \<not> m k) \<Longrightarrow> unlink_scan m b es = es"
  by (induction m b es rule: unlink_scan.induct) auto

lemma uniq_one_match:
  assumes "icl_inv ht" and "uniq (hash_key_compare ht) ((k', d) # es)" and "hash_key_compare ht k' k"
  shows "\<forall>(k'', d'') \<in> set es. \<not> hash_key_compare ht k'' k"
proof (intro ballI, clarify)
  fix k'' d'' assume i: "(k'', d'') \<in> set es" "hash_key_compare ht k'' k"
  have "hash_key_compare ht k' k''"
    using cmp_equiv(3) [OF assms(1,3) cmp_equiv(2) [OF assms(1) i(2)]] .
  then show False using assms(2) i(1) by (auto simp: uniq_def)
qed

lemma unlink_scan_filter:
  assumes "icl_inv ht"
  shows "uniq (hash_key_compare ht) es \<Longrightarrow>
    unlink_scan (\<lambda>k'. hash_key_compare ht k' k) True es = filter (\<lambda>(k', d). \<not> hash_key_compare ht k' k) es"
proof (induction es)
  case (Cons e es)
  obtain k' d where e: "e = (k', d)" by fastforce
  have u: "uniq (hash_key_compare ht) es" using Cons.prems by (simp add: uniq_def)
  show ?case
  proof (cases "hash_key_compare ht k' k")
    case True
    then have none: "\<forall>(k'', d'') \<in> set es. \<not> hash_key_compare ht k'' k"
      using uniq_one_match [OF assms, of k' d es k] Cons.prems e by simp
    then have "unlink_scan (\<lambda>k'. hash_key_compare ht k' k) False es = es" by (intro unlink_scan_none) auto
    moreover have "filter (\<lambda>(k', d). \<not> hash_key_compare ht k' k) es = es" using none by (auto intro!: filter_True)
    ultimately show ?thesis using True e by simp
  qed (use Cons.IH [OF u] e in simp)
qed simp

lemma unlink_first_spec:
  assumes "icl_inv ht"
  shows "uniq (hash_key_compare ht) es \<Longrightarrow>
    (case unlink_first (\<lambda>k'. hash_key_compare ht k' k) es of
       None \<Rightarrow> find (\<lambda>(k', d). hash_key_compare ht k' k) es = None
     | Some (e, es') \<Rightarrow> find (\<lambda>(k', d). hash_key_compare ht k' k) es = Some e \<and>
         es' = filter (\<lambda>(k', d). \<not> hash_key_compare ht k' k) es)"
proof (induction es)
  case (Cons e es)
  obtain k' d where e: "e = (k', d)" by fastforce
  have u: "uniq (hash_key_compare ht) es" using Cons.prems by (simp add: uniq_def)
  show ?case
  proof (cases "hash_key_compare ht k' k")
    case True
    then have "\<forall>(k'', d'') \<in> set es. \<not> hash_key_compare ht k'' k"
      using uniq_one_match [OF assms, of k' d es k] Cons.prems e by simp
    then have "filter (\<lambda>(k', d). \<not> hash_key_compare ht k' k) es = es" by (auto intro!: filter_True)
    then show ?thesis using True e by simp
  qed (use Cons.IH [OF u] e in \<open>auto split: option.splits\<close>)
qed simp

text \<open>Replacing the bucket of a key.\<close>

lemma icl_inv_bucket:
  assumes inv: "icl_inv ht" and u: "uniq (hash_key_compare ht) es"
  shows "icl_inv (ht\<lparr>buckets := (buckets ht)[i := es], nentries := n\<rparr>)"
proof -
  have "\<forall>fs \<in> set ((buckets ht)[i := es]). uniq (hash_key_compare ht) fs"
    using inv u set_update_subset_insert [of "buckets ht" i es] by (auto simp: icl_inv_def)
  then show ?thesis using inv by (simp add: icl_inv_def icl_keys_ok_def)
qed

lemma icl_entry_bucket:
  assumes inv: "icl_inv ht"
  shows "icl_entry (ht\<lparr>buckets := (buckets ht)[icl_index ht k := es], nentries := n\<rparr>) l =
    (if icl_index ht l = icl_index ht k then map_option snd (find (\<lambda>(k', d). hash_key_compare ht k' l) es)
     else icl_entry ht l)"
  using bucket_of_ok [OF inv, of k] by (simp add: icl_entry_def icl_index_def)

lemma find_filter_other:
  assumes "\<And>x. x \<in> set xs \<Longrightarrow> P x \<Longrightarrow> Q x"
  shows "find P (filter Q xs) = find P xs"
  using assms by (induction xs) auto

text \<open>The three operations, on the level of entries.\<close>

definition set_key :: "('k \<Rightarrow> 'k \<Rightarrow> bool) \<Rightarrow> 'k \<Rightarrow> 'd option option \<Rightarrow> ('k \<Rightarrow> 'd option option) \<Rightarrow> 'k \<Rightarrow> 'd option option" where
  "set_key cmp k v m l = (if cmp k l then v else m l)"

lemma add_entry_fields [simp]:
  "hash_key_compare (add_entry i k d ht) = hash_key_compare ht" "nentries (add_entry i k d ht) = nentries ht + 1"
  by (simp_all add: add_entry_def)

lemma add_entry_ok:
  assumes inv: "icl_inv ht" and new: "\<forall>(k', d') \<in> set (buckets ht ! icl_index ht k). \<not> hash_key_compare ht k' k"
  shows "icl_inv (add_entry (icl_index ht k) k d ht) \<and>
    icl_entry (add_entry (icl_index ht k) k d ht) = set_key (hash_key_compare ht) k (Some d) (icl_entry ht)"
proof -
  have "uniq (hash_key_compare ht) ((k, d) # buckets ht ! icl_index ht k)"
    using new uniq_bucket [OF inv, of k] cmp_equiv(2) [OF inv] by (auto simp: uniq_def)
  then have "icl_inv (add_entry (icl_index ht k) k d ht)" unfolding add_entry_def by (rule icl_inv_bucket [OF inv])
  moreover have "icl_entry (add_entry (icl_index ht k) k d ht) l = set_key (hash_key_compare ht) k (Some d) (icl_entry ht) l" for l
    using cmp_equiv(4) [OF inv, of k l] unfolding add_entry_def icl_entry_bucket [OF inv]
    by (auto simp: set_key_def icl_entry_def)
  ultimately show ?thesis by blast
qed

lemma remove_key_ok:
  assumes inv: "icl_inv ht"
  shows "icl_inv (ht\<lparr>buckets := (buckets ht)[icl_index ht k :=
      filter (\<lambda>(k', d). \<not> hash_key_compare ht k' k) (buckets ht ! icl_index ht k)], nentries := n\<rparr>)" (is "icl_inv ?h")
    and "icl_entry (ht\<lparr>buckets := (buckets ht)[icl_index ht k :=
      filter (\<lambda>(k', d). \<not> hash_key_compare ht k' k) (buckets ht ! icl_index ht k)], nentries := n\<rparr>) =
      set_key (hash_key_compare ht) k None (icl_entry ht)"
proof -
  show "icl_inv ?h" by (rule icl_inv_bucket [OF inv uniq_filter [OF uniq_bucket [OF inv]]])
  show "icl_entry ?h = set_key (hash_key_compare ht) k None (icl_entry ht)"
  proof
    fix l
    let ?es = "buckets ht ! icl_index ht k"
    show "icl_entry ?h l = set_key (hash_key_compare ht) k None (icl_entry ht) l"
    proof (cases "hash_key_compare ht k l")
      case True
      have "find (\<lambda>(k', d). hash_key_compare ht k' l) (filter (\<lambda>(k', d). \<not> hash_key_compare ht k' k) ?es) = None"
        by (auto simp: find_none_iff cmp_same(1) [OF inv True])
      then show ?thesis using True cmp_equiv(4) [OF inv True] by (simp add: icl_entry_bucket [OF inv] set_key_def)
    next
      case False
      have "find (\<lambda>(k', d). hash_key_compare ht k' l) (filter (\<lambda>(k', d). \<not> hash_key_compare ht k' k) ?es) =
          find (\<lambda>(k', d). hash_key_compare ht k' l) ?es"
        using cmp_same(2) [OF inv False] by (intro find_filter_other) auto
      then show ?thesis using False by (simp add: icl_entry_bucket [OF inv] set_key_def) (simp add: icl_entry_def)
    qed
  qed
qed


lemma pjw_stops: "pjw_loop (takeWhile (\<lambda>c. c \<noteq> 0) k) h = pjw_loop k h"
  by (induction k h rule: pjw_loop.induct) (auto simp: Let_def)

lemma default_functions:
  assumes "icl_hash_create a b n None None = Inr ht"
  shows "icl_keys_ok ht"
proof -
  have f: "hash_function ht = (\<lambda>k. pjw_loop k 0)" "hash_key_compare ht = string_compare"
    using assms by (auto simp: icl_hash_create_def hash_pjw_def split: if_splits)
  have "equivp string_compare" by (auto simp: string_compare_def intro!: equivpI reflpI sympI transpI)
  moreover have "pjw_loop k 0 = pjw_loop l 0" if "string_compare k l" for k l
    using that pjw_stops [of k 0] pjw_stops [of l 0] by (simp add: string_compare_def)
  ultimately show ?thesis by (simp add: icl_keys_ok_def f)
qed

lemma icl_create_inv:
  assumes "icl_hash_create a b n hf kc = Inr ht" and "0 < n" and "n < 2 ^ 31" and "icl_keys_ok ht"
  shows "icl_inv ht \<and> icl_entry ht k = None"
proof -
  have t: "buckets ht = replicate (nat n) []" "nbuckets ht = n"
    using assms(1) by (auto simp: icl_hash_create_def split: if_splits)
  have "icl_inv ht" using assms(2-4) by (simp add: icl_inv_def t uniq_def)
  moreover from this have "icl_index ht k < nat n" using bucket_of_ok [of ht k] t by simp
  ultimately show ?thesis by (simp add: icl_entry_def t)
qed

lemma bucket_member:
  assumes "icl_inv ht"
  shows "list_ex (\<lambda>(k', d). hash_key_compare ht k' k) (buckets ht ! icl_index ht k) \<longleftrightarrow> icl_entry ht k \<noteq> None"
  using find_none_iff [of "\<lambda>(k', d). hash_key_compare ht k' k" "buckets ht ! icl_index ht k"]
  by (auto simp: icl_entry_def list_ex_iff)

lemma icl_insert_ok:
  assumes inv: "icl_inv ht"
  shows "\<exists>h. icl_hash_insert True ht (Some k) d = Inr (icl_entry ht k = None, h) \<and> icl_inv h \<and> hash_key_compare h = hash_key_compare ht \<and>
    (if icl_entry ht k = None then icl_entry h = set_key (hash_key_compare ht) k (Some d) (icl_entry ht) \<and> nentries h = nentries ht + 1
     else h = ht)"
proof -
  note b = bucket_of_ok [OF inv, of k]
  show ?thesis
  proof (cases "icl_entry ht k")
    case None
    then have "\<forall>(k', d') \<in> set (buckets ht ! icl_index ht k). \<not> hash_key_compare ht k' k"
      using bucket_member [OF inv, of k] by (auto simp: list_ex_iff)
    then show ?thesis using None b bucket_member [OF inv, of k] add_entry_ok [OF inv, of k d] by (simp add: icl_hash_insert_def)
  next
    case (Some v)
    then show ?thesis using inv b bucket_member [OF inv, of k] by (simp add: icl_hash_insert_def)
  qed
qed

lemma icl_update_ok:
  assumes inv: "icl_inv ht"
  shows "\<exists>h. icl_hash_update_insert True ht (Some k) d = Inr (True, h) \<and> icl_inv h \<and> hash_key_compare h = hash_key_compare ht \<and>
    icl_entry h = set_key (hash_key_compare ht) k (Some d) (icl_entry ht) \<and> nentries h = nentries ht + 1"
proof -
  note b = bucket_of_ok [OF inv, of k]
  let ?h = "ht\<lparr>buckets := (buckets ht)[icl_index ht k :=
      filter (\<lambda>(k', d). \<not> hash_key_compare ht k' k) (buckets ht ! icl_index ht k)], nentries := nentries ht\<rparr>"
  note h = remove_key_ok [OF inv, where k = k and n = "nentries ht"]
  have i: "icl_index ?h k = icl_index ht k" by (simp add: icl_index_def)
  have "\<forall>(k', d') \<in> set (buckets ?h ! icl_index ?h k). \<not> hash_key_compare ?h k' k" using b by (auto simp: i)
  then have a: "icl_inv (add_entry (icl_index ?h k) k d ?h)"
    "icl_entry (add_entry (icl_index ?h k) k d ?h) = set_key (hash_key_compare ?h) k (Some d) (icl_entry ?h)"
    using add_entry_ok [OF h(1), of k d] by blast+
  have "icl_hash_update_insert True ht (Some k) d = Inr (True, add_entry (icl_index ht k) k d ?h)"
    using b unlink_scan_filter [OF inv uniq_bucket [OF inv], of k k] by (simp add: icl_hash_update_insert_def)
  moreover have "set_key (hash_key_compare ht) k (Some d) (set_key (hash_key_compare ht) k None (icl_entry ht)) =
      set_key (hash_key_compare ht) k (Some d) (icl_entry ht)"
    by (simp add: set_key_def fun_eq_iff)
  ultimately show ?thesis using a h(2) unfolding i by simp
qed

lemma icl_delete_ok:
  assumes inv: "icl_inv ht"
  shows "\<exists>r ks ds h. icl_hash_delete fk fd ht (Some k) = Inr (r, ks, ds, h) \<and> icl_inv h \<and> hash_key_compare h = hash_key_compare ht \<and>
    (if icl_entry ht k = None then r = - 1 \<and> h = ht \<and> ks = [] \<and> ds = []
     else r = 0 \<and> icl_entry h = set_key (hash_key_compare ht) k None (icl_entry ht) \<and> nentries h = nentries ht + 1 \<and>
       ds = (if fd then case icl_entry ht k of Some (Some x) \<Rightarrow> [x] | _ \<Rightarrow> [] else []))"
proof -
  note b = bucket_of_ok [OF inv, of k]
  note u = unlink_first_spec [OF inv uniq_bucket [OF inv, of k], of k]
  show ?thesis
  proof (cases "unlink_first (\<lambda>k'. hash_key_compare ht k' k) (buckets ht ! icl_index ht k)")
    case None
    then show ?thesis using u b inv by (simp add: icl_hash_delete_def icl_entry_def)
  next
    case (Some p)
    obtain k' d es where p: "p = ((k', d), es)" by (metis prod.exhaust)
    have f: "find (\<lambda>(k', d). hash_key_compare ht k' k) (buckets ht ! icl_index ht k) = Some (k', d)"
      "es = filter (\<lambda>(k', d). \<not> hash_key_compare ht k' k) (buckets ht ! icl_index ht k)"
      using u Some p by auto
    note h = remove_key_ok [OF inv, where k = k and n = "nentries ht + 1"]
    have e: "icl_entry ht k = Some d" using f(1) by (simp add: icl_entry_def)
    show ?thesis using b Some p h e f(2) by (auto simp: icl_hash_delete_def split: option.splits)
  qed
qed

text \<open>The table provides the interface of the deduplication's table: looking up, and setting, a key.\<close>

definition icl_search :: "('k, 'd) icl_hash \<Rightarrow> 'k \<Rightarrow> 'd option" where
  "icl_search ht k = (case icl_hash_find ht (Some k) of Inl e \<Rightarrow> None | Inr r \<Rightarrow> r)"

definition icl_add :: "('k, 'd) icl_hash \<Rightarrow> 'k \<Rightarrow> 'd \<Rightarrow> ('k, 'd) icl_hash" where
  "icl_add ht k v = (case icl_hash_update_insert True ht (Some k) (Some v) of Inl e \<Rightarrow> ht | Inr (b, h) \<Rightarrow> h)"

lemma icl_add_compare: "hash_key_compare (icl_add ht k v) = hash_key_compare ht"
  by (auto simp: icl_add_def icl_hash_update_insert_def Let_def split: sum.splits)

interpretation icl: key_table icl_search icl_add hash_key_compare icl_inv
proof unfold_locales
  fix h :: "('k, 'd) icl_hash" and k l m :: 'k and v :: 'd
  show "hash_key_compare (icl_add h k v) = hash_key_compare h" by (rule icl_add_compare)
  assume inv: "icl_inv h"
  show "hash_key_compare h k k" by (rule cmp_equiv(1) [OF inv])
  show "hash_key_compare h k l \<Longrightarrow> hash_key_compare h l k" by (rule cmp_equiv(2) [OF inv])
  show "hash_key_compare h k l \<Longrightarrow> hash_key_compare h l m \<Longrightarrow> hash_key_compare h k m" by (rule cmp_equiv(3) [OF inv])
  show "hash_key_compare h k l \<Longrightarrow> icl_search h k = icl_search h l"
    using cmp_equiv(4) [OF inv, of k l] cmp_same(1) [OF inv, of k l]
    by (simp add: icl_search_def icl_find_entry [OF inv] icl_entry_def)
  obtain h' where h': "icl_hash_update_insert True h (Some k) (Some v) = Inr (True, h')" "icl_inv h'"
    "icl_entry h' = set_key (hash_key_compare h) k (Some (Some v)) (icl_entry h)"
    using icl_update_ok [OF inv, of k "Some v"] by blast
  then have a: "icl_add h k v = h'" by (simp add: icl_add_def)
  show "icl_inv (icl_add h k v)" using a h'(2) by simp
  have "hash_key_compare h k l \<longleftrightarrow> hash_key_compare h l k" using cmp_equiv(2) [OF inv] by blast
  then show "icl_search (icl_add h k v) l = (if hash_key_compare h l k then Some v else icl_search h l)"
    using h' by (simp add: a icl_search_def icl_find_entry inv set_key_def)
qed

subsection \<open>Runs\<close>

datatype ('k, 'd) icl_op = IclInsert 'k "'d option" | IclUpdate 'k "'d option" | IclDelete 'k

fun icl_do :: "('k, 'd) icl_op \<Rightarrow> ('k, 'd) icl_hash \<Rightarrow> err + (int \<times> ('k, 'd) icl_hash)" where
  "icl_do (IclInsert k d) ht = map_sum id (apfst of_bool) (icl_hash_insert True ht (Some k) d)"
| "icl_do (IclUpdate k d) ht = map_sum id (apfst of_bool) (icl_hash_update_insert True ht (Some k) d)"
| "icl_do (IclDelete k) ht = map_sum id (\<lambda>(r, ks, ds, h). (r, h)) (icl_hash_delete False False ht (Some k))"

fun icl_run :: "('k, 'd) icl_op list \<Rightarrow> ('k, 'd) icl_hash \<Rightarrow> err + (int list \<times> ('k, 'd) icl_hash)" where
  "icl_run [] ht = Inr ([], ht)"
| "icl_run (p # ps) ht = (case icl_do p ht of Inl e \<Rightarrow> Inl e
     | Inr (r, h) \<Rightarrow> map_sum id (apfst ((#) r)) (icl_run ps h))"

text \<open>The same calls on a map from keys to data pointers, for keys compared by \<open>cmp\<close>.\<close>

fun map_do :: "('k \<Rightarrow> 'k \<Rightarrow> bool) \<Rightarrow> ('k, 'd) icl_op \<Rightarrow> ('k \<Rightarrow> 'd option option) \<Rightarrow> int \<times> ('k \<Rightarrow> 'd option option)" where
  "map_do cmp (IclInsert k d) m = (if m k = None then (1, set_key cmp k (Some d) m) else (0, m))"
| "map_do cmp (IclUpdate k d) m = (1, set_key cmp k (Some d) m)"
| "map_do cmp (IclDelete k) m = (if m k = None then (- 1, m) else (0, set_key cmp k None m))"

fun map_run :: "('k \<Rightarrow> 'k \<Rightarrow> bool) \<Rightarrow> ('k, 'd) icl_op list \<Rightarrow> ('k \<Rightarrow> 'd option option) \<Rightarrow> int list \<times> ('k \<Rightarrow> 'd option option)" where
  "map_run cmp [] m = ([], m)"
| "map_run cmp (p # ps) m = (case map_do cmp p m of (r, m) \<Rightarrow> apfst ((#) r) (map_run cmp ps m))"

lemma icl_do_ok:
  assumes inv: "icl_inv ht"
  shows "\<exists>r h. icl_do p ht = Inr (r, h) \<and> map_do (hash_key_compare ht) p (icl_entry ht) = (r, icl_entry h) \<and>
    icl_inv h \<and> hash_key_compare h = hash_key_compare ht"
proof (cases p)
  case (IclInsert k d)
  then show ?thesis using icl_insert_ok [OF inv, of k d] by (auto split: if_splits)
next
  case (IclUpdate k d)
  then show ?thesis using icl_update_ok [OF inv, of k d] by auto
next
  case (IclDelete k)
  then show ?thesis using icl_delete_ok [OF inv, of False False k] by (auto split: if_splits)
qed

lemma icl_run_ok:
  "icl_inv ht \<Longrightarrow> \<exists>rs h. icl_run ps ht = Inr (rs, h) \<and> map_run (hash_key_compare ht) ps (icl_entry ht) = (rs, icl_entry h) \<and> icl_inv h"
proof (induction ps arbitrary: ht)
  case (Cons p ps)
  obtain r h where h: "icl_do p ht = Inr (r, h)" "map_do (hash_key_compare ht) p (icl_entry ht) = (r, icl_entry h)"
    "icl_inv h" "hash_key_compare h = hash_key_compare ht"
    using icl_do_ok [OF Cons.prems, of p] by blast
  then show ?case using Cons.IH [of h] by auto
qed simp

lemma pjw_step_bound:
  fixes h :: u32
  shows "unat ((h XOR x) AND NOT HIGH_BITS) < 2 ^ 28" and "h AND HIGH_BITS = 0 \<Longrightarrow> unat h < 2 ^ 28"
proof -
  have m: "NOT HIGH_BITS = (mask 28 :: u32)" by (simp add: HIGH_BITS_def mask_eq_exp_minus_1)
  have lt: "unat (w AND mask 28) < 2 ^ 28" for w :: u32
  proof -
    have "unat (w AND mask 28) = take_bit 28 (unat w)" by (metis take_bit_eq_mask unsigned_take_bit_eq)
    then show ?thesis by (metis take_bit_nat_less_exp)
  qed
  show "unat ((h XOR x) AND NOT HIGH_BITS) < 2 ^ 28" unfolding m by (rule lt)
  assume "h AND HIGH_BITS = 0"
  then have "h = h AND NOT HIGH_BITS" by (metis (no_types, lifting) and.right_neutral bit.conj_disj_distrib bit.disj_cancel_right or.left_neutral)
  then have "h = h AND mask 28" by (simp only: m)
  then show "unat h < 2 ^ 28" using lt [of h] by metis
qed

lemma pjw_loop_bound: "unat h < 2 ^ 28 \<Longrightarrow> unat (pjw_loop cs h) < 2 ^ 28"
proof (induction cs h rule: pjw_loop.induct)
  case (2 c cs h)
  then show ?case using pjw_step_bound by (auto simp: Let_def)
qed simp


subsection \<open>Properties\<close>

text \<open>
  C18. The table behaves as a map from keys to data pointers: every sequence of insertions, updates
  and deletions on a fresh table returns what the map returns, and a search afterwards finds the
  data of the map (the null pointer for a key that is absent), whatever the hash function.
\<close>

theorem icl_hash_refines_map:
  assumes "icl_hash_create True True n hf kc = Inr ht" and "0 < n" and "n < 2 ^ 31" and "icl_keys_ok ht"
  shows "\<exists>rs h m. icl_run ps ht = Inr (rs, h) \<and> map_run (hash_key_compare ht) ps (\<lambda>_. None) = (rs, m) \<and>
    (\<forall>k. icl_hash_find h (Some k) = Inr (case m k of None \<Rightarrow> None | Some d \<Rightarrow> d))"
proof -
  have inv: "icl_inv ht" "icl_entry ht = (\<lambda>_. None)" using icl_create_inv [OF assms] by auto
  obtain rs h where "icl_run ps ht = Inr (rs, h)" "map_run (hash_key_compare ht) ps (icl_entry ht) = (rs, icl_entry h)" "icl_inv h"
    using icl_run_ok [OF inv(1), of ps] by blast
  then show ?thesis using inv(2) icl_find_entry by auto
qed

theorem icl_hash_refines_map_witness:
  "\<exists>ht h. icl_hash_create True True 1 None None = Inr ht \<and>
    icl_run [IclInsert [97] (Some 1), IclInsert [98] (Some 2), IclInsert [97] (Some 3), IclUpdate [98] (Some (4 :: nat)), IclDelete [97]] ht =
      Inr ([1, 1, 0, 1, 0], h) \<and>
    icl_hash_find h (Some [98]) = Inr (Some 4) \<and> icl_hash_find h (Some [97]) = Inr None"
proof -
  obtain ht :: "(byte list, nat) icl_hash" where ht: "icl_hash_create True True 1 None None = Inr ht"
    by (simp add: icl_hash_create_def)
  have cmp: "hash_key_compare ht = string_compare" using ht by (auto simp: icl_hash_create_def)
  let ?ps = "[IclInsert [97] (Some 1), IclInsert [98] (Some 2), IclInsert [97] (Some 3), IclUpdate [98] (Some (4 :: nat)),
    IclDelete [97 :: byte]]"
  obtain rs h m where r: "icl_run ?ps ht = Inr (rs, h)" "map_run (hash_key_compare ht) ?ps (\<lambda>_. None) = (rs, m)"
    "\<forall>k. icl_hash_find h (Some k) = Inr (case m k of None \<Rightarrow> None | Some d \<Rightarrow> d)"
    using icl_hash_refines_map [OF ht _ _ default_functions [OF ht], of ?ps] by auto
  have "rs = [1, 1, 0, 1, 0]" "m [98] = Some (Some 4)" "m [97] = None"
    using r(2) by (auto simp: cmp set_key_def string_compare_def)
  then show ?thesis using ht r by auto
qed

text \<open>
  C35. Deleting an entry increments the entry counter instead of decrementing it: adding a key and
  deleting it again restores every search, but the counter has grown by two. An update that
  replaces an entry counts as another entry, too.
\<close>

theorem icl_hash_nentries_drift:
  assumes "icl_inv ht" and "icl_entry ht k = None"
  shows "\<exists>h h'. icl_hash_insert True ht (Some k) (Some d) = Inr (True, h) \<and> icl_hash_find h (Some k) = Inr (Some d) \<and>
    icl_hash_delete True True h (Some k) = Inr (0, [k], [d], h') \<and>
    (\<forall>l. icl_hash_find h' (Some l) = icl_hash_find ht (Some l)) \<and> nentries h' = nentries ht + 2"
proof -
  obtain h where h: "icl_hash_insert True ht (Some k) (Some d) = Inr (True, h)" "icl_inv h"
    "hash_key_compare h = hash_key_compare ht"
    "icl_entry h = set_key (hash_key_compare ht) k (Some (Some d)) (icl_entry ht)" "nentries h = nentries ht + 1"
    using icl_insert_ok [OF assms(1), of k "Some d"] assms(2) by auto
  have k: "icl_entry h k = Some (Some d)" using h(4) cmp_equiv(1) [OF assms(1), of k] by (simp add: set_key_def)
  obtain ks h' where h': "icl_hash_delete True True h (Some k) = Inr (0, ks, [d], h')" "icl_inv h'"
    "icl_entry h' = set_key (hash_key_compare h) k None (icl_entry h)" "nentries h' = nentries h + 1"
    using icl_delete_ok [OF h(2), of True True k] k by auto
  have "icl_entry h' l = icl_entry ht l" for l
  proof (cases "hash_key_compare ht k l")
    case True
    then have "icl_entry ht l = icl_entry ht k"
      by (simp add: icl_entry_def cmp_equiv(4) [OF assms(1) True] cmp_same(1) [OF assms(1) True])
    then show ?thesis using True assms(2) h'(3) h(3) by (simp add: set_key_def)
  qed (simp add: h'(3) h(3,4) set_key_def)
  moreover have "ks = [k]"
    using h(1) h'(1) bucket_of_ok [OF assms(1), of k] cmp_equiv(1) [OF assms(1), of k]
    by (auto simp: icl_hash_insert_def icl_hash_delete_def add_entry_def bucket_of_def Let_def split: if_splits)
  ultimately show ?thesis using h h' k by (auto simp: icl_find_entry assms(1))
qed

theorem icl_hash_nentries_drift_witness:
  "\<exists>ht h h'. icl_hash_create True True 8 None None = Inr ht \<and>
    icl_hash_insert True ht (Some [97]) (Some (5 :: nat)) = Inr (True, h) \<and>
    icl_hash_delete True True h (Some [97]) = Inr (0, [[97]], [5], h') \<and> nentries h' = 2"
proof -
  obtain ht :: "(byte list, nat) icl_hash" where ht: "icl_hash_create True True 8 None None = Inr ht" "nentries ht = 0"
    by (simp add: icl_hash_create_def)
  have "icl_inv ht" "icl_entry ht [97] = None"
    using icl_create_inv [OF ht(1) _ _ default_functions [OF ht(1)]] by auto
  from icl_hash_nentries_drift [OF this, of 5] show ?thesis using ht by auto
qed

text \<open>
  The string hash is a number below $2^{28}$, ends at the first zero byte and respects the
  comparison of strings, so that the default functions fit together.
\<close>

theorem hash_pjw_range:
  "unat (hash_pjw key) < 2 ^ 28 \<and> hash_pjw None = 0 \<and>
    (string_compare a b \<longrightarrow> hash_pjw (Some a) = hash_pjw (Some b)) \<and> hash_pjw (Some (s @ 0 # t)) = hash_pjw (Some s)"
proof -
  have "pjw_loop (s @ 0 # t) h = pjw_loop s h" for h
    by (induction s h rule: pjw_loop.induct) (auto simp: Let_def)
  then show ?thesis
    using pjw_loop_bound [of 0] pjw_stops [of a 0] pjw_stops [of b 0]
    by (auto simp: hash_pjw_def string_compare_def split: option.splits)
qed

theorem hash_pjw_range_witness:
  "hash_pjw (Some [98, 0, 99]) = hash_pjw (Some [98, 0])"
  using hash_pjw_range [of None "[98, 0, 99]" "[98, 0]" "[]" "[]"] by (simp add: string_compare_def)

end
