(* ===== verification/DedupReorder.thy ===== *)
theory DedupReorder
  imports DedupWorkers "HOL-Library.Multiset"
begin

text \<open>
  The last stage of the pipe of farms (class \<open>Reorder\<close> of \<open>encoder_ff_pipeoffarms.cpp\<close>): the
  chunks of a file arrive in any order, from all the workers of the stages before; the stage
  writes the chunk that is next in the file and keeps every other one in a cache, a search tree
  from first-level numbers to heaps ordered by the whole number. An array records, for every
  first-level number, how many chunks it has, once its last chunk has been seen. \<open>calls\<close> is the
  history of the calls to \<open>write_chunk_to_file\<close> and \<open>free\<close>.
\<close>

subsection \<open>The cache of the reorder stage\<close>

text \<open>
  The search tree and the heaps (\<open>tree.h\<close>, \<open>binheap.h\<close>) are not part of the repository: their
  operations are parameters. The queue of a tree element is a pointer, here the number of the
  heap in \<open>queues\<close>; a position is the element it points to.
\<close>

type_synonym element = "u32 \<times> nat"

record ('t, 'h) cache_ops =
  TreeMakeEmpty :: 't
  TreeFind :: "u32 \<Rightarrow> 't \<Rightarrow> element option"
  TreeFindMin :: "'t \<Rightarrow> element option"
  TreeInsert :: "element \<Rightarrow> 't \<Rightarrow> 't"
  TreeDelete :: "element \<Rightarrow> 't \<Rightarrow> 't"
  Initialize :: "nat \<Rightarrow> 'h"
  Insert :: "chunk_t \<Rightarrow> 'h \<Rightarrow> 'h"
  FindMin :: "'h \<Rightarrow> chunk_t"
  DeleteMin :: "'h \<Rightarrow> 'h"
  IsEmpty :: "'h \<Rightarrow> bool"

definition INITIAL_SEARCH_TREE_SIZE :: nat where "INITIAL_SEARCH_TREE_SIZE = 4096"

text \<open>The calls of the stage that have an effect outside it, in order.\<close>

datatype rcall = Write chunk_t | Free chunk_t

record ('t, 'h) reorder =
  T :: 't
  queues :: "nat \<Rightarrow> 'h option"
  next_queue :: nat
  next_seq :: sequence_t
  chunks_per_anchor :: "u32 list"
  reorder_nw :: nat
  terminated_w :: nat
  calls :: "rcall list"

definition Reorder :: "('t, 'h) cache_ops \<Rightarrow> bool \<Rightarrow> nat \<Rightarrow> err + ('t, 'h) reorder" where
  "Reorder ops alloc n =
     (if \<not> alloc then Inl (ExitTrace ''Error allocating memory'')
      else Inr \<lparr>T = TreeMakeEmpty ops, queues = (\<lambda>_. None), next_queue = 0, next_seq = sequence_reset (Seq 0 0),
        chunks_per_anchor = replicate 1024 0, reorder_nw = n, terminated_w = 0, calls = []\<rparr>)"

text \<open>
  Growing the array of expected numbers, and recording the one of the chunk. Its length is kept in
  the 32-bit \<open>chunks_per_anchor_max\<close>; \<open>alloc\<close> answers the calls of \<open>realloc\<close>, for a number of
  entries. When doubling wraps around, the block gets smaller and \<open>memset\<close> writes behind it.
\<close>

definition grow_anchors :: "(nat \<Rightarrow> bool) \<Rightarrow> chunk_t \<Rightarrow> ('t, 'h) reorder \<Rightarrow> err + ('t, 'h) reorder" where
  "grow_anchors alloc chunk st =
     (let chunks_per_anchor_max = of_nat (length (chunks_per_anchor st)) :: u32;
          m = 2 * chunks_per_anchor_max in
      if chunks_per_anchor_max \<le> l1num (seqno chunk) then
        (if \<not> alloc (unat m) then Inl (ExitTrace ''Error allocating memory'')
         else if unat m < 2 * unat chunks_per_anchor_max then Inl BadAccess
         else Inr (st\<lparr>chunks_per_anchor := chunks_per_anchor st @ replicate (unat chunks_per_anchor_max) 0\<rparr>))
      else Inr st)"

lemma grow_anchors_eq:
  assumes "length (chunks_per_anchor st) < 2 ^ 32" and "\<And>n. alloc n"
    and "length (chunks_per_anchor st) \<le> unat (l1num (seqno c)) \<Longrightarrow> length (chunks_per_anchor st) < 2 ^ 31"
  shows "grow_anchors alloc c st =
    Inr (st\<lparr>chunks_per_anchor := (if length (chunks_per_anchor st) \<le> unat (l1num (seqno c))
      then chunks_per_anchor st @ replicate (length (chunks_per_anchor st)) 0 else chunks_per_anchor st)\<rparr>)"
proof -
  let ?m = "length (chunks_per_anchor st)"
  have m: "unat (of_nat ?m :: u32) = ?m" using assms(1) by (simp add: unat_of_nat)
  have "unat (2 * of_nat ?m :: u32) = 2 * ?m" if "?m \<le> unat (l1num (seqno c))"
    using assms(3) [OF that] by (simp add: unat_word_ariths m)
  then show ?thesis using m assms(2) by (simp add: grow_anchors_def Let_def word_le_nat_alt)
qed

definition expect_l2 :: "chunk_t \<Rightarrow> ('t, 'h) reorder \<Rightarrow> err + ('t, 'h) reorder" where
  "expect_l2 chunk st =
     (let i = unat (l1num (seqno chunk)) in
      if isLastL2Chunk chunk then
        (if length (chunks_per_anchor st) \<le> i then Inl BadAccess
         else if chunks_per_anchor st ! i \<noteq> 0 then Inl AssertFailed
         else Inr (st\<lparr>chunks_per_anchor := (chunks_per_anchor st)[i := l2num (seqno chunk) + 1]\<rparr>))
      else Inr st)"

definition put_cache :: "('t, 'h) cache_ops \<Rightarrow> chunk_t \<Rightarrow> ('t, 'h) reorder \<Rightarrow> err + ('t, 'h) reorder" where
  "put_cache ops chunk st =
     (case TreeFind ops (l1num (seqno chunk)) (T st) of
        None \<Rightarrow>
          let q = next_queue st in
          Inr (st\<lparr>queues := (queues st)(q \<mapsto> Insert ops chunk (Initialize ops INITIAL_SEARCH_TREE_SIZE)),
                  next_queue := q + 1, T := TreeInsert ops (l1num (seqno chunk), q) (T st)\<rparr>)
      | Some (l, q) \<Rightarrow>
          (case queues st q of None \<Rightarrow> Inl BadAccess
           | Some h \<Rightarrow> Inr (st\<lparr>queues := (queues st)(q \<mapsto> Insert ops chunk h)\<rparr>)))"

text \<open>Writing the chunk that is next, and advancing to the number after it.\<close>

definition write_next :: "chunk_t \<Rightarrow> ('t, 'h) reorder \<Rightarrow> err + ('t, 'h) reorder" where
  "write_next chunk st =
     (let st = st\<lparr>calls := calls st @ Write chunk # (if isDuplicate chunk then [Free chunk] else []),
                  next_seq := sequence_inc_l2 (next_seq st)\<rparr>;
          i = unat (l1num (next_seq st)) in
      if length (chunks_per_anchor st) \<le> i then Inl BadAccess
      else if chunks_per_anchor st ! i \<noteq> 0 \<and> l2num (next_seq st) = chunks_per_anchor st ! i
        then Inr (st\<lparr>next_seq := sequence_inc_l1 (next_seq st)\<rparr>)
      else Inr st)"

text \<open>Taking the minimum out of the queue at a position.\<close>

definition take_min :: "('t, 'h) cache_ops \<Rightarrow> element \<Rightarrow> 'h \<Rightarrow> ('t, 'h) reorder \<Rightarrow> element option \<times> ('t, 'h) reorder" where
  "take_min ops e h st =
     (let h' = DeleteMin ops h; st = st\<lparr>queues := (queues st)(snd e \<mapsto> h')\<rparr> in
      if IsEmpty ops h' then
        let st = st\<lparr>queues := (queues st)(snd e := None), T := TreeDelete ops e (T st)\<rparr> in
        (TreeFindMin ops (T st), st)
      else (Some e, st))"

definition next_from_cache ::
  "('t, 'h) cache_ops \<Rightarrow> element option \<Rightarrow> ('t, 'h) reorder \<Rightarrow> err + (chunk_t option \<times> element option \<times> ('t, 'h) reorder)" where
  "next_from_cache ops pos st =
     (case pos of None \<Rightarrow> Inr (None, pos, st)
      | Some e \<Rightarrow>
        if fst e = l1num (next_seq st) then
          (case queues st (snd e) of None \<Rightarrow> Inl BadAccess
           | Some h \<Rightarrow>
             let chunk = FindMin ops h in
             if sequence_eq (seqno chunk) (next_seq st)
             then (case take_min ops e h st of (pos, st) \<Rightarrow> Inr (Some chunk, pos, st))
             else Inr (None, pos, st))
        else Inr (None, pos, st))"

text \<open>
  The loop that writes as many chunks as possible. The fuel bounds its rounds: \<open>None\<close> when it is
  used up. Every round but the first takes a chunk out of the cache.
\<close>

fun write_loop :: "('t, 'h) cache_ops \<Rightarrow> nat \<Rightarrow> chunk_t \<Rightarrow> element option \<Rightarrow> ('t, 'h) reorder \<Rightarrow> (err + ('t, 'h) reorder) option" where
  "write_loop ops 0 chunk pos st = None"
| "write_loop ops (Suc k) chunk pos st =
     (case write_next chunk st of Inl e \<Rightarrow> Some (Inl e)
      | Inr st \<Rightarrow> (case next_from_cache ops pos st of Inl e \<Rightarrow> Some (Inl e)
        | Inr (None, pos, st) \<Rightarrow> Some (Inr st)
        | Inr (Some chunk, pos, st) \<Rightarrow> write_loop ops k chunk pos st))"

text \<open>The body of the loop over the received buffer.\<close>

definition reorder_chunk ::
  "('t, 'h) cache_ops \<Rightarrow> (nat \<Rightarrow> bool) \<Rightarrow> nat \<Rightarrow> chunk_t \<Rightarrow> ('t, 'h) reorder \<Rightarrow> (err + ('t, 'h) reorder) option" where
  "reorder_chunk ops alloc k chunk st =
     (case grow_anchors alloc chunk st of Inl e \<Rightarrow> Some (Inl e)
      | Inr st \<Rightarrow> (case expect_l2 chunk st of Inl e \<Rightarrow> Some (Inl e)
        | Inr st \<Rightarrow>
          if \<not> sequence_eq (seqno chunk) (next_seq st) then Some (put_cache ops chunk st)
          else write_loop ops k chunk (TreeFindMin ops (T st)) st))"

fun drain :: "nat \<Rightarrow> ('a \<Rightarrow> 's \<Rightarrow> (err + 's) option) \<Rightarrow> 'a ringbuffer \<Rightarrow> 's \<Rightarrow> (err + 's) option" where
  "drain 0 body buf s = Some (Inr s)"
| "drain (Suc n) body buf s =
     (if ringbuffer_isEmpty buf then Some (Inr s)
      else case ringbuffer_remove buf of (None, _) \<Rightarrow> Some (Inr s)
       | (Some x, buf) \<Rightarrow> (case body x s of None \<Rightarrow> None
          | Some (Inl e) \<Rightarrow> Some (Inl e) | Some (Inr s) \<Rightarrow> drain n body buf s))"

text \<open>After the last buffer: what is left in the cache must be in sequence.\<close>

fun flush_loop :: "('t, 'h) cache_ops \<Rightarrow> nat \<Rightarrow> element option \<Rightarrow> ('t, 'h) reorder \<Rightarrow> (err + ('t, 'h) reorder) option" where
  "flush_loop ops k None st = Some (Inr st)"
| "flush_loop ops 0 (Some e) st = None"
| "flush_loop ops (Suc k) (Some e) st =
     (if fst e = l1num (next_seq st) then
        (case queues st (snd e) of None \<Rightarrow> Some (Inl BadAccess)
         | Some h \<Rightarrow>
           let chunk = FindMin ops h in
           if sequence_eq (seqno chunk) (next_seq st)
           then (case take_min ops e h st of (pos, st) \<Rightarrow>
              (case write_next chunk st of Inl e \<Rightarrow> Some (Inl e) | Inr st \<Rightarrow> flush_loop ops k pos st))
           else Some (Inl (ExitTrace ''L2 sequence number mismatch.'')))
      else Some (Inl (ExitTrace ''L1 sequence number mismatch.'')))"

definition Reorder_svc ::
  "('t, 'h) cache_ops \<Rightarrow> (nat \<Rightarrow> bool) \<Rightarrow> nat \<Rightarrow> chunk_t ringbuffer \<Rightarrow> ('t, 'h) reorder \<Rightarrow> (err + ('t, 'h) reorder) option" where
  "Reorder_svc ops alloc k recv_buf st =
     (case drain (rb_size recv_buf) (reorder_chunk ops alloc k) recv_buf st of
        None \<Rightarrow> None | Some (Inl e) \<Rightarrow> Some (Inl e)
      | Some (Inr st) \<Rightarrow>
          let st = (if ringbuffer_isLast recv_buf then st\<lparr>terminated_w := terminated_w st + 1\<rparr> else st) in
          if terminated_w st = reorder_nw st then flush_loop ops k (TreeFindMin ops (T st)) st else Some (Inr st))"

fun reorder_run ::
  "('t, 'h) cache_ops \<Rightarrow> (nat \<Rightarrow> bool) \<Rightarrow> nat \<Rightarrow> chunk_t ringbuffer list \<Rightarrow> ('t, 'h) reorder \<Rightarrow> (err + ('t, 'h) reorder) option" where
  "reorder_run ops alloc k [] st = Some (Inr st)"
| "reorder_run ops alloc k (b # bs) st =
     (case Reorder_svc ops alloc k b st of None \<Rightarrow> None | Some (Inl e) \<Rightarrow> Some (Inl e)
      | Some (Inr st) \<Rightarrow> reorder_run ops alloc k bs st)"

subsection \<open>What the stage relies on\<close>

text \<open>
  The documented behaviour of the containers: the tree is a map from numbers to queues whose
  minimum can be found, a heap is a bag of chunks of which it yields one with the least number.
\<close>

definition tree_laws :: "('t, 'h) cache_ops \<Rightarrow> ('t \<Rightarrow> u32 \<Rightarrow> nat option) \<Rightarrow> bool" where
  "tree_laws ops tm \<longleftrightarrow>
     tm (TreeMakeEmpty ops) = (\<lambda>_. None) \<and>
     (\<forall>t l. TreeFind ops l t = map_option (Pair l) (tm t l)) \<and>
     (\<forall>t l q. tm t l = None \<longrightarrow> tm (TreeInsert ops (l, q) t) = (tm t)(l \<mapsto> q)) \<and>
     (\<forall>t l q. tm t l = Some q \<longrightarrow> tm (TreeDelete ops (l, q) t) = (tm t)(l := None)) \<and>
     (\<forall>t. tm t = (\<lambda>_. None) \<longrightarrow> TreeFindMin ops t = None) \<and>
     (\<forall>t l q. tm t l = Some q \<longrightarrow> (\<exists>l' q'. TreeFindMin ops t = Some (l', q') \<and> tm t l' = Some q' \<and> l' \<le> l))"

definition heap_laws :: "('t, 'h) cache_ops \<Rightarrow> ('h \<Rightarrow> chunk_t multiset) \<Rightarrow> bool" where
  "heap_laws ops hm \<longleftrightarrow>
     (\<forall>n. hm (Initialize ops n) = {#}) \<and>
     (\<forall>c h. hm (Insert ops c h) = add_mset c (hm h)) \<and>
     (\<forall>h. IsEmpty ops h \<longleftrightarrow> hm h = {#}) \<and>
     (\<forall>h. hm h \<noteq> {#} \<longrightarrow> FindMin ops h \<in># hm h \<and> (\<forall>c \<in># hm h. seqno (FindMin ops h) \<le> seqno c) \<and>
        hm (DeleteMin ops h) = hm h - {#FindMin ops h#})"

subsection \<open>The cache as a set of chunks\<close>

definition level :: "chunk_t set \<Rightarrow> u32 \<Rightarrow> chunk_t set" where
  "level K l = {c \<in> K. l1num (seqno c) = l}"

lemma finite_level [simp]: "finite K \<Longrightarrow> finite (level K l)"
  by (simp add: level_def)

lemma in_level [simp]: "c \<in> level K l \<longleftrightarrow> c \<in> K \<and> l1num (seqno c) = l"
  by (simp add: level_def)

definition cache_ok :: "('t \<Rightarrow> u32 \<Rightarrow> nat option) \<Rightarrow> ('h \<Rightarrow> chunk_t multiset) \<Rightarrow> chunk_t set \<Rightarrow> ('t, 'h) reorder \<Rightarrow> bool" where
  "cache_ok tm hm K st \<longleftrightarrow> finite K \<and>
     (\<forall>l. tm (T st) l = None \<longrightarrow> level K l = {}) \<and>
     (\<forall>l q. tm (T st) l = Some q \<longrightarrow> q < next_queue st \<and> level K l \<noteq> {} \<and>
        (\<exists>h. queues st q = Some h \<and> hm h = mset_set (level K l)) \<and>
        (\<forall>l'. tm (T st) l' = Some q \<longrightarrow> l' = l))"

lemma level_empty [simp]: "level {} l = {}"
  by (simp add: level_def)

lemma cache_ok_none: "cache_ok tm hm K st \<Longrightarrow> tm (T st) l = None \<Longrightarrow> level K l = {}"
  by (simp add: cache_ok_def)

lemma cache_ok_some:
  assumes "cache_ok tm hm K st" and "tm (T st) l = Some q"
  obtains h where "q < next_queue st" "queues st q = Some h" "hm h = mset_set (level K l)"
    "level K l \<noteq> {}" "\<forall>l'. tm (T st) l' = Some q \<longrightarrow> l' = l"
proof -
  have a: "q < next_queue st \<and> level K l \<noteq> {} \<and>
      (\<exists>h. queues st q = Some h \<and> hm h = mset_set (level K l)) \<and>
      (\<forall>l'. tm (T st) l' = Some q \<longrightarrow> l' = l)"
    using assms unfolding cache_ok_def by blast
  then obtain h where "queues st q = Some h" "hm h = mset_set (level K l)" by blast
  then show ?thesis using that a by blast
qed

lemma put_cache_ok:
  assumes t: "tree_laws ops tm" and h: "heap_laws ops hm" and ok: "cache_ok tm hm K st" and c: "c \<notin> K"
  shows "\<exists>t' qs n. put_cache ops c st = Inr (st\<lparr>T := t', queues := qs, next_queue := n\<rparr>) \<and>
    cache_ok tm hm (insert c K) (st\<lparr>T := t', queues := qs, next_queue := n\<rparr>)"
proof -
  let ?l = "l1num (seqno c)"
  have fin: "finite K" using ok by (simp add: cache_ok_def)
  have find: "TreeFind ops ?l (T st) = map_option (Pair ?l) (tm (T st) ?l)" using t by (simp add: tree_laws_def)
  have ins: "level (insert c K) l = (if l = ?l then insert c (level K l) else level K l)" for l
    by auto
  have new: "mset_set (insert c (level K ?l)) = add_mset c (mset_set (level K ?l))"
    using fin c by (simp add: mset_set.insert)
  show ?thesis
  proof (cases "tm (T st) ?l")
    case None
    let ?q = "next_queue st" and ?t = "TreeInsert ops (?l, next_queue st) (T st)"
    let ?h = "Insert ops c (Initialize ops INITIAL_SEARCH_TREE_SIZE)"
    have tm': "tm ?t = (tm (T st))(?l \<mapsto> ?q)" using t None by (simp add: tree_laws_def)
    have e: "level K ?l = {}" by (rule cache_ok_none [OF ok None])
    have hq: "hm ?h = add_mset c {#}" using h by (simp add: heap_laws_def)
    have lt: "q < ?q" if "tm (T st) l = Some q" for l q by (rule cache_ok_some [OF ok that])
    have "cache_ok tm hm (insert c K) (st\<lparr>T := ?t, queues := (queues st)(?q \<mapsto> ?h), next_queue := ?q + 1\<rparr>)"
      unfolding cache_ok_def
    proof (intro conjI allI impI)
      show "finite (insert c K)" using fin by simp
    next
      fix l assume "tm (T (st\<lparr>T := ?t, queues := (queues st)(?q \<mapsto> ?h), next_queue := ?q + 1\<rparr>)) l = None"
      then have "l \<noteq> ?l" "tm (T st) l = None" by (auto simp: tm' split: if_splits)
      then show "level (insert c K) l = {}" using cache_ok_none [OF ok] ins by simp
    next
      fix l q
      assume a: "tm (T (st\<lparr>T := ?t, queues := (queues st)(?q \<mapsto> ?h), next_queue := ?q + 1\<rparr>)) l = Some q"
      have s: "(l = ?l \<and> q = ?q) \<or> (l \<noteq> ?l \<and> tm (T st) l = Some q)" using a by (auto simp: tm' split: if_splits)
      then show "q < next_queue (st\<lparr>T := ?t, queues := (queues st)(?q \<mapsto> ?h), next_queue := ?q + 1\<rparr>)"
        using lt [of l q] by auto
      have "level K l \<noteq> {}" if "tm (T st) l = Some q" by (rule cache_ok_some [OF ok that])
      then show "level (insert c K) l \<noteq> {}" using s by (auto simp: ins)
      show "\<exists>h. queues (st\<lparr>T := ?t, queues := (queues st)(?q \<mapsto> ?h), next_queue := ?q + 1\<rparr>) q = Some h \<and>
          hm h = mset_set (level (insert c K) l)"
      proof (cases "l = ?l")
        case True
        have set: "level (insert c K) l = {c}" unfolding ins using True e by auto
        show ?thesis using True s None hq unfolding set by auto
      next
        case False
        then have l: "tm (T st) l = Some q" using s by blast
        obtain h' where "q < ?q" "queues st q = Some h'" "hm h' = mset_set (level K l)"
          by (rule cache_ok_some [OF ok l])
        then show ?thesis using False by (simp add: ins)
      qed
      fix l' assume "tm (T (st\<lparr>T := ?t, queues := (queues st)(?q \<mapsto> ?h), next_queue := ?q + 1\<rparr>)) l' = Some q"
      then have "(l' = ?l \<and> q = ?q) \<or> (l' \<noteq> ?l \<and> tm (T st) l' = Some q)" by (auto simp: tm' split: if_splits)
      moreover have "l' = l" if "tm (T st) l = Some q" "tm (T st) l' = Some q" using ok that unfolding cache_ok_def by blast
      ultimately show "l' = l" using s lt [of l q] lt [of l' q] by auto
    qed
    moreover have "put_cache ops c st = Inr (st\<lparr>T := ?t, queues := (queues st)(?q \<mapsto> ?h), next_queue := ?q + 1\<rparr>)"
      using find None by (simp add: put_cache_def Let_def)
    ultimately show ?thesis by blast
  next
    case (Some q)
    obtain h' where q: "q < next_queue st" "queues st q = Some h'" "hm h' = mset_set (level K ?l)"
      "level K ?l \<noteq> {}" "\<forall>l'. tm (T st) l' = Some q \<longrightarrow> l' = ?l"
      by (rule cache_ok_some [OF ok Some])
    let ?h = "Insert ops c h'"
    have hq: "hm ?h = add_mset c (hm h')" using h by (simp add: heap_laws_def)
    have "cache_ok tm hm (insert c K) (st\<lparr>queues := (queues st)(q \<mapsto> ?h)\<rparr>)"
      unfolding cache_ok_def
    proof (intro conjI allI impI)
      show "finite (insert c K)" using fin by simp
    next
      fix l assume "tm (T (st\<lparr>queues := (queues st)(q \<mapsto> ?h)\<rparr>)) l = None"
      then show "level (insert c K) l = {}" using cache_ok_none [OF ok] Some by (auto simp: ins)
    next
      fix l q' assume "tm (T (st\<lparr>queues := (queues st)(q \<mapsto> ?h)\<rparr>)) l = Some q'"
      then have l: "tm (T st) l = Some q'" by simp
      obtain h'' where s: "q' < next_queue st" "queues st q' = Some h''" "hm h'' = mset_set (level K l)"
        "level K l \<noteq> {}" "\<forall>l'. tm (T st) l' = Some q' \<longrightarrow> l' = l"
        by (rule cache_ok_some [OF ok l])
      show "q' < next_queue (st\<lparr>queues := (queues st)(q \<mapsto> ?h)\<rparr>)" using s(1) by simp
      show "level (insert c K) l \<noteq> {}" using s(4) by (auto simp: ins)
      show "\<exists>h. queues (st\<lparr>queues := (queues st)(q \<mapsto> ?h)\<rparr>) q' = Some h \<and>
          hm h = mset_set (level (insert c K) l)"
      proof (cases "l = ?l")
        case True
        then have "q' = q" using l Some by simp
        then show ?thesis using True s(2) q(2,3) hq new by (simp add: ins)
      next
        case False
        then have "q' \<noteq> q" using s(5) Some by metis
        then show ?thesis using False s(2,3) by (simp add: ins)
      qed
      show "\<And>l'. tm (T (st\<lparr>queues := (queues st)(q \<mapsto> ?h)\<rparr>)) l' = Some q' \<Longrightarrow> l' = l" using s(5) by simp
    qed
    moreover have "put_cache ops c st = Inr (st\<lparr>T := T st, queues := (queues st)(q \<mapsto> ?h), next_queue := next_queue st\<rparr>)"
      using find Some q(2) by (simp add: put_cache_def Let_def)
    ultimately show ?thesis by (intro exI [of _ "T st"] exI [of _ "(queues st)(q \<mapsto> ?h)"] exI [of _ "next_queue st"]) simp
  qed
qed

lemma find_min_ok:
  assumes t: "tree_laws ops tm" and ok: "cache_ok tm hm K st"
  shows "if K = {} then TreeFindMin ops (T st) = None
    else \<exists>l q. TreeFindMin ops (T st) = Some (l, q) \<and> tm (T st) l = Some q \<and> (\<forall>c \<in> K. l \<le> l1num (seqno c))"
proof (cases "K = {}")
  case True
  have "tm (T st) l = None" for l
    using ok True by (cases "tm (T st) l") (auto simp: cache_ok_def)
  then have "tm (T st) = (\<lambda>_. None)" by blast
  then show ?thesis using t True by (simp add: tree_laws_def)
next
  case False
  have some: "\<exists>q. tm (T st) (l1num (seqno c)) = Some q" if "c \<in> K" for c
    using cache_ok_none [OF ok, of "l1num (seqno c)"] that by (cases "tm (T st) (l1num (seqno c))") (auto simp: level_def)
  have min: "\<exists>l' q'. TreeFindMin ops (T st) = Some (l', q') \<and> tm (T st) l' = Some q' \<and> l' \<le> l" if "tm (T st) l = Some q" for l q
    using t that by (simp add: tree_laws_def)
  obtain c0 where "c0 \<in> K" using False by blast
  then obtain l q where lq: "TreeFindMin ops (T st) = Some (l, q)" "tm (T st) l = Some q" using some min by blast
  moreover have "l \<le> l1num (seqno c)" if "c \<in> K" for c
    using some [OF that] min lq(1) by fastforce
  ultimately show ?thesis using False by auto
qed

lemma take_min_ok:
  assumes t: "tree_laws ops tm" and hl: "heap_laws ops hm" and ok: "cache_ok tm hm K st"
    and pos: "TreeFindMin ops (T st) = Some (l, q)" and q: "tm (T st) l = Some q" and h: "queues st q = Some h"
  shows "FindMin ops h \<in> K \<and> l1num (seqno (FindMin ops h)) = l \<and>
    (\<forall>c \<in> K. l1num (seqno c) = l \<longrightarrow> seqno (FindMin ops h) \<le> seqno c) \<and>
    (\<exists>t' qs. take_min ops (l, q) h st = (TreeFindMin ops t', st\<lparr>T := t', queues := qs\<rparr>) \<and>
      cache_ok tm hm (K - {FindMin ops h}) (st\<lparr>T := t', queues := qs\<rparr>))"
proof -
  let ?S = "level K" and ?c = "FindMin ops h" and ?h = "DeleteMin ops h"
  have fin: "finite K" using ok by (simp add: cache_ok_def)
  have "?S l \<noteq> {} \<and> (\<exists>h. queues st q = Some h \<and> hm h = mset_set (?S l))"
    using ok q unfolding cache_ok_def by blast
  then have hq: "hm h = mset_set (?S l)" "?S l \<noteq> {}" using h by auto
  have finS: "finite (?S l)" using fin by simp
  have ne: "hm h \<noteq> {#}" using hq finS by (simp add: mset_set_empty_iff)
  have c: "?c \<in># hm h" "\<forall>c \<in># hm h. seqno ?c \<le> seqno c" "hm ?h = hm h - {#?c#}"
    using hl ne by (simp_all add: heap_laws_def)
  have cS: "?c \<in> ?S l" using c(1) hq(1) finS by simp
  have hm': "hm ?h = mset_set (?S l - {?c})" using c(3) hq(1) finS cS by (simp add: mset_set_Diff)
  have emp: "IsEmpty ops ?h \<longleftrightarrow> ?S l - {?c} = {}" using hl hm' finS by (simp add: heap_laws_def mset_set_empty_iff)
  have S': "level (K - {?c}) l' = (if l' = l then ?S l - {?c} else ?S l')" for l'
    using cS by auto
  have "\<exists>t' qs. take_min ops (l, q) h st = (TreeFindMin ops t', st\<lparr>T := t', queues := qs\<rparr>) \<and>
      cache_ok tm hm (K - {?c}) (st\<lparr>T := t', queues := qs\<rparr>)"
  proof (cases "?S l - {?c} = {}")
    case True
    let ?t = "TreeDelete ops (l, q) (T st)" and ?qs = "(queues st)(q := None)"
    have tm': "tm ?t = (tm (T st))(l := None)" using t q by (simp add: tree_laws_def)
    have "cache_ok tm hm (K - {?c}) (st\<lparr>T := ?t, queues := ?qs\<rparr>)"
      unfolding cache_ok_def
    proof (intro conjI allI impI)
      show "finite (K - {?c})" using fin by simp
    next
      fix l' assume "tm (T (st\<lparr>T := ?t, queues := ?qs\<rparr>)) l' = None"
      then show "level (K - {?c}) l' = {}"
        using cache_ok_none [OF ok, of l'] True by (auto simp: tm' S' split: if_splits)
    next
      fix l' q' assume "tm (T (st\<lparr>T := ?t, queues := ?qs\<rparr>)) l' = Some q'"
      then have l': "l' \<noteq> l" "tm (T st) l' = Some q'" by (auto simp: tm' split: if_splits)
      obtain h' where s: "q' < next_queue st" "queues st q' = Some h'" "hm h' = mset_set (?S l')" "?S l' \<noteq> {}"
        "\<forall>l''. tm (T st) l'' = Some q' \<longrightarrow> l'' = l'"
        by (rule cache_ok_some [OF ok l'(2)])
      show "q' < next_queue (st\<lparr>T := ?t, queues := ?qs\<rparr>)" using s(1) by simp
      show "level (K - {?c}) l' \<noteq> {}" using s(4) l'(1) by (simp add: S')
      have "q' \<noteq> q" using l' s(5) q by metis
      then show "\<exists>h. queues (st\<lparr>T := ?t, queues := ?qs\<rparr>) q' = Some h \<and> hm h = mset_set (level (K - {?c}) l')"
        using s(2,3) l'(1) by (simp add: S')
      fix l'' assume "tm (T (st\<lparr>T := ?t, queues := ?qs\<rparr>)) l'' = Some q'"
      then have "tm (T st) l'' = Some q'" by (simp add: tm' split: if_splits)
      then show "l'' = l'" using s(5) by blast
    qed
    moreover have "take_min ops (l, q) h st = (TreeFindMin ops ?t, st\<lparr>T := ?t, queues := ?qs\<rparr>)"
      using emp True by (simp add: take_min_def Let_def)
    ultimately show ?thesis by blast
  next
    case False
    let ?qs = "(queues st)(q \<mapsto> ?h)"
    have "cache_ok tm hm (K - {?c}) (st\<lparr>T := T st, queues := ?qs\<rparr>)"
      unfolding cache_ok_def
    proof (intro conjI allI impI)
      show "finite (K - {?c})" using fin by simp
    next
      fix l' assume "tm (T (st\<lparr>T := T st, queues := ?qs\<rparr>)) l' = None"
      then show "level (K - {?c}) l' = {}"
        using cache_ok_none [OF ok, of l'] q by (auto simp: S')
    next
      fix l' q' assume "tm (T (st\<lparr>T := T st, queues := ?qs\<rparr>)) l' = Some q'"
      then have l': "tm (T st) l' = Some q'" by simp
      obtain h' where s: "q' < next_queue st" "queues st q' = Some h'" "hm h' = mset_set (?S l')" "?S l' \<noteq> {}"
        "\<forall>l''. tm (T st) l'' = Some q' \<longrightarrow> l'' = l'"
        by (rule cache_ok_some [OF ok l'])
      show "q' < next_queue (st\<lparr>T := T st, queues := ?qs\<rparr>)" using s(1) by simp
      show "level (K - {?c}) l' \<noteq> {}" using s(4) False by (simp add: S')
      show "\<exists>h. queues (st\<lparr>T := T st, queues := ?qs\<rparr>) q' = Some h \<and> hm h = mset_set (level (K - {?c}) l')"
      proof (cases "l' = l")
        case True
        then show ?thesis using l' q hm' by (simp add: S')
      next
        case False
        then have "q' \<noteq> q" using s(5) q by metis
        then show ?thesis using s(2,3) False by (simp add: S')
      qed
      show "\<And>l''. tm (T (st\<lparr>T := T st, queues := ?qs\<rparr>)) l'' = Some q' \<Longrightarrow> l'' = l'" using s(5) by simp
    qed
    moreover have "take_min ops (l, q) h st = (TreeFindMin ops (T st), st\<lparr>T := T st, queues := ?qs\<rparr>)"
      using emp False pos by (simp add: take_min_def Let_def)
    ultimately show ?thesis by blast
  qed
  then show ?thesis using cS c(2) hq(1) finS by simp
qed

subsection \<open>Chunks in sequence\<close>

definition next_number :: "chunk_t \<Rightarrow> sequence_t" where
  "next_number c = (if isLastL2Chunk c then Seq (l1num (seqno c) + 1) 0
     else Seq (l1num (seqno c)) (l2num (seqno c) + 1))"

text \<open>
  The chunks of a file in order: each is numbered as the one before it prescribes, and no number
  is at the end of its 32-bit range.
\<close>

definition in_sequence :: "chunk_t list \<Rightarrow> bool" where
  "in_sequence cs \<longleftrightarrow> (cs \<noteq> [] \<longrightarrow> seqno (hd cs) = Seq 0 0) \<and>
     (\<forall>m. Suc m < length cs \<longrightarrow> seqno (cs ! Suc m) = next_number (cs ! m)) \<and>
     (\<forall>c \<in> set cs. l1num (seqno c) < - 1 \<and> l2num (seqno c) < - 1)"

definition nxt :: "chunk_t list \<Rightarrow> nat \<Rightarrow> sequence_t" where
  "nxt cs m = (if m = 0 then Seq 0 0 else next_number (cs ! (m - 1)))"

lemma seqno_nxt: "in_sequence cs \<Longrightarrow> m < length cs \<Longrightarrow> seqno (cs ! m) = nxt cs m"
  by (cases m) (auto simp: in_sequence_def nxt_def hd_conv_nth)

lemma next_number_less:
  assumes "l1num (seqno c) < - 1" and "l2num (seqno c) < - 1"
  shows "seqno c < next_number c"
  using word_inc_less [OF assms(1)] word_inc_less [OF assms(2)]
  by (auto simp: next_number_def less_sequence_t_def sequence_lt_def)

lemma in_sequence_less:
  assumes s: "in_sequence cs"
  shows "i < j \<Longrightarrow> j < length cs \<Longrightarrow> seqno (cs ! i) < seqno (cs ! j)"
proof (induction j)
  case (Suc j)
  have "seqno (cs ! j) < next_number (cs ! j)"
    using s Suc.prems by (intro next_number_less) (auto simp: in_sequence_def)
  then have "seqno (cs ! j) < seqno (cs ! Suc j)" using s Suc.prems(2) by (simp add: in_sequence_def)
  then show ?case using Suc by (cases "i = j") auto
qed simp

lemma in_sequence_inj:
  assumes "in_sequence cs" and "i < length cs" "j < length cs" and "seqno (cs ! i) = seqno (cs ! j)"
  shows "i = j"
  using in_sequence_less [OF assms(1), of i j] in_sequence_less [OF assms(1), of j i] assms(2-4)
  by (metis less_irrefl linorder_neqE_nat)

lemma in_sequence_distinct: "in_sequence cs \<Longrightarrow> distinct cs"
  unfolding distinct_conv_nth using in_sequence_inj by metis

lemma seqno_le_l1: "s \<le> t \<Longrightarrow> l1num s \<le> l1num t"
  by (auto simp: less_eq_sequence_t_def sequence_lt_def sequence_eq_def split: if_splits)

text \<open>After the last chunk of an anchor the first-level number is larger.\<close>

lemma last_l1_less:
  assumes s: "in_sequence cs" and "i < j" and "j < length cs" and l: "isLastL2Chunk (cs ! i)"
  shows "l1num (seqno (cs ! i)) < l1num (seqno (cs ! j))"
proof -
  have "l1num (seqno (cs ! i)) < - 1" using s assms(2,3) by (simp add: in_sequence_def)
  then have "l1num (seqno (cs ! i)) < l1num (seqno (cs ! i)) + 1" using word_inc_less by blast
  also have "\<dots> = l1num (seqno (cs ! Suc i))" using s assms(2,3) l by (simp add: in_sequence_def next_number_def)
  also have "\<dots> \<le> l1num (seqno (cs ! j))"
    using in_sequence_less [OF s, of "Suc i" j] assms(2,3) by (cases "Suc i = j") (auto intro: seqno_le_l1)
  finally show ?thesis .
qed

subsection \<open>The invariant\<close>

definition calls_of :: "chunk_t list \<Rightarrow> rcall list" where
  "calls_of cs = concat (map (\<lambda>c. Write c # (if isDuplicate c then [Free c] else [])) cs)"

text \<open>\<open>P\<close> are the chunks received so far.\<close>

definition anchors_ok :: "chunk_t set \<Rightarrow> ('t, 'h) reorder \<Rightarrow> bool" where
  "anchors_ok P st \<longleftrightarrow>
     length (chunks_per_anchor st) < 2 ^ 32 \<and>
     (\<forall>c \<in> P. unat (l1num (seqno c)) < length (chunks_per_anchor st)) \<and>
     (\<forall>c \<in> P. isLastL2Chunk c \<longrightarrow> chunks_per_anchor st ! unat (l1num (seqno c)) = l2num (seqno c) + 1) \<and>
     (\<forall>i < length (chunks_per_anchor st). chunks_per_anchor st ! i \<noteq> 0 \<longrightarrow>
        (\<exists>c \<in> P. isLastL2Chunk c \<and> unat (l1num (seqno c)) = i))"

definition ro_inv ::
  "('t \<Rightarrow> u32 \<Rightarrow> nat option) \<Rightarrow> ('h \<Rightarrow> chunk_t multiset) \<Rightarrow> chunk_t list \<Rightarrow> chunk_t set \<Rightarrow> nat \<Rightarrow> chunk_t set \<Rightarrow> ('t, 'h) reorder \<Rightarrow> bool" where
  "ro_inv tm hm cs P m K st \<longleftrightarrow> P \<subseteq> set cs \<and> m \<le> length cs \<and> calls st = calls_of (take m cs) \<and>
     next_seq st = nxt cs m \<and> cache_ok tm hm K st \<and> anchors_ok P st"

definition ro_ok ::
  "('t \<Rightarrow> u32 \<Rightarrow> nat option) \<Rightarrow> ('h \<Rightarrow> chunk_t multiset) \<Rightarrow> chunk_t list \<Rightarrow> chunk_t set \<Rightarrow> nat \<Rightarrow> ('t, 'h) reorder \<Rightarrow> bool" where
  "ro_ok tm hm cs P m st \<longleftrightarrow> ro_inv tm hm cs P m (P - set (take m cs)) st \<and> set (take m cs) \<subseteq> P \<and>
     (m < length cs \<longrightarrow> cs ! m \<notin> P)"

lemma take_Suc_calls: "m < length cs \<Longrightarrow> calls_of (take (Suc m) cs) =
    calls_of (take m cs) @ Write (cs ! m) # (if isDuplicate (cs ! m) then [Free (cs ! m)] else [])"
  by (simp add: calls_of_def take_Suc_conv_app_nth)

lemma write_next_ok:
  assumes s: "in_sequence cs" and inv: "ro_inv tm hm cs P m K st" and m: "m < length cs" and c: "cs ! m \<in> P"
  shows "\<exists>n ls. write_next (cs ! m) st = Inr (st\<lparr>next_seq := n, calls := ls\<rparr>) \<and>
    ro_inv tm hm cs P (Suc m) K (st\<lparr>next_seq := n, calls := ls\<rparr>)"
proof -
  let ?c = "cs ! m" and ?a = "chunks_per_anchor st"
  let ?i = "unat (l1num (seqno ?c))"
  have nx: "next_seq st = seqno ?c" using inv seqno_nxt [OF s m] by (simp add: ro_inv_def)
  have anch: "anchors_ok P st" and sub: "P \<subseteq> set cs" using inv by (simp_all add: ro_inv_def)
  have i: "?i < length ?a" using anch c by (simp add: anchors_ok_def)
  have b: "l1num (seqno ?c) < - 1" "l2num (seqno ?c) < - 1" using s m by (simp_all add: in_sequence_def)
  have test: "(?a ! ?i \<noteq> 0 \<and> l2num (seqno ?c) + 1 = ?a ! ?i) \<longleftrightarrow> isLastL2Chunk ?c"
  proof
    assume l: "isLastL2Chunk ?c"
    then have "?a ! ?i = l2num (seqno ?c) + 1" using anch c by (simp add: anchors_ok_def)
    moreover have "l2num (seqno ?c) + 1 \<noteq> 0" using word_inc_less [OF b(2)] by (metis word_not_simps(1))
    ultimately show "?a ! ?i \<noteq> 0 \<and> l2num (seqno ?c) + 1 = ?a ! ?i" by simp
  next
    assume a: "?a ! ?i \<noteq> 0 \<and> l2num (seqno ?c) + 1 = ?a ! ?i"
    then obtain d where d: "d \<in> P" "isLastL2Chunk d" "unat (l1num (seqno d)) = ?i"
      using anch i unfolding anchors_ok_def by blast
    then have "?a ! ?i = l2num (seqno d) + 1" using anch by (auto simp: anchors_ok_def)
    then have "l2num (seqno d) = l2num (seqno ?c)" using a by simp
    moreover have "l1num (seqno d) = l1num (seqno ?c)" using d(3) by (simp add: word_unat_eq_iff)
    ultimately have "seqno d = seqno ?c" by (simp add: sequence_t.expand)
    moreover obtain j where "j < length cs" "d = cs ! j" using d(1) sub by (metis in_set_conv_nth subsetD)
    ultimately have "d = ?c" using in_sequence_inj [OF s, of j m] m by simp
    then show "isLastL2Chunk ?c" using d(2) by simp
  qed
  let ?n = "next_number ?c" and ?ls = "calls_of (take (Suc m) cs)"
  have "write_next ?c st = Inr (st\<lparr>next_seq := ?n, calls := ?ls\<rparr>)"
    using i nx test inv take_Suc_calls [OF m]
    by (auto simp: write_next_def Let_def sequence_inc_l2_def sequence_inc_l1_def next_number_def ro_inv_def)
  moreover have "ro_inv tm hm cs P (Suc m) K (st\<lparr>next_seq := ?n, calls := ?ls\<rparr>)"
    using inv m by (simp add: ro_inv_def nxt_def cache_ok_def anchors_ok_def)
  ultimately show ?thesis by blast
qed

lemma unwritten:
  assumes "P \<subseteq> set cs" and "c \<in> P - set (take n cs)"
  shows "\<exists>j. n \<le> j \<and> j < length cs \<and> c = cs ! j"
proof -
  obtain j where j: "j < length cs" "c = cs ! j" using assms by (metis Diff_iff in_set_conv_nth subsetD)
  have "n \<le> j"
  proof (rule ccontr)
    assume "\<not> n \<le> j"
    then have "c \<in> set (take n cs)" using j by (auto simp: in_set_conv_nth intro!: exI [of _ j])
    then show False using assms(2) by blast
  qed
  then show ?thesis using j by blast
qed

lemma unwritten_next:
  assumes s: "in_sequence cs" and n: "n < length cs"
  shows "cs ! n \<notin> set (take n cs)" and "set (take (Suc n) cs) = insert (cs ! n) (set (take n cs))"
proof -
  have "distinct (take n cs @ [cs ! n])"
    using in_sequence_distinct [OF s] n by (metis distinct_take take_Suc_conv_app_nth)
  then show "cs ! n \<notin> set (take n cs)" by simp
  show "set (take (Suc n) cs) = insert (cs ! n) (set (take n cs))" using n by (simp add: take_Suc_conv_app_nth)
qed

lemma next_from_cache_ok:
  assumes t: "tree_laws ops tm" and hl: "heap_laws ops hm" and s: "in_sequence cs"
    and inv: "ro_inv tm hm cs P n (P - set (take n cs)) st"
  shows "if n < length cs \<and> cs ! n \<in> P
    then \<exists>t' qs. next_from_cache ops (TreeFindMin ops (T st)) st =
        Inr (Some (cs ! n), TreeFindMin ops t', st\<lparr>T := t', queues := qs\<rparr>) \<and>
      ro_inv tm hm cs P n (P - set (take (Suc n) cs)) (st\<lparr>T := t', queues := qs\<rparr>)
    else next_from_cache ops (TreeFindMin ops (T st)) st = Inr (None, TreeFindMin ops (T st), st)"
proof -
  let ?K = "P - set (take n cs)"
  have sub: "P \<subseteq> set cs" and cache: "cache_ok tm hm ?K st" and nx: "next_seq st = nxt cs n"
    using inv by (simp_all add: ro_inv_def)
  have later: "nxt cs n \<le> seqno c \<and> (seqno c = nxt cs n \<longrightarrow> n < length cs \<and> c = cs ! n)" if ck: "c \<in> ?K" for c
  proof -
    obtain j where j: "n \<le> j" "j < length cs" "c = cs ! j" using unwritten [OF sub ck] by blast
    then have n: "n < length cs" "nxt cs n = seqno (cs ! n)" using seqno_nxt [OF s, of n] by simp_all
    then show ?thesis using j in_sequence_less [OF s, of n j] by (cases "n = j") auto
  qed
  show ?thesis
  proof (cases "?K = {}")
    case True
    have "\<not> (n < length cs \<and> cs ! n \<in> P)" using True unwritten_next(1) [OF s, of n] by blast
    then show ?thesis using find_min_ok [OF t cache] True by (simp add: next_from_cache_def)
  next
    case False
    obtain l q where lq: "TreeFindMin ops (T st) = Some (l, q)" "tm (T st) l = Some q" "\<forall>c \<in> ?K. l \<le> l1num (seqno c)"
      using find_min_ok [OF t cache] False by auto
    obtain h where h: "queues st q = Some h" using cache lq(2) unfolding cache_ok_def by blast
    note tk = take_min_ok [OF t hl cache lq(1,2) h]
    show ?thesis
    proof (cases "n < length cs \<and> cs ! n \<in> P")
      case True
      then have c: "cs ! n \<in> ?K" "seqno (cs ! n) = nxt cs n" using unwritten_next(1) [OF s, of n] seqno_nxt [OF s] by auto
      have "FindMin ops h \<in> ?K" "l1num (seqno (FindMin ops h)) = l" using tk by blast+
      then have "l1num (nxt cs n) \<le> l" using later [of "FindMin ops h"] seqno_le_l1 by blast
      moreover have "l \<le> l1num (nxt cs n)" using lq(3) c by metis
      ultimately have l: "l = l1num (nxt cs n)" by simp
      then have "seqno (FindMin ops h) \<le> nxt cs n" using tk c by metis
      then have f: "FindMin ops h = cs ! n" "seqno (FindMin ops h) = nxt cs n"
        using later [of "FindMin ops h"] tk by (auto dest: order_antisym)
      obtain t' qs where tq: "take_min ops (l, q) h st = (TreeFindMin ops t', st\<lparr>T := t', queues := qs\<rparr>)"
        "cache_ok tm hm (?K - {cs ! n}) (st\<lparr>T := t', queues := qs\<rparr>)"
        using tk f(1) by auto
      have "?K - {cs ! n} = P - set (take (Suc n) cs)" using unwritten_next(2) [OF s, of n] True by blast
      then have "ro_inv tm hm cs P n (P - set (take (Suc n) cs)) (st\<lparr>T := t', queues := qs\<rparr>)"
        using inv tq(2) by (simp add: ro_inv_def anchors_ok_def)
      moreover have "next_from_cache ops (TreeFindMin ops (T st)) st =
          Inr (Some (cs ! n), TreeFindMin ops t', st\<lparr>T := t', queues := qs\<rparr>)"
        using lq(1) l nx h f tq(1) by (simp add: next_from_cache_def Let_def sequence_eq_def)
      ultimately show ?thesis using True by auto
    next
      case False
      have "\<not> sequence_eq (seqno (FindMin ops h)) (next_seq st)"
      proof
        assume "sequence_eq (seqno (FindMin ops h)) (next_seq st)"
        then have "seqno (FindMin ops h) = nxt cs n" using nx by (auto simp: sequence_eq_def intro: sequence_t.expand)
        then show False using later [of "FindMin ops h"] tk False by auto
      qed
      then show ?thesis using False lq(1) h by (auto simp: next_from_cache_def Let_def)
    qed
  qed
qed

lemma write_loop_ok:
  assumes t: "tree_laws ops tm" and hl: "heap_laws ops hm" and s: "in_sequence cs"
  shows "ro_inv tm hm cs P m (P - set (take (Suc m) cs)) st \<Longrightarrow> m < length cs \<Longrightarrow> cs ! m \<in> P \<Longrightarrow>
    set (take m cs) \<subseteq> P \<Longrightarrow> length cs - m \<le> k \<Longrightarrow>
    \<exists>st' m'. write_loop ops k (cs ! m) (TreeFindMin ops (T st)) st = Some (Inr st') \<and> ro_ok tm hm cs P m' st' \<and>
      reorder_nw st' = reorder_nw st \<and> terminated_w st' = terminated_w st \<and> chunks_per_anchor st' = chunks_per_anchor st"
proof (induction k arbitrary: m st)
  case (Suc k)
  let ?K = "P - set (take (Suc m) cs)"
  obtain n ls where w: "write_next (cs ! m) st = Inr (st\<lparr>next_seq := n, calls := ls\<rparr>)"
    "ro_inv tm hm cs P (Suc m) ?K (st\<lparr>next_seq := n, calls := ls\<rparr>)"
    using write_next_ok [OF s Suc.prems(1-3)] by blast
  let ?st = "st\<lparr>next_seq := n, calls := ls\<rparr>"
  have sub: "set (take (Suc m) cs) \<subseteq> P" using Suc.prems(2-4) unwritten_next(2) [OF s, of m] by auto
  note nf = next_from_cache_ok [OF t hl s w(2)]
  show ?case
  proof (cases "Suc m < length cs \<and> cs ! Suc m \<in> P")
    case True
    then obtain t' qs where nx: "next_from_cache ops (TreeFindMin ops (T ?st)) ?st =
        Inr (Some (cs ! Suc m), TreeFindMin ops t', ?st\<lparr>T := t', queues := qs\<rparr>)"
      "ro_inv tm hm cs P (Suc m) (P - set (take (Suc (Suc m)) cs)) (?st\<lparr>T := t', queues := qs\<rparr>)"
      using nf by auto
    have "length cs - Suc m \<le> k" using Suc.prems(5) by linarith
    from Suc.IH [OF nx(2) _ _ sub this] True obtain st' m' where
      "write_loop ops k (cs ! Suc m) (TreeFindMin ops t') (?st\<lparr>T := t', queues := qs\<rparr>) = Some (Inr st')"
      "ro_ok tm hm cs P m' st'" "reorder_nw st' = reorder_nw st" "terminated_w st' = terminated_w st"
      "chunks_per_anchor st' = chunks_per_anchor st"
      by auto
    then show ?thesis using w(1) nx(1) by auto
  next
    case False
    then have "next_from_cache ops (TreeFindMin ops (T ?st)) ?st = Inr (None, TreeFindMin ops (T ?st), ?st)"
      using nf by (simp only: if_False)
    moreover have "ro_ok tm hm cs P (Suc m) ?st" using w(2) sub False unfolding ro_ok_def by blast
    ultimately show ?thesis using w(1) by (intro exI [of _ ?st] exI [of _ "Suc m"]) simp
  qed
qed simp


lemma anchors_receive:
  assumes s: "in_sequence cs" and a: "anchors_ok P st" and sub: "P \<subseteq> set cs" and c: "c \<in> set cs" "c \<notin> P"
    and b: "unat (l1num (seqno c)) < 2 * length (chunks_per_anchor st)"
    and small: "length (chunks_per_anchor st) \<le> unat (l1num (seqno c)) \<Longrightarrow> length (chunks_per_anchor st) < 2 ^ 31"
  shows "\<exists>as bs. grow_anchors (\<lambda>_. True) c st = Inr (st\<lparr>chunks_per_anchor := as\<rparr>) \<and>
    expect_l2 c (st\<lparr>chunks_per_anchor := as\<rparr>) = Inr (st\<lparr>chunks_per_anchor := bs\<rparr>) \<and>
    anchors_ok (insert c P) (st\<lparr>chunks_per_anchor := bs\<rparr>) \<and>
    length bs = (if length (chunks_per_anchor st) \<le> unat (l1num (seqno c)) then 2 * length (chunks_per_anchor st)
      else length (chunks_per_anchor st))"
proof -
  let ?m = "length (chunks_per_anchor st)" and ?i = "unat (l1num (seqno c))"
  define as where "as = (if ?m \<le> ?i then chunks_per_anchor st @ replicate ?m 0 else chunks_per_anchor st)"
  define bs where "bs = (if isLastL2Chunk c then as[?i := l2num (seqno c) + 1] else as)"
  have i: "?i < length as" using b by (auto simp: as_def)
  have same: "as ! j = chunks_per_anchor st ! j" if "j < ?m" for j using that by (simp add: as_def nth_append)
  have new: "as ! j = 0" if "?m \<le> j" "j < length as" for j using that by (auto simp: as_def nth_append split: if_splits)
  have one: "d = c" if d: "d \<in> set cs" "isLastL2Chunk d" "isLastL2Chunk c" "l1num (seqno d) = l1num (seqno c)" for d
  proof -
    obtain j k where jk: "j < length cs" "d = cs ! j" "k < length cs" "c = cs ! k"
      using d(1) c(1) by (metis in_set_conv_nth)
    show ?thesis
    proof (cases j k rule: linorder_cases)
      case less
      then show ?thesis using last_l1_less [OF s less] jk d by simp
    next
      case greater
      then show ?thesis using last_l1_less [OF s greater] jk d by simp
    qed (simp add: jk)
  qed
  have zero: "as ! ?i = 0" if l: "isLastL2Chunk c"
  proof (rule ccontr)
    assume nz: "as ! ?i \<noteq> 0"
    then have "?i < ?m" using new i by (meson not_le)
    then have "chunks_per_anchor st ! ?i \<noteq> 0" using nz same by simp
    then obtain d where d: "d \<in> P" "isLastL2Chunk d" "unat (l1num (seqno d)) = ?i"
      using a \<open>?i < ?m\<close> unfolding anchors_ok_def by blast
    have "l1num (seqno d) = l1num (seqno c)" using d(3) by (simp add: word_unat_eq_iff)
    then have "d = c" by (rule one [OF subsetD [OF sub d(1)] d(2) l])
    then show False using d(1) c(2) by simp
  qed
  have "grow_anchors (\<lambda>_. True) c st = Inr (st\<lparr>chunks_per_anchor := as\<rparr>)"
    using a small by (simp add: grow_anchors_eq as_def anchors_ok_def)
  moreover have "expect_l2 c (st\<lparr>chunks_per_anchor := as\<rparr>) = Inr (st\<lparr>chunks_per_anchor := bs\<rparr>)"
    using i zero by (simp add: expect_l2_def Let_def bs_def)
  moreover have "length bs = (if ?m \<le> ?i then 2 * ?m else ?m)" by (simp add: bs_def as_def)
  moreover have "anchors_ok (insert c P) (st\<lparr>chunks_per_anchor := bs\<rparr>)"
    unfolding anchors_ok_def
  proof (intro conjI ballI allI impI)
    show "length (chunks_per_anchor (st\<lparr>chunks_per_anchor := bs\<rparr>)) < 2 ^ 32"
      using a small by (auto simp: anchors_ok_def bs_def as_def)
  next
    fix d assume "d \<in> insert c P"
    then show "unat (l1num (seqno d)) < length (chunks_per_anchor (st\<lparr>chunks_per_anchor := bs\<rparr>))"
      using a i by (auto simp: anchors_ok_def bs_def as_def)
  next
    fix d assume d: "d \<in> insert c P" "isLastL2Chunk d"
    show "chunks_per_anchor (st\<lparr>chunks_per_anchor := bs\<rparr>) ! unat (l1num (seqno d)) = l2num (seqno d) + 1"
    proof (cases "d = c")
      case True
      then show ?thesis using d i by (simp add: bs_def)
    next
      case False
      then have p: "d \<in> P" using d(1) by simp
      have "as ! unat (l1num (seqno d)) = l2num (seqno d) + 1"
        using a p d(2) same by (simp add: anchors_ok_def)
      moreover have "unat (l1num (seqno d)) \<noteq> ?i" if l: "isLastL2Chunk c"
      proof
        assume "unat (l1num (seqno d)) = ?i"
        then have "l1num (seqno d) = l1num (seqno c)" by (simp add: word_unat_eq_iff)
        then have "d = c" by (rule one [OF subsetD [OF sub p] d(2) l])
        then show False using False by simp
      qed
      ultimately show ?thesis by (auto simp: bs_def)
    qed
  next
    fix j assume j: "j < length (chunks_per_anchor (st\<lparr>chunks_per_anchor := bs\<rparr>))" "chunks_per_anchor (st\<lparr>chunks_per_anchor := bs\<rparr>) ! j \<noteq> 0"
    show "\<exists>d \<in> insert c P. isLastL2Chunk d \<and> unat (l1num (seqno d)) = j"
    proof (cases "isLastL2Chunk c \<and> j = ?i")
      case False
      then have nz: "as ! j \<noteq> 0" "j < length as" using j by (auto simp: bs_def nth_list_update split: if_splits)
      then have "j < ?m" using new by (meson not_le)
      moreover from this have "chunks_per_anchor st ! j \<noteq> 0" using nz(1) same by simp
      ultimately show ?thesis using a unfolding anchors_ok_def by blast
    qed auto
  qed
  ultimately show ?thesis by blast
qed

lemma reorder_chunk_ok:
  assumes t: "tree_laws ops tm" and hl: "heap_laws ops hm" and s: "in_sequence cs"
    and ok: "ro_ok tm hm cs P m st" and c: "c \<in> set cs" "c \<notin> P" and k: "length cs \<le> k"
    and b: "unat (l1num (seqno c)) < 2 * length (chunks_per_anchor st)"
    and small: "length (chunks_per_anchor st) \<le> unat (l1num (seqno c)) \<Longrightarrow> length (chunks_per_anchor st) < 2 ^ 31"
  shows "\<exists>st' m'. reorder_chunk ops (\<lambda>_. True) k c st = Some (Inr st') \<and> ro_ok tm hm cs (insert c P) m' st' \<and>
    reorder_nw st' = reorder_nw st \<and> terminated_w st' = terminated_w st \<and>
    length (chunks_per_anchor st') = (if length (chunks_per_anchor st) \<le> unat (l1num (seqno c))
      then 2 * length (chunks_per_anchor st) else length (chunks_per_anchor st))"
proof -
  have inv: "ro_inv tm hm cs P m (P - set (take m cs)) st" and got: "set (take m cs) \<subseteq> P"
    and fresh: "m < length cs \<longrightarrow> cs ! m \<notin> P"
    using ok by (simp_all add: ro_ok_def)
  obtain as bs where ab: "grow_anchors (\<lambda>_. True) c st = Inr (st\<lparr>chunks_per_anchor := as\<rparr>)"
    "expect_l2 c (st\<lparr>chunks_per_anchor := as\<rparr>) = Inr (st\<lparr>chunks_per_anchor := bs\<rparr>)"
    "anchors_ok (insert c P) (st\<lparr>chunks_per_anchor := bs\<rparr>)"
    "length bs = (if length (chunks_per_anchor st) \<le> unat (l1num (seqno c)) then 2 * length (chunks_per_anchor st)
      else length (chunks_per_anchor st))"
    using anchors_receive [OF s _ _ c b small] inv unfolding ro_inv_def by blast
  let ?st = "st\<lparr>chunks_per_anchor := bs\<rparr>"
  have nx: "next_seq ?st = nxt cs m" using inv by (simp add: ro_inv_def)
  obtain j where j: "j < length cs" "c = cs ! j" using c(1) by (metis in_set_conv_nth)
  show ?thesis
  proof (cases "j = m")
    case True
    then have m: "m < length cs" "c = cs ! m" using j by simp_all
    have eq: "sequence_eq (seqno c) (next_seq ?st)" using m nx seqno_nxt [OF s m(1)] by (simp add: sequence_eq_def)
    have K: "insert c P - set (take (Suc m) cs) = P - set (take m cs)"
      using unwritten_next [OF s m(1)] m(2) c(2) by auto
    have "ro_inv tm hm cs (insert c P) m (insert c P - set (take (Suc m) cs)) ?st"
      using inv ab(3) c(1) unfolding K by (simp add: ro_inv_def cache_ok_def)
    then obtain st' m' where "write_loop ops k (cs ! m) (TreeFindMin ops (T ?st)) ?st = Some (Inr st')"
      "ro_ok tm hm cs (insert c P) m' st'" "reorder_nw st' = reorder_nw ?st" "terminated_w st' = terminated_w ?st"
      "chunks_per_anchor st' = chunks_per_anchor ?st"
    proof -
      have "set (take m cs) \<subseteq> insert c P" "length cs - m \<le> k" "cs ! m \<in> insert c P" using got k m by auto
      from write_loop_ok [OF t hl s \<open>ro_inv tm hm cs (insert c P) m (insert c P - set (take (Suc m) cs)) ?st\<close> m(1) this(3,1,2)] that
      show ?thesis by blast
    qed
    then show ?thesis using ab eq m(2) by (auto simp: reorder_chunk_def)
  next
    case False
    have neq: "\<not> sequence_eq (seqno c) (next_seq ?st)"
    proof
      assume "sequence_eq (seqno c) (next_seq ?st)"
      then have e: "seqno c = nxt cs m" using nx by (auto simp: sequence_eq_def intro: sequence_t.expand)
      show False
      proof (cases "m < length cs")
        case True
        then show ?thesis using in_sequence_inj [OF s j(1) True] e j(2) seqno_nxt [OF s True] False by simp
      next
        case m: False
        then have "set (take m cs) = set cs" by simp
        then show ?thesis using got c by blast
      qed
    qed
    have cK: "c \<notin> P - set (take m cs)" using c(2) by blast
    obtain t' qs n where p: "put_cache ops c ?st = Inr (?st\<lparr>T := t', queues := qs, next_queue := n\<rparr>)"
      "cache_ok tm hm (insert c (P - set (take m cs))) (?st\<lparr>T := t', queues := qs, next_queue := n\<rparr>)"
      using put_cache_ok [OF t hl _ cK, of ?st] inv by (auto simp: ro_inv_def cache_ok_def)
    have K: "insert c P - set (take m cs) = insert c (P - set (take m cs))" using got c(2) by auto
    have "ro_ok tm hm cs (insert c P) m (?st\<lparr>T := t', queues := qs, next_queue := n\<rparr>)"
      using inv ab(3) p(2) c(1) got fresh False j in_sequence_distinct [OF s]
      unfolding ro_ok_def K by (auto simp: ro_inv_def anchors_ok_def nth_eq_iff_index_eq)
    then show ?thesis using ab p(1) neq by (auto simp: reorder_chunk_def)
  qed
qed

subsection \<open>Buffers\<close>

fun fold_res :: "('a \<Rightarrow> 's \<Rightarrow> (err + 's) option) \<Rightarrow> 'a list \<Rightarrow> 's \<Rightarrow> (err + 's) option" where
  "fold_res f [] s = Some (Inr s)"
| "fold_res f (x # xs) s = (case f x s of None \<Rightarrow> None | Some (Inl e) \<Rightarrow> Some (Inl e) | Some (Inr s) \<Rightarrow> fold_res f xs s)"

lemma drain_buffer_items: "rb_inv buf \<Longrightarrow> length (rb_items buf) \<le> n \<Longrightarrow> drain n f buf s = fold_res f (rb_items buf) s"
proof (induction n arbitrary: buf s)
  case (Suc n)
  show ?case
  proof (cases "rb_items buf")
    case Nil
    then show ?thesis using Suc.prems by (simp add: ringbuffer_isEmpty_iff)
  next
    case (Cons x xs)
    obtain buf' where "ringbuffer_remove buf = (Some x, buf')" "rb_inv buf'" "rb_items buf' = xs"
      using ringbuffer_remove_Cons [OF Suc.prems(1) Cons] by blast
    then show ?thesis
      using Suc.IH [of buf'] Suc.prems Cons by (auto simp: ringbuffer_isEmpty_iff split: option.splits sum.splits)
  qed
qed simp

text \<open>
  \<open>no_jump m cs\<close>: no chunk arrives so early that one doubling of the array of \<open>m\<close> anchors (and of
  what it has grown to) does not reach its anchor, and no doubling leaves the 32 bits of its length.
  A file of fewer than 2048 anchors satisfies it in every order.
\<close>

definition grow :: "nat \<Rightarrow> chunk_t \<Rightarrow> nat" where
  "grow m c = (if m \<le> unat (l1num (seqno c)) then 2 * m else m)"

fun no_jump :: "nat \<Rightarrow> chunk_t list \<Rightarrow> bool" where
  "no_jump m [] \<longleftrightarrow> True"
| "no_jump m (c # cs) \<longleftrightarrow>
    unat (l1num (seqno c)) < 2 * m \<and> (m \<le> unat (l1num (seqno c)) \<longrightarrow> m < 2 ^ 31) \<and> no_jump (grow m c) cs"

lemma no_jump_small:
  "m = 1024 \<or> m = 2048 \<Longrightarrow> \<forall>c \<in> set cs. unat (l1num (seqno c)) < 2048 \<Longrightarrow> no_jump m cs"
  by (induction cs arbitrary: m) (auto simp: grow_def)

lemma no_jump_append: "no_jump m (as @ bs) \<longleftrightarrow> no_jump m as \<and> no_jump (foldl grow m as) bs"
  by (induction as arbitrary: m) auto

lemma fold_reorder_ok:
  assumes t: "tree_laws ops tm" and hl: "heap_laws ops hm" and s: "in_sequence cs" and k: "length cs \<le> k"
  shows "ro_ok tm hm cs P m st \<Longrightarrow> distinct xs \<Longrightarrow> set xs \<inter> P = {} \<Longrightarrow> set xs \<subseteq> set cs \<Longrightarrow>
    no_jump (length (chunks_per_anchor st)) xs \<Longrightarrow>
    \<exists>st' m'. fold_res (reorder_chunk ops (\<lambda>_. True) k) xs st = Some (Inr st') \<and> ro_ok tm hm cs (P \<union> set xs) m' st' \<and>
      reorder_nw st' = reorder_nw st \<and> terminated_w st' = terminated_w st \<and>
      length (chunks_per_anchor st') = foldl grow (length (chunks_per_anchor st)) xs"
proof (induction xs arbitrary: P m st)
  case (Cons x xs)
  have x: "x \<in> set cs" "x \<notin> P" "unat (l1num (seqno x)) < 2 * length (chunks_per_anchor st)"
    "length (chunks_per_anchor st) \<le> unat (l1num (seqno x)) \<Longrightarrow> length (chunks_per_anchor st) < 2 ^ 31"
    using Cons.prems by auto
  obtain u n where u: "reorder_chunk ops (\<lambda>_. True) k x st = Some (Inr u)" "ro_ok tm hm cs (insert x P) n u"
    "reorder_nw u = reorder_nw st" "terminated_w u = terminated_w st" "length (chunks_per_anchor u) = grow (length (chunks_per_anchor st)) x"
    using reorder_chunk_ok [OF t hl s Cons.prems(1) x(1,2) k x(3,4)] by (auto simp: grow_def)
  have "set xs \<inter> insert x P = {}" "insert x P \<union> set xs = P \<union> set (x # xs)" using Cons.prems(2,3) by auto
  then show ?case using Cons.IH [OF u(2)] Cons.prems u by auto
qed auto

lemma ro_ok_complete:
  assumes a: "ro_ok tm hm cs (set cs) m st"
  shows "calls st = calls_of cs \<and> cache_ok tm hm {} st"
proof -
  have inv: "ro_inv tm hm cs (set cs) m (set cs - set (take m cs)) st" and "m < length cs \<longrightarrow> cs ! m \<notin> set cs"
    using a unfolding ro_ok_def by blast+
  then have "length cs \<le> m" by (metis nth_mem not_le)
  then have "take m cs = cs" by simp
  then show ?thesis using inv by (simp add: ro_inv_def)
qed

lemma reorder_run_ok:
  assumes t: "tree_laws ops tm" and hl: "heap_laws ops hm" and s: "in_sequence cs" and k: "length cs \<le> k"
  shows "ro_ok tm hm cs P m st \<Longrightarrow> \<forall>b \<in> set bs. rb_inv b \<Longrightarrow> distinct (concat (map rb_items bs)) \<Longrightarrow>
    set (concat (map rb_items bs)) \<inter> P = {} \<Longrightarrow> P \<union> set (concat (map rb_items bs)) = set cs \<Longrightarrow>
    no_jump (length (chunks_per_anchor st)) (concat (map rb_items bs)) \<Longrightarrow>
    terminated_w st + length (filter ringbuffer_isLast bs) = reorder_nw st \<Longrightarrow> bs \<noteq> [] \<Longrightarrow> ringbuffer_isLast (last bs) \<Longrightarrow>
    \<exists>st'. reorder_run ops (\<lambda>_. True) k bs st = Some (Inr st') \<and> calls st' = calls_of cs \<and> cache_ok tm hm {} st'"
proof (induction bs arbitrary: P m st)
  case (Cons b bs)
  have sub: "set (rb_items b) \<subseteq> set cs" "set (rb_items b) \<inter> P = {}" "distinct (rb_items b)"
    "no_jump (length (chunks_per_anchor st)) (rb_items b)"
    using Cons.prems(3-6) by (auto simp: no_jump_append)
  obtain u n where u: "fold_res (reorder_chunk ops (\<lambda>_. True) k) (rb_items b) st = Some (Inr u)"
    "ro_ok tm hm cs (P \<union> set (rb_items b)) n u" "reorder_nw u = reorder_nw st" "terminated_w u = terminated_w st"
    "length (chunks_per_anchor u) = foldl grow (length (chunks_per_anchor st)) (rb_items b)"
    using fold_reorder_ok [OF t hl s k Cons.prems(1) sub(3,2,1,4)] by blast
  have b: "rb_inv b" using Cons.prems(2) by simp
  define v where "v = (if ringbuffer_isLast b then u\<lparr>terminated_w := terminated_w u + 1\<rparr> else u)"
  have vok: "ro_ok tm hm cs (P \<union> set (rb_items b)) n v"
    using u(2) by (simp add: v_def ro_ok_def ro_inv_def cache_ok_def anchors_ok_def)
  have vf: "T v = T u" "reorder_nw v = reorder_nw st" "chunks_per_anchor v = chunks_per_anchor u"
    "terminated_w v + length (filter ringbuffer_isLast bs) = reorder_nw st"
    using u(3,4) Cons.prems(7) by (auto simp: v_def)
  have svc: "Reorder_svc ops (\<lambda>_. True) k b st =
      (if terminated_w v = reorder_nw v then flush_loop ops k (TreeFindMin ops (T v)) v else Some (Inr v))"
  proof -
    have "drain (rb_size b) (reorder_chunk ops (\<lambda>_. True) k) b st = Some (Inr u)"
      using u(1) by (simp add: drain_buffer_items [OF b rb_items_size [OF b]])
    then show ?thesis by (simp add: Reorder_svc_def v_def)
  qed
  show ?case
  proof (cases "bs = []")
    case True
    then have P: "P \<union> set (rb_items b) = set cs" using Cons.prems(5) by simp
    have fin: "calls v = calls_of cs" "cache_ok tm hm {} v" using ro_ok_complete [of tm hm cs n v] vok P by simp_all
    have "TreeFindMin ops (T v) = None" using find_min_ok [OF t fin(2)] by simp
    then show ?thesis using True svc fin vf by simp
  next
    case False
    then have "0 < length (filter ringbuffer_isLast bs)"
      using Cons.prems(9) by (auto simp: filter_empty_conv intro!: bexI [of _ "last bs"])
    then have "terminated_w v \<noteq> reorder_nw v" using vf(2,4) by linarith
    then have svc': "Reorder_svc ops (\<lambda>_. True) k b st = Some (Inr v)" using svc by simp
    have "set (concat (map rb_items bs)) \<inter> (P \<union> set (rb_items b)) = {}"
      "P \<union> set (rb_items b) \<union> set (concat (map rb_items bs)) = set cs" "distinct (concat (map rb_items bs))"
      "no_jump (length (chunks_per_anchor v)) (concat (map rb_items bs))"
      "ringbuffer_isLast (last bs)" "\<forall>b \<in> set bs. rb_inv b" "terminated_w v + length (filter ringbuffer_isLast bs) = reorder_nw v"
      using Cons.prems False u(5) vf by (auto simp: no_jump_append)
    from Cons.IH [OF vok this(6,3,1,2,4,7) False this(5)] show ?thesis using svc' by simp
  qed
qed simp

lemma Reorder_ok:
  assumes "tree_laws ops tm" and "Reorder ops True n = Inr st"
  shows "ro_ok tm hm cs {} 0 st \<and> length (chunks_per_anchor st) = 1024 \<and> terminated_w st = 0 \<and> reorder_nw st = n"
  using assms by (auto simp: Reorder_def ro_ok_def ro_inv_def calls_of_def nxt_def sequence_reset_def cache_ok_def
      tree_laws_def anchors_ok_def level_def)

subsection \<open>A list implementation of the containers\<close>

definition list_ops :: "((u32 \<times> nat) list, chunk_t list) cache_ops" where
  "list_ops =
     \<lparr>TreeMakeEmpty = [],
      TreeFind = (\<lambda>l t. map_option (Pair l) (map_of t l)),
      TreeFindMin = (\<lambda>t. if t = [] then None else let l = Min (set (map fst t)) in Some (l, the (map_of t l))),
      TreeInsert = Cons,
      TreeDelete = (\<lambda>e. filter (\<lambda>x. fst x \<noteq> fst e)),
      Initialize = (\<lambda>n. []),
      Insert = Cons,
      FindMin = (\<lambda>h. the (find (\<lambda>c. seqno c = Min (set (map seqno h))) h)),
      DeleteMin = (\<lambda>h. remove1 (the (find (\<lambda>c. seqno c = Min (set (map seqno h))) h)) h),
      IsEmpty = (\<lambda>h. h = [])\<rparr>"

lemma list_tree_laws: "tree_laws list_ops map_of"
  unfolding tree_laws_def
proof (intro conjI allI impI)
  fix t :: "(u32 \<times> nat) list" and l q
  show "map_of (TreeDelete list_ops (l, q) t) = (map_of t)(l := None)"
    by (rule ext) (induction t, auto simp: list_ops_def)
  assume "map_of t l = Some q"
  then have ne: "t \<noteq> []" "l \<in> set (map fst t)" using weak_map_of_SomeI by (auto dest: map_of_SomeD intro: rev_image_eqI)
  define l' where "l' = Min (set (map fst t))"
  have m: "l' \<in> set (map fst t)" "l' \<le> l" unfolding l'_def using ne Min_in [of "set (map fst t)"] by auto
  then obtain q' where "map_of t l' = Some q'" by (metis list.set_map map_of_eq_None_iff not_Some_eq)
  then show "\<exists>l' q'. TreeFindMin list_ops t = Some (l', q') \<and> map_of t l' = Some q' \<and> l' \<le> l"
    using ne m(2) by (intro exI [of _ l'] exI [of _ q']) (simp add: list_ops_def Let_def l'_def)
next
  fix t :: "(u32 \<times> nat) list" assume "map_of t = (\<lambda>_. None)"
  then show "TreeFindMin list_ops t = None" by (cases t) (auto simp: list_ops_def fun_eq_iff split: if_splits)
qed (auto simp: list_ops_def)

lemma list_heap_laws: "heap_laws list_ops mset"
  unfolding heap_laws_def
proof (intro conjI allI impI ballI)
  fix h :: "chunk_t list" assume ne: "mset h \<noteq> {#}"
  define m where "m = Min (set (map seqno h))"
  have "m \<in> set (map seqno h)" unfolding m_def using ne by (intro Min_in) auto
  then obtain c where c: "find (\<lambda>c. seqno c = m) h = Some c" by (cases "find (\<lambda>c. seqno c = m) h") (auto simp: find_None_iff)
  have f: "FindMin list_ops h = c" using c by (simp add: list_ops_def m_def)
  have cs: "c \<in> set h" "seqno c = m" using c by (auto simp: find_Some_iff)
  show "FindMin list_ops h \<in># mset h" using f cs by simp
  show "mset (DeleteMin list_ops h) = mset h - {#FindMin list_ops h#}" using f by (simp add: list_ops_def)
  fix d assume "d \<in># mset h"
  then show "seqno (FindMin list_ops h) \<le> seqno d" unfolding f cs(2) m_def by (intro Min_le) auto
qed (auto simp: list_ops_def)

subsection \<open>Properties\<close>

text \<open>
  C6. For every order of arrival of the chunks of a file in which none arrives so early that one
  doubling of the array of anchors does not reach its anchor (\<open>no_jump\<close>; every order, for a file
  of fewer than 2048 anchors), however the chunks are spread over buffers, with all \<open>n\<close> end marks
  and the last of them on the last buffer: the stage writes each chunk once, in the order of the
  file, frees exactly the duplicates, makes no step outside its bounds and ends with an empty
  cache. The next theorem shows what the excluded orders lead to.
\<close>

theorem reorder_in_order:
  assumes "tree_laws ops tm" and "heap_laws ops hm" and "in_sequence cs" and "length cs \<le> k"
    and "Reorder ops True n = Inr st" and "\<forall>b \<in> set bs. rb_inv b"
    and "mset (concat (map rb_items bs)) = mset cs" and "no_jump 1024 (concat (map rb_items bs))"
    and "0 < n" and "length (filter ringbuffer_isLast bs) = n" and "ringbuffer_isLast (last bs)"
  shows "\<exists>st'. reorder_run ops (\<lambda>_. True) k bs st = Some (Inr st') \<and> calls st' = calls_of cs \<and>
    (\<forall>l. TreeFind ops l (T st') = None)"
proof -
  have d: "distinct (concat (map rb_items bs))" "set (concat (map rb_items bs)) = set cs"
    using in_sequence_distinct [OF assms(3)] assms(7) by (metis mset_eq_imp_distinct_iff, metis mset_eq_setD)
  note init = Reorder_ok [OF assms(1,5), of hm cs]
  obtain st' where "reorder_run ops (\<lambda>_. True) k bs st = Some (Inr st')" "calls st' = calls_of cs" "cache_ok tm hm {} st'"
  proof -
    have "bs \<noteq> []" using assms(9,10) by auto
    then show ?thesis
      using reorder_run_ok [OF assms(1-4), of "{}" 0 st bs] init assms(6,8-11) d that by auto
  qed
  moreover have "tm (T st') l = None" for l
    using calculation(3) by (cases "tm (T st') l") (auto simp: cache_ok_def)
  ultimately show ?thesis using assms(1) by (auto simp: tree_laws_def)
qed

definition demo_chunk :: "u32 \<Rightarrow> bool \<Rightarrow> chunk_t" where
  "demo_chunk j l = malloc_chunk\<lparr>seqno := Seq 0 j, isLastL2Chunk := l\<rparr>"

definition demo_buffer :: "chunk_t list \<Rightarrow> chunk_t ringbuffer" where
  "demo_buffer cs = ringbuffer_setLast (foldl (\<lambda>b c. snd (ringbuffer_insert b c)) (ringbuffer_init (length cs)) cs)"

theorem reorder_in_order_witness:
  "\<exists>st st'. Reorder list_ops True 1 = Inr st \<and>
    reorder_run list_ops (\<lambda>_. True) 2 [demo_buffer [demo_chunk 1 True, demo_chunk 0 False]] st = Some (Inr st') \<and>
    calls st' = [Write (demo_chunk 0 False), Write (demo_chunk 1 True)]"
proof -
  let ?cs = "[demo_chunk 0 False, demo_chunk 1 True]" and ?b = "demo_buffer [demo_chunk 1 True, demo_chunk 0 False]"
  obtain st where st: "Reorder list_ops True 1 = Inr st" by (simp add: Reorder_def)
  have cap: "rb_size (ringbuffer_init 2 :: chunk_t ringbuffer) = 3" by (simp add: ringbuffer_init_def)
  obtain b1 where b1: "ringbuffer_insert (ringbuffer_init 2) (demo_chunk 1 True) = (0, b1)" "rb_inv b1"
    "rb_items b1 = [demo_chunk 1 True]" "rb_capacity b1 = 2"
    using ringbuffer_insert_room [OF rb_inv_init [of 2], of "demo_chunk 1 True"]
    cap by (auto simp: fifo_simps rb_capacity_def)
  obtain b2 where b2: "ringbuffer_insert b1 (demo_chunk 0 False) = (0, b2)" "rb_inv b2"
    "rb_items b2 = [demo_chunk 1 True, demo_chunk 0 False]"
    using ringbuffer_insert_room [OF b1(2), of "demo_chunk 0 False"] b1(3,4) by auto
  have b: "?b = ringbuffer_setLast b2" using b1(1) b2(1) by (simp add: demo_buffer_def numeral_2_eq_2 [symmetric])
  have "(0 :: u32) < - 1" "(1 :: u32) < - 1" by code_simp+
  then have seq: "in_sequence ?cs"
    by (auto simp: in_sequence_def demo_chunk_def malloc_chunk_def next_number_def less_Suc_eq)
  have items: "concat (map rb_items [?b]) = [demo_chunk 1 True, demo_chunk 0 False]" by (simp add: b b2(3) fifo_simps)
  have ms: "mset (concat (map rb_items [?b])) = mset ?cs" unfolding items by simp
  have inv: "\<forall>b \<in> set [?b]. rb_inv b" by (simp add: b b2(2) fifo_simps)
  have jump: "no_jump 1024 (concat (map rb_items [?b]))"
    unfolding items by (simp add: grow_def demo_chunk_def malloc_chunk_def)
  have last: "length (filter ringbuffer_isLast [?b]) = 1" "ringbuffer_isLast (last [?b])" by (simp_all add: b fifo_simps)
  have "length ?cs \<le> 2" "0 < (1 :: nat)" by simp_all
  note reorder_in_order [OF list_tree_laws list_heap_laws seq this(1) st inv ms jump this(2) last]
  then obtain st' where "reorder_run list_ops (\<lambda>_. True) 2 [?b] st = Some (Inr st')" "calls st' = calls_of ?cs"
    by (elim exE conjE)
  moreover have "calls_of ?cs = [Write (demo_chunk 0 False), Write (demo_chunk 1 True)]"
    by (simp add: calls_of_def demo_chunk_def malloc_chunk_def)
  ultimately show ?thesis using st by auto
qed

text \<open>
  C37. The array of anchors is doubled once for a chunk, not until it reaches the anchor of the
  chunk: the last chunk of an anchor that arrives at least a factor of two too early is recorded
  behind the end of the array.
\<close>

theorem reorder_anchor_overflow:
  assumes "isLastL2Chunk c" and "2 * length (chunks_per_anchor st) \<le> unat (l1num (seqno c))" and "\<And>n. alloc n"
  shows "reorder_chunk ops alloc k c st = Some (Inl BadAccess)"
proof -
  let ?m = "length (chunks_per_anchor st)"
  have "unat (l1num (seqno c)) < 2 ^ 32" using unsigned_less [of "l1num (seqno c)"] by simp
  then have m: "2 * ?m < 2 ^ 32" using assms(2) by linarith
  then have "grow_anchors alloc c st = Inr (st\<lparr>chunks_per_anchor := chunks_per_anchor st @ replicate ?m 0\<rparr>)"
    using assms(2) by (subst grow_anchors_eq [OF _ assms(3)]) simp_all
  then show ?thesis using assms(1,2) by (simp add: reorder_chunk_def expect_l2_def Let_def)
qed

theorem reorder_anchor_overflow_witness:
  "\<exists>st. Reorder list_ops True 1 = Inr st \<and>
    reorder_chunk list_ops (\<lambda>_. True) 1 (malloc_chunk\<lparr>seqno := Seq 2048 0, isLastL2Chunk := True\<rparr>) st = Some (Inl BadAccess)"
proof -
  obtain st where st: "Reorder list_ops True 1 = Inr st" "length (chunks_per_anchor st) = 1024" by (simp add: Reorder_def)
  show ?thesis using reorder_anchor_overflow [of "malloc_chunk\<lparr>seqno := Seq 2048 0, isLastL2Chunk := True\<rparr>" st] st by auto
qed

end
