(* ===== verification/DedupPipe.thy ===== *)
theory DedupPipe
  imports DedupEncode
begin

text \<open>
  The encoder as a pipe of farms (\<open>encoder_ff_pipeoffarms.cpp\<close>): refinement, deduplication and
  compression are farms of their own, connected by collectors and emitters; the load balancer
  sends a buffer to any worker. Every thread is a value of type \<open>node\<close>, and a run interleaves the
  atomic steps of all threads of the three farms. The last collector is the reorder stage
  (theory DedupReorder); here it is the list of the buffers it has received and the writes it may
  perform on chunks of these buffers.
\<close>

subsection \<open>Stages that send while they run\<close>

text \<open>
  A stage is a thread with two kinds of atomic steps: an action on the shared state, and
  \<open>ff_send_out\<close>, which the code repeats until it succeeds.
\<close>

datatype 'b io = Do act | Send "'b ringbuffer"

type_synonym ('b, 'a) node = "('b io, res, 'a) proc"

text \<open>
  The output idiom: insert the item and, when the send buffer is full, mark it (only the
  deduplication stage does), send it and allocate a new one.
\<close>

definition ff_emit :: "nat \<Rightarrow> ('b ringbuffer \<Rightarrow> 'b ringbuffer) \<Rightarrow> 'b \<Rightarrow> 'b ringbuffer \<Rightarrow> ('b, 'b ringbuffer) node" where
  "ff_emit n mark x sb =
     (case ringbuffer_insert sb x of (r, sb) \<Rightarrow>
        if r \<noteq> 0 then Fail AssertFailed
        else if ringbuffer_isFull sb then Act (Send (mark sb)) (\<lambda>_. Ret (ringbuffer_init n))
        else Ret sb)"

definition keep_mark :: "'b ringbuffer \<Rightarrow> 'b ringbuffer" where
  "keep_mark sb = sb"

subsection \<open>Fragmentation\<close>

text \<open>
  What \<open>Fragment\<close> sends: with a worker number when it names the receiver, without one when the
  load balancer chooses it.
\<close>

definition pof_Fragment_svc ::
  "ext \<Rightarrow> config_t \<Rightarrow> input \<Rightarrow> bool \<Rightarrow> nat \<Rightarrow> err + (nat option \<times> chunk_t ringbuffer) list" where
  "pof_Fragment_svc X conf io lb nw =
     (let tabs = rabininit X rf_win_dataprocess; dest = (\<lambda>i. if lb then Some i else None) in
      if \<not> malloc_ok X sizeof_rabintab then Inl (ExitTrace ''Memory allocation failed.'')
      else (case fragment_loop X conf io tabs None 0 0 0 (ringbuffer_init ANCHOR_DATA_PER_INSERT, []) of
         Inl e \<Rightarrow> Inl e
       | Inr (sb, sent) \<Rightarrow>
           Inr (map (Pair None) sent @ (dest 0, ringbuffer_setLast sb) #
             map (\<lambda>i. (dest i, ringbuffer_setLast (ringbuffer_init ANCHOR_DATA_PER_INSERT))) [1..<nw])))"

subsection \<open>Refinement\<close>

function pof_refine_chunk :: "ext \<Rightarrow> rabin_tabs \<Rightarrow> u32 \<Rightarrow> chunk_t \<Rightarrow> stats_t \<times> chunk_t ringbuffer \<Rightarrow>
    (chunk_t, stats_t \<times> chunk_t ringbuffer) node" where
  "pof_refine_chunk X tabs chcount chunk (st, sb) =
     (let offset = to_size_t (rabinseg X (chunk_bytes chunk) rf_win tabs) in
      if offset < mb_len (uncompressed_data chunk) then
        (if \<not> malloc_ok X sizeof_chunk_t then Fail (ExitTrace ''Memory allocation failed.'')
         else case mbuf_split (uncompressed_data chunk) offset of Inl e \<Rightarrow> Fail e
         | Inr (m1, m2) \<Rightarrow>
           (let temp = malloc_chunk\<lparr>state := state chunk, seqno := Seq (l1num (seqno chunk)) 0,
                  uncompressed_data := m2\<rparr>;
                chunk = chunk\<lparr>uncompressed_data := m1, seqno := Seq (l1num (seqno chunk)) chcount,
                  isLastL2Chunk := False\<rparr>;
                st = count_chunk (mb_len (uncompressed_data chunk)) st in
            bind (ff_emit CHUNK_ANCHOR_PER_INSERT keep_mark chunk sb)
              (\<lambda>sb. pof_refine_chunk X tabs (chcount + 1) temp (st, sb))))
      else
        (let chunk = chunk\<lparr>seqno := Seq (l1num (seqno chunk)) chcount, isLastL2Chunk := True\<rparr>;
             st = count_chunk (mb_len (uncompressed_data chunk)) st in
         bind (ff_emit CHUNK_ANCHOR_PER_INSERT keep_mark chunk sb) (\<lambda>sb. Ret (st, sb))))"
  by pat_completeness auto
termination
  by (relation "measure (\<lambda>(X, tabs, k, chunk, s). mb_len (uncompressed_data chunk))")
    (auto simp: mbuf_split_def split: if_splits)

declare pof_refine_chunk.simps [simp del]

definition pof_FragmentRefine_svc :: "ext \<Rightarrow> chunk_t ringbuffer \<Rightarrow> chunk_t stage \<Rightarrow> (chunk_t, chunk_t stage) node" where
  "pof_FragmentRefine_svc X recv_buf g =
     bind (buffer_loop (rb_size recv_buf) (pof_refine_chunk X (rabininit X rf_win) 0)
             recv_buf (thread_stats g, send_buf g))
       (\<lambda>(st, sb).
          if ringbuffer_isLast recv_buf
          then Act (Send (ringbuffer_setLast sb)) (\<lambda>_. Ret (g\<lparr>send_buf := ringbuffer_setLast sb, thread_stats := st\<rparr>))
          else Ret (g\<lparr>send_buf := sb, thread_stats := st\<rparr>))"

subsection \<open>Deduplication\<close>

record dstage =
  send_buf_reorder :: "nat ringbuffer"
  send_buf_compress :: "nat ringbuffer"
  d_stats :: stats_t

definition pof_Deduplicate :: dstage where
  "pof_Deduplicate = \<lparr>send_buf_reorder = ringbuffer_init ITEM_PER_INSERT,
     send_buf_compress = ringbuffer_init ITEM_PER_INSERT, d_stats = init_stats\<rparr>"

definition pof_dedup_body :: "chunk_t \<Rightarrow> dstage \<Rightarrow> (nat, dstage) node" where
  "pof_dedup_body chunk g =
     Act (Do (ADedup chunk)) (\<lambda>r. case r of
         RDedup dup a \<Rightarrow>
           if \<not> dup then
             Act (Do (ARead a)) (\<lambda>r. case r of
                 RChunk c \<Rightarrow>
                   bind (ff_emit ITEM_PER_INSERT keep_mark a (send_buf_compress g))
                     (\<lambda>sb. Ret (g\<lparr>send_buf_compress := sb, d_stats := (d_stats g)\<lparr>total_dedup :=
                        total_dedup (d_stats g) + of_nat (mb_len (uncompressed_data c))\<rparr>\<rparr>))
               | _ \<Rightarrow> Fail BadAccess)
           else
             bind (ff_emit ITEM_PER_INSERT ringbuffer_setBypassCompress a (send_buf_reorder g))
               (\<lambda>sb. Ret (g\<lparr>send_buf_reorder := sb, d_stats := (d_stats g)\<lparr>nDuplicates := nDuplicates (d_stats g) + 1\<rparr>\<rparr>))
       | _ \<Rightarrow> Fail BadAccess)"

definition pof_Deduplicate_svc :: "chunk_t ringbuffer \<Rightarrow> dstage \<Rightarrow> (nat, dstage) node" where
  "pof_Deduplicate_svc recv_buf g =
     bind (buffer_loop (rb_size recv_buf) pof_dedup_body recv_buf g)
       (\<lambda>g. if ringbuffer_isLast recv_buf then
              (let c = ringbuffer_setLast (send_buf_compress g);
                   d = ringbuffer_setBypassCompress (send_buf_reorder g) in
               Act (Send d) (\<lambda>_. Act (Send c) (\<lambda>_. Ret (g\<lparr>send_buf_compress := c, send_buf_reorder := d\<rparr>))))
            else Ret g)"

subsection \<open>Compression\<close>

definition pof_compress_body :: "nat \<Rightarrow> stats_t \<times> nat ringbuffer \<Rightarrow> (nat, stats_t \<times> nat ringbuffer) node" where
  "pof_compress_body a = (\<lambda>(st, sb).
     Act (Do (ACompress a)) (\<lambda>_. Act (Do (ARead a)) (\<lambda>r. case r of
         RChunk c \<Rightarrow>
           bind (ff_emit ITEM_PER_INSERT keep_mark a sb)
             (\<lambda>sb. Ret (st\<lparr>total_compressed := total_compressed st + of_nat (mb_len (compressed_data c))\<rparr>, sb))
       | _ \<Rightarrow> Fail BadAccess)))"

definition pof_Compress_svc :: "nat ringbuffer \<Rightarrow> nat stage \<Rightarrow> (nat, nat stage) node" where
  "pof_Compress_svc recv_buf g =
     (if ringbuffer_isBypassCompress recv_buf then Act (Send recv_buf) (\<lambda>_. Ret g)
      else
        bind (buffer_loop (rb_size recv_buf) pof_compress_body recv_buf (thread_stats g, send_buf g))
          (\<lambda>(st, sb).
             if ringbuffer_isLast recv_buf
             then Act (Send (ringbuffer_setLast sb)) (\<lambda>_. Ret (g\<lparr>send_buf := ringbuffer_setLast sb, thread_stats := st\<rparr>))
             else Ret (g\<lparr>send_buf := sb, thread_stats := st\<rparr>)))"

subsection \<open>Emitters and collectors\<close>

definition POFEmitter_svc :: "nat \<Rightarrow> 'a ringbuffer \<Rightarrow> (nat option \<times> 'a ringbuffer) list" where
  "POFEmitter_svc nw recv_buf =
     (if ringbuffer_isLast recv_buf then
        (Some 0, recv_buf) # map (\<lambda>i. (Some i, ringbuffer_setLast (ringbuffer_init ANCHOR_DATA_PER_INSERT))) [1..<nw]
      else [(None, recv_buf)])"

definition POFCollector_svc :: "nat \<Rightarrow> 'a ringbuffer \<Rightarrow> nat \<Rightarrow> 'a ringbuffer \<times> nat" where
  "POFCollector_svc nw recv_buf rcvd =
     (if ringbuffer_isLast recv_buf then
        (if rcvd + 1 = nw then (recv_buf, 0) else (ringbuffer_resetLast recv_buf, rcvd + 1))
      else (recv_buf, rcvd))"

subsection \<open>A farm\<close>

datatype ('b, 's) wstate = Idle 's | Busy "('b, 's) node"

record ('a, 'b, 's) pfarm =
  p_in :: "'a ringbuffer list"
  p_pend :: "(nat option \<times> 'a ringbuffer) list"
  p_wq :: "'a ringbuffer list list"
  p_ws :: "('b, 's) wstate list"
  p_cq :: "'b ringbuffer list list"

definition pfarm_init :: "nat \<Rightarrow> 's \<Rightarrow> (nat option \<times> 'a ringbuffer) list \<Rightarrow> ('a, 'b, 's) pfarm" where
  "pfarm_init nw w sends = \<lparr>p_in = [], p_pend = sends, p_wq = replicate nw [], p_ws = replicate nw (Idle w),
     p_cq = replicate nw []\<rparr>"

text \<open>
  The atomic steps of the threads of a farm: the emitter takes a buffer or sends one (to worker
  \<open>i\<close>, its own choice only when no receiver is named), worker \<open>i\<close> takes a buffer, makes a step
  or ends its call, and the collector takes a buffer of worker \<open>i\<close>. A step yields an error,
  which ends the program, or the buffer the collector has taken, the farm and the shared state.
\<close>

datatype fevent = ETake | ESend nat | WTake nat | WStep nat | WEnd nat | CTake nat

fun pfarm_event ::
  "(act \<Rightarrow> 'g \<Rightarrow> (res, 'g) outcome) \<Rightarrow> nat \<Rightarrow> ('a ringbuffer \<Rightarrow> 's \<Rightarrow> ('b, 's) node) \<Rightarrow> fevent \<Rightarrow>
   ('a, 'b, 's) pfarm \<Rightarrow> 'g \<Rightarrow> (err + 'b ringbuffer option \<times> ('a, 'b, 's) pfarm \<times> 'g) option" where
  "pfarm_event ex nw svc ETake f g =
     (case (p_pend f, p_in f) of
        ([], b # bs) \<Rightarrow> Some (Inr (None, f\<lparr>p_pend := POFEmitter_svc nw b, p_in := bs\<rparr>, g))
      | _ \<Rightarrow> None)"
| "pfarm_event ex nw svc (ESend i) f g =
     (case p_pend f of
        (d, b) # ps \<Rightarrow>
          if i < nw \<and> (d = None \<or> d = Some i)
          then Some (Inr (None, f\<lparr>p_pend := ps, p_wq := (p_wq f)[i := p_wq f ! i @ [b]]\<rparr>, g)) else None
      | _ \<Rightarrow> None)"
| "pfarm_event ex nw svc (WTake i) f g =
     (if nw \<le> i then None
      else (case (p_ws f ! i, p_wq f ! i) of
          (Idle s, b # bs) \<Rightarrow>
            Some (Inr (None, f\<lparr>p_ws := (p_ws f)[i := Busy (svc b s)], p_wq := (p_wq f)[i := bs]\<rparr>, g))
        | _ \<Rightarrow> None))"
| "pfarm_event ex nw svc (WStep i) f g =
     (if nw \<le> i then None
      else (case p_ws f ! i of
          Busy (Act (Do a) k) \<Rightarrow>
            (case ex a g of Blocked \<Rightarrow> None
             | Crash e \<Rightarrow> Some (Inl e)
             | Step r g \<Rightarrow> Some (Inr (None, f\<lparr>p_ws := (p_ws f)[i := Busy (k r)]\<rparr>, g)))
        | Busy (Act (Send b) k) \<Rightarrow>
            Some (Inr (None, f\<lparr>p_ws := (p_ws f)[i := Busy (k RUnit)], p_cq := (p_cq f)[i := p_cq f ! i @ [b]]\<rparr>, g))
        | Busy (Fail e) \<Rightarrow> Some (Inl e)
        | _ \<Rightarrow> None))"
| "pfarm_event ex nw svc (WEnd i) f g =
     (if nw \<le> i then None
      else (case p_ws f ! i of
          Busy (Ret s) \<Rightarrow> Some (Inr (None, f\<lparr>p_ws := (p_ws f)[i := Idle s]\<rparr>, g))
        | _ \<Rightarrow> None))"
| "pfarm_event ex nw svc (CTake i) f g =
     (if nw \<le> i then None
      else (case p_cq f ! i of
          b # bs \<Rightarrow> Some (Inr (Some b, f\<lparr>p_cq := (p_cq f)[i := bs]\<rparr>, g))
        | _ \<Rightarrow> None))"

subsection \<open>The pipe of farms\<close>

text \<open>
  The three farms, the counters of the first two collectors, the shared state, and the buffers
  the last collector, \<open>Reorder\<close>, has received so far.
\<close>

record pof =
  fraFarm :: "(chunk_t, chunk_t, chunk_t stage) pfarm"
  dedFarm :: "(chunk_t, nat, dstage) pfarm"
  cmpFarm :: "(nat, nat, nat stage) pfarm"
  fraRcvd :: nat
  dedRcvd :: nat
  pof_sh :: shared
  pof_out :: "nat ringbuffer list"

datatype pevent = EFra fevent | EDed fevent | ECmp fevent | EWrite nat

definition pof_event :: "ext \<Rightarrow> config_t \<Rightarrow> nat \<Rightarrow> pevent \<Rightarrow> pof \<Rightarrow> (err + pof) option" where
  "pof_event X conf nw e s =
     (case e of
        EFra e \<Rightarrow>
          (case pfarm_event (do_act X conf 1) nw (pof_FragmentRefine_svc X) e (fraFarm s) (pof_sh s) of
             None \<Rightarrow> None | Some (Inl e) \<Rightarrow> Some (Inl e)
           | Some (Inr (out, f, g)) \<Rightarrow>
               let s = s\<lparr>fraFarm := f, pof_sh := g\<rparr> in
               (case out of None \<Rightarrow> Some (Inr s)
                | Some b \<Rightarrow> (case POFCollector_svc nw b (fraRcvd s) of (b, n) \<Rightarrow>
                    Some (Inr (s\<lparr>fraRcvd := n, dedFarm := (dedFarm s)\<lparr>p_in := p_in (dedFarm s) @ [b]\<rparr>\<rparr>)))))
      | EDed e \<Rightarrow>
          (case pfarm_event (do_act X conf 1) nw pof_Deduplicate_svc e (dedFarm s) (pof_sh s) of
             None \<Rightarrow> None | Some (Inl e) \<Rightarrow> Some (Inl e)
           | Some (Inr (out, f, g)) \<Rightarrow>
               let s = s\<lparr>dedFarm := f, pof_sh := g\<rparr> in
               (case out of None \<Rightarrow> Some (Inr s)
                | Some b \<Rightarrow> (case POFCollector_svc nw b (dedRcvd s) of (b, n) \<Rightarrow>
                    Some (Inr (s\<lparr>dedRcvd := n, cmpFarm := (cmpFarm s)\<lparr>p_in := p_in (cmpFarm s) @ [b]\<rparr>\<rparr>)))))
      | ECmp e \<Rightarrow>
          (case pfarm_event (do_act X conf 1) nw pof_Compress_svc e (cmpFarm s) (pof_sh s) of
             None \<Rightarrow> None | Some (Inl e) \<Rightarrow> Some (Inl e)
           | Some (Inr (out, f, g)) \<Rightarrow>
               let s = s\<lparr>cmpFarm := f, pof_sh := g\<rparr> in
               (case out of None \<Rightarrow> Some (Inr s) | Some b \<Rightarrow> Some (Inr (s\<lparr>pof_out := pof_out s @ [b]\<rparr>))))
      | EWrite a \<Rightarrow>
          (if a \<in> set (concat (map rb_items (pof_out s))) then
             (case do_act X conf 0 (AWrite a) (pof_sh s) of
                Blocked \<Rightarrow> None | Crash e \<Rightarrow> Some (Inl e) | Step r g \<Rightarrow> Some (Inr (s\<lparr>pof_sh := g\<rparr>)))
           else None))"

fun pof_run :: "ext \<Rightarrow> config_t \<Rightarrow> nat \<Rightarrow> pevent list \<Rightarrow> pof \<Rightarrow> (err + pof) option" where
  "pof_run X conf nw [] s = Some (Inr s)"
| "pof_run X conf nw (e # es) s =
     (case pof_event X conf nw e s of None \<Rightarrow> None | Some (Inl e) \<Rightarrow> Some (Inl e)
      | Some (Inr s) \<Rightarrow> pof_run X conf nw es s)"

definition runPipeOfFarms :: "ext \<Rightarrow> config_t \<Rightarrow> input \<Rightarrow> shared \<Rightarrow> err + pof" where
  "runPipeOfFarms X conf io sh =
     (case pof_Fragment_svc X conf io True (nthreads conf) of Inl e \<Rightarrow> Inl e
      | Inr sends \<Rightarrow> Inr
         \<lparr>fraFarm = pfarm_init (nthreads conf) (new_stage CHUNK_ANCHOR_PER_INSERT) sends,
          dedFarm = pfarm_init (nthreads conf) pof_Deduplicate [],
          cmpFarm = pfarm_init (nthreads conf) (new_stage ITEM_PER_INSERT) [],
          fraRcvd = 0, dedRcvd = 0, pof_sh = sh, pof_out = []\<rparr>)"


text \<open>
  \<open>EncodeFF\<close> of this encoder, before and after the skeleton. The constructor of \<open>Reorder\<close>, called in
  \<open>runPipeOfFarms\<close>, opens the output file.
\<close>

definition pof_EncodeFF_start :: "ext \<Rightarrow> config_t \<Rightarrow> encode_env \<Rightarrow> err + pof" where
  "pof_EncodeFF_start X conf E =
     (case hashtable_create (e_table E) 65536 hash_from_key_fn keys_equal_fn False of
        None \<Rightarrow> Inl (ExitTrace ''ERROR: Out of memory'')
      | Some h \<Rightarrow>
       (case mbuffer_system_init (e_lock_array E) (e_locks E) None of
          Inl e \<Rightarrow> Inl e
        | Inr (r, locks, cs) \<Rightarrow>
          if r \<noteq> 0 then Inl AssertFailed
          else (case e_stat E of None \<Rightarrow> Inl (ExitTrace ''stat() failed'')
            | Some st_size \<Rightarrow>
              if \<not> e_isreg E then Inl (ExitTrace ''not a normal file'')
              else if \<not> e_open E then Inl (ExitTrace ''file open error'')
              else if preloading conf \<and> \<not> malloc_ok X st_size then Inl (ExitTrace ''Error allocating memory for input buffer.'')
              else (case (if preloading conf then preload_loop (e_in E) st_size 0 [] else Inr (in_file (e_in E))) of
                  Inl e \<Rightarrow> Inl e
                | Inr buf \<Rightarrow>
                  if \<not> workers_alloc X (nthreads conf) then Inl (ExitTrace ''Memory allocation failed.'')
                  else (case create_output_file X (e_open_out E) (compress_type conf) of
                     Inl e \<Rightarrow> Inl e
                   | Inr f \<Rightarrow>
                     if preloading conf \<and> length buf < st_size then Inl BadAccess
                     else runPipeOfFarms X conf ((e_in E)\<lparr>in_file := buf\<rparr>)
                       \<lparr>chunks = (\<lambda>_. None), next_chunk = 0, cache = h, outf = f, orig = (\<lambda>_. []),
                        owner = (\<lambda>_. 0), written = []\<rparr>)))))"

definition idle_states :: "('a, 'b, 's) pfarm \<Rightarrow> 's list" where
  "idle_states f = map (\<lambda>w. case w of Idle s \<Rightarrow> s) (p_ws f)"

definition pof_EncodeFF_stats :: "encode_env \<Rightarrow> pof \<Rightarrow> stats_t" where
  "pof_EncodeFF_stats E s =
     (let stats = init_stats\<lparr>total_input := of_nat (length (in_file (e_in E)))\<rparr>;
          stats = foldl merge_stats stats (map thread_stats (idle_states (fraFarm s)));
          stats = foldl merge_stats stats (map d_stats (idle_states (dedFarm s)));
          stats = foldl merge_stats stats (map thread_stats (idle_states (cmpFarm s)))
      in stats\<lparr>total_output := of_nat (length (outf (pof_sh s)))\<rparr>)"

end
