(* ===== verification/DedupPipeMarks.thy ===== *)
theory DedupPipeMarks
  imports DedupPipe DedupRuns
begin

text \<open>
  The end marks in the pipe of farms. \<open>Fragment\<close> sends one mark to every worker, a worker ends its
  output with a mark, a collector lets the last mark pass and erases the others, an emitter
  multiplies it again. The contract of a worker is a locale, interpreted for the three stages
  whatever the actions on the shared state answer; the invariant follows the mark of each worker
  through its queues. Also: the refinement stage is equivalent to the one of the ordered farm.
\<close>

subsection \<open>End marks\<close>

text \<open>At most one mark, at the end: \<open>ends_marked l bs\<close> says whether it is there.\<close>

fun ends_marked :: "bool \<Rightarrow> 'a ringbuffer list \<Rightarrow> bool" where
  "ends_marked l [] = (\<not> l)"
| "ends_marked l (b # bs) = (if ringbuffer_isLast b then l \<and> bs = [] else ends_marked l bs)"

lemma ends_marked_snoc [simp]: "ends_marked l (bs @ [b]) \<longleftrightarrow> ends_marked False bs \<and> l = ringbuffer_isLast b"
  by (induction bs) auto

lemma ends_marked_plain: "ends_marked False bs \<longleftrightarrow> (\<forall>b\<in>set bs. \<not> ringbuffer_isLast b)"
  by (induction bs) auto

text \<open>
  What a stage may do, whatever the actions on the shared state answer: \<open>plain p P\<close> sends no mark
  and returns with \<open>P\<close>; \<open>marking p\<close> sends one mark, and nothing after it; \<open>quiet p\<close> sends nothing.
  None of them waits.
\<close>

definition no_wait :: "act \<Rightarrow> bool" where
  "no_wait a \<longleftrightarrow> (\<forall>x. a \<noteq> AWrite x)"

primrec quiet :: "('b, 'a) node \<Rightarrow> bool" where
  "quiet (Ret v) = True"
| "quiet (Fail e) = True"
| "quiet (Act a k) = (case a of Do x \<Rightarrow> no_wait x \<and> (\<forall>r. quiet (k r)) | Send b \<Rightarrow> False)"

primrec plain :: "('b, 'a) node \<Rightarrow> ('a \<Rightarrow> bool) \<Rightarrow> bool" where
  "plain (Ret v) = (\<lambda>P. P v)"
| "plain (Fail e) = (\<lambda>P. True)"
| "plain (Act a k) = (\<lambda>P. case a of Do x \<Rightarrow> no_wait x \<and> (\<forall>r. plain (k r) P)
     | Send b \<Rightarrow> \<not> ringbuffer_isLast b \<and> plain (k RUnit) P)"

primrec marking :: "('b, 'a) node \<Rightarrow> bool" where
  "marking (Ret v) = False"
| "marking (Fail e) = True"
| "marking (Act a k) = (case a of Do x \<Rightarrow> no_wait x \<and> (\<forall>r. marking (k r))
     | Send b \<Rightarrow> if ringbuffer_isLast b then quiet (k RUnit) else marking (k RUnit))"

lemma plain_bind: "plain p P \<Longrightarrow> (\<And>v. P v \<Longrightarrow> plain (f v) Q) \<Longrightarrow> plain (bind p f) Q"
  by (induction p) (auto split: io.splits)

lemma marking_bind: "plain p P \<Longrightarrow> (\<And>v. P v \<Longrightarrow> marking (f v)) \<Longrightarrow> marking (bind p f)"
  by (induction p) (auto split: io.splits)

lemma insert_last: "ringbuffer_insert b x = (r, b') \<Longrightarrow> ringbuffer_isLast b' = ringbuffer_isLast b"
  by (auto simp: ringbuffer_insert_def ringbuffer_isLast_def Let_def split: if_splits)

lemma mark_simps [simp]:
  "\<not> ringbuffer_isLast (ringbuffer_init n)" "ringbuffer_isLast (ringbuffer_setLast b)"
  "\<not> ringbuffer_isLast (ringbuffer_resetLast b)"
  "ringbuffer_isLast (ringbuffer_setBypassCompress b) = ringbuffer_isLast b" "keep_mark b = b"
  by (simp_all add: ringbuffer_isLast_def ringbuffer_init_def ringbuffer_setLast_def ringbuffer_resetLast_def
      ringbuffer_setBypassCompress_def keep_mark_def)

lemma ff_emit_plain:
  "\<not> ringbuffer_isLast sb \<Longrightarrow> (\<And>b. ringbuffer_isLast (mark b) = ringbuffer_isLast b) \<Longrightarrow>
    plain (ff_emit n mark x sb) (\<lambda>sb. \<not> ringbuffer_isLast sb)"
  by (auto simp: ff_emit_def insert_last split: prod.splits)

lemma buffer_loop_plain:
  "(\<And>x s. P s \<Longrightarrow> plain (body x s) P) \<Longrightarrow> P s \<Longrightarrow> plain (buffer_loop k body buf s) P"
proof (induction k arbitrary: buf s)
  case 0
  then show ?case by (subst buffer_loop.simps) simp
next
  case (Suc k)
  have "plain (bind (body x s) (buffer_loop k body b)) P" for x b
    by (rule plain_bind [OF Suc.prems(1) [OF Suc.prems(2)]]) (rule Suc.IH [OF Suc.prems(1)])
  then show ?case using Suc.prems(2) by (subst buffer_loop.simps) (auto split: prod.splits option.splits)
qed

text \<open>
  The contract of a worker: called with a ready state, it sends one mark at the end exactly when
  its task carries one, and otherwise returns a ready state.
\<close>

locale stage_worker =
  fixes svc :: "'a ringbuffer \<Rightarrow> 's \<Rightarrow> ('b, 's) node" and ready :: "'s \<Rightarrow> bool"
  assumes svc_plain: "ready s \<Longrightarrow> \<not> ringbuffer_isLast b \<Longrightarrow> plain (svc b s) ready"
    and svc_marking: "ready s \<Longrightarrow> ringbuffer_isLast b \<Longrightarrow> marking (svc b s)"

definition stage_open :: "'b stage \<Rightarrow> bool" where
  "stage_open g \<longleftrightarrow> \<not> ringbuffer_isLast (send_buf g)"

definition dstage_open :: "dstage \<Rightarrow> bool" where
  "dstage_open g \<longleftrightarrow> \<not> ringbuffer_isLast (send_buf_reorder g) \<and> \<not> ringbuffer_isLast (send_buf_compress g)"

lemma refine_chunk_plain:
  "\<not> ringbuffer_isLast (snd s) \<Longrightarrow> plain (pof_refine_chunk X tabs k c s) (\<lambda>s. \<not> ringbuffer_isLast (snd s))"
proof (induction X tabs k c s rule: pof_refine_chunk.induct)
  case (1 X tabs k c st sb)
  show ?case
    using 1
    by (subst pof_refine_chunk.simps)
      (auto simp: Let_def intro!: plain_bind [OF ff_emit_plain] split: sum.splits)
qed

interpretation fra: stage_worker "pof_FragmentRefine_svc X" stage_open
proof
  fix s :: "chunk_t stage" and b :: "chunk_t ringbuffer" assume s: "stage_open s"
  have loop: "plain (buffer_loop k (pof_refine_chunk X (rabininit X rf_win) 0) b (thread_stats s, send_buf s))
      (\<lambda>s. \<not> ringbuffer_isLast (snd s))" for k
    using s by (intro buffer_loop_plain refine_chunk_plain) (simp_all add: stage_open_def)
  show "plain (pof_FragmentRefine_svc X b s) stage_open" if "\<not> ringbuffer_isLast b"
    unfolding pof_FragmentRefine_svc_def using that
    by (auto intro!: plain_bind [OF loop] simp: stage_open_def)
  show "marking (pof_FragmentRefine_svc X b s)" if "ringbuffer_isLast b"
    unfolding pof_FragmentRefine_svc_def using that
    by (auto intro!: marking_bind [OF loop])
qed

lemma dedup_body_plain: "dstage_open s \<Longrightarrow> plain (pof_dedup_body c s) dstage_open"
  by (auto simp: pof_dedup_body_def dstage_open_def no_wait_def
      intro!: plain_bind [OF ff_emit_plain] split: res.splits)

interpretation ded: stage_worker pof_Deduplicate_svc dstage_open
proof
  fix s and b :: "chunk_t ringbuffer" assume s: "dstage_open s"
  have loop: "plain (buffer_loop k pof_dedup_body b s) dstage_open" for k
    using s by (intro buffer_loop_plain dedup_body_plain)
  show "plain (pof_Deduplicate_svc b s) dstage_open" if "\<not> ringbuffer_isLast b"
    unfolding pof_Deduplicate_svc_def using that by (auto intro!: plain_bind [OF loop])
  show "marking (pof_Deduplicate_svc b s)" if "ringbuffer_isLast b"
    unfolding pof_Deduplicate_svc_def using that
    by (auto intro!: marking_bind [OF loop] simp: Let_def dstage_open_def)
qed

lemma compress_body_plain:
  "\<not> ringbuffer_isLast (snd s) \<Longrightarrow> plain (pof_compress_body a s) (\<lambda>s. \<not> ringbuffer_isLast (snd s))"
  by (auto simp: pof_compress_body_def no_wait_def
      intro!: plain_bind [OF ff_emit_plain] split: res.splits prod.splits)

interpretation cmp: stage_worker pof_Compress_svc stage_open
proof
  fix s :: "nat stage" and b :: "nat ringbuffer" assume s: "stage_open s"
  have loop: "plain (buffer_loop k pof_compress_body b (thread_stats s, send_buf s)) (\<lambda>s. \<not> ringbuffer_isLast (snd s))" for k
    using s by (intro buffer_loop_plain compress_body_plain) (simp_all add: stage_open_def)
  show "plain (pof_Compress_svc b s) stage_open" if "\<not> ringbuffer_isLast b"
    unfolding pof_Compress_svc_def using that s
    by (auto intro!: plain_bind [OF loop] simp: stage_open_def)
  show "marking (pof_Compress_svc b s)" if "ringbuffer_isLast b"
    unfolding pof_Compress_svc_def using that
    by (auto intro!: marking_bind [OF loop])
qed

subsection \<open>One farm\<close>

text \<open>Where the end mark of a worker is.\<close>

datatype phase = Open | Queued | InWork | Sent | Collected

definition worker_in :: "('s \<Rightarrow> bool) \<Rightarrow> bool \<Rightarrow> ('b, 's) wstate \<Rightarrow> bool" where
  "worker_in ready l w = (case w of Idle s \<Rightarrow> \<not> l \<and> ready s | Busy p \<Rightarrow> if l then marking p else plain p ready)"

definition worker_quiet :: "('b, 's) wstate \<Rightarrow> bool" where
  "worker_quiet w = (case w of Idle s \<Rightarrow> True | Busy p \<Rightarrow> quiet p)"

fun lane_ok :: "('s \<Rightarrow> bool) \<Rightarrow> phase \<Rightarrow> 'a ringbuffer list \<Rightarrow> ('b, 's) wstate \<Rightarrow> 'b ringbuffer list \<Rightarrow> bool" where
  "lane_ok ready Open q w cq = (ends_marked False q \<and> worker_in ready False w \<and> ends_marked False cq)"
| "lane_ok ready Queued q w cq = (ends_marked True q \<and> worker_in ready False w \<and> ends_marked False cq)"
| "lane_ok ready InWork q w cq = (q = [] \<and> worker_in ready True w \<and> ends_marked False cq)"
| "lane_ok ready Sent q w cq = (q = [] \<and> worker_quiet w \<and> ends_marked True cq)"
| "lane_ok ready Collected q w cq = (q = [] \<and> worker_quiet w \<and> cq = [])"

text \<open>
  What the emitter still has to send: unmarked buffers and, once the mark has been taken, marks
  for the workers from \<open>e\<close> on.
\<close>

definition pending_ok :: "nat \<Rightarrow> nat \<Rightarrow> (nat option \<times> 'a ringbuffer) list \<Rightarrow> bool" where
  "pending_ok nw e ps \<longleftrightarrow> (\<exists>us ms. ps = map (Pair None) us @ ms \<and> ends_marked False us \<and> e \<le> nw \<and>
     map fst ms = map Some [e..<nw] \<and> (\<forall>m\<in>set ms. ringbuffer_isLast (snd m)) \<and> (us \<noteq> [] \<longrightarrow> e = 0))"

definition sending_ok :: "nat \<Rightarrow> bool \<Rightarrow> (nat \<Rightarrow> phase) \<Rightarrow> ('a, 'b, 's) pfarm \<Rightarrow> bool" where
  "sending_ok nw l ph f \<longleftrightarrow>
     (ends_marked l (p_in f) \<and> (\<forall>i<nw. ph i = Open) \<and>
       (\<exists>us. p_pend f = map (Pair None) us \<and> ends_marked False us)) \<or>
     (l \<and> p_in f = [] \<and> (\<exists>e. pending_ok nw e (p_pend f) \<and> (\<forall>i<nw. ph i = Open \<longleftrightarrow> e \<le> i)))"

definition pfarm_ok :: "('s \<Rightarrow> bool) \<Rightarrow> nat \<Rightarrow> bool \<Rightarrow> (nat \<Rightarrow> phase) \<Rightarrow> ('a, 'b, 's) pfarm \<Rightarrow> bool" where
  "pfarm_ok ready nw l ph f \<longleftrightarrow>
     length (p_wq f) = nw \<and> length (p_ws f) = nw \<and> length (p_cq f) = nw \<and> sending_ok nw l ph f \<and>
     (\<forall>i<nw. lane_ok ready (ph i) (p_wq f ! i) (p_ws f ! i) (p_cq f ! i))"

definition collected :: "nat \<Rightarrow> (nat \<Rightarrow> phase) \<Rightarrow> nat" where
  "collected nw ph = card {i. i < nw \<and> ph i = Collected}"

lemma collected_le: "collected nw ph \<le> nw"
proof -
  have "card {i. i < nw \<and> ph i = Collected} \<le> card {..<nw}" by (intro card_mono) auto
  then show ?thesis by (simp add: collected_def)
qed

lemma collected_all: "collected nw ph = nw \<longleftrightarrow> (\<forall>i<nw. ph i = Collected)"
proof
  assume "collected nw ph = nw"
  then have "card {i. i < nw \<and> ph i = Collected} = card {..<nw}" by (simp add: collected_def)
  then have "{i. i < nw \<and> ph i = Collected} = {..<nw}" by (intro card_subset_eq) auto
  then show "\<forall>i<nw. ph i = Collected" by blast
next
  assume "\<forall>i<nw. ph i = Collected"
  then have "{i. i < nw \<and> ph i = Collected} = {..<nw}" by auto
  then show "collected nw ph = nw" by (simp add: collected_def)
qed

lemma collected_same:
  "(\<And>i. i < nw \<Longrightarrow> (ph' i = Collected) = (ph i = Collected)) \<Longrightarrow> collected nw ph' = collected nw ph"
  unfolding collected_def by (intro arg_cong [where f = card]) auto

lemma collected_upd:
  assumes "i < nw" and "ph i \<noteq> Collected"
  shows "collected nw (ph(i := Collected)) = Suc (collected nw ph)"
proof -
  have "{j. j < nw \<and> (ph(i := Collected)) j = Collected} = insert i {j. j < nw \<and> ph j = Collected}"
    using assms(1) by auto
  then show ?thesis using assms(2) by (simp add: collected_def)
qed

lemma upd_lanes:
  assumes "\<And>j. j < nw \<Longrightarrow> lane_ok ready (ph j) (wq ! j) (ws ! j) (cq ! j)"
    and "i < nw" and "length wq = nw" and "length ws = nw" and "length cq = nw" and "lane_ok ready p q w c"
  shows "\<forall>j<nw. lane_ok ready ((ph(i := p)) j) (wq[i := q] ! j) (ws[i := w] ! j) (cq[i := c] ! j)"
  using assms by (auto simp: nth_list_update)

lemma sending_phase:
  assumes "sending_ok nw l ph f" and "ph i \<noteq> Open" and "p \<noteq> Open" and "p_in f' = p_in f" and "p_pend f' = p_pend f"
    and "i < nw"
  shows "sending_ok nw l (ph(i := p)) f'"
proof -
  have "\<not> (\<forall>i<nw. ph i = Open)" using assms(2,6) by blast
  then show ?thesis using assms unfolding sending_ok_def by auto
qed

lemma sending_same: "sending_ok nw l ph f \<Longrightarrow> p_in f' = p_in f \<Longrightarrow> p_pend f' = p_pend f \<Longrightarrow> sending_ok nw l ph f'"
  unfolding sending_ok_def by simp

definition lane_next :: "('s \<Rightarrow> bool) \<Rightarrow> nat \<Rightarrow> bool \<Rightarrow> (nat \<Rightarrow> phase) \<Rightarrow> 'b ringbuffer option \<Rightarrow> ('a, 'b, 's) pfarm \<Rightarrow> bool" where
  "lane_next ready nw l ph out f' \<longleftrightarrow> (\<exists>ph'. pfarm_ok ready nw l ph' f' \<and>
     (case out of None \<Rightarrow> collected nw ph' = collected nw ph
      | Some b \<Rightarrow> collected nw ph < nw \<and>
          collected nw ph' = collected nw ph + (if ringbuffer_isLast b then 1 else 0)))"

text \<open>A step of one lane that keeps its phase or moves on, away from \<open>Open\<close>.\<close>

lemma lane_step:
  assumes ok: "pfarm_ok ready nw l ph f" and i: "i < nw"
    and f': "p_in f' = p_in f" "p_pend f' = p_pend f" "p_wq f' = (p_wq f)[i := q]" "p_ws f' = (p_ws f)[i := w]"
      "p_cq f' = (p_cq f)[i := c]"
    and lane: "lane_ok ready p q w c" and p: "p = ph i \<or> (ph i \<noteq> Open \<and> p \<noteq> Open)"
    and out: "case out of None \<Rightarrow> (p = Collected) = (ph i = Collected)
      | Some b \<Rightarrow> ph i \<noteq> Collected \<and> (p = Collected) = ringbuffer_isLast b"
  shows "lane_next ready nw l ph out f'"
proof -
  have "sending_ok nw l (ph(i := p)) f'"
  proof (cases "p = ph i")
    case True
    then have "ph(i := p) = ph" by auto
    then show ?thesis using ok f'(1,2) sending_same unfolding pfarm_ok_def by metis
  next
    case False
    then show ?thesis using ok f'(1,2) p i sending_phase unfolding pfarm_ok_def by metis
  qed
  moreover have "\<forall>j<nw. lane_ok ready ((ph(i := p)) j) (p_wq f' ! j) (p_ws f' ! j) (p_cq f' ! j)"
    unfolding f'(3-5) using ok i lane by (intro upd_lanes) (auto simp: pfarm_ok_def)
  ultimately have "pfarm_ok ready nw l (ph(i := p)) f'"
    using ok f' by (simp add: pfarm_ok_def)
  moreover have "collected nw (ph(i := p)) = collected nw ph" if "(p = Collected) = (ph i = Collected)"
    using that by (intro collected_same) auto
  moreover have "collected nw ph < nw" if "ph i \<noteq> Collected"
    using that i collected_all [of nw ph] collected_le [of nw ph] by (metis le_neq_implies_less)
  moreover have "collected nw (ph(i := Collected)) = Suc (collected nw ph)" if "ph i \<noteq> Collected"
    using collected_upd [where ph = ph, OF i that] .
  ultimately show ?thesis
    using out unfolding lane_next_def by (intro exI [of _ "ph(i := p)"]) (auto split: option.splits if_splits)
qed

lemma upt_Some_Cons: "Some j # xs = map Some [e..<nw] \<Longrightarrow> j = e \<and> e < nw \<and> xs = map Some [Suc e..<nw]"
  by (cases "e < nw") (auto simp: upt_conv_Cons)

lemma emitter_take:
  assumes ok: "pfarm_ok ready nw l ph f" and nw: "0 < nw"
    and ev: "pfarm_event ex nw svc ETake f g = Some (Inr (out, f', g'))"
  shows "lane_next ready nw l ph out f'"
proof -
  obtain b bs where b: "p_pend f = []" "p_in f = b # bs" "f' = f\<lparr>p_pend := POFEmitter_svc nw b, p_in := bs\<rparr>" "out = None"
    using ev by (auto split: list.splits)
  have s: "ends_marked l (b # bs)" "\<forall>i<nw. ph i = Open"
    using ok b(2) by (auto simp: pfarm_ok_def sending_ok_def)
  have "sending_ok nw l ph f'"
  proof (cases "ringbuffer_isLast b")
    case True
    then have "l" "bs = []" using s(1) by auto
    moreover have "pending_ok nw 0 (POFEmitter_svc nw b)"
      unfolding pending_ok_def
    proof (rule exI [of _ "[]"], rule exI [of _ "POFEmitter_svc nw b"], intro conjI)
      show "map fst (POFEmitter_svc nw b) = map Some [0..<nw]"
        using True nw by (simp add: POFEmitter_svc_def comp_def upt_conv_Cons)
    qed (use True in \<open>auto simp: POFEmitter_svc_def\<close>)
    ultimately show ?thesis using b(3) s(2) unfolding sending_ok_def by auto
  next
    case False
    then show ?thesis using b(3) s unfolding sending_ok_def
      by (intro disjI1) (auto simp: POFEmitter_svc_def intro: exI [of _ "[b]"])
  qed
  then have "pfarm_ok ready nw l ph f'" using ok b(3) by (simp add: pfarm_ok_def)
  then show ?thesis using b(4) unfolding lane_next_def by auto
qed

lemma pending_Cons:
  assumes "pending_ok nw e ((d, b) # ps)"
  shows "(d = None \<and> \<not> ringbuffer_isLast b \<and> e = 0 \<and> pending_ok nw 0 ps) \<or>
    (d = Some e \<and> e < nw \<and> ringbuffer_isLast b \<and> pending_ok nw (Suc e) ps)"
proof -
  obtain us ms where u: "(d, b) # ps = map (Pair None) us @ ms" "ends_marked False us" "e \<le> nw"
    "map fst ms = map Some [e..<nw]" "\<forall>m\<in>set ms. ringbuffer_isLast (snd m)" "us \<noteq> [] \<longrightarrow> e = 0"
    using assms unfolding pending_ok_def by blast
  show ?thesis
  proof (cases us)
    case (Cons u us')
    then show ?thesis using u unfolding pending_ok_def
      by (intro disjI1 conjI exI [of _ us'] exI [of _ ms]) (auto split: if_splits)
  next
    case Nil
    then have ms: "ms = (d, b) # ps" using u(1) by simp
    then have "e < nw \<and> d = Some e \<and> map fst ps = map Some [Suc e..<nw]"
      using u(4) by (cases "e < nw") (auto simp: upt_conv_Cons)
    then show ?thesis using ms u(5) unfolding pending_ok_def
      by (intro disjI2 conjI exI [of _ "[]"] exI [of _ ps]) auto
  qed
qed

lemma send_step:
  assumes ok: "pfarm_ok ready nw l ph f"
    and ev: "pfarm_event ex nw svc (ESend i) f g = Some (Inr (out, f', g'))"
  shows "lane_next ready nw l ph out f'"
proof -
  obtain d b ps where b: "p_pend f = (d, b) # ps" "i < nw" "d = None \<or> d = Some i" "out = None"
    "f' = f\<lparr>p_pend := ps, p_wq := (p_wq f)[i := p_wq f ! i @ [b]]\<rparr>"
    using ev by (auto split: list.splits if_splits)
  have lanes: "\<And>j. j < nw \<Longrightarrow> lane_ok ready (ph j) (p_wq f ! j) (p_ws f ! j) (p_cq f ! j)"
    and len: "length (p_wq f) = nw" "length (p_ws f) = nw" "length (p_cq f) = nw"
    using ok by (simp_all add: pfarm_ok_def)
  have open_lane: "lane_ok ready (if ringbuffer_isLast b then Queued else Open) (p_wq f ! i @ [b]) (p_ws f ! i) (p_cq f ! i)"
    if "ph i = Open" using lanes [OF b(2)] that by auto
  have fin: "lane_next ready nw l ph out f'" if s: "sending_ok nw l (ph(i := p)) f'" "ph i = Open"
    and p: "p = (if ringbuffer_isLast b then Queued else Open)" for p
  proof -
    have "\<forall>j<nw. lane_ok ready ((ph(i := p)) j) ((p_wq f)[i := p_wq f ! i @ [b]] ! j) ((p_ws f)[i := p_ws f ! i] ! j)
        ((p_cq f)[i := p_cq f ! i] ! j)"
      using lanes b(2) len open_lane [OF s(2)] unfolding p by (intro upd_lanes)
    then have "pfarm_ok ready nw l (ph(i := p)) f'"
      using s(1) len b(5) by (simp add: pfarm_ok_def)
    moreover have "collected nw (ph(i := p)) = collected nw ph"
      using s(2) p by (intro collected_same) auto
    ultimately show ?thesis using b(4) unfolding lane_next_def by auto
  qed
  have "sending_ok nw l ph f" using ok by (simp add: pfarm_ok_def)
  then consider (a) us where "ends_marked l (p_in f)" "\<forall>i<nw. ph i = Open" "p_pend f = map (Pair None) us" "ends_marked False us"
    | (b) e where "l" "p_in f = []" "pending_ok nw e (p_pend f)" "\<forall>i<nw. ph i = Open \<longleftrightarrow> e \<le> i"
    unfolding sending_ok_def by blast
  then show ?thesis
  proof cases
    case a
    then obtain us' where us: "us = b # us'" "d = None" "ps = map (Pair None) us'" using b(1) by (cases us) auto
    then have nb: "\<not> ringbuffer_isLast b" "ends_marked False us'" using a(4) by (auto split: if_splits)
    have "ph(i := Open) = ph" using a(2) b(2) by auto
    moreover have "sending_ok nw l ph f'"
      using a(1,2) us(3) nb b(5) unfolding sending_ok_def by auto
    ultimately show ?thesis using fin [of Open] nb(1) a(2) b(2) by simp
  next
    case (b e)
    note pend = pending_Cons [of nw e d b ps]
    from b(3) \<open>p_pend f = (d, b) # ps\<close> have "pending_ok nw e ((d, b) # ps)" by simp
    from pend [OF this] show ?thesis
    proof
      assume h: "d = None \<and> \<not> ringbuffer_isLast b \<and> e = 0 \<and> pending_ok nw 0 ps"
      have o: "ph i = Open" using b(4) h \<open>i < nw\<close> by simp
      then have "ph(i := Open) = ph" by auto
      moreover have "sending_ok nw l ph f'"
        using b(1,2,4) h \<open>f' = _\<close> unfolding sending_ok_def by (intro disjI2) auto
      ultimately show ?thesis using fin [of Open] h o by simp
    next
      assume h: "d = Some e \<and> e < nw \<and> ringbuffer_isLast b \<and> pending_ok nw (Suc e) ps"
      then have i: "i = e" using \<open>d = None \<or> d = Some i\<close> by simp
      have o: "ph i = Open" using b(4) h i by simp
      have "\<forall>j<nw. (ph(i := Queued)) j = Open \<longleftrightarrow> Suc e \<le> j"
        using b(4) i by (auto simp: Suc_le_eq)
      then have "sending_ok nw l (ph(i := Queued)) f'"
        using b(1,2) h \<open>f' = _\<close> unfolding sending_ok_def by (intro disjI2) auto
      then show ?thesis using fin [of Queued] h o by simp
    qed
  qed
qed

context stage_worker
begin

lemma work_take:
  assumes ok: "pfarm_ok ready nw l ph f"
    and ev: "pfarm_event ex nw svc (WTake i) f g = Some (Inr (out, f', g'))"
  shows "lane_next ready nw l ph out f'"
proof -
  obtain s b bs where e: "i < nw" "p_ws f ! i = Idle s" "p_wq f ! i = b # bs" "out = None"
    "f' = f\<lparr>p_ws := (p_ws f)[i := Busy (svc b s)], p_wq := (p_wq f)[i := bs]\<rparr>"
    using ev by (auto split: if_splits wstate.splits list.splits)
  have lane: "lane_ok ready (ph i) (b # bs) (Idle s) (p_cq f ! i)"
    using ok e(1-3) by (auto simp: pfarm_ok_def)
  define p where "p = (if ringbuffer_isLast b then InWork else ph i)"
  have r: "ready s" "ph i = Open \<or> ph i = Queued"
    using lane by (cases "ph i"; auto simp: worker_in_def)+
  have n: "ringbuffer_isLast b \<Longrightarrow> ph i = Queued \<and> bs = []"
    using lane r(2) by auto
  have "lane_ok ready p bs (Busy (svc b s)) (p_cq f ! i)"
    using lane r n svc_plain [of s b] svc_marking [of s b]
    by (cases "ringbuffer_isLast b") (auto simp: p_def worker_in_def)
  moreover have "(p_cq f)[i := p_cq f ! i] = p_cq f" by simp
  ultimately show ?thesis
    using r(2) n e
    by (intro lane_step [OF ok e(1), where p = p and q = bs and w = "Busy (svc b s)" and c = "p_cq f ! i"])
      (auto simp: p_def)
qed

lemma lane_work:
  assumes ok: "pfarm_ok ready nw l ph f"
    and ev: "pfarm_event ex nw svc (WStep i) f g = Some (Inr (out, f', g'))"
  shows "lane_next ready nw l ph out f'"
proof -
  obtain a k where i: "i < nw" and w: "p_ws f ! i = Busy (Act a k)"
    using ev by (auto split: if_splits wstate.splits proc.splits)
  have lane: "lane_ok ready (ph i) (p_wq f ! i) (Busy (Act a k)) (p_cq f ! i)"
    using ok i w by (auto simp: pfarm_ok_def)
  have same: "(p_wq f)[i := p_wq f ! i] = p_wq f" "(p_cq f)[i := p_cq f ! i] = p_cq f" by simp_all
  show ?thesis
  proof (cases a)
    case (Do x)
    then obtain r where u: "out = None" "f' = f\<lparr>p_ws := (p_ws f)[i := Busy (k r)]\<rparr>"
      using ev i w by (auto split: outcome.splits)
    have "lane_ok ready (ph i) (p_wq f ! i) (Busy (k r)) (p_cq f ! i)"
      using lane Do by (cases "ph i") (auto simp: worker_in_def worker_quiet_def)
    then show ?thesis using u same
      by (intro lane_step [OF ok i, where p = "ph i" and q = "p_wq f ! i" and w = "Busy (k r)" and c = "p_cq f ! i"]) auto
  next
    case (Send b)
    then have u: "out = None" "f' = f\<lparr>p_ws := (p_ws f)[i := Busy (k RUnit)], p_cq := (p_cq f)[i := p_cq f ! i @ [b]]\<rparr>"
      using ev i w by auto
    define p where "p = (if ringbuffer_isLast b then Sent else ph i)"
    have "ringbuffer_isLast b \<Longrightarrow> ph i = InWork"
      using lane Send by (cases "ph i") (auto simp: worker_in_def worker_quiet_def)
    moreover have "lane_ok ready p (p_wq f ! i) (Busy (k RUnit)) (p_cq f ! i @ [b])"
      using lane Send by (cases "ph i") (auto simp: p_def worker_in_def worker_quiet_def split: if_splits)
    moreover have "ph i \<noteq> Collected" using lane Send by (auto simp: worker_quiet_def)
    ultimately show ?thesis using u same
      by (intro lane_step [OF ok i, where p = p and q = "p_wq f ! i" and w = "Busy (k RUnit)" and c = "p_cq f ! i @ [b]"])
        (auto simp: p_def)
  qed
qed

lemma work_end:
  assumes ok: "pfarm_ok ready nw l ph f"
    and ev: "pfarm_event ex nw svc (WEnd i) f g = Some (Inr (out, f', g'))"
  shows "lane_next ready nw l ph out f'"
proof -
  obtain s where e: "i < nw" "p_ws f ! i = Busy (Ret s)" "out = None" "f' = f\<lparr>p_ws := (p_ws f)[i := Idle s]\<rparr>"
    using ev by (auto split: if_splits wstate.splits proc.splits)
  have "lane_ok ready (ph i) (p_wq f ! i) (Busy (Ret s)) (p_cq f ! i)"
    using ok e(1,2) by (auto simp: pfarm_ok_def)
  then have "lane_ok ready (ph i) (p_wq f ! i) (Idle s) (p_cq f ! i)"
    by (cases "ph i") (auto simp: worker_in_def worker_quiet_def)
  then show ?thesis using e(3,4)
    by (intro lane_step [OF ok e(1), where p = "ph i" and q = "p_wq f ! i" and w = "Idle s" and c = "p_cq f ! i"]) auto
qed

lemma collect_take:
  assumes ok: "pfarm_ok ready nw l ph f"
    and ev: "pfarm_event ex nw svc (CTake i) f g = Some (Inr (out, f', g'))"
  shows "lane_next ready nw l ph out f'"
proof -
  obtain b bs where e: "i < nw" "p_cq f ! i = b # bs" "out = Some b" "f' = f\<lparr>p_cq := (p_cq f)[i := bs]\<rparr>"
    using ev by (auto split: if_splits list.splits)
  have lane: "lane_ok ready (ph i) (p_wq f ! i) (p_ws f ! i) (b # bs)"
    using ok e(1,2) unfolding pfarm_ok_def by metis
  define p where "p = (if ringbuffer_isLast b then Collected else ph i)"
  have "lane_ok ready p (p_wq f ! i) (p_ws f ! i) bs"
    using lane by (cases "ph i") (auto simp: p_def split: if_splits)
  moreover have "ph i \<noteq> Collected" "ringbuffer_isLast b \<Longrightarrow> ph i = Sent"
    using lane by (cases "ph i"; auto split: if_splits)+
  ultimately show ?thesis using e
    by (intro lane_step [OF ok e(1), where p = p and q = "p_wq f ! i" and w = "p_ws f ! i" and c = bs]) (auto simp: p_def)
qed

lemma pfarm_step:
  assumes "pfarm_ok ready nw l ph f" and "0 < nw"
    and "pfarm_event ex nw svc e f g = Some (Inr (out, f', g'))"
  shows "lane_next ready nw l ph out f'"
proof (cases e)
  case ETake
  show ?thesis by (rule emitter_take [OF assms(1,2) assms(3) [unfolded ETake]])
next
  case (ESend i)
  show ?thesis by (rule send_step [OF assms(1) assms(3) [unfolded ESend]])
next
  case (WTake i)
  show ?thesis by (rule work_take [OF assms(1) assms(3) [unfolded WTake]])
next
  case (WStep i)
  show ?thesis by (rule lane_work [OF assms(1) assms(3) [unfolded WStep]])
next
  case (WEnd i)
  show ?thesis by (rule work_end [OF assms(1) assms(3) [unfolded WEnd]])
next
  case (CTake i)
  show ?thesis by (rule collect_take [OF assms(1) assms(3) [unfolded CTake]])
qed

text \<open>A farm in which nothing can happen, whose input has ended, has delivered all its marks.\<close>

lemma pfarm_stuck:
  assumes ok: "pfarm_ok ready nw True ph f" and nw: "0 < nw"
    and stuck: "\<And>e. pfarm_event ex nw svc e f g = None" and ex: "\<And>a. no_wait a \<Longrightarrow> ex a g \<noteq> Blocked"
  shows "collected nw ph = nw"
proof -
  have lanes: "lane_ok ready (ph i) (p_wq f ! i) (p_ws f ! i) (p_cq f ! i)" if "i < nw" for i
    using ok that by (simp add: pfarm_ok_def)
  have pend: "p_pend f = []"
  proof (cases "p_pend f")
    case (Cons m ps)
    obtain d b where m: "m = (d, b)" by (cases m)
    have "d = None \<or> (\<exists>i<nw. d = Some i)"
    proof -
      from ok consider us where "p_pend f = map (Pair None) us" | e where "pending_ok nw e (p_pend f)"
        unfolding pfarm_ok_def sending_ok_def by blast
      then show ?thesis
      proof cases
        case 1
        then show ?thesis using Cons m by auto
      next
        case 2
        then show ?thesis using pending_Cons [of nw e d b ps] Cons m by auto
      qed
    qed
    then obtain i where "i < nw" "d = None \<or> d = Some i" using nw by blast
    then show ?thesis using stuck [of "ESend i"] Cons m by auto
  qed simp
  then have "p_in f = []" using stuck [of ETake] by (auto split: list.splits)
  moreover have "sending_ok nw True ph f" using ok by (simp add: pfarm_ok_def)
  ultimately have "\<exists>e. pending_ok nw e (p_pend f) \<and> (\<forall>i<nw. ph i = Open \<longleftrightarrow> e \<le> i)"
    using pend unfolding sending_ok_def by auto
  then obtain e where "pending_ok nw e (p_pend f)" and e: "\<forall>i<nw. ph i = Open \<longleftrightarrow> e \<le> i"
    by blast
  then have "nw \<le> e" using pend by (auto simp: pending_ok_def)
  then have closed: "ph i \<noteq> Open" if "i < nw" for i using e that by auto
  have idle: "\<exists>s. p_ws f ! i = Idle s" if i: "i < nw" for i
  proof (cases "p_ws f ! i")
    case (Busy p)
    show ?thesis
    proof (cases p)
      case (Ret s)
      then show ?thesis using stuck [of "WEnd i"] Busy i by auto
    next
      case (Fail x)
      then show ?thesis using stuck [of "WStep i"] Busy i by auto
    next
      case (Act a k)
      show ?thesis
      proof (cases a)
        case (Do x)
        have "no_wait x"
          using lanes [OF i] Busy Act Do by (cases "ph i") (auto simp: worker_in_def worker_quiet_def)
        then show ?thesis using stuck [of "WStep i"] ex [of x] Busy Act Do i by (auto split: outcome.splits)
      next
        case (Send b)
        then show ?thesis using stuck [of "WStep i"] Busy Act i by auto
      qed
    qed
  qed simp
  have wq: "p_wq f ! i = []" if i: "i < nw" for i
  proof -
    obtain s where "p_ws f ! i = Idle s" using idle [OF i] by blast
    then show ?thesis using stuck [of "WTake i"] i by (auto split: list.splits)
  qed
  have cq: "p_cq f ! i = []" if i: "i < nw" for i
    using stuck [of "CTake i"] i by (auto split: list.splits)
  have "ph i = Collected" if i: "i < nw" for i
  proof -
    obtain s where s: "p_ws f ! i = Idle s" using idle [OF i] by blast
    show ?thesis
      using lanes [OF i] closed [OF i] wq [OF i] cq [OF i] s by (cases "ph i") (auto simp: worker_in_def)
  qed
  then show ?thesis by (simp add: collected_all)
qed

end

text \<open>When all marks of a farm are collected, nothing is left in it.\<close>

definition farm_empty :: "nat \<Rightarrow> ('a, 'b, 's) pfarm \<Rightarrow> bool" where
  "farm_empty nw f \<longleftrightarrow> p_in f = [] \<and> p_pend f = [] \<and>
     (\<forall>i<nw. p_wq f ! i = [] \<and> worker_quiet (p_ws f ! i) \<and> p_cq f ! i = [])"

lemma collected_empty:
  assumes "pfarm_ok ready nw l ph f" and "collected nw ph = nw" and "0 < nw"
  shows "farm_empty nw f \<and> l"
proof -
  have c: "ph i = Collected" if "i < nw" for i using assms(2) that by (simp add: collected_all)
  then have "\<not> (\<forall>i<nw. ph i = Open)" using assms(3) by force
  then obtain e where e: "l" "p_in f = []" "pending_ok nw e (p_pend f)" "\<forall>i<nw. ph i = Open \<longleftrightarrow> e \<le> i"
    using assms(1) unfolding pfarm_ok_def sending_ok_def by blast
  have "e = nw"
    using e(3,4) c assms(3) by (metis le_neq_implies_less order_refl pending_ok_def phase.distinct(7))
  then have "p_pend f = []"
    using e(3) assms(3) unfolding pending_ok_def by auto
  moreover have "lane_ok ready Collected (p_wq f ! i) (p_ws f ! i) (p_cq f ! i)" if "i < nw" for i
    using assms(1) c [OF that] that unfolding pfarm_ok_def by metis
  ultimately show ?thesis using e(1,2) by (simp add: farm_empty_def)
qed

lemma pfarm_ok_init:
  assumes "ready w" and "pending_ok nw 0 sends"
  shows "pfarm_ok ready nw True (\<lambda>_. Open) (pfarm_init nw w sends)"
  using assms by (auto simp: pfarm_ok_def pfarm_init_def sending_ok_def worker_in_def)

lemma pfarm_ok_start: "ready w \<Longrightarrow> pfarm_ok ready nw False (\<lambda>_. Open) (pfarm_init nw w [])"
  by (simp add: pfarm_ok_def pfarm_init_def sending_ok_def worker_in_def)

lemma pfarm_ok_receive:
  assumes "pfarm_ok ready nw False ph f" and "ringbuffer_isLast b = l"
  shows "pfarm_ok ready nw l ph (f\<lparr>p_in := p_in f @ [b]\<rparr>)"
  using assms unfolding pfarm_ok_def sending_ok_def by auto

subsection \<open>The whole network\<close>

definition pof_inv :: "nat \<Rightarrow> pof \<Rightarrow> bool" where
  "pof_inv nw s \<longleftrightarrow> (\<exists>p1 p2 p3.
     pfarm_ok stage_open nw True p1 (fraFarm s) \<and> fraRcvd s = collected nw p1 mod nw \<and>
     pfarm_ok dstage_open nw (collected nw p1 = nw) p2 (dedFarm s) \<and> dedRcvd s = collected nw p2 mod nw \<and>
     pfarm_ok stage_open nw (collected nw p2 = nw) p3 (cmpFarm s) \<and>
     length (filter ringbuffer_isLast (pof_out s)) = collected nw p3 \<and>
     (collected nw p3 = nw \<longrightarrow> ringbuffer_isLast (last (pof_out s))))"

text \<open>A collector passes one mark on, the last one it gets.\<close>

lemma collect_one_mark:
  assumes "collected nw ph < nw" and "n = collected nw ph mod nw"
    and "collected nw ph' = collected nw ph + (if ringbuffer_isLast b then 1 else 0)"
    and "POFCollector_svc nw b n = (b', n')"
  shows "n' = collected nw ph' mod nw \<and> ringbuffer_isLast b' = (collected nw ph' = nw)"
  using assms by (auto simp: POFCollector_svc_def split: if_splits)

lemma do_act_no_wait: "no_wait a \<Longrightarrow> do_act X conf i a g \<noteq> Blocked"
  by (cases a) (auto simp: no_wait_def sub_Deduplicate_def read_chunk_def sub_Compress_def Let_def
      split: option.splits prod.splits sum.splits)

lemma pof_step_fra:
  assumes inv: "pof_inv nw s" and nw: "0 < nw" and ev: "pof_event X conf nw (EFra e) s = Some (Inr u)"
  shows "pof_inv nw u"
proof -
  obtain p1 p2 p3 where p: "pfarm_ok stage_open nw True p1 (fraFarm s)" "fraRcvd s = collected nw p1 mod nw"
    "pfarm_ok dstage_open nw (collected nw p1 = nw) p2 (dedFarm s)" "dedRcvd s = collected nw p2 mod nw"
    "pfarm_ok stage_open nw (collected nw p2 = nw) p3 (cmpFarm s)"
    "length (filter ringbuffer_isLast (pof_out s)) = collected nw p3"
    "collected nw p3 = nw \<longrightarrow> ringbuffer_isLast (last (pof_out s))"
    using inv unfolding pof_inv_def by blast
  obtain out f g where e: "pfarm_event (do_act X conf 1) nw (pof_FragmentRefine_svc X) e (fraFarm s) (pof_sh s) = Some (Inr (out, f, g))"
    using ev by (auto simp: pof_event_def split: option.splits sum.splits)
  obtain q where q: "pfarm_ok stage_open nw True q f"
    "case out of None \<Rightarrow> collected nw q = collected nw p1
      | Some b \<Rightarrow> collected nw p1 < nw \<and> collected nw q = collected nw p1 + (if ringbuffer_isLast b then 1 else 0)"
    using fra.pfarm_step [OF p(1) nw e] unfolding lane_next_def by blast
  show ?thesis
  proof (cases out)
    case None
    then show ?thesis using ev e p q unfolding pof_inv_def
      by (intro exI [of _ q] exI [of _ p2] exI [of _ p3]) (auto simp: pof_event_def)
  next
    case (Some b)
    obtain b' n where c: "POFCollector_svc nw b (fraRcvd s) = (b', n)" by fastforce
    have lt: "collected nw p1 < nw" and col: "collected nw q = collected nw p1 + (if ringbuffer_isLast b then 1 else 0)"
      using q(2) Some by simp_all
    have r: "n = collected nw q mod nw" "ringbuffer_isLast b' = (collected nw q = nw)"
      using collect_one_mark [OF lt p(2) col c] by simp_all
    have "pfarm_ok dstage_open nw False p2 (dedFarm s)" using p(3) lt by simp
    then have "pfarm_ok dstage_open nw (collected nw q = nw) p2 ((dedFarm s)\<lparr>p_in := p_in (dedFarm s) @ [b']\<rparr>)"
      by (rule pfarm_ok_receive) (rule r(2))
    then show ?thesis using ev e p q(1) r(1) c Some unfolding pof_inv_def
      by (intro exI [of _ q] exI [of _ p2] exI [of _ p3]) (auto simp: pof_event_def Let_def)
  qed
qed

lemma pof_step_ded:
  assumes inv: "pof_inv nw s" and nw: "0 < nw" and ev: "pof_event X conf nw (EDed e) s = Some (Inr u)"
  shows "pof_inv nw u"
proof -
  obtain p1 p2 p3 where p: "pfarm_ok stage_open nw True p1 (fraFarm s)" "fraRcvd s = collected nw p1 mod nw"
    "pfarm_ok dstage_open nw (collected nw p1 = nw) p2 (dedFarm s)" "dedRcvd s = collected nw p2 mod nw"
    "pfarm_ok stage_open nw (collected nw p2 = nw) p3 (cmpFarm s)"
    "length (filter ringbuffer_isLast (pof_out s)) = collected nw p3"
    "collected nw p3 = nw \<longrightarrow> ringbuffer_isLast (last (pof_out s))"
    using inv unfolding pof_inv_def by blast
  obtain out f g where e: "pfarm_event (do_act X conf 1) nw pof_Deduplicate_svc e (dedFarm s) (pof_sh s) = Some (Inr (out, f, g))"
    using ev by (auto simp: pof_event_def split: option.splits sum.splits)
  obtain q where q: "pfarm_ok dstage_open nw (collected nw p1 = nw) q f"
    "case out of None \<Rightarrow> collected nw q = collected nw p2
      | Some b \<Rightarrow> collected nw p2 < nw \<and> collected nw q = collected nw p2 + (if ringbuffer_isLast b then 1 else 0)"
    using ded.pfarm_step [OF p(3) nw e] unfolding lane_next_def by blast
  show ?thesis
  proof (cases out)
    case None
    then show ?thesis using ev e p q unfolding pof_inv_def
      by (intro exI [of _ p1] exI [of _ q] exI [of _ p3]) (auto simp: pof_event_def)
  next
    case (Some b)
    obtain b' n where c: "POFCollector_svc nw b (dedRcvd s) = (b', n)" by fastforce
    have lt: "collected nw p2 < nw" and col: "collected nw q = collected nw p2 + (if ringbuffer_isLast b then 1 else 0)"
      using q(2) Some by simp_all
    have r: "n = collected nw q mod nw" "ringbuffer_isLast b' = (collected nw q = nw)"
      using collect_one_mark [OF lt p(4) col c] by simp_all
    have "pfarm_ok stage_open nw False p3 (cmpFarm s)" using p(5) lt by simp
    then have "pfarm_ok stage_open nw (collected nw q = nw) p3 ((cmpFarm s)\<lparr>p_in := p_in (cmpFarm s) @ [b']\<rparr>)"
      by (rule pfarm_ok_receive) (rule r(2))
    then show ?thesis using ev e p q(1) r(1) c Some unfolding pof_inv_def
      by (intro exI [of _ p1] exI [of _ q] exI [of _ p3]) (auto simp: pof_event_def Let_def)
  qed
qed

lemma pof_step_cmp:
  assumes inv: "pof_inv nw s" and nw: "0 < nw" and ev: "pof_event X conf nw (ECmp e) s = Some (Inr u)"
  shows "pof_inv nw u"
proof -
  obtain p1 p2 p3 where p: "pfarm_ok stage_open nw True p1 (fraFarm s)" "fraRcvd s = collected nw p1 mod nw"
    "pfarm_ok dstage_open nw (collected nw p1 = nw) p2 (dedFarm s)" "dedRcvd s = collected nw p2 mod nw"
    "pfarm_ok stage_open nw (collected nw p2 = nw) p3 (cmpFarm s)"
    "length (filter ringbuffer_isLast (pof_out s)) = collected nw p3"
    "collected nw p3 = nw \<longrightarrow> ringbuffer_isLast (last (pof_out s))"
    using inv unfolding pof_inv_def by blast
  obtain out f g where e: "pfarm_event (do_act X conf 1) nw pof_Compress_svc e (cmpFarm s) (pof_sh s) = Some (Inr (out, f, g))"
    using ev by (auto simp: pof_event_def split: option.splits sum.splits)
  obtain q where q: "pfarm_ok stage_open nw (collected nw p2 = nw) q f"
    "case out of None \<Rightarrow> collected nw q = collected nw p3
      | Some b \<Rightarrow> collected nw p3 < nw \<and> collected nw q = collected nw p3 + (if ringbuffer_isLast b then 1 else 0)"
    using cmp.pfarm_step [OF p(5) nw e] unfolding lane_next_def by blast
  show ?thesis
    using ev e p q unfolding pof_inv_def
    by (intro exI [of _ p1] exI [of _ p2] exI [of _ q]) (auto simp: pof_event_def Let_def split: option.splits if_splits)
qed

lemma pof_step:
  assumes "pof_inv nw s" and "0 < nw" and "pof_event X conf nw e s = Some (Inr u)"
  shows "pof_inv nw u"
proof (cases e)
  case (EFra x)
  then show ?thesis using pof_step_fra [OF assms(1,2)] assms(3) by blast
next
  case (EDed x)
  then show ?thesis using pof_step_ded [OF assms(1,2)] assms(3) by blast
next
  case (ECmp x)
  then show ?thesis using pof_step_cmp [OF assms(1,2)] assms(3) by blast
next
  case (EWrite a)
  then obtain g where "u = s\<lparr>pof_sh := g\<rparr>"
    using assms(3) by (auto simp: pof_event_def split: if_splits outcome.splits)
  then show ?thesis using assms(1) by (simp add: pof_inv_def)
qed

lemma pof_run_inv: "pof_inv nw s \<Longrightarrow> 0 < nw \<Longrightarrow> pof_run X conf nw es s = Some (Inr u) \<Longrightarrow> pof_inv nw u"
proof (induction es arbitrary: s)
  case (Cons e es)
  then obtain v where "pof_event X conf nw e s = Some (Inr v)" "pof_run X conf nw es v = Some (Inr u)"
    by (auto split: option.splits sum.splits)
  then show ?case using Cons.IH [OF pof_step [OF Cons.prems(1,2)] Cons.prems(2)] by blast
qed simp

subsection \<open>What fragmentation sends\<close>

definition chain_plain :: "'a chain \<Rightarrow> bool" where
  "chain_plain ch \<longleftrightarrow> \<not> ringbuffer_isLast (fst ch) \<and> ends_marked False (snd ch)"

lemma emit_chain_plain: "chain_plain ch \<Longrightarrow> emit n x ch = Inr ch' \<Longrightarrow> chain_plain ch'"
  by (auto simp: chain_plain_def emit_def insert_last split: prod.splits if_splits)

lemma coarse_split_chain_plain:
  "coarse_split X tabs c ac ch = Inr (t, ac', ch') \<Longrightarrow> chain_plain ch \<Longrightarrow> chain_plain ch'"
proof (induction X tabs c ac ch rule: coarse_split.induct)
  case (1 X tabs c ac ch)
  let ?off = "rabinseg X (drop ANCHOR_JUMP (chunk_bytes c)) rf_win_dataprocess tabs"
  show ?case
  proof (cases "malloc_ok X sizeof_chunk_t \<and> ANCHOR_JUMP < mb_len (uncompressed_data c) \<and> ?off \<noteq> 0 \<and>
      to_size_t (?off + int ANCHOR_JUMP) < mb_len (uncompressed_data c)")
    case False
    then show ?thesis using 1(2,3) by (subst (asm) coarse_split.simps) (auto simp: Let_def split: if_splits)
  next
    case True
    obtain m1 m2 where m: "mbuf_split (uncompressed_data c) (to_size_t (?off + int ANCHOR_JUMP)) = Inr (m1, m2)"
      using 1(2) True by (subst (asm) coarse_split.simps) (auto simp: Let_def split: sum.splits)
    obtain ch1 where e: "emit ANCHOR_DATA_PER_INSERT (c\<lparr>uncompressed_data := m1\<rparr>) ch = Inr ch1"
      "coarse_split X tabs (malloc_chunk\<lparr>uncompressed_data := m2, state := CHUNK_STATE_UNCOMPRESSED, seqno := Seq ac 0\<rparr>)
        (ac + 1) ch1 = Inr (t, ac', ch')"
      using 1(2) True m by (subst (asm) coarse_split.simps) (auto simp: Let_def split: sum.splits)
    show ?thesis
      using 1(1) [OF _ refl _ _ _ m refl refl refl e(1) e(2)] True emit_chain_plain [OF 1(3) e(1)] by simp
  qed
qed

lemma fragment_loop_chain_plain:
  "fragment_loop X conf io tabs temp ac k pos ch = Inr ch' \<Longrightarrow> chain_plain ch \<Longrightarrow> chain_plain ch'"
proof (induction X conf io tabs temp ac k pos ch rule: fragment_loop.induct)
  case (1 X conf io tabs temp ac k pos ch)
  let ?n = "case temp of None \<Rightarrow> 0 | Some t \<Rightarrow> mb_len (uncompressed_data t)"
  let ?left = "if 0 < ?n then chunk_bytes (the temp) else []"
  let ?l1 = "if 0 < ?n then l1num (seqno (the temp)) else ac" and ?ac = "if 0 < ?n then ac else ac + 1"
  note run = 1(2) [unfolded fragment_loop.simps [of X conf io tabs temp ac k pos ch] Let_def]
  have ok: "\<not> SSIZE_MAX < MAXBUF + ?n" "\<not> \<not> malloc_ok X sizeof_chunk_t" "\<not> \<not> malloc_ok X (MAXBUF + ?n)"
    using run by (auto split: if_splits)
  obtain bs pos' k' where f: "fetch conf io k pos = Inr (bs, pos', k')"
    using run by (auto split: if_splits sum.splits)
  let ?chunk = "malloc_chunk\<lparr>state := CHUNK_STATE_UNCOMPRESSED, seqno := Seq ?l1 0, uncompressed_data := mbuf_of (?left @ bs)\<rparr>"
  note run = run [simplified f ok if_False sum.case prod.case]
  show ?case
  proof (cases "?n + length bs = 0")
    case True
    then show ?thesis using run 1(3) by simp
  next
    case more: False
    have mem: "\<not> (length bs < MAXBUF \<and> \<not> malloc_ok X (?n + length bs))"
      using run more by (auto split: if_splits)
    show ?thesis
    proof (cases "bs = []")
      case True
      then obtain sb where "ringbuffer_insert (fst ch) ?chunk = (0, sb)" "ch' = (sb, snd ch)"
        using run more mem by (auto split: if_splits prod.splits)
      then show ?thesis using 1(3) insert_last [of "fst ch" ?chunk 0 sb] by (simp add: chain_plain_def)
    next
      case False
      obtain t ac' ch1 where c: "coarse_split X tabs ?chunk ?ac ch = Inr (t, ac', ch1)"
        "fragment_loop X conf io tabs (Some t) ac' k' pos' ch1 = Inr ch'"
        using run more mem False by (simp split: sum.splits prod.splits del: append_is_Nil_conv)
      have "chain_plain ch1" by (rule coarse_split_chain_plain [OF c(1) 1(3)])
      then show ?thesis
        using 1(1) [OF refl ok(1,2,3) refl refl refl f refl refl more mem refl False c(1) refl refl c(2)] by simp
    qed
  qed
qed

lemma fragment_pending:
  assumes "pof_Fragment_svc X conf io True nw = Inr sends" and "0 < nw"
  shows "pending_ok nw 0 sends"
proof -
  obtain sb sent where r: "fragment_loop X conf io (rabininit X rf_win_dataprocess) None 0 0 0
      (ringbuffer_init ANCHOR_DATA_PER_INSERT, []) = Inr (sb, sent)"
    using assms(1) by (auto simp: pof_Fragment_svc_def Let_def split: sum.splits if_splits)
  have "chain_plain (sb, sent)" by (rule fragment_loop_chain_plain [OF r]) (simp add: chain_plain_def)
  moreover have "sends = map (Pair None) sent @ ((Some 0, ringbuffer_setLast sb) #
      map (\<lambda>i. (Some i, ringbuffer_setLast (ringbuffer_init ANCHOR_DATA_PER_INSERT))) [1..<nw])"
    using assms(1) r by (simp add: pof_Fragment_svc_def Let_def split: if_splits)
  ultimately show ?thesis
    using assms(2) unfolding pending_ok_def
    by (intro exI [of _ sent] exI [of _ "(Some 0, ringbuffer_setLast sb) #
      map (\<lambda>i. (Some i, ringbuffer_setLast (ringbuffer_init ANCHOR_DATA_PER_INSERT))) [1..<nw]"])
      (auto simp: chain_plain_def comp_def upt_conv_Cons)
qed

lemma pof_start_inv:
  assumes "runPipeOfFarms X conf io sh = Inr s" and "0 < nthreads conf"
  shows "pof_inv (nthreads conf) s"
proof -
  let ?nw = "nthreads conf"
  obtain sends where f: "pof_Fragment_svc X conf io True ?nw = Inr sends"
    using assms(1) by (auto simp: runPipeOfFarms_def split: sum.splits)
  have s: "s = \<lparr>fraFarm = pfarm_init ?nw (new_stage CHUNK_ANCHOR_PER_INSERT) sends,
          dedFarm = pfarm_init ?nw pof_Deduplicate [], cmpFarm = pfarm_init ?nw (new_stage ITEM_PER_INSERT) [],
          fraRcvd = 0, dedRcvd = 0, pof_sh = sh, pof_out = []\<rparr>"
    using assms(1) f by (simp add: runPipeOfFarms_def)
  have c: "collected ?nw (\<lambda>_. Open) = 0" by (simp add: collected_def)
  have w: "stage_open (new_stage n)" "dstage_open pof_Deduplicate" for n
    by (simp_all add: stage_open_def new_stage_def dstage_open_def pof_Deduplicate_def)
  have "pfarm_ok stage_open ?nw True (\<lambda>_. Open) (fraFarm s)"
    unfolding s by (simp add: pfarm_ok_init [where ready = stage_open, OF w(1) fragment_pending [OF f assms(2)]])
  moreover have "pfarm_ok dstage_open ?nw False (\<lambda>_. Open) (dedFarm s)"
    unfolding s by (simp add: pfarm_ok_start w(2))
  moreover have "pfarm_ok stage_open ?nw False (\<lambda>_. Open) (cmpFarm s)"
    unfolding s by (simp add: pfarm_ok_start w(1))
  moreover have "fraRcvd s = 0" "dedRcvd s = 0" "pof_out s = []" unfolding s by simp_all
  ultimately show ?thesis
    using assms(2) c unfolding pof_inv_def
    by (intro exI [of _ "\<lambda>_. Open"]) simp
qed

lemma pof_encode_run:
  "pof_EncodeFF_start X conf E = Inr s \<Longrightarrow> \<exists>io sh. runPipeOfFarms X conf io sh = Inr s"
  unfolding pof_EncodeFF_start_def by (auto split: option.splits sum.splits prod.splits if_splits)

lemma pof_stuck:
  assumes inv: "pof_inv nw s" and nw: "0 < nw"
    and stuck: "\<And>e. pof_event X conf nw (EFra e) s = None" "\<And>e. pof_event X conf nw (EDed e) s = None"
      "\<And>e. pof_event X conf nw (ECmp e) s = None"
  shows "length (filter ringbuffer_isLast (pof_out s)) = nw"
proof -
  obtain p1 p2 p3 where p: "pfarm_ok stage_open nw True p1 (fraFarm s)"
    "pfarm_ok dstage_open nw (collected nw p1 = nw) p2 (dedFarm s)"
    "pfarm_ok stage_open nw (collected nw p2 = nw) p3 (cmpFarm s)"
    "length (filter ringbuffer_isLast (pof_out s)) = collected nw p3"
    using inv unfolding pof_inv_def by blast
  have act: "no_wait a \<Longrightarrow> do_act X conf 1 a (pof_sh s) \<noteq> Blocked" for a by (rule do_act_no_wait)
  have "pfarm_event (do_act X conf 1) nw (pof_FragmentRefine_svc X) e (fraFarm s) (pof_sh s) = None" for e
    using stuck(1) [of e] by (auto simp: pof_event_def Let_def split: option.splits sum.splits prod.splits)
  then have 1: "collected nw p1 = nw"
    using fra.pfarm_stuck [OF p(1) nw, where ex = "do_act X conf 1" and g = "pof_sh s"] act by blast
  have "pfarm_event (do_act X conf 1) nw pof_Deduplicate_svc e (dedFarm s) (pof_sh s) = None" for e
    using stuck(2) [of e] by (auto simp: pof_event_def Let_def split: option.splits sum.splits prod.splits)
  then have 2: "collected nw p2 = nw"
    using p(2) 1 ded.pfarm_stuck [of nw p2 "dedFarm s" "do_act X conf 1" "pof_sh s"] nw act by simp
  have "pfarm_event (do_act X conf 1) nw pof_Compress_svc e (cmpFarm s) (pof_sh s) = None" for e
    using stuck(3) [of e] by (auto simp: pof_event_def Let_def split: option.splits sum.splits prod.splits)
  then have "collected nw p3 = nw"
    using p(3) 2 cmp.pfarm_stuck [of nw p3 "cmpFarm s" "do_act X conf 1" "pof_sh s"] nw act by simp
  then show ?thesis using p(4) by simp
qed

lemma pof_all_marks:
  assumes inv: "pof_inv nw s" and nw: "0 < nw" and all: "length (filter ringbuffer_isLast (pof_out s)) = nw"
  shows "ringbuffer_isLast (last (pof_out s)) \<and> farm_empty nw (fraFarm s) \<and> farm_empty nw (dedFarm s) \<and>
    farm_empty nw (cmpFarm s)"
proof -
  obtain p1 p2 p3 where p: "pfarm_ok stage_open nw True p1 (fraFarm s)"
    "pfarm_ok dstage_open nw (collected nw p1 = nw) p2 (dedFarm s)"
    "pfarm_ok stage_open nw (collected nw p2 = nw) p3 (cmpFarm s)"
    "length (filter ringbuffer_isLast (pof_out s)) = collected nw p3"
    "collected nw p3 = nw \<longrightarrow> ringbuffer_isLast (last (pof_out s))"
    using inv unfolding pof_inv_def by blast
  have 3: "collected nw p3 = nw" using p(4) all by simp
  have 2: "collected nw p2 = nw" and e3: "farm_empty nw (cmpFarm s)"
    using collected_empty [OF p(3) 3 nw] by simp_all
  have 1: "collected nw p1 = nw" and e2: "farm_empty nw (dedFarm s)"
    using collected_empty [OF p(2) 2 nw] by simp_all
  show ?thesis using p(5) 3 e3 e2 collected_empty [OF p(1) 1 nw] by simp
qed

subsection \<open>Sending while running, or returning everything at the end\<close>

text \<open>
  In the ordered farm the stages return the vector of their buffers, here they send each buffer as
  soon as it is full. \<open>mirrors\<close> relates the two: the same buffers in the same order, the same state
  and the same errors.
\<close>

definition send_all :: "'b ringbuffer list \<Rightarrow> ('b, 'a) node \<Rightarrow> ('b, 'a) node" where
  "send_all bs p = foldr (\<lambda>b p. Act (Send b) (\<lambda>_. p)) bs p"

lemma send_all_simps [simp]:
  "send_all [] p = p" "send_all (b # bs) p = Act (Send b) (\<lambda>_. send_all bs p)"
  "send_all (bs @ cs) p = send_all bs (send_all cs p)"
  by (simp_all add: send_all_def)

lemma bind_send_all: "bind (send_all bs p) f = send_all bs (bind p f)"
  by (induction bs) simp_all

definition mirrors :: "'b ringbuffer list \<Rightarrow> ('b, stats_t \<times> 'b ringbuffer) node \<Rightarrow> err + (stats_t \<times> 'b chain) \<Rightarrow> bool" where
  "mirrors out p r \<longleftrightarrow> (case r of Inl e \<Rightarrow> \<exists>bs. p = send_all bs (Fail e)
     | Inr (st, (sb, out')) \<Rightarrow> \<exists>bs. out' = out @ bs \<and> p = send_all bs (Ret (st, sb)))"

lemma mirrors_fail: "mirrors out (Fail e) (Inl e)"
  unfolding mirrors_def sum.case by (rule exI [of _ "[]"]) simp

lemma mirrors_sends:
  assumes "mirrors (out @ cs) p r"
  shows "mirrors out (send_all cs p) r"
proof (cases r)
  case (Inl e)
  then obtain bs where "p = send_all bs (Fail e)" using assms by (auto simp: mirrors_def)
  then have "send_all cs p = send_all (cs @ bs) (Fail e)" by simp
  then show ?thesis using Inl unfolding mirrors_def by (auto simp del: send_all_simps)
next
  case (Inr v)
  obtain st sb out' where v: "v = (st, (sb, out'))" by (metis prod.exhaust)
  then obtain bs where "out' = (out @ cs) @ bs" "p = send_all bs (Ret (st, sb))"
    using assms Inr by (auto simp: mirrors_def)
  then have "out' = out @ (cs @ bs) \<and> send_all cs p = send_all (cs @ bs) (Ret (st, sb))" by simp
  then show ?thesis using Inr v unfolding mirrors_def by (auto simp del: send_all_simps)
qed

text \<open>One insertion.\<close>

lemma emit_mirror:
  "(\<exists>e. emit n x (sb, out) = Inl e \<and> ff_emit n keep_mark x sb = Fail e) \<or>
   (\<exists>sb' cs. emit n x (sb, out) = Inr (sb', out @ cs) \<and> ff_emit n keep_mark x sb = send_all cs (Ret sb'))"
proof -
  obtain r sb1 where i: "ringbuffer_insert sb x = (r, sb1)" by fastforce
  consider "r \<noteq> 0" | "r = 0" "ringbuffer_isFull sb1" | "r = 0" "\<not> ringbuffer_isFull sb1" by blast
  then show ?thesis
  proof cases
    case 2
    then show ?thesis using i
      by (intro disjI2 exI [of _ "ringbuffer_init n"] exI [of _ "[sb1]"]) (simp add: emit_def ff_emit_def keep_mark_def)
  qed (use i in \<open>auto simp: emit_def ff_emit_def\<close>)
qed

lemma emit_mirrors:
  assumes "\<And>sb' cs. emit n x (sb, out) = Inr (sb', out @ cs) \<Longrightarrow> mirrors (out @ cs) (f sb') (g (sb', out @ cs))"
  shows "mirrors out (bind (ff_emit n keep_mark x sb) f) (case emit n x (sb, out) of Inl e \<Rightarrow> Inl e | Inr ch \<Rightarrow> g ch)"
  using emit_mirror [of n x sb out]
proof
  assume "\<exists>e. emit n x (sb, out) = Inl e \<and> ff_emit n keep_mark x sb = Fail e"
  then show ?thesis using mirrors_fail by auto
next
  assume "\<exists>sb' cs. emit n x (sb, out) = Inr (sb', out @ cs) \<and> ff_emit n keep_mark x sb = send_all cs (Ret sb')"
  then obtain sb' cs where e: "emit n x (sb, out) = Inr (sb', out @ cs)" "ff_emit n keep_mark x sb = send_all cs (Ret sb')"
    by blast
  then show ?thesis using mirrors_sends [OF assms [OF e(1)]] by (simp add: bind_send_all)
qed

lemma refine_chunk_mirrors:
  "mirrors out (pof_refine_chunk X tabs k c (st, sb)) (refine_chunk X tabs k c (st, (sb, out)))"
proof (induction "mb_len (uncompressed_data c)" arbitrary: k c st sb out rule: less_induct)
  case less
  let ?off = "to_size_t (rabinseg X (chunk_bytes c) rf_win tabs)"
  show ?case
  proof (cases "?off < mb_len (uncompressed_data c)")
    case False
    have "mirrors (out @ cs) (Ret (st', sb')) (Inr (st', (sb', out @ cs)))" for st' sb' cs
      by (simp add: mirrors_def)
    then show ?thesis
      using False by (subst pof_refine_chunk.simps, subst refine_chunk.simps) (auto simp: Let_def intro: emit_mirrors)
  next
    case True
    have exit: "mirrors out (Fail e) (Inl e)" for e by (auto simp: mirrors_def intro: exI [of _ "[]"])
    show ?thesis
    proof (cases "mbuf_split (uncompressed_data c) ?off")
      case (Inl e)
      then show ?thesis using True exit
        by (subst pof_refine_chunk.simps, subst refine_chunk.simps) (simp add: Let_def)
    next
      case (Inr m)
      obtain m1 m2 where m: "m = (m1, m2)" by (cases m)
      then have "mb_len m2 < mb_len (uncompressed_data c)" using Inr by (auto simp: mbuf_split_def split: if_splits)
      then show ?thesis using True Inr m
        by (subst pof_refine_chunk.simps, subst refine_chunk.simps)
          (auto simp: Let_def intro!: emit_mirrors less.hyps exit)
    qed
  qed
qed

lemma buffer_loop_mirrors:
  assumes "\<And>x st sb out. mirrors out (body x (st, sb)) (body' x (st, (sb, out)))"
  shows "mirrors out (buffer_loop k body buf (st, sb)) (buffer_fold k body' buf (st, (sb, out)))"
proof (induction k arbitrary: buf st sb out)
  case 0
  show ?case by (subst buffer_loop.simps, subst buffer_fold.simps) (auto simp: mirrors_def intro: exI [of _ "[]"])
next
  case (Suc k)
  have step: "mirrors out (bind (body x (st, sb)) (buffer_loop k body b))
      (case body' x (st, (sb, out)) of Inl e \<Rightarrow> Inl e | Inr s \<Rightarrow> buffer_fold k body' b s)" for x b
  proof (cases "body' x (st, (sb, out))")
    case (Inl e)
    then obtain bs where "body x (st, sb) = send_all bs (Fail e)"
      using assms [of out x st sb] by (auto simp: mirrors_def)
    then show ?thesis using Inl by (auto simp: mirrors_def bind_send_all)
  next
    case (Inr v)
    obtain st' sb' out' where v: "v = (st', (sb', out'))" by (metis prod.exhaust)
    then obtain bs where b: "out' = out @ bs" "body x (st, sb) = send_all bs (Ret (st', sb'))"
      using assms [of out x st sb] Inr by (auto simp: mirrors_def)
    then show ?thesis using Inr v mirrors_sends [OF Suc.IH [of "out @ bs" b st' sb']] by (simp add: bind_send_all)
  qed
  have stop: "mirrors out (Ret (st, sb)) (Inr (st, (sb, out)))" "mirrors out (Fail e) (Inl e)" for e
    by (auto simp: mirrors_def intro: exI [of _ "[]"])
  show ?case using step stop
    by (subst buffer_loop.simps, subst buffer_fold.simps) (auto split: prod.split option.split)
qed

text \<open>
  C16. The refinement stage of the pipe of farms sends exactly the buffers, in the same order, that
  the one of the ordered farm returns for the same received buffer, ends in the same state, and
  fails with the same error after having sent some buffers when that one fails.
\<close>

theorem pof_refine_equivalent:
  "case refine_compute X recv_buf g of
     Inl e \<Rightarrow> \<exists>bs. pof_FragmentRefine_svc X recv_buf g = send_all bs (Fail e)
   | Inr (out, g') \<Rightarrow> pof_FragmentRefine_svc X recv_buf g = send_all out (Ret g')"
proof -
  let ?loop = "buffer_loop (rb_size recv_buf) (pof_refine_chunk X (rabininit X rf_win) 0) recv_buf (thread_stats g, send_buf g)"
  let ?fold = "buffer_fold (rb_size recv_buf) (\<lambda>chunk s. refine_chunk X (rabininit X rf_win) 0 chunk s) recv_buf
    (thread_stats g, (send_buf g, []))"
  have m: "mirrors [] ?loop ?fold" by (rule buffer_loop_mirrors) (rule refine_chunk_mirrors)
  show ?thesis
  proof (cases ?fold)
    case (Inl e)
    then show ?thesis using m
      by (auto simp: mirrors_def refine_compute_def pof_FragmentRefine_svc_def bind_send_all Let_def)
  next
    case (Inr v)
    obtain st sb out where v: "v = (st, (sb, out))" by (metis prod.exhaust)
    then have "?loop = send_all out (Ret (st, sb))" using m Inr by (auto simp: mirrors_def)
    then show ?thesis using Inr v
      by (simp add: refine_compute_def pof_FragmentRefine_svc_def bind_send_all Let_def)
  qed
qed

text \<open>
  C14. Whatever the scheduler does, the reorder stage receives at most one end mark per worker; when
  it has received them all, the last buffer it received carries one and nothing is left anywhere
  in the three farms; and when no thread of the farms can take a step, it has received them all.
\<close>

theorem pof_end_marks:
  assumes "0 < nthreads conf" and "pof_EncodeFF_start X conf E = Inr s0"
    and "pof_run X conf (nthreads conf) es s0 = Some (Inr s)"
  shows "(let n = length (filter ringbuffer_isLast (pof_out s)); nw = nthreads conf in
    n \<le> nw \<and>
    (n = nw \<longrightarrow> ringbuffer_isLast (last (pof_out s)) \<and>
       farm_empty nw (fraFarm s) \<and> farm_empty nw (dedFarm s) \<and> farm_empty nw (cmpFarm s)) \<and>
    ((\<forall>e. pof_event X conf nw (EFra e) s = None \<and> pof_event X conf nw (EDed e) s = None \<and>
        pof_event X conf nw (ECmp e) s = None) \<longrightarrow> n = nw))"
proof -
  obtain io sh where "runPipeOfFarms X conf io sh = Inr s0" using pof_encode_run [OF assms(2)] by blast
  then have inv: "pof_inv (nthreads conf) s"
    using pof_run_inv [OF pof_start_inv [OF _ assms(1)] assms(1,3)] by blast
  then have "length (filter ringbuffer_isLast (pof_out s)) \<le> nthreads conf"
    using collected_le unfolding pof_inv_def by metis
  then show ?thesis
    using pof_all_marks [OF inv assms(1)] pof_stuck [OF inv assms(1), of X conf] by (simp add: Let_def)
qed

text \<open>A run on an empty file with one worker: the end mark travels through the three farms.\<close>

definition pof_conf :: config_t where
  "pof_conf = demo_conf\<lparr>nthreads := 1\<rparr>"

definition pof_env :: encode_env where
  "pof_env = demo_env\<lparr>e_stat := Some 0, e_in := \<lparr>in_file = [], in_read = (\<lambda>_. 1)\<rparr>\<rparr>"

definition pof_schedule :: "pevent list" where
  "pof_schedule =
     map EFra [ESend 0, WTake 0, WStep 0, WEnd 0, CTake 0] @
     map EDed [ETake, ESend 0, WTake 0, WStep 0, WStep 0, WEnd 0, CTake 0, CTake 0] @
     map ECmp [ETake, ESend 0, ETake, ESend 0, WTake 0, WStep 0, WEnd 0, WTake 0, WStep 0, WEnd 0, CTake 0, CTake 0]"

lemma empty_loop: "ringbuffer_isEmpty b \<Longrightarrow> buffer_loop k body b s = Ret s"
  by (subst buffer_loop.simps) simp

lemma empty_init [simp]:
  "ringbuffer_isEmpty (ringbuffer_init n)" "ringbuffer_isEmpty (ringbuffer_setLast b) = ringbuffer_isEmpty b"
  "\<not> ringbuffer_isBypassCompress (ringbuffer_init n)" "\<not> ringbuffer_isBypassCompress (ringbuffer_setLast (ringbuffer_init n))"
  "ringbuffer_isBypassCompress (ringbuffer_setBypassCompress b)"
  "ringbuffer_isEmpty (ringbuffer_setBypassCompress b) = ringbuffer_isEmpty b"
  by (simp_all add: ringbuffer_isEmpty_def ringbuffer_init_def ringbuffer_setLast_def ringbuffer_isBypassCompress_def
      ringbuffer_setBypassCompress_def)

lemma fragment_loop_empty:
  "(\<And>n. malloc_ok X n) \<Longrightarrow> preloading conf \<Longrightarrow>
    fragment_loop X conf \<lparr>in_file = [], in_read = f\<rparr> tabs None ac 0 0 ch = Inr ch"
  by (subst fragment_loop.simps) (simp add: fetch_def MAXBUF_def SSIZE_MAX_def)

lemma pof_fragment_empty:
  "(\<And>n. malloc_ok X n) \<Longrightarrow> preloading conf \<Longrightarrow>
    pof_Fragment_svc X conf \<lparr>in_file = [], in_read = f\<rparr> True (Suc 0) = Inr [(Some 0, ringbuffer_setLast (ringbuffer_init (Suc 0)))]"
  by (simp add: pof_Fragment_svc_def fragment_loop_empty insert_size_defs)

definition pof_demo_start :: "shared \<Rightarrow> pof" where
  "pof_demo_start sh = \<lparr>fraFarm = pfarm_init 1 (new_stage 1) [(Some 0, ringbuffer_setLast (ringbuffer_init 1))],
     dedFarm = pfarm_init 1 pof_Deduplicate [], cmpFarm = pfarm_init 1 (new_stage 1) [],
     fraRcvd = 0, dedRcvd = 0, pof_sh = sh, pof_out = []\<rparr>"

lemma pof_demo_encode: "\<exists>sh. pof_EncodeFF_start demo_ext pof_conf pof_env = Inr (pof_demo_start sh)"
proof -
  obtain h :: "(u32 list, nat) hashtable" where
    h: "hashtable_create True 65536 hash_from_key_fn keys_equal_fn False = Some h"
    by (rule encode_table, blast)
  have n: "nthreads pof_conf = Suc 0" by (simp add: pof_conf_def)
  have env: "e_table pof_env" "e_lock_array pof_env" "e_locks pof_env = (\<lambda>_. True)" "e_stat pof_env = Some 0" "e_isreg pof_env" "e_open pof_env"
    "e_open_out pof_env" "e_in pof_env = \<lparr>in_file = [], in_read = (\<lambda>_. 1)\<rparr>" "preloading pof_conf"
    by (simp_all add: pof_env_def demo_env_def pof_conf_def demo_conf_def)
  have mem: "malloc_ok demo_ext m" for m by (simp add: demo_ext_def)
  have pre: "preload_loop \<lparr>in_file = [], in_read = (\<lambda>_. 1)\<rparr> 0 0 [] = Inr []" by (subst preload_loop.simps) simp
  have out: "\<exists>f. create_output_file demo_ext True (compress_type pof_conf) = Inr f"
    by (simp add: create_output_file_def demo_ext_def)
  then obtain f where f: "create_output_file demo_ext True (compress_type pof_conf) = Inr f" by blast
  show ?thesis
    by (rule exI [of _ "\<lparr>chunks = (\<lambda>_. None), next_chunk = 0, cache = h, outf = f, orig = (\<lambda>_. []),
                        owner = (\<lambda>_. 0), written = []\<rparr>"])
      (simp add: pof_EncodeFF_start_def workers_alloc_def env h locks_init_ok mem pre f runPipeOfFarms_def n pof_fragment_empty
        pof_demo_start_def insert_size_defs)
qed

lemma pof_demo_run:
  "\<exists>s. pof_run X conf 1 pof_schedule (pof_demo_start sh) = Some (Inr s) \<and>
    length (filter ringbuffer_isLast (pof_out s)) = 1"
  by (simp add: pof_schedule_def pof_demo_start_def pfarm_init_def pof_event_def pof_FragmentRefine_svc_def
      pof_Deduplicate_svc_def pof_Compress_svc_def empty_loop new_stage_def pof_Deduplicate_def POFCollector_svc_def
      POFEmitter_svc_def Let_def insert_size_defs)

theorem pof_end_marks_witness:
  "\<exists>s0 s. pof_EncodeFF_start demo_ext pof_conf pof_env = Inr s0 \<and>
    pof_run demo_ext pof_conf 1 pof_schedule s0 = Some (Inr s) \<and> ringbuffer_isLast (last (pof_out s)) \<and>
    farm_empty 1 (fraFarm s) \<and> farm_empty 1 (dedFarm s) \<and> farm_empty 1 (cmpFarm s)"
proof -
  obtain sh where s0: "pof_EncodeFF_start demo_ext pof_conf pof_env = Inr (pof_demo_start sh)"
    using pof_demo_encode by blast
  obtain s where s: "pof_run demo_ext pof_conf 1 pof_schedule (pof_demo_start sh) = Some (Inr s)"
    "length (filter ringbuffer_isLast (pof_out s)) = 1"
    using pof_demo_run by blast
  have n: "nthreads pof_conf = 1" by (simp add: pof_conf_def)
  show ?thesis
    using pof_end_marks [OF _ s0, of pof_schedule s] s s0 unfolding n by (auto simp: Let_def)
qed

end
