(* ===== verification/FFParFor.thy ===== *)
theory FFParFor
  imports Prelude "HOL-Library.Multiset"
begin

text \<open>
  The scheduler of the FastFlow parallel loops (\<open>parallel_for_internals.hpp\<close>): the task table,
  how a range of indexes is divided among the workers, how the first tasks are sent, and the workers
  that take the remaining tasks from the table, each its own first and then those of the others, with
  atomic loads, compare-and-swap and fetch-and-subtract. The invariant of the concurrent part
  accounts for every index: it has been run, is held by a worker, or lies in a range of the table.
\<close>

subsection \<open>Iterations\<close>

text \<open>
  The loop \<open>for(idx=start; idx<stop; idx+=step)\<close> that every worker runs on its task. The divisions
  with \<open>ceil\<close> in double precision are exact for ranges below $2^{53}$; they are integer divisions
  rounded up here. Indexes of type \<open>long\<close> are integers: their overflow is undefined behaviour.
\<close>

definition ceil_div :: "int \<Rightarrow> int \<Rightarrow> int" where
  "ceil_div a b = - ((- a) div b)"

definition loop_count :: "int \<Rightarrow> int \<Rightarrow> int \<Rightarrow> nat" where
  "loop_count step start stop = nat (ceil_div (stop - start) step)"

definition loop_indexes :: "int \<Rightarrow> int \<Rightarrow> int \<Rightarrow> int list" where
  "loop_indexes step start stop = map (\<lambda>k. start + int k * step) [0..<loop_count step start stop]"

subsection \<open>The scheduler\<close>

text \<open>A range of indexes with the number of tasks in it.\<close>

record task_data =
  ntask :: int
  task_start :: int
  task_end :: int

record scheduler =
  tasks_of :: "task_data list"
  max_id :: int
  sd_start :: int
  sd_stop :: int
  sd_step :: int
  sd_chunk :: int
  sd_nw :: nat
  totaltasks :: int
  static_scheduling :: bool
  jump :: nat
  skip1 :: bool
  taskv_size :: nat

definition resize_data :: "nat \<Rightarrow> task_data list \<Rightarrow> task_data list" where
  "resize_data n d = take n d @ replicate (n - length d) \<lparr>ntask = 0, task_start = 0, task_end = 0\<rparr>"

text \<open>
  The farm calls \<open>setloop\<close> with at least one worker, so that no division is by zero. Negative numbers
  of iterations are converted to unsigned ones where the code does so.
\<close>

text \<open>The loop of \<open>init_data\<close> from worker \<open>i\<close> on, \<open>k\<close> workers to go, \<open>tot\<close> tasks left.\<close>

fun split_tasks :: "int \<Rightarrow> int \<Rightarrow> int \<Rightarrow> int \<Rightarrow> int \<Rightarrow> nat \<Rightarrow> nat \<Rightarrow> int \<Rightarrow> int \<Rightarrow> task_data list \<Rightarrow> int \<times> task_data list" where
  "split_tasks step chunk stop ntxw r 0 i tot start d = (tot, d)"
| "split_tasks step chunk stop ntxw r (Suc k) i tot start d =
     (if 0 < tot then
        (let t = ntxw + (if 1 < r \<and> int i < r then 1 else 0);
             e = start + (t * chunk - 1) * step + 1;
             e = (if e < stop then e else stop) in
         split_tasks step chunk stop ntxw r k (i + 1) (tot - t) ((e - 1) + step)
           (d[i := \<lparr>ntask = t, task_start = start, task_end = e\<rparr>]))
      else (tot, d))"

definition init_data :: "int \<Rightarrow> int \<Rightarrow> scheduler \<Rightarrow> err + scheduler" where
  "init_data start stop s =
     (let step = sd_step s; chunk = sd_chunk s; nw = sd_nw s;
          s = s\<lparr>static_scheduling := False, taskv_size := 8 * nw, skip1 := False, jump := 0, max_id := - 1\<rparr>;
          numtasks = ceil_div (stop - start) step;
          total = ceil_div numtasks chunk;
          ntxw = total div int nw; r = total mod int nw;
          (ntxw, r) = (if ntxw = 0 \<and> 1 \<le> r then (1, 0) else (ntxw, r)) in
      (case split_tasks step chunk stop ntxw r nw 0 total start (resize_data nw (tasks_of s)) of
         (left, d) \<Rightarrow>
           if left = 0 then
             Inr (s\<lparr>tasks_of := d, totaltasks := total\<rparr>)
           else if left \<noteq> 1 then Inl AssertFailed
           else
             let w = d ! (nw - 1) in
             if 1 < ntxw then
               Inr (s\<lparr>tasks_of := d[nw - 1 := w\<lparr>ntask := ntask w + left, task_end := stop\<rparr>], totaltasks := total\<rparr>)
             else
               Inr (s\<lparr>tasks_of := d[nw - 1 := w\<lparr>task_end := stop\<rparr>], totaltasks := total - 1, sd_chunk := chunk * 2\<rparr>)))"

text \<open>The loop of the default static scheduling: one block for each worker.\<close>

fun split_static :: "int \<Rightarrow> int \<Rightarrow> int \<Rightarrow> int \<Rightarrow> nat \<Rightarrow> nat \<Rightarrow> int \<Rightarrow> task_data list \<Rightarrow> task_data list" where
  "split_static step chunk stop r 0 i start d = d"
| "split_static step chunk stop r (Suc k) i start d =
     (let e = start + (chunk - 1) * step + 1 + (if int i < r then step else 0);
          e = (if e < stop then e else stop) in
      split_static step chunk stop r k (i + 1) ((e - 1) + step) (d[i := \<lparr>ntask = 1, task_start = start, task_end = e\<rparr>]))"

definition init_data_static :: "int \<Rightarrow> int \<Rightarrow> scheduler \<Rightarrow> err + scheduler" where
  "init_data_static start stop s =
     (let step = sd_step s; nw = sd_nw s; numtasks = ceil_div (stop - start) step in
      if 0 < sd_chunk s then Inl AssertFailed
      else if sd_chunk s = 0 then
        (let r = (if numtasks < 0 then (2 ^ 64 + numtasks) mod int nw else numtasks mod int nw);
             chunk = (if numtasks < 0 then - ((- numtasks) div int nw) else numtasks div int nw) in
         Inr (s\<lparr>tasks_of := split_static step chunk stop r nw 0 start (resize_data nw (tasks_of s)),
           static_scheduling := True, taskv_size := nw, skip1 := False, jump := 0, max_id := - 1,
           totaltasks := int nw, sd_chunk := (if r \<noteq> 0 then chunk + 1 else chunk)\<rparr>))
      else
        (let chunk = - sd_chunk s;
             total = ceil_div numtasks chunk;
             ntxw = (if total < 0 then int nw else min (int nw) total) in
         if int (length (tasks_of s)) < ntxw then Inl BadAccess
         else Inr (s\<lparr>tasks_of := map (\<lambda>i. if int i < ntxw then \<lparr>ntask = 1, task_start = start + int i * chunk, task_end = stop\<rparr>
               else tasks_of s ! i) [0..<length (tasks_of s)],
           static_scheduling := True, totaltasks := ntxw, sd_chunk := stop\<rparr>)))"

definition sched_setloop :: "int \<Rightarrow> int \<Rightarrow> int \<Rightarrow> int \<Rightarrow> nat \<Rightarrow> scheduler \<Rightarrow> err + scheduler" where
  "sched_setloop start stop step chunk nw s =
     (let s = s\<lparr>sd_start := start, sd_stop := stop, sd_step := step, sd_chunk := chunk, sd_nw := nw\<rparr> in
      (case (if chunk \<le> 0 then init_data_static start stop s else init_data start stop s) of
         Inl e \<Rightarrow> Inl e
       | Inr s \<Rightarrow>
           if totaltasks s < 1 then Inl AssertFailed
           else Inr (if totaltasks s \<le> int (sd_nw s) \<or> totaltasks s = 1 then s\<lparr>sd_nw := nat (totaltasks s)\<rparr> else s)))"

text \<open>
  Handing the first task to every worker, and a second one when there are many. The result lists
  the tasks sent, with their receivers. What the scheduler thread alone uses (\<open>eossent\<close>, the number
  of remaining tasks) is left out.
\<close>

fun send_round :: "int \<Rightarrow> nat \<Rightarrow> nat \<Rightarrow> scheduler \<Rightarrow> (nat \<times> int \<times> int) list \<Rightarrow>
    err + (nat \<times> int \<times> int) list \<times> scheduler" where
  "send_round endchunk 0 wid s sends = Inr (sends, s)"
| "send_round endchunk (Suc k) wid s sends =
     (if length (tasks_of s) \<le> wid then Inl BadAccess
      else let d = tasks_of s ! wid in
        if 0 < ntask d then
          (if taskv_size s \<le> wid + jump s then Inl BadAccess
           else let start = task_start d; e = min (start + endchunk) (task_end d) in
             send_round endchunk k (wid + 1)
               (s\<lparr>tasks_of := (tasks_of s)[wid := d\<lparr>ntask := ntask d - 1, task_start := (e - 1) + sd_step s\<rparr>]\<rparr>)
               (sends @ [(wid, start, e)]))
        else send_round endchunk k (wid + 1) (s\<lparr>skip1 := True\<rparr>) sends)"

definition sendTask :: "bool \<Rightarrow> scheduler \<Rightarrow> err + (nat \<times> int \<times> int) list \<times> scheduler" where
  "sendTask skipmore s =
     (let endchunk = (sd_chunk s - 1) * sd_step s + 1; nw = sd_nw s in
      (case send_round endchunk nw 0 s [] of Inl e \<Rightarrow> Inl e
       | Inr (sends, s) \<Rightarrow>
         let s = s\<lparr>jump := jump s + nw\<rparr> in
         if \<not> jump s div nw \<le> 8 then Inl AssertFailed
         else if \<not> skipmore \<and> \<not> skip1 s \<and> 4 * int nw \<le> totaltasks s then
           (case send_round endchunk nw 0 (s\<lparr>skip1 := True\<rparr>) sends of Inl e \<Rightarrow> Inl e
            | Inr (sends, s) \<Rightarrow>
                let s = s\<lparr>jump := jump s + nw\<rparr> in
                if \<not> jump s div nw \<le> 8 then Inl AssertFailed else Inr (sends, s))
         else Inr (sends, s)))"

subsection \<open>The workers\<close>

text \<open>
  A worker executes a task and then asks for the next one with \<open>nextTaskConcurrent\<close>. Its control
  state is the atomic access that comes next: \<open>Check\<close> and \<open>Read\<close> load a number of tasks, \<open>Load\<close> a
  start, \<open>Cas\<close> is \<open>compare_exchange_weak\<close>, which may fail although the value is the expected one,
  \<open>Dec\<close> is \<open>fetch_sub\<close>. \<open>Steal\<close> looks for the worker with most tasks; as the numbers change while
  it looks, it may find any. \<open>executed\<close> lists the indexes of the loop bodies run so far.
\<close>

datatype wstep = Exec int int | Check nat | Load nat | Cas nat int | Dec nat int int | Steal | Read nat | Finished

record parfor =
  pf_sched :: scheduler
  pf_pc :: "nat \<Rightarrow> wstep"
  executed :: "int list"

abbreviation goto_pc :: "nat \<Rightarrow> wstep \<Rightarrow> parfor \<Rightarrow> parfor" where
  "goto_pc w c s \<equiv> s\<lparr>pf_pc := (pf_pc s)(w := c)\<rparr>"

abbreviation task_of :: "parfor \<Rightarrow> nat \<Rightarrow> task_data" where
  "task_of s i \<equiv> tasks_of (pf_sched s) ! i"

definition set_task :: "nat \<Rightarrow> task_data \<Rightarrow> parfor \<Rightarrow> parfor" where
  "set_task i d s = s\<lparr>pf_sched := (pf_sched s)\<lparr>tasks_of := (tasks_of (pf_sched s))[i := d]\<rparr>\<rparr>"

definition task_limit :: "parfor \<Rightarrow> nat \<Rightarrow> int \<Rightarrow> int" where
  "task_limit s i a = min (a + ((sd_chunk (pf_sched s) - 1) * sd_step (pf_sched s) + 1)) (task_end (task_of s i))"

definition no_own_task :: "parfor \<Rightarrow> wstep" where
  "no_own_task s = (if static_scheduling (pf_sched s) then Finished else Steal)"

inductive parfor_step :: "parfor \<Rightarrow> parfor \<Rightarrow> bool" where
  s_exec: "w < sd_nw (pf_sched s) \<Longrightarrow> pf_pc s w = Exec a b \<Longrightarrow>
    parfor_step s (goto_pc w (Check w) (s\<lparr>executed := executed s @ loop_indexes (sd_step (pf_sched s)) a b\<rparr>))"
| s_some: "w < sd_nw (pf_sched s) \<Longrightarrow> pf_pc s w = Check i \<Longrightarrow> 0 < ntask (task_of s i) \<Longrightarrow> parfor_step s (goto_pc w (Load i) s)"
| s_none: "w < sd_nw (pf_sched s) \<Longrightarrow> pf_pc s w = Check i \<Longrightarrow> ntask (task_of s i) \<le> 0 \<Longrightarrow> parfor_step s (goto_pc w (no_own_task s) s)"
| s_load: "w < sd_nw (pf_sched s) \<Longrightarrow> pf_pc s w = Load i \<Longrightarrow> parfor_step s (goto_pc w (Cas i (task_start (task_of s i))) s)"
| s_cas: "w < sd_nw (pf_sched s) \<Longrightarrow> pf_pc s w = Cas i a \<Longrightarrow> task_start (task_of s i) = a \<Longrightarrow> e = task_limit s i a \<Longrightarrow>
    parfor_step s (goto_pc w (Dec i a e)
      (set_task i ((task_of s i)\<lparr>task_start := (e - 1) + sd_step (pf_sched s)\<rparr>) s))"
| s_cas_fail: "w < sd_nw (pf_sched s) \<Longrightarrow> pf_pc s w = Cas i a \<Longrightarrow> parfor_step s (goto_pc w (Check i) s)"
| s_dec: "w < sd_nw (pf_sched s) \<Longrightarrow> pf_pc s w = Dec i a e \<Longrightarrow>
    parfor_step s (goto_pc w (if a < e then Exec a e else no_own_task s)
      (set_task i ((task_of s i)\<lparr>ntask := ntask (task_of s i) - 1\<rparr>) s))"
| s_steal: "w < sd_nw (pf_sched s) \<Longrightarrow> pf_pc s w = Steal \<Longrightarrow> m < length (tasks_of (pf_sched s)) \<Longrightarrow>
    (0 \<le> max_id (pf_sched s) \<Longrightarrow> int m = max_id (pf_sched s)) \<Longrightarrow> parfor_step s (goto_pc w (Read m) s)"
| s_read: "w < sd_nw (pf_sched s) \<Longrightarrow> pf_pc s w = Read m \<Longrightarrow> 0 < ntask (task_of s m) \<Longrightarrow>
    parfor_step s (goto_pc w (Check m) (s\<lparr>pf_sched := (pf_sched s)\<lparr>max_id := int m\<rparr>\<rparr>))"
| s_read_none: "w < sd_nw (pf_sched s) \<Longrightarrow> pf_pc s w = Read m \<Longrightarrow> ntask (task_of s m) \<le> 0 \<Longrightarrow> parfor_step s (goto_pc w Finished s)"

text \<open>The start of a loop without the scheduler thread: every worker has the task sent to it.\<close>

definition parfor_start :: "(nat \<times> int \<times> int) list \<Rightarrow> scheduler \<Rightarrow> parfor" where
  "parfor_start sends s = \<lparr>pf_sched = s,
     pf_pc = (\<lambda>w. case map_of sends w of None \<Rightarrow> Finished | Some (a, b) \<Rightarrow> Exec a b), executed = []\<rparr>"

subsection \<open>Ranges\<close>

lemma ceil_div_pos: "0 < c \<Longrightarrow> 0 < ceil_div a c \<longleftrightarrow> 0 < a"
  by (simp add: ceil_div_def div_neg_pos_less0) (smt (verit) div_int_pos_iff div_neg_pos_less0 pos_imp_zdiv_nonneg_iff)

lemma ceil_div_step: "0 < c \<Longrightarrow> ceil_div (a - c) c = ceil_div a c - 1"
proof -
  assume "0 < c"
  then have "(- a + 1 * c) div c = 1 + (- a) div c" by (intro div_mult_self1) simp
  moreover have "- (a - c) = - a + c" by simp
  ultimately show ?thesis by (simp only: ceil_div_def mult_1_left)
qed

lemma loop_count_done: "0 < step \<Longrightarrow> b \<le> a \<Longrightarrow> loop_count step a b = 0"
  using ceil_div_pos [of step "b - a"] by (simp add: loop_count_def)

lemma loop_count_more: "0 < step \<Longrightarrow> a < b \<Longrightarrow> loop_count step a b = Suc (loop_count step (a + step) b)"
proof -
  assume s: "0 < step" "a < b"
  then have "0 < ceil_div (b - a) step" using ceil_div_pos by simp
  moreover have "ceil_div (b - (a + step)) step = ceil_div (b - a) step - 1"
    using ceil_div_step [of step "b - a"] s by (simp add: algebra_simps)
  ultimately show ?thesis by (simp add: loop_count_def)
qed

lemma loop_done: "0 < step \<Longrightarrow> b \<le> a \<Longrightarrow> loop_indexes step a b = []"
  by (simp add: loop_indexes_def loop_count_done)

lemma loop_more: "0 < step \<Longrightarrow> a < b \<Longrightarrow> loop_indexes step a b = a # loop_indexes step (a + step) b"
  by (simp add: loop_indexes_def loop_count_more map_upt_Suc algebra_simps del: upt_Suc)

lemma length_loop [simp]: "length (loop_indexes step a b) = loop_count step a b"
  by (simp add: loop_indexes_def)

lemma loop_count_zero: "0 < step \<Longrightarrow> loop_count step a b = 0 \<longleftrightarrow> b \<le> a"
  using loop_count_done loop_count_more by (metis Zero_neq_Suc not_le)

lemma set_loop: "0 < step \<Longrightarrow> x \<in> set (loop_indexes step a b) \<Longrightarrow> a \<le> x \<and> x < b"
proof (induction "nat (b - a)" arbitrary: a rule: less_induct)
  case less
  show ?case
  proof (cases "a < b")
    case True
    then show ?thesis using less.hyps [of "a + step"] less.prems loop_more [of step a b] by auto
  next
    case False
    then show ?thesis using less.prems loop_done [of step b a] by simp
  qed
qed

lemma distinct_loop: "0 < step \<Longrightarrow> distinct (loop_indexes step a b)"
  by (auto simp: loop_indexes_def distinct_map inj_on_def)

text \<open>
  Cutting \<open>m + 1\<close> iterations off a range, the way the code does: the end is one behind the last
  index of the part, the rest starts one step after that index.
\<close>

lemma loop_cut:
  assumes "0 < step" and "e = min (a + (int m * step + 1)) b"
  shows "loop_indexes step a b = loop_indexes step a e @ loop_indexes step (e - 1 + step) b \<and>
    loop_count step a e = min (Suc m) (loop_count step a b)"
  using assms(2)
proof (induction m arbitrary: a e)
  case 0
  show ?case
  proof (cases "a < b")
    case True
    then have e: "e = a + 1" using 0 by simp
    have "loop_indexes step a e = [a]" "loop_count step a e = 1"
      using assms(1) e loop_more [of step a e] loop_done [of step e "a + step"] loop_count_more [of step a e]
        loop_count_done [of step e "a + step"] by simp_all
    then show ?thesis using loop_more [OF assms(1) True] loop_count_more [OF assms(1) True] e by simp
  next
    case False
    then show ?thesis using 0 assms(1) by (simp add: loop_done loop_count_done min_def)
  qed
next
  case (Suc m)
  show ?case
  proof (cases "a < b")
    case True
    have e: "e = min (a + step + (int m * step + 1)) b" using Suc.prems by (simp add: algebra_simps)
    have "0 \<le> int m * step" using assms(1) by simp
    then have "a < a + step + (int m * step + 1)" using assms(1) by linarith
    then have "a < e" using True unfolding e min_less_iff_conj by simp
    then show ?thesis
      using Suc.IH [OF e] loop_more [OF assms(1) True] loop_more [OF assms(1) \<open>a < e\<close>]
        loop_count_more [OF assms(1) True] loop_count_more [OF assms(1) \<open>a < e\<close>] by simp
  next
    case False
    have "0 \<le> int (Suc m) * step" using assms(1) by simp
    then have "e = b" using Suc.prems False by (simp add: min_def)
    then show ?thesis using False assms(1) by (simp add: loop_done loop_count_done)
  qed
qed

text \<open>The tasks left in a range, for chunks of \<open>c\<close> iterations.\<close>

definition tasks_left :: "int \<Rightarrow> int \<Rightarrow> int \<Rightarrow> int \<Rightarrow> int" where
  "tasks_left step c a b = ceil_div (int (loop_count step a b)) c"

lemma tasks_left_done: "0 < step \<Longrightarrow> b \<le> a \<Longrightarrow> tasks_left step c a b = 0"
  by (simp add: tasks_left_def loop_count_done ceil_div_def)

lemma tasks_left_pos: "0 < step \<Longrightarrow> 0 < c \<Longrightarrow> 0 < tasks_left step c a b \<longleftrightarrow> a < b"
  using ceil_div_pos [of c "int (loop_count step a b)"] loop_count_zero [of step a b]
  by (auto simp: tasks_left_def)

lemma ceil_div_mono: "0 < c \<Longrightarrow> a \<le> b \<Longrightarrow> ceil_div a c \<le> ceil_div b c"
  by (simp add: ceil_div_def zdiv_mono1)

lemma ceil_div_mult: "0 < c \<Longrightarrow> ceil_div (n * c) c = n"
  using nonzero_mult_div_cancel_right [of c "- n"] by (simp add: ceil_div_def)

lemma task_cut:
  assumes s: "0 < step" and c: "0 < c" and e: "e = min (a + ((c - 1) * step + 1)) b"
  shows "loop_indexes step a b = loop_indexes step a e @ loop_indexes step (e - 1 + step) b"
    and "a < b \<Longrightarrow> tasks_left step c (e - 1 + step) b = tasks_left step c a b - 1" and "a < e \<longleftrightarrow> a < b"
proof -
  have "e = min (a + (int (nat (c - 1)) * step + 1)) b" using e c by simp
  note cut = loop_cut [OF s this]
  then show i: "loop_indexes step a b = loop_indexes step a e @ loop_indexes step (e - 1 + step) b" by simp
  have "0 \<le> (c - 1) * step" using s c by simp
  then show "a < e \<longleftrightarrow> a < b" using e by (auto simp: min_def)
  assume ab: "a < b"
  have n: "loop_count step (e - 1 + step) b = loop_count step a b - min (nat c) (loop_count step a b)"
  proof -
    have "loop_count step a b = loop_count step a e + loop_count step (e - 1 + step) b"
      using arg_cong [OF i, of length] unfolding length_append length_loop .
    moreover have "loop_count step a e = min (nat c) (loop_count step a b)"
      using cut c by (simp add: Suc_nat_eq_nat_zadd1)
    ultimately show ?thesis by simp
  qed
  show "tasks_left step c (e - 1 + step) b = tasks_left step c a b - 1"
  proof (cases "nat c \<le> loop_count step a b")
    case True
    then have "int (loop_count step (e - 1 + step) b) = int (loop_count step a b) - c" using n c by simp
    then show ?thesis by (simp add: tasks_left_def ceil_div_step [OF c])
  next
    case False
    then have "tasks_left step c a b \<le> ceil_div c c"
      unfolding tasks_left_def using c by (intro ceil_div_mono) simp_all
    then have "tasks_left step c a b \<le> 1" using ceil_div_mult [OF c, of 1] by simp
    moreover have "0 < tasks_left step c a b" using tasks_left_pos [OF s c] ab by simp
    moreover have "tasks_left step c (e - 1 + step) b = 0" using n False by (simp add: tasks_left_def ceil_div_def)
    ultimately show ?thesis by simp
  qed
qed

subsection \<open>Every index is somewhere\<close>

definition range_of :: "int \<Rightarrow> task_data \<Rightarrow> int multiset" where
  "range_of step d = mset (loop_indexes step (task_start d) (task_end d))"

definition used_up :: "task_data \<Rightarrow> bool" where
  "used_up d \<longleftrightarrow> task_end d \<le> task_start d"

lemma used_up_range: "0 < step \<Longrightarrow> used_up d \<Longrightarrow> range_of step d = {#}"
  by (simp add: used_up_def range_of_def loop_done)

definition owed :: "int \<Rightarrow> task_data list \<Rightarrow> int multiset" where
  "owed step ds = (\<Sum>i<length ds. range_of step (ds ! i))"

definition held :: "int \<Rightarrow> wstep \<Rightarrow> int multiset" where
  "held step c = (case c of Exec a b \<Rightarrow> mset (loop_indexes step a b) | Dec i a e \<Rightarrow> mset (loop_indexes step a e) | _ \<Rightarrow> {#})"

text \<open>The control states in which a worker has given up its own tasks.\<close>

definition beyond_own :: "nat \<Rightarrow> wstep \<Rightarrow> bool" where
  "beyond_own w c = (case c of Exec a b \<Rightarrow> False | Check i \<Rightarrow> i \<noteq> w | Load i \<Rightarrow> i \<noteq> w | Cas i a \<Rightarrow> i \<noteq> w
     | Dec i a e \<Rightarrow> i \<noteq> w | Steal \<Rightarrow> True | Read m \<Rightarrow> True | Finished \<Rightarrow> True)"

definition pc_bound :: "nat \<Rightarrow> wstep \<Rightarrow> bool" where
  "pc_bound n c = (case c of Check i \<Rightarrow> i < n | Load i \<Rightarrow> i < n | Cas i a \<Rightarrow> i < n | Dec i a e \<Rightarrow> i < n | Read m \<Rightarrow> m < n | _ \<Rightarrow> True)"

definition decs :: "nat \<Rightarrow> (nat \<Rightarrow> wstep) \<Rightarrow> nat \<Rightarrow> nat" where
  "decs nw pc i = card {w. w < nw \<and> (\<exists>a e. pc w = Dec i a e)}"

definition pf_inv :: "int multiset \<Rightarrow> parfor \<Rightarrow> bool" where
  "pf_inv tot s \<longleftrightarrow> (let sd = pf_sched s; step = sd_step sd; c = sd_chunk sd; ds = tasks_of sd; nw = sd_nw sd in
     0 < step \<and> 0 < c \<and> nw \<le> length ds \<and>
     mset (executed s) + (\<Sum>w<nw. held step (pf_pc s w)) + owed step ds = tot \<and>
     (\<forall>i<length ds. task_start (ds ! i) < task_end (ds ! i) \<longrightarrow>
        tasks_left step c (task_start (ds ! i)) (task_end (ds ! i)) + int (decs nw (pf_pc s) i) \<le> ntask (ds ! i)) \<and>
     (\<forall>i<length ds. nw \<le> i \<longrightarrow> used_up (ds ! i)) \<and>
     (\<forall>w<nw. pc_bound (length ds) (pf_pc s w) \<and> (beyond_own w (pf_pc s w) \<longrightarrow> used_up (ds ! w)) \<and>
        (\<forall>i a e. pf_pc s w = Dec i a e \<longrightarrow> e \<le> a \<longrightarrow> used_up (ds ! i))))"

lemma sum_change:
  fixes f g :: "nat \<Rightarrow> 'a::comm_monoid_add"
  assumes "i < n" and "\<And>j. j \<noteq> i \<Longrightarrow> g j = f j"
  shows "(\<Sum>j<n. f j) + g i = (\<Sum>j<n. g j) + f i"
proof -
  have "(\<Sum>j<n. f j) = f i + (\<Sum>j\<in>{..<n} - {i}. f j)" "(\<Sum>j<n. g j) = g i + (\<Sum>j\<in>{..<n} - {i}. g j)"
    using assms(1) by (simp_all add: sum.remove)
  moreover have "(\<Sum>j\<in>{..<n} - {i}. f j) = (\<Sum>j\<in>{..<n} - {i}. g j)"
    using assms(2) by (intro sum.cong) auto
  ultimately show ?thesis by (simp add: ac_simps)
qed

lemma held_upd: "(w :: nat) < nw \<Longrightarrow> (\<Sum>j<nw. held step ((pc(w := c)) j)) + held step (pc w) = (\<Sum>j<nw. held step (pc j)) + held step c"
  using sum_change [of w nw "\<lambda>j. held step ((pc(w := c)) j)" "\<lambda>j. held step (pc j)"] by simp

lemma owed_upd:
  assumes "i < length ds"
  shows "owed step (ds[i := d]) + range_of step (ds ! i) = owed step ds + range_of step d"
  using sum_change [of i "length ds" "\<lambda>j. range_of step (ds ! j)" "\<lambda>j. range_of step (ds[i := d] ! j)"] assms
  by (simp add: owed_def)

lemma decs_cong: "(\<And>a e. (\<exists>a e. pc w = Dec i a e) = (\<exists>a e. c = Dec i a e)) \<Longrightarrow> decs nw (pc(w := c)) i = decs nw pc i"
  unfolding decs_def by (intro arg_cong [where f = card]) auto

lemma decs_add:
  assumes "w < nw" and "\<nexists>a e. pc w = Dec i a e"
  shows "decs nw (pc(w := Dec i a e)) i = Suc (decs nw pc i)"
proof -
  have "{v. v < nw \<and> (\<exists>a' e'. (pc(w := Dec i a e)) v = Dec i a' e')} = insert w {v. v < nw \<and> (\<exists>a e. pc v = Dec i a e)}"
    using assms(1) by auto
  then show ?thesis using assms(2) by (simp add: decs_def)
qed

lemma decs_remove:
  assumes "w < nw" and "pc w = Dec i a e" and "\<nexists>a e. c = Dec i a e"
  shows "Suc (decs nw (pc(w := c)) i) = decs nw pc i"
proof -
  have "{v. v < nw \<and> (\<exists>a' e'. pc v = Dec i a' e')} = insert w {v. v < nw \<and> (\<exists>a e. (pc(w := c)) v = Dec i a e)}"
    using assms(1,2) by auto
  moreover have "w \<notin> {v. v < nw \<and> (\<exists>a e. (pc(w := c)) v = Dec i a e)}" using assms(3) by simp
  ultimately show ?thesis by (simp add: decs_def)
qed

lemma exchange_sum:
  fixes a b c d x y :: "'a::cancel_comm_monoid_add"
  assumes "a + x = b + y" and "c + y = d + x"
  shows "c + a = d + b"
proof -
  have "(c + a) + (x + y) = (d + b) + (x + y)"
    using arg_cong2 [OF assms, of "(+)"] by (simp only: ac_simps)
  then show ?thesis by simp
qed

text \<open>A step that changes only the control state of one worker, and perhaps what was executed.\<close>

lemma pf_inv_goto:
  assumes inv: "pf_inv tot s" and w: "w < sd_nw (pf_sched s)"
    and u: "tasks_of (pf_sched u) = tasks_of (pf_sched s)" "sd_step (pf_sched u) = sd_step (pf_sched s)"
      "sd_chunk (pf_sched u) = sd_chunk (pf_sched s)" "sd_nw (pf_sched u) = sd_nw (pf_sched s)"
      "pf_pc u = (pf_pc s)(w := c)"
    and ex: "mset (executed u) + held (sd_step (pf_sched s)) c = mset (executed s) + held (sd_step (pf_sched s)) (pf_pc s w)"
    and nd: "\<nexists>i a e. pf_pc s w = Dec i a e" "\<nexists>i a e. c = Dec i a e"
    and b: "pc_bound (length (tasks_of (pf_sched s))) c"
    and own: "beyond_own w c \<Longrightarrow> used_up (tasks_of (pf_sched s) ! w)"
  shows "pf_inv tot u"
proof -
  let ?sd = "pf_sched s"
  let ?step = "sd_step ?sd" and ?ds = "tasks_of ?sd" and ?nw = "sd_nw ?sd"
  have I: "mset (executed s) + (\<Sum>w<?nw. held ?step (pf_pc s w)) + owed ?step ?ds = tot"
    using inv by (simp add: pf_inv_def Let_def)
  have "(\<Sum>j<?nw. held ?step (((pf_pc s)(w := c)) j)) + held ?step (pf_pc s w) = (\<Sum>j<?nw. held ?step (pf_pc s j)) + held ?step c"
    by (rule held_upd [OF w])
  then have "mset (executed u) + (\<Sum>j<?nw. held ?step (((pf_pc s)(w := c)) j)) = mset (executed s) + (\<Sum>j<?nw. held ?step (pf_pc s j))"
    using ex by (rule exchange_sum)
  then have "mset (executed u) + (\<Sum>j<?nw. held ?step (((pf_pc s)(w := c)) j)) + owed ?step ?ds = tot"
    using I by simp
  moreover have "decs ?nw ((pf_pc s)(w := c)) i = decs ?nw (pf_pc s) i" for i
    using nd by (intro decs_cong) auto
  ultimately show ?thesis
    using inv u b own nd(2) by (auto simp: pf_inv_def Let_def)
qed

lemma pf_inv_parts:
  assumes "pf_inv tot s"
  shows "0 < sd_step (pf_sched s)" "0 < sd_chunk (pf_sched s)" "sd_nw (pf_sched s) \<le> length (tasks_of (pf_sched s))"
    and "mset (executed s) + (\<Sum>w\<in>{..<sd_nw (pf_sched s)}. held (sd_step (pf_sched s)) (pf_pc s w)) + owed (sd_step (pf_sched s)) (tasks_of (pf_sched s)) = tot"
    and "\<And>i. i < length (tasks_of (pf_sched s)) \<Longrightarrow> task_start (task_of s i) < task_end (task_of s i) \<Longrightarrow>
        tasks_left (sd_step (pf_sched s)) (sd_chunk (pf_sched s)) (task_start (task_of s i)) (task_end (task_of s i)) +
          int (decs (sd_nw (pf_sched s)) (pf_pc s) i) \<le> ntask (task_of s i)"
    and "\<And>i. i < length (tasks_of (pf_sched s)) \<Longrightarrow> sd_nw (pf_sched s) \<le> i \<Longrightarrow> used_up (task_of s i)"
    and "\<And>w. w < sd_nw (pf_sched s) \<Longrightarrow> pc_bound (length (tasks_of (pf_sched s))) (pf_pc s w)"
    and "\<And>w. w < sd_nw (pf_sched s) \<Longrightarrow> beyond_own w (pf_pc s w) \<Longrightarrow> used_up (task_of s w)"
    and "\<And>w i a e. w < sd_nw (pf_sched s) \<Longrightarrow> pf_pc s w = Dec i a e \<Longrightarrow> e \<le> a \<Longrightarrow> used_up (task_of s i)"
  using assms unfolding pf_inv_def Let_def by blast+

text \<open>A worker that finds no tasks of its own has none.\<close>

lemma no_tasks_drained:
  assumes "pf_inv tot s" and "i < length (tasks_of (pf_sched s))" and "ntask (task_of s i) \<le> 0"
  shows "used_up (task_of s i)"
proof (rule ccontr)
  assume "\<not> used_up (task_of s i)"
  then have lt: "task_start (task_of s i) < task_end (task_of s i)" by (simp add: used_up_def)
  then have "0 < tasks_left (sd_step (pf_sched s)) (sd_chunk (pf_sched s)) (task_start (task_of s i)) (task_end (task_of s i))"
    using tasks_left_pos pf_inv_parts(1,2) [OF assms(1)] by simp
  then show False using pf_inv_parts(5) [OF assms(1,2) lt] assms(3) by simp
qed

lemma pf_cas_step:
  assumes inv: "pf_inv tot s" and w: "w < sd_nw (pf_sched s)" and pc: "pf_pc s w = Cas i a"
    and a: "task_start (task_of s i) = a" and e: "e = task_limit s i a"
  shows "pf_inv tot (goto_pc w (Dec i a e) (set_task i ((task_of s i)\<lparr>task_start := (e - 1) + sd_step (pf_sched s)\<rparr>) s))"
proof -
  let ?sd = "pf_sched s"
  let ?step = "sd_step ?sd" and ?c = "sd_chunk ?sd" and ?ds = "tasks_of ?sd" and ?nw = "sd_nw ?sd"
  note P = pf_inv_parts [OF inv]
  define d where "d = (?ds ! i)\<lparr>task_start := (e - 1) + ?step\<rparr>"
  have i: "i < length ?ds" using P(7) [OF w] pc by (simp add: pc_bound_def)
  have e': "e = min (a + ((?c - 1) * ?step + 1)) (task_end (?ds ! i))" by (simp add: e task_limit_def)
  note cut = task_cut [OF P(1,2) e']
  have dec: "decs ?nw ((pf_pc s)(w := Dec i a e)) j = (if j = i then Suc (decs ?nw (pf_pc s) j) else decs ?nw (pf_pc s) j)" for j
    using decs_add [OF w, of "pf_pc s" i a e] decs_cong [of "pf_pc s" w j "Dec i a e" ?nw] pc by auto
  have held: "held ?step (Dec i a e) + range_of ?step d = range_of ?step (?ds ! i)"
    using cut(1) a by (simp add: held_def range_of_def d_def algebra_simps)
  have "mset (executed s) + (\<Sum>v<?nw. held ?step (((pf_pc s)(w := Dec i a e)) v)) + owed ?step (?ds[i := d]) = tot"
  proof -
    have "(\<Sum>v<?nw. held ?step (((pf_pc s)(w := Dec i a e)) v)) = (\<Sum>v<?nw. held ?step (pf_pc s v)) + held ?step (Dec i a e)"
      using held_upd [OF w, of ?step "pf_pc s" "Dec i a e"] pc by (simp add: held_def)
    moreover have "owed ?step (?ds[i := d]) + held ?step (Dec i a e) = owed ?step ?ds"
    proof -
      have "owed ?step (?ds[i := d]) + (held ?step (Dec i a e) + range_of ?step d) = owed ?step ?ds + range_of ?step d"
        using owed_upd [OF i, of ?step d] held by simp
      then show ?thesis by (simp add: add.assoc [symmetric])
    qed
    moreover have "x + (y + z) + v = x + y + (v + z)" for x y z v :: "int multiset" by (simp only: ac_simps)
    ultimately show ?thesis using P(4) by (simp only:)
  qed
  moreover have dr: "used_up (?ds[i := d] ! j)" if "used_up (?ds ! j)" for j
  proof (cases "j = i")
    case True
    then have "e \<le> a" using that a cut(3) by (auto simp: used_up_def)
    moreover have "0 \<le> (?c - 1) * ?step" using P(1,2) by simp
    ultimately have "e = task_end (?ds ! i)" using e' by (simp add: min_def split: if_splits)
    then show ?thesis using True i P(1) by (simp add: used_up_def d_def)
  next
    case False
    then show ?thesis using that by simp
  qed
  moreover have "tasks_left ?step ?c (task_start (?ds[i := d] ! j)) (task_end (?ds[i := d] ! j)) +
      int (decs ?nw ((pf_pc s)(w := Dec i a e)) j) \<le> ntask (?ds[i := d] ! j)"
    if j: "j < length ?ds" and lt: "task_start (?ds[i := d] ! j) < task_end (?ds[i := d] ! j)" for j
  proof (cases "j = i")
    case True
    have "a < task_end (?ds ! i)"
    proof (rule ccontr)
      assume "\<not> a < task_end (?ds ! i)"
      then have "used_up (?ds[i := d] ! j)" using dr a True by (auto simp: used_up_def)
      then show False using lt by (simp add: used_up_def)
    qed
    then show ?thesis
      using True i P(5) [OF i] cut(2) a dec [of j] by (simp add: d_def)
  next
    case False
    then show ?thesis using P(5) [OF j] lt dec [of j] by simp
  qed
  moreover have "used_up (?ds[i := d] ! i)" if "e \<le> a"
    using that cut(3) a by (intro dr) (auto simp: used_up_def)
  ultimately show ?thesis
    using P(1,2,3,6,7,8,9) i pc unfolding pf_inv_def Let_def set_task_def d_def [symmetric]
    by (auto simp: pc_bound_def beyond_own_def)
qed

lemma pf_dec_step:
  assumes inv: "pf_inv tot s" and w: "w < sd_nw (pf_sched s)" and pc: "pf_pc s w = Dec i a e"
    and c: "c = (if a < e then Exec a e else no_own_task s)"
  shows "pf_inv tot (goto_pc w c (set_task i ((task_of s i)\<lparr>ntask := ntask (task_of s i) - 1\<rparr>) s))"
proof -
  let ?sd = "pf_sched s"
  let ?step = "sd_step ?sd" and ?c = "sd_chunk ?sd" and ?ds = "tasks_of ?sd" and ?nw = "sd_nw ?sd"
  note P = pf_inv_parts [OF inv]
  define d where "d = (?ds ! i)\<lparr>ntask := ntask (?ds ! i) - 1\<rparr>"
  have i: "i < length ?ds" using P(7) [OF w] pc by (simp add: pc_bound_def)
  have nd: "\<nexists>i a e. c = Dec i a e" using c by (auto simp: no_own_task_def)
  have same: "task_start (?ds[i := d] ! j) = task_start (?ds ! j)" "task_end (?ds[i := d] ! j) = task_end (?ds ! j)" for j
    using i by (cases "j = i"; simp add: d_def)+
  have dr: "used_up (?ds[i := d] ! j) = used_up (?ds ! j)" for j by (simp add: used_up_def same)
  have own: "used_up (?ds ! w)" if "beyond_own w c"
  proof -
    have "e \<le> a" using that c by (auto simp: beyond_own_def split: if_splits)
    then have "used_up (?ds ! i)" using P(9) [OF w pc] by simp
    then show ?thesis using P(8) [OF w] pc by (cases "i = w") (auto simp: beyond_own_def)
  qed
  have "held ?step c = held ?step (Dec i a e)"
    using c P(1) by (auto simp: held_def no_own_task_def loop_done)
  then have h: "(\<Sum>v<?nw. held ?step (((pf_pc s)(w := c)) v)) = (\<Sum>v<?nw. held ?step (pf_pc s v))"
    using held_upd [OF w, of ?step "pf_pc s" c] pc by simp
  have "range_of ?step d = range_of ?step (?ds ! i)" by (simp add: range_of_def d_def)
  then have "owed ?step (?ds[i := d]) = owed ?step ?ds" using owed_upd [OF i, of ?step d] by simp
  moreover have "tasks_left ?step ?c (task_start (?ds ! j)) (task_end (?ds ! j)) +
      int (decs ?nw ((pf_pc s)(w := c)) j) \<le> ntask (?ds[i := d] ! j)"
    if j: "j < length ?ds" and lt: "task_start (?ds ! j) < task_end (?ds ! j)" for j
  proof (cases "j = i")
    case True
    then show ?thesis
      using P(5) [OF j lt] decs_remove [where pc = "pf_pc s" and c = c, OF w pc] nd i by (auto simp: d_def)
  next
    case False
    then have "decs ?nw ((pf_pc s)(w := c)) j = decs ?nw (pf_pc s) j"
      using nd pc by (intro decs_cong) auto
    then show ?thesis using False P(5) [OF j lt] by simp
  qed
  moreover have "pc_bound (length ?ds) c" using c by (auto simp: pc_bound_def no_own_task_def)
  ultimately show ?thesis
    using P(1-4,6,7,8,9) own nd unfolding pf_inv_def Let_def set_task_def d_def [symmetric]
    by (simp add: h [unfolded fun_upd_apply] same dr)
qed

subsection \<open>Every step keeps the invariant\<close>

lemma parfor_step_inv:
  assumes inv: "pf_inv tot s" and step: "parfor_step s t"
  shows "pf_inv tot t"
  using step
proof cases
  case (s_exec w a b)
  show ?thesis unfolding s_exec(1)
    by (rule pf_inv_goto [where c = "Check w", OF inv s_exec(2)])
      (use s_exec(2,3) pf_inv_parts(3) [OF inv] in \<open>auto simp: held_def pc_bound_def beyond_own_def\<close>)
next
  case (s_some w i)
  show ?thesis unfolding s_some(1)
    by (rule pf_inv_goto [where c = "Load i", OF inv s_some(2)])
      (use s_some pf_inv_parts(7,8) [OF inv, of w] in \<open>auto simp: held_def pc_bound_def beyond_own_def\<close>)
next
  case (s_none w i)
  have "i < length (tasks_of (pf_sched s))" using s_none pf_inv_parts(7) [OF inv, of w] by (simp add: pc_bound_def)
  then have "used_up (task_of s i)" using no_tasks_drained [OF inv] s_none(4) by simp
  then have "used_up (task_of s w)" using s_none(2,3) pf_inv_parts(8) [OF inv, of w] by (cases "i = w") (auto simp: beyond_own_def)
  then show ?thesis unfolding s_none(1)
    by (intro pf_inv_goto [where c = "no_own_task s", OF inv s_none(2)])
      (use s_none(3) in \<open>auto simp: held_def pc_bound_def no_own_task_def\<close>)
next
  case (s_load w i)
  show ?thesis unfolding s_load(1)
    by (rule pf_inv_goto [where c = "Cas i (task_start (task_of s i))", OF inv s_load(2)])
      (use s_load pf_inv_parts(7,8) [OF inv, of w] in \<open>auto simp: held_def pc_bound_def beyond_own_def\<close>)
next
  case (s_cas w i a e)
  show ?thesis unfolding s_cas(1) by (rule pf_cas_step [OF inv s_cas(2-5)])
next
  case (s_cas_fail w i a)
  show ?thesis unfolding s_cas_fail(1)
    by (rule pf_inv_goto [where c = "Check i", OF inv s_cas_fail(2)])
      (use s_cas_fail pf_inv_parts(7,8) [OF inv, of w] in \<open>auto simp: held_def pc_bound_def beyond_own_def\<close>)
next
  case (s_dec w i a e)
  show ?thesis unfolding s_dec(1) by (rule pf_dec_step [OF inv s_dec(2,3) refl])
next
  case (s_steal w m)
  show ?thesis unfolding s_steal(1)
    by (rule pf_inv_goto [where c = "Read m", OF inv s_steal(2)])
      (use s_steal pf_inv_parts(8) [OF inv, of w] in \<open>auto simp: held_def pc_bound_def beyond_own_def\<close>)
next
  case (s_read w m)
  show ?thesis unfolding s_read(1)
    by (rule pf_inv_goto [where c = "Check m", OF inv s_read(2)])
      (use s_read pf_inv_parts(7,8) [OF inv, of w] in \<open>auto simp: held_def pc_bound_def beyond_own_def\<close>)
next
  case (s_read_none w m)
  show ?thesis unfolding s_read_none(1)
    by (rule pf_inv_goto [where c = Finished, OF inv s_read_none(2)])
      (use s_read_none pf_inv_parts(8) [OF inv, of w] in \<open>auto simp: held_def pc_bound_def beyond_own_def\<close>)
qed

lemma parfor_steps_inv: "parfor_step\<^sup>*\<^sup>* s t \<Longrightarrow> pf_inv tot s \<Longrightarrow> pf_inv tot t"
  by (induction rule: rtranclp_induct) (auto intro: parfor_step_inv)

lemma parfor_end:
  assumes inv: "pf_inv tot s" and fin: "\<And>w. w < sd_nw (pf_sched s) \<Longrightarrow> pf_pc s w = Finished"
  shows "mset (executed s) = tot" "\<forall>i<length (tasks_of (pf_sched s)). used_up (task_of s i)"
proof -
  note P = pf_inv_parts [OF inv]
  show dr: "\<forall>i<length (tasks_of (pf_sched s)). used_up (task_of s i)"
  proof (intro allI impI)
    fix i assume i: "i < length (tasks_of (pf_sched s))"
    show "used_up (task_of s i)"
    proof (cases "i < sd_nw (pf_sched s)")
      case True
      then show ?thesis using P(8) [OF True] fin [OF True] by (simp add: beyond_own_def)
    next
      case False
      then show ?thesis using P(6) [OF i] by simp
    qed
  qed
  have "owed (sd_step (pf_sched s)) (tasks_of (pf_sched s)) = {#}"
    using dr used_up_range [OF P(1)] by (simp add: owed_def)
  moreover have "(\<Sum>w\<in>{..<sd_nw (pf_sched s)}. held (sd_step (pf_sched s)) (pf_pc s w)) = {#}"
    using fin by (simp add: held_def)
  ultimately show "mset (executed s) = tot" using P(4) by simp
qed

text \<open>The parameters of the loop do not change.\<close>

lemma parfor_step_nw: "parfor_step s t \<Longrightarrow> sd_nw (pf_sched t) = sd_nw (pf_sched s)"
  by (induction rule: parfor_step.induct) (simp_all add: set_task_def)

lemma parfor_steps_nw: "parfor_step\<^sup>*\<^sup>* s t \<Longrightarrow> sd_nw (pf_sched t) = sd_nw (pf_sched s)"
  by (induction rule: rtranclp_induct) (auto simp: parfor_step_nw)

end
