(* ===== verification/FFParForRun.thy ===== *)
theory FFParForRun
  imports FFParFor
begin

text \<open>
  Running the parallel loops: what the division of the range and the sending of the first tasks give
  to the workers, why the workers can always finish, static scheduling with a grain, and the loops
  that are not run as they are written.
\<close>

subsection \<open>Handing out the first tasks\<close>

text \<open>Whatever is left in a range fits into its number of tasks.\<close>

definition task_fits :: "int \<Rightarrow> int \<Rightarrow> task_data \<Rightarrow> bool" where
  "task_fits step c d \<longleftrightarrow> used_up d \<or> tasks_left step c (task_start d) (task_end d) \<le> ntask d"

lemma task_fits_drained: "used_up d \<Longrightarrow> task_fits step c d"
  by (simp add: task_fits_def)

lemma cut_task:
  assumes s: "0 < step" and c: "0 < c" and e: "e = min (task_start d + ((c - 1) * step + 1)) (task_end d)"
    and d': "d' = d\<lparr>ntask := n, task_start := (e - 1) + step\<rparr>"
  shows "mset (loop_indexes step (task_start d) e) + range_of step d' = range_of step d"
    and "used_up d \<Longrightarrow> used_up d'"
    and "task_fits step c d \<Longrightarrow> ntask d - 1 \<le> n \<Longrightarrow> task_fits step c d'"
proof -
  note cut = task_cut [OF s c e]
  show "mset (loop_indexes step (task_start d) e) + range_of step d' = range_of step d"
    using cut(1) by (simp add: range_of_def d' algebra_simps)
  show dr: "used_up d'" if "used_up d"
  proof -
    have "e \<le> task_start d" using that cut(3) by (auto simp: used_up_def)
    moreover have "0 \<le> (c - 1) * step" using s c by simp
    ultimately have "e = task_end d" using e by (simp add: min_def split: if_splits)
    then show ?thesis using s by (simp add: used_up_def d')
  qed
  show "task_fits step c d'" if "task_fits step c d" "ntask d - 1 \<le> n"
  proof (cases "used_up d")
    case True
    then show ?thesis using dr by (simp add: task_fits_drained)
  next
    case False
    then show ?thesis using that cut(2) by (auto simp: task_fits_def used_up_def d')
  qed
qed

text \<open>The scheduler when the ranges are set up, with the multiset \<open>tot\<close> of the indexes to run.\<close>

definition sched_ready :: "int multiset \<Rightarrow> scheduler \<Rightarrow> bool" where
  "sched_ready tot s \<longleftrightarrow> 0 < sd_step s \<and> 0 < sd_chunk s \<and> sd_nw s \<le> length (tasks_of s) \<and>
     owed (sd_step s) (tasks_of s) = tot \<and> (\<forall>d\<in>set (tasks_of s). task_fits (sd_step s) (sd_chunk s) d) \<and>
     (\<forall>i<length (tasks_of s). sd_nw s \<le> i \<longrightarrow> used_up (tasks_of s ! i))"

definition sent_pc :: "(nat \<times> int \<times> int) list \<Rightarrow> nat \<Rightarrow> wstep" where
  "sent_pc sends w = (case map_of sends w of None \<Rightarrow> Finished | Some (a, b) \<Rightarrow> Exec a b)"

lemma sent_pc_add: "w \<notin> fst ` set sends \<Longrightarrow> sent_pc (sends @ [(w, a, b)]) = (sent_pc sends)(w := Exec a b)"
  by (auto simp: sent_pc_def fun_eq_iff map_add_def map_of_eq_None_iff [THEN iffD2] split: option.splits)

lemma sent_pc_other: "w \<notin> fst ` set sends \<Longrightarrow> sent_pc sends w = Finished"
  by (simp add: sent_pc_def map_of_eq_None_iff [THEN iffD2])

definition send_inv :: "int multiset \<Rightarrow> nat \<Rightarrow> (nat \<times> int \<times> int) list \<Rightarrow> scheduler \<Rightarrow> bool" where
  "send_inv tot wid sends s \<longleftrightarrow> 0 < sd_step s \<and> 0 < sd_chunk s \<and> sd_nw s \<le> length (tasks_of s) \<and>
     (\<Sum>w\<in>{..<sd_nw s}. held (sd_step s) (sent_pc sends w)) + owed (sd_step s) (tasks_of s) = tot \<and>
     (\<forall>d\<in>set (tasks_of s). task_fits (sd_step s) (sd_chunk s) d) \<and>
     (\<forall>i<length (tasks_of s). sd_nw s \<le> i \<longrightarrow> used_up (tasks_of s ! i)) \<and>
     (\<forall>w<wid. sent_pc sends w = Finished \<longrightarrow> used_up (tasks_of s ! w)) \<and> fst ` set sends \<subseteq> {..<wid}"

lemma send_one:
  assumes inv: "send_inv tot wid sends s" and w: "wid < sd_nw s"
    and e: "e = min (task_start (tasks_of s ! wid) + ((sd_chunk s - 1) * sd_step s + 1)) (task_end (tasks_of s ! wid))"
    and d: "d = (tasks_of s ! wid)\<lparr>ntask := ntask (tasks_of s ! wid) - 1, task_start := (e - 1) + sd_step s\<rparr>"
  shows "send_inv tot (Suc wid) (sends @ [(wid, task_start (tasks_of s ! wid), e)]) (s\<lparr>tasks_of := (tasks_of s)[wid := d]\<rparr>)"
proof -
  let ?ds = "tasks_of s" and ?step = "sd_step s" and ?c = "Exec (task_start (tasks_of s ! wid)) e"
  have I: "0 < sd_step s" "0 < sd_chunk s" "sd_nw s \<le> length ?ds"
    "(\<Sum>w\<in>{..<sd_nw s}. held ?step (sent_pc sends w)) + owed ?step ?ds = tot"
    "\<forall>d\<in>set ?ds. task_fits ?step (sd_chunk s) d" "\<forall>i<length ?ds. sd_nw s \<le> i \<longrightarrow> used_up (?ds ! i)"
    "\<forall>w<wid. sent_pc sends w = Finished \<longrightarrow> used_up (?ds ! w)" "fst ` set sends \<subseteq> {..<wid}"
    using inv by (simp_all add: send_inv_def)
  note cut = cut_task [OF I(1,2) e d]
  have new: "wid \<notin> fst ` set sends" using I(8) by auto
  have wl: "wid < length ?ds" using w I(3) by simp
  have "(\<Sum>w\<in>{..<sd_nw s}. held ?step (((sent_pc sends)(wid := ?c)) w)) = (\<Sum>w\<in>{..<sd_nw s}. held ?step (sent_pc sends w)) + held ?step ?c"
    using held_upd [OF w, of ?step "sent_pc sends" ?c] sent_pc_other [OF new] by (simp add: held_def)
  moreover have "owed ?step (?ds[wid := d]) + held ?step ?c = owed ?step ?ds"
  proof -
    have "owed ?step (?ds[wid := d]) + (held ?step ?c + range_of ?step d) = owed ?step ?ds + range_of ?step d"
      using owed_upd [OF wl, of ?step d] cut(1) by (simp add: held_def)
    then show ?thesis by (simp add: add.assoc [symmetric])
  qed
  moreover have "(y + z) + v = y + (v + z)" for y z v :: "int multiset" by (simp only: ac_simps)
  ultimately have sum: "(\<Sum>w\<in>{..<sd_nw s}. held ?step (((sent_pc sends)(wid := ?c)) w)) + owed ?step (?ds[wid := d]) = tot"
    using I(4) by (simp only:)
  have "task_fits ?step (sd_chunk s) d" using cut(3) I(5) wl by (simp add: d)
  then have "\<forall>d'\<in>set (?ds[wid := d]). task_fits ?step (sd_chunk s) d'"
    using I(5) set_update_subset_insert [of ?ds wid d] by blast
  moreover have "used_up (?ds[wid := d] ! i)" if "used_up (?ds ! i)" for i
    using that cut(2) wl by (cases "i = wid") auto
  ultimately show ?thesis
    using I sum by (auto simp: send_inv_def sent_pc_add [OF new] less_Suc_eq subset_iff)
qed

lemma send_round_ok:
  assumes "send_inv tot wid sends s" and "wid + k = sd_nw s" and "sd_nw s + jump s \<le> taskv_size s"
  shows "\<exists>sends' s'. send_round ((sd_chunk s - 1) * sd_step s + 1) k wid s sends = Inr (sends', s') \<and>
    send_inv tot (sd_nw s) sends' s' \<and> sd_nw s' = sd_nw s \<and> jump s' = jump s \<and> max_id s' = max_id s"
  using assms
proof (induction k arbitrary: wid sends s)
  case 0
  then show ?case by simp
next
  case (Suc k)
  let ?d = "tasks_of s ! wid"
  have w: "wid < sd_nw s" "wid < length (tasks_of s)" using Suc.prems by (simp_all add: send_inv_def)
  show ?case
  proof (cases "0 < ntask ?d")
    case True
    let ?e = "min (task_start ?d + ((sd_chunk s - 1) * sd_step s + 1)) (task_end ?d)"
    let ?s = "s\<lparr>tasks_of := (tasks_of s)[wid := ?d\<lparr>ntask := ntask ?d - 1, task_start := (?e - 1) + sd_step s\<rparr>]\<rparr>"
    have "send_inv tot (Suc wid) (sends @ [(wid, task_start ?d, ?e)]) ?s"
      by (rule send_one [OF Suc.prems(1) w(1) refl refl])
    from Suc.IH [OF this] Suc.prems(2,3) show ?thesis using True w by (simp add: Let_def)
  next
    case False
    have "0 < sd_step s" "0 < sd_chunk s" "task_fits (sd_step s) (sd_chunk s) ?d" using Suc.prems(1) w by (simp_all add: send_inv_def)
    then have "used_up ?d" using False tasks_left_pos [of "sd_step s" "sd_chunk s" "task_start ?d" "task_end ?d"]
      by (auto simp: task_fits_def used_up_def)
    then have "send_inv tot (Suc wid) sends (s\<lparr>skip1 := True\<rparr>)"
      using Suc.prems(1) by (auto simp: send_inv_def less_Suc_eq)
    from Suc.IH [OF this] Suc.prems(2,3) show ?thesis using False w by (simp add: Let_def)
  qed
qed

lemma sendTask_ok:
  assumes s: "sched_ready tot s" and n: "0 < sd_nw s" "sd_nw s \<le> taskv_size s" "jump s = 0"
  shows "\<exists>sends s'. sendTask True s = Inr (sends, s') \<and> pf_inv tot (parfor_start sends s') \<and> sd_nw s' = sd_nw s \<and> max_id s' = max_id s"
proof -
  have "(\<Sum>w\<in>{..<sd_nw s}. held (sd_step s) (sent_pc [] w)) = {#}" by (simp add: sent_pc_def held_def)
  then have "send_inv tot 0 [] s" using s by (simp add: send_inv_def sched_ready_def)
  then obtain sends s' where r: "send_round ((sd_chunk s - 1) * sd_step s + 1) (sd_nw s) 0 s [] = Inr (sends, s')"
      "send_inv tot (sd_nw s) sends s'" "sd_nw s' = sd_nw s" "jump s' = jump s" "max_id s' = max_id s"
    using send_round_ok [of tot 0 "[]" s "sd_nw s"] n by auto
  have "sendTask True s = Inr (sends, s'\<lparr>jump := sd_nw s\<rparr>)"
    using r n by (simp add: sendTask_def Let_def)
  moreover have "pf_inv tot (parfor_start sends (s'\<lparr>jump := sd_nw s\<rparr>))"
  proof -
    have nodec: "sent_pc sends w \<noteq> Dec i a e" for w i a e by (simp add: sent_pc_def split: option.splits)
    have pc: "sent_pc sends w = Finished \<or> (\<exists>a b. sent_pc sends w = Exec a b)" for w by (auto simp: sent_pc_def split: option.splits)
    have "decs n (sent_pc sends) i = 0" for n i by (simp add: decs_def nodec)
    moreover have "pc_bound n (sent_pc sends w)" for w n using pc [of w] by (auto simp: pc_bound_def)
    moreover have "beyond_own w (sent_pc sends w) \<longleftrightarrow> sent_pc sends w = Finished" for w using pc [of w] by (auto simp: beyond_own_def)
    moreover have "tasks_left (sd_step s') (sd_chunk s') (task_start (tasks_of s' ! i)) (task_end (tasks_of s' ! i)) \<le> ntask (tasks_of s' ! i)"
      if "i < length (tasks_of s')" "task_start (tasks_of s' ! i) < task_end (tasks_of s' ! i)" for i
    proof -
      have "task_fits (sd_step s') (sd_chunk s') (tasks_of s' ! i)" using r(2) nth_mem [OF that(1)] by (simp add: send_inv_def)
      then show ?thesis using that(2) by (simp add: task_fits_def used_up_def)
    qed
    ultimately show ?thesis
      using r(2,3) nodec by (simp add: pf_inv_def parfor_start_def Let_def send_inv_def flip: sent_pc_def)
  qed
  ultimately show ?thesis using r(3,5) by auto
qed

subsection \<open>Dividing the range\<close>

lemma drained_default: "used_up \<lparr>ntask = 0, task_start = 0, task_end = 0\<rparr>"
  by (simp add: used_up_def)

lemma resize_data: "length (resize_data n d) = n" "\<forall>x\<in>set d. used_up x \<Longrightarrow> \<forall>x\<in>set (resize_data n d). used_up x"
  by (auto simp: resize_data_def drained_default dest: in_set_takeD)

lemma owed_drained: "0 < step \<Longrightarrow> \<forall>x\<in>set d. used_up x \<Longrightarrow> owed step d = {#}"
  by (simp add: owed_def used_up_range)

text \<open>A range set for a worker whose own range was empty adds its indexes.\<close>

lemma owed_set:
  assumes "0 < step" and "i < length d" and "used_up (d ! i)"
  shows "owed step (d[i := x]) = owed step d + range_of step x"
  using owed_upd [OF assms(2), of step x] used_up_range [OF assms(1,3)] by simp

lemma ceil_div_diff: "0 < c \<Longrightarrow> ceil_div (n - t * c) c = ceil_div n c - t"
proof -
  assume "0 < c"
  then have "(- n + t * c) div c = t + (- n) div c" by (intro div_mult_self1) simp
  moreover have "- (n - t * c) = - n + t * c" by simp
  ultimately show ?thesis by (simp only: ceil_div_def)
qed

text \<open>The first \<open>t\<close> chunks of a range that has at least \<open>t\<close> of them.\<close>

lemma chunks_cut:
  assumes s: "0 < step" and c: "0 < c" and t: "1 \<le> t" "t \<le> tasks_left step c a b"
    and e: "e = min (a + ((t * c - 1) * step + 1)) b"
  shows "loop_indexes step a b = loop_indexes step a e @ loop_indexes step (e - 1 + step) b"
    and "tasks_left step c a e \<le> t" and "tasks_left step c (e - 1 + step) b = tasks_left step c a b - t"
proof -
  have tc: "1 \<le> t * c" using t(1) c by (meson int_one_le_iff_zero_less less_le_trans mult_pos_pos zero_less_one)
  have "e = min (a + (int (nat (t * c - 1)) * step + 1)) b" using e tc by simp
  note cut = loop_cut [OF s this]
  then show i: "loop_indexes step a b = loop_indexes step a e @ loop_indexes step (e - 1 + step) b" by simp
  have ae: "loop_count step a e = min (nat (t * c)) (loop_count step a b)"
    using cut tc by (simp add: Suc_nat_eq_nat_zadd1)
  have sum: "loop_count step a b = loop_count step a e + loop_count step (e - 1 + step) b"
    using arg_cong [OF i, of length] unfolding length_append length_loop .
  have "tasks_left step c a e \<le> ceil_div (t * c) c"
    unfolding tasks_left_def using ae tc by (intro ceil_div_mono [OF c]) simp
  then show "tasks_left step c a e \<le> t" by (simp add: ceil_div_mult [OF c])
  show "tasks_left step c (e - 1 + step) b = tasks_left step c a b - t"
  proof (cases "nat (t * c) \<le> loop_count step a b")
    case True
    then have "loop_count step a b = nat (t * c) + loop_count step (e - 1 + step) b" using ae sum by linarith
    then have "int (loop_count step (e - 1 + step) b) = int (loop_count step a b) - t * c" using tc by linarith
    then show ?thesis by (simp add: tasks_left_def ceil_div_diff [OF c])
  next
    case False
    then have "tasks_left step c a b \<le> ceil_div (t * c) c"
      unfolding tasks_left_def using c by (intro ceil_div_mono) simp_all
    moreover have "loop_count step (e - 1 + step) b = 0" using False ae sum by linarith
    then have "tasks_left step c (e - 1 + step) b = 0" by (simp add: tasks_left_def ceil_div_def)
    ultimately show ?thesis using t(2) by (simp add: ceil_div_mult [OF c])
  qed
qed

text \<open>
  The tasks still to be given out when \<open>k\<close> workers are left: \<open>ntxw\<close> for each and the rest of the
  division, one by one for the first workers, or fewer than \<open>k\<close> single tasks.
\<close>

definition split_count :: "int \<Rightarrow> int \<Rightarrow> nat \<Rightarrow> nat \<Rightarrow> int \<Rightarrow> bool" where
  "split_count ntxw r i k tot \<longleftrightarrow> 1 \<le> ntxw \<and> 0 \<le> r \<and> r \<le> int i + int k \<and>
     (tot = int k * ntxw + (if r = 1 then 1 else max 0 (r - int i)) \<or> ntxw = 1 \<and> r = 0 \<and> 0 \<le> tot \<and> tot \<le> int k)"

lemma split_count_step:
  assumes "split_count ntxw r i (Suc k) tot" and "0 < tot" and "t = ntxw + (if 1 < r \<and> int i < r then 1 else 0)"
  shows "1 \<le> t" "t \<le> tot" "split_count ntxw r (Suc i) k (tot - t)"
proof -
  have k: "0 \<le> int k * ntxw" "int (Suc k) * ntxw = ntxw + int k * ntxw" using assms(1) by (simp_all add: split_count_def algebra_simps)
  show "1 \<le> t" using assms by (auto simp: split_count_def)
  show "t \<le> tot" 
  proof -
    have "tot = int (Suc k) * ntxw + (if r = 1 then 1 else max 0 (r - int i)) \<or> ntxw = 1 \<and> r = 0"
      using assms(1) by (auto simp: split_count_def)
    then show ?thesis using assms(2,3) k by (simp del: of_nat_Suc split: if_splits) linarith+
  qed
  show "split_count ntxw r (Suc i) k (tot - t)"
    using assms k by (auto simp: split_count_def algebra_simps split: if_splits)
qed

text \<open>What the loop leaves: nothing, or one task behind the range of the last worker.\<close>

definition split_left :: "int \<Rightarrow> int \<Rightarrow> int \<Rightarrow> int \<Rightarrow> int \<Rightarrow> int multiset \<Rightarrow> int \<Rightarrow> task_data list \<Rightarrow> bool" where
  "split_left step c stop ntxw r tot left d \<longleftrightarrow> (\<forall>x\<in>set d. task_fits step c x) \<and>
     (left = 0 \<and> owed step d = tot \<or>
      left = 1 \<and> r = 1 \<and> (\<exists>a. owed step d + mset (loop_indexes step a stop) = tot \<and>
        loop_indexes step (task_start (last d)) stop = loop_indexes step (task_start (last d)) (task_end (last d)) @ loop_indexes step a stop \<and>
        ntask (last d) = ntxw \<and> tasks_left step c (task_start (last d)) stop = ntxw + 1))"

lemma split_tasks_ok:
  assumes "0 < step" and "0 < c" and "0 < length d" and "i + k = length d"
    and "split_count ntxw r i k tk" and "tk = tasks_left step c a stop"
    and "owed step d + mset (loop_indexes step a stop) = tot" and "\<forall>x\<in>set d. task_fits step c x"
    and "\<forall>j<length d. i \<le> j \<longrightarrow> used_up (d ! j)"
    and "0 < i \<Longrightarrow> r = 1 \<Longrightarrow> (let w = d ! (i - 1) in
      loop_indexes step (task_start w) stop = loop_indexes step (task_start w) (task_end w) @ loop_indexes step a stop \<and>
      ntask w = ntxw \<and> tasks_left step c (task_start w) stop = ntxw + tk)"
  shows "\<exists>left d'. split_tasks step c stop ntxw r k i tk a d = (left, d') \<and> length d' = length d \<and>
    split_left step c stop ntxw r tot left d'"
  using assms(3-)
proof (induction k arbitrary: i tk a d)
  case Z: 0
  have tk0: "tk = 0 \<or> tk = 1 \<and> r = 1" using Z.prems(3) by (auto simp: split_count_def max_def split: if_splits)
  have "loop_indexes step a stop = []" if "tk = 0"
    using that Z.prems(4) tasks_left_pos [OF assms(1,2), of a stop] assms(1) by (simp add: loop_done)
  moreover have "last d = d ! (i - 1)" "0 < i" using Z.prems(1,2) by (simp_all add: last_conv_nth)
  ultimately show ?case using tk0 Z.prems by (auto simp: split_left_def Let_def)
next
  case (Suc k)
  show ?case
  proof (cases "0 < tk")
    case False
    then have "stop \<le> a" using Suc.prems(4) tasks_left_pos [OF assms(1,2), of a stop] by simp
    then have "loop_indexes step a stop = []" "tk = 0"
      using Suc.prems(4) assms(1) by (simp_all add: loop_done tasks_left_done)
    then show ?thesis using False Suc.prems by (auto simp: split_left_def)
  next
    case True
    define t where "t = ntxw + (if 1 < r \<and> int i < r then 1 else 0)"
    define e where "e = min (a + ((t * c - 1) * step + 1)) stop"
    define x where "x = \<lparr>ntask = t, task_start = a, task_end = e\<rparr>"
    note count = split_count_step [OF Suc.prems(3) True t_def]
    note cut = chunks_cut [OF assms(1,2) count(1) count(2) [unfolded Suc.prems(4)] e_def]
    have i: "i < length d" using Suc.prems(2) by simp
    have "owed step (d[i := x]) + mset (loop_indexes step (e - 1 + step) stop) = tot"
      using owed_set [OF assms(1) i, of x] Suc.prems(5,7) i cut(1) by (simp add: range_of_def x_def add.assoc)
    moreover have "task_fits step c x" using cut(2) by (simp add: task_fits_def x_def)
    then have "\<forall>y\<in>set (d[i := x]). task_fits step c y" using Suc.prems(6) set_update_subset_insert [of d i x] by blast
    moreover have "\<forall>j<length d. Suc i \<le> j \<longrightarrow> used_up (d[i := x] ! j)" using Suc.prems(7) by simp
    moreover have "let w = d[i := x] ! i in
      loop_indexes step (task_start w) stop = loop_indexes step (task_start w) (task_end w) @ loop_indexes step (e - 1 + step) stop \<and>
      ntask w = ntxw \<and> tasks_left step c (task_start w) stop = ntxw + (tk - t)" if "r = 1"
      using i cut(1) that Suc.prems(4) by (simp add: x_def t_def)
    ultimately have "\<exists>left d'. split_tasks step c stop ntxw r k (Suc i) (tk - t) (e - 1 + step) (d[i := x]) = (left, d') \<and>
      length d' = length (d[i := x]) \<and> split_left step c stop ntxw r tot left d'"
      using Suc.prems(2,4) count(3) cut(3) using i by (intro Suc.IH) auto
    moreover have "(if a + (t * c - 1) * step + 1 < stop then a + (t * c - 1) * step + 1 else stop) = e"
      by (simp add: e_def min_def)
    ultimately show ?thesis using True by (simp add: Let_def x_def t_def [symmetric])
  qed
qed

lemma ceil_div_ge: "0 < c \<Longrightarrow> n \<le> ceil_div n c * c"
proof -
  assume c: "0 < c"
  have "(- n) div c * c + (- n) mod c = - n" by (rule div_mult_mod_eq)
  moreover have "0 \<le> (- n) mod c" using c by simp
  moreover have "ceil_div n c * c = - ((- n) div c * c)" by (simp add: ceil_div_def)
  ultimately show ?thesis by linarith
qed

lemma ceil_double: "0 < c \<Longrightarrow> ceil_div n c \<le> 2 \<Longrightarrow> ceil_div n (c * 2) \<le> 1"
proof -
  assume c: "0 < c" and le: "ceil_div n c \<le> 2"
  have "n \<le> ceil_div n c * c" by (rule ceil_div_ge [OF c])
  also have "\<dots> \<le> 2 * c" using le c by (intro mult_right_mono) auto
  finally have "ceil_div n (c * 2) \<le> ceil_div (1 * (c * 2)) (c * 2)" using c by (intro ceil_div_mono) auto
  then show ?thesis using c ceil_div_mult [of "c * 2" 1] by simp
qed

lemma ceil_div_wider: "0 < c \<Longrightarrow> 0 \<le> n \<Longrightarrow> ceil_div n (c * 2) \<le> ceil_div n c"
proof -
  assume c: "0 < c" and n: "0 \<le> n"
  have "ceil_div 0 c \<le> ceil_div n c" by (rule ceil_div_mono [OF c n])
  then have "0 \<le> ceil_div n c" by (simp add: ceil_div_def)
  then have "ceil_div n c * c \<le> ceil_div n c * (c * 2)" using c by (intro mult_left_mono) auto
  with ceil_div_ge [OF c, of n] have "n \<le> ceil_div n c * (c * 2)" by (rule order_trans)
  then have "ceil_div n (c * 2) \<le> ceil_div (ceil_div n c * (c * 2)) (c * 2)" using c by (intro ceil_div_mono) auto
  then show ?thesis using c ceil_div_mult [of "c * 2"] by simp
qed

lemma task_fits_wider: "0 < c \<Longrightarrow> task_fits step c d \<Longrightarrow> task_fits step (c * 2) d"
  using ceil_div_wider [of c "int (loop_count step (task_start d) (task_end d))"]
  by (auto simp: task_fits_def tasks_left_def)

lemma loop_count_ceil: "0 < step \<Longrightarrow> a < b \<Longrightarrow> int (loop_count step a b) = ceil_div (b - a) step"
  using ceil_div_pos [of step "b - a"] by (simp add: loop_count_def)

text \<open>Replacing the last range.\<close>

lemma owed_last:
  assumes "d \<noteq> []"
  shows "owed step (d[length d - 1 := x]) + range_of step (last d) = owed step d + range_of step x"
  using owed_upd [of "length d - 1" d step x] assms by (simp add: last_conv_nth)

lemma fits_last:
  assumes "\<forall>x\<in>set d. task_fits step c x" and "task_fits step c w"
  shows "\<forall>x\<in>set (d[i := w]). task_fits step c x"
  using assms set_update_subset_insert [of d i w] by blast

lemma split_count_start:
  assumes "0 < n" and "0 < tt" and "ntxw = tt div int n" and "r = tt mod int n"
  shows "if ntxw = 0 \<and> 1 \<le> r then split_count 1 0 0 n tt else split_count ntxw r 0 n tt"
proof (cases "tt < int n")
  case True
  then show ?thesis using assms by (simp add: split_count_def)
next
  case False
  then have "1 \<le> ntxw" using assms by (simp add: int_one_le_iff_zero_less pos_imp_zdiv_pos_iff)
  moreover have "tt = int n * ntxw + r" "0 \<le> r" "r < int n" using assms by simp_all
  ultimately show ?thesis by (auto simp: split_count_def)
qed

text \<open>Workers for whom there is no task keep what they had.\<close>

lemma split_tasks_untouched:
  assumes "1 \<le> ntxw" and "int i + tk \<le> int j" and "split_tasks step c stop ntxw r k i tk a d = (left, d')"
  shows "d' ! j = d ! j"
  using assms(2,3)
proof (induction k arbitrary: i tk a d)
  case (Suc k)
  show ?case
  proof (cases "0 < tk")
    case True
    define t where "t = ntxw + (if 1 < r \<and> int i < r then 1 else 0)"
    have "1 \<le> t" using assms(1) by (simp add: t_def)
    then have "int (Suc i) + (tk - t) \<le> int j" "j \<noteq> i" using Suc.prems(1) True by auto
    then show ?thesis using Suc.IH [of "Suc i" "tk - t"] Suc.prems(2) True by (auto simp: Let_def t_def [symmetric])
  next
    case False
    then show ?thesis using Suc.prems(2) by simp
  qed
qed simp

text \<open>What \<open>setloop\<close> relies on after the ranges are divided.\<close>

definition divided :: "int multiset \<Rightarrow> nat \<Rightarrow> scheduler \<Rightarrow> bool" where
  "divided tot n s \<longleftrightarrow> sched_ready tot s \<and> sd_nw s = n \<and> length (tasks_of s) = n \<and> 1 \<le> totaltasks s \<and> jump s = 0 \<and> max_id s = - 1 \<and>
     n \<le> taskv_size s \<and> (\<forall>i<n. totaltasks s \<le> int i \<longrightarrow> used_up (tasks_of s ! i))"

lemma init_data_ready:
  assumes "0 < sd_step s" and "0 < sd_chunk s" and "0 < sd_nw s" and "start < stop" and "\<forall>x\<in>set (tasks_of s). used_up x"
  shows "\<exists>s'. init_data start stop s = Inr s' \<and> divided (mset (loop_indexes (sd_step s) start stop)) (sd_nw s) s'"
proof -
  let ?step = "sd_step s" and ?c = "sd_chunk s" and ?n = "sd_nw s"
  let ?tot = "mset (loop_indexes ?step start stop)" and ?d = "resize_data ?n (tasks_of s)"
  define tt where "tt = ceil_div (ceil_div (stop - start) ?step) ?c"
  define ntxw where "ntxw = (if tt div int ?n = 0 \<and> 1 \<le> tt mod int ?n then 1 else tt div int ?n)"
  define r where "r = (if tt div int ?n = 0 \<and> 1 \<le> tt mod int ?n then 0 else tt mod int ?n)"
  have tt: "tt = tasks_left ?step ?c start stop"
    using loop_count_ceil [OF assms(1,4)] by (simp add: tt_def tasks_left_def)
  then have pos: "0 < tt" using tasks_left_pos [OF assms(1,2)] assms(4) by simp
  have count: "split_count ntxw r 0 ?n tt"
    using split_count_start [OF assms(3) pos refl refl] by (simp add: ntxw_def r_def split: if_splits)
  then have nt: "1 \<le> ntxw" by (simp add: split_count_def)
  note dr = resize_data(2) [OF assms(5), of ?n]
  have fits: "\<forall>x\<in>set ?d. task_fits ?step ?c x" using dr by (auto intro: task_fits_drained)
  obtain left d where run: "split_tasks ?step ?c stop ntxw r ?n 0 tt start ?d = (left, d)" "length d = ?n"
      "split_left ?step ?c stop ntxw r ?tot left d"
    using split_tasks_ok [OF assms(1,2), of ?d 0 ?n ntxw r tt start stop ?tot] assms(3) resize_data(1) [of ?n "tasks_of s"]
      count tt fits dr owed_drained [OF assms(1) dr] by (auto simp: all_set_conv_all_nth)
  have idle: "used_up (d ! j)" if "tt \<le> int j" "j < ?n" for j
    using split_tasks_untouched [OF nt, of 0 tt j, OF _ run(1)] that dr resize_data(1) [of ?n "tasks_of s"] by (simp add: all_set_conv_all_nth)
  have ne: "d \<noteq> []" using run(2) assms(3) by auto
  have pair: "(if tt div int ?n = 0 \<and> 1 \<le> tt mod int ?n then (1, 0) else (tt div int ?n, tt mod int ?n)) = (ntxw, r)"
    by (simp add: ntxw_def r_def)
  define s1 where "s1 = s\<lparr>static_scheduling := False, taskv_size := 8 * ?n, skip1 := False, jump := 0, max_id := - 1\<rparr>"
  have init: "init_data start stop s = (if left = 0 then Inr (s1\<lparr>tasks_of := d, totaltasks := tt\<rparr>)
      else if left \<noteq> 1 then Inl AssertFailed
      else if 1 < ntxw then
        Inr (s1\<lparr>tasks_of := d[?n - 1 := (d ! (?n - 1))\<lparr>ntask := ntask (d ! (?n - 1)) + left, task_end := stop\<rparr>], totaltasks := tt\<rparr>)
      else Inr (s1\<lparr>tasks_of := d[?n - 1 := (d ! (?n - 1))\<lparr>task_end := stop\<rparr>], totaltasks := tt - 1, sd_chunk := ?c * 2\<rparr>))"
    unfolding init_data_def Let_def tt_def [symmetric] pair prod.case s1_def [symmetric]
    by (simp add: s1_def run(1))
  consider (all) "left = 0" "owed ?step d = ?tot"
    | (more) a where "left = 1" "r = 1" "owed ?step d + mset (loop_indexes ?step a stop) = ?tot"
        "loop_indexes ?step (task_start (last d)) stop = loop_indexes ?step (task_start (last d)) (task_end (last d)) @ loop_indexes ?step a stop"
        "ntask (last d) = ntxw" "tasks_left ?step ?c (task_start (last d)) stop = ntxw + 1"
    using run(3) by (auto simp: split_left_def)
  then show ?thesis
  proof cases
    case all
    then show ?thesis
      using run pos idle assms by (auto simp: init s1_def divided_def sched_ready_def split_left_def)
  next
    case more
    have last: "d ! (?n - Suc 0) = last d" using run(2) ne by (simp add: last_conv_nth)
    have tot: "owed ?step (d[?n - Suc 0 := w]) = ?tot" if "task_start w = task_start (last d)" "task_end w = stop" for w
      using owed_last [OF ne, of ?step w] more(3,4) that run(2) by (simp add: range_of_def ac_simps)
    have dfits: "\<forall>x\<in>set d. task_fits ?step ?c x" using run(3) by (simp add: split_left_def)
    show ?thesis
    proof (cases "1 < ntxw")
      case True
      have "tt = int ?n * ntxw + 1" using count more(2) by (simp add: split_count_def)
      then have "int ?n < tt" using True assms(3) by (smt (verit) mult_less_cancel_left2 of_nat_0_less_iff)
      moreover have "task_fits ?step ?c ((last d)\<lparr>ntask := ntxw + 1, task_end := stop\<rparr>)" using more(6) by (simp add: task_fits_def)
      ultimately show ?thesis
        using True run(1,2) more(1,5) fits_last [OF dfits] tot last pos assms
        by (auto simp: init s1_def divided_def sched_ready_def)
    next
      case False
      then have one: "ntxw = 1" using nt by simp
      then have "tt = int ?n + 1" using count more(2) by (simp add: split_count_def)
      moreover have "\<forall>x\<in>set d. task_fits ?step (?c * 2) x" using dfits task_fits_wider [OF assms(2)] by blast
      moreover have "task_fits ?step (?c * 2) ((last d)\<lparr>task_end := stop\<rparr>)"
        using more(5,6) one ceil_double [OF assms(2)] by (simp add: task_fits_def tasks_left_def)
      ultimately show ?thesis
        using one run(1,2) more(1) fits_last [of d ?step "?c * 2"] tot last assms
        by (auto simp: init s1_def divided_def sched_ready_def)
    qed
  qed
qed

lemma tasks_left_single: "tasks_left step 1 a b = int (loop_count step a b)"
  by (simp add: tasks_left_def ceil_div_def)

lemma split_static_ok:
  assumes "0 < step" and "0 \<le> chunk" and "0 \<le> r" and "c = (if r \<noteq> 0 then chunk + 1 else chunk)" and "0 < c"
    and "i + k = length d" and "r \<le> int i + int k" and "int (loop_count step a stop) = int k * chunk + max 0 (r - int i)"
    and "owed step d + mset (loop_indexes step a stop) = tot" and "\<forall>x\<in>set d. task_fits step c x"
    and "\<forall>j<length d. i \<le> j \<longrightarrow> used_up (d ! j)"
  shows "let d' = split_static step chunk stop r k i a d in length d' = length d \<and> owed step d' = tot \<and> (\<forall>x\<in>set d'. task_fits step c x)"
  using assms(6-)
proof (induction k arbitrary: i a d)
  case Z: 0
  then have "loop_count step a stop = 0" by (auto simp: max_def split: if_splits)
  then have "loop_indexes step a stop = []" using length_loop [of step a stop] by (simp del: length_loop)
  then show ?case using Z by (simp add: Let_def)
next
  case (Suc k)
  define n where "n = chunk + (if int i < r then 1 else 0)"
  define e where "e = min (a + ((n * 1 - 1) * step + 1)) stop"
  define x where "x = \<lparr>ntask = 1, task_start = a, task_end = e\<rparr>"
  have i: "i < length d" using Suc.prems(1) by simp
  have n: "0 \<le> n" "n \<le> c" using assms(2,4) by (auto simp: n_def assms(4) intro: order_trans)
  have kc: "0 \<le> int k * chunk" using assms(2) by simp
  have left: "int (loop_count step a stop) = n + (int k * chunk + max 0 (r - int (Suc i)))"
    using Suc.prems(3) by (auto simp: n_def algebra_simps max_def)
  have part: "loop_indexes step a stop = loop_indexes step a e @ loop_indexes step (e - 1 + step) stop \<and>
      int (loop_count step a e) \<le> n \<and> int (loop_count step (e - 1 + step) stop) = int k * chunk + max 0 (r - int (Suc i))"
  proof (cases "1 \<le> n")
    case True
    have "n \<le> tasks_left step 1 a stop" using left kc by (simp add: tasks_left_single)
    from chunks_cut [OF assms(1) zero_less_one True this e_def] left show ?thesis by (simp add: tasks_left_single)
  next
    case False
    then have z: "n = 0" "chunk = 0" "r \<le> int i" using n(1) assms(2) by (auto simp: n_def split: if_splits)
    then have "stop \<le> a" using left loop_count_zero [OF assms(1), of a stop] by simp
    moreover have "stop \<le> e - 1 + step" "e \<le> stop" using z(1) calculation assms(1) by (auto simp: e_def min_def)
    ultimately show ?thesis using z assms(1) by (simp add: loop_done loop_count_done)
  qed
  have "owed step (d[i := x]) + mset (loop_indexes step (e - 1 + step) stop) = tot"
    using owed_set [OF assms(1) i, of x] Suc.prems(4,6) i part by (simp add: range_of_def x_def add.assoc)
  moreover have "tasks_left step c a e \<le> ceil_div (1 * c) c"
    unfolding tasks_left_def using part n(2) by (intro ceil_div_mono [OF assms(5)]) simp
  then have "task_fits step c x" by (simp only: ceil_div_mult [OF assms(5)]) (simp add: task_fits_def x_def)
  then have "\<forall>y\<in>set (d[i := x]). task_fits step c y" using Suc.prems(5) fits_last by blast
  ultimately have "let d' = split_static step chunk stop r k (Suc i) (e - 1 + step) (d[i := x]) in
      length d' = length (d[i := x]) \<and> owed step d' = tot \<and> (\<forall>x\<in>set d'. task_fits step c x)"
    using Suc.prems(1,2,6) part by (intro Suc.IH) simp_all
  moreover have "(if a + (chunk - 1) * step + 1 + (if int i < r then step else 0) < stop
      then a + (chunk - 1) * step + 1 + (if int i < r then step else 0) else stop) = e"
    by (simp add: e_def n_def min_def algebra_simps)
  ultimately show ?case by (simp add: Let_def x_def)
qed

lemma init_data_static_ready:
  assumes "0 < sd_step s" and "sd_chunk s = 0" and "0 < sd_nw s" and "start < stop" and "\<forall>x\<in>set (tasks_of s). used_up x"
  shows "\<exists>s'. init_data_static start stop s = Inr s' \<and> divided (mset (loop_indexes (sd_step s) start stop)) (sd_nw s) s'"
proof -
  let ?step = "sd_step s" and ?n = "sd_nw s"
  let ?tot = "mset (loop_indexes ?step start stop)" and ?d = "resize_data ?n (tasks_of s)"
  define m where "m = ceil_div (stop - start) ?step"
  define chunk where "chunk = m div int ?n"
  define r where "r = m mod int ?n"
  define c where "c = (if r \<noteq> 0 then chunk + 1 else chunk)"
  have m: "int (loop_count ?step start stop) = m" "0 < m"
    using loop_count_ceil [OF assms(1,4)] ceil_div_pos [OF assms(1), of "stop - start"] assms(4) by (simp_all add: m_def)
  have cr: "m = int ?n * chunk + r" "0 \<le> r" "r < int ?n" "0 \<le> chunk"
    using assms(3) m(2) by (simp_all add: chunk_def r_def pos_imp_zdiv_nonneg_iff)
  have "chunk \<noteq> 0" if "r = 0" using that cr(1) m(2) by auto
  then have c: "0 < c" using cr(4) by (simp add: c_def less_le)
  note dr = resize_data(2) [OF assms(5), of ?n]
  have "let d' = split_static ?step chunk stop r ?n 0 start ?d in length d' = length ?d \<and> owed ?step d' = ?tot \<and> (\<forall>x\<in>set d'. task_fits ?step c x)"
  proof (rule split_static_ok [OF assms(1) cr(4) cr(2) c_def c])
    show "0 + ?n = length ?d" by (simp add: resize_data(1))
    show "r \<le> int 0 + int ?n" using cr(3) by simp
    show "int (loop_count ?step start stop) = int ?n * chunk + max 0 (r - int 0)" using m(1) cr(1,2) by simp
    show "owed ?step ?d + ?tot = ?tot" using owed_drained [OF assms(1) dr] by simp
    show "\<forall>x\<in>set ?d. task_fits ?step c x" using dr by (simp add: task_fits_drained)
    show "\<forall>j<length ?d. 0 \<le> j \<longrightarrow> used_up (?d ! j)" using dr by simp
  qed
  then have d: "length (split_static ?step chunk stop r ?n 0 start ?d) = ?n" "owed ?step (split_static ?step chunk stop r ?n 0 start ?d) = ?tot"
      "\<forall>x\<in>set (split_static ?step chunk stop r ?n 0 start ?d). task_fits ?step c x"
    using resize_data(1) [of ?n "tasks_of s"] by (simp_all add: Let_def)
  have init: "init_data_static start stop s = Inr (s\<lparr>tasks_of := split_static ?step chunk stop r ?n 0 start ?d,
      static_scheduling := True, taskv_size := ?n, skip1 := False, jump := 0, max_id := - 1, totaltasks := int ?n, sd_chunk := c\<rparr>)"
    by (simp add: init_data_static_def Let_def m_def [symmetric] chunk_def [symmetric] r_def [symmetric] c_def assms(2) m(2) [THEN less_imp_le, THEN leD])
  show ?thesis unfolding init using d assms c by (simp add: divided_def sched_ready_def)
qed

lemma setloop_ready:
  assumes "0 < step" and "0 \<le> chunk" and "0 < nw" and "start < stop" and "\<forall>x\<in>set (tasks_of s). used_up x"
  shows "\<exists>s'. sched_setloop start stop step chunk nw s = Inr s' \<and> sched_ready (mset (loop_indexes step start stop)) s' \<and>
    0 < sd_nw s' \<and> sd_nw s' \<le> nw \<and> sd_nw s' \<le> taskv_size s' \<and> jump s' = 0 \<and> max_id s' = - 1"
proof -
  let ?s = "s\<lparr>sd_start := start, sd_stop := stop, sd_step := step, sd_chunk := chunk, sd_nw := nw\<rparr>"
  have "\<exists>s'. (if chunk \<le> 0 then init_data_static start stop ?s else init_data start stop ?s) = Inr s' \<and>
      divided (mset (loop_indexes step start stop)) nw s'"
    using init_data_ready [of ?s start stop] init_data_static_ready [of ?s start stop] assms by auto
  then obtain u where u: "(if chunk \<le> 0 then init_data_static start stop ?s else init_data start stop ?s) = Inr u"
      "divided (mset (loop_indexes step start stop)) nw u" by blast
  let ?u = "if totaltasks u \<le> int (sd_nw u) \<or> totaltasks u = 1 then u\<lparr>sd_nw := nat (totaltasks u)\<rparr> else u"
  have "sched_setloop start stop step chunk nw s = Inr ?u"
    using u by (simp add: sched_setloop_def Let_def divided_def del: if_split)
  moreover have "sched_ready (mset (loop_indexes step start stop)) ?u"
    using u(2) assms(3) by (auto simp: divided_def sched_ready_def)
  ultimately show ?thesis using u(2) assms(3) by (auto simp: divided_def)
qed

subsection \<open>Every loop can be finished\<close>

definition can_finish :: "nat \<Rightarrow> parfor \<Rightarrow> bool" where
  "can_finish w s \<longleftrightarrow> (\<exists>t. parfor_step\<^sup>*\<^sup>* s t \<and> pf_pc t w = Finished \<and> (\<forall>v. v \<noteq> w \<longrightarrow> pf_pc t v = pf_pc s v))"

lemma can_finish_done: "pf_pc s w = Finished \<Longrightarrow> can_finish w s"
  unfolding can_finish_def by (intro exI [of _ s]) simp

lemma can_finish_step:
  assumes "parfor_step s u" and "\<And>v. v \<noteq> w \<Longrightarrow> pf_pc u v = pf_pc s v" and "can_finish w u"
  shows "can_finish w s"
  using assms unfolding can_finish_def by (metis converse_rtranclp_into_rtranclp)

text \<open>A worker that runs alone, in a state whose indexes into the task table are valid.\<close>

definition alone_ok :: "nat \<Rightarrow> parfor \<Rightarrow> bool" where
  "alone_ok w s \<longleftrightarrow> w < sd_nw (pf_sched s) \<and> w < length (tasks_of (pf_sched s)) \<and>
     max_id (pf_sched s) < int (length (tasks_of (pf_sched s))) \<and> pc_bound (length (tasks_of (pf_sched s))) (pf_pc s w)"

definition tasks_sum :: "parfor \<Rightarrow> nat" where
  "tasks_sum s = (\<Sum>i<length (tasks_of (pf_sched s)). nat (ntask (task_of s i)))"

lemma tasks_sum_goto: "tasks_sum (goto_pc w c s) = tasks_sum s"
  by (simp add: tasks_sum_def)

lemma tasks_sum_less:
  assumes "i < length (tasks_of (pf_sched s))" and "0 < ntask (task_of s i)" and "nat (ntask d) < nat (ntask (task_of s i))"
  shows "tasks_sum (set_task i d s) < tasks_sum s"
proof -
  let ?ds = "tasks_of (pf_sched s)"
  have "(\<Sum>j<length ?ds. nat (ntask (?ds[i := d] ! j))) + nat (ntask (?ds ! i)) = (\<Sum>j<length ?ds. nat (ntask (?ds ! j))) + nat (ntask (?ds[i := d] ! i))"
    using assms(1) by (intro sum_change) simp_all
  then show ?thesis using assms by (simp add: tasks_sum_def set_task_def)
qed

text \<open>From \<open>Check\<close> on a task that is there, the worker takes it.\<close>

lemma take_task:
  assumes ok: "alone_ok w s" and pc: "pf_pc s w = Check i" and n: "0 < ntask (task_of s i)"
    and less: "\<And>u. alone_ok w u \<Longrightarrow> tasks_sum u < tasks_sum s \<Longrightarrow> (\<exists>a b. pf_pc u w = Exec a b) \<or> pf_pc u w = Steal \<Longrightarrow> can_finish w u"
  shows "can_finish w s"
proof -
  let ?d = "task_of s i" let ?a = "task_start ?d"
  let ?s1 = "goto_pc w (Load i) s"
  let ?s2 = "goto_pc w (Cas i ?a) ?s1"
  let ?e = "task_limit ?s2 i ?a"
  let ?d3 = "?d\<lparr>task_start := (?e - 1) + sd_step (pf_sched s)\<rparr>"
  let ?s3 = "goto_pc w (Dec i ?a ?e) (set_task i ((task_of ?s2 i)\<lparr>task_start := (?e - 1) + sd_step (pf_sched ?s2)\<rparr>) ?s2)"
  let ?s4 = "goto_pc w (if ?a < ?e then Exec ?a ?e else no_own_task ?s3) (set_task i ((task_of ?s3 i)\<lparr>ntask := ntask (task_of ?s3 i) - 1\<rparr>) ?s3)"
  have w: "w < sd_nw (pf_sched s)" and i: "i < length (tasks_of (pf_sched s))" using ok pc by (auto simp: alone_ok_def pc_bound_def)
  have 1: "parfor_step s ?s1" by (rule s_some [OF w pc n])
  have 2: "parfor_step ?s1 ?s2" using s_load [of w ?s1 i] w by simp
  have 3: "parfor_step ?s2 ?s3" by (rule s_cas) (simp_all add: w)
  have 4: "parfor_step ?s3 ?s4" by (rule s_dec) (simp_all add: w set_task_def)
  have "tasks_sum ?s4 = tasks_sum (set_task i (?d3\<lparr>ntask := ntask ?d - 1\<rparr>) s)"
    using i by (simp add: tasks_sum_def set_task_def)
  also have "\<dots> < tasks_sum s" using n i by (intro tasks_sum_less) simp_all
  finally have "tasks_sum ?s4 < tasks_sum s" .
  moreover have "alone_ok w ?s4" using ok i by (auto simp: alone_ok_def set_task_def pc_bound_def no_own_task_def)
  ultimately have "can_finish w ?s4"
    using less [of ?s4] can_finish_done [of ?s4 w] by (auto simp: no_own_task_def split: if_splits)
  then have "can_finish w ?s3" by (rule can_finish_step [OF 4, rotated]) (simp add: set_task_def)
  then have "can_finish w ?s2" by (rule can_finish_step [OF 3, rotated]) (simp add: set_task_def)
  then have "can_finish w ?s1" by (rule can_finish_step [OF 2, rotated]) simp
  then show ?thesis by (rule can_finish_step [OF 1, rotated]) simp
qed

text \<open>The four states in which no access to a task is open.\<close>

lemma finish_clean:
  assumes "alone_ok w s"
  shows "(\<forall>a b. pf_pc s w = Exec a b \<longrightarrow> can_finish w s) \<and> (pf_pc s w = Steal \<longrightarrow> can_finish w s) \<and>
    (\<forall>i. pf_pc s w = Check i \<longrightarrow> can_finish w s) \<and> (\<forall>m. pf_pc s w = Read m \<longrightarrow> can_finish w s)"
  using assms
proof (induction "tasks_sum s" arbitrary: s rule: less_induct)
  case less
  have w: "v < sd_nw (pf_sched u)" if "alone_ok v u" for v u using that by (simp add: alone_ok_def)
  have take: "can_finish w u" if "alone_ok w u" "pf_pc u w = Check i" "0 < ntask (task_of u i)" "tasks_sum u = tasks_sum s" for u i
    by (rule take_task [OF that(1-3)]) (use less.hyps that(4) in auto)
  have read: "can_finish w u" if u: "alone_ok w u" "pf_pc u w = Read m" "tasks_sum u = tasks_sum s" for u m
  proof (cases "0 < ntask (task_of u m)")
    case True
    let ?v = "goto_pc w (Check m) (u\<lparr>pf_sched := (pf_sched u)\<lparr>max_id := int m\<rparr>\<rparr>)"
    have "can_finish w ?v"
      using u True by (intro take [of ?v m]) (auto simp: alone_ok_def pc_bound_def tasks_sum_def)
    then show ?thesis by (rule can_finish_step [OF s_read [OF w [OF u(1)] u(2) True], rotated]) simp
  next
    case False
    then show ?thesis
      by (intro can_finish_step [OF s_read_none [OF w [OF u(1)] u(2)]] can_finish_done) auto
  qed
  have steal: "can_finish w u" if u: "alone_ok w u" "pf_pc u w = Steal" "tasks_sum u = tasks_sum s" for u
  proof -
    let ?m = "nat (max_id (pf_sched u))" let ?v = "goto_pc w (Read ?m) u"
    have m: "?m < length (tasks_of (pf_sched u))" using u(1) by (auto simp: alone_ok_def)
    then have "can_finish w ?v"
      using u by (intro read [of ?v ?m]) (auto simp: alone_ok_def pc_bound_def tasks_sum_goto)
    then show ?thesis by (rule can_finish_step [OF s_steal [OF w [OF u(1)] u(2) m], rotated 2]) auto
  qed
  have check: "can_finish w u" if u: "alone_ok w u" "pf_pc u w = Check i" "tasks_sum u = tasks_sum s" for u i
  proof (cases "0 < ntask (task_of u i)")
    case True
    then show ?thesis using take u by blast
  next
    case False
    let ?v = "goto_pc w (no_own_task u) u"
    have "can_finish w ?v"
    proof (cases "static_scheduling (pf_sched u)")
      case True
      then show ?thesis by (intro can_finish_done) (simp add: no_own_task_def)
    next
      case False
      then show ?thesis using u
        by (intro steal) (auto simp: alone_ok_def pc_bound_def no_own_task_def tasks_sum_goto)
    qed
    then show ?thesis by (rule can_finish_step [OF s_none [OF w [OF u(1)] u(2)], rotated 2]) (use False in auto)
  qed
  have "can_finish w s" if e: "pf_pc s w = Exec a b" for a b
  proof -
    let ?v = "goto_pc w (Check w) (s\<lparr>executed := executed s @ loop_indexes (sd_step (pf_sched s)) a b\<rparr>)"
    have "can_finish w ?v"
      using less.prems by (intro check [of ?v w]) (auto simp: alone_ok_def pc_bound_def tasks_sum_def)
    then show ?thesis by (rule can_finish_step [OF s_exec [OF w [OF less.prems] e], rotated]) simp
  qed
  then show ?case using read steal check less.prems by blast
qed

lemma finish_alone:
  assumes ok: "alone_ok w s"
  shows "can_finish w s"
proof -
  have w: "w < sd_nw (pf_sched s)" using ok by (simp add: alone_ok_def)
  have clean: "can_finish w u" if "alone_ok w u" "(\<exists>a b. pf_pc u w = Exec a b) \<or> pf_pc u w = Steal \<or> (\<exists>i. pf_pc u w = Check i)" for u
    using finish_clean [OF that(1)] that(2) by blast
  have cas: "can_finish w u" if u: "alone_ok w u" "pf_pc u w = Cas i a" for u i a
  proof -
    have "can_finish w (goto_pc w (Check i) u)" using u by (intro clean) (auto simp: alone_ok_def pc_bound_def)
    then show ?thesis by (rule can_finish_step [OF s_cas_fail [OF _ u(2)], rotated 2]) (use u(1) in \<open>auto simp: alone_ok_def\<close>)
  qed
  show ?thesis
  proof (cases "pf_pc s w")
    case (Load i)
    have "can_finish w (goto_pc w (Cas i (task_start (task_of s i))) s)"
      using ok Load by (intro cas [of _ i]) (auto simp: alone_ok_def pc_bound_def)
    then show ?thesis by (rule can_finish_step [OF s_load [OF w Load], rotated]) simp
  next
    case (Cas i a)
    then show ?thesis using cas ok by blast
  next
    case (Dec i a e)
    let ?u = "goto_pc w (if a < e then Exec a e else no_own_task s) (set_task i ((task_of s i)\<lparr>ntask := ntask (task_of s i) - 1\<rparr>) s)"
    have "alone_ok w ?u" using ok Dec by (auto simp: alone_ok_def pc_bound_def set_task_def no_own_task_def)
    then have "can_finish w ?u" using clean [of ?u] can_finish_done [of ?u w] by (auto simp: no_own_task_def split: if_splits)
    then show ?thesis by (rule can_finish_step [OF s_dec [OF w Dec], rotated]) (simp add: set_task_def)
  qed (use finish_clean [OF ok] can_finish_done in blast)+
qed

text \<open>The hint for the worker to steal from stays an index of the task table.\<close>

lemma parfor_step_max: "parfor_step s t \<Longrightarrow> pf_inv tot s \<Longrightarrow> max_id (pf_sched s) < int (length (tasks_of (pf_sched s))) \<Longrightarrow>
    max_id (pf_sched t) < int (length (tasks_of (pf_sched t)))"
proof (induction rule: parfor_step.induct)
  case (s_read w s m)
  then show ?case using pf_inv_parts(7) [OF s_read.prems(1), of w] by (simp add: pc_bound_def)
qed (simp_all add: set_task_def)

lemma parfor_steps_max: "parfor_step\<^sup>*\<^sup>* s t \<Longrightarrow> pf_inv tot s \<Longrightarrow> max_id (pf_sched s) < int (length (tasks_of (pf_sched s))) \<Longrightarrow>
    max_id (pf_sched t) < int (length (tasks_of (pf_sched t)))"
  by (induction rule: rtranclp_induct) (auto intro: parfor_step_max parfor_steps_inv)

lemma finish_all:
  assumes "pf_inv tot s" and "max_id (pf_sched s) < int (length (tasks_of (pf_sched s)))" and "k \<le> sd_nw (pf_sched s)"
  shows "\<exists>t. parfor_step\<^sup>*\<^sup>* s t \<and> (\<forall>w<k. pf_pc t w = Finished)"
  using assms(3)
proof (induction k)
  case (Suc k)
  then obtain t where t: "parfor_step\<^sup>*\<^sup>* s t" "\<forall>w<k. pf_pc t w = Finished" by auto
  have inv: "pf_inv tot t" by (rule parfor_steps_inv [OF t(1) assms(1)])
  have "alone_ok k t"
    using Suc.prems parfor_steps_nw [OF t(1)] pf_inv_parts(3) [OF inv] pf_inv_parts(7) [OF inv, of k]
      parfor_steps_max [OF t(1) assms(1,2)] by (simp add: alone_ok_def)
  from finish_alone [OF this] obtain u where "parfor_step\<^sup>*\<^sup>* t u" "pf_pc u k = Finished" "\<forall>v. v \<noteq> k \<longrightarrow> pf_pc u v = pf_pc t v"
    unfolding can_finish_def by blast
  then show ?case using t by (intro exI [of _ u]) (auto simp: less_Suc_eq)
qed auto

subsection \<open>Every index once\<close>

lemma parfor_setup:
  assumes "0 < step" and "0 \<le> chunk" and "0 < nw" and "start < stop" and "\<forall>d\<in>set (tasks_of s). used_up d"
  shows "\<exists>s1 sends s2. sched_setloop start stop step chunk nw s = Inr s1 \<and> sendTask True s1 = Inr (sends, s2) \<and>
    pf_inv (mset (loop_indexes step start stop)) (parfor_start sends s2) \<and> max_id s2 = - 1"
proof -
  obtain s1 where s1: "sched_setloop start stop step chunk nw s = Inr s1" "sched_ready (mset (loop_indexes step start stop)) s1"
      "0 < sd_nw s1" "sd_nw s1 \<le> taskv_size s1" "jump s1 = 0" "max_id s1 = - 1"
    using setloop_ready [OF assms] by blast
  then show ?thesis using sendTask_ok [OF s1(2-5)] by fastforce
qed

subsection \<open>Static scheduling with a grain\<close>

text \<open>
  The body of \<open>parallel_for_static\<close> with a grain: from its first index on, a worker takes the
  blocks of \<open>g\<close> iterations that are \<open>nw\<close> blocks apart. With one worker the body is called on the whole
  range. The workers do not interact; their indexes are listed one worker after the other.
\<close>

definition static_indexes :: "int \<Rightarrow> int \<Rightarrow> nat \<Rightarrow> int \<Rightarrow> int \<Rightarrow> int list" where
  "static_indexes chunk step nw a b =
     (let jump0 = int nw * (- chunk * step); jump1 = - chunk * step in
      concat (map (\<lambda>x. loop_indexes step x (min b (x + jump1))) (loop_indexes jump0 a b)))"

definition parfor_static_run :: "int \<Rightarrow> int \<Rightarrow> int \<Rightarrow> int \<Rightarrow> nat \<Rightarrow> scheduler \<Rightarrow> err + int list \<times> scheduler" where
  "parfor_static_run start stop step chunk nw s =
     (if 0 < chunk then Inl AssertFailed
      else case sched_setloop start stop step chunk nw s of Inl e \<Rightarrow> Inl e
      | Inr s \<Rightarrow>
          if 1 < sd_nw s then
            (case sendTask True s of Inl e \<Rightarrow> Inl e
             | Inr (sends, s') \<Rightarrow> Inr (concat (map (\<lambda>(w, a, b). static_indexes chunk step (sd_nw s) a b) sends), s'))
          else Inr (static_indexes chunk step (sd_nw s) (sd_start s) (sd_stop s), s))"

lemma loop_one: "loop_indexes 1 a b = [a..b - 1]"
proof (induction "nat (b - a)" arbitrary: a rule: less_induct)
  case less
  show ?case
  proof (cases "a < b")
    case True
    then show ?thesis using less [of "a + 1"] loop_more [of 1 a b] by (simp add: upto_rec1)
  next
    case False
    then show ?thesis by (simp add: loop_done)
  qed
qed

lemma loop_one_split: "a \<le> c \<Longrightarrow> loop_indexes 1 a b = loop_indexes 1 a (min b c) @ loop_indexes 1 c b"
proof (cases "c \<le> b")
  case True
  assume "a \<le> c"
  then show ?thesis using True upto_split1 [of a c "b - 1"] by (cases "c = b") (simp_all add: loop_one min_def)
next
  case False
  then show ?thesis by (simp add: loop_one min_def)
qed

text \<open>One round of blocks, one for each worker.\<close>

lemma block_round:
  assumes "0 < g"
  shows "(\<Sum>i<n. mset (loop_indexes 1 (a + int i * g) (min b (a + int i * g + g)))) = mset (loop_indexes 1 a (min b (a + int n * g)))"
proof (induction n)
  case 0
  then show ?case by (simp add: loop_done)
next
  case (Suc n)
  have "mset (loop_indexes 1 a (min b (a + int (Suc n) * g))) =
      mset (loop_indexes 1 a (min (min b (a + int (Suc n) * g)) (a + int n * g))) + mset (loop_indexes 1 (a + int n * g) (min b (a + int (Suc n) * g)))"
    using loop_one_split [of a "a + int n * g" "min b (a + int (Suc n) * g)"] assms by simp
  moreover have "min (min b (a + int (Suc n) * g)) (a + int n * g) = min b (a + int n * g)"
    using assms by (auto simp: min_def algebra_simps)
  moreover have "a + int (Suc n) * g = a + int n * g + g" by (simp add: algebra_simps)
  ultimately show ?case using Suc by (simp add: add.assoc)
qed

lemma static_indexes_more:
  assumes "0 < g" and "0 < n" and "a < b"
  shows "static_indexes (- g) 1 n a b = loop_indexes 1 a (min b (a + g)) @ static_indexes (- g) 1 n (a + int n * g) b"
  using assms loop_more [of "int n * g" a b] by (simp add: static_indexes_def)

lemma static_indexes_done: "0 < g \<Longrightarrow> 0 < n \<Longrightarrow> b \<le> a \<Longrightarrow> static_indexes (- g) 1 n a b = []"
  using loop_done [of "int n * g" b a] by (simp add: static_indexes_def)

lemma static_indexes_unfold:
  assumes "0 < g" and "0 < n"
  shows "static_indexes (- g) 1 n a b = loop_indexes 1 a (min b (a + g)) @ static_indexes (- g) 1 n (a + int n * g) b"
proof (cases "a < b")
  case False
  moreover have "0 \<le> int n * g" using assms by simp
  ultimately have "b \<le> a + int n * g" by linarith
  then show ?thesis using False assms by (simp add: static_indexes_done loop_done)
qed (rule static_indexes_more [OF assms])

lemma static_all:
  assumes g: "0 < g" and n: "0 < n"
  shows "(\<Sum>i<n. mset (static_indexes (- g) 1 n (a + int i * g) b)) = mset (loop_indexes 1 a b)"
proof (induction "nat (b - a)" arbitrary: a rule: less_induct)
  case less
  show ?case
  proof (cases "a < b")
    case True
    have ng: "0 < int n * g" using g n by simp
    have "(\<Sum>i<n. mset (static_indexes (- g) 1 n (a + int i * g) b)) =
        (\<Sum>i<n. mset (loop_indexes 1 (a + int i * g) (min b (a + int i * g + g))) + mset (static_indexes (- g) 1 n (a + int n * g + int i * g) b))"
      by (subst static_indexes_unfold [OF g n]) (simp add: algebra_simps)
    also have "\<dots> = mset (loop_indexes 1 a (min b (a + int n * g))) + mset (loop_indexes 1 (a + int n * g) b)"
      using block_round [OF g, of a b n] less [of "a + int n * g"] True ng by (simp add: sum.distrib)
    also have "\<dots> = mset (loop_indexes 1 a b)"
      using arg_cong [OF loop_one_split [of a "a + int n * g" b], of mset] ng by simp
    finally show ?thesis .
  next
    case False
    have "b \<le> a + int i * g" for i :: nat
    proof -
      have "0 \<le> int i * g" using g by simp
      then show ?thesis using False by linarith
    qed
    then show ?thesis using False g n by (simp add: static_indexes_done loop_done)
  qed
qed

lemma send_round_all:
  assumes "wid + k \<le> length (tasks_of s)" and "\<And>i. wid \<le> i \<Longrightarrow> i < wid + k \<Longrightarrow> 0 < ntask (tasks_of s ! i)" and "wid + k + jump s \<le> taskv_size s"
  shows "\<exists>s'. send_round ec k wid s sends = Inr (sends @ map (\<lambda>i. (i, task_start (tasks_of s ! i),
      min (task_start (tasks_of s ! i) + ec) (task_end (tasks_of s ! i)))) [wid..<wid + k], s') \<and> jump s' = jump s \<and> sd_nw s' = sd_nw s \<and> taskv_size s' = taskv_size s \<and> length (tasks_of s') = length (tasks_of s)"
  using assms
proof (induction k arbitrary: wid s sends)
  case (Suc k)
  let ?d = "tasks_of s ! wid"
  let ?e = "min (task_start ?d + ec) (task_end ?d)"
  let ?s = "s\<lparr>tasks_of := (tasks_of s)[wid := ?d\<lparr>ntask := ntask ?d - 1, task_start := (?e - 1) + sd_step s\<rparr>]\<rparr>"
  have "0 < ntask ?d" using Suc.prems(2) by simp
  then have "send_round ec (Suc k) wid s sends = send_round ec k (wid + 1) ?s (sends @ [(wid, task_start ?d, ?e)])"
    using Suc.prems(1,3) by (simp add: Let_def)
  moreover have "\<exists>s'. send_round ec k (Suc wid) ?s (sends @ [(wid, task_start ?d, ?e)]) =
      Inr ((sends @ [(wid, task_start ?d, ?e)]) @ map (\<lambda>i. (i, task_start (tasks_of ?s ! i),
        min (task_start (tasks_of ?s ! i) + ec) (task_end (tasks_of ?s ! i)))) [Suc wid..<Suc wid + k], s') \<and> jump s' = jump ?s \<and> sd_nw s' = sd_nw ?s \<and> taskv_size s' = taskv_size ?s \<and> length (tasks_of s') = length (tasks_of ?s)"
    using Suc.prems by (intro Suc.IH) simp_all
  moreover have "[wid..<wid + Suc k] = wid # [Suc wid..<Suc wid + k]" by (simp add: upt_conv_Cons)
  ultimately show ?case by (auto simp del: send_round.simps)
qed simp

lemma send_round_full:
  assumes "wid + k \<le> length (tasks_of s)" and "\<And>i. wid \<le> i \<Longrightarrow> i < wid + k \<Longrightarrow> 0 < ntask (tasks_of s ! i)"
    and "taskv_size s < wid + k + jump s" and "0 < k"
  shows "send_round ec k wid s sends = Inl BadAccess"
  using assms
proof (induction k arbitrary: wid s sends)
  case (Suc k)
  have d: "wid < length (tasks_of s)" "0 < ntask (tasks_of s ! wid)" using Suc.prems(1,2) by simp_all
  show ?case
  proof (cases "taskv_size s \<le> wid + jump s")
    case False
    let ?d = "tasks_of s ! wid"
    let ?s = "s\<lparr>tasks_of := (tasks_of s)[wid := ?d\<lparr>ntask := ntask ?d - 1,
      task_start := (min (task_start ?d + ec) (task_end ?d) - 1) + sd_step s\<rparr>]\<rparr>"
    have "send_round ec k (wid + 1) ?s ss = Inl BadAccess" for ss
      using Suc.prems False by (intro Suc.IH) auto
    then show ?thesis using False d by (simp add: Let_def)
  qed (use d in \<open>simp add: Let_def\<close>)
qed simp

text \<open>
  One round of tasks, one for each worker: it needs room in \<open>taskv\<close> behind the entries of the loops
  before, and the assertion bounds these by less than eight rounds.
\<close>

lemma sendTask_static:
  assumes "\<And>i. i < sd_nw s \<Longrightarrow> 0 < ntask (tasks_of s ! i)" and "sd_nw s \<le> length (tasks_of s)" and "0 < sd_nw s"
  shows "if jump s + sd_nw s \<le> taskv_size s \<and> jump s < 8 * sd_nw s
    then \<exists>s'. sendTask True s = Inr (map (\<lambda>i. (i, task_start (tasks_of s ! i),
        min (task_start (tasks_of s ! i) + ((sd_chunk s - 1) * sd_step s + 1)) (task_end (tasks_of s ! i)))) [0..<sd_nw s], s') \<and>
      jump s' = jump s + sd_nw s \<and> taskv_size s' = taskv_size s \<and> length (tasks_of s') = length (tasks_of s)
    else \<exists>e. sendTask True s = Inl e"
proof (cases "jump s + sd_nw s \<le> taskv_size s")
  case True
  obtain s' where s': "send_round ((sd_chunk s - 1) * sd_step s + 1) (sd_nw s) 0 s [] = Inr (map (\<lambda>i. (i, task_start (tasks_of s ! i),
      min (task_start (tasks_of s ! i) + ((sd_chunk s - 1) * sd_step s + 1)) (task_end (tasks_of s ! i)))) [0..<sd_nw s], s')"
      "jump s' = jump s" "taskv_size s' = taskv_size s" "length (tasks_of s') = length (tasks_of s)"
    using send_round_all [of 0 "sd_nw s" s "(sd_chunk s - 1) * sd_step s + 1" "[]"] assms True by auto
  have "(jump s + sd_nw s) div sd_nw s \<le> 8 \<longleftrightarrow> jump s < 8 * sd_nw s"
    using assms(3) less_mult_imp_div_less [of "jump s" 8 "sd_nw s"] div_less_iff_less_mult [of "sd_nw s" "jump s" 8]
    by (auto simp: div_add_self2)
  then show ?thesis using s' True by (simp add: sendTask_def Let_def)
next
  case False
  then have "send_round ((sd_chunk s - 1) * sd_step s + 1) (sd_nw s) 0 s [] = Inl BadAccess"
    using assms by (intro send_round_full) simp_all
  then show ?thesis using False by (simp add: sendTask_def Let_def)
qed

text \<open>The workers a loop occupies.\<close>

definition static_workers :: "nat \<Rightarrow> int \<Rightarrow> int \<Rightarrow> int \<Rightarrow> nat" where
  "static_workers nw start stop g = nat (min (int nw) (ceil_div (stop - start) g))"

lemma ceil_div_one: "ceil_div a 1 = a"
  by (simp add: ceil_div_def)

lemma static_grain_setloop:
  assumes "0 < g" and "start < stop" and "0 < nw" and "nw \<le> length (tasks_of s)"
  shows "\<exists>s'. sched_setloop start stop 1 (- g) nw s = Inr s' \<and> 0 < sd_nw s' \<and> sd_nw s' = static_workers nw start stop g \<and> sd_chunk s' = stop \<and> sd_step s' = 1 \<and>
    sd_start s' = start \<and> sd_stop s' = stop \<and> jump s' = jump s \<and> taskv_size s' = taskv_size s \<and> length (tasks_of s') = length (tasks_of s) \<and>
    (\<forall>i < sd_nw s'. tasks_of s' ! i = \<lparr>ntask = 1, task_start = start + int i * g, task_end = stop\<rparr>)"
proof -
  have m: "0 < ceil_div (ceil_div (stop - start) 1) g" using ceil_div_pos assms(1,2) by simp
  define n where "n = min (int nw) (ceil_div (ceil_div (stop - start) 1) g)"
  have n: "1 \<le> n" "n \<le> int nw" using m assms(3) by (auto simp: n_def)
  then have "nat n \<le> length (tasks_of s)" "\<not> int (length (tasks_of s)) < n" using assms(4) by auto
  moreover have "i < nat n \<longleftrightarrow> int i < n" for i by auto
  moreover have "init_data_static start stop u = Inr (u\<lparr>tasks_of := map (\<lambda>i. if int i < n
      then \<lparr>ntask = 1, task_start = start + int i * g, task_end = stop\<rparr> else tasks_of s ! i) [0..<length (tasks_of s)],
      static_scheduling := True, totaltasks := n, sd_chunk := stop\<rparr>)"
    if "sd_step u = 1" "sd_nw u = nw" "sd_chunk u = - g" "tasks_of u = tasks_of s" for u
    using assms(1) calculation(2) that m by (simp add: init_data_static_def Let_def n_def del: min_less_iff_conj)
  moreover have "static_workers nw start stop g = nat n" by (simp add: static_workers_def n_def ceil_div_one)
  ultimately show ?thesis
    using assms(1,3) n by (simp add: sched_setloop_def Let_def)
qed

text \<open>One loop: it covers its indexes, unless \<open>taskv\<close> has no room or the assertion fails.\<close>

lemma static_run_ok:
  assumes "0 < g" and "0 \<le> start" and "start < stop" and "0 < nw" and "nw \<le> length (tasks_of s)"
    and m: "m = static_workers nw start stop g"
  shows "if m = 1 \<or> jump s + m \<le> taskv_size s \<and> jump s < 8 * m
    then \<exists>xs s'. parfor_static_run start stop 1 (- g) nw s = Inr (xs, s') \<and> mset xs = mset (loop_indexes 1 start stop) \<and>
      jump s' = (if m = 1 then jump s else jump s + m) \<and> taskv_size s' = taskv_size s \<and> length (tasks_of s') = length (tasks_of s)
    else \<exists>e. parfor_static_run start stop 1 (- g) nw s = Inl e"
proof -
  obtain u where u: "sched_setloop start stop 1 (- g) nw s = Inr u" "0 < sd_nw u" "sd_nw u = static_workers nw start stop g"
      "sd_chunk u = stop" "sd_step u = 1" "sd_start u = start" "sd_stop u = stop" "jump u = jump s" "taskv_size u = taskv_size s"
      "length (tasks_of u) = length (tasks_of s)"
      "\<forall>i < sd_nw u. tasks_of u ! i = \<lparr>ntask = 1, task_start = start + int i * g, task_end = stop\<rparr>"
    using static_grain_setloop [OF assms(1,3-5)] by blast
  have nwm: "sd_nw u = m" using u(3) m by simp
  note u = u(1) u(2) [unfolded nwm] nwm u(4-10) u(11) [unfolded nwm]
  have le: "m \<le> length (tasks_of u)" using assms(5) u(10) unfolding m static_workers_def by simp
  show ?thesis
  proof (cases "m = 1")
    case True
    then show ?thesis using u static_all [of g 1 start stop] assms(1) by (simp add: parfor_static_run_def)
  next
    case many: False
    have s: "if jump u + sd_nw u \<le> taskv_size u \<and> jump u < 8 * sd_nw u
      then \<exists>s'. sendTask True u = Inr (map (\<lambda>i. (i, task_start (tasks_of u ! i),
          min (task_start (tasks_of u ! i) + ((sd_chunk u - 1) * sd_step u + 1)) (task_end (tasks_of u ! i)))) [0..<sd_nw u], s') \<and>
        jump s' = jump u + sd_nw u \<and> taskv_size s' = taskv_size u \<and> length (tasks_of s') = length (tasks_of u)
      else \<exists>e. sendTask True u = Inl e"
      using u le by (intro sendTask_static) simp_all
    show ?thesis
    proof (cases "jump s + m \<le> taskv_size s \<and> jump s < 8 * m")
      case True
      have eq: "map (\<lambda>i. (i, task_start (tasks_of u ! i),
          min (task_start (tasks_of u ! i) + ((sd_chunk u - 1) * sd_step u + 1)) (task_end (tasks_of u ! i)))) [0..<m] =
          map (\<lambda>i. (i, start + int i * g, stop)) [0..<m]"
      proof (intro map_cong refl)
        fix i assume "i \<in> set [0..<m]"
        moreover have "0 \<le> int i * g" using assms(1) by simp
        ultimately show "(i, task_start (tasks_of u ! i),
            min (task_start (tasks_of u ! i) + ((sd_chunk u - 1) * sd_step u + 1)) (task_end (tasks_of u ! i))) = (i, start + int i * g, stop)"
          using u(4,5,11) assms(2) by simp
      qed
      obtain s' where s': "sendTask True u = Inr (map (\<lambda>i. (i, start + int i * g, stop)) [0..<m], s')"
        "jump s' = jump s + m" "taskv_size s' = taskv_size s" "length (tasks_of s') = length (tasks_of s)"
        using s unfolding u(3,8,9,10) eq using True by (simp only: simp_thms if_True) blast
      have "mset (concat (map (\<lambda>i. static_indexes (- g) 1 m (start + int i * g) stop) [0..<m])) = mset (loop_indexes 1 start stop)"
        using static_all [OF assms(1) u(2), of start stop] by (simp add: mset_concat interv_sum_list_conv_sum_set_nat comp_def atLeast0LessThan)
      then show ?thesis using True many u(1-3) s' assms(1) by (simp add: parfor_static_run_def comp_def)
    next
      case False
      then have "\<not> (jump u + sd_nw u \<le> taskv_size u \<and> jump u < 8 * sd_nw u)" using u(3,8,9) by simp
      then obtain e where "sendTask True u = Inl e" using s by (simp only: if_False) blast
      then show ?thesis using False many u(1-3) assms(1) by (simp add: parfor_static_run_def)
    qed
  qed
qed

text \<open>
  Loops with a static grain and step 1, one after another, each with its start, end and grain, and
  when they fit: \<open>taskv\<close> has \<open>n\<close> entries, of which the loops before have used \<open>j\<close>. A loop that
  needs one worker uses none.
\<close>

fun static_loops :: "nat \<Rightarrow> (int \<times> int \<times> int) list \<Rightarrow> scheduler \<Rightarrow> err + int list list \<times> scheduler" where
  "static_loops nw [] s = Inr ([], s)"
| "static_loops nw ((start, stop, g) # ls) s =
     (case parfor_static_run start stop 1 (- g) nw s of Inl e \<Rightarrow> Inl e
      | Inr (xs, s) \<Rightarrow> (case static_loops nw ls s of Inl e \<Rightarrow> Inl e | Inr (xss, s) \<Rightarrow> Inr (xs # xss, s)))"

fun static_fits :: "nat \<Rightarrow> nat \<Rightarrow> nat \<Rightarrow> (int \<times> int \<times> int) list \<Rightarrow> bool" where
  "static_fits nw n j [] \<longleftrightarrow> True"
| "static_fits nw n j ((start, stop, g) # ls) \<longleftrightarrow>
     (let m = static_workers nw start stop g in
      if m = 1 then static_fits nw n j ls
      else j + m \<le> n \<and> j < 8 * m \<and> static_fits nw n (j + m) ls)"

text \<open>Eight loops that occupy all workers fit when \<open>jump\<close> has just been reset.\<close>

lemma static_fits_eight:
  "\<forall>(start, stop, g) \<in> set ls. static_workers nw start stop g = nw \<Longrightarrow> 0 < nw \<Longrightarrow>
    nw = 1 \<or> j + length ls * nw \<le> 8 * nw \<Longrightarrow> static_fits nw (8 * nw) j ls"
  by (induction ls arbitrary: j) (auto simp: Let_def)

subsection \<open>Where the loops go wrong\<close>

text \<open>The scheduler as the constructor of the farm makes it.\<close>

definition new_scheduler :: "nat \<Rightarrow> err + scheduler" where
  "new_scheduler nw =
     (case init_data 0 0 \<lparr>tasks_of = [], max_id = - 1, sd_start = 0, sd_stop = 0, sd_step = 1, sd_chunk = 1,
        sd_nw = nw, totaltasks = 0, static_scheduling = False, jump = 0, skip1 = False, taskv_size = 0\<rparr> of
       Inl e \<Rightarrow> Inl e
     | Inr s \<Rightarrow> if totaltasks s \<noteq> 0 then Inl AssertFailed else Inr s)"

text \<open>Several loops in a row.\<close>

fun repeat_static :: "nat \<Rightarrow> int \<Rightarrow> int \<Rightarrow> int \<Rightarrow> int \<Rightarrow> nat \<Rightarrow> err + scheduler \<Rightarrow> err + int list \<times> scheduler" where
  "repeat_static n start stop step chunk nw (Inl e) = Inl e"
| "repeat_static 0 start stop step chunk nw (Inr s) = parfor_static_run start stop step chunk nw s"
| "repeat_static (Suc n) start stop step chunk nw (Inr s) =
     repeat_static n start stop step chunk nw (map_sum id snd (parfor_static_run start stop step chunk nw s))"

lemma init_data_empty:
  assumes "0 < sd_step s" and "0 < sd_chunk s" and "stop \<le> start" 
  shows "init_data start stop s = Inl AssertFailed \<or> (\<exists>s'. init_data start stop s = Inr s' \<and> totaltasks s' = 0)"
proof -
  have "\<not> 0 < ceil_div (stop - start) (sd_step s)" using ceil_div_pos assms by simp
  then have t: "\<not> 0 < ceil_div (ceil_div (stop - start) (sd_step s)) (sd_chunk s)" using ceil_div_pos [OF assms(2)] by blast
  have "split_tasks st c sp x r k i tk a d = (tk, d)" if "\<not> 0 < tk" for st c sp x r k i tk a d
    using that by (cases k) simp_all
  then show ?thesis using t by (auto simp: init_data_def Let_def split: prod.splits)
qed

lemma setloop_empty:
  assumes "0 < step" and "0 < chunk" and "stop \<le> start"
  shows "sched_setloop start stop step chunk nw s = Inl AssertFailed"
proof -
  let ?s = "s\<lparr>sd_start := start, sd_stop := stop, sd_step := step, sd_chunk := chunk, sd_nw := nw\<rparr>"
  show ?thesis
    using init_data_empty [of ?s stop start] assms by (auto simp: sched_setloop_def Let_def)
qed

lemma new_scheduler_ok:
  "\<exists>s. new_scheduler nw = Inr s \<and> (\<forall>d\<in>set (tasks_of s). used_up d) \<and> length (tasks_of s) = nw \<and> jump s = 0 \<and> taskv_size s = 8 * nw"
proof -
  have "split_tasks 1 1 0 0 0 nw 0 0 0 d = (0, d)" for d by (cases nw) simp_all
  then show ?thesis
    using resize_data(1) [of nw "[]"] resize_data(2) [where n = nw and d = "[]"] by (simp add: new_scheduler_def init_data_def Let_def ceil_div_def)
qed

text \<open>
  C13. Parallel loops without the scheduler thread. For a non-empty range, a positive step and a
  chunk that is positive (dynamic scheduling with stealing) or zero (static blocks), \<open>setloop\<close> and
  \<open>sendTask\<close> succeed on the task table that an earlier loop left behind. Whatever the interleaving
  of the atomic accesses of the workers, spurious failures of the compare-and-swap included, the
  workers can always still finish, and when they have, every index of the loop has been run exactly
  once and the task table is fit for the next loop.
\<close>

theorem parfor_exactly_once:
  assumes "0 < step" and "0 \<le> chunk" and "0 < nw" and "start < stop" and "\<forall>d\<in>set (tasks_of s). used_up d"
  shows "\<exists>s1 sends s2. sched_setloop start stop step chunk nw s = Inr s1 \<and> sendTask True s1 = Inr (sends, s2) \<and>
    (\<forall>t. parfor_step\<^sup>*\<^sup>* (parfor_start sends s2) t \<longrightarrow>
      (\<exists>u. parfor_step\<^sup>*\<^sup>* t u \<and> (\<forall>w < sd_nw s2. pf_pc u w = Finished)) \<and>
      ((\<forall>w < sd_nw s2. pf_pc t w = Finished) \<longrightarrow>
        mset (executed t) = mset (loop_indexes step start stop) \<and> (\<forall>d\<in>set (tasks_of (pf_sched t)). used_up d)))"
proof -
  obtain s1 sends s2 where s: "sched_setloop start stop step chunk nw s = Inr s1" "sendTask True s1 = Inr (sends, s2)"
      "pf_inv (mset (loop_indexes step start stop)) (parfor_start sends s2)" "max_id s2 = - 1"
    using parfor_setup [OF assms] by blast
  have "(\<exists>u. parfor_step\<^sup>*\<^sup>* t u \<and> (\<forall>w < sd_nw s2. pf_pc u w = Finished)) \<and> ((\<forall>w < sd_nw s2. pf_pc t w = Finished) \<longrightarrow>
      mset (executed t) = mset (loop_indexes step start stop) \<and> (\<forall>d\<in>set (tasks_of (pf_sched t)). used_up d))"
    if run: "parfor_step\<^sup>*\<^sup>* (parfor_start sends s2) t" for t
  proof -
    note inv = parfor_steps_inv [OF run s(3)]
    have nw: "sd_nw (pf_sched t) = sd_nw s2" using parfor_steps_nw [OF run] by (simp add: parfor_start_def)
    have "max_id (pf_sched t) < int (length (tasks_of (pf_sched t)))"
      using s(4) by (intro parfor_steps_max [OF run s(3)]) (simp add: parfor_start_def)
    then show ?thesis using finish_all [OF inv] parfor_end [OF inv] nw by (simp add: all_set_conv_all_nth)
  qed
  then show ?thesis using s(1,2) by blast
qed

theorem parfor_exactly_once_witness:
  "\<exists>s. new_scheduler 2 = Inr s \<and> (\<exists>s1 sends s2. sched_setloop 0 5 2 1 2 s = Inr s1 \<and> sendTask True s1 = Inr (sends, s2) \<and>
    (\<forall>t. parfor_step\<^sup>*\<^sup>* (parfor_start sends s2) t \<longrightarrow>
      (\<exists>u. parfor_step\<^sup>*\<^sup>* t u \<and> (\<forall>w < sd_nw s2. pf_pc u w = Finished)) \<and>
      ((\<forall>w < sd_nw s2. pf_pc t w = Finished) \<longrightarrow> mset (executed t) = {#0, 2, 4#} \<and> (\<forall>d\<in>set (tasks_of (pf_sched t)). used_up d))))"
proof -
  obtain s where s: "new_scheduler 2 = Inr s" "\<forall>d\<in>set (tasks_of s). used_up d" using new_scheduler_ok [of 2] by blast
  have "mset (loop_indexes 2 0 5) = {#0, 2, 4#}" by code_simp
  then show ?thesis using parfor_exactly_once [where step = 2 and chunk = 1 and nw = 2 and start = 0 and stop = 5, OF _ _ _ _ s(2)] s(1) by simp
qed

text \<open>
  C39. Static scheduling with a grain and step 1: loops one after another, each on a non-empty range
  that does not start below zero, with a positive grain, on a task table with an entry for each of
  the \<open>nw\<close> workers. The rounds of tasks of the loops, one entry of \<open>taskv\<close> for each occupied worker,
  are kept behind each other until a loop of another kind resets \<open>jump\<close>. If they fit
  (\<open>static_fits\<close>; so up to eight loops that occupy all workers), in every loop the blocks of the
  workers cover every index exactly once; otherwise the program stops with a write behind \<open>taskv\<close> or
  a failed assertion.
\<close>

theorem parfor_static_grain:
  assumes "0 < nw" and "nw \<le> length (tasks_of s)" and "\<forall>(start, stop, g) \<in> set ls. 0 < g \<and> 0 \<le> start \<and> start < stop"
  shows "if static_fits nw (taskv_size s) (jump s) ls
    then \<exists>xss s'. static_loops nw ls s = Inr (xss, s') \<and>
      map mset xss = map (\<lambda>(start, stop, g). mset (loop_indexes 1 start stop)) ls
    else \<exists>e. static_loops nw ls s = Inl e"
  using assms(2,3)
proof (induction ls arbitrary: s)
  case (Cons l ls)
  obtain start stop g where l: "l = (start, stop, g)" by (cases l)
  let ?m = "static_workers nw start stop g"
  have g: "0 < g" "0 \<le> start" "start < stop" using Cons.prems(2) l by auto
  note run = static_run_ok [OF g assms(1) Cons.prems(1) refl]
  show ?case
  proof (cases "?m = 1 \<or> jump s + ?m \<le> taskv_size s \<and> jump s < 8 * ?m")
    case True
    then obtain xs s' where r: "parfor_static_run start stop 1 (- g) nw s = Inr (xs, s')" "mset xs = mset (loop_indexes 1 start stop)"
      "jump s' = (if ?m = 1 then jump s else jump s + ?m)" "taskv_size s' = taskv_size s" "length (tasks_of s') = length (tasks_of s)"
      using run by (simp only: if_True) blast
    have "static_fits nw (taskv_size s) (jump s) (l # ls) = static_fits nw (taskv_size s') (jump s') ls"
      using True r(3,4) l by (auto simp: Let_def)
    then show ?thesis using Cons.IH [of s'] Cons.prems r(1,2,5) l by auto
  next
    case False
    then obtain e where "parfor_static_run start stop 1 (- g) nw s = Inl e" using run by (simp only: if_False) blast
    then show ?thesis using False l by (auto simp: Let_def)
  qed
qed simp

text \<open>Eight loops with two workers.\<close>

theorem parfor_static_grain_witness:
  "\<exists>s. new_scheduler 2 = Inr s \<and> (\<exists>xss s'. static_loops 2 (replicate 8 (0, 5, 2)) s = Inr (xss, s') \<and>
    map mset xss = replicate 8 (mset [0, 1, 2, 3, 4]))"
proof -
  obtain s where s: "new_scheduler 2 = Inr s" "length (tasks_of s) = 2" "jump s = 0" "taskv_size s = 8 * 2"
    using new_scheduler_ok [of 2] by blast
  have w: "static_workers 2 0 5 2 = 2" by code_simp
  have "static_fits 2 (8 * 2) 0 (replicate 8 (0, 5, 2))" by (rule static_fits_eight) (simp_all add: w)
  moreover have "loop_indexes 1 0 5 = [0, 1, 2, 3, 4]" by code_simp
  ultimately show ?thesis using parfor_static_grain [of 2 s "replicate 8 (0, 5, 2)"] s by (simp del: replicate.simps)
qed

text \<open>
  C40. Loops the scheduler does not run as they are written. An empty range with a positive chunk fails
  the assertion of \<open>setloop\<close>. With a static grain the offsets of the workers lack the step: the loop
  from 0 to 8 by 2 with grain 1 and two workers runs 0, 4, 1 and 5. A range that starts below zero is
  cut at \<open>start + stop\<close>. The counter \<open>jump\<close> is not reset by such loops: eight in a row work and the
  ninth writes behind \<open>taskv\<close>.
\<close>

theorem parfor_faults:
  "(0 < step \<and> 0 < chunk \<and> stop \<le> start \<longrightarrow> sched_setloop start stop step chunk nw s = Inl AssertFailed) \<and>
   map_sum id fst (repeat_static 0 0 8 2 (- 1) 2 (new_scheduler 2)) = Inr [0, 4, 1, 5] \<and> loop_indexes 2 0 8 = [0, 2, 4, 6] \<and>
   map_sum id fst (repeat_static 0 (- 5) 3 1 (- 1) 2 (new_scheduler 2)) = Inr [- 5, - 3, - 4, - 2] \<and>
   loop_indexes 1 (- 5) 3 = [- 5, - 4, - 3, - 2, - 1, 0, 1, 2] \<and>
   map_sum id fst (repeat_static 7 0 4 1 (- 1) 2 (new_scheduler 2)) = Inr [0, 2, 1, 3] \<and>
   map_sum id fst (repeat_static 8 0 4 1 (- 1) 2 (new_scheduler 2)) = Inl BadAccess"
proof (intro conjI impI)
  show "map_sum id fst (repeat_static 0 0 8 2 (- 1) 2 (new_scheduler 2)) = Inr [0, 4, 1, 5]" by code_simp
  show "loop_indexes 2 0 8 = [0, 2, 4, 6]" by code_simp
  show "map_sum id fst (repeat_static 0 (- 5) 3 1 (- 1) 2 (new_scheduler 2)) = Inr [- 5, - 3, - 4, - 2]" by code_simp
  show "loop_indexes 1 (- 5) 3 = [- 5, - 4, - 3, - 2, - 1, 0, 1, 2]" by code_simp
  show "map_sum id fst (repeat_static 7 0 4 1 (- 1) 2 (new_scheduler 2)) = Inr [0, 2, 1, 3]" by code_simp
  show "map_sum id fst (repeat_static 8 0 4 1 (- 1) 2 (new_scheduler 2)) = Inl BadAccess" by code_simp
qed (simp add: setloop_empty)

theorem parfor_faults_witness: "sched_setloop 3 3 1 1 2 (projr (new_scheduler 2)) = Inl AssertFailed"
  using parfor_faults [of 1 1 3 3] by simp

end
