(* ===== verification/Spec2Isabelle.thy ===== *)
theory Spec2Isabelle
  imports FFBarrier FFLock FFUMpmcRun DedupQueue DedupRuns FFUBufferConc FFDynqueueMP FFOFarmRun FFSqueue FFHash DedupReorder DedupPipeMarks FFParForRun
begin

text \<open>
  A verification development for P3ARSEC (\<open>src/parsec-ff\<close>): the PARSEC kernel \<open>dedup\<close> in its
  FastFlow versions, and the data structures of FastFlow that carry its data.

  \<^bold>\<open>The program.\<close> \<open>dedup\<close> (\<open>pkgs/kernels/dedup/src\<close>) compresses a file by deduplication. A
  fragmentation stage reads the input and cuts it into coarse chunks, a refinement stage cuts these
  at Rabin fingerprints, a deduplication stage looks up the SHA-1 of every chunk in a shared hash
  table, a compression stage compresses the chunks seen first, and a reorder stage writes
  everything in the order of the file, duplicates as references. The stages exchange ring buffers
  of pointers to chunks over the lock-free queues of FastFlow (\<open>pkgs/libs/fastflow/ff\<close>). Two
  skeletons are modelled: the ordered farm (\<open>encoder_ff_ofarm.cpp\<close>), where every worker runs
  refinement, deduplication and compression on its task and an ordering collector writes, and the
  pipe of farms (\<open>encoder_ff_pipeoffarms.cpp\<close>), where each of the three is a farm of its own and
  the reorder stage restores the order itself.

  \<^bold>\<open>Theories and sources.\<close>
  \<^item> Prelude: machine integers, errors as values, circular segments of arrays. Fifo and KeyTable:
    the interfaces, as locales, of the queues and of the hash tables. Proc: threads as values that
    perform atomic actions on a shared state, with a locale for rely-guarantee reasoning.
  \<^item> RingBuffer (\<open>queue.h\<close>), DedupQueue (\<open>queue.c\<close>), MBuffer (\<open>mbuffer.c\<close>), Hashtable
    (\<open>hashtable.c\<close>, \<open>hashtable_private.h\<close>): the data structures of the kernel.
  \<^item> DedupTypes (\<open>dedupdef.h\<close>), DedupKernel (statistics, \<open>write_file\<close>, \<open>create_output_file\<close>,
    \<open>write_chunk_to_file\<close>, \<open>sub_Compress\<close>, \<open>sub_Deduplicate\<close> as atomic actions), DedupFormat (the
    output format and its reader), DedupStore (the invariant of the shared state, kept by every
    action), BufferChain (how stages fill and drain ring buffers).
  \<^item> DedupRefine, DedupFragment, DedupWorkers: the classes \<open>FragmentRefine\<close>, \<open>Fragment\<close>,
    \<open>Deduplicate\<close>, \<open>Compress\<close>, \<open>Reorder\<close> and \<open>CollapsedPipeline\<close> of \<open>encoder_ff_ofarm.cpp\<close>.
    DedupSafety: what a worker guarantees whatever the others do. DedupOFarm: \<open>runSingleFarm\<close> as
    events of its threads. DedupEncode, DedupRuns: \<open>EncodeFF\<close> and its runs.
  \<^item> DedupReorder: the class \<open>Reorder\<close> of \<open>encoder_ff_pipeoffarms.cpp\<close>.
  \<^item> DedupPipe, DedupPipeMarks: the other classes of that file, \<open>runPipeOfFarms\<close> as atomic steps of
    the threads of three farms, \<open>EncodeFF\<close>, and the life of the end marks.
  \<^item> FFBuffer (\<open>buffer.hpp\<close>), FFDynqueue (\<open>dynqueue.hpp\<close>), FFUBuffer (\<open>ubuffer.hpp\<close>), FFSvector
    (\<open>svector.hpp\<close>), FFSqueue (\<open>squeue.hpp\<close>), FFHash (\<open>icl_hash.h\<close>): data structures of FastFlow.
    FFDynqueueMP, FFUBufferConc: \<open>mp_push\<close> and \<open>mp_pop\<close>, and the unbounded buffer with a producer
    and a consumer thread, as step relations.
  \<^item> FFMpmc, FFMpmcRun (\<open>MPMC_Ptr_Queue\<close> in \<open>mpmc/MPMCqueues.hpp\<close>): the bounded queue for many producers
    and consumers as a step relation, with the tickets of its cells as invariant. FFUMpmc, FFUMpmcRun
    (\<open>uMPMC_Ptr_Queue\<close>): the same for the unbounded queue over an array of unbounded buffers.
  \<^item> FFBarrier (\<open>spinBarrier\<close> in \<open>barrier.hpp\<close>) and FFLock (\<open>CLHSpinLock\<close> in \<open>spin-lock.hpp\<close>): the barrier
    that closes the rounds of the parallel loops, and the queue lock.
  \<^item> FFParFor, FFParForRun: the parallel loops (\<open>parallel_for_internals.hpp\<close>): the task table and the
    workers that share it, the division of the range and the sending of the first tasks.
  \<^item> FFOFarm, FFOFarmRun: the ordered farm (\<open>ff_ofarm\<close> in \<open>farm.hpp\<close> with the loops of \<open>lb.hpp\<close>,
    \<open>gt.hpp\<close> and \<open>node.hpp\<close>), on which the order of tasks and results in DedupOFarm rests.

  \<^bold>\<open>How the model corresponds to the code.\<close> A class or struct is a record with its members, an
  operation a function from the old state to the result and the new state. Machine integers keep
  their width where they wrap (\<open>u32\<close>, \<open>u64\<close>; \<open>to_size_t\<close> for conversions of negative numbers).
  Failed assertions, \<open>EXIT_TRACE\<close> and accesses outside a block are values of \<open>err\<close>. Memory is
  explicit where sharing matters (MBuffer, FFSvector, FFSqueue, the shared store of chunks);
  chunks that only one thread holds are values. A critical section is one atomic action, and a
  thread between two actions touches nothing shared; all schedules are considered. Loops that may
  run for ever or whose bound is a property of the data structure have fuel: the size of the buffer
  for draining it (a buffer of size \<open>n\<close> holds less than \<open>n\<close> items), the number of chunks for the
  write loop of the reorder stage (each round but the first takes one out of the cache), 65 rounds
  for the next power of 2 of a 64-bit number; running
  out of fuel is a failure that the theorems exclude.

  \<^bold>\<open>What is shown.\<close> This theory: whatever the interleaving, the ordered farm does not fail or
  deadlock (\<open>encode_progress\<close>), ends within an explicit number of steps (\<open>encode_terminates\<close>), and
  leaves a file that decodes to the input (\<open>encode_roundtrip\<close>), under named hypotheses: the
  fingerprint function stays within its block, compression can be undone, writes succeed
  (\<open>ext_ok\<close>), digests of the blocks at hand do not collide (\<open>collision_free\<close>), and the system
  calls succeed (\<open>env_ok\<close>); a concrete environment satisfies all of them. The other theories hold
  the properties of their component: refinement of an abstract container by every sequence of
  operations, invariants, exact error conditions, bounds, and the places where the code departs
  from its contract.

  \<^bold>\<open>Not modelled.\<close> Rabin fingerprints, SHA-1, the compression libraries, the search tree and the
  heaps of the reorder stage are not in the repository: they are parameters, with their documented
  behaviour as hypotheses. Memory models and fences below sequential consistency, the threads and
  virtual dispatch of FastFlow, its unordered farms beyond the run relation of DedupPipe, the accelerator backends,
  SkePU 2, the numerical applications, and the files patched into programs that are not in the
  repository are left out; the remaining encoders repeat the modelled ones.
\<close>

section \<open>The encoder as a whole\<close>

text \<open>
  C1. Whatever the interleaving of the threads, when the encoder has finished, a reader of the
  output file recovers exactly the input: duplicates are resolved to earlier chunks, no chunk is
  lost, and the order is that of the input.
\<close>

theorem encode_roundtrip:
  assumes "ext_ok X conf D hdr" and "env_ok E" and "0 < nthreads conf"
    and "length (in_file (e_in E)) < 2 ^ 31 - 2"
    and "EncodeFF_start X conf E = Inr (outs, s0)" and "collision_free X outs"
    and "farm_run X conf outs (nthreads conf) es s0 = Some s" and fin: "farm_final s"
  shows "decode_file D (fingerprint X) (length hdr) (outf (f_sh s)) = Some (in_file (e_in E))"
proof -
  obtain U ns c where "farm_inv X conf D hdr U outs (nthreads conf) ns c s"
    "emitted_ok X (in_file (e_in E)) (nthreads conf) outs"
    using encode_reaches [OF assms(1-7)] by metis
  then show ?thesis using farm_final_output [OF _ fin] by (simp add: emitted_ok_def)
qed

theorem encode_roundtrip_witness:
  "\<exists>outs s0 es s. EncodeFF_start demo_ext demo_conf demo_env = Inr (outs, s0) \<and>
    farm_run demo_ext demo_conf outs 2 es s0 = Some s \<and> farm_final s \<and>
    decode_file (\<lambda>z. z) (fingerprint demo_ext) 1 (outf (f_sh s)) = Some [1, 2, 1]"
proof -
  obtain outs s0 es s where r: "EncodeFF_start demo_ext demo_conf demo_env = Inr (outs, s0)"
    "collision_free demo_ext outs" "farm_run demo_ext demo_conf outs (nthreads demo_conf) es s0 = Some s" "farm_final s"
    using demo_run by blast
  have "decode_file (\<lambda>z. z) (fingerprint demo_ext) (length [of_int COMPRESS_GZIP :: byte]) (outf (f_sh s)) =
      Some (in_file (e_in demo_env))"
    by (rule encode_roundtrip [OF demo_ext_ok demo_env_ok demo_small r])
  then show ?thesis using r by (intro exI conjI) (simp_all add: demo_conf_def demo_env_def)
qed

text \<open>
  C2. No interleaving leads to a failed assertion, an error exit or a state in which nothing can
  happen: a reachable state is the end of the run, or some thread can take a step.
\<close>

theorem encode_progress:
  assumes "ext_ok X conf D hdr" and "env_ok E" and "0 < nthreads conf"
    and "length (in_file (e_in E)) < 2 ^ 31 - 2"
    and "EncodeFF_start X conf E = Inr (outs, s0)" and "collision_free X outs"
    and "farm_run X conf outs (nthreads conf) es s0 = Some s"
  shows "f_crash s = None \<and> (farm_final s \<or> (\<exists>e u. farm_do X conf outs (nthreads conf) e s = Some u))"
proof -
  obtain U ns c where inv: "farm_inv X conf D hdr U outs (nthreads conf) ns c s"
    using encode_reaches [OF assms] by metis
  then show ?thesis using farm_progress [OF inv] farm_inv_parts(1) [OF inv] by (simp add: enabled_def)
qed

theorem encode_progress_witness:
  "\<exists>outs s0. EncodeFF_start demo_ext demo_conf demo_env = Inr (outs, s0) \<and> \<not> farm_final s0 \<and>
    (\<exists>e u. farm_do demo_ext demo_conf outs 2 e s0 = Some u)"
proof -
  obtain outs s0 where s: "EncodeFF_start demo_ext demo_conf demo_env = Inr (outs, s0)" "\<not> farm_final s0"
    using demo_start by blast
  have "f_crash s0 = None \<and> (farm_final s0 \<or> (\<exists>e u. farm_do demo_ext demo_conf outs (nthreads demo_conf) e s0 = Some u))"
    by (rule encode_progress [OF demo_ext_ok demo_env_ok demo_small s(1) demo_collision_free [OF s(1)], of "[]"]) simp
  then show ?thesis using s by (simp add: demo_conf_def)
qed

text \<open>
  C3. Every run ends: it has at most five steps per task and six per block of data, whatever the
  scheduler does, and every run can be continued to the end.
\<close>

theorem encode_terminates:
  assumes "ext_ok X conf D hdr" and "env_ok E" and "0 < nthreads conf"
    and "length (in_file (e_in E)) < 2 ^ 31 - 2"
    and "EncodeFF_start X conf E = Inr (outs, s0)" and "collision_free X outs"
    and "farm_run X conf outs (nthreads conf) es s0 = Some s"
  shows "length es \<le> 5 * length outs + 6 * length (task_block_list X outs) \<and>
    (\<exists>fs u. farm_run X conf outs (nthreads conf) (es @ fs) s0 = Some u \<and> farm_final u)"
proof -
  obtain U ns c where inv: "farm_inv X conf D hdr U outs (nthreads conf) ns c s"
    "farm_setup X conf D hdr U outs (nthreads conf)"
    "farm_measure outs ns c s + length es \<le> 5 * length outs + 6 * length (task_block_list X outs)"
    using encode_reaches [OF assms] by metis
  then show ?thesis
    using encode_completes [OF inv(2,1)] assms(7) by (auto simp: farm_run_append)
qed

theorem encode_terminates_witness:
  "\<exists>outs s0 fs u. EncodeFF_start demo_ext demo_conf demo_env = Inr (outs, s0) \<and>
    farm_run demo_ext demo_conf outs 2 fs s0 = Some u \<and> farm_final u"
proof -
  obtain outs s0 where s: "EncodeFF_start demo_ext demo_conf demo_env = Inr (outs, s0)"
    using demo_start by blast
  have "\<exists>fs u. farm_run demo_ext demo_conf outs (nthreads demo_conf) ([] @ fs) s0 = Some u \<and> farm_final u"
    by (rule conjunct2 [OF encode_terminates [OF demo_ext_ok demo_env_ok demo_small s demo_collision_free [OF s]]]) simp
  then show ?thesis using s by (simp add: demo_conf_def)
qed



end
